(* ===== verification/Prelude.thy ===== *)
theory Prelude
  imports Main "HOL-Library.Word" "HOL-Library.Monad_Syntax"
begin

text \<open>
  Shared vocabulary of the LiquidCache development: the machine types the Rust code uses,
  the cache key \<open>EntryID\<close> (\<^verbatim>\<open>src/storage/src/cache/utils.rs\<close>), the tags of cached batches
  (\<^verbatim>\<open>src/storage/src/cache/cached_batch.rs\<close>), and the generic facts on lists, options, maps
  and words that several component theories use. \<open>usize\<close> is 64 bits wide, as on every target
  the repository builds for.
\<close>

section \<open>Machine types\<close>

type_synonym u8 = "8 word"
type_synonym u16 = "16 word"
type_synonym u32 = "32 word"
type_synonym u64 = "64 word"
type_synonym usize = "64 word"
type_synonym bytes = "u8 list"

section \<open>Cache keys and batch tags\<close>

text \<open>\<open>EntryID\<close> wraps a \<open>usize\<close>; the derived \<open>Ord\<close> compares the wrapped value.\<close>

datatype entry_id = EntryID (eid_val: usize)

instantiation entry_id :: linorder
begin

definition less_eq_entry_id :: "entry_id \<Rightarrow> entry_id \<Rightarrow> bool" where
  "less_eq_entry_id a b \<longleftrightarrow> eid_val a \<le> eid_val b"

definition less_entry_id :: "entry_id \<Rightarrow> entry_id \<Rightarrow> bool" where
  "less_entry_id a b \<longleftrightarrow> eid_val a < eid_val b"

instance
  by standard (auto simp: less_eq_entry_id_def less_entry_id_def entry_id.expand)

end

datatype batch_type =
    BT_MemoryArrow
  | BT_MemoryLiquid
  | BT_MemorySqueezedLiquid
  | BT_DiskLiquid
  | BT_DiskArrow

section \<open>Collections used by the automation\<close>

named_theorems seg_simps \<open>facts on doubly linked segments\<close>
named_theorems abs_simps \<open>functional refinement equations of the cache policies\<close>
named_theorems inv_intros \<open>preservation of component invariants\<close>

section \<open>Lists\<close>

text \<open>The neighbour of a position in a list of pointers, or the value outside the list.\<close>

fun first_or :: "'a list \<Rightarrow> 'a option \<Rightarrow> 'a option" where
  "first_or [] d = d"
| "first_or (x # xs) d = Some x"

fun last_or :: "'a option \<Rightarrow> 'a list \<Rightarrow> 'a option" where
  "last_or d [] = d"
| "last_or d (x # xs) = last_or (Some x) xs"

lemma last_or_snoc [simp]: "last_or d (xs @ [x]) = Some x"
  by (induction xs arbitrary: d) auto

lemma last_or_append: "last_or d (xs @ ys) = last_or (last_or d xs) ys"
  by (induction xs arbitrary: d) auto

lemma first_or_append: "first_or (xs @ ys) d = first_or xs (first_or ys d)"
  by (cases xs) auto

lemma last_or_conv: "last_or d xs = (if xs = [] then d else Some (last xs))"
  by (induction xs arbitrary: d) auto

lemma first_or_conv: "first_or xs d = (if xs = [] then d else Some (hd xs))"
  by (cases xs) auto

lemma first_or_None [simp]: "first_or xs None = None \<longleftrightarrow> xs = []"
  by (cases xs) auto

lemma last_or_None [simp]: "last_or None xs = None \<longleftrightarrow> xs = []"
  by (simp add: last_or_conv)

lemma remove1_split:
  "p \<notin> set xs \<Longrightarrow> remove1 p (xs @ p # ys) = xs @ ys"
  by (simp add: remove1_append)

lemma set_drop_distinct: "distinct xs \<Longrightarrow> set (drop n xs) = set xs - set (take n xs)"
  using set_take_disj_set_drop_if_distinct [of xs n n] set_append [of "take n xs" "drop n xs"]
  by auto

lemma sum_list_remove1_nat:
  fixes f :: "'a \<Rightarrow> nat"
  shows "x \<in> set xs \<Longrightarrow> sum_list (map f xs) = f x + sum_list (map f (remove1 x xs))"
  by (induction xs) auto

end
