(* ===== verification/Budget.thy ===== *)
theory Budget
  imports Prelude
begin

text \<open>
  Memory and disk accounting of the cache, \<^verbatim>\<open>src/storage/src/cache/budget.rs\<close>. The struct
  \<open>BudgetAccounting\<close> is the record \<open>budget\<close>, its counters 64-bit words whose arithmetic wraps
  as the atomics' does. The first section models the operations run one after the other (the
  compare-exchange of a lone thread succeeds); the second models the lock-free loop of
  \<open>try_reserve_memory\<close> itself, every thread interleaving its load and its compare-exchange
  with the others, and shows that the limit and the accounting hold under every schedule.
\<close>

section \<open>The operations\<close>

record budget =
  max_memory_bytes :: usize
  used_memory_bytes :: usize
  used_disk_bytes :: usize

definition budget_new :: "usize \<Rightarrow> budget" where
  "budget_new m = \<lparr>max_memory_bytes = m, used_memory_bytes = 0, used_disk_bytes = 0\<rparr>"

definition reset_usage :: "budget \<Rightarrow> budget" where
  "reset_usage b = b\<lparr>used_memory_bytes := 0, used_disk_bytes := 0\<rparr>"

definition try_reserve_memory :: "budget \<Rightarrow> usize \<Rightarrow> unit + budget" where
  "try_reserve_memory b request =
     (let used = used_memory_bytes b in
      if used + request > max_memory_bytes b then Inl ()
      else Inr (b\<lparr>used_memory_bytes := used + request\<rparr>))"

definition try_update_memory_usage :: "budget \<Rightarrow> usize \<Rightarrow> usize \<Rightarrow> unit + budget" where
  "try_update_memory_usage b old_size new_size =
     (if old_size < new_size then try_reserve_memory b (new_size - old_size)
      else Inr (b\<lparr>used_memory_bytes := used_memory_bytes b - (old_size - new_size)\<rparr>))"

definition add_used_disk_bytes :: "budget \<Rightarrow> usize \<Rightarrow> budget" where
  "add_used_disk_bytes b n = b\<lparr>used_disk_bytes := used_disk_bytes b + n\<rparr>"

section \<open>The lock-free reservation loop\<close>

text \<open>
  Where a thread is inside \<open>try_reserve_memory\<close>: not in a call, about to load the counter, or
  about to compare-exchange from the value it loaded. \<open>held\<close> is the number of bytes each
  thread has reserved and not given back; it is what the callers know, not a field of the
  struct.
\<close>

datatype reserve_pc = Outside | LoadUsed usize | CasFrom usize usize

record shared_budget =
  limit :: usize
  cell :: usize
  pcs :: "nat \<Rightarrow> reserve_pc"
  held :: "nat \<Rightarrow> nat"

definition shared_init :: "usize \<Rightarrow> shared_budget" where
  "shared_init m = \<lparr>limit = m, cell = 0, pcs = (\<lambda>_. Outside), held = (\<lambda>_. 0)\<rparr>"

text \<open>
  One atomic action of one thread out of \<open>n\<close>. A call enters with a request that does not
  overflow the counter when added to the limit (requests are sizes of live allocations). The
  load also does the comparison with the limit, which touches no shared state. \<open>release\<close> is
  the \<open>fetch_sub\<close> of \<open>try_update_memory_usage\<close>, by a thread that gives back bytes it holds.
\<close>

inductive budget_step :: "nat \<Rightarrow> shared_budget \<Rightarrow> shared_budget \<Rightarrow> bool" for n where
  call: "t < n \<Longrightarrow> pcs s t = Outside \<Longrightarrow> unat (limit s) + unat r < 2 ^ 64 \<Longrightarrow>
    budget_step n s (s\<lparr>pcs := (pcs s)(t := LoadUsed r)\<rparr>)"
| load_full: "t < n \<Longrightarrow> pcs s t = LoadUsed r \<Longrightarrow> cell s + r > limit s \<Longrightarrow>
    budget_step n s (s\<lparr>pcs := (pcs s)(t := Outside)\<rparr>)"
| load_fits: "t < n \<Longrightarrow> pcs s t = LoadUsed r \<Longrightarrow> \<not> cell s + r > limit s \<Longrightarrow>
    budget_step n s (s\<lparr>pcs := (pcs s)(t := CasFrom (cell s) r)\<rparr>)"
| cas_ok: "t < n \<Longrightarrow> pcs s t = CasFrom u r \<Longrightarrow> cell s = u \<Longrightarrow>
    budget_step n s (s\<lparr>cell := u + r, pcs := (pcs s)(t := Outside),
                       held := (held s)(t := held s t + unat r)\<rparr>)"
| cas_retry: "t < n \<Longrightarrow> pcs s t = CasFrom u r \<Longrightarrow> cell s \<noteq> u \<Longrightarrow>
    budget_step n s (s\<lparr>pcs := (pcs s)(t := LoadUsed r)\<rparr>)"
| release: "t < n \<Longrightarrow> pcs s t = Outside \<Longrightarrow> unat d \<le> held s t \<Longrightarrow>
    budget_step n s (s\<lparr>cell := cell s - d, held := (held s)(t := held s t - unat d)\<rparr>)"

inductive budget_reachable :: "nat \<Rightarrow> usize \<Rightarrow> shared_budget \<Rightarrow> bool" for n m where
  init: "budget_reachable n m (shared_init m)"
| step: "budget_reachable n m s \<Longrightarrow> budget_step n s s' \<Longrightarrow> budget_reachable n m s'"

definition pending_ok :: "usize \<Rightarrow> reserve_pc \<Rightarrow> bool" where
  "pending_ok m pc = (case pc of
       Outside \<Rightarrow> True
     | LoadUsed r \<Rightarrow> unat m + unat r < 2 ^ 64
     | CasFrom u r \<Rightarrow> unat m + unat r < 2 ^ 64 \<and> (unat u \<le> unat m \<longrightarrow> unat u + unat r \<le> unat m))"

definition budget_inv :: "nat \<Rightarrow> usize \<Rightarrow> shared_budget \<Rightarrow> bool" where
  "budget_inv n m s \<longleftrightarrow> limit s = m \<and> unat (cell s) = (\<Sum>t<n. held s t)
     \<and> unat (cell s) \<le> unat m \<and> (\<forall>t. pending_ok m (pcs s t))"

section \<open>Facts about the sequential operations\<close>

lemma unat_add_no_overflow:
  fixes a b :: usize
  assumes "unat a + unat b < 2 ^ 64"
  shows "unat (a + b) = unat a + unat b"
  using assms by (simp add: unat_word_ariths)

lemma word_less_unat: "(a::usize) < b \<longleftrightarrow> unat a < unat b"
  by (simp add: word_less_nat_alt)

lemma unat_sub_le: "unat b \<le> unat a \<Longrightarrow> unat (a - b :: usize) = unat a - unat b"
  by (simp add: unat_sub word_le_nat_alt)

lemmas usize_simps = unat_add_no_overflow word_less_unat unat_sub_le not_less

lemma try_reserve_cases:
  assumes "unat (used_memory_bytes b) \<le> unat (max_memory_bytes b)"
    and "unat (max_memory_bytes b) + unat r < 2 ^ 64"
  shows "try_reserve_memory b r =
    (if unat (used_memory_bytes b) + unat r \<le> unat (max_memory_bytes b)
     then Inr (b\<lparr>used_memory_bytes := used_memory_bytes b + r\<rparr>) else Inl ())"
  using assms by (auto simp: try_reserve_memory_def Let_def usize_simps)

lemma try_update_cases:
  assumes "unat (used_memory_bytes b) \<le> unat (max_memory_bytes b)"
    and "unat old \<le> unat (used_memory_bytes b)"
    and "unat (max_memory_bytes b) + unat new < 2 ^ 64"
  shows "try_update_memory_usage b old new =
    (if unat (used_memory_bytes b) - unat old + unat new \<le> unat (max_memory_bytes b)
     then Inr (b\<lparr>used_memory_bytes := used_memory_bytes b - old + new\<rparr>) else Inl ())"
proof (cases "old < new")
  case True
  then have d: "unat (new - old) = unat new - unat old"
    by (simp add: usize_simps)
  have fit: "unat (max_memory_bytes b) + unat (new - old) < 2 ^ 64"
    using assms(3) d by simp
  have le: "unat (used_memory_bytes b) + unat (new - old) \<le> unat (max_memory_bytes b)
      \<longleftrightarrow> unat (used_memory_bytes b) - unat old + unat new \<le> unat (max_memory_bytes b)"
    using d assms(2) True by (auto simp: usize_simps)
  have eq: "used_memory_bytes b + (new - old) = used_memory_bytes b - old + new"
    by simp
  show ?thesis
    unfolding try_update_memory_usage_def try_reserve_cases [OF assms(1) fit] le eq
    using True by simp
next
  case False
  then have "unat new \<le> unat old" by (simp add: word_less_nat_alt)
  then have "unat (used_memory_bytes b) - unat old + unat new \<le> unat (max_memory_bytes b)"
    using assms(1,2) by simp
  then show ?thesis
    unfolding try_update_memory_usage_def using False by (simp add: algebra_simps)
qed

lemma unat_update:
  assumes "unat old \<le> unat (u::usize)" and "unat u - unat old + unat new < 2 ^ 64"
  shows "unat (u - old + new) = unat u - unat old + unat new"
  using assms by (simp add: unat_add_no_overflow unat_sub_le)

lemma try_update_disk_ok:
  "try_update_memory_usage b old 0 = Inr (b\<lparr>used_memory_bytes := used_memory_bytes b - old\<rparr>)"
  by (simp add: try_update_memory_usage_def)

lemma try_reserve_zero_ok:
  "used_memory_bytes b \<le> max_memory_bytes b \<Longrightarrow> try_reserve_memory b 0 = Inr b"
  by (simp add: try_reserve_memory_def Let_def)

section \<open>The concurrent loop keeps the limit\<close>

lemma sum_held_upd:
  fixes f :: "nat \<Rightarrow> nat"
  assumes "t < n"
  shows "(\<Sum>i<n. (f(t := v)) i) + f t = (\<Sum>i<n. f i) + v"
proof -
  have "(\<Sum>i<n. f i) = f t + (\<Sum>i\<in>{..<n} - {t}. f i)"
    using assms by (simp add: sum.remove)
  moreover have "(\<Sum>i<n. (f(t := v)) i) = v + (\<Sum>i\<in>{..<n} - {t}. f i)"
    using assms by (simp add: sum.remove [of "{..<n}" t])
  ultimately show ?thesis by simp
qed

lemma held_le_sum: "(t::nat) < n \<Longrightarrow> (f t :: nat) \<le> (\<Sum>i<n. f i)"
  by (rule member_le_sum) auto

lemma budget_inv_init: "budget_inv n m (shared_init m)"
  by (simp add: budget_inv_def shared_init_def pending_ok_def)

lemma budget_step_inv: "budget_step n s s' \<Longrightarrow> budget_inv n m s \<Longrightarrow> budget_inv n m s'"
proof (induction rule: budget_step.induct)
  case (call t s r)
  then show ?case by (auto simp: budget_inv_def pending_ok_def)
next
  case (load_full t s r)
  then show ?case by (auto simp: budget_inv_def pending_ok_def)
next
  case (load_fits t s r)
  then have "pending_ok m (LoadUsed r)"
    unfolding budget_inv_def by metis
  with load_fits show ?case
    by (auto simp: budget_inv_def pending_ok_def usize_simps)
next
  case (cas_ok t s u r)
  then have p: "pending_ok m (CasFrom u r)"
    unfolding budget_inv_def by metis
  from cas_ok have le: "unat u \<le> unat m" by (simp add: budget_inv_def)
  with p have s1: "unat u + unat r \<le> unat m" by (simp add: pending_ok_def)
  then have s2: "unat (u + r) = unat u + unat r"
    using unsigned_less [of m, where 'a = nat] by (intro unat_add_no_overflow) simp
  have "(\<Sum>i<n. ((held s)(t := held s t + unat r)) i) = (\<Sum>i<n. held s i) + unat r"
    using sum_held_upd [OF cas_ok(1), of "held s" "held s t + unat r"] by simp
  with cas_ok s1 s2 show ?case by (auto simp: budget_inv_def pending_ok_def)
next
  case (cas_retry t s u r)
  then have "pending_ok m (CasFrom u r)"
    unfolding budget_inv_def by metis
  with cas_retry show ?case by (auto simp: budget_inv_def pending_ok_def)
next
  case (release t s d)
  have le: "held s t \<le> (\<Sum>i<n. held s i)"
    by (rule held_le_sum [OF release(1)])
  then have d: "unat d \<le> unat (cell s)"
    using release by (simp add: budget_inv_def)
  have "(\<Sum>i<n. ((held s)(t := held s t - unat d)) i) = (\<Sum>i<n. held s i) - unat d"
    using sum_held_upd [OF release(1), of "held s" "held s t - unat d"] release(3) le by simp
  with release d show ?case by (auto simp: budget_inv_def unat_sub_le)
qed

lemma budget_reachable_inv: "budget_reachable n m s \<Longrightarrow> budget_inv n m s"
  by (induction rule: budget_reachable.induct) (auto intro: budget_inv_init budget_step_inv)

end
