(* ===== verification/DoublyLinkedList.thy ===== *)
theory DoublyLinkedList
  imports Prelude
begin

text \<open>
  The intrusive doubly linked list the replacement policies share,
  \<^verbatim>\<open>src/storage/src/cache/policies/cache/doubly_linked_list.rs\<close>, on an explicit heap. A
  \<open>NonNull\<close> pointer is an address; a node lives at its address from \<open>Box::leak\<close> to
  \<open>drop_boxed_node\<close>. Every dereference of the \<open>unsafe\<close> code is a lookup in the heap, and an
  operation that dereferences an address with no live node returns \<open>None\<close> (undefined
  behaviour of the source). Addresses are never reused, so every use after free shows up as
  \<open>None\<close>.

  \<open>dll_rep h l ps\<close> says that the header \<open>l\<close> represents the list of addresses \<open>ps\<close>. The lemmas
  show that each operation succeeds on a represented list and computes the expected list of
  addresses, leaving the payload of every node and every node outside the list alone.
\<close>

section \<open>Nodes, heap and list header\<close>

type_synonym ptr = nat

record 'd dnode =
  ndata :: 'd
  nprev :: "ptr option"
  nnext :: "ptr option"

record 'd heap =
  cells :: "ptr \<rightharpoonup> 'd dnode"
  brk :: ptr

record dll =
  head :: "ptr option"
  tail :: "ptr option"

definition heap_empty :: "'d heap" where
  "heap_empty = \<lparr>cells = Map.empty, brk = 0\<rparr>"

definition dll_new :: dll where
  "dll_new = \<lparr>head = None, tail = None\<rparr>"

text \<open>\<open>DoublyLinkedNode::new\<close> followed by \<open>Box::leak\<close>.\<close>

definition node_new :: "'d \<Rightarrow> 'd heap \<Rightarrow> ptr \<times> 'd heap" where
  "node_new d h = (brk h, h\<lparr>cells := (cells h)(brk h \<mapsto> \<lparr>ndata = d, nprev = None, nnext = None\<rparr>),
                            brk := Suc (brk h)\<rparr>)"

definition deref :: "'d heap \<Rightarrow> ptr \<Rightarrow> 'd dnode option" where
  "deref h p = cells h p"

definition store :: "ptr \<Rightarrow> 'd dnode \<Rightarrow> 'd heap \<Rightarrow> 'd heap" where
  "store p n h = h\<lparr>cells := (cells h)(p \<mapsto> n)\<rparr>"

definition drop_boxed_node :: "ptr \<Rightarrow> 'd heap \<Rightarrow> 'd heap option" where
  "drop_boxed_node p h = do {
     _ \<leftarrow> deref h p;
     Some (h\<lparr>cells := (cells h)(p := None)\<rparr>)
   }"

section \<open>Operations\<close>

definition push_front :: "ptr \<Rightarrow> 'd heap \<Rightarrow> dll \<Rightarrow> ('d heap \<times> dll) option" where
  "push_front p h l = do {
     node \<leftarrow> deref h p;
     let h1 = store p (node\<lparr>nprev := None, nnext := head l\<rparr>) h;
     case head l of
       Some q \<Rightarrow> do {
         n \<leftarrow> deref h1 q;
         Some (store q (n\<lparr>nprev := Some p\<rparr>) h1, l\<lparr>head := Some p\<rparr>)
       }
     | None \<Rightarrow> Some (h1, l\<lparr>tail := Some p, head := Some p\<rparr>)
   }"

definition push_back :: "ptr \<Rightarrow> 'd heap \<Rightarrow> dll \<Rightarrow> ('d heap \<times> dll) option" where
  "push_back p h l = do {
     node \<leftarrow> deref h p;
     let h1 = store p (node\<lparr>nnext := None, nprev := tail l\<rparr>) h;
     case tail l of
       Some q \<Rightarrow> do {
         n \<leftarrow> deref h1 q;
         Some (store q (n\<lparr>nnext := Some p\<rparr>) h1, l\<lparr>tail := Some p\<rparr>)
       }
     | None \<Rightarrow> Some (h1, l\<lparr>head := Some p, tail := Some p\<rparr>)
   }"

definition unlink :: "ptr \<Rightarrow> 'd heap \<Rightarrow> dll \<Rightarrow> ('d heap \<times> dll) option" where
  "unlink p h l = do {
     node \<leftarrow> deref h p;
     (h1, l1) \<leftarrow> (case nprev node of
         Some pv \<Rightarrow> do { n \<leftarrow> deref h pv; Some (store pv (n\<lparr>nnext := nnext node\<rparr>) h, l) }
       | None \<Rightarrow> Some (h, l\<lparr>head := nnext node\<rparr>));
     (h2, l2) \<leftarrow> (case nnext node of
         Some nx \<Rightarrow> do { n \<leftarrow> deref h1 nx; Some (store nx (n\<lparr>nprev := nprev node\<rparr>) h1, l1) }
       | None \<Rightarrow> Some (h1, l1\<lparr>tail := nprev node\<rparr>));
     n \<leftarrow> deref h2 p;
     Some (store p (n\<lparr>nprev := None, nnext := None\<rparr>) h2, l2)
   }"

definition move_to_front :: "ptr \<Rightarrow> 'd heap \<Rightarrow> dll \<Rightarrow> ('d heap \<times> dll) option" where
  "move_to_front p h l = do {
     (h1, l1) \<leftarrow> unlink p h l;
     push_front p h1 l1
   }"

text \<open>
  \<open>drop_all\<close> walks the \<open>next\<close> pointers and frees each node; the loop runs once per live node at
  most, and at most \<open>brk\<close> nodes were ever allocated, so \<open>brk + 1\<close> is fuel enough
  (\<open>drop_all_frees\<close> below).
\<close>

fun drop_from :: "nat \<Rightarrow> ptr option \<Rightarrow> 'd heap \<Rightarrow> 'd heap option" where
  "drop_from 0 cur h = None"
| "drop_from (Suc k) None h = Some h"
| "drop_from (Suc k) (Some p) h = do {
     n \<leftarrow> deref h p;
     h' \<leftarrow> drop_boxed_node p h;
     drop_from k (nnext n) h'
   }"

definition drop_all :: "'d heap \<Rightarrow> dll \<Rightarrow> ('d heap \<times> dll) option" where
  "drop_all h l = do { h' \<leftarrow> drop_from (Suc (brk h)) (head l) h; Some (h', dll_new) }"

section \<open>Representation\<close>

fun dlseg :: "(ptr \<rightharpoonup> 'd dnode) \<Rightarrow> ptr option \<Rightarrow> ptr list \<Rightarrow> ptr option \<Rightarrow> bool" where
  "dlseg c pv [] nx = True"
| "dlseg c pv (p # ps) nx =
     ((\<exists>d. c p = Some \<lparr>ndata = d, nprev = pv, nnext = first_or ps nx\<rparr>) \<and> dlseg c (Some p) ps nx)"

definition dll_rep :: "'d heap \<Rightarrow> dll \<Rightarrow> ptr list \<Rightarrow> bool" where
  "dll_rep h l ps \<longleftrightarrow> distinct ps \<and> head l = first_or ps None \<and> tail l = last_or None ps
     \<and> dlseg (cells h) None ps None"

text \<open>The payload stored at each live address.\<close>

definition payload :: "'d heap \<Rightarrow> ptr \<Rightarrow> 'd option" where
  "payload h p = map_option ndata (cells h p)"

definition heap_ok :: "'d heap \<Rightarrow> bool" where
  "heap_ok h \<longleftrightarrow> (\<forall>p \<in> dom (cells h). p < brk h)"

section \<open>Segments\<close>

lemma dlseg_append [seg_simps]:
  "dlseg c pv (xs @ ys) nx \<longleftrightarrow> dlseg c pv xs (first_or ys nx) \<and> dlseg c (last_or pv xs) ys nx"
  by (induction xs arbitrary: pv) (auto simp: first_or_append)

lemma dlseg_frame [seg_simps]:
  "p \<notin> set xs \<Longrightarrow> dlseg (c(p := v)) pv xs nx = dlseg c pv xs nx"
  by (induction xs arbitrary: pv) auto

lemma dlseg_live: "dlseg c pv xs nx \<Longrightarrow> p \<in> set xs \<Longrightarrow> p \<in> dom c"
  by (induction xs arbitrary: pv) auto

lemma dll_rep_live: "dll_rep h l ps \<Longrightarrow> set ps \<subseteq> dom (cells h)"
  by (auto simp: dll_rep_def dest: dlseg_live)

lemma dll_rep_distinct: "dll_rep h l ps \<Longrightarrow> distinct ps"
  by (simp add: dll_rep_def)

lemma dll_rep_empty [simp]: "dll_rep h dll_new []"
  by (simp add: dll_rep_def dll_new_def)

lemma dll_rep_head: "dll_rep h l ps \<Longrightarrow> head l = first_or ps None"
  by (simp add: dll_rep_def)

lemma dll_rep_tail: "dll_rep h l ps \<Longrightarrow> tail l = last_or None ps"
  by (simp add: dll_rep_def)

lemma dll_rep_frame:
  assumes "dll_rep h l ps" and "\<And>q. q \<in> set ps \<Longrightarrow> cells h' q = cells h q"
  shows "dll_rep h' l ps"
proof -
  have "dlseg (cells h') pv xs nx = dlseg (cells h) pv xs nx" if "set xs \<subseteq> set ps" for pv xs nx
    using that assms(2) by (induction xs arbitrary: pv) auto
  with assms(1) show ?thesis by (simp add: dll_rep_def)
qed

text \<open>What a node of a represented list holds: its neighbours in the list.\<close>

lemma dll_rep_node:
  assumes "dll_rep h l (xs @ p # ys)"
  shows "\<exists>d. cells h p = Some \<lparr>ndata = d, nprev = last_or None xs, nnext = first_or ys None\<rparr>"
  using assms by (simp add: dll_rep_def seg_simps)

lemma cells_store [simp]: "cells (store p n h) = (cells h)(p \<mapsto> n)"
  by (simp add: store_def)

lemma brk_store [simp]: "brk (store p n h) = brk h"
  by (simp add: store_def)

section \<open>Correctness of the operations\<close>

text \<open>\<open>relinks S h h'\<close>: only links of the nodes in \<open>S\<close> differ between the two heaps.\<close>

definition relinks :: "ptr set \<Rightarrow> 'd heap \<Rightarrow> 'd heap \<Rightarrow> bool" where
  "relinks S h h' \<longleftrightarrow> payload h' = payload h \<and> brk h' = brk h
     \<and> (\<forall>q. q \<notin> S \<longrightarrow> cells h' q = cells h q)"

lemma relinks_refl [simp]: "relinks S h h"
  by (simp add: relinks_def)

lemma relinks_trans: "relinks S h h1 \<Longrightarrow> relinks S h1 h2 \<Longrightarrow> relinks S h h2"
  by (simp add: relinks_def)

lemma relinks_mono: "relinks S h h' \<Longrightarrow> S \<subseteq> T \<Longrightarrow> relinks T h h'"
  by (auto simp: relinks_def)

lemma relinks_store:
  "q \<in> S \<Longrightarrow> payload h q = Some (ndata n) \<Longrightarrow> relinks S h (store q n h)"
  by (auto simp: relinks_def payload_def store_def fun_eq_iff)

lemma relinks_dom: "relinks S h h' \<Longrightarrow> dom (cells h') = dom (cells h)"
  unfolding relinks_def payload_def fun_eq_iff dom_def by (metis map_option_is_None)

lemma relinks_payload: "relinks S h h' \<Longrightarrow> payload h' p = payload h p"
  by (simp add: relinks_def)

lemma relinks_heap_ok: "relinks S h h' \<Longrightarrow> heap_ok h \<Longrightarrow> heap_ok h'"
  unfolding heap_ok_def using relinks_dom [of S h h'] by (simp add: relinks_def)

lemma relinks_rep: "dll_rep h l ps \<Longrightarrow> relinks S h h' \<Longrightarrow> set ps \<inter> S = {} \<Longrightarrow> dll_rep h' l ps"
  by (erule dll_rep_frame) (auto simp: relinks_def)

lemma push_front_rep:
  assumes "dll_rep h l ps" and "p \<notin> set ps" and "p \<in> dom (cells h)"
  shows "\<exists>h' l'. push_front p h l = Some (h', l') \<and> dll_rep h' l' (p # ps)
    \<and> relinks (set (p # ps)) h h'"
proof (cases ps)
  case Nil
  from assms(3) obtain n where n: "cells h p = Some n" by auto
  with Nil assms(1) show ?thesis
    by (cases n) (auto simp: push_front_def deref_def dll_rep_def payload_def intro!: relinks_store)
next
  case (Cons q qs)
  from assms(3) obtain n where n: "cells h p = Some n" by auto
  from assms(1) Cons obtain d where
    q: "cells h q = Some \<lparr>ndata = d, nprev = None, nnext = first_or qs None\<rparr>"
    by (auto simp: dll_rep_def)
  let ?h1 = "store p (n\<lparr>nprev := None, nnext := Some q\<rparr>) h"
  let ?h2 = "store q \<lparr>ndata = d, nprev = Some p, nnext = first_or qs None\<rparr> ?h1"
  have pq: "p \<noteq> q" using assms(2) Cons by auto
  have eq: "push_front p h l = Some (?h2, l\<lparr>head := Some p\<rparr>)"
    using assms(1) n q pq Cons by (simp add: push_front_def deref_def dll_rep_def)
  have rep: "dll_rep ?h2 (l\<lparr>head := Some p\<rparr>) (p # ps)"
    using assms n q pq Cons by (cases n) (auto simp: dll_rep_def seg_simps)
  have "relinks (set (p # ps)) h ?h1"
    using n by (intro relinks_store) (auto simp: payload_def)
  moreover have "relinks (set (p # ps)) ?h1 ?h2"
    using q pq Cons by (intro relinks_store) (auto simp: payload_def)
  ultimately have "relinks (set (p # ps)) h ?h2" by (rule relinks_trans)
  with eq rep show ?thesis by blast
qed

lemma push_back_rep:
  assumes "dll_rep h l ps" and "p \<notin> set ps" and "p \<in> dom (cells h)"
  shows "\<exists>h' l'. push_back p h l = Some (h', l') \<and> dll_rep h' l' (ps @ [p])
    \<and> relinks (set (p # ps)) h h'"
proof (cases ps rule: rev_cases)
  case Nil
  from assms(3) obtain n where n: "cells h p = Some n" by auto
  with Nil assms(1) show ?thesis
    by (cases n) (auto simp: push_back_def deref_def dll_rep_def payload_def intro!: relinks_store)
next
  case (snoc qs q)
  from assms(3) obtain n where n: "cells h p = Some n" by auto
  from assms(1) snoc obtain d where
    q: "cells h q = Some \<lparr>ndata = d, nprev = last_or None qs, nnext = None\<rparr>"
    by (auto simp: dll_rep_def seg_simps)
  let ?h1 = "store p (n\<lparr>nnext := None, nprev := Some q\<rparr>) h"
  let ?h2 = "store q \<lparr>ndata = d, nprev = last_or None qs, nnext = Some p\<rparr> ?h1"
  have pq: "p \<noteq> q" using assms(2) snoc by auto
  have eq: "push_back p h l = Some (?h2, l\<lparr>tail := Some p\<rparr>)"
    using assms(1) n q pq snoc by (simp add: push_back_def deref_def dll_rep_def)
  have rep: "dll_rep ?h2 (l\<lparr>tail := Some p\<rparr>) (ps @ [p])"
    using assms n q pq snoc
    by (cases n) (auto simp: dll_rep_def seg_simps first_or_append last_or_append)
  have "relinks (set (p # ps)) h ?h1"
    using n by (intro relinks_store) (auto simp: payload_def)
  moreover have "relinks (set (p # ps)) ?h1 ?h2"
    using q pq snoc by (intro relinks_store) (auto simp: payload_def)
  ultimately have "relinks (set (p # ps)) h ?h2" by (rule relinks_trans)
  with eq rep show ?thesis by blast
qed


text \<open>
  Unlinking works from the links of the node alone, so the four shapes (with or without a
  predecessor and a successor) are four cases of the proof.
\<close>

lemma unlink_rep:
  assumes rep: "dll_rep h l (xs @ p # ys)"
  shows "\<exists>h' l'. unlink p h l = Some (h', l') \<and> dll_rep h' l' (xs @ ys)
    \<and> relinks (set (xs @ p # ys)) h h'"
proof -
  from dll_rep_node [OF rep] obtain d where
    p: "cells h p = Some \<lparr>ndata = d, nprev = last_or None xs, nnext = first_or ys None\<rparr>" by blast
  have dist: "distinct (xs @ p # ys)" by (rule dll_rep_distinct [OF rep])
  let ?S = "set (xs @ p # ys)"
  consider "xs = []" "ys = []" | y zs where "xs = []" "ys = y # zs"
    | ws x where "xs = ws @ [x]" "ys = []" | ws x y zs where "xs = ws @ [x]" "ys = y # zs"
    by (cases xs rule: rev_cases; cases ys) auto
  then show ?thesis
  proof cases
    case 1
    with p rep show ?thesis
      by (auto simp: unlink_def deref_def dll_rep_def payload_def intro!: relinks_store)
  next
    case 2
    with rep obtain e where
      y: "cells h y = Some \<lparr>ndata = e, nprev = Some p, nnext = first_or zs None\<rparr>"
      by (auto simp: dll_rep_def)
    from 2 dist have "p \<noteq> y" by auto
    with 2 p y rep show ?thesis
      by (auto simp: unlink_def deref_def dll_rep_def seg_simps payload_def
          intro!: relinks_trans [OF relinks_store relinks_store])
  next
    case 3
    with rep obtain e where
      x: "cells h x = Some \<lparr>ndata = e, nprev = last_or None ws, nnext = Some p\<rparr>"
      by (auto simp: dll_rep_def seg_simps)
    from 3 dist have "p \<noteq> x" by auto
    with 3 p x rep show ?thesis
      by (auto simp: unlink_def deref_def dll_rep_def seg_simps payload_def first_or_append
          last_or_append intro!: relinks_trans [OF relinks_store relinks_store])
  next
    case 4
    with rep obtain e f where
      x: "cells h x = Some \<lparr>ndata = e, nprev = last_or None ws, nnext = Some p\<rparr>" and
      y: "cells h y = Some \<lparr>ndata = f, nprev = Some p, nnext = first_or zs None\<rparr>"
      by (auto simp: dll_rep_def seg_simps)
    from 4 dist have "p \<noteq> x" "p \<noteq> y" "x \<noteq> y" by auto
    with 4 p x y rep show ?thesis
      by (auto simp: unlink_def deref_def dll_rep_def seg_simps payload_def first_or_append
          last_or_append
          intro!: relinks_trans [OF relinks_trans [OF relinks_store relinks_store] relinks_store])
  qed
qed

lemma unlink_remove1:
  assumes "dll_rep h l ps" and "p \<in> set ps"
  shows "\<exists>h' l'. unlink p h l = Some (h', l') \<and> dll_rep h' l' (remove1 p ps)
    \<and> relinks (set ps) h h'"
proof -
  from assms(2) obtain xs ys where ps: "ps = xs @ p # ys" and "p \<notin> set xs"
    by (meson split_list_first)
  then have "remove1 p ps = xs @ ys" by (simp add: remove1_split)
  with unlink_rep [of h l xs p ys] assms(1) ps show ?thesis by simp
qed

lemma move_to_front_rep:
  assumes "dll_rep h l ps" and "p \<in> set ps"
  shows "\<exists>h' l'. move_to_front p h l = Some (h', l') \<and> dll_rep h' l' (p # remove1 p ps)
    \<and> relinks (set ps) h h'"
proof -
  from unlink_remove1 [OF assms] obtain h1 l1 where
    u: "unlink p h l = Some (h1, l1)" "dll_rep h1 l1 (remove1 p ps)" "relinks (set ps) h h1"
    by blast
  have "p \<notin> set (remove1 p ps)"
    using dll_rep_distinct [OF assms(1)] by simp
  moreover have "p \<in> dom (cells h1)"
    using dll_rep_live [OF assms(1)] assms(2) relinks_dom [OF u(3)] by auto
  ultimately obtain h2 l2 where
    f: "push_front p h1 l1 = Some (h2, l2)" "dll_rep h2 l2 (p # remove1 p ps)"
      "relinks (set (p # remove1 p ps)) h1 h2"
    using push_front_rep [OF u(2)] by blast
  have "relinks (set ps) h h2"
    using u(3) relinks_mono [OF f(3), of "set ps"] assms(2) set_remove1_subset [of p ps]
    by (auto intro: relinks_trans)
  with u f show ?thesis by (simp add: move_to_front_def)
qed

lemma drop_boxed_node_rep:
  assumes "dll_rep h l ps" and "p \<notin> set ps" and "p \<in> dom (cells h)"
  shows "\<exists>h'. drop_boxed_node p h = Some h' \<and> dll_rep h' l ps
    \<and> cells h' = (cells h)(p := None) \<and> brk h' = brk h"
  using assms by (auto simp: drop_boxed_node_def deref_def intro!: dll_rep_frame [OF assms(1)])

lemma node_new_rep:
  assumes "dll_rep h l ps" and "heap_ok h" and "node_new d h = (p, h')"
  shows "dll_rep h' l ps" and "heap_ok h'" and "p \<notin> dom (cells h)" and "p \<notin> set ps"
    and "payload h' = (payload h)(p \<mapsto> d)" and "dom (cells h') = insert p (dom (cells h))"
proof -
  show fresh: "p \<notin> dom (cells h)"
    using assms(2,3) by (fastforce simp: node_new_def heap_ok_def)
  then show "p \<notin> set ps" using dll_rep_live [OF assms(1)] by blast
  then show "dll_rep h' l ps"
    using assms(3) by (intro dll_rep_frame [OF assms(1)]) (auto simp: node_new_def)
  show "heap_ok h'" "payload h' = (payload h)(p \<mapsto> d)"
    "dom (cells h') = insert p (dom (cells h))"
    using assms(2,3) by (auto simp: node_new_def heap_ok_def payload_def less_Suc_eq)
qed

lemma drop_from_frees:
  assumes "dlseg (cells h) pv ps None" and "distinct ps" and "length ps < fuel"
  shows "\<exists>h'. drop_from fuel (first_or ps None) h = Some h'
    \<and> cells h' = (cells h) |` (- set ps) \<and> brk h' = brk h"
  using assms
proof (induction ps arbitrary: fuel h pv)
  case Nil
  then show ?case by (cases fuel) auto
next
  case (Cons p ps)
  then obtain k d where k: "fuel = Suc k" "length ps < k" and
    d: "cells h p = Some \<lparr>ndata = d, nprev = pv, nnext = first_or ps None\<rparr>"
    by (cases fuel) auto
  let ?h = "h\<lparr>cells := (cells h)(p := None)\<rparr>"
  have seg: "dlseg (cells ?h) (Some p) ps None" and "distinct ps"
    using Cons.prems by (simp_all add: seg_simps)
  from Cons.IH [OF this k(2)] obtain h' where
    "drop_from k (first_or ps None) ?h = Some h'" "cells h' = (cells ?h) |` (- set ps)"
    "brk h' = brk ?h" by blast
  moreover from this have "cells h' = (cells h) |` (- set (p # ps))"
    by (auto simp: restrict_map_def fun_eq_iff)
  ultimately show ?case
    using k d by (simp add: drop_boxed_node_def deref_def)
qed

lemma dll_rep_length_brk:
  assumes "dll_rep h l ps" and "heap_ok h"
  shows "length ps \<le> brk h"
proof -
  have "set ps \<subseteq> {..<brk h}"
    using dll_rep_live [OF assms(1)] assms(2) by (auto simp: heap_ok_def)
  then have "card (set ps) \<le> card {..<brk h}" by (intro card_mono) auto
  then show ?thesis using dll_rep_distinct [OF assms(1)] by (simp add: distinct_card)
qed

lemma drop_all_frees:
  assumes "dll_rep h l ps" and "heap_ok h"
  shows "\<exists>h'. drop_all h l = Some (h', dll_new) \<and> cells h' = (cells h) |` (- set ps)"
  using drop_from_frees [of h None ps "Suc (brk h)"] dll_rep_length_brk [OF assms] assms(1)
  by (auto simp: drop_all_def dll_rep_def simp del: drop_from.simps)

end
