(* ===== verification/CachePolicy.thy ===== *)
theory CachePolicy
  imports DoublyLinkedList
begin

text \<open>
  The trait \<open>CachePolicy\<close> (\<^verbatim>\<open>src/storage/src/cache/policies/cache/mod.rs\<close>) and what its
  list-based implementations have in common.

  A policy is a triple of operations on its state; each returns \<open>None\<close> where the source panics
  (a failed \<open>expect\<close>/\<open>unwrap\<close>) or dereferences a dead node. The locale \<open>cache_policy\<close> is the
  contract the cache relies on: from a good state no operation fails, victims are entries the
  policy tracks, an insert tracks exactly the new entry, an access tracks nothing new. The
  locale \<open>exclusive_policy\<close> adds that a victim is handed out once and forgotten (the property
  the test \<open>concurrent_invariant_advice_once\<close> of mod.rs looks for). Each policy theory
  interprets the locale that its policy satisfies.

  The second half is the layer every list-based policy is made of: a hash map from entry to
  node address beside a doubly linked list of those nodes. \<open>keyed\<close> relates map, heap and list;
  it also says that the heap holds no other node, so nothing leaks.
\<close>

section \<open>The trait\<close>

record 'p policy_ops =
  op_find_victim :: "nat \<Rightarrow> 'p \<Rightarrow> (entry_id list \<times> 'p) option"
  op_notify_insert :: "entry_id \<Rightarrow> batch_type \<Rightarrow> 'p \<Rightarrow> 'p option"
  op_notify_access :: "entry_id \<Rightarrow> batch_type \<Rightarrow> 'p \<Rightarrow> 'p option"

text \<open>A history of trait calls and the victims it hands out, in order.\<close>

datatype policy_call = Insert entry_id batch_type | Access entry_id batch_type | Victims nat

fun run_policy :: "'p policy_ops \<Rightarrow> policy_call list \<Rightarrow> 'p \<Rightarrow> (entry_id list \<times> 'p) option" where
  "run_policy ops [] p = Some ([], p)"
| "run_policy ops (Insert i t # cs) p = do {
     p' \<leftarrow> op_notify_insert ops i t p;
     run_policy ops cs p'
   }"
| "run_policy ops (Access i t # cs) p = do {
     p' \<leftarrow> op_notify_access ops i t p;
     run_policy ops cs p'
   }"
| "run_policy ops (Victims n # cs) p = do {
     (vs, p') \<leftarrow> op_find_victim ops n p;
     (ws, p'') \<leftarrow> run_policy ops cs p';
     Some (vs @ ws, p'')
   }"

definition inserts_of :: "entry_id \<Rightarrow> policy_call list \<Rightarrow> nat" where
  "inserts_of i cs = length (filter (\<lambda>c. case c of Insert j _ \<Rightarrow> j = i | _ \<Rightarrow> False) cs)"

locale cache_policy =
  fixes ops :: "'p policy_ops" and inv :: "'p \<Rightarrow> bool" and tracked :: "'p \<Rightarrow> entry_id set"
  assumes find_victim_ok: "inv p \<Longrightarrow> \<exists>vs p'. op_find_victim ops n p = Some (vs, p') \<and> inv p'
      \<and> set vs \<subseteq> tracked p \<and> tracked p' \<subseteq> tracked p \<and> length vs \<le> n"
    and notify_insert_ok: "inv p \<Longrightarrow> \<exists>p'. op_notify_insert ops i t p = Some p' \<and> inv p'
      \<and> tracked p' = insert i (tracked p)"
    and notify_access_ok: "inv p \<Longrightarrow> \<exists>p'. op_notify_access ops i t p = Some p' \<and> inv p'
      \<and> tracked p' = tracked p"
begin

lemma run_ok:
  "inv p \<Longrightarrow> \<exists>vs p'. run_policy ops cs p = Some (vs, p') \<and> inv p'
    \<and> (\<forall>i \<in> set vs. i \<in> tracked p \<or> 0 < inserts_of i cs)"
proof (induction cs arbitrary: p)
  case Nil
  then show ?case by simp
next
  case (Cons c cs)
  show ?case
  proof (cases c)
    case (Insert i t)
    obtain p' where p': "op_notify_insert ops i t p = Some p'" "inv p'"
      "tracked p' = insert i (tracked p)"
      using notify_insert_ok [OF Cons.prems] by blast
    from Cons.IH [OF p'(2)] Insert p' show ?thesis by (auto simp: inserts_of_def)
  next
    case (Access i t)
    obtain p' where p': "op_notify_access ops i t p = Some p'" "inv p'" "tracked p' = tracked p"
      using notify_access_ok [OF Cons.prems] by blast
    from Cons.IH [OF p'(2)] Access p' show ?thesis by (auto simp: inserts_of_def)
  next
    case (Victims n)
    obtain vs p' where p': "op_find_victim ops n p = Some (vs, p')" "inv p'"
      "set vs \<subseteq> tracked p" "tracked p' \<subseteq> tracked p"
      using find_victim_ok [OF Cons.prems] by blast
    from Cons.IH [OF p'(2)] Victims p' show ?thesis by (fastforce simp: inserts_of_def)
  qed
qed

end

text \<open>
  What the cache itself relies on: an invariant of the policy that may also speak about the
  formats the index records for the entries. A policy that keeps \<open>cache_policy\<close> keeps this
  contract with an invariant that ignores the index.
\<close>

locale indexed_policy =
  fixes ops :: "'p policy_ops" and jinv :: "'p \<Rightarrow> (entry_id \<rightharpoonup> batch_type) \<Rightarrow> bool"
  assumes ix_find_victim: "jinv p m \<Longrightarrow> \<exists>vs p'. op_find_victim ops n p = Some (vs, p') \<and> jinv p' m"
    and ix_notify_insert: "jinv p m \<Longrightarrow> \<exists>p'. op_notify_insert ops i t p = Some p' \<and> jinv p' (m(i \<mapsto> t))"
    and ix_notify_access: "jinv p m \<Longrightarrow> \<exists>p'. op_notify_access ops i t p = Some p' \<and> jinv p' m"
    and ix_forget: "jinv p m \<Longrightarrow> jinv p Map.empty"

sublocale cache_policy \<subseteq> plain: indexed_policy ops "\<lambda>p m. inv p"
  using find_victim_ok notify_insert_ok notify_access_ok by unfold_locales blast+

locale exclusive_policy = cache_policy +
  assumes find_victim_excl: "inv p \<Longrightarrow> op_find_victim ops n p = Some (vs, p') \<Longrightarrow>
      distinct vs \<and> tracked p' = tracked p - set vs"
begin

text \<open>
  Between two times an entry is handed out it has been inserted again: the times it is handed
  out, plus one if it is still tracked, are at most its inserts, plus one if it was tracked.
\<close>

lemma run_advice_once:
  "inv p \<Longrightarrow> run_policy ops cs p = Some (vs, p') \<Longrightarrow>
    count_list vs i + of_bool (i \<in> tracked p') \<le> inserts_of i cs + of_bool (i \<in> tracked p)"
proof (induction cs arbitrary: p vs)
  case Nil
  then show ?case by simp
next
  case (Cons c cs)
  show ?case
  proof (cases c)
    case (Insert j t)
    obtain q where q: "op_notify_insert ops j t p = Some q" "inv q" "tracked q = insert j (tracked p)"
      using notify_insert_ok [OF Cons.prems(1)] by blast
    with Insert Cons.prems have "run_policy ops cs q = Some (vs, p')" by simp
    from Cons.IH [OF q(2) this] Insert q(3) show ?thesis
      by (auto simp: inserts_of_def of_bool_def split: if_splits)
  next
    case (Access j t)
    obtain q where q: "op_notify_access ops j t p = Some q" "inv q" "tracked q = tracked p"
      using notify_access_ok [OF Cons.prems(1)] by blast
    with Access Cons.prems have "run_policy ops cs q = Some (vs, p')" by simp
    from Cons.IH [OF q(2) this] Access q(3) show ?thesis by (simp add: inserts_of_def)
  next
    case (Victims n)
    obtain us q where q: "op_find_victim ops n p = Some (us, q)" "inv q" "set us \<subseteq> tracked p"
      using find_victim_ok [OF Cons.prems(1)] by blast
    with Victims Cons.prems obtain ws where
      ws: "run_policy ops cs q = Some (ws, p')" "vs = us @ ws" by (auto simp: Option.bind_eq_Some_conv)
    from find_victim_excl [OF Cons.prems(1) q(1)] have
      us: "distinct us" "tracked q = tracked p - set us" by auto
    have "count_list us i = of_bool (i \<in> set us)"
      using us(1) by (induction us) auto
    with Cons.IH [OF q(2) ws(1)] Victims ws(2) us(2) q(3) show ?thesis
      by (auto simp: inserts_of_def of_bool_def split: if_splits)
  qed
qed

end

section \<open>Hash map beside a linked list\<close>

definition keyed :: "('d \<Rightarrow> entry_id) \<Rightarrow> (entry_id \<rightharpoonup> ptr) \<Rightarrow> 'd heap \<Rightarrow> ptr list \<Rightarrow> bool" where
  "keyed key m h ps \<longleftrightarrow> heap_ok h \<and> dom (cells h) = set ps \<and> distinct ps
     \<and> (\<forall>i p. m i = Some p \<longleftrightarrow> p \<in> set ps \<and> map_option key (payload h p) = Some i)"

definition data_of :: "'d heap \<Rightarrow> ptr list \<Rightarrow> 'd list" where
  "data_of h ps = map (\<lambda>p. the (payload h p)) ps"

definition keys_of :: "('d \<Rightarrow> entry_id) \<Rightarrow> 'd heap \<Rightarrow> ptr list \<Rightarrow> entry_id list" where
  "keys_of key h ps = map key (data_of h ps)"

lemma keys_of_simps [simp]:
  "keys_of key h [] = []"
  "keys_of key h (p # ps) = key (the (payload h p)) # keys_of key h ps"
  "keys_of key h (ps @ qs) = keys_of key h ps @ keys_of key h qs"
  "keys_of key h (rev ps) = rev (keys_of key h ps)"
  "length (keys_of key h ps) = length ps"
  by (simp_all add: keys_of_def data_of_def rev_map)

lemma data_of_simps [simp]:
  "data_of h [] = []"
  "data_of h (p # ps) = the (payload h p) # data_of h ps"
  "data_of h (ps @ qs) = data_of h ps @ data_of h qs"
  "length (data_of h ps) = length ps"
  by (simp_all add: data_of_def)

lemma keys_of_cong: "(\<And>p. p \<in> set ps \<Longrightarrow> payload h' p = payload h p) \<Longrightarrow> keys_of key h' ps = keys_of key h ps"
  by (simp add: keys_of_def data_of_def)

lemma data_of_cong: "(\<And>p. p \<in> set ps \<Longrightarrow> payload h' p = payload h p) \<Longrightarrow> data_of h' ps = data_of h ps"
  by (simp add: data_of_def)

lemma keyed_live: "keyed key m h ps \<Longrightarrow> p \<in> set ps \<Longrightarrow> \<exists>d. payload h p = Some d"
  by (auto simp: keyed_def payload_def)

lemma keyed_lookup:
  "keyed key m h ps \<Longrightarrow> p \<in> set ps \<Longrightarrow> m (key (the (payload h p))) = Some p"
  using keyed_live [of key m h ps p] by (auto simp: keyed_def)

lemma keyed_iff:
  "keyed key m h ps \<Longrightarrow> m i = Some p \<longleftrightarrow> p \<in> set ps \<and> key (the (payload h p)) = i"
  using keyed_live [of key m h ps p] by (auto simp: keyed_def)

lemma keyedI:
  assumes "heap_ok h" and "dom (cells h) = set ps" and "distinct ps"
    and "\<And>i p. m i = Some p \<longleftrightarrow> p \<in> set ps \<and> key (the (payload h p)) = i"
  shows "keyed key m h ps"
proof -
  have "\<exists>d. payload h p = Some d" if "p \<in> set ps" for p
    using that assms(2) by (auto simp: payload_def)
  with assms show ?thesis unfolding keyed_def by fastforce
qed

lemma keyed_mem: "keyed key m h ps \<Longrightarrow> m i = Some p \<Longrightarrow> p \<in> set ps \<and> key (the (payload h p)) = i"
  by (auto simp: keyed_def)

lemma keyed_None: "keyed key m h ps \<Longrightarrow> m i = None \<longleftrightarrow> i \<notin> set (keys_of key h ps)"
  by (cases "m i") (auto simp: keys_of_def data_of_def dest: keyed_lookup keyed_mem)

lemma keyed_dom: "keyed key m h ps \<Longrightarrow> dom m = set (keys_of key h ps)"
  using keyed_None [of key m h ps] by (auto simp: dom_def)

lemma keyed_inj: "keyed key m h ps \<Longrightarrow> inj_on (\<lambda>p. key (the (payload h p))) (set ps)"
  by (rule inj_onI) (metis keyed_lookup option.inject)

lemma keyed_distinct: "keyed key m h ps \<Longrightarrow> distinct (keys_of key h ps)"
  using keyed_inj [of key m h ps]
  by (simp add: keys_of_def data_of_def distinct_map keyed_def comp_def)

lemma payload_dom: "p \<in> dom (cells h) \<longleftrightarrow> payload h p \<noteq> None"
  by (auto simp: payload_def)

lemma keyed_cong:
  assumes "keyed key m h ps" and "brk h' = brk h"
    and "\<And>p. map_option key (payload h' p) = map_option key (payload h p)"
    and "set ps' = set ps" and "distinct ps'"
  shows "keyed key m h' ps'"
proof -
  have "payload h' p = None \<longleftrightarrow> payload h p = None" for p
    using assms(3) [of p] by (metis map_option_is_None)
  then have "dom (cells h') = dom (cells h)"
    by (simp add: set_eq_iff payload_dom del: domIff)
  with assms show ?thesis by (auto simp: keyed_def heap_ok_def)
qed

lemma keyed_relinks:
  assumes "keyed key m h ps" and "relinks S h h'" and "set ps' = set ps" and "distinct ps'"
  shows "keyed key m h' ps'"
  using assms relinks_heap_ok [OF assms(2)] relinks_dom [OF assms(2)] relinks_payload [OF assms(2)]
  by (simp add: keyed_def)

lemma keyed_empty [simp]: "keyed key Map.empty heap_empty []"
  by (simp add: keyed_def heap_empty_def heap_ok_def)

lemma keyed_new:
  assumes "keyed key m h ps" and "m (key d) = None" and "node_new d h = (p, h')"
  shows "keyed key (m(key d \<mapsto> p)) h' (p # ps)"
proof (rule keyedI)
  have h: "heap_ok h" "dom (cells h) = set ps" "distinct ps" using assms(1) by (auto simp: keyed_def)
  note new = node_new_rep [OF dll_rep_empty h(1) assms(3)]
  have fresh: "p \<notin> set ps" using new(3) h(2) by simp
  show "heap_ok h'" "dom (cells h') = set (p # ps)" "distinct (p # ps)"
    using new(2,6) h fresh by simp_all
  fix i q
  show "(m(key d \<mapsto> p)) i = Some q \<longleftrightarrow> q \<in> set (p # ps) \<and> key (the (payload h' q)) = i"
    using keyed_iff [OF assms(1), of i q] keyed_iff [OF assms(1), of "key d" q] assms(2) fresh
    unfolding new(5) by auto
qed

lemma keyed_drop:
  assumes "keyed key m h ps" and "p \<in> set ps" and "cells h' = (cells h)(p := None)"
    and "brk h' = brk h"
  shows "keyed key (m(key (the (payload h p)) := None)) h' (remove1 p ps)"
proof (rule keyedI)
  have set: "set (remove1 p ps) = set ps - {p}" and dist: "distinct (remove1 p ps)"
    using assms(1) by (auto simp: keyed_def)
  show "heap_ok h'" "dom (cells h') = set (remove1 p ps)" "distinct (remove1 p ps)"
    using assms(1,3,4) set dist by (auto simp: keyed_def heap_ok_def)
  fix i q
  have pay: "payload h' q = (if q = p then None else payload h q)"
    using assms(3) by (simp add: payload_def)
  have "m (key (the (payload h p))) = Some p"
    by (rule keyed_lookup [OF assms(1,2)])
  then show "(m(key (the (payload h p)) := None)) i = Some q
      \<longleftrightarrow> q \<in> set (remove1 p ps) \<and> key (the (payload h' q)) = i"
    using keyed_iff [OF assms(1), of i q] assms(2) unfolding pay set by auto
qed

lemma keys_of_remove1:
  assumes "keyed key m h ps" and "p \<in> set ps"
  shows "keys_of key h (remove1 p ps) = remove1 (key (the (payload h p))) (keys_of key h ps)"
proof -
  from assms(2) obtain xs ys where ps: "ps = xs @ p # ys" and p: "p \<notin> set xs"
    by (meson split_list_first)
  have "key (the (payload h p)) \<notin> set (keys_of key h xs)"
    using keyed_distinct [OF assms(1)] ps by simp
  with ps p show ?thesis by (simp add: remove1_split remove1_append)
qed


text \<open>
  A map, a list header and a heap that belong together, and the composite moves the policies
  are made of: allocate and push, unlink and push again, unlink and free.
\<close>

definition hash_list :: "('d \<Rightarrow> entry_id) \<Rightarrow> (entry_id \<rightharpoonup> ptr) \<Rightarrow> 'd heap \<Rightarrow> dll \<Rightarrow> ptr list \<Rightarrow> bool" where
  "hash_list key m h l ps \<longleftrightarrow> dll_rep h l ps \<and> keyed key m h ps"

lemma hash_list_empty [simp]: "hash_list key Map.empty heap_empty dll_new []"
  by (simp add: hash_list_def)

lemma hash_list_new:
  assumes "hash_list key m h l ps" and "m (key d) = None" and "node_new d h = (p, h1)"
  shows "dll_rep h1 l ps" and "p \<notin> set ps" and "p \<in> dom (cells h1)"
    and "keyed key (m(key d \<mapsto> p)) h1 (p # ps)" and "payload h1 = (payload h)(p \<mapsto> d)"
proof -
  have h: "dll_rep h l ps" "keyed key m h ps" "heap_ok h"
    using assms(1) by (auto simp: hash_list_def keyed_def)
  note new = node_new_rep [OF h(1,3) assms(3)]
  show "dll_rep h1 l ps" "p \<notin> set ps" "p \<in> dom (cells h1)" "payload h1 = (payload h)(p \<mapsto> d)"
    using new by simp_all
  show "keyed key (m(key d \<mapsto> p)) h1 (p # ps)"
    by (rule keyed_new [OF h(2) assms(2,3)])
qed

lemma hash_list_push_front_new:
  assumes "hash_list key m h l ps" and "m (key d) = None" and "node_new d h = (p, h1)"
  shows "\<exists>h' l'. push_front p h1 l = Some (h', l') \<and> hash_list key (m(key d \<mapsto> p)) h' l' (p # ps)
    \<and> payload h' = (payload h)(p \<mapsto> d) \<and> p \<notin> set ps"
proof -
  note new = hash_list_new [OF assms]
  from push_front_rep [OF new(1-3)] obtain h' l' where
    f: "push_front p h1 l = Some (h', l')" "dll_rep h' l' (p # ps)" "relinks (set (p # ps)) h1 h'"
    by blast
  have "keyed key (m(key d \<mapsto> p)) h' (p # ps)"
    using new(4) f(3) by (rule keyed_relinks) (use dll_rep_distinct [OF f(2)] in auto)
  with f new(2,5) show ?thesis by (auto simp: hash_list_def relinks_def)
qed

lemma hash_list_push_back_new:
  assumes "hash_list key m h l ps" and "m (key d) = None" and "node_new d h = (p, h1)"
  shows "\<exists>h' l'. push_back p h1 l = Some (h', l') \<and> hash_list key (m(key d \<mapsto> p)) h' l' (ps @ [p])
    \<and> payload h' = (payload h)(p \<mapsto> d) \<and> p \<notin> set ps"
proof -
  note new = hash_list_new [OF assms]
  from push_back_rep [OF new(1-3)] obtain h' l' where
    f: "push_back p h1 l = Some (h', l')" "dll_rep h' l' (ps @ [p])" "relinks (set (p # ps)) h1 h'"
    by blast
  have "keyed key (m(key d \<mapsto> p)) h' (ps @ [p])"
    using new(4) f(3) by (rule keyed_relinks) (use dll_rep_distinct [OF f(2)] in auto)
  with f new(2,5) show ?thesis by (auto simp: hash_list_def relinks_def)
qed

lemma hash_list_move_front:
  assumes "hash_list key m h l ps" and "m i = Some p"
  shows "\<exists>h' l'. move_to_front p h l = Some (h', l') \<and> hash_list key m h' l' (p # remove1 p ps)
    \<and> payload h' = payload h"
proof -
  have h: "dll_rep h l ps" "keyed key m h ps" using assms(1) by (auto simp: hash_list_def)
  have p: "p \<in> set ps" using keyed_mem [OF h(2) assms(2)] by simp
  from move_to_front_rep [OF h(1) p] obtain h' l' where
    f: "move_to_front p h l = Some (h', l')" "dll_rep h' l' (p # remove1 p ps)" "relinks (set ps) h h'"
    by blast
  have "set (p # remove1 p ps) = set ps" "distinct (p # remove1 p ps)"
    using p dll_rep_distinct [OF h(1)] by (auto simp: set_remove1_eq)
  with h(2) f(3) have "keyed key m h' (p # remove1 p ps)" by (rule keyed_relinks)
  with f show ?thesis by (auto simp: hash_list_def relinks_def)
qed

lemma hash_list_unlink:
  assumes "hash_list key m h l ps" and "p \<in> set ps"
  shows "\<exists>h' l'. unlink p h l = Some (h', l') \<and> dll_rep h' l' (remove1 p ps)
    \<and> keyed key m h' ps \<and> relinks (set ps) h h' \<and> p \<notin> set (remove1 p ps) \<and> p \<in> dom (cells h')"
proof -
  have h: "dll_rep h l ps" "keyed key m h ps" using assms(1) by (auto simp: hash_list_def)
  from unlink_remove1 [OF h(1) assms(2)] obtain h' l' where
    f: "unlink p h l = Some (h', l')" "dll_rep h' l' (remove1 p ps)" "relinks (set ps) h h'" by blast
  have "keyed key m h' ps"
    using h(2) f(3) by (rule keyed_relinks) (use dll_rep_distinct [OF h(1)] in auto)
  moreover have "p \<notin> set (remove1 p ps)" using dll_rep_distinct [OF h(1)] by simp
  ultimately show ?thesis using f assms(2) by (auto simp: keyed_def)
qed

lemma hash_list_move_back:
  assumes "hash_list key m h l ps" and "m i = Some p"
  shows "\<exists>h1 l1 h' l'. unlink p h l = Some (h1, l1) \<and> push_back p h1 l1 = Some (h', l')
    \<and> hash_list key m h' l' (remove1 p ps @ [p]) \<and> payload h' = payload h"
proof -
  have p: "p \<in> set ps" using assms keyed_mem [of key m h ps i p] by (simp add: hash_list_def)
  from hash_list_unlink [OF assms(1) p] obtain h1 l1 where
    u: "unlink p h l = Some (h1, l1)" "dll_rep h1 l1 (remove1 p ps)" "keyed key m h1 ps"
      "relinks (set ps) h h1" "p \<notin> set (remove1 p ps)" "p \<in> dom (cells h1)" by blast
  from push_back_rep [OF u(2,5,6)] obtain h' l' where
    f: "push_back p h1 l1 = Some (h', l')" "dll_rep h' l' (remove1 p ps @ [p])"
      "relinks (set (p # remove1 p ps)) h1 h'" by blast
  have "set (remove1 p ps @ [p]) = set ps"
    using p u(3) by (auto simp: keyed_def)
  with u(3) f(3) have "keyed key m h' (remove1 p ps @ [p])"
    by (rule keyed_relinks) (use dll_rep_distinct [OF f(2)] in auto)
  with u f show ?thesis by (auto simp: hash_list_def relinks_def)
qed

lemma hash_list_release:
  assumes "hash_list key m h l ps" and "p \<in> set ps"
  shows "\<exists>h1 l' h'. unlink p h l = Some (h1, l') \<and> drop_boxed_node p h1 = Some h'
    \<and> hash_list key (m(key (the (payload h p)) := None)) h' l' (remove1 p ps)
    \<and> payload h' = (payload h)(p := None)"
proof -
  from hash_list_unlink [OF assms] obtain h1 l' where
    u: "unlink p h l = Some (h1, l')" "dll_rep h1 l' (remove1 p ps)" "keyed key m h1 ps"
      "relinks (set ps) h h1" "p \<notin> set (remove1 p ps)" "p \<in> dom (cells h1)" by blast
  from drop_boxed_node_rep [OF u(2,5,6)] obtain h' where
    d: "drop_boxed_node p h1 = Some h'" "dll_rep h' l' (remove1 p ps)"
      "cells h' = (cells h1)(p := None)" "brk h' = brk h1" by blast
  have "keyed key (m(key (the (payload h p)) := None)) h' (remove1 p ps)"
    using keyed_drop [OF u(3) assms(2) d(3,4)] relinks_payload [OF u(4)] by simp
  moreover have "payload h' = (payload h)(p := None)"
    using d(3) relinks_payload [OF u(4)] by (auto simp: payload_def fun_eq_iff)
  ultimately show ?thesis using u d by (auto simp: hash_list_def)
qed

lemma hash_list_keys_move:
  assumes "hash_list key m h l ps" and "m i = Some p"
  shows "p \<in> set ps" and "key (the (payload h p)) = i" and "i \<in> set (keys_of key h ps)"
    and "keys_of key h (remove1 p ps) = remove1 i (keys_of key h ps)"
proof -
  have k: "keyed key m h ps" using assms(1) by (simp add: hash_list_def)
  show p: "p \<in> set ps" "key (the (payload h p)) = i" using keyed_mem [OF k assms(2)] by auto
  show "i \<in> set (keys_of key h ps)" using p by (auto simp: keys_of_def data_of_def)
  show "keys_of key h (remove1 p ps) = remove1 i (keys_of key h ps)"
    using keys_of_remove1 [OF k p(1)] p(2) by simp
qed

lemma hash_list_keyed: "hash_list key m h l ps \<Longrightarrow> keyed key m h ps"
  by (simp add: hash_list_def)

lemma hash_list_head: "hash_list key m h l ps \<Longrightarrow> head l = first_or ps None"
  by (simp add: hash_list_def dll_rep_def)

lemma hash_list_tail: "hash_list key m h l ps \<Longrightarrow> tail l = last_or None ps"
  by (simp add: hash_list_def dll_rep_def)


section \<open>Dropping a policy\<close>

text \<open>
  The \<open>Drop\<close> implementations drain the map in some order, unlink and free each node, and call
  \<open>drop_all\<close> on what is left. \<open>handles\<close> is the order in which the map is drained.
\<close>

fun drop_handles :: "ptr list \<Rightarrow> 'd heap \<Rightarrow> dll \<Rightarrow> ('d heap \<times> dll) option" where
  "drop_handles [] h l = Some (h, l)"
| "drop_handles (p # ps) h l = do {
     (h1, l1) \<leftarrow> unlink p h l;
     h2 \<leftarrow> drop_boxed_node p h1;
     drop_handles ps h2 l1
   }"

definition hash_list_drop :: "ptr list \<Rightarrow> 'd heap \<Rightarrow> dll \<Rightarrow> ('d heap \<times> dll) option" where
  "hash_list_drop handles h l = do {
     (h1, l1) \<leftarrow> drop_handles handles h l;
     drop_all h1 l1
   }"

lemma drop_handles_frees:
  assumes "hash_list key m h l ps" and "set hs \<subseteq> set ps" and "distinct hs"
  shows "\<exists>h' l' m' qs. drop_handles hs h l = Some (h', l') \<and> hash_list key m' h' l' qs
    \<and> set qs = set ps - set hs"
  using assms
proof (induction hs arbitrary: m h l ps)
  case Nil
  then show ?case by auto
next
  case (Cons p hs)
  then have p: "p \<in> set ps" by simp
  from hash_list_release [OF Cons.prems(1) p] obtain h1 l' h' m' where
    u: "unlink p h l = Some (h1, l')" "drop_boxed_node p h1 = Some h'"
      "hash_list key m' h' l' (remove1 p ps)" by blast
  have "distinct ps" using Cons.prems(1) by (simp add: hash_list_def dll_rep_def)
  then have "set (remove1 p ps) = set ps - {p}" by simp
  with Cons.IH [OF u(3)] Cons.prems(2,3) obtain h2 l2 m2 qs where
    "drop_handles hs h' l' = Some (h2, l2)" "hash_list key m2 h2 l2 qs"
    "set qs = set ps - set (p # hs)" by fastforce
  with u show ?case by auto
qed

lemma hash_list_drop_frees:
  assumes "hash_list key m h l ps" and "set handles = ran m" and "distinct handles"
  shows "\<exists>h'. hash_list_drop handles h l = Some (h', dll_new) \<and> cells h' = Map.empty"
proof -
  have k: "keyed key m h ps" using assms(1) by (simp add: hash_list_def)
  have "ran m = set ps"
    using keyed_lookup [OF k] keyed_mem [OF k] by (auto simp: ran_def)
  with drop_handles_frees [OF assms(1), of handles] assms(2,3) obtain h' l' m' qs where
    d: "drop_handles handles h l = Some (h', l')" "hash_list key m' h' l' qs" "set qs = {}" by auto
  then have "dll_rep h' l' []" "heap_ok h'" "dom (cells h') = {}"
    by (auto simp: hash_list_def keyed_def)
  with drop_all_frees [of h' l' "[]"] d(1) show ?thesis by (auto simp: hash_list_drop_def)
qed

end
