(* ===== verification/CacheEntry.thy ===== *)
theory CacheEntry
  imports Prelude
begin

text \<open>
  What the cache stores, \<^verbatim>\<open>src/storage/src/cache/cached_batch.rs\<close> and
  \<^verbatim>\<open>src/storage/src/cache/expressions.rs\<close>, and the interface of the arrays it stores.

  Arrow arrays, Liquid arrays and squeezed arrays are abstract types \<open>'a\<close>, \<open>'l\<close>, \<open>'s\<close>; \<open>'t\<close> is
  Arrow's \<open>DataType\<close>, \<open>'c\<close> the state of the FSST compressor and \<open>'e\<close> DataFusion's
  \<open>PhysicalExpr\<close>. The record \<open>arrays\<close> collects the operations the cache calls on them: the
  methods of the traits \<open>LiquidArray\<close> and \<open>LiquidSqueezedArray\<close>
  (\<^verbatim>\<open>src/storage/src/liquid_array/mod.rs\<close>, trait objects in the cache), the Arrow kernels, the
  Arrow IPC reader and writer, and the transcoder. \<open>codec_ok\<close> is the contract of these
  operations as the traits and Arrow document it: encodings are lossless up to \<open>arrow_eq\<close>,
  the equality of the logical rows of two arrays (whatever their physical encoding).
\<close>

section \<open>Outcomes\<close>

text \<open>
  A run of the cache's code is done with a result, has panicked, or is still inside a loop
  when the fuel is used up.
\<close>

datatype 'r outcome = Ok 'r | Panic | Running

fun obind :: "'r outcome \<Rightarrow> ('r \<Rightarrow> 'q outcome) \<Rightarrow> 'q outcome" where
  "obind (Ok r) f = f r"
| "obind Panic f = Panic"
| "obind Running f = Running"

fun expect :: "'r option \<Rightarrow> 'r outcome" where
  "expect None = Panic"
| "expect (Some r) = Ok r"

lemma obind_Ok_conv: "obind m f = Ok r \<longleftrightarrow> (\<exists>x. m = Ok x \<and> f x = Ok r)"
  by (cases m) auto

lemma expect_Ok_conv: "expect m = Ok r \<longleftrightarrow> m = Some r"
  by (cases m) auto

lemma obind_cong [fundef_cong]:
  "m = m' \<Longrightarrow> (\<And>x. m' = Ok x \<Longrightarrow> f x = g x) \<Longrightarrow> obind m f = obind m' g"
  by (cases m') auto

section \<open>Expressions\<close>

datatype date32_field = Year | Month | Day | DayOfWeek

record 't variant_request =
  vr_path :: string
  vr_type :: 't

datatype 't cache_expression =
    ExtractDate32 date32_field
  | VariantGet "'t variant_request list"
  | PredicateColumn
  | SubstringSearch

fun variant_requests :: "'t cache_expression \<Rightarrow> 't variant_request list option" where
  "variant_requests (VariantGet requests) = Some requests"
| "variant_requests (ExtractDate32 _) = None"
| "variant_requests PredicateColumn = None"
| "variant_requests SubstringSearch = None"

fun as_date32_field :: "'t cache_expression \<Rightarrow> date32_field option" where
  "as_date32_field (ExtractDate32 f) = Some f"
| "as_date32_field (VariantGet _) = None"
| "as_date32_field PredicateColumn = None"
| "as_date32_field SubstringSearch = None"

section \<open>Arrays\<close>

datatype squeezed_backing = BackLiquid | BackArrow

text \<open>
  The methods of a squeezed array that may read its full data take what is on disk at the
  entry's path, \<open>None\<close> when there is no file, and return \<open>None\<close> where they panic.
\<close>

record ('a, 'l, 's, 't, 'c, 'e) arrays =
  \<comment> \<open>Arrow and DataFusion\<close>
  arrow_memory_size :: "'a \<Rightarrow> usize"
  arrow_data_type :: "'a \<Rightarrow> 't"
  arrow_len :: "'a \<Rightarrow> nat"
  arrow_eq :: "'a \<Rightarrow> 'a \<Rightarrow> bool"
  arrow_filter :: "'a \<Rightarrow> bool list \<Rightarrow> 'a option"
  new_empty_array :: "'t \<Rightarrow> 'a"
  arrow_to_bytes :: "'a \<Rightarrow> bytes option"
  arrow_of_bytes :: "bytes \<Rightarrow> 'a option"
  gc_view_arrays :: "'a \<Rightarrow> 'a option"
  phys_eval :: "'e \<Rightarrow> 'a \<Rightarrow> bool option list"
  \<comment> \<open>trait LiquidArray\<close>
  liquid_memory_size :: "'l \<Rightarrow> usize"
  liquid_data_type :: "'l \<Rightarrow> 't"
  liquid_len :: "'l \<Rightarrow> nat"
  liquid_to_bytes :: "'l \<Rightarrow> bytes"
  liquid_of_bytes :: "'c \<Rightarrow> bytes \<Rightarrow> 'l option"
  liquid_to_arrow :: "'l \<Rightarrow> 'a"
  liquid_filter :: "'l \<Rightarrow> bool list \<Rightarrow> 'a"
  liquid_try_eval :: "'l \<Rightarrow> 'e \<Rightarrow> bool list \<Rightarrow> bool option list option"
  liquid_squeeze :: "'l \<Rightarrow> 't cache_expression option \<Rightarrow> ('s \<times> bytes) option"
  \<comment> \<open>trait LiquidSqueezedArray\<close>
  squeezed_memory_size :: "'s \<Rightarrow> usize"
  squeezed_data_type :: "'s \<Rightarrow> 't"
  squeezed_len :: "'s \<Rightarrow> nat"
  squeezed_backing_of :: "'s \<Rightarrow> squeezed_backing"
  squeezed_to_arrow :: "'s \<Rightarrow> bytes option \<Rightarrow> 'a option"
  squeezed_filter :: "'s \<Rightarrow> bytes option \<Rightarrow> bool list \<Rightarrow> 'a option"
  squeezed_try_eval :: "'s \<Rightarrow> bytes option \<Rightarrow> 'e \<Rightarrow> bool list \<Rightarrow> bool option list option option"
  \<comment> \<open>downcasts: SqueezedDate32Array (its field) and VariantStructSqueezedArray\<close>
  squeezed_date32 :: "'s \<Rightarrow> date32_field option"
  squeezed_component :: "'s \<Rightarrow> 'a"
  squeezed_is_variant :: "'s \<Rightarrow> bool"
  squeezed_contains_path :: "'s \<Rightarrow> string \<Rightarrow> bool"
  squeezed_with_paths :: "'s \<Rightarrow> string list \<Rightarrow> 'a option"
  squeezed_merge :: "'s \<Rightarrow> 's \<Rightarrow> 's"
  \<comment> \<open>transcode.rs and try_variant_squeeze\<close>
  transcode :: "'c \<Rightarrow> 'a \<Rightarrow> 't cache_expression option \<Rightarrow> 'l option \<times> 'c"
  variant_squeeze :: "'c \<Rightarrow> 'a \<Rightarrow> 't variant_request list \<Rightarrow> ('s \<times> bytes) option \<times> 'c"

section \<open>Cache entries\<close>

datatype ('a, 'l, 's, 't) cache_entry =
    MemoryArrow 'a
  | MemoryLiquid 'l
  | MemorySqueezedLiquid 's
  | DiskLiquid 't
  | DiskArrow 't

fun entry_memory_usage_bytes ::
  "('a, 'l, 's, 't, 'c, 'e) arrays \<Rightarrow> ('a, 'l, 's, 't) cache_entry \<Rightarrow> usize" where
  "entry_memory_usage_bytes A (MemoryArrow a) = arrow_memory_size A a"
| "entry_memory_usage_bytes A (MemoryLiquid l) = liquid_memory_size A l"
| "entry_memory_usage_bytes A (MemorySqueezedLiquid s) = squeezed_memory_size A s"
| "entry_memory_usage_bytes A (DiskLiquid _) = 0"
| "entry_memory_usage_bytes A (DiskArrow _) = 0"

fun batch_type_of :: "('a, 'l, 's, 't) cache_entry \<Rightarrow> batch_type" where
  "batch_type_of (MemoryArrow _) = BT_MemoryArrow"
| "batch_type_of (MemoryLiquid _) = BT_MemoryLiquid"
| "batch_type_of (MemorySqueezedLiquid _) = BT_MemorySqueezedLiquid"
| "batch_type_of (DiskLiquid _) = BT_DiskLiquid"
| "batch_type_of (DiskArrow _) = BT_DiskArrow"

text \<open>\<open>LiquidCache::disk_entry_from_squeezed\<close> of core.rs; the squeeze policies inline the same match.\<close>

definition disk_entry_from_squeezed ::
  "('a, 'l, 's, 't, 'c, 'e) arrays \<Rightarrow> 's \<Rightarrow> ('a, 'l, 's, 't) cache_entry" where
  "disk_entry_from_squeezed A sq = (case squeezed_backing_of A sq of
       BackLiquid \<Rightarrow> DiskLiquid (squeezed_data_type A sq)
     | BackArrow \<Rightarrow> DiskArrow (squeezed_data_type A sq))"

text \<open>How many times an entry can still be squeezed before it lives on disk only.\<close>

fun entry_rank :: "('a, 'l, 's, 't) cache_entry \<Rightarrow> nat" where
  "entry_rank (MemoryArrow _) = 3"
| "entry_rank (MemoryLiquid _) = 2"
| "entry_rank (MemorySqueezedLiquid _) = 1"
| "entry_rank (DiskLiquid _) = 0"
| "entry_rank (DiskArrow _) = 0"

lemma rank_disk_entry [simp]: "entry_rank (disk_entry_from_squeezed A s) = 0"
  by (simp add: disk_entry_from_squeezed_def split: squeezed_backing.split)

lemma size_rank0 [simp]: "entry_rank e = 0 \<Longrightarrow> entry_memory_usage_bytes A e = 0"
  by (cases e) auto

lemma entry_rank_le3: "entry_rank e \<le> 3"
  by (cases e) auto

section \<open>The contract of the arrays\<close>

text \<open>
  \<open>readable c l\<close>: the bytes of \<open>l\<close> can be read back with compressor \<open>c\<close>. Squeezing keeps the
  full data in the bytes it returns, in Liquid or in Arrow format; \<open>holds_array\<close> says that the
  bytes of an entry in the given format hold array \<open>a\<close>.
\<close>

definition readable :: "('a, 'l, 's, 't, 'c, 'e) arrays \<Rightarrow> 'c \<Rightarrow> 'l \<Rightarrow> bool" where
  "readable A c l \<longleftrightarrow> (\<exists>l'. liquid_of_bytes A c (liquid_to_bytes A l) = Some l'
     \<and> arrow_eq A (liquid_to_arrow A l') (liquid_to_arrow A l))"

definition holds_array ::
  "('a, 'l, 's, 't, 'c, 'e) arrays \<Rightarrow> 'c \<Rightarrow> squeezed_backing \<Rightarrow> bytes \<Rightarrow> 'a \<Rightarrow> bool" where
  "holds_array A c k b a = (case k of
       BackLiquid \<Rightarrow> (\<exists>l. liquid_of_bytes A c b = Some l \<and> arrow_eq A (liquid_to_arrow A l) a)
     | BackArrow \<Rightarrow> (\<exists>a'. arrow_of_bytes A b = Some a' \<and> arrow_eq A a' a))"

text \<open>
  \<open>reads_as r sel a\<close>: a read with selection \<open>sel\<close> that returned \<open>r\<close> returned the selected rows
  of \<open>a\<close>. A selection has one bit per row, see \<open>selection_fits\<close>.
\<close>

definition selection_fits :: "('a, 'l, 's, 't, 'c, 'e) arrays \<Rightarrow> bool list option \<Rightarrow> 'a \<Rightarrow> bool" where
  "selection_fits A sel a = (case sel of None \<Rightarrow> True | Some bs \<Rightarrow> length bs = arrow_len A a)"

definition reads_as :: "('a, 'l, 's, 't, 'c, 'e) arrays \<Rightarrow> 'a \<Rightarrow> bool list option \<Rightarrow> 'a \<Rightarrow> bool" where
  "reads_as A r sel a = (case sel of
       None \<Rightarrow> arrow_eq A r a
     | Some bs \<Rightarrow> (\<exists>r'. arrow_filter A a bs = Some r' \<and> arrow_eq A r r'))"

text \<open>
  A squeezed array other than a variant one gives back the data it was squeezed from, reading
  the backing bytes when it has to. A variant one keeps some typed paths in memory; its full
  data is in the Arrow bytes on disk only (its \<open>to_arrow_array\<close> never reads them).
\<close>

definition squeezed_backed ::
  "('a, 'l, 's, 't, 'c, 'e) arrays \<Rightarrow> 'c \<Rightarrow> 's \<Rightarrow> bytes \<Rightarrow> 'a \<Rightarrow> bool" where
  "squeezed_backed A c s b a \<longleftrightarrow> holds_array A c (squeezed_backing_of A s) b a
     \<and> (squeezed_is_variant A s \<longrightarrow> squeezed_backing_of A s = BackArrow)
     \<and> (\<not> squeezed_is_variant A s \<longrightarrow>
          (\<exists>r. squeezed_to_arrow A s (Some b) = Some r \<and> reads_as A r None a)
        \<and> squeezed_len A s = arrow_len A a
        \<and> (\<forall>bs. length bs = arrow_len A a \<longrightarrow>
             (\<exists>r. squeezed_filter A s (Some b) bs = Some r \<and> reads_as A r (Some bs) a)
           \<and> (\<forall>e. \<exists>v. squeezed_try_eval A s (Some b) e bs = Some v
                \<and> (\<forall>buf f. v = Some buf \<longrightarrow> arrow_filter A a bs = Some f \<longrightarrow> buf = phys_eval A e f))))"

text \<open>The compressor only moves forward: what could be read stays readable after transcoding.\<close>

definition compressor_le :: "('a, 'l, 's, 't, 'c, 'e) arrays \<Rightarrow> 'c \<Rightarrow> 'c \<Rightarrow> bool" where
  "compressor_le A c c' \<longleftrightarrow>
     (\<forall>b l. liquid_of_bytes A c b = Some l \<longrightarrow> liquid_of_bytes A c' b = Some l)"

definition arrow_ok :: "('a, 'l, 's, 't, 'c, 'e) arrays \<Rightarrow> bool" where
  "arrow_ok A \<longleftrightarrow>
     (\<forall>a. arrow_eq A a a) \<and> (\<forall>a b. arrow_eq A a b \<longrightarrow> arrow_eq A b a)
   \<and> (\<forall>a b c. arrow_eq A a b \<longrightarrow> arrow_eq A b c \<longrightarrow> arrow_eq A a c)
   \<and> (\<forall>a b. arrow_eq A a b \<longrightarrow> arrow_len A a = arrow_len A b)
   \<and> (\<forall>e a b. arrow_eq A a b \<longrightarrow> phys_eval A e a = phys_eval A e b)
   \<and> (\<forall>a bs. length bs = arrow_len A a \<longrightarrow> arrow_filter A a bs \<noteq> None)
   \<and> (\<forall>a b bs f g. arrow_eq A a b \<longrightarrow> arrow_filter A a bs = Some f \<longrightarrow>
        arrow_filter A b bs = Some g \<longrightarrow> arrow_eq A f g)
   \<and> (\<forall>a bs f t. True \<notin> set bs \<longrightarrow> arrow_filter A a bs = Some f \<longrightarrow>
        arrow_eq A (new_empty_array A t) f)
   \<and> (\<forall>a g. gc_view_arrays A a = Some g \<longrightarrow> arrow_eq A g a)
   \<and> (\<forall>a. \<exists>b a'. arrow_to_bytes A a = Some b \<and> arrow_of_bytes A b = Some a' \<and> arrow_eq A a' a)"

definition liquid_ok :: "('a, 'l, 's, 't, 'c, 'e) arrays \<Rightarrow> bool" where
  "liquid_ok A \<longleftrightarrow>
     (\<forall>c b l. liquid_of_bytes A c b = Some l \<longrightarrow> readable A c l)
   \<and> (\<forall>l. liquid_len A l = arrow_len A (liquid_to_arrow A l))
   \<and> (\<forall>l bs f. arrow_filter A (liquid_to_arrow A l) bs = Some f \<longrightarrow>
        arrow_eq A (liquid_filter A l bs) f
        \<and> (\<forall>e buf. liquid_try_eval A l e bs = Some buf \<longrightarrow> buf = phys_eval A e f))
   \<and> (\<forall>c l h s b. readable A c l \<longrightarrow> liquid_squeeze A l h = Some (s, b)
        \<longrightarrow> squeezed_backed A c s b (liquid_to_arrow A l))"

definition transcode_ok :: "('a, 'l, 's, 't, 'c, 'e) arrays \<Rightarrow> bool" where
  "transcode_ok A \<longleftrightarrow>
     (\<forall>c a h. compressor_le A c (snd (transcode A c a h))
        \<and> (\<forall>l. fst (transcode A c a h) = Some l \<longrightarrow>
             readable A (snd (transcode A c a h)) l \<and> arrow_eq A (liquid_to_arrow A l) a))
   \<and> (\<forall>c a r. compressor_le A c (snd (variant_squeeze A c a r))
        \<and> (\<forall>s b. fst (variant_squeeze A c a r) = Some (s, b) \<longrightarrow>
             squeezed_is_variant A s \<and> squeezed_backing_of A s = BackArrow
             \<and> holds_array A (snd (variant_squeeze A c a r)) BackArrow b a))
   \<and> (\<forall>s s'. squeezed_is_variant A s \<longrightarrow> squeezed_is_variant A (squeezed_merge A s s')
        \<and> squeezed_backing_of A (squeezed_merge A s s') = BackArrow)"

definition codec_ok :: "('a, 'l, 's, 't, 'c, 'e) arrays \<Rightarrow> bool" where
  "codec_ok A \<longleftrightarrow> arrow_ok A \<and> liquid_ok A \<and> transcode_ok A"

subsection \<open>Consequences\<close>

lemma codec_parts: "codec_ok A \<Longrightarrow> arrow_ok A" "codec_ok A \<Longrightarrow> liquid_ok A" "codec_ok A \<Longrightarrow> transcode_ok A"
  by (auto simp: codec_ok_def)

text \<open>The conjuncts of the contract, one by one.\<close>

lemmas arrow_eq_refl = codec_parts(1) [unfolded arrow_ok_def, THEN conjunct1, rule_format]
lemmas arrow_eq_sym = codec_parts(1) [unfolded arrow_ok_def, THEN conjunct2, THEN conjunct1, rule_format]
lemmas arrow_eq_trans = codec_parts(1) [unfolded arrow_ok_def, THEN conjunct2, THEN conjunct2, THEN conjunct1, rule_format]
lemmas arrow_eq_len = codec_parts(1) [unfolded arrow_ok_def, THEN conjunct2, THEN conjunct2, THEN conjunct2, THEN conjunct1, rule_format]
lemmas phys_eval_cong = codec_parts(1) [unfolded arrow_ok_def, THEN conjunct2, THEN conjunct2, THEN conjunct2, THEN conjunct2, THEN conjunct1, rule_format]
lemmas arrow_filter_defined = codec_parts(1) [unfolded arrow_ok_def, THEN conjunct2, THEN conjunct2, THEN conjunct2, THEN conjunct2, THEN conjunct2, THEN conjunct1, rule_format]
lemmas arrow_filter_cong = codec_parts(1) [unfolded arrow_ok_def, THEN conjunct2, THEN conjunct2, THEN conjunct2, THEN conjunct2, THEN conjunct2, THEN conjunct2, THEN conjunct1, rule_format]
lemmas arrow_filter_none = codec_parts(1) [unfolded arrow_ok_def, THEN conjunct2, THEN conjunct2, THEN conjunct2, THEN conjunct2, THEN conjunct2, THEN conjunct2, THEN conjunct2, THEN conjunct1, rule_format]
lemmas gc_view_arrays_eq = codec_parts(1) [unfolded arrow_ok_def, THEN conjunct2, THEN conjunct2, THEN conjunct2, THEN conjunct2, THEN conjunct2, THEN conjunct2, THEN conjunct2, THEN conjunct2, THEN conjunct1, rule_format]
lemmas arrow_bytes_exist = codec_parts(1) [unfolded arrow_ok_def, THEN conjunct2, THEN conjunct2, THEN conjunct2, THEN conjunct2, THEN conjunct2, THEN conjunct2, THEN conjunct2, THEN conjunct2, THEN conjunct2, rule_format]

lemmas liquid_of_bytes_readable = codec_parts(2) [unfolded liquid_ok_def, THEN conjunct1, rule_format]
lemmas liquid_len_eq = codec_parts(2) [unfolded liquid_ok_def, THEN conjunct2, THEN conjunct1, rule_format]
lemmas liquid_filter_eval = codec_parts(2) [unfolded liquid_ok_def, THEN conjunct2, THEN conjunct2, THEN conjunct1, rule_format]
lemmas liquid_squeeze_backed = codec_parts(2) [unfolded liquid_ok_def, THEN conjunct2, THEN conjunct2, THEN conjunct2, rule_format]

lemmas transcode_spec = codec_parts(3) [unfolded transcode_ok_def, THEN conjunct1, rule_format]
lemmas variant_squeeze_spec = codec_parts(3) [unfolded transcode_ok_def, THEN conjunct2, THEN conjunct1, rule_format]
lemmas squeezed_merge_spec = codec_parts(3) [unfolded transcode_ok_def, THEN conjunct2, THEN conjunct2, rule_format]

declare arrow_eq_refl [simp, intro]

lemma arrow_filter_total: "codec_ok A \<Longrightarrow> length bs = arrow_len A a \<Longrightarrow> \<exists>f. arrow_filter A a bs = Some f"
  using arrow_filter_defined [of A bs a] by auto

lemma arrow_bytes:
  assumes "codec_ok A"
  obtains b a' where "arrow_to_bytes A a = Some b" "arrow_of_bytes A b = Some a'" "arrow_eq A a' a"
  using arrow_bytes_exist [OF assms] by blast

lemma compressor_le_refl [simp]: "compressor_le A c c"
  by (simp add: compressor_le_def)

lemma compressor_le_trans: "compressor_le A a b \<Longrightarrow> compressor_le A b c \<Longrightarrow> compressor_le A a c"
  by (simp add: compressor_le_def)

lemma readable_mono: "compressor_le A c c' \<Longrightarrow> readable A c l \<Longrightarrow> readable A c' l"
  unfolding compressor_le_def readable_def by blast

lemma holds_array_mono: "compressor_le A c c' \<Longrightarrow> holds_array A c k b a \<Longrightarrow> holds_array A c' k b a"
  by (cases k) (auto simp: holds_array_def compressor_le_def)

lemma squeezed_backed_mono:
  "compressor_le A c c' \<Longrightarrow> squeezed_backed A c s b a \<Longrightarrow> squeezed_backed A c' s b a"
  unfolding squeezed_backed_def using holds_array_mono [of A c c'] by blast

text \<open>The contract looks at arrays only up to \<open>arrow_eq\<close>.\<close>

lemma holds_array_cong:
  "codec_ok A \<Longrightarrow> arrow_eq A a a' \<Longrightarrow> holds_array A c k b a \<Longrightarrow> holds_array A c k b a'"
  by (cases k) (auto simp: holds_array_def intro: arrow_eq_trans)

lemma selection_fits_cong:
  "codec_ok A \<Longrightarrow> arrow_eq A a a' \<Longrightarrow> selection_fits A sel a = selection_fits A sel a'"
  using arrow_eq_len [of A a a'] by (auto simp: selection_fits_def split: option.splits)

lemma reads_as_cong:
  assumes "codec_ok A" and "arrow_eq A a a'" and "selection_fits A sel a" and "reads_as A r sel a"
  shows "reads_as A r sel a'"
proof (cases sel)
  case None
  with assms show ?thesis by (auto simp: reads_as_def intro: arrow_eq_trans)
next
  case (Some bs)
  with assms(4) obtain f where f: "arrow_filter A a bs = Some f" "arrow_eq A r f"
    by (auto simp: reads_as_def)
  obtain g where g: "arrow_filter A a' bs = Some g"
    using arrow_filter_total [OF assms(1), of bs a'] arrow_eq_len [OF assms(1,2)] assms(3) Some
    by (auto simp: selection_fits_def)
  have "arrow_eq A r g"
    using arrow_eq_trans [OF assms(1) f(2)] arrow_filter_cong [OF assms(1,2) f(1) g] by blast
  with g Some show ?thesis by (simp add: reads_as_def)
qed

lemma eval_cong:
  assumes "codec_ok A" and "arrow_eq A a a'" and "length bs = arrow_len A a"
    and "\<And>f. arrow_filter A a bs = Some f \<Longrightarrow> buf = phys_eval A e f"
    and "arrow_filter A a' bs = Some g"
  shows "buf = phys_eval A e g"
  using arrow_filter_total [OF assms(1,3)] arrow_filter_cong [OF assms(1,2) _ assms(5)]
    phys_eval_cong [OF assms(1)] assms(4) by metis

lemma squeezed_backed_cong:
  assumes "codec_ok A" and "arrow_eq A a a'" and "squeezed_backed A c s b a"
  shows "squeezed_backed A c s b a'"
proof -
  have len: "arrow_len A a' = arrow_len A a" using arrow_eq_len [OF assms(1,2)] by simp
  have "\<exists>r. squeezed_to_arrow A s (Some b) = Some r \<and> reads_as A r None a'"
    "\<And>bs. length bs = arrow_len A a \<Longrightarrow>
       \<exists>r. squeezed_filter A s (Some b) bs = Some r \<and> reads_as A r (Some bs) a'"
    if "\<not> squeezed_is_variant A s"
    using assms(3) that reads_as_cong [OF assms(1,2)]
    by (auto simp: squeezed_backed_def selection_fits_def)
  moreover have "\<exists>v. squeezed_try_eval A s (Some b) e bs = Some v
      \<and> (\<forall>buf f. v = Some buf \<longrightarrow> arrow_filter A a' bs = Some f \<longrightarrow> buf = phys_eval A e f)"
    if "\<not> squeezed_is_variant A s" "length bs = arrow_len A a" for e bs
    using assms(3) that eval_cong [OF assms(1,2) that(2)] unfolding squeezed_backed_def by metis
  ultimately show ?thesis
    using assms(3) holds_array_cong [OF assms(1,2)] len unfolding squeezed_backed_def by simp
qed

text \<open>What an entry with bytes \<open>d\<close> on disk stores.\<close>

fun entry_holds ::
  "('a, 'l, 's, 't, 'c, 'e) arrays \<Rightarrow> 'c \<Rightarrow> bytes option \<Rightarrow> ('a, 'l, 's, 't) cache_entry \<Rightarrow> 'a \<Rightarrow> bool" where
  "entry_holds A c d (MemoryArrow x) a = arrow_eq A x a"
| "entry_holds A c d (MemoryLiquid l) a = (readable A c l \<and> arrow_eq A (liquid_to_arrow A l) a)"
| "entry_holds A c d (MemorySqueezedLiquid s) a = (\<exists>b. d = Some b \<and> squeezed_backed A c s b a)"
| "entry_holds A c d (DiskLiquid _) a = (\<exists>b. d = Some b \<and> holds_array A c BackLiquid b a)"
| "entry_holds A c d (DiskArrow _) a = (\<exists>b. d = Some b \<and> holds_array A c BackArrow b a)"

lemma entry_holds_mono: "compressor_le A c c' \<Longrightarrow> entry_holds A c d e a \<Longrightarrow> entry_holds A c' d e a"
  by (cases e) (auto intro: readable_mono holds_array_mono squeezed_backed_mono)

lemma entry_holds_disk_irrelevant: "1 < entry_rank e \<Longrightarrow> entry_holds A c d e a = entry_holds A c d' e a"
  by (cases e) auto

lemma entry_holds_disk_entry:
  "entry_holds A c d (MemorySqueezedLiquid s) a \<Longrightarrow> entry_holds A c d (disk_entry_from_squeezed A s) a"
  by (auto simp: disk_entry_from_squeezed_def squeezed_backed_def split: squeezed_backing.splits)

lemma holds_arrow_bytes:
  assumes "codec_ok A" and "arrow_to_bytes A x = Some b" and "arrow_eq A x a"
  shows "holds_array A c BackArrow b a"
  using arrow_bytes [OF assms(1), of x] assms arrow_eq_trans [OF assms(1)]
  by (fastforce simp: holds_array_def)

lemma holds_liquid_bytes:
  assumes "codec_ok A" and "readable A c l" and "arrow_eq A (liquid_to_arrow A l) a"
  shows "holds_array A c BackLiquid (liquid_to_bytes A l) a"
  using assms arrow_eq_trans [OF assms(1)] by (auto simp: holds_array_def readable_def)

lemma entry_holds_cong:
  assumes "codec_ok A" and "arrow_eq A a a'"
  shows "entry_holds A c d e a \<Longrightarrow> entry_holds A c d e a'"
  by (cases e) (auto intro: arrow_eq_trans [OF assms(1) _ assms(2)] squeezed_backed_cong [OF assms]
    holds_array_cong [OF assms])

end
