(* ===== verification/ArtIndex.thy ===== *)
theory ArtIndex
  imports CacheEntry
begin

text \<open>
  The index of the cache, \<^verbatim>\<open>src/storage/src/cache/index.rs\<close>: a concurrent radix tree of the
  \<^verbatim>\<open>congee\<close> crate beside an entry counter. The tree is a parameter (record \<open>congee\<close>, the
  methods the code calls) with its documented behaviour \<open>congee_ok\<close>: a finite map, \<open>insert\<close>
  returns the previous value, \<open>keys\<close> lists every key once. The operations of \<open>ArtIndex\<close> are
  shown to refine those of \<open>index\<close>, a map with its number of entries, which is the form in
  which the cache uses it.
\<close>

section \<open>The code\<close>

record ('art, 'v) congee =
  art_new :: 'art
  art_get :: "entry_id \<Rightarrow> 'art \<Rightarrow> 'v option"
  art_insert :: "entry_id \<Rightarrow> 'v \<Rightarrow> 'art \<Rightarrow> ('v option \<times> 'art) option"
  art_remove :: "entry_id \<Rightarrow> 'art \<Rightarrow> 'v option \<times> 'art"
  art_keys :: "'art \<Rightarrow> entry_id list"

record 'art art_index =
  art :: 'art
  art_entry_count :: usize

definition art_index_new :: "('art, 'v) congee \<Rightarrow> 'art art_index" where
  "art_index_new C = \<lparr>art = art_new C, art_entry_count = 0\<rparr>"

definition art_index_get :: "('art, 'v) congee \<Rightarrow> entry_id \<Rightarrow> 'art art_index \<Rightarrow> 'v option" where
  "art_index_get C i ix = art_get C i (art ix)"

definition art_index_is_cached :: "('art, 'v) congee \<Rightarrow> entry_id \<Rightarrow> 'art art_index \<Rightarrow> bool" where
  "art_index_is_cached C i ix = (art_get C i (art ix) \<noteq> None)"

definition art_index_insert ::
  "('art, 'v) congee \<Rightarrow> entry_id \<Rightarrow> 'v \<Rightarrow> 'art art_index \<Rightarrow> 'art art_index outcome" where
  "art_index_insert C i v ix =
     obind (expect (art_insert C i v (art ix))) (\<lambda>(existing, t).
       Ok (if existing = None then ix\<lparr>art := t, art_entry_count := art_entry_count ix + 1\<rparr>
           else ix\<lparr>art := t\<rparr>))"

fun art_remove_all :: "('art, 'v) congee \<Rightarrow> entry_id list \<Rightarrow> 'art \<Rightarrow> 'art outcome" where
  "art_remove_all C [] t = Ok t"
| "art_remove_all C (k # ks) t =
     (case art_remove C k t of (v, t') \<Rightarrow> obind (expect v) (\<lambda>_. art_remove_all C ks t'))"

definition art_index_reset :: "('art, 'v) congee \<Rightarrow> 'art art_index \<Rightarrow> 'art art_index outcome" where
  "art_index_reset C ix = obind (art_remove_all C (art_keys C (art ix)) (art ix))
     (\<lambda>t. Ok (ix\<lparr>art := t, art_entry_count := 0\<rparr>))"

fun for_each_keys ::
  "('art, 'v) congee \<Rightarrow> 'art \<Rightarrow> (entry_id \<Rightarrow> 'v \<Rightarrow> 'b \<Rightarrow> 'b) \<Rightarrow> entry_id list \<Rightarrow> 'b \<Rightarrow> 'b outcome" where
  "for_each_keys C t f [] b = Ok b"
| "for_each_keys C t f (k # ks) b =
     obind (expect (art_get C k t)) (\<lambda>v. for_each_keys C t f ks (f k v b))"

definition art_index_for_each ::
  "('art, 'v) congee \<Rightarrow> (entry_id \<Rightarrow> 'v \<Rightarrow> 'b \<Rightarrow> 'b) \<Rightarrow> 'art art_index \<Rightarrow> 'b \<Rightarrow> 'b outcome" where
  "art_index_for_each C f ix b = for_each_keys C (art ix) f (art_keys C (art ix)) b"

section \<open>The specification\<close>

record 'v index =
  ix_map :: "entry_id \<rightharpoonup> 'v"
  ix_count :: usize

definition index_new :: "'v index" where
  "index_new = \<lparr>ix_map = Map.empty, ix_count = 0\<rparr>"

definition index_insert :: "entry_id \<Rightarrow> 'v \<Rightarrow> 'v index \<Rightarrow> 'v index" where
  "index_insert i v ix = \<lparr>ix_map = (ix_map ix)(i \<mapsto> v),
     ix_count = (if ix_map ix i = None then ix_count ix + 1 else ix_count ix)\<rparr>"

definition index_reset :: "'v index \<Rightarrow> 'v index" where
  "index_reset ix = index_new"

definition congee_ok :: "('art, 'v) congee \<Rightarrow> bool" where
  "congee_ok C \<longleftrightarrow> (\<forall>i. art_get C i (art_new C) = None)
     \<and> (\<forall>i v t. \<exists>t'. art_insert C i v t = Some (art_get C i t, t')
          \<and> (\<forall>j. art_get C j t' = (if j = i then Some v else art_get C j t)))
     \<and> (\<forall>i t. fst (art_remove C i t) = art_get C i t
          \<and> (\<forall>j. art_get C j (snd (art_remove C i t)) = (if j = i then None else art_get C j t)))
     \<and> (\<forall>t. distinct (art_keys C t) \<and> set (art_keys C t) = {i. art_get C i t \<noteq> None})"

definition abs_index :: "('art, 'v) congee \<Rightarrow> 'art art_index \<Rightarrow> 'v index" where
  "abs_index C ix = \<lparr>ix_map = (\<lambda>i. art_get C i (art ix)), ix_count = art_entry_count ix\<rparr>"

definition index_ok :: "'v index \<Rightarrow> bool" where
  "index_ok ix \<longleftrightarrow> finite (dom (ix_map ix)) \<and> ix_count ix = of_nat (card (dom (ix_map ix)))"

lemma index_new_ok [simp]: "index_ok index_new"
  by (simp add: index_ok_def index_new_def)

lemma index_insert_ok [inv_intros]: "index_ok ix \<Longrightarrow> index_ok (index_insert i v ix)"
  by (cases "ix_map ix i") (auto simp: index_ok_def index_insert_def card_insert_if insert_absorb domI)

lemma ix_map_insert [simp]: "ix_map (index_insert i v ix) = (ix_map ix)(i \<mapsto> v)"
  by (simp add: index_insert_def)

section \<open>Refinement\<close>

lemma congee_okD:
  assumes "congee_ok C"
  shows "art_get C i (art_new C) = None"
    and "\<exists>t'. art_insert C i v t = Some (art_get C i t, t')
      \<and> (\<forall>j. art_get C j t' = (if j = i then Some v else art_get C j t))"
    and "fst (art_remove C i t) = art_get C i t"
    and "art_get C j (snd (art_remove C i t)) = (if j = i then None else art_get C j t)"
    and "distinct (art_keys C t)" and "set (art_keys C t) = {i. art_get C i t \<noteq> None}"
  using assms by (simp_all add: congee_ok_def)

lemma abs_index_new: "congee_ok C \<Longrightarrow> abs_index C (art_index_new C) = index_new"
  by (simp add: abs_index_def art_index_new_def index_new_def congee_okD)

lemma abs_index_insert:
  assumes "congee_ok C"
  shows "\<exists>ix'. art_index_insert C i v ix = Ok ix' \<and> abs_index C ix' = index_insert i v (abs_index C ix)"
proof -
  obtain t' where "art_insert C i v (art ix) = Some (art_get C i (art ix), t')"
    "\<forall>j. art_get C j t' = (if j = i then Some v else art_get C j (art ix))"
    using congee_okD(2) [OF assms] by blast
  then show ?thesis
    by (auto simp: art_index_insert_def abs_index_def index_insert_def fun_eq_iff)
qed

lemma art_remove_all_ok:
  assumes "congee_ok C"
  shows "distinct ks \<Longrightarrow> set ks \<subseteq> {i. art_get C i t \<noteq> None} \<Longrightarrow>
    \<exists>t'. art_remove_all C ks t = Ok t' \<and> (\<forall>j. art_get C j t' = (if j \<in> set ks then None else art_get C j t))"
proof (induction ks arbitrary: t)
  case Nil
  then show ?case by simp
next
  case (Cons k ks)
  obtain v t1 where r: "art_remove C k t = (v, t1)" by fastforce
  have t1: "v = art_get C k t" "\<And>j. art_get C j t1 = (if j = k then None else art_get C j t)"
    using congee_okD(3) [OF assms, of k t] congee_okD(4) [OF assms, where i = k and t = t] r by auto
  have "set ks \<subseteq> {i. art_get C i t1 \<noteq> None}" using Cons.prems t1(2) by auto
  then obtain t' where t': "art_remove_all C ks t1 = Ok t'"
    "\<forall>j. art_get C j t' = (if j \<in> set ks then None else art_get C j t1)"
    using Cons.IH [of t1] Cons.prems(1) by auto
  moreover obtain w where "v = Some w" using Cons.prems t1(1) by auto
  ultimately show ?case using r t1(2) by auto
qed

lemma abs_index_reset:
  assumes "congee_ok C"
  shows "\<exists>ix'. art_index_reset C ix = Ok ix' \<and> abs_index C ix' = index_reset (abs_index C ix)"
proof -
  obtain t' where "art_remove_all C (art_keys C (art ix)) (art ix) = Ok t'"
    "\<forall>j. art_get C j t' = (if j \<in> set (art_keys C (art ix)) then None else art_get C j (art ix))"
    using art_remove_all_ok [OF assms, of "art_keys C (art ix)" "art ix"] congee_okD(5,6) [OF assms]
    by auto
  then show ?thesis using congee_okD(6) [OF assms, of "art ix"]
    by (auto simp: art_index_reset_def abs_index_def index_reset_def index_new_def fun_eq_iff)
qed

lemma for_each_keys_ok:
  "\<forall>k \<in> set ks. art_get C k t \<noteq> None \<Longrightarrow>
    for_each_keys C t f ks b = Ok (fold (\<lambda>k. f k (the (art_get C k t))) ks b)"
  by (induction ks arbitrary: b) auto

lemma abs_index_for_each:
  "congee_ok C \<Longrightarrow> art_index_for_each C f ix b
    = Ok (fold (\<lambda>k. f k (the (ix_map (abs_index C ix) k))) (art_keys C (art ix)) b)"
  using for_each_keys_ok [of "art_keys C (art ix)" C "art ix" f b] congee_okD(6) [of C "art ix"]
  by (simp add: art_index_for_each_def abs_index_def)

end
