(* ===== verification/SqueezePolicy.thy ===== *)
theory SqueezePolicy
  imports CacheEntry
begin

text \<open>
  The squeeze policies, \<^verbatim>\<open>src/storage/src/cache/policies/squeeze.rs\<close>. The trait method
  \<open>SqueezePolicy::squeeze\<close> is a function of the compressor state, the hint and the entry; it
  returns the new entry, the bytes to write and the compressor state after it, or panics. The
  locale \<open>squeeze_policy\<close> is what the cache relies on: squeezing never panics, always moves
  an in-memory entry closer to disk, leaves a disk entry alone, loses no data once the
  returned bytes are written, and makes no squeezed array of an Arrow array without a hint. \<open>Evict\<close>, \<open>TranscodeSqueezeEvict\<close> and \<open>TranscodeEvict\<close> are
  interpretations of it.
\<close>

type_synonym ('a, 'l, 's, 't, 'c) squeezer =
  "'c \<Rightarrow> 't cache_expression option \<Rightarrow> ('a, 'l, 's, 't) cache_entry \<Rightarrow>
   ((('a, 'l, 's, 't) cache_entry \<times> bytes option) \<times> 'c) outcome"

section \<open>The three policies\<close>

fun evict_squeeze :: "('a, 'l, 's, 't, 'c, 'e) arrays \<Rightarrow> ('a, 'l, 's, 't, 'c) squeezer" where
  "evict_squeeze A c hint (MemoryArrow a) =
     obind (expect (arrow_to_bytes A a)) (\<lambda>b. Ok ((DiskArrow (arrow_data_type A a), Some b), c))"
| "evict_squeeze A c hint (MemoryLiquid l) =
     Ok ((DiskLiquid (liquid_data_type A l), Some (liquid_to_bytes A l)), c)"
| "evict_squeeze A c hint (MemorySqueezedLiquid s) =
     Ok ((disk_entry_from_squeezed A s, None), c)"
| "evict_squeeze A c hint (DiskLiquid t) = Ok ((DiskLiquid t, None), c)"
| "evict_squeeze A c hint (DiskArrow t) = Ok ((DiskArrow t, None), c)"

text \<open>The part of the Arrow case after the variant attempt: transcode, or write Arrow to disk.\<close>

definition transcode_or_disk ::
  "('a, 'l, 's, 't, 'c, 'e) arrays \<Rightarrow> 'c \<Rightarrow> 't cache_expression option \<Rightarrow> 'a \<Rightarrow>
   ((('a, 'l, 's, 't) cache_entry \<times> bytes option) \<times> 'c) outcome" where
  "transcode_or_disk A c hint a =
     (case transcode A c a hint of
        (Some l, c') \<Rightarrow> Ok ((MemoryLiquid l, None), c')
      | (None, c') \<Rightarrow> obind (expect (arrow_to_bytes A a))
          (\<lambda>b. Ok ((DiskArrow (arrow_data_type A a), Some b), c')))"

fun transcode_squeeze_evict :: "('a, 'l, 's, 't, 'c, 'e) arrays \<Rightarrow> ('a, 'l, 's, 't, 'c) squeezer" where
  "transcode_squeeze_evict A c hint (MemoryArrow a) =
     (case Option.bind hint variant_requests of
        Some requests \<Rightarrow>
          (case variant_squeeze A c a requests of
             (Some (s, b), c') \<Rightarrow> Ok ((MemorySqueezedLiquid s, Some b), c')
           | (None, c') \<Rightarrow> transcode_or_disk A c' hint a)
      | None \<Rightarrow> transcode_or_disk A c hint a)"
| "transcode_squeeze_evict A c hint (MemoryLiquid l) =
     (case liquid_squeeze A l hint of
        Some (s, b) \<Rightarrow> Ok ((MemorySqueezedLiquid s, Some b), c)
      | None \<Rightarrow> Ok ((DiskLiquid (liquid_data_type A l), Some (liquid_to_bytes A l)), c))"
| "transcode_squeeze_evict A c hint (MemorySqueezedLiquid s) =
     Ok ((disk_entry_from_squeezed A s, None), c)"
| "transcode_squeeze_evict A c hint (DiskLiquid t) = Ok ((DiskLiquid t, None), c)"
| "transcode_squeeze_evict A c hint (DiskArrow t) = Ok ((DiskArrow t, None), c)"

fun transcode_evict :: "('a, 'l, 's, 't, 'c, 'e) arrays \<Rightarrow> ('a, 'l, 's, 't, 'c) squeezer" where
  "transcode_evict A c hint (MemoryArrow a) = transcode_or_disk A c None a"
| "transcode_evict A c hint (MemoryLiquid l) =
     Ok ((DiskLiquid (liquid_data_type A l), Some (liquid_to_bytes A l)), c)"
| "transcode_evict A c hint (MemorySqueezedLiquid s) =
     Ok ((disk_entry_from_squeezed A s, None), c)"
| "transcode_evict A c hint (DiskLiquid t) = Ok ((DiskLiquid t, None), c)"
| "transcode_evict A c hint (DiskArrow t) = Ok ((DiskArrow t, None), c)"

section \<open>The contract\<close>

text \<open>The file of an entry after the bytes a squeeze returned were written.\<close>

definition written :: "bytes option \<Rightarrow> bytes option \<Rightarrow> bytes option" where
  "written b d = (case b of None \<Rightarrow> d | Some x \<Rightarrow> Some x)"

lemma written_simps [simp]: "written None d = d" "written (Some x) d = Some x"
  by (simp_all add: written_def)

definition squeeze_result ::
  "('a, 'l, 's, 't, 'c, 'e) arrays \<Rightarrow> 'c \<Rightarrow> ('a, 'l, 's, 't) cache_entry \<Rightarrow>
   ('a, 'l, 's, 't) cache_entry \<Rightarrow> bytes option \<Rightarrow> 'c \<Rightarrow> bool" where
  "squeeze_result A c e e' b c' \<longleftrightarrow> compressor_le A c c'
     \<and> (if entry_rank e = 0 then e' = e else entry_rank e' < entry_rank e)
     \<and> (entry_rank e \<le> 1 \<longrightarrow> b = None)
     \<and> (\<forall>d a. entry_holds A c d e a \<longrightarrow> entry_holds A c' (written b d) e' a)"

text \<open>Squeezing the same entry over and over, the bytes written each time.\<close>

fun squeezes :: "('a, 'l, 's, 't, 'c) squeezer \<Rightarrow> nat \<Rightarrow> 'c \<Rightarrow> 't cache_expression option \<Rightarrow>
  bytes option \<Rightarrow> ('a, 'l, 's, 't) cache_entry \<Rightarrow> (('a, 'l, 's, 't) cache_entry \<times> bytes option \<times> 'c) outcome" where
  "squeezes sq 0 c hint d e = Ok (e, d, c)"
| "squeezes sq (Suc n) c hint d e =
     obind (sq c hint e) (\<lambda>((e', b), c'). squeezes sq n c' hint (written b d) e')"

locale squeeze_policy =
  fixes A :: "('a, 'l, 's, 't, 'c, 'e) arrays" and sq :: "('a, 'l, 's, 't, 'c) squeezer"
  assumes squeeze_ok: "codec_ok A \<Longrightarrow>
    \<exists>e' b c'. sq c hint e = Ok ((e', b), c') \<and> squeeze_result A c e e' b c'"
    and squeeze_unhinted: "codec_ok A \<Longrightarrow> sq c None (MemoryArrow x) = Ok ((e', b), c') \<Longrightarrow>
      entry_rank e' \<noteq> 1"
begin

lemma squeezes_ok:
  assumes "codec_ok A"
  shows "entry_holds A c d e a \<Longrightarrow> \<exists>e' d' c'. squeezes sq n c hint d e = Ok (e', d', c')
    \<and> entry_holds A c' d' e' a \<and> entry_rank e' \<le> entry_rank e - n"
proof (induction n arbitrary: c d e)
  case 0
  then show ?case by simp
next
  case (Suc n)
  obtain e' b c' where e': "sq c hint e = Ok ((e', b), c')" "squeeze_result A c e e' b c'"
    using squeeze_ok [OF assms] by blast
  then have "entry_holds A c' (written b d) e' a" using Suc.prems by (simp add: squeeze_result_def)
  from Suc.IH [OF this] e' show ?case by (fastforce simp: squeeze_result_def split: if_splits)
qed

end

section \<open>The policies keep the contract\<close>

lemma squeeze_result_disk: "squeeze_result A c (DiskLiquid t) (DiskLiquid t) None c"
  "squeeze_result A c (DiskArrow t) (DiskArrow t) None c"
  by (simp_all add: squeeze_result_def)

lemma squeeze_result_squeezed:
  "squeeze_result A c (MemorySqueezedLiquid s) (disk_entry_from_squeezed A s) None c"
  using entry_holds_disk_entry [of A c _ s] by (simp add: squeeze_result_def)

lemma squeeze_result_liquid_to_disk:
  "codec_ok A \<Longrightarrow> squeeze_result A c (MemoryLiquid l) (DiskLiquid t) (Some (liquid_to_bytes A l)) c"
  by (simp add: squeeze_result_def holds_liquid_bytes)

lemma squeeze_result_arrow_to_disk:
  "codec_ok A \<Longrightarrow> arrow_to_bytes A x = Some b \<Longrightarrow> compressor_le A c c' \<Longrightarrow>
    squeeze_result A c (MemoryArrow x) (DiskArrow t) (Some b) c'"
  by (simp add: squeeze_result_def holds_arrow_bytes)

lemma transcode_or_disk_ok:
  assumes "codec_ok A" and "compressor_le A c0 c"
  shows "\<exists>e' b c'. transcode_or_disk A c hint x = Ok ((e', b), c')
    \<and> squeeze_result A c0 (MemoryArrow x) e' b c'"
proof (cases "transcode A c x hint")
  case (Pair l c')
  have le: "compressor_le A c0 c'"
    using transcode_spec [OF assms(1), of c x hint] Pair compressor_le_trans [OF assms(2)] by simp
  show ?thesis
  proof (cases l)
    case None
    obtain b where "arrow_to_bytes A x = Some b" using arrow_bytes [OF assms(1)] by blast
    with None Pair le squeeze_result_arrow_to_disk [OF assms(1)] show ?thesis
      by (fastforce simp: transcode_or_disk_def)
  next
    case (Some y)
    have "readable A c' y" "arrow_eq A (liquid_to_arrow A y) x"
      using transcode_spec [OF assms(1), of c x hint] Pair Some by simp_all
    with Some Pair le arrow_eq_trans [OF assms(1)] show ?thesis
      by (auto simp: transcode_or_disk_def squeeze_result_def)
  qed
qed

lemma squeeze_result_liquid_to_squeezed:
  assumes "codec_ok A" and "liquid_squeeze A l hint = Some (s, b)"
  shows "squeeze_result A c (MemoryLiquid l) (MemorySqueezedLiquid s) (Some b) c"
  using liquid_squeeze_backed [OF assms(1) _ assms(2)] squeezed_backed_cong [OF assms(1)]
  by (auto simp: squeeze_result_def)

lemma squeeze_result_variant:
  assumes "codec_ok A" and "variant_squeeze A c x r = (Some (s, b), c')"
  shows "squeeze_result A c (MemoryArrow x) (MemorySqueezedLiquid s) (Some b) c'"
  using variant_squeeze_spec [OF assms(1), of c x r] assms(2) holds_array_cong [OF assms(1)]
  by (auto simp: squeeze_result_def squeezed_backed_def)

interpretation evict: squeeze_policy A "evict_squeeze A"
proof unfold_locales
  fix c hint e
  assume A: "codec_ok A"
  show "\<exists>e' b c'. evict_squeeze A c hint e = Ok ((e', b), c') \<and> squeeze_result A c e e' b c'"
  proof (cases e)
    case (MemoryArrow x)
    obtain b where "arrow_to_bytes A x = Some b" using arrow_bytes [OF A] by blast
    with MemoryArrow squeeze_result_arrow_to_disk [OF A] show ?thesis by fastforce
  qed (simp_all add: squeeze_result_disk squeeze_result_squeezed squeeze_result_liquid_to_disk [OF A])
qed (auto simp: obind_Ok_conv)

interpretation tevict: squeeze_policy A "transcode_evict A"
proof unfold_locales
  fix c hint e
  assume A: "codec_ok A"
  show "\<exists>e' b c'. transcode_evict A c hint e = Ok ((e', b), c') \<and> squeeze_result A c e e' b c'"
    using transcode_or_disk_ok [OF A compressor_le_refl]
    by (cases e) (simp_all add: squeeze_result_disk squeeze_result_squeezed
      squeeze_result_liquid_to_disk [OF A])
qed (auto simp: transcode_or_disk_def obind_Ok_conv split: prod.splits option.splits)

lemma tse_arrow_ok:
  assumes "codec_ok A"
  shows "\<exists>e' b c'. transcode_squeeze_evict A c hint (MemoryArrow x) = Ok ((e', b), c')
    \<and> squeeze_result A c (MemoryArrow x) e' b c'"
proof (cases "Option.bind hint variant_requests")
  case None
  with transcode_or_disk_ok [OF assms compressor_le_refl] show ?thesis by simp
next
  case (Some r)
  show ?thesis
  proof (cases "variant_squeeze A c x r")
    case (Pair v c')
    have le: "compressor_le A c c'" using variant_squeeze_spec [OF assms, of c x r] Pair by simp
    show ?thesis
      using Some Pair transcode_or_disk_ok [OF assms le] squeeze_result_variant [OF assms]
      by (cases v) auto
  qed
qed

interpretation tse: squeeze_policy A "transcode_squeeze_evict A"
proof unfold_locales
  fix c hint e
  assume A: "codec_ok A"
  show "\<exists>e' b c'. transcode_squeeze_evict A c hint e = Ok ((e', b), c') \<and> squeeze_result A c e e' b c'"
  proof (cases e)
    case (MemoryArrow x)
    with tse_arrow_ok [OF A] show ?thesis by blast
  next
    case (MemoryLiquid l)
    then show ?thesis
      using squeeze_result_liquid_to_disk [OF A] squeeze_result_liquid_to_squeezed [OF A]
      by (cases "liquid_squeeze A l hint") auto
  qed (simp_all add: squeeze_result_disk squeeze_result_squeezed)
qed (auto simp: transcode_or_disk_def obind_Ok_conv split: prod.splits option.splits)

end
