(* ===== verification/HydrationPolicy.thy ===== *)
theory HydrationPolicy
  imports CacheEntry
begin

text \<open>
  The hydration policies, \<^verbatim>\<open>src/storage/src/cache/policies/hydration.rs\<close>: whether an entry that a
  read has just materialized goes back into memory, and in which form. The locale
  \<open>hydration_policy\<close> is what the cache relies on: what is promoted is an in-memory entry for
  the same data, and it leans on the file on disk only when the cached entry did.
\<close>

datatype ('a, 'l) materialized_entry = MatArrow 'a | MatLiquid 'l

record ('a, 'l, 's, 't) hydration_request =
  hr_cached :: "('a, 'l, 's, 't) cache_entry"
  hr_materialized :: "('a, 'l) materialized_entry"
  hr_expression :: "'t cache_expression option"

type_synonym ('a, 'l, 's, 't, 'c) hydrator =
  "'c \<Rightarrow> ('a, 'l, 's, 't) hydration_request \<Rightarrow> ('a, 'l, 's, 't) cache_entry option \<times> 'c"

definition hydrate_variant_paths ::
  "('a, 'l, 's, 't, 'c, 'e) arrays \<Rightarrow> 't variant_request list \<Rightarrow> 'a \<Rightarrow> 's \<Rightarrow> 'c \<Rightarrow>
   ('a, 'l, 's, 't) cache_entry option \<times> 'c" where
  "hydrate_variant_paths A requests materialized squeezed c =
     (let missing_requests = filter (\<lambda>r. \<not> squeezed_contains_path A squeezed (vr_path r)) requests in
      if missing_requests = [] then (None, c)
      else (case variant_squeeze A c materialized missing_requests of
              (Some (new_squeezed, _), c') \<Rightarrow>
                if squeezed_is_variant A new_squeezed
                then (Some (MemorySqueezedLiquid (squeezed_merge A squeezed new_squeezed)), c')
                else (None, c')
            | (None, c') \<Rightarrow> (None, c')))"

definition always_hydrate :: "('a, 'l, 's, 't, 'c, 'e) arrays \<Rightarrow> ('a, 'l, 's, 't, 'c) hydrator" where
  "always_hydrate A c r =
     (case (hr_cached r, hr_materialized r) of
        (DiskArrow _, MatArrow arr) \<Rightarrow>
          (case hr_expression r of
             Some (VariantGet requests) \<Rightarrow>
               (case variant_squeeze A c arr requests of
                  (Some (squeezed, _), c') \<Rightarrow> (Some (MemorySqueezedLiquid squeezed), c')
                | (None, c') \<Rightarrow> (Some (MemoryArrow arr), c'))
           | _ \<Rightarrow> (Some (MemoryArrow arr), c))
      | (DiskLiquid _, MatLiquid liq) \<Rightarrow> (Some (MemoryLiquid liq), c)
      | (MemoryLiquid _, _) \<Rightarrow> (None, c)
      | (MemorySqueezedLiquid squeezed_entry, MatArrow arr) \<Rightarrow>
          (case hr_expression r of
             Some (VariantGet requests) \<Rightarrow>
               if squeezed_is_variant A squeezed_entry
               then (case hydrate_variant_paths A requests arr squeezed_entry c of
                       (Some entry, c') \<Rightarrow> (Some entry, c')
                     | (None, c') \<Rightarrow> (Some (MemoryArrow arr), c'))
               else (Some (MemoryArrow arr), c)
           | _ \<Rightarrow> (Some (MemoryArrow arr), c))
      | (MemorySqueezedLiquid _, MatLiquid liq) \<Rightarrow> (Some (MemoryLiquid liq), c)
      | _ \<Rightarrow> (None, c))"

definition no_hydration :: "('a, 'l, 's, 't, 'c, 'e) arrays \<Rightarrow> ('a, 'l, 's, 't, 'c) hydrator" where
  "no_hydration A c r = (None, c)"

section \<open>The contract\<close>

fun materialized_holds ::
  "('a, 'l, 's, 't, 'c, 'e) arrays \<Rightarrow> 'c \<Rightarrow> ('a, 'l) materialized_entry \<Rightarrow> 'a \<Rightarrow> bool" where
  "materialized_holds A c (MatArrow x) a = arrow_eq A x a"
| "materialized_holds A c (MatLiquid l) a = (readable A c l \<and> arrow_eq A (liquid_to_arrow A l) a)"

locale hydration_policy =
  fixes A :: "('a, 'l, 's, 't, 'c, 'e) arrays" and hyd :: "('a, 'l, 's, 't, 'c) hydrator"
  assumes hydrate_compressor: "codec_ok A \<Longrightarrow> hyd c r = (v, c') \<Longrightarrow> compressor_le A c c'"
    and hydrate_holds: "codec_ok A \<Longrightarrow> hyd c r = (Some e, c') \<Longrightarrow> entry_holds A c d (hr_cached r) a \<Longrightarrow>
      materialized_holds A c (hr_materialized r) a \<Longrightarrow> entry_holds A c' d e a"
    and hydrate_rank: "codec_ok A \<Longrightarrow> hyd c r = (Some e, c') \<Longrightarrow>
      0 < entry_rank e \<and> (entry_rank e = 1 \<longrightarrow> entry_rank (hr_cached r) \<le> 1)"

section \<open>The policies keep the contract\<close>

lemma variant_squeeze_le: "codec_ok A \<Longrightarrow> variant_squeeze A c a r = (v, c') \<Longrightarrow> compressor_le A c c'"
  using variant_squeeze_spec [of A c a r] by simp

lemma variant_squeeze_kind:
  "codec_ok A \<Longrightarrow> variant_squeeze A c a r = (Some (s, b), c') \<Longrightarrow>
    squeezed_is_variant A s \<and> squeezed_backing_of A s = BackArrow"
  using variant_squeeze_spec [of A c a r] by simp

lemma squeezed_backed_variant:
  "squeezed_is_variant A s \<Longrightarrow> squeezed_backing_of A s = BackArrow \<Longrightarrow>
    squeezed_backed A c s b a = holds_array A c BackArrow b a"
  by (simp add: squeezed_backed_def)

lemma hydrate_variant_paths_result:
  assumes "codec_ok A" and "hydrate_variant_paths A rs x s c = (e, c')"
  shows "compressor_le A c c'" and "e = Some f \<Longrightarrow> \<exists>s'. f = MemorySqueezedLiquid (squeezed_merge A s s')"
  using assms variant_squeeze_le [OF assms(1)]
  by (auto simp: hydrate_variant_paths_def Let_def split: if_splits prod.splits option.splits)

text \<open>What \<open>AlwaysHydrate\<close> promotes: the materialized array itself, or a variant array.\<close>

definition hydrated_as ::
  "('a, 'l, 's, 't, 'c, 'e) arrays \<Rightarrow> ('a, 'l, 's, 't) hydration_request \<Rightarrow> ('a, 'l, 's, 't) cache_entry \<Rightarrow> bool" where
  "hydrated_as A r e = (case e of
       MemoryArrow x \<Rightarrow> hr_materialized r = MatArrow x
     | MemoryLiquid l \<Rightarrow> hr_materialized r = MatLiquid l
     | MemorySqueezedLiquid s \<Rightarrow> squeezed_is_variant A s \<and> squeezed_backing_of A s = BackArrow
         \<and> ((\<exists>t. hr_cached r = DiskArrow t)
           \<or> (\<exists>s'. hr_cached r = MemorySqueezedLiquid s' \<and> squeezed_is_variant A s'))
     | _ \<Rightarrow> False)"

lemma hydrated_as_holds:
  assumes "hydrated_as A r e" and "compressor_le A c c'" and "entry_holds A c d (hr_cached r) a"
    and "materialized_holds A c (hr_materialized r) a"
  shows "entry_holds A c' d e a"
  using assms(1,3,4) readable_mono [OF assms(2)] holds_array_mono [OF assms(2)]
  by (cases e) (auto simp: hydrated_as_def squeezed_backed_def)

lemma hydrated_as_rank:
  "hydrated_as A r e \<Longrightarrow> 0 < entry_rank e \<and> (entry_rank e = 1 \<longrightarrow> entry_rank (hr_cached r) \<le> 1)"
  by (cases e) (auto simp: hydrated_as_def)

lemma always_hydrate_disk_arrow:
  assumes "codec_ok A" and "hr_cached r = DiskArrow t" and "always_hydrate A c r = (v, c')"
  shows "compressor_le A c c' \<and> (\<forall>e. v = Some e \<longrightarrow> hydrated_as A r e)"
  using assms(2,3) variant_squeeze_le [OF assms(1)] variant_squeeze_kind [OF assms(1)]
  by (auto simp: always_hydrate_def hydrated_as_def split: materialized_entry.splits option.splits
    cache_expression.splits prod.splits)

lemma always_hydrate_squeezed:
  assumes "codec_ok A" and "hr_cached r = MemorySqueezedLiquid s" and "always_hydrate A c r = (v, c')"
  shows "compressor_le A c c' \<and> (\<forall>e. v = Some e \<longrightarrow> hydrated_as A r e)"
proof (cases "hr_materialized r")
  case (MatLiquid l)
  with assms show ?thesis by (auto simp: always_hydrate_def hydrated_as_def)
next
  case (MatArrow x)
  show ?thesis
  proof (cases "\<exists>rs. hr_expression r = Some (VariantGet rs) \<and> squeezed_is_variant A s")
    case True
    then obtain rs where rs: "hr_expression r = Some (VariantGet rs)" "squeezed_is_variant A s" by blast
    obtain w k where w: "hydrate_variant_paths A rs x s c = (w, k)" by fastforce
    show ?thesis
      using assms(2,3) MatArrow rs w hydrate_variant_paths_result [OF assms(1) w]
        squeezed_merge_spec [OF assms(1) rs(2)]
      by (cases w) (auto simp: always_hydrate_def hydrated_as_def)
  next
    case False
    with assms(2,3) MatArrow show ?thesis
      by (auto simp: always_hydrate_def hydrated_as_def split: option.splits cache_expression.splits if_splits)
  qed
qed

lemma always_hydrate_result:
  assumes "codec_ok A" and "always_hydrate A c r = (v, c')"
  shows "compressor_le A c c' \<and> (\<forall>e. v = Some e \<longrightarrow> hydrated_as A r e)"
proof (cases "hr_cached r")
  case (DiskArrow t)
  then show ?thesis by (rule always_hydrate_disk_arrow [OF assms(1) _ assms(2)])
next
  case (MemorySqueezedLiquid s)
  then show ?thesis by (rule always_hydrate_squeezed [OF assms(1) _ assms(2)])
qed (use assms(2) in \<open>auto simp: always_hydrate_def hydrated_as_def split: materialized_entry.splits\<close>)

interpretation always: hydration_policy A "always_hydrate A"
proof unfold_locales
  fix c r v c' assume "codec_ok A" "always_hydrate A c r = (v, c')"
  then show "compressor_le A c c'" by (rule always_hydrate_result [THEN conjunct1])
next
  fix c r e c' d a assume *: "codec_ok A" "always_hydrate A c r = (Some e, c')"
    "entry_holds A c d (hr_cached r) a" "materialized_holds A c (hr_materialized r) a"
  then show "entry_holds A c' d e a"
    using always_hydrate_result [OF *(1,2)] hydrated_as_holds [OF _ _ *(3,4)] by simp
next
  fix c r e c' assume "codec_ok A" "always_hydrate A c r = (Some e, c')"
  then show "0 < entry_rank e \<and> (entry_rank e = 1 \<longrightarrow> entry_rank (hr_cached r) \<le> 1)"
    using always_hydrate_result [of A c r "Some e" c'] hydrated_as_rank [of A r e] by simp
qed

interpretation nohyd: hydration_policy A "no_hydration A"
  by unfold_locales (auto simp: no_hydration_def)

end
