(* ===== verification/LiquidCache.thy ===== *)
theory LiquidCache
  imports Budget CachePolicy ArtIndex SqueezePolicy HydrationPolicy
begin

text \<open>
  The cache itself, \<^verbatim>\<open>src/storage/src/cache/core.rs\<close> with the builders \<open>Insert\<close>, \<open>Get\<close> and
  \<open>EvaluatePredicate\<close> of \<^verbatim>\<open>src/storage/src/cache/builders.rs\<close> and the default I/O context of
  \<^verbatim>\<open>src/storage/src/cache/io_context.rs\<close>. The struct \<open>LiquidCache\<close> is split in two: \<open>env\<close> holds
  what never changes (the array operations and the three policies, trait objects in the source)
  and \<open>cache\<close> the state: index, budget, policy state, files on disk, compressor, squeeze hints.

  Every operation is a function from states to an outcome. Calls run one at a time (the
  interleavings of the lock-free budget are in \<open>Budget\<close>); file reads and writes succeed when
  the file is there; tracing and statistics counters of the observer are left out. Loops take
  fuel: the loop of \<open>squeeze_victim_inner\<close> needs no more than the four rounds it is given,
  and the fuel \<open>insert_inner\<close> needs is bounded in \<open>CacheProgress\<close>.
\<close>

section \<open>State\<close>

record ('a, 'l, 's, 't, 'c, 'e, 'p) env =
  arr :: "('a, 'l, 's, 't, 'c, 'e) arrays"
  pol :: "'p policy_ops"
  squeeze :: "('a, 'l, 's, 't, 'c) squeezer"
  hydrate :: "('a, 'l, 's, 't, 'c) hydrator"

record ('a, 'l, 's, 't, 'c, 'p) cache =
  c_index :: "('a, 'l, 's, 't) cache_entry index"
  c_budget :: budget
  c_policy :: 'p
  c_disk :: "entry_id \<rightharpoonup> bytes"
  c_compressor :: 'c
  c_hints :: "entry_id \<rightharpoonup> 't cache_expression"

definition cache_new :: "usize \<Rightarrow> 'p \<Rightarrow> 'c \<Rightarrow> ('a, 'l, 's, 't, 'c, 'p) cache" where
  "cache_new max_cache_bytes p c = \<lparr>c_index = index_new, c_budget = budget_new max_cache_bytes,
     c_policy = p, c_disk = Map.empty, c_compressor = c, c_hints = Map.empty\<rparr>"

text \<open>\<open>LiquidCacheBuilder::new().build()\<close>: one gigabyte; the default policies are \<open>LiquidPolicy\<close>,
  \<open>TranscodeSqueezeEvict\<close> and \<open>AlwaysHydrate\<close>.\<close>

definition default_max_cache_bytes :: usize where
  "default_max_cache_bytes = 1024 * 1024 * 1024"

section \<open>Inserting\<close>

definition add_squeeze_hint ::
  "entry_id \<Rightarrow> 't cache_expression \<Rightarrow> ('a, 'l, 's, 't, 'c, 'p) cache \<Rightarrow> ('a, 'l, 's, 't, 'c, 'p) cache" where
  "add_squeeze_hint i expression st = st\<lparr>c_hints := (c_hints st)(i \<mapsto> expression)\<rparr>"

definition is_cached :: "entry_id \<Rightarrow> ('a, 'l, 's, 't, 'c, 'p) cache \<Rightarrow> bool" where
  "is_cached i st = (ix_map (c_index st) i \<noteq> None)"

text \<open>The end of \<open>try_insert\<close>: the entry goes into the index and the policy is told.\<close>

definition commit_insert ::
  "('a, 'l, 's, 't, 'c, 'e, 'p) env \<Rightarrow> entry_id \<Rightarrow> ('a, 'l, 's, 't) cache_entry \<Rightarrow> budget \<Rightarrow>
   ('a, 'l, 's, 't, 'c, 'p) cache \<Rightarrow>
   ((('a, 'l, 's, 't) cache_entry + unit) \<times> ('a, 'l, 's, 't, 'c, 'p) cache) outcome" where
  "commit_insert E i to_insert b st =
     obind (expect (op_notify_insert (pol E) i (batch_type_of to_insert) (c_policy st)))
       (\<lambda>p. Ok (Inr (), st\<lparr>c_index := index_insert i to_insert (c_index st), c_budget := b, c_policy := p\<rparr>))"

definition try_insert ::
  "('a, 'l, 's, 't, 'c, 'e, 'p) env \<Rightarrow> entry_id \<Rightarrow> ('a, 'l, 's, 't) cache_entry \<Rightarrow>
   ('a, 'l, 's, 't, 'c, 'p) cache \<Rightarrow>
   ((('a, 'l, 's, 't) cache_entry + unit) \<times> ('a, 'l, 's, 't, 'c, 'p) cache) outcome" where
  "try_insert E i to_insert st =
     (let new_memory_size = entry_memory_usage_bytes (arr E) to_insert in
      case ix_map (c_index st) i of
        Some entry \<Rightarrow>
          (let old_memory_size = entry_memory_usage_bytes (arr E) entry in
           case try_update_memory_usage (c_budget st) old_memory_size new_memory_size of
             Inl _ \<Rightarrow> Ok (Inl to_insert, st)
           | Inr b \<Rightarrow> commit_insert E i to_insert b st)
      | None \<Rightarrow>
          (case try_reserve_memory (c_budget st) new_memory_size of
             Inl _ \<Rightarrow> Ok (Inl to_insert, st)
           | Inr b \<Rightarrow> commit_insert E i to_insert b st))"

definition write_batch_to_disk ::
  "entry_id \<Rightarrow> bytes \<Rightarrow> ('a, 'l, 's, 't, 'c, 'p) cache \<Rightarrow> ('a, 'l, 's, 't, 'c, 'p) cache" where
  "write_batch_to_disk i bs st = st\<lparr>c_disk := (c_disk st)(i \<mapsto> bs),
     c_budget := add_used_disk_bytes (c_budget st) (of_nat (length bs))\<rparr>"

definition write_opt ::
  "entry_id \<Rightarrow> bytes option \<Rightarrow> ('a, 'l, 's, 't, 'c, 'p) cache \<Rightarrow> ('a, 'l, 's, 't, 'c, 'p) cache" where
  "write_opt i bytes_to_write st =
     (case bytes_to_write of Some bs \<Rightarrow> write_batch_to_disk i bs st | None \<Rightarrow> st)"

fun write_in_memory_batch_to_disk ::
  "('a, 'l, 's, 't, 'c, 'e, 'p) env \<Rightarrow> entry_id \<Rightarrow> ('a, 'l, 's, 't) cache_entry \<Rightarrow>
   ('a, 'l, 's, 't, 'c, 'p) cache \<Rightarrow>
   (('a, 'l, 's, 't) cache_entry \<times> ('a, 'l, 's, 't, 'c, 'p) cache) outcome" where
  "write_in_memory_batch_to_disk E i (MemoryArrow a) st =
     obind (squeeze E (c_compressor st) None (MemoryArrow a)) (\<lambda>((new_batch, bytes_to_write), c).
       Ok (new_batch, write_opt i bytes_to_write (st\<lparr>c_compressor := c\<rparr>)))"
| "write_in_memory_batch_to_disk E i (MemoryLiquid l) st =
     Ok (DiskLiquid (liquid_data_type (arr E) l),
         write_batch_to_disk i (liquid_to_bytes (arr E) l) st)"
| "write_in_memory_batch_to_disk E i (MemorySqueezedLiquid s) st =
     Ok (if squeezed_backing_of (arr E) s = BackLiquid
         then DiskLiquid (squeezed_data_type (arr E) s)
         else DiskArrow (squeezed_data_type (arr E) s), st)"
| "write_in_memory_batch_to_disk E i (DiskLiquid t) st = Panic"
| "write_in_memory_batch_to_disk E i (DiskArrow t) st = Panic"

text \<open>The loop of \<open>squeeze_victim_inner\<close>: squeeze, write, insert; squeeze again if it does not fit.\<close>

fun squeeze_loop ::
  "('a, 'l, 's, 't, 'c, 'e, 'p) env \<Rightarrow> nat \<Rightarrow> entry_id \<Rightarrow> 't cache_expression option \<Rightarrow>
   ('a, 'l, 's, 't) cache_entry \<Rightarrow> ('a, 'l, 's, 't, 'c, 'p) cache \<Rightarrow>
   ('a, 'l, 's, 't, 'c, 'p) cache outcome" where
  "squeeze_loop E 0 i hint e st = Running"
| "squeeze_loop E (Suc n) i hint e st =
     obind (squeeze E (c_compressor st) hint e) (\<lambda>((new_batch, bytes_to_write), c).
       let st1 = write_opt i bytes_to_write (st\<lparr>c_compressor := c\<rparr>) in
       obind (try_insert E i new_batch st1) (\<lambda>(r, st2).
         case r of Inr _ \<Rightarrow> Ok st2 | Inl batch \<Rightarrow> squeeze_loop E n i hint batch st2))"

definition squeeze_victim_inner ::
  "('a, 'l, 's, 't, 'c, 'e, 'p) env \<Rightarrow> entry_id \<Rightarrow> ('a, 'l, 's, 't, 'c, 'p) cache \<Rightarrow>
   ('a, 'l, 's, 't, 'c, 'p) cache outcome" where
  "squeeze_victim_inner E to_squeeze st =
     (case ix_map (c_index st) to_squeeze of
        None \<Rightarrow> Ok st
      | Some e \<Rightarrow> squeeze_loop E 4 to_squeeze (c_hints st to_squeeze) e st)"

fun squeeze_victims ::
  "('a, 'l, 's, 't, 'c, 'e, 'p) env \<Rightarrow> entry_id list \<Rightarrow> ('a, 'l, 's, 't, 'c, 'p) cache \<Rightarrow>
   ('a, 'l, 's, 't, 'c, 'p) cache outcome" where
  "squeeze_victims E [] st = Ok st"
| "squeeze_victims E (victim # victims) st =
     obind (squeeze_victim_inner E victim st) (squeeze_victims E victims)"

fun insert_inner ::
  "('a, 'l, 's, 't, 'c, 'e, 'p) env \<Rightarrow> nat \<Rightarrow> entry_id \<Rightarrow> ('a, 'l, 's, 't) cache_entry \<Rightarrow>
   ('a, 'l, 's, 't, 'c, 'p) cache \<Rightarrow> ('a, 'l, 's, 't, 'c, 'p) cache outcome" where
  "insert_inner E 0 i batch_to_cache st = Running"
| "insert_inner E (Suc n) i batch_to_cache st =
     obind (try_insert E i batch_to_cache st) (\<lambda>(r, st1).
       case r of
         Inr _ \<Rightarrow> Ok st1
       | Inl not_inserted \<Rightarrow>
           obind (expect (op_find_victim (pol E) 8 (c_policy st1))) (\<lambda>(victims, p).
             let st2 = st1\<lparr>c_policy := p\<rparr> in
             if victims = [] then
               obind (write_in_memory_batch_to_disk E i not_inserted st2)
                 (\<lambda>(on_disk_batch, st3). insert_inner E n i on_disk_batch st3)
             else
               obind (squeeze_victims E victims st2)
                 (\<lambda>st3. insert_inner E n i not_inserted st3)))"

text \<open>\<open>Insert::run\<close>.\<close>

definition insert_run ::
  "('a, 'l, 's, 't, 'c, 'e, 'p) env \<Rightarrow> nat \<Rightarrow> bool \<Rightarrow> 't cache_expression option \<Rightarrow> entry_id \<Rightarrow> 'a \<Rightarrow>
   ('a, 'l, 's, 't, 'c, 'p) cache \<Rightarrow> ('a, 'l, 's, 't, 'c, 'p) cache outcome" where
  "insert_run E n skip_gc squeeze_hint i batch st =
     (let gced = (if skip_gc then batch
                  else (case gc_view_arrays (arr E) batch of Some a \<Rightarrow> a | None \<Rightarrow> batch));
          st1 = (case squeeze_hint of Some h \<Rightarrow> add_squeeze_hint i h st | None \<Rightarrow> st)
      in insert_inner E n i (MemoryArrow gced) st1)"

section \<open>Reading\<close>

definition read_disk_arrow_array ::
  "('a, 'l, 's, 't, 'c, 'e, 'p) env \<Rightarrow> entry_id \<Rightarrow> ('a, 'l, 's, 't, 'c, 'p) cache \<Rightarrow> 'a outcome" where
  "read_disk_arrow_array E i st =
     obind (expect (c_disk st i)) (\<lambda>bs. expect (arrow_of_bytes (arr E) bs))"

definition read_disk_liquid_array ::
  "('a, 'l, 's, 't, 'c, 'e, 'p) env \<Rightarrow> entry_id \<Rightarrow> ('a, 'l, 's, 't, 'c, 'p) cache \<Rightarrow> 'l outcome" where
  "read_disk_liquid_array E i st =
     obind (expect (c_disk st i)) (\<lambda>bs. expect (liquid_of_bytes (arr E) (c_compressor st) bs))"

definition maybe_hydrate ::
  "('a, 'l, 's, 't, 'c, 'e, 'p) env \<Rightarrow> nat \<Rightarrow> entry_id \<Rightarrow> ('a, 'l, 's, 't) cache_entry \<Rightarrow>
   ('a, 'l) materialized_entry \<Rightarrow> 't cache_expression option \<Rightarrow>
   ('a, 'l, 's, 't, 'c, 'p) cache \<Rightarrow> ('a, 'l, 's, 't, 'c, 'p) cache outcome" where
  "maybe_hydrate E n i cached materialized expression st =
     (case hydrate E (c_compressor st)
             \<lparr>hr_cached = cached, hr_materialized = materialized, hr_expression = expression\<rparr> of
        (Some new_entry, c) \<Rightarrow> insert_inner E n i new_entry (st\<lparr>c_compressor := c\<rparr>)
      | (None, c) \<Rightarrow> Ok (st\<lparr>c_compressor := c\<rparr>))"

text \<open>The selection applied to a full Arrow array, \<open>arrow::compute::filter(..).ok()\<close>.\<close>

definition apply_selection ::
  "('a, 'l, 's, 't, 'c, 'e) arrays \<Rightarrow> bool list option \<Rightarrow> 'a \<Rightarrow> 'a option" where
  "apply_selection A selection a = (case selection of Some bs \<Rightarrow> arrow_filter A a bs | None \<Rightarrow> Some a)"

definition apply_selection_liquid ::
  "('a, 'l, 's, 't, 'c, 'e) arrays \<Rightarrow> bool list option \<Rightarrow> 'l \<Rightarrow> 'a" where
  "apply_selection_liquid A selection l =
     (case selection of Some bs \<Rightarrow> liquid_filter A l bs | None \<Rightarrow> liquid_to_arrow A l)"

fun read_disk_array ::
  "('a, 'l, 's, 't, 'c, 'e, 'p) env \<Rightarrow> nat \<Rightarrow> ('a, 'l, 's, 't) cache_entry \<Rightarrow> entry_id \<Rightarrow>
   't cache_expression option \<Rightarrow> bool list option \<Rightarrow> ('a, 'l, 's, 't, 'c, 'p) cache \<Rightarrow>
   ('a option \<times> ('a, 'l, 's, 't, 'c, 'p) cache) outcome" where
  "read_disk_array E n (DiskArrow data_type) i expression selection st =
     (if (case selection of Some bs \<Rightarrow> count_list bs True = 0 | None \<Rightarrow> False)
      then Ok (Some (new_empty_array (arr E) data_type), st)
      else obind (read_disk_arrow_array E i st) (\<lambda>full_array.
        obind (maybe_hydrate E n i (DiskArrow data_type) (MatArrow full_array) expression st) (\<lambda>st1.
          Ok (apply_selection (arr E) selection full_array, st1))))"
| "read_disk_array E n (DiskLiquid data_type) i expression selection st =
     (if (case selection of Some bs \<Rightarrow> count_list bs True = 0 | None \<Rightarrow> False)
      then Ok (Some (new_empty_array (arr E) data_type), st)
      else obind (read_disk_liquid_array E i st) (\<lambda>liquid.
        obind (maybe_hydrate E n i (DiskLiquid data_type) (MatLiquid liquid) expression st) (\<lambda>st1.
          Ok (Some (apply_selection_liquid (arr E) selection liquid), st1))))"
| "read_disk_array E n (MemoryArrow _) i expression selection st = Panic"
| "read_disk_array E n (MemoryLiquid _) i expression selection st = Panic"
| "read_disk_array E n (MemorySqueezedLiquid _) i expression selection st = Panic"

definition try_read_squeezed_date32_array ::
  "('a, 'l, 's, 't, 'c, 'e) arrays \<Rightarrow> 's \<Rightarrow> 't cache_expression option \<Rightarrow> bool list option \<Rightarrow> 'a option" where
  "try_read_squeezed_date32_array A s expression selection =
     (case Option.bind expression as_date32_field of
        Some field \<Rightarrow>
          if squeezed_date32 A s = Some field
          then apply_selection A selection (squeezed_component A s) else None
      | None \<Rightarrow> None)"

definition try_read_squeezed_variant_array ::
  "('a, 'l, 's, 't, 'c, 'e, 'p) env \<Rightarrow> nat \<Rightarrow> 's \<Rightarrow> entry_id \<Rightarrow> 't cache_expression option \<Rightarrow>
   bool list option \<Rightarrow> ('a, 'l, 's, 't, 'c, 'p) cache \<Rightarrow>
   ('a option \<times> ('a, 'l, 's, 't, 'c, 'p) cache) outcome" where
  "try_read_squeezed_variant_array E n s i expression selection st =
     (case Option.bind expression variant_requests of
        None \<Rightarrow> Ok (None, st)
      | Some requests \<Rightarrow>
          if \<not> squeezed_is_variant (arr E) s then Ok (None, st)
          else if \<not> list_all (\<lambda>r. squeezed_contains_path (arr E) s (vr_path r)) requests then
            obind (read_disk_arrow_array E i st) (\<lambda>full_array.
              obind (maybe_hydrate E n i (MemorySqueezedLiquid s) (MatArrow full_array) expression st) (\<lambda>st1.
                Ok (apply_selection (arr E) selection full_array, st1)))
          else
            obind (expect (squeezed_with_paths (arr E) s (map vr_path requests))) (\<lambda>full_array.
              Ok (apply_selection (arr E) selection full_array, st)))"

definition read_squeezed_array ::
  "('a, 'l, 's, 't, 'c, 'e, 'p) env \<Rightarrow> nat \<Rightarrow> 's \<Rightarrow> entry_id \<Rightarrow> 't cache_expression option \<Rightarrow>
   bool list option \<Rightarrow> ('a, 'l, 's, 't, 'c, 'p) cache \<Rightarrow>
   ('a option \<times> ('a, 'l, 's, 't, 'c, 'p) cache) outcome" where
  "read_squeezed_array E n s i expression selection st =
     (case try_read_squeezed_date32_array (arr E) s expression selection of
        Some out \<Rightarrow> Ok (Some out, st)
      | None \<Rightarrow>
          obind (try_read_squeezed_variant_array E n s i expression selection st) (\<lambda>(v, st1).
            case v of
              Some out \<Rightarrow> Ok (Some out, st1)
            | None \<Rightarrow>
                obind (expect (case selection of
                    Some bs \<Rightarrow> squeezed_filter (arr E) s (c_disk st1 i) bs
                  | None \<Rightarrow> squeezed_to_arrow (arr E) s (c_disk st1 i)))
                  (\<lambda>out. Ok (Some out, st1))))"

definition notify_access ::
  "('a, 'l, 's, 't, 'c, 'e, 'p) env \<Rightarrow> entry_id \<Rightarrow> ('a, 'l, 's, 't) cache_entry \<Rightarrow>
   ('a, 'l, 's, 't, 'c, 'p) cache \<Rightarrow> ('a, 'l, 's, 't, 'c, 'p) cache outcome" where
  "notify_access E i batch st =
     obind (expect (op_notify_access (pol E) i (batch_type_of batch) (c_policy st)))
       (\<lambda>p. Ok (st\<lparr>c_policy := p\<rparr>))"

definition read_arrow_array ::
  "('a, 'l, 's, 't, 'c, 'e, 'p) env \<Rightarrow> nat \<Rightarrow> entry_id \<Rightarrow> bool list option \<Rightarrow> 't cache_expression option \<Rightarrow>
   ('a, 'l, 's, 't, 'c, 'p) cache \<Rightarrow> ('a option \<times> ('a, 'l, 's, 't, 'c, 'p) cache) outcome" where
  "read_arrow_array E n i selection expression st =
     (case ix_map (c_index st) i of
        None \<Rightarrow> Ok (None, st)
      | Some batch \<Rightarrow> obind (notify_access E i batch st) (\<lambda>st1.
          case batch of
            MemoryArrow a \<Rightarrow> Ok (apply_selection (arr E) selection a, st1)
          | MemoryLiquid l \<Rightarrow> Ok (Some (apply_selection_liquid (arr E) selection l), st1)
          | DiskArrow _ \<Rightarrow> read_disk_array E n batch i expression selection st1
          | DiskLiquid _ \<Rightarrow> read_disk_array E n batch i expression selection st1
          | MemorySqueezedLiquid s \<Rightarrow> read_squeezed_array E n s i expression selection st1))"

definition try_read_liquid ::
  "('a, 'l, 's, 't, 'c, 'e, 'p) env \<Rightarrow> nat \<Rightarrow> entry_id \<Rightarrow> ('a, 'l, 's, 't, 'c, 'p) cache \<Rightarrow>
   ('l option \<times> ('a, 'l, 's, 't, 'c, 'p) cache) outcome" where
  "try_read_liquid E n i st =
     (case ix_map (c_index st) i of
        None \<Rightarrow> Ok (None, st)
      | Some batch \<Rightarrow> obind (notify_access E i batch st) (\<lambda>st1.
          case batch of
            MemoryLiquid l \<Rightarrow> Ok (Some l, st1)
          | DiskLiquid _ \<Rightarrow> obind (read_disk_liquid_array E i st1) (\<lambda>liquid.
              obind (maybe_hydrate E n i batch (MatLiquid liquid) None st1) (\<lambda>st2.
                Ok (Some liquid, st2)))
          | MemorySqueezedLiquid s \<Rightarrow>
              (case squeezed_backing_of (arr E) s of
                 BackLiquid \<Rightarrow> obind (read_disk_liquid_array E i st1) (\<lambda>liquid. Ok (Some liquid, st1))
               | BackArrow \<Rightarrow> Ok (None, st1))
          | DiskArrow _ \<Rightarrow> Ok (None, st1)
          | MemoryArrow _ \<Rightarrow> Ok (None, st1)))"

section \<open>Evaluating predicates\<close>

definition selection_or_all :: "bool list option \<Rightarrow> nat \<Rightarrow> bool list" where
  "selection_or_all selection_opt len =
     (case selection_opt of Some bs \<Rightarrow> bs | None \<Rightarrow> replicate len True)"

definition eval_arrow ::
  "('a, 'l, 's, 't, 'c, 'e) arrays \<Rightarrow> bool list option \<Rightarrow> 'a \<Rightarrow> ('a + bool option list) option" where
  "eval_arrow A selection_opt a =
     map_option Inl (arrow_filter A a (selection_or_all selection_opt (arrow_len A a)))"

definition eval_liquid ::
  "('a, 'l, 's, 't, 'c, 'e) arrays \<Rightarrow> bool list option \<Rightarrow> 'e \<Rightarrow> 'l \<Rightarrow> ('a + bool option list) option" where
  "eval_liquid A selection_opt predicate l =
     (let selection = selection_or_all selection_opt (liquid_len A l) in
      case liquid_try_eval A l predicate selection of
        Some buf \<Rightarrow> Some (Inr buf)
      | None \<Rightarrow> Some (Inl (liquid_filter A l selection)))"

definition eval_predicate_on_squeezed ::
  "('a, 'l, 's, 't, 'c, 'e, 'p) env \<Rightarrow> entry_id \<Rightarrow> 's \<Rightarrow> bool list option \<Rightarrow> 'e \<Rightarrow>
   ('a, 'l, 's, 't, 'c, 'p) cache \<Rightarrow> ('a + bool option list) option outcome" where
  "eval_predicate_on_squeezed E i s selection_opt predicate st =
     (let selection = selection_or_all selection_opt (squeezed_len (arr E) s) in
      obind (expect (squeezed_try_eval (arr E) s (c_disk st i) predicate selection)) (\<lambda>v.
        case v of
          Some buf \<Rightarrow> Ok (Some (Inr buf))
        | None \<Rightarrow> obind (expect (squeezed_filter (arr E) s (c_disk st i) selection))
            (\<lambda>filtered. Ok (Some (Inl filtered)))))"

definition eval_predicate_internal ::
  "('a, 'l, 's, 't, 'c, 'e, 'p) env \<Rightarrow> nat \<Rightarrow> entry_id \<Rightarrow> bool list option \<Rightarrow> 'e \<Rightarrow>
   ('a, 'l, 's, 't, 'c, 'p) cache \<Rightarrow>
   (('a + bool option list) option \<times> ('a, 'l, 's, 't, 'c, 'p) cache) outcome" where
  "eval_predicate_internal E n i selection_opt predicate st =
     (case ix_map (c_index st) i of
        None \<Rightarrow> Ok (None, st)
      | Some batch \<Rightarrow> obind (notify_access E i batch st) (\<lambda>st1.
          case batch of
            MemoryArrow a \<Rightarrow> Ok (eval_arrow (arr E) selection_opt a, st1)
          | DiskArrow _ \<Rightarrow> obind (read_disk_arrow_array E i st1) (\<lambda>a.
              obind (maybe_hydrate E n i batch (MatArrow a) None st1) (\<lambda>st2.
                Ok (eval_arrow (arr E) selection_opt a, st2)))
          | MemoryLiquid l \<Rightarrow> Ok (eval_liquid (arr E) selection_opt predicate l, st1)
          | DiskLiquid _ \<Rightarrow> obind (read_disk_liquid_array E i st1) (\<lambda>liquid.
              obind (maybe_hydrate E n i batch (MatLiquid liquid) None st1) (\<lambda>st2.
                Ok (eval_liquid (arr E) selection_opt predicate liquid, st2)))
          | MemorySqueezedLiquid s \<Rightarrow>
              obind (eval_predicate_on_squeezed E i s selection_opt predicate st1) (\<lambda>r. Ok (r, st1))))"

section \<open>Whole-cache operations\<close>

fun flush_entry ::
  "('a, 'l, 's, 't, 'c, 'e, 'p) env \<Rightarrow> entry_id \<Rightarrow> ('a, 'l, 's, 't) cache_entry \<Rightarrow>
   ('a, 'l, 's, 't, 'c, 'p) cache \<Rightarrow>
   ((('a, 'l, 's, 't) cache_entry + unit) \<times> ('a, 'l, 's, 't, 'c, 'p) cache) outcome" where
  "flush_entry E i (MemoryArrow a) st =
     obind (expect (arrow_to_bytes (arr E) a)) (\<lambda>bs.
       try_insert E i (DiskArrow (arrow_data_type (arr E) a)) (write_batch_to_disk i bs st))"
| "flush_entry E i (MemoryLiquid l) st =
     try_insert E i (DiskLiquid (liquid_data_type (arr E) l))
       (write_batch_to_disk i (liquid_to_bytes (arr E) l) st)"
| "flush_entry E i (MemorySqueezedLiquid s) st =
     try_insert E i (disk_entry_from_squeezed (arr E) s) st"
| "flush_entry E i (DiskArrow _) st = Ok (Inr (), st)"
| "flush_entry E i (DiskLiquid _) st = Ok (Inr (), st)"

text \<open>The entries are cloned out of the index first; \<open>ks\<close> is the order \<open>keys()\<close> lists them in.\<close>

fun flush_entries ::
  "('a, 'l, 's, 't, 'c, 'e, 'p) env \<Rightarrow> (entry_id \<times> ('a, 'l, 's, 't) cache_entry) list \<Rightarrow>
   ('a, 'l, 's, 't, 'c, 'p) cache \<Rightarrow> ('a, 'l, 's, 't, 'c, 'p) cache outcome" where
  "flush_entries E [] st = Ok st"
| "flush_entries E ((i, batch) # rest) st =
     obind (flush_entry E i batch st) (\<lambda>(r, st1).
       case r of Inl _ \<Rightarrow> Panic | Inr _ \<Rightarrow> flush_entries E rest st1)"

definition flush_all_to_disk ::
  "('a, 'l, 's, 't, 'c, 'e, 'p) env \<Rightarrow> entry_id list \<Rightarrow> ('a, 'l, 's, 't, 'c, 'p) cache \<Rightarrow>
   ('a, 'l, 's, 't, 'c, 'p) cache outcome" where
  "flush_all_to_disk E ks st =
     flush_entries E (map (\<lambda>k. (k, the (ix_map (c_index st) k))) ks) st"

definition cache_reset :: "('a, 'l, 's, 't, 'c, 'p) cache \<Rightarrow> ('a, 'l, 's, 't, 'c, 'p) cache" where
  "cache_reset st = st\<lparr>c_index := index_reset (c_index st), c_budget := reset_usage (c_budget st)\<rparr>"

record cache_stats =
  total_entries :: usize
  memory_arrow_entries :: usize
  memory_liquid_entries :: usize
  memory_squeezed_liquid_entries :: usize
  disk_liquid_entries :: usize
  disk_arrow_entries :: usize
  memory_arrow_bytes :: usize
  memory_liquid_bytes :: usize
  memory_squeezed_liquid_bytes :: usize
  memory_usage_bytes :: usize
  disk_usage_bytes :: usize
  stats_max_cache_bytes :: usize

fun count_entry ::
  "('a, 'l, 's, 't, 'c, 'e) arrays \<Rightarrow> ('a, 'l, 's, 't) cache_entry \<Rightarrow> cache_stats \<Rightarrow> cache_stats" where
  "count_entry A (MemoryArrow a) z = z\<lparr>memory_arrow_entries := memory_arrow_entries z + 1,
     memory_arrow_bytes := memory_arrow_bytes z + arrow_memory_size A a\<rparr>"
| "count_entry A (MemoryLiquid l) z = z\<lparr>memory_liquid_entries := memory_liquid_entries z + 1,
     memory_liquid_bytes := memory_liquid_bytes z + liquid_memory_size A l\<rparr>"
| "count_entry A (MemorySqueezedLiquid s) z =
     z\<lparr>memory_squeezed_liquid_entries := memory_squeezed_liquid_entries z + 1,
       memory_squeezed_liquid_bytes := memory_squeezed_liquid_bytes z + squeezed_memory_size A s\<rparr>"
| "count_entry A (DiskLiquid _) z = z\<lparr>disk_liquid_entries := disk_liquid_entries z + 1\<rparr>"
| "count_entry A (DiskArrow _) z = z\<lparr>disk_arrow_entries := disk_arrow_entries z + 1\<rparr>"

definition stats ::
  "('a, 'l, 's, 't, 'c, 'e, 'p) env \<Rightarrow> entry_id list \<Rightarrow> ('a, 'l, 's, 't, 'c, 'p) cache \<Rightarrow> cache_stats" where
  "stats E ks st = fold (\<lambda>k. count_entry (arr E) (the (ix_map (c_index st) k))) ks
     \<lparr>total_entries = ix_count (c_index st), memory_arrow_entries = 0, memory_liquid_entries = 0,
      memory_squeezed_liquid_entries = 0, disk_liquid_entries = 0, disk_arrow_entries = 0,
      memory_arrow_bytes = 0, memory_liquid_bytes = 0, memory_squeezed_liquid_bytes = 0,
      memory_usage_bytes = used_memory_bytes (c_budget st),
      disk_usage_bytes = used_disk_bytes (c_budget st),
      stats_max_cache_bytes = max_memory_bytes (c_budget st)\<rparr>"

end
