(* ===== verification/CacheInvariant.thy ===== *)
theory CacheInvariant
  imports LiquidCache
begin

text \<open>
  What every operation of the cache keeps. \<open>cache_ok\<close>: the memory counter is the sum of the
  sizes of the cached entries and within the limit, the entry counter is the number of
  entries, the policy's own invariant holds for the formats the index records. \<open>stores\<close>: for a map \<open>M\<close> from keys to arrays,
  every key of \<open>M\<close> is cached and its entry, with the file on disk it may need, holds the
  array of \<open>M\<close>. The locale \<open>liquid_cache\<close> ties the cache to the contracts of its three
  policies; its lemmas hold for every choice of policies.
\<close>

section \<open>Invariants\<close>

definition mem_used ::
  "('a, 'l, 's, 't, 'c, 'e) arrays \<Rightarrow> (entry_id \<rightharpoonup> ('a, 'l, 's, 't) cache_entry) \<Rightarrow> nat" where
  "mem_used A m = (\<Sum>i \<in> dom m. unat (entry_memory_usage_bytes A (the (m i))))"

text \<open>No entry is so large that adding its size to the limit wraps around.\<close>

definition sizes_fit :: "('a, 'l, 's, 't, 'c, 'e) arrays \<Rightarrow> usize \<Rightarrow> bool" where
  "sizes_fit A m \<longleftrightarrow> (\<forall>e. unat m + unat (entry_memory_usage_bytes A e) < 2 ^ 64)"

definition types_of ::
  "(entry_id \<rightharpoonup> ('a, 'l, 's, 't) cache_entry) \<Rightarrow> entry_id \<rightharpoonup> batch_type" where
  "types_of m i = map_option batch_type_of (m i)"

lemma types_of_upd [simp]: "types_of (m(i \<mapsto> e)) = (types_of m)(i \<mapsto> batch_type_of e)"
  by (auto simp: types_of_def)

lemma types_of_empty [simp]: "types_of Map.empty = Map.empty"
  by (auto simp: types_of_def)

definition cache_ok ::
  "('a, 'l, 's, 't, 'c, 'e, 'p) env \<Rightarrow> ('p \<Rightarrow> (entry_id \<rightharpoonup> batch_type) \<Rightarrow> bool) \<Rightarrow> ('a, 'l, 's, 't, 'c, 'p) cache \<Rightarrow> bool" where
  "cache_ok E jinv st \<longleftrightarrow> index_ok (c_index st)
     \<and> jinv (c_policy st) (types_of (ix_map (c_index st)))
     \<and> unat (used_memory_bytes (c_budget st)) = mem_used (arr E) (ix_map (c_index st))
     \<and> mem_used (arr E) (ix_map (c_index st)) \<le> unat (max_memory_bytes (c_budget st))
     \<and> sizes_fit (arr E) (max_memory_bytes (c_budget st))"

definition stores ::
  "('a, 'l, 's, 't, 'c, 'e) arrays \<Rightarrow> ('a, 'l, 's, 't, 'c, 'p) cache \<Rightarrow> (entry_id \<rightharpoonup> 'a) \<Rightarrow> bool" where
  "stores A st M \<longleftrightarrow> (\<forall>i a. M i = Some a \<longrightarrow>
     (\<exists>e. ix_map (c_index st) i = Some e \<and> entry_holds A (c_compressor st) (c_disk st i) e a))"

section \<open>Memory use\<close>

lemma mem_used_empty [simp]: "mem_used A Map.empty = 0"
  by (simp add: mem_used_def)

lemma mem_used_upd_new:
  assumes "finite (dom m)" and "m i = None"
  shows "mem_used A (m(i \<mapsto> e)) = mem_used A m + unat (entry_memory_usage_bytes A e)"
proof -
  have "i \<notin> dom m" using assms(2) by auto
  moreover have "(\<Sum>j \<in> dom m. unat (entry_memory_usage_bytes A (the ((m(i \<mapsto> e)) j)))) = mem_used A m"
    unfolding mem_used_def by (rule sum.cong) (use assms(2) in auto)
  ultimately show ?thesis using assms(1) by (simp add: mem_used_def)
qed

lemma mem_used_upd_old:
  assumes "finite (dom m)" and "m i = Some e0"
  shows "unat (entry_memory_usage_bytes A e0) \<le> mem_used A m"
    and "mem_used A (m(i \<mapsto> e)) + unat (entry_memory_usage_bytes A e0)
      = mem_used A m + unat (entry_memory_usage_bytes A e)"
proof -
  have i: "i \<in> dom m" using assms(2) by auto
  have split: "mem_used A m' = unat (entry_memory_usage_bytes A (the (m' i)))
      + (\<Sum>j \<in> dom m - {i}. unat (entry_memory_usage_bytes A (the (m' j))))" if "dom m' = dom m" for m'
    unfolding mem_used_def that using assms(1) i by (rule sum.remove)
  have "(\<Sum>j \<in> dom m - {i}. unat (entry_memory_usage_bytes A (the ((m(i \<mapsto> e)) j))))
      = (\<Sum>j \<in> dom m - {i}. unat (entry_memory_usage_bytes A (the (m j))))"
    by (rule sum.cong) auto
  with split [of m] split [of "m(i \<mapsto> e)"] i assms(2)
  show "unat (entry_memory_usage_bytes A e0) \<le> mem_used A m"
    and "mem_used A (m(i \<mapsto> e)) + unat (entry_memory_usage_bytes A e0)
      = mem_used A m + unat (entry_memory_usage_bytes A e)"
    by (simp_all add: insert_absorb)
qed

lemma mem_used_upd_le:
  "finite (dom m) \<Longrightarrow> mem_used A (m(i \<mapsto> e)) \<le> mem_used A m + unat (entry_memory_usage_bytes A e)"
  using mem_used_upd_new [of m i A e] mem_used_upd_old(2) [of m i _ A e] by (cases "m i") fastforce+

section \<open>Inserting one entry\<close>

text \<open>\<open>st'\<close> is \<open>st\<close> with \<open>e\<close> cached under \<open>i\<close>, the counter moved to the new sum and the policy told.\<close>

definition committed ::
  "('a, 'l, 's, 't, 'c, 'e, 'p) env \<Rightarrow> entry_id \<Rightarrow> ('a, 'l, 's, 't) cache_entry \<Rightarrow>
   ('a, 'l, 's, 't, 'c, 'p) cache \<Rightarrow> ('a, 'l, 's, 't, 'c, 'p) cache \<Rightarrow> bool" where
  "committed E i e st st' \<longleftrightarrow> c_index st' = index_insert i e (c_index st)
     \<and> op_notify_insert (pol E) i (batch_type_of e) (c_policy st) = Some (c_policy st')
     \<and> max_memory_bytes (c_budget st') = max_memory_bytes (c_budget st)
     \<and> used_disk_bytes (c_budget st') = used_disk_bytes (c_budget st)
     \<and> c_disk st' = c_disk st \<and> c_compressor st' = c_compressor st \<and> c_hints st' = c_hints st"

definition fits ::
  "('a, 'l, 's, 't, 'c, 'e, 'p) env \<Rightarrow> entry_id \<Rightarrow> ('a, 'l, 's, 't) cache_entry \<Rightarrow>
   ('a, 'l, 's, 't, 'c, 'p) cache \<Rightarrow> bool" where
  "fits E i e st \<longleftrightarrow> mem_used (arr E) ((ix_map (c_index st))(i \<mapsto> e)) \<le> unat (max_memory_bytes (c_budget st))"

text \<open>The budget decision of \<open>try_insert\<close>, on the numbers.\<close>

definition reserve_for ::
  "('a, 'l, 's, 't, 'c, 'e, 'p) env \<Rightarrow> entry_id \<Rightarrow> ('a, 'l, 's, 't) cache_entry \<Rightarrow>
   ('a, 'l, 's, 't, 'c, 'p) cache \<Rightarrow> unit + budget" where
  "reserve_for E i e st = (case ix_map (c_index st) i of
       Some e0 \<Rightarrow> try_update_memory_usage (c_budget st) (entry_memory_usage_bytes (arr E) e0)
         (entry_memory_usage_bytes (arr E) e)
     | None \<Rightarrow> try_reserve_memory (c_budget st) (entry_memory_usage_bytes (arr E) e))"

lemma try_insert_reserve:
  "try_insert E i e st = (case reserve_for E i e st of
     Inl _ \<Rightarrow> Ok (Inl e, st) | Inr b \<Rightarrow> commit_insert E i e b st)"
  by (auto simp: try_insert_def reserve_for_def Let_def split: option.splits sum.splits)

lemma reserve_for_cases:
  assumes "cache_ok E jinv st"
  shows "if fits E i e st
    then \<exists>u. reserve_for E i e st = Inr ((c_budget st)\<lparr>used_memory_bytes := u\<rparr>)
      \<and> unat u = mem_used (arr E) ((ix_map (c_index st))(i \<mapsto> e))
    else reserve_for E i e st = Inl ()"
proof -
  let ?b = "c_budget st" and ?m = "ix_map (c_index st)" and ?sz = "entry_memory_usage_bytes (arr E)"
  have used: "unat (used_memory_bytes ?b) = mem_used (arr E) ?m"
    "mem_used (arr E) ?m \<le> unat (max_memory_bytes ?b)"
    and sz: "unat (max_memory_bytes ?b) + unat (?sz e) < 2 ^ 64" and fin: "finite (dom ?m)"
    using assms by (auto simp: cache_ok_def sizes_fit_def index_ok_def)
  show ?thesis
  proof (cases "?m i")
    case None
    then show ?thesis
      using try_reserve_cases [of ?b "?sz e"] used sz mem_used_upd_new [OF fin None, of "arr E" e]
      by (auto simp: fits_def reserve_for_def usize_simps)
  next
    case (Some e0)
    note old = mem_used_upd_old [OF fin Some, of "arr E"]
    have "unat (used_memory_bytes ?b - ?sz e0 + ?sz e) = mem_used (arr E) (?m(i \<mapsto> e))"
      if "fits E i e st"
      using that old(1) old(2) [of e] used sz by (simp add: fits_def usize_simps)
    then show ?thesis
      using try_update_cases [of ?b "?sz e0" "?sz e"] used sz old(1) old(2) [of e] Some
      by (auto simp: fits_def reserve_for_def)
  qed
qed

lemma fits_disk: "cache_ok E jinv st \<Longrightarrow> entry_rank e = 0 \<Longrightarrow> fits E i e st"
  using mem_used_upd_le [of "ix_map (c_index st)" "arr E" i e]
  by (auto simp: fits_def cache_ok_def index_ok_def)

lemma fits_pol: "fits E i e (st\<lparr>c_policy := p\<rparr>) = fits E i e st"
  by (simp add: fits_def)

lemma stores_committed:
  assumes "committed E i e st st'" and "stores A st N"
    and "entry_holds A (c_compressor st) (c_disk st i) e a"
  shows "stores A st' (N(i \<mapsto> a))"
  using assms by (auto simp: stores_def committed_def)

section \<open>The cache with its policies\<close>

text \<open>
  What a run of \<open>squeeze_victim_inner\<close> on a cached victim amounts to, besides keeping the
  invariants: its entry is replaced by one closer to disk and only its own file is touched,
  and not even that if the entry was squeezed or on disk already.
\<close>

definition squeezed_to ::
  "('a, 'l, 's, 't, 'c, 'e, 'p) env \<Rightarrow> entry_id \<Rightarrow> ('a, 'l, 's, 't) cache_entry \<Rightarrow>
   ('a, 'l, 's, 't) cache_entry \<Rightarrow> ('a, 'l, 's, 't, 'c, 'p) cache \<Rightarrow> ('a, 'l, 's, 't, 'c, 'p) cache \<Rightarrow> bool" where
  "squeezed_to E i e e' st st' \<longleftrightarrow>
     ix_map (c_index st') = (ix_map (c_index st))(i \<mapsto> e')
     \<and> entry_rank e' \<le> entry_rank e - 1 \<and> (entry_rank e = 0 \<longrightarrow> e' = e)
     \<and> op_notify_insert (pol E) i (batch_type_of e') (c_policy st) = Some (c_policy st')
     \<and> max_memory_bytes (c_budget st') = max_memory_bytes (c_budget st)
     \<and> c_hints st' = c_hints st \<and> compressor_le (arr E) (c_compressor st) (c_compressor st')
     \<and> (\<forall>j. j \<noteq> i \<or> entry_rank e \<le> 1 \<longrightarrow> c_disk st' j = c_disk st j)
     \<and> (\<forall>a. entry_holds (arr E) (c_compressor st) (c_disk st i) e a \<longrightarrow>
          entry_holds (arr E) (c_compressor st') (c_disk st' i) e' a)"

text \<open>The same for any number of victims: no entry disappears or moves away from the disk.\<close>

definition settled ::
  "('a, 'l, 's, 't, 'c, 'e, 'p) env \<Rightarrow> ('a, 'l, 's, 't, 'c, 'p) cache \<Rightarrow> ('a, 'l, 's, 't, 'c, 'p) cache \<Rightarrow> bool" where
  "settled E st st' \<longleftrightarrow>
     dom (ix_map (c_index st')) = dom (ix_map (c_index st))
     \<and> max_memory_bytes (c_budget st') = max_memory_bytes (c_budget st)
     \<and> c_hints st' = c_hints st \<and> compressor_le (arr E) (c_compressor st) (c_compressor st')
     \<and> (\<forall>i e. ix_map (c_index st) i = Some e \<longrightarrow> (\<exists>e'. ix_map (c_index st') i = Some e'
          \<and> entry_rank e' \<le> entry_rank e \<and> (entry_rank e \<le> 1 \<longrightarrow> c_disk st' i = c_disk st i)
          \<and> (\<forall>a. entry_holds (arr E) (c_compressor st) (c_disk st i) e a \<longrightarrow>
               entry_holds (arr E) (c_compressor st') (c_disk st' i) e' a)))"

lemma settled_refl [simp]: "settled E st st"
  by (simp add: settled_def)

lemma settled_trans: "settled E st st1 \<Longrightarrow> settled E st1 st2 \<Longrightarrow> settled E st st2"
proof -
  assume s: "settled E st st1" "settled E st1 st2"
  have "\<exists>e2. ix_map (c_index st2) i = Some e2
      \<and> entry_rank e2 \<le> entry_rank e \<and> (entry_rank e \<le> 1 \<longrightarrow> c_disk st2 i = c_disk st i)
      \<and> (\<forall>a. entry_holds (arr E) (c_compressor st) (c_disk st i) e a \<longrightarrow>
           entry_holds (arr E) (c_compressor st2) (c_disk st2 i) e2 a)"
    if i: "ix_map (c_index st) i = Some e" for i e
  proof -
    obtain e1 where e1: "ix_map (c_index st1) i = Some e1" "entry_rank e1 \<le> entry_rank e"
      "entry_rank e \<le> 1 \<longrightarrow> c_disk st1 i = c_disk st i"
      "\<forall>a. entry_holds (arr E) (c_compressor st) (c_disk st i) e a \<longrightarrow>
           entry_holds (arr E) (c_compressor st1) (c_disk st1 i) e1 a"
      using s(1) i unfolding settled_def by blast
    with s(2) obtain e2 where "ix_map (c_index st2) i = Some e2" "entry_rank e2 \<le> entry_rank e1"
      "entry_rank e1 \<le> 1 \<longrightarrow> c_disk st2 i = c_disk st1 i"
      "\<forall>a. entry_holds (arr E) (c_compressor st1) (c_disk st1 i) e1 a \<longrightarrow>
           entry_holds (arr E) (c_compressor st2) (c_disk st2 i) e2 a"
      unfolding settled_def by blast
    with e1 show ?thesis by (intro exI [of _ e2]) auto
  qed
  with s compressor_le_trans show ?thesis unfolding settled_def by metis
qed

lemma stores_settled: "settled E st st' \<Longrightarrow> stores (arr E) st M \<Longrightarrow> stores (arr E) st' M"
  unfolding settled_def stores_def by blast

lemma squeezed_to_settled:
  assumes "squeezed_to E i e e' st st'" and "ix_map (c_index st) i = Some e"
  shows "settled E st st'"
proof -
  have le: "compressor_le (arr E) (c_compressor st) (c_compressor st')"
    using assms(1) by (simp add: squeezed_to_def)
  show ?thesis
    using assms entry_holds_mono [OF le] by (auto simp: squeezed_to_def settled_def)
qed

text \<open>
  The batch on its way into the cache: it holds \<open>a\<close>, and where it needs the file on disk, that
  file is not written by squeezing the entry cached under the same key.
\<close>

definition pending ::
  "('a, 'l, 's, 't, 'c, 'e, 'p) env \<Rightarrow> entry_id \<Rightarrow> ('a, 'l, 's, 't) cache_entry \<Rightarrow> 'a \<Rightarrow> ('a, 'l, 's, 't, 'c, 'p) cache \<Rightarrow> bool" where
  "pending E i batch a st \<longleftrightarrow> entry_holds (arr E) (c_compressor st) (c_disk st i) batch a
     \<and> (entry_rank batch = 1 \<longrightarrow> (\<exists>e. ix_map (c_index st) i = Some e \<and> entry_rank e \<le> 1))"

text \<open>What a completed insert amounts to: the new array is stored and no other key changed.\<close>

definition inserted ::
  "('a, 'l, 's, 't, 'c, 'e, 'p) env \<Rightarrow> ('p \<Rightarrow> (entry_id \<rightharpoonup> batch_type) \<Rightarrow> bool) \<Rightarrow> entry_id \<Rightarrow> 'a \<Rightarrow> ('a, 'l, 's, 't, 'c, 'p) cache \<Rightarrow> ('a, 'l, 's, 't, 'c, 'p) cache \<Rightarrow> bool" where
  "inserted E jinv i a st st' \<longleftrightarrow> cache_ok E jinv st'
     \<and> dom (ix_map (c_index st')) = insert i (dom (ix_map (c_index st)))
     \<and> max_memory_bytes (c_budget st') = max_memory_bytes (c_budget st) \<and> c_hints st' = c_hints st
     \<and> (\<forall>N. N i = None \<longrightarrow> stores (arr E) st N \<longrightarrow> stores (arr E) st' (N(i \<mapsto> a)))"

locale liquid_cache =
  cache: indexed_policy "pol E" jinv
  + squeezer: squeeze_policy "arr E" "squeeze E"
  + hydrator: hydration_policy "arr E" "hydrate E"
  for E :: "('a, 'l, 's, 't, 'c, 'e, 'p) env" and jinv
begin

lemma try_insert_ok:
  assumes "cache_ok E jinv st" and "fits E i e st"
  shows "\<exists>st'. try_insert E i e st = Ok (Inr (), st') \<and> committed E i e st st' \<and> cache_ok E jinv st'"
proof -
  obtain u where u: "reserve_for E i e st = Inr ((c_budget st)\<lparr>used_memory_bytes := u\<rparr>)"
    "unat u = mem_used (arr E) ((ix_map (c_index st))(i \<mapsto> e))"
    using reserve_for_cases [OF assms(1), of i e] assms(2) by auto
  obtain p where p: "op_notify_insert (pol E) i (batch_type_of e) (c_policy st) = Some p"
    "jinv p (types_of ((ix_map (c_index st))(i \<mapsto> e)))"
    using cache.ix_notify_insert assms(1) unfolding types_of_upd cache_ok_def by blast
  from u p assms index_insert_ok show ?thesis
    by (auto simp: try_insert_reserve commit_insert_def committed_def cache_ok_def fits_def)
qed

lemma try_insert_full:
  "cache_ok E jinv st \<Longrightarrow> \<not> fits E i e st \<Longrightarrow> try_insert E i e st = Ok (Inl e, st)"
  using reserve_for_cases [of E jinv st i e] by (simp add: try_insert_reserve)

lemma write_opt_ok:
  "cache_ok E jinv st \<Longrightarrow> cache_ok E jinv (write_opt i b (st\<lparr>c_compressor := c\<rparr>))"
  by (auto simp: write_opt_def write_batch_to_disk_def cache_ok_def add_used_disk_bytes_def
    split: option.split)

lemma write_opt_fields:
  "c_index (write_opt i b st) = c_index st" "c_policy (write_opt i b st) = c_policy st"
  "c_hints (write_opt i b st) = c_hints st" "c_compressor (write_opt i b st) = c_compressor st"
  "max_memory_bytes (c_budget (write_opt i b st)) = max_memory_bytes (c_budget st)"
  "c_disk (write_opt i b st) j = (if j = i then written b (c_disk st i) else c_disk st j)"
  by (auto simp: write_opt_def write_batch_to_disk_def add_used_disk_bytes_def split: option.split)

lemma stores_write_opt:
  assumes "stores (arr E) st N" and "N i = None" and "compressor_le (arr E) (c_compressor st) c"
  shows "stores (arr E) (write_opt i b (st\<lparr>c_compressor := c\<rparr>)) N"
  using assms(1,2) entry_holds_mono [OF assms(3)]
  by (fastforce simp: stores_def write_opt_fields)

text \<open>The loop of \<open>squeeze_victim_inner\<close> ends within its four rounds and loses nothing.\<close>

lemma squeeze_loop_ok:
  assumes "codec_ok (arr E)"
  shows "cache_ok E jinv st \<Longrightarrow> entry_rank e < n \<Longrightarrow>
    \<exists>st' e'. squeeze_loop E n i hint e st = Ok st' \<and> squeezed_to E i e e' st st' \<and> cache_ok E jinv st'"
proof (induction n arbitrary: e st)
  case 0
  then show ?case by simp
next
  case (Suc n)
  obtain e1 b c where sq: "squeeze E (c_compressor st) hint e = Ok ((e1, b), c)"
    and res: "squeeze_result (arr E) (c_compressor st) e e1 b c"
    using squeezer.squeeze_ok [OF assms] by blast
  let ?st1 = "write_opt i b (st\<lparr>c_compressor := c\<rparr>)"
  have ok1: "cache_ok E jinv ?st1" using write_opt_ok [OF Suc.prems(1)] .
  have le: "compressor_le (arr E) (c_compressor st) c" and rank: "entry_rank e1 \<le> entry_rank e - 1"
    and same: "entry_rank e = 0 \<Longrightarrow> e1 = e"
    and holds1: "\<And>a. entry_holds (arr E) (c_compressor st) (c_disk st i) e a \<Longrightarrow>
      entry_holds (arr E) c (written b (c_disk st i)) e1 a"
    and quiet: "entry_rank e \<le> 1 \<Longrightarrow> written b (c_disk st i) = c_disk st i"
    using res by (auto simp: squeeze_result_def split: if_splits)
  show ?case
  proof (cases "fits E i e1 ?st1")
    case True
    obtain st2 where st2: "try_insert E i e1 ?st1 = Ok (Inr (), st2)" "committed E i e1 ?st1 st2"
      "cache_ok E jinv st2"
      using try_insert_ok [OF ok1 True] by blast
    have "squeezed_to E i e e1 st st2"
      using st2(2) rank same le quiet holds1 by (auto simp: squeezed_to_def committed_def write_opt_fields)
    with sq st2 show ?thesis by (auto simp: Let_def)
  next
    case False
    have nz: "entry_rank e1 \<noteq> 0" using fits_disk [OF ok1] False by blast
    then have "entry_rank e1 < n" using rank Suc.prems(2) by linarith
    then obtain st' e' where st': "squeeze_loop E n i hint e1 ?st1 = Ok st'"
      "squeezed_to E i e1 e' ?st1 st'" "cache_ok E jinv st'"
      using Suc.IH [OF ok1] by blast
    have "squeezed_to E i e e' st st'"
      using st'(2) rank nz quiet compressor_le_trans [OF le] holds1
      by (auto simp: squeezed_to_def write_opt_fields)
    with sq st' try_insert_full [OF ok1 False] show ?thesis by (auto simp: Let_def)
  qed
qed

lemma squeeze_victim_ok:
  assumes "codec_ok (arr E)" and "cache_ok E jinv st"
  shows "\<exists>st'. squeeze_victim_inner E v st = Ok st' \<and> cache_ok E jinv st'
    \<and> (case ix_map (c_index st) v of None \<Rightarrow> st' = st | Some e \<Rightarrow> \<exists>e'. squeezed_to E v e e' st st')"
proof (cases "ix_map (c_index st) v")
  case None
  then show ?thesis using assms(2) by (simp add: squeeze_victim_inner_def)
next
  case (Some e)
  have "entry_rank e < 4" using entry_rank_le3 [of e] by simp
  from squeeze_loop_ok [OF assms this, of v "c_hints st v"] Some show ?thesis
    by (auto simp: squeeze_victim_inner_def)
qed

lemma squeeze_victims_ok:
  assumes "codec_ok (arr E)"
  shows "cache_ok E jinv st \<Longrightarrow>
    \<exists>st'. squeeze_victims E vs st = Ok st' \<and> cache_ok E jinv st' \<and> settled E st st'"
proof (induction vs arbitrary: st)
  case Nil
  then show ?case by simp
next
  case (Cons v vs)
  obtain st1 where st1: "squeeze_victim_inner E v st = Ok st1" "cache_ok E jinv st1"
    "case ix_map (c_index st) v of None \<Rightarrow> st1 = st | Some e \<Rightarrow> \<exists>e'. squeezed_to E v e e' st st1"
    using squeeze_victim_ok [OF assms Cons.prems] by blast
  have "settled E st st1"
    using st1(3) squeezed_to_settled [of E v _ _ st st1] by (auto split: option.splits)
  with Cons.IH [OF st1(2)] st1(1) settled_trans show ?case by fastforce
qed

text \<open>Squeezing victims does not disturb the batch that waits.\<close>

lemma pending_settled:
  assumes "pending E i batch a st" and "settled E st st'" and "entry_rank batch \<noteq> 0"
  shows "pending E i batch a st'"
proof -
  have le: "compressor_le (arr E) (c_compressor st) (c_compressor st')"
    using assms(2) by (simp add: settled_def)
  have h: "entry_holds (arr E) (c_compressor st') (c_disk st i) batch a"
    using assms(1) entry_holds_mono [OF le] by (simp add: pending_def)
  show ?thesis
  proof (cases "entry_rank batch = 1")
    case True
    then obtain e where "ix_map (c_index st) i = Some e" "entry_rank e \<le> 1"
      using assms(1) by (auto simp: pending_def)
    then obtain e' where "ix_map (c_index st') i = Some e'" "entry_rank e' \<le> 1"
      "c_disk st' i = c_disk st i"
      using assms(2) unfolding settled_def by (meson le_trans)
    with h show ?thesis by (auto simp: pending_def)
  next
    case False
    with assms(3) have "1 < entry_rank batch" by simp
    then have "entry_holds (arr E) (c_compressor st') (c_disk st' i) batch a"
      using h entry_holds_disk_irrelevant [of batch "arr E" _ "c_disk st i" a "c_disk st' i"] by simp
    with False show ?thesis by (simp add: pending_def)
  qed
qed

text \<open>
  With no victim left, the batch itself is moved one step closer to disk. The invariant for
  the other keys survives, and the next step is never \<open>unreachable!\<close>.
\<close>

lemma write_in_memory_ok:
  assumes "codec_ok (arr E)" and "cache_ok E jinv st" and "pending E i batch a st"
    and "entry_rank batch \<noteq> 0"
  shows "\<exists>batch' st'. write_in_memory_batch_to_disk E i batch st = Ok (batch', st')
    \<and> entry_rank batch' < entry_rank batch \<and> cache_ok E jinv st' \<and> pending E i batch' a st'
    \<and> c_index st' = c_index st \<and> c_policy st' = c_policy st \<and> c_hints st' = c_hints st
    \<and> max_memory_bytes (c_budget st') = max_memory_bytes (c_budget st)
    \<and> (\<forall>N. N i = None \<longrightarrow> stores (arr E) st N \<longrightarrow> stores (arr E) st' N)"
proof (cases batch)
  case (MemoryArrow x)
  obtain e b c where sq: "squeeze E (c_compressor st) None batch = Ok ((e, b), c)"
    "squeeze_result (arr E) (c_compressor st) batch e b c"
    using squeezer.squeeze_ok [OF assms(1)] by blast
  have "entry_rank e \<noteq> 1" using squeezer.squeeze_unhinted [OF assms(1)] sq(1) MemoryArrow by blast
  moreover have le: "compressor_le (arr E) (c_compressor st) c"
    using sq(2) by (simp add: squeeze_result_def)
  ultimately have "pending E i e a (write_opt i b (st\<lparr>c_compressor := c\<rparr>))" "entry_rank e < 3"
    using sq(2) assms(3) MemoryArrow by (auto simp: squeeze_result_def pending_def write_opt_fields)
  with sq(1) MemoryArrow write_opt_ok [OF assms(2)] stores_write_opt [OF _ _ le] show ?thesis
    by (simp add: write_opt_fields)
next
  case (MemoryLiquid l)
  have "write_batch_to_disk i (liquid_to_bytes (arr E) l) st
      = write_opt i (Some (liquid_to_bytes (arr E) l)) (st\<lparr>c_compressor := c_compressor st\<rparr>)"
    by (simp add: write_opt_def)
  with MemoryLiquid assms(3) write_opt_ok [OF assms(2), of i _ "c_compressor st"] holds_liquid_bytes [OF assms(1)]
    stores_write_opt [of st _ i "c_compressor st"] show ?thesis
    by (auto simp: pending_def write_opt_fields)
next
  case (MemorySqueezedLiquid s)
  then have "write_in_memory_batch_to_disk E i batch st = Ok (disk_entry_from_squeezed (arr E) s, st)"
    by (auto simp: disk_entry_from_squeezed_def split: squeezed_backing.splits)
  moreover have "pending E i (disk_entry_from_squeezed (arr E) s) a st"
    using assms(3) MemorySqueezedLiquid entry_holds_disk_entry [of "arr E" _ "c_disk st i" s a]
    by (simp add: pending_def)
  ultimately show ?thesis using MemorySqueezedLiquid assms(2) by simp
qed (use assms(4) in simp_all)

text \<open>Inserting never panics; when it returns, the array is stored.\<close>

lemma insert_inner_ok:
  assumes "codec_ok (arr E)"
  shows "cache_ok E jinv st \<Longrightarrow> pending E i batch a st \<Longrightarrow>
    insert_inner E n i batch st = Running
    \<or> (\<exists>st'. insert_inner E n i batch st = Ok st' \<and> inserted E jinv i a st st')"
proof (induction n arbitrary: batch st)
  case 0
  then show ?case by simp
next
  case (Suc n)
  show ?case
  proof (cases "fits E i batch st")
    case True
    obtain st1 where st1: "try_insert E i batch st = Ok (Inr (), st1)" "committed E i batch st st1"
      "cache_ok E jinv st1"
      using try_insert_ok [OF Suc.prems(1) True] by blast
    have "inserted E jinv i a st st1"
      using st1(2,3) stores_committed [OF st1(2)] Suc.prems(2)
      by (auto simp: inserted_def committed_def pending_def)
    with st1(1) show ?thesis by simp
  next
    case False
    have r: "entry_rank batch \<noteq> 0" using fits_disk [OF Suc.prems(1)] False by blast
    obtain vs p where p: "op_find_victim (pol E) 8 (c_policy st) = Some (vs, p)"
      "jinv p (types_of (ix_map (c_index st)))"
      using cache.ix_find_victim Suc.prems(1) unfolding cache_ok_def by blast
    let ?st2 = "st\<lparr>c_policy := p\<rparr>"
    have ok2: "cache_ok E jinv ?st2" using Suc.prems(1) p(2) by (simp add: cache_ok_def)
    have pend2: "pending E i batch a ?st2" using Suc.prems(2) by (simp add: pending_def)
    have S2: "stores (arr E) ?st2 N = stores (arr E) st N" for N by (simp add: stores_def)
    note tried = try_insert_full [OF Suc.prems(1) False]
    show ?thesis
    proof (cases "vs = []")
      case True
      obtain batch' st3 where w: "write_in_memory_batch_to_disk E i batch ?st2 = Ok (batch', st3)"
        "cache_ok E jinv st3" "pending E i batch' a st3" "c_index st3 = c_index ?st2"
        "c_hints st3 = c_hints ?st2" "max_memory_bytes (c_budget st3) = max_memory_bytes (c_budget ?st2)"
        "\<And>N. N i = None \<Longrightarrow> stores (arr E) ?st2 N \<Longrightarrow> stores (arr E) st3 N"
        using write_in_memory_ok [OF assms ok2 pend2 r] by blast
      have "inserted E jinv i a st3 st' \<Longrightarrow> inserted E jinv i a st st'" for st'
        using w(4-7) S2 by (simp add: inserted_def)
      with Suc.IH [OF w(2,3)] tried p(1) True w(1) show ?thesis by auto
    next
      case False
      obtain st3 where v: "squeeze_victims E vs ?st2 = Ok st3" "cache_ok E jinv st3" "settled E ?st2 st3"
        using squeeze_victims_ok [OF assms ok2] by blast
      have "inserted E jinv i a st3 st' \<Longrightarrow> inserted E jinv i a st st'" for st'
        using v(3) S2 stores_settled [OF v(3)] by (simp add: inserted_def settled_def)
      with Suc.IH [OF v(2) pending_settled [OF pend2 v(3) r]] tried p(1) False v(1)
      show ?thesis by auto
    qed
  qed
qed

end

end
