(* ===== verification/CacheReads.thy ===== *)
theory CacheReads
  imports CacheInvariant
begin

text \<open>
  The cache as an abstract map. \<open>caches st M\<close> says that state \<open>st\<close> represents the map \<open>M\<close> from
  keys to arrays. Inserting is map update; reading returns what the map holds and, whatever
  it hydrates or evicts on the way, leaves the map alone; flushing leaves it alone too;
  resetting makes it empty. The results have a parameter \<open>b\<close>: operations never panic, and
  with \<open>b\<close> false they also do not run out of fuel, provided the inserts they may do return
  (\<open>read_lives\<close>, the subject of \<open>CacheProgress\<close>).
\<close>

definition caches ::
  "('a, 'l, 's, 't, 'c, 'e, 'p) env \<Rightarrow> ('p \<Rightarrow> (entry_id \<rightharpoonup> batch_type) \<Rightarrow> bool) \<Rightarrow> ('a, 'l, 's, 't, 'c, 'p) cache \<Rightarrow>
   (entry_id \<rightharpoonup> 'a) \<Rightarrow> bool" where
  "caches E jinv st M \<longleftrightarrow> cache_ok E jinv st \<and> stores (arr E) st M \<and> dom M = dom (ix_map (c_index st))"

text \<open>
  \<open>m\<close> has returned a result with property \<open>P\<close> or, where \<open>b\<close> allows it, is still running; it
  has not panicked.
\<close>

fun returns :: "bool \<Rightarrow> 'r outcome \<Rightarrow> ('r \<Rightarrow> bool) \<Rightarrow> bool" where
  "returns b (Ok r) P = P r"
| "returns b Panic P = False"
| "returns b Running P = b"

lemma returns_obind [simp]: "returns b (obind m f) P = returns b m (\<lambda>r. returns b (f r) P)"
  by (cases m) auto

lemma returns_False [simp]: "returns False m P \<longleftrightarrow> (\<exists>r. m = Ok r \<and> P r)"
  by (cases m) auto

text \<open>Inserting under \<open>i\<close> from this state returns, also after the policy has seen an access.\<close>

definition insert_lives ::
  "('a, 'l, 's, 't, 'c, 'e, 'p) env \<Rightarrow> nat \<Rightarrow> entry_id \<Rightarrow> ('a, 'l, 's, 't, 'c, 'p) cache \<Rightarrow> bool" where
  "insert_lives E n i st \<longleftrightarrow> (\<forall>c batch a. pending E i batch a (st\<lparr>c_compressor := c\<rparr>) \<longrightarrow>
     insert_inner E n i batch (st\<lparr>c_compressor := c\<rparr>) \<noteq> Running)"

definition read_lives ::
  "('a, 'l, 's, 't, 'c, 'e, 'p) env \<Rightarrow> nat \<Rightarrow> entry_id \<Rightarrow> ('a, 'l, 's, 't, 'c, 'p) cache \<Rightarrow> bool" where
  "read_lives E n i st \<longleftrightarrow> (\<forall>t p. op_notify_access (pol E) i t (c_policy st) = Some p \<longrightarrow>
     insert_lives E n i (st\<lparr>c_policy := p\<rparr>))"

lemma cachesD:
  assumes "caches E jinv st M" and "ix_map (c_index st) i = Some e"
  shows "\<exists>a. M i = Some a \<and> entry_holds (arr E) (c_compressor st) (c_disk st i) e a"
  using assms unfolding caches_def stores_def by (metis domIff option.exhaust option.inject option.distinct(1))

lemma caches_new:
  "jinv p Map.empty \<Longrightarrow> sizes_fit (arr E) m \<Longrightarrow> caches E jinv (cache_new m p c) Map.empty"
  by (simp add: caches_def cache_ok_def cache_new_def stores_def budget_new_def)
    (simp add: index_new_def)

text \<open>A read of this squeezed array may answer from the squeezed data alone.\<close>

definition shortcut :: "('a, 'l, 's, 't, 'c, 'e) arrays \<Rightarrow> ('a, 'l, 's, 't) cache_entry \<Rightarrow>
  't cache_expression option \<Rightarrow> bool" where
  "shortcut A e expression = (case e of
       MemorySqueezedLiquid s \<Rightarrow> squeezed_is_variant A s
         \<or> (\<exists>f. Option.bind expression as_date32_field = Some f \<and> squeezed_date32 A s = Some f)
     | _ \<Rightarrow> False)"

text \<open>
  A predicate is evaluated on the selected rows: the result is the predicate's value on them
  (\<open>Inr\<close>), or the rows themselves for the caller to evaluate (\<open>Inl\<close>).
\<close>

definition evaluates ::
  "('a, 'l, 's, 't, 'c, 'e) arrays \<Rightarrow> 'e \<Rightarrow> bool list option \<Rightarrow> 'a \<Rightarrow> ('a + bool option list) option \<Rightarrow> bool" where
  "evaluates A e sel a r \<longleftrightarrow> (\<exists>f. arrow_filter A a (selection_or_all sel (arrow_len A a)) = Some f
     \<and> (case r of Some (Inr buf) \<Rightarrow> buf = phys_eval A e f
        | Some (Inl x) \<Rightarrow> arrow_eq A x f | None \<Rightarrow> False))"

section \<open>Selections\<close>

lemma apply_selection_reads:
  assumes "codec_ok A" and "arrow_eq A x a" and "selection_fits A sel a"
  shows "\<exists>r. apply_selection A sel x = Some r \<and> reads_as A r sel a"
proof -
  have fits: "selection_fits A sel x" using selection_fits_cong [OF assms(1,2)] assms(3) by simp
  then obtain r where r: "apply_selection A sel x = Some r" "reads_as A r sel x"
    using arrow_filter_total [OF assms(1), of _ x] arrow_eq_refl [OF assms(1)]
    by (cases sel) (fastforce simp: apply_selection_def selection_fits_def reads_as_def)+
  with reads_as_cong [OF assms(1,2) fits] show ?thesis by blast
qed

lemma apply_selection_liquid_reads:
  assumes "codec_ok A" and "arrow_eq A (liquid_to_arrow A l) a" and "selection_fits A sel a"
  shows "reads_as A (apply_selection_liquid A sel l) sel a"
proof -
  have fits: "selection_fits A sel (liquid_to_arrow A l)"
    using selection_fits_cong [OF assms(1,2)] assms(3) by simp
  then have "reads_as A (apply_selection_liquid A sel l) sel (liquid_to_arrow A l)"
    using arrow_filter_total [OF assms(1)] liquid_filter_eval [OF assms(1)] arrow_eq_refl [OF assms(1)]
    by (cases sel) (fastforce simp: apply_selection_liquid_def selection_fits_def reads_as_def)+
  with reads_as_cong [OF assms(1,2) fits] show ?thesis by blast
qed

lemma empty_selection_reads:
  assumes "codec_ok A" and "selection_fits A (Some bs) a" and "count_list bs True = 0"
  shows "reads_as A (new_empty_array A t) (Some bs) a"
proof -
  have "True \<notin> set bs" using assms(3) by (simp add: count_list_0_iff)
  then show ?thesis
    using arrow_filter_total [OF assms(1), of bs a] arrow_filter_none [OF assms(1)] assms(2)
    by (auto simp: reads_as_def selection_fits_def)
qed

lemma selection_or_all_length:
  "selection_fits A sel a \<Longrightarrow> length (selection_or_all sel (arrow_len A a)) = arrow_len A a"
  by (auto simp: selection_fits_def selection_or_all_def split: option.splits)

lemma eval_arrow_evaluates:
  assumes "codec_ok A" and "arrow_eq A x a" and "selection_fits A sel a"
  shows "evaluates A e sel a (eval_arrow A sel x)"
proof -
  let ?bs = "selection_or_all sel (arrow_len A a)"
  have len: "arrow_len A x = arrow_len A a" using arrow_eq_len [OF assms(1,2)] .
  obtain f g where "arrow_filter A a ?bs = Some f" "arrow_filter A x ?bs = Some g"
    using arrow_filter_total [OF assms(1)] selection_or_all_length [OF assms(3)] len by metis
  with arrow_filter_cong [OF assms(1,2)] len show ?thesis by (simp add: evaluates_def eval_arrow_def)
qed

lemma eval_liquid_evaluates:
  assumes "codec_ok A" and "arrow_eq A (liquid_to_arrow A l) a" and "selection_fits A sel a"
  shows "evaluates A e sel a (eval_liquid A sel e l)"
proof -
  let ?bs = "selection_or_all sel (arrow_len A a)"
  have len: "liquid_len A l = arrow_len A a" "arrow_len A (liquid_to_arrow A l) = arrow_len A a"
    using arrow_eq_len [OF assms(1,2)] liquid_len_eq [OF assms(1)] by simp_all
  obtain f g where fg: "arrow_filter A a ?bs = Some f" "arrow_filter A (liquid_to_arrow A l) ?bs = Some g"
    using arrow_filter_total [OF assms(1)] selection_or_all_length [OF assms(3)] len by metis
  have eq: "arrow_eq A g f" using arrow_filter_cong [OF assms(1,2) fg(2,1)] .
  note l = liquid_filter_eval [OF assms(1) fg(2)]
  show ?thesis
    using fg(1) len(1) l eq arrow_eq_trans [OF assms(1)] phys_eval_cong [OF assms(1) eq]
    by (cases "liquid_try_eval A l e ?bs") (auto simp: evaluates_def eval_liquid_def Let_def)
qed

section \<open>Reading\<close>

context liquid_cache
begin

lemma caches_reset: "caches E jinv st M \<Longrightarrow> caches E jinv (cache_reset st) Map.empty"
  using cache.ix_forget
  by (auto simp: caches_def cache_ok_def cache_reset_def stores_def index_reset_def index_new_def
    index_ok_def reset_usage_def)

lemma maybe_hydrate_ok:
  assumes "codec_ok (arr E)" and "caches E jinv st M" and "M i = Some a"
    and "ix_map (c_index st) i = Some cached"
    and "materialized_holds (arr E) (c_compressor st) mat a" and "b \<or> insert_lives E n i st"
  shows "returns b (maybe_hydrate E n i cached mat expr st) (\<lambda>st'. caches E jinv st' M)"
proof -
  let ?req = "\<lparr>hr_cached = cached, hr_materialized = mat, hr_expression = expr\<rparr>"
  obtain v c where h: "hydrate E (c_compressor st) ?req = (v, c)" by fastforce
  have le: "compressor_le (arr E) (c_compressor st) c" using hydrator.hydrate_compressor [OF assms(1) h] .
  let ?st1 = "st\<lparr>c_compressor := c\<rparr>"
  have c1: "caches E jinv ?st1 M"
    using assms(2) entry_holds_mono [OF le] by (fastforce simp: caches_def cache_ok_def stores_def)
  show ?thesis
  proof (cases v)
    case None
    with h c1 show ?thesis by (simp add: maybe_hydrate_def)
  next
    case (Some e)
    have "entry_holds (arr E) (c_compressor st) (c_disk st i) cached a"
      using cachesD [OF assms(2,4)] assms(3) by auto
    then have "entry_holds (arr E) c (c_disk st i) e a"
      using hydrator.hydrate_holds [OF assms(1)] h Some assms(5) by fastforce
    then have pend: "pending E i e a ?st1"
      using hydrator.hydrate_rank [OF assms(1)] h Some assms(4) by (fastforce simp: pending_def)
    have ok1: "cache_ok E jinv ?st1" using c1 by (simp add: caches_def)
    have "caches E jinv st' M" if "inserted E jinv i a ?st1 st'" for st'
    proof -
      have "stores (arr E) ?st1 (M(i := None))" using c1 by (auto simp: caches_def stores_def)
      then have "stores (arr E) st' ((M(i := None))(i \<mapsto> a))"
        using that unfolding inserted_def by (meson fun_upd_same)
      moreover have "(M(i := None))(i \<mapsto> a) = M" using assms(3) by auto
      ultimately show ?thesis
        using that c1 assms(4) by (auto simp: caches_def inserted_def)
    qed
    moreover have "b \<or> insert_inner E n i e ?st1 \<noteq> Running"
      using assms(6) pend unfolding insert_lives_def by blast
    ultimately show ?thesis using insert_inner_ok [OF assms(1) ok1 pend, of n] h Some
      by (auto simp: maybe_hydrate_def)
  qed
qed

lemma notify_access_ok:
  assumes "caches E jinv st M"
  shows "\<exists>p. notify_access E i e st = Ok (st\<lparr>c_policy := p\<rparr>) \<and> caches E jinv (st\<lparr>c_policy := p\<rparr>) M
    \<and> op_notify_access (pol E) i (batch_type_of e) (c_policy st) = Some p"
proof -
  obtain p where "op_notify_access (pol E) i (batch_type_of e) (c_policy st) = Some p"
    "jinv p (types_of (ix_map (c_index st)))"
    using cache.ix_notify_access assms unfolding caches_def cache_ok_def by blast
  with assms show ?thesis
    by (auto simp: notify_access_def caches_def cache_ok_def stores_def)
qed

lemma read_disk_arrow_array_ok:
  assumes "holds_array (arr E) (c_compressor st) BackArrow b a" and "c_disk st i = Some b"
  shows "\<exists>x. read_disk_arrow_array E i st = Ok x \<and> arrow_eq (arr E) x a"
  using assms by (auto simp: read_disk_arrow_array_def holds_array_def)

lemma read_disk_liquid_array_ok:
  assumes "codec_ok (arr E)" and "holds_array (arr E) (c_compressor st) BackLiquid b a"
    and "c_disk st i = Some b"
  shows "\<exists>l. read_disk_liquid_array E i st = Ok l \<and> readable (arr E) (c_compressor st) l
    \<and> arrow_eq (arr E) (liquid_to_arrow (arr E) l) a"
  using assms liquid_of_bytes_readable [OF assms(1)]
  by (auto simp: read_disk_liquid_array_def holds_array_def)

lemma read_disk_array_ok:
  assumes "codec_ok (arr E)" and "caches E jinv st M" and "M i = Some a"
    and "ix_map (c_index st) i = Some e" and "entry_rank e = 0" and "selection_fits (arr E) sel a"
    and "b \<or> insert_lives E n i st"
  shows "returns b (read_disk_array E n e i expr sel st)
    (\<lambda>(r, st'). caches E jinv st' M \<and> (\<exists>x. r = Some x \<and> reads_as (arr E) x sel a))"
proof -
  have holds: "entry_holds (arr E) (c_compressor st) (c_disk st i) e a"
    using cachesD [OF assms(2,4)] assms(3) by auto
  show ?thesis
  proof (cases "\<exists>bs. sel = Some bs \<and> count_list bs True = 0")
    case True
    then show ?thesis
      using assms(2,5,6) empty_selection_reads [OF assms(1), of _ a] by (cases e) auto
  next
    case full: False
    then have sel: "\<not> (case sel of Some bs \<Rightarrow> count_list bs True = 0 | None \<Rightarrow> False)"
      by (auto split: option.splits)
    show ?thesis
    proof (cases e)
      case (DiskArrow t)
      obtain x where x: "read_disk_arrow_array E i st = Ok x" "arrow_eq (arr E) x a"
        using read_disk_arrow_array_ok holds DiskArrow by fastforce
      have "returns b (maybe_hydrate E n i e (MatArrow x) expr st) (\<lambda>st'. caches E jinv st' M)"
        using maybe_hydrate_ok [OF assms(1-4) _ assms(7), of "MatArrow x" expr] x(2) by simp
      then show ?thesis
        using sel x DiskArrow apply_selection_reads [OF assms(1) x(2) assms(6)] by auto
    next
      case (DiskLiquid t)
      obtain l where l: "read_disk_liquid_array E i st = Ok l" "readable (arr E) (c_compressor st) l"
        "arrow_eq (arr E) (liquid_to_arrow (arr E) l) a"
        using read_disk_liquid_array_ok [OF assms(1)] holds DiskLiquid by fastforce
      have "returns b (maybe_hydrate E n i e (MatLiquid l) expr st) (\<lambda>st'. caches E jinv st' M)"
        using maybe_hydrate_ok [OF assms(1-4) _ assms(7), of "MatLiquid l" expr] l(2,3) by simp
      then show ?thesis
        using sel l DiskLiquid apply_selection_liquid_reads [OF assms(1) l(3) assms(6)] by auto
    qed (use assms(5) in simp_all)
  qed
qed

lemma try_read_squeezed_variant_none:
  "\<not> squeezed_is_variant (arr E) s \<Longrightarrow>
    try_read_squeezed_variant_array E n s i expr sel st = Ok (None, st)"
  by (simp add: try_read_squeezed_variant_array_def split: option.split)

lemma try_read_squeezed_date32_none:
  "\<not> (\<exists>f. Option.bind expr as_date32_field = Some f \<and> squeezed_date32 A s = Some f) \<Longrightarrow>
    try_read_squeezed_date32_array A s expr sel = None"
  by (auto simp: try_read_squeezed_date32_array_def split: option.split)

lemma read_squeezed_array_ok:
  assumes "entry_holds (arr E) (c_compressor st) (c_disk st i) (MemorySqueezedLiquid s) a"
    and "\<not> shortcut (arr E) (MemorySqueezedLiquid s) expr" and "selection_fits (arr E) sel a"
  shows "\<exists>x. read_squeezed_array E n s i expr sel st = Ok (Some x, st) \<and> reads_as (arr E) x sel a"
proof -
  obtain b where b: "c_disk st i = Some b" "squeezed_backed (arr E) (c_compressor st) s b a"
    using assms(1) by auto
  have s: "\<not> squeezed_is_variant (arr E) s" and date: "try_read_squeezed_date32_array (arr E) s expr sel = None"
    using assms(2) try_read_squeezed_date32_none [of expr "arr E" s sel] by (auto simp: shortcut_def)
  have "\<exists>x. (case sel of Some bs \<Rightarrow> squeezed_filter (arr E) s (c_disk st i) bs
      | None \<Rightarrow> squeezed_to_arrow (arr E) s (c_disk st i)) = Some x \<and> reads_as (arr E) x sel a"
    using b s assms(3) by (cases sel) (auto simp: squeezed_backed_def selection_fits_def)
  with date try_read_squeezed_variant_none [OF s] show ?thesis
    by (auto simp: read_squeezed_array_def)
qed

lemma read_arrow_array_ok:
  assumes "codec_ok (arr E)" and "caches E jinv st M" and "M i = Some a"
    and "ix_map (c_index st) i = Some e" and "\<not> shortcut (arr E) e expr" and "selection_fits (arr E) sel a"
    and "b \<or> read_lives E n i st"
  shows "returns b (read_arrow_array E n i sel expr st)
    (\<lambda>(r, st'). caches E jinv st' M \<and> (\<exists>x. r = Some x \<and> reads_as (arr E) x sel a))"
proof -
  obtain p where p: "notify_access E i e st = Ok (st\<lparr>c_policy := p\<rparr>)" "caches E jinv (st\<lparr>c_policy := p\<rparr>) M"
    and acc: "op_notify_access (pol E) i (batch_type_of e) (c_policy st) = Some p"
    using notify_access_ok [OF assms(2)] by blast
  let ?st1 = "st\<lparr>c_policy := p\<rparr>"
  have live: "b \<or> insert_lives E n i ?st1" using assms(7) acc unfolding read_lives_def by blast
  have i1: "ix_map (c_index ?st1) i = Some e" using assms(4) by simp
  have holds: "entry_holds (arr E) (c_compressor ?st1) (c_disk ?st1 i) e a"
    using cachesD [OF p(2) i1] assms(3) by auto
  show ?thesis
  proof (cases e)
    case (MemoryArrow x)
    with apply_selection_reads [OF assms(1) _ assms(6), of x] holds assms(4) p show ?thesis
      by (auto simp: read_arrow_array_def)
  next
    case (MemoryLiquid l)
    with apply_selection_liquid_reads [OF assms(1) _ assms(6), of l] holds assms(4) p show ?thesis
      by (auto simp: read_arrow_array_def)
  next
    case (MemorySqueezedLiquid s)
    obtain x where "read_squeezed_array E n s i expr sel ?st1 = Ok (Some x, ?st1)" "reads_as (arr E) x sel a"
      using read_squeezed_array_ok holds assms(5,6) unfolding MemorySqueezedLiquid by blast
    with MemorySqueezedLiquid assms(4) p show ?thesis by (simp add: read_arrow_array_def)
  next
    case (DiskLiquid t)
    with read_disk_array_ok [OF assms(1) p(2) assms(3) i1 _ assms(6) live, of expr] assms(4) p(1)
    show ?thesis by (simp add: read_arrow_array_def)
  next
    case (DiskArrow t)
    with read_disk_array_ok [OF assms(1) p(2) assms(3) i1 _ assms(6) live, of expr] assms(4) p(1)
    show ?thesis by (simp add: read_arrow_array_def)
  qed
qed

lemma read_arrow_array_miss:
  "caches E jinv st M \<Longrightarrow> M i = None \<Longrightarrow> read_arrow_array E n i sel expr st = Ok (None, st)"
  by (auto simp: read_arrow_array_def caches_def split: option.split)

lemma insert_run_ok:
  assumes "codec_ok (arr E)" and "caches E jinv st M"
    and "b \<or> (\<forall>h. insert_lives E n i (st\<lparr>c_hints := h\<rparr>))"
  shows "returns b (insert_run E n skip hint i x st) (\<lambda>st'. caches E jinv st' (M(i \<mapsto> x)))"
proof -
  let ?g = "if skip then x else (case gc_view_arrays (arr E) x of Some a \<Rightarrow> a | None \<Rightarrow> x)"
  let ?st1 = "case hint of Some h \<Rightarrow> add_squeeze_hint i h st | None \<Rightarrow> st"
  have g: "arrow_eq (arr E) ?g x"
    using gc_view_arrays_eq [OF assms(1)] arrow_eq_refl [OF assms(1)] by (auto split: option.split)
  have c1: "caches E jinv ?st1 M"
    using assms(2) by (auto simp: add_squeeze_hint_def caches_def cache_ok_def stores_def split: option.split)
  then have ok1: "cache_ok E jinv ?st1" and N: "stores (arr E) ?st1 (M(i := None))"
    by (auto simp: caches_def stores_def)
  have pend: "pending E i (MemoryArrow ?g) x ?st1" using g by (simp add: pending_def)
  have "caches E jinv st' (M(i \<mapsto> x))" if "inserted E jinv i x ?st1 st'" for st'
  proof -
    have "stores (arr E) st' ((M(i := None))(i \<mapsto> x))"
      using that N unfolding inserted_def by (meson fun_upd_same)
    with that c1 show ?thesis by (simp add: caches_def inserted_def)
  qed
  moreover have "b \<or> insert_inner E n i (MemoryArrow ?g) ?st1 \<noteq> Running"
  proof -
    have "\<exists>h. ?st1 = st\<lparr>c_hints := h, c_compressor := c_compressor st\<rparr>"
      by (cases hint) (auto simp: add_squeeze_hint_def intro: exI [of _ "c_hints st"])
    with pend assms(3) show ?thesis unfolding insert_lives_def by metis
  qed
  ultimately show ?thesis using insert_inner_ok [OF assms(1) ok1 pend, of n]
    by (auto simp: insert_run_def Let_def)
qed

lemma try_read_liquid_ok:
  assumes "codec_ok (arr E)" and "caches E jinv st M" and "b \<or> read_lives E n i st"
  shows "returns b (try_read_liquid E n i st) (\<lambda>(r, st'). caches E jinv st' M
    \<and> (\<forall>l. r = Some l \<longrightarrow> (\<exists>a. M i = Some a \<and> arrow_eq (arr E) (liquid_to_arrow (arr E) l) a)))"
proof (cases "ix_map (c_index st) i")
  case None
  with assms(2) show ?thesis by (simp add: try_read_liquid_def)
next
  case (Some e)
  obtain p where p: "notify_access E i e st = Ok (st\<lparr>c_policy := p\<rparr>)" "caches E jinv (st\<lparr>c_policy := p\<rparr>) M"
    and acc: "op_notify_access (pol E) i (batch_type_of e) (c_policy st) = Some p"
    using notify_access_ok [OF assms(2)] by blast
  let ?st1 = "st\<lparr>c_policy := p\<rparr>"
  have live: "b \<or> insert_lives E n i ?st1" using assms(3) acc unfolding read_lives_def by blast
  have i1: "ix_map (c_index ?st1) i = Some e" using Some by simp
  obtain a where a: "M i = Some a" and holds: "entry_holds (arr E) (c_compressor ?st1) (c_disk ?st1 i) e a"
    using cachesD [OF p(2) i1] by blast
  show ?thesis
  proof (cases e)
    case (DiskLiquid t)
    obtain l where l: "read_disk_liquid_array E i ?st1 = Ok l" "readable (arr E) (c_compressor ?st1) l"
      "arrow_eq (arr E) (liquid_to_arrow (arr E) l) a"
      using read_disk_liquid_array_ok [OF assms(1), of ?st1] holds DiskLiquid by fastforce
    have "returns b (maybe_hydrate E n i e (MatLiquid l) None ?st1) (\<lambda>st'. caches E jinv st' M)"
      using maybe_hydrate_ok [OF assms(1) p(2) a i1 _ live] l(2,3) by simp
    with Some p(1) l a DiskLiquid show ?thesis by (simp add: try_read_liquid_def)
  next
    case (MemorySqueezedLiquid s)
    show ?thesis
    proof (cases "squeezed_backing_of (arr E) s")
      case BackLiquid
      obtain l where l: "read_disk_liquid_array E i ?st1 = Ok l"
        "arrow_eq (arr E) (liquid_to_arrow (arr E) l) a"
        using read_disk_liquid_array_ok [OF assms(1), of ?st1] holds MemorySqueezedLiquid BackLiquid
        by (fastforce simp: squeezed_backed_def)
      with Some p MemorySqueezedLiquid BackLiquid a show ?thesis by (simp add: try_read_liquid_def)
    qed (use Some p MemorySqueezedLiquid in \<open>simp add: try_read_liquid_def\<close>)
  qed (use Some p a holds in \<open>simp_all add: try_read_liquid_def\<close>)
qed

section \<open>Evaluating predicates\<close>

lemma eval_squeezed_ok:
  assumes "codec_ok (arr E)" and "c_disk st i = Some b" and "squeezed_backed (arr E) (c_compressor st) s b a"
    and "\<not> squeezed_is_variant (arr E) s" and "selection_fits (arr E) sel a"
  shows "\<exists>r. eval_predicate_on_squeezed E i s sel e st = Ok r \<and> evaluates (arr E) e sel a r"
proof -
  let ?bs = "selection_or_all sel (arrow_len (arr E) a)"
  note len = selection_or_all_length [OF assms(5)]
  have sl: "squeezed_len (arr E) s = arrow_len (arr E) a"
    using assms(3,4) by (simp add: squeezed_backed_def)
  obtain f where f: "arrow_filter (arr E) a ?bs = Some f" using arrow_filter_total [OF assms(1) len] by blast
  obtain v where v: "squeezed_try_eval (arr E) s (Some b) e ?bs = Some v"
    "\<And>buf. v = Some buf \<Longrightarrow> buf = phys_eval (arr E) e f"
    using assms(3,4) len f unfolding squeezed_backed_def by metis
  obtain x where x: "squeezed_filter (arr E) s (Some b) ?bs = Some x" "arrow_eq (arr E) x f"
    using assms(3,4) len f unfolding squeezed_backed_def reads_as_def by fastforce
  show ?thesis
    using assms(2) sl f v x
    by (cases v) (auto simp: eval_predicate_on_squeezed_def Let_def evaluates_def)
qed

lemma eval_predicate_ok:
  assumes "codec_ok (arr E)" and "caches E jinv st M" and "M i = Some a"
    and "ix_map (c_index st) i = Some e" and "\<not> shortcut (arr E) e None" and "selection_fits (arr E) sel a"
    and "b \<or> read_lives E n i st"
  shows "returns b (eval_predicate_internal E n i sel pr st)
    (\<lambda>(r, st'). caches E jinv st' M \<and> evaluates (arr E) pr sel a r)"
proof -
  obtain p where p: "notify_access E i e st = Ok (st\<lparr>c_policy := p\<rparr>)" "caches E jinv (st\<lparr>c_policy := p\<rparr>) M"
    and acc: "op_notify_access (pol E) i (batch_type_of e) (c_policy st) = Some p"
    using notify_access_ok [OF assms(2)] by blast
  let ?st1 = "st\<lparr>c_policy := p\<rparr>"
  have live: "b \<or> insert_lives E n i ?st1" using assms(7) acc unfolding read_lives_def by blast
  have i1: "ix_map (c_index ?st1) i = Some e" using assms(4) by simp
  have holds: "entry_holds (arr E) (c_compressor ?st1) (c_disk ?st1 i) e a"
    using cachesD [OF p(2) i1] assms(3) by auto
  note arrow = eval_arrow_evaluates [OF assms(1) _ assms(6)]
  note liquid = eval_liquid_evaluates [OF assms(1) _ assms(6)]
  show ?thesis
  proof (cases e)
    case (DiskArrow t)
    obtain x where x: "read_disk_arrow_array E i ?st1 = Ok x" "arrow_eq (arr E) x a"
      using read_disk_arrow_array_ok [of ?st1] holds DiskArrow by fastforce
    have "returns b (maybe_hydrate E n i e (MatArrow x) None ?st1) (\<lambda>st'. caches E jinv st' M)"
      using maybe_hydrate_ok [OF assms(1) p(2) assms(3) i1 _ live] x(2) by simp
    with assms(4) p(1) x DiskArrow arrow [OF x(2)] show ?thesis by (simp add: eval_predicate_internal_def)
  next
    case (DiskLiquid t)
    obtain l where l: "read_disk_liquid_array E i ?st1 = Ok l" "readable (arr E) (c_compressor ?st1) l"
      "arrow_eq (arr E) (liquid_to_arrow (arr E) l) a"
      using read_disk_liquid_array_ok [OF assms(1), of ?st1] holds DiskLiquid by fastforce
    have "returns b (maybe_hydrate E n i e (MatLiquid l) None ?st1) (\<lambda>st'. caches E jinv st' M)"
      using maybe_hydrate_ok [OF assms(1) p(2) assms(3) i1 _ live] l(2,3) by simp
    with assms(4) p(1) l DiskLiquid liquid [OF l(3)] show ?thesis by (simp add: eval_predicate_internal_def)
  next
    case (MemorySqueezedLiquid s)
    then obtain b where b: "c_disk ?st1 i = Some b" "squeezed_backed (arr E) (c_compressor ?st1) s b a"
      using holds by auto
    obtain r where "eval_predicate_on_squeezed E i s sel pr ?st1 = Ok r" "evaluates (arr E) pr sel a r"
      using eval_squeezed_ok [OF assms(1) b _ assms(6)] assms(5) MemorySqueezedLiquid
      by (auto simp: shortcut_def)
    with assms(4) p MemorySqueezedLiquid show ?thesis by (simp add: eval_predicate_internal_def)
  qed (use assms(4) p holds arrow liquid in \<open>simp_all add: eval_predicate_internal_def\<close>)
qed

section \<open>Flushing\<close>

lemma flush_entry_ok:
  assumes "codec_ok (arr E)" and "caches E jinv st M" and "ix_map (c_index st) i = Some e"
  shows "\<exists>st' e'. flush_entry E i e st = Ok (Inr (), st') \<and> caches E jinv st' M
    \<and> ix_map (c_index st') = (ix_map (c_index st))(i \<mapsto> e') \<and> entry_rank e' = 0
    \<and> max_memory_bytes (c_budget st') = max_memory_bytes (c_budget st)"
proof -
  obtain a where a: "M i = Some a" "entry_holds (arr E) (c_compressor st) (c_disk st i) e a"
    using cachesD [OF assms(2,3)] by blast
  have step: "\<exists>st'. try_insert E i e' (write_opt i b st) = Ok (Inr (), st') \<and> caches E jinv st' M
      \<and> ix_map (c_index st') = (ix_map (c_index st))(i \<mapsto> e')
      \<and> max_memory_bytes (c_budget st') = max_memory_bytes (c_budget st)"
    if r: "entry_rank e' = 0" and h: "entry_holds (arr E) (c_compressor st) (written b (c_disk st i)) e' a"
    for e' b
  proof -
    let ?st1 = "write_opt i b st"
    have ok1: "cache_ok E jinv ?st1"
      using assms(2) write_opt_ok [of st i b "c_compressor st"] by (simp add: caches_def)
    obtain st' where st': "try_insert E i e' ?st1 = Ok (Inr (), st')" "committed E i e' ?st1 st'"
      "cache_ok E jinv st'"
      using try_insert_ok [OF ok1 fits_disk [OF ok1 r]] by blast
    have "stores (arr E) ?st1 (M(i := None))"
      using assms(2) stores_write_opt [of st "M(i := None)" i "c_compressor st" b]
      by (auto simp: caches_def stores_def)
    moreover have "entry_holds (arr E) (c_compressor ?st1) (c_disk ?st1 i) e' a"
      using h by (simp add: write_opt_fields)
    ultimately have "stores (arr E) st' ((M(i := None))(i \<mapsto> a))"
      by (rule stores_committed [OF st'(2)])
    moreover have "(M(i := None))(i \<mapsto> a) = M" using a(1) by auto
    ultimately show ?thesis
      using st' assms(2,3) by (auto simp: caches_def committed_def write_opt_fields)
  qed
  show ?thesis
  proof (cases e)
    case (MemoryArrow x)
    obtain b where "arrow_to_bytes (arr E) x = Some b" using arrow_bytes [OF assms(1)] by blast
    with MemoryArrow step [of "DiskArrow _" "Some b"] a(2) holds_arrow_bytes [OF assms(1)] show ?thesis
      by (fastforce simp: write_opt_def)
  next
    case (MemoryLiquid l)
    with step [of "DiskLiquid _" "Some (liquid_to_bytes (arr E) l)"] a(2) holds_liquid_bytes [OF assms(1)]
    show ?thesis by (fastforce simp: write_opt_def)
  next
    case (MemorySqueezedLiquid s)
    with step [of "disk_entry_from_squeezed (arr E) s" None] a(2)
      entry_holds_disk_entry [of "arr E" "c_compressor st" "c_disk st i" s a]
    show ?thesis by (fastforce simp: write_opt_def)
  qed (use assms(2,3) map_upd_triv [where t = "ix_map (c_index st)", OF assms(3)] in \<open>auto intro!: exI [of _ e]\<close>)
qed

lemma flush_entries_ok:
  assumes "codec_ok (arr E)"
  shows "caches E jinv st M \<Longrightarrow> distinct (map fst es) \<Longrightarrow>
    \<forall>(i, e) \<in> set es. ix_map (c_index st) i = Some e \<Longrightarrow>
    \<exists>st'. flush_entries E es st = Ok st' \<and> caches E jinv st' M
      \<and> dom (ix_map (c_index st')) = dom (ix_map (c_index st))
      \<and> (\<forall>i. i \<in> fst ` set es \<longrightarrow> (\<exists>e. ix_map (c_index st') i = Some e \<and> entry_rank e = 0))
      \<and> (\<forall>i. i \<notin> fst ` set es \<longrightarrow> ix_map (c_index st') i = ix_map (c_index st) i)
      \<and> max_memory_bytes (c_budget st') = max_memory_bytes (c_budget st)"
proof (induction es arbitrary: st)
  case Nil
  then show ?case by simp
next
  case (Cons x es)
  obtain i e where x: "x = (i, e)" by fastforce
  have ie: "ix_map (c_index st) i = Some e" using Cons.prems(3) x by simp
  obtain st1 e1 where st1: "flush_entry E i e st = Ok (Inr (), st1)" "caches E jinv st1 M"
    "ix_map (c_index st1) = (ix_map (c_index st))(i \<mapsto> e1)" "entry_rank e1 = 0"
    "max_memory_bytes (c_budget st1) = max_memory_bytes (c_budget st)"
    using flush_entry_ok [OF assms Cons.prems(1) ie] by blast
  have rest: "\<forall>(j, f) \<in> set es. ix_map (c_index st1) j = Some f"
    using Cons.prems(2,3) x st1(3) by (fastforce simp: image_iff)
  have fresh: "i \<notin> fst ` set es" using Cons.prems(2) x by auto
  obtain st' where st': "flush_entries E es st1 = Ok st'" "caches E jinv st' M"
    "dom (ix_map (c_index st')) = dom (ix_map (c_index st1))"
    "\<forall>j. j \<in> fst ` set es \<longrightarrow> (\<exists>f. ix_map (c_index st') j = Some f \<and> entry_rank f = 0)"
    "\<forall>j. j \<notin> fst ` set es \<longrightarrow> ix_map (c_index st') j = ix_map (c_index st1) j"
    "max_memory_bytes (c_budget st') = max_memory_bytes (c_budget st1)"
    using Cons.IH [OF st1(2) _ rest] Cons.prems(2) by auto
  have "dom (ix_map (c_index st1)) = dom (ix_map (c_index st))" using st1(3) ie by auto
  with st' st1 fresh x show ?case by (intro exI [of _ st']) auto
qed

lemma flush_all_ok:
  assumes "codec_ok (arr E)" and "caches E jinv st M" and "distinct ks"
    and "set ks = dom (ix_map (c_index st))"
  shows "\<exists>st'. flush_all_to_disk E ks st = Ok st' \<and> caches E jinv st' M
    \<and> (\<forall>e \<in> ran (ix_map (c_index st')). entry_rank e = 0) \<and> used_memory_bytes (c_budget st') = 0"
proof -
  let ?es = "map (\<lambda>k. (k, the (ix_map (c_index st) k))) ks"
  have f: "fst ` set ?es = set ks" "map fst ?es = ks" by (force simp: comp_def)+
  have "\<forall>(i, e) \<in> set ?es. ix_map (c_index st) i = Some e" using assms(4) by auto
  with flush_entries_ok [OF assms(1,2), of ?es] f assms(3) obtain st' where
    st': "flush_entries E ?es st = Ok st'" "caches E jinv st' M"
    "dom (ix_map (c_index st')) = dom (ix_map (c_index st))"
    "\<forall>i. i \<in> set ks \<longrightarrow> (\<exists>e. ix_map (c_index st') i = Some e \<and> entry_rank e = 0)"
    by auto
  have all: "entry_rank e = 0" if "ix_map (c_index st') j = Some e" for j e
    using st'(3,4) assms(4) that by (metis domI option.inject)
  then have "mem_used (arr E) (ix_map (c_index st')) = 0"
    unfolding mem_used_def by (intro sum.neutral) (auto simp: domIff)
  then have "used_memory_bytes (c_budget st') = 0"
    using st'(2) by (simp add: caches_def cache_ok_def unat_eq_zero)
  with st'(1,2) all show ?thesis by (auto simp: flush_all_to_disk_def ran_def)
qed

end

section \<open>Statistics\<close>

definition stat_bytes :: "cache_stats \<Rightarrow> usize" where
  "stat_bytes z = memory_arrow_bytes z + memory_liquid_bytes z + memory_squeezed_liquid_bytes z"

definition stat_entries :: "cache_stats \<Rightarrow> usize" where
  "stat_entries z = memory_arrow_entries z + memory_liquid_entries z + memory_squeezed_liquid_entries z
     + disk_liquid_entries z + disk_arrow_entries z"

lemma count_entry_sums:
  "stat_bytes (count_entry A e z) = stat_bytes z + entry_memory_usage_bytes A e"
  "stat_entries (count_entry A e z) = stat_entries z + 1"
  "total_entries (count_entry A e z) = total_entries z"
  "memory_usage_bytes (count_entry A e z) = memory_usage_bytes z"
  by (cases e; simp add: stat_bytes_def stat_entries_def)+

lemma fold_count_entry:
  "stat_bytes (fold (\<lambda>k. count_entry A (the (m k))) ks z)
    = stat_bytes z + (\<Sum>k\<leftarrow>ks. entry_memory_usage_bytes A (the (m k)))"
  "stat_entries (fold (\<lambda>k. count_entry A (the (m k))) ks z) = stat_entries z + of_nat (length ks)"
  "total_entries (fold (\<lambda>k. count_entry A (the (m k))) ks z) = total_entries z"
  "memory_usage_bytes (fold (\<lambda>k. count_entry A (the (m k))) ks z) = memory_usage_bytes z"
  by (induction ks arbitrary: z) (simp_all add: count_entry_sums)

lemma word_of_nat_sum_list:
  "(of_nat (\<Sum>k\<leftarrow>ks. unat (f k)) :: usize) = (\<Sum>k\<leftarrow>ks. f k)"
  by (induction ks) simp_all

lemma stats_add_up:
  assumes "cache_ok E jinv st" and "distinct ks" and "set ks = dom (ix_map (c_index st))"
  shows "stat_entries (stats E ks st) = total_entries (stats E ks st)"
    and "stat_bytes (stats E ks st) = memory_usage_bytes (stats E ks st)"
proof -
  let ?m = "ix_map (c_index st)"
  show "stat_entries (stats E ks st) = total_entries (stats E ks st)"
    using assms distinct_card [OF assms(2)] unfolding stats_def fold_count_entry
    by (simp add: stat_entries_def cache_ok_def index_ok_def)
  have "mem_used (arr E) ?m = (\<Sum>k\<leftarrow>ks. unat (entry_memory_usage_bytes (arr E) (the (?m k))))"
    using assms(2,3) by (simp add: mem_used_def sum_list_distinct_conv_sum_set)
  then have "of_nat (mem_used (arr E) ?m) = (\<Sum>k\<leftarrow>ks. entry_memory_usage_bytes (arr E) (the (?m k)))"
    by (simp add: word_of_nat_sum_list)
  moreover have "used_memory_bytes (c_budget st) = of_nat (mem_used (arr E) ?m)"
    using assms(1) by (auto simp: cache_ok_def dest!: sym [of "unat _"])
  ultimately show "stat_bytes (stats E ks st) = memory_usage_bytes (stats E ks st)"
    unfolding stats_def fold_count_entry by (simp add: stat_bytes_def)
qed

end
