(* ===== verification/LiquidPolicy.thy ===== *)
theory LiquidPolicy
  imports CachePolicy
begin

text \<open>
  The default policy, \<^verbatim>\<open>src/storage/src/cache/policies/cache/three_queue.rs\<close>: one FIFO queue
  per kind of cached batch. Victims come from the Arrow queue first, then from the Liquid and
  from the Squeezed queue; entries on disk are tracked and never advised. All four lists share
  one heap and one map.

  \<open>tq_rep s xs\<close> relates a state to its four lists of entries, and the operations are shown to
  refine moving an entry to the end of its queue and taking victims in that order. The
  termination of the cache's insert loop rests on \<open>tq_pressure\<close>, which weighs what is left to
  squeeze.
\<close>

section \<open>State and operations\<close>

datatype queue_kind = QArrow | QLiquid | QSqueezed | QDisk

record tq_node =
  tn_entry_id :: entry_id
  tn_queue :: queue_kind

record liquid_queue_state =
  tq_map :: "entry_id \<rightharpoonup> ptr"
  tq_heap :: "tq_node heap"
  tq_arrow :: dll
  tq_liquid :: dll
  tq_squeezed :: dll
  tq_disk :: dll

definition liquid_policy_new :: liquid_queue_state where
  "liquid_policy_new = \<lparr>tq_map = Map.empty, tq_heap = heap_empty, tq_arrow = dll_new,
     tq_liquid = dll_new, tq_squeezed = dll_new, tq_disk = dll_new\<rparr>"

text \<open>\<open>list_mut\<close> hands out a mutable reference to a queue: a getter and a setter.\<close>

fun list_of_kind :: "queue_kind \<Rightarrow> liquid_queue_state \<Rightarrow> dll" where
  "list_of_kind QArrow s = tq_arrow s"
| "list_of_kind QLiquid s = tq_liquid s"
| "list_of_kind QSqueezed s = tq_squeezed s"
| "list_of_kind QDisk s = tq_disk s"

fun set_list_of_kind :: "queue_kind \<Rightarrow> dll \<Rightarrow> liquid_queue_state \<Rightarrow> liquid_queue_state" where
  "set_list_of_kind QArrow l s = s\<lparr>tq_arrow := l\<rparr>"
| "set_list_of_kind QLiquid l s = s\<lparr>tq_liquid := l\<rparr>"
| "set_list_of_kind QSqueezed l s = s\<lparr>tq_squeezed := l\<rparr>"
| "set_list_of_kind QDisk l s = s\<lparr>tq_disk := l\<rparr>"

definition tq_push_back :: "queue_kind \<Rightarrow> ptr \<Rightarrow> liquid_queue_state \<Rightarrow> liquid_queue_state option" where
  "tq_push_back queue p s = do {
     n \<leftarrow> deref (tq_heap s) p;
     let h = store p (n\<lparr>ndata := (ndata n)\<lparr>tn_queue := queue\<rparr>\<rparr>) (tq_heap s);
     (h', l') \<leftarrow> push_back p h (list_of_kind queue s);
     Some (set_list_of_kind queue l' (s\<lparr>tq_heap := h'\<rparr>))
   }"

definition detach :: "ptr \<Rightarrow> liquid_queue_state \<Rightarrow> liquid_queue_state option" where
  "detach p s = do {
     n \<leftarrow> deref (tq_heap s) p;
     let queue = tn_queue (ndata n);
     (h', l') \<leftarrow> unlink p (tq_heap s) (list_of_kind queue s);
     Some (set_list_of_kind queue l' (s\<lparr>tq_heap := h'\<rparr>))
   }"

definition upsert_into_queue :: "entry_id \<Rightarrow> queue_kind \<Rightarrow> liquid_queue_state \<Rightarrow> liquid_queue_state option" where
  "upsert_into_queue i target s =
     (case tq_map s i of
        Some p \<Rightarrow> do { s1 \<leftarrow> detach p s; tq_push_back target p s1 }
      | None \<Rightarrow>
          (let (p, h) = node_new \<lparr>tn_entry_id = i, tn_queue = target\<rparr> (tq_heap s) in
           tq_push_back target p (s\<lparr>tq_heap := h, tq_map := (tq_map s)(i \<mapsto> p)\<rparr>)))"

definition tq_pop_front :: "queue_kind \<Rightarrow> liquid_queue_state \<Rightarrow> (entry_id option \<times> liquid_queue_state) option" where
  "tq_pop_front queue s =
     (case head (list_of_kind queue s) of
        None \<Rightarrow> Some (None, s)
      | Some head_ptr \<Rightarrow> do {
          n \<leftarrow> deref (tq_heap s) head_ptr;
          let i = tn_entry_id (ndata n);
          node_ptr \<leftarrow> tq_map s i;
          (h1, l1) \<leftarrow> unlink node_ptr (tq_heap s) (list_of_kind queue s);
          h2 \<leftarrow> drop_boxed_node node_ptr h1;
          Some (Some i, set_list_of_kind queue l1
                          (s\<lparr>tq_map := (tq_map s)(i := None), tq_heap := h2\<rparr>))
        })"

text \<open>
  The loop \<open>while victims.len() < cnt\<close>: each turn that goes on adds one victim, so it is a
  recursion on the victims still wanted.
\<close>

fun tq_victim_loop :: "nat \<Rightarrow> liquid_queue_state \<Rightarrow> (entry_id list \<times> liquid_queue_state) option" where
  "tq_victim_loop 0 s = Some ([], s)"
| "tq_victim_loop (Suc want) s = do {
     (a, s1) \<leftarrow> tq_pop_front QArrow s;
     (case a of
        Some i \<Rightarrow> do { (vs, s') \<leftarrow> tq_victim_loop want s1; Some (i # vs, s') }
      | None \<Rightarrow> do {
          (b, s2) \<leftarrow> tq_pop_front QLiquid s1;
          (case b of
             Some i \<Rightarrow> do { (vs, s') \<leftarrow> tq_victim_loop want s2; Some (i # vs, s') }
           | None \<Rightarrow> do {
               (c, s3) \<leftarrow> tq_pop_front QSqueezed s2;
               (case c of
                  Some i \<Rightarrow> do { (vs, s') \<leftarrow> tq_victim_loop want s3; Some (i # vs, s') }
                | None \<Rightarrow> Some ([], s3))
             })
        })
   }"

definition liquid_find_victim :: "nat \<Rightarrow> liquid_queue_state \<Rightarrow> (entry_id list \<times> liquid_queue_state) option" where
  "liquid_find_victim cnt s = (if cnt = 0 then Some ([], s) else tq_victim_loop cnt s)"

fun kind_of_batch :: "batch_type \<Rightarrow> queue_kind" where
  "kind_of_batch BT_MemoryArrow = QArrow"
| "kind_of_batch BT_MemoryLiquid = QLiquid"
| "kind_of_batch BT_MemorySqueezedLiquid = QSqueezed"
| "kind_of_batch BT_DiskLiquid = QDisk"
| "kind_of_batch BT_DiskArrow = QDisk"

definition liquid_notify_insert :: "entry_id \<Rightarrow> batch_type \<Rightarrow> liquid_queue_state \<Rightarrow> liquid_queue_state option" where
  "liquid_notify_insert i t s = upsert_into_queue i (kind_of_batch t) s"

definition liquid_notify_access :: "entry_id \<Rightarrow> batch_type \<Rightarrow> liquid_queue_state \<Rightarrow> liquid_queue_state option" where
  "liquid_notify_access _ _ s = Some s"

definition liquid_ops :: "liquid_queue_state policy_ops" where
  "liquid_ops = \<lparr>op_find_victim = liquid_find_victim, op_notify_insert = liquid_notify_insert,
                 op_notify_access = liquid_notify_access\<rparr>"

section \<open>Representation\<close>

definition all_ptrs :: "(queue_kind \<Rightarrow> ptr list) \<Rightarrow> ptr list" where
  "all_ptrs P = P QArrow @ P QLiquid @ P QSqueezed @ P QDisk"

definition lists_rep :: "liquid_queue_state \<Rightarrow> (queue_kind \<Rightarrow> ptr list) \<Rightarrow> bool" where
  "lists_rep s P \<longleftrightarrow> (\<forall>q. dll_rep (tq_heap s) (list_of_kind q s) (P q)
     \<and> (\<forall>p \<in> set (P q). map_option tn_queue (payload (tq_heap s) p) = Some q))"

definition tq_ptrs :: "liquid_queue_state \<Rightarrow> (queue_kind \<Rightarrow> ptr list) \<Rightarrow> bool" where
  "tq_ptrs s P \<longleftrightarrow> lists_rep s P \<and> keyed tn_entry_id (tq_map s) (tq_heap s) (all_ptrs P)"

definition tq_keys :: "liquid_queue_state \<Rightarrow> (queue_kind \<Rightarrow> ptr list) \<Rightarrow> queue_kind \<Rightarrow> entry_id list" where
  "tq_keys s P q = keys_of tn_entry_id (tq_heap s) (P q)"

definition tq_rep :: "liquid_queue_state \<Rightarrow> (queue_kind \<Rightarrow> entry_id list) \<Rightarrow> bool" where
  "tq_rep s xs \<longleftrightarrow> (\<exists>P. tq_ptrs s P \<and> xs = tq_keys s P)"

definition evictable :: "(queue_kind \<Rightarrow> entry_id list) \<Rightarrow> entry_id list" where
  "evictable xs = xs QArrow @ xs QLiquid @ xs QSqueezed"

text \<open>The specification of an insert and of a run of victims on the four lists.\<close>

definition spec_upsert :: "entry_id \<Rightarrow> queue_kind \<Rightarrow> (queue_kind \<Rightarrow> entry_id list) \<Rightarrow> queue_kind \<Rightarrow> entry_id list" where
  "spec_upsert i t xs q = (if q = t then remove1 i (xs q) @ [i] else remove1 i (xs q))"

definition spec_drop :: "nat \<Rightarrow> (queue_kind \<Rightarrow> entry_id list) \<Rightarrow> queue_kind \<Rightarrow> entry_id list" where
  "spec_drop n xs q = (case q of
       QArrow \<Rightarrow> drop n (xs QArrow)
     | QLiquid \<Rightarrow> drop (n - length (xs QArrow)) (xs QLiquid)
     | QSqueezed \<Rightarrow> drop (n - length (xs QArrow) - length (xs QLiquid)) (xs QSqueezed)
     | QDisk \<Rightarrow> xs QDisk)"

definition tq_inv :: "liquid_queue_state \<Rightarrow> bool" where
  "tq_inv s \<longleftrightarrow> (\<exists>xs. tq_rep s xs)"

definition tq_tracked :: "liquid_queue_state \<Rightarrow> entry_id set" where
  "tq_tracked s = dom (tq_map s)"

text \<open>How much squeezing the queues still allow: an Arrow batch can be squeezed three times
  at most before it is on disk, a Liquid batch twice, a squeezed batch once.\<close>

fun kind_weight :: "queue_kind \<Rightarrow> nat" where
  "kind_weight QArrow = 3"
| "kind_weight QLiquid = 2"
| "kind_weight QSqueezed = 1"
| "kind_weight QDisk = 0"

definition tq_pressure :: "(queue_kind \<Rightarrow> entry_id list) \<Rightarrow> nat" where
  "tq_pressure xs = 3 * length (xs QArrow) + 2 * length (xs QLiquid) + length (xs QSqueezed)"

section \<open>The lists of one heap\<close>

lemma list_of_set [simp]:
  "list_of_kind q (set_list_of_kind q' l s) = (if q = q' then l else list_of_kind q s)"
  "tq_heap (set_list_of_kind q' l s) = tq_heap s"
  "tq_map (set_list_of_kind q' l s) = tq_map s"
  "list_of_kind q (s\<lparr>tq_heap := h\<rparr>) = list_of_kind q s"
  "list_of_kind q (s\<lparr>tq_map := m\<rparr>) = list_of_kind q s"
  by (cases q'; cases q; simp)+

lemma UNIV_queue_kind: "(UNIV :: queue_kind set) = {QArrow, QLiquid, QSqueezed, QDisk}"
  by (auto intro: queue_kind.exhaust)

lemma all_ptrs_mem: "p \<in> set (all_ptrs P) \<longleftrightarrow> (\<exists>q. p \<in> set (P q))"
  by (auto simp: all_ptrs_def) (metis queue_kind.exhaust)

lemma set_all_ptrs: "set (all_ptrs P) = (\<Union>q. set (P q))"
  using all_ptrs_mem [of _ P] by auto

lemma all_ptrs_disjoint:
  "distinct (all_ptrs P) \<Longrightarrow> q \<noteq> q' \<Longrightarrow> set (P q) \<inter> set (P q') = {}"
  by (cases q; cases q') (auto simp: all_ptrs_def)

lemma all_ptrs_distinct:
  "distinct (all_ptrs P) \<longleftrightarrow> (\<forall>q. distinct (P q)) \<and> (\<forall>q q'. q \<noteq> q' \<longrightarrow> set (P q) \<inter> set (P q') = {})"
  (is "?l = ?r")
proof
  assume ?l
  then have "distinct (P q)" for q by (cases q) (auto simp: all_ptrs_def)
  with \<open>?l\<close> all_ptrs_disjoint show ?r by blast
next
  assume r: ?r
  have "set (P QArrow) \<inter> set (P QLiquid) = {}" "set (P QArrow) \<inter> set (P QSqueezed) = {}"
    "set (P QArrow) \<inter> set (P QDisk) = {}" "set (P QLiquid) \<inter> set (P QSqueezed) = {}"
    "set (P QLiquid) \<inter> set (P QDisk) = {}" "set (P QSqueezed) \<inter> set (P QDisk) = {}"
    using r by auto
  with r show ?l by (auto simp: all_ptrs_def)
qed

lemma lists_rep_rep: "lists_rep s P \<Longrightarrow> dll_rep (tq_heap s) (list_of_kind q s) (P q)"
  by (simp add: lists_rep_def)

lemma lists_rep_queue: "lists_rep s P \<Longrightarrow> p \<in> set (P q) \<Longrightarrow> map_option tn_queue (payload (tq_heap s) p) = Some q"
  by (simp add: lists_rep_def)

text \<open>Replacing one list, when only its nodes and one free node were touched.\<close>

lemma lists_rep_update:
  assumes "lists_rep s P" and "dll_rep h' l' ps'"
    and "\<And>q p. q \<noteq> t \<Longrightarrow> p \<in> set (P q) \<Longrightarrow> cells h' p = cells (tq_heap s) p"
    and "\<And>p. p \<in> set ps' \<Longrightarrow> map_option tn_queue (payload h' p) = Some t"
  shows "lists_rep (set_list_of_kind t l' (s\<lparr>tq_heap := h'\<rparr>)) (P(t := ps'))"
proof -
  have "dll_rep h' (list_of_kind q s) (P q)" if "q \<noteq> t" for q
    using lists_rep_rep [OF assms(1), of q] assms(3) [OF that] by (rule dll_rep_frame)
  moreover have "map_option tn_queue (payload h' p) = Some q" if "q \<noteq> t" "p \<in> set (P q)" for q p
    using lists_rep_queue [OF assms(1) that(2)] assms(3) [OF that] by (simp add: payload_def)
  ultimately show ?thesis using assms(2,4) by (simp add: lists_rep_def)
qed


lemma tq_push_back_rep:
  assumes "lists_rep s P" and "payload (tq_heap s) p = Some d" and "\<And>q. p \<notin> set (P q)"
  shows "\<exists>s'. tq_push_back t p s = Some s' \<and> lists_rep s' (P(t := P t @ [p]))
    \<and> payload (tq_heap s') = (payload (tq_heap s))(p \<mapsto> d\<lparr>tn_queue := t\<rparr>)
    \<and> brk (tq_heap s') = brk (tq_heap s) \<and> tq_map s' = tq_map s"
proof -
  from assms(2) obtain n where n: "cells (tq_heap s) p = Some n" "ndata n = d"
    by (auto simp: payload_def)
  let ?h = "store p (n\<lparr>ndata := d\<lparr>tn_queue := t\<rparr>\<rparr>) (tq_heap s)"
  have frame: "dll_rep ?h (list_of_kind q s) (P q)" for q
    using lists_rep_rep [OF assms(1), of q] by (rule dll_rep_frame) (use assms(3) in auto)
  have "p \<in> dom (cells ?h)" by simp
  from push_back_rep [OF frame assms(3) this] obtain h' l' where
    f: "push_back p ?h (list_of_kind t s) = Some (h', l')" "dll_rep h' l' (P t @ [p])"
      "relinks (set (p # P t)) ?h h'" by blast
  have pay: "payload h' = (payload (tq_heap s))(p \<mapsto> d\<lparr>tn_queue := t\<rparr>)"
    using f(3) by (auto simp: relinks_def payload_def store_def fun_eq_iff)
  have "lists_rep (set_list_of_kind t l' (s\<lparr>tq_heap := h'\<rparr>)) (P(t := P t @ [p]))"
  proof (rule lists_rep_update [OF assms(1) f(2)])
    fix q r
    assume "q \<noteq> t" and r: "r \<in> set (P q)"
    have "r \<noteq> p" using assms(3) r by blast
    moreover have "r \<notin> set (P t)"
      using lists_rep_queue [OF assms(1) r] lists_rep_queue [OF assms(1), of r t] \<open>q \<noteq> t\<close> by auto
    ultimately show "cells h' r = cells (tq_heap s) r" using f(3) by (simp add: relinks_def)
  next
    fix r
    assume "r \<in> set (P t @ [p])"
    then show "map_option tn_queue (payload h' r) = Some t"
      using lists_rep_queue [OF assms(1), of r t] by (auto simp: pay)
  qed
  with f pay n show ?thesis by (auto simp: tq_push_back_def deref_def relinks_def Let_def)
qed

lemma detach_rep:
  assumes "lists_rep s P" and "p \<in> set (P q)"
  shows "\<exists>s'. detach p s = Some s' \<and> lists_rep s' (P(q := remove1 p (P q)))
    \<and> payload (tq_heap s') = payload (tq_heap s) \<and> brk (tq_heap s') = brk (tq_heap s)
    \<and> tq_map s' = tq_map s"
proof -
  from unlink_remove1 [OF lists_rep_rep [OF assms(1)] assms(2)] obtain h' l' where
    f: "unlink p (tq_heap s) (list_of_kind q s) = Some (h', l')"
      "dll_rep h' l' (remove1 p (P q))" "relinks (set (P q)) (tq_heap s) h'" by blast
  obtain n where n: "cells (tq_heap s) p = Some n" "tn_queue (ndata n) = q"
    using lists_rep_queue [OF assms] by (auto simp: payload_def)
  have "lists_rep (set_list_of_kind q l' (s\<lparr>tq_heap := h'\<rparr>)) (P(q := remove1 p (P q)))"
  proof (rule lists_rep_update [OF assms(1) f(2)])
    fix q' r
    assume "q' \<noteq> q" and r: "r \<in> set (P q')"
    then have "r \<notin> set (P q)"
      using lists_rep_queue [OF assms(1) r] lists_rep_queue [OF assms(1), of r q] by auto
    then show "cells h' r = cells (tq_heap s) r" using f(3) by (simp add: relinks_def)
  next
    fix r
    assume "r \<in> set (remove1 p (P q))"
    then have "r \<in> set (P q)" by (meson notin_set_remove1)
    then show "map_option tn_queue (payload h' r) = Some q"
      using lists_rep_queue [OF assms(1)] f(3) by (simp add: relinks_def)
  qed
  with f n show ?thesis by (auto simp: detach_def deref_def relinks_def Let_def)
qed

section \<open>Refinement\<close>

lemma tq_ptrs_parts:
  assumes "tq_ptrs s P"
  shows "lists_rep s P" and "keyed tn_entry_id (tq_map s) (tq_heap s) (all_ptrs P)"
    and "distinct (all_ptrs P)"
  using assms by (auto simp: tq_ptrs_def keyed_def)

lemma keys_of_remove1_other:
  assumes "keyed key m h ps" and "set qs \<subseteq> set ps" and "p \<in> set ps" and "p \<notin> set qs"
  shows "remove1 (key (the (payload h p))) (keys_of key h qs) = keys_of key h qs"
proof (rule remove1_idem)
  show "key (the (payload h p)) \<notin> set (keys_of key h qs)"
    using keyed_inj [OF assms(1)] assms(2-4) by (auto simp: keys_of_def data_of_def inj_on_def)
qed

lemma keys_of_remove1_part:
  assumes "keyed key m h ps" and "set qs \<subseteq> set ps" and "distinct qs" and "p \<in> set ps"
  shows "keys_of key h (remove1 p qs) = remove1 (key (the (payload h p))) (keys_of key h qs)"
proof (cases "p \<in> set qs")
  case True
  then obtain xs ys where qs: "qs = xs @ p # ys" and p: "p \<notin> set xs"
    by (meson split_list_first)
  have "key (the (payload h p)) \<notin> set (keys_of key h xs)"
    using keyed_inj [OF assms(1)] assms(2,4) qs p by (auto simp: keys_of_def data_of_def inj_on_def)
  with qs p show ?thesis by (simp add: remove1_split remove1_append)
next
  case False
  then show ?thesis
    using keys_of_remove1_other [OF assms(1,2,4) False] by (simp add: remove1_idem)
qed

lemma upsert_new_rep:
  assumes "tq_ptrs s P" and "tq_map s i = None"
  shows "\<exists>s' P'. upsert_into_queue i t s = Some s' \<and> tq_ptrs s' P'
    \<and> tq_keys s' P' = spec_upsert i t (tq_keys s P)"
proof -
  note parts = tq_ptrs_parts [OF assms(1)]
  let ?d = "\<lparr>tn_entry_id = i, tn_queue = t\<rparr>"
  obtain p h1 where new: "node_new ?d (tq_heap s) = (p, h1)" by fastforce
  let ?s = "s\<lparr>tq_heap := h1, tq_map := (tq_map s)(i \<mapsto> p)\<rparr>"
  have ok: "heap_ok (tq_heap s)" using parts(2) by (simp add: keyed_def)
  note nn = node_new_rep [OF lists_rep_rep [OF parts(1)] ok new]
  have k1: "keyed tn_entry_id ((tq_map s)(i \<mapsto> p)) h1 (p # all_ptrs P)"
    using keyed_new [OF parts(2) _ new] assms(2) by simp
  have fresh: "p \<notin> set (P q)" for q using k1 by (auto simp: keyed_def all_ptrs_mem)
  have pay1: "payload h1 r = payload (tq_heap s) r" if "r \<in> set (P q)" for r q
    using fresh [of q] that nn(5) by auto
  have "lists_rep ?s P"
    using nn(1) lists_rep_queue [OF parts(1)] pay1 by (simp add: lists_rep_def)
  from tq_push_back_rep [OF this, of p ?d t] fresh nn(5) obtain s' where
    f: "tq_push_back t p ?s = Some s'" "lists_rep s' (P(t := P t @ [p]))"
      "payload (tq_heap s') = payload h1" "brk (tq_heap s') = brk h1"
      "tq_map s' = (tq_map s)(i \<mapsto> p)" by auto
  have dist: "distinct (all_ptrs (P(t := P t @ [p])))"
    using parts(3) fresh unfolding all_ptrs_distinct by auto
  have set: "set (all_ptrs (P(t := P t @ [p]))) = set (p # all_ptrs P)"
    by (auto simp: set_eq_iff all_ptrs_mem split: if_splits)
  have "keyed tn_entry_id (tq_map s') (tq_heap s') (all_ptrs (P(t := P t @ [p])))"
    unfolding f(5) using k1 f(4) _ set dist by (rule keyed_cong) (simp add: f(3))
  then have ptrs: "tq_ptrs s' (P(t := P t @ [p]))" using f(2) by (simp add: tq_ptrs_def)
  have "i \<notin> set (tq_keys s P q)" for q
    using keyed_None [OF parts(2), of i] assms(2) all_ptrs_mem [of _ P]
    by (fastforce simp: tq_keys_def keys_of_def data_of_def)
  moreover have "tq_keys s' P q = tq_keys s P q" for q
    using pay1 f(3) unfolding tq_keys_def by (intro keys_of_cong) auto
  ultimately have "tq_keys s' (P(t := P t @ [p])) = spec_upsert i t (tq_keys s P)"
    using f(3) nn(5) by (auto simp: spec_upsert_def fun_eq_iff tq_keys_def remove1_idem)
  with ptrs f(1) new assms(2) show ?thesis by (auto simp: upsert_into_queue_def)
qed

lemma upsert_existing_rep:
  assumes "tq_ptrs s P" and "tq_map s i = Some p"
  shows "\<exists>s' P'. upsert_into_queue i t s = Some s' \<and> tq_ptrs s' P'
    \<and> tq_keys s' P' = spec_upsert i t (tq_keys s P)"
proof -
  note parts = tq_ptrs_parts [OF assms(1)]
  have p: "p \<in> set (all_ptrs P)" "tn_entry_id (the (payload (tq_heap s) p)) = i"
    using keyed_mem [OF parts(2) assms(2)] by auto
  then obtain q where q: "p \<in> set (P q)" by (auto simp: all_ptrs_mem)
  obtain d where d: "payload (tq_heap s) p = Some d" using keyed_live [OF parts(2) p(1)] by blast
  define P1 where "P1 = P(q := remove1 p (P q))"
  from detach_rep [OF parts(1) q] obtain s1 where
    s1: "detach p s = Some s1" "lists_rep s1 P1" "payload (tq_heap s1) = payload (tq_heap s)"
      "brk (tq_heap s1) = brk (tq_heap s)" "tq_map s1 = tq_map s" unfolding P1_def by blast
  have gone: "p \<notin> set (P1 r)" for r
    using parts(3) q unfolding all_ptrs_distinct P1_def by (cases "r = q") auto
  have P1r: "P1 r = remove1 p (P r)" for r
    using parts(3) q unfolding all_ptrs_distinct P1_def
    by (cases "r = q") (auto intro!: remove1_idem [symmetric])
  from tq_push_back_rep [OF s1(2), of p d t] d s1(3) gone obtain s' where
    f: "tq_push_back t p s1 = Some s'" "lists_rep s' (P1(t := P1 t @ [p]))"
      "payload (tq_heap s') = (payload (tq_heap s))(p \<mapsto> d\<lparr>tn_queue := t\<rparr>)"
      "brk (tq_heap s') = brk (tq_heap s)" "tq_map s' = tq_map s"
    using s1(4,5) by auto
  let ?P = "P1(t := P1 t @ [p])"
  have sub: "set (P1 r) = set (P r) - {p}" "distinct (P1 r)" for r
    using parts(3) P1r unfolding all_ptrs_distinct by auto
  have disj: "x \<notin> set (P r')" if "r \<noteq> r'" "x \<in> set (P r)" for r r' x
    using all_ptrs_disjoint [OF parts(3) that(1)] that(2) by blast
  have dist: "distinct (all_ptrs ?P)"
    using sub disj unfolding all_ptrs_distinct by auto
  have set: "set (all_ptrs ?P) = set (all_ptrs P)"
  proof -
    have "set (?P r) \<subseteq> insert p (\<Union>r. set (P r))" for r
      using sub by auto
    then have "(\<Union>r. set (?P r)) \<subseteq> insert p (\<Union>r. set (P r))" by (rule UN_least)
    moreover have "set (P r) \<subseteq> insert p (set (?P r))" for r
      using sub by auto
    then have "(\<Union>r. set (P r)) \<subseteq> insert p (\<Union>r. set (?P r))" by fast
    moreover have "p \<in> set (?P t)" by simp
    then have "p \<in> (\<Union>r. set (?P r))" by fast
    ultimately show ?thesis using p(1) unfolding set_all_ptrs by auto
  qed
  have "keyed tn_entry_id (tq_map s') (tq_heap s') (all_ptrs ?P)"
    unfolding f(5) using parts(2) f(4) _ set dist by (rule keyed_cong) (use d in \<open>simp add: f(3)\<close>)
  then have ptrs: "tq_ptrs s' ?P" using f(2) by (simp add: tq_ptrs_def)
  have "tq_keys s' P1 r = tq_keys s P1 r" for r
    using gone f(3) unfolding tq_keys_def by (intro keys_of_cong) auto
  moreover have "tq_keys s P1 r = remove1 i (tq_keys s P r)" for r
    using keys_of_remove1_part [OF parts(2) _ _ p(1), of "P r"] parts(3) p(2)
    unfolding tq_keys_def P1r all_ptrs_distinct set_all_ptrs by auto
  ultimately have "tq_keys s' ?P = spec_upsert i t (tq_keys s P)"
    using f(3) d p(2) by (auto simp: spec_upsert_def fun_eq_iff tq_keys_def)
  with ptrs f(1) s1(1) assms(2) show ?thesis by (auto simp: upsert_into_queue_def)
qed

lemma upsert_into_queue_rep [abs_simps]:
  "tq_rep s xs \<Longrightarrow> \<exists>s'. upsert_into_queue i t s = Some s' \<and> tq_rep s' (spec_upsert i t xs)"
  unfolding tq_rep_def
  by (cases "tq_map s i") (metis upsert_new_rep, metis upsert_existing_rep)


lemma tq_rep_dom: "tq_rep s xs \<Longrightarrow> dom (tq_map s) = (\<Union>q. set (xs q))"
proof -
  assume "tq_rep s xs"
  then obtain P where P: "tq_ptrs s P" "xs = tq_keys s P" by (auto simp: tq_rep_def)
  have "set (keys_of tn_entry_id (tq_heap s) (all_ptrs P)) = (\<Union>q. set (xs q))"
    unfolding P(2) tq_keys_def keys_of_def data_of_def by (simp add: set_all_ptrs image_UN)
  with keyed_dom [OF tq_ptrs_parts(2) [OF P(1)]] show ?thesis by simp
qed

lemma tq_rep_distinct:
  assumes "tq_rep s xs"
  shows "distinct (xs QArrow @ xs QLiquid @ xs QSqueezed @ xs QDisk)"
proof -
  from assms obtain P where P: "tq_ptrs s P" "xs = tq_keys s P" by (auto simp: tq_rep_def)
  show ?thesis
    using keyed_distinct [OF tq_ptrs_parts(2) [OF P(1)]]
    by (simp add: P(2) tq_keys_def all_ptrs_def)
qed

lemma tq_pop_front_rep [abs_simps]:
  assumes "tq_rep s xs"
  shows "\<exists>s'. tq_pop_front q s = Some (first_or (xs q) None, s') \<and> tq_rep s' (xs(q := tl (xs q)))"
proof -
  from assms obtain P where P: "tq_ptrs s P" "xs = tq_keys s P" by (auto simp: tq_rep_def)
  note parts = tq_ptrs_parts [OF P(1)]
  have rep: "dll_rep (tq_heap s) (list_of_kind q s) (P q)" by (rule lists_rep_rep [OF parts(1)])
  show ?thesis
  proof (cases "P q")
    case Nil
    then have "xs q = []" by (simp add: P(2) tq_keys_def)
    moreover from this have "xs(q := tl (xs q)) = xs" by (simp add: fun_eq_iff)
    ultimately show ?thesis
      using rep Nil assms by (simp add: tq_pop_front_def dll_rep_head)
  next
    case (Cons p qs)
    let ?i = "tn_entry_id (the (payload (tq_heap s) p))"
    have p: "p \<in> set (P q)" "remove1 p (P q) = qs" using Cons by auto
    have pa: "p \<in> set (all_ptrs P)" using p(1) by (auto simp: all_ptrs_mem)
    obtain n where n: "cells (tq_heap s) p = Some n" "?i = tn_entry_id (ndata n)"
      using keyed_live [OF parts(2) pa] by (auto simp: payload_def)
    have lk: "tq_map s ?i = Some p" by (rule keyed_lookup [OF parts(2) pa])
    from unlink_remove1 [OF rep p(1)] obtain h1 l1 where
      u: "unlink p (tq_heap s) (list_of_kind q s) = Some (h1, l1)" "dll_rep h1 l1 qs"
        "relinks (set (P q)) (tq_heap s) h1" unfolding p(2) by blast
    have out: "p \<notin> set qs" "p \<in> dom (cells h1)"
      using dll_rep_distinct [OF rep] Cons relinks_dom [OF u(3)] n by auto
    from drop_boxed_node_rep [OF u(2) out] obtain h2 where
      h2: "drop_boxed_node p h1 = Some h2" "dll_rep h2 l1 qs" "cells h2 = (cells h1)(p := None)"
        "brk h2 = brk h1" by blast
    let ?s = "set_list_of_kind q l1 (s\<lparr>tq_map := (tq_map s)(?i := None), tq_heap := h2\<rparr>)"
    have pay: "payload h2 = (payload (tq_heap s))(p := None)"
      using h2(3) relinks_payload [OF u(3)] by (auto simp: payload_def fun_eq_iff)
    have sep: "r \<notin> set (P q)" if "q' \<noteq> q" "r \<in> set (P q')" for q' r
      using that lists_rep_queue [OF parts(1)] by (metis option.inject)
    have "lists_rep (set_list_of_kind q l1 (s\<lparr>tq_heap := h2\<rparr>)) (P(q := qs))"
    proof (rule lists_rep_update [OF parts(1) h2(2)])
      fix q' r
      assume "q' \<noteq> q" "r \<in> set (P q')"
      with sep p(1) u(3) h2(3) show "cells h2 r = cells (tq_heap s) r" by (auto simp: relinks_def)
    next
      fix r
      assume "r \<in> set qs"
      with Cons out(1) lists_rep_queue [OF parts(1), of r q]
      show "map_option tn_queue (payload h2 r) = Some q" by (auto simp: pay)
    qed
    then have lists: "lists_rep ?s (P(q := qs))" unfolding lists_rep_def list_of_set by simp
    have "keyed tn_entry_id (tq_map s) h1 (all_ptrs P)"
      using parts(2) u(3) by (rule keyed_relinks) (use parts(3) in auto)
    from keyed_drop [OF this pa h2(3,4)]
    have k: "keyed tn_entry_id ((tq_map s)(?i := None)) h2 (remove1 p (all_ptrs P))"
      using relinks_payload [OF u(3)] by simp
    have rm: "remove1 p (all_ptrs P) = all_ptrs (P(q := qs))"
      using sep [of _ p] p by (cases q) (auto simp: all_ptrs_def remove1_append)
    have "tq_ptrs ?s (P(q := qs))" using lists k rm by (simp add: tq_ptrs_def)
    moreover have "tq_keys ?s (P(q := qs)) q' = (xs(q := tl (xs q))) q'" for q'
    proof (cases "q' = q")
      case True
      then have "tq_keys ?s (P(q := qs)) q' = keys_of tn_entry_id (tq_heap s) qs"
        using out(1) by (auto simp: tq_keys_def pay intro!: keys_of_cong)
      with True Cons show ?thesis by (simp add: P(2) tq_keys_def)
    next
      case False
      then have "tq_keys ?s (P(q := qs)) q' = keys_of tn_entry_id (tq_heap s) (P q')"
        using sep p(1) by (auto simp: tq_keys_def pay intro!: keys_of_cong)
      with False show ?thesis by (simp add: P(2) tq_keys_def)
    qed
    ultimately have "tq_rep ?s (xs(q := tl (xs q)))" by (auto simp: tq_rep_def fun_eq_iff)
    moreover have "tq_pop_front q s = Some (Some ?i, ?s)"
      using dll_rep_head [OF rep] Cons n lk u h2 by (simp add: tq_pop_front_def deref_def Let_def)
    ultimately show ?thesis using Cons by (simp add: P(2) tq_keys_def)
  qed
qed

text \<open>Taking one victim from the first queue that has one.\<close>

lemma spec_pop:
  "xs QArrow = i # ys \<Longrightarrow> spec_drop n (xs(QArrow := ys)) = spec_drop (Suc n) xs"
  "xs QArrow = [] \<Longrightarrow> xs QLiquid = i # ys \<Longrightarrow>
     spec_drop n (xs(QLiquid := ys)) = spec_drop (Suc n) xs"
  "xs QArrow = [] \<Longrightarrow> xs QLiquid = [] \<Longrightarrow> xs QSqueezed = i # ys \<Longrightarrow>
     spec_drop n (xs(QSqueezed := ys)) = spec_drop (Suc n) xs"
  by (auto simp: spec_drop_def fun_eq_iff split: queue_kind.split)

lemma evictable_pop:
  "xs QArrow = i # ys \<Longrightarrow> evictable xs = i # evictable (xs(QArrow := ys))"
  "xs QArrow = [] \<Longrightarrow> xs QLiquid = i # ys \<Longrightarrow> evictable xs = i # evictable (xs(QLiquid := ys))"
  "xs QArrow = [] \<Longrightarrow> xs QLiquid = [] \<Longrightarrow> xs QSqueezed = i # ys \<Longrightarrow>
     evictable xs = i # evictable (xs(QSqueezed := ys))"
  by (simp_all add: evictable_def)

lemma evictable_Nil: "evictable xs = [] \<Longrightarrow> spec_drop n xs = xs"
  by (auto simp: spec_drop_def evictable_def fun_eq_iff split: queue_kind.split)

lemma tq_pop_front_cons:
  assumes "tq_rep s xs" and "xs q = i # ys"
  shows "\<exists>s'. tq_pop_front q s = Some (Some i, s') \<and> tq_rep s' (xs(q := ys))"
  using tq_pop_front_rep [OF assms(1), of q] assms(2) by simp

lemma tq_pop_front_nil:
  assumes "tq_rep s xs" and "xs q = []"
  shows "\<exists>s'. tq_pop_front q s = Some (None, s') \<and> tq_rep s' xs"
proof -
  have "xs(q := tl (xs q)) = xs" using assms(2) by (simp add: fun_eq_iff)
  with tq_pop_front_rep [OF assms(1), of q] assms(2) show ?thesis by simp
qed

lemma tq_victim_loop_rep:
  "tq_rep s xs \<Longrightarrow> \<exists>s'. tq_victim_loop n s = Some (take n (evictable xs), s') \<and> tq_rep s' (spec_drop n xs)"
proof (induction n arbitrary: s xs)
  case 0
  have "spec_drop 0 xs = xs" by (auto simp: spec_drop_def fun_eq_iff split: queue_kind.split)
  with 0 show ?case by simp
next
  case (Suc n)
  show ?case
  proof (cases "xs QArrow")
    case (Cons i ys)
    from tq_pop_front_cons [OF Suc.prems Cons] obtain s1 where
      s1: "tq_pop_front QArrow s = Some (Some i, s1)" "tq_rep s1 (xs(QArrow := ys))" by blast
    obtain s' where "tq_victim_loop n s1 = Some (take n (tl (evictable xs)), s')"
      "tq_rep s' (spec_drop (Suc n) xs)"
      using Suc.IH [OF s1(2), unfolded spec_pop(1) [of xs, OF Cons]]
      unfolding evictable_pop(1) [of xs, OF Cons] list.sel by blast
    with s1(1) show ?thesis
      by (simp add: evictable_pop(1) [of xs, OF Cons])
  next
    case A: Nil
    from tq_pop_front_nil [OF Suc.prems A] obtain s1 where
      s1: "tq_pop_front QArrow s = Some (None, s1)" "tq_rep s1 xs" by blast
    show ?thesis
    proof (cases "xs QLiquid")
      case (Cons i ys)
      from tq_pop_front_cons [OF s1(2) Cons] obtain s2 where
        s2: "tq_pop_front QLiquid s1 = Some (Some i, s2)" "tq_rep s2 (xs(QLiquid := ys))" by blast
      obtain s' where "tq_victim_loop n s2 = Some (take n (tl (evictable xs)), s')"
        "tq_rep s' (spec_drop (Suc n) xs)"
        using Suc.IH [OF s2(2), unfolded spec_pop(2) [of xs, OF A Cons]]
        unfolding evictable_pop(2) [of xs, OF A Cons] list.sel by blast
      with s1(1) s2(1) show ?thesis
        by (simp add: evictable_pop(2) [of xs, OF A Cons])
    next
      case B: Nil
      from tq_pop_front_nil [OF s1(2) B] obtain s2 where
        s2: "tq_pop_front QLiquid s1 = Some (None, s2)" "tq_rep s2 xs" by blast
      show ?thesis
      proof (cases "xs QSqueezed")
        case (Cons i ys)
        from tq_pop_front_cons [OF s2(2) Cons] obtain s3 where
          s3: "tq_pop_front QSqueezed s2 = Some (Some i, s3)" "tq_rep s3 (xs(QSqueezed := ys))"
          by blast
        obtain s' where "tq_victim_loop n s3 = Some (take n (tl (evictable xs)), s')"
          "tq_rep s' (spec_drop (Suc n) xs)"
          using Suc.IH [OF s3(2), unfolded spec_pop(3) [of xs, OF A B Cons]]
          unfolding evictable_pop(3) [of xs, OF A B Cons] list.sel by blast
        with s1(1) s2(1) s3(1) show ?thesis
          by (simp add: evictable_pop(3) [of xs, OF A B Cons])
      next
        case C: Nil
        from tq_pop_front_nil [OF s2(2) C] obtain s3 where
          s3: "tq_pop_front QSqueezed s2 = Some (None, s3)" "tq_rep s3 xs" by blast
        have e: "evictable xs = []" using A B C by (simp add: evictable_def)
        with s1(1) s2(1) s3 show ?thesis by (simp add: evictable_Nil)
      qed
    qed
  qed
qed

lemma liquid_find_victim_rep [abs_simps]:
  "tq_rep s xs \<Longrightarrow> \<exists>s'. liquid_find_victim n s = Some (take n (evictable xs), s')
    \<and> tq_rep s' (spec_drop n xs)"
  using tq_victim_loop_rep [of s xs n] by (auto simp: liquid_find_victim_def)


section \<open>Pressure\<close>

text \<open>Queue an entry is in, as a weight; entries that are on disk or not tracked weigh nothing.\<close>

definition queue_weight :: "(queue_kind \<Rightarrow> entry_id list) \<Rightarrow> entry_id \<Rightarrow> nat" where
  "queue_weight xs i = (if i \<in> set (xs QArrow) then 3 else if i \<in> set (xs QLiquid) then 2
     else if i \<in> set (xs QSqueezed) then 1 else 0)"

lemma sum_list_const: "(\<And>x. x \<in> set xs \<Longrightarrow> f x = (c::nat)) \<Longrightarrow> sum_list (map f xs) = c * length xs"
  by (induction xs) auto

lemma tq_pressure_sum:
  assumes "distinct (evictable xs)"
  shows "tq_pressure xs = sum_list (map (queue_weight xs) (evictable xs))"
proof -
  have "sum_list (map (queue_weight xs) (xs QArrow)) = 3 * length (xs QArrow)"
    by (rule sum_list_const) (simp add: queue_weight_def)
  moreover have "sum_list (map (queue_weight xs) (xs QLiquid)) = 2 * length (xs QLiquid)"
    using assms by (intro sum_list_const) (auto simp: queue_weight_def evictable_def)
  moreover have "sum_list (map (queue_weight xs) (xs QSqueezed)) = 1 * length (xs QSqueezed)"
    using assms by (intro sum_list_const) (auto simp: queue_weight_def evictable_def)
  ultimately show ?thesis by (simp add: tq_pressure_def evictable_def)
qed

lemma evictable_spec_drop: "evictable (spec_drop n xs) = drop n (evictable xs)"
  by (simp add: evictable_def spec_drop_def)

lemma queue_weight_spec_drop:
  assumes "distinct (evictable xs)" and "i \<in> set (drop n (evictable xs))"
  shows "queue_weight (spec_drop n xs) i = queue_weight xs i"
proof -
  have sub: "set (spec_drop n xs q) \<subseteq> set (xs q)" for q
    by (cases q) (auto simp: spec_drop_def dest: in_set_dropD)
  have "i \<in> set (evictable (spec_drop n xs))" using assms(2) by (simp add: evictable_spec_drop)
  moreover have disj: "set (xs QArrow) \<inter> set (xs QLiquid) = {}"
    "set (xs QArrow) \<inter> set (xs QSqueezed) = {}" "set (xs QLiquid) \<inter> set (xs QSqueezed) = {}"
    using assms(1) by (auto simp: evictable_def)
  ultimately show ?thesis
    using sub [of QArrow] sub [of QLiquid] sub [of QSqueezed]
    by (auto simp: queue_weight_def evictable_def)
qed

lemma tq_pressure_victims:
  assumes "distinct (evictable xs)"
  shows "tq_pressure xs = tq_pressure (spec_drop n xs)
    + sum_list (map (queue_weight xs) (take n (evictable xs)))"
proof -
  have d: "distinct (evictable (spec_drop n xs))" using assms by (simp add: evictable_spec_drop)
  have "map (queue_weight (spec_drop n xs)) (drop n (evictable xs))
      = map (queue_weight xs) (drop n (evictable xs))"
    using queue_weight_spec_drop [OF assms] by simp
  then have "tq_pressure (spec_drop n xs) = sum_list (map (queue_weight xs) (drop n (evictable xs)))"
    using tq_pressure_sum [OF d] unfolding evictable_spec_drop by (simp only:)
  moreover have "sum_list (map (queue_weight xs) (evictable xs))
      = sum_list (map (queue_weight xs) (take n (evictable xs)))
      + sum_list (map (queue_weight xs) (drop n (evictable xs)))"
    by (metis append_take_drop_id map_append sum_list_append)
  ultimately show ?thesis using tq_pressure_sum [OF assms] by simp
qed

lemma queue_weight_pos: "i \<in> set (evictable xs) \<Longrightarrow> 0 < queue_weight xs i"
  by (auto simp: queue_weight_def evictable_def)

lemma tq_pressure_upsert:
  assumes "\<And>q. i \<notin> set (xs q)"
  shows "tq_pressure (spec_upsert i t xs) = tq_pressure xs + kind_weight t"
  using assms by (cases t) (simp_all add: tq_pressure_def spec_upsert_def remove1_idem)

lemma tq_rep_evictable_distinct: "tq_rep s xs \<Longrightarrow> distinct (evictable xs)"
  using tq_rep_distinct [of s xs] by (auto simp: evictable_def)

section \<open>The contract\<close>

lemma all_kinds_Un: "(\<Union>q. set (ys q)) = set (evictable ys) \<union> set (ys QDisk)"
  unfolding UNIV_queue_kind by (auto simp: evictable_def)

lemma spec_drop_sets:
  assumes "distinct (xs QArrow @ xs QLiquid @ xs QSqueezed @ xs QDisk)"
  shows "(\<Union>q. set (spec_drop n xs q)) = (\<Union>q. set (xs q)) - set (take n (evictable xs))"
proof -
  have "distinct (evictable xs)" "set (evictable xs) \<inter> set (xs QDisk) = {}"
    using assms by (auto simp: evictable_def)
  moreover from this have "set (take n (evictable xs)) \<inter> set (xs QDisk) = {}"
    using set_take_subset [of n "evictable xs"] by blast
  moreover have "spec_drop n xs QDisk = xs QDisk" by (simp add: spec_drop_def)
  ultimately show ?thesis
    unfolding all_kinds_Un evictable_spec_drop using set_drop_distinct [of "evictable xs" n] by auto
qed


lemma spec_upsert_sets:
  assumes "\<And>q. distinct (xs q)"
  shows "(\<Union>q. set (spec_upsert i t xs q)) = insert i (\<Union>q. set (xs q))"
proof -
  have "set (spec_upsert i t xs q) = set (xs q) - {i} \<union> (if q = t then {i} else {})" for q
    using assms by (auto simp: spec_upsert_def)
  then show ?thesis unfolding UNIV_queue_kind by (cases t) auto
qed

lemma tq_rep_distinct_each: "tq_rep s xs \<Longrightarrow> distinct (xs q)"
  using tq_rep_distinct [of s xs] by (cases q) auto

lemma tq_repD: "tq_rep s xs \<Longrightarrow> tq_inv s \<and> tq_tracked s = (\<Union>q. set (xs q))"
  using tq_rep_dom [of s xs] by (auto simp: tq_inv_def tq_tracked_def)

interpretation liquid: exclusive_policy liquid_ops tq_inv tq_tracked
proof unfold_locales
  fix p n
  assume "tq_inv p"
  then obtain xs where xs: "tq_rep p xs" by (auto simp: tq_inv_def)
  obtain s' where s': "liquid_find_victim n p = Some (take n (evictable xs), s')"
    "tq_rep s' (spec_drop n xs)" using liquid_find_victim_rep [OF xs] by blast
  have sets: "tq_tracked p = (\<Union>q. set (xs q))"
    "tq_tracked s' = (\<Union>q. set (xs q)) - set (take n (evictable xs))"
    using tq_repD [OF xs] tq_repD [OF s'(2)] spec_drop_sets [OF tq_rep_distinct [OF xs]] by auto
  have vs: "set (take n (evictable xs)) \<subseteq> (\<Union>q. set (xs q))"
    using set_take_subset [of n "evictable xs"] unfolding all_kinds_Un by blast
  show "\<exists>vs p'. op_find_victim liquid_ops n p = Some (vs, p') \<and> tq_inv p'
      \<and> set vs \<subseteq> tq_tracked p \<and> tq_tracked p' \<subseteq> tq_tracked p \<and> length vs \<le> n"
    using s' sets vs tq_repD [OF s'(2)] by (auto simp: liquid_ops_def)
  fix vs p'
  assume "op_find_victim liquid_ops n p = Some (vs, p')"
  with s' sets distinct_take [OF tq_rep_evictable_distinct [OF xs], of n]
  show "distinct vs \<and> tq_tracked p' = tq_tracked p - set vs"
    by (auto simp: liquid_ops_def)
next
  fix p i t
  assume "tq_inv p"
  then obtain xs where xs: "tq_rep p xs" by (auto simp: tq_inv_def)
  obtain q where q: "upsert_into_queue i (kind_of_batch t) p = Some q"
    "tq_rep q (spec_upsert i (kind_of_batch t) xs)"
    using upsert_into_queue_rep [OF xs] by blast
  then show "\<exists>p'. op_notify_insert liquid_ops i t p = Some p' \<and> tq_inv p'
      \<and> tq_tracked p' = insert i (tq_tracked p)"
    using tq_repD [OF q(2)] tq_repD [OF xs] spec_upsert_sets [OF tq_rep_distinct_each [OF xs]]
    by (simp add: liquid_ops_def liquid_notify_insert_def)
  show "\<exists>p'. op_notify_access liquid_ops i t p = Some p' \<and> tq_inv p' \<and> tq_tracked p' = tq_tracked p"
    using \<open>tq_inv p\<close> by (simp add: liquid_ops_def liquid_notify_access_def)
qed

end
