(* ===== verification/LruPolicy.thy ===== *)
theory LruPolicy
  imports CachePolicy
begin

text \<open>
  The LRU policy, \<^verbatim>\<open>src/storage/src/cache/policies/cache/lru.rs\<close>: a hash map and a doubly
  linked list, most recently used entry at the head. \<open>lru_rep s xs\<close> relates a concrete state
  to the list of entries it stands for, and each operation is shown to refine its list
  specification: inserting or touching moves to the front, victims come from the back.
\<close>

section \<open>State and operations\<close>

record lru_node =
  lru_entry_id :: entry_id

record hash_list_state =
  hl_map :: "entry_id \<rightharpoonup> ptr"
  hl_list :: dll
  hl_heap :: "lru_node heap"

definition lru_new :: hash_list_state where
  "lru_new = \<lparr>hl_map = Map.empty, hl_list = dll_new, hl_heap = heap_empty\<rparr>"

definition hl_tail :: "hash_list_state \<Rightarrow> ptr option" where
  "hl_tail s = tail (hl_list s)"

definition hl_move_to_front :: "ptr \<Rightarrow> hash_list_state \<Rightarrow> hash_list_state option" where
  "hl_move_to_front p s = do {
     (h, l) \<leftarrow> move_to_front p (hl_heap s) (hl_list s);
     Some (s\<lparr>hl_heap := h, hl_list := l\<rparr>)
   }"

definition hl_push_front :: "ptr \<Rightarrow> hash_list_state \<Rightarrow> hash_list_state option" where
  "hl_push_front p s = do {
     (h, l) \<leftarrow> push_front p (hl_heap s) (hl_list s);
     Some (s\<lparr>hl_heap := h, hl_list := l\<rparr>)
   }"

definition hl_remove_and_release :: "ptr \<Rightarrow> hash_list_state \<Rightarrow> hash_list_state option" where
  "hl_remove_and_release p s = do {
     (h, l) \<leftarrow> unlink p (hl_heap s) (hl_list s);
     h' \<leftarrow> drop_boxed_node p h;
     Some (s\<lparr>hl_heap := h', hl_list := l\<rparr>)
   }"

text \<open>The \<open>for\<close> loop of \<open>find_victim\<close>; \<open>map.remove\<close> panics through \<open>expect\<close> when the key is absent.\<close>

fun lru_victim_loop :: "nat \<Rightarrow> hash_list_state \<Rightarrow> (entry_id list \<times> hash_list_state) option" where
  "lru_victim_loop 0 s = Some ([], s)"
| "lru_victim_loop (Suc cnt) s =
     (case hl_tail s of
        None \<Rightarrow> Some ([], s)
      | Some tail_ptr \<Rightarrow> do {
          tail_node \<leftarrow> deref (hl_heap s) tail_ptr;
          let tail_entry_id = lru_entry_id (ndata tail_node);
          node_ptr \<leftarrow> hl_map s tail_entry_id;
          s' \<leftarrow> hl_remove_and_release node_ptr (s\<lparr>hl_map := (hl_map s)(tail_entry_id := None)\<rparr>);
          (advices, s'') \<leftarrow> lru_victim_loop cnt s';
          Some (tail_entry_id # advices, s'')
        })"

definition lru_find_victim :: "nat \<Rightarrow> hash_list_state \<Rightarrow> (entry_id list \<times> hash_list_state) option" where
  "lru_find_victim cnt s = (if cnt = 0 then Some ([], s) else lru_victim_loop cnt s)"

definition lru_notify_access :: "entry_id \<Rightarrow> batch_type \<Rightarrow> hash_list_state \<Rightarrow> hash_list_state option" where
  "lru_notify_access i _ s =
     (case hl_map s i of
        Some node_ptr \<Rightarrow> hl_move_to_front node_ptr s
      | None \<Rightarrow> Some s)"

definition lru_notify_insert :: "entry_id \<Rightarrow> batch_type \<Rightarrow> hash_list_state \<Rightarrow> hash_list_state option" where
  "lru_notify_insert i _ s =
     (case hl_map s i of
        Some existing \<Rightarrow> hl_move_to_front existing s
      | None \<Rightarrow>
          (let (node_ptr, h) = node_new \<lparr>lru_entry_id = i\<rparr> (hl_heap s) in
           hl_push_front node_ptr (s\<lparr>hl_heap := h, hl_map := (hl_map s)(i \<mapsto> node_ptr)\<rparr>)))"

definition lru_ops :: "hash_list_state policy_ops" where
  "lru_ops = \<lparr>op_find_victim = lru_find_victim, op_notify_insert = lru_notify_insert,
              op_notify_access = lru_notify_access\<rparr>"

section \<open>Representation\<close>

definition lru_rep :: "hash_list_state \<Rightarrow> entry_id list \<Rightarrow> bool" where
  "lru_rep s xs \<longleftrightarrow> (\<exists>ps. hash_list lru_entry_id (hl_map s) (hl_heap s) (hl_list s) ps
     \<and> xs = keys_of lru_entry_id (hl_heap s) ps)"

definition lru_inv :: "hash_list_state \<Rightarrow> bool" where
  "lru_inv s \<longleftrightarrow> (\<exists>xs. lru_rep s xs)"

definition lru_tracked :: "hash_list_state \<Rightarrow> entry_id set" where
  "lru_tracked s = dom (hl_map s)"

section \<open>Refinement\<close>

lemma lru_rep_new: "lru_rep lru_new []"
  by (auto simp: lru_rep_def lru_new_def intro: exI [of _ "[]"])

lemma lru_rep_dom: "lru_rep s xs \<Longrightarrow> dom (hl_map s) = set xs"
  by (auto simp: lru_rep_def dest!: hash_list_keyed keyed_dom)

lemma lru_rep_distinct: "lru_rep s xs \<Longrightarrow> distinct xs"
  by (auto simp: lru_rep_def dest!: hash_list_keyed keyed_distinct)

lemma lru_repD: "lru_rep s xs \<Longrightarrow> lru_inv s \<and> lru_tracked s = set xs"
  using lru_rep_dom [of s xs] by (auto simp: lru_inv_def lru_tracked_def)

lemma hl_move_to_front_rep:
  assumes "lru_rep s xs" and "hl_map s i = Some p"
  shows "\<exists>s'. hl_move_to_front p s = Some s' \<and> lru_rep s' (i # remove1 i xs)"
proof -
  from assms(1) obtain ps where
    ps: "hash_list lru_entry_id (hl_map s) (hl_heap s) (hl_list s) ps"
    and xs: "xs = keys_of lru_entry_id (hl_heap s) ps" by (auto simp: lru_rep_def)
  note ks = hash_list_keys_move [OF ps assms(2)]
  from hash_list_move_front [OF ps assms(2)] obtain h' l' where
    f: "move_to_front p (hl_heap s) (hl_list s) = Some (h', l')"
      "hash_list lru_entry_id (hl_map s) h' l' (p # remove1 p ps)"
      "payload h' = payload (hl_heap s)" by blast
  have "keys_of lru_entry_id h' (p # remove1 p ps) = i # remove1 i xs"
    using f(3) ks xs by (simp add: keys_of_def data_of_def)
  with f show ?thesis by (auto simp: hl_move_to_front_def lru_rep_def)
qed

lemma lru_notify_access_rep [abs_simps]:
  assumes "lru_rep s xs"
  shows "\<exists>s'. lru_notify_access i t s = Some s'
    \<and> lru_rep s' (if i \<in> set xs then i # remove1 i xs else xs)"
proof (cases "hl_map s i")
  case None
  then have "i \<notin> set xs" using lru_rep_dom [OF assms] by auto
  with None assms show ?thesis by (simp add: lru_notify_access_def)
next
  case (Some p)
  then have "i \<in> set xs" using lru_rep_dom [OF assms] by auto
  with Some hl_move_to_front_rep [OF assms Some] show ?thesis by (simp add: lru_notify_access_def)
qed

lemma lru_notify_insert_rep [abs_simps]:
  assumes "lru_rep s xs"
  shows "\<exists>s'. lru_notify_insert i t s = Some s' \<and> lru_rep s' (i # remove1 i xs)"
proof (cases "hl_map s i")
  case None
  then have i: "i \<notin> set xs" using lru_rep_dom [OF assms] by auto
  from assms obtain ps where
    ps: "hash_list lru_entry_id (hl_map s) (hl_heap s) (hl_list s) ps"
    and xs: "xs = keys_of lru_entry_id (hl_heap s) ps" by (auto simp: lru_rep_def)
  obtain p h1 where new: "node_new \<lparr>lru_entry_id = i\<rparr> (hl_heap s) = (p, h1)" by fastforce
  from hash_list_push_front_new [OF ps _ new] None obtain h' l' where
    f: "push_front p h1 (hl_list s) = Some (h', l')"
      "hash_list lru_entry_id ((hl_map s)(i \<mapsto> p)) h' l' (p # ps)"
      "payload h' = (payload (hl_heap s))(p \<mapsto> \<lparr>lru_entry_id = i\<rparr>)" "p \<notin> set ps" by auto
  have "keys_of lru_entry_id h' ps = keys_of lru_entry_id (hl_heap s) ps"
    using f(3,4) by (intro keys_of_cong) auto
  with f xs i None new show ?thesis
    by (auto simp: lru_notify_insert_def hl_push_front_def lru_rep_def remove1_idem
        intro!: exI [of _ "p # ps"])
next
  case (Some p)
  with hl_move_to_front_rep [OF assms Some] show ?thesis by (simp add: lru_notify_insert_def)
qed

lemma lru_victim_loop_rep:
  "lru_rep s xs \<Longrightarrow> \<exists>s'. lru_victim_loop n s = Some (take n (rev xs), s')
    \<and> lru_rep s' (rev (drop n (rev xs)))"
proof (induction n arbitrary: s xs)
  case 0
  then show ?case by simp
next
  case (Suc n)
  from Suc.prems obtain ps where
    ps: "hash_list lru_entry_id (hl_map s) (hl_heap s) (hl_list s) ps"
    and xs: "xs = keys_of lru_entry_id (hl_heap s) ps" by (auto simp: lru_rep_def)
  show ?case
  proof (cases ps rule: rev_cases)
    case Nil
    with ps xs Suc.prems show ?thesis by (simp add: hl_tail_def hash_list_tail)
  next
    case (snoc qs p)
    let ?i = "lru_entry_id (the (payload (hl_heap s) p))"
    have p: "p \<in> set ps" "p \<notin> set qs" "remove1 p ps = qs"
      using snoc dll_rep_distinct ps by (auto simp: hash_list_def remove1_append dest: dll_rep_distinct)
    obtain n0 where n0: "cells (hl_heap s) p = Some n0" "?i = lru_entry_id (ndata n0)"
      using keyed_live [OF hash_list_keyed [OF ps] p(1)] by (auto simp: payload_def)
    have lk: "hl_map s ?i = Some p"
      by (rule keyed_lookup [OF hash_list_keyed [OF ps] p(1)])
    from hash_list_release [OF ps p(1)] obtain h1 l' h' where
      u: "unlink p (hl_heap s) (hl_list s) = Some (h1, l')" "drop_boxed_node p h1 = Some h'"
        "hash_list lru_entry_id ((hl_map s)(?i := None)) h' l' qs"
        "payload h' = (payload (hl_heap s))(p := None)" unfolding p(3) by blast
    let ?s = "s\<lparr>hl_map := (hl_map s)(?i := None), hl_heap := h', hl_list := l'\<rparr>"
    have ks: "keys_of lru_entry_id h' qs = keys_of lru_entry_id (hl_heap s) qs"
      using u(4) p(2) by (intro keys_of_cong) auto
    have "lru_rep ?s (keys_of lru_entry_id (hl_heap s) qs)"
      using u(3) ks by (auto simp: lru_rep_def)
    from Suc.IH [OF this] obtain s' where
      ih: "lru_victim_loop n ?s = Some (take n (rev (keys_of lru_entry_id (hl_heap s) qs)), s')"
        "lru_rep s' (rev (drop n (rev (keys_of lru_entry_id (hl_heap s) qs))))" by blast
    have tl: "hl_tail s = Some p"
      using hash_list_tail [OF ps] snoc by (simp add: hl_tail_def)
    have "lru_victim_loop (Suc n) s = Some (take (Suc n) (rev xs), s')"
      using tl n0 lk u ih(1) snoc xs
      by (simp add: hl_remove_and_release_def deref_def)
    with ih(2) snoc xs show ?thesis by auto
  qed
qed

lemma lru_find_victim_rep [abs_simps]:
  "lru_rep s xs \<Longrightarrow> \<exists>s'. lru_find_victim n s = Some (take n (rev xs), s')
    \<and> lru_rep s' (rev (drop n (rev xs)))"
  using lru_victim_loop_rep [of s xs n] by (auto simp: lru_find_victim_def)

section \<open>The contract\<close>

interpretation lru: exclusive_policy lru_ops lru_inv lru_tracked
proof unfold_locales
  fix p n
  assume "lru_inv p"
  then obtain xs where xs: "lru_rep p xs" by (auto simp: lru_inv_def)
  obtain s' where s': "lru_find_victim n p = Some (take n (rev xs), s')"
    "lru_rep s' (rev (drop n (rev xs)))" using lru_find_victim_rep [OF xs] by blast
  have "lru_tracked p = set xs" "lru_tracked s' = set (drop n (rev xs))"
    using lru_repD [OF xs] lru_repD [OF s'(2)] by simp_all
  then have facts: "set (take n (rev xs)) \<subseteq> lru_tracked p" "lru_tracked s' \<subseteq> lru_tracked p"
    "lru_tracked s' = lru_tracked p - set (take n (rev xs))" "distinct (take n (rev xs))"
    using lru_rep_distinct [OF xs] set_drop_distinct [of "rev xs" n] set_take_subset [of n "rev xs"]
    by auto
  show "\<exists>vs p'. op_find_victim lru_ops n p = Some (vs, p') \<and> lru_inv p'
      \<and> set vs \<subseteq> lru_tracked p \<and> lru_tracked p' \<subseteq> lru_tracked p \<and> length vs \<le> n"
    using s' facts by (auto simp: lru_ops_def lru_inv_def)
  fix vs p'
  assume "op_find_victim lru_ops n p = Some (vs, p')"
  with s' facts show "distinct vs \<and> lru_tracked p' = lru_tracked p - set vs"
    by (simp add: lru_ops_def)
next
  fix p i t
  assume "lru_inv p"
  then obtain xs where xs: "lru_rep p xs" by (auto simp: lru_inv_def)
  obtain q where q: "lru_notify_insert i t p = Some q" "lru_rep q (i # remove1 i xs)"
    using lru_notify_insert_rep [OF xs] by blast
  have "insert i (set (remove1 i xs)) = insert i (set xs)"
    using lru_rep_distinct [OF xs] by auto
  with lru_repD [OF q(2)] lru_repD [OF xs] q(1)
  show "\<exists>p'. op_notify_insert lru_ops i t p = Some p' \<and> lru_inv p'
      \<and> lru_tracked p' = insert i (lru_tracked p)"
    by (simp add: lru_ops_def)
  obtain r where r: "lru_notify_access i t p = Some r"
    "lru_rep r (if i \<in> set xs then i # remove1 i xs else xs)"
    using lru_notify_access_rep [OF xs] by blast
  have "set (if i \<in> set xs then i # remove1 i xs else xs) = set xs"
    using lru_rep_distinct [OF xs] by auto
  with lru_repD [OF r(2)] lru_repD [OF xs] r(1)
  show "\<exists>p'. op_notify_access lru_ops i t p = Some p' \<and> lru_inv p' \<and> lru_tracked p' = lru_tracked p"
    by (simp add: lru_ops_def)
qed

end
