(* ===== verification/QueuePolicies.thy ===== *)
theory QueuePolicies
  imports CachePolicy
begin

text \<open>
  The FILO and FIFO policies, \<^verbatim>\<open>src/storage/src/cache/policies/cache/filo.rs\<close>. Both keep a
  \<open>QueueState\<close> and take victims from its head; FILO inserts at the head, FIFO at the tail.
  \<open>queue_rep s xs\<close> relates a state to the list of its entries, head first, and the operations
  are shown to refine the corresponding list operations.
\<close>

section \<open>State and operations\<close>

record queue_node =
  qn_entry_id :: entry_id

record queue_state =
  qs_map :: "entry_id \<rightharpoonup> ptr"
  qs_list :: dll
  qs_heap :: "queue_node heap"

definition queue_default :: queue_state where
  "queue_default = \<lparr>qs_map = Map.empty, qs_list = dll_new, qs_heap = heap_empty\<rparr>"

definition qs_is_empty :: "queue_state \<Rightarrow> bool" where
  "qs_is_empty s \<longleftrightarrow> head (qs_list s) = None"

definition insert_front :: "entry_id \<Rightarrow> queue_state \<Rightarrow> queue_state option" where
  "insert_front i s =
     (case qs_map s i of
        Some p \<Rightarrow> do {
          (h1, l1) \<leftarrow> unlink p (qs_heap s) (qs_list s);
          (h2, l2) \<leftarrow> push_front p h1 l1;
          Some (s\<lparr>qs_heap := h2, qs_list := l2\<rparr>)
        }
      | None \<Rightarrow>
          (let (p, h) = node_new \<lparr>qn_entry_id = i\<rparr> (qs_heap s) in do {
             (h1, l1) \<leftarrow> push_front p h (qs_list s);
             Some (s\<lparr>qs_map := (qs_map s)(i \<mapsto> p), qs_heap := h1, qs_list := l1\<rparr>)
           }))"

definition insert_back :: "entry_id \<Rightarrow> queue_state \<Rightarrow> queue_state option" where
  "insert_back i s =
     (case qs_map s i of
        Some p \<Rightarrow> do {
          (h1, l1) \<leftarrow> unlink p (qs_heap s) (qs_list s);
          (h2, l2) \<leftarrow> push_back p h1 l1;
          Some (s\<lparr>qs_heap := h2, qs_list := l2\<rparr>)
        }
      | None \<Rightarrow>
          (let (p, h) = node_new \<lparr>qn_entry_id = i\<rparr> (qs_heap s) in do {
             (h1, l1) \<leftarrow> push_back p h (qs_list s);
             Some (s\<lparr>qs_map := (qs_map s)(i \<mapsto> p), qs_heap := h1, qs_list := l1\<rparr>)
           }))"

text \<open>The outer \<open>option\<close> is failure, the inner one the \<open>Option<EntryID>\<close> that \<open>pop_front\<close> returns.\<close>

definition pop_front :: "queue_state \<Rightarrow> (entry_id option \<times> queue_state) option" where
  "pop_front s =
     (case head (qs_list s) of
        None \<Rightarrow> Some (None, s)
      | Some head_ptr \<Rightarrow> do {
          n \<leftarrow> deref (qs_heap s) head_ptr;
          let i = qn_entry_id (ndata n);
          node_ptr \<leftarrow> qs_map s i;
          (h1, l1) \<leftarrow> unlink node_ptr (qs_heap s) (qs_list s);
          h2 \<leftarrow> drop_boxed_node node_ptr h1;
          Some (Some i, s\<lparr>qs_map := (qs_map s)(i := None), qs_heap := h2, qs_list := l1\<rparr>)
        })"

fun pop_loop :: "nat \<Rightarrow> queue_state \<Rightarrow> (entry_id list \<times> queue_state) option" where
  "pop_loop 0 s = Some ([], s)"
| "pop_loop (Suc cnt) s = do {
     (e, s') \<leftarrow> pop_front s;
     (case e of
        None \<Rightarrow> Some ([], s')
      | Some i \<Rightarrow> do {
          (victims, s'') \<leftarrow> pop_loop cnt s';
          Some (i # victims, s'')
        })
   }"

text \<open>\<open>find_victim\<close> is the same code in both policies.\<close>

definition filo_find_victim :: "nat \<Rightarrow> queue_state \<Rightarrow> (entry_id list \<times> queue_state) option" where
  "filo_find_victim cnt s =
     (if cnt = 0 then Some ([], s) else if qs_is_empty s then Some ([], s) else pop_loop cnt s)"

definition filo_notify_insert :: "entry_id \<Rightarrow> batch_type \<Rightarrow> queue_state \<Rightarrow> queue_state option" where
  "filo_notify_insert i _ s = insert_front i s"

definition fifo_find_victim :: "nat \<Rightarrow> queue_state \<Rightarrow> (entry_id list \<times> queue_state) option" where
  "fifo_find_victim cnt s =
     (if cnt = 0 then Some ([], s) else if qs_is_empty s then Some ([], s) else pop_loop cnt s)"

definition fifo_notify_insert :: "entry_id \<Rightarrow> batch_type \<Rightarrow> queue_state \<Rightarrow> queue_state option" where
  "fifo_notify_insert i _ s = insert_back i s"

text \<open>Neither policy overrides \<open>notify_access\<close>; the trait's default does nothing.\<close>

definition default_notify_access :: "entry_id \<Rightarrow> batch_type \<Rightarrow> 'p \<Rightarrow> 'p option" where
  "default_notify_access _ _ s = Some s"

definition filo_ops :: "queue_state policy_ops" where
  "filo_ops = \<lparr>op_find_victim = filo_find_victim, op_notify_insert = filo_notify_insert,
               op_notify_access = default_notify_access\<rparr>"

definition fifo_ops :: "queue_state policy_ops" where
  "fifo_ops = \<lparr>op_find_victim = fifo_find_victim, op_notify_insert = fifo_notify_insert,
               op_notify_access = default_notify_access\<rparr>"

section \<open>Representation\<close>

definition queue_rep :: "queue_state \<Rightarrow> entry_id list \<Rightarrow> bool" where
  "queue_rep s xs \<longleftrightarrow> (\<exists>ps. hash_list qn_entry_id (qs_map s) (qs_heap s) (qs_list s) ps
     \<and> xs = keys_of qn_entry_id (qs_heap s) ps)"

definition queue_inv :: "queue_state \<Rightarrow> bool" where
  "queue_inv s \<longleftrightarrow> (\<exists>xs. queue_rep s xs)"

definition queue_tracked :: "queue_state \<Rightarrow> entry_id set" where
  "queue_tracked s = dom (qs_map s)"

section \<open>Refinement\<close>

lemma queue_rep_default: "queue_rep queue_default []"
  by (auto simp: queue_rep_def queue_default_def intro: exI [of _ "[]"])

lemma queue_rep_dom: "queue_rep s xs \<Longrightarrow> dom (qs_map s) = set xs"
  by (auto simp: queue_rep_def dest!: hash_list_keyed keyed_dom)

lemma queue_rep_distinct: "queue_rep s xs \<Longrightarrow> distinct xs"
  by (auto simp: queue_rep_def dest!: hash_list_keyed keyed_distinct)

lemma queue_repD: "queue_rep s xs \<Longrightarrow> queue_inv s \<and> queue_tracked s = set xs"
  using queue_rep_dom [of s xs] by (auto simp: queue_inv_def queue_tracked_def)

lemma insert_front_rep [abs_simps]:
  assumes "queue_rep s xs"
  shows "\<exists>s'. insert_front i s = Some s' \<and> queue_rep s' (i # remove1 i xs)"
proof -
  from assms obtain ps where
    ps: "hash_list qn_entry_id (qs_map s) (qs_heap s) (qs_list s) ps"
    and xs: "xs = keys_of qn_entry_id (qs_heap s) ps" by (auto simp: queue_rep_def)
  show ?thesis
  proof (cases "qs_map s i")
    case None
    then have i: "i \<notin> set xs" using queue_rep_dom [OF assms] by auto
    obtain p h1 where new: "node_new \<lparr>qn_entry_id = i\<rparr> (qs_heap s) = (p, h1)" by fastforce
    from hash_list_push_front_new [OF ps _ new] None obtain h' l' where
      f: "push_front p h1 (qs_list s) = Some (h', l')"
        "hash_list qn_entry_id ((qs_map s)(i \<mapsto> p)) h' l' (p # ps)"
        "payload h' = (payload (qs_heap s))(p \<mapsto> \<lparr>qn_entry_id = i\<rparr>)" "p \<notin> set ps" by auto
    have "keys_of qn_entry_id h' ps = keys_of qn_entry_id (qs_heap s) ps"
      using f(3,4) by (intro keys_of_cong) auto
    with f xs i None new show ?thesis
      by (auto simp: insert_front_def queue_rep_def remove1_idem intro!: exI [of _ "p # ps"])
  next
    case (Some p)
    note ks = hash_list_keys_move [OF ps Some]
    from hash_list_move_front [OF ps Some] obtain h' l' where
      f: "move_to_front p (qs_heap s) (qs_list s) = Some (h', l')"
        "hash_list qn_entry_id (qs_map s) h' l' (p # remove1 p ps)"
        "payload h' = payload (qs_heap s)" by blast
    have "keys_of qn_entry_id h' (p # remove1 p ps) = i # remove1 i xs"
      using f(3) ks xs by (simp add: keys_of_def data_of_def)
    then have "queue_rep (s\<lparr>qs_heap := h', qs_list := l'\<rparr>) (i # remove1 i xs)"
      using f(2) by (auto simp: queue_rep_def)
    with f(1) Some show ?thesis
      by (auto simp: insert_front_def move_to_front_def Option.bind_eq_Some_conv)
  qed
qed

lemma insert_back_rep [abs_simps]:
  assumes "queue_rep s xs"
  shows "\<exists>s'. insert_back i s = Some s' \<and> queue_rep s' (remove1 i xs @ [i])"
proof -
  from assms obtain ps where
    ps: "hash_list qn_entry_id (qs_map s) (qs_heap s) (qs_list s) ps"
    and xs: "xs = keys_of qn_entry_id (qs_heap s) ps" by (auto simp: queue_rep_def)
  show ?thesis
  proof (cases "qs_map s i")
    case None
    then have i: "i \<notin> set xs" using queue_rep_dom [OF assms] by auto
    obtain p h1 where new: "node_new \<lparr>qn_entry_id = i\<rparr> (qs_heap s) = (p, h1)" by fastforce
    from hash_list_push_back_new [OF ps _ new] None obtain h' l' where
      f: "push_back p h1 (qs_list s) = Some (h', l')"
        "hash_list qn_entry_id ((qs_map s)(i \<mapsto> p)) h' l' (ps @ [p])"
        "payload h' = (payload (qs_heap s))(p \<mapsto> \<lparr>qn_entry_id = i\<rparr>)" "p \<notin> set ps" by auto
    have "keys_of qn_entry_id h' ps = keys_of qn_entry_id (qs_heap s) ps"
      using f(3,4) by (intro keys_of_cong) auto
    with f xs i None new show ?thesis
      by (auto simp: insert_back_def queue_rep_def remove1_idem intro!: exI [of _ "ps @ [p]"])
  next
    case (Some p)
    note ks = hash_list_keys_move [OF ps Some]
    from hash_list_move_back [OF ps Some] obtain h1 l1 h' l' where
      f: "unlink p (qs_heap s) (qs_list s) = Some (h1, l1)" "push_back p h1 l1 = Some (h', l')"
        "hash_list qn_entry_id (qs_map s) h' l' (remove1 p ps @ [p])"
        "payload h' = payload (qs_heap s)" by blast
    have "keys_of qn_entry_id h' (remove1 p ps @ [p]) = remove1 i xs @ [i]"
      using f(4) ks xs by (simp add: keys_of_def data_of_def)
    with f Some show ?thesis by (auto simp: insert_back_def queue_rep_def)
  qed
qed

lemma pop_front_rep [abs_simps]:
  assumes "queue_rep s xs"
  shows "\<exists>s'. pop_front s = Some (first_or xs None, s') \<and> queue_rep s' (tl xs)"
proof -
  from assms obtain ps where
    ps: "hash_list qn_entry_id (qs_map s) (qs_heap s) (qs_list s) ps"
    and xs: "xs = keys_of qn_entry_id (qs_heap s) ps" by (auto simp: queue_rep_def)
  show ?thesis
  proof (cases ps)
    case Nil
    with ps xs assms show ?thesis by (simp add: pop_front_def hash_list_head)
  next
    case (Cons p qs)
    let ?i = "qn_entry_id (the (payload (qs_heap s) p))"
    have p: "p \<in> set ps" "p \<notin> set qs" "remove1 p ps = qs"
      using Cons ps by (auto simp: hash_list_def dll_rep_def)
    obtain n0 where n0: "cells (qs_heap s) p = Some n0" "?i = qn_entry_id (ndata n0)"
      using keyed_live [OF hash_list_keyed [OF ps] p(1)] by (auto simp: payload_def)
    have lk: "qs_map s ?i = Some p" by (rule keyed_lookup [OF hash_list_keyed [OF ps] p(1)])
    from hash_list_release [OF ps p(1)] obtain h1 l' h' where
      u: "unlink p (qs_heap s) (qs_list s) = Some (h1, l')" "drop_boxed_node p h1 = Some h'"
        "hash_list qn_entry_id ((qs_map s)(?i := None)) h' l' qs"
        "payload h' = (payload (qs_heap s))(p := None)" unfolding p(3) by blast
    have ks: "keys_of qn_entry_id h' qs = keys_of qn_entry_id (qs_heap s) qs"
      using u(4) p(2) by (intro keys_of_cong) auto
    let ?s = "s\<lparr>qs_map := (qs_map s)(?i := None), qs_heap := h', qs_list := l'\<rparr>"
    have "queue_rep ?s (tl xs)" using u(3) ks Cons xs by (auto simp: queue_rep_def)
    moreover have "pop_front s = Some (Some ?i, ?s)"
      using hash_list_head [OF ps] Cons n0 lk u by (simp add: pop_front_def deref_def Let_def)
    ultimately show ?thesis using Cons xs by simp
  qed
qed

lemma pop_loop_rep:
  "queue_rep s xs \<Longrightarrow> \<exists>s'. pop_loop n s = Some (take n xs, s') \<and> queue_rep s' (drop n xs)"
proof (induction n arbitrary: s xs)
  case 0
  then show ?case by simp
next
  case (Suc n)
  from pop_front_rep [OF Suc.prems] obtain s1 where
    s1: "pop_front s = Some (first_or xs None, s1)" "queue_rep s1 (tl xs)" by blast
  from Suc.IH [OF s1(2)] obtain s2 where
    s2: "pop_loop n s1 = Some (take n (tl xs), s2)" "queue_rep s2 (drop n (tl xs))" by blast
  show ?case
  proof (cases xs)
    case Nil
    with s1 show ?thesis by simp
  next
    case (Cons x ys)
    with s1 s2 show ?thesis by simp
  qed
qed

lemma queue_find_victim_rep:
  assumes "queue_rep s xs"
  shows "\<exists>s'. filo_find_victim n s = Some (take n xs, s') \<and> queue_rep s' (drop n xs)"
    and "\<exists>s'. fifo_find_victim n s = Some (take n xs, s') \<and> queue_rep s' (drop n xs)"
proof -
  have "xs = []" if "qs_is_empty s"
    using assms that by (auto simp: queue_rep_def qs_is_empty_def hash_list_head)
  with assms pop_loop_rep [OF assms, of n]
  show "\<exists>s'. filo_find_victim n s = Some (take n xs, s') \<and> queue_rep s' (drop n xs)"
    and "\<exists>s'. fifo_find_victim n s = Some (take n xs, s') \<and> queue_rep s' (drop n xs)"
    by (auto simp: filo_find_victim_def fifo_find_victim_def)
qed

section \<open>The contract\<close>

text \<open>Both policies meet the contract for the same reasons, so the facts are stated once.\<close>

lemma queue_victims_contract:
  assumes "queue_rep s xs" and "queue_rep s' (drop n xs)"
  shows "queue_inv s'" and "set (take n xs) \<subseteq> queue_tracked s" and "queue_tracked s' \<subseteq> queue_tracked s"
    and "length (take n xs) \<le> n" and "distinct (take n xs)"
    and "queue_tracked s' = queue_tracked s - set (take n xs)"
  using queue_repD [OF assms(1)] queue_repD [OF assms(2)] queue_rep_distinct [OF assms(1)]
    set_drop_distinct [of xs n] set_take_subset [of n xs] by auto

lemma queue_insert_contract:
  assumes "queue_rep s xs" and "queue_rep s' ys" and "set ys = insert i (set (remove1 i xs))"
  shows "queue_inv s'" and "queue_tracked s' = insert i (queue_tracked s)"
  using queue_repD [OF assms(1)] queue_repD [OF assms(2)] queue_rep_distinct [OF assms(1)] assms(3)
  by auto

interpretation filo: exclusive_policy filo_ops queue_inv queue_tracked
proof unfold_locales
  fix p n
  assume "queue_inv p"
  then obtain xs where xs: "queue_rep p xs" by (auto simp: queue_inv_def)
  obtain s' where s': "filo_find_victim n p = Some (take n xs, s')" "queue_rep s' (drop n xs)"
    using queue_find_victim_rep(1) [OF xs] by blast
  note c = queue_victims_contract [OF xs s'(2)]
  show "\<exists>vs p'. op_find_victim filo_ops n p = Some (vs, p') \<and> queue_inv p'
      \<and> set vs \<subseteq> queue_tracked p \<and> queue_tracked p' \<subseteq> queue_tracked p \<and> length vs \<le> n"
    using s'(1) c by (simp add: filo_ops_def)
  fix vs p'
  assume "op_find_victim filo_ops n p = Some (vs, p')"
  with s'(1) c show "distinct vs \<and> queue_tracked p' = queue_tracked p - set vs"
    by (simp add: filo_ops_def)
next
  fix p i t
  assume "queue_inv p"
  then obtain xs where xs: "queue_rep p xs" by (auto simp: queue_inv_def)
  obtain q where q: "insert_front i p = Some q" "queue_rep q (i # remove1 i xs)"
    using insert_front_rep [OF xs] by blast
  with queue_insert_contract [OF xs q(2), of i]
  show "\<exists>p'. op_notify_insert filo_ops i t p = Some p' \<and> queue_inv p'
      \<and> queue_tracked p' = insert i (queue_tracked p)"
    by (simp add: filo_ops_def filo_notify_insert_def)
  show "\<exists>p'. op_notify_access filo_ops i t p = Some p' \<and> queue_inv p' \<and> queue_tracked p' = queue_tracked p"
    using \<open>queue_inv p\<close> by (simp add: filo_ops_def default_notify_access_def)
qed

interpretation fifo: exclusive_policy fifo_ops queue_inv queue_tracked
proof unfold_locales
  fix p n
  assume "queue_inv p"
  then obtain xs where xs: "queue_rep p xs" by (auto simp: queue_inv_def)
  obtain s' where s': "fifo_find_victim n p = Some (take n xs, s')" "queue_rep s' (drop n xs)"
    using queue_find_victim_rep(2) [OF xs] by blast
  note c = queue_victims_contract [OF xs s'(2)]
  show "\<exists>vs p'. op_find_victim fifo_ops n p = Some (vs, p') \<and> queue_inv p'
      \<and> set vs \<subseteq> queue_tracked p \<and> queue_tracked p' \<subseteq> queue_tracked p \<and> length vs \<le> n"
    using s'(1) c by (simp add: fifo_ops_def)
  fix vs p'
  assume "op_find_victim fifo_ops n p = Some (vs, p')"
  with s'(1) c show "distinct vs \<and> queue_tracked p' = queue_tracked p - set vs"
    by (simp add: fifo_ops_def)
next
  fix p i t
  assume "queue_inv p"
  then obtain xs where xs: "queue_rep p xs" by (auto simp: queue_inv_def)
  obtain q where q: "insert_back i p = Some q" "queue_rep q (remove1 i xs @ [i])"
    using insert_back_rep [OF xs] by blast
  with queue_insert_contract [OF xs q(2), of i]
  show "\<exists>p'. op_notify_insert fifo_ops i t p = Some p' \<and> queue_inv p'
      \<and> queue_tracked p' = insert i (queue_tracked p)"
    by (simp add: fifo_ops_def fifo_notify_insert_def)
  show "\<exists>p'. op_notify_access fifo_ops i t p = Some p' \<and> queue_inv p' \<and> queue_tracked p' = queue_tracked p"
    using \<open>queue_inv p\<close> by (simp add: fifo_ops_def default_notify_access_def)
qed

end
