(* ===== verification/CacheProgress.thy ===== *)
theory CacheProgress
  imports CacheReads LiquidPolicy LruPolicy QueuePolicies
begin

text \<open>
  When \<open>insert_inner\<close> returns. With \<open>LiquidPolicy\<close> (the default) it always does: the policy
  keeps an entry in the queue of its format and hands out in-memory entries only, so every
  round with victims lowers the total number of squeezes the queues still allow
  (\<open>tq_pressure\<close>), and every round without victims moves the batch itself one step closer to
  disk, where it fits. The fuel \<open>3 * tracked entries + 4\<close> is enough.

  With a policy that goes on tracking entries on disk (LRU, FIFO, FILO) it does not: a batch
  larger than the whole budget is retried forever as soon as anything is cached, since the
  victims the policy finds are squeezed into what they already are.
\<close>

section \<open>Configurations\<close>

definition default_env :: "('a, 'l, 's, 't, 'c, 'e) arrays \<Rightarrow> ('a, 'l, 's, 't, 'c, 'e, liquid_queue_state) env" where
  "default_env A = \<lparr>arr = A, pol = liquid_ops, squeeze = transcode_squeeze_evict A, hydrate = always_hydrate A\<rparr>"

definition filo_env :: "('a, 'l, 's, 't, 'c, 'e) arrays \<Rightarrow> ('a, 'l, 's, 't, 'c, 'e, queue_state) env" where
  "filo_env A = \<lparr>arr = A, pol = filo_ops, squeeze = transcode_squeeze_evict A, hydrate = always_hydrate A\<rparr>"

definition lru_env :: "('a, 'l, 's, 't, 'c, 'e) arrays \<Rightarrow> ('a, 'l, 's, 't, 'c, 'e, hash_list_state) env" where
  "lru_env A = \<lparr>arr = A, pol = lru_ops, squeeze = transcode_squeeze_evict A, hydrate = always_hydrate A\<rparr>"

section \<open>With LiquidPolicy every insert returns\<close>

text \<open>Every tracked entry waits in the queue of the format the index records for it.\<close>

definition synced_at :: "liquid_queue_state \<Rightarrow> (entry_id \<rightharpoonup> batch_type) \<Rightarrow> (queue_kind \<Rightarrow> entry_id list) \<Rightarrow> bool" where
  "synced_at p m xs \<longleftrightarrow> tq_rep p xs
     \<and> (\<forall>q i t. i \<in> set (xs q) \<longrightarrow> m i = Some t \<longrightarrow> kind_of_batch t = q)"

definition tq_synced :: "liquid_queue_state \<Rightarrow> (entry_id \<rightharpoonup> batch_type) \<Rightarrow> bool" where
  "tq_synced p m \<longleftrightarrow> (\<exists>xs. synced_at p m xs)"

abbreviation synced :: "('a, 'l, 's, 't, 'c, liquid_queue_state) cache \<Rightarrow> (queue_kind \<Rightarrow> entry_id list) \<Rightarrow> bool" where
  "synced st xs \<equiv> synced_at (c_policy st) (types_of (ix_map (c_index st))) xs"

lemma synced_commit:
  assumes "synced_at p m xs" and "liquid_notify_insert i t p = Some p'"
  shows "synced_at p' (m(i \<mapsto> t)) (spec_upsert i (kind_of_batch t) xs)"
proof -
  have r: "tq_rep p xs" using assms(1) by (simp add: synced_at_def)
  then have "tq_rep p' (spec_upsert i (kind_of_batch t) xs)"
    using upsert_into_queue_rep [OF r, of i "kind_of_batch t"] assms(2)
    by (auto simp: liquid_notify_insert_def)
  moreover have "kind_of_batch u = q"
    if "j \<in> set (spec_upsert i (kind_of_batch t) xs q)" "(m(i \<mapsto> t)) j = Some u" for q j u
    using that assms(1) tq_rep_distinct_each [OF r, of q]
    by (auto simp: spec_upsert_def synced_at_def split: if_splits)
  ultimately show ?thesis by (simp add: synced_at_def)
qed

lemma synced_victims:
  assumes "synced_at p m xs" and "tq_rep p' (spec_drop n xs)"
  shows "synced_at p' m (spec_drop n xs)"
proof -
  have "set (spec_drop n xs q) \<subseteq> set (xs q)" for q
    by (cases q) (auto simp: spec_drop_def dest: in_set_dropD)
  with assms show ?thesis unfolding synced_at_def by (metis subsetD)
qed

interpretation liquid_ix: indexed_policy liquid_ops tq_synced
proof unfold_locales
  fix p m n assume "tq_synced p m"
  then obtain xs where xs: "synced_at p m xs" by (auto simp: tq_synced_def)
  then have r: "tq_rep p xs" by (simp add: synced_at_def)
  obtain p' where "liquid_find_victim n p = Some (take n (evictable xs), p')" "tq_rep p' (spec_drop n xs)"
    using liquid_find_victim_rep [OF r] by blast
  with synced_victims [OF xs] show "\<exists>vs p'. op_find_victim liquid_ops n p = Some (vs, p') \<and> tq_synced p' m"
    by (auto simp: liquid_ops_def tq_synced_def)
next
  fix p m i t assume "tq_synced p m"
  then obtain xs where xs: "synced_at p m xs" by (auto simp: tq_synced_def)
  then have r: "tq_rep p xs" by (simp add: synced_at_def)
  obtain p' where "liquid_notify_insert i t p = Some p'"
    using upsert_into_queue_rep [OF r] by (auto simp: liquid_notify_insert_def)
  with synced_commit [OF xs] show "\<exists>p'. op_notify_insert liquid_ops i t p = Some p' \<and> tq_synced p' (m(i \<mapsto> t))"
    by (auto simp: liquid_ops_def tq_synced_def)
qed (auto simp: liquid_ops_def liquid_notify_access_def tq_synced_def synced_at_def)

definition insert_fuel :: "('a, 'l, 's, 't, 'c, liquid_queue_state) cache \<Rightarrow> nat" where
  "insert_fuel st = 3 * card (tq_tracked (c_policy st)) + 4"

lemma kind_weight_rank: "kind_weight (kind_of_batch (batch_type_of e)) = entry_rank e"
  by (cases e) auto

lemma synced_weight:
  assumes "synced st xs" and "i \<in> set (evictable xs)" and "ix_map (c_index st) i = Some e"
  shows "queue_weight xs i = entry_rank e"
proof -
  have k: "kind_of_batch (batch_type_of e) = q" if "i \<in> set (xs q)" for q
    using assms(1,3) that by (auto simp: synced_at_def types_of_def)
  have "queue_weight xs i = kind_weight (kind_of_batch (batch_type_of e))"
    using assms(2) k by (auto simp: queue_weight_def evictable_def)
  then show ?thesis by (simp add: kind_weight_rank)
qed

lemma tq_pressure_le: "tq_rep s xs \<Longrightarrow> tq_pressure xs \<le> 3 * card (tq_tracked s)"
proof -
  assume r: "tq_rep s xs"
  have "card (\<Union>q. set (xs q)) = length (xs QArrow @ xs QLiquid @ xs QSqueezed @ xs QDisk)"
    using distinct_card [OF tq_rep_distinct [OF r]] unfolding UNIV_queue_kind by (simp add: Un_assoc)
  with tq_repD [OF r] show ?thesis by (simp add: tq_pressure_def)
qed

locale liquid_policy_cache = liquid_cache E tq_synced
  for E :: "('a, 'l, 's, 't, 'c, 'e, liquid_queue_state) env" +
  assumes pol_liquid: "pol E = liquid_ops"
begin

definition rest_of :: "('a, 'l, 's, 't, 'c, liquid_queue_state) cache \<Rightarrow> entry_id \<Rightarrow> nat" where
  "rest_of st v = (case ix_map (c_index st) v of None \<Rightarrow> 0 | Some e \<Rightarrow> entry_rank e - 1)"

lemma notify_insert_eq: "op_notify_insert (pol E) = liquid_notify_insert"
  by (simp add: pol_liquid liquid_ops_def)

lemma squeeze_victims_pressure:
  assumes "codec_ok (arr E)"
  shows "cache_ok E tq_synced st \<Longrightarrow> synced st xs \<Longrightarrow> distinct vs \<Longrightarrow> \<forall>v \<in> set vs. \<forall>q. v \<notin> set (xs q) \<Longrightarrow>
    \<exists>st' xs'. squeeze_victims E vs st = Ok st' \<and> synced st' xs'
      \<and> tq_pressure xs' \<le> tq_pressure xs + (\<Sum>v\<leftarrow>vs. rest_of st v)"
proof (induction vs arbitrary: st xs)
  case Nil
  then show ?case by auto
next
  case (Cons v vs)
  obtain st1 where st1: "squeeze_victim_inner E v st = Ok st1" "cache_ok E tq_synced st1"
    "case ix_map (c_index st) v of None \<Rightarrow> st1 = st | Some e \<Rightarrow> \<exists>e'. squeezed_to E v e e' st st1"
    using squeeze_victim_ok [OF assms Cons.prems(1)] by blast
  have "\<exists>xs1. synced st1 xs1 \<and> (\<forall>w \<in> set vs. \<forall>q. w \<notin> set (xs1 q))
      \<and> tq_pressure xs1 \<le> tq_pressure xs + rest_of st v \<and> (\<forall>w \<in> set vs. rest_of st1 w = rest_of st w)"
  proof (cases "ix_map (c_index st) v")
    case None
    with st1(3) Cons.prems show ?thesis by auto
  next
    case (Some e)
    then obtain e' where e': "squeezed_to E v e e' st st1" using st1(3) by auto
    let ?xs1 = "spec_upsert v (kind_of_batch (batch_type_of e')) xs"
    have "synced st1 ?xs1"
      using synced_commit [OF Cons.prems(2)] e' by (simp add: squeezed_to_def notify_insert_eq)
    moreover have "tq_pressure ?xs1 \<le> tq_pressure xs + rest_of st v"
      using tq_pressure_upsert [of v xs] Cons.prems(4) e' Some
      by (simp add: kind_weight_rank rest_of_def squeezed_to_def)
    moreover have "w \<noteq> v" if "w \<in> set vs" for w using Cons.prems(3) that by auto
    ultimately show ?thesis
      using e' Cons.prems(4)
      by (intro exI [of _ ?xs1]) (auto simp: spec_upsert_def squeezed_to_def rest_of_def
        dest: in_set_remove1 split: if_splits)
  qed
  then obtain xs1 where xs1: "synced st1 xs1" "\<forall>w \<in> set vs. \<forall>q. w \<notin> set (xs1 q)"
    "tq_pressure xs1 \<le> tq_pressure xs + rest_of st v" "\<forall>w \<in> set vs. rest_of st1 w = rest_of st w"
    by blast
  have "(\<Sum>w\<leftarrow>vs. rest_of st1 w) = (\<Sum>w\<leftarrow>vs. rest_of st w)"
    using xs1(4) by (intro arg_cong [of _ _ sum_list]) auto
  with Cons.IH [OF st1(2) xs1(1) _ xs1(2)] Cons.prems(3) st1(1) xs1(3) show ?case by fastforce
qed

text \<open>One round with victims lowers the pressure.\<close>

lemma squeeze_round_pressure:
  assumes "codec_ok (arr E)" and "cache_ok E tq_synced st" and "synced st xs"
    and "op_find_victim (pol E) 8 (c_policy st) = Some (vs, p)" and "vs \<noteq> []"
  shows "\<exists>st' xs'. squeeze_victims E vs (st\<lparr>c_policy := p\<rparr>) = Ok st' \<and> synced st' xs'
    \<and> tq_pressure xs' < tq_pressure xs"
proof -
  let ?ys = "spec_drop 8 xs" and ?st = "st\<lparr>c_policy := p\<rparr>"
  have r: "tq_rep (c_policy st) xs" using assms(3) by (simp add: synced_at_def)
  have vs: "vs = take 8 (evictable xs)" "tq_rep p ?ys"
    using liquid_find_victim_rep [OF r, of 8] assms(4) by (auto simp: pol_liquid liquid_ops_def)
  have d: "distinct (evictable xs)" using tq_rep_evictable_distinct [OF r] .
  have in_ev: "v \<in> set (evictable xs)" if "v \<in> set vs" for v using that vs(1) in_set_takeD by fast
  have gone: "\<forall>v \<in> set vs. \<forall>q. v \<notin> set (?ys q)"
    using spec_drop_sets [OF tq_rep_distinct [OF r], of 8] vs(1) by blast
  have "rest_of ?st v < queue_weight xs v" if "v \<in> set vs" for v
    using synced_weight [OF assms(3) in_ev [OF that]] queue_weight_pos [OF in_ev [OF that]]
    by (auto simp: rest_of_def split: option.splits)
  then have "(\<Sum>v\<leftarrow>vs. rest_of ?st v) < (\<Sum>v\<leftarrow>vs. queue_weight xs v)"
    using assms(5) by (induction vs) (fastforce simp: Suc_le_eq intro: add_less_mono)+
  moreover have "tq_pressure xs = tq_pressure ?ys + (\<Sum>v\<leftarrow>vs. queue_weight xs v)"
    using tq_pressure_victims [OF d, of 8] vs(1) by simp
  moreover have sync: "synced ?st ?ys" using synced_victims [OF assms(3) vs(2)] by simp
  moreover have "cache_ok E tq_synced ?st" using assms(2) sync by (auto simp: cache_ok_def tq_synced_def)
  ultimately show ?thesis
    using squeeze_victims_pressure [OF assms(1) _ sync _ gone] d vs(1) by fastforce
qed

lemma insert_inner_total:
  assumes "codec_ok (arr E)"
  shows "cache_ok E tq_synced st \<Longrightarrow> pending E i batch a st \<Longrightarrow> synced st xs \<Longrightarrow>
    tq_pressure xs + entry_rank batch < n \<Longrightarrow>
    insert_inner E n i batch st \<noteq> Running"
proof (induction n arbitrary: batch st xs)
  case 0
  then show ?case by simp
next
  case (Suc n)
  show ?case
  proof (cases "fits E i batch st")
    case True
    then show ?thesis using try_insert_ok [OF Suc.prems(1) True] by auto
  next
    case False
    have r: "entry_rank batch \<noteq> 0" using fits_disk [OF Suc.prems(1)] False by blast
    obtain vs p where p: "op_find_victim (pol E) 8 (c_policy st) = Some (vs, p)"
      "tq_synced p (types_of (ix_map (c_index st)))"
      using cache.ix_find_victim Suc.prems(1) unfolding cache_ok_def by blast
    let ?st2 = "st\<lparr>c_policy := p\<rparr>"
    have ok2: "cache_ok E tq_synced ?st2" using Suc.prems(1) p(2) by (simp add: cache_ok_def)
    have pend2: "pending E i batch a ?st2" using Suc.prems(2) by (simp add: pending_def)
    note tried = try_insert_full [OF Suc.prems(1) False]
    show ?thesis
    proof (cases "vs = []")
      case True
      have rep: "tq_rep (c_policy st) xs" using Suc.prems(3) by (simp add: synced_at_def)
      have "evictable xs = []" "tq_rep p (spec_drop 8 xs)"
        using liquid_find_victim_rep [OF rep, of 8] p(1) True by (auto simp: pol_liquid liquid_ops_def)
      then have sync2: "synced ?st2 xs"
        using synced_victims [OF Suc.prems(3), of p 8] evictable_Nil [of xs 8] by simp
      obtain batch' st3 where w: "write_in_memory_batch_to_disk E i batch ?st2 = Ok (batch', st3)"
        "cache_ok E tq_synced st3" "pending E i batch' a st3" "c_index st3 = c_index ?st2"
        "c_policy st3 = c_policy ?st2" "entry_rank batch' < entry_rank batch"
        using write_in_memory_ok [OF assms ok2 pend2 r] by blast
      have "synced st3 xs" using sync2 w(4,5) by (simp add: synced_at_def)
      with Suc.IH [OF w(2,3)] w(6) Suc.prems(4) tried p(1) True w(1) show ?thesis by simp
    next
      case False
      obtain st3 where v: "squeeze_victims E vs ?st2 = Ok st3" "cache_ok E tq_synced st3" "settled E ?st2 st3"
        using squeeze_victims_ok [OF assms ok2] by blast
      obtain xs3 where "synced st3 xs3" "tq_pressure xs3 < tq_pressure xs"
        using squeeze_round_pressure [OF assms Suc.prems(1,3) p(1) False] v(1) by auto
      with Suc.IH [OF v(2) pending_settled [OF pend2 v(3) r]] Suc.prems(4) tried p(1) False v(1)
      show ?thesis by simp
    qed
  qed
qed

lemma insert_returns:
  assumes "codec_ok (arr E)" and "cache_ok E tq_synced st" and "pending E i batch a st"
    and "insert_fuel st \<le> n"
  shows "insert_inner E n i batch st \<noteq> Running"
proof -
  obtain xs where xs: "synced st xs" using assms(2) by (auto simp: cache_ok_def tq_synced_def)
  then have "tq_pressure xs \<le> 3 * card (tq_tracked (c_policy st))"
    using tq_pressure_le by (auto simp: synced_at_def)
  then have "tq_pressure xs + entry_rank batch < n"
    using assms(4) entry_rank_le3 [of batch] by (simp add: insert_fuel_def)
  then show ?thesis by (rule insert_inner_total [OF assms(1-3) xs])
qed

lemma insert_lives_liquid:
  assumes "codec_ok (arr E)" and "cache_ok E tq_synced st" and "insert_fuel st \<le> n"
  shows "insert_lives E n i (st\<lparr>c_hints := h\<rparr>)" and "read_lives E n i st"
proof -
  have "cache_ok E tq_synced (st\<lparr>c_hints := h, c_compressor := c\<rparr>)"
    "cache_ok E tq_synced (st\<lparr>c_compressor := c\<rparr>)" for c
    using assms(2) by (simp_all add: cache_ok_def)
  then show "insert_lives E n i (st\<lparr>c_hints := h\<rparr>)" and "read_lives E n i st"
    using insert_returns [OF assms(1)] assms(3)
    by (auto simp: insert_lives_def read_lives_def insert_fuel_def pol_liquid liquid_ops_def
      liquid_notify_access_def)
qed

end

section \<open>The default configuration\<close>

interpretation default: liquid_policy_cache "default_env A"
proof -
  have "indexed_policy (pol (default_env A)) tq_synced"
    "squeeze_policy (arr (default_env A)) (squeeze (default_env A))"
    "hydration_policy (arr (default_env A)) (hydrate (default_env A))"
    using liquid_ix.indexed_policy_axioms tse.squeeze_policy_axioms always.hydration_policy_axioms
    by (simp_all add: default_env_def)
  then show "liquid_policy_cache (default_env A)"
    by (simp add: liquid_policy_cache_def liquid_cache_def liquid_policy_cache_axioms_def default_env_def)
qed

section \<open>With policies that keep tracking disk entries it may not return\<close>

text \<open>
  The policy forgets a victim until it is inserted again, and finds a victim whenever it
  tracks anything.
\<close>

locale retaining_cache = liquid_cache E "\<lambda>p m. pinv p"
  + excl: exclusive_policy "pol E" pinv ptracked
  for E :: "('a, 'l, 's, 't, 'c, 'e, 'p) env" and pinv ptracked +
  assumes finds: "pinv p \<Longrightarrow> ptracked p \<noteq> {} \<Longrightarrow> op_find_victim (pol E) 8 p = Some (vs, p') \<Longrightarrow> vs \<noteq> []"
begin

lemma squeeze_victims_tracked:
  assumes "codec_ok (arr E)"
  shows "cache_ok E (\<lambda>p m. pinv p) st \<Longrightarrow> set vs \<subseteq> dom (ix_map (c_index st)) \<Longrightarrow>
    squeeze_victims E vs st = Ok st' \<Longrightarrow> ptracked (c_policy st') = ptracked (c_policy st) \<union> set vs"
proof (induction vs arbitrary: st)
  case Nil
  then show ?case by simp
next
  case (Cons v vs)
  obtain e where e: "ix_map (c_index st) v = Some e" using Cons.prems(2) by auto
  then obtain st1 e' where st1: "squeeze_victim_inner E v st = Ok st1" "cache_ok E (\<lambda>p m. pinv p) st1"
    "squeezed_to E v e e' st st1"
    using squeeze_victim_ok [OF assms Cons.prems(1), of v] by auto
  have "dom (ix_map (c_index st1)) = dom (ix_map (c_index st))"
    using squeezed_to_settled [OF st1(3) e] by (simp add: settled_def)
  moreover have "ptracked (c_policy st1) = insert v (ptracked (c_policy st))"
    using excl.notify_insert_ok [of "c_policy st" v "batch_type_of e'"] Cons.prems(1) st1(3)
    by (auto simp: squeezed_to_def cache_ok_def)
  ultimately show ?case using Cons.IH [OF st1(2)] Cons.prems st1(1) by simp
qed

lemma insert_too_large_runs:
  assumes "codec_ok (arr E)"
    and large: "unat (max_memory_bytes (c_budget st)) < unat (entry_memory_usage_bytes (arr E) batch)"
    and "cache_ok E (\<lambda>p m. pinv p) st" and "ptracked (c_policy st) = dom (ix_map (c_index st))"
    and "dom (ix_map (c_index st)) \<noteq> {}"
  shows "insert_inner E n i batch st = Running"
  using large assms(3-5)
proof (induction n arbitrary: st)
  case 0
  then show ?case by simp
next
  case (Suc n)
  have fin: "finite (dom (ix_map (c_index st)))" using Suc.prems(2) by (simp add: cache_ok_def index_ok_def)
  have "unat (entry_memory_usage_bytes (arr E) batch) \<le> mem_used (arr E) ((ix_map (c_index st))(i \<mapsto> batch))"
    using mem_used_upd_old(1) [of "(ix_map (c_index st))(i \<mapsto> batch)" i batch "arr E"] fin by simp
  then have nofit: "\<not> fits E i batch st" using Suc.prems(1) by (simp add: fits_def)
  obtain vs p where p: "op_find_victim (pol E) 8 (c_policy st) = Some (vs, p)" "pinv p"
    "set vs \<subseteq> ptracked (c_policy st)" "ptracked p = ptracked (c_policy st) - set vs"
    using excl.find_victim_ok [of "c_policy st" 8] excl.find_victim_excl [of "c_policy st" 8] Suc.prems(2)
    by (auto simp: cache_ok_def)
  have vs: "vs \<noteq> []" using finds [OF _ _ p(1)] Suc.prems(2-4) by (auto simp: cache_ok_def)
  let ?st2 = "st\<lparr>c_policy := p\<rparr>"
  have ok2: "cache_ok E (\<lambda>p m. pinv p) ?st2" using Suc.prems(2) p(2) by (simp add: cache_ok_def)
  obtain st3 where st3: "squeeze_victims E vs ?st2 = Ok st3" "cache_ok E (\<lambda>p m. pinv p) st3" "settled E ?st2 st3"
    using squeeze_victims_ok [OF assms(1) ok2] by blast
  have d: "dom (ix_map (c_index st3)) = dom (ix_map (c_index st))"
    using st3(3) by (simp add: settled_def)
  have "ptracked (c_policy st3) = dom (ix_map (c_index st3))"
    using squeeze_victims_tracked [OF assms(1) ok2 _ st3(1)] p(3,4) Suc.prems(3) st3(3)
    by (auto simp: settled_def)
  moreover have "dom (ix_map (c_index st3)) \<noteq> {}"
    "unat (max_memory_bytes (c_budget st3)) < unat (entry_memory_usage_bytes (arr E) batch)"
    using d Suc.prems(1,4) st3(3) by (simp_all add: settled_def del: dom_eq_empty_conv)
  ultimately have "insert_inner E n i batch st3 = Running"
    using Suc.IH [OF _ st3(2)] by blast
  with try_insert_full [OF Suc.prems(2) nofit] p(1) vs st3(1) show ?case by simp
qed

end

lemma lru_finds:
  "lru_inv p \<Longrightarrow> lru_tracked p \<noteq> {} \<Longrightarrow> op_find_victim lru_ops 8 p = Some (vs, p') \<Longrightarrow> vs \<noteq> []"
proof -
  assume "lru_inv p" and t: "lru_tracked p \<noteq> {}" and v: "op_find_victim lru_ops 8 p = Some (vs, p')"
  then obtain xs where xs: "lru_rep p xs" by (auto simp: lru_inv_def)
  with t lru_repD have "xs \<noteq> []" by auto
  with lru_find_victim_rep [OF xs, of 8] v show "vs \<noteq> []" by (auto simp: lru_ops_def)
qed

interpretation lru_cache: retaining_cache "lru_env A" lru_inv lru_tracked
proof -
  have "indexed_policy (pol (lru_env A)) (\<lambda>p m. lru_inv p)"
    "squeeze_policy (arr (lru_env A)) (squeeze (lru_env A))"
    "hydration_policy (arr (lru_env A)) (hydrate (lru_env A))"
    "exclusive_policy (pol (lru_env A)) lru_inv lru_tracked"
    using lru.plain.indexed_policy_axioms tse.squeeze_policy_axioms always.hydration_policy_axioms
      lru.exclusive_policy_axioms
    by (simp_all add: lru_env_def)
  then show "retaining_cache (lru_env A) lru_inv lru_tracked"
    using lru_finds
    by (auto simp: retaining_cache_def liquid_cache_def retaining_cache_axioms_def lru_env_def)
qed

section \<open>FILO gets stuck on its newest entries\<close>

text \<open>
  FILO hands out the entries inserted last and takes them back at the same end. Once the
  eight newest are on disk it finds no others, so an insert that does not fit is retried
  forever even when older entries in memory could make room.
\<close>

interpretation filo_cache: liquid_cache "filo_env A" "\<lambda>p m. queue_inv p"
proof -
  have "indexed_policy (pol (filo_env A)) (\<lambda>p m. queue_inv p)"
    "squeeze_policy (arr (filo_env A)) (squeeze (filo_env A))"
    "hydration_policy (arr (filo_env A)) (hydrate (filo_env A))"
    using filo.plain.indexed_policy_axioms tse.squeeze_policy_axioms always.hydration_policy_axioms
    by (simp_all add: filo_env_def)
  then show "liquid_cache (filo_env A) (\<lambda>p m. queue_inv p)" by (simp add: liquid_cache_def)
qed

lemma filo_squeeze_disk_victims:
  assumes "codec_ok A"
  shows "cache_ok (filo_env A) (\<lambda>p m. queue_inv p) st \<Longrightarrow> queue_rep (c_policy st) ys \<Longrightarrow>
    distinct vs \<Longrightarrow> set vs \<inter> set ys = {} \<Longrightarrow>
    \<forall>v \<in> set vs. \<exists>e. ix_map (c_index st) v = Some e \<and> entry_rank e = 0 \<Longrightarrow>
    \<exists>st'. squeeze_victims (filo_env A) vs st = Ok st' \<and> cache_ok (filo_env A) (\<lambda>p m. queue_inv p) st'
      \<and> queue_rep (c_policy st') (rev vs @ ys) \<and> ix_map (c_index st') = ix_map (c_index st)
      \<and> max_memory_bytes (c_budget st') = max_memory_bytes (c_budget st)"
proof (induction vs arbitrary: st ys)
  case Nil
  then show ?case by simp
next
  case (Cons v vs)
  obtain e where e: "ix_map (c_index st) v = Some e" "entry_rank e = 0" using Cons.prems(5) by auto
  have arr: "arr (filo_env A) = A" by (simp add: filo_env_def)
  obtain st1 e' where st1: "squeeze_victim_inner (filo_env A) v st = Ok st1"
    "cache_ok (filo_env A) (\<lambda>p m. queue_inv p) st1" "squeezed_to (filo_env A) v e e' st st1"
    using filo_cache.squeeze_victim_ok [of A st v] Cons.prems(1) e(1) assms arr by auto
  have ix: "ix_map (c_index st1) = ix_map (c_index st)"
    using st1(3) e by (auto simp: squeezed_to_def)
  have "queue_rep (c_policy st1) (v # remove1 v ys)"
    using insert_front_rep [OF Cons.prems(2), of v] st1(3)
    by (auto simp: squeezed_to_def filo_env_def filo_ops_def filo_notify_insert_def)
  then have rep: "queue_rep (c_policy st1) (v # ys)" using Cons.prems(4) by (simp add: remove1_idem)
  obtain st' where "squeeze_victims (filo_env A) vs st1 = Ok st'"
    "cache_ok (filo_env A) (\<lambda>p m. queue_inv p) st'" "queue_rep (c_policy st') (rev vs @ v # ys)"
    "ix_map (c_index st') = ix_map (c_index st1)"
    "max_memory_bytes (c_budget st') = max_memory_bytes (c_budget st1)"
    using Cons.IH [OF st1(2) rep] Cons.prems(3-5) ix by auto
  with st1 ix show ?case by (auto simp: squeezed_to_def)
qed

lemma take8_cycle: "set (take 8 (rev (take 8 xs) @ drop 8 xs)) = set (take (8::nat) xs)"
  by (cases "length xs \<le> 8") (auto simp: min_def)

lemma filo_stuck:
  assumes "codec_ok A"
  shows "cache_ok (filo_env A) (\<lambda>p m. queue_inv p) st \<Longrightarrow> queue_rep (c_policy st) xs \<Longrightarrow> xs \<noteq> [] \<Longrightarrow>
    \<forall>v \<in> set (take 8 xs). \<exists>e. ix_map (c_index st) v = Some e \<and> entry_rank e = 0 \<Longrightarrow>
    \<not> fits (filo_env A) i batch st \<Longrightarrow> insert_inner (filo_env A) n i batch st = Running"
proof (induction n arbitrary: st xs)
  case 0
  then show ?case by simp
next
  case (Suc n)
  obtain p where p: "op_find_victim (pol (filo_env A)) 8 (c_policy st) = Some (take 8 xs, p)"
    "queue_rep p (drop 8 xs)"
    using queue_find_victim_rep(1) [OF Suc.prems(2), of 8] by (auto simp: filo_env_def filo_ops_def)
  let ?st2 = "st\<lparr>c_policy := p\<rparr>"
  have ok2: "cache_ok (filo_env A) (\<lambda>p m. queue_inv p) ?st2"
    using Suc.prems(1) p(2) by (auto simp: cache_ok_def queue_inv_def)
  have "distinct xs" using queue_rep_distinct [OF Suc.prems(2)] .
  then have "distinct (take 8 xs)" "set (take 8 xs) \<inter> set (drop 8 xs) = {}"
    using set_take_disj_set_drop_if_distinct [of xs 8 8] by auto
  then obtain st3 where st3: "squeeze_victims (filo_env A) (take 8 xs) ?st2 = Ok st3"
    "cache_ok (filo_env A) (\<lambda>p m. queue_inv p) st3"
    "queue_rep (c_policy st3) (rev (take 8 xs) @ drop 8 xs)" "ix_map (c_index st3) = ix_map (c_index st)"
    "max_memory_bytes (c_budget st3) = max_memory_bytes (c_budget st)"
    using filo_squeeze_disk_victims [OF assms ok2, of "drop 8 xs" "take 8 xs"] p(2) Suc.prems(4) by auto
  have "insert_inner (filo_env A) n i batch st3 = Running"
    by (rule Suc.IH [OF st3(2,3)]) (use Suc.prems(3-5) st3(4,5) take8_cycle [of xs] in \<open>auto simp: fits_def\<close>)
  with filo_cache.try_insert_full [OF Suc.prems(1,5)] p(1) st3(1) Suc.prems(3) show ?case by simp
qed

end
