(* ===== verification/SampleArrays.thy ===== *)
theory SampleArrays
  imports CacheProgress "HOL-Library.AList"
begin

text \<open>
  A concrete instance of the array operations that satisfies \<open>codec_ok\<close>, so that the results
  about the cache can be applied to concrete inputs. An Arrow array is a list of bytes, a
  Liquid array is its own encoding, squeezing keeps the length in memory and everything else
  on disk; predicates compare with a byte. Sizes are capped at a kilobyte. Likewise
  \<open>alist_congee\<close> is an association list in the role of the radix tree.
\<close>

definition sample_size :: "bytes \<Rightarrow> usize" where
  "sample_size a = of_nat (min (length a) 1024)"

definition sample_filter :: "bytes \<Rightarrow> bool list \<Rightarrow> bytes option" where
  "sample_filter a bs = (if length bs = length a then Some (map fst (filter snd (zip a bs))) else None)"

text \<open>
  The arrays for any data type and any expressions with a meaning \<open>sat\<close> on bytes; Liquid arrays do
  not evaluate the expressions that \<open>left_open\<close> names.
\<close>

definition byte_arrays ::
  "'t \<Rightarrow> ('e \<Rightarrow> u8 \<Rightarrow> bool option) \<Rightarrow> ('e \<Rightarrow> bool) \<Rightarrow> (bytes, bytes, nat, 't, unit, 'e) arrays" where
  "byte_arrays t sat left_open = \<lparr>
     arrow_memory_size = sample_size,
     arrow_data_type = (\<lambda>_. t),
     arrow_len = length,
     arrow_eq = (=),
     arrow_filter = sample_filter,
     new_empty_array = (\<lambda>_. []),
     arrow_to_bytes = Some,
     arrow_of_bytes = Some,
     gc_view_arrays = (\<lambda>_. None),
     phys_eval = (\<lambda>e a. map (sat e) a),
     liquid_memory_size = sample_size,
     liquid_data_type = (\<lambda>_. t),
     liquid_len = length,
     liquid_to_bytes = id,
     liquid_of_bytes = (\<lambda>_. Some),
     liquid_to_arrow = id,
     liquid_filter = (\<lambda>l bs. case sample_filter l bs of Some r \<Rightarrow> r | None \<Rightarrow> []),
     liquid_try_eval = (\<lambda>l e bs. if left_open e then None else map_option (map (sat e)) (sample_filter l bs)),
     liquid_squeeze = (\<lambda>l h. case h of None \<Rightarrow> None | Some _ \<Rightarrow> Some (length l, l)),
     squeezed_memory_size = (\<lambda>_. 8),
     squeezed_data_type = (\<lambda>_. t),
     squeezed_len = id,
     squeezed_backing_of = (\<lambda>_. BackLiquid),
     squeezed_to_arrow = (\<lambda>s d. d),
     squeezed_filter = (\<lambda>s d bs. Option.bind d (\<lambda>b. sample_filter b bs)),
     squeezed_try_eval = (\<lambda>s d e bs. Some None),
     squeezed_date32 = (\<lambda>_. None),
     squeezed_component = (\<lambda>_. []),
     squeezed_is_variant = (\<lambda>_. False),
     squeezed_contains_path = (\<lambda>_ _. False),
     squeezed_with_paths = (\<lambda>_ _. None),
     squeezed_merge = (\<lambda>s _. s),
     transcode = (\<lambda>c a h. (Some a, c)),
     variant_squeeze = (\<lambda>c a r. (None, c))\<rparr>"

abbreviation sample_arrays :: "(bytes, bytes, nat, unit, unit, u8) arrays" where
  "sample_arrays \<equiv> byte_arrays () (\<lambda>e x. Some (x = e)) (\<lambda>_. False)"

lemma sample_filter_none: "True \<notin> set bs \<Longrightarrow> sample_filter a bs = Some f \<Longrightarrow> f = []"
proof -
  assume "True \<notin> set bs" and f: "sample_filter a bs = Some f"
  then have "filter snd (zip a bs) = []" by (auto simp: filter_empty_conv dest: set_zip_rightD)
  with f show "f = []" by (simp add: sample_filter_def split: if_splits)
qed

lemma sample_filter_total: "length bs = length a \<Longrightarrow> \<exists>f. sample_filter a bs = Some f"
  by (simp add: sample_filter_def)

lemma byte_arrow_ok: "arrow_ok (byte_arrays t sat left_open)"
  using sample_filter_none sample_filter_total
  by (fastforce simp: arrow_ok_def byte_arrays_def)

lemma byte_squeezed: "squeezed_backed (byte_arrays t sat left_open) () (length a) a a"
  using sample_filter_total
  by (auto simp: squeezed_backed_def byte_arrays_def holds_array_def reads_as_def)

lemma byte_liquid_ok: "liquid_ok (byte_arrays t sat left_open)"
proof -
  have "squeezed_backed (byte_arrays t sat left_open) c s b (liquid_to_arrow (byte_arrays t sat left_open) l)"
    if "liquid_squeeze (byte_arrays t sat left_open) l h = Some (s, b)" for c l h s b
    using that byte_squeezed [where a = l] by (auto simp: byte_arrays_def split: option.splits)
  then show ?thesis
    unfolding liquid_ok_def by (auto simp: byte_arrays_def readable_def)
qed

lemma byte_transcode_ok: "transcode_ok (byte_arrays t sat left_open)"
  by (simp add: transcode_ok_def byte_arrays_def readable_def)

lemma byte_codec_ok: "codec_ok (byte_arrays t sat left_open)"
  by (simp add: codec_ok_def byte_arrow_ok byte_liquid_ok byte_transcode_ok)

lemma sample_codec_ok: "codec_ok sample_arrays"
  by (rule byte_codec_ok)

lemma sample_size_le: "unat (sample_size a) \<le> 1024"
  by (simp add: sample_size_def unat_of_nat) 

lemma byte_sizes_fit: "unat m < 2 ^ 63 \<Longrightarrow> sizes_fit (byte_arrays t sat left_open) m"
proof -
  assume m: "unat m < 2 ^ 63"
  have "unat (entry_memory_usage_bytes (byte_arrays t sat left_open) e) \<le> 1024" for e
    using sample_size_le by (cases e) (simp_all add: byte_arrays_def)
  then have "unat m + unat (entry_memory_usage_bytes (byte_arrays t sat left_open) e) < 2 ^ 63 + 1025" for e
    using m by (intro add_strict_mono) (simp_all add: less_Suc_eq_le [symmetric])
  then show ?thesis unfolding sizes_fit_def by (fastforce intro: order.strict_trans)
qed

section \<open>An index on association lists\<close>

definition alist_congee :: "((entry_id \<times> 'v) list, 'v) congee" where
  "alist_congee = \<lparr>art_new = [], art_get = (\<lambda>i t. map_of t i),
     art_insert = (\<lambda>i v t. Some (map_of t i, AList.update i v t)),
     art_remove = (\<lambda>i t. (map_of t i, AList.delete i t)),
     art_keys = (\<lambda>t. remdups (map fst t))\<rparr>"

lemma alist_congee_ok: "congee_ok alist_congee"
  by (auto simp: congee_ok_def alist_congee_def update_conv' delete_conv' map_of_eq_None_iff)

end
