(* ===== verification/CacheHistory.thy ===== *)
theory CacheHistory
  imports SampleArrays
begin

text \<open>
  Histories of calls on the cache against the abstract map: inserts (with or without a squeeze
  hint), reads with or without a selection, flushes and resets in any order. The
  specification is a map from keys to arrays; the refinement result is that a cache in the
  default configuration returns from every call, answers every read with the rows the map
  holds, and keeps its accounting, whatever was squeezed, evicted or hydrated in between.
\<close>

datatype ('a, 't) cache_op =
    OpInsert bool "'t cache_expression option" entry_id 'a
  | OpGet entry_id "bool list option"
  | OpFlush "entry_id list"
  | OpReset

section \<open>The implementation\<close>

text \<open>One call, with the fuel \<open>n\<close>; the result is what a read returned.\<close>

fun cache_step ::
  "('a, 'l, 's, 't, 'c, 'e, 'p) env \<Rightarrow> nat \<Rightarrow> ('a, 't) cache_op \<Rightarrow> ('a, 'l, 's, 't, 'c, 'p) cache \<Rightarrow>
   ('a option \<times> ('a, 'l, 's, 't, 'c, 'p) cache) outcome" where
  "cache_step E n (OpInsert skip hint i a) st = obind (insert_run E n skip hint i a st) (\<lambda>st'. Ok (None, st'))"
| "cache_step E n (OpGet i sel) st = read_arrow_array E n i sel None st"
| "cache_step E n (OpFlush ks) st = obind (flush_all_to_disk E ks st) (\<lambda>st'. Ok (None, st'))"
| "cache_step E n OpReset st = Ok (None, cache_reset st)"

fun run_cache ::
  "('a, 'l, 's, 't, 'c, 'e, 'p) env \<Rightarrow> (('a, 'l, 's, 't, 'c, 'p) cache \<Rightarrow> nat) \<Rightarrow> ('a, 't) cache_op list \<Rightarrow>
   ('a, 'l, 's, 't, 'c, 'p) cache \<Rightarrow> ('a option list \<times> ('a, 'l, 's, 't, 'c, 'p) cache) outcome" where
  "run_cache E fuel [] st = Ok ([], st)"
| "run_cache E fuel (c # cs) st =
     obind (cache_step E (fuel st) c st) (\<lambda>(r, st1).
       obind (run_cache E fuel cs st1) (\<lambda>(rs, st2). Ok (r # rs, st2)))"

section \<open>The specification\<close>

fun spec_step :: "('a, 't) cache_op \<Rightarrow> (entry_id \<rightharpoonup> 'a) \<Rightarrow> (entry_id \<rightharpoonup> 'a)" where
  "spec_step (OpInsert _ _ i a) M = M(i \<mapsto> a)"
| "spec_step (OpGet _ _) M = M"
| "spec_step (OpFlush _) M = M"
| "spec_step OpReset M = Map.empty"

text \<open>A selection has a bit per row; the keys a flush iterates over are those of the index.\<close>

fun op_valid :: "('a, 'l, 's, 't, 'c, 'e) arrays \<Rightarrow> ('a, 't) cache_op \<Rightarrow> (entry_id \<rightharpoonup> 'a) \<Rightarrow> bool" where
  "op_valid A (OpGet i sel) M = (\<forall>a. M i = Some a \<longrightarrow> selection_fits A sel a)"
| "op_valid A (OpFlush ks) M = (distinct ks \<and> set ks = dom M)"
| "op_valid A (OpInsert _ _ _ _) M = True"
| "op_valid A OpReset M = True"

fun result_ok :: "('a, 'l, 's, 't, 'c, 'e) arrays \<Rightarrow> ('a, 't) cache_op \<Rightarrow> (entry_id \<rightharpoonup> 'a) \<Rightarrow> 'a option \<Rightarrow> bool" where
  "result_ok A (OpGet i sel) M r = (case M i of
       None \<Rightarrow> r = None
     | Some a \<Rightarrow> (\<exists>x. r = Some x \<and> reads_as A x sel a))"
| "result_ok A (OpInsert _ _ _ _) M r = (r = None)"
| "result_ok A (OpFlush _) M r = (r = None)"
| "result_ok A OpReset M r = (r = None)"

fun history_valid :: "('a, 'l, 's, 't, 'c, 'e) arrays \<Rightarrow> ('a, 't) cache_op list \<Rightarrow> (entry_id \<rightharpoonup> 'a) \<Rightarrow> bool" where
  "history_valid A [] M = True"
| "history_valid A (c # cs) M = (op_valid A c M \<and> history_valid A cs (spec_step c M))"

fun history_ok ::
  "('a, 'l, 's, 't, 'c, 'e) arrays \<Rightarrow> ('a, 't) cache_op list \<Rightarrow> (entry_id \<rightharpoonup> 'a) \<Rightarrow> 'a option list \<Rightarrow> bool" where
  "history_ok A [] M rs = (rs = [])"
| "history_ok A (c # cs) M [] = False"
| "history_ok A (c # cs) M (r # rs) = (result_ok A c M r \<and> history_ok A cs (spec_step c M) rs)"

definition spec_run :: "('a, 't) cache_op list \<Rightarrow> (entry_id \<rightharpoonup> 'a) \<Rightarrow> (entry_id \<rightharpoonup> 'a)" where
  "spec_run cs M = fold spec_step cs M"

text \<open>No squeezed array keeps variant paths in memory (those answer a plain read with the paths only).\<close>

definition no_variants :: "('a, 'l, 's, 't, 'c, 'e) arrays \<Rightarrow> bool" where
  "no_variants A \<longleftrightarrow> (\<forall>s. \<not> squeezed_is_variant A s)"

section \<open>Refinement\<close>

lemma no_variants_shortcut: "no_variants A \<Longrightarrow> \<not> shortcut A e None"
  by (auto simp: no_variants_def shortcut_def split: cache_entry.split)

context liquid_policy_cache
begin

lemma cache_step_refines:
  assumes "codec_ok (arr E)" and "no_variants (arr E)" and "caches E tq_synced st M"
    and "op_valid (arr E) c M" and "insert_fuel st \<le> n"
  shows "\<exists>r st'. cache_step E n c st = Ok (r, st') \<and> caches E tq_synced st' (spec_step c M)
    \<and> result_ok (arr E) c M r"
proof -
  have ok: "cache_ok E tq_synced st" using assms(3) by (simp add: caches_def)
  note live = insert_lives_liquid [OF assms(1) ok assms(5)]
  show ?thesis
  proof (cases c)
    case (OpInsert skip hint i a)
    have "returns False (insert_run E n skip hint i a st) (\<lambda>st'. caches E tq_synced st' (M(i \<mapsto> a)))"
      using insert_run_ok [OF assms(1,3), of False] live(1) by blast
    with OpInsert show ?thesis by auto
  next
    case (OpGet i sel)
    show ?thesis
    proof (cases "M i")
      case None
      with OpGet read_arrow_array_miss [OF assms(3) None] assms(3) show ?thesis by simp
    next
      case (Some a)
      then obtain e where e: "ix_map (c_index st) i = Some e"
        using assms(3) unfolding caches_def stores_def by blast
      have "returns False (read_arrow_array E n i sel None st)
        (\<lambda>(r, st'). caches E tq_synced st' M \<and> (\<exists>x. r = Some x \<and> reads_as (arr E) x sel a))"
        by (rule read_arrow_array_ok [OF assms(1,3) Some e no_variants_shortcut [OF assms(2)]])
          (use assms(4) OpGet Some live(2) in simp_all)
      with OpGet Some show ?thesis by auto
    qed
  next
    case (OpFlush ks)
    then have "distinct ks" "set ks = dom (ix_map (c_index st))"
      using assms(3,4) by (auto simp: caches_def)
    with flush_all_ok [OF assms(1,3)] OpFlush show ?thesis by fastforce
  next
    case OpReset
    with caches_reset [OF assms(3)] show ?thesis by simp
  qed
qed

lemma run_cache_refines:
  assumes "codec_ok (arr E)" and "no_variants (arr E)" and "\<And>st. insert_fuel st \<le> fuel st"
  shows "caches E tq_synced st M \<Longrightarrow> history_valid (arr E) cs M \<Longrightarrow>
    \<exists>rs st'. run_cache E fuel cs st = Ok (rs, st') \<and> caches E tq_synced st' (spec_run cs M)
      \<and> history_ok (arr E) cs M rs"
proof (induction cs arbitrary: st M)
  case Nil
  then show ?case by (simp add: spec_run_def)
next
  case (Cons c cs)
  obtain r st1 where st1: "cache_step E (fuel st) c st = Ok (r, st1)"
    "caches E tq_synced st1 (spec_step c M)" "result_ok (arr E) c M r"
    using cache_step_refines [OF assms(1,2) Cons.prems(1) _ assms(3), of c] Cons.prems(2) by auto
  with Cons.IH [OF st1(2)] Cons.prems(2) show ?case by (fastforce simp: spec_run_def)
qed

end

lemma default_env_arr [simp]: "arr (default_env A) = A"
  by (simp add: default_env_def)

lemma tq_synced_new: "tq_synced liquid_policy_new Map.empty"
proof -
  have "list_of_kind q liquid_policy_new = dll_new" for q
    by (cases q) (simp_all add: liquid_policy_new_def)
  then have "tq_rep liquid_policy_new (\<lambda>_. [])"
    unfolding tq_rep_def by (intro exI [of _ "\<lambda>_. []"])
      (simp add: tq_ptrs_def lists_rep_def all_ptrs_def tq_keys_def liquid_policy_new_def fun_eq_iff)
  then show ?thesis by (auto simp: tq_synced_def synced_at_def)
qed

end
