(* ===== verification/SampleRun.thy ===== *)
theory SampleRun
  imports CacheHistory
begin

text \<open>
  A concrete run of the cache in its default configuration on \<open>sample_arrays\<close>: with a limit of
  three bytes the second insert has to squeeze the first entry out of memory. \<open>sample_state\<close>
  is a state in the middle of the run; the results about single operations are applied to it.
\<close>

definition sample_inserts :: "(bytes, unit) cache_op list" where
  "sample_inserts = [OpInsert False None (EntryID 1) [7, 8],
     OpInsert True (Some PredicateColumn) (EntryID 2) [9, 10]]"

definition sample_history :: "(bytes, unit) cache_op list" where
  "sample_history = sample_inserts @ [OpGet (EntryID 1) (Some [True, False]),
     OpFlush [EntryID 1, EntryID 2], OpGet (EntryID 2) None, OpGet (EntryID 3) None]"

definition sample_state :: "(bytes, bytes, nat, unit, unit, liquid_queue_state) cache" where
  "sample_state = (case run_cache (default_env sample_arrays) insert_fuel sample_inserts
      (cache_new 3 liquid_policy_new ()) of Ok (rs, st) \<Rightarrow> st | _ \<Rightarrow> cache_new 3 liquid_policy_new ())"

abbreviation sample_map :: "entry_id \<rightharpoonup> bytes" where
  "sample_map \<equiv> [EntryID 1 \<mapsto> [7, 8], EntryID 2 \<mapsto> [9, 10]]"

lemma sample_no_variants: "no_variants sample_arrays"
  by (simp add: no_variants_def byte_arrays_def)

lemma sample_sizes3: "sizes_fit sample_arrays 3"
  by (rule byte_sizes_fit) simp

lemma sample_history_valid: "history_valid sample_arrays sample_history Map.empty"
  by (auto simp: sample_history_def sample_inserts_def selection_fits_def byte_arrays_def)

lemma sample_state_caches: "caches (default_env sample_arrays) tq_synced sample_state sample_map"
proof -
  have "history_valid sample_arrays sample_inserts Map.empty" by (simp add: sample_inserts_def)
  then obtain rs st where "run_cache (default_env sample_arrays) insert_fuel sample_inserts
      (cache_new 3 liquid_policy_new ()) = Ok (rs, st)"
    "caches (default_env sample_arrays) tq_synced st (spec_run sample_inserts Map.empty)"
    using default.run_cache_refines [of sample_arrays insert_fuel "cache_new 3 liquid_policy_new ()"
        Map.empty sample_inserts] caches_new [of tq_synced liquid_policy_new "default_env sample_arrays" 3 "()"]
      tq_synced_new sample_codec_ok sample_no_variants sample_sizes3
    by auto
  then show ?thesis by (simp add: sample_state_def sample_inserts_def spec_run_def)
qed

lemma sample_selection: "selection_fits sample_arrays (Some [True, False]) [7, 8]"
  by (simp add: selection_fits_def byte_arrays_def)

end
