(* ===== verification/CacheLimit.thy ===== *)
theory CacheLimit
  imports CacheHistory
begin

text \<open>
  The limit a cache was built with is never changed by any operation, whatever the policies do
  and whether or not their contracts hold: only the counters of the budget move. Together with
  \<open>cache_ok\<close> this bounds the memory of every reachable state by the configured limit.
\<close>

abbreviation cache_limit :: "('a, 'l, 's, 't, 'c, 'p) cache \<Rightarrow> usize" where
  "cache_limit st \<equiv> max_memory_bytes (c_budget st)"

lemma try_reserve_limit: "try_reserve_memory b r = Inr b' \<Longrightarrow> max_memory_bytes b' = max_memory_bytes b"
  by (auto simp: try_reserve_memory_def Let_def split: if_splits)

lemma try_update_limit: "try_update_memory_usage b x y = Inr b' \<Longrightarrow> max_memory_bytes b' = max_memory_bytes b"
  by (auto simp: try_update_memory_usage_def dest: try_reserve_limit split: if_splits)

lemma try_insert_limit: "try_insert E i e st = Ok (r, st') \<Longrightarrow> cache_limit st' = cache_limit st"
  by (auto simp: try_insert_def commit_insert_def Let_def obind_Ok_conv expect_Ok_conv
    dest: try_reserve_limit try_update_limit split: option.splits sum.splits)

lemma write_opt_limit [simp]: "cache_limit (write_opt i b st) = cache_limit st"
  by (simp add: write_opt_def write_batch_to_disk_def add_used_disk_bytes_def split: option.split)

lemma write_batch_limit [simp]: "cache_limit (write_batch_to_disk i b st) = cache_limit st"
  by (simp add: write_batch_to_disk_def add_used_disk_bytes_def)

lemma write_in_memory_limit:
  "write_in_memory_batch_to_disk E i e st = Ok (e', st') \<Longrightarrow> cache_limit st' = cache_limit st"
  by (cases e) (auto simp: obind_Ok_conv)

lemma squeeze_loop_limit: "squeeze_loop E n i h e st = Ok st' \<Longrightarrow> cache_limit st' = cache_limit st"
proof (induction n arbitrary: e st)
  case (Suc n)
  obtain e' b c r st2 where t: "try_insert E i e' (write_opt i b (st\<lparr>c_compressor := c\<rparr>)) = Ok (r, st2)"
    "(case r of Inr _ \<Rightarrow> Ok st2 | Inl e'' \<Rightarrow> squeeze_loop E n i h e'' st2) = Ok st'"
    using Suc.prems by (auto simp: obind_Ok_conv Let_def)
  with Suc.IH try_insert_limit [OF t(1)] show ?case by (cases r) auto
qed simp

lemma squeeze_victims_limit: "squeeze_victims E vs st = Ok st' \<Longrightarrow> cache_limit st' = cache_limit st"
  by (induction vs arbitrary: st) (auto simp: obind_Ok_conv squeeze_victim_inner_def
    dest!: squeeze_loop_limit split: option.splits)

lemma insert_inner_limit: "insert_inner E n i e st = Ok st' \<Longrightarrow> cache_limit st' = cache_limit st"
proof (induction n arbitrary: e st)
  case (Suc n)
  obtain r st1 where t: "try_insert E i e st = Ok (r, st1)" using Suc.prems by (auto simp: obind_Ok_conv)
  show ?case
  proof (cases r)
    case (Inl e')
    then obtain vs p where vs: "expect (op_find_victim (pol E) 8 (c_policy st1)) = Ok (vs, p)"
      using Suc.prems t by (auto simp: obind_Ok_conv)
    with Inl Suc.prems t Suc.IH try_insert_limit [OF t] show ?thesis
      by (cases "vs = []") (auto simp: obind_Ok_conv dest!: squeeze_victims_limit write_in_memory_limit)
  qed (use Suc.prems t try_insert_limit [OF t] in simp)
qed simp

lemma insert_run_limit: "insert_run E n sk h i a st = Ok st' \<Longrightarrow> cache_limit st' = cache_limit st"
  by (auto simp: insert_run_def Let_def add_squeeze_hint_def dest!: insert_inner_limit split: option.splits)

lemma maybe_hydrate_limit: "maybe_hydrate E n i e m x st = Ok st' \<Longrightarrow> cache_limit st' = cache_limit st"
  by (auto simp: maybe_hydrate_def dest!: insert_inner_limit split: prod.splits option.splits)

lemma notify_access_limit: "notify_access E i e st = Ok st' \<Longrightarrow> cache_limit st' = cache_limit st"
  by (auto simp: notify_access_def obind_Ok_conv)

lemma read_disk_array_limit:
  "read_disk_array E n e i x sel st = Ok (r, st') \<Longrightarrow> cache_limit st' = cache_limit st"
  by (cases e) (auto simp: obind_Ok_conv dest!: maybe_hydrate_limit split: if_splits)

lemma read_squeezed_array_limit:
  assumes "read_squeezed_array E n s i x sel st = Ok (r, st')"
  shows "cache_limit st' = cache_limit st"
proof -
  have "cache_limit st1 = cache_limit st" if "try_read_squeezed_variant_array E n s i x sel st = Ok (v, st1)" for v st1
    using that by (auto simp: try_read_squeezed_variant_array_def obind_Ok_conv dest!: maybe_hydrate_limit
      split: option.splits if_splits)
  with assms show ?thesis
    by (fastforce simp: read_squeezed_array_def obind_Ok_conv split: option.splits)
qed

lemma read_arrow_array_limit:
  assumes "read_arrow_array E n i sel x st = Ok (r, st')"
  shows "cache_limit st' = cache_limit st"
proof (cases "ix_map (c_index st) i")
  case None
  with assms show ?thesis by (simp add: read_arrow_array_def)
next
  case (Some e)
  with assms show ?thesis
    by (cases e) (auto simp: read_arrow_array_def obind_Ok_conv simp del: read_disk_array.simps dest!: notify_access_limit
      read_disk_array_limit read_squeezed_array_limit)
qed

lemma flush_entry_limit: "flush_entry E i e st = Ok (r, st') \<Longrightarrow> cache_limit st' = cache_limit st"
  by (cases e) (auto simp: obind_Ok_conv dest!: try_insert_limit)

lemma flush_entries_limit: "flush_entries E es st = Ok st' \<Longrightarrow> cache_limit st' = cache_limit st"
proof (induction es arbitrary: st)
  case (Cons x es)
  obtain r st1 where t: "flush_entry E (fst x) (snd x) st = Ok (r, st1)"
    using Cons.prems by (cases x) (auto simp: obind_Ok_conv)
  with Cons flush_entry_limit [OF t] show ?case by (cases x; cases r) auto
qed simp

lemma cache_step_limit: "cache_step E n c st = Ok (r, st') \<Longrightarrow> cache_limit st' = cache_limit st"
  by (cases c) (auto simp: obind_Ok_conv flush_all_to_disk_def cache_reset_def reset_usage_def
    dest!: insert_run_limit read_arrow_array_limit flush_entries_limit)

lemma run_cache_limit: "run_cache E fuel cs st = Ok (rs, st') \<Longrightarrow> cache_limit st' = cache_limit st"
  by (induction cs arbitrary: st rs) (auto simp: obind_Ok_conv dest!: cache_step_limit)

end
