(* ===== verification/HandPolicies.thy ===== *)
theory HandPolicies
  imports CachePolicy "HOL-Library.Multiset"
begin

text \<open>
  The two policies with a hand, CLOCK (\<^verbatim>\<open>src/storage/src/cache/policies/cache/clock.rs\<close>) and SIEVE
  (\<^verbatim>\<open>src/storage/src/cache/policies/cache/sieve.rs\<close>). \<open>ClockNode\<close> and \<open>SieveNode\<close> have the same
  shape, an entry and a flag (\<open>referenced\<close>, \<open>visited\<close>), and so have the two state structs; they
  share the records \<open>hand_node\<close> and \<open>hand_state\<close> here. The inner loop of \<open>find_victim\<close> clears
  one flag per round before it evicts, so one more round than there are nodes is enough; the
  fuel is the number of nodes ever allocated plus one.

  Both refine the same abstract machine, a list cut in two at the hand (\<open>before\<close> the hand and
  \<open>from\<close> the hand on): CLOCK walks the linked list forwards, SIEVE walks it backwards.
\<close>

section \<open>State\<close>

record hand_node =
  hn_entry_id :: entry_id
  hn_flag :: bool

record hand_state =
  hs_map :: "entry_id \<rightharpoonup> ptr"
  hs_list :: dll
  hs_hand :: "ptr option"
  hs_total_size :: usize
  hs_heap :: "hand_node heap"

definition hand_state_default :: hand_state where
  "hand_state_default = \<lparr>hs_map = Map.empty, hs_list = dll_new, hs_hand = None,
     hs_total_size = 0, hs_heap = heap_empty\<rparr>"

fun or_else :: "'x option \<Rightarrow> 'x option \<Rightarrow> 'x option" where
  "or_else (Some x) y = Some x"
| "or_else None y = y"

section \<open>CLOCK\<close>

definition clock_entry_size :: "(entry_id \<Rightarrow> usize) option \<Rightarrow> entry_id \<Rightarrow> usize" where
  "clock_entry_size size_of i = (case size_of of Some f \<Rightarrow> f i | None \<Rightarrow> 1)"

fun clock_scan ::
  "(entry_id \<Rightarrow> usize) option \<Rightarrow> nat \<Rightarrow> ptr option \<Rightarrow> hand_state \<Rightarrow> (entry_id option \<times> hand_state) option" where
  "clock_scan size_of 0 cursor s = None"
| "clock_scan size_of (Suc k) None s = Some (None, s\<lparr>hs_hand := None\<rparr>)"
| "clock_scan size_of (Suc k) (Some handle) s = do {
     n \<leftarrow> deref (hs_heap s) handle;
     if hn_flag (ndata n) then
       (let h = store handle (n\<lparr>ndata := (ndata n)\<lparr>hn_flag := False\<rparr>\<rparr>) (hs_heap s);
            nxt = or_else (nnext n) (head (hs_list s))
        in clock_scan size_of k nxt (s\<lparr>hs_heap := h, hs_hand := nxt\<rparr>))
     else do {
       let victim_id = hn_entry_id (ndata n);
       _ \<leftarrow> hs_map s victim_id;
       (h1, l) \<leftarrow> unlink handle (hs_heap s) (hs_list s);
       h2 \<leftarrow> drop_boxed_node handle h1;
       Some (Some victim_id, s\<lparr>hs_map := (hs_map s)(victim_id := None), hs_heap := h2, hs_list := l,
         hs_total_size := hs_total_size s - clock_entry_size size_of victim_id,
         hs_hand := or_else (nnext n) (head l)\<rparr>)
     }
   }"

fun clock_loop ::
  "(entry_id \<Rightarrow> usize) option \<Rightarrow> nat \<Rightarrow> ptr option \<Rightarrow> hand_state \<Rightarrow> (entry_id list \<times> hand_state) option" where
  "clock_loop size_of 0 cursor s = Some ([], s)"
| "clock_loop size_of (Suc cnt) cursor s = do {
     (v, s1) \<leftarrow> clock_scan size_of (Suc (brk (hs_heap s))) cursor s;
     let evicted = (case v of Some i \<Rightarrow> [i] | None \<Rightarrow> []);
     if hs_hand s1 = None then Some (evicted, s1)
     else do {
       (vs, s2) \<leftarrow> clock_loop size_of cnt (hs_hand s1) s1;
       Some (evicted @ vs, s2)
     }
   }"

definition clock_find_victim ::
  "(entry_id \<Rightarrow> usize) option \<Rightarrow> nat \<Rightarrow> hand_state \<Rightarrow> (entry_id list \<times> hand_state) option" where
  "clock_find_victim size_of cnt s =
     (if cnt = 0 then Some ([], s)
      else clock_loop size_of cnt (or_else (hs_hand s) (head (hs_list s))) s)"

definition set_flag :: "ptr \<Rightarrow> hand_state \<Rightarrow> hand_state option" where
  "set_flag p s = do {
     n \<leftarrow> deref (hs_heap s) p;
     Some (s\<lparr>hs_heap := store p (n\<lparr>ndata := (ndata n)\<lparr>hn_flag := True\<rparr>\<rparr>) (hs_heap s)\<rparr>)
   }"

definition clock_notify_insert ::
  "(entry_id \<Rightarrow> usize) option \<Rightarrow> entry_id \<Rightarrow> batch_type \<Rightarrow> hand_state \<Rightarrow> hand_state option" where
  "clock_notify_insert size_of i _ s =
     (case hs_map s i of
        Some existing \<Rightarrow> set_flag existing s
      | None \<Rightarrow>
          (let (new_ptr, h) = node_new \<lparr>hn_entry_id = i, hn_flag = True\<rparr> (hs_heap s) in do {
             (h1, l) \<leftarrow> push_back new_ptr h (hs_list s);
             Some (s\<lparr>hs_heap := h1, hs_list := l,
               hs_hand := (if hs_hand s = None then Some new_ptr else hs_hand s),
               hs_map := (hs_map s)(i \<mapsto> new_ptr),
               hs_total_size := hs_total_size s + clock_entry_size size_of i\<rparr>)
           }))"

definition hand_notify_access :: "entry_id \<Rightarrow> batch_type \<Rightarrow> hand_state \<Rightarrow> hand_state option" where
  "hand_notify_access i _ s =
     (case hs_map s i of Some handle \<Rightarrow> set_flag handle s | None \<Rightarrow> Some s)"

definition clock_ops :: "(entry_id \<Rightarrow> usize) option \<Rightarrow> hand_state policy_ops" where
  "clock_ops size_of = \<lparr>op_find_victim = clock_find_victim size_of,
     op_notify_insert = clock_notify_insert size_of, op_notify_access = hand_notify_access\<rparr>"

section \<open>SIEVE\<close>

definition sieve_entry_size :: "entry_id \<Rightarrow> usize" where
  "sieve_entry_size _ = 1"

fun sieve_scan :: "nat \<Rightarrow> ptr \<Rightarrow> hand_state \<Rightarrow> (entry_id \<times> hand_state) option" where
  "sieve_scan 0 hand_ptr s = None"
| "sieve_scan (Suc k) hand_ptr s = do {
     n \<leftarrow> deref (hs_heap s) hand_ptr;
     if hn_flag (ndata n) then do {
       let h = store hand_ptr (n\<lparr>ndata := (ndata n)\<lparr>hn_flag := False\<rparr>\<rparr>) (hs_heap s);
       next_hand \<leftarrow> or_else (nprev n) (tail (hs_list s));
       sieve_scan k next_hand (s\<lparr>hs_heap := h, hs_hand := Some next_hand\<rparr>)
     } else do {
       let victim_id = hn_entry_id (ndata n);
       node_ptr \<leftarrow> hs_map s victim_id;
       (h1, l) \<leftarrow> unlink node_ptr (hs_heap s) (hs_list s);
       h2 \<leftarrow> drop_boxed_node node_ptr h1;
       Some (victim_id, s\<lparr>hs_map := (hs_map s)(victim_id := None), hs_heap := h2, hs_list := l,
         hs_total_size := hs_total_size s - sieve_entry_size victim_id,
         hs_hand := or_else (nprev n) (tail l)\<rparr>)
     }
   }"

fun sieve_find_victim :: "nat \<Rightarrow> hand_state \<Rightarrow> (entry_id list \<times> hand_state) option" where
  "sieve_find_victim 0 s = Some ([], s)"
| "sieve_find_victim (Suc cnt) s =
     (case or_else (hs_hand s) (tail (hs_list s)) of
        None \<Rightarrow> Some ([], s)
      | Some hand_ptr \<Rightarrow> do {
          (v, s1) \<leftarrow> sieve_scan (Suc (brk (hs_heap s))) hand_ptr s;
          (advices, s2) \<leftarrow> sieve_find_victim cnt s1;
          Some (v # advices, s2)
        })"

definition sieve_notify_insert :: "entry_id \<Rightarrow> batch_type \<Rightarrow> hand_state \<Rightarrow> hand_state option" where
  "sieve_notify_insert i _ s =
     (case hs_map s i of
        Some node_ptr \<Rightarrow> set_flag node_ptr s
      | None \<Rightarrow>
          (let was_empty = (head (hs_list s) = None);
               (node_ptr, h) = node_new \<lparr>hn_entry_id = i, hn_flag = False\<rparr> (hs_heap s) in do {
             (h1, l) \<leftarrow> push_front node_ptr h (hs_list s);
             Some (s\<lparr>hs_heap := h1, hs_list := l,
               hs_hand := (if was_empty then Some node_ptr else hs_hand s),
               hs_map := (hs_map s)(i \<mapsto> node_ptr),
               hs_total_size := hs_total_size s + sieve_entry_size i\<rparr>)
           }))"

definition sieve_ops :: "hand_state policy_ops" where
  "sieve_ops = \<lparr>op_find_victim = sieve_find_victim, op_notify_insert = sieve_notify_insert,
     op_notify_access = hand_notify_access\<rparr>"

section \<open>The abstract machine\<close>

type_synonym zipper = "hand_node list \<times> hand_node list"

definition clear :: "hand_node \<Rightarrow> hand_node" where
  "clear x = x\<lparr>hn_flag := False\<rparr>"

text \<open>Move on past a flagged element, clearing its flag; take out the element at the hand.\<close>

fun advance :: "zipper \<Rightarrow> zipper" where
  "advance (as, []) = (as, [])"
| "advance (as, [x]) = ([], as @ [clear x])"
| "advance (as, x # y # bs) = (as @ [clear x], y # bs)"

fun take_out :: "zipper \<Rightarrow> zipper" where
  "take_out (as, []) = (as, [])"
| "take_out (as, [x]) = ([], as)"
| "take_out (as, x # y # bs) = (as, y # bs)"

fun sweep :: "nat \<Rightarrow> zipper \<Rightarrow> zipper" where
  "sweep 0 z = z"
| "sweep (Suc k) (as, []) = (as, [])"
| "sweep (Suc k) (as, x # bs) = (if hn_flag x then sweep k (advance (as, x # bs)) else (as, x # bs))"

definition flags :: "zipper \<Rightarrow> nat" where
  "flags z = length (filter hn_flag (fst z @ snd z))"

text \<open>The elements in the order the hand will meet them.\<close>

definition ahead :: "zipper \<Rightarrow> hand_node list" where
  "ahead z = snd z @ fst z"

text \<open>
  Second chance, on that order: the first unflagged element leaves and the flagged ones before
  it go to the back, cleared; when all are flagged, the first one leaves after a full turn.
\<close>

definition second_chance :: "hand_node list \<Rightarrow> hand_node \<times> hand_node list" where
  "second_chance r = (case dropWhile hn_flag r of
       y # ys \<Rightarrow> (y, ys @ map clear (takeWhile hn_flag r))
     | [] \<Rightarrow> (clear (hd r), map clear (tl r)))"

lemma clear_simps [simp]: "hn_flag (clear x) = False" "hn_entry_id (clear x) = hn_entry_id x"
  by (simp_all add: clear_def)

lemma ahead_advance: "ahead (advance (as, x # bs)) = bs @ as @ [clear x]"
  by (cases bs) (simp_all add: ahead_def)

lemma ahead_take_out: "ahead (take_out (as, x # bs)) = bs @ as"
  by (cases bs) (simp_all add: ahead_def)

lemma advance_nonempty: "snd (advance (as, x # bs)) \<noteq> []"
  by (cases bs) simp_all

lemma flags_advance: "hn_flag x \<Longrightarrow> Suc (flags (advance (as, x # bs))) = flags (as, x # bs)"
  by (cases bs) (simp_all add: flags_def)

lemma second_chance_turn:
  assumes "hn_flag x"
  shows "second_chance (x # r) = second_chance (r @ [clear x])"
proof (cases "dropWhile hn_flag r")
  case Nil
  then have all: "\<forall>y \<in> set r. hn_flag y" by (simp add: dropWhile_eq_Nil_conv)
  then have "dropWhile hn_flag (r @ [clear x]) = [clear x]" "takeWhile hn_flag (r @ [clear x]) = r"
    by (auto simp: dropWhile_append takeWhile_append dropWhile_eq_Nil_conv)
  with assms show ?thesis by (simp add: second_chance_def Nil)
next
  case (Cons y ys)
  then have "\<exists>z \<in> set r. \<not> hn_flag z" by (metis dropWhile_eq_Nil_conv list.distinct(1))
  with assms Cons show ?thesis
    by (auto simp: second_chance_def dropWhile_append takeWhile_append)
qed

lemma sweep_second_chance:
  "snd z \<noteq> [] \<Longrightarrow> flags z < k \<Longrightarrow>
    \<exists>x bs. snd (sweep k z) = x # bs \<and> \<not> hn_flag x \<and> (x, ahead (take_out (sweep k z))) = second_chance (ahead z)"
proof (induction k z rule: sweep.induct)
  case (3 k as x bs)
  show ?case
  proof (cases "hn_flag x")
    case True
    have "second_chance (ahead (advance (as, x # bs))) = second_chance (ahead (as, x # bs))"
      unfolding ahead_advance using second_chance_turn [OF True, of "bs @ as"] by (simp add: ahead_def)
    moreover have "flags (advance (as, x # bs)) < k" using flags_advance [OF True, of as bs] 3(3) by simp
    ultimately show ?thesis
      using 3(1) [OF True advance_nonempty] True by simp
  next
    case False
    then show ?thesis by (simp add: second_chance_def ahead_take_out) (simp add: ahead_def)
  qed
qed simp_all

section \<open>Representation\<close>

definition ordered :: "bool \<Rightarrow> 'x list \<Rightarrow> 'x list" where
  "ordered fwd xs = (if fwd then xs else rev xs)"

definition size_sum :: "(entry_id \<Rightarrow> usize) \<Rightarrow> hand_node list \<Rightarrow> usize" where
  "size_sum sz xs = sum_list (map (sz \<circ> hn_entry_id) xs)"

definition hand_ptrs :: "bool \<Rightarrow> (entry_id \<Rightarrow> usize) \<Rightarrow> hand_state \<Rightarrow> ptr list \<Rightarrow> ptr list \<Rightarrow> bool" where
  "hand_ptrs fwd sz s ps qs \<longleftrightarrow>
     hash_list hn_entry_id (hs_map s) (hs_heap s) (hs_list s) (ordered fwd (ps @ qs))
     \<and> hs_hand s = first_or qs None \<and> (qs = [] \<longrightarrow> ps = [])
     \<and> hs_total_size s = size_sum sz (data_of (hs_heap s) (ps @ qs))"

definition hand_rep :: "bool \<Rightarrow> (entry_id \<Rightarrow> usize) \<Rightarrow> hand_state \<Rightarrow> zipper \<Rightarrow> bool" where
  "hand_rep fwd sz s z \<longleftrightarrow> (\<exists>ps qs. hand_ptrs fwd sz s ps qs
     \<and> z = (data_of (hs_heap s) ps, data_of (hs_heap s) qs))"

definition hand_inv :: "bool \<Rightarrow> (entry_id \<Rightarrow> usize) \<Rightarrow> hand_state \<Rightarrow> bool" where
  "hand_inv fwd sz s \<longleftrightarrow> (\<exists>z. hand_rep fwd sz s z)"

definition hand_tracked :: "hand_state \<Rightarrow> entry_id set" where
  "hand_tracked s = dom (hs_map s)"

lemma set_ordered [simp]: "set (ordered fwd xs) = set xs"
  by (simp add: ordered_def)

lemma distinct_ordered [simp]: "distinct (ordered fwd xs) = distinct xs"
  by (simp add: ordered_def)

lemma remove1_ordered:
  "distinct (ps @ p # qs) \<Longrightarrow> remove1 p (ordered fwd (ps @ p # qs)) = ordered fwd (ps @ qs)"
  by (auto simp: ordered_def remove1_append remove1_idem)

lemma last_or_rev: "last_or None (rev xs) = first_or xs None"
  by (cases xs) simp_all

lemma first_or_rev: "first_or (rev xs) None = last_or None xs"
  by (cases xs rule: rev_cases) simp_all

text \<open>The neighbour of a node in the direction of the walk, and where the walk starts over.\<close>

definition succ_of :: "bool \<Rightarrow> 'd dnode \<Rightarrow> ptr option" where
  "succ_of fwd n = (if fwd then nnext n else nprev n)"

definition start_of :: "bool \<Rightarrow> dll \<Rightarrow> ptr option" where
  "start_of fwd l = (if fwd then head l else tail l)"

lemma hash_list_succ:
  assumes "hash_list key m h l (ordered fwd (ps @ p # qs))"
  shows "\<exists>n. cells h p = Some n \<and> succ_of fwd n = first_or qs None \<and> payload h p = Some (ndata n)"
proof (cases fwd)
  case True
  with assms have "dll_rep h l (ps @ p # qs)" by (simp add: hash_list_def ordered_def)
  from dll_rep_node [OF this] True show ?thesis by (auto simp: succ_of_def payload_def)
next
  case False
  with assms have "dll_rep h l (rev qs @ p # rev ps)" by (simp add: hash_list_def ordered_def)
  from dll_rep_node [OF this] False show ?thesis by (auto simp: succ_of_def payload_def last_or_rev)
qed

lemma hash_list_start:
  "hash_list key m h l (ordered fwd ps) \<Longrightarrow> start_of fwd l = first_or ps None"
  by (auto simp: hash_list_def dll_rep_def ordered_def start_of_def last_or_rev split: if_splits)

text \<open>Writing the payload of a node, its key unchanged.\<close>

lemma dlseg_set_data:
  "dlseg c pv xs nx \<Longrightarrow> c p = Some n \<Longrightarrow> dlseg (c(p \<mapsto> n\<lparr>ndata := d\<rparr>)) pv xs nx"
  by (induction xs arbitrary: pv) auto

lemma hash_list_set_data:
  assumes "hash_list key m h l ps" and "cells h p = Some n" and "key d = key (ndata n)"
  shows "hash_list key m (store p (n\<lparr>ndata := d\<rparr>) h) l ps"
    and "payload (store p (n\<lparr>ndata := d\<rparr>) h) = (payload h)(p \<mapsto> d)"
proof -
  show pl: "payload (store p (n\<lparr>ndata := d\<rparr>) h) = (payload h)(p \<mapsto> d)"
    by (auto simp: payload_def)
  have "keyed key m (store p (n\<lparr>ndata := d\<rparr>) h) ps"
    by (rule keyed_cong [of key m h ps])
      (use assms pl keyed_def in \<open>auto simp: hash_list_def payload_def dll_rep_def\<close>)
  with assms(1,2) dlseg_set_data [where c = "cells h", OF _ assms(2)] show "hash_list key m (store p (n\<lparr>ndata := d\<rparr>) h) l ps"
    by (auto simp: hash_list_def dll_rep_def)
qed

lemma data_of_upd:
  "payload h' = (payload h)(p \<mapsto> d) \<Longrightarrow> p \<notin> set ps \<Longrightarrow> data_of h' ps = data_of h ps"
  by (auto simp: data_of_def)

lemma data_of_append [simp]: "data_of h (ps @ qs) = data_of h ps @ data_of h qs"
  by (simp add: data_of_def)

lemma data_of_Cons [simp]: "data_of h (p # qs) = the (payload h p) # data_of h qs"
  by (simp add: data_of_def)

lemma data_of_Nil [simp]: "data_of h [] = []"
  by (simp add: data_of_def)

section \<open>One round of the loop\<close>

lemma hand_ptrs_parts:
  assumes "hand_ptrs fwd sz s ps qs"
  shows "hash_list hn_entry_id (hs_map s) (hs_heap s) (hs_list s) (ordered fwd (ps @ qs))"
    and "hs_hand s = first_or qs None" and "qs = [] \<Longrightarrow> ps = []"
    and "hs_total_size s = size_sum sz (data_of (hs_heap s) (ps @ qs))" and "distinct (ps @ qs)"
proof -
  show h: "hash_list hn_entry_id (hs_map s) (hs_heap s) (hs_list s) (ordered fwd (ps @ qs))"
    using assms by (simp add: hand_ptrs_def)
  then show "distinct (ps @ qs)" using dll_rep_distinct unfolding hash_list_def by fastforce
qed (use assms in \<open>simp_all add: hand_ptrs_def\<close>)

lemma size_sum_append [simp]: "size_sum sz (xs @ ys) = size_sum sz xs + size_sum sz ys"
  by (simp add: size_sum_def)

lemma size_sum_Cons [simp]: "size_sum sz (x # xs) = sz (hn_entry_id x) + size_sum sz xs"
  by (simp add: size_sum_def)

lemma size_sum_Nil [simp]: "size_sum sz [] = 0"
  by (simp add: size_sum_def)

lemma hand_advance:
  assumes "hand_ptrs fwd sz s ps (p # qs)" and "cells (hs_heap s) p = Some n"
    and "nxt = or_else (succ_of fwd n) (start_of fwd (hs_list s))"
  shows "\<exists>ps' qs'. let s' = s\<lparr>hs_heap := store p (n\<lparr>ndata := (ndata n)\<lparr>hn_flag := False\<rparr>\<rparr>) (hs_heap s),
        hs_hand := nxt\<rparr> in
      hand_ptrs fwd sz s' ps' qs' \<and> (data_of (hs_heap s') ps', data_of (hs_heap s') qs')
        = advance (data_of (hs_heap s) ps, data_of (hs_heap s) (p # qs))"
proof -
  note h = hand_ptrs_parts [OF assms(1)]
  let ?d = "(ndata n)\<lparr>hn_flag := False\<rparr>"
  let ?h' = "store p (n\<lparr>ndata := ?d\<rparr>) (hs_heap s)"
  have n: "succ_of fwd n = first_or qs None" "payload (hs_heap s) p = Some (ndata n)"
    using hash_list_succ [OF h(1)] assms(2) by auto
  have hl: "hash_list hn_entry_id (hs_map s) ?h' (hs_list s) (ordered fwd (ps @ p # qs))"
    and pl: "payload ?h' = (payload (hs_heap s))(p \<mapsto> ?d)"
    using hash_list_set_data [OF h(1) assms(2), of ?d] by simp_all
  have fresh: "p \<notin> set ps" "p \<notin> set qs" using h(5) by auto
  note dat = data_of_upd [OF pl fresh(1)] data_of_upd [OF pl fresh(2)]
  have nxt: "nxt = first_or qs (first_or (ps @ p # qs) None)"
    using assms(3) n(1) hash_list_start [OF h(1)] by (cases qs) auto
  show ?thesis
  proof (cases qs)
    case Nil
    then show ?thesis
      using hl nxt h(4) n(2) pl dat
      by (intro exI [of _ "[]"] exI [of _ "ps @ [p]"]) (simp add: hand_ptrs_def Let_def clear_def)
  next
    case (Cons q qs')
    then show ?thesis
      using hl nxt h(4) n(2) pl dat
      by (intro exI [of _ "ps @ [p]"] exI [of _ qs]) (auto simp: hand_ptrs_def Let_def clear_def)
  qed
qed

lemma hand_evict:
  assumes "hand_ptrs fwd sz s ps (p # qs)" and "cells (hs_heap s) p = Some n"
  shows "hs_map s (hn_entry_id (ndata n)) = Some p"
    and "\<exists>h1 l h2 ps' qs'. unlink p (hs_heap s) (hs_list s) = Some (h1, l) \<and> drop_boxed_node p h1 = Some h2
      \<and> (let s' = s\<lparr>hs_map := (hs_map s)(hn_entry_id (ndata n) := None), hs_heap := h2, hs_list := l,
            hs_total_size := hs_total_size s - sz (hn_entry_id (ndata n)),
            hs_hand := or_else (succ_of fwd n) (start_of fwd l)\<rparr> in
         hand_ptrs fwd sz s' ps' qs' \<and> (data_of (hs_heap s') ps', data_of (hs_heap s') qs')
           = take_out (data_of (hs_heap s) ps, data_of (hs_heap s) (p # qs)))"
proof -
  note h = hand_ptrs_parts [OF assms(1)]
  let ?i = "hn_entry_id (ndata n)"
  have n: "succ_of fwd n = first_or qs None" "payload (hs_heap s) p = Some (ndata n)"
    using hash_list_succ [OF h(1)] assms(2) by auto
  have mem: "p \<in> set (ordered fwd (ps @ p # qs))" by simp
  show "hs_map s ?i = Some p"
    using hash_list_keyed [OF h(1)] n(2) mem by (auto simp: keyed_def)
  obtain h1 l h2 where u: "unlink p (hs_heap s) (hs_list s) = Some (h1, l)" "drop_boxed_node p h1 = Some h2"
    "hash_list hn_entry_id ((hs_map s)(?i := None)) h2 l (remove1 p (ordered fwd (ps @ p # qs)))"
    "payload h2 = (payload (hs_heap s))(p := None)"
    using hash_list_release [OF h(1) mem] n(2) by auto
  have hl: "hash_list hn_entry_id ((hs_map s)(?i := None)) h2 l (ordered fwd (ps @ qs))"
    using u(3) remove1_ordered [OF h(5)] by simp
  have dat: "data_of h2 ps = data_of (hs_heap s) ps" "data_of h2 qs = data_of (hs_heap s) qs"
    using u(4) h(5) by (auto simp: data_of_def)
  have hand: "or_else (succ_of fwd n) (start_of fwd l) = first_or qs (first_or (ps @ qs) None)"
    using n(1) hash_list_start [OF hl] by (cases qs) auto
  have "\<exists>ps' qs'. hand_ptrs fwd sz (s\<lparr>hs_map := (hs_map s)(?i := None), hs_heap := h2, hs_list := l,
          hs_total_size := hs_total_size s - sz ?i, hs_hand := or_else (succ_of fwd n) (start_of fwd l)\<rparr>) ps' qs'
      \<and> (data_of h2 ps', data_of h2 qs') = take_out (data_of (hs_heap s) ps, data_of (hs_heap s) (p # qs))"
  proof (cases qs)
    case Nil
    then show ?thesis
      using hl hand h(4) n(2) dat
      by (intro exI [of _ "[]"] exI [of _ ps]) (simp add: hand_ptrs_def)
  next
    case (Cons q qs')
    then show ?thesis
      using hl hand h(4) n(2) dat
      by (intro exI [of _ ps] exI [of _ qs]) (auto simp: hand_ptrs_def)
  qed
  with u(1,2) show "\<exists>h1 l h2 ps' qs'. unlink p (hs_heap s) (hs_list s) = Some (h1, l) \<and> drop_boxed_node p h1 = Some h2
      \<and> (let s' = s\<lparr>hs_map := (hs_map s)(?i := None), hs_heap := h2, hs_list := l,
            hs_total_size := hs_total_size s - sz ?i,
            hs_hand := or_else (succ_of fwd n) (start_of fwd l)\<rparr> in
         hand_ptrs fwd sz s' ps' qs' \<and> (data_of (hs_heap s') ps', data_of (hs_heap s') qs')
           = take_out (data_of (hs_heap s) ps, data_of (hs_heap s) (p # qs)))"
    by (simp add: Let_def)
qed

section \<open>Victims\<close>

text \<open>The specification of \<open>find_victim\<close>: one sweep and one removal per victim.\<close>

fun hand_victims :: "nat \<Rightarrow> zipper \<Rightarrow> entry_id list \<times> zipper" where
  "hand_victims 0 z = ([], z)"
| "hand_victims (Suc n) z =
     (if snd z = [] then ([], z)
      else (let z' = sweep (Suc (flags z)) z; (vs, z'') = hand_victims n (take_out z')
            in (hn_entry_id (hd (snd z')) # vs, z'')))"

lemma sweep_fuel: "flags z < k \<Longrightarrow> sweep k z = sweep (Suc (flags z)) z"
proof (induction k arbitrary: z)
  case 0
  then show ?case by simp
next
  case (Suc k)
  obtain as bs where z: "z = (as, bs)" by fastforce
  show ?case
  proof (cases bs)
    case (Cons x ys)
    show ?thesis
    proof (cases "hn_flag x")
      case True
      let ?z = "advance (as, x # ys)"
      have f: "flags z = Suc (flags ?z)" using flags_advance [OF True, of as ys] z Cons by simp
      with Suc.prems have "flags ?z < k" by simp
      from Suc.IH [OF this] True z Cons f show ?thesis by simp
    qed (use z Cons in simp)
  qed (use z in simp)
qed

lemma hand_flags_brk: "hand_ptrs fwd sz s ps qs \<Longrightarrow>
    flags (data_of (hs_heap s) ps, data_of (hs_heap s) qs) \<le> brk (hs_heap s)"
proof -
  assume a: "hand_ptrs fwd sz s ps qs"
  note h = hand_ptrs_parts [OF a]
  have "length (ordered fwd (ps @ qs)) \<le> brk (hs_heap s)"
    using h(1) dll_rep_length_brk by (auto simp: hash_list_def keyed_def)
  moreover have "flags (data_of (hs_heap s) ps, data_of (hs_heap s) qs) \<le> length (ps @ qs)"
    using length_filter_le [of hn_flag "data_of (hs_heap s) (ps @ qs)"]
    by (simp add: flags_def data_of_def)
  ultimately show ?thesis by (simp add: ordered_def split: if_splits)
qed

lemma clock_scan_rep:
  assumes "sz = clock_entry_size size_of"
  shows "hand_ptrs True sz s ps (p # qs) \<Longrightarrow> z = (data_of (hs_heap s) ps, data_of (hs_heap s) (p # qs)) \<Longrightarrow>
    flags z < k \<Longrightarrow>
    \<exists>s'. clock_scan size_of k (Some p) s = Some (Some (hn_entry_id (hd (snd (sweep k z)))), s')
      \<and> hand_rep True sz s' (take_out (sweep k z))"
proof (induction k arbitrary: s ps p qs z)
  case 0
  then show ?case by simp
next
  case (Suc k)
  obtain n where n: "cells (hs_heap s) p = Some n" "succ_of True n = first_or qs None"
    "payload (hs_heap s) p = Some (ndata n)"
    using hash_list_succ [OF hand_ptrs_parts(1) [OF Suc.prems(1)]] by blast
  show ?case
  proof (cases "hn_flag (ndata n)")
    case True
    let ?nxt = "or_else (succ_of True n) (start_of True (hs_list s))"
    let ?s1 = "s\<lparr>hs_heap := store p (n\<lparr>ndata := (ndata n)\<lparr>hn_flag := False\<rparr>\<rparr>) (hs_heap s), hs_hand := ?nxt\<rparr>"
    obtain ps' qs' where a: "hand_ptrs True sz ?s1 ps' qs'"
      "(data_of (hs_heap ?s1) ps', data_of (hs_heap ?s1) qs') = advance z"
      using hand_advance [OF Suc.prems(1) n(1) refl] Suc.prems(2) by (auto simp: Let_def)
    have "qs' \<noteq> []" using a(2) advance_nonempty Suc.prems(2) n(3)
      by (metis data_of_Cons data_of_Nil snd_conv)
    then obtain p' rs where qs': "qs' = p' # rs" by (cases qs') auto
    have fl: "flags (advance z) < k"
      using Suc.prems(2,3) flags_advance [OF True, of "data_of (hs_heap s) ps" "data_of (hs_heap s) qs"] n(3)
      by simp
    have "?nxt = Some p'" using hand_ptrs_parts(2) [OF a(1)] qs' by simp
    moreover have "sweep (Suc k) z = sweep k (advance z)" using Suc.prems(2) True n(3) by simp
    ultimately show ?thesis
      using Suc.IH [OF a(1) [unfolded qs'] _ fl] a(2) qs' n(1) True
      by (simp add: deref_def succ_of_def start_of_def Let_def)
  next
    case False
    have sw: "sweep (Suc k) z = z" using Suc.prems(2) False n(3) by simp
    show ?thesis
      using hand_evict [OF Suc.prems(1) n(1)] n(1,3) False Suc.prems(2) sw assms
      by (fastforce simp: deref_def succ_of_def start_of_def hand_rep_def Let_def)
  qed
qed

lemma hand_rep_cases:
  assumes "hand_rep fwd sz s z"
  obtains "snd z = []" "hs_hand s = None" "start_of fwd (hs_list s) = None" "fst z = []"
  | ps p qs where "hand_ptrs fwd sz s ps (p # qs)" "hs_hand s = Some p"
      "z = (data_of (hs_heap s) ps, data_of (hs_heap s) (p # qs))" "snd z \<noteq> []"
proof -
  obtain ps qs where z: "hand_ptrs fwd sz s ps qs" "z = (data_of (hs_heap s) ps, data_of (hs_heap s) qs)"
    using assms by (auto simp: hand_rep_def)
  note h = hand_ptrs_parts [OF z(1)]
  show thesis
  proof (cases qs)
    case Nil
    then show thesis using that(1) h(2,3) z(2) hash_list_start [OF h(1)] by simp
  next
    case (Cons p rs)
    then show thesis using that(2) [of ps p rs] z h(2) by simp
  qed
qed

lemma hand_rep_hand: "hand_rep fwd sz s z \<Longrightarrow> hs_hand s = None \<longleftrightarrow> snd z = []"
  by (erule hand_rep_cases) auto

lemma clock_loop_rep:
  assumes "sz = clock_entry_size size_of"
  shows "hand_rep True sz s z \<Longrightarrow> snd z \<noteq> [] \<Longrightarrow>
    \<exists>s'. clock_loop size_of n (hs_hand s) s = Some (fst (hand_victims n z), s')
      \<and> hand_rep True sz s' (snd (hand_victims n z))"
proof (induction n arbitrary: s z)
  case 0
  then show ?case by simp
next
  case (Suc n)
  from Suc.prems(1) show ?case
  proof (cases rule: hand_rep_cases)
    case (2 ps p qs)
    let ?k = "Suc (brk (hs_heap s))"
    have k: "flags z < ?k" using hand_flags_brk [OF 2(1)] 2(3) by simp
    let ?z1 = "sweep (Suc (flags z)) z"
    obtain s1 where s1: "clock_scan size_of ?k (Some p) s = Some (Some (hn_entry_id (hd (snd ?z1))), s1)"
      "hand_rep True sz s1 (take_out ?z1)"
      using clock_scan_rep [OF assms 2(1,3) k] sweep_fuel [OF k] by auto
    show ?thesis
    proof (cases "snd (take_out ?z1) = []")
      case True
      then have "hs_hand s1 = None" using hand_rep_hand [OF s1(2)] by blast
      moreover have "hand_victims n (take_out ?z1) = ([], take_out ?z1)" using True by (cases n) auto
      ultimately show ?thesis using s1 2(2) Suc.prems(2)
        by (simp add: Let_def del: sweep.simps clock_scan.simps)
    next
      case False
      then have "hs_hand s1 \<noteq> None" using hand_rep_hand [OF s1(2)] by blast
      with Suc.IH [OF s1(2) False] s1(1) 2(2) Suc.prems(2) show ?thesis
        by (auto simp: Let_def split: prod.split simp del: sweep.simps clock_scan.simps)
    qed
  qed (use Suc.prems(2) in simp)
qed

lemma clock_find_victim_rep [abs_simps]:
  assumes "hand_rep True (clock_entry_size size_of) s z"
  shows "\<exists>s'. clock_find_victim size_of n s = Some (fst (hand_victims n z), s')
    \<and> hand_rep True (clock_entry_size size_of) s' (snd (hand_victims n z))"
  using assms
proof (cases rule: hand_rep_cases)
  case 1
  then have "clock_find_victim size_of n s = Some ([], s\<lparr>hs_hand := None\<rparr>)"
    by (cases n) (simp_all add: clock_find_victim_def start_of_def Let_def)
  moreover have "s\<lparr>hs_hand := None\<rparr> = s" using 1(2) by simp
  moreover have "hand_victims n z = ([], z)" using 1(1) by (cases n) simp_all
  ultimately show ?thesis using assms by simp
next
  case (2 ps p qs)
  then show ?thesis
    using clock_loop_rep [OF refl assms, of n] by (cases n) (auto simp: clock_find_victim_def)
qed

lemma sieve_scan_rep:
  "hand_ptrs False sieve_entry_size s ps (p # qs) \<Longrightarrow>
    z = (data_of (hs_heap s) ps, data_of (hs_heap s) (p # qs)) \<Longrightarrow> flags z < k \<Longrightarrow>
    \<exists>s'. sieve_scan k p s = Some (hn_entry_id (hd (snd (sweep k z))), s')
      \<and> hand_rep False sieve_entry_size s' (take_out (sweep k z))"
proof (induction k arbitrary: s ps p qs z)
  case 0
  then show ?case by simp
next
  case (Suc k)
  obtain n where n: "cells (hs_heap s) p = Some n" "succ_of False n = first_or qs None"
    "payload (hs_heap s) p = Some (ndata n)"
    using hash_list_succ [OF hand_ptrs_parts(1) [OF Suc.prems(1)]] by blast
  show ?case
  proof (cases "hn_flag (ndata n)")
    case True
    let ?nxt = "or_else (succ_of False n) (start_of False (hs_list s))"
    let ?s1 = "s\<lparr>hs_heap := store p (n\<lparr>ndata := (ndata n)\<lparr>hn_flag := False\<rparr>\<rparr>) (hs_heap s), hs_hand := ?nxt\<rparr>"
    obtain ps' qs' where a: "hand_ptrs False sieve_entry_size ?s1 ps' qs'"
      "(data_of (hs_heap ?s1) ps', data_of (hs_heap ?s1) qs') = advance z"
      using hand_advance [OF Suc.prems(1) n(1) refl] Suc.prems(2) by (auto simp: Let_def)
    have "qs' \<noteq> []" using a(2) advance_nonempty Suc.prems(2) n(3)
      by (metis data_of_Cons data_of_Nil snd_conv)
    then obtain p' rs where qs': "qs' = p' # rs" by (cases qs') auto
    have fl: "flags (advance z) < k"
      using Suc.prems(2,3) flags_advance [OF True, of "data_of (hs_heap s) ps" "data_of (hs_heap s) qs"] n(3)
      by simp
    have "?nxt = Some p'" using hand_ptrs_parts(2) [OF a(1)] qs' by simp
    moreover have "sweep (Suc k) z = sweep k (advance z)" using Suc.prems(2) True n(3) by simp
    ultimately show ?thesis
      using Suc.IH [OF a(1) [unfolded qs'] _ fl] a(2) qs' n(1) True
      by (simp add: deref_def succ_of_def start_of_def Let_def)
  next
    case False
    have sw: "sweep (Suc k) z = z" using Suc.prems(2) False n(3) by simp
    show ?thesis
      using hand_evict [OF Suc.prems(1) n(1)] n(1,3) False Suc.prems(2) sw
      by (fastforce simp: deref_def succ_of_def start_of_def hand_rep_def Let_def)
  qed
qed

lemma sieve_find_victim_rep [abs_simps]:
  "hand_rep False sieve_entry_size s z \<Longrightarrow>
    \<exists>s'. sieve_find_victim n s = Some (fst (hand_victims n z), s')
      \<and> hand_rep False sieve_entry_size s' (snd (hand_victims n z))"
proof (induction n arbitrary: s z)
  case 0
  then show ?case by simp
next
  case (Suc n)
  from Suc.prems show ?case
  proof (cases rule: hand_rep_cases)
    case 1
    with Suc.prems show ?thesis by (simp add: start_of_def)
  next
    case (2 ps p qs)
    let ?k = "Suc (brk (hs_heap s))"
    have k: "flags z < ?k" using hand_flags_brk [OF 2(1)] 2(3) by simp
    let ?z1 = "sweep (Suc (flags z)) z"
    obtain s1 where s1: "sieve_scan ?k p s = Some (hn_entry_id (hd (snd ?z1)), s1)"
      "hand_rep False sieve_entry_size s1 (take_out ?z1)"
      using sieve_scan_rep [OF 2(1,3) k] sweep_fuel [OF k] by auto
    from Suc.IH [OF s1(2)] s1(1) 2(2,4) show ?thesis
      by (auto simp: Let_def split: prod.split simp del: sweep.simps sieve_scan.simps)
  qed
qed

section \<open>Inserts and accesses\<close>

definition touch :: "entry_id \<Rightarrow> hand_node list \<Rightarrow> hand_node list" where
  "touch i xs = map (\<lambda>x. if hn_entry_id x = i then x\<lparr>hn_flag := True\<rparr> else x) xs"

lemma touch_ids [simp]: "map hn_entry_id (touch i xs) = map hn_entry_id xs"
  by (simp add: touch_def)

definition zip_ids :: "zipper \<Rightarrow> entry_id list" where
  "zip_ids z = map hn_entry_id (fst z @ snd z)"

lemma hand_rep_dom: "hand_rep fwd sz s z \<Longrightarrow> hand_tracked s = set (zip_ids z) \<and> distinct (zip_ids z)"
proof -
  assume "hand_rep fwd sz s z"
  then obtain ps qs where z: "hand_ptrs fwd sz s ps qs" "z = (data_of (hs_heap s) ps, data_of (hs_heap s) qs)"
    by (auto simp: hand_rep_def)
  note k = hash_list_keyed [OF hand_ptrs_parts(1) [OF z(1)]]
  have "map hn_entry_id (data_of (hs_heap s) (ordered fwd (ps @ qs))) = ordered fwd (zip_ids z)"
    using z(2) by (simp add: ordered_def zip_ids_def data_of_def rev_map)
  with keyed_dom [OF k] keyed_distinct [OF k] show ?thesis
    by (simp add: keys_of_def hand_tracked_def)
qed

lemma set_flag_rep:
  assumes "hand_rep fwd sz s z" and "hs_map s i = Some p"
  shows "\<exists>s'. set_flag p s = Some s' \<and> hand_rep fwd sz s' (touch i (fst z), touch i (snd z))"
proof -
  obtain ps qs where z: "hand_ptrs fwd sz s ps qs" "z = (data_of (hs_heap s) ps, data_of (hs_heap s) qs)"
    using assms(1) by (auto simp: hand_rep_def)
  note h = hand_ptrs_parts [OF z(1)] and k = hash_list_keyed [OF hand_ptrs_parts(1) [OF z(1)]]
  have p: "p \<in> set (ps @ qs)" "hn_entry_id (the (payload (hs_heap s) p)) = i"
    using keyed_mem [OF k assms(2)] by simp_all
  then obtain n where n: "cells (hs_heap s) p = Some n"
    using h(1) dll_rep_live by (fastforce simp: hash_list_def)
  let ?d = "(ndata n)\<lparr>hn_flag := True\<rparr>"
  let ?h' = "store p (n\<lparr>ndata := ?d\<rparr>) (hs_heap s)"
  have hl: "hash_list hn_entry_id (hs_map s) ?h' (hs_list s) (ordered fwd (ps @ qs))"
    and pl: "payload ?h' = (payload (hs_heap s))(p \<mapsto> ?d)"
    using hash_list_set_data [OF h(1) n, of ?d] by simp_all
  have other: "hn_entry_id (the (payload (hs_heap s) q)) = i \<longleftrightarrow> q = p" if "q \<in> set (ps @ qs)" for q
    using keyed_inj [OF k] p that by (auto simp: inj_on_def)
  have dat: "data_of ?h' rs = touch i (data_of (hs_heap s) rs)" if "set rs \<subseteq> set (ps @ qs)" for rs
    using that other n p(2) by (auto simp: data_of_def touch_def pl payload_def)
  have "hand_ptrs fwd sz (s\<lparr>hs_heap := ?h'\<rparr>) ps qs"
    using hl h(2-4) dat [of ps] dat [of qs] by (simp add: hand_ptrs_def size_sum_def flip: map_map)
  moreover have "(data_of ?h' ps, data_of ?h' qs) = (touch i (fst z), touch i (snd z))"
    using dat [of ps] dat [of qs] z(2) by simp
  ultimately have "hand_rep fwd sz (s\<lparr>hs_heap := ?h'\<rparr>) (touch i (fst z), touch i (snd z))"
    unfolding hand_rep_def by (intro exI [of _ ps] exI [of _ qs]) simp
  moreover have "set_flag p s = Some (s\<lparr>hs_heap := ?h'\<rparr>)" using n by (simp add: set_flag_def deref_def)
  ultimately show ?thesis by blast
qed

lemma hand_notify_access_rep [abs_simps]:
  assumes "hand_rep fwd sz s z"
  shows "\<exists>s'. hand_notify_access i t s = Some s' \<and> hand_rep fwd sz s' (touch i (fst z), touch i (snd z))"
proof (cases "hs_map s i")
  case None
  then have "i \<notin> set (zip_ids z)" using hand_rep_dom [OF assms] by (auto simp: hand_tracked_def)
  then have "touch i (fst z) = fst z" "touch i (snd z) = snd z"
    by (auto simp: zip_ids_def touch_def intro!: map_idI)
  with None assms show ?thesis by (simp add: hand_notify_access_def)
next
  case (Some p)
  with set_flag_rep [OF assms Some] show ?thesis by (simp add: hand_notify_access_def)
qed

text \<open>Where a new element goes: behind everything in the list, which the hand meets last of its part.\<close>

fun insert_at_end :: "hand_node \<Rightarrow> zipper \<Rightarrow> zipper" where
  "insert_at_end x (as, bs) = (as, bs @ [x])"

lemma hand_new_rep:
  assumes "hand_ptrs fwd sz s ps qs" and "hs_map s (hn_entry_id d) = None"
    and "node_new d (hs_heap s) = (p, h)"
    and "if fwd then push_back p h (hs_list s) = Some (h1, l) else push_front p h (hs_list s) = Some (h1, l)"
    and "hand' = (if qs = [] then Some p else hs_hand s)"
  shows "hand_rep fwd sz (s\<lparr>hs_heap := h1, hs_list := l, hs_hand := hand',
      hs_map := (hs_map s)(hn_entry_id d \<mapsto> p), hs_total_size := hs_total_size s + sz (hn_entry_id d)\<rparr>)
    (insert_at_end d (data_of (hs_heap s) ps, data_of (hs_heap s) qs))"
proof -
  note h = hand_ptrs_parts [OF assms(1)]
  have "hash_list hn_entry_id ((hs_map s)(hn_entry_id d \<mapsto> p)) h1 l (ordered fwd (ps @ qs @ [p]))
      \<and> payload h1 = (payload (hs_heap s))(p \<mapsto> d) \<and> p \<notin> set (ps @ qs)"
    using hash_list_push_back_new [OF h(1) assms(2,3)] hash_list_push_front_new [OF h(1) assms(2,3)] assms(4)
    by (auto simp: ordered_def split: if_splits)
  then have hl: "hash_list hn_entry_id ((hs_map s)(hn_entry_id d \<mapsto> p)) h1 l (ordered fwd (ps @ qs @ [p]))"
    and pl: "payload h1 = (payload (hs_heap s))(p \<mapsto> d)" and fresh: "p \<notin> set ps" "p \<notin> set qs" by auto
  note dat = data_of_upd [OF pl fresh(1)] data_of_upd [OF pl fresh(2)]
  let ?s = "s\<lparr>hs_heap := h1, hs_list := l, hs_hand := hand',
      hs_map := (hs_map s)(hn_entry_id d \<mapsto> p), hs_total_size := hs_total_size s + sz (hn_entry_id d)\<rparr>"
  have "hand_ptrs fwd sz ?s ps (qs @ [p])"
    using hl h(2-4) dat pl assms(5) by (cases qs) (auto simp: hand_ptrs_def ac_simps)
  moreover have "insert_at_end d (data_of (hs_heap s) ps, data_of (hs_heap s) qs)
      = (data_of (hs_heap ?s) ps, data_of (hs_heap ?s) (qs @ [p]))"
    using dat pl by simp
  ultimately show ?thesis unfolding hand_rep_def by blast
qed

text \<open>The specification of an insert: touch the element if it is there, else add it with flag \<open>f\<close>.\<close>

definition hand_upsert :: "bool \<Rightarrow> entry_id \<Rightarrow> zipper \<Rightarrow> zipper" where
  "hand_upsert f i z = (if i \<in> set (zip_ids z) then (touch i (fst z), touch i (snd z))
     else insert_at_end \<lparr>hn_entry_id = i, hn_flag = f\<rparr> z)"

lemma clock_notify_insert_rep [abs_simps]:
  assumes "hand_rep True (clock_entry_size size_of) s z"
  shows "\<exists>s'. clock_notify_insert size_of i t s = Some s'
    \<and> hand_rep True (clock_entry_size size_of) s' (hand_upsert True i z)"
proof (cases "hs_map s i")
  case None
  obtain ps qs where z: "hand_ptrs True (clock_entry_size size_of) s ps qs"
    "z = (data_of (hs_heap s) ps, data_of (hs_heap s) qs)"
    using assms by (auto simp: hand_rep_def)
  note h = hand_ptrs_parts [OF z(1)]
  let ?d = "\<lparr>hn_entry_id = i, hn_flag = True\<rparr>"
  obtain p h' where new: "node_new ?d (hs_heap s) = (p, h')" by fastforce
  have m: "hs_map s (hn_entry_id ?d) = None" using None by simp
  obtain h1 l where push: "push_back p h' (hs_list s) = Some (h1, l)"
    using hash_list_push_back_new [OF h(1) m new] by blast
  have "(if hs_hand s = None then Some p else hs_hand s) = (if qs = [] then Some p else hs_hand s)"
    using h(2) by simp
  from hand_new_rep [OF z(1) m new _ this] push None new z(2) hand_rep_dom [OF assms] show ?thesis
    by (auto simp: clock_notify_insert_def hand_upsert_def hand_tracked_def)
next
  case (Some p)
  then have "i \<in> set (zip_ids z)" using hand_rep_dom [OF assms] by (auto simp: hand_tracked_def)
  with set_flag_rep [OF assms Some] Some show ?thesis
    by (simp add: clock_notify_insert_def hand_upsert_def)
qed

lemma sieve_notify_insert_rep [abs_simps]:
  assumes "hand_rep False sieve_entry_size s z"
  shows "\<exists>s'. sieve_notify_insert i t s = Some s'
    \<and> hand_rep False sieve_entry_size s' (hand_upsert False i z)"
proof (cases "hs_map s i")
  case None
  obtain ps qs where z: "hand_ptrs False sieve_entry_size s ps qs"
    "z = (data_of (hs_heap s) ps, data_of (hs_heap s) qs)"
    using assms by (auto simp: hand_rep_def)
  note h = hand_ptrs_parts [OF z(1)]
  let ?d = "\<lparr>hn_entry_id = i, hn_flag = False\<rparr>"
  obtain p h' where new: "node_new ?d (hs_heap s) = (p, h')" by fastforce
  have m: "hs_map s (hn_entry_id ?d) = None" using None by simp
  obtain h1 l where push: "push_front p h' (hs_list s) = Some (h1, l)"
    using hash_list_push_front_new [OF h(1) m new] by blast
  have "head (hs_list s) = first_or (rev (ps @ qs)) None"
    using hash_list_head [OF h(1)] by (simp add: ordered_def)
  then have "head (hs_list s) = None \<longleftrightarrow> qs = []" using h(3) by auto
  then have "(if head (hs_list s) = None then Some p else hs_hand s) = (if qs = [] then Some p else hs_hand s)"
    by simp
  from hand_new_rep [OF z(1) m new _ this] push None new z(2) hand_rep_dom [OF assms] show ?thesis
    by (auto simp: sieve_notify_insert_def hand_upsert_def hand_tracked_def Let_def)
next
  case (Some p)
  then have "i \<in> set (zip_ids z)" using hand_rep_dom [OF assms] by (auto simp: hand_tracked_def)
  with set_flag_rep [OF assms Some] Some show ?thesis
    by (simp add: sieve_notify_insert_def hand_upsert_def)
qed

section \<open>The contract\<close>

lemma zip_ids_ahead: "mset (zip_ids z) = mset (map hn_entry_id (ahead z))"
  by (simp add: zip_ids_def ahead_def ac_simps)

lemma hand_invI: "hand_rep fwd sz s z \<Longrightarrow> hand_inv fwd sz s"
  unfolding hand_inv_def by blast

lemma ids_clear [simp]: "image_mset hn_entry_id (image_mset clear M) = image_mset hn_entry_id M"
  by (simp add: multiset.map_comp comp_def)

lemma second_chance_mset:
  assumes "r \<noteq> []" and "second_chance r = (x, r')"
  shows "mset (map hn_entry_id r) = add_mset (hn_entry_id x) (mset (map hn_entry_id r'))"
proof (cases "dropWhile hn_flag r")
  case Nil
  with assms show ?thesis by (cases r) (auto simp: second_chance_def comp_def)
next
  case (Cons y ys)
  have "r = takeWhile hn_flag r @ y # ys" using takeWhile_dropWhile_id [of hn_flag r] Cons by simp
  then have "mset (map hn_entry_id r) = mset (map hn_entry_id (takeWhile hn_flag r @ y # ys))" by simp
  also have "\<dots> = add_mset (hn_entry_id x) (mset (map hn_entry_id r'))"
    using assms(2) Cons by (auto simp: second_chance_def)
  finally show ?thesis .
qed

lemma sweep_take_out_mset:
  assumes "snd z \<noteq> []"
  shows "mset (zip_ids z) = add_mset (hn_entry_id (hd (snd (sweep (Suc (flags z)) z))))
    (mset (zip_ids (take_out (sweep (Suc (flags z)) z))))"
proof -
  obtain x bs where "snd (sweep (Suc (flags z)) z) = x # bs"
    "second_chance (ahead z) = (x, ahead (take_out (sweep (Suc (flags z)) z)))"
    using sweep_second_chance [OF assms, of "Suc (flags z)"] by auto
  with second_chance_mset [of "ahead z"] assms show ?thesis
    by (simp add: zip_ids_ahead ahead_def del: sweep.simps)
qed

lemma hand_victims_mset:
  "mset (zip_ids z) = mset (fst (hand_victims n z)) + mset (zip_ids (snd (hand_victims n z)))"
proof (induction n z rule: hand_victims.induct)
  case (2 n z)
  show ?case
  proof (cases "snd z = []")
    case False
    obtain vs z'' where v: "hand_victims n (take_out (sweep (Suc (flags z)) z)) = (vs, z'')"
      by (rule prod.exhaust)
    have "hand_victims (Suc n) z = (hn_entry_id (hd (snd (sweep (Suc (flags z)) z))) # vs, z'')"
      using False v by (simp add: Let_def del: sweep.simps)
    with 2 [OF False refl] v sweep_take_out_mset [OF False] show ?thesis
      by (simp del: sweep.simps hand_victims.simps)
  qed simp
qed simp

lemma hand_victims_length: "length (fst (hand_victims n z)) \<le> n"
proof (induction n arbitrary: z)
  case (Suc n)
  show ?case
    using Suc [of "take_out (sweep (Suc (flags z)) z)"]
    by (simp add: Let_def case_prod_unfold del: sweep.simps)
qed simp

lemma hand_victims_contract:
  assumes "hand_rep fwd sz s z" and "hand_rep fwd sz s' (snd (hand_victims n z))"
  shows "hand_inv fwd sz s'" and "set (fst (hand_victims n z)) \<subseteq> hand_tracked s"
    and "hand_tracked s' \<subseteq> hand_tracked s" and "distinct (fst (hand_victims n z))"
    and "hand_tracked s' = hand_tracked s - set (fst (hand_victims n z))"
proof -
  have "mset (zip_ids z) = mset (fst (hand_victims n z) @ zip_ids (snd (hand_victims n z)))"
    using hand_victims_mset [of z n] by simp
  then have "distinct (zip_ids z) \<longleftrightarrow> distinct (fst (hand_victims n z) @ zip_ids (snd (hand_victims n z)))"
    and "set (zip_ids z) = set (fst (hand_victims n z) @ zip_ids (snd (hand_victims n z)))"
    by (metis mset_eq_imp_distinct_iff, metis mset_eq_setD)
  with hand_rep_dom [OF assms(1)] hand_rep_dom [OF assms(2)]
  show "set (fst (hand_victims n z)) \<subseteq> hand_tracked s" "hand_tracked s' \<subseteq> hand_tracked s"
    "distinct (fst (hand_victims n z))" "hand_tracked s' = hand_tracked s - set (fst (hand_victims n z))"
    by auto
qed (use assms(2) in \<open>auto intro: hand_invI\<close>)

lemma hand_upsert_ids: "set (zip_ids (hand_upsert f i z)) = insert i (set (zip_ids z))"
proof (cases "i \<in> set (zip_ids z)")
  case True
  then have "zip_ids (hand_upsert f i z) = zip_ids z" by (simp add: hand_upsert_def zip_ids_def)
  with True show ?thesis by auto
next
  case False
  then show ?thesis by (cases z) (auto simp: hand_upsert_def zip_ids_def)
qed

lemma hand_touch_contract:
  assumes "hand_rep fwd sz s z" and "hand_rep fwd sz s' (touch i (fst z), touch i (snd z))"
  shows "hand_inv fwd sz s' \<and> hand_tracked s' = hand_tracked s"
  using hand_rep_dom [OF assms(1)] hand_rep_dom [OF assms(2)] assms(2)
  by (simp add: zip_ids_def) (blast intro: hand_invI)

lemma hand_upsert_contract:
  assumes "hand_rep fwd sz s z" and "hand_rep fwd sz s' (hand_upsert f i z)"
  shows "hand_inv fwd sz s' \<and> hand_tracked s' = insert i (hand_tracked s)"
  using hand_rep_dom [OF assms(1)] hand_rep_dom [OF assms(2)] hand_upsert_ids [of f i z] assms(2)
  by (auto intro: hand_invI)

interpretation clock: exclusive_policy "clock_ops size_of" "hand_inv True (clock_entry_size size_of)" hand_tracked
proof unfold_locales
  fix p n assume "hand_inv True (clock_entry_size size_of) p"
  then obtain z where z: "hand_rep True (clock_entry_size size_of) p z" by (auto simp: hand_inv_def)
  obtain s' where s': "clock_find_victim size_of n p = Some (fst (hand_victims n z), s')"
    "hand_rep True (clock_entry_size size_of) s' (snd (hand_victims n z))"
    using clock_find_victim_rep [OF z] by blast
  note c = hand_victims_contract [OF z s'(2)]
  show "\<exists>vs p'. op_find_victim (clock_ops size_of) n p = Some (vs, p')
      \<and> hand_inv True (clock_entry_size size_of) p' \<and> set vs \<subseteq> hand_tracked p
      \<and> hand_tracked p' \<subseteq> hand_tracked p \<and> length vs \<le> n"
    using s'(1) c hand_victims_length [of n z] by (simp add: clock_ops_def)
  fix vs p' assume "op_find_victim (clock_ops size_of) n p = Some (vs, p')"
  with s'(1) c show "distinct vs \<and> hand_tracked p' = hand_tracked p - set vs" by (simp add: clock_ops_def)
next
  fix p i t assume "hand_inv True (clock_entry_size size_of) p"
  then obtain z where z: "hand_rep True (clock_entry_size size_of) p z" by (auto simp: hand_inv_def)
  show "\<exists>p'. op_notify_insert (clock_ops size_of) i t p = Some p'
      \<and> hand_inv True (clock_entry_size size_of) p' \<and> hand_tracked p' = insert i (hand_tracked p)"
    using clock_notify_insert_rep [OF z] hand_upsert_contract [OF z] by (fastforce simp: clock_ops_def)
  show "\<exists>p'. op_notify_access (clock_ops size_of) i t p = Some p'
      \<and> hand_inv True (clock_entry_size size_of) p' \<and> hand_tracked p' = hand_tracked p"
    using hand_notify_access_rep [OF z] hand_touch_contract [OF z] by (fastforce simp: clock_ops_def)
qed

interpretation sieve: exclusive_policy sieve_ops "hand_inv False sieve_entry_size" hand_tracked
proof unfold_locales
  fix p n assume "hand_inv False sieve_entry_size p"
  then obtain z where z: "hand_rep False sieve_entry_size p z" by (auto simp: hand_inv_def)
  obtain s' where s': "sieve_find_victim n p = Some (fst (hand_victims n z), s')"
    "hand_rep False sieve_entry_size s' (snd (hand_victims n z))"
    using sieve_find_victim_rep [OF z] by blast
  note c = hand_victims_contract [OF z s'(2)]
  show "\<exists>vs p'. op_find_victim sieve_ops n p = Some (vs, p') \<and> hand_inv False sieve_entry_size p'
      \<and> set vs \<subseteq> hand_tracked p \<and> hand_tracked p' \<subseteq> hand_tracked p \<and> length vs \<le> n"
    using s'(1) c hand_victims_length [of n z] by (simp add: sieve_ops_def)
  fix vs p' assume "op_find_victim sieve_ops n p = Some (vs, p')"
  with s'(1) c show "distinct vs \<and> hand_tracked p' = hand_tracked p - set vs" by (simp add: sieve_ops_def)
next
  fix p i t assume "hand_inv False sieve_entry_size p"
  then obtain z where z: "hand_rep False sieve_entry_size p z" by (auto simp: hand_inv_def)
  show "\<exists>p'. op_notify_insert sieve_ops i t p = Some p' \<and> hand_inv False sieve_entry_size p'
      \<and> hand_tracked p' = insert i (hand_tracked p)"
    using sieve_notify_insert_rep [OF z] hand_upsert_contract [OF z] by (fastforce simp: sieve_ops_def)
  show "\<exists>p'. op_notify_access sieve_ops i t p = Some p' \<and> hand_inv False sieve_entry_size p'
      \<and> hand_tracked p' = hand_tracked p"
    using hand_notify_access_rep [OF z] hand_touch_contract [OF z] by (fastforce simp: sieve_ops_def)
qed

end
