(* ===== verification/S3Fifo.thy ===== *)
theory S3Fifo
  imports CachePolicy
begin

text \<open>
  S3-FIFO, \<^verbatim>\<open>src/storage/src/cache/policies/cache/s3_fifo.rs\<close>. A \<open>VecDeque\<close> is a list whose head
  is the front. The loop of \<open>evict_from_small\<close> pops an element per round and the one of
  \<open>evict_from_main\<close> lowers a frequency per round, so both terminate outright; the outer loop of
  \<open>find_victim\<close> has at most one round without a victim (the one that empties the small queue),
  so \<open>cnt + 2\<close> rounds are enough as long as the size counters agree with the queues.

  The policy keeps the contract \<open>cache_policy\<close>, but not the stronger \<open>exclusive_policy\<close>: an
  entry readmitted from the ghost queue gets no frequency, so the next insert of it is taken
  for a new entry and queues it a second time.
\<close>

section \<open>State\<close>

record s3_state =
  s3_small :: "entry_id list"
  s3_main :: "entry_id list"
  s3_ghost :: "entry_id list"
  s3_ghost_set :: "entry_id set"
  s3_frequency :: "entry_id \<rightharpoonup> u8"
  s3_small_queue_size :: usize
  s3_main_queue_size :: usize
  s3_total_size :: usize

definition s3_new :: s3_state where
  "s3_new = \<lparr>s3_small = [], s3_main = [], s3_ghost = [], s3_ghost_set = {}, s3_frequency = Map.empty,
     s3_small_queue_size = 0, s3_main_queue_size = 0, s3_total_size = 0\<rparr>"

definition cap_frequency :: "u8 \<Rightarrow> u8" where
  "cap_frequency freq = min freq 3"

definition inc_frequency :: "entry_id \<Rightarrow> s3_state \<Rightarrow> s3_state" where
  "inc_frequency i s = (case s3_frequency s i of
       Some freq \<Rightarrow> s\<lparr>s3_frequency := (s3_frequency s)(i \<mapsto> cap_frequency (freq + 1))\<rparr>
     | None \<Rightarrow> s)"

definition dec_frequency :: "entry_id \<Rightarrow> s3_state \<Rightarrow> s3_state" where
  "dec_frequency i s = (case s3_frequency s i of
       Some freq \<Rightarrow> s\<lparr>s3_frequency := (s3_frequency s)(i \<mapsto> (if freq = 0 then 0 else freq - 1))\<rparr>
     | None \<Rightarrow> s)"

definition inc_small_queue_size :: "usize \<Rightarrow> s3_state \<Rightarrow> s3_state" where
  "inc_small_queue_size sz s = s\<lparr>s3_small_queue_size := s3_small_queue_size s + sz,
     s3_total_size := s3_total_size s + sz\<rparr>"

definition dec_small_queue_size :: "usize \<Rightarrow> s3_state \<Rightarrow> s3_state" where
  "dec_small_queue_size sz s = s\<lparr>s3_small_queue_size := s3_small_queue_size s - sz,
     s3_total_size := s3_total_size s - sz\<rparr>"

definition inc_main_queue_size :: "usize \<Rightarrow> s3_state \<Rightarrow> s3_state" where
  "inc_main_queue_size sz s = s\<lparr>s3_main_queue_size := s3_main_queue_size s + sz,
     s3_total_size := s3_total_size s + sz\<rparr>"

definition dec_main_queue_size :: "usize \<Rightarrow> s3_state \<Rightarrow> s3_state" where
  "dec_main_queue_size sz s = s\<lparr>s3_main_queue_size := s3_main_queue_size s - sz,
     s3_total_size := s3_total_size s - sz\<rparr>"

text \<open>
  \<open>usize as f32\<close> rounds to the nearest multiple of the last place of 24 significant bits, ties
  to even. The comparison \<open>small / total >= 0.1\<close> is on \<open>f32\<close>: \<open>0.1f32\<close> is \<open>13421773 / 2 ^ 27\<close>,
  and a quotient rounds to it or above exactly when it lies above the midpoint
  \<open>26843545 / 2 ^ 28\<close> to the float below it (the midpoint itself goes to that float, whose last
  bit is even).
\<close>

fun bit_count :: "nat \<Rightarrow> nat" where
  "bit_count n = (if n = 0 then 0 else Suc (bit_count (n div 2)))"

declare bit_count.simps [simp del]

definition f32_of_usize :: "usize \<Rightarrow> nat" where
  "f32_of_usize w =
     (let n = unat w; e = bit_count n - 24; q = n div 2 ^ e; r = n mod 2 ^ e in
      if 2 ^ e < 2 * r \<or> (2 ^ e = 2 * r \<and> odd q) then Suc q * 2 ^ e else q * 2 ^ e)"

definition small_queue_fraction_ge_tenth :: "s3_state \<Rightarrow> bool" where
  "small_queue_fraction_ge_tenth s =
     (if s3_total_size s = 0 then False
      else 26843545 * f32_of_usize (s3_total_size s) < 2 ^ 28 * f32_of_usize (s3_small_queue_size s))"

definition check_if_entry_exists_in_small_or_main :: "entry_id \<Rightarrow> s3_state \<Rightarrow> bool" where
  "check_if_entry_exists_in_small_or_main i s = (s3_frequency s i \<noteq> None \<and> i \<notin> s3_ghost_set s)"

definition s3_entry_size :: "entry_id \<Rightarrow> usize" where
  "s3_entry_size _ = 1"

definition freq_of :: "s3_state \<Rightarrow> entry_id \<Rightarrow> u8" where
  "freq_of s i = (case s3_frequency s i of Some freq \<Rightarrow> freq | None \<Rightarrow> 0)"

section \<open>Eviction\<close>

function evict_from_small :: "s3_state \<Rightarrow> entry_id option \<times> s3_state" where
  "evict_from_small s =
     (if s3_small s = [] then (None, s)
      else
        (let element = last (s3_small s);
             s1 = dec_small_queue_size (s3_entry_size element) (s\<lparr>s3_small := butlast (s3_small s)\<rparr>) in
         if freq_of s element > 1 then
           evict_from_small (let s2 = inc_main_queue_size (s3_entry_size element) (s1\<lparr>s3_main := element # s3_main s1\<rparr>)
                             in s2\<lparr>s3_frequency := (s3_frequency s2)(element \<mapsto> 0)\<rparr>)
         else
           (Some element, s1\<lparr>s3_ghost := element # s3_ghost s1,
              s3_ghost_set := insert element (s3_ghost_set s1),
              s3_frequency := (s3_frequency s1)(element := None)\<rparr>)))"
  by auto
termination
  by (relation "measure (\<lambda>s. length (s3_small s))")
    (auto simp: Let_def inc_main_queue_size_def dec_small_queue_size_def)

declare evict_from_small.simps [simp del]

definition main_heat :: "s3_state \<Rightarrow> nat" where
  "main_heat s = (\<Sum>i \<in> set (s3_main s). unat (freq_of s i))"

text \<open>One round of the loop on the element \<open>e\<close> taken from the back.\<close>

definition recycle_main :: "entry_id \<Rightarrow> s3_state \<Rightarrow> s3_state" where
  "recycle_main e s =
     (let s1 = dec_main_queue_size (s3_entry_size e) (s\<lparr>s3_main := butlast (s3_main s)\<rparr>);
          s2 = dec_frequency e (s1\<lparr>s3_main := e # s3_main s1\<rparr>)
      in inc_main_queue_size (s3_entry_size e) s2)"

lemma set_last_butlast: "xs \<noteq> [] \<Longrightarrow> set (last xs # butlast xs) = set xs"
  by (metis append_butlast_last_id list.simps(15) rotate1.simps(2) set_rotate1)

lemma recycle_fields [simp]:
  "s3_main (recycle_main e s) = e # butlast (s3_main s)"
  "s3_small (recycle_main e s) = s3_small s" "s3_ghost (recycle_main e s) = s3_ghost s"
  "s3_ghost_set (recycle_main e s) = s3_ghost_set s"
  "s3_small_queue_size (recycle_main e s) = s3_small_queue_size s"
  "s3_main_queue_size (recycle_main e s) = s3_main_queue_size s"
  "s3_total_size (recycle_main e s) = s3_total_size s"
  "s3_frequency (recycle_main e s) = (case s3_frequency s e of
     Some freq \<Rightarrow> (s3_frequency s)(e \<mapsto> (if freq = 0 then 0 else freq - 1)) | None \<Rightarrow> s3_frequency s)"
  by (auto simp: recycle_main_def Let_def dec_main_queue_size_def inc_main_queue_size_def
    dec_frequency_def split: option.split)

lemma recycle_heat:
  assumes "s3_main s \<noteq> []" and "freq_of s (last (s3_main s)) > 0"
  shows "main_heat (recycle_main (last (s3_main s)) s) < main_heat s"
proof -
  let ?e = "last (s3_main s)" and ?s = "recycle_main (last (s3_main s)) s"
  have set: "set (s3_main ?s) = set (s3_main s)" using set_last_butlast [OF assms(1)] by simp
  have e: "unat (freq_of ?s ?e) < unat (freq_of s ?e)"
    using assms(2) by (auto simp: freq_of_def word_less_nat_alt unat_sub word_le_nat_alt split: option.splits)
  have "unat (freq_of ?s i) \<le> unat (freq_of s i)" for i
    using e by (cases "i = ?e") (auto simp: freq_of_def split: option.splits)
  with e assms(1) show ?thesis
    unfolding main_heat_def set by (intro sum_strict_mono_ex1) (auto intro: bexI [of _ ?e])
qed

function evict_from_main :: "s3_state \<Rightarrow> entry_id option \<times> s3_state" where
  "evict_from_main s =
     (if s3_main s = [] then (None, s)
      else
        (let element = last (s3_main s) in
         if freq_of s element > 0 then evict_from_main (recycle_main element s)
         else
           (let s1 = dec_main_queue_size (s3_entry_size element) (s\<lparr>s3_main := butlast (s3_main s)\<rparr>)
            in (Some element, s1\<lparr>s3_frequency := (s3_frequency s1)(element := None)\<rparr>))))"
  by auto
termination
  by (relation "measure main_heat") (auto intro: recycle_heat)

declare evict_from_main.simps [simp del]

fun s3_victim_loop :: "nat \<Rightarrow> nat \<Rightarrow> s3_state \<Rightarrow> (entry_id list \<times> s3_state) option" where
  "s3_victim_loop 0 cnt s = None"
| "s3_victim_loop (Suc fuel) cnt s =
     (if cnt = 0 \<or> s3_total_size s = 0 then Some ([], s)
      else
        (let (victim, s1) = (if s3_small s \<noteq> [] \<and> small_queue_fraction_ge_tenth s
              then evict_from_small s else evict_from_main s) in
         case victim of
           Some v \<Rightarrow> do { (vs, s2) \<leftarrow> s3_victim_loop fuel (cnt - 1) s1; Some (v # vs, s2) }
         | None \<Rightarrow> s3_victim_loop fuel cnt s1))"

definition s3_find_victim :: "nat \<Rightarrow> s3_state \<Rightarrow> (entry_id list \<times> s3_state) option" where
  "s3_find_victim cnt s = s3_victim_loop (cnt + 2) cnt s"

definition s3_notify_insert :: "entry_id \<Rightarrow> batch_type \<Rightarrow> s3_state \<Rightarrow> s3_state option" where
  "s3_notify_insert i _ s =
     (let entry_size = s3_entry_size i in
      if check_if_entry_exists_in_small_or_main i s then Some (inc_frequency i s)
      else if i \<in> s3_ghost_set s then
        Some (inc_main_queue_size entry_size (s\<lparr>s3_ghost_set := s3_ghost_set s - {i},
          s3_ghost := filter (\<lambda>x. x \<noteq> i) (s3_ghost s), s3_main := i # s3_main s\<rparr>))
      else
        (let s1 = inc_small_queue_size entry_size (s\<lparr>s3_small := i # s3_small s\<rparr>)
         in Some (s1\<lparr>s3_frequency := (s3_frequency s1)(i \<mapsto> 0)\<rparr>)))"

definition s3_notify_access :: "entry_id \<Rightarrow> batch_type \<Rightarrow> s3_state \<Rightarrow> s3_state option" where
  "s3_notify_access i _ s =
     (if check_if_entry_exists_in_small_or_main i s then Some (inc_frequency i s) else Some s)"

definition s3_ops :: "s3_state policy_ops" where
  "s3_ops = \<lparr>op_find_victim = s3_find_victim, op_notify_insert = s3_notify_insert,
             op_notify_access = s3_notify_access\<rparr>"

definition s3_drop :: "s3_state \<Rightarrow> s3_state" where
  "s3_drop s = s\<lparr>s3_small := [], s3_main := [], s3_ghost := [], s3_ghost_set := {},
     s3_frequency := Map.empty, s3_total_size := 0, s3_small_queue_size := 0, s3_main_queue_size := 0\<rparr>"

section \<open>Invariant\<close>

definition s3_tracked :: "s3_state \<Rightarrow> entry_id set" where
  "s3_tracked s = set (s3_small s) \<union> set (s3_main s)"

text \<open>The counters follow the queues, and only queued entries have a frequency.\<close>

definition s3_inv :: "s3_state \<Rightarrow> bool" where
  "s3_inv s \<longleftrightarrow> s3_small_queue_size s = of_nat (length (s3_small s))
     \<and> s3_main_queue_size s = of_nat (length (s3_main s))
     \<and> s3_total_size s = s3_small_queue_size s + s3_main_queue_size s
     \<and> dom (s3_frequency s) \<subseteq> s3_tracked s"

lemma bit_count_le: "0 < n \<Longrightarrow> 2 ^ (bit_count n - 1) \<le> n"
proof (induction n rule: bit_count.induct)
  case (1 n)
  show ?case
  proof (cases "n div 2 = 0")
    case True
    then have "n = 1" using 1(2) by (simp add: div_eq_0_iff)
    then show ?thesis by (simp add: bit_count.simps)
  next
    case False
    then have "2 ^ (bit_count (n div 2) - 1) \<le> n div 2" using 1 by simp
    moreover have "bit_count (n div 2) \<noteq> 0" using False by (subst bit_count.simps) simp
    ultimately show ?thesis using 1(2) by (subst bit_count.simps) (cases "bit_count (n div 2)", auto)
  qed
qed

lemma f32_of_usize_pos: "w \<noteq> 0 \<Longrightarrow> 0 < f32_of_usize w"
proof -
  assume "w \<noteq> 0"
  then have n: "0 < unat w" by (simp add: unat_gt_0)
  have "2 ^ (bit_count (unat w) - 24) \<le> (2::nat) ^ (bit_count (unat w) - 1)" by (simp add: power_increasing)
  also have "\<dots> \<le> unat w" using bit_count_le [OF n] .
  finally have "0 < unat w div 2 ^ (bit_count (unat w) - 24)" by (simp add: div_greater_zero_iff)
  then show ?thesis by (simp add: f32_of_usize_def Let_def)
qed

text \<open>With nothing in the main queue, the small queue is the whole, so it is picked.\<close>

lemma fraction_all_small:
  assumes "s3_inv s" and "s3_main s = []" and "s3_total_size s \<noteq> 0"
  shows "s3_small s \<noteq> [] \<and> small_queue_fraction_ge_tenth s"
proof -
  have t: "s3_total_size s = s3_small_queue_size s" using assms(1,2) by (simp add: s3_inv_def)
  have "s3_small s \<noteq> []" using assms by (auto simp: s3_inv_def)
  with t f32_of_usize_pos [OF assms(3)] assms(3) show ?thesis
    by (simp add: small_queue_fraction_ge_tenth_def)
qed

lemma length_butlast_word: "xs \<noteq> [] \<Longrightarrow> (of_nat (length xs - Suc 0) :: usize) = of_nat (length xs) - 1"
  by (cases xs) (simp_all)

lemma evict_from_small_ok:
  "evict_from_small s = (v, s') \<Longrightarrow> s3_inv s \<Longrightarrow>
    s3_inv s' \<and> s3_tracked s' \<subseteq> s3_tracked s
    \<and> (case v of None \<Rightarrow> s3_small s' = [] \<and> s3_total_size s' = s3_total_size s
       | Some i \<Rightarrow> i \<in> s3_tracked s)"
proof (induction s rule: evict_from_small.induct)
  case (1 s)
  show ?case
  proof (cases "s3_small s = []")
    case True
    with 1(2,3) show ?thesis by (auto simp: evict_from_small.simps [of s])
  next
    case False
    let ?e = "last (s3_small s)"
    let ?s1 = "dec_small_queue_size (s3_entry_size ?e) (s\<lparr>s3_small := butlast (s3_small s)\<rparr>)"
    let ?s2 = "inc_main_queue_size (s3_entry_size ?e) (?s1\<lparr>s3_main := ?e # s3_main ?s1\<rparr>)"
    let ?s3 = "?s2\<lparr>s3_frequency := (s3_frequency ?s2)(?e \<mapsto> 0)\<rparr>"
    note set = set_last_butlast [OF False]
    show ?thesis
    proof (cases "freq_of s ?e > 1")
      case True
      have inv3: "s3_inv ?s3"
        using 1(3) False set
        by (auto simp: s3_inv_def dec_small_queue_size_def inc_main_queue_size_def s3_entry_size_def
          length_butlast_word s3_tracked_def)
      have tr: "s3_tracked ?s3 = s3_tracked s" "s3_total_size ?s3 = s3_total_size s"
        using set by (auto simp: s3_tracked_def dec_small_queue_size_def inc_main_queue_size_def)
      have run: "evict_from_small ?s3 = (v, s')"
        using 1(2) False True by (simp add: evict_from_small.simps [of s] Let_def)
      from 1(1) [OF False refl refl True, unfolded Let_def, OF run inv3] tr show ?thesis
        by (cases v) simp_all
    next
      case less: False
      have s': "v = Some ?e" "s' = ?s1\<lparr>s3_ghost := ?e # s3_ghost ?s1,
          s3_ghost_set := insert ?e (s3_ghost_set ?s1), s3_frequency := (s3_frequency ?s1)(?e := None)\<rparr>"
        using 1(2) False less by (simp_all add: evict_from_small.simps [of s] Let_def)
      have tr: "s3_tracked s = insert ?e (s3_tracked s')"
        using set s'(2) by (auto simp: s3_tracked_def dec_small_queue_size_def)
      have "dom (s3_frequency s') \<subseteq> s3_tracked s'"
        using 1(3) s'(2) tr by (auto simp: s3_inv_def dec_small_queue_size_def)
      then have "s3_inv s'"
        using 1(3) False s'(2)
        by (simp add: s3_inv_def dec_small_queue_size_def s3_entry_size_def length_butlast_word)
      with tr s'(1) show ?thesis by auto
    qed
  qed
qed

lemma evict_from_main_ok:
  "evict_from_main s = (v, s') \<Longrightarrow> s3_inv s \<Longrightarrow>
    s3_inv s' \<and> s3_tracked s' \<subseteq> s3_tracked s \<and> s3_small s' = s3_small s
    \<and> (case v of None \<Rightarrow> s3_main s = [] | Some i \<Rightarrow> i \<in> s3_tracked s)"
proof (induction s rule: evict_from_main.induct)
  case (1 s)
  show ?case
  proof (cases "s3_main s = []")
    case True
    with 1(2,3) show ?thesis by (auto simp: evict_from_main.simps [of s])
  next
    case False
    let ?e = "last (s3_main s)"
    note set = set_last_butlast [OF False]
    show ?thesis
    proof (cases "freq_of s ?e > 0")
      case True
      have tr: "s3_tracked (recycle_main ?e s) = s3_tracked s"
        using set by (auto simp: s3_tracked_def)
      have "s3_inv (recycle_main ?e s)"
        using 1(3) False set tr
        by (auto simp: s3_inv_def length_butlast_word s3_tracked_def split: option.splits if_splits)
      moreover have "evict_from_main (recycle_main ?e s) = (v, s')"
        using 1(2) False True by (simp add: evict_from_main.simps [of s] Let_def)
      ultimately show ?thesis
        using 1(1) [OF False refl True] tr False by (auto split: option.splits)
    next
      case cold: False
      let ?s1 = "dec_main_queue_size (s3_entry_size ?e) (s\<lparr>s3_main := butlast (s3_main s)\<rparr>)"
      have s': "v = Some ?e" "s' = ?s1\<lparr>s3_frequency := (s3_frequency ?s1)(?e := None)\<rparr>"
        using 1(2) False cold by (simp_all add: evict_from_main.simps [of s] Let_def)
      have tr: "s3_tracked s = insert ?e (s3_tracked s')"
        using set s'(2) by (auto simp: s3_tracked_def dec_main_queue_size_def)
      have "dom (s3_frequency s') \<subseteq> s3_tracked s'"
        using 1(3) s'(2) tr by (auto simp: s3_inv_def dec_main_queue_size_def)
      then have "s3_inv s'"
        using 1(3) False s'(2)
        by (simp add: s3_inv_def dec_main_queue_size_def s3_entry_size_def length_butlast_word)
      with tr s' show ?thesis by (auto simp: dec_main_queue_size_def)
    qed
  qed
qed

text \<open>The outer loop finds its victims within its fuel.\<close>

lemma s3_victim_loop_ok:
  "s3_inv s \<Longrightarrow> cnt + of_bool (s3_small s \<noteq> []) < fuel \<Longrightarrow>
    \<exists>vs s'. s3_victim_loop fuel cnt s = Some (vs, s') \<and> s3_inv s' \<and> set vs \<subseteq> s3_tracked s
      \<and> s3_tracked s' \<subseteq> s3_tracked s \<and> length vs \<le> cnt"
proof (induction fuel cnt s rule: s3_victim_loop.induct)
  case (2 fuel cnt s)
  show ?case
  proof (cases "cnt = 0 \<or> s3_total_size s = 0")
    case True
    with 2(3) show ?thesis by simp
  next
    case False
    let ?pick = "s3_small s \<noteq> [] \<and> small_queue_fraction_ge_tenth s"
    obtain v s1 where ev: "(if ?pick then evict_from_small s else evict_from_main s) = (v, s1)"
      by fastforce
    have ok: "s3_inv s1" "s3_tracked s1 \<subseteq> s3_tracked s" "\<And>i. v = Some i \<Longrightarrow> i \<in> s3_tracked s"
      using ev evict_from_small_ok [of s v s1] evict_from_main_ok [of s v s1] 2(3)
      by (auto split: if_splits option.splits)
    have small: "s3_small s1 = [] \<or> s3_small s \<noteq> []"
      using ev evict_from_main_ok [of s v s1] 2(3) by (auto split: if_splits)
    show ?thesis
    proof (cases v)
      case None
      have "?pick" using ev None fraction_all_small [OF 2(3)] evict_from_main_ok [of s v s1] 2(3) False
        by (auto split: if_splits)
      then have "s3_small s1 = []" using ev None evict_from_small_ok [of s v s1] 2(3) by auto
      then have "cnt + of_bool (s3_small s1 \<noteq> []) < fuel" using 2(4) \<open>?pick\<close> by simp
      from 2(1) [OF False ev [symmetric] refl None ok(1) this] ok(2) False ev None show ?thesis
        by simp (meson subset_trans)
    next
      case (Some i)
      have "cnt - 1 + of_bool (s3_small s1 \<noteq> []) < fuel" using 2(4) False small by auto
      from 2(2) [OF False ev [symmetric] refl Some ok(1) this] ok(2,3) False ev Some show ?thesis by fastforce
    qed
  qed
qed simp

lemma cap_frequency_le: "cap_frequency f \<le> 3"
  by (simp add: cap_frequency_def)

lemma inc_frequency_ok:
  assumes "s3_inv s"
  shows "s3_inv (inc_frequency i s) \<and> s3_tracked (inc_frequency i s) = s3_tracked s"
  using assms by (auto simp: inc_frequency_def s3_inv_def s3_tracked_def split: option.splits)

interpretation s3: cache_policy s3_ops s3_inv s3_tracked
proof unfold_locales
  fix p n assume "s3_inv p"
  from s3_victim_loop_ok [OF this, of n "n + 2"]
  show "\<exists>vs p'. op_find_victim s3_ops n p = Some (vs, p') \<and> s3_inv p' \<and> set vs \<subseteq> s3_tracked p
      \<and> s3_tracked p' \<subseteq> s3_tracked p \<and> length vs \<le> n"
    by (auto simp: s3_ops_def s3_find_victim_def)
next
  fix p i t assume p: "s3_inv p"
  note inc = inc_frequency_ok [OF p, of i]
  have "i \<in> s3_tracked p" if "s3_frequency p i = Some f" for f
    using p that by (auto simp: s3_inv_def)
  then have old: "insert i (s3_tracked p) = s3_tracked p" if "check_if_entry_exists_in_small_or_main i p"
    using that by (auto simp: check_if_entry_exists_in_small_or_main_def)
  have dom: "x \<in> set (s3_small p) \<or> x \<in> set (s3_main p)" if "s3_frequency p x = Some y" for x y
    using p that by (auto simp: s3_inv_def s3_tracked_def)
  have "s3_inv p' \<and> s3_tracked p' = insert i (s3_tracked p)" if "s3_notify_insert i t p = Some p'" for p'
  proof (cases "check_if_entry_exists_in_small_or_main i p")
    case True
    with that inc old show ?thesis by (simp add: s3_notify_insert_def)
  next
    case False
    with that p show ?thesis
      by (auto simp: s3_notify_insert_def Let_def s3_inv_def s3_tracked_def inc_main_queue_size_def
        inc_small_queue_size_def s3_entry_size_def dest: dom split: if_splits)
  qed
  moreover have "\<exists>p'. s3_notify_insert i t p = Some p'" by (simp add: s3_notify_insert_def Let_def)
  ultimately show "\<exists>p'. op_notify_insert s3_ops i t p = Some p' \<and> s3_inv p' \<and> s3_tracked p' = insert i (s3_tracked p)"
    by (auto simp: s3_ops_def)
  show "\<exists>p'. op_notify_access s3_ops i t p = Some p' \<and> s3_inv p' \<and> s3_tracked p' = s3_tracked p"
    using inc p by (simp add: s3_ops_def s3_notify_access_def)
qed

end
