(* ===== verification/PolicyRuns.thy ===== *)
theory PolicyRuns
  imports LruPolicy QueuePolicies LiquidPolicy HandPolicies S3Fifo
begin

text \<open>
  Whole histories of the cache policies against their specifications. A specification says on
  plain lists what an insert, an access and a request for victims do; the locale
  \<open>policy_refinement\<close> lifts the step-wise simulation of a policy (map, linked list, heap) to
  every sequence of trait calls. LRU is a recency list, FIFO and FILO are queues,
  \<open>LiquidPolicy\<close> is three queues served in the order Arrow, Liquid, squeezed beside the disk
  queue it never serves, CLOCK and SIEVE are a list with a hand that gives flagged entries a
  second chance. \<open>advises_once\<close> is the property the stress tests of
  \<^verbatim>\<open>src/storage/src/cache/policies/cache/mod.rs\<close> look for; every policy but S3-FIFO has it.
\<close>

section \<open>Specifications and their runs\<close>

record 'x spec_policy =
  sp_find_victim :: "nat \<Rightarrow> 'x \<Rightarrow> entry_id list \<times> 'x"
  sp_notify_insert :: "entry_id \<Rightarrow> batch_type \<Rightarrow> 'x \<Rightarrow> 'x"
  sp_notify_access :: "entry_id \<Rightarrow> batch_type \<Rightarrow> 'x \<Rightarrow> 'x"

fun run_spec :: "'x spec_policy \<Rightarrow> policy_call list \<Rightarrow> 'x \<Rightarrow> entry_id list \<times> 'x" where
  "run_spec sp [] x = ([], x)"
| "run_spec sp (Insert i t # cs) x = run_spec sp cs (sp_notify_insert sp i t x)"
| "run_spec sp (Access i t # cs) x = run_spec sp cs (sp_notify_access sp i t x)"
| "run_spec sp (Victims n # cs) x =
     (let (vs, y) = sp_find_victim sp n x; (ws, z) = run_spec sp cs y in (vs @ ws, z))"

definition recency_spec :: "entry_id list spec_policy" where
  "recency_spec = \<lparr>sp_find_victim = (\<lambda>n xs. (take n (rev xs), rev (drop n (rev xs)))),
     sp_notify_insert = (\<lambda>i t xs. i # remove1 i xs),
     sp_notify_access = (\<lambda>i t xs. if i \<in> set xs then i # remove1 i xs else xs)\<rparr>"

definition fifo_spec :: "entry_id list spec_policy" where
  "fifo_spec = \<lparr>sp_find_victim = (\<lambda>n xs. (take n xs, drop n xs)),
     sp_notify_insert = (\<lambda>i t xs. remove1 i xs @ [i]), sp_notify_access = (\<lambda>i t xs. xs)\<rparr>"

definition filo_spec :: "entry_id list spec_policy" where
  "filo_spec = \<lparr>sp_find_victim = (\<lambda>n xs. (take n xs, drop n xs)),
     sp_notify_insert = (\<lambda>i t xs. i # remove1 i xs), sp_notify_access = (\<lambda>i t xs. xs)\<rparr>"

definition liquid_spec :: "(queue_kind \<Rightarrow> entry_id list) spec_policy" where
  "liquid_spec = \<lparr>sp_find_victim = (\<lambda>n xs. (take n (evictable xs), spec_drop n xs)),
     sp_notify_insert = (\<lambda>i t xs. spec_upsert i (kind_of_batch t) xs), sp_notify_access = (\<lambda>i t xs. xs)\<rparr>"

text \<open>CLOCK inserts with the flag set, SIEVE without.\<close>

definition hand_spec :: "bool \<Rightarrow> zipper spec_policy" where
  "hand_spec f = \<lparr>sp_find_victim = hand_victims, sp_notify_insert = (\<lambda>i t z. hand_upsert f i z),
     sp_notify_access = (\<lambda>i t z. (touch i (fst z), touch i (snd z)))\<rparr>"

text \<open>
  After any history of calls from the start state, no entry was handed out more often than it
  was inserted, and no answer to a request for victims names an entry twice.
\<close>

definition advises_once :: "'p policy_ops \<Rightarrow> 'p \<Rightarrow> bool" where
  "advises_once ops p0 \<longleftrightarrow> (\<forall>cs. \<exists>vs p'. run_policy ops cs p0 = Some (vs, p')
     \<and> (\<forall>i. count_list vs i \<le> inserts_of i cs)
     \<and> (\<forall>n ws q. op_find_victim ops n p' = Some (ws, q) \<longrightarrow> distinct ws))"

section \<open>Lifting the simulation\<close>

locale policy_refinement =
  fixes ops :: "'p policy_ops" and sp :: "'x spec_policy" and rep :: "'p \<Rightarrow> 'x \<Rightarrow> bool"
  assumes rep_find_victim: "rep p x \<Longrightarrow> sp_find_victim sp n x = (vs, y) \<Longrightarrow>
      \<exists>p'. op_find_victim ops n p = Some (vs, p') \<and> rep p' y"
    and rep_notify_insert: "rep p x \<Longrightarrow>
      \<exists>p'. op_notify_insert ops i t p = Some p' \<and> rep p' (sp_notify_insert sp i t x)"
    and rep_notify_access: "rep p x \<Longrightarrow>
      \<exists>p'. op_notify_access ops i t p = Some p' \<and> rep p' (sp_notify_access sp i t x)"
begin

lemma run_refines:
  "rep p x \<Longrightarrow> \<exists>p'. run_policy ops cs p = Some (fst (run_spec sp cs x), p') \<and> rep p' (snd (run_spec sp cs x))"
proof (induction cs arbitrary: p x)
  case Nil
  then show ?case by simp
next
  case (Cons c cs)
  show ?case
  proof (cases c)
    case (Insert i t)
    with rep_notify_insert [OF Cons.prems, of i t] Cons.IH show ?thesis by fastforce
  next
    case (Access i t)
    with rep_notify_access [OF Cons.prems, of i t] Cons.IH show ?thesis by fastforce
  next
    case (Victims n)
    obtain vs y where y: "sp_find_victim sp n x = (vs, y)" by fastforce
    then obtain q where q: "op_find_victim ops n p = Some (vs, q)" "rep q y"
      using rep_find_victim [OF Cons.prems] by blast
    obtain p' where "run_policy ops cs q = Some (fst (run_spec sp cs y), p')" "rep p' (snd (run_spec sp cs y))"
      using Cons.IH [OF q(2)] by blast
    with Victims y q(1) show ?thesis by (simp add: case_prod_unfold Let_def)
  qed
qed

end

interpretation lru_ref: policy_refinement lru_ops recency_spec lru_rep
  using lru_find_victim_rep lru_notify_insert_rep lru_notify_access_rep
  by unfold_locales (auto simp: lru_ops_def recency_spec_def)

interpretation fifo_ref: policy_refinement fifo_ops fifo_spec queue_rep
  using queue_find_victim_rep insert_back_rep
  by unfold_locales (auto simp: fifo_ops_def fifo_spec_def fifo_notify_insert_def default_notify_access_def)

interpretation filo_ref: policy_refinement filo_ops filo_spec queue_rep
  using queue_find_victim_rep insert_front_rep
  by unfold_locales (auto simp: filo_ops_def filo_spec_def filo_notify_insert_def default_notify_access_def)

interpretation liquid_ref: policy_refinement liquid_ops liquid_spec tq_rep
  using liquid_find_victim_rep upsert_into_queue_rep
  by unfold_locales (auto simp: liquid_ops_def liquid_spec_def liquid_notify_insert_def liquid_notify_access_def)

interpretation clock_ref: policy_refinement "clock_ops size_of" "hand_spec True"
  "hand_rep True (clock_entry_size size_of)"
proof unfold_locales
  fix p z n vs y assume "hand_rep True (clock_entry_size size_of) p z" "sp_find_victim (hand_spec True) n z = (vs, y)"
  then show "\<exists>p'. op_find_victim (clock_ops size_of) n p = Some (vs, p') \<and> hand_rep True (clock_entry_size size_of) p' y"
    using clock_find_victim_rep [of size_of p z n] by (simp add: clock_ops_def hand_spec_def)
qed (use clock_notify_insert_rep hand_notify_access_rep in \<open>auto simp: clock_ops_def hand_spec_def\<close>)

interpretation sieve_ref: policy_refinement sieve_ops "hand_spec False" "hand_rep False sieve_entry_size"
proof unfold_locales
  fix p z n vs y assume "hand_rep False sieve_entry_size p z" "sp_find_victim (hand_spec False) n z = (vs, y)"
  then show "\<exists>p'. op_find_victim sieve_ops n p = Some (vs, p') \<and> hand_rep False sieve_entry_size p' y"
    using sieve_find_victim_rep [of p z n] by (simp add: sieve_ops_def hand_spec_def)
qed (use sieve_notify_insert_rep hand_notify_access_rep in \<open>auto simp: sieve_ops_def hand_spec_def\<close>)

section \<open>Start states\<close>

lemma tq_rep_new: "tq_rep liquid_policy_new (\<lambda>_. [])"
proof -
  have "list_of_kind q liquid_policy_new = dll_new" for q
    by (cases q) (simp_all add: liquid_policy_new_def)
  then show ?thesis
    unfolding tq_rep_def by (intro exI [of _ "\<lambda>_. []"])
      (simp add: tq_ptrs_def lists_rep_def all_ptrs_def tq_keys_def liquid_policy_new_def fun_eq_iff)
qed

lemma hand_rep_default: "hand_rep fwd sz hand_state_default ([], [])"
  unfolding hand_rep_def hand_ptrs_def
  by (intro exI [of _ "[]"]) (simp add: hand_state_default_def ordered_def)

lemma s3_inv_new: "s3_inv s3_new"
  by (simp add: s3_inv_def s3_new_def s3_tracked_def)

context exclusive_policy
begin

lemma advises_once_from:
  assumes "inv p0" and "tracked p0 = {}"
  shows "advises_once ops p0"
  unfolding advises_once_def
proof
  fix cs
  obtain vs p' where r: "run_policy ops cs p0 = Some (vs, p')" "inv p'" using run_ok [OF assms(1)] by blast
  have "count_list vs i \<le> inserts_of i cs" for i
    using run_advice_once [OF assms(1) r(1), of i] assms(2) by simp
  with r find_victim_excl [OF r(2)] show "\<exists>vs p'. run_policy ops cs p0 = Some (vs, p')
      \<and> (\<forall>i. count_list vs i \<le> inserts_of i cs)
      \<and> (\<forall>n ws q. op_find_victim ops n p' = Some (ws, q) \<longrightarrow> distinct ws)"
    by blast
qed

end

section \<open>A run of S3-FIFO\<close>

text \<open>
  An entry is inserted, evicted into the ghost queue, and inserted twice more: the second of
  these inserts does not find it in the main queue and puts it into the small queue too.
\<close>

lemma f32_small: "f32_of_usize 1 = 1" "f32_of_usize 2 = 2"
  by (simp_all add: f32_of_usize_def Let_def bit_count.simps [of 2] bit_count.simps [of 1] bit_count.simps [of 0]
    bit_count.simps [of "Suc 0"])

text \<open>One entry in the small queue; the same entry in both queues.\<close>

definition s3_one :: s3_state where
  "s3_one = s3_new\<lparr>s3_small := [EntryID 1], s3_frequency := [EntryID 1 \<mapsto> 0], s3_small_queue_size := 1, s3_total_size := 1\<rparr>"

definition s3_both :: s3_state where
  "s3_both = s3_new\<lparr>s3_small := [EntryID 1], s3_main := [EntryID 1], s3_frequency := [EntryID 1 \<mapsto> 0],
     s3_small_queue_size := 1, s3_main_queue_size := 1, s3_total_size := 2\<rparr>"

definition s3_ghosted :: "s3_state \<Rightarrow> s3_state" where
  "s3_ghosted s = s\<lparr>s3_small := [], s3_small_queue_size := 0, s3_total_size := s3_main_queue_size s,
     s3_ghost := [EntryID 1], s3_ghost_set := {EntryID 1}, s3_frequency := Map.empty\<rparr>"

lemmas s3_step_defs = s3_new_def s3_one_def s3_both_def s3_ghosted_def freq_of_def s3_entry_size_def
  dec_small_queue_size_def dec_main_queue_size_def inc_small_queue_size_def inc_main_queue_size_def Let_def

lemma evict_one: "evict_from_small s3_one = (Some (EntryID 1), s3_ghosted s3_one)"
  by (subst evict_from_small.simps) (simp add: s3_step_defs)

lemma evict_both: "evict_from_small s3_both = (Some (EntryID 1), s3_ghosted s3_both)"
  by (subst evict_from_small.simps) (simp add: s3_step_defs)

lemma evict_main_both: "\<exists>s. evict_from_main (s3_ghosted s3_both) = (Some (EntryID 1), s) \<and> s3_total_size s = 0"
  by (subst evict_from_main.simps) (simp add: s3_step_defs)

lemma find_one: "s3_find_victim 1 s3_one = Some ([EntryID 1], s3_ghosted s3_one)"
proof -
  have "small_queue_fraction_ge_tenth s3_one" by (simp add: small_queue_fraction_ge_tenth_def s3_one_def f32_small)
  then show ?thesis using evict_one
    by (simp add: s3_find_victim_def numeral_3_eq_3) (simp add: s3_step_defs)
qed

lemma find_both: "\<exists>s. s3_find_victim 2 s3_both = Some ([EntryID 1, EntryID 1], s)"
proof -
  have "small_queue_fraction_ge_tenth s3_both" by (simp add: small_queue_fraction_ge_tenth_def s3_both_def f32_small)
  moreover have "s3_small (s3_ghosted s3_both) = []" "s3_total_size s3_both = 2" "s3_total_size (s3_ghosted s3_both) = 1"
     "s3_small s3_both = [EntryID 1]"
    by (simp_all add: s3_both_def s3_ghosted_def)
  ultimately show ?thesis using evict_both evict_main_both
    by (auto simp: s3_find_victim_def eval_nat_numeral)
qed

lemma run_both:
  "run_policy s3_ops [Insert (EntryID 1) t, Victims 1, Insert (EntryID 1) t, Insert (EntryID 1) t] s3_new
    = Some ([EntryID 1], s3_both)"
proof -
  have "s3_notify_insert (EntryID 1) t s3_new = Some s3_one"
    by (simp add: s3_notify_insert_def check_if_entry_exists_in_small_or_main_def s3_step_defs)
  moreover have "\<exists>s. s3_notify_insert (EntryID 1) t (s3_ghosted s3_one) = Some s \<and> s3_notify_insert (EntryID 1) t s = Some s3_both"
    by (simp add: s3_notify_insert_def check_if_entry_exists_in_small_or_main_def s3_step_defs)
  ultimately show ?thesis using find_one by (auto simp: s3_ops_def)
qed

end
