(* ===== verification/ParquetIds.thy ===== *)
theory ParquetIds
  imports Prelude "HOL-Library.Char_ord"
begin

unbundle bit_operations_syntax

text \<open>
  Cache keys of Parquet data, \<^verbatim>\<open>src/parquet/src/cache/id.rs\<close>: file, row group, column and batch
  number packed into one \<open>usize\<close>, and the path of an entry on disk, for this key and for the
  default I/O context (\<^verbatim>\<open>src/storage/src/cache/io_context.rs\<close>). A conversion \<open>as u16\<close> truncates;
  the \<open>debug_assert\<close>s that guard it are not checked in a release build and appear as
  hypotheses of the results.
\<close>

section \<open>Keys\<close>

record batch_id =
  batch_v :: u16

definition batch_id_from_row_id :: "usize \<Rightarrow> usize \<Rightarrow> batch_id option" where
  "batch_id_from_row_id row_id batch_size =
     (if batch_size = 0 then None else Some \<lparr>batch_v = ucast (row_id div batch_size)\<rparr>)"

definition batch_id_from_raw :: "u16 \<Rightarrow> batch_id" where
  "batch_id_from_raw v = \<lparr>batch_v = v\<rparr>"

definition batch_id_inc :: "batch_id \<Rightarrow> batch_id" where
  "batch_id_inc b = b\<lparr>batch_v := batch_v b + 1\<rparr>"

record parquet_array_id =
  file_id :: u16
  rg_id :: u16
  col_id :: u16
  batch_id_of :: batch_id

definition parquet_array_id_new :: "u64 \<Rightarrow> u64 \<Rightarrow> u64 \<Rightarrow> batch_id \<Rightarrow> parquet_array_id" where
  "parquet_array_id_new f r c b = \<lparr>file_id = ucast f, rg_id = ucast r, col_id = ucast c, batch_id_of = b\<rparr>"

definition usize_of_parquet_id :: "parquet_array_id \<Rightarrow> usize" where
  "usize_of_parquet_id i = push_bit 48 (ucast (file_id i)) OR push_bit 32 (ucast (rg_id i))
     OR push_bit 16 (ucast (col_id i)) OR ucast (batch_v (batch_id_of i))"

definition parquet_id_of_usize :: "usize \<Rightarrow> parquet_array_id" where
  "parquet_id_of_usize v = \<lparr>file_id = ucast (drop_bit 48 v), rg_id = ucast (drop_bit 32 v AND 0xFFFF),
     col_id = ucast (drop_bit 16 v AND 0xFFFF),
     batch_id_of = batch_id_from_raw (ucast (v AND 0xFFFF))\<rparr>"

definition entry_of_parquet_id :: "parquet_array_id \<Rightarrow> entry_id" where
  "entry_of_parquet_id i = EntryID (usize_of_parquet_id i)"

definition parquet_id_of_entry :: "entry_id \<Rightarrow> parquet_array_id" where
  "parquet_id_of_entry e = parquet_id_of_usize (eid_val e)"

definition batch_id_inner :: "parquet_array_id \<Rightarrow> u64" where
  "batch_id_inner i = ucast (batch_v (batch_id_of i))"

definition file_id_inner :: "parquet_array_id \<Rightarrow> u64" where
  "file_id_inner i = ucast (file_id i)"

definition row_group_id_inner :: "parquet_array_id \<Rightarrow> u64" where
  "row_group_id_inner i = ucast (rg_id i)"

definition column_id_inner :: "parquet_array_id \<Rightarrow> u64" where
  "column_id_inner i = ucast (col_id i)"

record column_access_path =
  cap_file :: u16
  cap_rg :: u16
  cap_col :: u16

definition column_access_path_new :: "u64 \<Rightarrow> u64 \<Rightarrow> u64 \<Rightarrow> column_access_path" where
  "column_access_path_new f r c = \<lparr>cap_file = ucast f, cap_rg = ucast r, cap_col = ucast c\<rparr>"

definition cap_entry_id :: "column_access_path \<Rightarrow> batch_id \<Rightarrow> parquet_array_id" where
  "cap_entry_id p b = parquet_array_id_new (ucast (cap_file p)) (ucast (cap_rg p)) (ucast (cap_col p)) b"

definition cap_of_parquet_id :: "parquet_array_id \<Rightarrow> column_access_path" where
  "cap_of_parquet_id i = \<lparr>cap_file = ucast (file_id_inner i), cap_rg = ucast (row_group_id_inner i),
     cap_col = ucast (column_id_inner i)\<rparr>"

section \<open>Paths\<close>

text \<open>Decimal digits, as \<open>format!("{}")\<close> prints an unsigned integer.\<close>

definition digit_char :: "nat \<Rightarrow> char" where
  "digit_char d = (if d < 10 then char_of (48 + d) else char_of (87 + d))"

fun decimal :: "nat \<Rightarrow> string" where
  "decimal n = (if n < 10 then [digit_char n] else decimal (n div 10) @ [digit_char (n mod 10)])"

declare decimal.simps [simp del]

text \<open>A path is the list of its components below the cache's root directory.\<close>

definition on_disk_liquid_path :: "parquet_array_id \<Rightarrow> string list" where
  "on_disk_liquid_path i =
     [''file_'' @ decimal (unat (file_id_inner i)), ''rg_'' @ decimal (unat (row_group_id_inner i)),
      ''col_'' @ decimal (unat (column_id_inner i)),
      ''batch_'' @ decimal (unat (batch_id_inner i)) @ ''.liquid'']"

definition column_dir :: "column_access_path \<Rightarrow> string list" where
  "column_dir p = [''file_'' @ decimal (unat (ucast (cap_file p) :: u64)),
     ''rg_'' @ decimal (unat (ucast (cap_rg p) :: u64)), ''col_'' @ decimal (unat (ucast (cap_col p) :: u64))]"

text \<open>\<open>DefaultIoContext::disk_path\<close>, \<open>{:016x}.liquid\<close>: sixteen hexadecimal digits.\<close>

fun hex_digits :: "nat \<Rightarrow> nat \<Rightarrow> string" where
  "hex_digits 0 n = []"
| "hex_digits (Suc k) n = hex_digits k (n div 16) @ [digit_char (n mod 16)]"

definition default_disk_path :: "entry_id \<Rightarrow> string" where
  "default_disk_path e = hex_digits 16 (unat (eid_val e)) @ ''.liquid''"

section \<open>Round trips\<close>

lemma low16: "(0xFFFF :: usize) = mask 16"
  by (simp add: mask_eq_exp_minus_1)

lemma usize_of_parquet_id_bit:
  "n < 64 \<Longrightarrow> bit (usize_of_parquet_id i) n =
    (if n < 16 then bit (batch_v (batch_id_of i)) n else if n < 32 then bit (col_id i) (n - 16)
     else if n < 48 then bit (rg_id i) (n - 32) else bit (file_id i) (n - 48))"
  by (auto simp: usize_of_parquet_id_def bit_or_iff bit_push_bit_iff bit_ucast_iff
    dest: bit_imp_le_length)

lemma parquet_id_of_usize_inverse: "usize_of_parquet_id (parquet_id_of_usize v) = v"
proof (rule bit_word_eqI)
  fix n assume "n < LENGTH(64)"
  then show "bit (usize_of_parquet_id (parquet_id_of_usize v)) n = bit v n"
    by (auto simp: usize_of_parquet_id_bit parquet_id_of_usize_def batch_id_from_raw_def low16
      bit_ucast_iff bit_drop_bit_eq bit_and_iff bit_mask_iff)
qed

lemma usize_of_parquet_id_inverse: "parquet_id_of_usize (usize_of_parquet_id i) = i"
proof -
  have "ucast (drop_bit 48 (usize_of_parquet_id i)) = file_id i"
    "ucast (drop_bit 32 (usize_of_parquet_id i) AND 0xFFFF) = rg_id i"
    "ucast (drop_bit 16 (usize_of_parquet_id i) AND 0xFFFF) = col_id i"
    "ucast (usize_of_parquet_id i AND 0xFFFF) = batch_v (batch_id_of i)"
    by (rule bit_word_eqI; simp add: low16 bit_ucast_iff bit_drop_bit_eq bit_and_iff bit_mask_iff
      usize_of_parquet_id_bit)+
  then show ?thesis
    by (simp add: parquet_id_of_usize_def batch_id_from_raw_def)
qed

lemma usize_of_parquet_id_inj: "inj usize_of_parquet_id"
  by (metis injI usize_of_parquet_id_inverse)

text \<open>Within the asserted ranges nothing is truncated.\<close>

lemma ucast_u16_small: "unat (w :: u64) < 2 ^ 16 \<Longrightarrow> ucast (ucast w :: u16) = w"
  by (simp add: word_unat_eq_iff unsigned_ucast_eq unsigned_take_bit_eq take_bit_nat_eq_self)

lemma ucast_u16_u64 [simp]: "ucast (ucast (w :: u16) :: u64) = w"
  by (rule bit_word_eqI) (simp add: bit_ucast_iff)

lemma parquet_array_id_new_inner:
  assumes "unat f < 2 ^ 16" and "unat r < 2 ^ 16" and "unat c < 2 ^ 16"
  shows "file_id_inner (parquet_array_id_new f r c b) = f"
    and "row_group_id_inner (parquet_array_id_new f r c b) = r"
    and "column_id_inner (parquet_array_id_new f r c b) = c"
  using assms by (simp_all add: parquet_array_id_new_def file_id_inner_def row_group_id_inner_def
    column_id_inner_def ucast_u16_small)

lemma cap_entry_id_inverse: "cap_of_parquet_id (cap_entry_id p b) = p"
  by (simp add: cap_of_parquet_id_def cap_entry_id_def parquet_array_id_new_def file_id_inner_def
    row_group_id_inner_def column_id_inner_def)

lemma unat_ucast_u16: "unat (ucast (w :: u64) :: u16) = unat w mod 2 ^ 16"
  by (simp add: unsigned_ucast_eq unsigned_take_bit_eq take_bit_eq_mod)

text \<open>Two rows of a row group share a batch number only if they are in the same batch, for up to
  \<open>2 ^ 16\<close> batches.\<close>

lemma batch_id_from_row_id_inj:
  assumes "batch_id_from_row_id r n = Some b" and "batch_id_from_row_id r' n = Some b"
    and "unat r div unat n < 2 ^ 16" and "unat r' div unat n < 2 ^ 16"
  shows "unat r div unat n = unat r' div unat n"
proof -
  have "(ucast (r div n) :: u16) = ucast (r' div n)"
    using assms(1,2) by (auto simp: batch_id_from_row_id_def split: if_splits)
  then have "unat (r div n) mod 2 ^ 16 = unat (r' div n) mod 2 ^ 16"
    by (metis unat_ucast_u16)
  with assms(3,4) show ?thesis by (simp add: unat_div)
qed

section \<open>Paths tell keys apart\<close>

definition digit_val :: "char \<Rightarrow> nat" where
  "digit_val c = (if of_char c < (58::nat) then of_char c - 48 else of_char c - 87)"

definition number_val :: "nat \<Rightarrow> string \<Rightarrow> nat" where
  "number_val b s = foldl (\<lambda>a c. b * a + digit_val c) 0 s"

lemma digit_val_char: "d < 16 \<Longrightarrow> digit_val (digit_char d) = d"
  by (simp add: digit_val_def digit_char_def)

lemma number_val_snoc [simp]: "number_val b (s @ [c]) = b * number_val b s + digit_val c"
  by (simp add: number_val_def)

lemma number_val_decimal: "number_val 10 (decimal n) = n"
proof (induction n rule: decimal.induct)
  case (1 n)
  show ?case
  proof (cases "n < 10")
    case True
    then show ?thesis by (simp add: decimal.simps [of n] number_val_def digit_val_char)
  next
    case False
    with 1 show ?thesis by (simp add: decimal.simps [of n] digit_val_char)
  qed
qed

lemma decimal_inj: "decimal m = decimal n \<longleftrightarrow> m = n"
  by (metis number_val_decimal)

lemma number_val_hex: "n < 16 ^ k \<Longrightarrow> number_val 16 (hex_digits k n) = n"
proof (induction k arbitrary: n)
  case 0
  then show ?case by (simp add: number_val_def)
next
  case (Suc k)
  then have "n div 16 < 16 ^ k" by (simp add: less_mult_imp_div_less mult.commute)
  with Suc.IH show ?case by (simp add: digit_val_char)
qed

lemma unat_lt_hex: "unat (w :: usize) < 16 ^ 16"
  using unsigned_less [of w, where ?'a = nat] by simp

lemma default_disk_path_inj: "inj default_disk_path"
proof (rule injI)
  fix x y assume "default_disk_path x = default_disk_path y"
  then have "hex_digits 16 (unat (eid_val x)) = hex_digits 16 (unat (eid_val y))"
    by (simp add: default_disk_path_def)
  then have "unat (eid_val x) = unat (eid_val y)"
    by (metis number_val_hex unat_lt_hex)
  then show "x = y" by (simp add: entry_id.expand word_unat_eq_iff)
qed

lemma unat_ucast_u64_inj: "unat (ucast (a :: u16) :: u64) = unat (ucast (b :: u16) :: u64) \<longleftrightarrow> a = b"
  by (metis ucast_u16_u64 word_unat_eq_iff)

lemma on_disk_liquid_path_inj: "inj on_disk_liquid_path"
proof (rule injI)
  fix x y assume "on_disk_liquid_path x = on_disk_liquid_path y"
  then have "file_id x = file_id y" "rg_id x = rg_id y" "col_id x = col_id y"
    "batch_v (batch_id_of x) = batch_v (batch_id_of y)"
    by (simp_all add: on_disk_liquid_path_def decimal_inj file_id_inner_def row_group_id_inner_def
      column_id_inner_def batch_id_inner_def unat_ucast_u64_inj)
  then show "x = y" by simp
qed

text \<open>The file of an entry lies in the directory that \<open>initialize_dir\<close> creates for its column.\<close>

lemma on_disk_liquid_path_dir:
  "butlast (on_disk_liquid_path i) = column_dir (cap_of_parquet_id i)"
  by (simp add: on_disk_liquid_path_def column_dir_def cap_of_parquet_id_def file_id_inner_def
    row_group_id_inner_def column_id_inner_def)

end
