(* ===== verification/ByteCache.thy ===== *)
theory ByteCache
  imports ParquetIds
begin

text \<open>
  The byte cache of remote objects, \<^verbatim>\<open>src/storage/src/utils/byte_cache.rs\<close>. An object is cut into
  chunks of 4 MiB; \<open>get_opts\<close> fetches the chunks of the requested range that are not in the cache
  directory, saves each through a temporary file and a rename, and answers from the files. The
  wrapped object store is a parameter with its documented behaviour (\<open>store_ok\<close>). The file system
  is a map from paths to contents; every step of a save may fail (\<open>io_fault\<close>). Byte positions are
  natural numbers with the 64-bit overflow checks written out: an overflow is \<open>Panicked\<close>.
\<close>

section \<open>Object stores\<close>

datatype 'e os_error =
    Generic
  | StoreError 'e
  | Panicked

datatype get_range =
    Bounded nat nat
  | Suffix nat
  | Offset nat

record 'o get_options =
  go_range :: "get_range option"
  go_head :: bool
  go_rest :: 'o

record 'e get_result =
  gr_payload :: "('e os_error + bytes) list"
  gr_size :: nat
  gr_range :: "nat \<times> nat"

text \<open>\<open>GetResult::bytes\<close>: the items of the stream up to the first error.\<close>

fun collect_bytes :: "('e os_error + bytes) list \<Rightarrow> 'e os_error + bytes" where
  "collect_bytes [] = Inr []"
| "collect_bytes (Inl e # items) = Inl e"
| "collect_bytes (Inr d # items) = (case collect_bytes items of Inl e \<Rightarrow> Inl e | Inr ds \<Rightarrow> Inr (d @ ds))"

record ('o, 'e) object_store =
  os_head :: "string \<Rightarrow> 'e os_error + nat"
  os_get_opts :: "string \<Rightarrow> 'o get_options \<Rightarrow> 'e os_error + 'e get_result"

section \<open>The cache directory\<close>

type_synonym path_buf = "string list"

record file_system =
  fs_dirs :: "path_buf set"
  fs_files :: "path_buf \<Rightarrow> bytes option"

text \<open>Where a save stops, if it does.\<close>

datatype io_fault =
    NoFault
  | DirFault
  | CreateFault
  | WriteFault nat
  | SyncFault
  | RenameFault

definition CACHE_BLOCK_SIZE :: nat where
  "CACHE_BLOCK_SIZE = 1024 * 1024 * 4"

definition get_cache_dir_for_path :: "path_buf \<Rightarrow> string \<Rightarrow> path_buf" where
  "get_cache_dir_for_path cache_dir path = cache_dir @ [map (\<lambda>c. if c = CHR ''/'' then CHR ''_'' else c) path]"

definition get_chunk_path :: "path_buf \<Rightarrow> string \<Rightarrow> nat \<Rightarrow> path_buf" where
  "get_chunk_path cache_dir path chunk_index =
     get_cache_dir_for_path cache_dir path @ [''chunk_'' @ decimal chunk_index @ ''.bin'']"

text \<open>The time and the thread identifier in the name of a temporary file are its \<open>stamp\<close>.\<close>

definition get_temp_chunk_path :: "path_buf \<Rightarrow> string \<Rightarrow> nat \<Rightarrow> string \<Rightarrow> path_buf" where
  "get_temp_chunk_path cache_dir path chunk_index stamp =
     get_cache_dir_for_path cache_dir path @ [''in-progress-chunk_'' @ decimal chunk_index @ ''_'' @ stamp @ ''.bin'']"

definition chunks_for_range :: "nat \<times> nat \<Rightarrow> nat list option" where
  "chunks_for_range = (\<lambda>(start, stop).
     if stop = 0 then None
     else Some [start div CACHE_BLOCK_SIZE..<Suc ((stop - 1) div CACHE_BLOCK_SIZE)])"

definition is_chunk_ready :: "file_system \<Rightarrow> path_buf \<Rightarrow> bool" where
  "is_chunk_ready fs chunk_path = (fs_files fs chunk_path \<noteq> None)"

definition read_from_cached_chunk :: "file_system \<Rightarrow> path_buf \<Rightarrow> nat \<Rightarrow> nat \<Rightarrow> 'e os_error + bytes" where
  "read_from_cached_chunk fs chunk_path offset len =
     (case fs_files fs chunk_path of
        None \<Rightarrow> Inl Generic
      | Some d \<Rightarrow> if offset + len \<le> length d \<or> len = 0 then Inr (take len (drop offset d)) else Inl Generic)"

definition save_chunk ::
  "path_buf \<Rightarrow> io_fault \<Rightarrow> string \<Rightarrow> string \<Rightarrow> nat \<Rightarrow> bytes \<Rightarrow> file_system \<Rightarrow> ('e os_error + unit) \<times> file_system" where
  "save_chunk cache_dir fault stamp path chunk_index data fs =
     (let dir = get_cache_dir_for_path cache_dir path;
          temp = get_temp_chunk_path cache_dir path chunk_index stamp;
          final = get_chunk_path cache_dir path chunk_index
      in if dir \<notin> fs_dirs fs \<and> fault = DirFault then (Inl Generic, fs)
         else
           (let fs1 = fs\<lparr>fs_dirs := insert dir (fs_dirs fs)\<rparr>;
                with_temp = (\<lambda>d. fs1\<lparr>fs_files := (fs_files fs1)(temp \<mapsto> d)\<rparr>)
            in case fault of
                 CreateFault \<Rightarrow> (Inl Generic, fs1)
               | WriteFault n \<Rightarrow> (Inl Generic, with_temp (take n data))
               | SyncFault \<Rightarrow> (Inl Generic, with_temp data)
               | RenameFault \<Rightarrow>
                   (let fs2 = fs1\<lparr>fs_files := (fs_files fs1)(temp := None)\<rparr>
                    in if fs_files fs2 final \<noteq> None then (Inr (), fs2) else (Inl Generic, fs2))
               | _ \<Rightarrow> (Inr (), fs1\<lparr>fs_files := (fs_files fs1)(temp := None, final \<mapsto> data)\<rparr>)))"

text \<open>The stream of a range: what each chunk contributes, read when the stream is polled.\<close>

definition cached_chunk_item ::
  "path_buf \<Rightarrow> file_system \<Rightarrow> string \<Rightarrow> nat \<times> nat \<Rightarrow> nat \<Rightarrow> ('e os_error + bytes) list" where
  "cached_chunk_item cache_dir fs location = (\<lambda>(start, stop) chunk_idx.
     (let chunk_path = get_chunk_path cache_dir location chunk_idx;
          chunk_start = chunk_idx * CACHE_BLOCK_SIZE;
          chunk_end = chunk_start + CACHE_BLOCK_SIZE;
          overlap_start = max chunk_start start;
          overlap_end = min chunk_end stop
      in if chunk_end \<ge> 2 ^ 64 then [Inl Panicked]
         else if overlap_start < overlap_end
           then [read_from_cached_chunk fs chunk_path (overlap_start - chunk_start) (overlap_end - overlap_start)]
         else []))"

definition get_range_from_cache_stream ::
  "path_buf \<Rightarrow> file_system \<Rightarrow> string \<Rightarrow> nat \<times> nat \<Rightarrow> ('e os_error + bytes) list" where
  "get_range_from_cache_stream cache_dir fs location rng =
     (case chunks_for_range rng of
        None \<Rightarrow> [Inl Panicked]
      | Some chunks_needed \<Rightarrow> concat (map (cached_chunk_item cache_dir fs location rng) chunks_needed))"

section \<open>Reads\<close>

definition requested_range :: "nat \<Rightarrow> get_range option \<Rightarrow> nat \<times> nat" where
  "requested_range file_size r =
     (case r of
        Some (Bounded start stop) \<Rightarrow> (start, stop)
      | Some (Suffix suffix) \<Rightarrow> (file_size - suffix, file_size)
      | Some (Offset offset) \<Rightarrow> (offset, file_size)
      | None \<Rightarrow> (0, file_size))"

fun fetch_chunks ::
  "path_buf \<Rightarrow> ('o, 'e) object_store \<Rightarrow> (nat \<Rightarrow> io_fault) \<Rightarrow> string \<Rightarrow> string \<Rightarrow> 'o get_options \<Rightarrow> nat \<Rightarrow> nat list
    \<Rightarrow> file_system \<Rightarrow> ('e os_error + unit) \<times> file_system" where
  "fetch_chunks cache_dir S faults stamp location options file_size [] fs = (Inr (), fs)"
| "fetch_chunks cache_dir S faults stamp location options file_size (chunk_idx # missing_chunks) fs =
     (let chunk_start = chunk_idx * CACHE_BLOCK_SIZE in
      if chunk_start + CACHE_BLOCK_SIZE \<ge> 2 ^ 64 then (Inl Panicked, fs)
      else
        (let chunk_end = min (chunk_start + CACHE_BLOCK_SIZE) file_size in
         case os_get_opts S location (options\<lparr>go_range := Some (Bounded chunk_start chunk_end)\<rparr>) of
           Inl e \<Rightarrow> (Inl e, fs)
         | Inr chunk_result \<Rightarrow>
             (case collect_bytes (gr_payload chunk_result) of
                Inl e \<Rightarrow> (Inl e, fs)
              | Inr chunk_data \<Rightarrow>
                  (case save_chunk cache_dir (faults chunk_idx) stamp location chunk_idx chunk_data fs of
                     (Inl e, fs1) \<Rightarrow> (Inl e, fs1)
                   | (Inr _, fs1) \<Rightarrow>
                       fetch_chunks cache_dir S faults stamp location options file_size missing_chunks fs1))))"

definition get_opts ::
  "path_buf \<Rightarrow> ('o, 'e) object_store \<Rightarrow> (nat \<Rightarrow> io_fault) \<Rightarrow> string \<Rightarrow> string \<Rightarrow> 'o get_options \<Rightarrow> file_system
    \<Rightarrow> ('e os_error + 'e get_result) \<times> file_system" where
  "get_opts cache_dir S faults stamp location options fs =
     (case os_head S location of
        Inl e \<Rightarrow> (Inl e, fs)
      | Inr file_size \<Rightarrow>
          if go_head options then (os_get_opts S location options, fs)
          else
            (let rng = requested_range file_size (go_range options) in
             case chunks_for_range rng of
               None \<Rightarrow> (Inl Panicked, fs)
             | Some chunks_needed \<Rightarrow>
                 (let missing_chunks = filter (\<lambda>k. \<not> is_chunk_ready fs (get_chunk_path cache_dir location k)) chunks_needed
                  in case fetch_chunks cache_dir S faults stamp location options file_size missing_chunks fs of
                       (Inl e, fs1) \<Rightarrow> (Inl e, fs1)
                     | (Inr _, fs1) \<Rightarrow>
                         (Inr \<lparr>gr_payload = get_range_from_cache_stream cache_dir fs1 location rng,
                            gr_size = file_size, gr_range = rng\<rparr>, fs1))))"

section \<open>Contracts\<close>

text \<open>
  The wrapped store: the size of an object, and its bytes in a range within it, for the options
  in use (\<open>rest\<close>: no precondition or version that the object fails).
\<close>

definition store_ok :: "('o, 'e) object_store \<Rightarrow> 'o \<Rightarrow> (string \<Rightarrow> bytes option) \<Rightarrow> bool" where
  "store_ok S rest objs \<longleftrightarrow>
     (\<forall>p data. objs p = Some data \<longrightarrow> os_head S p = Inr (length data)
        \<and> (\<forall>a b. a < b \<longrightarrow> b \<le> length data \<longrightarrow>
             (\<exists>r. os_get_opts S p \<lparr>go_range = Some (Bounded a b), go_head = False, go_rest = rest\<rparr> = Inr r
               \<and> collect_bytes (gr_payload r) = Inr (take (b - a) (drop a data)))))"

definition chunk_of :: "bytes \<Rightarrow> nat \<Rightarrow> bytes" where
  "chunk_of data k = take CACHE_BLOCK_SIZE (drop (k * CACHE_BLOCK_SIZE) data)"

text \<open>Every chunk file of an object holds exactly its chunk.\<close>

definition chunk_files_ok :: "path_buf \<Rightarrow> (string \<Rightarrow> bytes option) \<Rightarrow> file_system \<Rightarrow> bool" where
  "chunk_files_ok cache_dir objs fs \<longleftrightarrow>
     (\<forall>p data k d. objs p = Some data \<longrightarrow> fs_files fs (get_chunk_path cache_dir p k) = Some d \<longrightarrow> d = chunk_of data k)"

text \<open>No two objects share a cache directory.\<close>

definition dirs_apart :: "(string \<Rightarrow> bytes option) \<Rightarrow> bool" where
  "dirs_apart objs \<longleftrightarrow> (\<forall>p q. objs p \<noteq> None \<longrightarrow> objs q \<noteq> None \<longrightarrow>
     get_cache_dir_for_path [] p = get_cache_dir_for_path [] q \<longrightarrow> p = q)"

definition chunks_cached :: "path_buf \<Rightarrow> file_system \<Rightarrow> string \<Rightarrow> nat \<times> nat \<Rightarrow> bool" where
  "chunks_cached cache_dir fs location rng \<longleftrightarrow>
     (\<forall>ks. chunks_for_range rng = Some ks \<longrightarrow> (\<forall>k \<in> set ks. is_chunk_ready fs (get_chunk_path cache_dir location k)))"

section \<open>Paths\<close>

lemma block_size_pos [simp]: "0 < CACHE_BLOCK_SIZE"
  by (simp add: CACHE_BLOCK_SIZE_def)

lemma chunk_path_inj [simp]:
  "get_chunk_path dir p k = get_chunk_path dir q l \<longleftrightarrow> get_cache_dir_for_path [] p = get_cache_dir_for_path [] q \<and> k = l"
  by (auto simp: get_chunk_path_def get_cache_dir_for_path_def decimal_inj)

lemma temp_path_apart [simp]: "get_temp_chunk_path dir p k st \<noteq> get_chunk_path dir q l"
  "get_chunk_path dir q l \<noteq> get_temp_chunk_path dir p k st"
  by (auto simp: get_chunk_path_def get_temp_chunk_path_def get_cache_dir_for_path_def)

section \<open>Saving\<close>

text \<open>A save leaves every other chunk file alone, and its own whole or as it was.\<close>

lemma save_chunk_files:
  assumes "save_chunk dir fault st p k data fs = (r, fs')"
  shows "(fs_files fs' (get_chunk_path dir q l) = fs_files fs (get_chunk_path dir q l)
      \<or> get_chunk_path dir q l = get_chunk_path dir p k \<and> fs_files fs' (get_chunk_path dir q l) = Some data)
    \<and> (r = Inr () \<longrightarrow> fs_files fs' (get_chunk_path dir p k) \<noteq> None)
    \<and> (fault = NoFault \<longrightarrow> r = Inr ())"
  using assms by (cases fault) (auto simp: save_chunk_def Let_def split: if_splits)

lemma save_chunk_keeps:
  assumes "save_chunk dir fault st p k (chunk_of data k) fs = (r, fs')" and "chunk_files_ok dir objs fs"
    and "dirs_apart objs" and "objs p = Some data"
  shows "chunk_files_ok dir objs fs'"
  unfolding chunk_files_ok_def
proof (intro allI impI)
  fix q qd l d assume q: "objs q = Some qd" "fs_files fs' (get_chunk_path dir q l) = Some d"
  consider "fs_files fs (get_chunk_path dir q l) = Some d" | "get_cache_dir_for_path [] q = get_cache_dir_for_path [] p" "l = k" "d = chunk_of data k"
    using save_chunk_files [OF assms(1), of q l] q(2) by auto
  then show "d = chunk_of qd l"
  proof cases
    case 1
    with assms(2) q(1) show ?thesis by (auto simp: chunk_files_ok_def)
  next
    case 2
    with assms(3,4) q(1) have "q = p" by (auto simp: dirs_apart_def)
    with 2 q(1) assms(4) show ?thesis by simp
  qed
qed

section \<open>Fetching\<close>

lemma fetch_chunks_keeps:
  fixes S :: "('o, 'e) object_store"
  assumes "store_ok S rest objs" and "dirs_apart objs" and "objs p = Some data"
    and "options = \<lparr>go_range = g, go_head = False, go_rest = rest\<rparr>" and "length data + CACHE_BLOCK_SIZE < 2 ^ 64"
    and "\<forall>k \<in> set ks. k * CACHE_BLOCK_SIZE < length data"
    and "fetch_chunks dir S faults st p options (length data) ks fs = (r, fs')" and "chunk_files_ok dir objs fs"
  shows "chunk_files_ok dir objs fs' \<and> ((\<forall>k. faults k = NoFault) \<longrightarrow> r = Inr ())
    \<and> (r = Inr () \<longrightarrow> (\<forall>k. k \<in> set ks \<or> is_chunk_ready fs (get_chunk_path dir p k) \<longrightarrow> is_chunk_ready fs' (get_chunk_path dir p k)))"
  using assms(6-8)
proof (induction ks arbitrary: fs)
  case (Cons k ks)
  let ?a = "k * CACHE_BLOCK_SIZE" and ?b = "min (k * CACHE_BLOCK_SIZE + CACHE_BLOCK_SIZE) (length data)"
  have k: "?a < ?b" "?b \<le> length data" using Cons.prems(1) by simp_all
  have "take (?b - ?a) (drop ?a data) = chunk_of data k" unfolding chunk_of_def by (auto simp: min_def not_le)
  with assms(1,3) k obtain gr where g: "os_get_opts S p \<lparr>go_range = Some (Bounded ?a ?b), go_head = False, go_rest = rest\<rparr> = Inr gr"
      "collect_bytes (gr_payload gr) = Inr (chunk_of data k)"
    unfolding store_ok_def by metis
  have lim: "\<not> k * CACHE_BLOCK_SIZE + CACHE_BLOCK_SIZE \<ge> 2 ^ 64" using Cons.prems(1) assms(5) by simp
  obtain r1 :: "'e os_error + unit" and fs1 where s: "save_chunk dir (faults k) st p k (chunk_of data k) fs = (r1, fs1)" by fastforce
  note keep = save_chunk_keeps [OF s Cons.prems(3) assms(2,3)]
  have f: "(r, fs') = (case r1 of Inl e \<Rightarrow> (Inl e, fs1) | Inr _ \<Rightarrow> fetch_chunks dir S faults st p options (length data) ks fs1)"
    unfolding Cons.prems(2) [symmetric] using g s lim by (cases r1) (simp_all add: assms(4) Let_def)
  show ?case
  proof (cases r1)
    case (Inl e)
    with f keep save_chunk_files [OF s, of p k] show ?thesis by auto
  next
    case (Inr u)
    have "is_chunk_ready fs1 (get_chunk_path dir p q)" if "is_chunk_ready fs (get_chunk_path dir p q) \<or> q = k" for q
      using that save_chunk_files [OF s, of p q] Inr by (auto simp: is_chunk_ready_def)
    with Cons.IH [of fs1] Cons.prems(1) f keep Inr show ?thesis by auto
  qed
qed auto

section \<open>Reading the chunks back\<close>

lemma collect_bytes_append:
  "collect_bytes xs = Inr a \<Longrightarrow> collect_bytes (xs @ ys) = (case collect_bytes ys of Inl e \<Rightarrow> Inl e | Inr b \<Rightarrow> Inr (a @ b))"
  by (induction xs arbitrary: a rule: collect_bytes.induct) (auto split: sum.splits)

lemma take_drop_split: "a \<le> b \<Longrightarrow> b \<le> c \<Longrightarrow> take (b - a) (drop a xs) @ take (c - b) (drop b xs) = take (c - a) (drop a xs)"
  using take_add [of "b - a" "c - b" "drop a xs"] by simp

lemma chunk_item_bytes:
  assumes "chunk_files_ok dir objs fs" and "objs p = Some data" and "is_chunk_ready fs (get_chunk_path dir p k)"
    and "e \<le> length data" and "length data + CACHE_BLOCK_SIZE < 2 ^ 64" and "k * CACHE_BLOCK_SIZE < e"
    and "s < (k + 1) * CACHE_BLOCK_SIZE" and "s < e"
  defines "a \<equiv> max (k * CACHE_BLOCK_SIZE) s" and "b \<equiv> min ((k + 1) * CACHE_BLOCK_SIZE) e"
  shows "collect_bytes (cached_chunk_item dir fs p (s, e) k) = Inr (take (b - a) (drop a data))"
proof -
  let ?K = "k * CACHE_BLOCK_SIZE"
  have ab: "?K \<le> a" "a < b" "b \<le> length data" "b \<le> ?K + CACHE_BLOCK_SIZE"
    using assms(4,6,7,8) by (simp_all add: a_def b_def)
  from assms(1-3) have d: "fs_files fs (get_chunk_path dir p k) = Some (chunk_of data k)"
    by (auto simp: is_chunk_ready_def chunk_files_ok_def)
  have "a - ?K + (b - a) \<le> length (chunk_of data k)"
    using ab by (simp add: chunk_of_def diff_le_mono le_diff_conv add.commute)
  moreover have "take (b - a) (drop (a - ?K) (chunk_of data k)) = take (b - a) (drop a data)"
    using ab by (simp add: chunk_of_def drop_take min_def)
  moreover have "?K + CACHE_BLOCK_SIZE < 2 ^ 64" using assms(4-6) by simp
  moreover have "max ?K s = a" "min (?K + CACHE_BLOCK_SIZE) e = b" by (simp_all add: a_def b_def add.commute)
  ultimately show ?thesis using ab(2)
    by (simp add: cached_chunk_item_def Let_def read_from_cached_chunk_def d)
qed

lemma stream_bytes:
  assumes "chunk_files_ok dir objs fs" and "objs p = Some data" and "e \<le> length data" and "length data + CACHE_BLOCK_SIZE < 2 ^ 64"
    and "s < e"
  shows "s div CACHE_BLOCK_SIZE + n \<le> Suc ((e - 1) div CACHE_BLOCK_SIZE) \<Longrightarrow> 0 < n \<Longrightarrow>
    \<forall>k \<in> {s div CACHE_BLOCK_SIZE..<s div CACHE_BLOCK_SIZE + n}. is_chunk_ready fs (get_chunk_path dir p k) \<Longrightarrow>
    collect_bytes (concat (map (cached_chunk_item dir fs p (s, e)) [s div CACHE_BLOCK_SIZE..<s div CACHE_BLOCK_SIZE + n]))
      = Inr (take (min ((s div CACHE_BLOCK_SIZE + n) * CACHE_BLOCK_SIZE) e - s) (drop s data))"
proof (induction n)
  case (Suc n)
  let ?B = CACHE_BLOCK_SIZE and ?k = "s div CACHE_BLOCK_SIZE + n"
  have "?k \<le> (e - 1) div ?B" using Suc.prems(1) by simp
  then have "?k * ?B \<le> e - 1" by (simp add: less_eq_div_iff_mult_less_eq)
  then have k: "?k * ?B < e" using assms(5) by simp
  have s1: "s < (s div ?B + 1) * ?B" by (simp add: dividend_less_div_times)
  then have s: "s < (?k + 1) * ?B" by (rule order_less_le_trans) simp
  have "is_chunk_ready fs (get_chunk_path dir p ?k)" using Suc.prems(3) by simp
  note item = chunk_item_bytes [OF assms(1,2) this assms(3,4) k s assms(5)]
  show ?case
  proof (cases "n = 0")
    case True
    have "s div ?B * ?B \<le> s" by simp
    then have "max (s div ?B * ?B) s = s" by simp
    with True show ?thesis using item by simp
  next
    case False
    have "(s div ?B + 1) * ?B \<le> ?k * ?B" using False by (intro mult_le_mono1) simp
    with s1 have sk: "s \<le> ?k * ?B" by linarith
    have "s div ?B + n \<le> Suc ((e - 1) div ?B)" "0 < n"
      "\<forall>k \<in> {s div ?B..<s div ?B + n}. is_chunk_ready fs (get_chunk_path dir p k)"
      using Suc.prems False by auto
    note IH = Suc.IH [OF this, unfolded min_absorb1 [OF less_imp_le [OF k]]]
    show ?thesis
      using sk k take_drop_split [of s "?k * ?B" "min ((?k + 1) * ?B) e" data]
      by (simp add: collect_bytes_append [OF IH] item max_def)
  qed
qed simp

section \<open>A read\<close>

lemma chunks_for_range_some:
  "s < e \<Longrightarrow> chunks_for_range (s, e) = Some [s div CACHE_BLOCK_SIZE..<Suc ((e - 1) div CACHE_BLOCK_SIZE)]"
  by (simp add: chunks_for_range_def)

lemma cached_stream:
  assumes "chunk_files_ok dir objs fs" and "objs p = Some data" and "s < e" and "e \<le> length data"
    and "length data + CACHE_BLOCK_SIZE < 2 ^ 64" and "chunks_cached dir fs p (s, e)"
  shows "collect_bytes (get_range_from_cache_stream dir fs p (s, e)) = Inr (take (e - s) (drop s data))"
proof -
  let ?B = CACHE_BLOCK_SIZE
  let ?n = "Suc ((e - 1) div ?B) - s div ?B"
  have le: "s div ?B \<le> (e - 1) div ?B" using assms(3) by (intro div_le_mono) simp
  then have n: "s div ?B + ?n = Suc ((e - 1) div ?B)" "0 < ?n" by simp_all
  have "e - 1 < Suc ((e - 1) div ?B) * ?B" using dividend_less_div_times [of ?B "e - 1"] by simp
  then have m: "min (Suc ((e - 1) div ?B) * ?B) e = e" using assms(3) by linarith
  have "\<forall>k \<in> {s div ?B..<s div ?B + ?n}. is_chunk_ready fs (get_chunk_path dir p k)"
    using assms(6) n(1) unfolding chunks_cached_def chunks_for_range_some [OF assms(3)] by auto
  note stream_bytes [OF assms(1,2,4,5,3) _ n(2) this, unfolded n(1) m, OF order_refl]
  then show ?thesis by (simp add: get_range_from_cache_stream_def chunks_for_range_some [OF assms(3)])
qed

lemma get_opts_slice:
  fixes S :: "('o, 'e) object_store"
  assumes "store_ok S rest objs" and "dirs_apart objs" and "chunk_files_ok dir objs fs" and "objs p = Some data"
    and "length data + CACHE_BLOCK_SIZE < 2 ^ 64" and "requested_range (length data) g = (s, e)" and "s < e" and "e \<le> length data"
    and "get_opts dir S faults st p \<lparr>go_range = g, go_head = False, go_rest = rest\<rparr> fs = (r, fs')"
  shows "chunk_files_ok dir objs fs' \<and> ((\<forall>k. faults k = NoFault) \<longrightarrow> (\<exists>x. r = Inr x))
    \<and> (\<forall>x. r = Inr x \<longrightarrow> collect_bytes (gr_payload x) = Inr (take (e - s) (drop s data)) \<and> gr_size x = length data
        \<and> gr_range x = (s, e) \<and> chunks_cached dir fs' p (s, e))"
proof -
  let ?B = CACHE_BLOCK_SIZE and ?o = "\<lparr>go_range = g, go_head = False, go_rest = rest\<rparr>"
  let ?ks = "[s div ?B..<Suc ((e - 1) div ?B)]"
  let ?miss = "filter (\<lambda>k. \<not> is_chunk_ready fs (get_chunk_path dir p k)) ?ks"
  have h: "os_head S p = Inr (length data)" using assms(1,4) by (simp add: store_ok_def)
  obtain r1 fs1 where f: "fetch_chunks dir S faults st p ?o (length data) ?miss fs = (r1, fs1)" by fastforce
  have "k * ?B < length data" if "k \<le> (e - 1) div ?B" for k
  proof -
    have "k * ?B \<le> e - 1" using that by (simp add: less_eq_div_iff_mult_less_eq)
    then show ?thesis using assms(7,8) by linarith
  qed
  then have "\<forall>k \<in> set ?miss. k * ?B < length data" by (auto simp: less_Suc_eq_le)
  note F = fetch_chunks_keeps [OF assms(1,2,4) refl assms(5) this f assms(3)]
  have r: "(r, fs') = (case r1 of Inl e' \<Rightarrow> (Inl e', fs1) | Inr _ \<Rightarrow>
      (Inr \<lparr>gr_payload = get_range_from_cache_stream dir fs1 p (s, e), gr_size = length data, gr_range = (s, e)\<rparr>, fs1))"
    unfolding assms(9) [symmetric]
    by (cases r1) (simp_all add: get_opts_def h assms(6) chunks_for_range_some [OF assms(7)] f Let_def del: upt_Suc One_nat_def)
  show ?thesis
  proof (cases r1)
    case (Inl x)
    with r F show ?thesis by auto
  next
    case (Inr u)
    have c: "chunks_cached dir fs1 p (s, e)"
      using F Inr by (auto simp: chunks_cached_def chunks_for_range_some [OF assms(7)] simp del: upt_Suc)
    have ok: "chunk_files_ok dir objs fs1" using F by blast
    with r Inr c show ?thesis by (auto simp: cached_stream [OF ok assms(4,7,8,5) c])
  qed
qed

text \<open>Once the chunks are there, the store is only asked for the size, and nothing is written.\<close>

lemma get_opts_cached:
  assumes "os_head S p = Inr n" and "\<not> go_head options" and "requested_range n (go_range options) = (s, e)"
    and "0 < e" and "chunks_cached dir fs p (s, e)"
  shows "get_opts dir S faults st p options fs =
    (Inr \<lparr>gr_payload = get_range_from_cache_stream dir fs p (s, e), gr_size = n, gr_range = (s, e)\<rparr>, fs)"
proof -
  let ?ks = "[s div CACHE_BLOCK_SIZE..<Suc ((e - 1) div CACHE_BLOCK_SIZE)]"
  have ks: "chunks_for_range (s, e) = Some ?ks" using assms(4) by (simp add: chunks_for_range_def)
  with assms(5) have "filter (\<lambda>k. \<not> is_chunk_ready fs (get_chunk_path dir p k)) ?ks = []"
    by (auto simp: chunks_cached_def filter_empty_conv simp del: upt_Suc One_nat_def)
  with assms(1-3) ks show ?thesis by (simp add: get_opts_def Let_def del: upt_Suc One_nat_def)
qed

lemma get_opts_result:
  assumes "get_opts dir S faults st p options fs = (Inr x, fs')" and "os_head S p = Inr n" and "\<not> go_head options"
  shows "x = \<lparr>gr_payload = get_range_from_cache_stream dir fs' p (requested_range n (go_range options)),
    gr_size = n, gr_range = requested_range n (go_range options)\<rparr>"
  using assms by (auto simp: get_opts_def Let_def split: option.splits prod.splits sum.splits)

section \<open>Stores in memory\<close>

text \<open>An instance of the parameter: objects in a map, ranges cut off at the end of the object.\<close>

definition memory_get :: "(string \<Rightarrow> bytes option) \<Rightarrow> string \<Rightarrow> unit get_options \<Rightarrow> unit os_error + unit get_result" where
  "memory_get objs p options =
     (case objs p of
        None \<Rightarrow> Inl (StoreError ())
      | Some data \<Rightarrow>
          (case requested_range (length data) (go_range options) of
             (s, e) \<Rightarrow>
               if s < e \<and> s < length data \<or> data = [] \<and> s = 0 then
                 Inr \<lparr>gr_payload = [Inr (take (e - s) (drop s data))], gr_size = length data, gr_range = (s, min e (length data))\<rparr>
               else Inl Generic))"

definition memory_store :: "(string \<Rightarrow> bytes option) \<Rightarrow> (unit, unit) object_store" where
  "memory_store objs = \<lparr>os_head = (\<lambda>p. case objs p of None \<Rightarrow> Inl (StoreError ()) | Some data \<Rightarrow> Inr (length data)),
     os_get_opts = memory_get objs\<rparr>"

definition empty_fs :: file_system where
  "empty_fs = \<lparr>fs_dirs = {}, fs_files = (\<lambda>_. None)\<rparr>"

lemma memory_store_ok: "store_ok (memory_store objs) () objs"
  by (auto simp: store_ok_def memory_store_def memory_get_def requested_range_def)

lemma chunk_files_ok_empty: "chunk_files_ok dir objs empty_fs"
  by (simp add: chunk_files_ok_def empty_fs_def)

lemmas byte_cache_eval = get_opts_def memory_store_def memory_get_def requested_range_def chunks_for_range_def
  CACHE_BLOCK_SIZE_def is_chunk_ready_def empty_fs_def get_chunk_path_def get_cache_dir_for_path_def
  get_temp_chunk_path_def save_chunk_def get_range_from_cache_stream_def cached_chunk_item_def
  read_from_cached_chunk_def

end
