(* ===== verification/Selection.thy ===== *)
theory Selection
  imports Prelude
begin

unbundle bit_operations_syntax

text \<open>
  Combining row selections, \<^verbatim>\<open>src/parquet/src/utils.rs\<close>. A \<open>BooleanBuffer\<close> is a region of bytes with
  a bit offset and a bit length, bits counted from the least significant one. The function
  \<open>boolean_buffer_and_then\<close> narrows a selection by the answers of a predicate on the selected
  rows; it has a plain version and one that deposits 64 answers at a time with the \<open>PDEP\<close>
  instruction, reading unaligned words through raw pointers.

  The memory behind a buffer is a function \<open>mem\<close> that gives the bytes past its end, so a read
  that runs over the end is a read of arbitrary bytes: results that hold for every \<open>mem\<close> do not
  depend on them. Arrow's accessors (the bit iterators and the builder) are a parameter with
  their documented behaviour, \<open>bit_ops_ok\<close>.
\<close>

section \<open>Buffers\<close>

record boolean_buffer =
  bb_values :: bytes
  bb_offset :: nat
  bb_len :: nat

definition bit_at :: "bytes \<Rightarrow> nat \<Rightarrow> bool" where
  "bit_at bs k = bit (bs ! (k div 8)) (k mod 8)"

definition bb_bits :: "boolean_buffer \<Rightarrow> bool list" where
  "bb_bits b = map (\<lambda>i. bit_at (bb_values b) (bb_offset b + i)) [0..<bb_len b]"

definition bb_wf :: "boolean_buffer \<Rightarrow> bool" where
  "bb_wf b \<longleftrightarrow> bb_offset b + bb_len b \<le> 8 * length (bb_values b)"

text \<open>Arrow's iterators over a buffer, and the bit setter of its builder.\<close>

record bit_ops =
  bb_iter :: "boolean_buffer \<Rightarrow> bool list"
  bb_set_indices :: "boolean_buffer \<Rightarrow> nat list"
  builder_set_bit :: "nat \<Rightarrow> bool \<Rightarrow> bytes \<Rightarrow> bytes"

definition bit_ops_ok :: "bit_ops \<Rightarrow> bool" where
  "bit_ops_ok B \<longleftrightarrow>
     (\<forall>b. bb_wf b \<longrightarrow> bb_iter B b = bb_bits b)
   \<and> (\<forall>b. bb_wf b \<longrightarrow> bb_set_indices B b = filter (\<lambda>i. bb_bits b ! i) [0..<bb_len b])
   \<and> (\<forall>i v bs. i < 8 * length bs \<longrightarrow> length (builder_set_bit B i v bs) = length bs
        \<and> (\<forall>k < 8 * length bs. bit_at (builder_set_bit B i v bs) k = (if k = i then v else bit_at bs k)))"

section \<open>The plain version\<close>

fun fallback_loop :: "bit_ops \<Rightarrow> nat list \<Rightarrow> bool list \<Rightarrow> bytes \<Rightarrow> bytes option" where
  "fallback_loop B [] other_bits buffer = Some buffer"
| "fallback_loop B (bit_idx # idxs) [] buffer = None"
| "fallback_loop B (bit_idx # idxs) (predicate # other_bits) buffer =
     fallback_loop B idxs other_bits
       (if predicate then buffer else builder_set_bit B bit_idx False buffer)"

definition boolean_buffer_and_then_fallback ::
  "bit_ops \<Rightarrow> boolean_buffer \<Rightarrow> boolean_buffer \<Rightarrow> boolean_buffer option" where
  "boolean_buffer_and_then_fallback B left right =
     (if bb_len left = bb_len right then Some right
      else map_option (\<lambda>buf. \<lparr>bb_values = buf, bb_offset = 0, bb_len = bb_len left\<rparr>)
        (fallback_loop B (bb_set_indices B left) (bb_iter B right) (bb_values left)))"

section \<open>The version with PDEP\<close>

fun le_word :: "bytes \<Rightarrow> u64" where
  "le_word [] = 0"
| "le_word (b # bs) = ucast b OR push_bit 8 (le_word bs)"

definition to_le_bytes :: "u64 \<Rightarrow> bytes" where
  "to_le_bytes w = map (\<lambda>k. ucast (drop_bit (8 * k) w)) [0..<8]"

definition byte_at :: "(nat \<Rightarrow> u8) \<Rightarrow> bytes \<Rightarrow> nat \<Rightarrow> u8" where
  "byte_at mem bs k = (if k < length bs then bs ! k else mem k)"

text \<open>\<open>core::ptr::read_unaligned\<close> of eight bytes at an offset.\<close>

definition read_u64 :: "(nat \<Rightarrow> u8) \<Rightarrow> bytes \<Rightarrow> nat \<Rightarrow> u64" where
  "read_u64 mem bs off = le_word (map (byte_at mem bs) [off..<off + 8])"

definition load_u64_zero_padded :: "(nat \<Rightarrow> u8) \<Rightarrow> bytes \<Rightarrow> nat \<Rightarrow> nat \<Rightarrow> u64" where
  "load_u64_zero_padded mem base total_bytes offset =
     (let remaining = total_bytes - offset in
      if remaining \<ge> 8 then read_u64 mem base offset
      else if remaining > 0
        then le_word (map (byte_at mem base) [offset..<offset + remaining] @ replicate (8 - remaining) 0)
      else 0)"

definition count_ones :: "u64 \<Rightarrow> nat" where
  "count_ones w = length (filter (bit w) [0..<64])"

text \<open>The instruction: the low bits of \<open>src\<close> go to the positions of the set bits of \<open>msk\<close>, in order.\<close>

definition pdep_u64 :: "u64 \<Rightarrow> u64 \<Rightarrow> u64" where
  "pdep_u64 src msk = fold (\<lambda>n w. if bit msk n \<and> bit src (length (filter (bit msk) [0..<n]))
     then w OR push_bit n 1 else w) [0..<64] 0"

text \<open>
  The answers from bit \<open>right_bit_idx\<close> on as the low bits of a word, and \<open>need\<close> of them with
  the rest masked off; the loop and the tail of the function share this code.
\<close>

definition right_window :: "(nat \<Rightarrow> u8) \<Rightarrow> boolean_buffer \<Rightarrow> nat \<Rightarrow> u64" where
  "right_window mem right right_bit_idx =
     (let right_bytes = (bb_len right + 7) div 8;
          rb_byte = right_bit_idx div 8;
          rb_bit = right_bit_idx mod 8;
          need_high = (rb_bit \<noteq> 0);
          safe16 = right_bytes - 16
      in if rb_byte \<le> safe16 then
           (let low = read_u64 mem (bb_values right) rb_byte in
            if need_high then
              (let high = read_u64 mem (bb_values right) (rb_byte + 8)
               in drop_bit rb_bit low OR push_bit (64 - rb_bit) high)
            else drop_bit rb_bit low)
         else
           (let low = load_u64_zero_padded mem (bb_values right) right_bytes rb_byte in
            if need_high then
              (let high = load_u64_zero_padded mem (bb_values right) right_bytes (rb_byte + 8)
               in drop_bit rb_bit low OR push_bit (64 - rb_bit) high)
            else drop_bit rb_bit low))"

definition gather_bits :: "(nat \<Rightarrow> u8) \<Rightarrow> boolean_buffer \<Rightarrow> nat \<Rightarrow> nat \<Rightarrow> u64" where
  "gather_bits mem right right_bit_idx need =
     right_window mem right right_bit_idx AND (push_bit need 1 - 1)"

text \<open>Writing the first \<open>n\<close> bytes of a word at an offset of the output.\<close>

definition write_le :: "nat \<Rightarrow> nat \<Rightarrow> u64 \<Rightarrow> bytes \<Rightarrow> bytes" where
  "write_le n off w out = take off out @ take n (to_le_bytes w) @ drop (off + n) out"

definition bmi2_word ::
  "(nat \<Rightarrow> u8) \<Rightarrow> (nat \<Rightarrow> u8) \<Rightarrow> boolean_buffer \<Rightarrow> boolean_buffer \<Rightarrow> nat \<Rightarrow> bytes \<times> nat \<Rightarrow> bytes \<times> nat" where
  "bmi2_word meml memr left right word_idx = (\<lambda>(out, right_bit_idx).
     (let left_word = read_u64 meml (bb_values left) (word_idx * 8) in
      if left_word = 0 then (out, right_bit_idx)
      else
        (let need = count_ones left_word;
             result = pdep_u64 (gather_bits memr right right_bit_idx need) left_word
         in (write_le 8 (word_idx * 8) result out, right_bit_idx + need))))"

text \<open>The last, partial word of \<open>left\<close>, with the bits past its length cleared.\<close>

definition tail_mask :: "(nat \<Rightarrow> u8) \<Rightarrow> boolean_buffer \<Rightarrow> u64" where
  "tail_mask meml left =
     (let tail_bits = bb_len left mod 64;
          tail_bytes = (tail_bits + 7) div 8;
          base = bb_len left div 64 * 8;
          loaded = (if tail_bytes = 8 then read_u64 meml (bb_values left) base
                    else le_word (map (byte_at meml (bb_values left)) [base..<base + tail_bytes]
                           @ replicate (8 - tail_bytes) 0))
      in loaded AND (push_bit tail_bits 1 - 1))"

definition bmi2_tail ::
  "(nat \<Rightarrow> u8) \<Rightarrow> (nat \<Rightarrow> u8) \<Rightarrow> boolean_buffer \<Rightarrow> boolean_buffer \<Rightarrow> bytes \<times> nat \<Rightarrow> bytes" where
  "bmi2_tail meml memr left right = (\<lambda>(out, right_bit_idx).
     (let tail_bits = bb_len left mod 64; msk = tail_mask meml left in
      if tail_bits = 0 then out
      else if msk = 0 then out
      else
        (let need = count_ones msk;
             result = pdep_u64 (gather_bits memr right right_bit_idx need) msk
         in write_le ((tail_bits + 7) div 8) (bb_len left div 64 * 8) result out)))"

definition boolean_buffer_and_then_bmi2 ::
  "(nat \<Rightarrow> u8) \<Rightarrow> (nat \<Rightarrow> u8) \<Rightarrow> boolean_buffer \<Rightarrow> boolean_buffer \<Rightarrow> boolean_buffer" where
  "boolean_buffer_and_then_bmi2 meml memr left right =
     (let bit_len = bb_len left; byte_len = (bit_len + 7) div 8; full_words = bit_len div 64;
          st = fold (bmi2_word meml memr left right) [0..<full_words] (replicate byte_len 0, 0)
      in \<lparr>bb_values = bmi2_tail meml memr left right st, bb_offset = 0, bb_len = bit_len\<rparr>)"

text \<open>The entry point; \<open>bmi2\<close> says whether the CPU has the instruction.\<close>

definition boolean_buffer_and_then ::
  "bit_ops \<Rightarrow> bool \<Rightarrow> (nat \<Rightarrow> u8) \<Rightarrow> (nat \<Rightarrow> u8) \<Rightarrow> boolean_buffer \<Rightarrow> boolean_buffer \<Rightarrow> boolean_buffer option" where
  "boolean_buffer_and_then B bmi2 meml memr left right =
     (if bb_len left = bb_len right then Some right
      else if bmi2 then Some (boolean_buffer_and_then_bmi2 meml memr left right)
      else boolean_buffer_and_then_fallback B left right)"

section \<open>The specification\<close>

text \<open>Of the selected rows, keep those whose answer is true.\<close>

fun and_then :: "bool list \<Rightarrow> bool list \<Rightarrow> bool list" where
  "and_then [] rs = []"
| "and_then (False # ls) rs = False # and_then ls rs"
| "and_then (True # ls) [] = False # and_then ls []"
| "and_then (True # ls) (r # rs) = r # and_then ls rs"

definition rank :: "(nat \<Rightarrow> bool) \<Rightarrow> nat \<Rightarrow> nat" where
  "rank f i = length (filter f [0..<i])"

section \<open>Ranks\<close>

lemma rank_0 [simp]: "rank f 0 = 0"
  by (simp add: rank_def)

lemma rank_Suc: "rank f (Suc i) = rank f i + of_bool (f i)"
  by (simp add: rank_def)

lemma rank_add: "rank f (i + k) = rank f i + rank (\<lambda>j. f (i + j)) k"
  by (induction k) (simp_all add: rank_Suc)

lemma rank_mono: "i \<le> j \<Longrightarrow> rank f i \<le> rank f j"
  using rank_add [of f i "j - i"] by simp

lemma rank_le: "rank f i \<le> i"
  by (simp add: rank_def le_trans [OF length_filter_le])

lemma rank_strict: "f i \<Longrightarrow> i < j \<Longrightarrow> rank f i < rank f j"
  using rank_mono [of "Suc i" j f] rank_Suc [of f i] by simp

lemma rank_cong: "(\<And>j. j < i \<Longrightarrow> f j = g j) \<Longrightarrow> rank f i = rank g i"
  by (induction i) (simp_all add: rank_Suc)

lemma length_and_then [simp]: "length (and_then ls rs) = length ls"
  by (induction ls rs rule: and_then.induct) auto

lemma and_then_nth:
  "i < length ls \<Longrightarrow> count_list ls True \<le> length rs \<Longrightarrow>
    and_then ls rs ! i = (ls ! i \<and> rs ! rank (\<lambda>j. ls ! j) i)"
proof (induction ls rs arbitrary: i rule: and_then.induct)
  case (2 ls rs)
  show ?case
  proof (cases i)
    case (Suc k)
    have "rank (\<lambda>j. (False # ls) ! j) (Suc k) = rank (\<lambda>j. ls ! j) k"
      using rank_add [of "\<lambda>j. (False # ls) ! j" 1 k] by (simp add: rank_def)
    with 2 Suc show ?thesis by simp
  qed simp
next
  case (4 ls r rs)
  show ?case
  proof (cases i)
    case (Suc k)
    have "rank (\<lambda>j. (True # ls) ! j) (Suc k) = Suc (rank (\<lambda>j. ls ! j) k)"
      using rank_add [of "\<lambda>j. (True # ls) ! j" 1 k] by (simp add: rank_def)
    with 4 Suc show ?thesis by simp
  qed simp
qed simp_all

lemma count_list_rank: "count_list ls True = rank (\<lambda>j. ls ! j) (length ls)"
proof (induction ls rule: rev_induct)
  case (snoc x ls)
  have "rank (\<lambda>j. (ls @ [x]) ! j) (length ls) = rank (\<lambda>j. ls ! j) (length ls)"
    by (rule rank_cong) (simp add: nth_append)
  with snoc show ?case by (simp add: rank_Suc nth_append count_list_append)
qed (simp add: rank_def)

lemma length_bb_bits [simp]: "length (bb_bits b) = bb_len b"
  by (simp add: bb_bits_def)

lemma bb_bits_nth: "i < bb_len b \<Longrightarrow> bb_bits b ! i = bit_at (bb_values b) (bb_offset b + i)"
  by (simp add: bb_bits_def)

lemma bb_bits_eqI:
  "bb_len b = length xs \<Longrightarrow> (\<And>i. i < length xs \<Longrightarrow> bit_at (bb_values b) (bb_offset b + i) = xs ! i) \<Longrightarrow> bb_bits b = xs"
  by (auto simp: list_eq_iff_nth_eq bb_bits_nth)

section \<open>Words read from memory\<close>

definition mem_bit :: "(nat \<Rightarrow> u8) \<Rightarrow> bytes \<Rightarrow> nat \<Rightarrow> bool" where
  "mem_bit mem bs k = bit (byte_at mem bs (k div 8)) (k mod 8)"

lemma mem_bit_in: "k < 8 * length bs \<Longrightarrow> mem_bit mem bs k = bit_at bs k"
  by (simp add: mem_bit_def byte_at_def bit_at_def less_mult_imp_div_less mult.commute)

lemma bit_le_word:
  "n < 64 \<Longrightarrow> bit (le_word bs) n = (n div 8 < length bs \<and> bit (bs ! (n div 8)) (n mod 8))"
proof (induction bs arbitrary: n)
  case (Cons b bs)
  show ?case
  proof (cases "n < 8")
    case True
    then show ?thesis by (simp add: bit_or_iff bit_push_bit_iff bit_ucast_iff)
  next
    case False
    then have "\<not> bit (ucast b :: u64) n" by (auto simp: bit_ucast_iff dest: bit_imp_le_length)
    moreover have "n div 8 = Suc ((n - 8) div 8)" "n mod 8 = (n - 8) mod 8"
      using False by (simp_all add: div_if mod_if)
    ultimately show ?thesis
      using False Cons by (simp add: bit_or_iff bit_push_bit_iff)
  qed
qed simp

lemma bit_read_u64: "n < 64 \<Longrightarrow> bit (read_u64 mem bs off) n = mem_bit mem bs (8 * off + n)"
  by (auto simp: read_u64_def bit_le_word mem_bit_def less_mult_imp_div_less)

lemma bit_padded:
  assumes "n < 64" and "r < 8"
  shows "bit (le_word (map (byte_at mem bs) [off..<off + r] @ replicate (8 - r) 0)) n
    = (n < 8 * r \<and> mem_bit mem bs (8 * off + n))"
proof -
  have "n div 8 < r \<longleftrightarrow> n < 8 * r" by (simp add: div_less_iff_less_mult mult.commute)
  with assms show ?thesis
    by (auto simp: bit_le_word nth_append mem_bit_def less_mult_imp_div_less)
qed

lemma bit_load_u64_zero_padded:
  assumes "n < 64"
  shows "bit (load_u64_zero_padded mem bs tot off) n = (8 * off + n < 8 * tot \<and> mem_bit mem bs (8 * off + n))"
proof -
  consider "8 \<le> tot - off" | "tot - off < 8" "0 < tot - off" | "tot - off = 0" by linarith
  then show ?thesis
  proof cases
    case 1
    with assms have "8 * off + n < 8 * tot" by linarith
    with 1 assms show ?thesis by (simp add: load_u64_zero_padded_def Let_def bit_read_u64)
  next
    case 2
    have "n < 8 * (tot - off) \<longleftrightarrow> 8 * off + n < 8 * tot" by linarith
    with bit_padded [OF assms 2(1), of mem bs off] 2 show ?thesis
      unfolding load_u64_zero_padded_def Let_def by auto
  next
    case 3
    then show ?thesis by (simp add: load_u64_zero_padded_def Let_def)
  qed
qed

lemma bit_low_mask: "n \<le> 64 \<Longrightarrow> bit (push_bit n 1 - 1 :: u64) j = (j < n)"
  by (auto simp: bit_mask_iff simp flip: mask_eq_exp_minus_1)

text \<open>Two words side by side, read from a bit position of the first.\<close>

lemma bit_spliced:
  fixes low high :: u64
  assumes "c < 8" and "c \<noteq> 0" and "j < 64"
  shows "bit (drop_bit c low OR push_bit (64 - c) high) j
    = (if j + c < 64 then bit low (j + c) else bit high (j + c - 64))"
proof -
  have "\<not> bit low (c + j)" if "64 \<le> j + c" using that by (auto dest: bit_imp_le_length)
  moreover have "j - (64 - c) = j + c - 64" if "64 \<le> j + c" using that assms by simp
  moreover have "64 - c \<le> j \<longleftrightarrow> 64 \<le> j + c" using assms by linarith
  ultimately show ?thesis using assms
    by (auto simp: bit_or_iff bit_drop_bit_eq bit_push_bit_iff add.commute)
qed

text \<open>Whatever lies behind the buffer, the window shows the next answers as far as there are any.\<close>

lemma bit_right_window:
  assumes "j < 64" and "rbi + j < bb_len right" and "bb_len right \<le> 8 * length (bb_values right)"
  shows "bit (right_window mem right rbi) j = bit_at (bb_values right) (rbi + j)"
proof -
  let ?c = "rbi mod 8" and ?b = "rbi div 8" and ?bs = "bb_values right" and ?t = "(bb_len right + 7) div 8"
  have lo: "8 * ?b + (j + ?c) = rbi + j" by simp
  have hi: "8 * (?b + 8) + (j + ?c - 64) = rbi + j" if "64 \<le> j + ?c"
    using that lo by (simp add: distrib_left del: mult_div_mod_eq)
  have t: "rbi + j < 8 * ?t" using assms(2) by simp
  have m: "mem_bit mem ?bs (rbi + j) = bit_at ?bs (rbi + j)" using assms(2,3) by (simp add: mem_bit_in)
  have small: "j + ?c - 64 < 64" using assms(1) by simp
  show ?thesis
  proof (cases "?c = 0")
    case True
    with bit_read_u64 [OF assms(1), of mem ?bs ?b] bit_load_u64_zero_padded [OF assms(1), of mem ?bs ?t ?b] lo t m
    show ?thesis by (simp add: right_window_def Let_def)
  next
    case False
    have c: "?c < 8" by simp
    show ?thesis
      using False m t
        bit_read_u64 [of "j + ?c" mem ?bs ?b] bit_load_u64_zero_padded [of "j + ?c" mem ?bs ?t ?b]
        bit_read_u64 [OF small, of mem ?bs "?b + 8"] bit_load_u64_zero_padded [OF small, of mem ?bs ?t "?b + 8"]
      unfolding right_window_def Let_def
      by (cases "j + ?c < 64") (simp_all add: bit_spliced [OF c False assms(1)] lo hi del: mult_div_mod_eq)
  qed
qed

lemma bit_gather_bits:
  assumes "need \<le> 64" and "rbi + need \<le> bb_len right" and "bb_len right \<le> 8 * length (bb_values right)"
  shows "bit (gather_bits mem right rbi need) j = (j < need \<and> bit_at (bb_values right) (rbi + j))"
  using bit_right_window [of j rbi right mem] assms bit_low_mask [OF assms(1), of j]
  unfolding gather_bits_def by (auto simp: bit_and_iff)

section \<open>Depositing and writing\<close>

lemma bit_set_one: "bit ((w :: u64) OR push_bit n 1) k = (bit w k \<or> k = n \<and> k < 64)"
  by (auto simp: bit_or_iff bit_push_bit_iff bit_1_iff bit_exp_iff dest: bit_imp_le_length)

lemma bit_pdep_fold:
  "bit (fold (\<lambda>n w. if P n then w OR push_bit n 1 else w) ns (w :: u64)) k
    = (bit w k \<or> (k < 64 \<and> k \<in> set ns \<and> P k))"
proof (induction ns arbitrary: w)
  case (Cons n ns)
  have "bit (if P n then w OR push_bit n 1 else w) k = (bit w k \<or> (k < 64 \<and> k = n \<and> P n))"
    using bit_set_one [of w n k] by auto
  with Cons.IH show ?case by (auto simp del: push_bit_of_1)
qed simp

lemma bit_pdep_u64: "bit (pdep_u64 src msk) k = (k < 64 \<and> bit msk k \<and> bit src (rank (bit msk) k))"
  by (auto simp: pdep_u64_def bit_pdep_fold rank_def)

lemma length_to_le_bytes [simp]: "length (to_le_bytes w) = 8"
  by (simp add: to_le_bytes_def)

lemma length_write_le [simp]: "off + n \<le> length out \<Longrightarrow> n \<le> 8 \<Longrightarrow> length (write_le n off w out) = length out"
  by (simp add: write_le_def)

lemma bit_at_write_le:
  assumes "off + n \<le> length out" and "n \<le> 8" and "k < 8 * length out"
  shows "bit_at (write_le n off w out) k
    = (if 8 * off \<le> k \<and> k < 8 * (off + n) then bit w (k - 8 * off) else bit_at out k)"
proof -
  consider "k < 8 * off" | "8 * off \<le> k" "k < 8 * (off + n)" | "8 * (off + n) \<le> k" by linarith
  then show ?thesis
  proof cases
    case 1
    then have "k div 8 < off" by simp
    with 1 assms show ?thesis by (simp add: bit_at_def write_le_def nth_append)
  next
    case 2
    define i where "i = k - 8 * off"
    have k: "k = 8 * off + i" "i < 8 * n" using 2 by (simp_all add: i_def)
    then have "k div 8 = off + i div 8" "k mod 8 = i mod 8" "i div 8 < n" by simp_all
    moreover have "i mod 8 + 8 * (i div 8) = i" by simp
    moreover have "i mod 8 < 8" by simp
    ultimately show ?thesis using 2 assms k(1)
      by (simp add: bit_at_def write_le_def nth_append to_le_bytes_def bit_ucast_iff bit_drop_bit_eq add.commute
        del: mod_less_divisor)
  next
    case 3
    then have "off + n \<le> k div 8" "k div 8 < length out" using assms(3) by simp_all
    moreover from this have "\<not> k div 8 - off < n" "\<not> k div 8 < off" by linarith+
    ultimately show ?thesis using 3 assms by (simp add: bit_at_def write_le_def nth_append)
  qed
qed

section \<open>Correctness of the PDEP version\<close>

text \<open>
  The bits of \<open>left\<close> and \<open>right\<close> as the code reads them, from the start of their bytes. After
  \<open>k\<close> words the output holds the combined bits below \<open>64 * k\<close> and zeros above.
\<close>

definition bmi2_inv :: "boolean_buffer \<Rightarrow> boolean_buffer \<Rightarrow> nat \<Rightarrow> bytes \<times> nat \<Rightarrow> bool" where
  "bmi2_inv left right k = (\<lambda>(out, rbi).
     length out = (bb_len left + 7) div 8 \<and> rbi = rank (bit_at (bb_values left)) k
     \<and> (\<forall>i < 8 * length out. bit_at out i = (i < k \<and> bit_at (bb_values left) i
          \<and> bit_at (bb_values right) (rank (bit_at (bb_values left)) i))))"

definition packed :: "boolean_buffer \<Rightarrow> boolean_buffer \<Rightarrow> bool" where
  "packed left right \<longleftrightarrow> bb_len left \<le> 8 * length (bb_values left) \<and> bb_len right \<le> 8 * length (bb_values right)
     \<and> rank (bit_at (bb_values left)) (bb_len left) = bb_len right"

text \<open>One deposit: \<open>m\<close> bits of \<open>left\<close> from position \<open>k\<close> on are in the low bits of the mask.\<close>

lemma deposit_bit:
  fixes msk :: u64
  assumes "packed left right" and "k + m \<le> bb_len left" and "m \<le> 64"
    and msk: "\<And>n. bit msk n = (n < m \<and> bit_at (bb_values left) (k + n))"
  shows "count_ones msk = rank (\<lambda>n. bit_at (bb_values left) (k + n)) m"
    and "bit (pdep_u64 (gather_bits mem right (rank (bit_at (bb_values left)) k) (count_ones msk)) msk) n
      = (n < m \<and> bit_at (bb_values left) (k + n) \<and> bit_at (bb_values right) (rank (bit_at (bb_values left)) (k + n)))"
proof -
  let ?L = "bit_at (bb_values left)"
  have low: "rank (bit msk) i = rank (\<lambda>n. ?L (k + n)) i" if "i \<le> m" for i
    by (rule rank_cong) (use that msk in auto)
  have "rank (bit msk) 64 = rank (bit msk) m"
    using rank_add [of "bit msk" m "64 - m"] assms(3) msk by (simp add: rank_def)
  then show need: "count_ones msk = rank (\<lambda>n. ?L (k + n)) m"
    using low [of m] by (simp add: count_ones_def rank_def)
  have "rank ?L (k + m) \<le> bb_len right"
    using assms(1,2) rank_mono [OF assms(2), of ?L] by (simp add: packed_def)
  then have room: "rank ?L k + count_ones msk \<le> bb_len right" by (simp add: need rank_add)
  have "count_ones msk \<le> 64" using rank_le [of _ m] assms(3) unfolding need by (rule order_trans)
  with bit_gather_bits [OF _ room] assms(1)
  have g: "bit (gather_bits mem right (rank ?L k) (count_ones msk)) j
      = (j < count_ones msk \<and> bit_at (bb_values right) (rank ?L k + j))" for j
    by (simp add: packed_def)
  show "bit (pdep_u64 (gather_bits mem right (rank ?L k) (count_ones msk)) msk) n
      = (n < m \<and> ?L (k + n) \<and> bit_at (bb_values right) (rank ?L (k + n)))"
  proof (cases "n < m \<and> ?L (k + n)")
    case True
    then have "rank (\<lambda>n. ?L (k + n)) n < count_ones msk"
      unfolding need by (intro rank_strict) auto
    with True msk low [of n] assms(3) show ?thesis by (simp add: bit_pdep_u64 g rank_add)
  qed (use msk in \<open>auto simp: bit_pdep_u64\<close>)
qed

lemma rank_zero_mask:
  fixes msk :: u64
  assumes "\<And>n. bit msk n = (n < m \<and> L (k + n))" and "msk = 0"
  shows "rank L (k + m) = rank L k" and "\<And>i. k \<le> i \<Longrightarrow> i < k + m \<Longrightarrow> \<not> L i"
proof -
  have no: "\<not> L (k + n)" if "n < m" for n using assms(1) [of n] assms(2) that by simp
  then have "rank (\<lambda>n. L (k + n)) m = rank (\<lambda>_. False) m" by (intro rank_cong) auto
  then show "rank L (k + m) = rank L k" by (simp add: rank_add) (simp add: rank_def)
  show "\<not> L i" if "k \<le> i" "i < k + m" for i using no [of "i - k"] that by simp
qed

text \<open>Writing the deposited word extends the invariant by \<open>m\<close> bits.\<close>

lemma bmi2_inv_write:
  assumes "packed left right" and "bmi2_inv left right k (out, rbi)" and "k + m \<le> bb_len left" and "m \<le> 64"
    and "k = 8 * off" and "m \<le> 8 * n" and "n \<le> 8" and "off + n \<le> length out"
    and msk: "\<And>i. bit msk i = (i < m \<and> bit_at (bb_values left) (k + i))"
  shows "bmi2_inv left right (k + m)
    (write_le n off (pdep_u64 (gather_bits mem right rbi (count_ones msk)) msk) out, rbi + count_ones msk)"
proof -
  have rbi: "rbi = rank (bit_at (bb_values left)) k" and len: "length out = (bb_len left + 7) div 8"
    and old: "\<And>i. i < 8 * length out \<Longrightarrow> bit_at out i = (i < k \<and> bit_at (bb_values left) i
      \<and> bit_at (bb_values right) (rank (bit_at (bb_values left)) i))"
    using assms(2) by (auto simp: bmi2_inv_def)
  note dep = deposit_bit [OF assms(1,3,4) msk]
  have "bit_at (write_le n off (pdep_u64 (gather_bits mem right rbi (count_ones msk)) msk) out) i
      = (i < k + m \<and> bit_at (bb_values left) i \<and> bit_at (bb_values right) (rank (bit_at (bb_values left)) i))"
    if "i < 8 * length out" for i
    using bit_at_write_le [OF assms(8,7) that] old [OF that] dep(2) [of mem "i - k"] assms(5,6) rbi by auto
  then show ?thesis using assms(7,8) len dep(1) rbi by (simp add: bmi2_inv_def rank_add)
qed

lemma bmi2_inv_skip:
  assumes "bmi2_inv left right k (out, rbi)" and "msk = 0"
    and "\<And>i. bit (msk :: u64) i = (i < m \<and> bit_at (bb_values left) (k + i))"
  shows "bmi2_inv left right (k + m) (out, rbi)"
proof -
  note z = rank_zero_mask [OF assms(3,2)]
  have "i < k \<longleftrightarrow> i < k + m" if "bit_at (bb_values left) i" for i
    using z(2) [of i] that by linarith
  with assms(1) z(1) show ?thesis by (auto simp: bmi2_inv_def)
qed

lemma bmi2_word_inv:
  assumes "packed left right" and "bmi2_inv left right (64 * k) st" and "Suc k \<le> bb_len left div 64"
  shows "bmi2_inv left right (64 * Suc k) (bmi2_word meml memr left right k st)"
proof -
  obtain out rbi where st: "st = (out, rbi)" by fastforce
  let ?w = "read_u64 meml (bb_values left) (k * 8)"
  have fit: "64 * k + 64 \<le> bb_len left" using assms(3) by (simp add: less_eq_div_iff_mult_less_eq)
  have w: "bit ?w i = (i < 64 \<and> bit_at (bb_values left) (64 * k + i))" for i
  proof (cases "i < 64")
    case True
    then have "64 * k + i < 8 * length (bb_values left)" using fit assms(1) by (simp add: packed_def)
    with True show ?thesis by (simp add: bit_read_u64 mem_bit_in)
  qed (auto dest: bit_imp_le_length)
  have len: "k * 8 + 8 \<le> length out" using assms(2) st fit by (auto simp: bmi2_inv_def)
  have inv: "bmi2_inv left right (64 * k) (out, rbi)" using assms(2) st by simp
  have suc: "64 * Suc k = 64 * k + 64" by simp
  show ?thesis
  proof (cases "?w = 0")
    case True
    then show ?thesis
      using bmi2_inv_skip [OF inv True w] unfolding suc by (simp add: bmi2_word_def st)
  next
    case False
    then have "bmi2_word meml memr left right k st = (write_le 8 (k * 8)
        (pdep_u64 (gather_bits memr right rbi (count_ones ?w)) ?w) out, rbi + count_ones ?w)"
      by (simp add: bmi2_word_def st Let_def)
    moreover have "bmi2_inv left right (64 * k + 64) \<dots>"
      by (rule bmi2_inv_write [OF assms(1) inv fit _ _ _ _ len w]) simp_all
    ultimately show ?thesis unfolding suc by simp
  qed
qed

lemma bmi2_words_inv:
  assumes "packed left right" and "n \<le> bb_len left div 64"
  shows "bmi2_inv left right (64 * n)
    (fold (bmi2_word meml memr left right) [0..<n] (replicate ((bb_len left + 7) div 8) 0, 0))"
  using assms(2)
proof (induction n)
  case 0
  have "bit_at (replicate m 0) i = False" if "i < 8 * m" for i m
    using that by (simp add: bit_at_def less_mult_imp_div_less mult.commute)
  then show ?case by (simp add: bmi2_inv_def)
next
  case (Suc n)
  then show ?case using bmi2_word_inv [OF assms(1)] by simp
qed

lemma bit_tail_mask:
  assumes "packed left right"
  shows "bit (tail_mask mem left) j = (j < bb_len left mod 64
    \<and> bit_at (bb_values left) (64 * (bb_len left div 64) + j))"
proof (cases "j < bb_len left mod 64")
  case True
  let ?k = "64 * (bb_len left div 64)" and ?n = "(bb_len left mod 64 + 7) div 8" and ?base = "bb_len left div 64 * 8"
  have j: "j < 64" "j < 8 * ?n" "?n \<le> 8" "?k + j < bb_len left"
    using True mult_div_mod_eq [of 64 "bb_len left"] by linarith+
  then have "bit (tail_mask mem left) j = mem_bit mem (bb_values left) (?k + j)"
    using bit_read_u64 [OF j(1), of mem "bb_values left" ?base] bit_padded [OF j(1), of ?n mem "bb_values left" ?base]
      True bit_low_mask [of "bb_len left mod 64" j]
    by (simp add: tail_mask_def Let_def bit_and_iff mult.commute del: push_bit_of_1)
  then show ?thesis using True j(4) assms by (simp add: mem_bit_in packed_def)
qed (simp add: tail_mask_def Let_def bit_and_iff bit_low_mask del: push_bit_of_1)

lemma bmi2_tail_inv:
  assumes "packed left right" and "bmi2_inv left right (64 * (bb_len left div 64)) (out, rbi)"
  shows "\<exists>z. bmi2_inv left right (bb_len left) (bmi2_tail meml memr left right (out, rbi), z)"
proof -
  let ?k = "64 * (bb_len left div 64)" and ?m = "bb_len left mod 64" and ?base = "bb_len left div 64 * 8"
  let ?n = "(?m + 7) div 8" and ?msk = "tail_mask meml left"
  note msk = bit_tail_mask [OF assms(1)]
  have sum: "?k + ?m = bb_len left" by simp
  consider "?m = 0" | "?m \<noteq> 0" "?msk = 0" | "?m \<noteq> 0" "?msk \<noteq> 0" by blast
  then show ?thesis
  proof cases
    case 1
    with assms(2) sum show ?thesis by (auto simp: bmi2_tail_def)
  next
    case 2
    have "bmi2_inv left right (?k + ?m) (out, rbi)" by (rule bmi2_inv_skip [OF assms(2) 2(2) msk])
    with 2 sum show ?thesis by (auto simp: bmi2_tail_def)
  next
    case 3
    have len: "length out = (bb_len left + 7) div 8" using assms(2) by (simp add: bmi2_inv_def)
    have "bmi2_inv left right (?k + ?m)
        (write_le ?n ?base (pdep_u64 (gather_bits memr right rbi (count_ones ?msk)) ?msk) out, rbi + count_ones ?msk)"
    proof (rule bmi2_inv_write [OF assms(1,2) _ _ _ _ _ _ msk])
      show "?base + ?n \<le> length out" unfolding len using sum by linarith
      show "?m \<le> 8 * ?n" "?n \<le> 8" by linarith+
    qed simp_all
    with 3 sum show ?thesis by (auto simp: bmi2_tail_def Let_def)
  qed
qed

text \<open>What the buffers hold as the specification sees it; their offsets are zero.\<close>

lemma packed_bits:
  assumes "bb_wf left" and "bb_wf right" and "bb_offset left = 0" and "bb_offset right = 0"
    and "count_list (bb_bits left) True = bb_len right"
  shows "packed left right"
proof -
  have "rank (\<lambda>j. bb_bits left ! j) (bb_len left) = rank (bit_at (bb_values left)) (bb_len left)"
    by (rule rank_cong) (simp add: bb_bits_nth assms(3))
  with assms show ?thesis by (simp add: packed_def bb_wf_def count_list_rank)
qed

lemma and_then_bits_nth:
  assumes "bb_offset left = 0" and "count_list (bb_bits left) True = bb_len right" and "i < bb_len left"
  shows "and_then (bb_bits left) (bb_bits right) ! i = (bit_at (bb_values left) i
    \<and> bit_at (bb_values right) (bb_offset right + rank (bit_at (bb_values left)) i))"
proof -
  have r: "rank (\<lambda>j. bb_bits left ! j) k = rank (bit_at (bb_values left)) k" if "k \<le> bb_len left" for k
    by (rule rank_cong) (use that in \<open>simp add: bb_bits_nth assms(1)\<close>)
  have "rank (bit_at (bb_values left)) i < bb_len right" if "bit_at (bb_values left) i"
    using rank_strict [of "bit_at (bb_values left)" i "bb_len left"] that assms(2,3) r [of "bb_len left"]
    by (simp add: count_list_rank)
  with and_then_nth [of i "bb_bits left" "bb_bits right"] r [of i] assms show ?thesis
    by (auto simp: bb_bits_nth)
qed

lemma bmi2_correct:
  assumes "bb_wf left" and "bb_wf right" and "bb_offset left = 0" and "bb_offset right = 0"
    and "count_list (bb_bits left) True = bb_len right"
  shows "bb_bits (boolean_buffer_and_then_bmi2 meml memr left right) = and_then (bb_bits left) (bb_bits right)"
proof -
  note p = packed_bits [OF assms]
  obtain out rbi where st: "fold (bmi2_word meml memr left right) [0..<bb_len left div 64]
      (replicate ((bb_len left + 7) div 8) 0, 0) = (out, rbi)" by fastforce
  have "bmi2_inv left right (64 * (bb_len left div 64)) (out, rbi)"
    using bmi2_words_inv [OF p order_refl, of meml memr] st by simp
  from bmi2_tail_inv [OF p this] obtain z where
    z: "bmi2_inv left right (bb_len left) (bmi2_tail meml memr left right (out, rbi), z)" by blast
  show ?thesis
    unfolding boolean_buffer_and_then_bmi2_def Let_def st
    by (rule bb_bits_eqI) (use z and_then_bits_nth [OF assms(3,5)] assms(4) in \<open>auto simp: bmi2_inv_def\<close>)
qed

section \<open>Correctness of the plain version\<close>

lemma fallback_loop_bits:
  assumes "bit_ops_ok B"
  shows "length idxs \<le> length ps \<Longrightarrow> distinct idxs \<Longrightarrow> \<forall>i \<in> set idxs. i < 8 * length buf \<Longrightarrow>
    \<exists>buf'. fallback_loop B idxs ps buf = Some buf' \<and> length buf' = length buf
      \<and> (\<forall>k < 8 * length buf. bit_at buf' k = (bit_at buf k \<and> (\<forall>j < length idxs. idxs ! j = k \<longrightarrow> ps ! j)))"
proof (induction idxs arbitrary: ps buf)
  case Nil
  then show ?case by simp
next
  case (Cons i idxs)
  obtain p qs where ps: "ps = p # qs" using Cons.prems(1) by (cases ps) auto
  let ?buf = "if p then buf else builder_set_bit B i False buf"
  have len: "length ?buf = length buf"
    and bits: "\<And>k. k < 8 * length buf \<Longrightarrow> bit_at ?buf k = (bit_at buf k \<and> (k = i \<longrightarrow> p))"
    using assms Cons.prems(3) by (auto simp: bit_ops_ok_def)
  obtain buf' where buf': "fallback_loop B idxs qs ?buf = Some buf'" "length buf' = length ?buf"
    "\<forall>k < 8 * length ?buf. bit_at buf' k = (bit_at ?buf k \<and> (\<forall>j < length idxs. idxs ! j = k \<longrightarrow> qs ! j))"
    using Cons.IH [of qs ?buf] Cons.prems ps len by auto
  have "(\<forall>j < length (i # idxs). (i # idxs) ! j = k \<longrightarrow> ps ! j) = ((k = i \<longrightarrow> p) \<and> (\<forall>j < length idxs. idxs ! j = k \<longrightarrow> qs ! j))" for k
    unfolding ps by (auto simp: less_Suc_eq_0_disj)
  with buf' len bits ps show ?case by auto
qed

text \<open>The position of an element among the set indices is its rank.\<close>

lemma filter_upt_nth_rank:
  assumes "i < n" and "f i"
  shows "rank f i < length (filter f [0..<n])" and "filter f [0..<n] ! rank f i = i"
proof -
  have "[0..<n] = [0..<i] @ i # [Suc i..<n]" 
    using upt_add_eq_append [of 0 i "n - i"] assms(1) by (simp add: upt_conv_Cons)
  then have "filter f [0..<n] = filter f [0..<i] @ i # filter f [Suc i..<n]" using assms(2) by simp
  then show "rank f i < length (filter f [0..<n])" and "filter f [0..<n] ! rank f i = i"
    by (simp_all add: rank_def nth_append)
qed

lemma fallback_correct:
  assumes "bit_ops_ok B" and "bb_wf left" and "bb_wf right" and "bb_offset left = 0"
    and "count_list (bb_bits left) True = bb_len right" and "bb_len left \<noteq> bb_len right"
  shows "\<exists>b. boolean_buffer_and_then_fallback B left right = Some b
    \<and> bb_bits b = and_then (bb_bits left) (bb_bits right)"
proof -
  let ?idxs = "filter (\<lambda>i. bb_bits left ! i) [0..<bb_len left]"
  have idxs: "length ?idxs = bb_len right" "distinct ?idxs" "\<forall>i \<in> set ?idxs. i < 8 * length (bb_values left)"
    using assms(2,4,5) by (auto simp: count_list_rank rank_def bb_wf_def)
  obtain buf where buf: "fallback_loop B ?idxs (bb_bits right) (bb_values left) = Some buf"
    "\<forall>k < 8 * length (bb_values left). bit_at buf k = (bit_at (bb_values left) k
        \<and> (\<forall>j < length ?idxs. ?idxs ! j = k \<longrightarrow> bb_bits right ! j))"
    using fallback_loop_bits [OF assms(1), of ?idxs "bb_bits right" "bb_values left"] idxs by auto
  have "bb_bits \<lparr>bb_values = buf, bb_offset = 0, bb_len = bb_len left\<rparr> = and_then (bb_bits left) (bb_bits right)"
  proof (rule bb_bits_eqI)
    fix i assume i: "i < length (and_then (bb_bits left) (bb_bits right))"
    then have l: "i < bb_len left" "i < 8 * length (bb_values left)" "bb_bits left ! i = bit_at (bb_values left) i"
      using assms(2,4) by (simp_all add: bb_wf_def bb_bits_nth)
    have at: "bit_at buf i = (bb_bits left ! i \<and> (\<forall>j < length ?idxs. ?idxs ! j = i \<longrightarrow> bb_bits right ! j))"
      using buf(2) l by blast
    have spec: "and_then (bb_bits left) (bb_bits right) ! i
        = (bb_bits left ! i \<and> bb_bits right ! rank (\<lambda>j. bb_bits left ! j) i)"
      by (rule and_then_nth) (use l(1) assms(5) in simp_all)
    have "bit_at buf i = and_then (bb_bits left) (bb_bits right) ! i"
    proof (cases "bb_bits left ! i")
      case True
      note r = filter_upt_nth_rank [OF l(1), of "\<lambda>j. bb_bits left ! j", OF True]
      have "?idxs ! j = i \<longleftrightarrow> j = rank (\<lambda>j. bb_bits left ! j) i" if "j < length ?idxs" for j
        using nth_eq_iff_index_eq [OF idxs(2) that r(1)] r(2) by simp
      then have "(\<forall>j < length ?idxs. ?idxs ! j = i \<longrightarrow> bb_bits right ! j) = bb_bits right ! rank (\<lambda>j. bb_bits left ! j) i"
        using r(1) by (simp cong: imp_cong)
      with at spec True show ?thesis by blast
    qed (use at spec in blast)
    then show "bit_at (bb_values \<lparr>bb_values = buf, bb_offset = 0, bb_len = bb_len left\<rparr>)
        (bb_offset \<lparr>bb_values = buf, bb_offset = 0, bb_len = bb_len left\<rparr> + i)
      = and_then (bb_bits left) (bb_bits right) ! i"
      by simp
  qed simp
  with buf(1) assms(1-3,6) show ?thesis
    by (simp add: boolean_buffer_and_then_fallback_def bit_ops_ok_def)
qed

section \<open>The entry point\<close>

lemma and_then_all:
  "count_list ls True = length ls \<Longrightarrow> length rs = length ls \<Longrightarrow> and_then ls rs = rs"
proof (induction ls rs rule: and_then.induct)
  case (2 ls rs)
  then show ?case using count_le_length [of ls True] by simp
qed auto

lemma and_then_correct:
  assumes "bit_ops_ok B" and "bb_wf left" and "bb_wf right" and "bb_offset left = 0" and "bb_offset right = 0"
    and "count_list (bb_bits left) True = bb_len right"
  shows "\<exists>b. boolean_buffer_and_then B bmi2 meml memr left right = Some b
    \<and> bb_bits b = and_then (bb_bits left) (bb_bits right)"
proof (cases "bb_len left = bb_len right")
  case True
  with assms(6) and_then_all [of "bb_bits left" "bb_bits right"] show ?thesis
    by (simp add: boolean_buffer_and_then_def)
next
  case False
  with bmi2_correct [OF assms(2-6), of meml memr] fallback_correct [OF assms(1-4,6)] show ?thesis
    by (simp add: boolean_buffer_and_then_def)
qed

text \<open>The accessors, written out: an instance of the parameter.\<close>

definition set_bit_at :: "nat \<Rightarrow> bool \<Rightarrow> bytes \<Rightarrow> bytes" where
  "set_bit_at i v bs = bs[i div 8 := (if v then bs ! (i div 8) OR push_bit (i mod 8) 1
     else bs ! (i div 8) AND NOT (push_bit (i mod 8) 1))]"

definition plain_bit_ops :: bit_ops where
  "plain_bit_ops = \<lparr>bb_iter = bb_bits,
     bb_set_indices = (\<lambda>b. filter (\<lambda>i. bb_bits b ! i) [0..<bb_len b]), builder_set_bit = set_bit_at\<rparr>"

lemma bit_at_set_bit_at:
  assumes "i < 8 * length bs" and "k < 8 * length bs"
  shows "bit_at (set_bit_at i v bs) k = (if k = i then v else bit_at bs k)"
proof (cases "k div 8 = i div 8")
  case True
  have "i div 8 < length bs" using assms(1) by (simp add: less_mult_imp_div_less mult.commute)
  moreover have "k mod 8 = i mod 8 \<longleftrightarrow> k = i" using True by (metis div_mult_mod_eq)
  ultimately show ?thesis
    by (auto simp: bit_at_def set_bit_at_def True bit_or_iff bit_and_iff bit_not_iff bit_push_bit_iff
      bit_1_iff bit_exp_iff)
next
  case False
  then show ?thesis by (auto simp: bit_at_def set_bit_at_def)
qed

lemma plain_bit_ops_ok: "bit_ops_ok plain_bit_ops"
  using bit_at_set_bit_at by (auto simp: bit_ops_ok_def plain_bit_ops_def set_bit_at_def)

end
