(* ===== verification/RowSelections.thy ===== *)
theory RowSelections
  imports Selection
begin

text \<open>
  Row selections of the Parquet reader: runs of selected and skipped rows
  (\<^verbatim>\<open>src/parquet/src/reader/runtime/utils.rs\<close>), their conversion to bit masks
  (\<^verbatim>\<open>src/parquet/src/utils.rs\<close>) and the bit-mask selections of
  \<^verbatim>\<open>src/parquet/src/reader/utils/boolean_selection.rs\<close>. A run is Parquet's \<open>RowSelector\<close>; the
  meaning of a list of runs is the list of its bits, \<open>selection_bits\<close>, or the positions of the selected
  rows, \<open>selected_rows\<close>. \<open>RowSelection::from\<close>, which merges runs, and Arrow's bit builder and bitwise
  operators are parameters with their documented behaviour. Row counts are natural numbers: the
  rows of a file fit into 63 bits, so their sums do not wrap.
\<close>

section \<open>Runs of rows\<close>

record row_selector =
  sel_row_count :: nat
  sel_skip :: bool

definition selection_bits :: "row_selector list \<Rightarrow> bool list" where
  "selection_bits xs = concat (map (\<lambda>s. replicate (sel_row_count s) (\<not> sel_skip s)) xs)"

fun true_positions :: "nat \<Rightarrow> bool list \<Rightarrow> nat list" where
  "true_positions n [] = []"
| "true_positions n (b # bs) = (if b then n # true_positions (Suc n) bs else true_positions (Suc n) bs)"

definition selected_rows :: "row_selector list \<Rightarrow> nat list" where
  "selected_rows xs = true_positions 0 (selection_bits xs)"

text \<open>What is relied on of \<open>RowSelection::from\<close>: it may merge and drop runs but keeps the rows.\<close>

definition normalizes :: "(row_selector list \<Rightarrow> row_selector list) \<Rightarrow> bool" where
  "normalizes norm \<longleftrightarrow> (\<forall>xs. selection_bits (norm xs) = selection_bits xs)"

section \<open>Batches\<close>

fun take_loop :: "nat \<Rightarrow> nat \<Rightarrow> row_selector list \<Rightarrow> row_selector list \<times> nat \<times> row_selector list" where
  "take_loop batch_size current_selected [] = ([], current_selected, [])"
| "take_loop batch_size current_selected (front # selection) =
     (if sel_row_count front + current_selected > batch_size then
        (let to_select = batch_size - current_selected;
             rt = (if to_select > 0 then [front\<lparr>sel_row_count := to_select\<rparr>] else []);
             remaining = sel_row_count front - to_select
         in (rt, current_selected + to_select, front\<lparr>sel_row_count := remaining\<rparr> # selection))
      else
        (let (rt, c, q) = take_loop batch_size (current_selected + sel_row_count front) selection
         in (front # rt, c, q)))"

definition take_next_batch :: "row_selector list \<Rightarrow> nat \<Rightarrow> row_selector list option \<times> row_selector list" where
  "take_next_batch selection batch_size =
     (let (rt, current_selected, q) = take_loop batch_size 0 selection
      in (if current_selected = 0 then None else Some rt, q))"

section \<open>Offset and limit\<close>

text \<open>
  The closure of \<open>position\<close>: it counts skipped and selected rows until more than \<open>offset\<close> rows
  are selected; the result is the counts and the runs after the one that stopped it.
\<close>

fun offset_scan :: "nat \<Rightarrow> nat \<Rightarrow> nat \<Rightarrow> row_selector list \<Rightarrow> (nat \<times> nat \<times> row_selector list) option" where
  "offset_scan offset skipped_count selected_count [] = None"
| "offset_scan offset skipped_count selected_count (s # ss) =
     (if sel_skip s then offset_scan offset (skipped_count + sel_row_count s) selected_count ss
      else if selected_count + sel_row_count s > offset
        then Some (skipped_count, selected_count + sel_row_count s, ss)
      else offset_scan offset skipped_count (selected_count + sel_row_count s) ss)"

definition offset_row_selection ::
  "(row_selector list \<Rightarrow> row_selector list) \<Rightarrow> row_selector list \<Rightarrow> nat \<Rightarrow> row_selector list" where
  "offset_row_selection norm selection offset =
     (if offset = 0 then selection
      else case offset_scan offset 0 0 selection of
        None \<Rightarrow> norm []
      | Some (skipped_count, selected_count, rest) \<Rightarrow>
          norm (\<lparr>sel_row_count = skipped_count + offset, sel_skip = True\<rparr>
            # \<lparr>sel_row_count = selected_count - offset, sel_skip = False\<rparr> # rest))"

fun limit_loop :: "nat \<Rightarrow> row_selector list \<Rightarrow> row_selector list" where
  "limit_loop limit [] = []"
| "limit_loop limit (s # ss) =
     (if sel_skip s then s # limit_loop limit ss
      else if sel_row_count s \<ge> limit then [s\<lparr>sel_row_count := limit\<rparr>]
      else s # limit_loop (limit - sel_row_count s) ss)"

definition limit_row_selection ::
  "(row_selector list \<Rightarrow> row_selector list) \<Rightarrow> row_selector list \<Rightarrow> nat \<Rightarrow> row_selector list" where
  "limit_row_selection norm selection limit =
     norm (if limit = 0 then [] else limit_loop limit selection)"

section \<open>Root columns of a projection\<close>

text \<open>The schema's leaves, which of them the projection includes, and the root of each.\<close>

fun mark_roots :: "(nat \<Rightarrow> bool) \<Rightarrow> (nat \<Rightarrow> nat) \<Rightarrow> nat list \<Rightarrow> bool list \<Rightarrow> bool list option" where
  "mark_roots included root [] root_mask = Some root_mask"
| "mark_roots included root (leaf # leaves) root_mask =
     (if included leaf then
        (if root leaf < length root_mask then mark_roots included root leaves (root_mask[root leaf := True]) else None)
      else mark_roots included root leaves root_mask)"

definition get_root_column_ids :: "nat \<Rightarrow> nat \<Rightarrow> (nat \<Rightarrow> nat) \<Rightarrow> (nat \<Rightarrow> bool) \<Rightarrow> nat list option" where
  "get_root_column_ids n_roots num_columns root included =
     map_option (true_positions 0) (mark_roots included root [0..<num_columns] (replicate n_roots False))"

section \<open>Bit masks\<close>

record 'b bool_builder =
  bld_new :: 'b
  bld_append_n :: "nat \<Rightarrow> bool \<Rightarrow> 'b \<Rightarrow> 'b"
  bld_finish :: "'b \<Rightarrow> boolean_buffer"

definition builder_ok :: "'b bool_builder \<Rightarrow> ('b \<Rightarrow> bool list) \<Rightarrow> bool" where
  "builder_ok Bd contents \<longleftrightarrow> contents (bld_new Bd) = []
     \<and> (\<forall>n v b. contents (bld_append_n Bd n v b) = contents b @ replicate n v)
     \<and> (\<forall>b. bb_wf (bld_finish Bd b) \<and> bb_offset (bld_finish Bd b) = 0 \<and> bb_bits (bld_finish Bd b) = contents b)"

text \<open>\<open>row_selector_to_boolean_buffer\<close>, and \<open>From<RowSelection> for BooleanSelection\<close>, the same loop.\<close>

fun append_selectors :: "'b bool_builder \<Rightarrow> row_selector list \<Rightarrow> 'b \<Rightarrow> 'b" where
  "append_selectors Bd [] buffer = buffer"
| "append_selectors Bd (selector # selection) buffer =
     append_selectors Bd selection
       (if sel_skip selector then bld_append_n Bd (sel_row_count selector) False buffer
        else bld_append_n Bd (sel_row_count selector) True buffer)"

definition row_selector_to_boolean_buffer :: "'b bool_builder \<Rightarrow> row_selector list \<Rightarrow> boolean_buffer" where
  "row_selector_to_boolean_buffer Bd selection = bld_finish Bd (append_selectors Bd selection (bld_new Bd))"

record boolean_selection =
  selectors :: boolean_buffer

definition boolean_selection_of_row_selection :: "'b bool_builder \<Rightarrow> row_selector list \<Rightarrow> boolean_selection" where
  "boolean_selection_of_row_selection Bd selection =
     \<lparr>selectors = bld_finish Bd (append_selectors Bd selection (bld_new Bd))\<rparr>"

definition boolean_selection_row_count :: "boolean_selection \<Rightarrow> nat" where
  "boolean_selection_row_count s = count_list (bb_bits (selectors s)) True"

definition selects_any :: "boolean_selection \<Rightarrow> bool" where
  "selects_any s = (boolean_selection_row_count s > 0)"

fun ranges_loop :: "'b bool_builder \<Rightarrow> (nat \<times> nat) list \<Rightarrow> nat \<Rightarrow> 'b \<Rightarrow> nat \<times> 'b" where
  "ranges_loop Bd [] last_end buffer = (last_end, buffer)"
| "ranges_loop Bd ((start, stop) # ranges) last_end buffer =
     (let len = stop - start in
      if len = 0 then ranges_loop Bd ranges last_end buffer
      else
        (let buffer1 = (if start > last_end then bld_append_n Bd (start - last_end) False buffer else buffer)
         in ranges_loop Bd ranges stop (bld_append_n Bd len True buffer1)))"

definition from_consecutive_ranges :: "'b bool_builder \<Rightarrow> (nat \<times> nat) list \<Rightarrow> nat \<Rightarrow> boolean_selection" where
  "from_consecutive_ranges Bd ranges total_rows =
     (let (last_end, buffer) = ranges_loop Bd ranges 0 (bld_new Bd)
      in \<lparr>selectors = bld_finish Bd (if last_end \<noteq> total_rows
            then bld_append_n Bd (total_rows - last_end) False buffer else buffer)\<rparr>)"

text \<open>
  \<open>union\<close> and \<open>intersection\<close> are Arrow's operators on buffers of one length. \<open>and_then\<close> is the loop
  of \<open>boolean_buffer_and_then_fallback\<close>, with an intersection where the lengths agree.
\<close>

record buffer_ops =
  bb_and :: "boolean_buffer \<Rightarrow> boolean_buffer \<Rightarrow> boolean_buffer"
  bb_or :: "boolean_buffer \<Rightarrow> boolean_buffer \<Rightarrow> boolean_buffer"
  bb_not :: "boolean_buffer \<Rightarrow> boolean_buffer"
  bb_new_set :: "nat \<Rightarrow> boolean_buffer"
  bb_new_unset :: "nat \<Rightarrow> boolean_buffer"
  bb_slice :: "boolean_buffer \<Rightarrow> nat \<Rightarrow> nat \<Rightarrow> boolean_buffer option"

definition buffer_ops_ok :: "buffer_ops \<Rightarrow> bool" where
  "buffer_ops_ok Q \<longleftrightarrow>
     (\<forall>a b. bb_wf a \<longrightarrow> bb_wf b \<longrightarrow> bb_len a = bb_len b \<longrightarrow>
        bb_bits (bb_and Q a b) = map2 (\<and>) (bb_bits a) (bb_bits b)
        \<and> bb_bits (bb_or Q a b) = map2 (\<or>) (bb_bits a) (bb_bits b))
   \<and> (\<forall>a. bb_wf a \<longrightarrow> bb_bits (bb_not Q a) = map Not (bb_bits a))
   \<and> (\<forall>n. bb_bits (bb_new_set Q n) = replicate n True \<and> bb_bits (bb_new_unset Q n) = replicate n False)
   \<and> (\<forall>a off len. bb_wf a \<longrightarrow> map_option bb_bits (bb_slice Q a off len) =
        (if off + len \<le> bb_len a then Some (take len (drop off (bb_bits a))) else None))"

definition new_unselected :: "buffer_ops \<Rightarrow> nat \<Rightarrow> boolean_selection" where
  "new_unselected Q n = \<lparr>selectors = bb_new_unset Q n\<rparr>"

definition new_selected :: "buffer_ops \<Rightarrow> nat \<Rightarrow> boolean_selection" where
  "new_selected Q n = \<lparr>selectors = bb_new_set Q n\<rparr>"

definition boolean_selection_len :: "boolean_selection \<Rightarrow> nat" where
  "boolean_selection_len s = bb_len (selectors s)"

definition boolean_selection_is_empty :: "boolean_selection \<Rightarrow> bool" where
  "boolean_selection_is_empty s = (boolean_selection_len s = 0)"

definition positive_iter :: "bit_ops \<Rightarrow> boolean_selection \<Rightarrow> nat list" where
  "positive_iter B s = bb_set_indices B (selectors s)"

definition selection_slice :: "buffer_ops \<Rightarrow> boolean_selection \<Rightarrow> nat \<Rightarrow> nat \<Rightarrow> boolean_buffer option" where
  "selection_slice Q s offset len = bb_slice Q (selectors s) offset len"

definition as_inverted :: "buffer_ops \<Rightarrow> boolean_selection \<Rightarrow> boolean_selection" where
  "as_inverted Q s = \<lparr>selectors = bb_not Q (selectors s)\<rparr>"

definition selection_union :: "buffer_ops \<Rightarrow> boolean_selection \<Rightarrow> boolean_selection \<Rightarrow> boolean_selection" where
  "selection_union Q s t = \<lparr>selectors = bb_or Q (selectors s) (selectors t)\<rparr>"

definition selection_intersection :: "buffer_ops \<Rightarrow> boolean_selection \<Rightarrow> boolean_selection \<Rightarrow> boolean_selection" where
  "selection_intersection Q s t = \<lparr>selectors = bb_and Q (selectors s) (selectors t)\<rparr>"

definition selection_and_then ::
  "bit_ops \<Rightarrow> buffer_ops \<Rightarrow> boolean_selection \<Rightarrow> boolean_selection \<Rightarrow> boolean_selection option" where
  "selection_and_then B Q s other =
     (if boolean_selection_len s = boolean_selection_len other then Some (selection_intersection Q s other)
      else map_option (\<lambda>buf. \<lparr>selectors = \<lparr>bb_values = buf, bb_offset = 0, bb_len = bb_len (selectors s)\<rparr>\<rparr>)
        (fallback_loop B (positive_iter B s) (bb_iter B (selectors other)) (bb_values (selectors s))))"

section \<open>Positions\<close>

lemma rows_simps [simp]:
  "selection_bits [] = []" "selection_bits (s # ss) = replicate (sel_row_count s) (\<not> sel_skip s) @ selection_bits ss" "selection_bits (xs @ ys) = selection_bits xs @ selection_bits ys"
  by (simp_all add: selection_bits_def)

lemma true_positions_append:
  "true_positions n (xs @ ys) = true_positions n xs @ true_positions (n + length xs) ys"
  by (induction xs arbitrary: n) simp_all

lemma true_positions_False [simp]: "true_positions n (replicate k False) = []"
  by (induction k arbitrary: n) simp_all

lemma true_positions_True [simp]: "true_positions n (replicate k True) = [n..<n + k]"
  by (induction k arbitrary: n) (simp_all add: upt_conv_Cons)

lemma set_true_positions: "x \<in> set (true_positions n bs) \<longleftrightarrow> n \<le> x \<and> x < n + length bs \<and> bs ! (x - n)"
  by (induction bs arbitrary: n) (auto simp: nth_Cons' Suc_le_eq)

lemma sorted_true_positions: "sorted_wrt (<) (true_positions n bs)"
  by (induction bs arbitrary: n) (auto simp: set_true_positions)

section \<open>Batches partition a selection\<close>

lemma take_loop_rows:
  "cur \<le> batch_size \<Longrightarrow> take_loop batch_size cur q = (rt, c, q') \<Longrightarrow>
    selection_bits rt @ selection_bits q' = selection_bits q \<and> c = cur + length (selection_bits rt) \<and> c = min batch_size (cur + length (selection_bits q))"
proof (induction batch_size cur q arbitrary: rt rule: take_loop.induct)
  case (2 batch_size cur front q)
  show ?case
  proof (cases "sel_row_count front + cur > batch_size")
    case True
    let ?k = "batch_size - cur"
    have "replicate ?k v @ replicate (sel_row_count front - ?k) v = replicate (sel_row_count front) v" for v :: bool
      using True by (simp flip: replicate_add)
    with True 2(2,3) show ?thesis
      by (auto simp: Let_def simp flip: append_assoc split: if_splits)
  next
    case False
    obtain r c1 q1 where r: "take_loop batch_size (cur + sel_row_count front) q = (r, c1, q1)" by (cases "take_loop batch_size (cur + sel_row_count front) q")
    with False 2(3) have e: "rt = front # r" "c1 = c" "q1 = q'" by auto
    have "cur + sel_row_count front \<le> batch_size" using False by simp
    from 2(1) [OF False this r [unfolded e]] show ?thesis by (simp add: e(1) add.assoc)
  qed
qed simp

lemma take_next_batch_rows:
  assumes "take_next_batch q n = (r, q')"
  shows "selection_bits (case r of Some rt \<Rightarrow> rt | None \<Rightarrow> []) @ selection_bits q' = selection_bits q
    \<and> length (selection_bits (case r of Some rt \<Rightarrow> rt | None \<Rightarrow> [])) = min n (length (selection_bits q))
    \<and> (r = None \<longleftrightarrow> n = 0 \<or> selection_bits q = [])"
proof -
  obtain rt c q1 where t: "take_loop n 0 q = (rt, c, q1)" by (cases "take_loop n 0 q")
  from take_loop_rows [OF _ t] have l: "selection_bits rt @ selection_bits q1 = selection_bits q" "c = length (selection_bits rt)" "c = min n (length (selection_bits q))"
    by simp_all
  have "c = 0 \<longleftrightarrow> n = 0 \<or> selection_bits q = []" unfolding l(3) by (auto simp: min_def)
  with assms t l show ?thesis by (auto simp: take_next_batch_def split: if_splits)
qed

section \<open>Offset and limit act on the selected rows\<close>

lemma offset_scan_positions:
  "sel \<le> offset \<Longrightarrow> (\<forall>z. offset_scan offset sk sel ss = Some z \<longrightarrow> offset < fst (snd z))
    \<and> drop (offset - sel) (true_positions (sk + sel) (selection_bits ss)) = (case offset_scan offset sk sel ss of
        None \<Rightarrow> [] | Some (sk', sel', rest) \<Rightarrow> [sk' + offset..<sk' + sel'] @ true_positions (sk' + sel') (selection_bits rest))"
proof (induction ss arbitrary: sk sel)
  case (Cons s ss)
  show ?case
  proof (cases "sel_skip s")
    case True
    with Cons.IH [OF Cons.prems, of "sk + sel_row_count s"] show ?thesis
      by (simp add: true_positions_append add.assoc add.commute [of "sel_row_count s"])
  next
    case False
    then show ?thesis
      using Cons.IH [of "sel + sel_row_count s" sk] Cons.prems
      by (auto simp: true_positions_append add.assoc split: if_splits)
  qed
qed simp

lemma selected_offset:
  assumes "normalizes norm"
  shows "selected_rows (offset_row_selection norm ss offset) = drop offset (selected_rows ss)"
  using offset_scan_positions [of 0 offset 0 ss] assms
  by (auto simp: offset_row_selection_def selected_rows_def normalizes_def true_positions_append split: option.splits)

lemma limit_loop_positions:
  "true_positions n (selection_bits (limit_loop k ss)) = take k (true_positions n (selection_bits ss))"
  by (induction k ss arbitrary: n rule: limit_loop.induct) (auto simp: true_positions_append)

lemma selected_limit:
  "normalizes norm \<Longrightarrow> selected_rows (limit_row_selection norm ss k) = take k (selected_rows ss)"
  by (simp add: limit_row_selection_def selected_rows_def normalizes_def limit_loop_positions)

section \<open>Root columns\<close>

lemma mark_roots_bits:
  "\<forall>l \<in> set ls. root l < length m \<Longrightarrow> \<exists>m'. mark_roots included root ls m = Some m' \<and> length m' = length m
    \<and> (\<forall>r < length m. m' ! r = (m ! r \<or> (\<exists>l \<in> set ls. included l \<and> root l = r)))"
proof (induction ls arbitrary: m)
  case (Cons l ls)
  let ?m = "if included l then m[root l := True] else m"
  have len: "length ?m = length m" by simp
  obtain m' where m': "mark_roots included root ls ?m = Some m'" "length m' = length m"
      "\<forall>r < length m. m' ! r = (?m ! r \<or> (\<exists>l \<in> set ls. included l \<and> root l = r))"
    using Cons.IH [of ?m] Cons.prems by (simp only: len) auto
  have "m' ! r = (m ! r \<or> (\<exists>l' \<in> set (l # ls). included l' \<and> root l' = r))" if "r < length m" for r
    using m'(3) that by (cases "included l"; cases "root l = r") simp_all
  moreover have "mark_roots included root (l # ls) m = Some m'" using m'(1) Cons.prems by (simp split: if_splits)
  ultimately show ?case using m'(2) by blast
qed simp

lemma get_root_column_ids_spec:
  assumes "\<And>l. l < n \<Longrightarrow> root l < n_roots"
  shows "\<exists>ids. get_root_column_ids n_roots n root included = Some ids \<and> sorted_wrt (<) ids
    \<and> set ids = {root l | l. l < n \<and> included l}"
proof -
  obtain m where m: "mark_roots included root [0..<n] (replicate n_roots False) = Some m" "length m = n_roots"
    "\<forall>r < n_roots. m ! r = (\<exists>l < n. included l \<and> root l = r)"
    using mark_roots_bits [of "[0..<n]" root "replicate n_roots False" included] assms by (auto simp: Bex_def)
  then have "set (true_positions 0 m) = {root l | l. l < n \<and> included l}"
    using assms by (auto simp: set_true_positions)
  with m(1) sorted_true_positions [of 0 m] show ?thesis by (simp add: get_root_column_ids_def)
qed

section \<open>Bit masks\<close>

lemma append_selectors_contents:
  assumes "builder_ok Bd contents"
  shows "contents (append_selectors Bd ss b) = contents b @ selection_bits ss"
  using assms by (induction ss arbitrary: b) (auto simp: builder_ok_def)

lemma row_selector_bits:
  assumes "builder_ok Bd contents"
  shows "bb_bits (row_selector_to_boolean_buffer Bd ss) = selection_bits ss"
  using append_selectors_contents [OF assms] assms by (simp add: row_selector_to_boolean_buffer_def builder_ok_def)

text \<open>Ranges in order, each after the end of the one before, within the total.\<close>

fun ranges_valid :: "nat \<Rightarrow> (nat \<times> nat) list \<Rightarrow> nat \<Rightarrow> bool" where
  "ranges_valid lo [] total_rows = (lo \<le> total_rows)"
| "ranges_valid lo ((start, stop) # rs) total_rows = (lo \<le> start \<and> start \<le> stop \<and> ranges_valid stop rs total_rows)"

definition in_ranges :: "(nat \<times> nat) list \<Rightarrow> nat \<Rightarrow> bool" where
  "in_ranges rs i \<longleftrightarrow> (\<exists>(a, b) \<in> set rs. a \<le> i \<and> i < b)"

lemma ranges_loop_contents:
  assumes "builder_ok Bd contents"
  shows "ranges_valid lo rs total_rows \<Longrightarrow> last_end \<le> lo \<Longrightarrow> length (contents b) = last_end \<Longrightarrow>
    ranges_loop Bd rs last_end b = (e, b') \<Longrightarrow> length (contents b') = e \<and> e \<le> total_rows \<and> last_end \<le> e
      \<and> (\<forall>i < e. contents b' ! i = (if i < last_end then contents b ! i else in_ranges rs i))
      \<and> (\<forall>i \<ge> e. \<not> in_ranges rs i)"
proof (induction rs arbitrary: lo last_end b)
  case Nil
  then show ?case by (auto simp: in_ranges_def)
next
  case (Cons r rs)
  obtain start stop where r: "r = (start, stop)" by fastforce
  show ?case
  proof (cases "stop - start = 0")
    case True
    with Cons.prems r have "ranges_loop Bd rs last_end b = (e, b')" "ranges_valid stop rs total_rows" "last_end \<le> stop"
      by auto
    with Cons.IH [of stop last_end b] Cons.prems(3) True r show ?thesis by (auto simp: in_ranges_def)
  next
    case False
    let ?b = "bld_append_n Bd (stop - start) True (if start > last_end then bld_append_n Bd (start - last_end) False b else b)"
    have c: "contents ?b = contents b @ replicate (start - last_end) False @ replicate (stop - start) True"
      using assms by (simp add: builder_ok_def)
    have v: "ranges_valid stop rs total_rows" "last_end \<le> start" "start < stop" "ranges_loop Bd rs stop ?b = (e, b')"
      using Cons.prems r False by (auto simp: Let_def)
    then have len: "length (contents ?b) = stop" using c Cons.prems(3) by simp
    have "contents ?b ! i = (if i < last_end then contents b ! i else start \<le> i \<and> i < stop)" if "i < stop" for i
      unfolding c using that v(2,3) Cons.prems(3) by (auto simp: nth_append)
    moreover have "\<not> in_ranges rs i" if "i < stop" for i
      using v(1) that
    proof (induction rs arbitrary: stop)
      case (Cons q rs)
      then show ?case by (cases q) (fastforce simp: in_ranges_def)
    qed (simp add: in_ranges_def)
    moreover have "in_ranges (r # rs) i \<longleftrightarrow> (start \<le> i \<and> i < stop) \<or> in_ranges rs i" for i
      by (auto simp: in_ranges_def r)
    ultimately show ?thesis
      using Cons.IH [OF v(1) order_refl len v(4)] v(2,3) by auto
  qed
qed

lemma from_consecutive_ranges_bits:
  assumes "builder_ok Bd contents" and "ranges_valid 0 rs total_rows"
  shows "bb_bits (selectors (from_consecutive_ranges Bd rs total_rows)) = map (in_ranges rs) [0..<total_rows]"
proof -
  obtain e b where l: "ranges_loop Bd rs 0 (bld_new Bd) = (e, b)" by fastforce
  have c: "length (contents b) = e" "e \<le> total_rows" "\<forall>i < e. contents b ! i = in_ranges rs i" "\<forall>i \<ge> e. \<not> in_ranges rs i"
    using ranges_loop_contents [OF assms _ _ l] assms(1) by (auto simp: builder_ok_def)
  have "bb_bits (selectors (from_consecutive_ranges Bd rs total_rows)) = contents b @ replicate (total_rows - e) False"
    using assms(1) c(1) l by (simp add: from_consecutive_ranges_def builder_ok_def)
  also have "\<dots> = map (in_ranges rs) [0..<total_rows]"
    using c by (auto simp: list_eq_iff_nth_eq nth_append)
  finally show ?thesis .
qed

lemmas selection_defs = boolean_selection_len_def positive_iter_def boolean_selection_row_count_def

lemma selection_and_then_bits:
  assumes "bit_ops_ok B" and "buffer_ops_ok Q" and "bb_wf (selectors s)" and "bb_wf (selectors t)"
    and "bb_offset (selectors s) = 0" and "boolean_selection_row_count s = bb_len (selectors t)"
  shows "\<exists>u. selection_and_then B Q s t = Some u
    \<and> bb_bits (selectors u) = and_then (bb_bits (selectors s)) (bb_bits (selectors t))"
proof (cases "bb_len (selectors s) = bb_len (selectors t)")
  case True
  let ?s = "bb_bits (selectors s)" and ?t = "bb_bits (selectors t)"
  have all: "count_list ?s True = length ?s" using assms(6) True by (simp add: boolean_selection_row_count_def)
  have "map2 (\<and>) ls rs = rs" if "count_list ls True = length ls" "length rs = length ls" for ls rs
    using that
  proof (induction ls arbitrary: rs)
    case (Cons l ls)
    then show ?case using count_le_length [of ls True] by (cases rs; cases l) auto
  qed simp
  with all and_then_all [of ?s ?t] True assms(2-4) show ?thesis
    by (simp add: selection_and_then_def selection_defs selection_intersection_def buffer_ops_ok_def)
next
  case False
  have "count_list (bb_bits (selectors s)) True = bb_len (selectors t)"
    using assms(6) by (simp add: boolean_selection_row_count_def)
  from fallback_correct [OF assms(1,3-5) this False] False show ?thesis
    by (auto simp: selection_and_then_def selection_defs boolean_buffer_and_then_fallback_def)
qed

section \<open>Concrete bit buffers\<close>

text \<open>
  The parameters instantiated: bits packed eight to a byte, a builder that collects bits and packs
  them, and the bitwise operators through the bits.
\<close>

definition pack_bits :: "bool list \<Rightarrow> boolean_buffer" where
  "pack_bits bs = \<lparr>bb_values = map (\<lambda>k. horner_sum of_bool 2 (take 8 (drop (8 * k) bs))) [0..<(length bs + 7) div 8],
     bb_offset = 0, bb_len = length bs\<rparr>"

definition list_builder :: "bool list bool_builder" where
  "list_builder = \<lparr>bld_new = [], bld_append_n = (\<lambda>n v b. b @ replicate n v), bld_finish = pack_bits\<rparr>"

definition packed_ops :: buffer_ops where
  "packed_ops = \<lparr>bb_and = (\<lambda>a b. pack_bits (map2 (\<and>) (bb_bits a) (bb_bits b))),
     bb_or = (\<lambda>a b. pack_bits (map2 (\<or>) (bb_bits a) (bb_bits b))), bb_not = (\<lambda>a. pack_bits (map Not (bb_bits a))),
     bb_new_set = (\<lambda>n. pack_bits (replicate n True)), bb_new_unset = (\<lambda>n. pack_bits (replicate n False)),
     bb_slice = (\<lambda>a off len. if off + len \<le> bb_len a then Some (pack_bits (take len (drop off (bb_bits a)))) else None)\<rparr>"

lemma pack_bits_wf [simp]: "bb_wf (pack_bits bs)" "bb_offset (pack_bits bs) = 0" "bb_len (pack_bits bs) = length bs"
  by (simp_all add: pack_bits_def bb_wf_def)

lemma bb_bits_pack [simp]: "bb_bits (pack_bits bs) = bs"
proof (rule nth_equalityI)
  fix i assume "i < length (bb_bits (pack_bits bs))"
  then have i: "i < length bs" by simp
  then have "i div 8 < (length bs + 7) div 8" by (simp add: div_less_iff_less_mult)
  moreover have "8 * (i div 8) + i mod 8 = i" by simp
  then have "take 8 (drop (8 * (i div 8)) bs) ! (i mod 8) = bs ! i" using i by (simp add: nth_append)
  moreover have "i mod 8 < length (take 8 (drop (8 * (i div 8)) bs))" using i by (simp add: less_diff_conv)
  ultimately show "bb_bits (pack_bits bs) ! i = bs ! i"
    using i by (simp add: bb_bits_nth bit_at_def pack_bits_def bit_horner_sum_bit_word_iff)
qed simp

lemma list_builder_ok: "builder_ok list_builder id"
  by (simp add: builder_ok_def list_builder_def)

lemma packed_ops_ok: "buffer_ops_ok packed_ops"
  by (simp add: buffer_ops_ok_def packed_ops_def)

end
