(* ===== verification/BitPack.thy ===== *)
theory BitPack
  imports RowSelections
begin

unbundle bit_operations_syntax

text \<open>
  Bit-packed arrays, \<^verbatim>\<open>src/storage/src/liquid_array/raw/bit_pack_array.rs\<close>, and the bit width
  of \<^verbatim>\<open>src/storage/src/utils/mod.rs\<close>. An Arrow primitive array is a list of machine words of one
  width, the type variable, with an optional validity buffer. The packing of 1024 words to a
  given number of bits is the fastlanes library's, a parameter with its documented behaviour
  \<open>fastlanes_ok\<close>: the low bits of every word are kept. A panic is \<open>None\<close>. Lengths are natural
  numbers; where the serialized form narrows them to 32 bits the narrowing is written out.
\<close>

section \<open>Arrow arrays\<close>

record 'a prim_array =
  pa_values :: "'a list"
  pa_nulls :: "boolean_buffer option"

definition valid_at :: "boolean_buffer option \<Rightarrow> nat \<Rightarrow> bool" where
  "valid_at nulls i = (case nulls of None \<Rightarrow> True | Some n \<Rightarrow> bb_bits n ! i)"

definition nulls_fit :: "boolean_buffer option \<Rightarrow> nat \<Rightarrow> bool" where
  "nulls_fit nulls len \<longleftrightarrow> (\<forall>n. nulls = Some n \<longrightarrow> bb_wf n \<and> bb_len n = len)"

definition pa_wf :: "'a prim_array \<Rightarrow> bool" where
  "pa_wf a \<longleftrightarrow> nulls_fit (pa_nulls a) (length (pa_values a))"

text \<open>What Arrow compares: the values at valid positions, and which positions are null.\<close>

definition pa_items :: "'a prim_array \<Rightarrow> 'a option list" where
  "pa_items a = map (\<lambda>i. if valid_at (pa_nulls a) i then Some (pa_values a ! i) else None) [0..<length (pa_values a)]"

definition null_buffer :: "nat \<Rightarrow> boolean_buffer" where
  "null_buffer len = \<lparr>bb_values = replicate ((len + 7) div 8) 0, bb_offset = 0, bb_len = len\<rparr>"

definition null_count :: "boolean_buffer \<Rightarrow> nat" where
  "null_count n = count_list (bb_bits n) False"

definition prim_new_null :: "nat \<Rightarrow> 'w::len word prim_array" where
  "prim_new_null len = \<lparr>pa_values = replicate len 0, pa_nulls = Some (null_buffer len)\<rparr>"

section \<open>Bit widths\<close>

definition leading_zeros :: "u64 \<Rightarrow> nat" where
  "leading_zeros w = length (takeWhile (\<lambda>k. \<not> bit w (63 - k)) [0..<64])"

definition get_bit_width :: "u64 \<Rightarrow> nat" where
  "get_bit_width max_value = (if max_value = 0 then 1 else 64 - leading_zeros max_value)"

section \<open>Packing\<close>

record 'a fastlanes =
  fl_pack :: "nat \<Rightarrow> 'a list \<Rightarrow> 'a list"
  fl_unpack :: "nat \<Rightarrow> 'a list \<Rightarrow> 'a list"

definition packed_words :: "'w::len itself \<Rightarrow> nat \<Rightarrow> nat" where
  "packed_words _ bit_width = (1024 * bit_width + LENGTH('w) - 1) div LENGTH('w)"

definition fastlanes_ok :: "'w::len word fastlanes \<Rightarrow> bool" where
  "fastlanes_ok F \<longleftrightarrow> (\<forall>w xs. 0 < w \<longrightarrow> w \<le> LENGTH('w) \<longrightarrow> length xs = 1024 \<longrightarrow>
     length (fl_pack F w xs) = packed_words TYPE('w) w \<and> fl_unpack F w (fl_pack F w xs) = map (take_bit w) xs)"

record 'a bit_packed_array =
  bp_packed_values :: "'a list"
  bp_nulls :: "boolean_buffer option"
  bp_bit_width :: "nat option"
  bp_original_len :: nat

definition new_null_array :: "nat \<Rightarrow> 'w::len word bit_packed_array" where
  "new_null_array len = \<lparr>bp_packed_values = replicate len 0, bp_nulls = Some (null_buffer len),
     bp_bit_width = None, bp_original_len = len\<rparr>"

definition from_primitive :: "'w::len word fastlanes \<Rightarrow> 'w word prim_array \<Rightarrow> nat \<Rightarrow> 'w word bit_packed_array" where
  "from_primitive F array bit_width =
     (let values = pa_values array;
          original_len = length values;
          num_chunks = (original_len + 1023) div 1024;
          num_full_chunks = original_len div 1024;
          full = concat (map (\<lambda>i. fl_pack F bit_width (take 1024 (drop (i * 1024) values))) [0..<num_full_chunks]);
          last_chunk_size = original_len mod 1024;
          last_chunk = drop (original_len - last_chunk_size) values @ replicate (1024 - last_chunk_size) 0
      in \<lparr>bp_packed_values = full @ (if num_chunks \<noteq> num_full_chunks then fl_pack F bit_width last_chunk else []),
          bp_nulls = pa_nulls array, bp_bit_width = Some bit_width, bp_original_len = original_len\<rparr>)"

definition to_primitive :: "'w::len word fastlanes \<Rightarrow> 'w word bit_packed_array \<Rightarrow> 'w word prim_array option" where
  "to_primitive F bp =
     (case bp_bit_width bp of
        None \<Rightarrow> Some (prim_new_null (bp_original_len bp))
      | Some bit_width \<Rightarrow>
          (let packed = bp_packed_values bp;
               num_chunks = (bp_original_len bp + 1023) div 1024;
               elements_per_chunk = packed_words TYPE('w) bit_width
           in if num_chunks * elements_per_chunk \<le> length packed then
                (let output = concat (map (\<lambda>i. fl_unpack F bit_width
                      (take elements_per_chunk (drop (i * elements_per_chunk) packed))) [0..<num_chunks])
                 in Some \<lparr>pa_values = take (bp_original_len bp) output, pa_nulls = bp_nulls bp\<rparr>)
              else None))"

section \<open>Serialization\<close>

definition le_bytes :: "nat \<Rightarrow> 'w::len word \<Rightarrow> bytes" where
  "le_bytes n w = map (\<lambda>k. ucast (drop_bit (8 * k) w)) [0..<n]"

fun of_le_bytes :: "bytes \<Rightarrow> 'w::len word" where
  "of_le_bytes [] = 0"
| "of_le_bytes (b # bs) = ucast b OR push_bit 8 (of_le_bytes bs)"

definition size_of :: "'w::len itself \<Rightarrow> nat" where
  "size_of _ = LENGTH('w) div 8"

definition words_bytes :: "'w::len word list \<Rightarrow> bytes" where
  "words_bytes ws = concat (map (le_bytes (size_of TYPE('w))) ws)"

definition bytes_words :: "nat \<Rightarrow> bytes \<Rightarrow> 'w::len word list" where
  "bytes_words n bs = map (\<lambda>i. of_le_bytes (take (size_of TYPE('w)) (drop (i * size_of TYPE('w)) bs))) [0..<n]"

text \<open>\<open>nulls.inner().sliced()\<close>: the bits of a buffer with an offset, packed from bit zero.\<close>

definition null_bytes :: "boolean_buffer option \<Rightarrow> bytes" where
  "null_bytes nulls =
     (case nulls of
        None \<Rightarrow> []
      | Some n \<Rightarrow> if bb_offset n = 0 then bb_values n else bb_values (pack_bits (bb_bits n)))"

definition align8 :: "nat \<Rightarrow> nat" where
  "align8 n = (n + 7) div 8 * 8"

definition to_bytes :: "'w::len word bit_packed_array \<Rightarrow> bytes" where
  "to_bytes bp =
     (let has_nulls = (bp_nulls bp \<noteq> None);
          nulls_bytes = null_bytes (bp_nulls bp);
          values_bytes = words_bytes (bp_packed_values bp);
          values_offset_base = 16 + length nulls_bytes;
          values_offset = align8 values_offset_base
      in le_bytes 4 (of_nat (bp_original_len bp) :: u32)
         @ [case bp_bit_width bp of None \<Rightarrow> 0 | Some w \<Rightarrow> of_nat w] @ [if has_nulls then 1 else 0]
         @ le_bytes 4 (of_nat (length nulls_bytes) :: u32) @ le_bytes 4 (of_nat (length values_bytes) :: u32) @ [0, 0]
         @ nulls_bytes @ replicate (values_offset - values_offset_base) 0 @ values_bytes)"

definition u32_at :: "bytes \<Rightarrow> nat \<Rightarrow> nat" where
  "u32_at bs k = unat (of_le_bytes (take 4 (drop k bs)) :: u32)"

definition from_bytes :: "bytes \<Rightarrow> 'w::len word bit_packed_array option" where
  "from_bytes bs =
     (if length bs < 16 then None
      else
        (let original_len = u32_at bs 0;
             bit_width = unat (bs ! 4);
             has_nulls = (bs ! 5 \<noteq> 0);
             nulls_len = u32_at bs 6;
             values_len = u32_at bs 10;
             values_offset = align8 (16 + (if has_nulls then nulls_len else 0))
         in if values_len = 0 then Some (new_null_array original_len)
            else if has_nulls \<and> (nulls_len = 0 \<or> 16 + nulls_len > length bs) then None
            else if values_offset + values_len > length bs then None
            else
              (let nulls_buffer = take nulls_len (drop 16 bs) in
               if has_nulls \<and> original_len > 8 * nulls_len then None
               else
                 (let nulls = (if has_nulls then Some \<lparr>bb_values = nulls_buffer, bb_offset = 0, bb_len = original_len\<rparr> else None);
                      packed_len = values_len div size_of TYPE('w);
                      packed_values = bytes_words packed_len (take values_len (drop values_offset bs))
                  in if (\<exists>n. nulls = Some n \<and> null_count n = original_len) then Some (new_null_array original_len)
                     else if bit_width = 0 then None
                     else Some \<lparr>bp_packed_values = packed_values, bp_nulls = nulls, bp_bit_width = Some bit_width,
                            bp_original_len = original_len\<rparr>))))"

section \<open>Bit widths cover their values\<close>

lemma above_leading_zeros:
  assumes "64 - leading_zeros m \<le> n" and "n < 64"
  shows "\<not> bit m n"
proof -
  let ?xs = "[0..<64 :: nat]" and ?P = "\<lambda>k. \<not> bit m (63 - k)"
  have i: "63 - n < length (takeWhile ?P ?xs)" using assms by (simp add: leading_zeros_def)
  then have "takeWhile ?P ?xs ! (63 - n) = 63 - n"
    using takeWhile_nth [OF i] by simp
  moreover have "?P (takeWhile ?P ?xs ! (63 - n))" using nth_mem [OF i] set_takeWhileD by fastforce
  ultimately show ?thesis using assms(2) by simp
qed

lemma leading_zeros_less: "m \<noteq> 0 \<Longrightarrow> leading_zeros m < 64"
proof (rule ccontr)
  assume m: "m \<noteq> 0" and "\<not> leading_zeros m < 64"
  then have "\<not> bit m n" for n using above_leading_zeros [of m n] by (cases "n < 64") (auto dest: bit_imp_le_length)
  then have "m = 0" by (simp add: bit_eq_iff)
  with m show False by simp
qed

lemma top_bit: "m \<noteq> 0 \<Longrightarrow> bit m (63 - leading_zeros m)"
  using nth_length_takeWhile [of "\<lambda>k. \<not> bit m (63 - k)" "[0..<64]"] leading_zeros_less [of m]
  by (simp add: leading_zeros_def)

lemma get_bit_width_bounds: "0 < get_bit_width m" "get_bit_width m \<le> 64"
  using leading_zeros_less [of m] by (auto simp: get_bit_width_def)

lemma take_bit_le_word: "v \<le> m \<Longrightarrow> take_bit n m = m \<Longrightarrow> take_bit n v = (v :: 'w::len word)"
proof -
  assume "v \<le> m" "take_bit n m = m"
  then have "unat v \<le> unat m" "take_bit n (unat m) = unat m"
    by (simp_all add: word_le_nat_alt flip: unsigned_take_bit_eq)
  then have "take_bit n (unat v) = unat v"
    by (metis order_le_less_trans take_bit_nat_eq_self take_bit_nat_less_exp)
  then show ?thesis by (metis unsigned_take_bit_eq word_unat_eq_iff)
qed

lemma get_bit_width_covers: "v \<le> m \<Longrightarrow> take_bit (get_bit_width m) v = v"
proof (cases "m = 0")
  case False
  have "take_bit (get_bit_width m) m = m"
  proof (rule bit_word_eqI)
    fix n assume "n < LENGTH(64)"
    then show "bit (take_bit (get_bit_width m) m) n = bit m n"
      using above_leading_zeros [of m n] False
      by (cases "64 - leading_zeros m \<le> n") (auto simp: bit_take_bit_iff get_bit_width_def)
  qed
  moreover assume "v \<le> m"
  ultimately show ?thesis by (metis take_bit_le_word)
qed simp

section \<open>Packing and unpacking\<close>

lemma chunks_concat:
  assumes "\<And>i. i < n \<Longrightarrow> length (f i) = k"
  shows "i < n \<Longrightarrow> take k (drop (i * k) (concat (map f [0..<n]) @ zs)) = f i" and "length (concat (map f [0..<n])) = n * k"
proof -
  show len: "length (concat (map f [0..<n])) = n * k"
    using assms by (induction n) (simp_all add: add.commute)
  show "take k (drop (i * k) (concat (map f [0..<n]) @ zs)) = f i" if "i < n"
    using that assms
  proof (induction n arbitrary: zs)
    case (Suc n)
    have l: "length (concat (map f [0..<n])) = n * k"
      using Suc.prems(2) by (induction n) (simp_all add: add.commute)
    show ?case
    proof (cases "i = n")
      case True
      then show ?thesis using l Suc.prems(2) by simp
    next
      case False
      then show ?thesis using Suc.IH [of "f n @ zs"] Suc.prems by simp
    qed
  qed simp
qed

lemma concat_chunks: "concat (map (\<lambda>i. take k (drop (i * k) xs)) [0..<n]) = take (n * k) xs"
proof (induction n)
  case (Suc n)
  then show ?case using take_add [of "n * k" k xs] by (simp add: add.commute)
qed simp

text \<open>The chunks of a value list, the last one padded with zeros.\<close>

definition value_chunk :: "'w::len word list \<Rightarrow> nat \<Rightarrow> 'w word list" where
  "value_chunk vs i = take 1024 (drop (i * 1024) (vs @ replicate 1024 0))"

lemma div_ceil:
  assumes "0 < k"
  shows "(n + (k - 1)) div k = n div k + (if n mod k = 0 then 0 else (1 :: nat))"
proof -
  let ?r = "n mod k"
  have "n + (k - 1) = ?r + (k - 1) + n div k * k" by simp
  then have "(n + (k - 1)) div k = n div k + (?r + (k - 1)) div k"
    using assms by (metis add.commute div_mult_self1 less_not_refl2)
  moreover have "(?r + (k - 1)) div k = (if ?r = 0 then 0 else 1)"
  proof (cases "?r = 0")
    case False
    then have "?r + (k - 1) = (?r - 1) + 1 * k" using assms by simp
    then have "(?r + (k - 1)) div k = 1 + (?r - 1) div k" using assms by (metis add.commute div_mult_self1 less_not_refl2)
    moreover have "?r - 1 < k" using mod_less_divisor [OF assms, of n] by linarith
    ultimately show ?thesis using False by simp
  qed (use assms in simp)
  ultimately show ?thesis by simp
qed

lemma le_ceil_mult:
  assumes "0 < (k :: nat)"
  shows "n \<le> (n + k - 1) div k * k"
proof -
  have "n + k - 1 = n + (k - 1)" using assms by simp
  then have "(n + k - 1) div k * k = (n div k + (if n mod k = 0 then 0 else 1)) * k" using div_ceil [OF assms] by simp
  moreover have "n \<le> n div k * k + k" using mod_less_divisor [OF assms, of n] div_mult_mod_eq [of n k] by linarith
  ultimately show ?thesis using div_mult_mod_eq [of n k] assms by (cases "n mod k = 0") auto
qed

lemma from_primitive_packed:
  "bp_packed_values (from_primitive F a w)
    = concat (map (\<lambda>i. fl_pack F w (value_chunk (pa_values a) i)) [0..<(length (pa_values a) + 1023) div 1024])"
proof -
  let ?v = "pa_values a"
  let ?n = "length ?v" and ?f = "\<lambda>i. fl_pack F w (value_chunk (pa_values a) i)"
  have full: "take 1024 (drop (i * 1024) ?v) = value_chunk ?v i" if "i < ?n div 1024" for i
  proof -
    have "Suc i * 1024 \<le> ?n" using that by (metis Suc_leI less_eq_div_iff_mult_less_eq zero_less_numeral)
    then show ?thesis by (simp add: value_chunk_def)
  qed
  have m: "map (\<lambda>i. fl_pack F w (take 1024 (drop (i * 1024) ?v))) [0..<?n div 1024] = map ?f [0..<?n div 1024]"
    using full by simp
  show ?thesis
  proof (cases "?n mod 1024 = 0")
    case True
    then have "(?n + 1023) div 1024 = ?n div 1024" using div_ceil [of 1024 ?n] by simp
    then show ?thesis by (simp add: from_primitive_def Let_def m)
  next
    case False
    then have c: "(?n + 1023) div 1024 = Suc (?n div 1024)" using div_ceil [of 1024 ?n] by simp
    have d: "?n - ?n mod 1024 = ?n div 1024 * 1024" by (simp add: minus_mod_eq_div_mult)
    have "drop (?n div 1024 * 1024) ?v @ replicate (1024 - ?n mod 1024) 0 = value_chunk ?v (?n div 1024)"
    proof -
      have "length (drop (?n div 1024 * 1024) ?v) = ?n mod 1024" by (simp add: minus_div_mult_eq_mod)
      moreover have "?n div 1024 * 1024 - ?n = 0" by simp
      moreover have "?n mod 1024 < 1024" by simp
      ultimately show ?thesis by (simp add: value_chunk_def)
    qed
    with c d show ?thesis by (simp add: from_primitive_def Let_def m)
  qed
qed

lemma to_primitive_from_primitive:
  fixes F :: "'w::len word fastlanes"
  assumes "fastlanes_ok F" and "0 < w" and "w \<le> LENGTH('w)"
  shows "to_primitive F (from_primitive F a w) = Some \<lparr>pa_values = map (take_bit w) (pa_values a), pa_nulls = pa_nulls a\<rparr>"
proof -
  let ?v = "pa_values a" and ?k = "packed_words TYPE('w) w"
  let ?n = "length (pa_values a)"
  let ?c = "(length (pa_values a) + 1023) div 1024" and ?f = "\<lambda>i. fl_pack F w (value_chunk (pa_values a) i)"
  have cl: "length (value_chunk ?v i) = 1024" if "i < ?c" for i
  proof -
    have "Suc i \<le> ?c" using that by simp
    then have "i * 1024 \<le> ?n" unfolding less_eq_div_iff_mult_less_eq [OF zero_less_numeral] by simp
    then show ?thesis by (simp add: value_chunk_def)
  qed
  have p: "length (?f i) = ?k" "fl_unpack F w (?f i) = map (take_bit w) (value_chunk ?v i)" if "i < ?c" for i
    using assms cl [OF that] by (simp_all add: fastlanes_ok_def)
  note pk = from_primitive_packed [of F a w]
  have len: "length (bp_packed_values (from_primitive F a w)) = ?c * ?k"
    unfolding pk by (rule chunks_concat(2)) (rule p(1))
  have "fl_unpack F w (take ?k (drop (i * ?k) (bp_packed_values (from_primitive F a w)))) = map (take_bit w) (value_chunk ?v i)"
    if "i < ?c" for i
    using chunks_concat(1) [of ?c ?f ?k i "[]"] p that by (simp add: pk)
  then have "map (\<lambda>i. fl_unpack F w (take ?k (drop (i * ?k) (bp_packed_values (from_primitive F a w))))) [0..<?c]
      = map (\<lambda>i. map (take_bit w) (value_chunk ?v i)) [0..<?c]"
    by simp
  also have "concat \<dots> = map (take_bit w) (take (?c * 1024) (?v @ replicate 1024 0))"
    unfolding concat_chunks [symmetric] value_chunk_def by (simp add: map_concat o_def)
  finally have "take ?n (concat (map (\<lambda>i. fl_unpack F w (take ?k (drop (i * ?k) (bp_packed_values (from_primitive F a w))))) [0..<?c]))
      = map (take_bit w) ?v"
    by (simp add: take_map)
  moreover have "bp_bit_width (from_primitive F a w) = Some w" "bp_original_len (from_primitive F a w) = ?n"
    "bp_nulls (from_primitive F a w) = pa_nulls a"
    by (simp_all add: from_primitive_def Let_def)
  ultimately show ?thesis using len by (simp add: to_primitive_def Let_def)
qed

section \<open>Bytes and words\<close>

lemma length_le_bytes [simp]: "length (le_bytes n w) = n"
  by (simp add: le_bytes_def)

lemma bit_of_le_bytes:
  "bit (of_le_bytes bs :: 'w::len word) n \<longleftrightarrow> n < LENGTH('w) \<and> n div 8 < length bs \<and> bit (bs ! (n div 8)) (n mod 8)"
proof (induction bs arbitrary: n)
  case (Cons b bs)
  show ?case
  proof (cases "n < 8")
    case True
    then show ?thesis by (auto simp: bit_or_iff bit_push_bit_iff bit_ucast_iff dest: bit_imp_le_length)
  next
    case False
    then obtain m where m: "n = m + 8" by (metis add.commute le_Suc_ex not_less)
    have "\<not> bit b (m + 8)" using bit_imp_le_length [of b "m + 8"] by auto
    moreover have "(m + 8) div 8 = Suc (m div 8)" by simp
    ultimately show ?thesis using Cons.IH [of m] by (auto simp: m bit_or_iff bit_push_bit_iff bit_ucast_iff simp del: div_add_self2)
  qed
qed simp

lemma of_le_bytes_le_bytes:
  fixes w :: "'w::len word"
  assumes "LENGTH('w) = 8 * k"
  shows "of_le_bytes (le_bytes k w) = w"
proof (rule bit_word_eqI)
  fix n assume n: "n < LENGTH('w)"
  then have "n div 8 < k" using assms by (simp add: less_mult_imp_div_less mult.commute)
  moreover have "8 * (n div 8) + n mod 8 = n" by simp
  ultimately show "bit (of_le_bytes (le_bytes k w) :: 'w word) n = bit w n"
    using n unfolding bit_of_le_bytes by (simp add: le_bytes_def bit_ucast_iff bit_drop_bit_eq)
qed

lemma length_words_bytes [simp]: "length (words_bytes (ws :: 'w::len word list)) = length ws * size_of TYPE('w)"
  by (induction ws) (simp_all add: words_bytes_def)

lemma bytes_words_of_words:
  fixes ws :: "'w::len word list"
  assumes "8 dvd LENGTH('w)"
  shows "bytes_words (length ws) (words_bytes ws) = ws"
proof -
  let ?k = "size_of TYPE('w)"
  have L: "LENGTH('w) = 8 * ?k" using assms by (simp add: size_of_def)
  have w: "words_bytes ws = concat (map (\<lambda>i. le_bytes ?k (ws ! i)) [0..<length ws])"
    unfolding words_bytes_def by (rule arg_cong [where f = concat], rule nth_equalityI) simp_all
  have "take ?k (drop (i * ?k) (words_bytes ws)) = le_bytes ?k (ws ! i)" if "i < length ws" for i
    using chunks_concat(1) [of "length ws" "\<lambda>i. le_bytes ?k (ws ! i)" ?k i "[]"] that by (simp add: w)
  then show ?thesis
    by (intro nth_equalityI) (simp_all add: bytes_words_def of_le_bytes_le_bytes [OF L])
qed

lemma align8_ge: "n \<le> align8 n"
  using div_ceil [of 8 n] div_mult_mod_eq [of n 8] by (simp add: align8_def split: if_splits)

section \<open>The serialized form reads back\<close>

definition bp_ok :: "'w::len word bit_packed_array \<Rightarrow> bool" where
  "bp_ok bp \<longleftrightarrow> nulls_fit (bp_nulls bp) (bp_original_len bp) \<and> (bp_original_len bp = 0 \<longleftrightarrow> bp_packed_values bp = [])
     \<and> (case bp_bit_width bp of
          None \<Rightarrow> \<exists>n. bp_nulls bp = Some n \<and> null_count n = bp_original_len bp
        | Some w \<Rightarrow> 0 < w \<and> w < 256)"

definition fits_u32 :: "'w::len word bit_packed_array \<Rightarrow> bool" where
  "fits_u32 bp \<longleftrightarrow> bp_original_len bp < 2 ^ 32 \<and> length (null_bytes (bp_nulls bp)) < 2 ^ 32
     \<and> length (words_bytes (bp_packed_values bp)) < 2 ^ 32"

lemma u32_at_le_bytes:
  assumes "n < 2 ^ 32" and "length as = k"
  shows "u32_at (as @ le_bytes 4 (of_nat n :: u32) @ bs) k = n"
proof -
  have "of_le_bytes (le_bytes 4 (of_nat n :: u32)) = (of_nat n :: u32)"
    by (rule of_le_bytes_le_bytes) simp
  with assms show ?thesis by (simp add: u32_at_def unat_of_nat)
qed

lemma to_bytes_fields:
  fixes bp :: "'w::len word bit_packed_array"
  assumes "fits_u32 bp"
  defines "nb \<equiv> null_bytes (bp_nulls bp)" and "vb \<equiv> words_bytes (bp_packed_values bp)"
  shows "u32_at (to_bytes bp) 0 = bp_original_len bp" and "u32_at (to_bytes bp) 6 = length nb"
    and "u32_at (to_bytes bp) 10 = length vb"
    and "to_bytes bp ! 4 = (case bp_bit_width bp of None \<Rightarrow> 0 | Some w \<Rightarrow> of_nat w)"
    and "to_bytes bp ! 5 = (if bp_nulls bp \<noteq> None then 1 else 0)"
    and "length (to_bytes bp) = align8 (16 + length nb) + length vb"
    and "take (length nb) (drop 16 (to_bytes bp)) = nb"
    and "take (length vb) (drop (align8 (16 + length nb)) (to_bytes bp)) = vb"
proof -
  define lb where "lb = le_bytes 4 (of_nat (bp_original_len bp) :: u32)"
  define w :: u8 where "w = (case bp_bit_width bp of None \<Rightarrow> 0 | Some w \<Rightarrow> of_nat w)"
  define h :: u8 where "h = (if bp_nulls bp \<noteq> None then 1 else 0)"
  define nl where "nl = le_bytes 4 (of_nat (length nb) :: u32)"
  define vl where "vl = le_bytes 4 (of_nat (length vb) :: u32)"
  define pad where "pad = replicate (align8 (16 + length nb) - (16 + length nb)) (0 :: u8)"
  have b: "to_bytes bp = lb @ w # h # nl @ vl @ 0 # 0 # nb @ pad @ vb"
    by (simp add: to_bytes_def Let_def nb_def vb_def lb_def w_def h_def nl_def vl_def pad_def)
  have l [simp]: "length lb = 4" "length nl = 4" "length vl = 4" "length pad = align8 (16 + length nb) - (16 + length nb)"
    by (simp_all add: lb_def nl_def vl_def pad_def)
  have f: "bp_original_len bp < 2 ^ 32" "length nb < 2 ^ 32" "length vb < 2 ^ 32"
    using assms(1) by (simp_all add: fits_u32_def nb_def vb_def)
  show "u32_at (to_bytes bp) 0 = bp_original_len bp"
    using u32_at_le_bytes [OF f(1), of "[]" 0] by (simp add: b lb_def)
  show "u32_at (to_bytes bp) 6 = length nb"
    using u32_at_le_bytes [OF f(2), of "lb @ [w, h]" 6] by (simp add: b nl_def)
  show "u32_at (to_bytes bp) 10 = length vb"
    using u32_at_le_bytes [OF f(3), of "lb @ [w, h] @ nl" 10] by (simp add: b vl_def)
  show "to_bytes bp ! 4 = (case bp_bit_width bp of None \<Rightarrow> 0 | Some w \<Rightarrow> of_nat w)"
    by (simp add: b nth_append flip: w_def)
  show "to_bytes bp ! 5 = (if bp_nulls bp \<noteq> None then 1 else 0)" unfolding h_def [symmetric] by (simp add: b nth_append)
  show "length (to_bytes bp) = align8 (16 + length nb) + length vb"
    using align8_ge [of "16 + length nb"] by (simp add: b)
  show "take (length nb) (drop 16 (to_bytes bp)) = nb" by (simp add: b)
  have "lb @ w # h # nl @ vl @ 0 # 0 # nb @ pad @ vb = (lb @ w # h # nl @ vl @ 0 # 0 # nb @ pad) @ vb" by simp
  moreover have "length (lb @ w # h # nl @ vl @ 0 # 0 # nb @ pad) = align8 (16 + length nb)"
    using align8_ge [of "16 + length nb"] by simp
  ultimately show "take (length vb) (drop (align8 (16 + length nb)) (to_bytes bp)) = vb"
    unfolding b by (metis append_eq_conv_conj take_all order_refl)
qed

lemma null_buffer_facts [simp]:
  "bb_wf (null_buffer n)" "bb_len (null_buffer n) = n" "bb_bits (null_buffer n) = replicate n False"
proof -
  show "bb_wf (null_buffer n)" "bb_len (null_buffer n) = n" by (simp_all add: null_buffer_def bb_wf_def)
  show "bb_bits (null_buffer n) = replicate n False"
  proof (rule nth_equalityI)
    fix i assume "i < length (bb_bits (null_buffer n))"
    then have i: "i < n" by (simp add: null_buffer_def)
    then have "i div 8 < (n + 7) div 8" by (simp add: div_less_iff_less_mult)
    with i show "bb_bits (null_buffer n) ! i = replicate n False ! i"
      by (simp add: bb_bits_def null_buffer_def bit_at_def)
  qed (simp add: null_buffer_def)
qed

lemma null_count_all: "null_count n = bb_len n \<longleftrightarrow> bb_bits n = replicate (bb_len n) False"
proof -
  have "count_list bs False = length bs \<longleftrightarrow> bs = replicate (length bs) False" for bs
  proof (induction bs)
    case (Cons b bs)
    then show ?case using count_le_length [of bs False] by (cases b) auto
  qed simp
  from this [of "bb_bits n"] show ?thesis by (simp add: null_count_def)
qed

lemma null_bytes_bits:
  assumes "bb_wf n"
  shows "bb_wf \<lparr>bb_values = null_bytes (Some n), bb_offset = 0, bb_len = bb_len n\<rparr>"
    and "bb_bits \<lparr>bb_values = null_bytes (Some n), bb_offset = 0, bb_len = bb_len n\<rparr> = bb_bits n"
proof -
  have "\<lparr>bb_values = null_bytes (Some n), bb_offset = 0, bb_len = bb_len n\<rparr> = (if bb_offset n = 0 then n else pack_bits (bb_bits n))"
    by (simp add: null_bytes_def pack_bits_def)
  then show "bb_wf \<lparr>bb_values = null_bytes (Some n), bb_offset = 0, bb_len = bb_len n\<rparr>"
    "bb_bits \<lparr>bb_values = null_bytes (Some n), bb_offset = 0, bb_len = bb_len n\<rparr> = bb_bits n"
    using assms by simp_all
qed

lemma new_null_items: "pa_items (prim_new_null n :: 'w::len word prim_array) = replicate n None"
  by (auto simp: pa_items_def valid_at_def prim_new_null_def intro!: nth_equalityI)

lemma new_null_ok: "bp_ok (new_null_array n)"
  using null_count_all [of "null_buffer n"] by (simp add: bp_ok_def new_null_array_def nulls_fit_def)

lemma null_count_reread:
  "bb_wf n \<Longrightarrow> bb_len n = k \<Longrightarrow> null_count \<lparr>bb_values = null_bytes (Some n), bb_offset = 0, bb_len = k\<rparr> = null_count n"
  using null_bytes_bits(2) by (auto simp: null_count_def)

definition all_null :: "'a bit_packed_array \<Rightarrow> bool" where
  "all_null bp \<longleftrightarrow> (\<exists>n. bp_nulls bp = Some n \<and> null_count n = bp_original_len bp)"

definition reread_nulls :: "boolean_buffer option \<Rightarrow> boolean_buffer option" where
  "reread_nulls nulls = map_option (\<lambda>n. \<lparr>bb_values = null_bytes (Some n), bb_offset = 0, bb_len = bb_len n\<rparr>) nulls"

lemma valid_at_reread: "nulls_fit nulls len \<Longrightarrow> valid_at (reread_nulls nulls) i = valid_at nulls i"
  by (auto simp: valid_at_def reread_nulls_def nulls_fit_def null_bytes_bits(2) split: option.splits)

lemma from_bytes_value:
  fixes bp :: "'w::len word bit_packed_array"
  assumes "bp_ok bp" and "fits_u32 bp" and "8 dvd LENGTH('w)"
  shows "from_bytes (to_bytes bp) = Some (if bp_original_len bp = 0 \<or> all_null bp
    then new_null_array (bp_original_len bp) else bp\<lparr>bp_nulls := reread_nulls (bp_nulls bp)\<rparr>)"
proof -
  let ?nb = "null_bytes (bp_nulls bp)" and ?n = "bp_original_len bp" and ?k = "size_of TYPE('w)"
  have k1: "LENGTH('w) = 8 * ?k" using assms(3) by (simp add: size_of_def)
  then have k2: "0 < ?k" using len_gt_0 [where 'a = 'w] by linarith
  note flds [simp] = to_bytes_fields [OF assms(2)]
  have len: "\<not> length (to_bytes bp) < 16" using align8_ge [of "16 + length ?nb"] by simp
  have nb: "?nb = [] \<longleftrightarrow> bp_nulls bp = None" if "?n \<noteq> 0"
  proof -
    have "8 * length (null_bytes (Some n)) \<ge> ?n" if "bp_nulls bp = Some n" for n
      using assms(1) that null_bytes_bits(1) [of n] by (simp add: bp_ok_def nulls_fit_def bb_wf_def)
    with that show ?thesis by (cases "bp_nulls bp") (auto simp: null_bytes_def [of None])
  qed
  have v0: "length (bp_packed_values bp) * ?k = 0 \<longleftrightarrow> ?n = 0" using assms(1) k2 by (simp add: bp_ok_def)
  show ?thesis
  proof (cases "?n = 0")
    case True
    then show ?thesis using len v0 by (simp add: from_bytes_def Let_def del: length_greater_0_conv)
  next
    case False
    have fit: "?n \<le> 8 * length ?nb" if "bp_nulls bp = Some n" for n
      using assms(1) that null_bytes_bits(1) [of n] by (simp add: bp_ok_def nulls_fit_def bb_wf_def)
    have rr: "(if bp_nulls bp \<noteq> None then Some \<lparr>bb_values = ?nb, bb_offset = 0, bb_len = ?n\<rparr> else None) = reread_nulls (bp_nulls bp)"
      using assms(1) by (auto simp: reread_nulls_def bp_ok_def nulls_fit_def)
    have cnt: "(\<exists>n. reread_nulls (bp_nulls bp) = Some n \<and> null_count n = ?n) \<longleftrightarrow> all_null bp"
      using assms(1) null_count_reread by (auto simp: reread_nulls_def all_null_def bp_ok_def nulls_fit_def)
    have w: "bp_bit_width bp = Some (unat (to_bytes bp ! 4))" "unat (to_bytes bp ! 4) \<noteq> 0" if "\<not> all_null bp"
      using assms(1) that by (auto simp: bp_ok_def all_null_def unat_of_nat split: option.splits)
    have pv: "bytes_words (length (bp_packed_values bp)) (words_bytes (bp_packed_values bp)) = bp_packed_values bp"
      by (rule bytes_words_of_words [OF assms(3)])
    have pl: "length (bp_packed_values bp) * ?k div ?k = length (bp_packed_values bp)" using k2 by simp
    have al: "16 + length ?nb \<le> align8 (16 + length ?nb)" by (rule align8_ge)
    show ?thesis
    proof (cases "bp_nulls bp")
      case None
      then show ?thesis
        using len False v0 rr cnt w pv pl nb flds(7,8) by (cases "all_null bp") (simp_all add: from_bytes_def Let_def)
    next
      case (Some n)
      then show ?thesis
        using len False v0 rr cnt w pv pl nb al fit flds(7,8) by (cases "all_null bp") (auto simp: from_bytes_def Let_def)
    qed
  qed
qed

lemma from_bytes_items:
  fixes F :: "'w::len word fastlanes"
  assumes "bp_ok bp" and "fits_u32 bp" and "8 dvd LENGTH('w)"
    and "to_primitive F bp = Some a" and "length (pa_values a) = bp_original_len bp"
  shows "\<exists>bp' a'. from_bytes (to_bytes bp) = Some bp' \<and> bp_ok bp' \<and> bp_original_len bp' = bp_original_len bp
    \<and> to_primitive F bp' = Some a' \<and> length (pa_values a') = bp_original_len bp \<and> pa_items a' = pa_items a"
proof (cases "bp_original_len bp = 0 \<or> all_null bp")
  case True
  have "\<not> valid_at (pa_nulls a) i" if "i < bp_original_len bp" for i
  proof -
    from True that obtain n where n: "bp_nulls bp = Some n" "null_count n = bp_original_len bp" by (auto simp: all_null_def)
    with assms(1) have "bb_bits n = replicate (bp_original_len bp) False"
      using null_count_all [of n] by (simp add: bp_ok_def nulls_fit_def)
    with n(1) assms(4) that show ?thesis
      by (auto simp: to_primitive_def Let_def valid_at_def prim_new_null_def split: option.splits if_splits)
  qed
  then have "pa_items a = replicate (bp_original_len bp) None"
    using assms(5) by (auto simp: pa_items_def intro!: nth_equalityI)
  moreover have "to_primitive F (new_null_array (bp_original_len bp)) = Some (prim_new_null (bp_original_len bp))"
    "bp_original_len (new_null_array (bp_original_len bp) :: 'w word bit_packed_array) = bp_original_len bp"
    by (simp_all add: to_primitive_def new_null_array_def)
  moreover have "length (pa_values (prim_new_null (bp_original_len bp) :: 'w word prim_array)) = bp_original_len bp"
    by (simp add: prim_new_null_def)
  ultimately show ?thesis using from_bytes_value [OF assms(1-3)] True new_null_items new_null_ok by auto
next
  case False
  let ?bp = "bp\<lparr>bp_nulls := reread_nulls (bp_nulls bp)\<rparr>" and ?a = "a\<lparr>pa_nulls := reread_nulls (bp_nulls bp)\<rparr>"
  obtain w where w: "bp_bit_width bp = Some w" using False assms(1) by (auto simp: bp_ok_def all_null_def split: option.splits)
  then have "pa_nulls a = bp_nulls bp" "to_primitive F ?bp = Some ?a"
    using assms(4) by (auto simp: to_primitive_def Let_def split: if_splits)
  moreover have "pa_items ?a = pa_items a" if "pa_nulls a = bp_nulls bp"
    using assms(1) that valid_at_reread by (auto simp: pa_items_def bp_ok_def)
  moreover have "bp_ok ?bp" using assms(1) w null_bytes_bits(1) by (auto simp: bp_ok_def nulls_fit_def reread_nulls_def)
  ultimately show ?thesis using from_bytes_value [OF assms(1-3)] assms(5) False by simp
qed

section \<open>A packing in full\<close>

text \<open>An instance of the parameter: the low bits of the values, one after the other.\<close>

definition bits_of :: "nat \<Rightarrow> 'w::len word list \<Rightarrow> bool list" where
  "bits_of w xs = concat (map (\<lambda>i. map (bit (xs ! i)) [0..<w]) [0..<length xs])"

definition words_of :: "nat \<Rightarrow> nat \<Rightarrow> bool list \<Rightarrow> 'w::len word list" where
  "words_of n w bs = map (\<lambda>i. horner_sum of_bool 2 (take w (drop (i * w) bs))) [0..<n]"

definition serial_lanes :: "'w::len word fastlanes" where
  "serial_lanes = \<lparr>fl_pack = (\<lambda>w xs. words_of (packed_words TYPE('w) w) LENGTH('w) (bits_of w xs)),
     fl_unpack = (\<lambda>w ps. words_of 1024 w (bits_of LENGTH('w) ps))\<rparr>"

lemma length_bits_of [simp]: "length (bits_of w xs) = length xs * w"
  unfolding bits_of_def by (rule chunks_concat(2)) simp

lemma bits_of_words_of:
  assumes "length bs \<le> n * LENGTH('w)"
  shows "take (length bs) (bits_of LENGTH('w) (words_of n LENGTH('w) bs :: 'w::len word list)) = bs"
proof (rule nth_equalityI)
  let ?L = "LENGTH('w)" and ?ws = "words_of n LENGTH('w) bs :: 'w word list"
  show l: "length (take (length bs) (bits_of ?L ?ws)) = length bs" using assms by (simp add: words_of_def)
  fix i assume "i < length (take (length bs) (bits_of ?L ?ws))"
  then have i: "i < length bs" using l by simp
  have d: "i div ?L < n" using i assms by (simp add: div_less_iff_less_mult)
  have m: "i mod ?L < ?L" by simp
  have e: "i div ?L * ?L + i mod ?L = i" by simp
  then have b: "i div ?L * ?L \<le> length bs" using i by linarith
  have "i div ?L * ?L \<le> n * ?L" using d by simp
  then have "bits_of ?L ?ws ! i = take ?L (drop (i div ?L * ?L) (bits_of ?L ?ws)) ! (i mod ?L)"
    by (simp add: words_of_def)
  also have "take ?L (drop (i div ?L * ?L) (bits_of ?L ?ws)) = map (bit (?ws ! (i div ?L))) [0..<?L]"
    using chunks_concat(1) [of n "\<lambda>i. map (bit (?ws ! i)) [0..<?L]" ?L "i div ?L" "[]"] d
    by (simp add: bits_of_def words_of_def)
  also have "\<dots> ! (i mod ?L) = bs ! i"
    using d m i e b by (simp add: words_of_def bit_horner_sum_bit_word_iff less_diff_conv)
  finally show "take (length bs) (bits_of ?L ?ws) ! i = bs ! i" using i by simp
qed

lemma words_of_bits_of:
  fixes xs :: "'w::len word list"
  assumes "w \<le> LENGTH('w)" and "take (length xs * w) ys = bits_of w xs"
  shows "words_of (length xs) w ys = map (take_bit w) xs"
proof (rule nth_equalityI)
  fix i assume "i < length (words_of (length xs) w ys :: 'w word list)"
  then have i: "i < length xs" by (simp add: words_of_def)
  have "take w (drop (i * w) ys) = take w (drop (i * w) (take (length xs * w) ys))"
  proof -
    have "i * w + w \<le> length xs * w" using i by (metis Suc_leI add.commute mult_Suc mult_le_mono1)
    then show ?thesis by (simp add: drop_take min_def)
  qed
  also have "\<dots> = map (bit (xs ! i)) [0..<w]"
    using chunks_concat(1) [of "length xs" "\<lambda>i. map (bit (xs ! i)) [0..<w]" w i "[]"] i by (simp add: assms(2) bits_of_def)
  finally have "words_of (length xs) w ys ! i = (horner_sum of_bool 2 (map (bit (xs ! i)) [0..<w]) :: 'w word)"
    using i by (simp add: words_of_def)
  also have "\<dots> = take_bit w (xs ! i)" by (simp add: horner_sum_bit_eq_take_bit)
  finally show "words_of (length xs) w ys ! i = map (take_bit w) xs ! i" using i by simp
qed (simp add: words_of_def)

lemma serial_lanes_ok: "fastlanes_ok (serial_lanes :: 'w::len word fastlanes)"
  unfolding fastlanes_ok_def
proof (intro allI impI conjI)
  fix w and xs :: "'w word list" assume w: "0 < w" "w \<le> LENGTH('w)" "length xs = 1024"
  show "length (fl_pack serial_lanes w xs) = packed_words TYPE('w) w" by (simp add: serial_lanes_def words_of_def)
  have "1024 * w \<le> packed_words TYPE('w) w * LENGTH('w)"
    unfolding packed_words_def by (rule le_ceil_mult) simp
  then have "take (length xs * w) (bits_of LENGTH('w) (fl_pack serial_lanes w xs)) = bits_of w xs"
    using bits_of_words_of [of "bits_of w xs" "packed_words TYPE('w) w"] w(3) by (simp add: serial_lanes_def)
  from words_of_bits_of [OF w(2) this] w(3) show "fl_unpack serial_lanes w (fl_pack serial_lanes w xs) = map (take_bit w) xs"
    by (simp add: serial_lanes_def)
qed

end
