(* ===== verification/PrimitiveArray.thy ===== *)
theory PrimitiveArray
  imports BitPack
begin

unbundle bit_operations_syntax

text \<open>
  Liquid arrays of integers, dates and timestamps,
  \<^verbatim>\<open>src/storage/src/liquid_array/primitive_array.rs\<close>, and the header of the serialized form,
  \<^verbatim>\<open>src/storage/src/liquid_array/ipc.rs\<close>. The native values are words of the type's width; whether
  they are read as signed is a property of the type, \<open>is_unsigned\<close>. Arrow's kernels for the least
  and greatest value and for filtering are a parameter with their documented behaviour.
\<close>

section \<open>Physical types\<close>

datatype physical_type =
    P_Int8 | P_Int16 | P_Int32 | P_Int64 | P_UInt8 | P_UInt16 | P_UInt32 | P_UInt64
  | P_Float32 | P_Float64 | P_Date32 | P_Date64
  | P_TimestampSecond | P_TimestampMillisecond | P_TimestampMicrosecond | P_TimestampNanosecond

fun get_physical_type_id :: "physical_type \<Rightarrow> u16" where
  "get_physical_type_id P_Int8 = 0"
| "get_physical_type_id P_Int16 = 1"
| "get_physical_type_id P_Int32 = 2"
| "get_physical_type_id P_Int64 = 3"
| "get_physical_type_id P_UInt8 = 4"
| "get_physical_type_id P_UInt16 = 5"
| "get_physical_type_id P_UInt32 = 6"
| "get_physical_type_id P_UInt64 = 7"
| "get_physical_type_id P_Float32 = 8"
| "get_physical_type_id P_Float64 = 9"
| "get_physical_type_id P_Date32 = 10"
| "get_physical_type_id P_Date64 = 11"
| "get_physical_type_id P_TimestampSecond = 12"
| "get_physical_type_id P_TimestampMillisecond = 13"
| "get_physical_type_id P_TimestampMicrosecond = 14"
| "get_physical_type_id P_TimestampNanosecond = 15"

text \<open>\<open>PrimitiveKind::IS_UNSIGNED\<close>, and the width of \<open>UnSignedType\<close>.\<close>

definition is_unsigned :: "physical_type \<Rightarrow> bool" where
  "is_unsigned p \<longleftrightarrow> p \<in> {P_UInt8, P_UInt16, P_UInt32, P_UInt64}"

definition native_bits :: "physical_type \<Rightarrow> nat" where
  "native_bits p =
     (if p \<in> {P_Int8, P_UInt8} then 8 else if p \<in> {P_Int16, P_UInt16} then 16
      else if p \<in> {P_Int32, P_UInt32, P_Date32, P_Float32} then 32 else 64)"

definition native_type :: "physical_type \<Rightarrow> 'w::len itself \<Rightarrow> bool" where
  "native_type p _ \<longleftrightarrow> p \<notin> {P_Float32, P_Float64} \<and> LENGTH('w) = native_bits p"

definition native_val :: "physical_type \<Rightarrow> 'w::len word \<Rightarrow> int" where
  "native_val p v = (if is_unsigned p then uint v else sint v)"

section \<open>The header\<close>

record ipc_header =
  h_magic :: bytes
  h_version :: u16
  h_logical_type_id :: u16
  h_physical_type_id :: u16

definition MAGIC :: u32 where "MAGIC = 0x4C514441"

definition VERSION :: u16 where "VERSION = 1"

definition LIQUID_INTEGER :: u16 where "LIQUID_INTEGER = 1"

definition ipc_header_new :: "u16 \<Rightarrow> u16 \<Rightarrow> ipc_header" where
  "ipc_header_new logical_type_id physical_type_id =
     \<lparr>h_magic = le_bytes 4 MAGIC, h_version = VERSION, h_logical_type_id = logical_type_id,
      h_physical_type_id = physical_type_id\<rparr>"

definition ipc_header_to_bytes :: "ipc_header \<Rightarrow> bytes" where
  "ipc_header_to_bytes h = h_magic h @ le_bytes 2 (h_version h) @ le_bytes 2 (h_logical_type_id h)
     @ le_bytes 2 (h_physical_type_id h) @ replicate 6 0"

definition ipc_header_from_bytes :: "bytes \<Rightarrow> ipc_header option" where
  "ipc_header_from_bytes bs =
     (if length bs < 16 then None
      else
        (let magic = take 4 bs;
             version = of_le_bytes (take 2 (drop 4 bs));
             logical_type_id = of_le_bytes (take 2 (drop 6 bs));
             physical_type_id = of_le_bytes (take 2 (drop 8 bs))
         in if magic \<noteq> le_bytes 4 MAGIC then None
            else if version \<noteq> VERSION then None
            else Some \<lparr>h_magic = magic, h_version = version, h_logical_type_id = logical_type_id,
                   h_physical_type_id = physical_type_id\<rparr>))"

section \<open>Liquid primitive arrays\<close>

datatype integer_squeeze_policy = Clamp | Quantize

record 'a arrow_kernels =
  ak_min :: "physical_type \<Rightarrow> 'a prim_array \<Rightarrow> 'a option"
  ak_max :: "physical_type \<Rightarrow> 'a prim_array \<Rightarrow> 'a option"
  ak_filter :: "'a prim_array \<Rightarrow> bool list \<Rightarrow> 'a prim_array"

record 'a liquid_primitive_array =
  lp_bit_packed :: "'a bit_packed_array"
  lp_reference_value :: 'a
  lp_squeeze_policy :: integer_squeeze_policy

definition from_arrow_array ::
  "'w::len word arrow_kernels \<Rightarrow> 'w word fastlanes \<Rightarrow> physical_type \<Rightarrow> 'w word prim_array \<Rightarrow> 'w word liquid_primitive_array option" where
  "from_arrow_array K F p arrow_array =
     (case ak_min K p arrow_array of
        None \<Rightarrow> Some \<lparr>lp_bit_packed = new_null_array (length (pa_values arrow_array)), lp_reference_value = 0,
            lp_squeeze_policy = Quantize\<rparr>
      | Some min_v \<Rightarrow>
          (case ak_max K p arrow_array of
             None \<Rightarrow> None
           | Some max_v \<Rightarrow>
               (let sub = max_v - min_v;
                    bit_width = get_bit_width (ucast sub);
                    values = (if min_v \<noteq> 0 then map (\<lambda>v. v - min_v) (pa_values arrow_array) else pa_values arrow_array);
                    unsigned_array = \<lparr>pa_values = values, pa_nulls = pa_nulls arrow_array\<rparr>
                in Some \<lparr>lp_bit_packed = from_primitive F unsigned_array bit_width, lp_reference_value = min_v,
                     lp_squeeze_policy = Quantize\<rparr>)))"

definition to_arrow_array ::
  "'w::len word fastlanes \<Rightarrow> 'w word liquid_primitive_array \<Rightarrow> 'w word prim_array option" where
  "to_arrow_array F la =
     (case to_primitive F (lp_bit_packed la) of
        None \<Rightarrow> None
      | Some unsigned_array \<Rightarrow>
          (let reference_v = lp_reference_value la;
               values = (if reference_v \<noteq> 0 then map (\<lambda>v. v + reference_v) (pa_values unsigned_array)
                         else pa_values unsigned_array)
           in Some \<lparr>pa_values = values, pa_nulls = bp_nulls (lp_bit_packed la)\<rparr>))"

definition primitive_filter ::
  "'w::len word arrow_kernels \<Rightarrow> 'w word fastlanes \<Rightarrow> 'w word liquid_primitive_array \<Rightarrow> bool list \<Rightarrow> 'w word prim_array option" where
  "primitive_filter K F la selection = map_option (\<lambda>a. ak_filter K a selection) (to_arrow_array F la)"

definition bit_pack_starting_loc :: "'w::len itself \<Rightarrow> nat" where
  "bit_pack_starting_loc t = align8 (16 + size_of t)"

definition to_bytes_inner :: "physical_type \<Rightarrow> 'w::len word liquid_primitive_array \<Rightarrow> bytes" where
  "to_bytes_inner p la =
     (let header = ipc_header_new LIQUID_INTEGER (get_physical_type_id p);
          ref_value_bytes = le_bytes (size_of TYPE('w)) (lp_reference_value la);
          prefix = ipc_header_to_bytes header @ ref_value_bytes
      in prefix @ replicate (bit_pack_starting_loc TYPE('w) - length prefix) 0 @ to_bytes (lp_bit_packed la))"

definition primitive_from_bytes :: "physical_type \<Rightarrow> bytes \<Rightarrow> 'w::len word liquid_primitive_array option" where
  "primitive_from_bytes p bs =
     (case ipc_header_from_bytes bs of
        None \<Rightarrow> None
      | Some header \<Rightarrow>
          if h_physical_type_id header \<noteq> get_physical_type_id p then None
          else if h_logical_type_id header \<noteq> LIQUID_INTEGER then None
          else if length bs < bit_pack_starting_loc TYPE('w) then None
          else
            (let reference_value = of_le_bytes (take (size_of TYPE('w)) (drop 16 bs)) in
             map_option (\<lambda>bp. \<lparr>lp_bit_packed = bp, lp_reference_value = reference_value, lp_squeeze_policy = Quantize\<rparr>)
               (from_bytes (drop (bit_pack_starting_loc TYPE('w)) bs))))"

section \<open>Delta encoding\<close>

record 'a liquid_delta_array =
  ld_bit_packed :: "'a bit_packed_array"
  ld_reference_value :: 'a

text \<open>\<open>delta.as_()\<close> to \<open>i64\<close>, the zig-zag code, and its narrowing to the unsigned type.\<close>

definition native_as_i64 :: "physical_type \<Rightarrow> 'w::len word \<Rightarrow> u64" where
  "native_as_i64 p v = (if is_unsigned p then ucast v else scast v)"

definition zigzag_encode :: "u64 \<Rightarrow> u64" where
  "zigzag_encode d = push_bit 1 d XOR signed_drop_bit 63 d"

definition zigzag_decode :: "u64 \<Rightarrow> u64" where
  "zigzag_decode z = drop_bit 1 z XOR - (z AND 1)"

definition delta_code :: "physical_type \<Rightarrow> 'w::len word \<Rightarrow> 'w word \<Rightarrow> 'w word" where
  "delta_code p prev cur = ucast (zigzag_encode (native_as_i64 p (cur - prev)))"

text \<open>\<open>T::Native::from_i64\<close>: \<open>None\<close> where the value does not fit into the native type.\<close>

definition native_from_i64 :: "physical_type \<Rightarrow> u64 \<Rightarrow> 'w::len word option" where
  "native_from_i64 p d = (let v = ucast d in if native_val p v = sint d then Some v else None)"

fun delta_loop_nulls ::
  "physical_type \<Rightarrow> boolean_buffer \<Rightarrow> nat \<Rightarrow> 'w::len word option \<Rightarrow> 'w word list \<Rightarrow> 'w word list" where
  "delta_loop_nulls p nb i prev [] = []"
| "delta_loop_nulls p nb i prev (cur # vals) =
     (if \<not> bb_bits nb ! i then 0 # delta_loop_nulls p nb (Suc i) prev vals
      else case prev of
        None \<Rightarrow> 0 # delta_loop_nulls p nb (Suc i) (Some cur) vals
      | Some pv \<Rightarrow> delta_code p pv cur # delta_loop_nulls p nb (Suc i) (Some cur) vals)"

fun first_valid :: "boolean_buffer \<Rightarrow> nat \<Rightarrow> 'w::len word list \<Rightarrow> 'w word" where
  "first_valid nb i [] = 0"
| "first_valid nb i (cur # vals) = (if bb_bits nb ! i then cur else first_valid nb (Suc i) vals)"

fun delta_loop :: "physical_type \<Rightarrow> 'w::len word \<Rightarrow> 'w word list \<Rightarrow> 'w word list" where
  "delta_loop p prev [] = []"
| "delta_loop p prev (cur # vals) = delta_code p prev cur # delta_loop p cur vals"

definition delta_from_arrow_array ::
  "'w::len word fastlanes \<Rightarrow> physical_type \<Rightarrow> 'w word prim_array \<Rightarrow> 'w word liquid_delta_array option" where
  "delta_from_arrow_array F p arrow_array =
     (let vals = pa_values arrow_array;
          len = length vals;
          nulls = pa_nulls arrow_array;
          build = (\<lambda>out anchor. Some \<lparr>ld_bit_packed = from_primitive F \<lparr>pa_values = out, pa_nulls = nulls\<rparr>
              (get_bit_width (ucast (fold max out 0))), ld_reference_value = anchor\<rparr>)
      in if (case nulls of None \<Rightarrow> 0 | Some n \<Rightarrow> null_count n) = len
           then Some \<lparr>ld_bit_packed = new_null_array len, ld_reference_value = 0\<rparr>
         else case nulls of
           Some nb \<Rightarrow> build (delta_loop_nulls p nb 0 None vals) (first_valid nb 0 vals)
         | None \<Rightarrow> (case vals of [] \<Rightarrow> None | anchor # rest \<Rightarrow> build (0 # delta_loop p anchor rest) anchor))"

fun undelta_loop_nulls ::
  "physical_type \<Rightarrow> boolean_buffer \<Rightarrow> nat \<Rightarrow> bool \<Rightarrow> 'w::len word \<Rightarrow> 'w word list \<Rightarrow> 'w word list option" where
  "undelta_loop_nulls p nb i have_prev current_value [] = Some []"
| "undelta_loop_nulls p nb i have_prev current_value (d # ds) =
     (if \<not> bb_bits nb ! i then map_option ((#) 0) (undelta_loop_nulls p nb (Suc i) have_prev current_value ds)
      else if \<not> have_prev then map_option ((#) current_value) (undelta_loop_nulls p nb (Suc i) True current_value ds)
      else case native_from_i64 p (zigzag_decode (ucast d)) of
        None \<Rightarrow> None
      | Some delta \<Rightarrow> map_option ((#) (current_value + delta)) (undelta_loop_nulls p nb (Suc i) True (current_value + delta) ds))"

fun undelta_loop :: "physical_type \<Rightarrow> 'w::len word \<Rightarrow> 'w word list \<Rightarrow> 'w word list option" where
  "undelta_loop p current_value [] = Some []"
| "undelta_loop p current_value (d # ds) =
     (case native_from_i64 p (zigzag_decode (ucast d)) of
        None \<Rightarrow> None
      | Some delta \<Rightarrow> map_option ((#) (current_value + delta)) (undelta_loop p (current_value + delta) ds))"

definition delta_to_arrow_array ::
  "'w::len word fastlanes \<Rightarrow> physical_type \<Rightarrow> 'w word liquid_delta_array \<Rightarrow> 'w word prim_array option" where
  "delta_to_arrow_array F p la =
     (case to_primitive F (ld_bit_packed la) of
        None \<Rightarrow> None
      | Some unsigned_array \<Rightarrow>
          (let delta_values = pa_values unsigned_array;
               nulls = bp_nulls (ld_bit_packed la);
               current_value = ld_reference_value la
           in map_option (\<lambda>reconstructed. \<lparr>pa_values = reconstructed, pa_nulls = nulls\<rparr>)
                (case nulls of
                   Some nb \<Rightarrow> undelta_loop_nulls p nb 0 False current_value delta_values
                 | None \<Rightarrow> map_option ((#) current_value) (undelta_loop p current_value (drop 1 delta_values)))))"

definition delta_to_bytes_inner :: "physical_type \<Rightarrow> 'w::len word liquid_delta_array \<Rightarrow> bytes" where
  "delta_to_bytes_inner p la =
     (let header = ipc_header_new 1 (get_physical_type_id p);
          ref_value_bytes = le_bytes (size_of TYPE('w)) (ld_reference_value la);
          prefix = ipc_header_to_bytes header @ ref_value_bytes
      in prefix @ replicate (bit_pack_starting_loc TYPE('w) - length prefix) 0 @ to_bytes (ld_bit_packed la))"

section \<open>Kernels\<close>

definition valid_values :: "'a prim_array \<Rightarrow> 'a set" where
  "valid_values a = {v. Some v \<in> set (pa_items a)}"

definition filter_items :: "'a list \<Rightarrow> bool list \<Rightarrow> 'a list" where
  "filter_items xs sel = map fst (filter snd (zip xs sel))"

definition kernels_ok :: "'w::len word arrow_kernels \<Rightarrow> bool" where
  "kernels_ok K \<longleftrightarrow> (\<forall>p a. pa_wf a \<longrightarrow>
     (ak_min K p a = None \<longrightarrow> valid_values a = {})
   \<and> (\<forall>m. ak_min K p a = Some m \<longrightarrow> m \<in> valid_values a \<and> (\<forall>v \<in> valid_values a. native_val p m \<le> native_val p v))
   \<and> (ak_max K p a = None \<longrightarrow> valid_values a = {})
   \<and> (\<forall>m. ak_max K p a = Some m \<longrightarrow> m \<in> valid_values a \<and> (\<forall>v \<in> valid_values a. native_val p v \<le> native_val p m))
   \<and> (\<forall>sel. length sel = length (pa_values a) \<longrightarrow>
        pa_wf (ak_filter K a sel) \<and> pa_items (ak_filter K a sel) = filter_items (pa_items a) sel))"

section \<open>Differences of native values\<close>

lemma native_val_mod: "native_val p v mod 2 ^ LENGTH('w) = uint (v :: 'w::len word)"
proof -
  have "uint v mod 2 ^ LENGTH('w) = uint v" by (simp add: uint_lt2p)
  moreover have "sint v mod 2 ^ LENGTH('w) = uint v"
    unfolding take_bit_eq_mod [symmetric] by transfer (simp add: take_bit_signed_take_bit)
  ultimately show ?thesis by (simp add: native_val_def)
qed

lemma native_val_range: "\<bar>native_val p v - native_val p w\<bar> < 2 ^ LENGTH('w)" for v w :: "'w::len word"
proof -
  have s: "- (2 ^ (LENGTH('w) - 1)) \<le> sint x" "sint x < 2 ^ (LENGTH('w) - 1)" for x :: "'w word"
    using sint_ge [of x] sint_lt [of x] by auto
  have "(2 :: int) ^ LENGTH('w) = 2 * 2 ^ (LENGTH('w) - 1)"
    by (metis Suc_diff_1 len_gt_0 power_Suc)
  then show ?thesis
    using s [of v] s [of w] uint_lt2p [of v] uint_lt2p [of w] uint_ge_0 [of v] uint_ge_0 [of w]
    unfolding native_val_def abs_less_iff by (cases "is_unsigned p"; simp only: if_True if_False; intro conjI; linarith)
qed

lemma uint_native_diff:
  assumes "native_val p m \<le> native_val p v"
  shows "uint (v - m) = native_val p v - native_val p (m :: 'w::len word)"
proof -
  have "uint (v - m) = (uint v - uint m) mod 2 ^ LENGTH('w)" by (simp add: uint_word_ariths)
  also have "\<dots> = (native_val p v - native_val p m) mod 2 ^ LENGTH('w)"
    by (metis mod_diff_eq native_val_mod)
  also have "\<dots> = native_val p v - native_val p m"
    using assms native_val_range [of p v m] by (intro mod_pos_pos_trivial) auto
  finally show ?thesis .
qed

lemma native_diff_le:
  assumes "native_val p m \<le> native_val p v" and "native_val p v \<le> native_val p M"
  shows "v - m \<le> M - (m :: 'w::len word)"
  using assms uint_native_diff [of p m v] uint_native_diff [of p m M] by (simp add: word_le_def)

section \<open>Encoding and decoding\<close>

lemma valid_values_nth: "i < length (pa_values a) \<Longrightarrow> valid_at (pa_nulls a) i \<Longrightarrow> pa_values a ! i \<in> valid_values a"
  unfolding valid_values_def by (auto simp: pa_items_def)

lemma pa_items_eqI:
  assumes "length (pa_values a) = length (pa_values b)" and "\<And>i. i < length (pa_values b) \<Longrightarrow> valid_at (pa_nulls a) i = valid_at (pa_nulls b) i"
    and "\<And>i. i < length (pa_values b) \<Longrightarrow> valid_at (pa_nulls b) i \<Longrightarrow> pa_values a ! i = pa_values b ! i"
  shows "pa_items a = pa_items b"
  using assms by (auto simp: pa_items_def intro!: nth_equalityI)

lemma unat_u64: "LENGTH('w) \<le> 64 \<Longrightarrow> unat (ucast v :: u64) = unat (v :: 'w::len word)"
proof -
  assume l: "LENGTH('w) \<le> 64"
  have "unat v < 2 ^ LENGTH('w)" by (rule unsigned_less)
  also have "\<dots> \<le> 2 ^ 64" using l by (rule power_increasing) simp
  finally show ?thesis by (simp add: unsigned_ucast_eq take_bit_nat_eq_self)
qed

lemma width_covers_offset:
  fixes v :: "'w::len word"
  assumes "LENGTH('w) \<le> 64" and "v \<le> m"
  shows "take_bit (get_bit_width (ucast m)) v = v" and "get_bit_width (ucast m) \<le> LENGTH('w)"
proof -
  let ?w = "get_bit_width (ucast m)"
  have "(ucast v :: u64) \<le> ucast m" using assms by (simp add: word_le_nat_alt unat_u64)
  from get_bit_width_covers [OF this] have "unat (take_bit ?w (ucast v :: u64)) = unat v"
    using unat_u64 [OF assms(1), of v] by simp
  then have "take_bit ?w (unat v) = unat v"
    using unat_u64 [OF assms(1), of v] by (simp add: unsigned_take_bit_eq)
  then show "take_bit ?w v = v" by (metis unsigned_take_bit_eq word_unat_eq_iff)
  show "?w \<le> LENGTH('w)"
  proof (cases "ucast m = (0 :: u64)")
    case True
    then show ?thesis by (simp add: get_bit_width_def Suc_leI)
  next
    case False
    then have "63 - leading_zeros (ucast m) < LENGTH('w)"
      using top_bit [OF False] by (auto simp: bit_ucast_iff dest: bit_imp_le_length)
    with False show ?thesis by (simp add: get_bit_width_def)
  qed
qed

lemma native_type_bits:
  assumes "native_type p TYPE('w::len)"
  shows "LENGTH('w) \<le> 64" and "8 dvd LENGTH('w)"
  using assms by (auto simp: native_type_def native_bits_def split: if_splits)

lemma to_primitive_null [simp]: "to_primitive F (new_null_array n) = Some (prim_new_null n)"
  by (simp add: to_primitive_def new_null_array_def)

lemma no_valid_items: "valid_values a = {} \<Longrightarrow> pa_items a = replicate (length (pa_values a)) None"
  using valid_values_nth [of _ a] by (auto simp: pa_items_def intro!: nth_equalityI)

text \<open>The invariant of an encoded array: it decodes to the items of the Arrow array.\<close>

definition encodes ::
  "'w::len word fastlanes \<Rightarrow> 'w word liquid_primitive_array \<Rightarrow> 'w word prim_array \<Rightarrow> bool" where
  "encodes F la a \<longleftrightarrow> bp_ok (lp_bit_packed la) \<and> bp_original_len (lp_bit_packed la) = length (pa_values a)
     \<and> (\<exists>a'. to_arrow_array F la = Some a' \<and> pa_wf a' \<and> length (pa_values a') = length (pa_values a) \<and> pa_items a' = pa_items a)"

lemma from_primitive_ok:
  assumes "pa_wf a" and "fastlanes_ok F" and "0 < w" and "w \<le> LENGTH('w)" and "LENGTH('w) \<le> 64"
  shows "bp_ok (from_primitive F (a :: 'w::len word prim_array) w)"
proof -
  let ?n = "length (pa_values a)"
  have "length (fl_pack F w (value_chunk (pa_values a) i)) = packed_words TYPE('w) w" if "i < (?n + 1023) div 1024" for i
  proof -
    have "Suc i \<le> (?n + 1023) div 1024" using that by simp
    then have "i * 1024 \<le> ?n" unfolding less_eq_div_iff_mult_less_eq [OF zero_less_numeral] by simp
    then have "length (value_chunk (pa_values a) i) = 1024" by (simp add: value_chunk_def)
    with assms(2-4) show ?thesis by (simp add: fastlanes_ok_def)
  qed
  then have "length (bp_packed_values (from_primitive F a w)) = (?n + 1023) div 1024 * packed_words TYPE('w) w"
    unfolding from_primitive_packed by (rule chunks_concat(2))
  moreover have "0 < packed_words TYPE('w) w"
    using le_ceil_mult [of "LENGTH('w)" "1024 * w"] assms(3) by (auto simp: packed_words_def intro: gr0I)
  moreover have "(?n + 1023) div 1024 = 0 \<longleftrightarrow> ?n = 0" using div_ceil [of 1024 ?n] by (auto simp: div_eq_0_iff)
  ultimately have "length (bp_packed_values (from_primitive F a w)) = 0 \<longleftrightarrow> ?n = 0" by simp
  with assms show ?thesis
    by (simp add: bp_ok_def pa_wf_def) (simp add: from_primitive_def Let_def)
qed

lemma valid_at_to_primitive:
  assumes "bp_ok bp" and "to_primitive F bp = Some u" and "i < bp_original_len bp"
  shows "valid_at (pa_nulls u) i = valid_at (bp_nulls bp) i"
proof (cases "bp_bit_width bp")
  case None
  then obtain n where "bp_nulls bp = Some n" "null_count n = bp_original_len bp" using assms(1) by (auto simp: bp_ok_def)
  moreover from this have "bb_bits n = replicate (bp_original_len bp) False"
    using assms(1) null_count_all [of n] by (simp add: bp_ok_def nulls_fit_def)
  ultimately show ?thesis using assms(2,3) None by (auto simp: to_primitive_def prim_new_null_def valid_at_def)
next
  case (Some w)
  then show ?thesis using assms(2) by (auto simp: to_primitive_def Let_def split: if_splits)
qed

lemma to_arrow_items:
  assumes "bp_ok (lp_bit_packed la)" and "to_primitive F (lp_bit_packed la) = Some u"
    and "length (pa_values u) = bp_original_len (lp_bit_packed la)"
  shows "\<exists>a. to_arrow_array F la = Some a \<and> pa_wf a \<and> length (pa_values a) = bp_original_len (lp_bit_packed la)
    \<and> pa_items a = map (map_option (\<lambda>v. v + lp_reference_value la)) (pa_items u)"
proof -
  let ?a = "\<lparr>pa_values = map (\<lambda>v. v + lp_reference_value la) (pa_values u), pa_nulls = bp_nulls (lp_bit_packed la)\<rparr>"
  have "to_arrow_array F la = Some ?a" using assms(2) by (auto simp: to_arrow_array_def Let_def)
  moreover have "pa_items ?a = map (map_option (\<lambda>v. v + lp_reference_value la)) (pa_items u)"
    using valid_at_to_primitive [OF assms(1,2)] assms(3) by (auto simp: pa_items_def intro!: nth_equalityI)
  moreover have "pa_wf ?a" using assms(1,3) by (simp add: pa_wf_def bp_ok_def)
  ultimately show ?thesis using assms(3) by simp
qed

text \<open>What the encoder stores: the offsets from the least value, in just enough bits.\<close>

definition offsets ::
  "'w::len word fastlanes \<Rightarrow> physical_type \<Rightarrow> 'w word liquid_primitive_array \<Rightarrow> 'w word prim_array \<Rightarrow> bool" where
  "offsets F p la a \<longleftrightarrow> bp_ok (lp_bit_packed la) \<and> bp_original_len (lp_bit_packed la) = length (pa_values a)
     \<and> (\<exists>u. to_primitive F (lp_bit_packed la) = Some u \<and> length (pa_values u) = length (pa_values a)
          \<and> pa_items u = map (map_option (\<lambda>v. v - lp_reference_value la)) (pa_items a))
     \<and> (\<forall>v \<in> valid_values a. native_val p (lp_reference_value la) \<le> native_val p v)
     \<and> (\<forall>w. bp_bit_width (lp_bit_packed la) = Some w \<longrightarrow>
          0 < w \<and> w \<le> LENGTH('w) \<and> (\<exists>M \<in> valid_values a. w = get_bit_width (ucast (M - lp_reference_value la))))"

lemma from_arrow_offsets:
  fixes F :: "'w::len word fastlanes"
  assumes "fastlanes_ok F" and "kernels_ok K" and "native_type p TYPE('w)" and "pa_wf a"
  shows "\<exists>la. from_arrow_array K F p a = Some la \<and> offsets F p la a"
proof (cases "ak_min K p a")
  case None
  then have v: "valid_values a = {}" using assms(2,4) unfolding kernels_ok_def by blast
  let ?n = "length (pa_values a)"
  have "bp_bit_width (new_null_array ?n :: 'w word bit_packed_array) = None"
    "bp_original_len (new_null_array ?n :: 'w word bit_packed_array) = ?n" "length (pa_values (prim_new_null ?n :: 'w word prim_array)) = ?n"
    by (simp_all add: new_null_array_def prim_new_null_def)
  with v None no_valid_items [OF v] show ?thesis
    by (simp add: from_arrow_array_def offsets_def new_null_items new_null_ok)
next
  case (Some m)
  then have m: "m \<in> valid_values a" "\<forall>v \<in> valid_values a. native_val p m \<le> native_val p v"
    using assms(2,4) unfolding kernels_ok_def by blast+
  obtain M where M: "ak_max K p a = Some M" "M \<in> valid_values a" "\<forall>v \<in> valid_values a. native_val p v \<le> native_val p M"
    using assms(2,4) m(1) unfolding kernels_ok_def by (metis empty_iff option.exhaust)
  let ?w = "get_bit_width (ucast (M - m))" and ?u = "\<lparr>pa_values = map (\<lambda>v. v - m) (pa_values a), pa_nulls = pa_nulls a\<rparr>"
  note bits = native_type_bits [OF assms(3)]
  have w: "0 < ?w" "?w \<le> LENGTH('w)" using get_bit_width_bounds width_covers_offset(2) [OF bits(1) order_refl] by auto
  have u: "(if m \<noteq> 0 then map (\<lambda>v. v - m) (pa_values a) else pa_values a) = map (\<lambda>v. v - m) (pa_values a)" by simp
  let ?la = "\<lparr>lp_bit_packed = from_primitive F ?u ?w, lp_reference_value = m, lp_squeeze_policy = Quantize\<rparr>"
  let ?o = "\<lparr>pa_values = map (\<lambda>v. take_bit ?w (v - m)) (pa_values a), pa_nulls = pa_nulls a\<rparr>"
  have fa: "from_arrow_array K F p a = Some ?la" using Some M(1) by (simp add: from_arrow_array_def Let_def u)
  have "to_primitive F (from_primitive F ?u ?w) = Some ?o"
    using to_primitive_from_primitive [OF assms(1) w, of ?u] by simp
  moreover have "take_bit ?w (pa_values a ! i - m) = pa_values a ! i - m"
    if i: "i < length (pa_values a)" "valid_at (pa_nulls a) i" for i
  proof -
    have "pa_values a ! i \<in> valid_values a" by (rule valid_values_nth [OF i])
    then have "pa_values a ! i - m \<le> M - m" using m(2) M(3) by (intro native_diff_le) auto
    then show ?thesis by (rule width_covers_offset(1) [OF bits(1)])
  qed
  then have "pa_items ?o = map (map_option (\<lambda>v. v - m)) (pa_items a)"
    by (auto simp: pa_items_def intro!: nth_equalityI)
  moreover have "bp_original_len (from_primitive F ?u ?w) = length (pa_values a)" "bp_bit_width (from_primitive F ?u ?w) = Some ?w"
    by (simp_all add: from_primitive_def Let_def)
  moreover have "pa_wf ?u" using assms(4) by (simp add: pa_wf_def)
  ultimately show ?thesis using fa w m(2) M(2) from_primitive_ok [OF _ assms(1) w bits(1), of ?u]
    by (auto simp: offsets_def)
qed

lemma offsets_encodes:
  assumes "offsets F p la a"
  shows "encodes F la a"
proof -
  obtain u where u: "to_primitive F (lp_bit_packed la) = Some u" "length (pa_values u) = length (pa_values a)"
      "pa_items u = map (map_option (\<lambda>v. v - lp_reference_value la)) (pa_items a)"
      "bp_ok (lp_bit_packed la)" "bp_original_len (lp_bit_packed la) = length (pa_values a)"
    using assms by (auto simp: offsets_def)
  have "map_option (\<lambda>v. v + lp_reference_value la) (map_option (\<lambda>v. v - lp_reference_value la) x) = x" for x
    by (cases x) auto
  then have "map (map_option (\<lambda>v. v + lp_reference_value la)) (pa_items u) = pa_items a" by (simp add: u(3) o_def)
  with to_arrow_items [OF u(4,1)] u(2,4,5) show ?thesis by (auto simp: encodes_def)
qed

section \<open>The serialized form\<close>

lemma header_roundtrip:
  assumes "16 \<le> length (ipc_header_to_bytes (ipc_header_new l q) @ bs)"
  shows "ipc_header_from_bytes (ipc_header_to_bytes (ipc_header_new l q) @ bs) = Some (ipc_header_new l q)"
proof -
  have r: "of_le_bytes (le_bytes 2 (w :: u16)) = w" for w by (rule of_le_bytes_le_bytes) simp
  show ?thesis
    using assms by (simp add: ipc_header_from_bytes_def ipc_header_to_bytes_def ipc_header_new_def Let_def r)
qed

lemma header_length [simp]: "length (ipc_header_to_bytes (ipc_header_new l q)) = 16"
  by (simp add: ipc_header_to_bytes_def ipc_header_new_def)

lemma to_arrow_SomeD: "to_arrow_array F la = Some a \<Longrightarrow>
    \<exists>u. to_primitive F (lp_bit_packed la) = Some u \<and> length (pa_values u) = length (pa_values a)"
  by (auto simp: to_arrow_array_def Let_def split: option.splits)

lemma primitive_bytes_roundtrip:
  fixes la :: "'w::len word liquid_primitive_array"
  assumes "encodes F la a" and "native_type p TYPE('w)" and "fits_u32 (lp_bit_packed la)"
  shows "\<exists>la'. primitive_from_bytes p (to_bytes_inner p la) = Some la' \<and> encodes F la' a
    \<and> lp_reference_value la' = lp_reference_value la"
proof -
  let ?bp = "lp_bit_packed la" and ?ref = "lp_reference_value la" and ?k = "size_of TYPE('w)"
  note bits = native_type_bits [OF assms(2)]
  have k: "LENGTH('w) = 8 * ?k" using bits(2) by (simp add: size_of_def)
  obtain a1 where a1: "to_arrow_array F la = Some a1" "length (pa_values a1) = length (pa_values a)" "pa_items a1 = pa_items a"
    using assms(1) by (auto simp: encodes_def)
  obtain u where u: "to_primitive F ?bp = Some u" "length (pa_values u) = bp_original_len ?bp"
    using to_arrow_SomeD [OF a1(1)] a1(2) assms(1) by (auto simp: encodes_def)
  have bp: "bp_ok ?bp" "bp_original_len ?bp = length (pa_values a)" using assms(1) by (simp_all add: encodes_def)
  obtain bp' u' where b': "from_bytes (to_bytes ?bp) = Some bp'" "bp_ok bp'" "bp_original_len bp' = bp_original_len ?bp"
      "to_primitive F bp' = Some u'" "length (pa_values u') = bp_original_len ?bp" "pa_items u' = pa_items u"
    using from_bytes_items [OF bp(1) assms(3) bits(2) u] by blast
  let ?la = "\<lparr>lp_bit_packed = bp', lp_reference_value = ?ref, lp_squeeze_policy = Quantize\<rparr>"
  define h where "h = ipc_header_to_bytes (ipc_header_new LIQUID_INTEGER (get_physical_type_id p))"
  define pad where "pad = replicate (bit_pack_starting_loc TYPE('w) - (16 + ?k)) (0 :: u8)"
  have bs: "to_bytes_inner p la = h @ le_bytes ?k ?ref @ pad @ to_bytes ?bp"
    by (simp add: to_bytes_inner_def Let_def h_def pad_def)
  have st: "16 + ?k \<le> bit_pack_starting_loc TYPE('w)" by (simp add: bit_pack_starting_loc_def align8_ge)
  have "ipc_header_from_bytes (to_bytes_inner p la) = Some (ipc_header_new LIQUID_INTEGER (get_physical_type_id p))"
    unfolding bs h_def by (rule header_roundtrip) simp
  moreover have "take ?k (drop 16 (to_bytes_inner p la)) = le_bytes ?k ?ref" by (simp add: bs h_def)
  moreover have "drop (bit_pack_starting_loc TYPE('w)) (to_bytes_inner p la) = to_bytes ?bp"
    using st by (simp add: bs h_def pad_def)
  moreover have "\<not> length (to_bytes_inner p la) < bit_pack_starting_loc TYPE('w)" using st by (simp add: bs h_def pad_def)
  ultimately have "primitive_from_bytes p (to_bytes_inner p la) = Some ?la"
    using b'(1) by (simp add: primitive_from_bytes_def ipc_header_new_def Let_def of_le_bytes_le_bytes [OF k])
  moreover have "encodes F ?la a"
    using to_arrow_items [of ?la F u'] to_arrow_items [OF bp(1) u] a1 b' bp(2) by (auto simp: encodes_def)
  ultimately show ?thesis by simp
qed

lemma primitive_filter_items:
  assumes "kernels_ok K" and "encodes F la a" and "length sel = length (pa_values a)"
  shows "\<exists>b. primitive_filter K F la sel = Some b \<and> pa_items b = filter_items (pa_items a) sel"
proof -
  obtain a' where "to_arrow_array F la = Some a'" "pa_wf a'" "length (pa_values a') = length (pa_values a)" "pa_items a' = pa_items a"
    using assms(2) by (auto simp: encodes_def)
  with assms(1,3) show ?thesis by (auto simp: primitive_filter_def kernels_ok_def)
qed

section \<open>Delta encoding reads back for signed types\<close>

lemma bit_zigzag_encode: "n < 64 \<Longrightarrow> bit (zigzag_encode d) n = (if n = 0 then bit d 63 else bit d (n - 1) \<noteq> bit d 63)"
  unfolding zigzag_encode_def bit_xor_iff bit_push_bit_iff by (cases n) (auto simp: bit_signed_drop_bit_iff)

lemma bit_minus_low: "n < 64 \<Longrightarrow> bit (- (z AND 1) :: u64) n = bit z 0"
  by (cases "bit z 0") (simp_all add: and_one_eq bit_0 odd_iff_mod_2_eq_one)

lemma zigzag_inverse: "zigzag_decode (zigzag_encode d) = d"
proof (rule bit_word_eqI)
  fix n assume "n < LENGTH(64)"
  then have n: "n < 64" by simp
  show "bit (zigzag_decode (zigzag_encode d)) n = bit d n"
  proof (cases "n = 63")
    case True
    have "\<not> bit (zigzag_encode d) 64" using bit_imp_le_length [of "zigzag_encode d" 64] by auto
    then show ?thesis using bit_minus_low [of 63 "zigzag_encode d"] bit_zigzag_encode [of 0 d]
      by (simp add: zigzag_decode_def bit_xor_iff bit_drop_bit_eq True)
  next
    case False
    then show ?thesis using n bit_minus_low [of n "zigzag_encode d"] bit_zigzag_encode [of 0 d] bit_zigzag_encode [of "Suc n" d]
      by (auto simp: zigzag_decode_def bit_xor_iff bit_drop_bit_eq)
  qed
qed

lemma sint_i64:
  assumes "LENGTH('w) \<le> 64"
  shows "sint (scast v :: u64) = sint (v :: 'w::len word)"
proof -
  have "(2 :: int) ^ (LENGTH('w) - 1) \<le> 2 ^ 63" using assms by (intro power_increasing) auto
  then have "- (2 ^ 63) \<le> sint v" "sint v < 2 ^ 63" using sint_ge [of v] sint_lt [of v] by auto
  then have "signed_take_bit 63 (sint v) = sint v" by (rule signed_take_bit_int_eq_self)
  then show ?thesis by (simp add: signed_scast_eq)
qed

lemma undelta_all_null:
  "i + k \<le> n \<Longrightarrow> \<exists>vs. undelta_loop_nulls p (null_buffer n) i b c (replicate k (0 :: 'w::len word)) = Some vs \<and> length vs = k"
proof (induction k arbitrary: i)
  case (Suc k)
  then obtain vs where "undelta_loop_nulls p (null_buffer n) (Suc i) b c (replicate k (0 :: 'w word)) = Some vs" "length vs = k"
    by (metis add_Suc add_Suc_right)
  then show ?case using Suc.prems by simp
qed simp

lemma delta_code_decodes:
  fixes cur prev :: "'w::len word"
  assumes "\<not> is_unsigned p" and "LENGTH('w) \<le> 64"
  shows "native_from_i64 p (zigzag_decode (ucast (delta_code p prev cur))) = Some (cur - prev)"
proof -
  let ?d = "scast (cur - prev) :: u64"
  have "(ucast (ucast (zigzag_encode ?d) :: 'w word) :: u64) = zigzag_encode ?d"
  proof (rule bit_word_eqI)
    fix n assume "n < LENGTH(64)"
    then have n: "n < 64" by simp
    have "\<not> bit (zigzag_encode ?d) n" if "LENGTH('w) \<le> n"
    proof -
      have "0 < n" using that len_gt_0 [where 'a = 'w] by linarith
      moreover have "bit ?d m = bit (cur - prev) (LENGTH('w) - 1)" if "LENGTH('w) - 1 \<le> m" "m < 64" for m
        using that assms(2) by (auto simp: bit_signed_iff min_def not_less le_antisym)
      moreover have "LENGTH('w) - 1 \<le> n - 1" "LENGTH('w) - 1 \<le> 63" using that assms(2) by simp_all
      ultimately show ?thesis using bit_zigzag_encode [OF n] n by simp
    qed
    then show "bit (ucast (ucast (zigzag_encode ?d) :: 'w word) :: u64) n = bit (zigzag_encode ?d) n"
      using n by (cases "LENGTH('w) \<le> n") (auto simp: bit_ucast_iff)
  qed
  then have e: "zigzag_decode (ucast (delta_code p prev cur)) = ?d"
    using assms(1) by (simp add: delta_code_def native_as_i64_def zigzag_inverse)
  have "(ucast ?d :: 'w word) = cur - prev"
  proof (rule bit_word_eqI)
    fix n assume "n < LENGTH('w)"
    then have "n < LENGTH('w) - Suc 0 \<or> n = LENGTH('w) - Suc 0" by linarith
    then show "bit (ucast ?d :: 'w word) n = bit (cur - prev) n"
      using assms(2) by (auto simp: bit_ucast_iff bit_signed_iff min_def)
  qed
  moreover have "sint ?d = sint (cur - prev)" by (rule sint_i64 [OF assms(2)])
  ultimately show ?thesis using assms(1) unfolding e by (simp add: native_from_i64_def native_val_def Let_def)
qed

lemma undelta_delta:
  assumes "\<not> is_unsigned p" and "LENGTH('w) \<le> 64"
  shows "undelta_loop p prev (delta_loop p prev (vals :: 'w::len word list)) = Some vals"
  by (induction vals arbitrary: prev) (simp_all add: delta_code_decodes [OF assms])

lemma undelta_delta_nulls:
  assumes "\<not> is_unsigned p" and "LENGTH('w) \<le> 64"
  shows "\<exists>vs. undelta_loop_nulls p nb i (prev \<noteq> None) (case prev of None \<Rightarrow> first_valid nb i vals | Some pv \<Rightarrow> pv)
      (delta_loop_nulls p nb i prev (vals :: 'w::len word list)) = Some vs
    \<and> length vs = length vals \<and> (\<forall>k < length vals. bb_bits nb ! (i + k) \<longrightarrow> vs ! k = vals ! k)"
proof (induction vals arbitrary: i prev)
  case (Cons cur vals)
  let ?prev = "if bb_bits nb ! i then Some cur else prev"
  obtain vs where vs: "undelta_loop_nulls p nb (Suc i) (?prev \<noteq> None) (case ?prev of None \<Rightarrow> first_valid nb (Suc i) vals | Some pv \<Rightarrow> pv)
      (delta_loop_nulls p nb (Suc i) ?prev vals) = Some vs" "length vs = length vals"
      "\<forall>k < length vals. bb_bits nb ! (Suc i + k) \<longrightarrow> vs ! k = vals ! k"
    using Cons.IH by blast
  have "\<exists>w. undelta_loop_nulls p nb i (prev \<noteq> None) (case prev of None \<Rightarrow> first_valid nb i (cur # vals) | Some pv \<Rightarrow> pv)
      (delta_loop_nulls p nb i prev (cur # vals)) = Some (w # vs) \<and> (bb_bits nb ! i \<longrightarrow> w = cur)"
    using vs(1) by (cases "bb_bits nb ! i"; cases prev) (auto simp: delta_code_decodes [OF assms])
  then obtain w where "undelta_loop_nulls p nb i (prev \<noteq> None) (case prev of None \<Rightarrow> first_valid nb i (cur # vals) | Some pv \<Rightarrow> pv)
      (delta_loop_nulls p nb i prev (cur # vals)) = Some (w # vs)" "bb_bits nb ! i \<longrightarrow> w = cur" by blast
  moreover have "(w # vs) ! k = (cur # vals) ! k" if "k < length (cur # vals)" "bb_bits nb ! (i + k)" for k
    using that vs(3) calculation(2) by (cases k) auto
  ultimately show ?case using vs(2) by (intro exI [of _ "w # vs"]) simp
qed simp

lemma length_delta_loops [simp]:
  "length (delta_loop p prev vals) = length vals" "length (delta_loop_nulls p nb i prv vals) = length vals"
  by (induction vals arbitrary: prev i prv) (auto split: option.splits)

lemma fold_max_ge: "x \<in> set xs \<Longrightarrow> x \<le> fold max xs (0 :: 'w::len word)"
proof -
  have "y \<le> fold max xs y" "\<forall>x \<in> set xs. x \<le> fold max xs y" for xs and y :: "'w word"
  proof (induction xs arbitrary: y)
    case (Cons x xs)
    { case 1 show ?case using Cons.IH(1) [of "max x y"] by simp
    next case 2 show ?case using Cons.IH [of "max x y"] by simp }
  qed simp_all
  then show "x \<in> set xs \<Longrightarrow> x \<le> fold max xs 0" by blast
qed

lemma delta_pack_exact:
  fixes F :: "'w::len word fastlanes"
  assumes "fastlanes_ok F" and "LENGTH('w) \<le> 64"
  shows "to_primitive F (from_primitive F \<lparr>pa_values = out, pa_nulls = nulls\<rparr> (get_bit_width (ucast (fold max out 0))))
    = Some \<lparr>pa_values = out, pa_nulls = nulls\<rparr>"
proof -
  let ?m = "fold max out 0"
  have "get_bit_width (ucast ?m) \<le> LENGTH('w)" by (rule width_covers_offset(2) [OF assms(2) order_refl])
  moreover have "map (take_bit (get_bit_width (ucast ?m))) out = out"
    using width_covers_offset(1) [OF assms(2) fold_max_ge] by (simp add: map_idI)
  ultimately show ?thesis
    using to_primitive_from_primitive [OF assms(1) get_bit_width_bounds(1), of "ucast ?m" "\<lparr>pa_values = out, pa_nulls = nulls\<rparr>"] by simp
qed

lemma delta_roundtrip:
  fixes F :: "'w::len word fastlanes"
  assumes "fastlanes_ok F" and "native_type p TYPE('w)" and "\<not> is_unsigned p" and "pa_wf a"
  shows "\<exists>la a'. delta_from_arrow_array F p a = Some la \<and> delta_to_arrow_array F p la = Some a' \<and> pa_items a' = pa_items a"
proof -
  note l = native_type_bits(1) [OF assms(2)]
  note pack = delta_pack_exact [OF assms(1) l]
  let ?vals = "pa_values a"
  have nulls: "bp_nulls (from_primitive F \<lparr>pa_values = out, pa_nulls = ns\<rparr> w) = ns" for out ns w
    by (simp add: from_primitive_def Let_def)
  show ?thesis
  proof (cases "pa_nulls a")
    case None
    show ?thesis
    proof (cases ?vals)
      case Nil
      then show ?thesis using None
        by (simp add: delta_from_arrow_array_def delta_to_arrow_array_def new_null_array_def to_primitive_def prim_new_null_def
          Let_def pa_items_def)
    next
      case (Cons v vs)
      then show ?thesis using None pack undelta_delta [OF assms(3) l, of v vs]
        by (simp add: delta_from_arrow_array_def delta_to_arrow_array_def Let_def nulls del: fold.simps) (simp add: pa_items_def)
    qed
  next
    case (Some nb)
    have nb: "bb_len nb = length ?vals" using assms(4) Some by (simp add: pa_wf_def nulls_fit_def)
    show ?thesis
    proof (cases "null_count nb = length ?vals")
      case True
      then have "bb_bits nb = replicate (length ?vals) False" using null_count_all [of nb] nb by simp
      moreover obtain vs :: "'w word list" where "undelta_loop_nulls p (null_buffer (length ?vals)) 0 False 0 (replicate (length ?vals) 0) = Some vs" "length vs = length ?vals"
        using undelta_all_null [of 0 "length ?vals" "length ?vals" p False 0] by auto
      ultimately show ?thesis using Some True
        by (simp add: delta_from_arrow_array_def delta_to_arrow_array_def new_null_array_def to_primitive_def prim_new_null_def
          Let_def pa_items_def valid_at_def)
    next
      case False
      obtain vs where vs: "undelta_loop_nulls p nb 0 False (first_valid nb 0 ?vals) (delta_loop_nulls p nb 0 None ?vals) = Some vs"
          "length vs = length ?vals" "\<forall>k < length ?vals. bb_bits nb ! k \<longrightarrow> vs ! k = ?vals ! k"
        using undelta_delta_nulls [OF assms(3) l, of nb 0 None ?vals] by auto
      have "pa_items \<lparr>pa_values = vs, pa_nulls = Some nb\<rparr> = pa_items a"
        by (rule pa_items_eqI) (use vs Some in \<open>auto simp: valid_at_def\<close>)
      with vs(1) Some False pack show ?thesis
        by (simp add: delta_from_arrow_array_def delta_to_arrow_array_def Let_def nulls)
    qed
  qed
qed

text \<open>
  For unsigned types the difference is widened without its sign and the code is cut off, so a
  decrease reads back as another number, or panics where the code is 64 bits wide.
\<close>

lemma delta_unsigned_wrong:
  assumes "fastlanes_ok (F :: 8 word fastlanes)" and "fastlanes_ok (G :: 64 word fastlanes)"
  shows "(\<exists>la. delta_from_arrow_array F P_UInt8 \<lparr>pa_values = [10, 5], pa_nulls = None\<rparr> = Some la
      \<and> delta_to_arrow_array F P_UInt8 la = Some \<lparr>pa_values = [10, 133], pa_nulls = None\<rparr>)
    \<and> (\<exists>la. delta_from_arrow_array G P_UInt64 \<lparr>pa_values = [10, 5], pa_nulls = None\<rparr> = Some la
      \<and> delta_to_arrow_array G P_UInt64 la = None)"
proof -
  have nulls: "bp_nulls (from_primitive H \<lparr>pa_values = out, pa_nulls = ns\<rparr> w) = ns" for H :: "'x::len word fastlanes" and out ns w
    by (simp add: from_primitive_def Let_def)
  have "delta_code P_UInt8 10 (5 :: 8 word) = 246" "native_from_i64 P_UInt8 (zigzag_decode (ucast (246 :: 8 word))) = Some (123 :: 8 word)"
    "native_from_i64 P_UInt64 (zigzag_decode (ucast (delta_code P_UInt64 10 (5 :: 64 word)))) = (None :: 64 word option)"
    by code_simp+
  then show ?thesis
    using delta_pack_exact [OF assms(1), of "[0, 246]"] delta_pack_exact [OF assms(2), of "[0, delta_code P_UInt64 10 5]"]
    by (simp add: delta_from_arrow_array_def delta_to_arrow_array_def Let_def nulls)
qed

end
