(* ===== verification/PhysicalExpr.thy ===== *)
theory PhysicalExpr
  imports Prelude
begin

text \<open>
  The DataFusion expressions that the arrays inspect when they evaluate a predicate: columns,
  literals, calls of scalar functions, binary expressions, \<open>LIKE\<close>, and dynamic filters with the
  filter's current expression, or none where taking it fails. A scalar is an integer, date or
  timestamp with its value, a boolean, a string with its bytes (\<open>SV_Bytes\<close>), a binary, a
  dictionary-encoded scalar, or anything else. The operators are those of
  \<^verbatim>\<open>src/storage/src/liquid_array/mod.rs\<close>.
\<close>

datatype scalar_value =
    SV_Integer int
  | SV_Boolean bool
  | SV_Bytes bytes
  | SV_Binary bytes
  | SV_Dictionary scalar_value
  | SV_Other

datatype df_operator = DF_Eq | DF_NotEq | DF_Lt | DF_LtEq | DF_Gt | DF_GtEq | DF_LikeMatch | DF_NotLikeMatch
  | DF_ILikeMatch | DF_NotILikeMatch | DF_Other

datatype phys_expr =
    PE_Column
  | PE_Literal scalar_value
  | PE_ScalarFunction string "phys_expr list"
  | PE_Binary phys_expr df_operator phys_expr
  | PE_Like bool bool phys_expr phys_expr
  | PE_DynamicFilter "phys_expr option"
  | PE_Other

datatype operator = Op_Eq | Op_NotEq | Op_Lt | Op_LtEq | Op_Gt | Op_GtEq

fun from_datafusion :: "df_operator \<Rightarrow> operator option" where
  "from_datafusion DF_Eq = Some Op_Eq"
| "from_datafusion DF_NotEq = Some Op_NotEq"
| "from_datafusion DF_Lt = Some Op_Lt"
| "from_datafusion DF_LtEq = Some Op_LtEq"
| "from_datafusion DF_Gt = Some Op_Gt"
| "from_datafusion DF_GtEq = Some Op_GtEq"
| "from_datafusion _ = None"

fun unwrap_dynamic_filter :: "phys_expr \<Rightarrow> phys_expr option" where
  "unwrap_dynamic_filter (PE_DynamicFilter e) = e"
| "unwrap_dynamic_filter e = Some e"

text \<open>\<open>get_bytes_needle\<close> and \<open>get_string_needle\<close> of \<^verbatim>\<open>byte_array.rs\<close>.\<close>

fun get_bytes_needle :: "scalar_value \<Rightarrow> bytes option" where
  "get_bytes_needle (SV_Bytes v) = Some v"
| "get_bytes_needle (SV_Binary v) = Some v"
| "get_bytes_needle (SV_Dictionary v) = get_bytes_needle v"
| "get_bytes_needle _ = None"

fun get_string_needle :: "scalar_value \<Rightarrow> bytes option" where
  "get_string_needle (SV_Bytes v) = Some v"
| "get_string_needle (SV_Dictionary v) = get_string_needle v"
| "get_string_needle _ = None"

end
