(* ===== verification/HybridArray.thy ===== *)
theory HybridArray
  imports PrimitiveArray PhysicalExpr
begin

unbundle bit_operations_syntax

text \<open>
  Squeezed integer arrays, \<^verbatim>\<open>src/storage/src/liquid_array/hybrid_primitive_array.rs\<close> and the
  \<open>squeeze\<close> of \<^verbatim>\<open>primitive_array.rs\<close>. Squeezing halves the bit width: a clamped array keeps small
  offsets and replaces the others by a sentinel, a quantized array keeps the number of the bucket
  an offset falls into. Comparisons with a literal are answered from the squeezed data where that
  decides them, and from the full data on disk otherwise. An arithmetic overflow of \<open>i64\<close> or
  \<open>u64\<close>, or a failed \<open>expect\<close>, is \<open>EvalPanic\<close>.
\<close>

section \<open>Squeezing\<close>

record 'a clamped_array =
  cl_squeezed :: "'a bit_packed_array"
  cl_reference_value :: 'a

record 'a quantized_array =
  qz_quantized :: "'a bit_packed_array"
  qz_reference_value :: 'a
  qz_bucket_width :: nat

datatype 'a squeezed_integer =
    SqClamped "'a clamped_array"
  | SqQuantized "'a quantized_array"

definition sentinel_of :: "nat \<Rightarrow> 'w::len word" where
  "sentinel_of bw = ucast (push_bit bw 1 - 1 :: usize)"

definition bucket_index :: "nat \<Rightarrow> nat \<Rightarrow> 'w::len word \<Rightarrow> 'w word" where
  "bucket_index bucket_width bucket_count v =
     (let idx = unat v div bucket_width
      in of_nat (if idx \<ge> bucket_count then bucket_count - 1 else idx))"

definition bucket_width_of :: "nat \<Rightarrow> nat \<Rightarrow> nat" where
  "bucket_width_of bucket_count max_offset =
     (let range_size = min (max_offset + 1) (2 ^ 64 - 1)
      in max ((range_size + bucket_count - 1) div bucket_count) 1)"

text \<open>\<open>squeeze\<close> for the integer types; \<open>Some None\<close> where it declines.\<close>

definition squeeze_integer ::
  "'w::len word fastlanes \<Rightarrow> physical_type \<Rightarrow> 'w word liquid_primitive_array \<Rightarrow> ('w word squeezed_integer \<times> bytes) option option" where
  "squeeze_integer F p la =
     (let full_bytes = to_bytes_inner p la in
      case bp_bit_width (lp_bit_packed la) of
        None \<Rightarrow> Some None
      | Some orig_bw \<Rightarrow>
          if orig_bw < 8 then Some None
          else
            (let new_bw = max (orig_bw div 2) 1 in
             case to_primitive F (lp_bit_packed la) of
               None \<Rightarrow> None
             | Some unsigned_array \<Rightarrow>
                 (let values = pa_values unsigned_array; nulls = pa_nulls unsigned_array in
                  case lp_squeeze_policy la of
                    Clamp \<Rightarrow>
                      (let sentinel = sentinel_of new_bw;
                           squeezed_values = map (\<lambda>v. if v \<ge> sentinel then sentinel else v) values
                       in Some (Some (SqClamped
                            \<lparr>cl_squeezed = from_primitive F \<lparr>pa_values = squeezed_values, pa_nulls = nulls\<rparr> new_bw,
                             cl_reference_value = lp_reference_value la\<rparr>, full_bytes)))
                  | Quantize \<Rightarrow>
                      (let max_offset = fold max values 0;
                           bucket_count = 2 ^ new_bw;
                           bucket_width = bucket_width_of bucket_count (unat max_offset);
                           quantized_values = map (bucket_index bucket_width bucket_count) values
                       in Some (Some (SqQuantized
                            \<lparr>qz_quantized = from_primitive F \<lparr>pa_values = quantized_values, pa_nulls = nulls\<rparr> new_bw,
                             qz_reference_value = lp_reference_value la, qz_bucket_width = bucket_width\<rparr>, full_bytes))))))"

section \<open>Filtering\<close>

definition clamped_filter_inner ::
  "'w::len word arrow_kernels \<Rightarrow> 'w word fastlanes \<Rightarrow> 'w word clamped_array \<Rightarrow> bool list \<Rightarrow> 'w word clamped_array option" where
  "clamped_filter_inner K F c selection =
     (case to_primitive F (cl_squeezed c) of
        None \<Rightarrow> None
      | Some unsigned_array \<Rightarrow>
          (case bp_bit_width (cl_squeezed c) of
             None \<Rightarrow> None
           | Some bit_width \<Rightarrow>
               Some (c\<lparr>cl_squeezed := from_primitive F (ak_filter K unsigned_array selection) bit_width\<rparr>)))"

definition quantized_filter_inner ::
  "'w::len word arrow_kernels \<Rightarrow> 'w word fastlanes \<Rightarrow> 'w word quantized_array \<Rightarrow> bool list \<Rightarrow> 'w word quantized_array option" where
  "quantized_filter_inner K F q selection =
     (case to_primitive F (qz_quantized q) of
        None \<Rightarrow> None
      | Some q_prim \<Rightarrow>
          (case bp_bit_width (qz_quantized q) of
             None \<Rightarrow> None
           | Some bit_width \<Rightarrow>
               Some (q\<lparr>qz_quantized := from_primitive F (ak_filter K q_prim selection) bit_width\<rparr>)))"

text \<open>The full array where no valid value was clamped; \<open>Some None\<close> where one was.\<close>

definition to_arrow_known_only ::
  "'w::len word fastlanes \<Rightarrow> 'w word clamped_array \<Rightarrow> 'w word prim_array option option" where
  "to_arrow_known_only F c =
     (case (to_primitive F (cl_squeezed c), bp_bit_width (cl_squeezed c)) of
        (Some squeezed_prim, Some bw) \<Rightarrow>
          (let values = pa_values squeezed_prim;
               sentinel = sentinel_of bw
           in if list_ex (\<lambda>i. valid_at (bp_nulls (cl_squeezed c)) i \<and> values ! i = sentinel) [0..<length values]
                then Some None
              else Some (Some \<lparr>pa_values = map (\<lambda>u. u + cl_reference_value c) values, pa_nulls = pa_nulls squeezed_prim\<rparr>))
      | _ \<Rightarrow> None)"

section \<open>Comparisons\<close>

datatype 'm eval_result =
    EvalPanic
  | NeedsBacking
  | NotSupported
  | Mask 'm

record bool_array =
  ba_values :: "bool list"
  ba_nulls :: "boolean_buffer option"

definition native_of_literal :: "physical_type \<Rightarrow> scalar_value \<Rightarrow> 'w::len word option" where
  "native_of_literal p literal =
     (case literal of
        SV_Integer k \<Rightarrow> (let v = word_of_int k in if native_val p v = k then Some v else None)
      | _ \<Rightarrow> None)"

fun cmp_op :: "operator \<Rightarrow> int \<Rightarrow> int \<Rightarrow> bool" where
  "cmp_op Op_Eq a k = (a = k)"
| "cmp_op Op_NotEq a k = (a \<noteq> k)"
| "cmp_op Op_Lt a k = (a < k)"
| "cmp_op Op_LtEq a k = (a \<le> k)"
| "cmp_op Op_Gt a k = (a > k)"
| "cmp_op Op_GtEq a k = (a \<ge> k)"

text \<open>The answer for every value above the literal; the same table in three places of the code.\<close>

fun above_answer :: "operator \<Rightarrow> bool" where
  "above_answer Op_Eq = False"
| "above_answer Op_NotEq = True"
| "above_answer Op_Lt = False"
| "above_answer Op_LtEq = False"
| "above_answer Op_Gt = True"
| "above_answer Op_GtEq = True"

definition resolves_on_sentinel :: "operator \<Rightarrow> int \<Rightarrow> int \<Rightarrow> bool" where
  "resolves_on_sentinel op k sent_abs =
     (case op of Op_Lt \<Rightarrow> k \<le> sent_abs | Op_GtEq \<Rightarrow> k \<le> sent_abs | _ \<Rightarrow> k < sent_abs)"

fun eval_loop :: "('a \<Rightarrow> bool option) \<Rightarrow> boolean_buffer option \<Rightarrow> nat \<Rightarrow> 'a list \<Rightarrow> bool list option" where
  "eval_loop f nulls i [] = Some []"
| "eval_loop f nulls i (u # values) =
     (case (if \<not> valid_at nulls i then Some False else f u) of
        None \<Rightarrow> None
      | Some b \<Rightarrow> map_option ((#) b) (eval_loop f nulls (Suc i) values))"

definition mask_result :: "boolean_buffer option \<Rightarrow> bool list option \<Rightarrow> bool_array eval_result" where
  "mask_result nulls r = (case r of None \<Rightarrow> NeedsBacking | Some out_vals \<Rightarrow> Mask \<lparr>ba_values = out_vals, ba_nulls = nulls\<rparr>)"

definition clamped_answer ::
  "physical_type \<Rightarrow> 'w::len word \<Rightarrow> 'w word \<Rightarrow> operator \<Rightarrow> 'w word \<Rightarrow> bool \<Rightarrow> 'w word \<Rightarrow> bool option" where
  "clamped_answer p sentinel ref op k resolves u =
     (if u = sentinel then (if resolves then Some (above_answer op) else None)
      else Some (cmp_op op (native_val p (u + ref)) (native_val p k)))"

definition clamped_try_eval ::
  "'w::len word fastlanes \<Rightarrow> physical_type \<Rightarrow> 'w word clamped_array \<Rightarrow> operator \<Rightarrow> scalar_value \<Rightarrow> bool_array eval_result" where
  "clamped_try_eval F p c op literal =
     (case native_of_literal p literal of
        None \<Rightarrow> NotSupported
      | Some k \<Rightarrow>
          (case (to_primitive F (cl_squeezed c), bp_bit_width (cl_squeezed c)) of
             (Some squeezed_prim, Some bw) \<Rightarrow>
               (let sentinel = sentinel_of bw;
                    ref = cl_reference_value c;
                    sent_abs = native_val p ref + uint sentinel
                in if sent_abs \<ge> (if is_unsigned p then 2 ^ 64 else 2 ^ 63) then EvalPanic
                   else mask_result (bp_nulls (cl_squeezed c))
                     (eval_loop (clamped_answer p sentinel ref op k (resolves_on_sentinel op (native_val p k) sent_abs))
                       (bp_nulls (cl_squeezed c)) 0 (pa_values squeezed_prim)))
           | _ \<Rightarrow> EvalPanic))"

definition on_equal_bucket :: "operator \<Rightarrow> nat \<Rightarrow> nat \<Rightarrow> bool option" where
  "on_equal_bucket op r bw =
     (case op of
        Op_Eq \<Rightarrow> None
      | Op_NotEq \<Rightarrow> None
      | Op_Lt \<Rightarrow> if r = 0 then Some False else None
      | Op_LtEq \<Rightarrow> if r + 1 = bw then Some True else None
      | Op_Gt \<Rightarrow> if r + 1 = bw then Some False else None
      | Op_GtEq \<Rightarrow> if r = 0 then Some True else None)"

fun less_side :: "operator \<Rightarrow> bool" where
  "less_side Op_Eq = False"
| "less_side Op_NotEq = True"
| "less_side Op_Lt = True"
| "less_side Op_LtEq = True"
| "less_side Op_Gt = False"
| "less_side Op_GtEq = False"

definition bucket_answer :: "operator \<Rightarrow> nat \<Rightarrow> nat \<Rightarrow> 'w::len word \<Rightarrow> bool option" where
  "bucket_answer op rel bw b =
     (let q = rel div bw; r = rel mod bw
      in if unat b < q then Some (less_side op)
         else if unat b > q then Some (above_answer op)
         else on_equal_bucket op r bw)"

definition quantized_try_eval ::
  "'w::len word fastlanes \<Rightarrow> physical_type \<Rightarrow> 'w word quantized_array \<Rightarrow> operator \<Rightarrow> scalar_value \<Rightarrow> bool_array eval_result" where
  "quantized_try_eval F p qa op literal =
     (case (native_of_literal p literal :: 'w word option) of
        None \<Rightarrow> NotSupported
      | Some k \<Rightarrow>
          (case to_primitive F (qz_quantized qa) of
             None \<Rightarrow> EvalPanic
           | Some q_prim \<Rightarrow>
               (let nulls = bp_nulls (qz_quantized qa);
                    diff = native_val p k - native_val p (qz_reference_value qa)
                in if diff < 0 then mask_result nulls (eval_loop (\<lambda>_. Some (above_answer op)) nulls 0 (pa_values q_prim))
                   else if \<not> is_unsigned p \<and> diff \<ge> 2 ^ 63 then EvalPanic
                   else mask_result nulls
                     (eval_loop (bucket_answer op (nat diff) (qz_bucket_width qa)) nulls 0 (pa_values q_prim)))))"

section \<open>Reads and predicates with the disk behind them\<close>

text \<open>
  \<open>hydrate_full_arrow\<close>: the full bytes written when squeezing, read back. DataFusion's comparison
  of an array with a scalar, \<open>apply_cmp\<close>, is a parameter.
\<close>

definition hydrate_full_arrow :: "'w::len word fastlanes \<Rightarrow> physical_type \<Rightarrow> bytes \<Rightarrow> 'w word prim_array option" where
  "hydrate_full_arrow F p disk =
     (case primitive_from_bytes p disk of None \<Rightarrow> None | Some liquid \<Rightarrow> to_arrow_array F liquid)"

definition clamped_to_arrow_array ::
  "'w::len word fastlanes \<Rightarrow> physical_type \<Rightarrow> 'w word clamped_array \<Rightarrow> bytes \<Rightarrow> 'w word prim_array option" where
  "clamped_to_arrow_array F p c disk =
     (case to_arrow_known_only F c of
        None \<Rightarrow> None
      | Some (Some arr) \<Rightarrow> Some arr
      | Some None \<Rightarrow> hydrate_full_arrow F p disk)"

definition clamped_filter_array ::
  "'w::len word arrow_kernels \<Rightarrow> 'w word fastlanes \<Rightarrow> physical_type \<Rightarrow> 'w word clamped_array \<Rightarrow> bool list \<Rightarrow> bytes
    \<Rightarrow> 'w word prim_array option" where
  "clamped_filter_array K F p c selection disk =
     (if count_list selection True = 0 then Some \<lparr>pa_values = [], pa_nulls = None\<rparr>
      else case clamped_filter_inner K F c selection of
        None \<Rightarrow> None
      | Some filtered \<Rightarrow>
          (case to_arrow_known_only F filtered of
             None \<Rightarrow> None
           | Some (Some arr) \<Rightarrow> Some arr
           | Some None \<Rightarrow> map_option (\<lambda>full. ak_filter K full selection) (hydrate_full_arrow F p disk)))"

datatype predicate_lhs = Lhs_Plain | Lhs_ToTimestampSeconds

fun predicate_lhs_kind :: "phys_expr \<Rightarrow> predicate_lhs option" where
  "predicate_lhs_kind PE_Column = Some Lhs_Plain"
| "predicate_lhs_kind (PE_ScalarFunction f args) =
     (if f = ''to_timestamp_seconds'' \<and> args = [PE_Column] then Some Lhs_ToTimestampSeconds else None)"
| "predicate_lhs_kind _ = None"

definition can_eval_to_timestamp_seconds_direct :: "physical_type \<Rightarrow> bool" where
  "can_eval_to_timestamp_seconds_direct p \<longleftrightarrow>
     p \<in> {P_Int8, P_Int16, P_Int32, P_Int64, P_UInt8, P_UInt16, P_UInt32, P_UInt64, P_TimestampSecond}"

definition can_eval_without_cast :: "predicate_lhs \<Rightarrow> physical_type \<Rightarrow> bool" where
  "can_eval_without_cast lhs p =
     (case lhs of Lhs_Plain \<Rightarrow> True | Lhs_ToTimestampSeconds \<Rightarrow> can_eval_to_timestamp_seconds_direct p)"

text \<open>The left side, operator and literal of a comparison; \<open>None\<close> at each early return.\<close>

definition comparison_parts :: "phys_expr \<Rightarrow> (predicate_lhs \<times> operator \<times> scalar_value) option" where
  "comparison_parts expr =
     (case unwrap_dynamic_filter expr of
        Some (PE_Binary left op right) \<Rightarrow>
          (case (predicate_lhs_kind left, right, from_datafusion op) of
             (Some lhs, PE_Literal literal, Some supported_op) \<Rightarrow> Some (lhs, supported_op, literal)
           | _ \<Rightarrow> None)
      | _ \<Rightarrow> None)"

text \<open>Arrow's cast of the left side, where there is one, and DataFusion's comparison are a parameter.\<close>

type_synonym 'a cmp_kernel =
  "predicate_lhs \<Rightarrow> physical_type \<Rightarrow> 'a prim_array \<Rightarrow> operator \<Rightarrow> scalar_value \<Rightarrow> bool_array option"

definition eval_or_hydrate ::
  "'w::len word arrow_kernels \<Rightarrow> 'w word fastlanes \<Rightarrow> 'w word cmp_kernel \<Rightarrow> physical_type \<Rightarrow> bool_array eval_result
    \<Rightarrow> predicate_lhs \<Rightarrow> bool list \<Rightarrow> operator \<Rightarrow> scalar_value \<Rightarrow> bytes \<Rightarrow> bool_array option option" where
  "eval_or_hydrate K F apply_cmp p r lhs sel op literal disk =
     (case r of
        EvalPanic \<Rightarrow> None
      | Mask m \<Rightarrow> Some (Some m)
      | NotSupported \<Rightarrow> Some None
      | NeedsBacking \<Rightarrow> map_option (\<lambda>full. apply_cmp lhs p (ak_filter K full sel) op literal) (hydrate_full_arrow F p disk))"

definition clamped_try_eval_predicate ::
  "'w::len word arrow_kernels \<Rightarrow> 'w word fastlanes \<Rightarrow> 'w word cmp_kernel \<Rightarrow> physical_type \<Rightarrow> 'w word clamped_array
    \<Rightarrow> bool list \<Rightarrow> phys_expr \<Rightarrow> bytes \<Rightarrow> bool_array option option" where
  "clamped_try_eval_predicate K F apply_cmp p c sel expr disk =
     (case clamped_filter_inner K F c sel of
        None \<Rightarrow> None
      | Some filtered \<Rightarrow>
          (case comparison_parts expr of
             None \<Rightarrow> Some None
           | Some (lhs, op, literal) \<Rightarrow>
               eval_or_hydrate K F apply_cmp p
                 (if can_eval_without_cast lhs p then clamped_try_eval F p filtered op literal else NeedsBacking)
                 lhs sel op literal disk))"

definition quantized_try_eval_predicate ::
  "'w::len word arrow_kernels \<Rightarrow> 'w word fastlanes \<Rightarrow> 'w word cmp_kernel \<Rightarrow> physical_type \<Rightarrow> 'w word quantized_array
    \<Rightarrow> bool list \<Rightarrow> phys_expr \<Rightarrow> bytes \<Rightarrow> bool_array option option" where
  "quantized_try_eval_predicate K F apply_cmp p q sel expr disk =
     (case quantized_filter_inner K F q sel of
        None \<Rightarrow> None
      | Some filtered \<Rightarrow>
          (case comparison_parts expr of
             None \<Rightarrow> Some None
           | Some (lhs, op, literal) \<Rightarrow>
               eval_or_hydrate K F apply_cmp p
                 (if can_eval_without_cast lhs p then quantized_try_eval F p filtered op literal else NeedsBacking)
                 lhs sel op literal disk))"

definition squeezed_try_eval_predicate ::
  "'w::len word arrow_kernels \<Rightarrow> 'w word fastlanes \<Rightarrow> 'w word cmp_kernel \<Rightarrow> physical_type \<Rightarrow> 'w word squeezed_integer
    \<Rightarrow> bool list \<Rightarrow> phys_expr \<Rightarrow> bytes \<Rightarrow> bool_array option option" where
  "squeezed_try_eval_predicate K F apply_cmp p s sel expr disk =
     (case s of
        SqClamped c \<Rightarrow> clamped_try_eval_predicate K F apply_cmp p c sel expr disk
      | SqQuantized q \<Rightarrow> quantized_try_eval_predicate K F apply_cmp p q sel expr disk)"

section \<open>Sentinels and masks\<close>

lemma uint_sentinel:
  assumes "bw \<le> 32" and "bw \<le> LENGTH('w)"
  shows "(sentinel_of bw :: 'w::len word) = mask bw" and "uint (sentinel_of bw :: 'w word) = 2 ^ bw - 1"
proof -
  have "(push_bit bw 1 - 1 :: usize) = mask bw" by (simp add: mask_eq_exp_minus_1)
  then show m: "(sentinel_of bw :: 'w word) = mask bw" using assms(1) by (simp add: sentinel_of_def ucast_mask_eq min_def)
  show "uint (sentinel_of bw :: 'w word) = 2 ^ bw - 1"
    unfolding m uint_mask_eq using assms(2) by (simp add: min_def mask_eq_exp_minus_1 [where 'a = int])
qed

lemma length_pa_items [simp]: "length (pa_items a) = length (pa_values a)"
  by (simp add: pa_items_def)

lemma pa_items_nth: "i < length (pa_values a) \<Longrightarrow> pa_items a ! i = (if valid_at (pa_nulls a) i then Some (pa_values a ! i) else None)"
  by (simp add: pa_items_def)

definition ba_items :: "bool_array \<Rightarrow> bool option list" where
  "ba_items b = pa_items \<lparr>pa_values = ba_values b, pa_nulls = ba_nulls b\<rparr>"

lemma eval_loop_items:
  assumes "eval_loop f nulls i vals = Some out"
  shows "length out = length vals \<and> (\<forall>k < length vals. valid_at nulls (i + k) \<longrightarrow> f (vals ! k) = Some (out ! k))"
  using assms
proof (induction vals arbitrary: i out)
  case (Cons u vals)
  then obtain b out' where ob: "out = b # out'" "eval_loop f nulls (Suc i) vals = Some out'" "valid_at nulls i \<longrightarrow> f u = Some b"
    by (auto split: option.splits if_splits)
  have "f ((u # vals) ! k) = Some (out ! k)" if "k < length (u # vals)" "valid_at nulls (i + k)" for k
    using Cons.IH [OF ob(2)] ob(1,3) that by (cases k) auto
  with Cons.IH [OF ob(2)] ob(1) show ?case by simp
qed simp

text \<open>A mask is right where every answer given for a stored value is the comparison's.\<close>

lemma mask_result_items:
  assumes "bp_ok bp" and "to_primitive F bp = Some u" and "length (pa_values u) = bp_original_len bp"
    and "pa_items u = map (map_option g) (pa_items a)"
    and "\<And>v b. v \<in> valid_values a \<Longrightarrow> f (g v) = Some b \<Longrightarrow> b = h v"
    and "mask_result (bp_nulls bp) (eval_loop f (bp_nulls bp) 0 (pa_values u)) = Mask m"
  shows "ba_items m = map (map_option h) (pa_items a)"
proof -
  obtain out where out: "eval_loop f (bp_nulls bp) 0 (pa_values u) = Some out" "m = \<lparr>ba_values = out, ba_nulls = bp_nulls bp\<rparr>"
    using assms(6) by (auto simp: mask_result_def split: option.splits)
  note l = eval_loop_items [OF out(1)]
  have len: "length (pa_values a) = length (pa_values u)" using assms(4) by (metis length_map length_pa_items)
  show ?thesis
  proof (rule nth_equalityI)
    show "length (ba_items m) = length (map (map_option h) (pa_items a))" using l len by (simp add: ba_items_def out(2))
    fix i assume "i < length (ba_items m)"
    then have i: "i < length (pa_values u)" "i < length (pa_values a)" "i < length out"
      using l len by (simp_all add: ba_items_def out(2))
    have "valid_at (pa_nulls u) i = valid_at (bp_nulls bp) i"
      using valid_at_to_primitive [OF assms(1,2)] assms(3) i by simp
    moreover have "pa_items u ! i = map_option g (pa_items a ! i)" using assms(4) i by simp
    ultimately have it: "(if valid_at (bp_nulls bp) i then Some (pa_values u ! i) else None) = map_option g (pa_items a ! i)"
      using i(1) by (simp add: pa_items_nth [OF i(1)])
    have m: "ba_items m ! i = (if valid_at (bp_nulls bp) i then Some (out ! i) else None)"
      using i(3) by (simp add: ba_items_def out(2) pa_items_nth)
    show "ba_items m ! i = map (map_option h) (pa_items a) ! i"
    proof (cases "valid_at (bp_nulls bp) i")
      case True
      then obtain x where x: "pa_items a ! i = Some x" "pa_values u ! i = g x" using it by (cases "pa_items a ! i") auto
      have "Some x \<in> set (pa_items a)" using x(1) i(2) by (metis length_pa_items nth_mem)
      then have "x \<in> valid_values a" by (simp add: valid_values_def)
      moreover have "f (g x) = Some (out ! i)" using l i True x(2) by auto
      ultimately have "out ! i = h x" by (rule assms(5))
      with x(1) True i(2) show ?thesis by (simp add: m)
    next
      case False
      then have "pa_items a ! i = None" using it by auto
      with False i(2) show ?thesis by (simp add: m)
    qed
  qed
qed

section \<open>Clamped arrays\<close>

definition clamp_offset :: "nat \<Rightarrow> 'w::len word \<Rightarrow> 'w word \<Rightarrow> 'w word" where
  "clamp_offset bw ref v = (if v - ref \<ge> sentinel_of bw then sentinel_of bw else v - ref)"

definition clamps :: "'w::len word fastlanes \<Rightarrow> physical_type \<Rightarrow> 'w word clamped_array \<Rightarrow> 'w word prim_array \<Rightarrow> bool" where
  "clamps F p c a \<longleftrightarrow> (\<exists>bw u. bp_ok (cl_squeezed c) \<and> bp_bit_width (cl_squeezed c) = Some bw \<and> 0 < bw \<and> bw \<le> 32 \<and> bw \<le> LENGTH('w)
     \<and> to_primitive F (cl_squeezed c) = Some u \<and> length (pa_values u) = bp_original_len (cl_squeezed c) \<and> pa_wf u
     \<and> pa_items u = map (map_option (clamp_offset bw (cl_reference_value c))) (pa_items a)
     \<and> (\<forall>v \<in> valid_values a. native_val p (cl_reference_value c) \<le> native_val p v)
     \<and> native_val p (cl_reference_value c) + (2 ^ bw - 1) < (if is_unsigned p then 2 ^ 64 else 2 ^ 63))"

lemma above_answer_right: "resolves_on_sentinel op k s \<Longrightarrow> s \<le> v \<Longrightarrow> cmp_op op v k = above_answer op"
  by (cases op) (auto simp: resolves_on_sentinel_def)

lemma clamped_answer_right:
  assumes "native_val p ref \<le> native_val p v" and "bw \<le> 32" and "bw \<le> LENGTH('w)"
    and "clamped_answer p (sentinel_of bw) ref op k (resolves_on_sentinel op (native_val p k) (native_val p ref + uint (sentinel_of bw :: 'w word)))
        (clamp_offset bw ref v) = Some b"
  shows "b = cmp_op op (native_val p v) (native_val p (k :: 'w::len word))"
proof (cases "v - ref \<ge> sentinel_of bw")
  case True
  have "uint (v - ref) = native_val p v - native_val p ref" by (rule uint_native_diff [OF assms(1)])
  moreover have "uint (sentinel_of bw :: 'w word) \<le> uint (v - ref)" using True by (simp add: word_le_def)
  ultimately have "native_val p ref + uint (sentinel_of bw :: 'w word) \<le> native_val p v" by linarith
  with assms(4) True above_answer_right show ?thesis
    by (auto simp: clamped_answer_def clamp_offset_def split: if_splits)
next
  case False
  with assms(4) show ?thesis by (auto simp: clamped_answer_def clamp_offset_def split: if_splits)
qed

lemma clamped_eval_sound:
  fixes F :: "'w::len word fastlanes"
  assumes "clamps F p c a"
  shows "(case clamped_try_eval F p c op literal of
      EvalPanic \<Rightarrow> False
    | NotSupported \<Rightarrow> (native_of_literal p literal :: 'w word option) = None
    | NeedsBacking \<Rightarrow> True
    | Mask m \<Rightarrow> \<exists>k :: 'w word. native_of_literal p literal = Some k
        \<and> ba_items m = map (map_option (\<lambda>v. cmp_op op (native_val p v) (native_val p k))) (pa_items a))"
proof (cases "native_of_literal p literal :: 'w word option")
  case None
  then show ?thesis by (simp add: clamped_try_eval_def)
next
  case (Some k)
  obtain bw u where c: "bp_ok (cl_squeezed c)" "bp_bit_width (cl_squeezed c) = Some bw" "bw \<le> 32" "bw \<le> LENGTH('w)"
      "to_primitive F (cl_squeezed c) = Some u" "length (pa_values u) = bp_original_len (cl_squeezed c)"
      "pa_items u = map (map_option (clamp_offset bw (cl_reference_value c))) (pa_items a)"
      "\<forall>v \<in> valid_values a. native_val p (cl_reference_value c) \<le> native_val p v"
      "native_val p (cl_reference_value c) + (2 ^ bw - 1) < (if is_unsigned p then 2 ^ 64 else 2 ^ 63)"
    using assms by (auto simp: clamps_def)
  let ?s = "sentinel_of bw :: 'w word" and ?ref = "cl_reference_value c"
  let ?f = "clamped_answer p ?s ?ref op k (resolves_on_sentinel op (native_val p k) (native_val p ?ref + uint ?s))"
  let ?r = "mask_result (bp_nulls (cl_squeezed c)) (eval_loop ?f (bp_nulls (cl_squeezed c)) 0 (pa_values u))"
  have e: "clamped_try_eval F p c op literal = ?r"
    using Some c(2,5,9) uint_sentinel(2) [OF c(3,4)] by (simp add: clamped_try_eval_def Let_def split: if_splits)
  have "ba_items m = map (map_option (\<lambda>v. cmp_op op (native_val p v) (native_val p k))) (pa_items a)" if "?r = Mask m" for m
    by (rule mask_result_items [OF c(1,5,6,7) _ that]) (use c(3,4,8) clamped_answer_right in blast)
  then show ?thesis unfolding e by (cases ?r) (auto simp: Some mask_result_def split: option.splits)
qed

section \<open>Quantized arrays\<close>

definition quantizes :: "'w::len word fastlanes \<Rightarrow> physical_type \<Rightarrow> 'w word quantized_array \<Rightarrow> 'w word prim_array \<Rightarrow> bool" where
  "quantizes F p q a \<longleftrightarrow> (\<exists>bw u. bp_ok (qz_quantized q) \<and> bp_bit_width (qz_quantized q) = Some bw \<and> 0 < bw \<and> bw \<le> LENGTH('w)
     \<and> to_primitive F (qz_quantized q) = Some u \<and> length (pa_values u) = bp_original_len (qz_quantized q) \<and> pa_wf u
     \<and> pa_items u = map (map_option (\<lambda>v. of_nat (unat (v - qz_reference_value q) div qz_bucket_width q))) (pa_items a)
     \<and> (\<forall>v \<in> valid_values a. native_val p (qz_reference_value q) \<le> native_val p v
          \<and> unat (v - qz_reference_value q) div qz_bucket_width q < 2 ^ bw)
     \<and> 0 < qz_bucket_width q)"

lemma bucket_answer_right:
  assumes "0 < bw" and "n = off div bw" and "(if n < rel div bw then Some (less_side op) else if n > rel div bw then Some (above_answer op)
      else on_equal_bucket op (rel mod bw) bw) = Some b"
  shows "b = cmp_op op (int off) (int rel)"
proof -
  have d: "off div bw * bw + off mod bw = off" "off mod bw < bw" "rel div bw * bw + rel mod bw = rel" "rel mod bw < bw"
    using assms(1) by simp_all
  consider (lt) "off div bw < rel div bw" | (gt) "off div bw > rel div bw" | (eq) "off div bw = rel div bw" by linarith
  then show ?thesis
  proof cases
    case lt
    then have "off < rel" using div_le_mono [of rel off bw] by linarith
    with assms(2,3) lt show ?thesis by (cases op) auto
  next
    case gt
    then have "rel < off" using div_le_mono [of off rel bw] by linarith
    with assms(2,3) gt show ?thesis by (cases op) auto
  next
    case eq
    then have "off + rel mod bw = rel + off mod bw" using d(1,3) by (metis add.assoc add.commute)
    then have "Suc (rel mod bw) = bw \<Longrightarrow> off \<le> rel" "rel mod bw = 0 \<Longrightarrow> rel \<le> off" using d(2) by linarith+
    with eq assms(2,3) show ?thesis by (cases op) (auto simp: on_equal_bucket_def split: if_splits)
  qed
qed

lemma bucket_answer_value:
  fixes v ref :: "'w::len word"
  assumes "native_val p ref \<le> native_val p v" and "native_val p ref \<le> native_val p k" and "0 < bw"
    and "bucket_answer op (nat (native_val p k - native_val p ref)) bw (of_nat (unat (v - ref) div bw) :: 'w word) = Some b"
  shows "b = cmp_op op (native_val p v) (native_val p (k :: 'w word))"
proof -
  have "unat (v - ref) div bw < 2 ^ LENGTH('w)" by (rule order_le_less_trans [OF div_le_dividend unsigned_less])
  then have u: "unat (of_nat (unat (v - ref) div bw) :: 'w word) = unat (v - ref) div bw" by (simp add: unat_of_nat)
  have "int (unat (v - ref)) = native_val p v - native_val p ref" using uint_native_diff [OF assms(1)] by simp
  moreover have "b = cmp_op op (int (unat (v - ref))) (int (nat (native_val p k - native_val p ref)))"
    by (rule bucket_answer_right [OF assms(3) u]) (use assms(4) in \<open>simp add: bucket_answer_def Let_def\<close>)
  moreover have "int (nat (native_val p k - native_val p ref)) = native_val p k - native_val p ref" using assms(2) by simp
  ultimately show ?thesis by (cases op) auto
qed

lemma quantized_eval_sound:
  fixes F :: "'w::len word fastlanes"
  assumes "quantizes F p q a"
  shows "(case quantized_try_eval F p q op literal of
      EvalPanic \<Rightarrow> \<exists>k :: 'w word. native_of_literal p literal = Some k \<and> \<not> is_unsigned p
        \<and> native_val p k - native_val p (qz_reference_value q) \<ge> 2 ^ 63
    | NotSupported \<Rightarrow> (native_of_literal p literal :: 'w word option) = None
    | NeedsBacking \<Rightarrow> True
    | Mask m \<Rightarrow> \<exists>k :: 'w word. native_of_literal p literal = Some k
        \<and> ba_items m = map (map_option (\<lambda>v. cmp_op op (native_val p v) (native_val p k))) (pa_items a))"
proof (cases "native_of_literal p literal :: 'w word option")
  case None
  then show ?thesis by (simp add: quantized_try_eval_def)
next
  case (Some k)
  obtain u where q: "bp_ok (qz_quantized q)" "to_primitive F (qz_quantized q) = Some u"
      "length (pa_values u) = bp_original_len (qz_quantized q)"
      "pa_items u = map (map_option (\<lambda>v. of_nat (unat (v - qz_reference_value q) div qz_bucket_width q))) (pa_items a)"
      "\<forall>v \<in> valid_values a. native_val p (qz_reference_value q) \<le> native_val p v" "0 < qz_bucket_width q"
    using assms by (auto simp: quantizes_def)
  let ?ref = "qz_reference_value q" and ?nulls = "bp_nulls (qz_quantized q)"
  let ?d = "native_val p k - native_val p ?ref"
  let ?h = "\<lambda>v. cmp_op op (native_val p v) (native_val p k)"
  let ?eval = "\<lambda>f. mask_result ?nulls (eval_loop f ?nulls 0 (pa_values u))"
  have mask: "case ?eval f of EvalPanic \<Rightarrow> False | NotSupported \<Rightarrow> False | NeedsBacking \<Rightarrow> True | Mask m \<Rightarrow> ba_items m = map (map_option ?h) (pa_items a)"
    if "\<And>v b. v \<in> valid_values a \<Longrightarrow> f (of_nat (unat (v - ?ref) div qz_bucket_width q)) = Some b \<Longrightarrow> b = ?h v" for f
    using mask_result_items [OF q(1-4) that] by (cases "?eval f") (auto simp: mask_result_def split: option.splits)
  consider "?d < 0" | "0 \<le> ?d" "\<not> is_unsigned p" "?d \<ge> 2 ^ 63" | "0 \<le> ?d" "is_unsigned p \<or> ?d < 2 ^ 63" by linarith
  then show ?thesis
  proof cases
    case 1
    have e: "quantized_try_eval F p q op literal = ?eval (\<lambda>_. Some (above_answer op))"
      using 1 Some q(2) by (simp add: quantized_try_eval_def Let_def)
    have "cmp_op op (native_val p v) (native_val p k) = above_answer op" if "v \<in> valid_values a" for v
    proof -
      have "native_val p k < native_val p v" using 1 q(5) that by fastforce
      then show ?thesis by (cases op) auto
    qed
    with mask [of "\<lambda>_. Some (above_answer op)"] show ?thesis unfolding e by (auto simp: Some split: eval_result.splits)
  next
    case 2
    then show ?thesis using Some q(2) by (simp add: quantized_try_eval_def Let_def)
  next
    case 3
    let ?f = "bucket_answer op (nat ?d) (qz_bucket_width q) :: 'w word \<Rightarrow> bool option"
    have e: "quantized_try_eval F p q op literal = ?eval ?f"
      using 3 Some q(2) by (auto simp: quantized_try_eval_def Let_def)
    have "native_val p ?ref \<le> native_val p k" using 3(1) by simp
    then have "b = ?h v" if "v \<in> valid_values a" "?f (of_nat (unat (v - ?ref) div qz_bucket_width q)) = Some b" for v b
      using q(5,6) that(1) by (intro bucket_answer_value [OF _ _ _ that(2)]) simp_all
    with mask [of ?f] show ?thesis unfolding e by (auto simp: Some split: eval_result.splits)
  qed
qed

section \<open>Packing values that fit\<close>

lemma pa_wf_to_primitive:
  assumes "bp_ok bp" and "to_primitive F bp = Some u" and "length (pa_values u) = bp_original_len bp"
  shows "pa_wf u"
  using assms by (cases "bp_bit_width bp")
    (auto simp: to_primitive_def Let_def pa_wf_def bp_ok_def prim_new_null_def nulls_fit_def split: if_splits)

lemma pa_items_map: "pa_items \<lparr>pa_values = map f (pa_values u), pa_nulls = pa_nulls u\<rparr> = map (map_option f) (pa_items u)"
  by (auto simp: pa_items_def)

lemma valid_values_map: "pa_items u = map (map_option f) (pa_items a) \<Longrightarrow> valid_values u = f ` valid_values a"
  unfolding valid_values_def by (auto simp: image_iff) (metis map_option_eq_Some option.map_sel option.collapse)+

lemma repack_items:
  fixes F :: "'w::len word fastlanes"
  assumes "fastlanes_ok F" and "0 < w" and "w \<le> LENGTH('w)" and "LENGTH('w) \<le> 64" and "pa_wf u"
    and "\<And>v. v \<in> valid_values u \<Longrightarrow> take_bit w v = v"
  shows "bp_ok (from_primitive F u w) \<and> bp_bit_width (from_primitive F u w) = Some w
    \<and> bp_original_len (from_primitive F u w) = length (pa_values u)
    \<and> (\<exists>u'. to_primitive F (from_primitive F u w) = Some u' \<and> pa_wf u' \<and> length (pa_values u') = length (pa_values u)
        \<and> pa_items u' = pa_items u)"
proof -
  let ?u = "\<lparr>pa_values = map (take_bit w) (pa_values u), pa_nulls = pa_nulls u\<rparr>"
  have "pa_items ?u = pa_items u"
    by (rule pa_items_eqI) (use valid_values_nth [of _ u] assms(6) in simp_all)
  moreover have "pa_wf ?u" using assms(5) by (simp add: pa_wf_def)
  moreover have "bp_bit_width (from_primitive F u w) = Some w" "bp_original_len (from_primitive F u w) = length (pa_values u)"
    by (simp_all add: from_primitive_def Let_def)
  ultimately show ?thesis
    using to_primitive_from_primitive [OF assms(1-3), of u] from_primitive_ok [OF assms(5,1-4)] by simp
qed

lemma bit_width_top:
  assumes "m \<noteq> 0"
  shows "2 ^ (get_bit_width m - 1) \<le> unat m"
proof -
  have "bit (unat m) (63 - leading_zeros m)" using top_bit [OF assms] leading_zeros_less [OF assms]
    by (simp add: bit_unsigned_iff)
  then have "unat m div 2 ^ (63 - leading_zeros m) \<noteq> 0" by (metis bit_iff_odd even_zero)
  then have "2 ^ (63 - leading_zeros m) \<le> unat m" by (metis div_less not_le)
  moreover have "get_bit_width m - 1 = 63 - leading_zeros m" using assms by (simp add: get_bit_width_def)
  ultimately show ?thesis by simp
qed

lemma native_val_limit:
  assumes "LENGTH('w) \<le> 64"
  shows "native_val p (v :: 'w::len word) < (if is_unsigned p then 2 ^ 64 else 2 ^ 63)"
proof -
  have "(2 :: int) ^ LENGTH('w) \<le> 2 ^ 64" "(2 :: int) ^ (LENGTH('w) - 1) \<le> 2 ^ 63"
    using power_increasing [OF assms, of "2 :: int"] power_increasing [of "LENGTH('w) - 1" 63 "2 :: int"] assms by simp_all
  then have "uint v < 2 ^ 64" "sint v < 2 ^ 63"
    using order_less_le_trans [OF uint_lt2p] order_less_le_trans [OF sint_lt] by blast+
  then show ?thesis by (simp add: native_val_def)
qed

section \<open>Squeezing establishes the invariants\<close>

lemma squeeze_room:
  fixes ref M :: "'w::len word"
  assumes "LENGTH('w) \<le> 64" and "native_val p ref \<le> native_val p M" and "w = get_bit_width (ucast (M - ref))" and "8 \<le> w"
  shows "native_val p ref + (2 ^ (w div 2) - 1) < (if is_unsigned p then 2 ^ 64 else 2 ^ 63)"
proof -
  have "(ucast (M - ref) :: u64) \<noteq> 0" using assms(3,4) by (auto simp: get_bit_width_def)
  from bit_width_top [OF this] have "(2 :: nat) ^ (w - 1) \<le> unat (M - ref)" using assms(1,3) by (simp add: unat_u64)
  then have "(2 :: int) ^ (w - 1) \<le> uint (M - ref)" by (metis (mono_tags) of_nat_le_iff of_nat_numeral of_nat_power uint_nat)
  moreover have "(2 :: int) ^ (w div 2) \<le> 2 ^ (w - 1)" using assms(4) by (intro power_increasing) auto
  ultimately have "native_val p ref + (2 ^ (w div 2) - 1) \<le> native_val p M" using uint_native_diff [OF assms(2)] by linarith
  then show ?thesis using native_val_limit [OF assms(1), of p M] by linarith
qed

lemma bucket_count_enough:
  assumes "v \<le> m" and "m < 2 ^ 64" and "0 < bw"
  shows "v div bucket_width_of (2 ^ bw) m < 2 ^ bw" and "0 < bucket_width_of (2 ^ bw) m"
proof -
  let ?c = "2 ^ bw :: nat" and ?r = "min (m + 1) (2 ^ 64 - 1) :: nat"
  let ?W = "bucket_width_of ?c m"
  show w: "0 < ?W" by (simp add: bucket_width_of_def Let_def)
  have "?r \<le> (?r + ?c - 1) div ?c * ?c" by (rule le_ceil_mult) simp
  also have "\<dots> \<le> ?W * ?c" by (intro mult_le_mono1) (simp add: bucket_width_of_def Let_def)
  finally have r: "?r \<le> ?W * ?c" .
  have "v < ?W * ?c"
  proof (cases "m + 1 \<le> 2 ^ 64 - 1")
    case True
    then show ?thesis using r assms(1) by simp
  next
    case False
    have "even (?W * ?c)" using assms(3) by simp
    moreover have "odd (2 ^ 64 - 1 :: nat)" by simp
    ultimately have "?W * ?c \<noteq> 2 ^ 64 - 1" by metis
    with r False assms(1,2) show ?thesis by simp
  qed
  then show "v div ?W < ?c" using w by (simp add: div_less_iff_less_mult mult.commute)
qed

lemma offsetsD:
  fixes F :: "'w::len word fastlanes"
  assumes "offsets F p la a" and "bp_bit_width (lp_bit_packed la) = Some w"
  obtains u M where "to_primitive F (lp_bit_packed la) = Some u" "pa_wf u" "length (pa_values u) = length (pa_values a)"
    "pa_items u = map (map_option (\<lambda>v. v - lp_reference_value la)) (pa_items a)"
    "\<forall>v \<in> valid_values a. native_val p (lp_reference_value la) \<le> native_val p v"
    "w \<le> LENGTH('w)" "M \<in> valid_values a" "w = get_bit_width (ucast (M - lp_reference_value la))"
proof -
  obtain u where u: "bp_ok (lp_bit_packed la)" "to_primitive F (lp_bit_packed la) = Some u"
      "length (pa_values u) = bp_original_len (lp_bit_packed la)" "length (pa_values u) = length (pa_values a)"
      "pa_items u = map (map_option (\<lambda>v. v - lp_reference_value la)) (pa_items a)"
    using assms(1) by (auto simp: offsets_def)
  with that pa_wf_to_primitive [OF u(1-3)] assms show thesis by (auto simp: offsets_def)
qed

lemma squeeze_clamps:
  fixes F :: "'w::len word fastlanes"
  assumes "fastlanes_ok F" and "LENGTH('w) \<le> 64" and "offsets F p la a"
    and "squeeze_integer F p la = Some (Some (SqClamped c, bs))"
  shows "clamps F p c a \<and> cl_reference_value c = lp_reference_value la \<and> bs = to_bytes_inner p la"
proof -
  let ?ref = "lp_reference_value la"
  obtain w where w: "bp_bit_width (lp_bit_packed la) = Some w" "8 \<le> w"
    using assms(4) by (auto simp: squeeze_integer_def Let_def split: option.splits if_splits)
  obtain u M where u: "to_primitive F (lp_bit_packed la) = Some u" "pa_wf u" "length (pa_values u) = length (pa_values a)"
    "pa_items u = map (map_option (\<lambda>v. v - ?ref)) (pa_items a)" "\<forall>v \<in> valid_values a. native_val p ?ref \<le> native_val p v"
    "w \<le> LENGTH('w)" "M \<in> valid_values a" "w = get_bit_width (ucast (M - ?ref))"
    by (rule offsetsD [OF assms(3) w(1)])
  let ?bw = "w div 2" and ?s = "sentinel_of (w div 2) :: 'w word"
  let ?f = "\<lambda>v. if v \<ge> ?s then ?s else v"
  let ?cu = "\<lparr>pa_values = map ?f (pa_values u), pa_nulls = pa_nulls u\<rparr>"
  have bw: "0 < ?bw" "?bw \<le> 32" "?bw \<le> LENGTH('w)" "max ?bw 1 = ?bw" using w(2) u(6) assms(2) by auto
  have c: "c = \<lparr>cl_squeezed = from_primitive F ?cu ?bw, cl_reference_value = ?ref\<rparr>" "bs = to_bytes_inner p la"
    using assms(4) w u(1) bw(4) by (auto simp: squeeze_integer_def Let_def split: integer_squeeze_policy.splits)
  have "pa_items ?cu = map (map_option ?f) (pa_items u)" by (rule pa_items_map)
  also have "\<dots> = map (map_option (clamp_offset ?bw ?ref)) (pa_items a)"
    unfolding u(4) map_map by (rule map_cong [OF refl]) (auto simp: option.map_comp o_def clamp_offset_def intro!: option.map_cong)
  finally have it: "pa_items ?cu = map (map_option (clamp_offset ?bw ?ref)) (pa_items a)" .
  have "take_bit ?bw ?s = ?s" using uint_sentinel(1) [OF bw(2,3)] by (simp add: take_bit_eq_mask)
  then have "take_bit ?bw v = v" if "v \<in> valid_values ?cu" for v
    using that take_bit_le_word [of _ ?s ?bw] unfolding valid_values_map [OF it] by (auto simp: clamp_offset_def not_le)
  moreover have "pa_wf ?cu" using u(2) by (simp add: pa_wf_def)
  ultimately have r: "bp_ok (from_primitive F ?cu ?bw)" "bp_bit_width (from_primitive F ?cu ?bw) = Some ?bw"
      "bp_original_len (from_primitive F ?cu ?bw) = length (pa_values u)"
      "\<exists>u'. to_primitive F (from_primitive F ?cu ?bw) = Some u' \<and> pa_wf u' \<and> length (pa_values u') = length (pa_values u) \<and> pa_items u' = pa_items ?cu"
    using repack_items [OF assms(1) bw(1,3) assms(2), of ?cu] by auto
  have "native_val p ?ref + (2 ^ ?bw - 1) < (if is_unsigned p then 2 ^ 64 else 2 ^ 63)"
    by (rule squeeze_room [OF assms(2) _ u(8) w(2)]) (use u(5,7) in blast)
  with r bw it u(5) c show ?thesis unfolding clamps_def by auto
qed

lemma squeeze_quantizes:
  fixes F :: "'w::len word fastlanes"
  assumes "fastlanes_ok F" and "LENGTH('w) \<le> 64" and "offsets F p la a"
    and "squeeze_integer F p la = Some (Some (SqQuantized q, bs))"
  shows "quantizes F p q a \<and> qz_reference_value q = lp_reference_value la \<and> bs = to_bytes_inner p la"
proof -
  let ?ref = "lp_reference_value la"
  obtain w where w: "bp_bit_width (lp_bit_packed la) = Some w" "8 \<le> w"
    using assms(4) by (auto simp: squeeze_integer_def Let_def split: option.splits if_splits)
  obtain u M where u: "to_primitive F (lp_bit_packed la) = Some u" "pa_wf u" "length (pa_values u) = length (pa_values a)"
    "pa_items u = map (map_option (\<lambda>v. v - ?ref)) (pa_items a)" "\<forall>v \<in> valid_values a. native_val p ?ref \<le> native_val p v"
    "w \<le> LENGTH('w)" "M \<in> valid_values a" "w = get_bit_width (ucast (M - ?ref))"
    by (rule offsetsD [OF assms(3) w(1)])
  let ?bw = "w div 2" and ?m = "fold max (pa_values u) 0"
  let ?W = "bucket_width_of (2 ^ ?bw) (unat ?m)"
  let ?f = "bucket_index ?W (2 ^ ?bw) :: 'w word \<Rightarrow> 'w word"
  let ?qu = "\<lparr>pa_values = map ?f (pa_values u), pa_nulls = pa_nulls u\<rparr>"
  have bw: "0 < ?bw" "?bw \<le> LENGTH('w)" "max ?bw 1 = ?bw" using w(2) u(6) by auto
  have q: "q = \<lparr>qz_quantized = from_primitive F ?qu ?bw, qz_reference_value = ?ref, qz_bucket_width = ?W\<rparr>" "bs = to_bytes_inner p la"
    using assms(4) w u(1) bw(3) by (auto simp: squeeze_integer_def Let_def split: integer_squeeze_policy.splits)
  have m64: "unat ?m < 2 ^ 64"
    by (rule order_less_le_trans [OF unsigned_less power_increasing [OF assms(2)]]) simp
  have idx: "unat (v - ?ref) div ?W < 2 ^ ?bw" "?f (v - ?ref) = of_nat (unat (v - ?ref) div ?W)" if "v \<in> valid_values a" for v
  proof -
    have "v - ?ref \<in> valid_values u" using that by (simp add: valid_values_map [OF u(4)])
    then obtain i where "i < length (pa_values u)" "pa_values u ! i = v - ?ref"
      by (auto simp: valid_values_def in_set_conv_nth pa_items_nth split: if_splits)
    then have "v - ?ref \<le> ?m" by (metis fold_max_ge nth_mem)
    then show b: "unat (v - ?ref) div ?W < 2 ^ ?bw"
      by (intro bucket_count_enough(1) [OF _ m64 bw(1)]) (simp add: word_le_nat_alt)
    then show "?f (v - ?ref) = of_nat (unat (v - ?ref) div ?W)" by (simp add: bucket_index_def Let_def)
  qed
  have "pa_items ?qu = map (map_option ?f) (pa_items u)" by (rule pa_items_map)
  also have "\<dots> = map (map_option (\<lambda>v. of_nat (unat (v - ?ref) div ?W))) (pa_items a)"
    unfolding u(4) map_map
  proof (rule map_cong [OF refl])
    fix x assume x: "x \<in> set (pa_items a)"
    show "(map_option ?f \<circ> map_option (\<lambda>v. v - ?ref)) x = map_option (\<lambda>v. of_nat (unat (v - ?ref) div ?W)) x"
      by (cases x) (use x idx(2) in \<open>auto simp: valid_values_def\<close>)
  qed
  finally have it: "pa_items ?qu = map (map_option (\<lambda>v. of_nat (unat (v - ?ref) div ?W))) (pa_items a)" .
  have "take_bit ?bw v = v" if v: "v \<in> valid_values ?qu" for v
  proof -
    obtain x where x: "x \<in> valid_values a" "v = of_nat (unat (x - ?ref) div ?W)" using v unfolding valid_values_map [OF it] by blast
    have "take_bit ?bw (unat (x - ?ref) div ?W) = unat (x - ?ref) div ?W" using idx(1) [OF x(1)] by (rule take_bit_nat_eq_self)
    then show ?thesis by (metis x(2) take_bit_of_nat)
  qed
  moreover have "pa_wf ?qu" using u(2) by (simp add: pa_wf_def)
  ultimately have r: "bp_ok (from_primitive F ?qu ?bw)" "bp_bit_width (from_primitive F ?qu ?bw) = Some ?bw"
      "bp_original_len (from_primitive F ?qu ?bw) = length (pa_values u)"
      "\<exists>u'. to_primitive F (from_primitive F ?qu ?bw) = Some u' \<and> pa_wf u' \<and> length (pa_values u') = length (pa_values u) \<and> pa_items u' = pa_items ?qu"
    using repack_items [OF assms(1) bw(1,2) assms(2), of ?qu] by auto
  with bw it u(5) q idx(1) bucket_count_enough(2) [OF order_refl m64 bw(1)] show ?thesis unfolding quantizes_def by auto
qed

section \<open>Filtering keeps the invariants\<close>

lemma filter_items_map: "filter_items (map f xs) sel = map f (filter_items xs sel)"
proof (induction xs arbitrary: sel)
  case (Cons x xs)
  then show ?case by (cases sel) (auto simp: filter_items_def)
qed (simp add: filter_items_def)

lemma set_filter_items: "set (filter_items xs sel) \<subseteq> set xs"
  by (auto simp: filter_items_def dest: set_zip_leftD)

lemma filter_repack:
  fixes F :: "'w::len word fastlanes"
  assumes "fastlanes_ok F" and "kernels_ok K" and "LENGTH('w) \<le> 64" and "pa_wf a" and "length sel = length (pa_values a)"
    and "pa_wf u" and "pa_items u = map (map_option g) (pa_items a)" and "0 < w" and "w \<le> LENGTH('w)"
    and "\<And>v. v \<in> valid_values a \<Longrightarrow> take_bit w (g v) = g v"
  defines "u' \<equiv> ak_filter K u sel" and "a' \<equiv> ak_filter K a sel"
  shows "pa_wf a' \<and> valid_values a' \<subseteq> valid_values a \<and> bp_ok (from_primitive F u' w)
    \<and> bp_bit_width (from_primitive F u' w) = Some w
    \<and> (\<exists>u2. to_primitive F (from_primitive F u' w) = Some u2 \<and> pa_wf u2
        \<and> length (pa_values u2) = bp_original_len (from_primitive F u' w) \<and> pa_items u2 = map (map_option g) (pa_items a'))"
proof -
  have lu: "length sel = length (pa_values u)" using assms(5,7) by (metis length_map length_pa_items)
  have fu: "pa_wf u'" "pa_items u' = filter_items (pa_items u) sel"
    using assms(2,6) lu unfolding kernels_ok_def u'_def by blast+
  have fa: "pa_wf a'" "pa_items a' = filter_items (pa_items a) sel"
    using assms(2,4,5) unfolding kernels_ok_def a'_def by blast+
  have it: "pa_items u' = map (map_option g) (pa_items a')" by (simp add: fu(2) fa(2) assms(7) filter_items_map)
  have sub: "valid_values a' \<subseteq> valid_values a" using set_filter_items by (fastforce simp: valid_values_def fa(2))
  then have "take_bit w v = v" if "v \<in> valid_values u'" for v
    using that assms(10) unfolding valid_values_map [OF it] by auto
  then show ?thesis using repack_items [OF assms(1,8,9,3) fu(1)] fa(1) sub it by fastforce
qed

lemma clamped_filter:
  fixes F :: "'w::len word fastlanes"
  assumes "fastlanes_ok F" and "kernels_ok K" and "LENGTH('w) \<le> 64" and "pa_wf a" and "length sel = length (pa_values a)" and "clamps F p c a"
  shows "\<exists>c'. clamped_filter_inner K F c sel = Some c' \<and> clamps F p c' (ak_filter K a sel)"
proof -
  obtain bw u where c: "bp_bit_width (cl_squeezed c) = Some bw" "0 < bw" "bw \<le> 32" "bw \<le> LENGTH('w)"
     "to_primitive F (cl_squeezed c) = Some u" "pa_wf u"
     "pa_items u = map (map_option (clamp_offset bw (cl_reference_value c))) (pa_items a)"
     "\<forall>v \<in> valid_values a. native_val p (cl_reference_value c) \<le> native_val p v"
     "native_val p (cl_reference_value c) + (2 ^ bw - 1) < (if is_unsigned p then 2 ^ 64 else 2 ^ 63)"
    using assms(6) by (auto simp: clamps_def)
  have t: "take_bit bw (clamp_offset bw (cl_reference_value c) v) = clamp_offset bw (cl_reference_value c) v" for v
  proof -
    have "take_bit bw (sentinel_of bw :: 'w word) = sentinel_of bw" using uint_sentinel(1) [OF c(3,4)] by (simp add: take_bit_eq_mask)
    then show ?thesis using take_bit_le_word [of "v - cl_reference_value c" "sentinel_of bw" bw] by (simp add: clamp_offset_def not_le)
  qed
  let ?c = "c\<lparr>cl_squeezed := from_primitive F (ak_filter K u sel) bw\<rparr>"
  have f: "clamped_filter_inner K F c sel = Some ?c" using c(1,5) by (simp add: clamped_filter_inner_def)
  note r = filter_repack [OF assms(1-5) c(6,7,2,4) t]
  then obtain u2 where u2: "to_primitive F (from_primitive F (ak_filter K u sel) bw) = Some u2" "pa_wf u2"
      "length (pa_values u2) = bp_original_len (from_primitive F (ak_filter K u sel) bw)"
      "pa_items u2 = map (map_option (clamp_offset bw (cl_reference_value c))) (pa_items (ak_filter K a sel))" by blast
  have "clamps F p ?c (ak_filter K a sel)"
    unfolding clamps_def by (rule exI [of _ bw], rule exI [of _ u2]) (use r u2 c in auto)
  with f show ?thesis by blast
qed

lemma quantized_filter:
  fixes F :: "'w::len word fastlanes"
  assumes "fastlanes_ok F" and "kernels_ok K" and "LENGTH('w) \<le> 64" and "pa_wf a" and "length sel = length (pa_values a)" and "quantizes F p q a"
  shows "\<exists>q'. quantized_filter_inner K F q sel = Some q' \<and> quantizes F p q' (ak_filter K a sel)
    \<and> qz_reference_value q' = qz_reference_value q"
proof -
  let ?g = "\<lambda>v. of_nat (unat (v - qz_reference_value q) div qz_bucket_width q) :: 'w word"
  obtain bw u where c: "bp_bit_width (qz_quantized q) = Some bw" "0 < bw" "bw \<le> LENGTH('w)"
     "to_primitive F (qz_quantized q) = Some u" "pa_wf u" "pa_items u = map (map_option ?g) (pa_items a)"
     "\<forall>v \<in> valid_values a. native_val p (qz_reference_value q) \<le> native_val p v
        \<and> unat (v - qz_reference_value q) div qz_bucket_width q < 2 ^ bw" "0 < qz_bucket_width q"
    using assms(6) by (auto simp: quantizes_def)
  have t: "take_bit bw (?g v) = ?g v" if "v \<in> valid_values a" for v
  proof -
    have "take_bit bw (unat (v - qz_reference_value q) div qz_bucket_width q) = unat (v - qz_reference_value q) div qz_bucket_width q"
      using c(7) that by (intro take_bit_nat_eq_self) blast
    then show ?thesis by (metis take_bit_of_nat)
  qed
  let ?q = "q\<lparr>qz_quantized := from_primitive F (ak_filter K u sel) bw\<rparr>"
  have f: "quantized_filter_inner K F q sel = Some ?q" using c(1,4) by (simp add: quantized_filter_inner_def)
  note r = filter_repack [OF assms(1-5) c(5,6,2,3) t]
  then obtain u2 where u2: "to_primitive F (from_primitive F (ak_filter K u sel) bw) = Some u2" "pa_wf u2"
      "length (pa_values u2) = bp_original_len (from_primitive F (ak_filter K u sel) bw)"
      "pa_items u2 = map (map_option ?g) (pa_items (ak_filter K a sel))" by blast
  have "quantizes F p ?q (ak_filter K a sel)"
    unfolding quantizes_def by (rule exI [of _ bw], rule exI [of _ u2]) (use r u2 c in auto)
  with f show ?thesis by simp
qed

section \<open>Answers with the disk behind them\<close>

lemma hydrate_items:
  fixes F :: "'w::len word fastlanes"
  assumes "encodes F la a" and "native_type p TYPE('w)" and "fits_u32 (lp_bit_packed la)"
  shows "\<exists>full. hydrate_full_arrow F p (to_bytes_inner p la) = Some full \<and> pa_wf full
    \<and> length (pa_values full) = length (pa_values a) \<and> pa_items full = pa_items a"
  using primitive_bytes_roundtrip [OF assms] by (auto simp: hydrate_full_arrow_def encodes_def)

text \<open>
  What the comparison kernel promises: it compares values, also after the cast of an integer
  column, or one of seconds, to seconds.
\<close>

definition cmp_ok :: "'w::len word cmp_kernel \<Rightarrow> bool" where
  "cmp_ok C \<longleftrightarrow> (\<forall>lhs p a op literal k. can_eval_without_cast lhs p \<longrightarrow> pa_wf a \<longrightarrow>
     native_of_literal p literal = Some (k :: 'w word) \<longrightarrow>
     (\<exists>m. C lhs p a op literal = Some m \<and> ba_items m = map (map_option (\<lambda>v. cmp_op op (native_val p v) (native_val p k))) (pa_items a)))"

lemma eval_or_hydrate_right:
  fixes F :: "'w::len word fastlanes"
  assumes "kernels_ok K" and "cmp_ok C" and "native_of_literal p literal = Some (k :: 'w word)"
    and "encodes F la a" and "native_type p TYPE('w)" and "fits_u32 (lp_bit_packed la)" and "length sel = length (pa_values a)"
    and "pa_wf a" and "can_eval_without_cast lhs p" and "r \<noteq> EvalPanic" and "r \<noteq> NotSupported"
    and "\<And>m. r = Mask m \<Longrightarrow> ba_items m = map (map_option (\<lambda>v. cmp_op op (native_val p v) (native_val p k))) (pa_items (ak_filter K a sel))"
  shows "\<exists>m. eval_or_hydrate K F C p r lhs sel op literal (to_bytes_inner p la) = Some (Some m)
    \<and> ba_items m = map (map_option (\<lambda>v. cmp_op op (native_val p v) (native_val p k))) (filter_items (pa_items a) sel)"
proof -
  have fa: "pa_items (ak_filter K a sel) = filter_items (pa_items a) sel"
    using assms(1,7,8) unfolding kernels_ok_def by blast
  obtain full where full: "hydrate_full_arrow F p (to_bytes_inner p la) = Some full" "pa_wf full"
      "length (pa_values full) = length (pa_values a)" "pa_items full = pa_items a"
    using hydrate_items [OF assms(4-6)] by blast
  have ff: "pa_wf (ak_filter K full sel)" "pa_items (ak_filter K full sel) = filter_items (pa_items a) sel"
    using assms(1,7) full unfolding kernels_ok_def by metis+
  obtain m where "C lhs p (ak_filter K full sel) op literal = Some m"
      "ba_items m = map (map_option (\<lambda>v. cmp_op op (native_val p v) (native_val p k))) (filter_items (pa_items a) sel)"
    using assms(2,3,9) ff unfolding cmp_ok_def by metis
  with full(1) assms(10-12) fa show ?thesis by (cases r) (auto simp: eval_or_hydrate_def)
qed

lemma clamped_predicate_right:
  fixes F :: "'w::len word fastlanes"
  assumes "fastlanes_ok F" and "kernels_ok K" and "cmp_ok C" and "native_type p TYPE('w)" and "pa_wf a" and "length sel = length (pa_values a)"
    and "native_of_literal p literal = Some (k :: 'w word)" and "encodes F la a" and "fits_u32 (lp_bit_packed la)" and "clamps F p c a"
    and "comparison_parts expr = Some (lhs, op, literal)" and "can_eval_without_cast lhs p"
  shows "\<exists>m. clamped_try_eval_predicate K F C p c sel expr (to_bytes_inner p la) = Some (Some m)
    \<and> ba_items m = map (map_option (\<lambda>v. cmp_op op (native_val p v) (native_val p k))) (filter_items (pa_items a) sel)"
proof -
  obtain c' where c': "clamped_filter_inner K F c sel = Some c'" "clamps F p c' (ak_filter K a sel)"
    using clamped_filter [OF assms(1,2) native_type_bits(1) [OF assms(4)] assms(5,6,10)] by blast
  let ?r = "clamped_try_eval F p c' op literal"
  have "?r \<noteq> EvalPanic" "?r \<noteq> NotSupported"
    "\<And>m. ?r = Mask m \<Longrightarrow> ba_items m = map (map_option (\<lambda>v. cmp_op op (native_val p v) (native_val p k))) (pa_items (ak_filter K a sel))"
    using clamped_eval_sound [OF c'(2), of literal op] assms(7) by (auto split: eval_result.splits)
  from eval_or_hydrate_right [OF assms(2,3,7,8,4,9,6,5,12) this] c'(1) assms(11,12) show ?thesis by (simp add: clamped_try_eval_predicate_def)
qed

lemma quantized_predicate_right:
  fixes F :: "'w::len word fastlanes"
  assumes "fastlanes_ok F" and "kernels_ok K" and "cmp_ok C" and "native_type p TYPE('w)" and "pa_wf a" and "length sel = length (pa_values a)"
    and "native_of_literal p literal = Some (k :: 'w word)" and "encodes F la a" and "fits_u32 (lp_bit_packed la)" and "quantizes F p q a"
    and "comparison_parts expr = Some (lhs, op, literal)" and "can_eval_without_cast lhs p"
    and "is_unsigned p \<or> native_val p k - native_val p (qz_reference_value q) < 2 ^ 63"
  shows "\<exists>m. quantized_try_eval_predicate K F C p q sel expr (to_bytes_inner p la) = Some (Some m)
    \<and> ba_items m = map (map_option (\<lambda>v. cmp_op op (native_val p v) (native_val p k))) (filter_items (pa_items a) sel)"
proof -
  obtain q' where q': "quantized_filter_inner K F q sel = Some q'" "quantizes F p q' (ak_filter K a sel)"
      "qz_reference_value q' = qz_reference_value q"
    using quantized_filter [OF assms(1,2) native_type_bits(1) [OF assms(4)] assms(5,6,10)] by blast
  let ?r = "quantized_try_eval F p q' op literal"
  have "?r \<noteq> EvalPanic" "?r \<noteq> NotSupported"
    "\<And>m. ?r = Mask m \<Longrightarrow> ba_items m = map (map_option (\<lambda>v. cmp_op op (native_val p v) (native_val p k))) (pa_items (ak_filter K a sel))"
    using quantized_eval_sound [OF q'(2), of literal op] assms(7,13) q'(3) by (auto split: eval_result.splits)
  from eval_or_hydrate_right [OF assms(2,3,7,8,4,9,6,5,12) this] q'(1) assms(11,12) show ?thesis by (simp add: quantized_try_eval_predicate_def)
qed

text \<open>Where the left side has to be cast, the answer is the kernel's on the selected rows of the full data.\<close>

lemma cast_predicate:
  fixes F :: "'w::len word fastlanes"
  assumes "fastlanes_ok F" and "kernels_ok K" and "native_type p TYPE('w)" and "pa_wf a" and "length sel = length (pa_values a)"
    and "encodes F la a" and "fits_u32 (lp_bit_packed la)" and "case s of SqClamped c \<Rightarrow> clamps F p c a | SqQuantized q \<Rightarrow> quantizes F p q a"
    and "comparison_parts expr = Some (lhs, op, literal)" and "\<not> can_eval_without_cast lhs p"
  shows "\<exists>b. squeezed_try_eval_predicate K F C p s sel expr (to_bytes_inner p la) = Some (C lhs p b op literal)
    \<and> pa_items b = filter_items (pa_items a) sel"
proof -
  note l = native_type_bits(1) [OF assms(3)]
  obtain full where full: "hydrate_full_arrow F p (to_bytes_inner p la) = Some full" "pa_wf full"
      "length (pa_values full) = length (pa_values a)" "pa_items full = pa_items a"
    using hydrate_items [OF assms(6,3,7)] by blast
  have "pa_items (ak_filter K full sel) = filter_items (pa_items a) sel"
    using assms(2,5) full unfolding kernels_ok_def by metis
  moreover have "squeezed_try_eval_predicate K F C p s sel expr (to_bytes_inner p la) = Some (C lhs p (ak_filter K full sel) op literal)"
  proof (cases s)
    case (SqClamped c)
    then show ?thesis using clamped_filter [OF assms(1,2) l assms(4,5), of p c] assms(8-10) full(1)
      by (auto simp: squeezed_try_eval_predicate_def clamped_try_eval_predicate_def eval_or_hydrate_def)
  next
    case (SqQuantized q)
    then show ?thesis using quantized_filter [OF assms(1,2) l assms(4,5), of p q] assms(8-10) full(1)
      by (auto simp: squeezed_try_eval_predicate_def quantized_try_eval_predicate_def eval_or_hydrate_def)
  qed
  ultimately show ?thesis by blast
qed

lemma known_only_items:
  fixes F :: "'w::len word fastlanes"
  assumes "clamps F p c a"
  shows "\<exists>r. to_arrow_known_only F c = Some r \<and> (\<forall>arr. r = Some arr \<longrightarrow> pa_items arr = pa_items a)"
proof -
  obtain bw u where c: "bp_ok (cl_squeezed c)" "bp_bit_width (cl_squeezed c) = Some bw"
      "to_primitive F (cl_squeezed c) = Some u" "length (pa_values u) = bp_original_len (cl_squeezed c)"
      "pa_items u = map (map_option (clamp_offset bw (cl_reference_value c))) (pa_items a)"
    using assms by (auto simp: clamps_def)
  let ?s = "sentinel_of bw :: 'w word" and ?ref = "cl_reference_value c"
  let ?arr = "\<lparr>pa_values = map (\<lambda>u. u + ?ref) (pa_values u), pa_nulls = pa_nulls u\<rparr>"
  let ?found = "list_ex (\<lambda>i. valid_at (bp_nulls (cl_squeezed c)) i \<and> pa_values u ! i = ?s) [0..<length (pa_values u)]"
  have "pa_items ?arr = pa_items a" if "\<not> ?found"
  proof (rule nth_equalityI)
    have l: "length (pa_values u) = length (pa_values a)" using c(5) by (metis length_map length_pa_items)
    then show "length (pa_items ?arr) = length (pa_items a)" by simp
    fix i assume "i < length (pa_items ?arr)"
    then have i: "i < length (pa_values u)" "i < length (pa_values a)" using l by simp_all
    have v: "valid_at (bp_nulls (cl_squeezed c)) i = valid_at (pa_nulls u) i"
      using valid_at_to_primitive [OF c(1,3)] c(4) i(1) by simp
    have it: "pa_items u ! i = map_option (clamp_offset bw ?ref) (pa_items a ! i)" using c(5) i(2) by simp
    have "pa_items u ! i \<noteq> Some ?s" using that i(1) v by (auto simp: list_ex_iff pa_items_nth)
    then have "map_option (\<lambda>u. u + ?ref) (pa_items u ! i) = pa_items a ! i"
      unfolding it by (cases "pa_items a ! i") (auto simp: clamp_offset_def)
    then show "pa_items ?arr ! i = pa_items a ! i" using i by (simp add: pa_items_map)
  qed
  then show ?thesis using c(2,3) by (simp add: to_arrow_known_only_def Let_def)
qed

section \<open>Kernels in full\<close>

text \<open>Instances of the parameters: the kernels computed from the items of an array.\<close>

definition array_of_items :: "'w::len word option list \<Rightarrow> 'w word prim_array" where
  "array_of_items xs = \<lparr>pa_values = map (case_option 0 id) xs, pa_nulls = Some (pack_bits (map (\<lambda>x. x \<noteq> None) xs))\<rparr>"

definition best_value :: "('a \<Rightarrow> 'a \<Rightarrow> bool) \<Rightarrow> 'a option list \<Rightarrow> 'a option" where
  "best_value better xs = fold (\<lambda>x m. case (x, m) of (None, _) \<Rightarrow> m | (Some v, None) \<Rightarrow> Some v
     | (Some v, Some w) \<Rightarrow> if better v w then Some v else Some w) xs None"

definition plain_kernels :: "'w::len word arrow_kernels" where
  "plain_kernels = \<lparr>ak_min = (\<lambda>p a. best_value (\<lambda>v w. native_val p v < native_val p w) (pa_items a)),
     ak_max = (\<lambda>p a. best_value (\<lambda>v w. native_val p w < native_val p v) (pa_items a)),
     ak_filter = (\<lambda>a sel. array_of_items (filter_items (pa_items a) sel))\<rparr>"

definition plain_cmp :: "'w::len word cmp_kernel" where
  "plain_cmp lhs p a op literal = map_option (\<lambda>k. \<lparr>ba_values = map (\<lambda>v. cmp_op op (native_val p v) (native_val p (k :: 'w word))) (pa_values a),
     ba_nulls = pa_nulls a\<rparr>) (native_of_literal p literal)"

lemma array_of_items [simp]: "pa_items (array_of_items xs) = xs" "pa_wf (array_of_items xs)"
proof -
  show "pa_items (array_of_items xs) = xs"
    by (intro nth_equalityI) (auto simp: pa_items_def array_of_items_def valid_at_def)
  show "pa_wf (array_of_items xs)" by (simp add: pa_wf_def nulls_fit_def array_of_items_def)
qed

lemma best_value_spec:
  fixes f :: "'a \<Rightarrow> int"
  shows "(best_value (\<lambda>v w. f v < f w) xs = None \<longrightarrow> {v. Some v \<in> set xs} = {})
    \<and> (\<forall>m. best_value (\<lambda>v w. f v < f w) xs = Some m \<longrightarrow> Some m \<in> set xs \<and> (\<forall>v. Some v \<in> set xs \<longrightarrow> f m \<le> f v))"
proof (induction xs rule: rev_induct)
  case (snoc x xs)
  show ?case
  proof (cases x)
    case None
    with snoc show ?thesis by (auto simp: best_value_def)
  next
    case (Some v)
    with snoc show ?thesis
      by (cases "best_value (\<lambda>v w. f v < f w) xs") (force simp: best_value_def)+
  qed
qed (simp add: best_value_def)

lemma plain_kernels_ok: "kernels_ok (plain_kernels :: 'w::len word arrow_kernels)"
proof -
  show ?thesis unfolding kernels_ok_def
  proof (intro allI impI conjI)
    fix p and a :: "'w word prim_array" and m and sel :: "bool list"
    show "valid_values a = {}" if "ak_min plain_kernels p a = None"
      using best_value_spec [of "native_val p" "pa_items a"] that by (simp add: plain_kernels_def valid_values_def)
    show "valid_values a = {}" if "ak_max plain_kernels p a = None"
      using best_value_spec [of "\<lambda>v. - native_val p v" "pa_items a"] that by (simp add: plain_kernels_def valid_values_def)
    show "m \<in> valid_values a" "\<forall>v \<in> valid_values a. native_val p m \<le> native_val p v" if "ak_min plain_kernels p a = Some m"
      using best_value_spec [of "native_val p" "pa_items a"] that by (simp_all add: plain_kernels_def valid_values_def)
    show "m \<in> valid_values a" "\<forall>v \<in> valid_values a. native_val p v \<le> native_val p m" if "ak_max plain_kernels p a = Some m"
      using best_value_spec [of "\<lambda>v. - native_val p v" "pa_items a"] that by (simp_all add: plain_kernels_def valid_values_def)
    show "pa_wf (ak_filter plain_kernels a sel)" "pa_items (ak_filter plain_kernels a sel) = filter_items (pa_items a) sel"
      by (simp_all add: plain_kernels_def)
  qed
qed

lemma plain_cmp_ok: "cmp_ok plain_cmp"
  unfolding cmp_ok_def by (simp add: plain_cmp_def ba_items_def pa_items_map)

end
