(* ===== verification/Date32.thy ===== *)
theory Date32
  imports HybridArray CacheEntry
begin

text \<open>
  Squeezed dates, \<^verbatim>\<open>src/storage/src/liquid_array/squeezed_date32_array.rs\<close>: one component (year,
  month, day or day of the week) of every date or timestamp of an array, bit-packed as offsets
  from the least one. The calendar arithmetic of the code works on \<open>i64\<close> values far from its
  bounds and is written on integers, with the truncating division of Rust and the final casts;
  an \<open>i32\<close> overflow that the code can reach is a panic, \<open>None\<close>.
\<close>

section \<open>The calendar of the code\<close>

definition rdiv :: "int \<Rightarrow> int \<Rightarrow> int" where
  "rdiv a b = (if a \<ge> 0 then a div b else - (- a div b))"

definition as_i32 :: "int \<Rightarrow> int" where
  "as_i32 k = signed_take_bit 31 k"

definition as_u32 :: "int \<Rightarrow> int" where
  "as_u32 k = take_bit 32 k"

definition year_of_era :: "int \<Rightarrow> int" where
  "year_of_era doe = rdiv (doe - rdiv doe 1460 + rdiv doe 36524 - rdiv doe 146096) 365"

definition ymd_from_epoch_days :: "int \<Rightarrow> int \<times> int \<times> int" where
  "ymd_from_epoch_days days_since_epoch =
     (let z = days_since_epoch + 719468;
          era = (if z \<ge> 0 then rdiv z 146097 else rdiv (z - 146096) 146097);
          doe = z - era * 146097;
          yoe = year_of_era doe;
          y = yoe + era * 400;
          doy = doe - (365 * yoe + rdiv yoe 4 - rdiv yoe 100);
          mp = rdiv (5 * doy + 2) 153;
          d = (doy - rdiv (153 * mp + 2) 5) + 1;
          m = mp + (if mp < 10 then 3 else - 9);
          y1 = (if m \<le> 2 then y + 1 else y)
      in (as_i32 y1, as_u32 m, as_u32 d))"

definition ymd_to_epoch_days :: "int \<Rightarrow> int \<Rightarrow> int \<Rightarrow> int" where
  "ymd_to_epoch_days year month day =
     (let y = year - (if month \<le> 2 then 1 else 0);
          era = (if y \<ge> 0 then rdiv y 400 else rdiv (y - 399) 400);
          yoe = y - era * 400;
          mp = month + (if month > 2 then - 3 else 9);
          doy = rdiv (153 * mp + 2) 5 + day - 1;
          doe = yoe * 365 + rdiv yoe 4 - rdiv yoe 100 + doy
      in as_i32 (era * 146097 + doe - 719468))"

section \<open>Components\<close>

datatype time_unit = Second | Millisecond | Microsecond | Nanosecond

text \<open>\<open>rem_euclid(7)\<close> after an addition that panics where it leaves the range of \<open>i32\<close>.\<close>

definition day_of_week_sunday0 :: "int \<Rightarrow> int option" where
  "day_of_week_sunday0 days_since_epoch =
     (if days_since_epoch + 4 < 2 ^ 31 then Some ((days_since_epoch + 4) mod 7) else None)"

definition component_from_days :: "date32_field \<Rightarrow> int \<Rightarrow> int option" where
  "component_from_days field days =
     (let (year, month, day) = ymd_from_epoch_days days in
      case field of
        Year \<Rightarrow> Some year
      | Month \<Rightarrow> Some (as_i32 month)
      | Day \<Rightarrow> Some (as_i32 day)
      | DayOfWeek \<Rightarrow> day_of_week_sunday0 days)"

definition timestamp_to_days_since_epoch :: "int \<Rightarrow> time_unit \<Rightarrow> int" where
  "timestamp_to_days_since_epoch value unit =
     (let ticks_per_day = (case unit of
            Second \<Rightarrow> 86400
          | Millisecond \<Rightarrow> 86400000
          | Microsecond \<Rightarrow> 86400000000
          | Nanosecond \<Rightarrow> 86400000000000)
      in as_i32 (value div ticks_per_day))"

record squeezed_date32_array =
  sd_field :: date32_field
  sd_bit_packed :: "32 word bit_packed_array"
  sd_reference_value :: int

text \<open>The loop that finds the least and greatest component of the valid rows.\<close>

fun component_bounds ::
  "date32_field \<Rightarrow> boolean_buffer option \<Rightarrow> nat \<Rightarrow> int list \<Rightarrow> bool \<times> int \<times> int \<Rightarrow> (bool \<times> int \<times> int) option" where
  "component_bounds field nulls i [] acc = Some acc"
| "component_bounds field nulls i (days # rest) (has_value, min_c, max_c) =
     (if \<not> valid_at nulls i then component_bounds field nulls (Suc i) rest (has_value, min_c, max_c)
      else case component_from_days field days of
        None \<Rightarrow> None
      | Some component \<Rightarrow> component_bounds field nulls (Suc i) rest
          (True, if component < min_c then component else min_c, if component > max_c then component else max_c))"

fun component_offsets ::
  "date32_field \<Rightarrow> boolean_buffer option \<Rightarrow> int \<Rightarrow> nat \<Rightarrow> int list \<Rightarrow> 32 word list option" where
  "component_offsets field nulls min_c i [] = Some []"
| "component_offsets field nulls min_c i (days # rest) =
     (if \<not> valid_at nulls i then map_option ((#) 0) (component_offsets field nulls min_c (Suc i) rest)
      else case component_from_days field days of
        None \<Rightarrow> None
      | Some component \<Rightarrow> map_option ((#) (word_of_int (component - min_c))) (component_offsets field nulls min_c (Suc i) rest))"

definition squeezed_null :: "date32_field \<Rightarrow> nat \<Rightarrow> squeezed_date32_array" where
  "squeezed_null field len = \<lparr>sd_field = field, sd_bit_packed = new_null_array len, sd_reference_value = 0\<rparr>"

text \<open>The body that \<open>from_liquid_date32\<close> and \<open>from_liquid_timestamp\<close> share, on the days of the rows.\<close>

definition squeeze_days ::
  "32 word fastlanes \<Rightarrow> date32_field \<Rightarrow> int list \<Rightarrow> boolean_buffer option \<Rightarrow> squeezed_date32_array option" where
  "squeeze_days F field days nulls =
     (let len = length days in
      if (\<exists>n. nulls = Some n \<and> null_count n = len) then Some (squeezed_null field len)
      else case component_bounds field nulls 0 days (False, 2 ^ 31 - 1, - (2 ^ 31)) of
        None \<Rightarrow> None
      | Some (has_value, min_component, max_component) \<Rightarrow>
          if \<not> has_value then Some (squeezed_null field len)
          else
            (let max_offset = word_of_int (max_component - min_component) :: u64;
                 bit_width = get_bit_width max_offset
             in case component_offsets field nulls min_component 0 days of
                  None \<Rightarrow> None
                | Some offs \<Rightarrow> Some \<lparr>sd_field = field,
                    sd_bit_packed = from_primitive F \<lparr>pa_values = offs, pa_nulls = nulls\<rparr> bit_width,
                    sd_reference_value = min_component\<rparr>))"

definition from_liquid_date32 ::
  "32 word fastlanes \<Rightarrow> 32 word liquid_primitive_array \<Rightarrow> date32_field \<Rightarrow> squeezed_date32_array option" where
  "from_liquid_date32 F la field =
     (case to_arrow_array F la of
        None \<Rightarrow> None
      | Some a \<Rightarrow> squeeze_days F field (map sint (pa_values a)) (pa_nulls a))"

definition from_liquid_timestamp ::
  "32 word fastlanes \<Rightarrow> 64 word fastlanes \<Rightarrow> 64 word liquid_primitive_array \<Rightarrow> time_unit \<Rightarrow> date32_field \<Rightarrow> squeezed_date32_array option" where
  "from_liquid_timestamp F G la unit field =
     (case to_arrow_array G la of
        None \<Rightarrow> None
      | Some a \<Rightarrow> squeeze_days F field (map (\<lambda>v. timestamp_to_days_since_epoch (sint v) unit) (pa_values a)) (pa_nulls a))"

section \<open>Reading components back\<close>

definition saturating_add_i32 :: "int \<Rightarrow> int \<Rightarrow> int" where
  "saturating_add_i32 a b = max (- (2 ^ 31)) (min (2 ^ 31 - 1) (a + b))"

definition to_component_date32 :: "32 word fastlanes \<Rightarrow> squeezed_date32_array \<Rightarrow> int prim_array option" where
  "to_component_date32 F s =
     map_option (\<lambda>u. \<lparr>pa_values = map (\<lambda>v. saturating_add_i32 (sint v) (sd_reference_value s)) (pa_values u), pa_nulls = pa_nulls u\<rparr>)
       (to_primitive F (sd_bit_packed s))"

definition lossy_day :: "date32_field \<Rightarrow> int \<Rightarrow> int" where
  "lossy_day field component =
     (case field of
        Year \<Rightarrow> ymd_to_epoch_days component 1 1
      | Month \<Rightarrow> ymd_to_epoch_days 1970 (as_u32 component) 1
      | Day \<Rightarrow> ymd_to_epoch_days 1970 1 (as_u32 component)
      | DayOfWeek \<Rightarrow> saturating_add_i32 (ymd_to_epoch_days 1970 1 4) component)"

definition to_arrow_date32_lossy :: "32 word fastlanes \<Rightarrow> squeezed_date32_array \<Rightarrow> int prim_array option" where
  "to_arrow_date32_lossy F s =
     map_option (\<lambda>u. \<lparr>pa_values = map (\<lambda>(i, off). if \<not> valid_at (pa_nulls u) i then 0
           else lossy_day (sd_field s) (sd_reference_value s + sint off)) (enumerate 0 (pa_values u)), pa_nulls = pa_nulls u\<rparr>)
       (to_primitive F (sd_bit_packed s))"

section \<open>The Gregorian calendar\<close>

definition leap_year :: "int \<Rightarrow> bool" where
  "leap_year y \<longleftrightarrow> y mod 4 = 0 \<and> (y mod 100 \<noteq> 0 \<or> y mod 400 = 0)"

definition days_in_month :: "int \<Rightarrow> int \<Rightarrow> int" where
  "days_in_month y m = (if m = 2 then (if leap_year y then 29 else 28) else if m \<in> {4, 6, 9, 11} then 30 else 31)"

definition valid_date :: "int \<times> int \<times> int \<Rightarrow> bool" where
  "valid_date = (\<lambda>(y, m, d). 1 \<le> m \<and> m \<le> 12 \<and> 1 \<le> d \<and> d \<le> days_in_month y m)"

fun next_date :: "int \<times> int \<times> int \<Rightarrow> int \<times> int \<times> int" where
  "next_date (y, m, d) =
     (if d < days_in_month y m then (y, m, d + 1) else if m < 12 then (y, m + 1, 1) else (y + 1, 1, 1))"

section \<open>Years of an era\<close>

text \<open>The first day of the March-based year \<open>y\<close> of an era, and of the one after it.\<close>

definition year_start :: "int \<Rightarrow> int" where
  "year_start y = 365 * y + y div 4 - y div 100"

definition year_stop :: "int \<Rightarrow> int" where
  "year_stop y = (if y = 399 then 146097 else year_start (y + 1))"

definition shifted :: "int \<Rightarrow> int" where
  "shifted x = x - x div 1460 + x div 36524 - x div 146096"

lemma rdiv_pos [simp]: "0 \<le> a \<Longrightarrow> rdiv a b = a div b"
  by (simp add: rdiv_def)

lemma shifted_step: "shifted x \<le> shifted (x + 1)"
proof -
  have "(x + 1) div 1460 \<le> x div 1460 + 1" by simp
  moreover have "x div 146096 = x div 36524 div 4" "(x + 1) div 146096 = (x + 1) div 36524 div 4"
    by (simp_all flip: zdiv_zmult2_eq)
  moreover have "x div 36524 \<le> (x + 1) div 36524" by (rule zdiv_mono1) simp_all
  moreover have "b div 4 - a div 4 \<le> b - a" if "a \<le> b" for a b :: int using that by presburger
  from this [of "x div 36524" "(x + 1) div 36524"]
  have "(x + 1) div 36524 div 4 - x div 36524 div 4 \<le> (x + 1) div 36524 - x div 36524" using calculation(4) by blast
  ultimately show ?thesis unfolding shifted_def by linarith
qed

lemma shifted_mono: "x \<le> y \<Longrightarrow> shifted x \<le> shifted y"
  by (induction y rule: int_ge_induct) (use shifted_step order_trans in auto)

lemma year_table: "list_all (\<lambda>y. 365 * y \<le> shifted (year_start y) \<and> shifted (year_stop y - 1) < 365 * (y + 1)
    \<and> year_stop y - year_start y = (if leap_year (y + 1) then 366 else 365)) [0..399]"
  by code_simp

lemma year_facts:
  assumes "0 \<le> y" and "y \<le> 399"
  shows "365 * y \<le> shifted (year_start y)" and "shifted (year_stop y - 1) < 365 * (y + 1)"
    and "year_stop y - year_start y = (if leap_year (y + 1) then 366 else 365)" and "0 \<le> year_start y"
proof -
  have "y \<in> set [0..399]" using assms by simp
  then show "365 * y \<le> shifted (year_start y)" "shifted (year_stop y - 1) < 365 * (y + 1)"
    "year_stop y - year_start y = (if leap_year (y + 1) then 366 else 365)"
    using year_table unfolding list_all_iff by blast+
  have "y div 100 \<le> y" using assms zdiv_mono1 [of 0 y 100] div_le_dividend by (simp add: div_le_mono int_div_less_self pos_imp_zdiv_nonneg_iff)
  then show "0 \<le> year_start y" using assms by (simp add: year_start_def)
qed

lemma year_of_era_interval:
  assumes "0 \<le> y" and "y \<le> 399" and "year_start y \<le> x" and "x < year_stop y"
  shows "year_of_era x = y"
proof -
  have "365 * y \<le> shifted x" "shifted x < 365 * (y + 1)"
    using year_facts(1,2) [OF assms(1,2)] shifted_mono [OF assms(3)] shifted_mono [of x "year_stop y - 1"] assms(4) by linarith+
  moreover have "0 \<le> x" using year_facts(4) [OF assms(1,2)] assms(3) by linarith
  ultimately show ?thesis
    using assms(1) int_div_pos_eq [of "shifted x" 365 y "shifted x - 365 * y"] by (simp add: year_of_era_def flip: shifted_def)
qed

lemma year_exists:
  assumes "0 \<le> x" and "x < 146097"
  obtains y where "0 \<le> y" "y \<le> 399" "year_start y \<le> x" "x < year_stop y"
proof -
  have "\<exists>y. 0 \<le> y \<and> y \<le> int n \<and> year_start y \<le> x \<and> x < year_stop y" if "x < year_stop (int n)" "n \<le> 399" for n
    using that
  proof (induction n)
    case 0
    then show ?case using assms(1) by (intro exI [of _ 0]) (simp add: year_start_def)
  next
    case (Suc n)
    show ?case
    proof (cases "year_start (int (Suc n)) \<le> x")
      case True
      then show ?thesis using Suc.prems by (intro exI [of _ "int (Suc n)"]) simp
    next
      case False
      have "int n \<noteq> 399" using Suc.prems(2) by simp
      then have "x < year_stop (int n)" using False by (simp add: year_stop_def add.commute)
      then show ?thesis using Suc.IH Suc.prems(2) by fastforce
    qed
  qed
  from this [of 399] assms(2) that show thesis by (auto simp: year_stop_def)
qed

section \<open>Days of a year that starts in March\<close>

definition march_month :: "int \<Rightarrow> int" where
  "march_month doy = (5 * doy + 2) div 153"

definition march_day :: "int \<Rightarrow> int" where
  "march_day doy = doy - (153 * march_month doy + 2) div 5 + 1"

definition civil_month :: "int \<Rightarrow> int" where
  "civil_month mp = (if mp < 10 then mp + 3 else mp - 9)"

definition march_len :: "int \<Rightarrow> int" where
  "march_len mp = (if mp = 11 then 29 else if mp \<in> {1, 3, 6, 8} then 30 else 31)"

lemma day_table: "list_all (\<lambda>doy. 0 \<le> march_month doy \<and> march_month doy \<le> 11 \<and> 1 \<le> march_day doy
    \<and> march_day doy \<le> march_len (march_month doy) \<and> (doy = 365 \<longleftrightarrow> march_month doy = 11 \<and> march_day doy = 29)
    \<and> (doy = 364 \<longleftrightarrow> march_month doy = 11 \<and> march_day doy = 28)) [0..365]"
  by code_simp

lemma day_step_table: "list_all (\<lambda>doy. if march_day doy < march_len (march_month doy)
    then march_month (doy + 1) = march_month doy \<and> march_day (doy + 1) = march_day doy + 1
    else march_month (doy + 1) = march_month doy + 1 \<and> march_day (doy + 1) = 1) [0..364]"
  by code_simp

lemma day_inverse_table: "list_all (\<lambda>mp. list_all (\<lambda>d. d \<le> march_len mp \<longrightarrow>
    0 \<le> (153 * mp + 2) div 5 + d - 1 \<and> (153 * mp + 2) div 5 + d - 1 \<le> 365
    \<and> march_month ((153 * mp + 2) div 5 + d - 1) = mp \<and> march_day ((153 * mp + 2) div 5 + d - 1) = d) [1..31]) [0..11]"
  by code_simp

lemma day_facts:
  assumes "0 \<le> doy" and "doy \<le> 365"
  shows "0 \<le> march_month doy" "march_month doy \<le> 11" "1 \<le> march_day doy" "march_day doy \<le> march_len (march_month doy)"
    "doy = 365 \<longleftrightarrow> march_month doy = 11 \<and> march_day doy = 29" "doy = 364 \<longleftrightarrow> march_month doy = 11 \<and> march_day doy = 28"
proof -
  have "doy \<in> set [0..365]" using assms by simp
  then show "0 \<le> march_month doy" "march_month doy \<le> 11" "1 \<le> march_day doy" "march_day doy \<le> march_len (march_month doy)"
    "doy = 365 \<longleftrightarrow> march_month doy = 11 \<and> march_day doy = 29" "doy = 364 \<longleftrightarrow> march_month doy = 11 \<and> march_day doy = 28"
    using day_table unfolding list_all_iff by blast+
qed

text \<open>The date of a day given by its era, its March-based year in the era and its day in that year.\<close>

definition march_date :: "int \<Rightarrow> int \<Rightarrow> int \<Rightarrow> int \<times> int \<times> int" where
  "march_date era yoe doy = (let m = civil_month (march_month doy)
     in (yoe + era * 400 + (if m \<le> 2 then 1 else 0), m, march_day doy))"

definition day_at :: "int \<Rightarrow> int \<Rightarrow> int \<Rightarrow> int \<Rightarrow> bool" where
  "day_at n era yoe doy \<longleftrightarrow> n + 719468 = era * 146097 + year_start yoe + doy \<and> 0 \<le> yoe \<and> yoe \<le> 399 \<and> 0 \<le> doy
     \<and> year_start yoe + doy < year_stop yoe"

lemma floor_div:
  assumes "0 < (b :: int)" and "c = b - 1"
  shows "(if z \<ge> 0 then rdiv z b else rdiv (z - c) b) = z div b"
proof (cases "z \<ge> 0")
  case False
  have "b - 1 - z = b * (- (z div b)) + (b - 1 - z mod b)" by (simp add: minus_mod_eq_mult_div [symmetric] algebra_simps)
  then have "(b - 1 - z) div b = - (z div b)"
    by (rule int_div_pos_eq) (use pos_mod_bound [OF assms(1), of z] pos_mod_sign [OF assms(1), of z] in linarith)+
  with False assms show ?thesis by (auto simp: rdiv_def)
qed simp

lemma leap_year_era: "leap_year (yoe + era * 400 + 1) = leap_year (yoe + 1)"
proof -
  have "(yoe + era * 400 + 1) mod k = (yoe + 1) mod k" if "k dvd 400" for k
  proof -
    from that obtain c where "400 = k * c" by (elim dvdE)
    then have "yoe + era * 400 + 1 = (yoe + 1) + k * (c * era)" by simp
    then show ?thesis by (simp only: mod_mult_self2)
  qed
  then show ?thesis by (simp add: leap_year_def)
qed

lemma day_exists:
  obtains era yoe doy where "day_at n era yoe doy"
proof -
  let ?z = "n + 719468"
  have "0 \<le> ?z mod 146097" "?z mod 146097 < 146097" by simp_all
  then obtain y where y: "0 \<le> y" "y \<le> 399" "year_start y \<le> ?z mod 146097" "?z mod 146097 < year_stop y" by (rule year_exists)
  have "day_at n (?z div 146097) y (?z mod 146097 - year_start y)"
    using y div_mult_mod_eq [of ?z 146097] by (simp add: day_at_def)
  then show thesis by (rule that)
qed

lemma day_at_bounds:
  assumes "day_at n era yoe doy"
  shows "doy \<le> 365" and "(n + 719468) div 146097 = era" and "n + 719468 - era * 146097 = year_start yoe + doy"
    and "year_of_era (year_start yoe + doy) = yoe" and "doy = 365 \<Longrightarrow> leap_year (yoe + era * 400 + 1)"
proof -
  note d = assms [unfolded day_at_def]
  have len: "year_stop yoe - year_start yoe = (if leap_year (yoe + 1) then 366 else 365)" using d year_facts(3) by blast
  then show "doy \<le> 365" using d by (auto split: if_splits)
  show "n + 719468 - era * 146097 = year_start yoe + doy" using d by simp
  show "year_of_era (year_start yoe + doy) = yoe" using d by (intro year_of_era_interval) auto
  have "year_stop yoe \<le> 146097"
  proof (cases "yoe = 399")
    case False
    have "year_start (yoe + 1) \<le> 365 * (yoe + 1) + (yoe + 1) div 4" using d by (simp add: year_start_def pos_imp_zdiv_nonneg_iff)
    also have "\<dots> \<le> 365 * 399 + 399 div 4" using d False zdiv_mono1 [of "yoe + 1" 399 4] by simp
    finally show ?thesis using False by (simp add: year_stop_def)
  qed (simp add: year_stop_def)
  moreover have "0 \<le> year_start yoe" using d year_facts(4) by blast
  ultimately show "(n + 719468) div 146097 = era"
    using d by (intro int_div_pos_eq [of _ 146097 era "year_start yoe + doy"]) simp_all
  assume "doy = 365"
  then have "leap_year (yoe + 1)" using d len by (auto split: if_splits)
  then show "leap_year (yoe + era * 400 + 1)" by (simp add: leap_year_era)
qed

section \<open>The code computes the Gregorian calendar\<close>

definition i32_day :: "int \<Rightarrow> bool" where
  "i32_day n \<longleftrightarrow> - (2 ^ 31) \<le> n \<and> n < 2 ^ 31"

lemma as_i32_id: "i32_day k \<Longrightarrow> as_i32 k = k"
  by (simp add: as_i32_def i32_day_def signed_take_bit_int_eq_self)

lemma as_u32_id: "0 \<le> k \<Longrightarrow> k < 2 ^ 32 \<Longrightarrow> as_u32 k = k"
  by (simp add: as_u32_def take_bit_int_eq_self)

lemma ymd_march:
  assumes "day_at n era yoe doy" and "i32_day n"
  shows "ymd_from_epoch_days n = march_date era yoe doy"
proof -
  note d = assms(1) [unfolded day_at_def] and b = day_at_bounds [OF assms(1)]
  have doy: "0 \<le> doy" "doy \<le> 365" using d b(1) by auto
  note f = day_facts [OF doy]
  have era: "(if n + 719468 \<ge> 0 then rdiv (n + 719468) 146097 else rdiv (n + 719468 - 146096) 146097) = era"
    by (subst floor_div) (simp_all add: b(2))
  have ys: "365 * yoe + rdiv yoe 4 - rdiv yoe 100 = year_start yoe" using d by (simp add: year_start_def)
  have mp: "rdiv (5 * doy + 2) 153 = march_month doy" "rdiv (153 * march_month doy + 2) 5 = (153 * march_month doy + 2) div 5"
    using doy f(1) by (simp_all add: march_month_def)
  have m: "march_month doy + (if march_month doy < 10 then 3 else - 9) = civil_month (march_month doy)"
    by (simp add: civil_month_def)
  have "march_len (march_month doy) \<le> 31" by (simp add: march_len_def)
  then have c: "as_u32 (civil_month (march_month doy)) = civil_month (march_month doy)" "as_u32 (march_day doy) = march_day doy"
    using f(1-4) by (intro as_u32_id; simp add: civil_month_def)+
  have "0 \<le> year_start yoe" "year_start yoe + doy < 146097" using d year_facts(4) b(2,3) pos_mod_bound [of 146097 "n + 719468"]
      minus_div_mult_eq_mod [of "n + 719468" 146097] by auto
  then have "\<bar>era\<bar> \<le> 15000" using d assms(2) by (auto simp: i32_day_def)
  then have "- 15000 \<le> era" "era \<le> 15000" "0 \<le> yoe" "yoe \<le> 399" using d by auto
  then have "i32_day (yoe + era * 400)" "i32_day (yoe + era * 400 + 1)" by (simp_all add: i32_day_def)
  then have y: "as_i32 (yoe + era * 400) = yoe + era * 400" "as_i32 (yoe + era * 400 + 1) = yoe + era * 400 + 1"
    by (simp_all add: as_i32_id)
  show ?thesis
    unfolding ymd_from_epoch_days_def Let_def era b(3,4) ys add_diff_cancel_left' mp m
    by (simp add: march_date_def Let_def c y flip: march_day_def)
qed

lemma march_valid:
  assumes "day_at n era yoe doy"
  shows "valid_date (march_date era yoe doy)"
proof -
  have doy: "0 \<le> doy" "doy \<le> 365" using assms day_at_bounds(1) by (auto simp: day_at_def)
  note f = day_facts [OF doy]
  have "march_day doy \<le> days_in_month (yoe + era * 400 + (if civil_month (march_month doy) \<le> 2 then 1 else 0)) (civil_month (march_month doy))"
  proof (cases "march_month doy = 11")
    case True
    then have "march_day doy = 29 \<Longrightarrow> leap_year (yoe + era * 400 + 1)" using f(5) day_at_bounds(5) [OF assms] by blast
    moreover have "march_day doy \<le> 29" using f(4) True by (simp add: march_len_def)
    ultimately have "march_day doy \<le> (if leap_year (yoe + era * 400 + 1) then 29 else 28)" by (cases "march_day doy = 29") auto
    then show ?thesis using True by (simp add: civil_month_def days_in_month_def)
  next
    case False
    then have "days_in_month y (civil_month (march_month doy)) = march_len (march_month doy)" for y
      using f(1,2) by (auto simp: days_in_month_def civil_month_def march_len_def split: if_splits)
    with f(4) show ?thesis by simp
  qed
  with f(1-3) show ?thesis by (auto simp: valid_date_def march_date_def Let_def civil_month_def)
qed

lemma march_next:
  assumes "day_at n era yoe doy"
  shows "\<exists>era' yoe' doy'. day_at (n + 1) era' yoe' doy' \<and> march_date era' yoe' doy' = next_date (march_date era yoe doy)"
proof -
  note d = assms [unfolded day_at_def] and b = day_at_bounds [OF assms]
  have doy: "0 \<le> doy" "doy \<le> 365" using d b(1) by auto
  note f = day_facts [OF doy]
  let ?m = "march_month doy" and ?Y = "yoe + era * 400 + 1"
  have len: "year_stop yoe - year_start yoe = (if leap_year (yoe + 1) then 366 else 365)" using d year_facts(3) by blast
  show ?thesis
  proof (cases "year_start yoe + doy + 1 < year_stop yoe")
    case True
    then have "doy \<le> 364" using len by (auto split: if_splits)
    then have "doy \<in> set [0..364]" using doy by simp
    with day_step_table have st: "if march_day doy < march_len ?m then march_month (doy + 1) = ?m \<and> march_day (doy + 1) = march_day doy + 1
        else march_month (doy + 1) = ?m + 1 \<and> march_day (doy + 1) = 1"
      unfolding list_all_iff by blast
    have da: "day_at (n + 1) era yoe (doy + 1)" using d True by (simp add: day_at_def)
    have leap: "doy = 364 \<Longrightarrow> leap_year ?Y" using day_at_bounds(5) [OF da] by simp
    have "march_date era yoe (doy + 1) = next_date (march_date era yoe doy)"
    proof (cases "?m = 11")
      case True
      then have "march_day doy \<noteq> 29" "march_day doy \<le> 29" using f(4,5) \<open>doy \<le> 364\<close> by (auto simp: march_len_def)
      then have "march_day doy \<le> 28" by linarith
      moreover have "march_day doy = 28 \<Longrightarrow> leap_year ?Y" using f(6) leap True by blast
      ultimately have "march_day doy < (if leap_year ?Y then 29 else 28)" by (cases "march_day doy = 28") auto
      then show ?thesis using st True \<open>march_day doy \<le> 28\<close>
        by (simp add: march_date_def Let_def civil_month_def days_in_month_def march_len_def)
    next
      case False
      then have "days_in_month y (civil_month ?m) = march_len ?m" for y
        using f(1,2) by (auto simp: days_in_month_def civil_month_def march_len_def split: if_splits)
      moreover have "march_len ?m = 31" if "?m = 9" using that by (simp add: march_len_def)
      ultimately show ?thesis using st False f(1,2) by (auto simp: march_date_def Let_def civil_month_def split: if_splits)
    qed
    with da show ?thesis by blast
  next
    case False
    then have last: "year_start yoe + doy + 1 = year_stop yoe" using d by simp
    have "doy = (if leap_year (yoe + 1) then 365 else 364)" using last len by (auto split: if_splits)
    then have "march_month doy = 11" "march_day doy = (if leap_year ?Y then 29 else 28)"
      using f(5,6) by (cases "leap_year (yoe + 1)"; simp add: leap_year_era)+
    then have nx: "next_date (march_date era yoe doy) = (?Y, 3, 1)"
      by (simp add: march_date_def Let_def civil_month_def days_in_month_def)
    show ?thesis
    proof (cases "yoe = 399")
      case True
      then have "day_at (n + 1) (era + 1) 0 0" using d last by (simp add: day_at_def year_start_def year_stop_def)
      moreover have "march_date (era + 1) 0 0 = (?Y, 3, 1)" using True by (simp add: march_date_def Let_def civil_month_def march_month_def march_day_def)
      ultimately show ?thesis using nx by metis
    next
      case False
      have "year_start (yoe + 1) < year_stop (yoe + 1)" using year_facts(3) [of "yoe + 1"] d False by (auto split: if_splits)
      then have "day_at (n + 1) era (yoe + 1) 0" using d last False by (simp add: day_at_def year_stop_def)
      moreover have "march_date era (yoe + 1) 0 = (?Y, 3, 1)" by (simp add: march_date_def Let_def civil_month_def march_month_def march_day_def)
      ultimately show ?thesis using nx by metis
    qed
  qed
qed

lemma to_epoch_days_march:
  assumes "day_at n era yoe doy" and "i32_day n" and "march_date era yoe doy = (y, m, d)"
  shows "ymd_to_epoch_days y m d = n"
proof -
  note D = assms(1) [unfolded day_at_def]
  have doy: "0 \<le> doy" "doy \<le> 365" using D day_at_bounds(1) [OF assms(1)] by auto
  note f = day_facts [OF doy]
  have e: "m = civil_month (march_month doy)" "d = march_day doy" "y - (if m \<le> 2 then 1 else 0) = yoe + era * 400"
    using assms(3) by (auto simp: march_date_def Let_def)
  have mp: "m + (if m > 2 then - 3 else 9) = march_month doy" using f(1,2) by (auto simp: e(1) civil_month_def)
  have era: "(if yoe + era * 400 \<ge> 0 then rdiv (yoe + era * 400) 400 else rdiv (yoe + era * 400 - 399) 400) = era"
    using D int_div_pos_eq [of "yoe + era * 400" 400 era yoe] by (subst floor_div) simp_all
  have ys: "yoe * 365 + rdiv yoe 4 - rdiv yoe 100 = year_start yoe" using D by (simp add: year_start_def)
  have "rdiv (153 * march_month doy + 2) 5 + d - 1 = doy" using f(1) by (simp add: e(2) march_day_def)
  moreover have n: "era * 146097 + (year_start yoe + doy) - 719468 = n" using D by simp
  moreover have "as_i32 (era * 146097 + (year_start yoe + doy) - 719468) = n" unfolding n by (rule as_i32_id [OF assms(2)])
  ultimately show ?thesis
    unfolding ymd_to_epoch_days_def Let_def e(3) mp era using D ys by simp
qed

lemma date_day_at:
  assumes "valid_date (y, m, d)"
  obtains n era yoe doy where "day_at n era yoe doy" "march_date era yoe doy = (y, m, d)"
proof -
  define mp where "mp = m + (if m > 2 then - 3 else 9)"
  define y' where "y' = y - (if m \<le> 2 then 1 else 0)"
  define doy where "doy = (153 * mp + 2) div 5 + d - 1"
  let ?era = "y' div 400" and ?yoe = "y' mod 400"
  have v: "1 \<le> m" "m \<le> 12" "1 \<le> d" "d \<le> days_in_month y m" using assms by (auto simp: valid_date_def)
  have mp: "0 \<le> mp" "mp \<le> 11" "civil_month mp = m" using v by (auto simp: mp_def civil_month_def)
  have dl: "d \<le> march_len mp" "d \<le> 31"
    using v by (auto simp: mp_def march_len_def days_in_month_def split: if_splits)
  have "mp \<in> set [0..11]" "d \<in> set [1..31]" using mp v dl by simp_all
  then have t: "0 \<le> doy" "doy \<le> 365" "march_month doy = mp" "march_day doy = d"
    using day_inverse_table dl(1) unfolding list_all_iff doy_def by blast+
  have yoe: "0 \<le> ?yoe" "?yoe \<le> 399" using pos_mod_bound [of 400 y'] by simp_all
  have y': "?yoe + ?era * 400 = y'" by simp
  have "doy < year_stop ?yoe - year_start ?yoe"
  proof (cases "doy = 365")
    case True
    then have "mp = 11" "d = 29" using day_facts(5) [OF t(1,2)] t(3,4) by auto
    then have "m = 2" using mp(3) by (simp add: civil_month_def)
    with v \<open>d = 29\<close> have "leap_year y" by (auto simp: days_in_month_def split: if_splits)
    then have "leap_year (?yoe + 1)" using leap_year_era [of ?yoe ?era] \<open>m = 2\<close> y' by (simp add: y'_def)
    then show ?thesis using year_facts(3) [OF yoe] True by simp
  next
    case False
    then show ?thesis using year_facts(3) [OF yoe] t(2) by (simp split: if_splits)
  qed
  then have "day_at (?era * 146097 + year_start ?yoe + doy - 719468) ?era ?yoe doy" using yoe t(1) by (simp add: day_at_def)
  moreover have "march_date ?era ?yoe doy = (y, m, d)" using t(3,4) mp(3) y' by (simp add: march_date_def Let_def y'_def)
  ultimately show thesis by (rule that)
qed

lemma day_at_year_bound:
  assumes "day_at n era yoe doy" and "march_date era yoe doy = (y, m, d)" and "\<bar>y\<bar> \<le> 5800000"
  shows "i32_day n"
proof -
  have "year_start yoe + doy < 146097" "0 \<le> year_start yoe" "0 \<le> doy" "yoe \<le> 399" "0 \<le> yoe"
    using day_at_bounds(2,3) [OF assms(1)] assms(1) year_facts(4) pos_mod_bound [of 146097 "n + 719468"]
      minus_div_mult_eq_mod [of "n + 719468" 146097] by (auto simp: day_at_def)
  moreover have "yoe + era * 400 \<le> y" "y \<le> yoe + era * 400 + 1" using assms(2) by (auto simp: march_date_def Let_def split: if_splits)
  moreover have "n + 719468 = era * 146097 + year_start yoe + doy" using assms(1) by (simp add: day_at_def)
  ultimately show ?thesis using assms(3) by (simp add: i32_day_def abs_le_iff)
qed

lemma ymd_from_to:
  assumes "valid_date (y, m, d)" and "\<bar>y\<bar> \<le> 5800000"
  shows "ymd_from_epoch_days (ymd_to_epoch_days y m d) = (y, m, d)"
proof -
  obtain n era yoe doy where n: "day_at n era yoe doy" "march_date era yoe doy = (y, m, d)" by (rule date_day_at [OF assms(1)])
  have i: "i32_day n" by (rule day_at_year_bound [OF n assms(2)])
  show ?thesis using to_epoch_days_march [OF n(1) i n(2)] ymd_march [OF n(1) i] n(2) by simp
qed

lemma calendar:
  assumes "i32_day n"
  shows "valid_date (ymd_from_epoch_days n)" and "(case ymd_from_epoch_days n of (y, m, d) \<Rightarrow> ymd_to_epoch_days y m d) = n"
    and "i32_day (n + 1) \<Longrightarrow> ymd_from_epoch_days (n + 1) = next_date (ymd_from_epoch_days n)"
proof -
  obtain era yoe doy where d: "day_at n era yoe doy" by (rule day_exists)
  note y = ymd_march [OF d assms]
  show "valid_date (ymd_from_epoch_days n)" unfolding y by (rule march_valid [OF d])
  show "(case ymd_from_epoch_days n of (y, m, d) \<Rightarrow> ymd_to_epoch_days y m d) = n"
    unfolding y using to_epoch_days_march [OF d assms] by (simp split: prod.splits)
  assume i: "i32_day (n + 1)"
  obtain era' yoe' doy' where "day_at (n + 1) era' yoe' doy'" "march_date era' yoe' doy' = next_date (march_date era yoe doy)"
    using march_next [OF d] by blast
  with ymd_march [OF _ i] y show "ymd_from_epoch_days (n + 1) = next_date (ymd_from_epoch_days n)" by simp
qed

section \<open>Components\<close>

definition safe_day :: "int \<Rightarrow> bool" where
  "safe_day n \<longleftrightarrow> \<bar>n\<bar> \<le> 2110000000"

lemma safe_day_ymd:
  assumes "safe_day n" and "ymd_from_epoch_days n = (y, m, d)"
  shows "\<bar>y\<bar> \<le> 5800000" and "valid_date (y, m, d)" and "d \<le> 31"
proof -
  have i: "i32_day n" using assms(1) by (auto simp: safe_day_def i32_day_def abs_le_iff)
  obtain era yoe doy where D: "day_at n era yoe doy" by (rule day_exists)
  have e: "march_date era yoe doy = (y, m, d)" using ymd_march [OF D i] assms(2) by simp
  have "year_start yoe + doy < 146097" "0 \<le> year_start yoe" "0 \<le> doy" "yoe \<le> 399" "0 \<le> yoe"
    using day_at_bounds(2,3) [OF D] D year_facts(4) pos_mod_bound [of 146097 "n + 719468"]
      minus_div_mult_eq_mod [of "n + 719468" 146097] by (auto simp: day_at_def)
  moreover have "yoe + era * 400 \<le> y" "y \<le> yoe + era * 400 + 1" using e by (auto simp: march_date_def Let_def split: if_splits)
  moreover have "n + 719468 = era * 146097 + year_start yoe + doy" using D by (simp add: day_at_def)
  ultimately show "\<bar>y\<bar> \<le> 5800000" using assms(1) by (simp add: safe_day_def abs_le_iff)
  show v: "valid_date (y, m, d)" using calendar(1) [OF i] assms(2) by simp
  then show "d \<le> 31" by (auto simp: valid_date_def days_in_month_def split: if_splits)
qed

lemma component_safe:
  assumes "safe_day n"
  shows "\<exists>c. component_from_days field n = Some c \<and> \<bar>c\<bar> \<le> 5800000 \<and> component_from_days field (lossy_day field c) = Some c"
proof -
  obtain y m d where e: "ymd_from_epoch_days n = (y, m, d)" by (metis prod_cases3)
  note s = safe_day_ymd [OF assms e]
  have md: "1 \<le> m" "m \<le> 12" "1 \<le> d" "d \<le> 31" using s by (auto simp: valid_date_def)
  have cast: "as_i32 k = k" "as_u32 k = k" if "1 \<le> k" "k \<le> 31" for k
    using that by (auto intro!: as_i32_id as_u32_id simp: i32_day_def)
  have r: "ymd_from_epoch_days (ymd_to_epoch_days Y M D) = (Y, M, D)" if "valid_date (Y, M, D)" "\<bar>Y\<bar> \<le> 5800000" for Y M D
    by (rule ymd_from_to [OF that])
  show ?thesis
  proof (cases field)
    case Year
    then show ?thesis using e s(1) r [of y 1 1]
      by (simp add: component_from_days_def lossy_day_def valid_date_def days_in_month_def)
  next
    case Month
    then show ?thesis using e md cast [of m] r [of 1970 m 1]
      by (simp add: component_from_days_def lossy_day_def valid_date_def days_in_month_def)
  next
    case Day
    then show ?thesis using e md cast [of d] r [of 1970 1 d]
      by (simp add: component_from_days_def lossy_day_def valid_date_def days_in_month_def)
  next
    case DayOfWeek
    let ?c = "(n + 4) mod 7"
    have c: "0 \<le> ?c" "?c < 7" by simp_all
    have "ymd_to_epoch_days 1970 1 4 = 3" by code_simp
    then have "lossy_day DayOfWeek ?c = ?c + 3" using c by (simp add: lossy_day_def saturating_add_i32_def)
    moreover have "(?c + 7) mod 7 = ?c" using c by simp
    moreover have "n + 4 < 2 ^ 31" using assms by (auto simp: safe_day_def abs_le_iff)
    moreover have "?c + 3 + 4 < 2 ^ 31" "\<bar>?c\<bar> \<le> 5800000" using c by (simp_all add: abs_le_iff)
    ultimately show ?thesis using DayOfWeek
      by (auto simp: component_from_days_def day_of_week_sunday0_def add.assoc split: prod.splits)
  qed
qed

section \<open>Packed components\<close>

fun valid_rows :: "boolean_buffer option \<Rightarrow> nat \<Rightarrow> 'a list \<Rightarrow> 'a list" where
  "valid_rows nulls i [] = []"
| "valid_rows nulls i (x # xs) = (if valid_at nulls i then x # valid_rows nulls (Suc i) xs else valid_rows nulls (Suc i) xs)"

lemma set_valid_rows: "set (valid_rows nulls i xs) = {xs ! k | k. k < length xs \<and> valid_at nulls (i + k)}"
proof (induction xs arbitrary: i)
  case (Cons x xs)
  have "{(x # xs) ! k | k. k < length (x # xs) \<and> valid_at nulls (i + k)}
      = (if valid_at nulls i then {x} else {}) \<union> {xs ! k | k. k < length xs \<and> valid_at nulls (Suc i + k)}" (is "?A = ?B")
  proof
    show "?A \<subseteq> ?B"
    proof
      fix v assume "v \<in> ?A"
      then obtain k where "v = (x # xs) ! k" "k < length (x # xs)" "valid_at nulls (i + k)" by blast
      then show "v \<in> ?B" by (cases k) auto
    qed
    show "?B \<subseteq> ?A" by (auto split: if_splits) force+
  qed
  with Cons.IH [of "Suc i"] show ?case by simp
qed simp

lemma valid_rows_values: "set (valid_rows (pa_nulls a) 0 (pa_values a)) = valid_values a"
  by (auto simp: set_valid_rows valid_values_def pa_items_def)

lemma component_bounds_fold:
  assumes "\<And>n. n \<in> set (valid_rows nulls i days) \<Longrightarrow> component_from_days field n = Some (c n)"
  shows "component_bounds field nulls i days (hv, mn, mx) = Some (hv \<or> valid_rows nulls i days \<noteq> [],
    fold min (map c (valid_rows nulls i days)) mn, fold max (map c (valid_rows nulls i days)) mx)"
  using assms
proof (induction days arbitrary: i hv mn mx)
  case (Cons n days)
  have "(if c n < mn then c n else mn) = min (c n) mn" "(if c n > mx then c n else mx) = max (c n) mx" by (auto simp: min_def max_def)
  with Cons show ?case by auto
qed simp

lemma component_offsets_map:
  assumes "\<And>n. n \<in> set (valid_rows nulls i days) \<Longrightarrow> component_from_days field n = Some (c n)"
  shows "component_offsets field nulls mn i days
    = Some (map (\<lambda>k. if valid_at nulls (i + k) then word_of_int (c (days ! k) - mn) else 0) [0..<length days])"
  using assms
proof (induction days arbitrary: i)
  case (Cons n days)
  have "component_offsets field nulls mn (Suc i) days
      = Some (map (\<lambda>k. if valid_at nulls (i + Suc k) then word_of_int (c (days ! k) - mn) else 0) [0..<length days])"
    using Cons.IH [of "Suc i"] Cons.prems by auto
  with Cons.prems show ?case by (auto simp: map_upt_Suc simp del: upt_Suc)
qed simp

lemma bounds_of_components:
  assumes "ns \<noteq> []" and "\<And>n. n \<in> set ns \<Longrightarrow> \<bar>c n\<bar> \<le> 5800000"
  defines "mn \<equiv> fold min (map c ns) (2 ^ 31 - 1 :: int)" and "mx \<equiv> fold max (map c ns) (- (2 ^ 31))"
  shows "\<bar>mn\<bar> \<le> 5800000" and "\<bar>mx\<bar> \<le> 5800000" and "\<And>n. n \<in> set ns \<Longrightarrow> mn \<le> c n \<and> c n \<le> mx"
proof -
  let ?S = "set ((2 ^ 31 - 1) # map c ns)" and ?T = "set ((- (2 ^ 31)) # map c ns)"
  have e: "mn = Min ?S" "mx = Max ?T" unfolding mn_def mx_def by (simp_all only: Min.set_eq_fold Max.set_eq_fold)
  show b: "mn \<le> c n \<and> c n \<le> mx" if "n \<in> set ns" for n using that unfolding e by auto
  obtain n where n: "n \<in> set ns" using assms(1) by (cases ns) auto
  have "mn \<in> ?S" "mx \<in> ?T" unfolding e by (rule Min_in Max_in; simp)+
  moreover have "mn \<noteq> 2 ^ 31 - 1" "mx \<noteq> - (2 ^ 31)" using b [OF n] assms(2) [OF n] by (simp_all add: abs_le_iff)
  ultimately show "\<bar>mn\<bar> \<le> 5800000" "\<bar>mx\<bar> \<le> 5800000" using assms(2) by auto
qed

lemma component_pair: "0 \<le> k \<Longrightarrow> k < 2 ^ 31 \<Longrightarrow> sint (word_of_int k :: u32) = k"
  by (subst sint_sbintrunc', rule signed_take_bit_int_eq_self) simp_all

lemma component_ucast: "0 \<le> k \<Longrightarrow> k < 2 ^ 31 \<Longrightarrow> ucast (word_of_int k :: u32) = (word_of_int k :: u64)"
  by (simp add: unsigned_of_int take_bit_int_eq_self)

lemma component_le: "0 \<le> k \<Longrightarrow> k \<le> l \<Longrightarrow> l < 2 ^ 31 \<Longrightarrow> word_of_int k \<le> (word_of_int l :: u32)"
  by (simp add: word_le_def uint_word_of_int)

lemma lossy_items:
  assumes "to_primitive F (sd_bit_packed s) = Some u"
  shows "\<exists>v. to_arrow_date32_lossy F s = Some v
    \<and> pa_items v = map (map_option (\<lambda>off. lossy_day (sd_field s) (sd_reference_value s + sint off))) (pa_items u)"
  using assms by (auto simp: to_arrow_date32_lossy_def pa_items_def nth_enumerate_eq)

text \<open>What a squeezed array holding the components of \<open>items\<close>, as offsets, reads as.\<close>

lemma squeezed_reads:
  assumes "to_primitive F (sd_bit_packed s) = Some u" and "sd_field s = field"
    and "pa_items u = map (map_option (\<lambda>n. word_of_int (the (component_from_days field n) - sd_reference_value s))) items"
    and "\<bar>sd_reference_value s\<bar> \<le> 5800000"
    and "\<And>n. Some n \<in> set items \<Longrightarrow> safe_day n \<and> sd_reference_value s \<le> the (component_from_days field n)"
  shows "\<exists>u v. to_component_date32 F s = Some u \<and> to_arrow_date32_lossy F s = Some v
    \<and> pa_items u = map (\<lambda>x. Option.bind x (component_from_days field)) items
    \<and> map (\<lambda>x. Option.bind x (component_from_days field)) (pa_items v) = pa_items u"
proof -
  let ?r = "sd_reference_value s" and ?c = "\<lambda>n. the (component_from_days field n)"
  have c: "component_from_days field n = Some (?c n)" "component_from_days field (lossy_day field (?c n)) = Some (?c n)"
    "sint (word_of_int (?c n - ?r) :: u32) = ?c n - ?r" "saturating_add_i32 (?c n - ?r) ?r = ?c n" if "Some n \<in> set items" for n
  proof -
    have n: "safe_day n" "?r \<le> ?c n" using assms(5) [OF that] by auto
    from component_safe [OF n(1), of field] show k: "component_from_days field n = Some (?c n)"
      "component_from_days field (lossy_day field (?c n)) = Some (?c n)" by auto
    have b: "\<bar>?c n\<bar> \<le> 5800000" using component_safe [OF n(1), of field] by auto
    show "sint (word_of_int (?c n - ?r) :: u32) = ?c n - ?r"
      by (rule component_pair) (use b n(2) assms(4) in \<open>simp_all add: abs_le_iff\<close>)
    show "saturating_add_i32 (?c n - ?r) ?r = ?c n" using b by (simp add: saturating_add_i32_def abs_le_iff)
  qed
  obtain v where v: "to_arrow_date32_lossy F s = Some v"
    "pa_items v = map (map_option (\<lambda>off. lossy_day field (?r + sint off))) (pa_items u)"
    using lossy_items [OF assms(1)] assms(2) by auto
  have "map_option (\<lambda>w. saturating_add_i32 (sint (w :: u32)) ?r) (map_option (\<lambda>n. word_of_int (?c n - ?r)) x)
      = Option.bind x (component_from_days field)" if "x \<in> set items" for x
    by (cases x) (use that c in auto)
  moreover have "Option.bind (map_option (\<lambda>off. lossy_day field (?r + sint (off :: u32))) (map_option (\<lambda>n. word_of_int (?c n - ?r)) x))
      (component_from_days field) = Option.bind x (component_from_days field)" if "x \<in> set items" for x
    by (cases x) (use that c in auto)
  ultimately show ?thesis using assms(1,3) v
    by (auto simp: to_component_date32_def pa_items_map comp_def)
qed

lemma null_items: "set items \<subseteq> {None} \<Longrightarrow> replicate (length items) None = map (map_option f) items"
  by (induction items) auto

lemma squeezed_null_reads:
  assumes "set items \<subseteq> {None}" and "length items = n"
  shows "\<exists>u v. to_component_date32 F (squeezed_null field n) = Some u \<and> to_arrow_date32_lossy F (squeezed_null field n) = Some v
    \<and> pa_items u = map (\<lambda>x. Option.bind x (component_from_days field)) items
    \<and> map (\<lambda>x. Option.bind x (component_from_days field)) (pa_items v) = pa_items u"
proof (rule squeezed_reads)
  show "to_primitive F (sd_bit_packed (squeezed_null field n)) = Some (prim_new_null n)" by (simp add: squeezed_null_def)
  show "pa_items (prim_new_null n :: u32 prim_array)
    = map (map_option (\<lambda>k. word_of_int (the (component_from_days field k) - sd_reference_value (squeezed_null field n)))) items"
    unfolding new_null_items assms(2) [symmetric] by (rule null_items [OF assms(1)])
qed (use assms(1) in \<open>auto simp: squeezed_null_def\<close>)

text \<open>Squeezing keeps the chosen component of every row, and the array rebuilt from the
  components has the same ones.\<close>

lemma squeeze_days_components:
  assumes "fastlanes_ok F" and "pa_wf D" and "\<And>n. n \<in> valid_values D \<Longrightarrow> safe_day n"
  shows "\<exists>s u v. squeeze_days F field (pa_values D) (pa_nulls D) = Some s
    \<and> to_component_date32 F s = Some u \<and> to_arrow_date32_lossy F s = Some v
    \<and> pa_items u = map (\<lambda>x. Option.bind x (component_from_days field)) (pa_items D)
    \<and> map (\<lambda>x. Option.bind x (component_from_days field)) (pa_items v) = pa_items u"
proof (cases "valid_values D = {}")
  case True
  then have "set (pa_items D) \<subseteq> {None}" "valid_rows (pa_nulls D) 0 (pa_values D) = []"
    using no_valid_items [OF True] valid_rows_values [of D] by auto
  moreover from this have "squeeze_days F field (pa_values D) (pa_nulls D) = Some (squeezed_null field (length (pa_values D)))"
    using component_bounds_fold [of "pa_nulls D" 0 "pa_values D" field "\<lambda>_. 0"] by (simp add: squeeze_days_def Let_def)
  ultimately show ?thesis using squeezed_null_reads [of "pa_items D" "length (pa_values D)" F field] by simp
next
  case False
  let ?ns = "valid_rows (pa_nulls D) 0 (pa_values D)" and ?c = "\<lambda>n. the (component_from_days field n)"
  define mn where "mn = fold min (map ?c ?ns) (2 ^ 31 - 1)"
  define mx where "mx = fold max (map ?c ?ns) (- (2 ^ 31))"
  have ns: "set ?ns = valid_values D" by (rule valid_rows_values)
  have c: "component_from_days field n = Some (?c n)" "\<bar>?c n\<bar> \<le> 5800000" if "n \<in> set ?ns" for n
    using component_safe [OF assms(3), of n field] that ns by auto
  have ne: "?ns \<noteq> []" using False ns by auto
  note bounds = bounds_of_components [of ?ns ?c, OF ne c(2), folded mn_def mx_def]
  have b: "\<bar>mn\<bar> \<le> 5800000" "\<bar>mx\<bar> \<le> 5800000" using bounds(1,2) by blast+
  have cn: "mn \<le> ?c n" "?c n \<le> mx" if "n \<in> set ?ns" for n using bounds(3) [OF _ that] by blast+
  let ?m = "word_of_int (mx - mn) :: u32" and ?w = "get_bit_width (word_of_int (mx - mn))"
  let ?u = "\<lparr>pa_values = map (\<lambda>k. if valid_at (pa_nulls D) k then word_of_int (?c (pa_values D ! k) - mn) else 0) [0..<length (pa_values D)],
    pa_nulls = pa_nulls D\<rparr> :: u32 prim_array"
  have m: "0 \<le> mx - mn" "mx - mn < 2 ^ 31" using b cn [of "hd ?ns"] ne by (simp_all add: abs_le_iff)
  then have u: "ucast ?m = (word_of_int (mx - mn) :: u64)" by (rule component_ucast)
  have items: "pa_items ?u = map (map_option (\<lambda>n. word_of_int (?c n - mn))) (pa_items D)" by (auto simp: pa_items_def)
  have w: "take_bit ?w v = v" if "v \<in> valid_values ?u" for v
  proof -
    obtain n where n: "n \<in> set ?ns" "v = word_of_int (?c n - mn)" using \<open>v \<in> valid_values ?u\<close> valid_values_map [OF items] ns by auto
    have "0 \<le> ?c n - mn" "?c n - mn \<le> mx - mn" using cn [OF n(1)] by auto
    then have "v \<le> ?m" unfolding n(2) by (rule component_le) (rule m(2))
    from width_covers_offset(1) [OF _ this] show ?thesis unfolding u by simp
  qed
  have "?w \<le> 32" using width_covers_offset(2) [of ?m ?m] unfolding u by simp
  with repack_items [of F ?w ?u] w assms(1,2) get_bit_width_bounds(1) obtain u' where
    u': "to_primitive F (from_primitive F ?u ?w) = Some u'" "pa_items u' = pa_items ?u" by (auto simp: pa_wf_def)
  let ?s = "\<lparr>sd_field = field, sd_bit_packed = from_primitive F ?u ?w, sd_reference_value = mn\<rparr>"
  have "\<not> (\<exists>n. pa_nulls D = Some n \<and> null_count n = length (pa_values D))"
  proof (rule notI, elim exE conjE)
    fix n assume n: "pa_nulls D = Some n" "null_count n = length (pa_values D)"
    then have "bb_bits n = replicate (length (pa_values D)) False" using assms(2) null_count_all [of n] by (simp add: pa_wf_def nulls_fit_def)
    with n False show False by (auto simp: valid_values_def pa_items_def valid_at_def)
  qed
  moreover have "component_bounds field (pa_nulls D) 0 (pa_values D) (False, 2 ^ 31 - 1, - (2 ^ 31)) = Some (True, mn, mx)"
    using component_bounds_fold [of "pa_nulls D" 0 "pa_values D" field ?c, OF c(1)] ne by (simp add: mn_def mx_def)
  moreover have "component_offsets field (pa_nulls D) mn 0 (pa_values D) = Some (pa_values ?u)"
    using component_offsets_map [of "pa_nulls D" 0 "pa_values D" field ?c mn, OF c(1)] by simp
  ultimately have "squeeze_days F field (pa_values D) (pa_nulls D) = Some ?s"
    unfolding squeeze_days_def Let_def by (simp only: option.case prod.case not_True_eq_False if_False prim_array.simps)
  moreover have "\<exists>u v. to_component_date32 F ?s = Some u \<and> to_arrow_date32_lossy F ?s = Some v
    \<and> pa_items u = map (\<lambda>x. Option.bind x (component_from_days field)) (pa_items D)
    \<and> map (\<lambda>x. Option.bind x (component_from_days field)) (pa_items v) = pa_items u"
    by (rule squeezed_reads) (use u' items b cn ns assms(3) in \<open>auto simp: valid_values_def\<close>)
  ultimately show ?thesis by blast
qed

lemma squeeze_array_components:
  assumes "fastlanes_ok F" and "encodes G la a" and "\<And>v. v \<in> valid_values a \<Longrightarrow> safe_day (f v)"
  obtains a' s u v where "to_arrow_array G la = Some a'" "squeeze_days F field (map f (pa_values a')) (pa_nulls a') = Some s"
    "to_component_date32 F s = Some u" "to_arrow_date32_lossy F s = Some v"
    "pa_items u = map (\<lambda>x. Option.bind x (\<lambda>v. component_from_days field (f v))) (pa_items a)"
    "map (\<lambda>x. Option.bind x (component_from_days field)) (pa_items v) = pa_items u"
proof -
  obtain a' where a': "to_arrow_array G la = Some a'" "pa_wf a'" "pa_items a' = pa_items a"
    using assms(2) by (auto simp: encodes_def)
  let ?D = "\<lparr>pa_values = map f (pa_values a'), pa_nulls = pa_nulls a'\<rparr>"
  have D: "pa_items ?D = map (map_option f) (pa_items a)" by (simp add: pa_items_map a'(3))
  have "pa_wf ?D" using a'(2) by (simp add: pa_wf_def)
  moreover have "safe_day n" if "n \<in> valid_values ?D" for n using that valid_values_map [OF D] assms(3) by auto
  ultimately have "\<exists>s u v. squeeze_days F field (pa_values ?D) (pa_nulls ?D) = Some s
    \<and> to_component_date32 F s = Some u \<and> to_arrow_date32_lossy F s = Some v
    \<and> pa_items u = map (\<lambda>x. Option.bind x (component_from_days field)) (pa_items ?D)
    \<and> map (\<lambda>x. Option.bind x (component_from_days field)) (pa_items v) = pa_items u"
    by (rule squeeze_days_components [OF assms(1)])
  with that [OF a'(1)] show thesis unfolding D by (auto simp: comp_def bind_map_option)
qed

end
