(* ===== verification/SampleColumns.thy ===== *)
theory SampleColumns
  imports Date32
begin

text \<open>
  Concrete columns for the column codecs: three integers, encoded by hand, and a few dates and
  timestamps, with the reference implementations of the kernels and of the packing.
\<close>

definition sample_ints :: "u32 prim_array" where
  "sample_ints = \<lparr>pa_values = [5, 260, 1000], pa_nulls = None\<rparr>"

definition sample_encoded :: "u32 liquid_primitive_array" where
  "sample_encoded = \<lparr>lp_bit_packed = from_primitive serial_lanes \<lparr>pa_values = [0, 255, 995], pa_nulls = None\<rparr> 10,
     lp_reference_value = 5, lp_squeeze_policy = Quantize\<rparr>"

lemma sample_ints_encoded: "from_arrow_array plain_kernels serial_lanes P_UInt32 sample_ints = Some sample_encoded"
proof -
  have "get_bit_width 995 = 10" by code_simp
  then show ?thesis by (simp add: from_arrow_array_def plain_kernels_def best_value_def sample_ints_def sample_encoded_def
    pa_items_def valid_at_def native_val_def is_unsigned_def upt_rec Let_def)
qed

lemma sample_ints_wf: "pa_wf sample_ints" "native_type P_UInt32 TYPE(32)" "is_unsigned P_UInt32"
  by (simp_all add: sample_ints_def pa_wf_def nulls_fit_def native_type_def native_bits_def is_unsigned_def)

lemma sample_ints_items: "pa_items sample_ints = [Some 5, Some 260, Some 1000]" "length (pa_values sample_ints) = 3"
  by (simp_all add: sample_ints_def pa_items_def valid_at_def upt_rec)

lemma sample_encoded_fits: "fits_u32 (lp_bit_packed sample_encoded)"
proof -
  have "length (fl_pack serial_lanes 10 ([0, 255, 995] @ replicate 1021 0 :: u32 list)) = packed_words TYPE(32) 10"
    using serial_lanes_ok [where 'w = 32] unfolding fastlanes_ok_def by simp
  then show ?thesis
    by (simp add: fits_u32_def sample_encoded_def from_primitive_def Let_def null_bytes_def size_of_def packed_words_def)
qed

lemma sample_squeezes:
  "\<exists>s. squeeze_integer serial_lanes P_UInt32 (sample_encoded\<lparr>lp_squeeze_policy := policy\<rparr>)
     = Some (Some (s, to_bytes_inner P_UInt32 (sample_encoded\<lparr>lp_squeeze_policy := policy\<rparr>)))"
proof -
  have "bp_bit_width (lp_bit_packed sample_encoded) = Some 10" by (simp add: sample_encoded_def from_primitive_def Let_def)
  moreover have "\<exists>u. to_primitive serial_lanes (lp_bit_packed sample_encoded) = Some u"
    unfolding sample_encoded_def by (simp add: to_primitive_from_primitive [OF serial_lanes_ok])
  ultimately show ?thesis by (cases policy) (auto simp: squeeze_integer_def Let_def)
qed

text \<open>29 February 2024 and a null, and a second on the last day of 1969.\<close>

definition sample_days :: "u32 prim_array" where
  "sample_days = array_of_items [Some 19782, None]"

definition sample_seconds :: "u64 prim_array" where
  "sample_seconds = array_of_items [Some (- 1)]"

lemma sample_column_encodes:
  "\<exists>la. from_arrow_array plain_kernels serial_lanes P_Date32 sample_days = Some la \<and> encodes serial_lanes la sample_days"
  "\<exists>la. from_arrow_array plain_kernels serial_lanes P_TimestampSecond sample_seconds = Some la \<and> encodes serial_lanes la sample_seconds"
  using from_arrow_offsets [OF serial_lanes_ok plain_kernels_ok, of P_Date32 sample_days]
    from_arrow_offsets [OF serial_lanes_ok plain_kernels_ok, of P_TimestampSecond sample_seconds]
  by (auto simp: sample_days_def sample_seconds_def native_type_def native_bits_def intro!: offsets_encodes)

lemma sample_values: "valid_values sample_days = {19782}" "valid_values sample_seconds = {- 1}"
  by (auto simp: valid_values_def sample_days_def sample_seconds_def)

end
