(* ===== verification/Float64.thy ===== *)
theory Float64
  imports Prelude Complex_Main "HOL-Library.Log_Nat"
begin

text \<open>
  Double-precision numbers as the column codecs use them: a finite value is the rational it
  stands for, and every operation rounds the exact result to 53 significant bits, to the even
  neighbour on a tie, with subnormals and overflow to an infinity. The sign of zero is left out;
  no operation of the sources distinguishes it.
\<close>

datatype f64 = Fin rat | PosInf | NegInf | NaN

section \<open>Rounding\<close>

definition round_half_even :: "rat \<Rightarrow> int" where
  "round_half_even x =
     (let k = \<lfloor>x\<rfloor>; r = x - of_int k
      in if r > 1 / 2 \<or> (r = 1 / 2 \<and> odd k) then k + 1 else k)"

definition last_place :: "rat \<Rightarrow> int" where
  "last_place x =
     (let (a, b) = quotient_of x;
          s = bitlen a - bitlen b
      in max (if x < 2 powi s then s - 53 else s - 52) (- 1074))"

text \<open>The largest finite value has the last place \<open>2 ^ 971\<close> and 53 bits, all set.\<close>

definition fl64 :: "rat \<Rightarrow> f64" where
  "fl64 x =
     (if x = 0 then Fin 0
      else
        (let e = last_place \<bar>x\<bar>;
             m = round_half_even (\<bar>x\<bar> / 2 powi e);
             r = of_int m * 2 powi e
         in if e > 971 \<or> (e = 971 \<and> m = 9007199254740992) then (if x > 0 then PosInf else NegInf)
            else Fin (if x > 0 then r else - r)))"

section \<open>Arithmetic\<close>

definition f64_of_nat :: "nat \<Rightarrow> f64" where
  "f64_of_nat n = fl64 (of_nat n)"

fun f64_neg :: "f64 \<Rightarrow> f64" where
  "f64_neg (Fin x) = Fin (- x)"
| "f64_neg PosInf = NegInf"
| "f64_neg NegInf = PosInf"
| "f64_neg NaN = NaN"

fun f64_add :: "f64 \<Rightarrow> f64 \<Rightarrow> f64" where
  "f64_add (Fin x) (Fin y) = fl64 (x + y)"
| "f64_add NaN _ = NaN"
| "f64_add _ NaN = NaN"
| "f64_add (Fin _) y = y"
| "f64_add x (Fin _) = x"
| "f64_add PosInf PosInf = PosInf"
| "f64_add NegInf NegInf = NegInf"
| "f64_add _ _ = NaN"

definition f64_sub :: "f64 \<Rightarrow> f64 \<Rightarrow> f64" where
  "f64_sub x y = f64_add x (f64_neg y)"

definition f64_inf :: "rat \<Rightarrow> f64" where
  "f64_inf s = (if s > 0 then PosInf else if s < 0 then NegInf else NaN)"

fun f64_mul :: "f64 \<Rightarrow> f64 \<Rightarrow> f64" where
  "f64_mul (Fin x) (Fin y) = fl64 (x * y)"
| "f64_mul NaN _ = NaN"
| "f64_mul _ NaN = NaN"
| "f64_mul (Fin x) PosInf = f64_inf x"
| "f64_mul (Fin x) NegInf = f64_inf (- x)"
| "f64_mul PosInf (Fin y) = f64_inf y"
| "f64_mul NegInf (Fin y) = f64_inf (- y)"
| "f64_mul PosInf PosInf = PosInf"
| "f64_mul PosInf NegInf = NegInf"
| "f64_mul NegInf PosInf = NegInf"
| "f64_mul NegInf NegInf = PosInf"

text \<open>A zero divisor counts as positive.\<close>

fun f64_div :: "f64 \<Rightarrow> f64 \<Rightarrow> f64" where
  "f64_div (Fin x) (Fin y) = (if y = 0 then f64_inf x else fl64 (x / y))"
| "f64_div NaN _ = NaN"
| "f64_div _ NaN = NaN"
| "f64_div (Fin _) _ = Fin 0"
| "f64_div PosInf (Fin y) = (if y < 0 then NegInf else PosInf)"
| "f64_div NegInf (Fin y) = (if y < 0 then PosInf else NegInf)"
| "f64_div _ _ = NaN"

definition f64_sum :: "f64 list \<Rightarrow> f64" where
  "f64_sum xs = foldl f64_add (Fin 0) xs"

section \<open>Conversion to integers\<close>

text \<open>\<open>round\<close> goes away from zero on a tie; \<open>as\<close> truncates, saturates, and sends \<open>NaN\<close> to zero.\<close>

fun f64_round :: "f64 \<Rightarrow> f64" where
  "f64_round (Fin x) = Fin (of_int (if x \<ge> 0 then \<lfloor>x + 1 / 2\<rfloor> else - \<lfloor>1 / 2 - x\<rfloor>))"
| "f64_round x = x"

fun f64_as_int :: "int \<Rightarrow> int \<Rightarrow> f64 \<Rightarrow> int" where
  "f64_as_int lo hi (Fin x) = max lo (min hi (if x \<ge> 0 then \<lfloor>x\<rfloor> else - \<lfloor>- x\<rfloor>))"
| "f64_as_int lo hi PosInf = hi"
| "f64_as_int lo hi NegInf = lo"
| "f64_as_int lo hi NaN = 0"

definition f64_as_i32 :: "f64 \<Rightarrow> 32 word" where
  "f64_as_i32 x = word_of_int (f64_as_int (- (2 ^ 31)) (2 ^ 31 - 1) x)"

end
