(* ===== verification/FsstBuffer.thy ===== *)
theory FsstBuffer
  imports BitPack Float64
begin

unbundle bit_operations_syntax

text \<open>
  Compressed strings, \<^verbatim>\<open>src/storage/src/liquid_array/raw/fsst_buffer.rs\<close>: one buffer with the
  compressed values one after the other, offsets stored as residuals from a fitted line, the
  prefix keys of the byte-view arrays, and the byte formats. The FSST compressor is a parameter
  \<open>fsst\<close> with the contract \<open>fsst_ok\<close>. An \<open>i32\<close> is a 32-bit word read as signed; where its
  arithmetic overflows, the code panics in a build with overflow checks and wraps in one without:
  the argument \<open>chk\<close> says which. A panic is \<open>None\<close>.
\<close>

section \<open>The compressor\<close>

record 'c fsst =
  fc_compress :: "'c \<Rightarrow> bytes \<Rightarrow> bytes"
  fc_decompress :: "'c \<Rightarrow> bytes \<Rightarrow> bytes"

definition fsst_ok :: "'c fsst \<Rightarrow> bool" where
  "fsst_ok Z \<longleftrightarrow> (\<forall>c x. fc_decompress Z c (fc_compress Z c x) = x) \<and> (\<forall>c. fc_decompress Z c [] = [])"

section \<open>Checked arithmetic\<close>

definition i32_arith :: "bool \<Rightarrow> int \<Rightarrow> u32 option" where
  "i32_arith chk k = (if chk \<and> \<not> (- (2 ^ 31) \<le> k \<and> k < 2 ^ 31) then None else Some (word_of_int k))"

definition usize_arith :: "bool \<Rightarrow> int \<Rightarrow> usize option" where
  "usize_arith chk k = (if chk \<and> \<not> (0 \<le> k \<and> k < 2 ^ 64) then None else Some (word_of_int k))"

section \<open>The raw buffer\<close>

record raw_fsst_buffer =
  rb_values :: bytes
  rb_uncompressed_bytes :: usize

fun byte_slices_loop ::
  "'c fsst \<Rightarrow> 'c \<Rightarrow> bytes option list \<Rightarrow> bytes \<Rightarrow> u32 list \<Rightarrow> usize \<Rightarrow> raw_fsst_buffer \<times> u32 list" where
  "byte_slices_loop Z c [] values_buffer offsets uncompressed_len =
     (\<lparr>rb_values = values_buffer, rb_uncompressed_bytes = uncompressed_len\<rparr>, offsets)"
| "byte_slices_loop Z c (item # items) values_buffer offsets uncompressed_len =
     (let (values_buffer, uncompressed_len) =
            (case item of
               Some bs \<Rightarrow> (values_buffer @ fc_compress Z c bs, uncompressed_len + of_nat (length bs))
             | None \<Rightarrow> (values_buffer, uncompressed_len))
      in byte_slices_loop Z c items values_buffer (offsets @ [of_nat (length values_buffer)]) uncompressed_len)"

definition from_byte_slices :: "'c fsst \<Rightarrow> 'c \<Rightarrow> bytes option list \<Rightarrow> raw_fsst_buffer \<times> u32 list" where
  "from_byte_slices Z c items = byte_slices_loop Z c items [] [0] 0"

definition get_compressed_slice :: "raw_fsst_buffer \<Rightarrow> u32 \<Rightarrow> u32 \<Rightarrow> bytes option" where
  "get_compressed_slice raw start_offset end_offset =
     (if start_offset \<le> end_offset \<and> unat end_offset \<le> length (rb_values raw)
      then Some (take (unat end_offset - unat start_offset) (drop (unat start_offset) (rb_values raw)))
      else None)"

text \<open>
  An Arrow byte array without nulls: the value buffer and the offsets, which the builder keeps as
  \<open>usize\<close> and refuses to finish when the last does not fit into \<open>i32\<close>.
\<close>

type_synonym byte_values = "bytes \<times> nat list"

definition finish_offsets :: "byte_values \<Rightarrow> byte_values option" where
  "finish_offsets v = (if last (snd v) < 2 ^ 31 then Some v else None)"

definition byte_array_values :: "byte_values \<Rightarrow> bytes list" where
  "byte_array_values v = map (\<lambda>i. take (snd v ! Suc i - snd v ! i) (drop (snd v ! i) (fst v))) [0..<length (snd v) - 1]"

fun decompress_loop ::
  "'c fsst \<Rightarrow> 'c \<Rightarrow> raw_fsst_buffer \<Rightarrow> (u32 \<times> u32) list \<Rightarrow> byte_values \<Rightarrow> byte_values option" where
  "decompress_loop Z c raw [] v = Some v"
| "decompress_loop Z c raw ((start_offset, end_offset) # rest) (value_buffer, out_offsets) =
     (if start_offset \<noteq> end_offset then
        (case get_compressed_slice raw start_offset end_offset of
           None \<Rightarrow> None
         | Some compressed_slice \<Rightarrow>
             (let value_buffer = value_buffer @ fc_decompress Z c compressed_slice
              in decompress_loop Z c raw rest (value_buffer, out_offsets @ [length value_buffer])))
      else decompress_loop Z c raw rest (value_buffer, out_offsets @ [length value_buffer]))"

definition raw_to_uncompressed :: "'c fsst \<Rightarrow> 'c \<Rightarrow> raw_fsst_buffer \<Rightarrow> u32 list \<Rightarrow> byte_values option" where
  "raw_to_uncompressed Z c raw offsets =
     Option.bind (decompress_loop Z c raw (zip offsets (drop 1 offsets)) ([], [0])) finish_offsets"

definition raw_to_bytes :: "raw_fsst_buffer \<Rightarrow> bytes" where
  "raw_to_bytes raw = le_bytes 8 (rb_uncompressed_bytes raw) @ le_bytes 4 (of_nat (length (rb_values raw)) :: u32) @ rb_values raw"

definition raw_from_bytes :: "bytes \<Rightarrow> raw_fsst_buffer option" where
  "raw_from_bytes bs =
     (if length bs < 12 then None
      else
        (let values_len = u32_at bs 8 in
         if 12 + values_len \<le> length bs
           then Some \<lparr>rb_values = take values_len (drop 12 bs), rb_uncompressed_bytes = of_le_bytes (take 8 bs)\<rparr>
         else None))"

section \<open>Prefix keys\<close>

record prefix_key =
  pk_prefix7 :: bytes
  pk_len :: u8

definition prefix_len :: nat where "prefix_len = 7"

definition prefix_key_new :: "bytes \<Rightarrow> prefix_key" where
  "prefix_key_new suffix_bytes =
     (let copy_len = min prefix_len (length suffix_bytes)
      in \<lparr>pk_prefix7 = take copy_len suffix_bytes @ replicate (7 - copy_len) 0,
          pk_len = (if length suffix_bytes \<ge> 255 then 255 else of_nat (length suffix_bytes))\<rparr>)"

section \<open>Compact offsets\<close>

record compact_offset_header =
  ch_slope :: u32
  ch_intercept :: u32
  ch_offset_bytes :: nat

datatype offset_residuals = One "u8 list" | Two "u16 list" | Four "u32 list"

fun residuals_len :: "offset_residuals \<Rightarrow> nat" where
  "residuals_len (One values) = length values"
| "residuals_len (Two values) = length values"
| "residuals_len (Four values) = length values"

fun get_i32 :: "offset_residuals \<Rightarrow> nat \<Rightarrow> u32" where
  "get_i32 (One values) index = scast (values ! index)"
| "get_i32 (Two values) index = scast (values ! index)"
| "get_i32 (Four values) index = values ! index"

record compact_offsets =
  co_header :: compact_offset_header
  co_residuals :: offset_residuals

definition fit_line :: "bool \<Rightarrow> u32 list \<Rightarrow> (u32 \<times> u32) option" where
  "fit_line chk offsets =
     (let n = length offsets in
      if n \<le> 1 then Some (0, case offsets of [] \<Rightarrow> 0 | x # _ \<Rightarrow> x)
      else
        (case (usize_arith chk (int n * (int n - 1)), Option.bind (usize_arith chk (int n * (int n - 1)))
                 (\<lambda>m. usize_arith chk (uint m * (2 * int n - 1)))) of
           (Some xs, Some xsq) \<Rightarrow>
             (let n_f64 = f64_of_nat n;
                  sum_x = f64_of_nat (unat xs div 2);
                  sum_y = f64_sum (map (\<lambda>off. f64_of_nat (unat off)) offsets);
                  sum_xy = f64_sum (map (\<lambda>(i, off). f64_mul (f64_of_nat i) (f64_of_nat (unat off))) (enumerate 0 offsets));
                  sum_x_sq = f64_of_nat (unat xsq div 6);
                  slope = f64_div (f64_sub (f64_mul n_f64 sum_xy) (f64_mul sum_x sum_y))
                            (f64_sub (f64_mul n_f64 sum_x_sq) (f64_mul sum_x sum_x));
                  intercept = f64_div (f64_sub sum_y (f64_mul slope sum_x)) n_f64
              in Some (f64_as_i32 (f64_round slope), f64_as_i32 (f64_round intercept)))
         | _ \<Rightarrow> None))"

definition predicted_offset :: "bool \<Rightarrow> u32 \<Rightarrow> u32 \<Rightarrow> nat \<Rightarrow> u32 option" where
  "predicted_offset chk slope intercept index =
     Option.bind (i32_arith chk (sint slope * sint (of_nat index :: u32))) (\<lambda>m. i32_arith chk (sint m + sint intercept))"

fun residuals_loop :: "bool \<Rightarrow> u32 \<Rightarrow> u32 \<Rightarrow> nat \<Rightarrow> u32 list \<Rightarrow> u32 list option" where
  "residuals_loop chk slope intercept index [] = Some []"
| "residuals_loop chk slope intercept index (off # offsets) =
     Option.bind (predicted_offset chk slope intercept index) (\<lambda>predicted.
       Option.bind (i32_arith chk (sint off - sint predicted)) (\<lambda>residual.
         map_option ((#) residual) (residuals_loop chk slope intercept (Suc index) offsets)))"

definition residual_width :: "u32 list \<Rightarrow> nat" where
  "residual_width residuals =
     (let min_residual = foldl (\<lambda>m r. min m (sint r)) (2 ^ 31 - 1) residuals;
          max_residual = foldl (\<lambda>m r. max m (sint r)) (- (2 ^ 31)) residuals
      in if min_residual \<ge> - 128 \<and> max_residual \<le> 127 then 1
         else if min_residual \<ge> - 32768 \<and> max_residual \<le> 32767 then 2 else 4)"

definition residuals_of_width :: "nat \<Rightarrow> u32 list \<Rightarrow> offset_residuals" where
  "residuals_of_width offset_bytes residuals =
     (if offset_bytes = 1 then One (map ucast residuals)
      else if offset_bytes = 2 then Two (map ucast residuals) else Four residuals)"

definition from_offsets :: "bool \<Rightarrow> u32 list \<Rightarrow> compact_offsets option" where
  "from_offsets chk offsets =
     (if offsets = [] then Some \<lparr>co_header = \<lparr>ch_slope = 0, ch_intercept = 0, ch_offset_bytes = 1\<rparr>, co_residuals = One []\<rparr>
      else
        Option.bind (fit_line chk offsets) (\<lambda>(slope, intercept).
          Option.bind (residuals_loop chk slope intercept 0 offsets) (\<lambda>offset_residuals.
            let offset_bytes = residual_width offset_residuals
            in Some \<lparr>co_header = \<lparr>ch_slope = slope, ch_intercept = intercept, ch_offset_bytes = offset_bytes\<rparr>,
                 co_residuals = residuals_of_width offset_bytes offset_residuals\<rparr>)))"

definition compact_offsets_len :: "compact_offsets \<Rightarrow> nat" where
  "compact_offsets_len co = residuals_len (co_residuals co)"

definition get_offset :: "bool \<Rightarrow> compact_offsets \<Rightarrow> nat \<Rightarrow> u32 option" where
  "get_offset chk co index =
     (if index < compact_offsets_len co then
        Option.bind (predicted_offset chk (ch_slope (co_header co)) (ch_intercept (co_header co)) index)
          (\<lambda>predicted. i32_arith chk (sint predicted + sint (get_i32 (co_residuals co) index)))
      else None)"

definition compact_offsets_all :: "bool \<Rightarrow> compact_offsets \<Rightarrow> u32 list option" where
  "compact_offsets_all chk co = those (map (get_offset chk co) [0..<compact_offsets_len co])"

fun residual_bytes :: "offset_residuals \<Rightarrow> bytes" where
  "residual_bytes (One residuals) = residuals"
| "residual_bytes (Two residuals) = words_bytes residuals"
| "residual_bytes (Four residuals) = words_bytes residuals"

definition write_residuals :: "compact_offsets \<Rightarrow> bytes" where
  "write_residuals co =
     le_bytes 4 (ch_slope (co_header co)) @ le_bytes 4 (ch_intercept (co_header co))
       @ [of_nat (ch_offset_bytes (co_header co))] @ residual_bytes (co_residuals co)"

definition decode_compact_offsets :: "bytes \<Rightarrow> compact_offsets option" where
  "decode_compact_offsets bs =
     (if length bs < 9 then None
      else
        (let slope = of_le_bytes (take 4 bs);
             intercept = of_le_bytes (take 4 (drop 4 bs));
             offset_bytes = unat (bs ! 8);
             header = \<lparr>ch_slope = slope, ch_intercept = intercept, ch_offset_bytes = offset_bytes\<rparr>;
             payload = drop 9 bs;
             count = length payload div offset_bytes
         in if offset_bytes \<notin> {1, 2, 4} then None
            else if length payload mod offset_bytes \<noteq> 0 then None
            else Some \<lparr>co_header = header,
              co_residuals = (if offset_bytes = 1 then One payload
                else if offset_bytes = 2 then Two (bytes_words count payload) else Four (bytes_words count payload))\<rparr>))"

section \<open>FSST arrays\<close>

record 'c fsst_array =
  fa_compressor :: 'c
  fa_raw :: raw_fsst_buffer
  fa_compact_offsets :: compact_offsets

definition from_byte_offsets :: "bool \<Rightarrow> raw_fsst_buffer \<Rightarrow> u32 list \<Rightarrow> 'c \<Rightarrow> 'c fsst_array option" where
  "from_byte_offsets chk raw byte_offsets compressor =
     map_option (\<lambda>co. \<lparr>fa_compressor = compressor, fa_raw = raw, fa_compact_offsets = co\<rparr>) (from_offsets chk byte_offsets)"

text \<open>\<open>from_byte_array_with_compressor\<close>, and the same body for the decimal types.\<close>

definition fsst_from_byte_array :: "'c fsst \<Rightarrow> bool \<Rightarrow> bytes option list \<Rightarrow> 'c \<Rightarrow> 'c fsst_array option" where
  "fsst_from_byte_array Z chk items compressor =
     (let (raw, offsets) = from_byte_slices Z compressor items in from_byte_offsets chk raw offsets compressor)"

definition fsst_len :: "'c fsst_array \<Rightarrow> nat" where
  "fsst_len fa = compact_offsets_len (fa_compact_offsets fa) - 1"

definition fsst_to_bytes :: "'c fsst_array \<Rightarrow> bytes" where
  "fsst_to_bytes fa = raw_to_bytes (fa_raw fa) @ write_residuals (fa_compact_offsets fa)"

definition fsst_from_bytes :: "bool \<Rightarrow> bytes \<Rightarrow> 'c \<Rightarrow> 'c fsst_array option" where
  "fsst_from_bytes chk bs compressor =
     (if length bs < 12 then None
      else
        (let raw_len = 12 + u32_at bs 8 in
         if raw_len > length bs then None
         else
           Option.bind (raw_from_bytes (take raw_len bs)) (\<lambda>raw.
             Option.bind (decode_compact_offsets (drop raw_len bs)) (\<lambda>compact.
               if chk \<and> 0 < compact_offsets_len compact
                   \<and> map_option unat (get_offset chk compact (compact_offsets_len compact - 1)) \<noteq> Some (length (rb_values raw))
                 then None
               else Some \<lparr>fa_compressor = compressor, fa_raw = raw, fa_compact_offsets = compact\<rparr>))))"

definition fsst_to_uncompressed :: "'c fsst \<Rightarrow> bool \<Rightarrow> 'c fsst_array \<Rightarrow> byte_values option" where
  "fsst_to_uncompressed Z chk fa =
     Option.bind (compact_offsets_all chk (fa_compact_offsets fa)) (raw_to_uncompressed Z (fa_compressor fa) (fa_raw fa))"

definition fsst_compressed_slice :: "bool \<Rightarrow> 'c fsst_array \<Rightarrow> nat \<Rightarrow> bytes option" where
  "fsst_compressed_slice chk fa dict_index =
     Option.bind (get_offset chk (fa_compact_offsets fa) dict_index) (\<lambda>start_offset.
       Option.bind (get_offset chk (fa_compact_offsets fa) (Suc dict_index)) (\<lambda>end_offset.
         get_compressed_slice (fa_raw fa) start_offset end_offset))"

fun selected_loop ::
  "'c fsst \<Rightarrow> bool \<Rightarrow> 'c fsst_array \<Rightarrow> nat list \<Rightarrow> byte_values \<Rightarrow> byte_values option" where
  "selected_loop Z chk fa [] v = Some v"
| "selected_loop Z chk fa (dict_index # rest) (value_buffer, out_offsets) =
     (case fsst_compressed_slice chk fa dict_index of
        None \<Rightarrow> None
      | Some compressed_value \<Rightarrow>
          (let value_buffer = value_buffer @ fc_decompress Z (fa_compressor fa) compressed_value
           in selected_loop Z chk fa rest (value_buffer, out_offsets @ [length value_buffer])))"

definition to_uncompressed_selected :: "'c fsst \<Rightarrow> bool \<Rightarrow> 'c fsst_array \<Rightarrow> nat list \<Rightarrow> byte_values option" where
  "to_uncompressed_selected Z chk fa selected = Option.bind (selected_loop Z chk fa selected ([], [0])) finish_offsets"

text \<open>The decimals of an array, one after the other, as \<open>decompress_as_fixed_size_binary\<close> lays them out.\<close>

definition decompress_as_fixed_size_binary :: "'c fsst \<Rightarrow> bool \<Rightarrow> 'c fsst_array \<Rightarrow> bytes option" where
  "decompress_as_fixed_size_binary Z chk fa = map_option fst (selected_loop Z chk fa [0..<fsst_len fa] ([], [0]))"

section \<open>The symbol table\<close>

text \<open>A compressor's symbols and their lengths; \<open>rebuild_from\<close> is the library's inverse.\<close>

record 'c symbol_ops =
  so_symbol_table :: "'c \<Rightarrow> u64 list"
  so_symbol_lengths :: "'c \<Rightarrow> u8 list"
  so_rebuild_from :: "u64 list \<Rightarrow> u8 list \<Rightarrow> 'c"

definition symbol_ops_ok :: "'c symbol_ops \<Rightarrow> bool" where
  "symbol_ops_ok Y \<longleftrightarrow> (\<forall>c. so_rebuild_from Y (so_symbol_table Y c) (so_symbol_lengths Y c) = c)"

definition save_symbol_table :: "'c symbol_ops \<Rightarrow> 'c \<Rightarrow> bytes option" where
  "save_symbol_table Y c =
     (let symbols = so_symbol_table Y c; symbols_lengths = so_symbol_lengths Y c in
      if length symbols \<noteq> length symbols_lengths then None
      else if length symbols > 255 then None
      else Some ([of_nat (length symbols)] @ symbols_lengths @ words_bytes symbols))"

definition load_symbol_table :: "'c symbol_ops \<Rightarrow> bytes \<Rightarrow> 'c option" where
  "load_symbol_table Y data =
     (if data = [] then None
      else
        (let symbol_count = unat (data ! 0);
             lengths_end = 1 + symbol_count;
             symbols_end = lengths_end + symbol_count * 8
         in if lengths_end > length data then None
            else if symbols_end > length data then None
            else Some (so_rebuild_from Y (bytes_words symbol_count (drop lengths_end data)) (take symbol_count (drop 1 data)))))"

section \<open>Compact offsets read back\<close>

lemma i32_arith_wrap [simp]: "i32_arith False k = Some (word_of_int k)"
  by (simp add: i32_arith_def)

lemma i32_arith_SomeD: "i32_arith chk k = Some w \<Longrightarrow> w = word_of_int k \<and> (chk \<longrightarrow> sint w = k)"
  by (auto simp: i32_arith_def signed_of_int intro!: signed_take_bit_int_eq_self split: if_splits)

lemma i32_arith_sint [simp]: "i32_arith chk (sint (w :: u32)) = Some w"
  using sint_range_size [of w] by (auto simp: i32_arith_def word_size)

text \<open>A narrowed residual widens back to itself.\<close>

lemma scast_ucast_id:
  fixes r :: u32
  assumes "LENGTH('b) \<le> 32" and "- (2 ^ (LENGTH('b) - 1)) \<le> sint r" and "sint r < 2 ^ (LENGTH('b) - 1)"
  shows "scast (ucast r :: 'b::len word) = r"
proof -
  have "sint (ucast r :: 'b word) = signed_take_bit (LENGTH('b) - 1) (uint r)"
    by (simp add: unsigned_ucast_eq sint_uint signed_take_bit_take_bit)
  also have "\<dots> = signed_take_bit (LENGTH('b) - 1) (sint r)"
    using assms(1) by (simp add: sint_uint signed_take_bit_signed_take_bit min_absorb1)
  also have "\<dots> = sint r" using assms(2,3) by (intro signed_take_bit_int_eq_self) simp_all
  finally show ?thesis by (simp add: scast_eq)
qed

lemma residuals_loop_nth:
  assumes "residuals_loop chk slope intercept k offs = Some rs"
  shows "length rs = length offs \<and> (\<forall>i < length offs. \<exists>p. predicted_offset chk slope intercept (k + i) = Some p
    \<and> i32_arith chk (sint (offs ! i) - sint p) = Some (rs ! i))"
  using assms
proof (induction offs arbitrary: k rs)
  case (Cons off offs)
  then obtain p r rs' where p: "predicted_offset chk slope intercept k = Some p" "i32_arith chk (sint off - sint p) = Some r"
    "residuals_loop chk slope intercept (Suc k) offs = Some rs'" "rs = r # rs'"
    by (auto split: bind_splits)
  from Cons.IH [OF p(3)] p show ?case by (auto simp: less_Suc_eq_0_disj)
qed simp

lemma fold_min_bound: "lo \<le> foldl (\<lambda>m r. min m (f r)) m0 rs \<Longrightarrow> r \<in> set rs \<Longrightarrow> lo \<le> (f r :: int)"
proof (induction rs arbitrary: m0)
  case (Cons a rs)
  have "foldl (\<lambda>m r. min m (f r)) b xs \<le> b" for b xs 
  proof (induction xs arbitrary: b)
    case (Cons x xs)
    from Cons [of "min b (f x)"] show ?case by simp
  qed simp
  from this [of "min m0 (f a)" rs] Cons show ?case by auto
qed simp

lemma fold_max_bound: "foldl (\<lambda>m r. max m (f r)) m0 rs \<le> hi \<Longrightarrow> r \<in> set rs \<Longrightarrow> (f r :: int) \<le> hi"
proof (induction rs arbitrary: m0)
  case (Cons a rs)
  have "b \<le> foldl (\<lambda>m r. max m (f r)) b xs" for b xs 
  proof (induction xs arbitrary: b)
    case (Cons x xs)
    from Cons [of "max b (f x)"] show ?case by simp
  qed simp
  from this [of "max m0 (f a)" rs] Cons show ?case by auto
qed simp

lemma residuals_of_width_read:
  assumes "i < length rs"
  shows "get_i32 (residuals_of_width (residual_width rs) rs) i = rs ! i"
    and "residuals_len (residuals_of_width (residual_width rs) rs) = length rs"
proof -
  have r: "rs ! i \<in> set rs" using assms by simp
  have "scast (ucast (rs ! i) :: u8) = rs ! i" if "residual_width rs = 1"
    by (rule scast_ucast_id) (use that fold_min_bound [OF _ r, of "- 128" sint] fold_max_bound [OF _ r, of sint _ 127] in
      \<open>fastforce simp: residual_width_def Let_def split: if_splits\<close>)+
  moreover have "scast (ucast (rs ! i) :: u16) = rs ! i" if "residual_width rs = 2"
    by (rule scast_ucast_id) (use that fold_min_bound [OF _ r, of "- 32768" sint] fold_max_bound [OF _ r, of sint _ 32767] in
      \<open>fastforce simp: residual_width_def Let_def split: if_splits\<close>)+
  ultimately show "get_i32 (residuals_of_width (residual_width rs) rs) i = rs ! i"
    using assms by (simp add: residuals_of_width_def)
  show "residuals_len (residuals_of_width (residual_width rs) rs) = length rs" by (simp add: residuals_of_width_def)
qed

lemma compact_offsets_read:
  assumes "from_offsets chk offs = Some co"
  shows "compact_offsets_len co = length offs" and "i < length offs \<Longrightarrow> get_offset chk co i = Some (offs ! i)"
proof -
  show l: "compact_offsets_len co = length offs"
    using assms residuals_loop_nth by (auto simp: from_offsets_def compact_offsets_len_def residuals_of_width_def Let_def split: if_splits bind_splits)
  assume i: "i < length offs"
  then obtain slope intercept rs where rs: "residuals_loop chk slope intercept 0 offs = Some rs"
    "co = \<lparr>co_header = \<lparr>ch_slope = slope, ch_intercept = intercept, ch_offset_bytes = residual_width rs\<rparr>,
       co_residuals = residuals_of_width (residual_width rs) rs\<rparr>"
    using assms by (auto simp: from_offsets_def Let_def split: if_splits bind_splits)
  obtain p where p: "predicted_offset chk slope intercept i = Some p" "i32_arith chk (sint (offs ! i) - sint p) = Some (rs ! i)"
    "length rs = length offs" using residuals_loop_nth [OF rs(1)] i by auto
  have "i32_arith chk (sint p + sint (rs ! i)) = Some (offs ! i)"
  proof (cases chk)
    case True
    then have "sint p + sint (rs ! i) = sint (offs ! i)" using i32_arith_SomeD [OF p(2)] by linarith
    then show ?thesis by simp
  next
    case False
    then have "rs ! i = offs ! i - p" using p(2) by simp
    then show ?thesis using False by simp
  qed
  then show "get_offset chk co i = Some (offs ! i)"
    using p(1,3) i l residuals_of_width_read(1) [of i rs] by (simp add: get_offset_def rs(2))
qed

lemma those_map_Some: "those (map Some xs) = Some xs"
  by (induction xs) auto

lemma compact_offsets_all_read: "from_offsets chk offs = Some co \<Longrightarrow> compact_offsets_all chk co = Some offs"
proof -
  assume co: "from_offsets chk offs = Some co"
  have "map (get_offset chk co) [0..<compact_offsets_len co] = map Some offs"
    using compact_offsets_read [OF co] by (auto intro!: nth_equalityI)
  then show ?thesis by (simp add: compact_offsets_all_def those_map_Some)
qed

text \<open>Without overflow checks the encoding always exists.\<close>

lemma from_offsets_wrap: "\<exists>co. from_offsets False offs = Some co"
proof -
  have "\<exists>l. fit_line False offs = Some l" by (auto simp: fit_line_def usize_arith_def Let_def)
  then obtain slope intercept where l: "fit_line False offs = Some (slope, intercept)" by auto
  have "\<exists>rs. residuals_loop False slope intercept k offs = Some rs" for slope intercept k
    by (induction offs arbitrary: k) (auto simp: predicted_offset_def)
  then obtain rs where "residuals_loop False slope intercept 0 offs = Some rs" by blast
  with l show ?thesis by (simp add: from_offsets_def Let_def)
qed

lemma residual_bytes_read:
  assumes "w \<in> {1, 2, 4}"
  shows "length (residual_bytes (residuals_of_width w rs)) = w * length rs"
    and "w = 2 \<Longrightarrow> bytes_words (length rs) (residual_bytes (Two (map ucast rs))) = (map ucast rs :: u16 list)"
    and "w = 4 \<Longrightarrow> bytes_words (length rs) (residual_bytes (Four rs)) = rs"
  using assms bytes_words_of_words [of "map ucast rs :: u16 list"] bytes_words_of_words [of rs]
  by (auto simp: residuals_of_width_def size_of_def)

lemma residual_width_cases: "residual_width rs \<in> {1, 2, 4}"
  by (simp add: residual_width_def Let_def)

definition packed_residuals :: "u32 \<Rightarrow> u32 \<Rightarrow> u32 list \<Rightarrow> compact_offsets" where
  "packed_residuals slope intercept rs = \<lparr>co_header = \<lparr>ch_slope = slope, ch_intercept = intercept, ch_offset_bytes = residual_width rs\<rparr>,
     co_residuals = residuals_of_width (residual_width rs) rs\<rparr>"

lemma from_offsets_packed:
  assumes "from_offsets chk offs = Some co"
  obtains slope intercept rs where "co = packed_residuals slope intercept rs"
proof (cases "offs = []")
  case True
  have "packed_residuals 0 0 [] = \<lparr>co_header = \<lparr>ch_slope = 0, ch_intercept = 0, ch_offset_bytes = 1\<rparr>, co_residuals = One []\<rparr>"
    by (simp add: packed_residuals_def residual_width_def residuals_of_width_def)
  with True assms that [of 0 0 "[]"] show thesis by (simp add: from_offsets_def)
next
  case False
  with assms that show thesis by (auto simp: from_offsets_def packed_residuals_def Let_def split: bind_splits)
qed

lemma decode_write_residuals:
  assumes "from_offsets chk offs = Some co"
  shows "decode_compact_offsets (write_residuals co) = Some co"
proof -
  obtain slope intercept rs where co: "co = packed_residuals slope intercept rs" by (rule from_offsets_packed [OF assms])
  let ?w = "residual_width rs"
  let ?p = "residual_bytes (residuals_of_width ?w rs)"
  have w: "?w \<in> {1, 2, 4}" by (rule residual_width_cases)
  then have u: "unat (of_nat ?w :: u8) = ?w" by auto
  note le = of_le_bytes_le_bytes [where k = 4 and 'w = 32, simplified]
  let ?bs = "le_bytes 4 slope @ le_bytes 4 intercept @ [of_nat ?w] @ ?p"
  have b: "write_residuals co = ?bs" by (simp add: write_residuals_def co packed_residuals_def)
  have h: "of_le_bytes (take 4 ?bs) = slope" "of_le_bytes (take 4 (drop 4 ?bs)) = intercept" "?bs ! 8 = of_nat ?w" "drop 9 ?bs = ?p" "\<not> length ?bs < 9"
    by (simp_all add: le nth_append)
  note p = residual_bytes_read [OF w, of rs]
  have "\<lparr>co_header = \<lparr>ch_slope = slope, ch_intercept = intercept, ch_offset_bytes = ?w\<rparr>,
      co_residuals = (if ?w = 1 then One ?p else if ?w = 2 then Two (bytes_words (length ?p div ?w) ?p)
        else Four (bytes_words (length ?p div ?w) ?p))\<rparr> = co" (is "?r = co")
    using w p(2,3) unfolding p(1) co packed_residuals_def
    by (elim insertE emptyE) (simp_all add: residuals_of_width_def)
  moreover have "length ?p mod ?w = 0" unfolding p(1) by simp
  ultimately show ?thesis using w unfolding b decode_compact_offsets_def
    by (simp only: h u Let_def if_False if_True not_True_eq_False simp_thms)
qed

section \<open>The raw buffer reads back\<close>

text \<open>Where the values end that are laid out one after the other from \<open>b\<close> on.\<close>

fun ends :: "nat \<Rightarrow> 'a list list \<Rightarrow> nat list" where
  "ends b [] = []"
| "ends b (d # ds) = (b + length d) # ends (b + length d) ds"

lemma length_ends [simp]: "length (ends b ds) = length ds"
  by (induction ds arbitrary: b) auto

lemma nth_ends: "i \<le> length ds \<Longrightarrow> (b # ends b ds) ! i = b + length (concat (take i ds))"
proof (induction ds arbitrary: b i)
  case (Cons d ds)
  then show ?case by (cases i) auto
qed simp

lemma last_ends: "last (b # ends b ds) = b + length (concat ds)"
  using nth_ends [of "length ds" ds b] by (simp add: last_conv_nth del: last.simps)

lemma concat_slice: "i < length ds \<Longrightarrow> take (length (ds ! i)) (drop (length (concat (take i ds))) (concat ds)) = ds ! i"
  by (subst id_take_nth_drop [of i ds]) simp_all

lemma length_concat_take_le: "length (concat (take i ds)) \<le> length (concat ds)"
  by (metis append_take_drop_id concat_append le_add1 length_append)

lemma byte_array_values_ends: "byte_array_values (concat ds, 0 # ends 0 ds) = ds"
proof (rule nth_equalityI)
  fix i assume "i < length (byte_array_values (concat ds, 0 # ends 0 ds))"
  then have i: "i < length ds" by (simp add: byte_array_values_def)
  have "(0 # ends 0 ds) ! Suc i - (0 # ends 0 ds) ! i = length (ds ! i)" "(0 # ends 0 ds) ! i = length (concat (take i ds))"
    using nth_ends [of i ds 0] nth_ends [of "Suc i" ds 0] i by (simp_all add: take_Suc_conv_app_nth)
  then show "byte_array_values (concat ds, 0 # ends 0 ds) ! i = ds ! i"
    using i concat_slice [OF i] by (simp add: byte_array_values_def)
qed (simp add: byte_array_values_def)

definition compressed :: "'c fsst \<Rightarrow> 'c \<Rightarrow> bytes option list \<Rightarrow> bytes list" where
  "compressed Z c items = map (\<lambda>x. case x of Some bs \<Rightarrow> fc_compress Z c bs | None \<Rightarrow> []) items"

lemma byte_slices_loop_layout:
  "\<exists>u. byte_slices_loop Z c items vb offs ul
     = (\<lparr>rb_values = vb @ concat (compressed Z c items), rb_uncompressed_bytes = u\<rparr>,
        offs @ map of_nat (ends (length vb) (compressed Z c items)))"
proof (induction items arbitrary: vb offs ul)
  case (Cons item items)
  show ?case
  proof (cases item)
    case None
    with Cons [of vb "offs @ [of_nat (length vb)]" ul] show ?thesis by (simp add: compressed_def)
  next
    case (Some bs)
    with Cons [of "vb @ fc_compress Z c bs" "offs @ [of_nat (length (vb @ fc_compress Z c bs))]" "ul + of_nat (length bs)"]
    show ?thesis by (simp add: compressed_def)
  qed
qed (simp add: compressed_def)

lemma from_byte_slices_layout:
  obtains u where "from_byte_slices Z c items
    = (\<lparr>rb_values = concat (compressed Z c items), rb_uncompressed_bytes = u\<rparr>, map of_nat (0 # ends 0 (compressed Z c items)))"
  using byte_slices_loop_layout [of Z c items "[]" "[0]" 0] by (auto simp: from_byte_slices_def)

lemma compressed_slice_at:
  assumes "length (concat zs) < 2 ^ 32" and "i < length zs" and "rb_values raw = concat zs"
  shows "get_compressed_slice raw (of_nat ((0 # ends 0 zs) ! i)) (of_nat ((0 # ends 0 zs) ! Suc i)) = Some (zs ! i)"
proof -
  let ?a = "length (concat (take i zs))" and ?b = "length (concat (take (Suc i) zs))"
  have e: "(0 # ends 0 zs) ! i = ?a" "(0 # ends 0 zs) ! Suc i = ?b" using assms(2) nth_ends [of i zs 0] nth_ends [of "Suc i" zs 0] by auto
  have b: "?b = ?a + length (zs ! i)" using assms(2) by (simp add: take_Suc_conv_app_nth)
  have l: "?b < 2 ^ 32" "?b \<le> length (concat zs)" using length_concat_take_le [of "Suc i" zs] assms(1) by linarith+
  have u: "unat (of_nat n :: u32) = n" if "n < 2 ^ 32" for n using that by (simp add: unat_of_nat)
  have "unat (of_nat ?a :: u32) = ?a" "unat (of_nat ?b :: u32) = ?b" by (rule u; use l(1) b in linarith)+
  then show ?thesis using b l(2) concat_slice [OF assms(2)] assms(3)
    unfolding get_compressed_slice_def e by (simp add: word_le_nat_alt)
qed

lemma decompress_loop_layout:
  assumes "fsst_ok Z" and "\<And>j. j < length ps \<Longrightarrow> get_compressed_slice raw (fst (ps ! j)) (snd (ps ! j)) = Some (zs ! j)"
    and "length zs = length ps"
  shows "decompress_loop Z c raw ps (vb, os) = Some (vb @ concat (map (fc_decompress Z c) zs), os @ ends (length vb) (map (fc_decompress Z c) zs))"
  using assms(2,3)
proof (induction ps arbitrary: zs vb os)
  case (Cons p ps)
  obtain z zs' where z: "zs = z # zs'" using Cons.prems(2) by (cases zs) auto
  obtain a b where p: "p = (a, b)" by (cases p)
  have s: "get_compressed_slice raw a b = Some z" using Cons.prems(1) [of 0] z p by simp
  have IH: "decompress_loop Z c raw ps (vb', os') = Some (vb' @ concat (map (fc_decompress Z c) zs'), os' @ ends (length vb') (map (fc_decompress Z c) zs'))" for vb' os'
    by (rule Cons.IH) (use Cons.prems(1) [of "Suc _"] Cons.prems(2) z in auto)
  have "z = []" if "a = b" using s that by (auto simp: get_compressed_slice_def split: if_splits)
  moreover have "fc_decompress Z c [] = []" using assms(1) by (simp add: fsst_ok_def)
  ultimately show ?case using s z p by (simp add: IH)
qed simp

lemma selected_loop_layout:
  assumes "\<And>j. j < length sel \<Longrightarrow> fsst_compressed_slice chk fa (sel ! j) = Some (zs ! j)" and "length zs = length sel"
  shows "selected_loop Z chk fa sel (vb, os)
    = Some (vb @ concat (map (fc_decompress Z (fa_compressor fa)) zs), os @ ends (length vb) (map (fc_decompress Z (fa_compressor fa)) zs))"
  using assms
proof (induction sel arbitrary: zs vb os)
  case (Cons i sel)
  obtain z zs' where z: "zs = z # zs'" using Cons.prems(2) by (cases zs) auto
  have "selected_loop Z chk fa sel (vb', os') = Some (vb' @ concat (map (fc_decompress Z (fa_compressor fa)) zs'),
      os' @ ends (length vb') (map (fc_decompress Z (fa_compressor fa)) zs'))" for vb' os'
    by (rule Cons.IH) (use Cons.prems(1) [of "Suc _"] Cons.prems(2) z in auto)
  with Cons.prems(1) [of 0] z show ?case by simp
qed simp

section \<open>FSST arrays read back\<close>

text \<open>The invariant of an array with the compressed slices \<open>zs\<close>: offsets, buffer and byte format agree.\<close>

definition fsst_slices :: "bool \<Rightarrow> 'c fsst_array \<Rightarrow> bytes list \<Rightarrow> bool" where
  "fsst_slices chk fa zs \<longleftrightarrow> compact_offsets_len (fa_compact_offsets fa) = Suc (length zs)
     \<and> (\<forall>i \<le> length zs. get_offset chk (fa_compact_offsets fa) i = Some (of_nat ((0 # ends 0 zs) ! i)))
     \<and> rb_values (fa_raw fa) = concat zs \<and> length (concat zs) < 2 ^ 32
     \<and> decode_compact_offsets (write_residuals (fa_compact_offsets fa)) = Some (fa_compact_offsets fa)"

lemma fsst_slices_new:
  assumes "fsst_from_byte_array Z chk items c = Some fa" and "length (concat (compressed Z c items)) < 2 ^ 32"
  shows "fsst_slices chk fa (compressed Z c items)" and "fa_compressor fa = c"
proof -
  let ?zs = "compressed Z c items"
  obtain u where u: "from_byte_slices Z c items = (\<lparr>rb_values = concat ?zs, rb_uncompressed_bytes = u\<rparr>, map of_nat (0 # ends 0 ?zs))"
    by (rule from_byte_slices_layout)
  then obtain co where co: "from_offsets chk (map of_nat (0 # ends 0 ?zs)) = Some co"
    and fa: "fa = \<lparr>fa_compressor = c, fa_raw = \<lparr>rb_values = concat ?zs, rb_uncompressed_bytes = u\<rparr>, fa_compact_offsets = co\<rparr>"
    using assms(1) by (auto simp: fsst_from_byte_array_def from_byte_offsets_def)
  have "length (map of_nat (0 # ends 0 ?zs) :: u32 list) = Suc (length ?zs)" by simp
  with compact_offsets_read [OF co] decode_write_residuals [OF co] assms(2) show "fsst_slices chk fa ?zs"
    unfolding fsst_slices_def fa by (auto simp del: list.map)
  show "fa_compressor fa = c" by (simp add: fa)
qed

lemma fsst_slice_read:
  assumes "fsst_slices chk fa zs" and "i < length zs"
  shows "fsst_compressed_slice chk fa i = Some (zs ! i)"
  using assms compressed_slice_at [of zs i "fa_raw fa"] by (simp add: fsst_slices_def fsst_compressed_slice_def)

text \<open>An Arrow byte array can hold the values.\<close>

abbreviation values_fit :: "bytes list \<Rightarrow> bool" where
  "values_fit vs \<equiv> length (concat vs) < 2 ^ 31"

lemma finish_ends: "values_fit ds \<Longrightarrow> finish_offsets (concat ds, 0 # ends 0 ds) = Some (concat ds, 0 # ends 0 ds)"
  using last_ends [of 0 ds] by (simp add: finish_offsets_def del: last.simps)

lemma fsst_uncompressed_read:
  assumes "fsst_ok Z" and "fsst_slices chk fa zs" and "values_fit (map (fc_decompress Z (fa_compressor fa)) zs)"
  shows "\<exists>v. fsst_to_uncompressed Z chk fa = Some v \<and> byte_array_values v = map (fc_decompress Z (fa_compressor fa)) zs"
proof -
  let ?ds = "map (fc_decompress Z (fa_compressor fa)) zs" and ?offs = "map of_nat (0 # ends 0 zs) :: u32 list"
  have g: "map (get_offset chk (fa_compact_offsets fa)) [0..<Suc (length zs)] = map Some ?offs"
    using assms(2) by (intro nth_equalityI) (auto simp: fsst_slices_def less_Suc_eq_le simp del: upt_Suc list.map)
  have "compact_offsets_len (fa_compact_offsets fa) = Suc (length zs)" using assms(2) by (simp add: fsst_slices_def)
  then have "compact_offsets_all chk (fa_compact_offsets fa) = Some ?offs"
    unfolding compact_offsets_all_def by (simp only: g those_map_Some)
  moreover have "decompress_loop Z (fa_compressor fa) (fa_raw fa) (zip ?offs (drop 1 ?offs)) ([], [0])
      = Some ([] @ concat ?ds, [0] @ ends (length ([] :: bytes)) ?ds)"
    by (rule decompress_loop_layout [OF assms(1)])
      (use assms(2) compressed_slice_at [of zs _ "fa_raw fa"] in \<open>auto simp: fsst_slices_def simp del: list.map\<close>)
  ultimately show ?thesis using finish_ends [OF assms(3)] byte_array_values_ends [of ?ds]
    by (simp add: fsst_to_uncompressed_def raw_to_uncompressed_def del: list.map)
qed

lemma fsst_selected_read:
  assumes "fsst_slices chk fa zs" and "\<And>i. i \<in> set sel \<Longrightarrow> i < length zs"
    and "values_fit (map (\<lambda>i. fc_decompress Z (fa_compressor fa) (zs ! i)) sel)"
  shows "\<exists>v. to_uncompressed_selected Z chk fa sel = Some v
    \<and> byte_array_values v = map (\<lambda>i. fc_decompress Z (fa_compressor fa) (zs ! i)) sel"
proof -
  let ?ds = "map (fc_decompress Z (fa_compressor fa)) (map ((!) zs) sel)"
  have "selected_loop Z chk fa sel ([], [0]) = Some ([] @ concat ?ds, [0] @ ends (length ([] :: bytes)) ?ds)"
    by (rule selected_loop_layout) (use fsst_slice_read [OF assms(1)] assms(2) in auto)
  moreover have d: "?ds = map (\<lambda>i. fc_decompress Z (fa_compressor fa) (zs ! i)) sel" by simp
  ultimately show ?thesis using finish_ends [of ?ds] byte_array_values_ends [of ?ds] assms(3) unfolding d
    by (simp add: to_uncompressed_selected_def)
qed

lemma raw_bytes_read:
  assumes "length (rb_values raw) < 2 ^ 32"
  shows "raw_from_bytes (raw_to_bytes raw) = Some raw" and "u32_at (raw_to_bytes raw @ rest) 8 = length (rb_values raw)"
    and "length (raw_to_bytes raw) = 12 + length (rb_values raw)"
proof -
  have u: "u32_at (le_bytes 8 (rb_uncompressed_bytes raw) @ le_bytes 4 (of_nat (length (rb_values raw)) :: u32) @ bs) 8 = length (rb_values raw)" for bs
    by (rule u32_at_le_bytes [OF assms]) simp
  then show "u32_at (raw_to_bytes raw @ rest) 8 = length (rb_values raw)" by (simp add: raw_to_bytes_def)
  show "length (raw_to_bytes raw) = 12 + length (rb_values raw)" by (simp add: raw_to_bytes_def)
  have "of_le_bytes (le_bytes 8 w) = w" for w :: u64 by (rule of_le_bytes_le_bytes) simp
  then show "raw_from_bytes (raw_to_bytes raw) = Some raw"
    using u [of "rb_values raw"] by (simp add: raw_from_bytes_def raw_to_bytes_def Let_def)
qed

lemma fsst_bytes_read:
  assumes "fsst_slices chk fa zs"
  shows "fsst_from_bytes chk (fsst_to_bytes fa) (fa_compressor fa) = Some fa"
proof -
  let ?raw = "fa_raw fa" and ?co = "fa_compact_offsets fa"
  have v: "rb_values ?raw = concat zs" "length (rb_values ?raw) < 2 ^ 32" using assms by (simp_all add: fsst_slices_def)
  note r = raw_bytes_read [OF v(2)]
  have "get_offset chk ?co (length zs) = Some (of_nat (length (concat zs)))" "compact_offsets_len ?co = Suc (length zs)"
    "decode_compact_offsets (write_residuals ?co) = Some ?co"
    using assms nth_ends [of "length zs" zs 0] by (auto simp: fsst_slices_def)
  moreover have "unat (of_nat (length (concat zs)) :: u32) = length (concat zs)" using v by (simp add: unat_of_nat)
  ultimately show ?thesis using v(1) unfolding fsst_from_bytes_def fsst_to_bytes_def
    by (simp add: r Let_def del: unat_of_nat)
qed

lemma symbol_table_read:
  assumes "symbol_ops_ok Y" and "save_symbol_table Y c = Some bs"
  shows "load_symbol_table Y bs = Some c"
proof -
  let ?s = "so_symbol_table Y c" and ?l = "so_symbol_lengths Y c"
  have l: "length ?s = length ?l" "length ?s \<le> 255" "bs = [of_nat (length ?s)] @ ?l @ words_bytes ?s"
    using assms(2) by (auto simp: save_symbol_table_def Let_def split: if_splits)
  have "unat (of_nat (length ?s) :: u8) = length ?s" using l(2) by (simp add: unat_of_nat)
  moreover have "bytes_words (length ?s) (words_bytes ?s) = ?s" by (rule bytes_words_of_words) simp
  ultimately show ?thesis using assms(1) l(1) unfolding l(3)
    by (simp add: load_symbol_table_def Let_def symbol_ops_ok_def size_of_def del: unat_of_nat)
qed

end
