(* ===== verification/ByteView.thy ===== *)
theory ByteView
  imports FsstBuffer HybridArray "HOL-Library.Sublist"
begin

unbundle bit_operations_syntax

text \<open>
  Byte-view arrays, \<^verbatim>\<open>src/storage/src/liquid_array/byte_view_array\<close>: strings as 16-bit keys into a
  dictionary of distinct values, the values compressed in an FSST buffer, and for every value a
  key of its first bytes after the prefix that all share. Comparisons are decided on the prefix
  keys where they suffice and on the compressed or decompressed value otherwise; substring
  searches first look at fingerprints of the bytes a value contains. A squeezed array keeps all
  but the FSST buffer, which it reads from disk when it needs it. \<open>None\<close> is a panic or a read
  outside a vector.
\<close>

section \<open>Dictionaries\<close>

datatype arrow_byte_type = AB_Utf8 | AB_Utf8View | AB_Dict16Binary | AB_Dict16Utf8 | AB_Binary | AB_BinaryView

fun arrow_byte_type_id :: "arrow_byte_type \<Rightarrow> u16" where
  "arrow_byte_type_id AB_Utf8 = 0"
| "arrow_byte_type_id AB_Utf8View = 1"
| "arrow_byte_type_id AB_Dict16Binary = 2"
| "arrow_byte_type_id AB_Dict16Utf8 = 3"
| "arrow_byte_type_id AB_Binary = 4"
| "arrow_byte_type_id AB_BinaryView = 5"

definition arrow_byte_type_of_id :: "u16 \<Rightarrow> arrow_byte_type option" where
  "arrow_byte_type_of_id v =
     (if v = 0 then Some AB_Utf8 else if v = 1 then Some AB_Utf8View else if v = 2 then Some AB_Dict16Binary
      else if v = 3 then Some AB_Dict16Utf8 else if v = 4 then Some AB_Binary else if v = 5 then Some AB_BinaryView
      else None)"

text \<open>A dictionary array: its keys and its values; what it stands for, row by row.\<close>

record dict_array =
  da_keys :: "u16 prim_array"
  da_values :: "bytes list"

definition dict_items :: "dict_array \<Rightarrow> bytes option list" where
  "dict_items d = map (map_option (\<lambda>k. da_values d ! unat k)) (pa_items (da_keys d))"

text \<open>
  Arrow's dictionary builder, fed row by row, is a parameter: \<open>None\<close> where it runs out of 16-bit
  keys. A null row has the key 0.
\<close>

definition dict_builder_ok :: "(bytes option list \<Rightarrow> dict_array option) \<Rightarrow> bool" where
  "dict_builder_ok build \<longleftrightarrow> (\<forall>rows d. build rows = Some d \<longrightarrow> pa_wf (da_keys d) \<and> length (pa_values (da_keys d)) = length rows
     \<and> dict_items d = rows \<and> distinct (da_values d) \<and> length (da_values d) \<le> 65536
     \<and> (\<forall>k. Some k \<in> set (pa_items (da_keys d)) \<longrightarrow> unat k < length (da_values d))
     \<and> (\<forall>k \<in> set (pa_values (da_keys d)). k \<noteq> 0 \<longrightarrow> unat k < length (da_values d)))"

section \<open>Fingerprints\<close>

definition fingerprint_from_bytes :: "bytes \<Rightarrow> u32" where
  "fingerprint_from_bytes bs = foldl (\<lambda>bits b. bits OR push_bit (unat (b AND 31)) 1) 0 bs"

definition might_contain :: "u32 \<Rightarrow> u32 \<Rightarrow> bool" where
  "might_contain fp needle \<longleftrightarrow> fp AND needle = needle"

definition build_fingerprints :: "byte_values \<Rightarrow> u32 list" where
  "build_fingerprints v = (if length (snd v) < 2 then [] else map fingerprint_from_bytes (byte_array_values v))"

definition substring_pattern_bytes :: "bytes \<Rightarrow> bytes option" where
  "substring_pattern_bytes p =
     (if length p < 2 then None
      else if p ! 0 \<noteq> 37 \<or> p ! (length p - 1) \<noteq> 37 then None
      else
        (let inner = drop 1 (take (length p - 1) p) in
         if inner = [] then None
         else if list_ex (\<lambda>b. b = 37 \<or> b = 95) inner then None else Some inner))"

section \<open>Arrays\<close>

record 'b byte_view_array =
  bv_dictionary_keys :: "u16 prim_array"
  bv_prefix_keys :: "prefix_key list"
  bv_fsst_buffer :: 'b
  bv_original_arrow_type :: arrow_byte_type
  bv_shared_prefix :: bytes
  bv_string_fingerprints :: "u32 list option"

record 'c disk_buffer =
  db_uncompressed_bytes :: usize
  db_compressor :: 'c

type_synonym 'c memory_view = "'c fsst_array byte_view_array"
type_synonym 'c disk_view = "'c disk_buffer byte_view_array"

fun shared_prefix_loop :: "bytes \<Rightarrow> bytes list \<Rightarrow> bytes" where
  "shared_prefix_loop shared_prefix [] = shared_prefix"
| "shared_prefix_loop shared_prefix (value_bytes # values) =
     (let common_len = length (takeWhile (\<lambda>(a, b). a = b) (zip shared_prefix value_bytes));
          shared_prefix = take common_len shared_prefix
      in if shared_prefix = [] then [] else shared_prefix_loop shared_prefix values)"

definition shared_prefix_of :: "bytes list \<Rightarrow> bytes" where
  "shared_prefix_of values = (case values of [] \<Rightarrow> [] | first # rest \<Rightarrow> shared_prefix_loop first rest)"

definition prefix_key_of :: "bytes \<Rightarrow> bytes \<Rightarrow> prefix_key" where
  "prefix_key_of shared_prefix value_bytes =
     prefix_key_new (if length shared_prefix < length value_bytes then drop (length shared_prefix) value_bytes else [])"

definition from_dict_array_inner ::
  "'c fsst \<Rightarrow> bool \<Rightarrow> dict_array \<Rightarrow> 'c \<Rightarrow> arrow_byte_type \<Rightarrow> bool \<Rightarrow> 'c memory_view option" where
  "from_dict_array_inner Z chk dict compressor arrow_type with_fingerprints =
     (let values = da_values dict;
          shared_prefix = shared_prefix_of values
      in map_option (\<lambda>fa. \<lparr>bv_dictionary_keys = da_keys dict, bv_prefix_keys = map (prefix_key_of shared_prefix) values,
             bv_fsst_buffer = fa, bv_original_arrow_type = arrow_type, bv_shared_prefix = shared_prefix,
             bv_string_fingerprints = (if with_fingerprints then Some (map fingerprint_from_bytes values) else None)\<rparr>)
           (fsst_from_byte_array Z chk (map Some values) compressor))"

text \<open>\<open>from_byte_array_inner\<close> and \<open>from_view_array_inner\<close>.\<close>

definition from_byte_array_inner ::
  "(bytes option list \<Rightarrow> dict_array option) \<Rightarrow> 'c fsst \<Rightarrow> bool \<Rightarrow> bytes option list \<Rightarrow> 'c \<Rightarrow> arrow_byte_type \<Rightarrow> bool
    \<Rightarrow> 'c memory_view option" where
  "from_byte_array_inner build Z chk rows compressor arrow_type with_fingerprints =
     Option.bind (build rows) (\<lambda>dict. from_dict_array_inner Z chk dict compressor arrow_type with_fingerprints)"

section \<open>Reading\<close>

text \<open>\<open>build_dict_selection\<close>: the values that the keys use, and the keys renumbered; the counter is a \<open>u16\<close>.\<close>

fun number_selected :: "bool \<Rightarrow> bool list \<Rightarrow> nat \<Rightarrow> u16 \<Rightarrow> (nat \<rightharpoonup> u16) \<times> nat list \<Rightarrow> ((nat \<rightharpoonup> u16) \<times> nat list) option" where
  "number_selected chk [] i offset acc = Some acc"
| "number_selected chk (select # hit_mask) i offset (key_map, selected) =
     (if select then
        (if chk \<and> offset = 65535 then None
         else number_selected chk hit_mask (Suc i) (offset + 1) (key_map(i \<mapsto> offset), selected @ [i]))
      else number_selected chk hit_mask (Suc i) offset (key_map, selected))"

definition build_dict_selection :: "bool \<Rightarrow> u16 prim_array \<Rightarrow> nat \<Rightarrow> (nat list \<times> u16 option list) option" where
  "build_dict_selection chk keys dict_len =
     (let hits = map unat (List.map_filter id (pa_items keys)) in
      if list_ex (\<lambda>k. k \<ge> dict_len) hits then None
      else
        map_option (\<lambda>(key_map, selected). (selected, map (\<lambda>x. Option.bind x (\<lambda>v. key_map (unat v))) (pa_items keys)))
          (number_selected chk (map (\<lambda>i. i \<in> set hits) [0..<dict_len]) 0 0 (Map.empty, [])))"

definition should_decompress_keyed :: "'b byte_view_array \<Rightarrow> bool" where
  "should_decompress_keyed bv \<longleftrightarrow> length (pa_values (bv_dictionary_keys bv)) < 2048
     \<or> length (pa_values (bv_dictionary_keys bv)) < length (bv_prefix_keys bv)"

text \<open>\<open>to_dict_arrow\<close> over a way to decompress all or some values: the rows that the dictionary stands for.\<close>

definition dict_rows :: "u16 option list \<Rightarrow> byte_values \<Rightarrow> bytes option list" where
  "dict_rows keys v = map (map_option (\<lambda>k. byte_array_values v ! unat k)) keys"

definition to_dict_arrow_inner ::
  "bool \<Rightarrow> byte_values option \<Rightarrow> (nat list \<Rightarrow> byte_values option) \<Rightarrow> 'b byte_view_array \<Rightarrow> bytes option list option" where
  "to_dict_arrow_inner chk all some_of bv =
     (if should_decompress_keyed bv then
        Option.bind (build_dict_selection chk (bv_dictionary_keys bv) (length (bv_prefix_keys bv)))
          (\<lambda>(selected, new_keys). map_option (dict_rows new_keys) (some_of selected))
      else map_option (dict_rows (pa_items (bv_dictionary_keys bv))) all)"

definition memory_to_arrow :: "'c fsst \<Rightarrow> bool \<Rightarrow> 'c memory_view \<Rightarrow> bytes option list option" where
  "memory_to_arrow Z chk bv =
     to_dict_arrow_inner chk (fsst_to_uncompressed Z chk (bv_fsst_buffer bv)) (to_uncompressed_selected Z chk (bv_fsst_buffer bv)) bv"

definition filter_keys :: "u16 arrow_kernels \<Rightarrow> 'b byte_view_array \<Rightarrow> bool list \<Rightarrow> 'b byte_view_array" where
  "filter_keys K bv selection = bv\<lparr>bv_dictionary_keys := ak_filter K (bv_dictionary_keys bv) selection\<rparr>"

definition memory_filter :: "u16 arrow_kernels \<Rightarrow> 'c fsst \<Rightarrow> bool \<Rightarrow> 'c memory_view \<Rightarrow> bool list \<Rightarrow> bytes option list option" where
  "memory_filter K Z chk bv selection = memory_to_arrow Z chk (filter_keys K bv selection)"

section \<open>Comparing byte strings\<close>

datatype ordering = Less | Equal | Greater

fun bytes_cmp :: "bytes \<Rightarrow> bytes \<Rightarrow> ordering" where
  "bytes_cmp [] [] = Equal"
| "bytes_cmp [] (_ # _) = Less"
| "bytes_cmp (_ # _) [] = Greater"
| "bytes_cmp (a # as) (b # bs) = (if a < b then Less else if b < a then Greater else bytes_cmp as bs)"

text \<open>The comparison of the first \<open>len\<close> bytes, unrolled for short lengths in the code.\<close>

definition bytes_cmp_short :: "bytes \<Rightarrow> bytes \<Rightarrow> nat \<Rightarrow> ordering" where
  "bytes_cmp_short left right len = bytes_cmp (take len left) (take len right)"

definition bytes_cmp_short_auto :: "bytes \<Rightarrow> bytes \<Rightarrow> ordering" where
  "bytes_cmp_short_auto left right =
     (let r = bytes_cmp_short left right (min (length left) (length right))
      in if r = Equal then (if length left < length right then Less else if length right < length left then Greater else Equal)
         else r)"

datatype comparison = Cmp_Lt | Cmp_Gt | Cmp_LtEq | Cmp_GtEq

datatype byte_view_operator =
    BV_Comparison comparison
  | BV_Eq
  | BV_NotEq
  | BV_Contains
  | BV_NotContains

fun comparison_holds :: "comparison \<Rightarrow> ordering \<Rightarrow> bool" where
  "comparison_holds Cmp_Lt r \<longleftrightarrow> r = Less"
| "comparison_holds Cmp_LtEq r \<longleftrightarrow> r \<noteq> Greater"
| "comparison_holds Cmp_Gt r \<longleftrightarrow> r = Greater"
| "comparison_holds Cmp_GtEq r \<longleftrightarrow> r \<noteq> Less"

definition map_dictionary_results :: "'b byte_view_array \<Rightarrow> bool list \<Rightarrow> bool_array option" where
  "map_dictionary_results bv dict_results =
     (let keys = bv_dictionary_keys bv in
      if list_all (\<lambda>k. unat k < length dict_results) (pa_values keys)
      then Some \<lparr>ba_values = map (\<lambda>k. dict_results ! unat k) (pa_values keys), ba_nulls = pa_nulls keys\<rparr>
      else None)"

section \<open>Decisions on prefixes\<close>

definition compare_with_shared_prefix :: "'b byte_view_array \<Rightarrow> bytes \<Rightarrow> comparison \<Rightarrow> bool option" where
  "compare_with_shared_prefix bv needle op =
     (let shared_prefix_len = length (bv_shared_prefix bv);
          needle_shared_len = min (length needle) shared_prefix_len;
          shared_cmp = bytes_cmp (take needle_shared_len (bv_shared_prefix bv)) (take needle_shared_len needle)
      in case shared_cmp of
           Less \<Rightarrow> Some (op = Cmp_Lt \<or> op = Cmp_LtEq)
         | Greater \<Rightarrow> Some (op = Cmp_Gt \<or> op = Cmp_GtEq)
         | Equal \<Rightarrow> if length needle < shared_prefix_len then Some (op = Cmp_Gt \<or> op = Cmp_GtEq) else None)"

fun prefix_loop :: "bytes \<Rightarrow> nat \<Rightarrow> comparison \<Rightarrow> nat \<Rightarrow> prefix_key list \<Rightarrow> bool list \<times> nat list" where
  "prefix_loop needle_suffix cmp_len op i [] = ([], [])"
| "prefix_loop needle_suffix cmp_len op i (pk # pks) =
     (let (rest, ambiguous) = prefix_loop needle_suffix cmp_len op (Suc i) pks
      in case bytes_cmp_short (pk_prefix7 pk) needle_suffix cmp_len of
           Less \<Rightarrow> ((op = Cmp_Lt \<or> op = Cmp_LtEq) # rest, ambiguous)
         | Greater \<Rightarrow> ((op = Cmp_Gt \<or> op = Cmp_GtEq) # rest, ambiguous)
         | Equal \<Rightarrow> (False # rest, i # ambiguous))"

fun empty_suffix_answer :: "comparison \<Rightarrow> prefix_key \<Rightarrow> bool" where
  "empty_suffix_answer Cmp_Lt pk = False"
| "empty_suffix_answer Cmp_LtEq pk = (pk_len pk = 0)"
| "empty_suffix_answer Cmp_Gt pk = (pk_len pk \<noteq> 0)"
| "empty_suffix_answer Cmp_GtEq pk = True"

definition compare_with_prefix :: "'b byte_view_array \<Rightarrow> bytes \<Rightarrow> comparison \<Rightarrow> bool list \<times> nat list" where
  "compare_with_prefix bv needle op =
     (case compare_with_shared_prefix bv needle op of
        Some result \<Rightarrow> (replicate (length (pa_values (bv_dictionary_keys bv))) result, [])
      | None \<Rightarrow>
          (let needle_suffix = drop (length (bv_shared_prefix bv)) needle;
               cmp_len = min (length needle_suffix) prefix_len
           in if cmp_len = 0 then (map (empty_suffix_answer op) (bv_prefix_keys bv), [])
              else prefix_loop needle_suffix cmp_len op 0 (bv_prefix_keys bv)))"

definition known_len :: "prefix_key \<Rightarrow> nat option" where
  "known_len pk = (if pk_len pk = 255 then None else Some (unat (pk_len pk)))"

definition length_gate :: "prefix_key \<Rightarrow> nat \<Rightarrow> bool" where
  "length_gate pk needle_len = (case known_len pk of Some l \<Rightarrow> l = needle_len | None \<Rightarrow> needle_len \<ge> 255)"

definition needle_misses_prefix :: "'b byte_view_array \<Rightarrow> bytes \<Rightarrow> bool" where
  "needle_misses_prefix bv needle \<longleftrightarrow> length needle < length (bv_shared_prefix bv)
     \<or> take (length (bv_shared_prefix bv)) needle \<noteq> bv_shared_prefix bv"

fun equals_prefix_loop :: "bytes \<Rightarrow> nat \<Rightarrow> prefix_key list \<Rightarrow> bool list \<times> nat list" where
  "equals_prefix_loop needle_suffix i [] = ([], [])"
| "equals_prefix_loop needle_suffix i (pk # pks) =
     (let (rest, ambiguous) = equals_prefix_loop needle_suffix (Suc i) pks
      in if \<not> length_gate pk (length needle_suffix) then (False # rest, ambiguous)
         else case known_len pk of
           Some l \<Rightarrow>
             if l \<le> prefix_len then ((take l (pk_prefix7 pk) = take l needle_suffix) # rest, ambiguous)
             else (False # rest, if take prefix_len (pk_prefix7 pk) = take prefix_len needle_suffix then i # ambiguous else ambiguous)
         | None \<Rightarrow> (False # rest, if take prefix_len (pk_prefix7 pk) = take prefix_len needle_suffix then i # ambiguous else ambiguous))"

definition compare_equals_with_prefix :: "'b byte_view_array \<Rightarrow> bytes \<Rightarrow> bool list \<times> nat list" where
  "compare_equals_with_prefix bv needle =
     (if needle_misses_prefix bv needle then (replicate (length (bv_prefix_keys bv)) False, [])
      else equals_prefix_loop (drop (length (bv_shared_prefix bv)) needle) 0 (bv_prefix_keys bv))"

section \<open>Comparisons in memory\<close>

definition short_equal :: "bytes \<Rightarrow> prefix_key \<Rightarrow> bool" where
  "short_equal needle_suffix pk =
     (case known_len pk of
        Some l \<Rightarrow> l = length needle_suffix \<and> take l (pk_prefix7 pk) = take l needle_suffix
      | None \<Rightarrow> False)"

fun equals_loop :: "bool \<Rightarrow> 'c fsst_array \<Rightarrow> bytes \<Rightarrow> bytes \<Rightarrow> nat \<Rightarrow> prefix_key list \<Rightarrow> bool list option" where
  "equals_loop chk fa compressed_needle needle_suffix i [] = Some []"
| "equals_loop chk fa compressed_needle needle_suffix i (pk # pks) =
     (if length_gate pk (length needle_suffix) \<and> take prefix_len (pk_prefix7 pk) = take prefix_len needle_suffix then
        (case fsst_compressed_slice chk fa i of
           None \<Rightarrow> None
         | Some compressed_value \<Rightarrow>
             map_option ((#) (compressed_value = compressed_needle)) (equals_loop chk fa compressed_needle needle_suffix (Suc i) pks))
      else map_option ((#) False) (equals_loop chk fa compressed_needle needle_suffix (Suc i) pks))"

definition memory_compare_equals :: "'c fsst \<Rightarrow> bool \<Rightarrow> 'c memory_view \<Rightarrow> bytes \<Rightarrow> bool_array option" where
  "memory_compare_equals Z chk bv needle =
     (if needle_misses_prefix bv needle then map_dictionary_results bv (replicate (length (bv_prefix_keys bv)) False)
      else
        (let needle_suffix = drop (length (bv_shared_prefix bv)) needle in
         if length needle_suffix \<le> prefix_len
           then map_dictionary_results bv (map (short_equal needle_suffix) (bv_prefix_keys bv))
         else
           (let fa = bv_fsst_buffer bv in
            Option.bind (equals_loop chk fa (fc_compress Z (fa_compressor fa) needle) needle_suffix 0 (bv_prefix_keys bv))
              (map_dictionary_results bv))))"

definition negate_mask :: "bool_array \<Rightarrow> bool_array" where
  "negate_mask m = m\<lparr>ba_values := map Not (ba_values m)\<rparr>"

text \<open>Writing answers into the vector of results; an index outside it panics.\<close>

fun write_results :: "(nat \<times> bool) list \<Rightarrow> bool list \<Rightarrow> bool list option" where
  "write_results [] results = Some results"
| "write_results ((i, b) # rest) results = (if i < length results then write_results rest (results[i := b]) else None)"

text \<open>The end of \<open>compare_with_inner\<close>, over a way to decompress the ambiguous values and to compare them.\<close>

definition resolve_ambiguous ::
  "(nat list \<Rightarrow> byte_values option) \<Rightarrow> (bytes \<Rightarrow> bool) \<Rightarrow> bool list \<times> nat list \<Rightarrow> bool list option" where
  "resolve_ambiguous some_of decide r =
     (case r of (dict_results, ambiguous) \<Rightarrow>
        if ambiguous \<noteq> [] then
          Option.bind (some_of ambiguous) (\<lambda>v. write_results (zip ambiguous (map decide (byte_array_values v))) dict_results)
        else Some dict_results)"

definition memory_compare_with_inner :: "'c fsst \<Rightarrow> bool \<Rightarrow> 'c memory_view \<Rightarrow> bytes \<Rightarrow> comparison \<Rightarrow> bool_array option" where
  "memory_compare_with_inner Z chk bv needle op =
     Option.bind (resolve_ambiguous (to_uncompressed_selected Z chk (bv_fsst_buffer bv))
         (\<lambda>v. comparison_holds op (bytes_cmp v needle)) (compare_with_prefix bv needle op))
       (map_dictionary_results bv)"

section \<open>Substring searches\<close>

text \<open>\<open>std::str::from_utf8\<close>.\<close>

fun utf8_valid :: "bytes \<Rightarrow> bool" where
  "utf8_valid [] = True"
| "utf8_valid (a # bs) =
     (if a < 128 then utf8_valid bs
      else case bs of
        b # rest \<Rightarrow>
          if 194 \<le> a \<and> a \<le> 223 then 128 \<le> b \<and> b \<le> 191 \<and> utf8_valid rest
          else
            (case rest of
               c # rest' \<Rightarrow>
                 if 224 \<le> a \<and> a \<le> 239 then
                   (if a = 224 then 160 else 128) \<le> b \<and> b \<le> (if a = 237 then 159 else 191) \<and> 128 \<le> c \<and> c \<le> 191 \<and> utf8_valid rest'
                 else
                   (case rest' of
                      d # rest'' \<Rightarrow>
                        240 \<le> a \<and> a \<le> 244 \<and> (if a = 240 then 144 else 128) \<le> b \<and> b \<le> (if a = 244 then 143 else 191)
                          \<and> 128 \<le> c \<and> c \<le> 191 \<and> 128 \<le> d \<and> d \<le> 191 \<and> utf8_valid rest''
                    | [] \<Rightarrow> False)
             | [] \<Rightarrow> False)
      | [] \<Rightarrow> False)"

text \<open>
  DataFusion's \<open>LIKE\<close> on an array of strings is a parameter; what is relied on: a pattern
  \<open>%x%\<close>, with \<open>x\<close> free of the wildcards and of the escape character, finds the strings that
  contain \<open>x\<close>.
\<close>

type_synonym like_kernel = "bytes list \<Rightarrow> bytes \<Rightarrow> bool option list"

definition like_ok :: "like_kernel \<Rightarrow> bool" where
  "like_ok like \<longleftrightarrow> (\<forall>vs x. list_all (\<lambda>b. b \<notin> {37, 95, 92}) x \<longrightarrow>
     like vs ([37] @ x @ [37]) = map (\<lambda>v. Some (sublist x v)) vs)"

definition compute_fingerprint_candidates :: "bytes \<Rightarrow> u32 list \<Rightarrow> bool list \<times> nat list" where
  "compute_fingerprint_candidates needle fingerprints =
     (let needle_fp = fingerprint_from_bytes needle
      in (replicate (length fingerprints) False, filter (\<lambda>i. might_contain (fingerprints ! i) needle_fp) [0..<length fingerprints]))"

definition apply_like_match_on_candidates ::
  "like_kernel \<Rightarrow> bool list \<Rightarrow> nat list \<Rightarrow> byte_values \<Rightarrow> bytes \<Rightarrow> bool \<Rightarrow> bool list option" where
  "apply_like_match_on_candidates like dict_results ambiguous values needle negated =
     (if \<not> utf8_valid needle then None
      else
        (let matches = like (byte_array_values values) ([37] @ needle @ [37]);
             hits = filter (\<lambda>(i, m). m = Some True) (zip ambiguous matches)
         in map_option (if negated then map Not else id) (write_results (map (\<lambda>(i, _). (i, True)) hits) dict_results)))"

definition compare_like_substring ::
  "like_kernel \<Rightarrow> (nat list \<Rightarrow> byte_values option) \<Rightarrow> 'b byte_view_array \<Rightarrow> bytes \<Rightarrow> bool \<Rightarrow> u32 list \<Rightarrow> bool_array option" where
  "compare_like_substring like some_of bv needle negated fingerprints =
     (case compute_fingerprint_candidates needle fingerprints of
        (dict_results, ambiguous) \<Rightarrow>
          Option.bind
            (if ambiguous \<noteq> [] then
               Option.bind (some_of ambiguous) (\<lambda>v. apply_like_match_on_candidates like dict_results ambiguous v needle negated)
             else Some dict_results)
            (map_dictionary_results bv))"

text \<open>\<open>compare_with_arrow_fallback\<close>: DataFusion's comparison of the decoded rows with the needle.\<close>

type_synonym fallback_kernel = "bytes option list \<Rightarrow> bytes \<Rightarrow> byte_view_operator \<Rightarrow> bool_array option"

definition memory_compare_with ::
  "like_kernel \<Rightarrow> fallback_kernel \<Rightarrow> 'c fsst \<Rightarrow> bool \<Rightarrow> 'c memory_view \<Rightarrow> bytes \<Rightarrow> byte_view_operator \<Rightarrow> bool_array option" where
  "memory_compare_with like fallback Z chk bv needle op =
     (let substring = (\<lambda>negated.
            case bv_string_fingerprints bv of
              Some fingerprints \<Rightarrow>
                Option.bind (substring_pattern_bytes needle) (\<lambda>pattern.
                  compare_like_substring like (to_uncompressed_selected Z chk (bv_fsst_buffer bv)) bv pattern negated fingerprints)
            | None \<Rightarrow> Option.bind (memory_to_arrow Z chk bv) (\<lambda>rows. fallback rows needle op))
      in case op of
           BV_Comparison c \<Rightarrow> memory_compare_with_inner Z chk bv needle c
         | BV_Eq \<Rightarrow> memory_compare_equals Z chk bv needle
         | BV_NotEq \<Rightarrow> map_option negate_mask (memory_compare_equals Z chk bv needle)
         | BV_Contains \<Rightarrow> substring False
         | BV_NotContains \<Rightarrow> substring True)"

section \<open>The serialized form\<close>

record byte_view_header =
  vh_keys_size :: u32
  vh_compact_offsets_size :: u32
  vh_shared_prefix_size :: u32
  vh_fsst_raw_size :: u32
  vh_fingerprint_size :: u32

definition view_header_to_bytes :: "byte_view_header \<Rightarrow> bytes" where
  "view_header_to_bytes h = le_bytes 4 (vh_keys_size h) @ le_bytes 4 (vh_compact_offsets_size h)
     @ le_bytes 4 (vh_shared_prefix_size h) @ le_bytes 4 (vh_fsst_raw_size h) @ le_bytes 4 (vh_fingerprint_size h)"

definition view_header_from_bytes :: "bytes \<Rightarrow> byte_view_header option" where
  "view_header_from_bytes bs =
     (if length bs < 20 then None
      else Some \<lparr>vh_keys_size = of_le_bytes (take 4 bs), vh_compact_offsets_size = of_le_bytes (take 4 (drop 4 bs)),
        vh_shared_prefix_size = of_le_bytes (take 4 (drop 8 bs)), vh_fsst_raw_size = of_le_bytes (take 4 (drop 12 bs)),
        vh_fingerprint_size = of_le_bytes (take 4 (drop 16 bs))\<rparr>)"

definition LIQUID_BYTE_VIEW :: u16 where "LIQUID_BYTE_VIEW = 4"

text \<open>The padding that the \<open>while\<close> loops write.\<close>

definition pad8 :: "bytes \<Rightarrow> bytes" where
  "pad8 bs = bs @ replicate (align8 (length bs) - length bs) 0"

definition prefix_key_bytes :: "prefix_key \<Rightarrow> bytes" where
  "prefix_key_bytes pk = pk_prefix7 pk @ [pk_len pk]"

definition decode_prefix_keys :: "bytes \<Rightarrow> prefix_key list option" where
  "decode_prefix_keys bs =
     (if length bs mod 8 \<noteq> 0 then None
      else Some (map (\<lambda>i. \<lparr>pk_prefix7 = take 7 (drop (i * 8) bs), pk_len = bs ! (i * 8 + 7)\<rparr>) [0..<length bs div 8]))"

definition view_to_bytes_inner :: "u16 fastlanes \<Rightarrow> 'c memory_view \<Rightarrow> bytes" where
  "view_to_bytes_inner F bv =
     (let fa = bv_fsst_buffer bv;
          fsst_raw_bytes = raw_to_bytes (fa_raw fa);
          keys_bytes = to_bytes (from_primitive F (bv_dictionary_keys bv) 16);
          offsets_bytes = write_residuals (fa_compact_offsets fa);
          prefix_bytes = concat (map prefix_key_bytes (bv_prefix_keys bv));
          fingerprint_bytes = (case bv_string_fingerprints bv of Some fs \<Rightarrow> words_bytes fs | None \<Rightarrow> []);
          ipc = ipc_header_new LIQUID_BYTE_VIEW (arrow_byte_type_id (bv_original_arrow_type bv));
          view_header = \<lparr>vh_keys_size = of_nat (length keys_bytes), vh_compact_offsets_size = of_nat (length offsets_bytes),
            vh_shared_prefix_size = of_nat (length (bv_shared_prefix bv)), vh_fsst_raw_size = of_nat (length fsst_raw_bytes),
            vh_fingerprint_size = of_nat (length fingerprint_bytes)\<rparr>;
          result0 = pad8 (ipc_header_to_bytes ipc @ view_header_to_bytes view_header);
          result1 = pad8 (result0 @ fsst_raw_bytes);
          result2 = pad8 (result1 @ keys_bytes);
          result3 = pad8 (result2 @ offsets_bytes);
          result4 = pad8 (result3 @ prefix_bytes);
          result5 = pad8 (result4 @ bv_shared_prefix bv)
      in result5 @ fingerprint_bytes)"

text \<open>One section of the input: from the next multiple of eight, \<open>len\<close> bytes; the rest of the reading.\<close>

definition read_section :: "bytes \<Rightarrow> nat \<Rightarrow> nat \<Rightarrow> (bytes \<Rightarrow> nat \<Rightarrow> 'r option) \<Rightarrow> 'r option" where
  "read_section bs cursor len k =
     (let start = align8 cursor in if start + len > length bs then None else k (take len (drop start bs)) (start + len))"

definition view_from_bytes :: "u16 fastlanes \<Rightarrow> bytes \<Rightarrow> 'c \<Rightarrow> 'c memory_view option" where
  "view_from_bytes F bs compressor =
     Option.bind (ipc_header_from_bytes bs) (\<lambda>ipc.
     Option.bind (arrow_byte_type_of_id (h_physical_type_id ipc)) (\<lambda>original_arrow_type.
     if length bs < 36 then None else
     Option.bind (view_header_from_bytes (take 20 (drop 16 bs))) (\<lambda>vh.
     read_section bs 36 (unat (vh_fsst_raw_size vh)) (\<lambda>fsst_raw cursor.
     Option.bind (raw_from_bytes fsst_raw) (\<lambda>raw_buffer.
     read_section bs cursor (unat (vh_keys_size vh)) (\<lambda>keys_data cursor.
     Option.bind (Option.bind (from_bytes keys_data) (to_primitive F)) (\<lambda>dictionary_keys.
     read_section bs cursor (unat (vh_compact_offsets_size vh)) (\<lambda>chunk cursor.
     Option.bind (if vh_compact_offsets_size vh > 0 then decode_compact_offsets chunk else from_offsets False []) (\<lambda>compact_offsets.
     let prefix_count = compact_offsets_len compact_offsets - 1 in
     read_section bs cursor (prefix_count * 8) (\<lambda>prefix_data cursor.
     Option.bind (decode_prefix_keys prefix_data) (\<lambda>prefix_keys.
     read_section bs cursor (unat (vh_shared_prefix_size vh)) (\<lambda>shared_prefix cursor.
     read_section bs cursor (unat (vh_fingerprint_size vh)) (\<lambda>fingerprint_data cursor.
     Option.bind
       (if vh_fingerprint_size vh = 0 then Some None
        else if unat (vh_fingerprint_size vh) mod 4 \<noteq> 0 then None
        else if unat (vh_fingerprint_size vh) \<noteq> prefix_count * 4 then None
        else Some (Some (bytes_words prefix_count fingerprint_data)))
       (\<lambda>string_fingerprints. Some \<lparr>bv_dictionary_keys = dictionary_keys, bv_prefix_keys = prefix_keys,
          bv_fsst_buffer = \<lparr>fa_compressor = compressor, fa_raw = raw_buffer, fa_compact_offsets = compact_offsets\<rparr>,
          bv_original_arrow_type = original_arrow_type, bv_shared_prefix = shared_prefix,
          bv_string_fingerprints = string_fingerprints\<rparr>))))))))))))))"

section \<open>Squeezed arrays\<close>

text \<open>\<open>squeeze\<close>, given whether the hint asks for substring searches; \<open>Some None\<close> without a hint.\<close>

definition view_squeeze ::
  "u16 fastlanes \<Rightarrow> 'c fsst \<Rightarrow> bool \<Rightarrow> 'c memory_view \<Rightarrow> bool option \<Rightarrow> ('c disk_view \<times> bytes) option option" where
  "view_squeeze F Z chk bv hint =
     (case hint of
        None \<Rightarrow> Some None
      | Some substring_search \<Rightarrow>
          map_option (\<lambda>string_fingerprints. Some (\<lparr>bv_dictionary_keys = bv_dictionary_keys bv, bv_prefix_keys = bv_prefix_keys bv,
              bv_fsst_buffer = \<lparr>db_uncompressed_bytes = rb_uncompressed_bytes (fa_raw (bv_fsst_buffer bv)),
                db_compressor = fa_compressor (bv_fsst_buffer bv)\<rparr>,
              bv_original_arrow_type = bv_original_arrow_type bv, bv_shared_prefix = bv_shared_prefix bv,
              bv_string_fingerprints = string_fingerprints\<rparr>, view_to_bytes_inner F bv))
            (if substring_search then
               (case bv_string_fingerprints bv of
                  Some fs \<Rightarrow> Some (Some fs)
                | None \<Rightarrow> map_option (\<lambda>v. Some (build_fingerprints v)) (fsst_to_uncompressed Z chk (bv_fsst_buffer bv)))
             else Some None))"

definition disk_to_uncompressed_selected ::
  "u16 fastlanes \<Rightarrow> 'c fsst \<Rightarrow> bool \<Rightarrow> bytes \<Rightarrow> 'c disk_buffer \<Rightarrow> nat list \<Rightarrow> byte_values option" where
  "disk_to_uncompressed_selected F Z chk disk db selected =
     Option.bind (view_from_bytes F disk (db_compressor db)) (\<lambda>bv. to_uncompressed_selected Z chk (bv_fsst_buffer bv) selected)"

definition disk_to_uncompressed :: "u16 fastlanes \<Rightarrow> 'c fsst \<Rightarrow> bool \<Rightarrow> bytes \<Rightarrow> 'c disk_buffer \<Rightarrow> byte_values option" where
  "disk_to_uncompressed F Z chk disk db =
     Option.bind (view_from_bytes F disk (db_compressor db)) (\<lambda>bv. fsst_to_uncompressed Z chk (bv_fsst_buffer bv))"

text \<open>\<open>to_arrow_array\<close> of the trait hydrates the whole array; filtering decompresses what the remaining keys use.\<close>

definition disk_to_arrow :: "u16 fastlanes \<Rightarrow> 'c fsst \<Rightarrow> bool \<Rightarrow> bytes \<Rightarrow> 'c disk_view \<Rightarrow> bytes option list option" where
  "disk_to_arrow F Z chk disk bv =
     Option.bind (view_from_bytes F disk (db_compressor (bv_fsst_buffer bv))) (memory_to_arrow Z chk)"

definition disk_filter ::
  "u16 arrow_kernels \<Rightarrow> u16 fastlanes \<Rightarrow> 'c fsst \<Rightarrow> bool \<Rightarrow> bytes \<Rightarrow> 'c disk_view \<Rightarrow> bool list \<Rightarrow> bytes option list option" where
  "disk_filter K F Z chk disk bv selection =
     (if \<not> count_list selection True > 0 then Some []
      else to_dict_arrow_inner chk (disk_to_uncompressed F Z chk disk (bv_fsst_buffer bv))
             (disk_to_uncompressed_selected F Z chk disk (bv_fsst_buffer bv)) (filter_keys K bv selection))"

fun compressed_matches :: "bool \<Rightarrow> 'c fsst_array \<Rightarrow> bytes \<Rightarrow> nat list \<Rightarrow> bool list \<Rightarrow> bool list option" where
  "compressed_matches chk fa compressed_needle [] dict_results = Some dict_results"
| "compressed_matches chk fa compressed_needle (i # ambiguous) dict_results =
     (case fsst_compressed_slice chk fa i of
        None \<Rightarrow> None
      | Some compressed_value \<Rightarrow>
          if compressed_value = compressed_needle then
            (if i < length dict_results then compressed_matches chk fa compressed_needle ambiguous (dict_results[i := True]) else None)
          else compressed_matches chk fa compressed_needle ambiguous dict_results)"

definition disk_compare_equals :: "u16 fastlanes \<Rightarrow> 'c fsst \<Rightarrow> bool \<Rightarrow> bytes \<Rightarrow> 'c disk_view \<Rightarrow> bytes \<Rightarrow> bool_array option" where
  "disk_compare_equals F Z chk disk bv needle =
     (case compare_equals_with_prefix bv needle of
        (dict_results, ambiguous) \<Rightarrow>
          Option.bind
            (if ambiguous \<noteq> [] then
               Option.bind (view_from_bytes F disk (db_compressor (bv_fsst_buffer bv))) (\<lambda>hydrated.
                 let fa = bv_fsst_buffer hydrated
                 in compressed_matches chk fa (fc_compress Z (fa_compressor fa) needle) ambiguous dict_results)
             else Some dict_results)
            (map_dictionary_results bv))"

definition disk_compare_with ::
  "like_kernel \<Rightarrow> u16 fastlanes \<Rightarrow> 'c fsst \<Rightarrow> bool \<Rightarrow> bytes \<Rightarrow> 'c disk_view \<Rightarrow> bytes \<Rightarrow> byte_view_operator \<Rightarrow> bool_array option" where
  "disk_compare_with like F Z chk disk bv needle op =
     (let some_of = disk_to_uncompressed_selected F Z chk disk (bv_fsst_buffer bv);
          substring = (\<lambda>negated. Option.bind (substring_pattern_bytes needle) (\<lambda>pattern.
            Option.bind (bv_string_fingerprints bv) (compare_like_substring like some_of bv pattern negated)))
      in case op of
           BV_Eq \<Rightarrow> disk_compare_equals F Z chk disk bv needle
         | BV_NotEq \<Rightarrow> map_option negate_mask (disk_compare_equals F Z chk disk bv needle)
         | BV_Comparison c \<Rightarrow>
             Option.bind (resolve_ambiguous some_of (\<lambda>v. comparison_holds c (bytes_cmp_short_auto v needle)) (compare_with_prefix bv needle c))
               (map_dictionary_results bv)
         | BV_Contains \<Rightarrow> substring False
         | BV_NotContains \<Rightarrow> substring True)"

section \<open>Predicates\<close>

fun byte_view_operator_of :: "df_operator \<Rightarrow> byte_view_operator option" where
  "byte_view_operator_of DF_Eq = Some BV_Eq"
| "byte_view_operator_of DF_NotEq = Some BV_NotEq"
| "byte_view_operator_of DF_Lt = Some (BV_Comparison Cmp_Lt)"
| "byte_view_operator_of DF_Gt = Some (BV_Comparison Cmp_Gt)"
| "byte_view_operator_of DF_LtEq = Some (BV_Comparison Cmp_LtEq)"
| "byte_view_operator_of DF_GtEq = Some (BV_Comparison Cmp_GtEq)"
| "byte_view_operator_of DF_LikeMatch = Some BV_Contains"
| "byte_view_operator_of DF_NotLikeMatch = Some BV_NotContains"
| "byte_view_operator_of _ = None"

definition from_like_expr :: "bool \<Rightarrow> bool \<Rightarrow> byte_view_operator option" where
  "from_like_expr negated case_insensitive =
     (if case_insensitive then None else Some (if negated then BV_NotContains else BV_Contains))"

datatype byte_view_expression =
    BVE_Op byte_view_operator bytes
  | BVE_Constant bool
  | BVE_Unsupported

text \<open>\<open>ByteViewExpression::try_from\<close>; \<open>None\<close> where taking the current dynamic filter fails.\<close>

definition byte_view_expression_of :: "phys_expr \<Rightarrow> byte_view_expression option" where
  "byte_view_expression_of expr =
     map_option (\<lambda>e. case e of
         PE_Literal (SV_Boolean v) \<Rightarrow> BVE_Constant v
       | PE_Binary _ op (PE_Literal literal) \<Rightarrow>
           (case (byte_view_operator_of op, get_bytes_needle literal) of
              (Some o', Some needle) \<Rightarrow> BVE_Op o' needle
            | _ \<Rightarrow> BVE_Unsupported)
       | PE_Like negated case_insensitive _ (PE_Literal literal) \<Rightarrow>
           (case (from_like_expr negated case_insensitive, get_bytes_needle literal) of
              (Some o', Some needle) \<Rightarrow> BVE_Op o' needle
            | _ \<Rightarrow> BVE_Unsupported)
       | _ \<Rightarrow> BVE_Unsupported) (unwrap_dynamic_filter expr)"

text \<open>The body of \<open>try_eval_predicate_in_memory\<close> and \<open>try_eval_predicate_on_disk\<close>; \<open>Some None\<close> where unsupported.\<close>

definition view_try_eval ::
  "('b byte_view_array \<Rightarrow> bytes \<Rightarrow> byte_view_operator \<Rightarrow> bool_array option) \<Rightarrow> phys_expr \<Rightarrow> 'b byte_view_array
    \<Rightarrow> bool_array option option" where
  "view_try_eval compare_with expr bv =
     (case byte_view_expression_of expr of
        None \<Rightarrow> None
      | Some (BVE_Constant v) \<Rightarrow>
          Some (Some \<lparr>ba_values = replicate (length (pa_values (bv_dictionary_keys bv))) v, ba_nulls = pa_nulls (bv_dictionary_keys bv)\<rparr>)
      | Some BVE_Unsupported \<Rightarrow> Some None
      | Some (BVE_Op op needle) \<Rightarrow>
          if op \<in> {BV_Contains, BV_NotContains} \<and> bv_string_fingerprints bv = None then Some None
          else map_option Some (compare_with bv needle op))"

definition memory_try_eval_predicate ::
  "u16 arrow_kernels \<Rightarrow> like_kernel \<Rightarrow> fallback_kernel \<Rightarrow> 'c fsst \<Rightarrow> bool \<Rightarrow> 'c memory_view \<Rightarrow> phys_expr \<Rightarrow> bool list
    \<Rightarrow> bool_array option option" where
  "memory_try_eval_predicate K like fallback Z chk bv expr selection =
     view_try_eval (memory_compare_with like fallback Z chk) expr (filter_keys K bv selection)"

definition disk_try_eval_predicate ::
  "u16 arrow_kernels \<Rightarrow> like_kernel \<Rightarrow> u16 fastlanes \<Rightarrow> 'c fsst \<Rightarrow> bool \<Rightarrow> bytes \<Rightarrow> 'c disk_view \<Rightarrow> phys_expr \<Rightarrow> bool list
    \<Rightarrow> bool_array option option" where
  "disk_try_eval_predicate K like F Z chk disk bv expr selection =
     view_try_eval (disk_compare_with like F Z chk disk) expr (filter_keys K bv selection)"

end
