(* ===== verification/ByteViewCorrect.thy ===== *)
theory ByteViewCorrect
  imports ByteView
begin

unbundle bit_operations_syntax

text \<open>
  What the byte-view arrays promise. \<open>view_core vs bv\<close> relates an array to the list \<open>vs\<close> of the
  distinct values that it was built from; \<open>view_items\<close> are the rows it stands for. The decisions
  on shared prefix, prefix keys and fingerprints are exact where they are final, and the values
  they leave open are decided on the compressed or decompressed value; so every comparison
  answers each row as the row itself would, in memory and on disk.
\<close>

section \<open>Byte strings\<close>

lemma bytes_cmp_refl [simp]: "bytes_cmp a a = Equal"
  by (induction a) auto

lemma bytes_cmp_Equal [simp]: "bytes_cmp a b = Equal \<longleftrightarrow> a = b"
  by (induction a b rule: bytes_cmp.induct) auto

lemma bytes_cmp_append [simp]: "bytes_cmp (p @ a) (p @ b) = bytes_cmp a b"
  by (induction p) auto

lemma bytes_cmp_Nil2: "bytes_cmp a [] = (if a = [] then Equal else Greater)"
  by (cases a) auto

lemma bytes_cmp_prefix [simp]: "bytes_cmp (p @ a) p = (if a = [] then Equal else Greater)"
  using bytes_cmp_append [of p a "[]"] by (simp add: bytes_cmp_Nil2)

lemma bytes_cmp_takes: "bytes_cmp (take n a) (take n b) \<noteq> Equal \<Longrightarrow> bytes_cmp a b = bytes_cmp (take n a) (take n b)"
proof (induction a b arbitrary: n rule: bytes_cmp.induct)
  case (4 a as b bs)
  then show ?case by (cases n) (auto split: if_splits)
next
  case (2 b bs)
  then show ?case by (cases n) auto
next
  case (3 a as)
  then show ?case by (cases n) auto
qed simp

lemma bytes_cmp_short_auto_right: "bytes_cmp_short_auto a b = bytes_cmp a b"
proof (induction a b rule: bytes_cmp.induct)
  case (4 a as b bs)
  then show ?case by (auto simp: bytes_cmp_short_auto_def bytes_cmp_short_def Let_def split: if_splits)
qed (auto simp: bytes_cmp_short_auto_def bytes_cmp_short_def)

lemma zeros_not_greater: "length t = n \<Longrightarrow> bytes_cmp (replicate n 0) t \<noteq> Greater"
proof (induction n arbitrary: t)
  case (Suc n)
  then obtain b t' where "t = b # t'" by (cases t) auto
  with Suc show ?case by (auto simp: word_less_nat_alt)
qed simp

text \<open>Zeros that pad a string decide nothing wrongly: they are the least bytes.\<close>

lemma padded_cmp:
  assumes "bytes_cmp (take n (s @ replicate m 0)) (take n t) = r" and "r \<noteq> Equal" and "n \<le> length t" and "n \<le> length s + m"
  shows "bytes_cmp s t = r"
  using assms
proof (induction s arbitrary: n t)
  case Nil
  then have n: "n \<noteq> 0" "t \<noteq> []" by (cases n; auto)+
  have "take n (replicate m 0) = (replicate n 0 :: bytes)" using Nil.prems(4) by (simp add: take_replicate min_def)
  then have "r \<noteq> Greater" using zeros_not_greater [of "take n t" n] Nil.prems by simp
  with Nil.prems(2) n(2) show ?case by (cases r; cases t) auto
next
  case (Cons a s)
  then obtain n' b t' where "n = Suc n'" "t = b # t'" by (cases n; cases t) auto
  with Cons show ?case by (auto split: if_splits)
qed

section \<open>Prefix keys\<close>

lemma prefix_key_new_fields:
  "pk_prefix7 (prefix_key_new s) = take 7 (s @ replicate 7 0)"
  "pk_len (prefix_key_new s) = 0 \<longleftrightarrow> s = []"
  "known_len (prefix_key_new s) = (if 255 \<le> length s then None else Some (length s))"
proof -
  show "pk_prefix7 (prefix_key_new s) = take 7 (s @ replicate 7 0)"
    by (cases "length s \<le> 7") (simp_all add: prefix_key_new_def Let_def prefix_len_def min_def)
  have u: "unat (of_nat (length s) :: u8) = length s" if "length s < 255" using that by (simp add: unat_of_nat)
  have n: "(of_nat (length s) :: u8) = 255 \<Longrightarrow> False" "(of_nat (length s) :: u8) = 0 \<longleftrightarrow> s = []" if "length s < 255"
  proof -
    assume "(of_nat (length s) :: u8) = 255"
    then have "unat (of_nat (length s) :: u8) = unat (255 :: u8)" by simp
    with u that show False by simp
  next
    have "(of_nat (length s) :: u8) = 0 \<longleftrightarrow> unat (of_nat (length s) :: u8) = 0" by (simp only: unat_eq_0)
    with u that show "(of_nat (length s) :: u8) = 0 \<longleftrightarrow> s = []" by simp
  qed
  then show "pk_len (prefix_key_new s) = 0 \<longleftrightarrow> s = []"
    by (cases "length s < 255") (auto simp: prefix_key_new_def Let_def)
  show "known_len (prefix_key_new s) = (if 255 \<le> length s then None else Some (length s))"
    using n(1) u by (cases "length s < 255") (auto simp: known_len_def prefix_key_new_def Let_def simp del: unat_of_nat)
qed

lemma prefix_key_of_append: "prefix_key_of sp (sp @ s) = prefix_key_new s"
  by (cases s) (simp_all add: prefix_key_of_def)

text \<open>Where the first bytes differ from those of the needle, they decide.\<close>

lemma prefix_key_cmp:
  assumes "bytes_cmp_short (pk_prefix7 (prefix_key_of sp (sp @ s))) t (min (length t) prefix_len) = r" and "r \<noteq> Equal"
  shows "bytes_cmp (sp @ s) (sp @ t) = r"
proof -
  have "bytes_cmp (take (min (length t) 7) (s @ replicate 7 0)) (take (min (length t) 7) t) = r"
    using assms(1) unfolding prefix_key_of_append bytes_cmp_short_def prefix_key_new_fields prefix_len_def take_take
    by (simp add: min.commute)
  from padded_cmp [OF this assms(2)] show ?thesis by simp
qed

lemma length_gate_new: "length_gate (prefix_key_new s) n \<longleftrightarrow> (if 255 \<le> length s then 255 \<le> n else length s = n)"
  by (simp add: length_gate_def prefix_key_new_fields)

lemma short_equal_new: "length t \<le> 7 \<Longrightarrow> short_equal t (prefix_key_new s) \<longleftrightarrow> s = t"
  by (auto simp: short_equal_def prefix_key_new_fields split: if_splits)

section \<open>Arrays and the rows they stand for\<close>

definition view_core :: "bytes list \<Rightarrow> 'b byte_view_array \<Rightarrow> bool" where
  "view_core vs bv \<longleftrightarrow> bv_prefix_keys bv = map (prefix_key_of (bv_shared_prefix bv)) vs
     \<and> (\<forall>v \<in> set vs. prefix (bv_shared_prefix bv) v) \<and> pa_wf (bv_dictionary_keys bv)
     \<and> (\<forall>k. Some k \<in> set (pa_items (bv_dictionary_keys bv)) \<longrightarrow> unat k < length vs)
     \<and> (\<forall>fs. bv_string_fingerprints bv = Some fs \<longrightarrow> fs = map fingerprint_from_bytes vs)"

text \<open>Also the keys of null rows point into the dictionary.\<close>

definition slots_ok :: "bytes list \<Rightarrow> 'b byte_view_array \<Rightarrow> bool" where
  "slots_ok vs bv \<longleftrightarrow> (\<forall>k \<in> set (pa_values (bv_dictionary_keys bv)). unat k < length vs)"

definition view_items :: "bytes list \<Rightarrow> 'b byte_view_array \<Rightarrow> bytes option list" where
  "view_items vs bv = map (map_option (\<lambda>k. vs ! unat k)) (pa_items (bv_dictionary_keys bv))"

lemma view_core_prefixed:
  assumes "view_core vs bv" and "v \<in> set vs"
  obtains s where "v = bv_shared_prefix bv @ s"
  using assms by (auto simp: view_core_def prefix_def)

lemma view_core_length: "view_core vs bv \<Longrightarrow> length (bv_prefix_keys bv) = length vs"
  by (simp add: view_core_def)

lemma view_core_nonempty:
  assumes "view_core vs bv" and "Some v \<in> set (view_items vs bv)"
  shows "vs \<noteq> []"
proof -
  obtain x where "x \<in> set (pa_items (bv_dictionary_keys bv))" "Some v = map_option (\<lambda>k. vs ! unat k) x"
    using assms(2) by (auto simp: view_items_def)
  then obtain k where "Some k \<in> set (pa_items (bv_dictionary_keys bv))" by (metis map_option_eq_Some)
  with assms(1) have "unat k < length vs" by (simp add: view_core_def)
  then show ?thesis by auto
qed

lemma dictionary_answers:
  assumes "view_core vs bv" and "slots_ok vs bv"
  shows "\<exists>m. map_dictionary_results bv (map P vs) = Some m \<and> ba_items m = map (map_option P) (view_items vs bv)"
proof -
  let ?k = "bv_dictionary_keys bv"
  let ?m = "\<lparr>ba_values = map (\<lambda>k. map P vs ! unat k) (pa_values ?k), ba_nulls = pa_nulls ?k\<rparr>"
  have "map_dictionary_results bv (map P vs) = Some ?m"
    using assms(2) by (simp add: map_dictionary_results_def slots_ok_def list_all_iff Let_def)
  moreover have "ba_items ?m = map (map_option P) (view_items vs bv)"
    using assms(2) by (intro nth_equalityI) (auto simp: ba_items_def view_items_def pa_items_def slots_ok_def)
  ultimately show ?thesis by blast
qed

section \<open>Partial answers\<close>

text \<open>The answers that hold for the values outside the list of ambiguous ones.\<close>

definition decides :: "bytes list \<Rightarrow> (bytes \<Rightarrow> bool) \<Rightarrow> bool list \<times> nat list \<Rightarrow> bool" where
  "decides vs P r \<longleftrightarrow> length (fst r) = length vs \<and> distinct (snd r) \<and> (\<forall>i \<in> set (snd r). i < length vs)
     \<and> (\<forall>i < length vs. i \<notin> set (snd r) \<longrightarrow> fst r ! i = P (vs ! i))"

lemma write_results_spec:
  assumes "distinct (map fst kvs)" and "\<And>i b. (i, b) \<in> set kvs \<Longrightarrow> i < length r"
  shows "\<exists>r'. write_results kvs r = Some r' \<and> length r' = length r
    \<and> (\<forall>i < length r. r' ! i = (case map_of kvs i of Some b \<Rightarrow> b | None \<Rightarrow> r ! i))"
  using assms
proof (induction kvs r rule: write_results.induct)
  case (2 i b rest r)
  have i: "i < length r" using 2(3) by auto
  have "\<exists>r'. write_results rest (r[i := b]) = Some r' \<and> length r' = length (r[i := b])
      \<and> (\<forall>j < length (r[i := b]). r' ! j = (case map_of rest j of Some b \<Rightarrow> b | None \<Rightarrow> r[i := b] ! j))"
    by (rule 2(1) [OF i]) (use 2(2,3) in auto)
  moreover have "map_of rest i = None" using 2(2) by (force simp: map_of_eq_None_iff)
  ultimately show ?case using i by (auto simp: nth_list_update split: option.splits)
qed simp

lemma write_decided:
  assumes "decides vs P (r, ambiguous)" and "distinct (map fst kvs)" and "fst ` set kvs \<subseteq> set ambiguous"
    and "\<And>i. i \<in> set ambiguous \<Longrightarrow> (case map_of kvs i of Some b \<Rightarrow> b | None \<Rightarrow> r ! i) = P (vs ! i)"
  shows "write_results kvs r = Some (map P vs)"
proof -
  have b: "i < length r" if "(i, b) \<in> set kvs" for i b using assms(1,3) that by (force simp: decides_def)
  obtain r' where r: "write_results kvs r = Some r'" "length r' = length r"
    and n: "\<And>i. i < length r \<Longrightarrow> r' ! i = (case map_of kvs i of Some b \<Rightarrow> b | None \<Rightarrow> r ! i)"
    using write_results_spec [of kvs r] assms(2) b by blast
  have "r' ! i = P (vs ! i)" if "i < length vs" for i
  proof (cases "i \<in> set ambiguous")
    case False
    then have "map_of kvs i = None" using assms(3) by (auto simp: map_of_eq_None_iff)
    with n [of i] False assms(1) that show ?thesis by (simp add: decides_def)
  qed (use n [of i] assms(1,4) that in \<open>simp add: decides_def\<close>)
  then have "r' = map P vs" using r(2) assms(1) by (intro nth_equalityI) (auto simp: decides_def)
  with r(1) show ?thesis by simp
qed

text \<open>A way to decompress the values at distinct positions.\<close>

definition reads :: "(nat list \<Rightarrow> byte_values option) \<Rightarrow> bytes list \<Rightarrow> bool" where
  "reads some_of vs \<longleftrightarrow> (\<forall>sel. distinct sel \<longrightarrow> (\<forall>i \<in> set sel. i < length vs) \<longrightarrow>
     (\<exists>v. some_of sel = Some v \<and> byte_array_values v = map ((!) vs) sel))"

lemma readsD:
  "reads some_of vs \<Longrightarrow> distinct sel \<Longrightarrow> (\<And>i. i \<in> set sel \<Longrightarrow> i < length vs) \<Longrightarrow>
    \<exists>v. some_of sel = Some v \<and> byte_array_values v = map ((!) vs) sel"
  by (simp add: reads_def)

lemma resolve_decided:
  assumes "reads some_of vs" and "decides vs P r" and "\<And>v. decide v = P v"
  shows "resolve_ambiguous some_of decide r = Some (map P vs)"
proof -
  obtain res amb where r: "r = (res, amb)" by (cases r)
  show ?thesis
  proof (cases "amb = []")
    case True
    then show ?thesis using assms(2) r by (auto simp: resolve_ambiguous_def decides_def intro!: nth_equalityI)
  next
    case False
    have d: "distinct amb" "\<And>i. i \<in> set amb \<Longrightarrow> i < length vs" using assms(2) r by (auto simp: decides_def)
    obtain v where v: "some_of amb = Some v" "byte_array_values v = map ((!) vs) amb" using readsD [OF assms(1) d] by blast
    have "map_of (zip amb (map decide (map ((!) vs) amb))) i = Some (P (vs ! i))" if "i \<in> set amb" for i
      using map_of_zip_map [of amb "\<lambda>i. P (vs ! i)"] that assms(3) by (simp add: comp_def)
    moreover have "map fst (zip amb (map decide (map ((!) vs) amb))) = amb" by simp
    then have "distinct (map fst (zip amb (map decide (map ((!) vs) amb))))"
      "fst ` set (zip amb (map decide (map ((!) vs) amb))) \<subseteq> set amb" using d(1) by (auto dest: set_zip_leftD)
    ultimately have "write_results (zip amb (map decide (map ((!) vs) amb))) res = Some (map P vs)"
      using assms(2) r write_decided [of vs P res amb] by (metis (no_types, lifting) option.simps(5))
    with v False r show ?thesis by (simp add: resolve_ambiguous_def)
  qed
qed

text \<open>Marking the hits among the ambiguous values, all of them unmarked before.\<close>

lemma mark_hits:
  assumes "decides vs P (r, ambiguous)" and "\<And>i. i \<in> set ambiguous \<Longrightarrow> \<not> r ! i"
  shows "write_results (map (\<lambda>i. (i, True)) (filter (\<lambda>i. P (vs ! i)) ambiguous)) r = Some (map P vs)"
proof (rule write_decided [OF assms(1)])
  fix i assume i: "i \<in> set ambiguous"
  have "map_of (map (\<lambda>i. (i, True)) ys) i = (if i \<in> set ys then Some True else None)" for ys by (induction ys) auto
  with i assms(2) show "(case map_of (map (\<lambda>i. (i, True)) (filter (\<lambda>i. P (vs ! i)) ambiguous)) i of Some b \<Rightarrow> b | None \<Rightarrow> r ! i) = P (vs ! i)"
    by simp
qed (use assms(1) in \<open>auto simp: decides_def comp_def\<close>)

section \<open>Decisions on prefixes are exact\<close>

definition ambiguous_at :: "(prefix_key \<Rightarrow> bool) \<Rightarrow> nat \<Rightarrow> prefix_key list \<Rightarrow> nat list" where
  "ambiguous_at amb k pks = map fst (filter (\<lambda>(i, pk). amb pk) (enumerate k pks))"

lemma ambiguous_at_simps [simp]:
  "ambiguous_at amb k [] = []"
  "ambiguous_at amb k (pk # pks) = (if amb pk then k # ambiguous_at amb (Suc k) pks else ambiguous_at amb (Suc k) pks)"
  by (simp_all add: ambiguous_at_def)

lemma set_ambiguous_at: "i \<in> set (ambiguous_at amb 0 pks) \<longleftrightarrow> i < length pks \<and> amb (pks ! i)"
  by (force simp: ambiguous_at_def in_set_enumerate_eq)

lemma decides_enumerated:
  assumes "pks = map g vs" and "\<And>v. v \<in> set vs \<Longrightarrow> \<not> amb (g v) \<Longrightarrow> f (g v) = P v"
  shows "decides vs P (map f pks, ambiguous_at amb 0 pks)"
proof -
  have "distinct (map fst (enumerate 0 pks))" by simp
  then have "distinct (ambiguous_at amb 0 pks)" unfolding ambiguous_at_def by (rule distinct_map_filter)
  then show ?thesis using assms by (simp add: decides_def set_ambiguous_at)
qed

lemma comparison_holds_sides:
  "comparison_holds op Less \<longleftrightarrow> op = Cmp_Lt \<or> op = Cmp_LtEq" "comparison_holds op Greater \<longleftrightarrow> op = Cmp_Gt \<or> op = Cmp_GtEq"
  by (cases op; simp)+

lemma prefix_loop_conv:
  "prefix_loop t n op k pks =
    (map (\<lambda>pk. case bytes_cmp_short (pk_prefix7 pk) t n of Equal \<Rightarrow> False | r \<Rightarrow> comparison_holds op r) pks,
     ambiguous_at (\<lambda>pk. bytes_cmp_short (pk_prefix7 pk) t n = Equal) k pks)"
proof (induction pks arbitrary: k)
  case (Cons pk pks)
  show ?case by (cases "bytes_cmp_short (pk_prefix7 pk) t n") (simp_all add: Cons comparison_holds_sides)
qed simp

lemma shared_prefix_None:
  assumes "compare_with_shared_prefix bv needle op = None"
  obtains t where "needle = bv_shared_prefix bv @ t"
proof
  let ?n = "min (length needle) (length (bv_shared_prefix bv))"
  have "\<not> length needle < length (bv_shared_prefix bv)" "bytes_cmp (take ?n (bv_shared_prefix bv)) (take ?n needle) = Equal"
    using assms unfolding compare_with_shared_prefix_def Let_def
    by (cases "bytes_cmp (take ?n (bv_shared_prefix bv)) (take ?n needle)"; simp split: if_splits)+
  then have "take (length (bv_shared_prefix bv)) needle = bv_shared_prefix bv" by (simp add: not_less min_absorb2)
  with append_take_drop_id [of "length (bv_shared_prefix bv)" needle]
  show "needle = bv_shared_prefix bv @ drop (length (bv_shared_prefix bv)) needle" by simp
qed

lemma shared_prefix_Some:
  assumes "compare_with_shared_prefix bv needle op = Some b"
  shows "comparison_holds op (bytes_cmp (bv_shared_prefix bv @ s) needle) = b"
proof -
  let ?sp = "bv_shared_prefix bv" and ?n = "min (length needle) (length (bv_shared_prefix bv))"
  have tk: "take ?n (?sp @ s) = take ?n ?sp" by simp
  show ?thesis
  proof (cases "bytes_cmp (take ?n ?sp) (take ?n needle) = Equal")
    case True
    with assms have l: "length needle < length ?sp" "b = (op = Cmp_Gt \<or> op = Cmp_GtEq)"
      by (auto simp: compare_with_shared_prefix_def Let_def split: if_splits)
    with True have "?sp = needle @ drop (length needle) ?sp" by (metis append_take_drop_id bytes_cmp_Equal min.absorb1 nless_le order_refl take_all)
    then have "?sp @ s = needle @ (drop (length needle) ?sp @ s)" by (metis append.assoc)
    moreover have "drop (length needle) ?sp @ s \<noteq> []" using l(1) by simp
    ultimately have "bytes_cmp (?sp @ s) needle = Greater" by (metis bytes_cmp_prefix)
    with l(2) show ?thesis by (cases op) auto
  next
    case False
    then have "bytes_cmp (?sp @ s) needle = bytes_cmp (take ?n ?sp) (take ?n needle)"
      using bytes_cmp_takes [of ?n "?sp @ s" needle] tk by simp
    with False assms show ?thesis
      by (cases op) (auto simp: compare_with_shared_prefix_def Let_def split: ordering.splits)
  qed
qed

lemma prefix_decides:
  assumes "view_core vs bv" and "compare_with_shared_prefix bv needle op = None"
  shows "decides vs (\<lambda>v. comparison_holds op (bytes_cmp v needle)) (compare_with_prefix bv needle op)"
proof -
  let ?sp = "bv_shared_prefix bv" and ?P = "\<lambda>v. comparison_holds op (bytes_cmp v needle)"
  obtain t where t: "needle = ?sp @ t" by (rule shared_prefix_None [OF assms(2)])
  have pk: "bv_prefix_keys bv = map (prefix_key_of ?sp) vs" using assms(1) by (simp add: view_core_def)
  let ?n = "min (length t) prefix_len"
  show ?thesis
  proof (cases "?n = 0")
    case True
    then have nt: "t = []" by (simp add: prefix_len_def min_def split: if_splits)
    have "empty_suffix_answer op (prefix_key_of ?sp v) = ?P v" if "v \<in> set vs" for v
    proof -
      obtain s where "v = ?sp @ s" using view_core_prefixed [OF assms(1) \<open>v \<in> set vs\<close>] .
      then show ?thesis by (cases op) (auto simp: t nt prefix_key_of_append prefix_key_new_fields)
    qed
    then have "compare_with_prefix bv needle op = (map ?P vs, [])"
      using assms(2) True t by (simp add: compare_with_prefix_def Let_def pk)
    then show ?thesis by (simp add: decides_def)
  next
    case False
    let ?c = "\<lambda>pk. bytes_cmp_short (pk_prefix7 pk) t ?n"
    have "compare_with_prefix bv needle op
        = (map (\<lambda>pk. case ?c pk of Equal \<Rightarrow> False | r \<Rightarrow> comparison_holds op r) (bv_prefix_keys bv),
           ambiguous_at (\<lambda>pk. ?c pk = Equal) 0 (bv_prefix_keys bv))"
    proof -
      have "?n = length t \<and> t \<noteq> [] \<or> ?n = 7" using False by (auto simp: prefix_len_def min_def)
      then show ?thesis using assms(2) t by (auto simp: compare_with_prefix_def Let_def prefix_loop_conv)
    qed
    moreover have "(case ?c (prefix_key_of ?sp v) of Equal \<Rightarrow> False | r \<Rightarrow> comparison_holds op r) = ?P v"
      if "v \<in> set vs" "?c (prefix_key_of ?sp v) \<noteq> Equal" for v
    proof -
      obtain s where s: "v = ?sp @ s" using view_core_prefixed [OF assms(1) \<open>v \<in> set vs\<close>] .
      have "?P v = comparison_holds op (?c (prefix_key_of ?sp v))"
        using prefix_key_cmp [OF refl, of ?sp s t] that(2) unfolding s t by (simp del: bytes_cmp_append)
      with that(2) show ?thesis by (cases "?c (prefix_key_of ?sp v)") auto
    qed
    ultimately show ?thesis using decides_enumerated [OF pk] by simp
  qed
qed

lemma needle_misses: "needle_misses_prefix bv needle \<longleftrightarrow> \<not> prefix (bv_shared_prefix bv) needle"
proof -
  have "prefix p n \<longleftrightarrow> length p \<le> length n \<and> take (length p) n = p" for p n :: bytes
    by (metis append_eq_conv_conj prefix_def prefix_length_le take_is_prefix)
  then show ?thesis by (auto simp: needle_misses_prefix_def)
qed

definition equals_answer :: "bytes \<Rightarrow> prefix_key \<Rightarrow> bool" where
  "equals_answer t pk \<longleftrightarrow> length_gate pk (length t)
     \<and> (case known_len pk of Some l \<Rightarrow> l \<le> prefix_len \<and> take l (pk_prefix7 pk) = take l t | None \<Rightarrow> False)"

definition equals_open :: "bytes \<Rightarrow> prefix_key \<Rightarrow> bool" where
  "equals_open t pk \<longleftrightarrow> length_gate pk (length t) \<and> take prefix_len (pk_prefix7 pk) = take prefix_len t
     \<and> (case known_len pk of Some l \<Rightarrow> prefix_len < l | None \<Rightarrow> True)"

lemma equals_prefix_loop_conv:
  "equals_prefix_loop t k pks = (map (equals_answer t) pks, ambiguous_at (equals_open t) k pks)"
proof (induction pks arbitrary: k)
  case (Cons pk pks)
  show ?case by (cases "known_len pk") (auto simp: Cons equals_answer_def equals_open_def)
qed simp

lemma equals_answer_new:
  "\<not> equals_open t (prefix_key_new s) \<Longrightarrow> equals_answer t (prefix_key_new s) \<longleftrightarrow> s = t"
  "equals_open t pk \<Longrightarrow> \<not> equals_answer t pk"
  by (auto simp: equals_answer_def equals_open_def length_gate_new prefix_key_new_fields prefix_len_def split: if_splits option.splits)

lemma equals_decides:
  assumes "view_core vs bv"
  shows "decides vs (\<lambda>v. v = needle) (compare_equals_with_prefix bv needle)"
    and "i \<in> set (snd (compare_equals_with_prefix bv needle)) \<Longrightarrow> \<not> fst (compare_equals_with_prefix bv needle) ! i"
proof -
  let ?sp = "bv_shared_prefix bv"
  have pk: "bv_prefix_keys bv = map (prefix_key_of ?sp) vs" using assms(1) by (simp add: view_core_def)
  have "decides vs (\<lambda>v. v = needle) (compare_equals_with_prefix bv needle)
    \<and> (i \<in> set (snd (compare_equals_with_prefix bv needle)) \<longrightarrow> \<not> fst (compare_equals_with_prefix bv needle) ! i)"
  proof (cases "needle_misses_prefix bv needle")
    case True
    then have "v \<noteq> needle" if "v \<in> set vs" for v using assms that by (auto simp: view_core_def needle_misses)
    with True show ?thesis using view_core_length [OF assms] by (auto simp: compare_equals_with_prefix_def decides_def)
  next
    case False
    then obtain t where t: "needle = ?sp @ t" by (auto simp: needle_misses prefix_def)
    have e: "compare_equals_with_prefix bv needle = (map (equals_answer t) (bv_prefix_keys bv), ambiguous_at (equals_open t) 0 (bv_prefix_keys bv))"
      using False by (simp add: compare_equals_with_prefix_def equals_prefix_loop_conv t)
    have "equals_answer t (prefix_key_of ?sp v) \<longleftrightarrow> v = needle" if "v \<in> set vs" "\<not> equals_open t (prefix_key_of ?sp v)" for v
    proof -
      obtain s where "v = ?sp @ s" using view_core_prefixed [OF assms \<open>v \<in> set vs\<close>] .
      with that(2) show ?thesis by (simp add: prefix_key_of_append equals_answer_new t)
    qed
    then have "decides vs (\<lambda>v. v = needle) (map (equals_answer t) (bv_prefix_keys bv), ambiguous_at (equals_open t) 0 (bv_prefix_keys bv))"
      by (rule decides_enumerated [OF pk])
    moreover have "\<not> map (equals_answer t) (bv_prefix_keys bv) ! i" if "i \<in> set (ambiguous_at (equals_open t) 0 (bv_prefix_keys bv))"
      using that equals_answer_new(2) by (auto simp: set_ambiguous_at)
    ultimately show ?thesis unfolding e by simp
  qed
  then show "decides vs (\<lambda>v. v = needle) (compare_equals_with_prefix bv needle)"
    and "i \<in> set (snd (compare_equals_with_prefix bv needle)) \<Longrightarrow> \<not> fst (compare_equals_with_prefix bv needle) ! i" by simp_all
qed

section \<open>Compressed values\<close>

text \<open>The FSST buffer holds the values \<open>vs\<close>.\<close>

definition holds_values :: "'c fsst \<Rightarrow> bool \<Rightarrow> 'c fsst_array \<Rightarrow> bytes list \<Rightarrow> bool" where
  "holds_values Z chk fa vs \<longleftrightarrow> fsst_ok Z \<and> fsst_slices chk fa (map (fc_compress Z (fa_compressor fa)) vs) \<and> values_fit vs"

lemma compress_inj: "fsst_ok Z \<Longrightarrow> fc_compress Z c x = fc_compress Z c y \<longleftrightarrow> x = y"
  unfolding fsst_ok_def by metis

lemma sum_selected:
  assumes "distinct sel" and "\<And>i. i \<in> set sel \<Longrightarrow> i < length vs"
  shows "length (concat (map ((!) vs) sel)) \<le> length (concat vs)"
proof -
  have "length (concat (map ((!) vs) sel)) = (\<Sum>i\<in>set sel. length (vs ! i))"
    using assms(1) by (simp add: length_concat comp_def sum_list_distinct_conv_sum_set)
  also have "\<dots> \<le> (\<Sum>i<length vs. length (vs ! i))" using assms(2) by (intro sum_mono2) auto
  also have "\<dots> = length (concat vs)" by (simp add: length_concat sum_list_sum_nth atLeast0LessThan)
  finally show ?thesis .
qed

lemma memory_reads:
  assumes "holds_values Z chk fa vs"
  shows "reads (to_uncompressed_selected Z chk fa) vs"
    and "\<exists>v. fsst_to_uncompressed Z chk fa = Some v \<and> byte_array_values v = vs"
    and "i < length vs \<Longrightarrow> fsst_compressed_slice chk fa i = Some (fc_compress Z (fa_compressor fa) (vs ! i))"
proof -
  let ?zs = "map (fc_compress Z (fa_compressor fa)) vs"
  have h: "fsst_ok Z" "fsst_slices chk fa ?zs" "values_fit vs" using assms by (simp_all add: holds_values_def)
  then have d: "fc_decompress Z (fa_compressor fa) (fc_compress Z (fa_compressor fa) v) = v" for v by (simp add: fsst_ok_def)
  show "reads (to_uncompressed_selected Z chk fa) vs"
    unfolding reads_def
  proof (intro allI impI)
    fix sel assume sel: "distinct sel" "\<forall>i \<in> set sel. i < length vs"
    then have e: "map (\<lambda>i. fc_decompress Z (fa_compressor fa) (?zs ! i)) sel = map ((!) vs) sel" by (simp add: d)
    have "values_fit (map ((!) vs) sel)" using sum_selected [OF sel(1)] sel(2) h(3) by (meson le_less_trans)
    with fsst_selected_read [OF h(2), of sel Z] sel(2)
    show "\<exists>v. to_uncompressed_selected Z chk fa sel = Some v \<and> byte_array_values v = map ((!) vs) sel" unfolding e by simp
  qed
  have "map (fc_decompress Z (fa_compressor fa)) ?zs = vs" by (simp add: d comp_def)
  with fsst_uncompressed_read [OF h(1,2)] h(3)
  show "\<exists>v. fsst_to_uncompressed Z chk fa = Some v \<and> byte_array_values v = vs" by simp
  show "fsst_compressed_slice chk fa i = Some (fc_compress Z (fa_compressor fa) (vs ! i))" if "i < length vs"
    using fsst_slice_read [OF h(2), of i] that by simp
qed

section \<open>Equality\<close>

lemma equals_loop_conv:
  assumes "\<And>j. j < length pks \<Longrightarrow> fsst_compressed_slice chk fa (i + j) = Some (zs ! j)" and "length zs = length pks"
  shows "equals_loop chk fa cn t i pks = Some (map2 (\<lambda>pk z. length_gate pk (length t)
    \<and> take prefix_len (pk_prefix7 pk) = take prefix_len t \<and> z = cn) pks zs)"
  using assms
proof (induction pks arbitrary: i zs)
  case (Cons pk pks)
  obtain z zs' where z: "zs = z # zs'" using Cons.prems(2) by (cases zs) auto
  have "equals_loop chk fa cn t (Suc i) pks = Some (map2 (\<lambda>pk z. length_gate pk (length t)
      \<and> take prefix_len (pk_prefix7 pk) = take prefix_len t \<and> z = cn) pks zs')"
    by (rule Cons.IH) (use Cons.prems(1) [of "Suc _"] Cons.prems(2) z in auto)
  with Cons.prems(1) [of 0] z show ?case by auto
qed simp

lemma equal_prefix_key:
  "prefix_len < length t \<Longrightarrow> length_gate (prefix_key_new t) (length t)
    \<and> take prefix_len (pk_prefix7 (prefix_key_new t)) = take prefix_len t"
  by (simp add: length_gate_new prefix_key_new_fields prefix_len_def)

lemma memory_equals_right:
  assumes "view_core vs bv" and "slots_ok vs bv" and "holds_values Z chk (bv_fsst_buffer bv) vs"
  shows "\<exists>m. memory_compare_equals Z chk bv needle = Some m \<and> ba_items m = map (map_option (\<lambda>v. v = needle)) (view_items vs bv)"
proof -
  let ?sp = "bv_shared_prefix bv" and ?fa = "bv_fsst_buffer bv" and ?P = "\<lambda>v. v = needle"
  have pk: "bv_prefix_keys bv = map (prefix_key_of ?sp) vs" using assms(1) by (simp add: view_core_def)
  have "memory_compare_equals Z chk bv needle = map_dictionary_results bv (map ?P vs)"
  proof (cases "needle_misses_prefix bv needle")
    case True
    then have "v \<noteq> needle" if "v \<in> set vs" for v using assms that by (auto simp: view_core_def needle_misses)
    then have "map ?P vs = replicate (length (bv_prefix_keys bv)) False"
      using view_core_length [OF assms(1)] by (intro nth_equalityI) auto
    with True show ?thesis by (simp add: memory_compare_equals_def)
  next
    case False
    then obtain t where t: "needle = ?sp @ t" by (auto simp: needle_misses prefix_def)
    show ?thesis
    proof (cases "length t \<le> prefix_len")
      case True
      have "short_equal t (prefix_key_of ?sp v) \<longleftrightarrow> v = needle" if "v \<in> set vs" for v
      proof -
        obtain s where "v = ?sp @ s" using view_core_prefixed [OF assms(1) \<open>v \<in> set vs\<close>] .
        with True show ?thesis by (simp add: prefix_key_of_append short_equal_new t prefix_len_def)
      qed
      with True False show ?thesis by (simp add: memory_compare_equals_def t pk comp_def cong: map_cong)
    next
      case large: False
      let ?zs = "map (fc_compress Z (fa_compressor ?fa)) vs" and ?cn = "fc_compress Z (fa_compressor ?fa) needle"
      have "equals_loop chk ?fa ?cn t 0 (bv_prefix_keys bv) = Some (map2 (\<lambda>pk z. length_gate pk (length t)
          \<and> take prefix_len (pk_prefix7 pk) = take prefix_len t \<and> z = ?cn) (bv_prefix_keys bv) ?zs)"
        by (rule equals_loop_conv) (use memory_reads(3) [OF assms(3)] view_core_length [OF assms(1)] in auto)
      also have "map2 (\<lambda>pk z. length_gate pk (length t) \<and> take prefix_len (pk_prefix7 pk) = take prefix_len t \<and> z = ?cn)
          (bv_prefix_keys bv) ?zs = map ?P vs"
      proof (rule nth_equalityI)
        fix i assume "i < length (map2 (\<lambda>pk z. length_gate pk (length t) \<and> take prefix_len (pk_prefix7 pk) = take prefix_len t
          \<and> z = ?cn) (bv_prefix_keys bv) ?zs)"
        then have i: "i < length vs" by simp
        have "?zs ! i = ?cn \<longleftrightarrow> vs ! i = needle" using i assms(3) compress_inj [of Z] by (simp add: holds_values_def)
        then show "map2 (\<lambda>pk z. length_gate pk (length t) \<and> take prefix_len (pk_prefix7 pk) = take prefix_len t \<and> z = ?cn)
            (bv_prefix_keys bv) ?zs ! i = map ?P vs ! i"
          using i large equal_prefix_key [of t] by (auto simp: pk prefix_key_of_append t)
      qed (simp add: pk)
      finally show ?thesis using False large by (simp add: memory_compare_equals_def t)
    qed
  qed
  with dictionary_answers [OF assms(1,2)] show ?thesis by simp
qed

text \<open>The same on disk, where only the values that the prefix keys leave open are looked at.\<close>

lemma compressed_matches_conv:
  assumes "\<And>i. i \<in> set amb \<Longrightarrow> fsst_compressed_slice chk fa i = Some (z i) \<and> i < length r"
  shows "compressed_matches chk fa cn amb r = write_results (map (\<lambda>i. (i, True)) (filter (\<lambda>i. z i = cn) amb)) r"
  using assms by (induction amb arbitrary: r) auto

lemma disk_equals_right:
  assumes "view_core vs bv" and "slots_ok vs bv"
    and "view_from_bytes F disk (db_compressor (bv_fsst_buffer bv)) = Some bv'" and "holds_values Z chk (bv_fsst_buffer bv') vs"
  shows "\<exists>m. disk_compare_equals F Z chk disk bv needle = Some m
    \<and> ba_items m = map (map_option (\<lambda>v. v = needle)) (view_items vs bv)"
proof -
  let ?fa = "bv_fsst_buffer bv'" and ?P = "\<lambda>v. v = needle"
  let ?cn = "fc_compress Z (fa_compressor ?fa) needle"
  obtain r amb where e: "compare_equals_with_prefix bv needle = (r, amb)" by (cases "compare_equals_with_prefix bv needle")
  note d = equals_decides [OF assms(1), where needle = needle, unfolded e fst_conv snd_conv]
  have "disk_compare_equals F Z chk disk bv needle = map_dictionary_results bv (map ?P vs)"
  proof (cases "amb = []")
    case True
    then have "r = map ?P vs" using d(1) by (intro nth_equalityI) (auto simp: decides_def)
    with True e show ?thesis by (simp add: disk_compare_equals_def)
  next
    case False
    have "compressed_matches chk ?fa ?cn amb r
        = write_results (map (\<lambda>i. (i, True)) (filter (\<lambda>i. fc_compress Z (fa_compressor ?fa) (vs ! i) = ?cn) amb)) r"
      by (rule compressed_matches_conv) (use d(1) memory_reads(3) [OF assms(4)] in \<open>auto simp: decides_def\<close>)
    also have "(\<lambda>i. fc_compress Z (fa_compressor ?fa) (vs ! i) = ?cn) = (\<lambda>i. vs ! i = needle)"
      using assms(4) compress_inj [of Z] by (simp add: holds_values_def)
    finally show ?thesis using False e assms(3) mark_hits [OF d] by (simp add: disk_compare_equals_def Let_def)
  qed
  with dictionary_answers [OF assms(1,2)] show ?thesis by simp
qed

lemma negate_mask_items: "ba_items m = map (map_option P) xs \<Longrightarrow> ba_items (negate_mask m) = map (map_option (\<lambda>v. \<not> P v)) xs"
proof -
  assume m: "ba_items m = map (map_option P) xs"
  have "ba_items (negate_mask m) = map (map_option Not) (ba_items m)" using pa_items_map [of Not "\<lparr>pa_values = ba_values m, pa_nulls = ba_nulls m\<rparr>"] by (simp add: ba_items_def negate_mask_def)
  also have "\<dots> = map (map_option (\<lambda>v. \<not> P v)) xs" by (simp add: m option.map_comp comp_def)
  finally show ?thesis .
qed

section \<open>Order\<close>

text \<open>
  When the shared prefix alone answers, the code returns as many answers as there are rows, one
  for each value being needed: this is enough where the dictionary has no more values than the
  array has rows.
\<close>

definition enough_rows :: "bytes list \<Rightarrow> 'b byte_view_array \<Rightarrow> bool" where
  "enough_rows vs bv \<longleftrightarrow> length vs \<le> length (pa_values (bv_dictionary_keys bv))"

lemma order_right:
  assumes "view_core vs bv" and "slots_ok vs bv" and "reads some_of vs" and "\<And>v. decide v = comparison_holds op (bytes_cmp v needle)"
    and "enough_rows vs bv \<or> compare_with_shared_prefix bv needle op = None"
  shows "\<exists>m. Option.bind (resolve_ambiguous some_of decide (compare_with_prefix bv needle op)) (map_dictionary_results bv) = Some m
    \<and> ba_items m = map (map_option (\<lambda>v. comparison_holds op (bytes_cmp v needle))) (view_items vs bv)"
proof (cases "compare_with_shared_prefix bv needle op")
  case None
  then have "resolve_ambiguous some_of decide (compare_with_prefix bv needle op)
      = Some (map (\<lambda>v. comparison_holds op (bytes_cmp v needle)) vs)"
    using resolve_decided [OF assms(3) prefix_decides [OF assms(1) None]] assms(4) by simp
  with dictionary_answers [OF assms(1,2)] show ?thesis by simp
next
  case (Some b)
  let ?k = "bv_dictionary_keys bv" and ?P = "\<lambda>v. comparison_holds op (bytes_cmp v needle)"
  have l: "length vs \<le> length (pa_values ?k)" using assms(5) Some by (simp add: enough_rows_def)
  have "?P v = b" if "v \<in> set vs" for v
  proof -
    obtain s where "v = bv_shared_prefix bv @ s" using view_core_prefixed [OF assms(1) \<open>v \<in> set vs\<close>] .
    with shared_prefix_Some [OF Some] show ?thesis by simp
  qed
  then have vs: "map ?P vs = replicate (length vs) b" by (simp add: map_eq_conv flip: map_replicate_const)
  have "map_dictionary_results bv (replicate (length (pa_values ?k)) b) = map_dictionary_results bv (map ?P vs)"
    using assms(2) l unfolding vs slots_ok_def map_dictionary_results_def Let_def
    by (auto simp: list_all_iff intro: less_le_trans)
  with dictionary_answers [OF assms(1,2), of ?P] Some show ?thesis
    by (simp add: compare_with_prefix_def resolve_ambiguous_def)
qed

section \<open>Substrings\<close>

lemma fingerprint_bit: "n < 32 \<Longrightarrow> bit (fingerprint_from_bytes bs) n \<longleftrightarrow> (\<exists>b \<in> set bs. unat (b AND 31) = n)"
proof -
  have "bit (foldl (\<lambda>bits b. bits OR push_bit (unat (b AND 31)) 1) (acc :: u32) bs) n
      \<longleftrightarrow> bit acc n \<or> (\<exists>b \<in> set bs. unat (b AND 31) = n)" if "n < 32" for acc
    using that by (induction bs arbitrary: acc) (auto simp: bit_simps)
  then show "n < 32 \<Longrightarrow> ?thesis" by (simp add: fingerprint_from_bytes_def)
qed

lemma fingerprint_sound: "sublist x v \<Longrightarrow> might_contain (fingerprint_from_bytes v) (fingerprint_from_bytes x)"
proof -
  assume "sublist x v"
  then have "set x \<subseteq> set v" by (rule set_mono_sublist)
  then show ?thesis unfolding might_contain_def
    by (intro bit_word_eqI) (auto simp: bit_simps fingerprint_bit)
qed

lemma candidates_decide:
  assumes "fingerprints = map fingerprint_from_bytes vs"
  shows "decides vs (sublist x) (compute_fingerprint_candidates x fingerprints)"
    and "i \<in> set (snd (compute_fingerprint_candidates x fingerprints)) \<Longrightarrow> \<not> fst (compute_fingerprint_candidates x fingerprints) ! i"
    and "snd (compute_fingerprint_candidates x fingerprints) = [] \<longleftrightarrow>
      (\<forall>v \<in> set vs. \<not> might_contain (fingerprint_from_bytes v) (fingerprint_from_bytes x))"
  using fingerprint_sound [of x] unfolding compute_fingerprint_candidates_def assms
  by (auto simp: decides_def Let_def filter_empty_conv all_set_conv_all_nth)

lemma substring_right:
  assumes "view_core vs bv" and "slots_ok vs bv" and "reads some_of vs" and "like_ok like"
    and "list_all (\<lambda>b. b \<notin> {37, 95, 92}) x" and "utf8_valid x" and "bv_string_fingerprints bv = Some fs"
    and "\<not> negated \<or> (\<exists>v \<in> set vs. might_contain (fingerprint_from_bytes v) (fingerprint_from_bytes x))"
  shows "\<exists>m. compare_like_substring like some_of bv x negated fs = Some m
    \<and> ba_items m = map (map_option (\<lambda>v. sublist x v \<noteq> negated)) (view_items vs bv)"
proof -
  let ?P = "\<lambda>v. sublist x v \<noteq> negated"
  have fs: "fs = map fingerprint_from_bytes vs" using assms(1,7) by (simp add: view_core_def)
  obtain r amb where e: "compute_fingerprint_candidates x fs = (r, amb)" by (cases "compute_fingerprint_candidates x fs")
  note c = candidates_decide [OF fs, where x = x, unfolded e fst_conv snd_conv]
  have "compare_like_substring like some_of bv x negated fs = map_dictionary_results bv (map ?P vs)"
  proof (cases "amb = []")
    case True
    then have "\<not> negated" using assms(8) c(3) by blast
    moreover have "r = map (sublist x) vs" using True c(1) by (intro nth_equalityI) (auto simp: decides_def)
    ultimately show ?thesis using True e by (simp add: compare_like_substring_def)
  next
    case False
    have d: "distinct amb" "\<And>i. i \<in> set amb \<Longrightarrow> i < length vs" using c(1) by (auto simp: decides_def)
    obtain v where v: "some_of amb = Some v" "byte_array_values v = map ((!) vs) amb" using readsD [OF assms(3) d] by blast
    have l: "like (byte_array_values v) ([37] @ x @ [37]) = map (\<lambda>i. Some (sublist x (vs ! i))) amb"
      using assms(4,5) by (simp add: like_ok_def v(2) comp_def)
    have "map (\<lambda>(i, _). (i, True)) (filter (\<lambda>(i, m). m = Some True) (zip amb (map (\<lambda>i. Some (sublist x (vs ! i))) amb)))
        = map (\<lambda>i. (i, True)) (filter (\<lambda>i. sublist x (vs ! i)) amb)"
      by (induction amb) auto
    then have "apply_like_match_on_candidates like r amb v x negated = Some (map ?P vs)"
      using assms(6) mark_hits [OF c(1,2)] by (simp add: apply_like_match_on_candidates_def Let_def l [simplified] comp_def)
    with False e v(1) show ?thesis by (simp add: compare_like_substring_def)
  qed
  with dictionary_answers [OF assms(1,2)] show ?thesis by simp
qed

section \<open>Reading\<close>

definition hits_from :: "nat \<Rightarrow> bool list \<Rightarrow> nat list" where
  "hits_from i hit_mask = map fst (filter (\<lambda>(j, h). h) (enumerate i hit_mask))"

lemma hits_from_simps [simp]:
  "hits_from i [] = []" "hits_from i (h # hs) = (if h then i # hits_from (Suc i) hs else hits_from (Suc i) hs)"
  by (simp_all add: hits_from_def)

lemma hits_from_ge: "j \<in> set (hits_from i hs) \<Longrightarrow> i \<le> j"
  by (auto simp: hits_from_def in_set_enumerate_eq)

lemma set_hits_from: "set (hits_from 0 (map P [0..<n])) = {j. j < n \<and> P j}"
proof -
  have "j \<in> set (hits_from 0 hs) \<longleftrightarrow> j < length hs \<and> hs ! j" for j hs
    by (force simp: hits_from_def in_set_enumerate_eq)
  then show ?thesis by auto
qed

lemma distinct_hits_from: "distinct (hits_from i hs)"
proof -
  have "distinct (map fst (enumerate i hs))" by simp
  then show ?thesis unfolding hits_from_def by (rule distinct_map_filter)
qed

text \<open>Every selected value gets its position among the selected ones as its new key.\<close>

lemma number_selected_conv:
  assumes "length sel + length (hits_from i hs) \<le> 65536" and "chk \<Longrightarrow> length sel + length (hits_from i hs) < 65536"
    and "off = of_nat (length sel)"
  shows "\<exists>km'. number_selected chk hs i off (km, sel) = Some (km', sel @ hits_from i hs)
    \<and> (\<forall>n < length (hits_from i hs). km' (hits_from i hs ! n) = Some (of_nat (length sel + n)))
    \<and> (\<forall>j < i. km' j = km j)"
  using assms
proof (induction hs arbitrary: i off km sel)
  case (Cons h hs)
  show ?case
  proof (cases h)
    case False
    then obtain km' where "number_selected chk hs (Suc i) off (km, sel) = Some (km', sel @ hits_from (Suc i) hs)"
      "\<forall>n < length (hits_from (Suc i) hs). km' (hits_from (Suc i) hs ! n) = Some (of_nat (length sel + n))" "\<forall>j < Suc i. km' j = km j"
      using Cons.IH [of sel "Suc i" off km] Cons.prems by auto
    with False show ?thesis by auto
  next
    case True
    have "\<exists>km'. number_selected chk hs (Suc i) (off + 1) (km(i \<mapsto> off), sel @ [i]) = Some (km', (sel @ [i]) @ hits_from (Suc i) hs)
      \<and> (\<forall>n < length (hits_from (Suc i) hs). km' (hits_from (Suc i) hs ! n) = Some (of_nat (length (sel @ [i]) + n)))
      \<and> (\<forall>j < Suc i. km' j = (km(i \<mapsto> off)) j)"
      by (rule Cons.IH) (use Cons.prems True in auto)
    then obtain km' where km: "number_selected chk hs (Suc i) (off + 1) (km(i \<mapsto> off), sel @ [i]) = Some (km', sel @ i # hits_from (Suc i) hs)"
      "\<And>n. n < length (hits_from (Suc i) hs) \<Longrightarrow> km' (hits_from (Suc i) hs ! n) = Some (of_nat (Suc (length sel) + n))"
      "\<And>j. j < Suc i \<Longrightarrow> km' j = (km(i \<mapsto> off)) j" by auto
    have "\<not> (chk \<and> off = 65535)"
    proof
      assume "chk \<and> off = 65535"
      then have "length sel < 65535" "unat off = 65535" using Cons.prems(2) True by auto
      with Cons.prems(3) show False by (simp add: unat_of_nat)
    qed
    moreover have "km' (hits_from i (h # hs) ! n) = Some (of_nat (length sel + n))" if "n < length (hits_from i (h # hs))" for n
      using that km(2) [of "n - 1"] km(3) [of i] Cons.prems(3) True by (cases n) auto
    ultimately show ?thesis using True km(1,3) by auto
  qed
qed simp

lemma dict_selection:
  assumes "\<And>k. Some k \<in> set (pa_items keys) \<Longrightarrow> unat k < n" and "n \<le> 65536"
    and "chk \<Longrightarrow> n < 65536"
  shows "\<exists>sel km. build_dict_selection chk keys n = Some (sel, map (\<lambda>x. Option.bind x (\<lambda>v. km (unat v))) (pa_items keys))
    \<and> distinct sel \<and> (\<forall>i \<in> set sel. i < n)
    \<and> (\<forall>k. Some k \<in> set (pa_items keys) \<longrightarrow> (\<exists>w. km (unat k) = Some w \<and> unat w < length sel \<and> sel ! unat w = unat k))"
proof -
  let ?hits = "map unat (List.map_filter id (pa_items keys))"
  let ?mask = "map (\<lambda>i. i \<in> set ?hits) [0..<n]"
  have hits: "j \<in> set ?hits \<longleftrightarrow> (\<exists>k. Some k \<in> set (pa_items keys) \<and> j = unat k)" for j
    by (force simp: map_filter_def)
  have "j < n" if "j \<in> set ?hits" for j using that assms(1) unfolding hits by blast
  then have s: "set (hits_from 0 ?mask) = set ?hits" unfolding set_hits_from by blast
  have "card (set (hits_from 0 ?mask)) \<le> card {..<n}" by (rule card_mono) (auto simp: set_hits_from)
  then have len: "length (hits_from 0 ?mask) \<le> n" by (simp add: distinct_card distinct_hits_from)
  obtain km where km: "number_selected chk ?mask 0 0 (Map.empty, []) = Some (km, hits_from 0 ?mask)"
    "\<And>m. m < length (hits_from 0 ?mask) \<Longrightarrow> km (hits_from 0 ?mask ! m) = Some (of_nat m)"
  proof -
    have "length ([] :: nat list) + length (hits_from 0 ?mask) \<le> 65536" using len assms(2) by simp
    moreover have "length ([] :: nat list) + length (hits_from 0 ?mask) < 65536" if chk using len assms(3) that by simp
    ultimately show thesis using number_selected_conv [of "[]" 0 ?mask chk 0 Map.empty] that by auto
  qed
  have "j < n" if "j \<in> set ?hits" for j using that assms(1) unfolding hits by blast
  then have "\<not> list_ex (\<lambda>k. k \<ge> n) ?hits" unfolding list_ex_iff by (meson not_le)
  then have "build_dict_selection chk keys n = Some (hits_from 0 ?mask, map (\<lambda>x. Option.bind x (\<lambda>v. km (unat v))) (pa_items keys))"
    unfolding build_dict_selection_def Let_def km(1) by simp
  moreover have "\<exists>w. km (unat k) = Some w \<and> unat w < length (hits_from 0 ?mask) \<and> hits_from 0 ?mask ! unat w = unat k"
    if "Some k \<in> set (pa_items keys)" for k
  proof -
    have "unat k \<in> set (hits_from 0 ?mask)" using that hits [of "unat k"] s by blast
    then obtain m where m: "m < length (hits_from 0 ?mask)" "hits_from 0 ?mask ! m = unat k" by (metis in_set_conv_nth)
    moreover have "unat (of_nat m :: u16) = m" using m(1) len assms(2) by (simp add: unat_of_nat)
    ultimately show ?thesis using km(2) [OF m(1)] by auto
  qed
  moreover have "i < n" if "i \<in> set (hits_from 0 ?mask)" for i using that by (simp add: set_hits_from)
  ultimately show ?thesis using distinct_hits_from by blast
qed

lemma rows_read:
  assumes "view_core vs bv" and "reads some_of vs" and "\<exists>v. everything = Some v \<and> byte_array_values v = vs"
    and "length vs \<le> 65536" and "chk \<Longrightarrow> length vs < 65536"
  shows "to_dict_arrow_inner chk everything some_of bv = Some (view_items vs bv)"
proof (cases "should_decompress_keyed bv")
  case False
  with assms(3) show ?thesis by (auto simp: to_dict_arrow_inner_def dict_rows_def view_items_def)
next
  case True
  let ?keys = "bv_dictionary_keys bv"
  have b: "\<And>k. Some k \<in> set (pa_items ?keys) \<Longrightarrow> unat k < length vs" using assms(1) by (simp add: view_core_def)
  obtain sel km where sel: "build_dict_selection chk ?keys (length vs) = Some (sel, map (\<lambda>x. Option.bind x (\<lambda>v. km (unat v))) (pa_items ?keys))"
    "distinct sel" "\<And>i. i \<in> set sel \<Longrightarrow> i < length vs"
    "\<And>k. Some k \<in> set (pa_items ?keys) \<Longrightarrow> \<exists>w. km (unat k) = Some w \<and> unat w < length sel \<and> sel ! unat w = unat k"
    using dict_selection [of ?keys "length vs" chk] b assms(4,5) by blast
  obtain v where v: "some_of sel = Some v" "byte_array_values v = map ((!) vs) sel" using readsD [OF assms(2) sel(2,3)] by blast
  have "dict_rows (map (\<lambda>x. Option.bind x (\<lambda>v. km (unat v))) (pa_items ?keys)) v = view_items vs bv"
    unfolding dict_rows_def view_items_def map_map comp_def
  proof (rule map_cong [OF refl])
    fix x assume x: "x \<in> set (pa_items ?keys)"
    show "map_option (\<lambda>k. byte_array_values v ! unat k) (Option.bind x (\<lambda>v. km (unat v))) = map_option (\<lambda>k. vs ! unat k) x"
    proof (cases x)
      case (Some k)
      with sel(4) x v(2) show ?thesis by force
    qed simp
  qed
  with True sel(1) v(1) view_core_length [OF assms(1)] show ?thesis by (simp add: to_dict_arrow_inner_def)
qed

section \<open>The serialized form reads back\<close>

lemma length_pad8 [simp]: "length (pad8 bs) = align8 (length bs)"
  using align8_ge [of "length bs"] by (simp add: pad8_def)

lemma read_section_at:
  assumes "length pre = align8 c" and "n = length sec"
  shows "read_section (pre @ sec @ rest) c n k = k sec (length pre + n)"
  using assms by (simp add: read_section_def Let_def)

lemma prefix_keys_read:
  assumes "\<And>pk. pk \<in> set pks \<Longrightarrow> length (pk_prefix7 pk) = 7"
  shows "decode_prefix_keys (concat (map prefix_key_bytes pks)) = Some pks"
    and "length (concat (map prefix_key_bytes pks)) = length pks * 8"
proof -
  let ?bs = "concat (map prefix_key_bytes pks)" and ?f = "\<lambda>i. prefix_key_bytes (pks ! i)"
  have e: "?bs = concat (map ?f [0..<length pks])" 
    by (rule arg_cong [where f = concat], rule nth_equalityI) simp_all
  have l: "length (?f i) = 8" if "i < length pks" for i using assms that by (simp add: prefix_key_bytes_def)
  show len: "length ?bs = length pks * 8" unfolding e by (rule chunks_concat(2)) (rule l)
  have "take 7 (drop (i * 8) ?bs) = pk_prefix7 (pks ! i) \<and> ?bs ! (i * 8 + 7) = pk_len (pks ! i)" if i: "i < length pks" for i
  proof -
    have c: "take 8 (drop (i * 8) ?bs) = ?f i" using chunks_concat(1) [of "length pks" ?f 8 i "[]"] l i by (simp add: e)
    have "take 7 (drop (i * 8) ?bs) = take 7 (take 8 (drop (i * 8) ?bs))" by simp
    moreover have "take 8 (drop (i * 8) ?bs) ! 7 = ?bs ! (i * 8 + 7)" using i len by simp
    ultimately show ?thesis unfolding c using assms i by (simp add: prefix_key_bytes_def nth_append)
  qed
  then show "decode_prefix_keys ?bs = Some pks" unfolding decode_prefix_keys_def len
    by (auto intro!: nth_equalityI)
qed

lemma view_header_read:
  assumes "h = \<lparr>vh_keys_size = of_nat a, vh_compact_offsets_size = of_nat b, vh_shared_prefix_size = of_nat c,
    vh_fsst_raw_size = of_nat d, vh_fingerprint_size = of_nat e\<rparr>"
  shows "view_header_from_bytes (view_header_to_bytes h) = Some h" and "length (view_header_to_bytes h) = 20"
proof -
  have r: "of_le_bytes (le_bytes 4 (w :: u32)) = w" for w by (rule of_le_bytes_le_bytes) simp
  show "length (view_header_to_bytes h) = 20" by (simp add: view_header_to_bytes_def)
  then show "view_header_from_bytes (view_header_to_bytes h) = Some h"
    by (simp add: view_header_from_bytes_def) (simp add: view_header_to_bytes_def r assms)
qed

text \<open>The header has room for the size of every section.\<close>

definition view_fits :: "u16 fastlanes \<Rightarrow> 'c memory_view \<Rightarrow> bool" where
  "view_fits F bv \<longleftrightarrow> fits_u32 (from_primitive F (bv_dictionary_keys bv) 16)
     \<and> length (to_bytes (from_primitive F (bv_dictionary_keys bv) 16)) < 2 ^ 32
     \<and> length (write_residuals (fa_compact_offsets (bv_fsst_buffer bv))) < 2 ^ 32
     \<and> length (bv_shared_prefix bv) < 2 ^ 32 \<and> length (raw_to_bytes (fa_raw (bv_fsst_buffer bv))) < 2 ^ 32
     \<and> 4 * length (bv_prefix_keys bv) < 2 ^ 32"

lemma keys_read:
  assumes "fastlanes_ok F" and "pa_wf keys" and "fits_u32 (from_primitive F (keys :: u16 prim_array) 16)"
  shows "\<exists>keys'. Option.bind (from_bytes (to_bytes (from_primitive F keys 16))) (to_primitive F) = Some keys'
    \<and> pa_wf keys' \<and> pa_items keys' = pa_items keys"
proof -
  let ?bp = "from_primitive F keys 16"
  have bp: "bp_ok ?bp" by (rule from_primitive_ok [OF assms(2,1)]) simp_all
  have l: "bp_original_len ?bp = length (pa_values keys)" by (simp add: from_primitive_def Let_def)
  have "map (take_bit 16) (pa_values keys) = pa_values keys" by (rule map_idI) (simp add: take_bit_word_eq_self)
  then have p: "to_primitive F ?bp = Some keys" using to_primitive_from_primitive [OF assms(1), of 16 keys] by simp
  obtain bp' keys' where k: "from_bytes (to_bytes ?bp) = Some bp'" "bp_ok bp'" "bp_original_len bp' = bp_original_len ?bp"
    "to_primitive F bp' = Some keys'" "length (pa_values keys') = bp_original_len ?bp" "pa_items keys' = pa_items keys"
    using from_bytes_items [OF bp assms(3) _ p] l by auto
  with pa_wf_to_primitive [of bp' F keys'] show ?thesis by auto
qed

text \<open>Six sections, each padded to a multiple of eight, are read one after the other.\<close>

lemma sections_read:
  assumes "bs = r5 @ fb" and "r5 = pad8 (r4 @ sp)" and "r4 = pad8 (r3 @ pb)" and "r3 = pad8 (r2 @ ob)"
    and "r2 = pad8 (r1 @ kb)" and "r1 = pad8 (r0 @ raw)" and "r0 = pad8 hdr" and "length hdr = 36"
  shows "read_section bs 36 (length raw) k0 = k0 raw (length r0 + length raw)"
    and "read_section bs (length r0 + length raw) (length kb) k1 = k1 kb (length r1 + length kb)"
    and "read_section bs (length r1 + length kb) (length ob) k2 = k2 ob (length r2 + length ob)"
    and "read_section bs (length r2 + length ob) (length pb) k3 = k3 pb (length r3 + length pb)"
    and "read_section bs (length r3 + length pb) (length sp) k4 = k4 sp (length r4 + length sp)"
    and "read_section bs (length r4 + length sp) (length fb) k5 = k5 fb (length r5 + length fb)"
    and "\<exists>rest. bs = hdr @ rest"
proof -
  have p: "\<exists>z. pad8 xs = xs @ z" for xs by (simp add: pad8_def)
  obtain z0 where z0: "r0 = hdr @ z0" using p [of hdr] assms(7) by auto
  obtain z1 where z1: "r1 = r0 @ raw @ z1" using p [of "r0 @ raw"] assms(6) by auto
  obtain z2 where z2: "r2 = r1 @ kb @ z2" using p [of "r1 @ kb"] assms(5) by auto
  obtain z3 where z3: "r3 = r2 @ ob @ z3" using p [of "r2 @ ob"] assms(4) by auto
  obtain z4 where z4: "r4 = r3 @ pb @ z4" using p [of "r3 @ pb"] assms(3) by auto
  obtain z5 where z5: "r5 = r4 @ sp @ z5" using p [of "r4 @ sp"] assms(2) by auto
  have l: "length r0 = align8 36" "length r1 = align8 (length r0 + length raw)" "length r2 = align8 (length r1 + length kb)"
    "length r3 = align8 (length r2 + length ob)" "length r4 = align8 (length r3 + length pb)" "length r5 = align8 (length r4 + length sp)"
    using assms by simp_all
  note at = read_section_at [OF _ refl]
  have b5: "bs = r5 @ fb @ []" using assms(1) by simp
  have b4: "bs = r4 @ sp @ z5 @ fb" unfolding b5 z5 by simp
  have b3: "bs = r3 @ pb @ z4 @ sp @ z5 @ fb" unfolding b4 z4 by simp
  have b2: "bs = r2 @ ob @ z3 @ pb @ z4 @ sp @ z5 @ fb" unfolding b3 z3 by simp
  have b1: "bs = r1 @ kb @ z2 @ ob @ z3 @ pb @ z4 @ sp @ z5 @ fb" unfolding b2 z2 by simp
  have b0: "bs = r0 @ raw @ z1 @ kb @ z2 @ ob @ z3 @ pb @ z4 @ sp @ z5 @ fb" unfolding b1 z1 by simp
  show "read_section bs 36 (length raw) k0 = k0 raw (length r0 + length raw)" unfolding b0 by (rule at [OF l(1)])
  show "read_section bs (length r0 + length raw) (length kb) k1 = k1 kb (length r1 + length kb)" unfolding b1 by (rule at [OF l(2)])
  show "read_section bs (length r1 + length kb) (length ob) k2 = k2 ob (length r2 + length ob)" unfolding b2 by (rule at [OF l(3)])
  show "read_section bs (length r2 + length ob) (length pb) k3 = k3 pb (length r3 + length pb)" unfolding b3 by (rule at [OF l(4)])
  show "read_section bs (length r3 + length pb) (length sp) k4 = k4 sp (length r4 + length sp)" unfolding b4 by (rule at [OF l(5)])
  show "read_section bs (length r4 + length sp) (length fb) k5 = k5 fb (length r5 + length fb)" unfolding b5 by (rule at [OF l(6)])
  show "\<exists>rest. bs = hdr @ rest" unfolding b0 z0 by simp
qed

lemma arrow_byte_type_read: "arrow_byte_type_of_id (arrow_byte_type_id t) = Some t"
  by (cases t) (simp_all add: arrow_byte_type_of_id_def)

text \<open>An array without values has no fingerprints to read back.\<close>

definition reread_fingerprints :: "u32 list option \<Rightarrow> u32 list option" where
  "reread_fingerprints fs = (if fs = Some [] then None else fs)"

lemma unat_u32: "n < 2 ^ 32 \<Longrightarrow> unat (of_nat n :: u32) = n"
  by (simp add: unat_of_nat)

lemma fingerprints_read:
  assumes "\<And>fs. fps = Some fs \<Longrightarrow> length fs = n" and "4 * n < 2 ^ 32"
  defines "fb \<equiv> (case fps of Some fs \<Rightarrow> words_bytes fs | None \<Rightarrow> [])"
  shows "(if (of_nat (length fb) :: u32) = 0 then Some None
      else if length fb mod 4 \<noteq> 0 then None else if length fb \<noteq> n * 4 then None else Some (Some (bytes_words n fb)))
    = Some (reread_fingerprints fps)"
proof (cases fps)
  case (Some fs)
  have n: "length fs = n" by (rule assms(1) [OF Some])
  then have l: "length fb = n * 4" by (simp add: fb_def Some size_of_def)
  have "(of_nat (length fb) :: u32) = 0 \<longleftrightarrow> unat (of_nat (length fb) :: u32) = 0" by (simp only: unat_eq_0)
  also have "\<dots> \<longleftrightarrow> fs = []" using unat_u32 [of "length fb"] l assms(2) n by (simp only: length_0_conv [symmetric]) linarith
  finally have z: "(of_nat (length fb) :: u32) = 0 \<longleftrightarrow> fs = []" .
  have "bytes_words n fb = fs" using bytes_words_of_words [of fs] n by (simp add: fb_def Some)
  with l show ?thesis unfolding z by (simp add: reread_fingerprints_def Some)
qed (simp add: fb_def reread_fingerprints_def)


lemma view_bytes_read:
  assumes "view_core vs bv" and "fsst_slices chk (bv_fsst_buffer bv) zs" and "length zs = length vs"
    and "fastlanes_ok F" and "view_fits F bv"
  shows "\<exists>bv'. view_from_bytes F (view_to_bytes_inner F bv) (fa_compressor (bv_fsst_buffer bv)) = Some bv' \<and> view_core vs bv'
    \<and> view_items vs bv' = view_items vs bv \<and> bv_fsst_buffer bv' = bv_fsst_buffer bv \<and> bv_shared_prefix bv' = bv_shared_prefix bv
    \<and> bv_prefix_keys bv' = bv_prefix_keys bv \<and> bv_original_arrow_type bv' = bv_original_arrow_type bv
    \<and> (vs \<noteq> [] \<longrightarrow> bv_string_fingerprints bv' = bv_string_fingerprints bv)"
proof -
  let ?fa = "bv_fsst_buffer bv"
  define raw where "raw = raw_to_bytes (fa_raw ?fa)"
  define kb where "kb = to_bytes (from_primitive F (bv_dictionary_keys bv) 16)"
  define ob where "ob = write_residuals (fa_compact_offsets ?fa)"
  define pb where "pb = concat (map prefix_key_bytes (bv_prefix_keys bv))"
  define sp where "sp = bv_shared_prefix bv"
  define fb where "fb = (case bv_string_fingerprints bv of Some fs \<Rightarrow> words_bytes fs | None \<Rightarrow> [])"
  define ipc where "ipc = ipc_header_new LIQUID_BYTE_VIEW (arrow_byte_type_id (bv_original_arrow_type bv))"
  define vh :: byte_view_header where "vh = \<lparr>vh_keys_size = of_nat (length kb), vh_compact_offsets_size = of_nat (length ob),
    vh_shared_prefix_size = of_nat (length sp), vh_fsst_raw_size = of_nat (length raw), vh_fingerprint_size = of_nat (length fb)\<rparr>"
  define r0 where "r0 = pad8 (ipc_header_to_bytes ipc @ view_header_to_bytes vh)"
  define r1 where "r1 = pad8 (r0 @ raw)"
  define r2 where "r2 = pad8 (r1 @ kb)"
  define r3 where "r3 = pad8 (r2 @ ob)"
  define r4 where "r4 = pad8 (r3 @ pb)"
  define r5 where "r5 = pad8 (r4 @ sp)"
  have bs: "view_to_bytes_inner F bv = r5 @ fb"
    by (simp only: view_to_bytes_inner_def Let_def r5_def r4_def r3_def r2_def r1_def r0_def vh_def raw_def kb_def ob_def pb_def sp_def fb_def ipc_def)
  let ?hdr = "ipc_header_to_bytes ipc @ view_header_to_bytes vh"
  note h = view_header_read [OF vh_def]
  have hl: "length ?hdr = 36" by (simp add: h(2)) (simp add: ipc_def)
  note sec = sections_read [OF bs r5_def r4_def r3_def r2_def r1_def r0_def hl]
  obtain rest where rest: "view_to_bytes_inner F bv = ?hdr @ rest" using sec(7) by blast
  have hdr: "ipc_header_from_bytes (view_to_bytes_inner F bv) = Some ipc" "\<not> length (view_to_bytes_inner F bv) < 36"
    "take 20 (drop 16 (view_to_bytes_inner F bv)) = view_header_to_bytes vh"
    using header_roundtrip [of LIQUID_BYTE_VIEW "arrow_byte_type_id (bv_original_arrow_type bv)" "view_header_to_bytes vh @ rest"] h(2)
    unfolding rest ipc_def by simp_all
  obtain keys' where keys': "Option.bind (from_bytes kb) (to_primitive F) = Some keys'" "pa_wf keys'"
      "pa_items keys' = pa_items (bv_dictionary_keys bv)"
    using keys_read [OF assms(4), of "bv_dictionary_keys bv"] assms(1,5) unfolding kb_def by (auto simp: view_core_def view_fits_def)
  have pks: "length (pk_prefix7 pk) = 7" if "pk \<in> set (bv_prefix_keys bv)" for pk
    using that assms(1) by (auto simp: view_core_def prefix_key_of_def prefix_key_new_fields)
  have fa: "compact_offsets_len (fa_compact_offsets ?fa) = Suc (length vs)" "decode_compact_offsets ob = Some (fa_compact_offsets ?fa)"
    "length (rb_values (fa_raw ?fa)) < 2 ^ 32" "9 \<le> length ob"
    using assms(2,3) by (simp_all add: fsst_slices_def ob_def) (simp add: write_residuals_def)
  have pl: "length vs * 8 = length pb" using prefix_keys_read(2) [OF pks] view_core_length [OF assms(1)] by (simp add: pb_def)
  have fp: "\<And>fs. bv_string_fingerprints bv = Some fs \<Longrightarrow> length fs = length vs" "4 * length vs < 2 ^ 32"
    using assms(1,5) view_core_length [OF assms(1)] by (auto simp: view_core_def view_fits_def)
  have "length fb \<le> 4 * length vs" using fp(1) by (auto simp: fb_def size_of_def split: option.splits)
  then have u: "unat (vh_keys_size vh) = length kb" "unat (vh_compact_offsets_size vh) = length ob" "unat (vh_shared_prefix_size vh) = length sp"
    "unat (vh_fsst_raw_size vh) = length raw" "unat (vh_fingerprint_size vh) = length fb"
    using assms(5) fp(2) unfolding view_fits_def vh_def kb_def [symmetric] ob_def [symmetric] sp_def [symmetric] raw_def [symmetric]
    by (simp_all add: unat_u32)
  then have ob: "vh_compact_offsets_size vh > 0" using fa(4) by (auto simp: word_less_nat_alt)
  have rp: "raw_from_bytes raw = Some (fa_raw ?fa)" "decode_prefix_keys pb = Some (bv_prefix_keys bv)"
    unfolding raw_def pb_def by (rule raw_bytes_read(1) [OF fa(3)], rule prefix_keys_read(1) [OF pks])
  have phys: "h_physical_type_id ipc = arrow_byte_type_id (bv_original_arrow_type bv)" by (simp add: ipc_def ipc_header_new_def)
  have fpr: "(if vh_fingerprint_size vh = 0 then Some None else if length fb mod 4 \<noteq> 0 then None
      else if length fb \<noteq> length vs * 4 then None else Some (Some (bytes_words (length vs) fb)))
    = Some (reread_fingerprints (bv_string_fingerprints bv))"
  proof -
    have "vh_fingerprint_size vh = of_nat (length fb)" by (simp add: vh_def)
    then show ?thesis using fingerprints_read [of "bv_string_fingerprints bv", OF fp] unfolding fb_def [symmetric] by (simp only:)
  qed
  have "view_from_bytes F (view_to_bytes_inner F bv) (fa_compressor ?fa) = Some (bv\<lparr>bv_dictionary_keys := keys',
      bv_string_fingerprints := reread_fingerprints (bv_string_fingerprints bv)\<rparr>)"
    unfolding view_from_bytes_def
    by (simp only: phys arrow_byte_type_read h(1) u sec keys'(1) ob fa rp pl fpr bind.bind_lunit if_True if_False diff_Suc_1 hdr Let_def)
      (simp add: sp_def)
  moreover have "view_core vs (bv\<lparr>bv_dictionary_keys := keys', bv_string_fingerprints := reread_fingerprints (bv_string_fingerprints bv)\<rparr>)"
    using assms(1) keys'(2,3) by (simp add: view_core_def reread_fingerprints_def)
  ultimately show ?thesis using keys'(3) assms(1) by (auto simp: view_items_def reread_fingerprints_def view_core_def)
qed

section \<open>Arrays as they are built and filtered\<close>

lemma common_prefix: "prefix (take (length (takeWhile (\<lambda>(a, b). a = b) (zip xs ys))) xs) ys"
proof (induction xs arbitrary: ys)
  case (Cons x xs)
  then show ?case by (cases ys) auto
qed simp

lemma shared_prefix_loop_prefix:
  "prefix (shared_prefix_loop sp vs) sp \<and> (\<forall>v \<in> set vs. prefix (shared_prefix_loop sp vs) v)"
proof (induction sp vs rule: shared_prefix_loop.induct)
  case (2 sp v vs)
  let ?sp = "take (length (takeWhile (\<lambda>(a, b). a = b) (zip sp v))) sp"
  show ?case
  proof (cases "?sp = []")
    case False
    then have "prefix (shared_prefix_loop ?sp vs) ?sp" "\<forall>w \<in> set vs. prefix (shared_prefix_loop ?sp vs) w"
      using "2.IH" [OF refl refl] by simp_all
    moreover have "prefix ?sp sp" "prefix ?sp v" by (rule take_is_prefix, rule common_prefix)
    ultimately show ?thesis using False by (auto simp: Let_def intro: prefix_order.trans)
  qed (simp add: Let_def)
qed simp

lemma shared_prefix_of_prefix: "v \<in> set vs \<Longrightarrow> prefix (shared_prefix_of vs) v"
  using shared_prefix_loop_prefix by (cases vs) (auto simp: shared_prefix_of_def)

text \<open>The sizes that the code relies on: 32-bit offsets into the compressed bytes, Arrow's into the plain ones.\<close>

definition sizes_ok :: "'c fsst \<Rightarrow> 'c \<Rightarrow> bytes list \<Rightarrow> bool" where
  "sizes_ok Z c vs \<longleftrightarrow> length (concat (map (fc_compress Z c) vs)) < 2 ^ 32 \<and> values_fit vs"

definition dict_ok :: "dict_array \<Rightarrow> bool" where
  "dict_ok d \<longleftrightarrow> pa_wf (da_keys d) \<and> (\<forall>k. Some k \<in> set (pa_items (da_keys d)) \<longrightarrow> unat k < length (da_values d))"

lemma view_new:
  assumes "from_dict_array_inner Z chk d c ty fing = Some bv" and "dict_ok d" and "fsst_ok Z" and "sizes_ok Z c (da_values d)"
  shows "view_core (da_values d) bv" and "holds_values Z chk (bv_fsst_buffer bv) (da_values d)"
    and "view_items (da_values d) bv = dict_items d" and "bv_dictionary_keys bv = da_keys d"
    and "fa_compressor (bv_fsst_buffer bv) = c" and "bv_string_fingerprints bv \<noteq> None \<longleftrightarrow> fing"
    and "bv_shared_prefix bv = shared_prefix_of (da_values d)"
proof -
  let ?vs = "da_values d"
  obtain fa where fa: "fsst_from_byte_array Z chk (map Some ?vs) c = Some fa"
    and bv: "bv = \<lparr>bv_dictionary_keys = da_keys d, bv_prefix_keys = map (prefix_key_of (shared_prefix_of ?vs)) ?vs, bv_fsst_buffer = fa,
      bv_original_arrow_type = ty, bv_shared_prefix = shared_prefix_of ?vs,
      bv_string_fingerprints = (if fing then Some (map fingerprint_from_bytes ?vs) else None)\<rparr>"
    using assms(1) by (auto simp: from_dict_array_inner_def Let_def)
  have z: "compressed Z c (map Some ?vs) = map (fc_compress Z c) ?vs" by (simp add: compressed_def comp_def)
  note f = fsst_slices_new [OF fa, unfolded z]
  show "view_core ?vs bv" using assms(2) shared_prefix_of_prefix [of _ ?vs] by (simp add: view_core_def bv dict_ok_def)
  show "holds_values Z chk (bv_fsst_buffer bv) ?vs" using assms(3,4) f by (simp add: holds_values_def bv sizes_ok_def)
  show "view_items ?vs bv = dict_items d" by (simp add: view_items_def dict_items_def bv)
  show "bv_dictionary_keys bv = da_keys d" "bv_string_fingerprints bv \<noteq> None \<longleftrightarrow> fing" "bv_shared_prefix bv = shared_prefix_of ?vs"
    by (simp_all add: bv)
  show "fa_compressor (bv_fsst_buffer bv) = c" using f(2) assms(4) by (simp add: bv sizes_ok_def)
qed

text \<open>Without overflow checks the array can always be built.\<close>

lemma fsst_new_total: "\<exists>fa. fsst_from_byte_array Z False items c = Some fa"
proof -
  obtain raw offs where "from_byte_slices Z c items = (raw, offs)" by fastforce
  moreover obtain co where "from_offsets False offs = Some co" using from_offsets_wrap by blast
  ultimately show ?thesis by (simp add: fsst_from_byte_array_def from_byte_offsets_def)
qed

lemma view_new_total: "\<exists>bv. from_dict_array_inner Z False d c ty fing = Some bv"
  using fsst_new_total [of Z "map Some (da_values d)" c] by (auto simp: from_dict_array_inner_def Let_def)

text \<open>Filtering an Arrow array copies the slots of null rows, or clears them.\<close>

definition slots_kept :: "u16 arrow_kernels \<Rightarrow> bool" where
  "slots_kept K \<longleftrightarrow> (\<forall>a sel. pa_wf a \<longrightarrow> length sel = length (pa_values a) \<longrightarrow>
     set (pa_values (ak_filter K a sel)) \<subseteq> insert 0 (set (pa_values a)))"

lemma filter_keys_core:
  assumes "view_core vs bv" and "kernels_ok K" and "length sel = length (pa_values (bv_dictionary_keys bv))"
  shows "view_core vs (filter_keys K bv sel)" and "view_items vs (filter_keys K bv sel) = filter_items (view_items vs bv) sel"
    and "slots_kept K \<Longrightarrow> slots_ok vs bv \<Longrightarrow> slots_ok vs (filter_keys K bv sel)"
proof -
  let ?k = "bv_dictionary_keys bv" and ?k' = "ak_filter K (bv_dictionary_keys bv) sel"
  have wf: "pa_wf ?k" using assms(1) by (simp add: view_core_def)
  then have k: "pa_wf ?k'" "pa_items ?k' = filter_items (pa_items ?k) sel" using assms(2,3) unfolding kernels_ok_def by blast+
  show "view_core vs (filter_keys K bv sel)"
    using assms(1) k set_filter_items [of "pa_items ?k" sel] by (auto simp: view_core_def filter_keys_def)
  show "view_items vs (filter_keys K bv sel) = filter_items (view_items vs bv) sel"
    by (simp add: view_items_def filter_keys_def k(2) filter_items_map)
  show "slots_ok vs (filter_keys K bv sel)" if "slots_kept K" "slots_ok vs bv"
  proof (cases "vs = []")
    case True
    then have "pa_values ?k = []" using that(2) by (auto simp: slots_ok_def)
    then have "pa_items ?k = []" by (simp add: pa_items_def)
    then have "length (pa_items ?k') = 0" unfolding k(2) by (simp add: filter_items_def)
    then show ?thesis by (simp add: slots_ok_def filter_keys_def)
  next
    case False
    have "set (pa_values ?k') \<subseteq> insert 0 (set (pa_values ?k))" using that(1) wf assms(3) by (simp add: slots_kept_def)
    with False that(2) show ?thesis by (auto simp: slots_ok_def filter_keys_def)
  qed
qed

lemma filter_keys_fields [simp]:
  "bv_fsst_buffer (filter_keys K bv sel) = bv_fsst_buffer bv" "bv_string_fingerprints (filter_keys K bv sel) = bv_string_fingerprints bv"
  "bv_shared_prefix (filter_keys K bv sel) = bv_shared_prefix bv"
  by (simp_all add: filter_keys_def)

section \<open>What an operator asks of a row\<close>

text \<open>The pattern of a substring search is \<open>%x%\<close> with \<open>x\<close> free of wildcards and of the escape character.\<close>

fun asks :: "byte_view_operator \<Rightarrow> bytes \<Rightarrow> bytes \<Rightarrow> bool" where
  "asks (BV_Comparison c) needle v \<longleftrightarrow> comparison_holds c (bytes_cmp v needle)"
| "asks BV_Eq needle v \<longleftrightarrow> v = needle"
| "asks BV_NotEq needle v \<longleftrightarrow> v \<noteq> needle"
| "asks BV_Contains needle v \<longleftrightarrow> sublist (drop 1 (take (length needle - 1) needle)) v"
| "asks BV_NotContains needle v \<longleftrightarrow> \<not> sublist (drop 1 (take (length needle - 1) needle)) v"

lemma asks_fun:
  "asks (BV_Comparison c) needle = (\<lambda>v. comparison_holds c (bytes_cmp v needle))"
  "asks BV_Eq needle = (\<lambda>v. v = needle)" "asks BV_NotEq needle = (\<lambda>v. v \<noteq> needle)"
  by (simp_all add: fun_eq_iff)

text \<open>The calls on which the code answers for every row.\<close>

fun call_ok :: "bytes list \<Rightarrow> 'b byte_view_array \<Rightarrow> byte_view_operator \<Rightarrow> bytes \<Rightarrow> bool" where
  "call_ok vs bv (BV_Comparison c) needle \<longleftrightarrow> enough_rows vs bv \<or> compare_with_shared_prefix bv needle c = None"
| "call_ok vs bv BV_Contains needle \<longleftrightarrow> bv_string_fingerprints bv \<noteq> None
     \<and> (case substring_pattern_bytes needle of None \<Rightarrow> False | Some x \<Rightarrow> 92 \<notin> set x \<and> utf8_valid x)"
| "call_ok vs bv BV_NotContains needle \<longleftrightarrow> bv_string_fingerprints bv \<noteq> None
     \<and> (case substring_pattern_bytes needle of None \<Rightarrow> False | Some x \<Rightarrow> 92 \<notin> set x \<and> utf8_valid x
          \<and> list_ex (\<lambda>v. might_contain (fingerprint_from_bytes v) (fingerprint_from_bytes x)) vs)"
| "call_ok vs bv _ needle \<longleftrightarrow> True"

lemma substring_pattern:
  "substring_pattern_bytes p = Some x \<Longrightarrow> x = drop 1 (take (length p - 1) p) \<and> 37 \<notin> set x \<and> 95 \<notin> set x"
  by (auto simp: substring_pattern_bytes_def Let_def list_ex_iff split: if_splits)

lemma pattern_free: "37 \<notin> set x \<Longrightarrow> 95 \<notin> set x \<Longrightarrow> 92 \<notin> set x \<Longrightarrow> list_all (\<lambda>b. b \<notin> {37, 95, 92}) (x :: bytes)"
  by (auto simp: list_all_iff)

lemma substring_call:
  assumes "view_core vs bv" and "slots_ok vs bv" and "reads some_of vs" and "like_ok like"
    and "op = (if negated then BV_NotContains else BV_Contains)" and "call_ok vs bv op needle"
  obtains fs x m where "bv_string_fingerprints bv = Some fs" and "substring_pattern_bytes needle = Some x"
    and "compare_like_substring like some_of bv x negated fs = Some m" and "ba_items m = map (map_option (asks op needle)) (view_items vs bv)"
proof -
  obtain fs x where f: "bv_string_fingerprints bv = Some fs" "substring_pattern_bytes needle = Some x" "92 \<notin> set x" "utf8_valid x"
    using assms(5,6) by (auto split: if_splits option.splits)
  note x = substring_pattern [OF f(2)]
  have n: "\<not> negated \<or> (\<exists>v \<in> set vs. might_contain (fingerprint_from_bytes v) (fingerprint_from_bytes x))"
    using assms(5,6) f(2) by (auto simp: list_ex_iff split: if_splits)
  obtain m where m: "compare_like_substring like some_of bv x negated fs = Some m"
    "ba_items m = map (map_option (\<lambda>v. sublist x v \<noteq> negated)) (view_items vs bv)"
    using substring_right [OF assms(1-4) pattern_free f(4) f(1) n] x f(3) by blast
  have "(\<lambda>v. sublist x v \<noteq> negated) = asks op needle" using assms(5) x by (cases negated) (auto simp: fun_eq_iff)
  with that f m show thesis by simp
qed

lemma memory_compare_right:
  assumes "view_core vs bv" and "slots_ok vs bv" and "holds_values Z chk (bv_fsst_buffer bv) vs" and "like_ok like"
    and "call_ok vs bv op needle"
  shows "\<exists>m. memory_compare_with like fallback Z chk bv needle op = Some m
    \<and> ba_items m = map (map_option (asks op needle)) (view_items vs bv)"
proof (cases op)
  case (BV_Comparison c)
  then show ?thesis using order_right [OF assms(1,2) memory_reads(1) [OF assms(3)] refl, where op = c and needle = needle] assms(5)
    by (simp add: asks_fun memory_compare_with_def memory_compare_with_inner_def)
next
  case BV_Eq
  then show ?thesis using memory_equals_right [OF assms(1-3), of needle] by (simp add: memory_compare_with_def asks_fun)
next
  case BV_NotEq
  then show ?thesis using memory_equals_right [OF assms(1-3), of needle] negate_mask_items [of _ "\<lambda>v. v = needle"]
    by (auto simp: memory_compare_with_def asks_fun)
next
  case BV_Contains
  with assms(5) obtain fs x m where "bv_string_fingerprints bv = Some fs" "substring_pattern_bytes needle = Some x"
    "compare_like_substring like (to_uncompressed_selected Z chk (bv_fsst_buffer bv)) bv x False fs = Some m"
    "ba_items m = map (map_option (asks op needle)) (view_items vs bv)"
    using substring_call [OF assms(1,2) memory_reads(1) [OF assms(3)] assms(4), of op False needle] by metis
  then show ?thesis using BV_Contains by (simp add: memory_compare_with_def)
next
  case BV_NotContains
  with assms(5) obtain fs x m where "bv_string_fingerprints bv = Some fs" "substring_pattern_bytes needle = Some x"
    "compare_like_substring like (to_uncompressed_selected Z chk (bv_fsst_buffer bv)) bv x True fs = Some m"
    "ba_items m = map (map_option (asks op needle)) (view_items vs bv)"
    using substring_call [OF assms(1,2) memory_reads(1) [OF assms(3)] assms(4), of op True needle] by metis
  then show ?thesis using BV_NotContains by (simp add: memory_compare_with_def)
qed

lemma disk_compare_right:
  assumes "view_core vs bv" and "slots_ok vs bv" and "view_from_bytes F disk (db_compressor (bv_fsst_buffer bv)) = Some bv'"
    and "holds_values Z chk (bv_fsst_buffer bv') vs" and "like_ok like" and "call_ok vs bv op needle"
  shows "\<exists>m. disk_compare_with like F Z chk disk bv needle op = Some m
    \<and> ba_items m = map (map_option (asks op needle)) (view_items vs bv)"
proof -
  have r: "reads (disk_to_uncompressed_selected F Z chk disk (bv_fsst_buffer bv)) vs"
    using memory_reads(1) [OF assms(4)] assms(3) by (simp add: reads_def disk_to_uncompressed_selected_def)
  show ?thesis
  proof (cases op)
    case (BV_Comparison c)
    then show ?thesis using order_right [OF assms(1,2) r, of "\<lambda>v. comparison_holds c (bytes_cmp_short_auto v needle)" c needle] assms(6)
      by (simp add: disk_compare_with_def bytes_cmp_short_auto_right asks_fun)
  next
    case BV_Eq
    then show ?thesis using disk_equals_right [OF assms(1-4), of needle] by (simp add: disk_compare_with_def asks_fun)
  next
    case BV_NotEq
    then show ?thesis using disk_equals_right [OF assms(1-4), of needle] negate_mask_items [of _ "\<lambda>v. v = needle"]
      by (auto simp: disk_compare_with_def asks_fun)
  next
    case BV_Contains
    with assms(6) obtain fs x m where "bv_string_fingerprints bv = Some fs" "substring_pattern_bytes needle = Some x"
      "compare_like_substring like (disk_to_uncompressed_selected F Z chk disk (bv_fsst_buffer bv)) bv x False fs = Some m"
      "ba_items m = map (map_option (asks op needle)) (view_items vs bv)"
      using substring_call [OF assms(1,2) r assms(5), of op False needle] by metis
    then show ?thesis using BV_Contains by (simp add: disk_compare_with_def)
  next
    case BV_NotContains
    with assms(6) obtain fs x m where "bv_string_fingerprints bv = Some fs" "substring_pattern_bytes needle = Some x"
      "compare_like_substring like (disk_to_uncompressed_selected F Z chk disk (bv_fsst_buffer bv)) bv x True fs = Some m"
      "ba_items m = map (map_option (asks op needle)) (view_items vs bv)"
      using substring_call [OF assms(1,2) r assms(5), of op True needle] by metis
    then show ?thesis using BV_NotContains by (simp add: disk_compare_with_def)
  qed
qed

section \<open>Squeezed arrays\<close>

lemma view_squeeze_core:
  assumes "view_core vs bv" and "holds_values Z chk (bv_fsst_buffer bv) vs"
  shows "\<exists>dv. view_squeeze F Z chk bv (Some substring) = Some (Some (dv, view_to_bytes_inner F bv)) \<and> view_core vs dv
    \<and> bv_dictionary_keys dv = bv_dictionary_keys bv \<and> db_compressor (bv_fsst_buffer dv) = fa_compressor (bv_fsst_buffer bv)
    \<and> bv_shared_prefix dv = bv_shared_prefix bv \<and> (bv_string_fingerprints dv \<noteq> None \<longleftrightarrow> substring)"
proof -
  obtain v where v: "fsst_to_uncompressed Z chk (bv_fsst_buffer bv) = Some v" "byte_array_values v = vs"
    using memory_reads(2) [OF assms(2)] by blast
  have "length (snd v) - 1 = length vs" using arg_cong [OF v(2), of length] by (simp add: byte_array_values_def)
  then have f: "build_fingerprints v = map fingerprint_from_bytes vs" using v(2) by (auto simp: build_fingerprints_def)
  show ?thesis
  proof (cases "bv_string_fingerprints bv")
    case None
    then show ?thesis using v(1) f assms(1) by (cases substring) (auto simp: view_squeeze_def view_core_def)
  next
    case (Some fs)
    then show ?thesis using assms(1) by (cases substring) (auto simp: view_squeeze_def view_core_def)
  qed
qed

lemma filter_items_none: "\<not> 0 < count_list sel True \<Longrightarrow> filter_items xs sel = []"
  by (auto simp: filter_items_def count_list_0_iff filter_empty_conv dest: set_zip_rightD)

lemma view_items_keys: "bv_dictionary_keys bv = bv_dictionary_keys bv' \<Longrightarrow> view_items vs bv = view_items vs bv'"
  by (simp add: view_items_def)

lemma disk_reads:
  assumes "view_from_bytes F disk (db_compressor db) = Some bv'" and "holds_values Z chk (bv_fsst_buffer bv') vs"
  shows "reads (disk_to_uncompressed_selected F Z chk disk db) vs"
    and "\<exists>v. disk_to_uncompressed F Z chk disk db = Some v \<and> byte_array_values v = vs"
  using memory_reads(1,2) [OF assms(2)] assms(1)
  by (simp_all add: reads_def disk_to_uncompressed_selected_def disk_to_uncompressed_def)

text \<open>An array that is built, squeezed to bytes and filtered, and all that is known about it.\<close>

lemma squeezed_view:
  assumes "view_core vs bv" and "holds_values Z chk (bv_fsst_buffer bv) vs" and "fastlanes_ok F" and "view_fits F bv"
  obtains dv bv' where "view_squeeze F Z chk bv (Some substring) = Some (Some (dv, view_to_bytes_inner F bv))"
    and "view_core vs dv" and "bv_dictionary_keys dv = bv_dictionary_keys bv"
    and "view_from_bytes F (view_to_bytes_inner F bv) (db_compressor (bv_fsst_buffer dv)) = Some bv'"
    and "holds_values Z chk (bv_fsst_buffer bv') vs" and "view_core vs bv'" and "view_items vs bv' = view_items vs bv"
    and "bv_string_fingerprints dv \<noteq> None \<longleftrightarrow> substring" and "bv_shared_prefix dv = bv_shared_prefix bv"
proof -
  obtain dv where dv: "view_squeeze F Z chk bv (Some substring) = Some (Some (dv, view_to_bytes_inner F bv))" "view_core vs dv"
    "bv_dictionary_keys dv = bv_dictionary_keys bv" "db_compressor (bv_fsst_buffer dv) = fa_compressor (bv_fsst_buffer bv)"
    "bv_shared_prefix dv = bv_shared_prefix bv" "bv_string_fingerprints dv \<noteq> None \<longleftrightarrow> substring"
    using view_squeeze_core [OF assms(1,2)] by blast
  have "fsst_slices chk (bv_fsst_buffer bv) (map (fc_compress Z (fa_compressor (bv_fsst_buffer bv))) vs)"
    using assms(2) by (simp add: holds_values_def)
  then obtain bv' where "view_from_bytes F (view_to_bytes_inner F bv) (fa_compressor (bv_fsst_buffer bv)) = Some bv'"
    "view_core vs bv'" "view_items vs bv' = view_items vs bv" "bv_fsst_buffer bv' = bv_fsst_buffer bv"
    using view_bytes_read [OF assms(1) _ _ assms(3,4)] by (metis length_map)
  with that dv assms(2) show thesis by simp
qed

text \<open>An array built from rows holds the distinct values \<open>vs\<close>; null rows have the key zero.\<close>

definition view_values :: "(bytes option list \<Rightarrow> dict_array option) \<Rightarrow> bytes option list \<Rightarrow> bytes list" where
  "view_values build rows = (case build rows of None \<Rightarrow> [] | Some d \<Rightarrow> da_values d)"

lemma view_of_rows:
  assumes "dict_builder_ok build" and "from_byte_array_inner build Z chk rows c ty fing = Some bv" and "fsst_ok Z"
    and "sizes_ok Z c (view_values build rows)"
  shows "view_core (view_values build rows) bv" and "holds_values Z chk (bv_fsst_buffer bv) (view_values build rows)"
    and "view_items (view_values build rows) bv = rows" and "length (view_values build rows) \<le> 65536"
    and "length (pa_values (bv_dictionary_keys bv)) = length rows"
    and "view_values build rows \<noteq> [] \<or> rows = [] \<Longrightarrow> slots_ok (view_values build rows) bv"
proof -
  obtain d where d: "build rows = Some d" "from_dict_array_inner Z chk d c ty fing = Some bv"
    using assms(2) by (auto simp: from_byte_array_inner_def bind_eq_Some_conv)
  have vs: "view_values build rows = da_values d" by (simp add: view_values_def d(1))
  have ok: "dict_ok d" "length (pa_values (da_keys d)) = length rows" "dict_items d = rows" "length (da_values d) \<le> 65536"
    "\<forall>k \<in> set (pa_values (da_keys d)). k \<noteq> 0 \<longrightarrow> unat k < length (da_values d)"
    using assms(1) d(1) unfolding dict_builder_ok_def dict_ok_def by blast+
  note v = view_new [OF d(2) ok(1) assms(3)]
  show "view_core (view_values build rows) bv" "holds_values Z chk (bv_fsst_buffer bv) (view_values build rows)"
    "view_items (view_values build rows) bv = rows" "length (view_values build rows) \<le> 65536"
    "length (pa_values (bv_dictionary_keys bv)) = length rows"
    using v ok assms(4) unfolding vs by simp_all
  show "slots_ok (view_values build rows) bv" if "view_values build rows \<noteq> [] \<or> rows = []"
  proof (cases "rows = []")
    case True
    then show ?thesis using ok(2) v(4) assms(4) unfolding vs by (simp add: slots_ok_def)
  next
    case False
    then show ?thesis using that ok(5) v(4) assms(4) unfolding vs slots_ok_def by (metis length_greater_0_conv unat_0)
  qed
qed

section \<open>Where comparisons fail\<close>

lemma order_fails_iff:
  assumes "view_core vs bv" and "slots_ok vs bv" and "holds_values Z chk (bv_fsst_buffer bv) vs"
  shows "memory_compare_with_inner Z chk bv needle c = None \<longleftrightarrow> compare_with_shared_prefix bv needle c \<noteq> None
    \<and> (\<exists>k \<in> set (pa_values (bv_dictionary_keys bv)). length (pa_values (bv_dictionary_keys bv)) \<le> unat k)"
proof (cases "compare_with_shared_prefix bv needle c")
  case None
  then show ?thesis using order_right [OF assms(1,2) memory_reads(1) [OF assms(3)] refl, where op = c and needle = needle]
    by (auto simp: memory_compare_with_inner_def)
next
  case (Some b)
  then show ?thesis
    by (auto simp: memory_compare_with_inner_def compare_with_prefix_def resolve_ambiguous_def map_dictionary_results_def Let_def list_all_iff not_less)
qed

lemma candidates_answered:
  assumes "decides vs P (r, amb)"
  shows "apply_like_match_on_candidates like r amb v x negated = None \<longleftrightarrow> \<not> utf8_valid x"
    and "apply_like_match_on_candidates like r amb v x negated = Some r' \<Longrightarrow> length r' = length vs"
proof -
  let ?hits = "filter (\<lambda>(i, m). m = Some True) (zip amb (like (byte_array_values v) ([37] @ x @ [37])))"
  let ?kvs = "map (\<lambda>(i, _). (i, True)) ?hits"
  have fst: "map fst ?kvs = map fst ?hits" by (simp add: comp_def split_def)
  have "distinct (map fst (zip amb (like (byte_array_values v) ([37] @ x @ [37]))))"
    using assms by (simp add: decides_def map_fst_zip_take)
  then have "distinct (map fst ?kvs)" unfolding fst by (rule distinct_map_filter)
  moreover have "i < length r" if "(i, b) \<in> set ?kvs" for i b
    using that assms by (auto simp: decides_def dest: set_zip_leftD)
  ultimately obtain r0 where "write_results ?kvs r = Some r0" "length r0 = length r" using write_results_spec [of ?kvs r] by blast
  then show "apply_like_match_on_candidates like r amb v x negated = None \<longleftrightarrow> \<not> utf8_valid x"
    "apply_like_match_on_candidates like r amb v x negated = Some r' \<Longrightarrow> length r' = length vs"
    using assms by (auto simp: apply_like_match_on_candidates_def Let_def decides_def split: if_splits)
qed

lemma substring_fails_iff:
  assumes "view_core vs bv" and "slots_ok vs bv" and "reads some_of vs" and "bv_string_fingerprints bv = Some fs"
  shows "compare_like_substring like some_of bv x negated fs = None
    \<longleftrightarrow> \<not> utf8_valid x \<and> list_ex (\<lambda>v. might_contain (fingerprint_from_bytes v) (fingerprint_from_bytes x)) vs"
proof -
  have fs: "fs = map fingerprint_from_bytes vs" using assms(1,4) by (simp add: view_core_def)
  obtain r amb where e: "compute_fingerprint_candidates x fs = (r, amb)" by (cases "compute_fingerprint_candidates x fs")
  note c = candidates_decide [OF fs, where x = x, unfolded e fst_conv snd_conv]
  have m: "map_dictionary_results bv r' \<noteq> None" if "length r' = length vs" for r'
    using that assms(2) by (simp add: map_dictionary_results_def Let_def slots_ok_def list_all_iff)
  show ?thesis
  proof (cases "amb = []")
    case True
    then have "\<not> list_ex (\<lambda>v. might_contain (fingerprint_from_bytes v) (fingerprint_from_bytes x)) vs" using c(3) by (simp add: list_ex_iff)
    with True e m [of r] c(1) show ?thesis by (simp add: compare_like_substring_def decides_def)
  next
    case False
    then have l: "list_ex (\<lambda>v. might_contain (fingerprint_from_bytes v) (fingerprint_from_bytes x)) vs" using c(3) by (simp add: list_ex_iff)
    have "distinct amb" "\<And>i. i \<in> set amb \<Longrightarrow> i < length vs" using c(1) by (auto simp: decides_def)
    then obtain v where v: "some_of amb = Some v" using readsD [OF assms(3)] by blast
    note a = candidates_answered [OF c(1), of like v x negated]
    have "compare_like_substring like some_of bv x negated fs
        = Option.bind (apply_like_match_on_candidates like r amb v x negated) (map_dictionary_results bv)"
      using False e v by (simp add: compare_like_substring_def)
    then show ?thesis using a(1) a(2) m l by (cases "apply_like_match_on_candidates like r amb v x negated") auto
  qed
qed

text \<open>Without a candidate a negated search answers like the plain one: no row matches.\<close>

lemma negated_without_candidates:
  assumes "view_core vs bv" and "slots_ok vs bv" and "bv_string_fingerprints bv = Some fs"
    and "\<not> list_ex (\<lambda>v. might_contain (fingerprint_from_bytes v) (fingerprint_from_bytes x)) vs"
  shows "\<exists>m. compare_like_substring like some_of bv x negated fs = Some m \<and> ba_items m = map (map_option (\<lambda>_. False)) (view_items vs bv)"
proof -
  have fs: "fs = map fingerprint_from_bytes vs" using assms(1,3) by (simp add: view_core_def)
  have "compute_fingerprint_candidates x fs = (replicate (length vs) False, [])"
    using assms(4) by (auto simp: fs compute_fingerprint_candidates_def Let_def list_ex_iff filter_empty_conv)
  then have "compare_like_substring like some_of bv x negated fs = map_dictionary_results bv (map (\<lambda>_. False) vs)"
    by (simp add: compare_like_substring_def map_replicate_const)
  with dictionary_answers [OF assms(1,2), of "\<lambda>_. False"] show ?thesis by simp
qed

end
