(* ===== verification/SampleViews.thy ===== *)
theory SampleViews
  imports ByteViewCorrect
begin

text \<open>
  Instances of the parameters of the byte-view arrays: a dictionary builder on lists, a compressor
  that stores its input, substring search on lists; and a concrete column of strings.
\<close>

section \<open>A dictionary builder\<close>

definition position :: "'a list \<Rightarrow> 'a \<Rightarrow> nat" where
  "position xs x = length (takeWhile (\<lambda>y. y \<noteq> x) xs)"

definition list_dict_builder :: "bytes option list \<Rightarrow> dict_array option" where
  "list_dict_builder rows =
     (let vs = remdups (List.map_filter id rows) in
      if length vs > 65536 then None
      else Some \<lparr>da_keys = array_of_items (map (map_option (\<lambda>v. of_nat (position vs v))) rows), da_values = vs\<rparr>)"

lemma position: "x \<in> set xs \<Longrightarrow> position xs x < length xs \<and> xs ! position xs x = x"
proof (induction xs)
  case (Cons y xs)
  then show ?case by (cases "y = x") (auto simp: position_def)
qed simp

lemma list_dict_builder_ok: "dict_builder_ok list_dict_builder"
  unfolding dict_builder_ok_def
proof (intro allI impI)
  fix rows d assume "list_dict_builder rows = Some d"
  define vs where "vs = remdups (List.map_filter id rows)"
  have d: "length vs \<le> 65536" "d = \<lparr>da_keys = array_of_items (map (map_option (\<lambda>v. of_nat (position vs v))) rows), da_values = vs\<rparr>"
    using \<open>list_dict_builder rows = Some d\<close> by (simp_all add: list_dict_builder_def Let_def vs_def split: if_splits)
  have p: "unat (of_nat (position vs v) :: u16) = position vs v \<and> position vs v < length vs \<and> vs ! position vs v = v" if "Some v \<in> set rows" for v
  proof -
    have "v \<in> set vs" using that by (force simp: vs_def map_filter_def)
    with position [of v vs] d(1) show ?thesis by (simp add: unat_of_nat)
  qed
  have "map_option (\<lambda>k. vs ! unat k) (map_option (\<lambda>v. of_nat (position vs v) :: u16) x) = x" if "x \<in> set rows" for x
  proof (cases x)
    case (Some v)
    with p [of v] that show ?thesis by (simp del: unat_of_nat)
  qed simp
  then have "dict_items d = rows" unfolding dict_items_def d(2) by (simp del: unat_of_nat add: map_idI)
  moreover have "unat k < length vs" if "Some k \<in> set (pa_items (da_keys d))" for k
  proof -
    have "Some k \<in> map_option (\<lambda>v. of_nat (position vs v)) ` set rows" using that by (simp add: d(2))
    then obtain x where "Some k = map_option (\<lambda>v. of_nat (position vs v)) x" "x \<in> set rows" by (rule imageE)
    then obtain v where "Some v \<in> set rows" "k = of_nat (position vs v)" by (cases x) auto
    with p show ?thesis by (simp del: unat_of_nat)
  qed
  moreover have "unat k < length vs" if "k \<in> set (pa_values (da_keys d))" "k \<noteq> 0" for k
    using that p by (auto simp: d(2) array_of_items_def split: option.splits)
  ultimately show "pa_wf (da_keys d) \<and> length (pa_values (da_keys d)) = length rows \<and> dict_items d = rows \<and> distinct (da_values d)
     \<and> length (da_values d) \<le> 65536 \<and> (\<forall>k. Some k \<in> set (pa_items (da_keys d)) \<longrightarrow> unat k < length (da_values d))
     \<and> (\<forall>k \<in> set (pa_values (da_keys d)). k \<noteq> 0 \<longrightarrow> unat k < length (da_values d))"
    using d(1) by (simp add: d(2) vs_def) (simp add: array_of_items_def)
qed

section \<open>A compressor and a substring search\<close>

definition stored :: "unit fsst" where
  "stored = \<lparr>fc_compress = (\<lambda>_ x. x), fc_decompress = (\<lambda>_ x. x)\<rparr>"

lemma stored_ok: "fsst_ok stored"
  by (simp add: fsst_ok_def stored_def)

definition plain_like :: like_kernel where
  "plain_like vs p = map (\<lambda>v. Some (sublist (drop 1 (take (length p - 1) p)) v)) vs"

lemma plain_like_ok: "like_ok plain_like"
  unfolding like_ok_def plain_like_def by simp

lemma plain_slots_kept: "slots_kept plain_kernels"
  unfolding slots_kept_def
proof (intro allI impI subsetI)
  fix a :: "u16 prim_array" and sel :: "bool list" and k :: u16
  assume "k \<in> set (pa_values (ak_filter plain_kernels a sel))"
  then obtain x where x: "x \<in> set (filter_items (pa_items a) sel)" "k = case_option 0 id x"
    by (auto simp: plain_kernels_def array_of_items_def)
  have "x \<in> set (pa_items a)" by (rule subsetD [OF set_filter_items x(1)])
  then have "x = None \<or> (\<exists>v \<in> set (pa_values a). x = Some v)" by (auto simp: pa_items_def)
  with x(2) show "k \<in> insert 0 (set (pa_values a))" by auto
qed

section \<open>A column of strings\<close>

text \<open>The rows \<open>abc\<close>, null, \<open>abcdefghijk\<close> and \<open>abc\<close> again.\<close>

definition sample_rows :: "bytes option list" where
  "sample_rows = [Some [97, 98, 99], None, Some [97, 98, 99, 100, 101, 102, 103, 104, 105, 106, 107], Some [97, 98, 99]]"

definition sample_dict :: dict_array where
  "sample_dict = \<lparr>da_keys = array_of_items [Some 1, None, Some 0, Some 1],
     da_values = [[97, 98, 99, 100, 101, 102, 103, 104, 105, 106, 107], [97, 98, 99]]\<rparr>"

lemma sample_dict_built: "list_dict_builder sample_rows = Some sample_dict"
  by (simp add: list_dict_builder_def sample_rows_def sample_dict_def map_filter_def position_def)

lemma sample_sizes: "sizes_ok stored () (da_values sample_dict)"
  by (simp add: sizes_ok_def stored_def sample_dict_def)

lemma sample_view:
  obtains bv where "from_byte_array_inner list_dict_builder stored False sample_rows () AB_Utf8 True = Some bv"
    and "from_dict_array_inner stored False sample_dict () AB_Utf8 True = Some bv"
  using view_new_total [of stored sample_dict "()" AB_Utf8 True] sample_dict_built by (auto simp: from_byte_array_inner_def)

lemma residual_bytes_le: "length (residual_bytes r) \<le> 4 * residuals_len r"
  by (cases r) (simp_all add: size_of_def)

lemma sample_view_fits:
  assumes "from_dict_array_inner stored False sample_dict () AB_Utf8 True = Some bv"
  shows "view_fits serial_lanes bv"
proof -
  have d: "dict_ok sample_dict" using list_dict_builder_ok sample_dict_built unfolding dict_builder_ok_def dict_ok_def by blast
  note v = view_new [OF assms d stored_ok sample_sizes]
  have k: "bv_dictionary_keys bv = array_of_items [Some 1, None, Some 0, Some 1]" using v(4) by (simp add: sample_dict_def)
  have pk: "length (fl_pack serial_lanes 16 ([1, 0, 0, 1] @ replicate 1020 0 :: u16 list)) = packed_words TYPE(16) 16"
    using serial_lanes_ok [where 'w = 16] unfolding fastlanes_ok_def by simp
  have fs: "fsst_slices False (bv_fsst_buffer bv) (da_values sample_dict)" using v(2) by (simp add: holds_values_def stored_def)
  then have "length (write_residuals (fa_compact_offsets (bv_fsst_buffer bv))) \<le> 9 + 4 * 3"
    using residual_bytes_le [of "co_residuals (fa_compact_offsets (bv_fsst_buffer bv))"]
    by (simp add: fsst_slices_def write_residuals_def compact_offsets_len_def sample_dict_def)
  moreover have "length (raw_to_bytes (fa_raw (bv_fsst_buffer bv))) = 26"
    using fs by (simp add: fsst_slices_def raw_to_bytes_def sample_dict_def)
  moreover have "length (bv_shared_prefix bv) \<le> 3"
    using shared_prefix_of_prefix [of "[97, 98, 99]" "da_values sample_dict"] unfolding v(7) by (auto simp: sample_dict_def dest: prefix_length_le)
  moreover have "length (bv_prefix_keys bv) = 2" using view_core_length [OF v(1)] by (simp add: sample_dict_def)
  moreover have "fits_u32 (from_primitive serial_lanes (bv_dictionary_keys bv) 16)"
    using pk by (simp add: k fits_u32_def from_primitive_def Let_def null_bytes_def size_of_def packed_words_def array_of_items_def pack_bits_def)
  moreover have "length (to_bytes (from_primitive serial_lanes (bv_dictionary_keys bv) 16)) < 2 ^ 32"
    using pk by (simp add: k to_bytes_def from_primitive_def Let_def null_bytes_def size_of_def packed_words_def array_of_items_def pack_bits_def align8_def)
  ultimately show ?thesis
    by (simp add: view_fits_def)
qed

end
