(* ===== verification/ParquetCache.thy ===== *)
theory ParquetCache
  imports LiquidCache RowSelections ParquetIds PhysicalExpr
begin

text \<open>
  The cache of the Parquet reader: files, row groups and columns over the cache store
  (\<^verbatim>\<open>src/parquet/src/cache/mod.rs\<close>, \<^verbatim>\<open>src/parquet/src/cache/column.rs\<close>), the squeeze hints of its
  I/O context (\<^verbatim>\<open>src/parquet/src/io/mod.rs\<close>), and the predicates it evaluates
  (\<^verbatim>\<open>src/parquet/src/reader/plantime/row_filter.rs\<close>,
  \<^verbatim>\<open>src/parquet/src/reader/runtime/liquid_predicate.rs\<close>). Arrow, DataFusion, the Parquet reader and
  the variant library are the record \<open>parquet_lib\<close>; metrics are left out. The operations pass the
  state of the store on; directories and files can be created. Checks that only a debug build
  makes are left out.
\<close>

section \<open>Expressions of a predicate\<close>

datatype bin_operator =
    BOp_Or | BOp_And | BOp_Eq | BOp_NotEq | BOp_LikeMatch | BOp_ILikeMatch | BOp_NotLikeMatch | BOp_NotILikeMatch
  | BOp_Lt | BOp_LtEq | BOp_Gt | BOp_GtEq | BOp_Other

datatype expr =
    EColumn string nat
  | ELiteral scalar_value
  | EBinary expr bin_operator expr
  | ELike expr expr
  | ECast expr
  | EOther string "expr list"

fun is_literal :: "expr \<Rightarrow> bool" where
  "is_literal (ELiteral _) = True"
| "is_literal _ = False"

fun extract_column_literal :: "expr \<Rightarrow> (string \<times> expr) option" where
  "extract_column_literal (EBinary left op right) =
     (if is_literal right then extract_column_literal left else None)"
| "extract_column_literal (ELike e pattern) =
     (if is_literal pattern then extract_column_literal e else None)"
| "extract_column_literal (ECast e) = extract_column_literal e"
| "extract_column_literal (EColumn name i) = Some (name, EColumn name i)"
| "extract_column_literal (ELiteral _) = None"
| "extract_column_literal (EOther _ _) = None"

text \<open>The flag says whether all leaves were column-literal expressions; what was collected until then stays.\<close>

fun collect_or_expressions :: "expr \<Rightarrow> (string \<times> expr) list \<Rightarrow> bool \<times> (string \<times> expr) list" where
  "collect_or_expressions (EBinary left BOp_Or right) result =
     (let (ok, result1) = collect_or_expressions left result
      in if ok then collect_or_expressions right result1 else (False, result1))"
| "collect_or_expressions e result =
     (case extract_column_literal e of
        Some column_literal \<Rightarrow> (True, result @ [column_literal])
      | None \<Rightarrow> (False, result))"

definition extract_multi_column_or :: "expr \<Rightarrow> (string \<times> expr) list option" where
  "extract_multi_column_or e =
     (let (ok, result) = collect_or_expressions e []
      in if ok \<and> length result \<ge> 2 then Some result else None)"

fun get_priority :: "expr \<Rightarrow> nat" where
  "get_priority (EBinary _ op _) =
     (case op of BOp_Eq \<Rightarrow> 0 | BOp_NotEq \<Rightarrow> 0 | BOp_LikeMatch \<Rightarrow> 1 | BOp_ILikeMatch \<Rightarrow> 1
      | BOp_NotLikeMatch \<Rightarrow> 2 | BOp_NotILikeMatch \<Rightarrow> 2 | BOp_Lt \<Rightarrow> 3 | BOp_LtEq \<Rightarrow> 3 | BOp_Gt \<Rightarrow> 3 | BOp_GtEq \<Rightarrow> 3
      | BOp_Or \<Rightarrow> 4 | BOp_And \<Rightarrow> 4 | BOp_Other \<Rightarrow> 4)"
| "get_priority (ELike _ _) = 1"
| "get_priority _ = 5"

section \<open>Fields, record batches, predicates\<close>

datatype arrow_type =
  DT_Date32 | DT_Timestamp | DT_Utf8 | DT_Utf8View | DT_LargeUtf8 | DT_Dictionary arrow_type arrow_type | DT_Other nat

record field =
  fld_name :: string
  fld_type :: arrow_type
  fld_metadata :: "string \<rightharpoonup> string"

record 'a record_batch =
  rb_schema :: "field list"
  rb_columns :: "'a list"
  rb_num_rows :: nat

text \<open>A projection mask: none for all leaves, or a flag per leaf.\<close>

type_synonym projection_mask = "bool list option"

record 'm liquid_predicate =
  lp_physical_expr :: expr
  lp_physical_expr_physical_column_index :: expr
  lp_projection_mask :: projection_mask
  lp_schema_mapper :: 'm

record ('a, 'm) parquet_lib =
  variant_mappings_from_field :: "field \<Rightarrow> (string \<times> arrow_type option) list option"
  is_variant_type :: "field \<Rightarrow> bool"
  shred_variant_array :: "'a \<Rightarrow> field \<Rightarrow> (string \<times> arrow_type) list \<Rightarrow> 'a option"
  column_fits :: "field \<Rightarrow> 'a \<Rightarrow> bool"
  map_batch :: "'m \<Rightarrow> 'a record_batch \<Rightarrow> string + 'a record_batch"
  expr_evaluate :: "expr \<Rightarrow> 'a record_batch \<Rightarrow> string + bool option list"
  or_kleene :: "bool option list \<Rightarrow> bool option list \<Rightarrow> bool option list option"
  prep_null_mask_filter :: "bool option list \<Rightarrow> bool option list"
  answer_buffer :: "bool option list \<Rightarrow> boolean_buffer"
  leaf_included :: "projection_mask \<Rightarrow> nat \<Rightarrow> bool"
  mask_union :: "projection_mask \<Rightarrow> projection_mask \<Rightarrow> projection_mask"
  row_selection_from :: "row_selector list \<Rightarrow> row_selector list"
  split_off :: "nat \<Rightarrow> row_selector list \<Rightarrow> row_selector list \<times> row_selector list"
  parquet_stream :: "nat \<Rightarrow> projection_mask \<Rightarrow> row_selector list \<Rightarrow> nat \<Rightarrow> string + (string + 'a record_batch) list"

text \<open>\<open>get_predicate_column_id\<close>: the set positions of the mask, none where the mask is absent.\<close>

definition get_predicate_column_id :: "projection_mask \<Rightarrow> nat list" where
  "get_predicate_column_id projection = (case projection of Some m \<Rightarrow> true_positions 0 m | None \<Rightarrow> [])"

definition predicate_column_ids :: "'m liquid_predicate \<Rightarrow> nat list" where
  "predicate_column_ids p = get_predicate_column_id (lp_projection_mask p)"

definition predicate_evaluate ::
  "('a, 'm) parquet_lib \<Rightarrow> 'm liquid_predicate \<Rightarrow> 'a record_batch \<Rightarrow> string + bool option list" where
  "predicate_evaluate P p batch =
     (case map_batch P (lp_schema_mapper p) batch of
        Inl e \<Rightarrow> Inl e
      | Inr mapped \<Rightarrow> expr_evaluate P (lp_physical_expr p) mapped)"

text \<open>\<open>RecordBatch::try_new\<close>: as many columns as fields, each of its type, and all of one length.\<close>

definition record_batch_try_new ::
  "('a, 'l, 's, arrow_type, 'c, expr) arrays \<Rightarrow> ('a, 'm) parquet_lib \<Rightarrow> field list \<Rightarrow> 'a list \<Rightarrow> 'a record_batch option" where
  "record_batch_try_new A P schema columns =
     (case columns of
        [] \<Rightarrow> None
      | first # _ \<Rightarrow>
          if length schema = length columns \<and> list_all2 (column_fits P) schema columns
            \<and> list_all (\<lambda>c. arrow_len A c = arrow_len A first) columns
          then Some \<lparr>rb_schema = schema, rb_columns = columns, rb_num_rows = arrow_len A first\<rparr> else None)"

section \<open>Squeeze hints\<close>

definition COLUMN_EXPRESSION_HISTORY :: nat where
  "COLUMN_EXPRESSION_HISTORY = 16"

definition tracker_record :: "'t cache_expression \<Rightarrow> 't cache_expression list \<Rightarrow> 't cache_expression list" where
  "tracker_record expression history =
     (if length history = COLUMN_EXPRESSION_HISTORY then tl history else history) @ [expression]"

text \<open>How often each expression occurs and where it occurs last.\<close>

fun count_expressions :: "nat \<Rightarrow> 'x list \<Rightarrow> ('x \<times> nat \<times> nat) list \<Rightarrow> ('x \<times> nat \<times> nat) list" where
  "count_expressions idx [] counts = counts"
| "count_expressions idx (e # history) counts =
     count_expressions (Suc idx) history
       (case map_of counts e of
          Some (n, last_idx) \<Rightarrow> map (\<lambda>(x, v). if x = e then (x, n + 1, idx) else (x, v)) counts
        | None \<Rightarrow> (e, 1, idx) # counts)"

text \<open>\<open>max_by\<close>: the last of the greatest elements.\<close>

fun max_count :: "('x \<times> nat \<times> nat) list \<Rightarrow> ('x \<times> nat \<times> nat) option" where
  "max_count [] = None"
| "max_count ((x, n, i) # cs) =
     (case max_count cs of
        None \<Rightarrow> Some (x, n, i)
      | Some (y, m, j) \<Rightarrow> if n < m \<or> (n = m \<and> i \<le> j) then Some (y, m, j) else Some (x, n, i))"

definition tracker_majority :: "'t cache_expression list \<Rightarrow> 't cache_expression option" where
  "tracker_majority history = map_option fst (max_count (count_expressions 0 history []))"

section \<open>The cache for Parquet files\<close>

record cached_column =
  cc_field :: field
  cc_path :: column_access_path
  cc_expression :: "arrow_type cache_expression option"

record cached_row_group =
  crg_by_id :: "u64 \<rightharpoonup> cached_column"
  crg_by_name :: "string \<rightharpoonup> cached_column"

record cached_file =
  cf_file_id :: u64
  cf_schema :: "field list"

record ('a, 'l, 's, 'c, 'p) liquid_cache_parquet =
  lcp_files :: "string \<rightharpoonup> u64"
  lcp_store :: "('a, 'l, 's, arrow_type, 'c, 'p) cache"
  lcp_current_file_id :: u64
  lcp_expression_hints :: "column_access_path \<rightharpoonup> arrow_type cache_expression list"
  lcp_batch_size :: nat

text \<open>What a run of the reader is given: the store's environment, fuel for its inserts, the
  libraries, Arrow's bit operations, and whether the CPU has the instruction for masks.\<close>

record ('a, 'l, 's, 'c, 'p, 'm, 'b) runtime =
  rt_env :: "('a, 'l, 's, arrow_type, 'c, expr, 'p) env"
  rt_fuel :: "('a, 'l, 's, arrow_type, 'c, 'p) cache \<Rightarrow> nat"
  rt_lib :: "('a, 'm) parquet_lib"
  rt_builder :: "'b bool_builder"
  rt_bits :: bit_ops
  rt_bmi2 :: bool
  rt_left_memory :: "nat \<Rightarrow> u8"
  rt_right_memory :: "nat \<Rightarrow> u8"

fun is_power_of_two :: "nat \<Rightarrow> bool" where
  "is_power_of_two n = (if n \<le> 1 then n = 1 else if odd n then False else is_power_of_two (n div 2))"

declare is_power_of_two.simps [simp del]

definition parquet_cache_new :: "nat \<Rightarrow> usize \<Rightarrow> 'p \<Rightarrow> 'c \<Rightarrow> ('a, 'l, 's, 'c, 'p) liquid_cache_parquet option" where
  "parquet_cache_new batch_size max_cache_bytes p c =
     (if is_power_of_two batch_size then
        Some \<lparr>lcp_files = Map.empty, lcp_store = cache_new max_cache_bytes p c, lcp_current_file_id = 0,
          lcp_expression_hints = Map.empty, lcp_batch_size = batch_size\<rparr>
      else None)"

definition register_or_get_file ::
  "string \<Rightarrow> field list \<Rightarrow> ('a, 'l, 's, 'c, 'p) liquid_cache_parquet \<Rightarrow>
   cached_file \<times> ('a, 'l, 's, 'c, 'p) liquid_cache_parquet" where
  "register_or_get_file file_path full_file_schema ps =
     (case lcp_files ps file_path of
        Some f \<Rightarrow> (\<lparr>cf_file_id = f, cf_schema = full_file_schema\<rparr>, ps)
      | None \<Rightarrow>
          (\<lparr>cf_file_id = lcp_current_file_id ps, cf_schema = full_file_schema\<rparr>,
           ps\<lparr>lcp_files := (lcp_files ps)(file_path \<mapsto> lcp_current_file_id ps),
              lcp_current_file_id := lcp_current_file_id ps + 1\<rparr>))"

definition parquet_reset :: "('a, 'l, 's, 'c, 'p) liquid_cache_parquet \<Rightarrow> ('a, 'l, 's, 'c, 'p) liquid_cache_parquet" where
  "parquet_reset ps = ps\<lparr>lcp_files := Map.empty, lcp_store := cache_reset (lcp_store ps)\<rparr>"

text \<open>
  \<open>ParquetIoContext::add_squeeze_hint\<close>: the history of the entry's column grows; the store asks for
  the majority of that history for every entry of the column, \<open>ParquetIoContext::squeeze_hint\<close>.
\<close>

definition column_of_entry :: "entry_id \<Rightarrow> column_access_path" where
  "column_of_entry i = cap_of_parquet_id (parquet_id_of_entry i)"

definition parquet_squeeze_hint ::
  "(column_access_path \<rightharpoonup> arrow_type cache_expression list) \<Rightarrow> entry_id \<Rightarrow> arrow_type cache_expression option" where
  "parquet_squeeze_hint hints i = Option.bind (hints (column_of_entry i)) tracker_majority"

definition parquet_add_squeeze_hint ::
  "entry_id \<Rightarrow> arrow_type cache_expression \<Rightarrow> ('a, 'l, 's, 'c, 'p) liquid_cache_parquet \<Rightarrow>
   ('a, 'l, 's, 'c, 'p) liquid_cache_parquet" where
  "parquet_add_squeeze_hint i expression ps =
     (let column_path = column_of_entry i;
          history = (case lcp_expression_hints ps column_path of Some h \<Rightarrow> h | None \<Rightarrow> []);
          hints = (lcp_expression_hints ps)(column_path \<mapsto> tracker_record expression history)
      in ps\<lparr>lcp_expression_hints := hints,
            lcp_store := (lcp_store ps)\<lparr>c_hints := parquet_squeeze_hint hints\<rparr>\<rparr>)"

section \<open>Columns\<close>

fun is_string_type :: "arrow_type \<Rightarrow> bool" where
  "is_string_type DT_Utf8 = True"
| "is_string_type DT_Utf8View = True"
| "is_string_type DT_LargeUtf8 = True"
| "is_string_type (DT_Dictionary _ value_type) = is_string_type value_type"
| "is_string_type DT_Date32 = False"
| "is_string_type DT_Timestamp = False"
| "is_string_type (DT_Other _) = False"

definition to_ascii_uppercase :: "string \<Rightarrow> string" where
  "to_ascii_uppercase = map (\<lambda>c. if 97 \<le> (of_char c :: nat) \<and> (of_char c :: nat) \<le> 122 then char_of ((of_char c :: nat) - 32) else c)"

definition try_from_date_part_str :: "string \<Rightarrow> 't cache_expression option" where
  "try_from_date_part_str v =
     (let upper = to_ascii_uppercase v in
      if upper = ''YEAR'' then Some (ExtractDate32 Year)
      else if upper = ''MONTH'' then Some (ExtractDate32 Month)
      else if upper = ''DAY'' then Some (ExtractDate32 Day)
      else if upper = ''DOW'' \<or> upper = ''DAYOFWEEK'' \<or> upper = ''DAY_OF_WEEK'' then Some (ExtractDate32 DayOfWeek)
      else None)"

definition DATE_MAPPING_METADATA_KEY :: string where
  "DATE_MAPPING_METADATA_KEY = ''liquid.cache.date_mapping''"

definition STRING_FINGERPRINT_METADATA_KEY :: string where
  "STRING_FINGERPRINT_METADATA_KEY = ''liquid.cache.string_fingerprint''"

text \<open>The paths that the field's metadata asks for with a type.\<close>

definition typed_specs :: "(string \<times> arrow_type option) list \<Rightarrow> (string \<times> arrow_type) list" where
  "typed_specs mappings = List.map_filter (\<lambda>(path, t). map_option (Pair path) t) mappings"

definition infer_expression :: "('a, 'm) parquet_lib \<Rightarrow> field \<Rightarrow> arrow_type cache_expression option" where
  "infer_expression P f =
     (case (case fld_metadata f DATE_MAPPING_METADATA_KEY of
              Some mapping \<Rightarrow> if fld_type f = DT_Date32 \<or> fld_type f = DT_Timestamp then try_from_date_part_str mapping else None
            | None \<Rightarrow> None) of
        Some e \<Rightarrow> Some e
      | None \<Rightarrow>
          if fld_metadata f STRING_FINGERPRINT_METADATA_KEY \<noteq> None \<and> is_string_type (fld_type f) then Some SubstringSearch
          else if is_variant_type P f then
            (case variant_mappings_from_field P f of
               Some mappings \<Rightarrow>
                 if typed_specs mappings \<noteq> []
                 then Some (VariantGet (map (\<lambda>(path, t). \<lparr>vr_path = path, vr_type = t\<rparr>) (typed_specs mappings)))
                 else None
             | None \<Rightarrow> None)
          else None)"

definition maybe_shred_variant_array :: "('a, 'm) parquet_lib \<Rightarrow> 'a \<Rightarrow> field \<Rightarrow> 'a option" where
  "maybe_shred_variant_array P a f =
     (case variant_mappings_from_field P f of
        None \<Rightarrow> None
      | Some mappings \<Rightarrow> if typed_specs mappings = [] then None else shred_variant_array P a f (typed_specs mappings))"

definition cached_column_new ::
  "('a, 'm) parquet_lib \<Rightarrow> field \<Rightarrow> column_access_path \<Rightarrow> bool \<Rightarrow> ('a, 'l, 's, 'c, 'p) liquid_cache_parquet \<Rightarrow>
   cached_column \<times> ('a, 'l, 's, 'c, 'p) liquid_cache_parquet" where
  "cached_column_new P f column_access_path is_predicate_column ps =
     (let expression = infer_expression P f;
          hint_entry_id = entry_of_parquet_id (cap_entry_id column_access_path (batch_id_from_raw 0));
          ps1 = (case expression of
                   Some e \<Rightarrow> parquet_add_squeeze_hint hint_entry_id e ps
                 | None \<Rightarrow>
                     if is_predicate_column then parquet_add_squeeze_hint hint_entry_id PredicateColumn ps else ps)
      in (\<lparr>cc_field = f, cc_path = column_access_path, cc_expression = expression\<rparr>, ps1))"

definition column_entry :: "cached_column \<Rightarrow> batch_id \<Rightarrow> entry_id" where
  "column_entry column b = entry_of_parquet_id (cap_entry_id (cc_path column) b)"

definition column_is_cached :: "cached_column \<Rightarrow> batch_id \<Rightarrow> ('a, 'l, 's, 'c, 'p) liquid_cache_parquet \<Rightarrow> bool" where
  "column_is_cached column b ps = is_cached (column_entry column b) (lcp_store ps)"

text \<open>A call of the store, with its fuel, inside the state of the Parquet cache.\<close>

definition on_store ::
  "('a, 'l, 's, 'c, 'p, 'm, 'b) runtime \<Rightarrow>
   (('a, 'l, 's, arrow_type, 'c, expr, 'p) env \<Rightarrow> nat \<Rightarrow> ('a, 'l, 's, arrow_type, 'c, 'p) cache \<Rightarrow>
     ('r \<times> ('a, 'l, 's, arrow_type, 'c, 'p) cache) outcome) \<Rightarrow>
   ('a, 'l, 's, 'c, 'p) liquid_cache_parquet \<Rightarrow> ('r \<times> ('a, 'l, 's, 'c, 'p) liquid_cache_parquet) outcome" where
  "on_store R f ps =
     obind (f (rt_env R) (rt_fuel R (lcp_store ps)) (lcp_store ps)) (\<lambda>(r, st). Ok (r, ps\<lparr>lcp_store := st\<rparr>))"

definition without_nulls :: "('a, 'm) parquet_lib \<Rightarrow> bool option list \<Rightarrow> bool option list" where
  "without_nulls P boolean_array = (if count_list boolean_array None = 0 then boolean_array else prep_null_mask_filter P boolean_array)"

text \<open>The array after shredding, as both reads and inserts use it.\<close>

definition shredded :: "('a, 'm) parquet_lib \<Rightarrow> field \<Rightarrow> 'a \<Rightarrow> 'a" where
  "shredded P f a = (case maybe_shred_variant_array P a f of Some transformed \<Rightarrow> transformed | None \<Rightarrow> a)"

definition eval_predicate_with_filter ::
  "('a, 'l, 's, 'c, 'p, 'm, 'b) runtime \<Rightarrow> cached_column \<Rightarrow> batch_id \<Rightarrow> boolean_buffer \<Rightarrow> 'm liquid_predicate \<Rightarrow>
   ('a, 'l, 's, 'c, 'p) liquid_cache_parquet \<Rightarrow>
   ((string + bool option list) option \<times> ('a, 'l, 's, 'c, 'p) liquid_cache_parquet) outcome" where
  "eval_predicate_with_filter R column b filt predicate ps =
     obind (on_store R (\<lambda>E n. eval_predicate_internal E n (column_entry column b) (Some (bb_bits filt))
         (lp_physical_expr_physical_column_index predicate)) ps) (\<lambda>(result, ps1).
       case result of
         None \<Rightarrow> Ok (None, ps1)
       | Some (Inr boolean_array) \<Rightarrow> Ok (Some (Inr (without_nulls (rt_lib R) boolean_array)), ps1)
       | Some (Inl a) \<Rightarrow>
           obind (expect (record_batch_try_new (arr (rt_env R)) (rt_lib R) [cc_field column]
               [shredded (rt_lib R) (cc_field column) a])) (\<lambda>record_batch.
             case predicate_evaluate (rt_lib R) predicate record_batch of
               Inl err \<Rightarrow> Ok (Some (Inl err), ps1)
             | Inr boolean_array \<Rightarrow> Ok (Some (Inr (without_nulls (rt_lib R) boolean_array)), ps1)))"

definition get_arrow_array_with_filter ::
  "('a, 'l, 's, 'c, 'p, 'm, 'b) runtime \<Rightarrow> cached_column \<Rightarrow> batch_id \<Rightarrow> boolean_buffer \<Rightarrow>
   ('a, 'l, 's, 'c, 'p) liquid_cache_parquet \<Rightarrow> ('a option \<times> ('a, 'l, 's, 'c, 'p) liquid_cache_parquet) outcome" where
  "get_arrow_array_with_filter R column b filt ps =
     obind (on_store R (\<lambda>E n. read_arrow_array E n (column_entry column b) (Some (bb_bits filt)) (cc_expression column)) ps)
       (\<lambda>(a, ps1). Ok (map_option (shredded (rt_lib R) (cc_field column)) a, ps1))"

datatype insert_arrow_array_error = AlreadyCached

definition column_insert ::
  "('a, 'l, 's, 'c, 'p, 'm, 'b) runtime \<Rightarrow> cached_column \<Rightarrow> batch_id \<Rightarrow> 'a \<Rightarrow> ('a, 'l, 's, 'c, 'p) liquid_cache_parquet \<Rightarrow>
   ((insert_arrow_array_error + unit) \<times> ('a, 'l, 's, 'c, 'p) liquid_cache_parquet) outcome" where
  "column_insert R column b a ps =
     (if column_is_cached column b ps then Ok (Inl AlreadyCached, ps)
      else on_store R (\<lambda>E n st. obind (insert_run E n False None (column_entry column b)
             (shredded (rt_lib R) (cc_field column) a) st) (\<lambda>st1. Ok (Inr (), st1))) ps)"

section \<open>Row groups\<close>

fun add_columns ::
  "('a, 'm) parquet_lib \<Rightarrow> u64 \<Rightarrow> u64 \<Rightarrow> (u64 \<times> field \<times> bool) list \<Rightarrow>
   cached_row_group \<times> ('a, 'l, 's, 'c, 'p) liquid_cache_parquet \<Rightarrow>
   cached_row_group \<times> ('a, 'l, 's, 'c, 'p) liquid_cache_parquet" where
  "add_columns P f r [] acc = acc"
| "add_columns P f r ((column_id, fld, is_predicate_column) # columns) (rg, ps) =
     (let (column, ps1) = cached_column_new P fld (column_access_path_new f r column_id) is_predicate_column ps
      in add_columns P f r columns
           (\<lparr>crg_by_id = (crg_by_id rg)(column_id \<mapsto> column),
             crg_by_name = (crg_by_name rg)(fld_name fld \<mapsto> column)\<rparr>, ps1))"

definition create_row_group ::
  "('a, 'm) parquet_lib \<Rightarrow> cached_file \<Rightarrow> u64 \<Rightarrow> nat list \<Rightarrow> ('a, 'l, 's, 'c, 'p) liquid_cache_parquet \<Rightarrow>
   cached_row_group \<times> ('a, 'l, 's, 'c, 'p) liquid_cache_parquet" where
  "create_row_group P cf row_group_id predicate_ids ps =
     add_columns P (cf_file_id cf) row_group_id
       (map (\<lambda>(idx, f). (of_nat idx, f, idx \<in> set predicate_ids)) (enumerate 0 (cf_schema cf)))
       (\<lparr>crg_by_id = Map.empty, crg_by_name = Map.empty\<rparr>, ps)"

definition get_column :: "cached_row_group \<Rightarrow> nat \<Rightarrow> cached_column option" where
  "get_column rg column_id = crg_by_id rg (of_nat column_id)"

definition get_column_by_name :: "cached_row_group \<Rightarrow> string \<Rightarrow> cached_column option" where
  "get_column_by_name rg column_name = crg_by_name rg column_name"

text \<open>
  The loop over the column expressions of an \<open>OR\<close>: \<open>None\<close> where the \<open>?\<close> operator leaves the
  function, otherwise the combined answers, if any.
\<close>

fun or_loop ::
  "('a, 'l, 's, 'c, 'p, 'm, 'b) runtime \<Rightarrow> cached_row_group \<Rightarrow> batch_id \<Rightarrow> boolean_buffer \<Rightarrow> (string \<times> expr) list \<Rightarrow>
   bool option list option \<Rightarrow> ('a, 'l, 's, 'c, 'p) liquid_cache_parquet \<Rightarrow>
   (bool option list option option \<times> ('a, 'l, 's, 'c, 'p) liquid_cache_parquet) outcome" where
  "or_loop R rg b selection [] combined_buffer ps = Ok (Some combined_buffer, ps)"
| "or_loop R rg b selection ((col_name, e) # column_exprs) combined_buffer ps =
     (case get_column_by_name rg col_name of
        None \<Rightarrow> Ok (None, ps)
      | Some column \<Rightarrow>
          obind (on_store R (\<lambda>E n. try_read_liquid E n (column_entry column b)) ps) (\<lambda>(liquid_array, ps1).
            case liquid_array of
              None \<Rightarrow> Ok (Some None, ps1)
            | Some l \<Rightarrow>
                (case liquid_try_eval (arr (rt_env R)) l e (bb_bits selection) of
                   None \<Rightarrow> Ok (Some None, ps1)
                 | Some buffer \<Rightarrow>
                     (case (case combined_buffer of None \<Rightarrow> Some buffer | Some existing \<Rightarrow> or_kleene (rt_lib R) existing buffer) of
                        None \<Rightarrow> Ok (None, ps1)
                      | Some combined \<Rightarrow> or_loop R rg b selection column_exprs (Some combined) ps1))))"

fun read_columns ::
  "('a, 'l, 's, 'c, 'p, 'm, 'b) runtime \<Rightarrow> cached_row_group \<Rightarrow> batch_id \<Rightarrow> boolean_buffer \<Rightarrow> nat list \<Rightarrow>
   ('a, 'l, 's, 'c, 'p) liquid_cache_parquet \<Rightarrow>
   ((field \<times> 'a) list option \<times> ('a, 'l, 's, 'c, 'p) liquid_cache_parquet) outcome" where
  "read_columns R rg b selection [] ps = Ok (Some [], ps)"
| "read_columns R rg b selection (column_id # column_ids) ps =
     (case get_column rg column_id of
        None \<Rightarrow> Ok (None, ps)
      | Some column \<Rightarrow>
          obind (get_arrow_array_with_filter R column b selection ps) (\<lambda>(a, ps1).
            case a of
              None \<Rightarrow> Ok (None, ps1)
            | Some x \<Rightarrow>
                obind (read_columns R rg b selection column_ids ps1) (\<lambda>(rest, ps2).
                  Ok (map_option ((#) (cc_field column, x)) rest, ps2))))"

text \<open>The general case: the columns as Arrow arrays, and the predicate on them.\<close>

definition evaluate_on_arrays ::
  "('a, 'l, 's, 'c, 'p, 'm, 'b) runtime \<Rightarrow> cached_row_group \<Rightarrow> batch_id \<Rightarrow> boolean_buffer \<Rightarrow> 'm liquid_predicate \<Rightarrow>
   ('a, 'l, 's, 'c, 'p) liquid_cache_parquet \<Rightarrow>
   ((string + bool option list) option \<times> ('a, 'l, 's, 'c, 'p) liquid_cache_parquet) outcome" where
  "evaluate_on_arrays R rg b selection predicate ps =
     obind (read_columns R rg b selection (predicate_column_ids predicate) ps) (\<lambda>(columns, ps1).
       case columns of
         None \<Rightarrow> Ok (None, ps1)
       | Some cs \<Rightarrow>
           obind (expect (record_batch_try_new (arr (rt_env R)) (rt_lib R) (map fst cs) (map snd cs))) (\<lambda>record_batch.
             case predicate_evaluate (rt_lib R) predicate record_batch of
               Inl err \<Rightarrow> Panic
             | Inr boolean_array \<Rightarrow> Ok (Some (Inr boolean_array), ps1)))"

definition evaluate_selection_with_predicate ::
  "('a, 'l, 's, 'c, 'p, 'm, 'b) runtime \<Rightarrow> cached_row_group \<Rightarrow> batch_id \<Rightarrow> boolean_buffer \<Rightarrow> 'm liquid_predicate \<Rightarrow>
   ('a, 'l, 's, 'c, 'p) liquid_cache_parquet \<Rightarrow>
   ((string + bool option list) option \<times> ('a, 'l, 's, 'c, 'p) liquid_cache_parquet) outcome" where
  "evaluate_selection_with_predicate R rg b selection predicate ps =
     (case predicate_column_ids predicate of
        [column_id] \<Rightarrow>
          (case get_column rg column_id of
             None \<Rightarrow> Ok (None, ps)
           | Some column \<Rightarrow> eval_predicate_with_filter R column b selection predicate ps)
      | column_ids \<Rightarrow>
          (case (if length column_ids \<ge> 2 then extract_multi_column_or (lp_physical_expr_physical_column_index predicate) else None) of
             Some column_exprs \<Rightarrow>
               obind (or_loop R rg b selection column_exprs None ps) (\<lambda>(result, ps1).
                 case result of
                   None \<Rightarrow> Ok (None, ps1)
                 | Some (Some answers) \<Rightarrow> Ok (Some (Inr answers), ps1)
                 | Some None \<Rightarrow> evaluate_on_arrays R rg b selection predicate ps1)
           | None \<Rightarrow> evaluate_on_arrays R rg b selection predicate ps))"

end
