(* ===== verification/ParquetReader.thy ===== *)
theory ParquetReader
  imports ParquetCache
begin

text \<open>
  The reader of a Parquet file through the cache: \<open>LiquidCacheReader\<close>
  (\<^verbatim>\<open>src/parquet/src/reader/runtime/liquid_cache_reader.rs\<close>) reads the selected rows of one row group
  batch by batch, and \<open>LiquidStream\<close> (\<^verbatim>\<open>src/parquet/src/reader/runtime/liquid_stream.rs\<close>) goes from row
  group to row group: it plans which batches are missing in the cache, fills them from the file and
  reads. Both are state machines polled by their consumer. A future that is not ready leaves the
  state as it was and is polled again, so a poll here runs the future to its end; the loop of a poll
  takes fuel. A panic of the code is \<open>Panic\<close>, an error a value.
\<close>

section \<open>Reading a row group\<close>

datatype reader_error =
    ColumnNotPresent nat
  | BatchNotCached nat nat
  | PredicateError string

record reader_inner =
  ri_cached_row_group :: cached_row_group
  ri_current_batch_id :: batch_id
  ri_selection :: "row_selector list"
  ri_schema :: "field list"
  ri_batch_size :: nat
  ri_projection_columns :: "nat list"

type_synonym 'm row_filter = "'m liquid_predicate list"

datatype 'm reader_state =
    Ready reader_inner
  | Processing reader_inner "'m row_filter option" "row_selector list"
  | Finished

datatype 'a process_result = Emit "reader_error + 'a record_batch" | Skip

record 'm cache_reader =
  rd_state :: "'m reader_state"
  rd_row_filter :: "'m row_filter option"

definition cache_reader_new ::
  "nat \<Rightarrow> row_selector list \<Rightarrow> 'm row_filter option \<Rightarrow> cached_row_group \<Rightarrow> nat list \<Rightarrow> field list \<Rightarrow> 'm cache_reader" where
  "cache_reader_new batch_size selection filt rg projection_columns schema =
     \<lparr>rd_state = Ready \<lparr>ri_cached_row_group = rg, ri_current_batch_id = batch_id_from_raw 0, ri_selection = selection,
        ri_schema = schema, ri_batch_size = batch_size, ri_projection_columns = projection_columns\<rparr>,
      rd_row_filter = filt\<rparr>"

fun apply_predicates ::
  "('a, 'l, 's, 'c, 'p, 'm, 'b) runtime \<Rightarrow> cached_row_group \<Rightarrow> batch_id \<Rightarrow> 'm row_filter \<Rightarrow> boolean_buffer \<Rightarrow>
   ('a, 'l, 's, 'c, 'p) liquid_cache_parquet \<Rightarrow>
   ((reader_error + boolean_buffer) \<times> ('a, 'l, 's, 'c, 'p) liquid_cache_parquet) outcome" where
  "apply_predicates R rg b [] input_selection ps = Ok (Inr input_selection, ps)"
| "apply_predicates R rg b (predicate # predicates) input_selection ps =
     (if count_list (bb_bits input_selection) True = 0 then Ok (Inr input_selection, ps)
      else
        obind (evaluate_selection_with_predicate R rg b input_selection predicate ps) (\<lambda>(answer, ps1).
          case answer of
            None \<Rightarrow> Panic
          | Some (Inl e) \<Rightarrow> Ok (Inl (PredicateError e), ps1)
          | Some (Inr boolean_array) \<Rightarrow>
              (let boolean_mask = answer_buffer (rt_lib R) (without_nulls (rt_lib R) boolean_array) in
               obind (expect (boolean_buffer_and_then (rt_bits R) (rt_bmi2 R) (rt_left_memory R) (rt_right_memory R)
                   input_selection boolean_mask)) (\<lambda>narrowed.
                 apply_predicates R rg b predicates narrowed ps1))))"

definition build_predicate_filter ::
  "('a, 'l, 's, 'c, 'p, 'm, 'b) runtime \<Rightarrow> reader_inner \<Rightarrow> 'm row_filter option \<Rightarrow> row_selector list \<Rightarrow>
   ('a, 'l, 's, 'c, 'p) liquid_cache_parquet \<Rightarrow>
   ((reader_error + boolean_buffer) \<times> ('a, 'l, 's, 'c, 'p) liquid_cache_parquet) outcome" where
  "build_predicate_filter R inner row_filt selection ps =
     (let input_selection = row_selector_to_boolean_buffer (rt_builder R) selection in
      case row_filt of
        None \<Rightarrow> Ok (Inr input_selection, ps)
      | Some predicates \<Rightarrow>
          apply_predicates R (ri_cached_row_group inner) (ri_current_batch_id inner) predicates input_selection ps)"

fun read_projection ::
  "('a, 'l, 's, 'c, 'p, 'm, 'b) runtime \<Rightarrow> cached_row_group \<Rightarrow> batch_id \<Rightarrow> boolean_buffer \<Rightarrow> nat list \<Rightarrow>
   ('a, 'l, 's, 'c, 'p) liquid_cache_parquet \<Rightarrow>
   ((reader_error + 'a list) \<times> ('a, 'l, 's, 'c, 'p) liquid_cache_parquet) outcome" where
  "read_projection R rg b selection [] ps = Ok (Inr [], ps)"
| "read_projection R rg b selection (column_idx # column_idxs) ps =
     (case get_column rg column_idx of
        None \<Rightarrow> Ok (Inl (ColumnNotPresent column_idx), ps)
      | Some column \<Rightarrow>
          obind (get_arrow_array_with_filter R column b selection ps) (\<lambda>(a, ps1).
            case a of
              None \<Rightarrow> Ok (Inl (BatchNotCached column_idx (unat (batch_v b))), ps1)
            | Some x \<Rightarrow>
                obind (read_projection R rg b selection column_idxs ps1) (\<lambda>(rest, ps2).
                  Ok (map_sum id ((#) x) rest, ps2))))"

definition read_from_cache ::
  "('a, 'l, 's, 'c, 'p, 'm, 'b) runtime \<Rightarrow> reader_inner \<Rightarrow> boolean_buffer \<Rightarrow> ('a, 'l, 's, 'c, 'p) liquid_cache_parquet \<Rightarrow>
   ((reader_error + 'a record_batch option) \<times> ('a, 'l, 's, 'c, 'p) liquid_cache_parquet) outcome" where
  "read_from_cache R inner selection ps =
     (let selected_rows = count_list (bb_bits selection) True in
      if selected_rows = 0 then Ok (Inr None, ps)
      else if ri_projection_columns inner = [] then
        (if ri_schema inner = [] then Ok (Inr (Some \<lparr>rb_schema = [], rb_columns = [], rb_num_rows = selected_rows\<rparr>), ps) else Panic)
      else
        obind (read_projection R (ri_cached_row_group inner) (ri_current_batch_id inner) selection (ri_projection_columns inner) ps)
          (\<lambda>(r, ps1).
            case r of
              Inl e \<Rightarrow> Ok (Inl e, ps1)
            | Inr columns \<Rightarrow>
                obind (expect (record_batch_try_new (arr (rt_env R)) (rt_lib R) (ri_schema inner) columns)) (\<lambda>batch.
                  Ok (Inr (Some batch), ps1))))"

definition next_batch ::
  "('a, 'l, 's, 'c, 'p, 'm, 'b) runtime \<Rightarrow> reader_inner \<Rightarrow> 'm row_filter option \<Rightarrow> row_selector list \<Rightarrow>
   ('a, 'l, 's, 'c, 'p) liquid_cache_parquet \<Rightarrow>
   ((reader_inner \<times> 'm row_filter option \<times> 'a process_result) \<times> ('a, 'l, 's, 'c, 'p) liquid_cache_parquet) outcome" where
  "next_batch R inner row_filt selection ps =
     obind (build_predicate_filter R inner row_filt selection ps) (\<lambda>(r, ps1).
       case r of
         Inl e \<Rightarrow> Ok ((inner, row_filt, Emit (Inl e)), ps1)
       | Inr narrowed \<Rightarrow>
           obind (read_from_cache R inner narrowed ps1) (\<lambda>(q, ps2).
             let advanced = inner\<lparr>ri_current_batch_id := batch_id_inc (ri_current_batch_id inner)\<rparr> in
             case q of
               Inr (Some batch) \<Rightarrow> Ok ((advanced, row_filt, Emit (Inr batch)), ps2)
             | Inr None \<Rightarrow> Ok ((advanced, row_filt, Skip), ps2)
             | Inl e \<Rightarrow> Ok ((inner, row_filt, Emit (Inl e)), ps2)))"

fun reader_poll_next ::
  "('a, 'l, 's, 'c, 'p, 'm, 'b) runtime \<Rightarrow> nat \<Rightarrow> 'm cache_reader \<Rightarrow> ('a, 'l, 's, 'c, 'p) liquid_cache_parquet \<Rightarrow>
   ((reader_error + 'a record_batch) option \<times> 'm cache_reader \<times> ('a, 'l, 's, 'c, 'p) liquid_cache_parquet) outcome" where
  "reader_poll_next R 0 rd ps = Running"
| "reader_poll_next R (Suc n) rd ps =
     (case rd_state rd of
        Processing inner row_filt selection \<Rightarrow>
          obind (next_batch R inner row_filt selection ps) (\<lambda>((inner1, row_filt1, result), ps1).
            let rd1 = \<lparr>rd_state = Ready inner1, rd_row_filter = row_filt1\<rparr> in
            case result of
              Emit item \<Rightarrow> Ok (Some item, rd1, ps1)
            | Skip \<Rightarrow> reader_poll_next R n rd1 ps1)
      | Ready inner \<Rightarrow>
          (case take_next_batch (ri_selection inner) (ri_batch_size inner) of
             (Some selection, rest) \<Rightarrow>
               reader_poll_next R n
                 \<lparr>rd_state = Processing (inner\<lparr>ri_selection := rest\<rparr>) (rd_row_filter rd) selection, rd_row_filter = None\<rparr> ps
           | (None, rest) \<Rightarrow> Ok (None, rd\<lparr>rd_state := Finished\<rparr>, ps))
      | Finished \<Rightarrow> Ok (None, rd, ps))"

section \<open>Planning a row group\<close>

record parquet_metadata =
  pm_row_groups :: "nat list"
  pm_num_roots :: nat
  pm_num_columns :: nat
  pm_root_of :: "nat \<Rightarrow> nat"

definition file_num_rows :: "parquet_metadata \<Rightarrow> nat" where
  "file_num_rows m = sum_list (pm_row_groups m)"

record 'm reader_factory =
  rf_metadata :: parquet_metadata
  rf_filter :: "'m row_filter option"
  rf_limit :: "nat option"
  rf_offset :: "nat option"
  rf_cached_file :: cached_file

record planning_context =
  pc_row_group_idx :: nat
  pc_selection :: "row_selector list"
  pc_batch_size :: nat
  pc_cached_row_group :: cached_row_group
  pc_cache_projection :: projection_mask
  pc_projection_column_ids :: "nat list"
  pc_cache_column_ids :: "nat list"
  pc_missing_batches :: "batch_id list"

text \<open>\<open>RowSelection::row_count\<close>.\<close>

definition selected_row_count :: "row_selector list \<Rightarrow> nat" where
  "selected_row_count ss = sum_list (map sel_row_count (filter (\<lambda>s. \<not> sel_skip s) ss))"

fun push_batches :: "nat list \<Rightarrow> batch_id list \<Rightarrow> batch_id list" where
  "push_batches [] batches = batches"
| "push_batches (batch_idx # idxs) batches =
     (let b = batch_id_from_raw (of_nat batch_idx);
          is_duplicate = (batches \<noteq> [] \<and> last batches = b)
      in push_batches idxs (if is_duplicate then batches else batches @ [b]))"

fun collect_loop :: "nat \<Rightarrow> nat \<Rightarrow> nat \<Rightarrow> row_selector list \<Rightarrow> batch_id list \<Rightarrow> batch_id list" where
  "collect_loop batch_size row_count current_row [] batches = batches"
| "collect_loop batch_size row_count current_row (s # ss) batches =
     (if sel_skip s then collect_loop batch_size row_count (current_row + sel_row_count s) ss batches
      else
        (let start = current_row; stop = min (current_row + sel_row_count s) row_count in
         if start \<ge> stop then collect_loop batch_size row_count (current_row + sel_row_count s) ss batches
         else
           collect_loop batch_size row_count (current_row + sel_row_count s) ss
             (push_batches [start div batch_size..<Suc ((stop - 1) div batch_size)] batches)))"

definition collect_selection_batches :: "row_selector list \<Rightarrow> nat \<Rightarrow> nat \<Rightarrow> batch_id list" where
  "collect_selection_batches selection batch_size row_count = collect_loop batch_size row_count 0 selection []"

text \<open>Whether some column lacks the batch: columns are tried until one is absent or not cached.\<close>

fun lacks_batch :: "cached_column option list \<Rightarrow> batch_id \<Rightarrow> ('a, 'l, 's, 'c, 'p) liquid_cache_parquet \<Rightarrow> bool" where
  "lacks_batch [] b ps = False"
| "lacks_batch (Some column # columns) b ps = (if \<not> column_is_cached column b ps then True else lacks_batch columns b ps)"
| "lacks_batch (None # columns) b ps = True"

fun missing_loop ::
  "cached_column option list \<Rightarrow> batch_id list \<Rightarrow> batch_id list \<Rightarrow> ('a, 'l, 's, 'c, 'p) liquid_cache_parquet \<Rightarrow> batch_id list" where
  "missing_loop columns [] missing ps = missing"
| "missing_loop columns (b # batches) missing ps =
     missing_loop columns batches
       (if lacks_batch columns b ps \<and> \<not> (missing \<noteq> [] \<and> last missing = b) then missing @ [b] else missing) ps"

definition compute_missing_batches ::
  "cached_row_group \<Rightarrow> nat list \<Rightarrow> batch_id list \<Rightarrow> ('a, 'l, 's, 'c, 'p) liquid_cache_parquet \<Rightarrow> batch_id list" where
  "compute_missing_batches rg column_ids selection_batches ps =
     (if column_ids = [] \<or> selection_batches = [] then []
      else missing_loop (map (get_column rg) column_ids) selection_batches [] ps)"

text \<open>The union of the predicates' projections.\<close>

fun union_projections :: "('a, 'm) parquet_lib \<Rightarrow> 'm row_filter \<Rightarrow> projection_mask option \<Rightarrow> projection_mask option" where
  "union_projections P [] acc = acc"
| "union_projections P (predicate # predicates) acc =
     union_projections P predicates
       (Some (case acc of Some p \<Rightarrow> mask_union P p (lp_projection_mask predicate) | None \<Rightarrow> lp_projection_mask predicate))"

definition root_column_ids :: "('a, 'm) parquet_lib \<Rightarrow> parquet_metadata \<Rightarrow> projection_mask \<Rightarrow> nat list outcome" where
  "root_column_ids P m projection =
     expect (get_root_column_ids (pm_num_roots m) (pm_num_columns m) (pm_root_of m) (leaf_included P projection))"

definition offset_limit ::
  "('a, 'm) parquet_lib \<Rightarrow> 'm reader_factory \<Rightarrow> row_selector list \<Rightarrow> row_selector list" where
  "offset_limit P rf selection =
     (let selection1 = (case rf_offset rf of Some offset \<Rightarrow> offset_row_selection (row_selection_from P) selection offset
                        | None \<Rightarrow> selection)
      in case rf_limit rf of Some l \<Rightarrow> limit_row_selection (row_selection_from P) selection1 l | None \<Rightarrow> selection1)"

definition plan_row_group ::
  "('a, 'l, 's, 'c, 'p, 'm, 'b) runtime \<Rightarrow> 'm reader_factory \<Rightarrow> nat \<Rightarrow> row_selector list option \<Rightarrow> projection_mask \<Rightarrow> nat \<Rightarrow>
   ('a, 'l, 's, 'c, 'p) liquid_cache_parquet \<Rightarrow>
   (planning_context option \<times> 'm reader_factory \<times> ('a, 'l, 's, 'c, 'p) liquid_cache_parquet) outcome" where
  "plan_row_group R rf row_group_idx selection_opt projection batch_size ps =
     (let P = rt_lib R; m = rf_metadata rf in
      if row_group_idx \<ge> length (pm_row_groups m) then Panic
      else
        (let row_count = pm_row_groups m ! row_group_idx;
             predicate_projection = (case rf_filter rf of Some predicates \<Rightarrow> union_projections P predicates None | None \<Rightarrow> None);
             selection0 = (case selection_opt of Some s \<Rightarrow> s
                           | None \<Rightarrow> row_selection_from P [\<lparr>sel_row_count = row_count, sel_skip = False\<rparr>]);
             rows_before = selected_row_count selection0
         in if rows_before = 0 then Ok (None, rf, ps)
         else
           (let selection = offset_limit P rf selection0;
                rows_after = selected_row_count selection;
                rf1 = rf\<lparr>rf_offset := map_option (\<lambda>offset. offset - (rows_before - rows_after)) (rf_offset rf)\<rparr>
            in if rows_after = 0 then Ok (None, rf1, ps)
            else
              (let rf2 = rf1\<lparr>rf_limit := map_option (\<lambda>l. l - rows_after) (rf_limit rf1)\<rparr>;
                   cache_batch_size = lcp_batch_size ps;
                   cache_projection = (case predicate_projection of Some pp \<Rightarrow> mask_union P projection pp | None \<Rightarrow> projection);
                   selection_batches = collect_selection_batches selection cache_batch_size row_count
               in obind (root_column_ids P m cache_projection) (\<lambda>cache_column_ids.
                  obind (case predicate_projection of Some pp \<Rightarrow> root_column_ids P m pp | None \<Rightarrow> Ok []) (\<lambda>predicate_ids.
                  obind (root_column_ids P m projection) (\<lambda>projection_column_ids.
                    let (rg, ps1) = create_row_group P (rf_cached_file rf) (of_nat row_group_idx) predicate_ids ps;
                        missing_batches = compute_missing_batches rg cache_column_ids selection_batches ps1
                    in Ok (Some \<lparr>pc_row_group_idx = row_group_idx, pc_selection = selection, pc_batch_size = batch_size,
                         pc_cached_row_group = rg, pc_cache_projection = cache_projection,
                         pc_projection_column_ids = projection_column_ids, pc_cache_column_ids = cache_column_ids,
                         pc_missing_batches = missing_batches\<rparr>, rf2, ps1))))))))"

section \<open>Filling the cache\<close>

fun selection_loop :: "nat \<Rightarrow> nat \<Rightarrow> nat \<Rightarrow> batch_id list \<Rightarrow> row_selector list" where
  "selection_loop batch_size row_count current_row [] = []"
| "selection_loop batch_size row_count current_row (b # batches) =
     (let batch_idx = unat (batch_v b); start = batch_idx * batch_size in
      if start \<ge> row_count then selection_loop batch_size row_count current_row batches
      else
        (let stop = min ((batch_idx + 1) * batch_size) row_count in
         (if start > current_row then [\<lparr>sel_row_count = start - current_row, sel_skip = True\<rparr>] else [])
         @ \<lparr>sel_row_count = stop - start, sel_skip = False\<rparr> # selection_loop batch_size row_count stop batches))"

definition build_selection_for_batches :: "('a, 'm) parquet_lib \<Rightarrow> batch_id list \<Rightarrow> nat \<Rightarrow> nat \<Rightarrow> row_selector list" where
  "build_selection_for_batches P batches batch_size row_count =
     row_selection_from P (if batches = [] then [] else selection_loop batch_size row_count 0 batches)"

fun insert_columns ::
  "('a, 'l, 's, 'c, 'p, 'm, 'b) runtime \<Rightarrow> cached_row_group \<Rightarrow> batch_id \<Rightarrow> 'a record_batch \<Rightarrow> nat \<Rightarrow> nat list \<Rightarrow>
   ('a, 'l, 's, 'c, 'p) liquid_cache_parquet \<Rightarrow> ('a, 'l, 's, 'c, 'p) liquid_cache_parquet outcome" where
  "insert_columns R rg b record_batch col_idx [] ps = Ok ps"
| "insert_columns R rg b record_batch col_idx (column_id # column_ids) ps =
     obind (expect (get_column rg column_id)) (\<lambda>column.
       obind (if col_idx < length (rb_columns record_batch) then Ok (rb_columns record_batch ! col_idx) else Panic) (\<lambda>a.
         obind (column_insert R column b a ps) (\<lambda>(result, ps1).
           case result of
             Inr _ \<Rightarrow> insert_columns R rg b record_batch (Suc col_idx) column_ids ps1
           | Inl AlreadyCached \<Rightarrow> insert_columns R rg b record_batch (Suc col_idx) column_ids ps1)))"

definition insert_batch_into_cache ::
  "('a, 'l, 's, 'c, 'p, 'm, 'b) runtime \<Rightarrow> 'a record_batch \<Rightarrow> nat list \<Rightarrow> batch_id \<Rightarrow> nat \<Rightarrow> nat \<Rightarrow> cached_row_group \<Rightarrow>
   ('a, 'l, 's, 'c, 'p) liquid_cache_parquet \<Rightarrow> ('a, 'l, 's, 'c, 'p) liquid_cache_parquet outcome" where
  "insert_batch_into_cache R record_batch column_ids b batch_size row_count rg ps =
     (if column_ids = [] \<or> rb_num_rows record_batch = 0 then Ok ps
      else if unat (batch_v b) * batch_size \<ge> row_count then Ok ps
      else insert_columns R rg b record_batch 0 column_ids ps)"

fun fill_loop ::
  "('a, 'l, 's, 'c, 'p, 'm, 'b) runtime \<Rightarrow> planning_context \<Rightarrow> nat \<Rightarrow> nat \<Rightarrow> nat list \<Rightarrow> nat \<Rightarrow>
   (string + 'a record_batch) list \<Rightarrow> ('a, 'l, 's, 'c, 'p) liquid_cache_parquet \<Rightarrow>
   ((string + nat) \<times> ('a, 'l, 's, 'c, 'p) liquid_cache_parquet) outcome" where
  "fill_loop R ctx batch_size row_count column_ids processed_batches [] ps = Ok (Inr processed_batches, ps)"
| "fill_loop R ctx batch_size row_count column_ids processed_batches (Inl e # items) ps = Ok (Inl e, ps)"
| "fill_loop R ctx batch_size row_count column_ids processed_batches (Inr record_batch # items) ps =
     (if rb_num_rows record_batch = 0 then fill_loop R ctx batch_size row_count column_ids processed_batches items ps
      else if processed_batches \<ge> length (pc_missing_batches ctx)
        then Ok (Inl ''parquet stream produced more batches than expected'', ps)
      else
        obind (insert_batch_into_cache R record_batch column_ids (pc_missing_batches ctx ! processed_batches) batch_size
            row_count (pc_cached_row_group ctx) ps) (\<lambda>ps1.
          fill_loop R ctx batch_size row_count column_ids (processed_batches + 1) items ps1))"

definition fill_cache_from_parquet ::
  "('a, 'l, 's, 'c, 'p, 'm, 'b) runtime \<Rightarrow> 'm reader_factory \<Rightarrow> planning_context \<Rightarrow>
   ('a, 'l, 's, 'c, 'p) liquid_cache_parquet \<Rightarrow> ((string + unit) \<times> ('a, 'l, 's, 'c, 'p) liquid_cache_parquet) outcome" where
  "fill_cache_from_parquet R rf ctx ps =
     (let P = rt_lib R; m = rf_metadata rf in
      if pc_row_group_idx ctx \<ge> length (pm_row_groups m) then Panic
      else
        (let row_count = pm_row_groups m ! pc_row_group_idx ctx; cache_batch_size = lcp_batch_size ps in
         if pc_cache_column_ids ctx = [] \<or> pc_missing_batches ctx = [] then Ok (Inr (), ps)
         else
           (let backfill_selection = build_selection_for_batches P (pc_missing_batches ctx) cache_batch_size row_count in
            if \<not> list_ex (\<lambda>s. \<not> sel_skip s) backfill_selection then Ok (Inr (), ps)
            else
              (case parquet_stream P (pc_row_group_idx ctx) (pc_cache_projection ctx) backfill_selection cache_batch_size of
                 Inl e \<Rightarrow> Ok (Inl e, ps)
               | Inr items \<Rightarrow>
                   obind (root_column_ids P m (pc_cache_projection ctx)) (\<lambda>column_ids.
                     obind (fill_loop R ctx cache_batch_size row_count column_ids 0 items ps) (\<lambda>(r, ps1).
                       case r of
                         Inl e \<Rightarrow> Ok (Inl e, ps1)
                       | Inr processed_batches \<Rightarrow>
                           if processed_batches \<noteq> length (pc_missing_batches ctx)
                           then Ok (Inl ''unexpected number of batches from parquet stream'', ps1)
                           else Ok (Inr (), ps1)))))))"

section \<open>The stream\<close>

datatype 'm stream_state =
    StreamInit
  | FillCache "'m reader_factory" planning_context
  | ReadFromCache "'m cache_reader"

record 'm liquid_stream =
  ls_metadata :: parquet_metadata
  ls_schema :: "field list"
  ls_row_groups :: "nat list"
  ls_projection :: projection_mask
  ls_batch_size :: nat
  ls_selection :: "row_selector list option"
  ls_reader :: "'m reader_factory option"
  ls_state :: "'m stream_state"

record 'm stream_builder =
  sb_metadata :: parquet_metadata
  sb_batch_size :: nat
  sb_row_groups :: "nat list option"
  sb_projection :: projection_mask
  sb_filter :: "'m row_filter option"
  sb_selection :: "row_selector list option"
  sb_limit :: "nat option"
  sb_offset :: "nat option"

definition stream_builder_new :: "parquet_metadata \<Rightarrow> 'm stream_builder" where
  "stream_builder_new m = \<lparr>sb_metadata = m, sb_batch_size = 1024, sb_row_groups = None, sb_projection = None,
     sb_filter = None, sb_selection = None, sb_limit = None, sb_offset = None\<rparr>"

definition build_projection_schema :: "field list \<Rightarrow> nat list \<Rightarrow> field list" where
  "build_projection_schema file_schema projection_column_ids =
     List.map_filter (\<lambda>i. if i < length file_schema then Some (file_schema ! i) else None) projection_column_ids"

definition stream_build ::
  "('a, 'm) parquet_lib \<Rightarrow> 'm stream_builder \<Rightarrow> cached_file \<Rightarrow> (string + 'm liquid_stream) outcome" where
  "stream_build P sb cf =
     (let m = sb_metadata sb; num_row_groups = length (pm_row_groups m) in
      if (case sb_row_groups sb of Some rgs \<Rightarrow> list_ex (\<lambda>x. x \<ge> num_row_groups) rgs | None \<Rightarrow> False)
      then Ok (Inl ''row group out of bounds'')
      else
        obind (root_column_ids P m (sb_projection sb)) (\<lambda>projection_column_ids.
          Ok (Inr \<lparr>ls_metadata = m, ls_schema = build_projection_schema (cf_schema cf) projection_column_ids,
            ls_row_groups = (case sb_row_groups sb of Some rgs \<Rightarrow> rgs | None \<Rightarrow> [0..<num_row_groups]),
            ls_projection = sb_projection sb, ls_batch_size = min (sb_batch_size sb) (file_num_rows m),
            ls_selection = sb_selection sb,
            ls_reader = Some \<lparr>rf_metadata = m, rf_filter = sb_filter sb, rf_limit = sb_limit sb, rf_offset = sb_offset sb,
              rf_cached_file = cf\<rparr>,
            ls_state = StreamInit\<rparr>)))"

text \<open>The reader of a planned row group; it takes the filter out of the factory.\<close>

definition start_reading :: "'m reader_factory \<Rightarrow> planning_context \<Rightarrow> 'm liquid_stream \<Rightarrow> 'm liquid_stream" where
  "start_reading rf ctx s =
     s\<lparr>ls_reader := Some (rf\<lparr>rf_filter := None\<rparr>),
       ls_state := ReadFromCache (cache_reader_new (pc_batch_size ctx) (pc_selection ctx) (rf_filter rf)
         (pc_cached_row_group ctx) (pc_projection_column_ids ctx) (ls_schema s))\<rparr>"

text \<open>The part of the loop in state \<open>Init\<close>: \<open>None\<close> at the end of the row groups.\<close>

definition start_row_group ::
  "('a, 'l, 's, 'c, 'p, 'm, 'b) runtime \<Rightarrow> 'm liquid_stream \<Rightarrow> ('a, 'l, 's, 'c, 'p) liquid_cache_parquet \<Rightarrow>
   ('m liquid_stream option \<times> ('a, 'l, 's, 'c, 'p) liquid_cache_parquet) outcome" where
  "start_row_group R s ps =
     (case ls_row_groups s of
        [] \<Rightarrow> Ok (None, ps)
      | row_group_idx # row_groups \<Rightarrow>
          if row_group_idx \<ge> length (pm_row_groups (ls_metadata s)) then Panic
          else
            (let row_count = pm_row_groups (ls_metadata s) ! row_group_idx;
                 (selection, remaining) =
                   (case ls_selection s of
                      Some sel \<Rightarrow> (let (first, rest) = split_off (rt_lib R) row_count sel in (Some first, Some rest))
                    | None \<Rightarrow> (None, None));
                 s1 = s\<lparr>ls_row_groups := row_groups, ls_selection := remaining\<rparr>
             in obind (expect (ls_reader s1)) (\<lambda>rf.
                obind (plan_row_group R rf row_group_idx selection (ls_projection s) (ls_batch_size s) ps)
                  (\<lambda>(maybe_context, rf1, ps1).
                    case maybe_context of
                      Some ctx \<Rightarrow>
                        if pc_missing_batches ctx \<noteq> [] \<and> pc_cache_column_ids ctx \<noteq> []
                        then Ok (Some (s1\<lparr>ls_reader := None, ls_state := FillCache rf1 ctx\<rparr>), ps1)
                        else Ok (Some (start_reading rf1 ctx s1), ps1)
                    | None \<Rightarrow> Ok (Some (s1\<lparr>ls_reader := Some rf1, ls_state := StreamInit\<rparr>), ps1)))))"

fun stream_poll_next ::
  "('a, 'l, 's, 'c, 'p, 'm, 'b) runtime \<Rightarrow> nat \<Rightarrow> 'm liquid_stream \<Rightarrow> ('a, 'l, 's, 'c, 'p) liquid_cache_parquet \<Rightarrow>
   ('a record_batch option \<times> 'm liquid_stream \<times> ('a, 'l, 's, 'c, 'p) liquid_cache_parquet) outcome" where
  "stream_poll_next R 0 s ps = Running"
| "stream_poll_next R (Suc n) s ps =
     (case ls_state s of
        ReadFromCache batch_reader \<Rightarrow>
          obind (reader_poll_next R n batch_reader ps) (\<lambda>(item, batch_reader1, ps1).
            case item of
              Some (Inr batch) \<Rightarrow> Ok (Some batch, s\<lparr>ls_state := ReadFromCache batch_reader1\<rparr>, ps1)
            | Some (Inl e) \<Rightarrow> Panic
            | None \<Rightarrow>
                obind (expect (ls_reader s)) (\<lambda>rf.
                  stream_poll_next R n
                    (s\<lparr>ls_reader := Some (rf\<lparr>rf_filter := rd_row_filter batch_reader1\<rparr>), ls_state := StreamInit\<rparr>) ps1))
      | StreamInit \<Rightarrow>
          obind (start_row_group R s ps) (\<lambda>(next_state, ps1).
            case next_state of
              None \<Rightarrow> Ok (None, s, ps1)
            | Some s1 \<Rightarrow> stream_poll_next R n s1 ps1)
      | FillCache rf ctx \<Rightarrow>
          obind (fill_cache_from_parquet R rf ctx ps) (\<lambda>(result, ps1).
            case result of
              Inl e \<Rightarrow> Panic
            | Inr _ \<Rightarrow> stream_poll_next R n (start_reading rf ctx s) ps1))"

text \<open>A consumer that polls the stream until it ends.\<close>

fun stream_collect ::
  "('a, 'l, 's, 'c, 'p, 'm, 'b) runtime \<Rightarrow> nat \<Rightarrow> 'm liquid_stream \<Rightarrow> ('a, 'l, 's, 'c, 'p) liquid_cache_parquet \<Rightarrow>
   ('a record_batch list \<times> ('a, 'l, 's, 'c, 'p) liquid_cache_parquet) outcome" where
  "stream_collect R 0 s ps = Running"
| "stream_collect R (Suc n) s ps =
     obind (stream_poll_next R n s ps) (\<lambda>(item, s1, ps1).
       case item of
         None \<Rightarrow> Ok ([], ps1)
       | Some batch \<Rightarrow> obind (stream_collect R n s1 ps1) (\<lambda>(batches, ps2). Ok (batch # batches, ps2)))"

end
