(* ===== verification/ScanWindows.thy ===== *)
theory ScanWindows
  imports ParquetReader
begin

text \<open>
  What planning computes, on row numbers: the batches that hold selected rows, the missing ones
  among them, and the selection that asks the file for exactly these; cut into pieces of the batch
  size, the rows it selects are the batches, one piece each. \<open>pick bs xs\<close> are the elements of \<open>xs\<close>
  that the mask \<open>bs\<close> selects, \<open>window n b xs\<close> the rows of batch \<open>b\<close>.
\<close>

section \<open>Masks on lists\<close>

definition pick :: "bool list \<Rightarrow> 'v list \<Rightarrow> 'v list" where
  "pick bs xs = map snd (filter fst (zip bs xs))"

definition window :: "nat \<Rightarrow> nat \<Rightarrow> 'v list \<Rightarrow> 'v list" where
  "window n b xs = take n (drop (b * n) xs)"

lemma pick_simps [simp]:
  "pick [] xs = []" "pick bs [] = []"
  "pick (b # bs) (x # xs) = (if b then x # pick bs xs else pick bs xs)"
  by (simp_all add: pick_def)

lemma pick_append:
  "pick (bs @ cs) xs = pick bs (take (length bs) xs) @ pick cs (drop (length bs) xs)"
proof (induction bs arbitrary: xs)
  case (Cons b bs)
  then show ?case by (cases xs) simp_all
qed simp

lemma pick_take: "length bs \<le> n \<Longrightarrow> pick bs (take n xs) = pick bs xs"
proof (induction bs arbitrary: xs n)
  case (Cons b bs)
  then show ?case by (cases xs; cases n) simp_all
qed simp

lemma pick_replicate [simp]: "pick (replicate n True) xs = take n xs" "pick (replicate n False) xs = []"
proof -
  show "pick (replicate n True) xs = take n xs"
  proof (induction n arbitrary: xs)
    case (Suc n)
    then show ?case by (cases xs) simp_all
  qed simp
  show "pick (replicate n False) xs = []"
  proof (induction n arbitrary: xs)
    case (Suc n)
    then show ?case by (cases xs) simp_all
  qed simp
qed

lemma pick_map: "pick bs (map f xs) = map f (pick bs xs)"
proof (induction bs arbitrary: xs)
  case (Cons b bs)
  then show ?case by (cases xs) simp_all
qed simp

lemma length_pick: "length bs = length xs \<Longrightarrow> length (pick bs xs) = count_list bs True"
  by (induction bs xs rule: list_induct2) simp_all

lemma pick_none: "count_list bs True = 0 \<Longrightarrow> pick bs xs = []"
proof (induction bs arbitrary: xs)
  case (Cons b bs)
  then show ?case by (cases xs) (simp_all split: if_splits)
qed simp

lemma pick_positions: "length bs = length xs \<Longrightarrow> pick bs xs = map ((!) xs) (true_positions 0 bs)"
proof -
  have "length bs = length xs \<Longrightarrow> pick bs xs = map (\<lambda>i. xs ! (i - n)) (true_positions n bs)" for n
  proof (induction bs xs arbitrary: n rule: list_induct2)
    case (Cons b bs x xs)
    have "map (\<lambda>i. xs ! (i - Suc n)) (true_positions (Suc n) bs) = map (\<lambda>i. (x # xs) ! (i - n)) (true_positions (Suc n) bs)"
      by (rule map_cong [OF refl]) (auto simp: set_true_positions nth_Cons' )
    with Cons.IH [of "Suc n"] show ?case by simp
  qed simp
  from this [of 0] show "length bs = length xs \<Longrightarrow> pick bs xs = map ((!) xs) (true_positions 0 bs)" by simp
qed

text \<open>Narrowing a mask by the answers on the rows it selects.\<close>

lemma and_then_pick:
  "length as = length ls \<Longrightarrow> and_then ls (pick ls as) = map2 (\<and>) ls as"
proof (induction ls arbitrary: as)
  case (Cons l ls)
  then obtain a as' where "as = a # as'" by (cases as) auto
  with Cons show ?case by (cases l) simp_all
qed simp

lemma count_bits: "selected_row_count ss = count_list (selection_bits ss) True"
proof -
  have "count_list (replicate n True) True = n" "count_list (replicate n False) True = 0" for n
    by (induction n) simp_all
  then show ?thesis
    by (induction ss) (simp_all add: selected_row_count_def count_list_append)
qed

lemma window_nth: "i < length (window n b xs) \<Longrightarrow> window n b xs ! i = xs ! (b * n + i)"
  by (auto simp: window_def less_diff_conv add.commute)

lemma length_window: "length (window n b xs) = min n (length xs - b * n)"
  by (simp add: window_def)

lemma window_length_cong: "length xs = length ys \<Longrightarrow> length (window n b xs) = length (window n b ys)"
  by (simp add: window_def)

section \<open>The batches of a selection\<close>

abbreviation nth_batch :: "nat \<Rightarrow> batch_id" where
  "nth_batch i \<equiv> batch_id_from_raw (of_nat i)"

lemma unat_batch: "i < 2 ^ 16 \<Longrightarrow> unat (batch_v (nth_batch i)) = i"
  by (simp add: batch_id_from_raw_def unat_of_nat)

lemma batch_inj: "i < 2 ^ 16 \<Longrightarrow> j < 2 ^ 16 \<Longrightarrow> nth_batch i = nth_batch j \<longleftrightarrow> i = j"
  using unat_batch [of i] unat_batch [of j] by metis

lemma push_batches_new:
  "\<forall>a \<in> set A. a < i \<Longrightarrow> j \<le> 2 ^ 16 \<Longrightarrow> push_batches [i..<j] (map nth_batch A) = map nth_batch (A @ [i..<j])"
proof (induction "j - i" arbitrary: i A)
  case (Suc k)
  then have ij: "i < j" by simp
  have "\<not> (A \<noteq> [] \<and> last (map nth_batch A) = nth_batch i)"
  proof
    assume a: "A \<noteq> [] \<and> last (map nth_batch A) = nth_batch i"
    then have "last A < i" "nth_batch (last A) = nth_batch i" using Suc.prems(1) last_map [of A nth_batch] by auto
    with batch_inj [of "last A" i] ij Suc.prems(2) show False by simp
  qed
  with Suc.hyps(1) [of "Suc i" "A @ [i]"] Suc.hyps(2) Suc.prems ij show ?case
    by (auto simp: upt_conv_Cons Let_def less_Suc_eq)
qed simp

lemma push_batches_upt:
  assumes "\<forall>a \<in> set A. a \<le> i" and "sorted_wrt (<) A" and "i < j" and "j \<le> 2 ^ 16"
  shows "\<exists>B. push_batches [i..<j] (map nth_batch A) = map nth_batch B \<and> sorted_wrt (<) B \<and> set B = set A \<union> {i..<j}"
proof (cases "i \<in> set A")
  case True
  then obtain ys zs where A: "A = ys @ i # zs" by (meson split_list)
  with assms(1,2) have zs: "zs = []" by (cases zs) (auto simp: sorted_wrt_append)
  have "push_batches [Suc i..<j] (map nth_batch A) = map nth_batch (A @ [Suc i..<j])"
    by (rule push_batches_new) (use assms(1,4) in \<open>auto simp: less_Suc_eq_le\<close>)
  moreover have "push_batches [i..<j] (map nth_batch A) = push_batches [Suc i..<j] (map nth_batch A)"
    using assms(3) A zs by (simp add: upt_conv_Cons Let_def)
  moreover have "sorted_wrt (<) (A @ [Suc i..<j])" using assms(1,2) by (auto simp: sorted_wrt_append)
  moreover have "set (A @ [Suc i..<j]) = set A \<union> {i..<j}" using True assms(3) by (force simp: Suc_le_eq le_less)
  ultimately show ?thesis by metis
next
  case False
  with assms(1) have less: "\<forall>a \<in> set A. a < i" using le_neq_implies_less by blast
  with assms(2) have "sorted_wrt (<) (A @ [i..<j])" by (auto simp: sorted_wrt_append)
  with push_batches_new [OF less assms(4)] show ?thesis by (intro exI [of _ "A @ [i..<j]"]) auto
qed

text \<open>The batches that hold one of the given rows.\<close>

definition batches_of :: "nat \<Rightarrow> nat set \<Rightarrow> nat set" where
  "batches_of n rows = (\<lambda>r. r div n) ` rows"

lemma batches_of_interval:
  assumes "n > 0" and "start < stop"
  shows "batches_of n {start..<stop} = {start div n..<Suc ((stop - 1) div n)}"
proof (rule set_eqI, rule iffI)
  fix b assume "b \<in> batches_of n {start..<stop}"
  then show "b \<in> {start div n..<Suc ((stop - 1) div n)}"
    using assms(2) by (auto simp: batches_of_def less_Suc_eq_le intro!: div_le_mono)
next
  fix b assume b: "b \<in> {start div n..<Suc ((stop - 1) div n)}"
  let ?r = "max start (b * n)"
  have "b * n \<le> stop - 1" using b assms(1) by (simp add: less_eq_div_iff_mult_less_eq less_Suc_eq_le)
  then have "?r \<in> {start..<stop}" using assms(2) by auto
  moreover have "?r div n = b"
  proof (cases "start \<le> b * n")
    case True
    then show ?thesis using assms(1) by (simp add: max_def)
  next
    case False
    then have "b \<le> start div n" using assms(1) by (simp add: less_eq_div_iff_mult_less_eq)
    with b False show ?thesis by (simp add: max_def)
  qed
  ultimately show "b \<in> batches_of n {start..<stop}" unfolding batches_of_def by (metis imageI)
qed

lemma collect_loop_spec:
  assumes "n > 0" and "row_count \<le> n * 2 ^ 16"
  shows "sorted_wrt (<) A \<Longrightarrow> \<forall>a \<in> set A. a \<le> current_row div n \<Longrightarrow>
    \<exists>B. collect_loop n row_count current_row ss (map nth_batch A) = map nth_batch B \<and> sorted_wrt (<) B
      \<and> set B = set A \<union> batches_of n {r \<in> set (true_positions current_row (selection_bits ss)). r < row_count}"
proof (induction ss arbitrary: A current_row)
  case Nil
  then show ?case by (auto simp: batches_of_def)
next
  case (Cons s ss)
  let ?k = "sel_row_count s" let ?next = "current_row + ?k" let ?stop = "min ?next row_count"
  let ?rest = "{r \<in> set (true_positions ?next (selection_bits ss)). r < row_count}"
  have mono: "current_row div n \<le> ?next div n" by (simp add: div_le_mono)
  show ?case
  proof (cases "sel_skip s \<or> current_row \<ge> ?stop")
    case True
    have "\<forall>a \<in> set A. a \<le> ?next div n" using Cons.prems(2) mono by (meson le_trans)
    from Cons.IH [OF Cons.prems(1) this] obtain B where
      B: "collect_loop n row_count ?next ss (map nth_batch A) = map nth_batch B" "sorted_wrt (<) B"
        "set B = set A \<union> batches_of n ?rest" by blast
    have "{r \<in> set (true_positions current_row (selection_bits (s # ss))). r < row_count} = ?rest"
      using True by (cases "sel_skip s") (auto simp: true_positions_append)
    moreover have "collect_loop n row_count current_row (s # ss) (map nth_batch A) = map nth_batch B"
      using True B(1) by (auto simp: Let_def)
    ultimately show ?thesis using B(2,3) by metis
  next
    case False
    let ?j = "Suc ((?stop - 1) div n)"
    have se: "current_row < ?stop" using False by (simp only: de_Morgan_disj not_le)
    then have "(?stop - 1) div n < 2 ^ 16"
      using assms(2) by (intro less_mult_imp_div_less) (auto simp: mult.commute min_def)
    then obtain B where B: "push_batches [current_row div n..<?j] (map nth_batch A) = map nth_batch B"
      "sorted_wrt (<) B" "set B = set A \<union> {current_row div n..<?j}"
      using push_batches_upt [OF Cons.prems(2,1), of ?j] div_le_mono [of current_row "?stop - 1" n] se
      by (auto simp: less_Suc_eq_le)
    have "\<forall>a \<in> set B. a \<le> ?next div n"
    proof
      fix a assume "a \<in> set B"
      then have "a \<le> current_row div n \<or> a \<le> (?stop - 1) div n" using B(3) Cons.prems(2) by auto
      moreover have "(?stop - 1) div n \<le> ?next div n" by (rule div_le_mono) simp
      ultimately show "a \<le> ?next div n" using mono by linarith
    qed
    from Cons.IH [OF B(2) this] obtain C where C: "collect_loop n row_count ?next ss (map nth_batch B) = map nth_batch C"
      "sorted_wrt (<) C" "set C = set B \<union> batches_of n ?rest" by blast
    have "{r \<in> set (true_positions current_row (selection_bits (s # ss))). r < row_count} = {current_row..<?stop} \<union> ?rest"
      using False by (auto simp: true_positions_append)
    then have "set C = set A \<union> batches_of n {r \<in> set (true_positions current_row (selection_bits (s # ss))). r < row_count}"
      using C(3) B(3) batches_of_interval [OF assms(1) se] by (simp add: batches_of_def image_Un Un_assoc)
    moreover have "collect_loop n row_count current_row (s # ss) (map nth_batch A) = map nth_batch C"
      using False C(1) B(1) by (simp add: Let_def)
    ultimately show ?thesis using C(2) by blast
  qed
qed

lemma collect_selection_batches_spec:
  assumes "n > 0" and "row_count \<le> n * 2 ^ 16"
  shows "\<exists>B. collect_selection_batches ss n row_count = map nth_batch B \<and> sorted_wrt (<) B
    \<and> set B = batches_of n {r \<in> set (selected_rows ss). r < row_count}"
  using collect_loop_spec [OF assms, of "[]" 0 ss] by (simp add: collect_selection_batches_def selected_rows_def)

section \<open>The missing batches\<close>

lemma lacks_batch_iff:
  "lacks_batch cs b ps \<longleftrightarrow> (\<exists>c \<in> set cs. case c of None \<Rightarrow> True | Some column \<Rightarrow> \<not> column_is_cached column b ps)"
  by (induction cs b ps rule: lacks_batch.induct) auto

lemma missing_loop_filter:
  "distinct (M @ bs) \<Longrightarrow> missing_loop cs bs M ps = M @ filter (\<lambda>b. lacks_batch cs b ps) bs"
proof (induction bs arbitrary: M)
  case (Cons b bs)
  have "\<not> (M \<noteq> [] \<and> last M = b)" using Cons.prems last_in_set [of M] by auto
  with Cons.IH [of "M @ [b]"] Cons.IH [of M] Cons.prems show ?case by auto
qed simp

lemma missing_batches_filter:
  "distinct bs \<Longrightarrow> compute_missing_batches rg ids bs ps =
    (if ids = [] then [] else filter (\<lambda>b. lacks_batch (map (get_column rg) ids) b ps) bs)"
  by (simp add: compute_missing_batches_def missing_loop_filter)

lemma distinct_batches: "sorted_wrt (<) B \<Longrightarrow> \<forall>b \<in> set B. b < 2 ^ 16 \<Longrightarrow> distinct (map nth_batch B)"
  by (auto simp: distinct_map strict_sorted_iff inj_on_def batch_inj)

section \<open>Asking the file for batches\<close>

lemma selection_loop_rows:
  assumes "n > 0" and "length xs = row_count"
  shows "sorted_wrt (<) B \<Longrightarrow> \<forall>b \<in> set B. b < 2 ^ 16 \<and> b * n < row_count \<and> current_row \<le> b * n \<Longrightarrow>
    pick (selection_bits (selection_loop n row_count current_row (map nth_batch B))) (drop current_row xs)
      = concat (map (\<lambda>b. window n b xs) B)"
proof (induction B arbitrary: current_row)
  case (Cons b B)
  let ?start = "b * n" let ?stop = "min ((b + 1) * n) row_count"
  have b: "unat (batch_v (nth_batch b)) = b" "?start < row_count" "current_row \<le> ?start"
    using Cons.prems(2) unat_batch by simp_all
  have "?stop \<le> c * n" if "c \<in> set B" for c
  proof -
    have "(b + 1) * n \<le> c * n" using Cons.prems(1) that by (intro mult_le_mono1) auto
    then show ?thesis by simp
  qed
  then have IH: "pick (selection_bits (selection_loop n row_count ?stop (map nth_batch B))) (drop ?stop xs) = concat (map (\<lambda>b. window n b xs) B)"
    using Cons by auto
  have bits: "selection_bits (selection_loop n row_count current_row (map nth_batch (b # B)))
      = replicate (?start - current_row) False @ replicate (?stop - ?start) True @ selection_bits (selection_loop n row_count ?stop (map nth_batch B))"
    using b by (auto simp: Let_def)
  have "take (?stop - ?start) (drop ?start xs) = window n b xs"
    unfolding window_def using assms(2) b(2) by (auto simp: min_def take_all_iff)
  moreover have "?stop - ?start + (?start - current_row + current_row) = ?stop"
    using b by (simp add: min_def)
  ultimately show ?case unfolding bits using IH b(3) assms(2) b(2)
    by (simp add: pick_append pick_take length_window add.commute)
qed simp

text \<open>The rows, cut into pieces of the batch size, are the windows again.\<close>

lemma concat_pieces:
  "\<forall>w \<in> set (butlast ws). length w = n \<Longrightarrow> \<forall>w \<in> set ws. length w \<le> n \<Longrightarrow> k < length ws \<Longrightarrow>
    take n (drop (k * n) (concat ws)) = ws ! k"
proof (induction ws arbitrary: k)
  case (Cons w ws)
  show ?case
  proof (cases "ws = []")
    case False
    with Cons.prems(1) have w: "length w = n" by simp
    show ?thesis
    proof (cases k)
      case (Suc j)
      with Cons.IH [of j] Cons.prems False w show ?thesis by simp
    qed (use w in simp)
  qed (use Cons.prems in simp)
qed simp

lemma concat_pieces_count:
  "\<forall>w \<in> set (butlast ws). length w = n \<Longrightarrow> \<forall>w \<in> set ws. w \<noteq> [] \<and> length w \<le> n \<Longrightarrow>
    (length (concat ws) + n - 1) div n = length ws"
proof (induction ws)
  case (Cons w ws)
  show ?case
  proof (cases "ws = []")
    case True
    have l: "0 < length w" "length w \<le> n" "0 < n" using Cons.prems(2) True by (cases w; simp)+
    then have "(length w + n - 1) div n = (length w - 1 + n) div n" by (simp only: add_diff_assoc2)
    also have "\<dots> = Suc ((length w - 1) div n)" using l by (subst div_add_self2) auto
    also have "\<dots> = 1" using l by simp
    finally show ?thesis using True by simp
  next
    case False
    then have w: "length w = n" "n > 0" using Cons.prems by auto
    have IH: "(length (concat ws) + n - 1) div n = length ws" using Cons False by auto
    have "length (concat (w # ws)) + n - 1 = n + (length (concat ws) + n - 1)" using w by simp
    then have "(length (concat (w # ws)) + n - 1) div n = Suc ((length (concat ws) + n - 1) div n)"
      using w(2) by (simp only: div_add_self1)
    with IH show ?thesis by simp
  qed
qed (cases n; simp)

lemma windows_full:
  assumes "n > 0" and "sorted_wrt (<) B" and "\<forall>b \<in> set B. b * n < length xs"
  shows "\<forall>w \<in> set (butlast (map (\<lambda>b. window n b xs) B)). length w = n"
    and "\<forall>w \<in> set (map (\<lambda>b. window n b xs) B). w \<noteq> [] \<and> length w \<le> n"
proof -
  show "\<forall>w \<in> set (map (\<lambda>b. window n b xs) B). w \<noteq> [] \<and> length w \<le> n"
    using assms(1,3) by (auto simp: window_def)
  show "\<forall>w \<in> set (butlast (map (\<lambda>b. window n b xs) B)). length w = n"
  proof
    fix w assume "w \<in> set (butlast (map (\<lambda>b. window n b xs) B))"
    then obtain b where b: "b \<in> set (butlast B)" "w = window n b xs" by (auto simp: map_butlast [symmetric])
    then have ne: "B \<noteq> []" by auto
    then have "B = butlast B @ [last B]" by simp
    with assms(2) b(1) have "b < last B" by (metis sorted_wrt_append list.set_intros(1))
    then have "(b + 1) * n \<le> last B * n" by (intro mult_le_mono1) simp
    moreover have "last B * n < length xs" using assms(3) ne by simp
    ultimately show "length w = n" using b(2) by (simp add: window_def)
  qed
qed

end
