(* ===== verification/ScanReads.thy ===== *)
theory ScanReads
  imports ScanWindows CacheHistory
begin

text \<open>
  Reading one batch of a row group through the cache. \<open>scan_file\<close> says what the file holds: the rows
  of every column of every row group, the meaning of an Arrow array as its rows (\<open>sf_vals\<close>) and of a
  predicate on a row (\<open>sf_sat\<close>). \<open>runtime_ok\<close> and \<open>predicate_ok\<close> are what is relied on of the libraries.
  Under \<open>good ps M\<close> the cache represents a map in which every batch of the file that is cached holds
  the file's rows; then the mask that a row filter leaves selects exactly the selected rows on which
  all predicates are true.
\<close>

section \<open>What is relied on\<close>

record ('a, 'm, 'v) scan_file =
  sf_vals :: "'a \<Rightarrow> 'v list"
  sf_sat :: "'m liquid_predicate \<Rightarrow> 'v list \<Rightarrow> bool option"
  sf_rows :: "nat \<Rightarrow> nat \<Rightarrow> 'v list"
  sf_meta :: parquet_metadata
  sf_file :: cached_file
  sf_batch_size :: nat

text \<open>An Arrow array is its rows; filtering picks rows.\<close>

definition decodes :: "('a, 'l, 's, 't, 'c, 'e) arrays \<Rightarrow> ('a \<Rightarrow> 'v list) \<Rightarrow> bool" where
  "decodes A vals \<longleftrightarrow> (\<forall>a. arrow_len A a = length (vals a)) \<and> (\<forall>a b. arrow_eq A a b \<longrightarrow> vals a = vals b)
     \<and> (\<forall>a bs f. length bs = length (vals a) \<longrightarrow> arrow_filter A a bs = Some f \<longrightarrow> vals f = pick bs (vals a))"

text \<open>Some rows of a column that fits its field, read in whatever encoding, fit it too.\<close>

definition reads_fit :: "('a, 'l, 's, 't, 'c, 'e) arrays \<Rightarrow> ('a, 'm) parquet_lib \<Rightarrow> bool" where
  "reads_fit A P \<longleftrightarrow> (\<forall>f a bs r x. column_fits P f a \<longrightarrow> arrow_filter A a bs = Some r \<longrightarrow> True \<in> set bs \<longrightarrow>
     arrow_eq A x r \<longrightarrow> column_fits P f x)"

definition answers_ok :: "('a, 'm) parquet_lib \<Rightarrow> bool" where
  "answers_ok P \<longleftrightarrow> (\<forall>xs. prep_null_mask_filter P xs = map (\<lambda>x. Some (x = Some True)) xs)
     \<and> (\<forall>xs. None \<notin> set xs \<longrightarrow> bb_wf (answer_buffer P xs) \<and> bb_offset (answer_buffer P xs) = 0
          \<and> bb_bits (answer_buffer P xs) = map (\<lambda>x. x = Some True) xs)"

definition masks_ok :: "('a, 'm) parquet_lib \<Rightarrow> bool" where
  "masks_ok P \<longleftrightarrow> (\<forall>l. leaf_included P None l) \<and> (\<forall>m l. l < length m \<longrightarrow> leaf_included P (Some m) l = m ! l)
     \<and> (\<forall>a b l. leaf_included P (mask_union P a b) l = (leaf_included P a l \<or> leaf_included P b l))"

definition splits_ok :: "('a, 'm) parquet_lib \<Rightarrow> bool" where
  "splits_ok P \<longleftrightarrow> (\<forall>n ss. selection_bits (fst (split_off P n ss)) = take n (selection_bits ss)
     \<and> selection_bits (snd (split_off P n ss)) = drop n (selection_bits ss))"

text \<open>No Liquid array evaluates a bare column as a predicate.\<close>

definition bare_columns_open :: "('a, 'l, 's, 't, 'c, expr) arrays \<Rightarrow> bool" where
  "bare_columns_open A \<longleftrightarrow> (\<forall>l name i bs. liquid_try_eval A l (EColumn name i) bs = None)"

definition runtime_ok ::
  "('a, 'l, 's, 'c, liquid_queue_state, 'm, 'b) runtime \<Rightarrow> ('a \<Rightarrow> 'v list) \<Rightarrow> bool" where
  "runtime_ok R vals \<longleftrightarrow> (let A = arr (rt_env R); P = rt_lib R in
     rt_env R = default_env A \<and> codec_ok A \<and> no_variants A \<and> (\<forall>st. insert_fuel st \<le> rt_fuel R st)
   \<and> decodes A vals \<and> bare_columns_open A \<and> reads_fit A P \<and> answers_ok P \<and> masks_ok P \<and> splits_ok P
   \<and> normalizes (row_selection_from P) \<and> bit_ops_ok (rt_bits R) \<and> (\<exists>contents. builder_ok (rt_builder R) contents))"

text \<open>
  The file: a flat schema without date or variant mappings, numbers that fit the cache's keys, and
  columns as long as their row group.
\<close>

definition file_ok :: "('a, 'm) parquet_lib \<Rightarrow> ('a, 'm, 'v) scan_file \<Rightarrow> bool" where
  "file_ok P F \<longleftrightarrow> (let m = sf_meta F; schema = cf_schema (sf_file F); n = sf_batch_size F in
     pm_num_roots m = length schema \<and> pm_num_columns m = length schema \<and> (\<forall>l < length schema. pm_root_of m l = l)
   \<and> length schema \<le> 2 ^ 16 \<and> length (pm_row_groups m) \<le> 2 ^ 16 \<and> 0 < n
   \<and> (\<forall>r \<in> set (pm_row_groups m). r \<le> n * 2 ^ 16)
   \<and> (\<forall>g < length (pm_row_groups m). \<forall>c < length schema. length (sf_rows F g c) = pm_row_groups m ! g)
   \<and> (\<forall>f \<in> set schema. variant_mappings_from_field P f = None \<and> fld_metadata f DATE_MAPPING_METADATA_KEY = None))"

text \<open>The rows of some columns, row by row.\<close>

definition rows_of :: "('x \<Rightarrow> 'v list) \<Rightarrow> 'x list \<Rightarrow> nat \<Rightarrow> 'v list list" where
  "rows_of vals cols n = map (\<lambda>i. map (\<lambda>c. vals c ! i) cols) [0..<n]"

text \<open>A predicate is evaluated row by row, on its columns together or, if it has one, on that column.\<close>

definition predicate_ok ::
  "('a, 'l, 's, 't, 'c, expr) arrays \<Rightarrow> ('a, 'm) parquet_lib \<Rightarrow> ('a, 'm, 'v) scan_file \<Rightarrow> 'm liquid_predicate \<Rightarrow> bool" where
  "predicate_ok A P F p \<longleftrightarrow> (let ids = predicate_column_ids p; schema = map ((!) (cf_schema (sf_file F))) ids in
     ids \<noteq> [] \<and> (\<forall>c \<in> set ids. c < length (cf_schema (sf_file F))
          \<and> leaf_included P (lp_projection_mask p) c)
   \<and> (\<forall>cols n. list_all2 (column_fits P) schema cols \<longrightarrow> (\<forall>c \<in> set cols. length (sf_vals F c) = n) \<longrightarrow>
        predicate_evaluate P p \<lparr>rb_schema = schema, rb_columns = cols, rb_num_rows = n\<rparr>
          = Inr (map (sf_sat F p) (rows_of (sf_vals F) cols n)))
   \<and> (length ids = 1 \<longrightarrow>
        (\<forall>f. phys_eval A (lp_physical_expr_physical_column_index p) f = map (\<lambda>v. sf_sat F p [v]) (sf_vals F f)))
   \<and> (\<forall>exprs. extract_multi_column_or (lp_physical_expr_physical_column_index p) = Some exprs \<longrightarrow>
        (\<forall>(name, e) \<in> set exprs. name \<in> fld_name ` set (cf_schema (sf_file F)))))"

section \<open>The state\<close>

definition batch_key :: "('a, 'm, 'v) scan_file \<Rightarrow> nat \<Rightarrow> nat \<Rightarrow> batch_id \<Rightarrow> entry_id" where
  "batch_key F g c b = entry_of_parquet_id (cap_entry_id (column_access_path_new (cf_file_id (sf_file F)) (of_nat g) (of_nat c)) b)"

definition holds_file :: "('a, 'm) parquet_lib \<Rightarrow> ('a, 'm, 'v) scan_file \<Rightarrow> (entry_id \<rightharpoonup> 'a) \<Rightarrow> bool" where
  "holds_file P F M \<longleftrightarrow> (\<forall>g < length (pm_row_groups (sf_meta F)). \<forall>c < length (cf_schema (sf_file F)). \<forall>b < 2 ^ 16. \<forall>a.
     M (batch_key F g c (nth_batch b)) = Some a \<longrightarrow>
       sf_vals F a = window (sf_batch_size F) b (sf_rows F g c) \<and> column_fits P (cf_schema (sf_file F) ! c) a)"

definition good ::
  "('a, 'l, 's, 'c, liquid_queue_state, 'm, 'b) runtime \<Rightarrow> ('a, 'm, 'v) scan_file \<Rightarrow>
   ('a, 'l, 's, 'c, liquid_queue_state) liquid_cache_parquet \<Rightarrow> (entry_id \<rightharpoonup> 'a) \<Rightarrow> bool" where
  "good R F ps M \<longleftrightarrow> caches (rt_env R) tq_synced (lcp_store ps) M \<and> holds_file (rt_lib R) F M
     \<and> lcp_batch_size ps = sf_batch_size F"

definition column_ok :: "('a, 'm) parquet_lib \<Rightarrow> ('a, 'm, 'v) scan_file \<Rightarrow> nat \<Rightarrow> nat \<Rightarrow> cached_column \<Rightarrow> bool" where
  "column_ok P F g c column \<longleftrightarrow> cc_field column = cf_schema (sf_file F) ! c
     \<and> cc_path column = column_access_path_new (cf_file_id (sf_file F)) (of_nat g) (of_nat c)
     \<and> cc_expression column = infer_expression P (cc_field column)"

definition group_ok :: "('a, 'm) parquet_lib \<Rightarrow> ('a, 'm, 'v) scan_file \<Rightarrow> nat \<Rightarrow> cached_row_group \<Rightarrow> bool" where
  "group_ok P F g rg \<longleftrightarrow>
     (\<forall>c < length (cf_schema (sf_file F)). \<exists>column. get_column rg c = Some column \<and> column_ok P F g c column)
   \<and> fld_name ` set (cf_schema (sf_file F)) \<subseteq> dom (crg_by_name rg)"

lemma runtime_okD:
  assumes "runtime_ok R vals"
  shows "rt_env R = default_env (arr (rt_env R))" "codec_ok (arr (rt_env R))" "no_variants (arr (rt_env R))"
    "insert_fuel st \<le> rt_fuel R st" "decodes (arr (rt_env R)) vals" "bare_columns_open (arr (rt_env R))"
    "reads_fit (arr (rt_env R)) (rt_lib R)" "answers_ok (rt_lib R)" "masks_ok (rt_lib R)" "splits_ok (rt_lib R)"
    "normalizes (row_selection_from (rt_lib R))" "bit_ops_ok (rt_bits R)" "\<exists>contents. builder_ok (rt_builder R) contents"
  using assms unfolding runtime_ok_def Let_def by blast+

lemma file_okD:
  assumes "file_ok P F"
  shows "pm_num_roots (sf_meta F) = length (cf_schema (sf_file F))" "pm_num_columns (sf_meta F) = length (cf_schema (sf_file F))"
    "l < length (cf_schema (sf_file F)) \<Longrightarrow> pm_root_of (sf_meta F) l = l"
    "length (cf_schema (sf_file F)) \<le> 2 ^ 16" "length (pm_row_groups (sf_meta F)) \<le> 2 ^ 16" "0 < sf_batch_size F"
    "r \<in> set (pm_row_groups (sf_meta F)) \<Longrightarrow> r \<le> sf_batch_size F * 2 ^ 16"
    "g < length (pm_row_groups (sf_meta F)) \<Longrightarrow> c < length (cf_schema (sf_file F)) \<Longrightarrow>
      length (sf_rows F g c) = pm_row_groups (sf_meta F) ! g"
    "f \<in> set (cf_schema (sf_file F)) \<Longrightarrow> variant_mappings_from_field P f = None"
    "f \<in> set (cf_schema (sf_file F)) \<Longrightarrow> fld_metadata f DATE_MAPPING_METADATA_KEY = None"
  using assms unfolding file_ok_def Let_def by blast+

lemma key_inj:
  assumes "g < 2 ^ 16" and "g' < 2 ^ 16" and "c < 2 ^ 16" and "c' < 2 ^ 16"
  shows "batch_key F g c b = batch_key F g' c' b' \<longleftrightarrow> g = g' \<and> c = c' \<and> b = b'"
proof -
  have u: "unat (ucast (of_nat k :: u64) :: u16) = k" if "k < 2 ^ 16" for k
    using that by (simp add: unat_ucast_u16 unat_of_nat)
  have "ucast (of_nat i :: u64) = (ucast (of_nat j :: u64) :: u16) \<longleftrightarrow> i = j" if "i < 2 ^ 16" "j < 2 ^ 16" for i j
    using u [OF that(1)] u [OF that(2)] by metis
  with assms usize_of_parquet_id_inj show ?thesis
    by (auto simp: batch_key_def entry_of_parquet_id_def cap_entry_id_def parquet_array_id_new_def column_access_path_new_def
      dest!: injD)
qed

section \<open>Columns\<close>

lemma column_entry_key: "column_ok P F g c column \<Longrightarrow> column_entry column b = batch_key F g c b"
  by (simp add: column_ok_def column_entry_def batch_key_def)

lemma shredded_plain: "variant_mappings_from_field P f = None \<Longrightarrow> shredded P f a = a"
  by (simp add: shredded_def maybe_shred_variant_array_def)

lemma infer_expression_plain:
  "variant_mappings_from_field P f = None \<Longrightarrow> fld_metadata f DATE_MAPPING_METADATA_KEY = None \<Longrightarrow>
    infer_expression P f = None \<or> infer_expression P f = Some SubstringSearch"
  by (simp add: infer_expression_def)

lemma plain_no_shortcut:
  "no_variants A \<Longrightarrow> x = None \<or> x = Some SubstringSearch \<Longrightarrow> \<not> shortcut A e x"
  by (auto simp: no_variants_def shortcut_def split: cache_entry.split)

lemma column_plain:
  assumes "file_ok P F" and "column_ok P F g c column" and "c < length (cf_schema (sf_file F))"
  shows "shredded P (cc_field column) a = a"
    "cc_expression column = None \<or> cc_expression column = Some SubstringSearch"
  using assms file_okD(9,10) [OF assms(1), of "cf_schema (sf_file F) ! c"] shredded_plain infer_expression_plain
  by (simp_all add: column_ok_def)

lemma reads_rows:
  assumes "runtime_ok R vals" and "reads_as (arr (rt_env R)) x (Some bs) a" and "length bs = length (vals a)"
  shows "vals x = pick bs (vals a)"
    and "column_fits (rt_lib R) f a \<Longrightarrow> True \<in> set bs \<Longrightarrow> column_fits (rt_lib R) f x"
proof -
  obtain r where r: "arrow_filter (arr (rt_env R)) a bs = Some r" "arrow_eq (arr (rt_env R)) x r"
    using assms(2) by (auto simp: reads_as_def)
  then show "vals x = pick bs (vals a)"
    using runtime_okD(5) [OF assms(1)] assms(3) unfolding decodes_def by metis
  show "column_fits (rt_lib R) f x" if "column_fits (rt_lib R) f a" "True \<in> set bs"
    using that r runtime_okD(7) [OF assms(1)] unfolding reads_fit_def by blast
qed

text \<open>A call of the store that keeps the map keeps the state good.\<close>

lemma on_store_good:
  assumes "good R F ps M" and "holds_file (rt_lib R) F M'"
    and "returns False (f (rt_env R) (rt_fuel R (lcp_store ps)) (lcp_store ps))
      (\<lambda>(r, st). caches (rt_env R) tq_synced st M' \<and> Q r)"
  shows "\<exists>r ps'. on_store R f ps = Ok (r, ps') \<and> good R F ps' M' \<and> Q r"
  using assms by (auto simp: on_store_def good_def)

lemma cached_entry:
  "caches E jinv st M \<Longrightarrow> M i = Some a \<Longrightarrow> \<exists>e. ix_map (c_index st) i = Some e"
  unfolding caches_def by blast

lemma good_store:
  assumes "runtime_ok R vals" and "good R F ps M"
  shows "caches (default_env (arr (rt_env R))) tq_synced (lcp_store ps) M" "holds_file (rt_lib R) F M"
    "read_lives (default_env (arr (rt_env R))) (rt_fuel R (lcp_store ps)) i (lcp_store ps)"
    "insert_lives (default_env (arr (rt_env R))) (rt_fuel R (lcp_store ps)) i ((lcp_store ps)\<lparr>c_hints := h\<rparr>)"
proof -
  note r = runtime_okD [OF assms(1)]
  show c: "caches (default_env (arr (rt_env R))) tq_synced (lcp_store ps) M" "holds_file (rt_lib R) F M"
    using assms(2) r(1) by (simp_all add: good_def)
  have "cache_ok (default_env (arr (rt_env R))) tq_synced (lcp_store ps)" using c(1) by (simp add: caches_def)
  then show "read_lives (default_env (arr (rt_env R))) (rt_fuel R (lcp_store ps)) i (lcp_store ps)"
    "insert_lives (default_env (arr (rt_env R))) (rt_fuel R (lcp_store ps)) i ((lcp_store ps)\<lparr>c_hints := h\<rparr>)"
    using default.insert_lives_liquid [where A = "arr (rt_env R)", OF _ _ r(4)] r(2) by simp_all
qed

lemma store_read:
  assumes "runtime_ok R vals" and "good R F ps M" and "M i = Some a" and "length bs = length (vals a)"
    and "x = None \<or> x = Some SubstringSearch"
  shows "\<exists>y ps'. on_store R (\<lambda>E n. read_arrow_array E n i (Some bs) x) ps = Ok (Some y, ps') \<and> good R F ps' M
    \<and> reads_as (arr (rt_env R)) y (Some bs) a"
proof -
  note r = runtime_okD [OF assms(1)]
  have E: "rt_env R = default_env (arr (rt_env R))" by (rule r(1))
  note c = good_store(1) [OF assms(1,2)] and h = good_store(2) [OF assms(1,2)] and live = good_store(3) [OF assms(1,2)]
  have A: "codec_ok (arr (default_env (arr (rt_env R))))" using r(2) by simp
  obtain e where e: "ix_map (c_index (lcp_store ps)) i = Some e" using cached_entry [OF c assms(3)] by blast
  have "arrow_len (arr (rt_env R)) a = length (vals a)" using r(5) by (simp add: decodes_def)
  then have "returns False (read_arrow_array (default_env (arr (rt_env R))) (rt_fuel R (lcp_store ps)) i (Some bs) x (lcp_store ps))
    (\<lambda>(r, st'). caches (default_env (arr (rt_env R))) tq_synced st' M \<and> (\<exists>y. r = Some y \<and> reads_as (arr (rt_env R)) y (Some bs) a))"
    using default.read_arrow_array_ok [OF A c assms(3) e _ _ disjI2 [OF live], of x "Some bs" False]
      plain_no_shortcut [OF r(3) assms(5)] assms(4)
    by (simp add: selection_fits_def)
  then show ?thesis
    using on_store_good [OF assms(2) h, where f = "\<lambda>E n. read_arrow_array E n i (Some bs) x" and Q = "\<lambda>r. \<exists>y. r = Some y \<and> reads_as (arr (rt_env R)) y (Some bs) a"]
    unfolding E [symmetric] by blast
qed

lemma store_eval:
  assumes "runtime_ok R vals" and "good R F ps M" and "M i = Some a" and "length bs = length (vals a)"
  shows "\<exists>y ps'. on_store R (\<lambda>E n. eval_predicate_internal E n i (Some bs) pr) ps = Ok (y, ps') \<and> good R F ps' M
    \<and> evaluates (arr (rt_env R)) pr (Some bs) a y"
proof -
  note r = runtime_okD [OF assms(1)]
  have E: "rt_env R = default_env (arr (rt_env R))" by (rule r(1))
  note c = good_store(1) [OF assms(1,2)] and h = good_store(2) [OF assms(1,2)] and live = good_store(3) [OF assms(1,2)]
  have A: "codec_ok (arr (default_env (arr (rt_env R))))" using r(2) by simp
  obtain e where e: "ix_map (c_index (lcp_store ps)) i = Some e" using cached_entry [OF c assms(3)] by blast
  have "arrow_len (arr (rt_env R)) a = length (vals a)" using r(5) by (simp add: decodes_def)
  then have "returns False (eval_predicate_internal (default_env (arr (rt_env R))) (rt_fuel R (lcp_store ps)) i (Some bs) pr (lcp_store ps))
    (\<lambda>(r, st'). caches (default_env (arr (rt_env R))) tq_synced st' M \<and> evaluates (arr (rt_env R)) pr (Some bs) a r)"
    using default.eval_predicate_ok [OF A c assms(3) e _ _ disjI2 [OF live], of "Some bs" False pr]
      no_variants_shortcut [OF r(3)] assms(4)
    by (simp add: selection_fits_def)
  then show ?thesis
    using on_store_good [OF assms(2) h, where f = "\<lambda>E n. eval_predicate_internal E n i (Some bs) pr" and Q = "evaluates (arr (rt_env R)) pr (Some bs) a"]
    unfolding E [symmetric] by blast
qed

lemma store_try_read_liquid:
  assumes "runtime_ok R vals" and "good R F ps M"
  shows "\<exists>y ps'. on_store R (\<lambda>E n. try_read_liquid E n i) ps = Ok (y, ps') \<and> good R F ps' M"
proof -
  note r = runtime_okD [OF assms(1)]
  have E: "rt_env R = default_env (arr (rt_env R))" by (rule r(1))
  note c = good_store(1) [OF assms(1,2)] and h = good_store(2) [OF assms(1,2)] and live = good_store(3) [OF assms(1,2)]
  have A: "codec_ok (arr (default_env (arr (rt_env R))))" using r(2) by simp
  have "returns False (try_read_liquid (default_env (arr (rt_env R))) (rt_fuel R (lcp_store ps)) i (lcp_store ps))
    (\<lambda>(r, st'). caches (default_env (arr (rt_env R))) tq_synced st' M \<and> True)"
    using default.try_read_liquid_ok [OF A c disjI2 [OF live], of False i] by auto
  then show ?thesis
    using on_store_good [OF assms(2) h, where f = "\<lambda>E n. try_read_liquid E n i" and Q = "\<lambda>_. True"]
    unfolding E [symmetric] by blast
qed

section \<open>Rows of a batch\<close>

abbreviation batch_rows :: "('a, 'm, 'v) scan_file \<Rightarrow> nat \<Rightarrow> nat \<Rightarrow> nat \<Rightarrow> 'v list" where
  "batch_rows F g b c \<equiv> window (sf_batch_size F) b (sf_rows F g c)"

definition batch_cached :: "('a, 'm, 'v) scan_file \<Rightarrow> (entry_id \<rightharpoonup> 'a) \<Rightarrow> nat \<Rightarrow> nat \<Rightarrow> nat list \<Rightarrow> bool" where
  "batch_cached F M g b ids \<longleftrightarrow> (\<forall>c \<in> set ids. c < length (cf_schema (sf_file F)) \<and> M (batch_key F g c (nth_batch b)) \<noteq> None)"

definition passes :: "('a, 'm, 'v) scan_file \<Rightarrow> nat \<Rightarrow> 'm liquid_predicate \<Rightarrow> nat \<Rightarrow> bool" where
  "passes F g p i = (sf_sat F p (map (\<lambda>c. sf_rows F g c ! i) (predicate_column_ids p)) = Some True)"

text \<open>The array \<open>x\<close> is column \<open>c\<close> of the batch, narrowed to the rows of the mask.\<close>

definition picked :: "('a, 'm) parquet_lib \<Rightarrow> ('a, 'm, 'v) scan_file \<Rightarrow> nat \<Rightarrow> nat \<Rightarrow> bool list \<Rightarrow> nat \<Rightarrow> 'a \<Rightarrow> bool" where
  "picked P F g b bits c x \<longleftrightarrow> sf_vals F x = pick bits (batch_rows F g b c) \<and> column_fits P (cf_schema (sf_file F) ! c) x"

text \<open>A mask for a batch: one bit per row.\<close>

definition mask_for :: "('a, 'm, 'v) scan_file \<Rightarrow> nat \<Rightarrow> nat \<Rightarrow> boolean_buffer \<Rightarrow> bool" where
  "mask_for F g b sel \<longleftrightarrow> bb_wf sel \<and> bb_offset sel = 0
     \<and> bb_len sel = min (sf_batch_size F) (pm_row_groups (sf_meta F) ! g - b * sf_batch_size F)"

lemma mask_for_length:
  assumes "file_ok P F" and "g < length (pm_row_groups (sf_meta F))" and "mask_for F g b sel"
    and "c < length (cf_schema (sf_file F))"
  shows "length (bb_bits sel) = length (batch_rows F g b c)"
  using assms(3) file_okD(8) [OF assms(1,2,4)] by (simp add: mask_for_def length_window)

lemma bits_some: "True \<in> set bs \<longleftrightarrow> count_list bs True \<noteq> 0"
  by (simp add: count_list_0_iff)

lemma good_batch:
  assumes "good R F ps M" and "batch_cached F M g b ids" and "c \<in> set ids"
    and "g < length (pm_row_groups (sf_meta F))" and "b < 2 ^ 16"
  obtains a where "M (batch_key F g c (nth_batch b)) = Some a" "sf_vals F a = batch_rows F g b c"
    "column_fits (rt_lib R) (cf_schema (sf_file F) ! c) a" "c < length (cf_schema (sf_file F))"
  using assms unfolding good_def holds_file_def batch_cached_def by blast

lemma column_read:
  assumes R: "runtime_ok R (sf_vals F)" and F: "file_ok (rt_lib R) F" and "good R F ps M"
    and "group_ok (rt_lib R) F g rg" and g: "g < length (pm_row_groups (sf_meta F))" and "b < 2 ^ 16"
    and "batch_cached F M g b ids" and "c \<in> set ids" and sel: "mask_for F g b sel" "True \<in> set (bb_bits sel)"
  shows "\<exists>column x ps'. get_column rg c = Some column \<and> cc_field column = cf_schema (sf_file F) ! c
    \<and> get_arrow_array_with_filter R column (nth_batch b) sel ps = Ok (Some x, ps') \<and> good R F ps' M
    \<and> picked (rt_lib R) F g b (bb_bits sel) c x"
proof -
  obtain a where a: "M (batch_key F g c (nth_batch b)) = Some a" "sf_vals F a = batch_rows F g b c"
    "column_fits (rt_lib R) (cf_schema (sf_file F) ! c) a" "c < length (cf_schema (sf_file F))"
    using good_batch [OF assms(3,7,8) g assms(6)] .
  obtain column where col: "get_column rg c = Some column" "column_ok (rt_lib R) F g c column"
    using assms(4) a(4) by (auto simp: group_ok_def)
  note plain = column_plain [OF F col(2) a(4)]
  have len: "length (bb_bits sel) = length (sf_vals F a)" using mask_for_length [OF F g sel(1) a(4)] a(2) by simp
  obtain y ps' where y: "on_store R (\<lambda>E n. read_arrow_array E n (batch_key F g c (nth_batch b)) (Some (bb_bits sel)) (cc_expression column)) ps = Ok (Some y, ps')"
    "good R F ps' M" "reads_as (arr (rt_env R)) y (Some (bb_bits sel)) a"
    using store_read [OF R assms(3) a(1) len plain(2)] by blast
  note rr = reads_rows [OF R y(3) len]
  have "picked (rt_lib R) F g b (bb_bits sel) c y"
    unfolding picked_def using rr(1) rr(2) [OF a(3) sel(2)] a(2) by simp
  with col y plain(1) show ?thesis
    by (auto simp: get_arrow_array_with_filter_def column_entry_key [OF col(2)] column_ok_def)
qed

lemma batch_cached_Cons:
  "batch_cached F M g b (c # ids) \<longleftrightarrow> c < length (cf_schema (sf_file F)) \<and> M (batch_key F g c (nth_batch b)) \<noteq> None \<and> batch_cached F M g b ids"
  by (auto simp: batch_cached_def)

lemma read_columns_ok:
  assumes R: "runtime_ok R (sf_vals F)" and F: "file_ok (rt_lib R) F"
    and "group_ok (rt_lib R) F g rg" and g: "g < length (pm_row_groups (sf_meta F))" and "b < 2 ^ 16"
    and sel: "mask_for F g b sel" "True \<in> set (bb_bits sel)"
  shows "good R F ps M \<Longrightarrow> batch_cached F M g b ids \<Longrightarrow>
    \<exists>cs ps'. read_columns R rg (nth_batch b) sel ids ps = Ok (Some cs, ps') \<and> good R F ps' M
      \<and> map fst cs = map ((!) (cf_schema (sf_file F))) ids \<and> list_all2 (picked (rt_lib R) F g b (bb_bits sel)) ids (map snd cs)"
proof (induction ids arbitrary: ps)
  case (Cons c ids)
  obtain column x ps1 where x: "get_column rg c = Some column" "cc_field column = cf_schema (sf_file F) ! c"
    "get_arrow_array_with_filter R column (nth_batch b) sel ps = Ok (Some x, ps1)" "good R F ps1 M"
    "picked (rt_lib R) F g b (bb_bits sel) c x"
    using column_read [OF R F Cons.prems(1) assms(3) g assms(5) Cons.prems(2) _ sel, of c] by auto
  obtain cs ps2 where "read_columns R rg (nth_batch b) sel ids ps1 = Ok (Some cs, ps2)" "good R F ps2 M"
    "map fst cs = map ((!) (cf_schema (sf_file F))) ids" "list_all2 (picked (rt_lib R) F g b (bb_bits sel)) ids (map snd cs)"
    using Cons.IH [OF x(4)] Cons.prems(2) by (auto simp: batch_cached_Cons)
  with x show ?case by simp
qed simp

lemma read_projection_ok:
  assumes R: "runtime_ok R (sf_vals F)" and F: "file_ok (rt_lib R) F"
    and "group_ok (rt_lib R) F g rg" and g: "g < length (pm_row_groups (sf_meta F))" and "b < 2 ^ 16"
    and sel: "mask_for F g b sel" "True \<in> set (bb_bits sel)"
  shows "good R F ps M \<Longrightarrow> batch_cached F M g b ids \<Longrightarrow>
    \<exists>xs ps'. read_projection R rg (nth_batch b) sel ids ps = Ok (Inr xs, ps') \<and> good R F ps' M
      \<and> list_all2 (picked (rt_lib R) F g b (bb_bits sel)) ids xs"
proof (induction ids arbitrary: ps)
  case (Cons c ids)
  obtain column x ps1 where x: "get_column rg c = Some column"
    "get_arrow_array_with_filter R column (nth_batch b) sel ps = Ok (Some x, ps1)" "good R F ps1 M"
    "picked (rt_lib R) F g b (bb_bits sel) c x"
    using column_read [OF R F Cons.prems(1) assms(3) g assms(5) Cons.prems(2) _ sel, of c] by auto
  obtain xs ps2 where "read_projection R rg (nth_batch b) sel ids ps1 = Ok (Inr xs, ps2)" "good R F ps2 M"
    "list_all2 (picked (rt_lib R) F g b (bb_bits sel)) ids xs"
    using Cons.IH [OF x(3)] Cons.prems(2) by (auto simp: batch_cached_Cons)
  with x show ?case by simp
qed simp

lemma picked_length:
  assumes "file_ok P F" and "g < length (pm_row_groups (sf_meta F))" and "mask_for F g b sel"
    and "c < length (cf_schema (sf_file F))" and "picked P F g b (bb_bits sel) c x"
  shows "length (sf_vals F x) = count_list (bb_bits sel) True"
  using length_pick [OF mask_for_length [OF assms(1-4)]] assms(5) by (simp add: picked_def)

lemma record_batch_of_picked:
  assumes R: "runtime_ok R (sf_vals F)" and "file_ok (rt_lib R) F" and "g < length (pm_row_groups (sf_meta F))"
    and "mask_for F g b sel" and xs: "list_all2 (picked (rt_lib R) F g b (bb_bits sel)) ids xs" and "ids \<noteq> []"
    and "\<forall>c \<in> set ids. c < length (cf_schema (sf_file F))"
  shows "record_batch_try_new (arr (rt_env R)) (rt_lib R) (map ((!) (cf_schema (sf_file F))) ids) xs
    = Some \<lparr>rb_schema = map ((!) (cf_schema (sf_file F))) ids, rb_columns = xs, rb_num_rows = count_list (bb_bits sel) True\<rparr>"
    and "list_all2 (column_fits (rt_lib R)) (map ((!) (cf_schema (sf_file F))) ids) xs"
    and "\<forall>x \<in> set xs. length (sf_vals F x) = count_list (bb_bits sel) True"
proof -
  show l: "\<forall>x \<in> set xs. length (sf_vals F x) = count_list (bb_bits sel) True"
    using xs assms(7) picked_length [OF assms(2-4)] by (metis list_all2_conv_all_nth in_set_conv_nth)
  show f: "list_all2 (column_fits (rt_lib R)) (map ((!) (cf_schema (sf_file F))) ids) xs"
    using xs by (auto simp: list_all2_conv_all_nth picked_def)
  obtain x ys where "xs = x # ys" using xs assms(6) by (cases xs) auto
  then show "record_batch_try_new (arr (rt_env R)) (rt_lib R) (map ((!) (cf_schema (sf_file F))) ids) xs
    = Some \<lparr>rb_schema = map ((!) (cf_schema (sf_file F))) ids, rb_columns = xs, rb_num_rows = count_list (bb_bits sel) True\<rparr>"
    using l f list_all2_lengthD [OF xs] runtime_okD(5) [OF R]
    by (auto simp: record_batch_try_new_def decodes_def list_all_iff)
qed

section \<open>Evaluating a predicate\<close>

lemma rows_of_pick:
  assumes "list_all2 (\<lambda>c x. vals x = pick bits (W c)) ids xs" and "\<forall>c \<in> set ids. length (W c) = length bits"
  shows "rows_of vals xs (count_list bits True) = pick bits (rows_of W ids (length bits))"
proof -
  let ?T = "true_positions 0 bits"
  have T: "pick bits [0..<length bits] = ?T"
    using pick_positions [of bits "[0..<length bits]"]
    by (simp, intro map_idI) (auto simp: set_true_positions)
  have len: "length ?T = count_list bits True" using T length_pick [of bits "[0..<length bits]"] by simp
  have "map (\<lambda>x. vals x ! i) xs = map (\<lambda>c. W c ! (?T ! i)) ids" if "i < length ?T" for i
    using assms that by (auto simp: list_all2_conv_all_nth list_eq_iff_nth_eq pick_positions)
  then have "rows_of vals xs (count_list bits True) = map (\<lambda>i. map (\<lambda>c. W c ! (?T ! i)) ids) [0..<length ?T]"
    unfolding rows_of_def len [symmetric] by (intro map_cong) auto
  also have "\<dots> = map (\<lambda>t. map (\<lambda>c. W c ! t) ids) ?T"
    by (rule nth_equalityI) simp_all
  also have "\<dots> = pick bits (rows_of W ids (length bits))" by (simp add: rows_of_def pick_map T)
  finally show ?thesis .
qed

text \<open>The rows of the batch on which a predicate is true, as a mask.\<close>

definition pass_mask :: "('a, 'm, 'v) scan_file \<Rightarrow> nat \<Rightarrow> nat \<Rightarrow> 'm liquid_predicate list \<Rightarrow> bool list" where
  "pass_mask F g b ps = map (\<lambda>i. \<forall>p \<in> set ps. passes F g p (b * sf_batch_size F + i))
     [0..<min (sf_batch_size F) (pm_row_groups (sf_meta F) ! g - b * sf_batch_size F)]"

lemma length_pass_mask: "mask_for F g b sel \<Longrightarrow> length (pass_mask F g b ps) = length (bb_bits sel)"
  by (simp add: pass_mask_def mask_for_def)

lemma row_answers:
  assumes "file_ok P F" and "g < length (pm_row_groups (sf_meta F))" and "mask_for F g b sel"
    and "\<forall>c \<in> set (predicate_column_ids p). c < length (cf_schema (sf_file F))"
  shows "map (\<lambda>row. sf_sat F p row = Some True) (rows_of (batch_rows F g b) (predicate_column_ids p) (length (bb_bits sel)))
    = pass_mask F g b [p]"
proof -
  have "window (sf_batch_size F) b (sf_rows F g c) ! i = sf_rows F g c ! (b * sf_batch_size F + i)"
    if "c \<in> set (predicate_column_ids p)" "i < length (bb_bits sel)" for c i
    by (rule window_nth) (use that assms(4) mask_for_length [OF assms(1-3)] in force)
  then have "map (\<lambda>c. batch_rows F g b c ! i) (predicate_column_ids p)
      = map (\<lambda>c. sf_rows F g c ! (b * sf_batch_size F + i)) (predicate_column_ids p)" if "i < length (bb_bits sel)" for i
    using that by simp
  moreover have "min (sf_batch_size F) (pm_row_groups (sf_meta F) ! g - b * sf_batch_size F) = length (bb_bits sel)"
    using assms(3) by (simp add: mask_for_def)
  ultimately show ?thesis
    unfolding pass_mask_def rows_of_def map_map by (intro map_cong) (auto simp: passes_def simp del: map_eq_conv)
qed

lemma predicate_okD:
  assumes "predicate_ok A P F p"
  shows "predicate_column_ids p \<noteq> []" "\<forall>c \<in> set (predicate_column_ids p). c < length (cf_schema (sf_file F))"
    "c \<in> set (predicate_column_ids p) \<Longrightarrow> leaf_included P (lp_projection_mask p) c"
    "list_all2 (column_fits P) (map ((!) (cf_schema (sf_file F))) (predicate_column_ids p)) cols \<Longrightarrow>
      \<forall>c \<in> set cols. length (sf_vals F c) = n \<Longrightarrow>
      predicate_evaluate P p \<lparr>rb_schema = map ((!) (cf_schema (sf_file F))) (predicate_column_ids p), rb_columns = cols, rb_num_rows = n\<rparr>
        = Inr (map (sf_sat F p) (rows_of (sf_vals F) cols n))"
    "predicate_column_ids p = [c] \<Longrightarrow>
      phys_eval A (lp_physical_expr_physical_column_index p) f = map (\<lambda>v. sf_sat F p [v]) (sf_vals F f)"
    "extract_multi_column_or (lp_physical_expr_physical_column_index p) = Some exprs \<Longrightarrow> (name, e) \<in> set exprs \<Longrightarrow>
      name \<in> fld_name ` set (cf_schema (sf_file F))"
proof -
  note d = assms [unfolded predicate_ok_def Let_def]
  show "predicate_column_ids p \<noteq> []" "\<forall>c \<in> set (predicate_column_ids p). c < length (cf_schema (sf_file F))"
    "c \<in> set (predicate_column_ids p) \<Longrightarrow> leaf_included P (lp_projection_mask p) c" using d by blast+
  show "list_all2 (column_fits P) (map ((!) (cf_schema (sf_file F))) (predicate_column_ids p)) cols \<Longrightarrow>
      \<forall>c \<in> set cols. length (sf_vals F c) = n \<Longrightarrow>
      predicate_evaluate P p \<lparr>rb_schema = map ((!) (cf_schema (sf_file F))) (predicate_column_ids p), rb_columns = cols, rb_num_rows = n\<rparr>
        = Inr (map (sf_sat F p) (rows_of (sf_vals F) cols n))" using d by blast
  show "phys_eval A (lp_physical_expr_physical_column_index p) f = map (\<lambda>v. sf_sat F p [v]) (sf_vals F f)"
    if "predicate_column_ids p = [c]" using d that by simp
  show "extract_multi_column_or (lp_physical_expr_physical_column_index p) = Some exprs \<Longrightarrow> (name, e) \<in> set exprs \<Longrightarrow>
      name \<in> fld_name ` set (cf_schema (sf_file F))" using d by blast
qed

lemma evaluate_picked:
  assumes R: "runtime_ok R (sf_vals F)" and F: "file_ok (rt_lib R) F" and g: "g < length (pm_row_groups (sf_meta F))"
    and p: "predicate_ok (arr (rt_env R)) (rt_lib R) F p" and sel: "mask_for F g b sel"
    and xs: "list_all2 (picked (rt_lib R) F g b (bb_bits sel)) (predicate_column_ids p) xs"
  shows "\<exists>ans. predicate_evaluate (rt_lib R) p \<lparr>rb_schema = map ((!) (cf_schema (sf_file F))) (predicate_column_ids p),
      rb_columns = xs, rb_num_rows = count_list (bb_bits sel) True\<rparr> = Inr ans
    \<and> map (\<lambda>x. x = Some True) ans = pick (bb_bits sel) (pass_mask F g b [p])"
proof -
  note rb = record_batch_of_picked [OF R F g sel xs predicate_okD(1,2) [OF p]]
  let ?ids = "predicate_column_ids p"
  have "rows_of (sf_vals F) xs (count_list (bb_bits sel) True) = pick (bb_bits sel) (rows_of (batch_rows F g b) ?ids (length (bb_bits sel)))"
  proof (rule rows_of_pick)
    show "list_all2 (\<lambda>c x. sf_vals F x = pick (bb_bits sel) (batch_rows F g b c)) ?ids xs"
      using xs by (rule list_all2_mono) (simp add: picked_def)
    show "\<forall>c \<in> set ?ids. length (batch_rows F g b c) = length (bb_bits sel)"
      using mask_for_length [OF F g sel] predicate_okD(2) [OF p] by metis
  qed
  then have "map (\<lambda>x. x = Some True) (map (sf_sat F p) (rows_of (sf_vals F) xs (count_list (bb_bits sel) True)))
    = pick (bb_bits sel) (pass_mask F g b [p])"
    using row_answers [OF F g sel predicate_okD(2) [OF p]] by (simp add: pick_map [symmetric] comp_def)
  with predicate_okD(4) [OF p rb(2,3)] show ?thesis by auto
qed

lemma truth_without_nulls:
  assumes "answers_ok P"
  shows "map (\<lambda>x. x = Some True) (without_nulls P xs) = map (\<lambda>x. x = Some True) xs" "None \<notin> set (without_nulls P xs)"
  using assms by (auto simp: without_nulls_def answers_ok_def count_list_0_iff)

end
