(* ===== verification/ScanBatch.thy ===== *)
theory ScanBatch
  imports ScanReads
begin

text \<open>
  One batch of a scan: evaluating a predicate on the selected rows, narrowing the mask predicate by
  predicate, and reading the projected columns of what is left.
\<close>

section \<open>Evaluating a predicate on a batch\<close>

lemma rows_of_single: "length (W c) = n \<Longrightarrow> rows_of W [c] n = map (\<lambda>v. [v]) (W c)"
  unfolding rows_of_def by (rule nth_equalityI) simp_all

lemma evaluate_one_column:
  assumes R: "runtime_ok R (sf_vals F)" and F: "file_ok (rt_lib R) F" and "good R F ps M"
    and "group_ok (rt_lib R) F g rg" and g: "g < length (pm_row_groups (sf_meta F))" and "b < 2 ^ 16"
    and "batch_cached F M g b [c]" and sel: "mask_for F g b sel" "True \<in> set (bb_bits sel)"
    and p: "predicate_ok (arr (rt_env R)) (rt_lib R) F p" "predicate_column_ids p = [c]"
  shows "\<exists>column ans ps'. get_column rg c = Some column
    \<and> eval_predicate_with_filter R column (nth_batch b) sel p ps = Ok (Some (Inr ans), ps') \<and> good R F ps' M
    \<and> map (\<lambda>x. x = Some True) ans = pick (bb_bits sel) (pass_mask F g b [p])"
proof -
  let ?A = "arr (rt_env R)" let ?P = "rt_lib R" let ?bits = "bb_bits sel"
  obtain a where a: "M (batch_key F g c (nth_batch b)) = Some a" "sf_vals F a = batch_rows F g b c"
    "column_fits ?P (cf_schema (sf_file F) ! c) a" "c < length (cf_schema (sf_file F))"
    using good_batch [OF assms(3,7) _ g assms(6), of c] by auto
  obtain column where col: "get_column rg c = Some column" "column_ok ?P F g c column"
    using assms(4) a(4) by (auto simp: group_ok_def)
  have len: "length ?bits = length (sf_vals F a)" using mask_for_length [OF F g sel(1) a(4)] a(2) by simp
  obtain y ps' where y: "on_store R (\<lambda>E n. eval_predicate_internal E n (column_entry column (nth_batch b)) (Some ?bits)
      (lp_physical_expr_physical_column_index p)) ps = Ok (y, ps')" "good R F ps' M"
    "evaluates ?A (lp_physical_expr_physical_column_index p) (Some ?bits) a y"
    using store_eval [OF R assms(3) a(1) len] unfolding column_entry_key [OF col(2)] by blast
  note truth = truth_without_nulls [OF runtime_okD(8) [OF R]]
  obtain f where f: "arrow_filter ?A a ?bits = Some f"
    and cs: "case y of Some (Inr buf) \<Rightarrow> buf = phys_eval ?A (lp_physical_expr_physical_column_index p) f
      | Some (Inl x) \<Rightarrow> arrow_eq ?A x f | None \<Rightarrow> False"
    using y(3) by (auto simp: evaluates_def selection_or_all_def)
  have vf: "sf_vals F f = pick ?bits (batch_rows F g b c)"
    using runtime_okD(5) [OF R, unfolded decodes_def] len f a(2) by metis
  show ?thesis
  proof (cases y)
    case (Some r)
    show ?thesis
    proof (cases r)
      case (Inr buf)
      have "rows_of (batch_rows F g b) [c] (length ?bits) = map (\<lambda>v. [v]) (batch_rows F g b c)"
        by (rule rows_of_single) (simp only: len a(2))
      then have "map (\<lambda>v. sf_sat F p [v] = Some True) (batch_rows F g b c) = pass_mask F g b [p]"
        using row_answers [OF F g sel(1), of p] p(2) a(4) by (simp add: comp_def)
      then have "map (\<lambda>x. x = Some True) buf = pick ?bits (pass_mask F g b [p])"
        using cs Some Inr predicate_okD(5) [OF p] vf by (simp add: comp_def pick_map [symmetric])
      with col y(1,2) Some Inr truth(1) show ?thesis by (simp add: eval_predicate_with_filter_def)
    next
      case (Inl x)
      have "reads_as ?A x (Some ?bits) a" using cs Some Inl f by (simp add: reads_as_def)
      then have "picked ?P F g b ?bits c x"
        unfolding picked_def using reads_rows [OF R _ len, of x] a(2,3) sel(2) by auto
      then have xs: "list_all2 (picked ?P F g b ?bits) (predicate_column_ids p) [x]" by (simp add: p(2))
      note rb = record_batch_of_picked(1) [OF R F g sel(1) xs predicate_okD(1,2) [OF p(1)]]
      obtain ans where "predicate_evaluate ?P p \<lparr>rb_schema = map ((!) (cf_schema (sf_file F))) (predicate_column_ids p),
          rb_columns = [x], rb_num_rows = count_list ?bits True\<rparr> = Inr ans"
        "map (\<lambda>x. x = Some True) ans = pick ?bits (pass_mask F g b [p])"
        using evaluate_picked [OF R F g p(1) sel(1) xs] by blast
      with col y(1,2) Some Inl truth(1) rb column_plain(1) [OF F col(2) a(4)] p(2) show ?thesis
        by (simp add: eval_predicate_with_filter_def column_ok_def)
    qed
  qed (use cs in simp)
qed

lemma evaluate_on_arrays_ok:
  assumes R: "runtime_ok R (sf_vals F)" and F: "file_ok (rt_lib R) F" and "good R F ps M"
    and "group_ok (rt_lib R) F g rg" and g: "g < length (pm_row_groups (sf_meta F))" and "b < 2 ^ 16"
    and "batch_cached F M g b (predicate_column_ids p)" and sel: "mask_for F g b sel" "True \<in> set (bb_bits sel)"
    and p: "predicate_ok (arr (rt_env R)) (rt_lib R) F p"
  shows "\<exists>ans ps'. evaluate_on_arrays R rg (nth_batch b) sel p ps = Ok (Some (Inr ans), ps') \<and> good R F ps' M
    \<and> map (\<lambda>x. x = Some True) ans = pick (bb_bits sel) (pass_mask F g b [p])"
proof -
  obtain cs ps' where cs: "read_columns R rg (nth_batch b) sel (predicate_column_ids p) ps = Ok (Some cs, ps')" "good R F ps' M"
    "map fst cs = map ((!) (cf_schema (sf_file F))) (predicate_column_ids p)"
    "list_all2 (picked (rt_lib R) F g b (bb_bits sel)) (predicate_column_ids p) (map snd cs)"
    using read_columns_ok [OF R F assms(4) g assms(6) sel assms(3,7)] by blast
  note rb = record_batch_of_picked(1) [OF R F g sel(1) cs(4) predicate_okD(1,2) [OF p]]
  obtain ans where "predicate_evaluate (rt_lib R) p \<lparr>rb_schema = map ((!) (cf_schema (sf_file F))) (predicate_column_ids p),
      rb_columns = map snd cs, rb_num_rows = count_list (bb_bits sel) True\<rparr> = Inr ans"
    "map (\<lambda>x. x = Some True) ans = pick (bb_bits sel) (pass_mask F g b [p])"
    using evaluate_picked [OF R F g p sel(1) cs(4)] by blast
  with cs rb show ?thesis by (simp add: evaluate_on_arrays_def)
qed

text \<open>The shortcut for an \<open>OR\<close> over columns never answers: it asks Liquid arrays for bare columns.\<close>

lemma collected_bare_columns:
  "extract_column_literal e = Some (name, x) \<Longrightarrow> \<exists>i. x = EColumn name i"
  by (induction e rule: extract_column_literal.induct) (auto split: if_splits)

lemma collect_bare:
  "collect_or_expressions e acc = (ok, res) \<Longrightarrow> (\<forall>(name, x) \<in> set acc. \<exists>i. x = EColumn name i) \<Longrightarrow>
    (\<forall>(name, x) \<in> set res. \<exists>i. x = EColumn name i)"
  by (induction e acc arbitrary: ok res rule: collect_or_expressions.induct)
    (fastforce simp: Let_def dest: collected_bare_columns split: prod.splits option.splits if_splits)+

lemma extract_bare:
  assumes "extract_multi_column_or e = Some exprs" and "(name, x) \<in> set exprs"
  shows "\<exists>i. x = EColumn name i"
proof -
  obtain ok res where c: "collect_or_expressions e [] = (ok, res)" by fastforce
  with assms(1) have "res = exprs" by (auto simp: extract_multi_column_or_def split: if_splits)
  with collect_bare [OF c] assms(2) show ?thesis by auto
qed

lemma or_loop_gives_up:
  assumes R: "runtime_ok R (sf_vals F)" and "good R F ps M" and "exprs \<noteq> []"
    and "\<forall>(name, x) \<in> set exprs. (\<exists>i. x = EColumn name i) \<and> name \<in> dom (crg_by_name rg)"
  shows "\<exists>ps'. or_loop R rg b sel exprs None ps = Ok (Some None, ps') \<and> good R F ps' M"
proof -
  obtain name x rest where e: "exprs = (name, x) # rest" using assms(3) by (cases exprs) auto
  with assms(4) obtain i column where x: "x = EColumn name i" "get_column_by_name rg name = Some column"
    by (auto simp: get_column_by_name_def)
  obtain y ps' where y: "on_store R (\<lambda>E n. try_read_liquid E n (column_entry column b)) ps = Ok (y, ps')" "good R F ps' M"
    using store_try_read_liquid [OF R assms(2)] by blast
  have "liquid_try_eval (arr (rt_env R)) l x bits = None" for l bits
    using runtime_okD(6) [OF R] x(1) by (simp add: bare_columns_open_def)
  with e x y show ?thesis by (cases y) simp_all
qed

lemma evaluate_selection_ok:
  assumes R: "runtime_ok R (sf_vals F)" and F: "file_ok (rt_lib R) F" and ps: "good R F ps M"
    and rg: "group_ok (rt_lib R) F g rg" and g: "g < length (pm_row_groups (sf_meta F))" and b: "b < 2 ^ 16"
    and bc: "batch_cached F M g b (predicate_column_ids p)" and sel: "mask_for F g b sel" "True \<in> set (bb_bits sel)"
    and p: "predicate_ok (arr (rt_env R)) (rt_lib R) F p"
  shows "\<exists>ans ps'. evaluate_selection_with_predicate R rg (nth_batch b) sel p ps = Ok (Some (Inr ans), ps') \<and> good R F ps' M
    \<and> map (\<lambda>x. x = Some True) ans = pick (bb_bits sel) (pass_mask F g b [p])"
proof (cases "\<exists>c. predicate_column_ids p = [c]")
  case True
  then obtain c where c: "predicate_column_ids p = [c]" by blast
  with bc have "batch_cached F M g b [c]" by simp
  from evaluate_one_column [OF R F ps rg g b this sel p c] c show ?thesis
    by (auto simp: evaluate_selection_with_predicate_def)
next
  case False
  with predicate_okD(1) [OF p] obtain c1 c2 cs where ids: "predicate_column_ids p = c1 # c2 # cs"
    by (metis neq_Nil_conv)
  let ?or = "if length (predicate_column_ids p) \<ge> 2 then extract_multi_column_or (lp_physical_expr_physical_column_index p) else None"
  have eval: "evaluate_selection_with_predicate R rg (nth_batch b) sel p ps = (case ?or of
      Some exprs \<Rightarrow> obind (or_loop R rg (nth_batch b) sel exprs None ps) (\<lambda>(result, ps1). case result of
          None \<Rightarrow> Ok (None, ps1) | Some (Some answers) \<Rightarrow> Ok (Some (Inr answers), ps1)
        | Some None \<Rightarrow> evaluate_on_arrays R rg (nth_batch b) sel p ps1)
    | None \<Rightarrow> evaluate_on_arrays R rg (nth_batch b) sel p ps)"
    unfolding evaluate_selection_with_predicate_def ids by (simp only: list.case)
  show ?thesis
  proof (cases ?or)
    case None
    then have "evaluate_selection_with_predicate R rg (nth_batch b) sel p ps = evaluate_on_arrays R rg (nth_batch b) sel p ps"
      unfolding eval by simp
    with evaluate_on_arrays_ok [OF R F ps rg g b bc sel p] show ?thesis by metis
  next
    case (Some exprs)
    then have ex: "extract_multi_column_or (lp_physical_expr_physical_column_index p) = Some exprs" by (simp split: if_splits)
    then have ne: "exprs \<noteq> []" by (auto simp: extract_multi_column_or_def Let_def split: prod.splits if_splits)
    have bare: "\<forall>(name, x) \<in> set exprs. (\<exists>i. x = EColumn name i) \<and> name \<in> dom (crg_by_name rg)"
    proof (clarify)
      fix name x assume x: "(name, x) \<in> set exprs"
      have "fld_name ` set (cf_schema (sf_file F)) \<subseteq> dom (crg_by_name rg)" using rg by (simp add: group_ok_def)
      with predicate_okD(6) [OF p ex x] extract_bare [OF ex x]
      show "(\<exists>i. x = EColumn name i) \<and> name \<in> dom (crg_by_name rg)" by (simp only: subset_iff)
    qed
    obtain ps1 where ps1: "or_loop R rg (nth_batch b) sel exprs None ps = Ok (Some None, ps1)" "good R F ps1 M"
      using or_loop_gives_up [OF R ps ne bare] by blast
    have "evaluate_selection_with_predicate R rg (nth_batch b) sel p ps = evaluate_on_arrays R rg (nth_batch b) sel p ps1"
      unfolding eval Some by (simp add: ps1(1))
    with evaluate_on_arrays_ok [OF R F ps1(2) rg g b bc sel p] show ?thesis by metis
  qed
qed

section \<open>The row filter\<close>

lemma and_then_mask:
  assumes "bit_ops_ok B" and "bb_wf left" and "bb_wf right" and "bb_offset left = 0" and "bb_offset right = 0"
    and "count_list (bb_bits left) True = bb_len right"
  shows "\<exists>m. boolean_buffer_and_then B bmi2 meml memr left right = Some m
    \<and> bb_bits m = and_then (bb_bits left) (bb_bits right) \<and> bb_wf m \<and> bb_offset m = 0 \<and> bb_len m = bb_len left"
proof -
  obtain m where m: "boolean_buffer_and_then B bmi2 meml memr left right = Some m"
    "bb_bits m = and_then (bb_bits left) (bb_bits right)" using and_then_correct [OF assms] by blast
  have "length (bb_bits m) = length (bb_bits left)" using m(2) by simp
  then have len: "bb_len m = bb_len left" by simp
  note p = packed_bits [OF assms(2-6)]
  consider "bb_len left = bb_len right" "m = right"
    | "m = boolean_buffer_and_then_bmi2 meml memr left right"
    | buf where "m = \<lparr>bb_values = buf, bb_offset = 0, bb_len = bb_len left\<rparr>"
        "fallback_loop B (bb_set_indices B left) (bb_iter B right) (bb_values left) = Some buf"
    using m(1) by (auto simp: boolean_buffer_and_then_def boolean_buffer_and_then_fallback_def split: if_splits)
  then have "bb_wf m \<and> bb_offset m = 0"
  proof cases
    case 1
    with assms show ?thesis by simp
  next
    case 2
    obtain out rbi where st: "fold (bmi2_word meml memr left right) [0..<bb_len left div 64]
        (replicate ((bb_len left + 7) div 8) 0, 0) = (out, rbi)" by fastforce
    have "bmi2_inv left right (64 * (bb_len left div 64)) (out, rbi)"
      using bmi2_words_inv [OF p order_refl, of meml memr] st by simp
    from bmi2_tail_inv [OF p this] have "length (bmi2_tail meml memr left right (out, rbi)) = (bb_len left + 7) div 8"
      by (auto simp: bmi2_inv_def)
    with 2 st show ?thesis by (simp add: boolean_buffer_and_then_bmi2_def Let_def bb_wf_def)
  next
    case (3 buf)
    have "distinct (bb_set_indices B left)" "\<forall>i \<in> set (bb_set_indices B left). i < 8 * length (bb_values left)"
      "length (bb_set_indices B left) \<le> length (bb_iter B right)"
      using assms by (auto simp: bit_ops_ok_def bb_wf_def count_list_rank rank_def)
    with fallback_loop_bits [OF assms(1), of "bb_set_indices B left" "bb_iter B right" "bb_values left"] 3(2)
    have "length buf = length (bb_values left)" by auto
    with 3(1) assms(2,4) show ?thesis by (simp add: bb_wf_def)
  qed
  with m len show ?thesis by blast
qed

lemma pass_mask_Cons: "pass_mask F g b (p # ps) = map2 (\<and>) (pass_mask F g b [p]) (pass_mask F g b ps)"
  by (simp add: pass_mask_def list_eq_iff_nth_eq)

lemma map2_and_assoc: "length xs = length ys \<Longrightarrow> length ys = length zs \<Longrightarrow>
    map2 (\<and>) (map2 (\<and>) xs ys) zs = map2 (\<and>) xs (map2 (\<and>) ys (zs :: bool list))"
  by (simp add: list_eq_iff_nth_eq)

lemma map2_and_none: "True \<notin> set xs \<Longrightarrow> length xs = length ys \<Longrightarrow> map2 (\<and>) xs ys = (xs :: bool list)"
  by (auto simp: list_eq_iff_nth_eq in_set_conv_nth)

lemma apply_predicates_ok:
  assumes R: "runtime_ok R (sf_vals F)" and F: "file_ok (rt_lib R) F"
    and rg: "group_ok (rt_lib R) F g rg" and g: "g < length (pm_row_groups (sf_meta F))" and b: "b < 2 ^ 16"
  shows "good R F ps M \<Longrightarrow> \<forall>p \<in> set preds. predicate_ok (arr (rt_env R)) (rt_lib R) F p \<and> batch_cached F M g b (predicate_column_ids p) \<Longrightarrow>
    mask_for F g b sel \<Longrightarrow>
    \<exists>m ps'. apply_predicates R rg (nth_batch b) preds sel ps = Ok (Inr m, ps') \<and> good R F ps' M \<and> mask_for F g b m
      \<and> bb_bits m = map2 (\<and>) (bb_bits sel) (pass_mask F g b preds)"
proof (induction preds arbitrary: ps sel)
  case Nil
  have "bb_bits sel = map2 (\<and>) (bb_bits sel) (pass_mask F g b [])"
    using length_pass_mask [OF Nil.prems(3), of "[]"] by (simp add: list_eq_iff_nth_eq) (simp add: pass_mask_def)
  with Nil show ?case by simp
next
  case (Cons p preds)
  show ?case
  proof (cases "True \<in> set (bb_bits sel)")
    case False
    then have "bb_bits sel = map2 (\<and>) (bb_bits sel) (pass_mask F g b (p # preds))"
      using map2_and_none [OF False] length_pass_mask [OF Cons.prems(3)] by metis
    with False Cons.prems bits_some [of "bb_bits sel"] show ?thesis by simp
  next
    case True
    obtain ans ps1 where e: "evaluate_selection_with_predicate R rg (nth_batch b) sel p ps = Ok (Some (Inr ans), ps1)"
      "good R F ps1 M" "map (\<lambda>x. x = Some True) ans = pick (bb_bits sel) (pass_mask F g b [p])"
      using evaluate_selection_ok [OF R F Cons.prems(1) rg g b _ Cons.prems(3) True, of p] Cons.prems(2) by auto
    let ?mask = "answer_buffer (rt_lib R) (without_nulls (rt_lib R) ans)"
    note aok = runtime_okD(8) [OF R]
    note truth = truth_without_nulls [OF aok, of ans]
    have mask: "bb_wf ?mask" "bb_offset ?mask = 0" "bb_bits ?mask = pick (bb_bits sel) (pass_mask F g b [p])"
      using aok truth e(3) by (simp_all add: answers_ok_def)
    have lp: "length (pass_mask F g b [p]) = length (bb_bits sel)" using length_pass_mask [OF Cons.prems(3)] .
    have "bb_len ?mask = length (bb_bits ?mask)" by simp
    also have "\<dots> = count_list (bb_bits sel) True" unfolding mask(3) using length_pick lp by metis
    finally have cnt: "count_list (bb_bits sel) True = bb_len ?mask" by simp
    have selwf: "bb_wf sel" "bb_offset sel = 0" using Cons.prems(3) by (simp_all add: mask_for_def)
    obtain m where m: "boolean_buffer_and_then (rt_bits R) (rt_bmi2 R) (rt_left_memory R) (rt_right_memory R) sel ?mask = Some m"
      "bb_bits m = and_then (bb_bits sel) (bb_bits ?mask)" "bb_wf m" "bb_offset m = 0" "bb_len m = bb_len sel"
      using and_then_mask [OF runtime_okD(12) [OF R] selwf(1) mask(1) selwf(2) mask(2) cnt] by blast
    have bits: "bb_bits m = map2 (\<and>) (bb_bits sel) (pass_mask F g b [p])"
      unfolding m(2) mask(3) by (rule and_then_pick [OF lp])
    have mm: "mask_for F g b m" using m(3-5) Cons.prems(3) by (simp add: mask_for_def)
    obtain m' ps' where m': "apply_predicates R rg (nth_batch b) preds m ps1 = Ok (Inr m', ps')" "good R F ps' M" "mask_for F g b m'"
      "bb_bits m' = map2 (\<and>) (bb_bits m) (pass_mask F g b preds)"
      using Cons.IH [OF e(2) _ mm] Cons.prems(2) by auto
    have "bb_bits m' = map2 (\<and>) (bb_bits sel) (pass_mask F g b (p # preds))"
      unfolding m'(4) bits pass_mask_Cons [of F g b p preds]
      by (rule map2_and_assoc) (use lp length_pass_mask [OF Cons.prems(3), of preds] in simp_all)
    with e(1) m(1) m'(1-3) True bits_some [of "bb_bits sel"] show ?thesis by simp
  qed
qed

end
