(* ===== verification/ScanReader.thy ===== *)
theory ScanReader
  imports ScanBatch
begin

text \<open>
  Polling the reader of a row group. \<open>kept\<close> is the mask of the rows the reader is to deliver; a
  reader that stands at batch \<open>b\<close> delivers the rows of the masks from row \<open>b\<close> times the batch size
  on, in order, and then ends.
\<close>

section \<open>The rows to deliver\<close>

definition kept :: "('a, 'm, 'v) scan_file \<Rightarrow> nat \<Rightarrow> 'm liquid_predicate list \<Rightarrow> bool list \<Rightarrow> bool list" where
  "kept F g preds bits = map2 (\<and>) bits (map (\<lambda>i. \<forall>p \<in> set preds. passes F g p i) [0..<length bits])"

lemma length_kept [simp]: "length (kept F g preds bits) = length bits"
  by (simp add: kept_def)

lemma length_window_bits:
  "length (window n b (xs :: 'x list)) = min n (length xs - b * n)"
  by (simp add: window_def)

lemma window_kept:
  assumes "length bits = pm_row_groups (sf_meta F) ! g"
  shows "window (sf_batch_size F) b (kept F g preds bits) = map2 (\<and>) (window (sf_batch_size F) b bits) (pass_mask F g b preds)"
  using assms by (simp add: list_eq_iff_nth_eq length_window_bits kept_def pass_mask_def)
    (simp add: window_nth length_window_bits kept_def less_diff_conv add.commute)

lemma pick_window_split:
  assumes "length K = length xs"
  shows "pick (drop (b * n) K) (drop (b * n) xs)
    = pick (window n b K) (window n b xs) @ pick (drop (Suc b * n) K) (drop (Suc b * n) xs)"
proof -
  let ?K = "drop (b * n) K" let ?x = "drop (b * n) xs"
  have "pick ?K ?x = pick (take n ?K @ drop n ?K) ?x" by (simp only: append_take_drop_id)
  also have "\<dots> = pick (take n ?K) ?x @ pick (drop n ?K) (drop (length (take n ?K)) ?x)"
    by (subst pick_append) (simp add: pick_take)
  also have "pick (take n ?K) ?x = pick (take n ?K) (take n ?x)" by (rule pick_take [symmetric]) simp
  also have "pick (drop n ?K) (drop (length (take n ?K)) ?x) = pick (drop n ?K) (drop n ?x)"
    using assms by (cases "n \<le> length ?K") (simp_all add: min_def)
  finally show ?thesis by (simp add: window_def add.commute)
qed

lemma count_window_split:
  "count_list (drop (b * n) K) True = count_list (window n b K) True + count_list (drop (Suc b * n) K) True"
proof -
  have "count_list (take n (drop (b * n) K) @ drop n (drop (b * n) K)) True = count_list (drop (b * n) K) True"
    by (simp only: append_take_drop_id)
  then show ?thesis unfolding window_def count_list_append drop_drop by simp
qed

section \<open>One batch\<close>

definition rows_read :: "('a, 'm, 'v) scan_file \<Rightarrow> nat \<Rightarrow> nat \<Rightarrow> bool list \<Rightarrow> nat list \<Rightarrow> 'a record_batch \<Rightarrow> bool" where
  "rows_read F g b K ids rb \<longleftrightarrow> rb_num_rows rb = count_list K True
     \<and> list_all2 (\<lambda>c x. sf_vals F x = pick K (batch_rows F g b c)) ids (rb_columns rb)"

text \<open>Every batch with a selected row is cached for the projected and the predicates' columns.\<close>

definition batches_ready ::
  "('a, 'm, 'v) scan_file \<Rightarrow> (entry_id \<rightharpoonup> 'a) \<Rightarrow> nat \<Rightarrow> nat list \<Rightarrow> 'm liquid_predicate list \<Rightarrow> bool list \<Rightarrow> bool" where
  "batches_ready F M g ids preds bits \<longleftrightarrow> (\<forall>b. True \<in> set (window (sf_batch_size F) b bits) \<longrightarrow>
     batch_cached F M g b ids \<and> (\<forall>p \<in> set preds. batch_cached F M g b (predicate_column_ids p)))"

definition filter_list :: "'m row_filter option \<Rightarrow> 'm liquid_predicate list" where
  "filter_list filt = (case filt of Some preds \<Rightarrow> preds | None \<Rightarrow> [])"

definition reads_group ::
  "('a, 'l, 's, 'c, 'p, 'm, 'b) runtime \<Rightarrow> ('a, 'm, 'v) scan_file \<Rightarrow> nat \<Rightarrow> nat list \<Rightarrow> reader_inner \<Rightarrow> bool" where
  "reads_group R F g ids inner \<longleftrightarrow> group_ok (rt_lib R) F g (ri_cached_row_group inner) \<and> ri_projection_columns inner = ids
     \<and> ri_schema inner = map ((!) (cf_schema (sf_file F))) ids \<and> (\<forall>c \<in> set ids. c < length (cf_schema (sf_file F)))"

lemma mask_bits: "mask_for F g b sel \<Longrightarrow> count_list (bb_bits sel) True = 0 \<longleftrightarrow> True \<notin> set (bb_bits sel)"
  by (simp add: count_list_0_iff)

lemma read_from_cache_ok:
  assumes R: "runtime_ok R (sf_vals F)" and F: "file_ok (rt_lib R) F" and ps: "good R F ps M"
    and inner: "reads_group R F g ids inner" "ri_current_batch_id inner = nth_batch b"
    and g: "g < length (pm_row_groups (sf_meta F))" and b: "b < 2 ^ 16" and sel: "mask_for F g b sel"
    and bc: "True \<in> set (bb_bits sel) \<Longrightarrow> batch_cached F M g b ids"
  shows "\<exists>r ps'. read_from_cache R inner sel ps = Ok (Inr r, ps') \<and> good R F ps' M
    \<and> (if True \<in> set (bb_bits sel) then \<exists>rb. r = Some rb \<and> rows_read F g b (bb_bits sel) ids rb else r = None)"
proof (cases "True \<in> set (bb_bits sel)")
  case False
  with ps show ?thesis by (simp add: read_from_cache_def count_list_0_iff)
next
  case True
  then have cnt: "count_list (bb_bits sel) True \<noteq> 0" by (simp add: count_list_0_iff)
  note i = inner(1) [unfolded reads_group_def]
  show ?thesis
  proof (cases "ids = []")
    case True
    with i cnt ps \<open>True \<in> set (bb_bits sel)\<close> show ?thesis by (simp add: read_from_cache_def rows_read_def)
  next
    case False
    have rg: "group_ok (rt_lib R) F g (ri_cached_row_group inner)" using i by blast
    obtain xs ps' where xs: "read_projection R (ri_cached_row_group inner) (nth_batch b) sel ids ps = Ok (Inr xs, ps')"
      "good R F ps' M" "list_all2 (picked (rt_lib R) F g b (bb_bits sel)) ids xs"
      using read_projection_ok [OF R F rg g b sel True ps bc [OF True]] by blast
    note rb = record_batch_of_picked(1) [OF R F g sel xs(3) False]
    have "rows_read F g b (bb_bits sel) ids \<lparr>rb_schema = map ((!) (cf_schema (sf_file F))) ids, rb_columns = xs, rb_num_rows = count_list (bb_bits sel) True\<rparr>"
      using xs(3) by (auto simp: rows_read_def picked_def elim: list_all2_mono)
    with xs rb i cnt False True inner(2) show ?thesis by (simp add: read_from_cache_def)
  qed
qed

lemma build_filter_ok:
  assumes R: "runtime_ok R (sf_vals F)" and F: "file_ok (rt_lib R) F" and ps: "good R F ps M"
    and inner: "reads_group R F g ids inner" "ri_current_batch_id inner = nth_batch b"
    and g: "g < length (pm_row_groups (sf_meta F))" and b: "b < 2 ^ 16"
    and preds: "\<forall>p \<in> set (filter_list filt). predicate_ok (arr (rt_env R)) (rt_lib R) F p"
    and sel: "length (selection_bits sel) = min (sf_batch_size F) (pm_row_groups (sf_meta F) ! g - b * sf_batch_size F)"
    and bc: "True \<in> set (selection_bits sel) \<Longrightarrow> \<forall>p \<in> set (filter_list filt). batch_cached F M g b (predicate_column_ids p)"
  shows "\<exists>m ps'. build_predicate_filter R inner filt sel ps = Ok (Inr m, ps') \<and> good R F ps' M \<and> mask_for F g b m
    \<and> bb_bits m = map2 (\<and>) (selection_bits sel) (pass_mask F g b (filter_list filt))"
proof -
  let ?s = "row_selector_to_boolean_buffer (rt_builder R) sel"
  obtain contents where bld: "builder_ok (rt_builder R) contents" using runtime_okD(13) [OF R] by blast
  have bits: "bb_bits ?s = selection_bits sel" using row_selector_bits [OF bld] .
  have "bb_len ?s = length (bb_bits ?s)" by simp
  then have "bb_len ?s = length (selection_bits sel)" by (simp only: bits)
  then have s: "mask_for F g b ?s"
    using sel bld by (simp add: mask_for_def row_selector_to_boolean_buffer_def builder_ok_def)
  have rg: "group_ok (rt_lib R) F g (ri_cached_row_group inner)" using inner(1) by (simp add: reads_group_def)
  show ?thesis
  proof (cases "True \<in> set (selection_bits sel)")
    case True
    then show ?thesis
    proof (cases filt)
      case None
      then have "map2 (\<and>) (selection_bits sel) (pass_mask F g b (filter_list filt)) = selection_bits sel"
        using sel by (simp add: list_eq_iff_nth_eq pass_mask_def filter_list_def)
      with None ps s bits show ?thesis by (simp add: build_predicate_filter_def Let_def)
    next
      case (Some preds')
      with preds bc [OF True] have "\<forall>p \<in> set preds'. predicate_ok (arr (rt_env R)) (rt_lib R) F p \<and> batch_cached F M g b (predicate_column_ids p)"
        by (simp add: filter_list_def)
      from apply_predicates_ok [OF R F rg g b ps this s] Some bits inner(2) show ?thesis
        by (simp add: build_predicate_filter_def Let_def filter_list_def)
    qed
  next
    case False
    then have none: "count_list (bb_bits ?s) True = 0" using bits by (simp add: count_list_0_iff)
    have "apply_predicates R rg' b' preds' ?s ps = Ok (Inr ?s, ps)" for rg' b' preds'
      using none by (cases preds') simp_all
    moreover have "map2 (\<and>) (selection_bits sel) (pass_mask F g b (filter_list filt)) = selection_bits sel"
      by (rule map2_and_none [OF False]) (simp add: sel pass_mask_def)
    ultimately show ?thesis using ps s bits by (cases filt) (simp_all add: build_predicate_filter_def Let_def)
  qed
qed

lemma next_batch_ok:
  assumes R: "runtime_ok R (sf_vals F)" and F: "file_ok (rt_lib R) F" and ps: "good R F ps M"
    and inner: "reads_group R F g ids inner" "ri_current_batch_id inner = nth_batch b"
    and g: "g < length (pm_row_groups (sf_meta F))" and b: "b < 2 ^ 16"
    and preds: "\<forall>p \<in> set (filter_list filt). predicate_ok (arr (rt_env R)) (rt_lib R) F p"
    and bits: "length bits = pm_row_groups (sf_meta F) ! g" and sel: "selection_bits sel = window (sf_batch_size F) b bits"
    and ready: "batches_ready F M g ids (filter_list filt) bits"
  shows "\<exists>r ps'. next_batch R inner filt sel ps = Ok ((inner\<lparr>ri_current_batch_id := nth_batch (Suc b)\<rparr>, filt, r), ps')
    \<and> good R F ps' M
    \<and> (let K = window (sf_batch_size F) b (kept F g (filter_list filt) bits) in
       if True \<in> set K then \<exists>rb. r = Emit (Inr rb) \<and> rows_read F g b K ids rb else r = Skip)"
proof -
  have len: "length (selection_bits sel) = min (sf_batch_size F) (pm_row_groups (sf_meta F) ! g - b * sf_batch_size F)"
    using bits sel by (simp add: length_window_bits)
  have bc: "True \<in> set (selection_bits sel) \<Longrightarrow> batch_cached F M g b ids \<and> (\<forall>p \<in> set (filter_list filt). batch_cached F M g b (predicate_column_ids p))"
    using ready sel by (simp add: batches_ready_def)
  obtain m ps1 where m: "build_predicate_filter R inner filt sel ps = Ok (Inr m, ps1)" "good R F ps1 M" "mask_for F g b m"
    "bb_bits m = map2 (\<and>) (selection_bits sel) (pass_mask F g b (filter_list filt))"
    using build_filter_ok [OF R F ps inner g b preds len] bc by blast
  have K: "bb_bits m = window (sf_batch_size F) b (kept F g (filter_list filt) bits)"
    using m(4) window_kept [OF bits] sel by simp
  have "True \<in> set (selection_bits sel)" if "True \<in> set (bb_bits m)"
    using that unfolding m(4) by (auto dest: set_zip_leftD)
  with bc have bc': "True \<in> set (bb_bits m) \<Longrightarrow> batch_cached F M g b ids" by blast
  obtain r ps2 where r: "read_from_cache R inner m ps1 = Ok (Inr r, ps2)" "good R F ps2 M"
    "if True \<in> set (bb_bits m) then \<exists>rb. r = Some rb \<and> rows_read F g b (bb_bits m) ids rb else r = None"
    using read_from_cache_ok [OF R F m(2) inner g b m(3) bc'] by blast
  have inc: "batch_id_inc (nth_batch b) = nth_batch (Suc b)" by (simp add: batch_id_inc_def batch_id_from_raw_def add.commute)
  show ?thesis
  proof (cases "True \<in> set (bb_bits m)")
    case True
    with r obtain rb where "r = Some rb" "rows_read F g b (bb_bits m) ids rb" by auto
    with m(1) r(1,2) True inc inner(2) K show ?thesis by (simp add: next_batch_def)
  next
    case False
    with m(1) r inc inner(2) K show ?thesis by (simp add: next_batch_def)
  qed
qed

section \<open>Polling the reader\<close>

text \<open>
  The reader's batch size is the cache's, or else smaller and still large enough for the whole row
  group (a file with fewer rows than the cache's batch size).
\<close>

definition size_fits :: "nat \<Rightarrow> nat \<Rightarrow> bool list \<Rightarrow> bool" where
  "size_fits n n' bits \<longleftrightarrow> 0 < n' \<and> (n' = n \<or> (length bits \<le> n' \<and> n' \<le> n))"

definition reader_at ::
  "('a, 'l, 's, 'c, 'p, 'm, 'b) runtime \<Rightarrow> ('a, 'm, 'v) scan_file \<Rightarrow> nat \<Rightarrow> nat list \<Rightarrow> 'm row_filter option \<Rightarrow> bool list \<Rightarrow>
   nat \<Rightarrow> nat \<Rightarrow> 'm cache_reader \<Rightarrow> bool" where
  "reader_at R F g ids filt bits n' b rd \<longleftrightarrow> (\<exists>inner. rd = \<lparr>rd_state = Ready inner, rd_row_filter = filt\<rparr>
     \<and> reads_group R F g ids inner \<and> ri_current_batch_id inner = nth_batch b \<and> ri_batch_size inner = n'
     \<and> selection_bits (ri_selection inner) = drop (b * sf_batch_size F) bits)"

text \<open>What a poll from batch \<open>b\<close> may answer: the rows of the next batch that has any, or the end.\<close>

definition poll_answer ::
  "('a, 'l, 's, 'c, 'p, 'm, 'b) runtime \<Rightarrow> ('a, 'm, 'v) scan_file \<Rightarrow> nat \<Rightarrow> nat list \<Rightarrow> 'm row_filter option \<Rightarrow> bool list \<Rightarrow>
   nat \<Rightarrow> nat \<Rightarrow> (reader_error + 'a record_batch) option \<Rightarrow> 'm cache_reader \<Rightarrow> bool" where
  "poll_answer R F g ids filt bits n' b item rd \<longleftrightarrow>
     (let n = sf_batch_size F; K = kept F g (filter_list filt) bits in
      case item of
        None \<Rightarrow> rd_row_filter rd = filt \<and> True \<notin> set (drop (b * n) K)
      | Some (Inl e) \<Rightarrow> False
      | Some (Inr rb) \<Rightarrow> \<exists>b' \<ge> b. reader_at R F g ids filt bits n' (Suc b') rd \<and> b' * n < length bits
          \<and> True \<notin> set (take ((b' - b) * n) (drop (b * n) K)) \<and> rows_read F g b' (window n b' K) ids rb)"

lemma take_fits:
  assumes "size_fits n n' bits" and "length xs \<le> length bits"
  shows "take n' xs = take n xs" "drop n' xs = drop n xs"
  using assms by (auto simp: size_fits_def)

lemma append_prefix:
  assumes "length xs = min n (length zs)" and "xs @ ys = zs"
  shows "xs = take n zs" "ys = drop n zs"
proof -
  have "n = length xs \<or> (ys = [] \<and> length zs \<le> n)" using assms(1) arg_cong [OF assms(2), of length] by (auto simp: min_def split: if_splits)
  then show "xs = take n zs" "ys = drop n zs" unfolding assms(2) [symmetric] by auto
qed

lemma poll_answer_skip:
  assumes "poll_answer R F g ids filt bits n' (Suc b) item rd"
    and "True \<notin> set (window (sf_batch_size F) b (kept F g (filter_list filt) bits))"
  shows "poll_answer R F g ids filt bits n' b item rd"
proof -
  let ?n = "sf_batch_size F" let ?K = "kept F g (filter_list filt) bits"
  have split: "take (?n + k) (drop (b * ?n) ?K) = window ?n b ?K @ take k (drop (Suc b * ?n) ?K)" for k
    by (simp add: window_def take_add)
  have "drop (b * ?n) ?K = window ?n b ?K @ drop (Suc b * ?n) ?K"
    by (simp add: window_def) (metis append_take_drop_id drop_drop)
  then have none: "True \<in> set (drop (b * ?n) ?K) \<longleftrightarrow> True \<in> set (drop (Suc b * ?n) ?K)" using assms(2) by auto
  show ?thesis
  proof (cases item)
    case None
    with assms(1) none show ?thesis by (simp add: poll_answer_def Let_def)
  next
    case (Some r)
    with assms(1) obtain rb b' where b': "r = Inr rb" "b' \<ge> Suc b" "reader_at R F g ids filt bits n' (Suc b') rd" "b' * ?n < length bits"
      "True \<notin> set (take ((b' - Suc b) * ?n) (drop (Suc b * ?n) ?K))" "rows_read F g b' (window ?n b' ?K) ids rb"
      by (cases r) (auto simp: poll_answer_def Let_def)
    have "(b' - b) * ?n = ?n + (b' - Suc b) * ?n" using b'(2) by (simp add: Suc_diff_le [symmetric] flip: mult_Suc)
    then have "True \<notin> set (take ((b' - b) * ?n) (drop (b * ?n) ?K))"
      using b'(5) assms(2) by (simp only: split set_append Un_iff simp_thms)
    with b' Some show ?thesis unfolding poll_answer_def Let_def by (auto intro!: exI [of _ b'])
  qed
qed

lemma reader_poll_ok:
  assumes R: "runtime_ok R (sf_vals F)" and F: "file_ok (rt_lib R) F"
    and g: "g < length (pm_row_groups (sf_meta F))"
    and preds: "\<forall>p \<in> set (filter_list filt). predicate_ok (arr (rt_env R)) (rt_lib R) F p"
    and bits: "length bits = pm_row_groups (sf_meta F) ! g" and fits: "size_fits (sf_batch_size F) n' bits"
    and ready: "batches_ready F M g ids (filter_list filt) bits"
  shows "good R F ps M \<Longrightarrow> reader_at R F g ids filt bits n' b rd \<Longrightarrow> 2 * (length bits - b * sf_batch_size F) < k \<Longrightarrow>
    \<exists>item rd' ps'. reader_poll_next R k rd ps = Ok (item, rd', ps') \<and> good R F ps' M
      \<and> poll_answer R F g ids filt bits n' b item rd'"
proof (induction "length bits - b * sf_batch_size F" arbitrary: b rd ps k rule: less_induct)
  case less
  let ?n = "sf_batch_size F" let ?K = "kept F g (filter_list filt) bits"
  note n0 = file_okD(6) [OF F]
  obtain k1 where k: "k = Suc k1" using less.prems(3) by (cases k) auto
  obtain inner where rd: "rd = \<lparr>rd_state = Ready inner, rd_row_filter = filt\<rparr>" and inner: "reads_group R F g ids inner"
    "ri_current_batch_id inner = nth_batch b" "ri_batch_size inner = n'" "selection_bits (ri_selection inner) = drop (b * ?n) bits"
    using less.prems(2) by (auto simp: reader_at_def)
  obtain r q where t: "take_next_batch (ri_selection inner) n' = (r, q)" by fastforce
  note rows = take_next_batch_rows [OF t, unfolded inner(4)]
  show ?case
  proof (cases r)
    case None
    then have "drop (b * ?n) bits = []" using rows fits by (auto simp: size_fits_def)
    then have "drop (b * ?n) ?K = []" by simp
    with None t rd inner(3) k less.prems(1) show ?thesis by (simp add: poll_answer_def)
  next
    case (Some sel)
    then have ne: "drop (b * ?n) bits \<noteq> []" using rows by auto
    then have lt: "b * ?n < length bits" by simp
    have "length (selection_bits sel) = min n' (length (drop (b * ?n) bits))" "selection_bits sel @ selection_bits q = drop (b * ?n) bits"
      using rows Some by simp_all
    then have "selection_bits sel = take n' (drop (b * ?n) bits)" "selection_bits q = drop n' (drop (b * ?n) bits)"
      using append_prefix by metis+
    then have sel: "selection_bits sel = window ?n b bits" and q: "selection_bits q = drop (Suc b * ?n) bits"
      using take_fits [OF fits, of "drop (b * ?n) bits"] by (simp_all add: window_def add.commute)
    have "b * ?n < ?n * 2 ^ 16" using lt file_okD(7) [OF F nth_mem [OF g]]
      unfolding bits by (rule less_le_trans)
    then have b16: "b < 2 ^ 16" using n0 by (simp add: mult.commute [of b])
    let ?inner = "inner\<lparr>ri_selection := q\<rparr>"
    have i1: "reads_group R F g ids ?inner" "ri_current_batch_id ?inner = nth_batch b" using inner by (simp_all add: reads_group_def)
    obtain res ps1 where nb: "next_batch R ?inner filt sel ps = Ok ((?inner\<lparr>ri_current_batch_id := nth_batch (Suc b)\<rparr>, filt, res), ps1)"
      "good R F ps1 M" "let K = window ?n b ?K in
       if True \<in> set K then \<exists>rb. res = Emit (Inr rb) \<and> rows_read F g b K ids rb else res = Skip"
      using next_batch_ok [OF R F less.prems(1) i1 g b16 preds bits sel ready] by blast
    let ?rd1 = "\<lparr>rd_state = Ready (?inner\<lparr>ri_current_batch_id := nth_batch (Suc b)\<rparr>), rd_row_filter = filt\<rparr>"
    have at: "reader_at R F g ids filt bits n' (Suc b) ?rd1"
      using inner q by (simp add: reader_at_def reads_group_def)
    obtain k2 where k1: "k1 = Suc k2" using less.prems(3) k lt by (cases k1) auto
    show ?thesis
    proof (cases "True \<in> set (window ?n b ?K)")
      case True
      with nb(3) obtain rb where rb: "res = Emit (Inr rb)" "rows_read F g b (window ?n b ?K) ids rb" by (auto simp: Let_def)
      have "reader_poll_next R k rd ps = Ok (Some (Inr rb), ?rd1, ps1)"
        using rd inner(3) t Some k k1 nb(1) rb(1) by simp
      moreover have "poll_answer R F g ids filt bits n' b (Some (Inr rb)) ?rd1"
        unfolding poll_answer_def Let_def using at lt rb(2) by (auto intro!: exI [of _ b])
      ultimately show ?thesis using nb(2) by blast
    next
      case False
      with nb(3) have res: "res = Skip" by (simp add: Let_def)
      have less1: "length bits - Suc b * ?n < length bits - b * ?n" using lt n0 by simp
      have fuel: "2 * (length bits - Suc b * ?n) < k2" using less1 less.prems(3) k k1 by linarith
      obtain item rd' ps' where p: "reader_poll_next R k2 ?rd1 ps1 = Ok (item, rd', ps')" "good R F ps' M"
        "poll_answer R F g ids filt bits n' (Suc b) item rd'"
        using less.hyps [OF less1 nb(2) at fuel] by blast
      have "reader_poll_next R k rd ps = Ok (item, rd', ps')"
        using rd inner(3) t Some k k1 nb(1) res p(1) by simp
      with p(2) poll_answer_skip [OF p(3) False] show ?thesis by blast
    qed
  qed
qed

end
