(* ===== verification/ScanFill.thy ===== *)
theory ScanFill
  imports ScanReader
begin

text \<open>
  Planning a row group and filling the cache: the handles of the columns, inserting the batches that
  the file's stream delivers, and that afterwards every batch with a selected row is cached for every
  column that the scan needs.
\<close>

section \<open>Row group handles\<close>

definition hinted ::
  "('a, 'l, 's, 'c, 'p) liquid_cache_parquet \<Rightarrow> ('a, 'l, 's, 'c, 'p) liquid_cache_parquet \<Rightarrow> bool" where
  "hinted ps ps' \<longleftrightarrow> (\<exists>x h. ps' = ps\<lparr>lcp_expression_hints := x, lcp_store := (lcp_store ps)\<lparr>c_hints := h\<rparr>\<rparr>)"

lemma hinted_refl [simp]: "hinted ps ps"
  unfolding hinted_def by (intro exI [of _ "lcp_expression_hints ps"] exI [of _ "c_hints (lcp_store ps)"]) simp

lemma hinted_trans: "hinted ps ps1 \<Longrightarrow> hinted ps1 ps2 \<Longrightarrow> hinted ps ps2"
  unfolding hinted_def by clarsimp blast

lemma caches_hints: "caches E jinv (st\<lparr>c_hints := h\<rparr>) M \<longleftrightarrow> caches E jinv st M"
  by (simp add: caches_def cache_ok_def stores_def)

lemma good_hinted: "hinted ps ps' \<Longrightarrow> good R F ps M \<Longrightarrow> good R F ps' M"
  by (auto simp: hinted_def good_def caches_hints)

lemma hinted_add: "hinted ps (parquet_add_squeeze_hint i e ps)"
  unfolding hinted_def parquet_add_squeeze_hint_def Let_def by blast

lemma cached_column_new_ok:
  assumes "cached_column_new P f path pr ps = (column, ps')"
  shows "column = \<lparr>cc_field = f, cc_path = path, cc_expression = infer_expression P f\<rparr>" "hinted ps ps'"
  using assms hinted_add by (auto simp: cached_column_new_def Let_def split: option.splits if_splits)

lemma of_nat_u64_inj: "i < 2 ^ 16 \<Longrightarrow> j < 2 ^ 16 \<Longrightarrow> (of_nat i :: u64) = of_nat j \<longleftrightarrow> i = j"
proof
  assume ij: "i < 2 ^ 16" "j < 2 ^ 16" and "(of_nat i :: u64) = of_nat j"
  then have "unat (of_nat i :: u64) = unat (of_nat j :: u64)" by simp
  with ij show "i = j" by (simp add: unat_of_nat)
qed simp

lemma add_columns_ok:
  "add_columns P f r (map (\<lambda>(i, x). (of_nat i, x, q i)) (enumerate k fs)) (rg0, ps) = (rg, ps') \<Longrightarrow> k + length fs \<le> 2 ^ 16 \<Longrightarrow>
    (\<forall>i < length fs. crg_by_id rg (of_nat (k + i)) = Some \<lparr>cc_field = fs ! i, cc_path = column_access_path_new f r (of_nat (k + i)),
      cc_expression = infer_expression P (fs ! i)\<rparr>)
    \<and> (\<forall>j < k. crg_by_id rg (of_nat j) = crg_by_id rg0 (of_nat j))
    \<and> fld_name ` set fs \<union> dom (crg_by_name rg0) \<subseteq> dom (crg_by_name rg) \<and> hinted ps ps'"
proof (induction fs arbitrary: k rg0 ps)
  case (Cons x fs)
  obtain column ps1 where c: "cached_column_new P x (column_access_path_new f r (of_nat k)) (q k) ps = (column, ps1)" by fastforce
  note cc = cached_column_new_ok [OF c]
  let ?rg1 = "\<lparr>crg_by_id = (crg_by_id rg0)(of_nat k \<mapsto> column), crg_by_name = (crg_by_name rg0)(fld_name x \<mapsto> column)\<rparr>"
  have "add_columns P f r (map (\<lambda>(i, x). (of_nat i, x, q i)) (enumerate (Suc k) fs)) (?rg1, ps1) = (rg, ps')"
    using Cons.prems(1) c by simp
  moreover have "Suc k + length fs \<le> 2 ^ 16" using Cons.prems(2) by simp
  ultimately have IH:
    "\<forall>i < length fs. crg_by_id rg (of_nat (Suc k + i)) = Some \<lparr>cc_field = fs ! i, cc_path = column_access_path_new f r (of_nat (Suc k + i)),
      cc_expression = infer_expression P (fs ! i)\<rparr>"
    "\<forall>j < Suc k. crg_by_id rg (of_nat j) = crg_by_id ?rg1 (of_nat j)"
    "fld_name ` set fs \<union> dom (crg_by_name ?rg1) \<subseteq> dom (crg_by_name rg)" "hinted ps1 ps'"
    by (blast dest: Cons.IH)+
  have "crg_by_id rg (of_nat (k + i)) = Some \<lparr>cc_field = (x # fs) ! i, cc_path = column_access_path_new f r (of_nat (k + i)),
      cc_expression = infer_expression P ((x # fs) ! i)\<rparr>" if "i < length (x # fs)" for i
    using that IH(1,2) cc(1) by (cases i) auto
  moreover have "crg_by_id rg (of_nat j) = crg_by_id rg0 (of_nat j)" if "j < k" for j
    using IH(2) that of_nat_u64_inj [of j k] Cons.prems(2) by simp
  moreover have "fld_name ` set (x # fs) \<union> dom (crg_by_name rg0) \<subseteq> dom (crg_by_name rg)" using IH(3) by auto
  ultimately show ?case using hinted_trans [OF cc(2) IH(4)] by blast
qed simp

lemma create_row_group_ok:
  assumes "create_row_group P (sf_file F) (of_nat g) pids ps = (rg, ps')" and "length (cf_schema (sf_file F)) \<le> 2 ^ 16"
  shows "group_ok P F g rg" "hinted ps ps'"
  using add_columns_ok [of P _ _ "\<lambda>i. i \<in> set pids" 0, OF assms(1) [unfolded create_row_group_def]] assms(2)
  by (auto simp: group_ok_def column_ok_def get_column_def)

lemma good_is_cached:
  assumes "good R F ps M" and "column_ok P F g c column"
  shows "column_is_cached column b ps \<longleftrightarrow> M (batch_key F g c b) \<noteq> None"
proof -
  have "dom M = dom (ix_map (c_index (lcp_store ps)))" using assms(1) by (simp add: good_def caches_def)
  then show ?thesis unfolding column_is_cached_def is_cached_def column_entry_key [OF assms(2)] by (metis domIff)
qed

section \<open>Inserting\<close>

definition batch_array :: "('a, 'm) parquet_lib \<Rightarrow> ('a, 'm, 'v) scan_file \<Rightarrow> nat \<Rightarrow> nat \<Rightarrow> nat \<Rightarrow> 'a \<Rightarrow> bool" where
  "batch_array P F g b c a \<longleftrightarrow> sf_vals F a = batch_rows F g b c \<and> column_fits P (cf_schema (sf_file F) ! c) a"

lemma holds_file_upd:
  assumes "file_ok P F" and "holds_file P F M" and "g < length (pm_row_groups (sf_meta F))"
    and "c < length (cf_schema (sf_file F))" and "b < 2 ^ 16" and "batch_array P F g b c a"
  shows "holds_file P F (M(batch_key F g c (nth_batch b) \<mapsto> a))"
  unfolding holds_file_def
proof (intro allI impI)
  fix g' c' b' x assume l: "g' < length (pm_row_groups (sf_meta F))" "c' < length (cf_schema (sf_file F))" "b' < 2 ^ 16"
    and x: "(M(batch_key F g c (nth_batch b) \<mapsto> a)) (batch_key F g' c' (nth_batch b')) = Some x"
  have k: "batch_key F g' c' (nth_batch b') = batch_key F g c (nth_batch b) \<longleftrightarrow> g' = g \<and> c' = c \<and> b' = b"
    using key_inj [of g' g c' c F "nth_batch b'" "nth_batch b"] l assms(3-5) file_okD(4,5) [OF assms(1)] batch_inj [of b' b] by simp
  show "sf_vals F x = batch_rows F g' b' c' \<and> column_fits P (cf_schema (sf_file F) ! c') x"
    using x k l assms(2,6) unfolding holds_file_def batch_array_def
    by (cases "batch_key F g' c' (nth_batch b') = batch_key F g c (nth_batch b)") auto
qed

lemma column_insert_ok:
  assumes R: "runtime_ok R (sf_vals F)" and F: "file_ok (rt_lib R) F" and ps: "good R F ps M"
    and g: "g < length (pm_row_groups (sf_meta F))" and c: "c < length (cf_schema (sf_file F))" and b: "b < 2 ^ 16"
    and col: "column_ok (rt_lib R) F g c column" and a: "batch_array (rt_lib R) F g b c a"
  shows "\<exists>r ps' M'. column_insert R column (nth_batch b) a ps = Ok (r, ps') \<and> good R F ps' M'
    \<and> insert (batch_key F g c (nth_batch b)) (dom M) \<subseteq> dom M'"
proof (cases "column_is_cached column (nth_batch b) ps")
  case True
  with ps good_is_cached [OF ps col] show ?thesis by (auto simp: column_insert_def)
next
  case False
  note E = runtime_okD(1) [OF R]
  let ?k = "batch_key F g c (nth_batch b)" let ?n = "rt_fuel R (lcp_store ps)"
  have A: "codec_ok (arr (default_env (arr (rt_env R))))" using runtime_okD(2) [OF R] by simp
  have lives: "False \<or> (\<forall>h. insert_lives (default_env (arr (rt_env R))) ?n ?k ((lcp_store ps)\<lparr>c_hints := h\<rparr>))"
    using good_store(4) [OF R ps] by blast
  have ins: "returns False (insert_run (default_env (arr (rt_env R))) ?n False None ?k a (lcp_store ps))
      (\<lambda>st'. caches (default_env (arr (rt_env R))) tq_synced st' (M(?k \<mapsto> a)))"
    using default.insert_run_ok [OF A good_store(1) [OF R ps] lives] .
  obtain st' where "insert_run (rt_env R) ?n False None ?k a (lcp_store ps) = Ok st'"
    "caches (rt_env R) tq_synced st' (M(?k \<mapsto> a))"
    using ins unfolding E [symmetric] by auto
  with False ps holds_file_upd [OF F good_store(2) [OF R ps] g c b a] column_plain(1) [OF F col c]
  show ?thesis
    by (auto simp: column_insert_def on_store_def column_entry_key [OF col] good_def intro!: exI [of _ "M(?k \<mapsto> a)"])
qed

lemma insert_columns_ok:
  assumes R: "runtime_ok R (sf_vals F)" and F: "file_ok (rt_lib R) F" and rg: "group_ok (rt_lib R) F g rg"
    and g: "g < length (pm_row_groups (sf_meta F))" and b: "b < 2 ^ 16"
    and ids: "\<forall>c \<in> set ids. c < length (cf_schema (sf_file F))"
    and rb: "list_all2 (batch_array (rt_lib R) F g b) ids (rb_columns rb)"
  shows "good R F ps M \<Longrightarrow> j \<le> length ids \<Longrightarrow> \<exists>ps' M'. insert_columns R rg (nth_batch b) rb j (drop j ids) ps = Ok ps' \<and> good R F ps' M'
    \<and> (\<lambda>c. batch_key F g c (nth_batch b)) ` set (drop j ids) \<union> dom M \<subseteq> dom M'"
proof (induction "length ids - j" arbitrary: j ps M)
  case (Suc k)
  then have j: "j < length ids" by simp
  then have drop: "drop j ids = ids ! j # drop (Suc j) ids" by (simp add: Cons_nth_drop_Suc)
  have c: "ids ! j < length (cf_schema (sf_file F))" using ids j by simp
  then obtain column where col: "get_column rg (ids ! j) = Some column" "column_ok (rt_lib R) F g (ids ! j) column"
    using rg by (auto simp: group_ok_def)
  have len: "length (rb_columns rb) = length ids" and a: "batch_array (rt_lib R) F g b (ids ! j) (rb_columns rb ! j)"
    using rb j by (auto simp: list_all2_conv_all_nth)
  obtain r ps1 M1 where i: "column_insert R column (nth_batch b) (rb_columns rb ! j) ps = Ok (r, ps1)" "good R F ps1 M1"
    "insert (batch_key F g (ids ! j) (nth_batch b)) (dom M) \<subseteq> dom M1"
    using column_insert_ok [OF R F Suc.prems(1) g c b col(2) a] by blast
  have k: "k = length ids - Suc j" "Suc j \<le> length ids" using Suc.hyps(2) j by simp_all
  obtain ps' M' where rest: "insert_columns R rg (nth_batch b) rb (Suc j) (drop (Suc j) ids) ps1 = Ok ps'" "good R F ps' M'"
    "(\<lambda>c. batch_key F g c (nth_batch b)) ` set (drop (Suc j) ids) \<union> dom M1 \<subseteq> dom M'"
    using Suc.hyps(1) [OF k(1) i(2) k(2)] by blast
  have "insert_columns R rg (nth_batch b) rb j (drop j ids) ps = Ok ps'"
    unfolding drop using col(1) j len i(1) rest(1) by (cases r) (simp_all split: insert_arrow_array_error.split)
  moreover have "(\<lambda>c. batch_key F g c (nth_batch b)) ` set (drop j ids) \<union> dom M \<subseteq> dom M'"
    unfolding drop using i(3) rest(3) by (simp only: list.set(2) image_insert) blast
  ultimately show ?case using rest(2) by blast
qed auto

text \<open>The keys of some batches in some columns.\<close>

definition batch_keys :: "('a, 'm, 'v) scan_file \<Rightarrow> nat \<Rightarrow> nat set \<Rightarrow> nat list \<Rightarrow> entry_id set" where
  "batch_keys F g bs ids = {batch_key F g c (nth_batch b) | b c. b \<in> bs \<and> c \<in> set ids}"

lemma batch_keys_Cons: "batch_keys F g (insert b bs) ids = (\<lambda>c. batch_key F g c (nth_batch b)) ` set ids \<union> batch_keys F g bs ids"
  by (auto simp: batch_keys_def)

lemma fill_loop_ok:
  assumes R: "runtime_ok R (sf_vals F)" and F: "file_ok (rt_lib R) F" and rg: "group_ok (rt_lib R) F g (pc_cached_row_group ctx)"
    and g: "g < length (pm_row_groups (sf_meta F))"
    and ids: "ids \<noteq> []" "\<forall>c \<in> set ids. c < length (cf_schema (sf_file F))"
    and B: "pc_missing_batches ctx = map nth_batch B" "\<forall>b \<in> set B. b < 2 ^ 16 \<and> b * sf_batch_size F < pm_row_groups (sf_meta F) ! g"
    and bts: "list_all2 (\<lambda>b rb. rb_num_rows rb \<noteq> 0 \<and> list_all2 (batch_array (rt_lib R) F g b) ids (rb_columns rb)) B bts"
  shows "good R F ps M \<Longrightarrow> j \<le> length B \<Longrightarrow>
    \<exists>ps' M'. fill_loop R ctx (sf_batch_size F) (pm_row_groups (sf_meta F) ! g) ids j (map Inr (drop j bts)) ps
        = Ok (Inr (length B), ps') \<and> good R F ps' M'
      \<and> batch_keys F g (set (drop j B)) ids \<union> dom M \<subseteq> dom M'"
proof (induction "length B - j" arbitrary: j ps M)
  case 0
  then have "drop j bts = []" "drop j B = []" "j = length B" using list_all2_lengthD [OF bts] by simp_all
  with 0 show ?case by (auto simp: batch_keys_def)
next
  case (Suc k)
  then have j: "j < length B" "j < length bts" using list_all2_lengthD [OF bts] by simp_all
  then have dB: "drop j B = B ! j # drop (Suc j) B" and db: "drop j bts = bts ! j # drop (Suc j) bts"
    by (simp_all add: Cons_nth_drop_Suc)
  have b: "B ! j < 2 ^ 16" "B ! j * sf_batch_size F < pm_row_groups (sf_meta F) ! g" using B(2) j by simp_all
  have rb: "rb_num_rows (bts ! j) \<noteq> 0" "list_all2 (batch_array (rt_lib R) F g (B ! j)) ids (rb_columns (bts ! j))"
    using bts j by (auto simp: list_all2_conv_all_nth)
  obtain ps1 M1 where i: "insert_columns R (pc_cached_row_group ctx) (nth_batch (B ! j)) (bts ! j) 0 ids ps = Ok ps1" "good R F ps1 M1"
    "(\<lambda>c. batch_key F g c (nth_batch (B ! j))) ` set ids \<union> dom M \<subseteq> dom M1"
    using insert_columns_ok [OF R F rg g b(1) ids(2) rb(2) Suc.prems(1), of 0] by auto
  have k: "k = length B - Suc j" "Suc j \<le> length B" using Suc.hyps(2) j by simp_all
  obtain ps' M' where rest: "fill_loop R ctx (sf_batch_size F) (pm_row_groups (sf_meta F) ! g) ids (Suc j) (map Inr (drop (Suc j) bts)) ps1
        = Ok (Inr (length B), ps')" "good R F ps' M'" "batch_keys F g (set (drop (Suc j) B)) ids \<union> dom M1 \<subseteq> dom M'"
    using Suc.hyps(1) [OF k(1) i(2) k(2)] by blast
  have "insert_batch_into_cache R (bts ! j) ids (nth_batch (B ! j)) (sf_batch_size F) (pm_row_groups (sf_meta F) ! g)
      (pc_cached_row_group ctx) ps = Ok ps1"
    using i(1) rb(1) ids(1) b unat_batch [OF b(1)] by (simp add: insert_batch_into_cache_def)
  then have "fill_loop R ctx (sf_batch_size F) (pm_row_groups (sf_meta F) ! g) ids j (map Inr (drop j bts)) ps = Ok (Inr (length B), ps')"
    unfolding db using rest(1) rb(1) j B(1) by simp
  moreover have "batch_keys F g (set (drop j B)) ids \<union> dom M \<subseteq> dom M'"
    unfolding dB using i(3) rest(3) by (simp only: list.set(2) batch_keys_Cons) blast
  ultimately show ?case using rest(2) by blast
qed

section \<open>The columns of a projection\<close>

definition mask_columns :: "('a, 'm) parquet_lib \<Rightarrow> ('a, 'm, 'v) scan_file \<Rightarrow> projection_mask \<Rightarrow> nat list" where
  "mask_columns P F pm = filter (leaf_included P pm) [0..<length (cf_schema (sf_file F))]"

lemma root_column_ids_ok:
  assumes "file_ok P F"
  shows "root_column_ids P (sf_meta F) pm = Ok (mask_columns P F pm)"
proof -
  let ?n = "length (cf_schema (sf_file F))" and ?m = "sf_meta F"
  note f = file_okD [OF assms]
  have bound: "pm_root_of ?m l < pm_num_roots ?m" if "l < pm_num_columns ?m" for l using f(1,2) f(3) [of l] that by simp
  obtain ids where ids: "get_root_column_ids (pm_num_roots ?m) (pm_num_columns ?m) (pm_root_of ?m) (leaf_included P pm) = Some ids"
    "sorted_wrt (<) ids" "set ids = {pm_root_of ?m l | l. l < pm_num_columns ?m \<and> leaf_included P pm l}"
    using get_root_column_ids_spec [of "pm_num_columns ?m" "pm_root_of ?m" "pm_num_roots ?m" "leaf_included P pm"] bound by blast
  have "set ids = set (mask_columns P F pm)"
  proof (rule set_eqI)
    fix c
    have "c \<in> set ids \<longleftrightarrow> c < ?n \<and> leaf_included P pm c" unfolding ids(3) f(2) mem_Collect_eq using f(3) by metis
    then show "c \<in> set ids \<longleftrightarrow> c \<in> set (mask_columns P F pm)" by (auto simp: mask_columns_def)
  qed
  moreover have "sorted_wrt (<) (mask_columns P F pm)" by (simp add: mask_columns_def sorted_wrt_filter)
  ultimately have "ids = mask_columns P F pm"
    using ids(2) by (simp add: strict_sorted_iff sorted_distinct_set_unique)
  with ids(1) show ?thesis by (simp add: root_column_ids_def)
qed

lemma mask_columns_bound: "\<forall>c \<in> set (mask_columns P F pm). c < length (cf_schema (sf_file F))"
  by (simp add: mask_columns_def)

section \<open>The stream of the file\<close>

text \<open>
  The Parquet stream: the selected rows of the projected columns in order, in batches of the asked
  size, only the last of which may be smaller.
\<close>

definition parquet_stream_ok :: "('a, 'm) parquet_lib \<Rightarrow> ('a, 'm, 'v) scan_file \<Rightarrow> bool" where
  "parquet_stream_ok P F \<longleftrightarrow> (\<forall>g < length (pm_row_groups (sf_meta F)). \<forall>pm sel n.
     0 < n \<longrightarrow> length (selection_bits sel) \<le> pm_row_groups (sf_meta F) ! g \<longrightarrow>
     (let bits = selection_bits sel; k = count_list bits True; ids = mask_columns P F pm in
      \<exists>bts. parquet_stream P g pm sel n = Inr (map Inr bts) \<and> length bts = (k + n - 1) div n
        \<and> (\<forall>i < length bts. rb_num_rows (bts ! i) = min n (k - i * n)
             \<and> list_all2 (\<lambda>c a. sf_vals F a = take n (drop (i * n) (pick bits (sf_rows F g c)))
                 \<and> column_fits P (cf_schema (sf_file F) ! c) a) ids (rb_columns (bts ! i)))))"

lemma length_pick_le: "length bs \<le> length xs \<Longrightarrow> length (pick bs xs) = count_list bs True"
  using length_pick [of bs "take (length bs) xs"] pick_take [of bs "length bs" xs] by simp

lemma selection_loop_length:
  "\<forall>b \<in> set B. b < 2 ^ 16 \<Longrightarrow> sorted_wrt (<) B \<Longrightarrow> \<forall>b \<in> set B. cur \<le> b * n \<Longrightarrow> cur \<le> rc \<Longrightarrow>
    cur + length (selection_bits (selection_loop n rc cur (map nth_batch B))) \<le> rc"
proof (induction B arbitrary: cur)
  case (Cons b B)
  let ?stop = "min ((b + 1) * n) rc"
  have "?stop \<le> c * n" if "c \<in> set B" for c
  proof -
    have "(b + 1) * n \<le> c * n" using Cons.prems(2) that by (intro mult_le_mono1) auto
    then show ?thesis by simp
  qed
  then have IH: "?stop + length (selection_bits (selection_loop n rc ?stop (map nth_batch B))) \<le> rc" using Cons by auto
  have b: "unat (batch_v (nth_batch b)) = b" "cur \<le> b * n" using Cons.prems(1,3) unat_batch by simp_all
  show ?case
  proof (cases "b * n \<ge> rc")
    case True
    then have "selection_loop n rc cur (map nth_batch (b # B)) = selection_loop n rc cur (map nth_batch B)" using b(1) by simp
    with Cons show ?thesis by auto
  next
    case False
    then have "cur + length (selection_bits (selection_loop n rc cur (map nth_batch (b # B))))
      = ?stop + length (selection_bits (selection_loop n rc ?stop (map nth_batch B)))"
      using b by (auto simp: Let_def min_def)
    with IH show ?thesis by simp
  qed
qed simp

lemma stream_batches:
  assumes S: "parquet_stream_ok P F" and F: "file_ok P F" and N: "normalizes (row_selection_from P)"
    and g: "g < length (pm_row_groups (sf_meta F))" and ids: "mask_columns P F pm \<noteq> []"
    and B: "B \<noteq> []" "sorted_wrt (<) B" "\<forall>b \<in> set B. b < 2 ^ 16 \<and> b * sf_batch_size F < pm_row_groups (sf_meta F) ! g"
  defines "sel \<equiv> build_selection_for_batches P (map nth_batch B) (sf_batch_size F) (pm_row_groups (sf_meta F) ! g)"
  shows "\<exists>bts. parquet_stream P g pm sel (sf_batch_size F) = Inr (map Inr bts)
    \<and> list_all2 (\<lambda>b rb. rb_num_rows rb \<noteq> 0 \<and> list_all2 (batch_array P F g b) (mask_columns P F pm) (rb_columns rb)) B bts"
    and "list_ex (\<lambda>s. \<not> sel_skip s) sel"
proof -
  let ?n = "sf_batch_size F" let ?rc = "pm_row_groups (sf_meta F) ! g" let ?ids = "mask_columns P F pm"
  let ?bits = "selection_bits (selection_loop ?n ?rc 0 (map nth_batch B))"
  note n0 = file_okD(6) [OF F]
  have bits: "selection_bits sel = ?bits" using N B(1) by (simp add: sel_def build_selection_for_batches_def normalizes_def)
  have len: "length ?bits \<le> ?rc" using selection_loop_length [of B 0 ?n ?rc] B(2,3) by simp
  have ws: "pick ?bits xs = concat (map (\<lambda>b. window ?n b xs) B)" if "length xs = ?rc" for xs :: "'x list"
    using selection_loop_rows [OF n0 that B(2), of 0] B(3) by simp
  have pieces: "\<forall>w \<in> set (butlast (map (\<lambda>b. window ?n b xs) B)). length w = ?n"
    "\<forall>w \<in> set (map (\<lambda>b. window ?n b xs) B). w \<noteq> [] \<and> length w \<le> ?n" if "length xs = ?rc" for xs :: "'x list"
    using windows_full [OF n0 B(2), of xs] B(3) that by simp_all
  let ?xs = "[0..<?rc]"
  have cnt: "count_list ?bits True = length (concat (map (\<lambda>b. window ?n b ?xs) B))"
    using length_pick_le [of ?bits ?xs] len ws [of ?xs] by simp
  then have num: "(count_list ?bits True + ?n - 1) div ?n = length B"
    using concat_pieces_count [OF pieces [of ?xs]] by simp
  obtain bts where bts: "parquet_stream P g pm sel ?n = Inr (map Inr bts)" "length bts = length B"
    "\<And>i. i < length bts \<Longrightarrow> rb_num_rows (bts ! i) = min ?n (count_list ?bits True - i * ?n)
       \<and> list_all2 (\<lambda>c a. sf_vals F a = take ?n (drop (i * ?n) (pick ?bits (sf_rows F g c)))
           \<and> column_fits P (cf_schema (sf_file F) ! c) a) ?ids (rb_columns (bts ! i))"
    using S [unfolded parquet_stream_ok_def, rule_format, OF g n0, of sel pm] len unfolding bits Let_def num by blast
  have win: "take ?n (drop (i * ?n) (pick ?bits xs)) = window ?n (B ! i) xs" if "length xs = ?rc" "i < length B" for xs :: "'x list" and i
    unfolding ws [OF that(1)] using concat_pieces [OF pieces(1) [OF that(1)], of i] pieces(2) [OF that(1)] that(2) by simp
  have "rb_num_rows (bts ! i) \<noteq> 0 \<and> list_all2 (batch_array P F g (B ! i)) ?ids (rb_columns (bts ! i))" if i: "i < length B" for i
  proof
    have "length (take ?n (drop (i * ?n) (pick ?bits ?xs))) = length (window ?n (B ! i) ?xs)" using win [of ?xs i] i by simp
    then have "min ?n (count_list ?bits True - i * ?n) = length (window ?n (B ! i) ?xs)"
      using length_pick_le [of ?bits ?xs] len by (simp add: min.commute)
    moreover have "window ?n (B ! i) ?xs \<noteq> []" using pieces(2) [of ?xs] i by simp
    ultimately show "rb_num_rows (bts ! i) \<noteq> 0" using bts(2,3) i by simp
    show "list_all2 (batch_array P F g (B ! i)) ?ids (rb_columns (bts ! i))"
      using bts(3) [of i] bts(2) i win [OF file_okD(8) [OF F g] i] mask_columns_bound [of P F pm]
      by (auto simp: list_all2_conv_all_nth batch_array_def)
  qed
  with bts(1,2) show "\<exists>bts. parquet_stream P g pm sel ?n = Inr (map Inr bts)
    \<and> list_all2 (\<lambda>b rb. rb_num_rows rb \<noteq> 0 \<and> list_all2 (batch_array P F g b) ?ids (rb_columns rb)) B bts"
    by (intro exI [of _ bts]) (simp add: list_all2_conv_all_nth)
  have "count_list ?bits True \<noteq> 0" unfolding cnt using B(1) pieces(2) [of ?xs] by (cases B) auto
  then have "True \<in> set (selection_bits sel)" unfolding bits by (simp add: count_list_0_iff)
  then show "list_ex (\<lambda>s. \<not> sel_skip s) sel" by (auto simp: selection_bits_def list_ex_iff)
qed

lemma fill_cache_ok:
  assumes R: "runtime_ok R (sf_vals F)" and F: "file_ok (rt_lib R) F" and S: "parquet_stream_ok (rt_lib R) F"
    and ps: "good R F ps M" and rg: "group_ok (rt_lib R) F g (pc_cached_row_group ctx)"
    and g: "g < length (pm_row_groups (sf_meta F))" and rf: "rf_metadata rf = sf_meta F" and ctx: "pc_row_group_idx ctx = g"
    "pc_cache_column_ids ctx = mask_columns (rt_lib R) F (pc_cache_projection ctx)" "pc_cache_column_ids ctx \<noteq> []"
    and B: "pc_missing_batches ctx = map nth_batch B" "B \<noteq> []" "sorted_wrt (<) B"
    "\<forall>b \<in> set B. b < 2 ^ 16 \<and> b * sf_batch_size F < pm_row_groups (sf_meta F) ! g"
  shows "\<exists>ps' M'. fill_cache_from_parquet R rf ctx ps = Ok (Inr (), ps') \<and> good R F ps' M'
    \<and> batch_keys F g (set B) (pc_cache_column_ids ctx) \<union> dom M \<subseteq> dom M'"
proof -
  let ?ids = "mask_columns (rt_lib R) F (pc_cache_projection ctx)"
  have ids: "?ids \<noteq> []" "\<forall>c \<in> set ?ids. c < length (cf_schema (sf_file F))" using ctx(2,3) mask_columns_bound by auto
  note st = stream_batches [OF S F runtime_okD(11) [OF R] g ids(1) B(2-4)]
  obtain bts where bts: "parquet_stream (rt_lib R) g (pc_cache_projection ctx)
      (build_selection_for_batches (rt_lib R) (map nth_batch B) (sf_batch_size F) (pm_row_groups (sf_meta F) ! g)) (sf_batch_size F) = Inr (map Inr bts)"
    "list_all2 (\<lambda>b rb. rb_num_rows rb \<noteq> 0 \<and> list_all2 (batch_array (rt_lib R) F g b) ?ids (rb_columns rb)) B bts"
    using st(1) by blast
  obtain ps' M' where f: "fill_loop R ctx (sf_batch_size F) (pm_row_groups (sf_meta F) ! g) ?ids 0 (map Inr bts) ps = Ok (Inr (length B), ps')"
    "good R F ps' M'" "batch_keys F g (set B) ?ids \<union> dom M \<subseteq> dom M'"
    using fill_loop_ok [OF R F rg g ids B(1,4) bts(2) ps, of 0] by auto
  have n: "lcp_batch_size ps = sf_batch_size F" using ps by (simp add: good_def)
  have "fill_cache_from_parquet R rf ctx ps = Ok (Inr (), ps')"
    using g rf ctx ids(1) B(1,2) n st(2) bts(1) f(1) root_column_ids_ok [OF F] by (simp add: fill_cache_from_parquet_def Let_def)
  with f ctx(2) show ?thesis by auto
qed

end
