(* ===== verification/ScanStream.thy ===== *)
theory ScanStream
  imports ScanFill
begin

text \<open>
  The whole scan. Planning finds the batches that hold selected rows and are not cached for some
  column; after filling, every poll delivers the next rows that the specification \<open>scan_rows\<close> asks
  for, until none are left.
\<close>

section \<open>Planning\<close>

lemma union_projections_included:
  assumes "masks_ok P"
  shows "union_projections P preds acc = Some u \<Longrightarrow> p \<in> set preds \<Longrightarrow> leaf_included P (lp_projection_mask p) l \<Longrightarrow> leaf_included P u l"
    and "union_projections P preds (Some a) = Some u \<Longrightarrow> leaf_included P a l \<Longrightarrow> leaf_included P u l"
    and "preds \<noteq> [] \<or> acc \<noteq> None \<Longrightarrow> \<exists>u. union_projections P preds acc = Some u"
proof -
  have mono: "union_projections P preds (Some a) = Some u \<Longrightarrow> leaf_included P a l \<Longrightarrow> leaf_included P u l" for preds a u
    using assms by (induction preds arbitrary: a) (auto simp: masks_ok_def)
  then show "union_projections P preds (Some a) = Some u \<Longrightarrow> leaf_included P a l \<Longrightarrow> leaf_included P u l" .
  show "union_projections P preds acc = Some u \<Longrightarrow> p \<in> set preds \<Longrightarrow> leaf_included P (lp_projection_mask p) l \<Longrightarrow> leaf_included P u l"
  proof (induction preds arbitrary: acc)
    case (Cons q preds)
    show ?case
    proof (cases "p = q")
      case True
      have "leaf_included P (case acc of Some a \<Rightarrow> mask_union P a (lp_projection_mask q) | None \<Rightarrow> lp_projection_mask q) l"
        using assms Cons.prems(3) True by (auto simp: masks_ok_def split: option.split)
      with mono Cons.prems(1) show ?thesis by simp
    next
      case False
      with Cons show ?thesis by simp
    qed
  qed simp
  show "preds \<noteq> [] \<or> acc \<noteq> None \<Longrightarrow> \<exists>u. union_projections P preds acc = Some u"
  proof (induction preds arbitrary: acc)
    case (Cons q preds)
    from Cons.IH [of "Some _"] show ?case by simp
  qed simp
qed

definition factory_ok :: "('a, 'm, 'v) scan_file \<Rightarrow> 'm row_filter option \<Rightarrow> 'm reader_factory \<Rightarrow> bool" where
  "factory_ok F filt rf \<longleftrightarrow> rf = \<lparr>rf_metadata = sf_meta F, rf_filter = filt, rf_limit = None, rf_offset = None, rf_cached_file = sf_file F\<rparr>"

text \<open>A plan of a row group: what is missing is exactly what some needed column lacks.\<close>

definition planned ::
  "('a, 'l, 's, 'c, liquid_queue_state, 'm, 'b) runtime \<Rightarrow> ('a, 'm, 'v) scan_file \<Rightarrow> projection_mask \<Rightarrow> 'm row_filter option \<Rightarrow> nat \<Rightarrow>
   (entry_id \<rightharpoonup> 'a) \<Rightarrow> nat \<Rightarrow> bool list \<Rightarrow> planning_context \<Rightarrow> bool" where
  "planned R F proj filt n' M g bits ctx \<longleftrightarrow>
     pc_row_group_idx ctx = g \<and> selection_bits (pc_selection ctx) = bits \<and> pc_batch_size ctx = n'
   \<and> group_ok (rt_lib R) F g (pc_cached_row_group ctx) \<and> pc_projection_column_ids ctx = mask_columns (rt_lib R) F proj
   \<and> pc_cache_column_ids ctx = mask_columns (rt_lib R) F (pc_cache_projection ctx)
   \<and> set (mask_columns (rt_lib R) F proj) \<subseteq> set (pc_cache_column_ids ctx)
   \<and> (\<forall>p \<in> set (filter_list filt). set (predicate_column_ids p) \<subseteq> set (pc_cache_column_ids ctx))
   \<and> (\<exists>B. sorted_wrt (<) B \<and> set B = batches_of (sf_batch_size F) (set (true_positions 0 bits))
        \<and> (\<forall>b \<in> set B. b < 2 ^ 16 \<and> b * sf_batch_size F < length bits)
        \<and> pc_missing_batches ctx = map nth_batch (filter (\<lambda>b. \<exists>c \<in> set (pc_cache_column_ids ctx). M (batch_key F g c (nth_batch b)) = None) B))"

definition plan_bits :: "nat \<Rightarrow> row_selector list option \<Rightarrow> bool list" where
  "plan_bits rc sel = (case sel of Some s \<Rightarrow> selection_bits s | None \<Rightarrow> replicate rc True)"

lemma missing_batches_ok:
  assumes F: "file_ok P F" and ps: "good R F ps M" and rg: "group_ok P F g rg" and ids: "\<forall>c \<in> set ids. c < length (cf_schema (sf_file F))"
    and B: "sorted_wrt (<) B" "\<forall>b \<in> set B. b < 2 ^ 16"
  shows "compute_missing_batches rg ids (map nth_batch B) ps = map nth_batch (filter (\<lambda>b. \<exists>c \<in> set ids. M (batch_key F g c (nth_batch b)) = None) B)"
proof -
  have "lacks_batch (map (get_column rg) ids) (nth_batch b) ps \<longleftrightarrow> (\<exists>c \<in> set ids. M (batch_key F g c (nth_batch b)) = None)" for b
  proof -
    have "(case get_column rg c of None \<Rightarrow> True | Some column \<Rightarrow> \<not> column_is_cached column (nth_batch b) ps) \<longleftrightarrow> M (batch_key F g c (nth_batch b)) = None"
      if c: "c \<in> set ids" for c
    proof -
      obtain column where "get_column rg c = Some column" "column_ok P F g c column"
        using rg ids c by (auto simp: group_ok_def)
      with good_is_cached [OF ps, of P g c column "nth_batch b"] show ?thesis by simp
    qed
    then show ?thesis by (simp add: lacks_batch_iff)
  qed
  then show ?thesis
    using missing_batches_filter [OF distinct_batches [OF B], of rg ids ps]
    by (cases "ids = []") (simp_all add: filter_map comp_def)
qed

lemma plan_row_group_ok:
  assumes R: "runtime_ok R (sf_vals F)" and F: "file_ok (rt_lib R) F" and ps: "good R F ps M"
    and g: "g < length (pm_row_groups (sf_meta F))" and rf: "factory_ok F filt rf"
    and preds: "\<forall>p \<in> set (filter_list filt). predicate_ok (arr (rt_env R)) (rt_lib R) F p"
    and bits: "bits = plan_bits (pm_row_groups (sf_meta F) ! g) sel" "length bits = pm_row_groups (sf_meta F) ! g"
  shows "if True \<in> set bits then
      \<exists>ctx ps'. plan_row_group R rf g sel proj n' ps = Ok (Some ctx, rf, ps') \<and> good R F ps' M \<and> planned R F proj filt n' M g bits ctx
    else plan_row_group R rf g sel proj n' ps = Ok (None, rf, ps)"
proof -
  let ?P = "rt_lib R" let ?rc = "pm_row_groups (sf_meta F) ! g"
  let ?sel0 = "case sel of Some s \<Rightarrow> s | None \<Rightarrow> row_selection_from ?P [\<lparr>sel_row_count = ?rc, sel_skip = False\<rparr>]"
  have sel0: "selection_bits ?sel0 = bits"
    using bits(1) runtime_okD(11) [OF R] by (cases sel) (simp_all add: plan_bits_def normalizes_def)
  have cnt: "selected_row_count ?sel0 = 0 \<longleftrightarrow> True \<notin> set bits" by (simp add: count_bits sel0 count_list_0_iff)
  have rfs: "rf_metadata rf = sf_meta F" "rf_filter rf = filt" "rf_limit rf = None" "rf_offset rf = None" "rf_cached_file rf = sf_file F"
    "rf\<lparr>rf_offset := None\<rparr> = rf" "rf\<lparr>rf_limit := None\<rparr> = rf"
    using rf by (simp_all add: factory_ok_def)
  have ol: "offset_limit ?P rf x = x" for x by (simp add: offset_limit_def rfs)
  show ?thesis
  proof (cases "True \<in> set bits")
    case False
    with cnt have z: "selected_row_count ?sel0 = 0" by simp
    have "plan_row_group R rf g sel proj n' ps = Ok (None, rf, ps)"
      using g rfs(1) z by (simp add: plan_row_group_def Let_def)
    with False show ?thesis by simp
  next
    case True
    with cnt have nz: "selected_row_count ?sel0 \<noteq> 0" by simp
    define pp where "pp = (case filt of Some preds \<Rightarrow> union_projections ?P preds None | None \<Rightarrow> None)"
    define cp where "cp = (case pp of Some x \<Rightarrow> mask_union ?P proj x | None \<Rightarrow> proj)"
    define pids where "pids = (case pp of Some x \<Rightarrow> mask_columns ?P F x | None \<Rightarrow> [])"
    obtain rg ps1 where cr: "create_row_group ?P (sf_file F) (of_nat g) pids ps = (rg, ps1)" by fastforce
    note crg = create_row_group_ok [OF cr file_okD(4) [OF F]]
    have ps1: "good R F ps1 M" using good_hinted [OF crg(2) ps] .
    note n0 = file_okD(6) [OF F] and rc16 = file_okD(7) [OF F nth_mem [OF g]]
    obtain B where B: "collect_selection_batches ?sel0 (sf_batch_size F) ?rc = map nth_batch B" "sorted_wrt (<) B"
      "set B = batches_of (sf_batch_size F) {r \<in> set (selected_rows ?sel0). r < ?rc}"
      using collect_selection_batches_spec [OF n0 rc16] by blast
    have rows: "{r \<in> set (selected_rows ?sel0). r < ?rc} = set (true_positions 0 bits)"
      unfolding selected_rows_def sel0 using bits(2) by (auto simp: set_true_positions)
    have Bb: "b < 2 ^ 16 \<and> b * sf_batch_size F < length bits" if b: "b \<in> set B" for b
    proof -
      obtain r where r: "r < length bits" "b = r div sf_batch_size F"
        using b unfolding B(3) rows batches_of_def by (auto simp: set_true_positions)
      have "b * sf_batch_size F \<le> r" unfolding r(2) by (rule div_times_less_eq_dividend)
      moreover have "b < 2 ^ 16" unfolding r(2) using r(1) rc16 bits(2)
        by (intro less_mult_imp_div_less) (simp only: mult.commute [of "2 ^ 16"])
      ultimately show ?thesis using r(1) by simp
    qed
    have n: "lcp_batch_size ps = sf_batch_size F" using ps by (simp add: good_def)
    let ?miss = "compute_missing_batches rg (mask_columns ?P F cp) (map nth_batch B) ps1"
    let ?ctx = "\<lparr>pc_row_group_idx = g, pc_selection = ?sel0, pc_batch_size = n', pc_cached_row_group = rg, pc_cache_projection = cp,
      pc_projection_column_ids = mask_columns ?P F proj, pc_cache_column_ids = mask_columns ?P F cp, pc_missing_batches = ?miss\<rparr>"
    have pids: "(case pp of Some x \<Rightarrow> root_column_ids ?P (sf_meta F) x | None \<Rightarrow> Ok []) = Ok pids"
      by (cases pp) (simp_all add: pids_def root_column_ids_ok [OF F])
    have "plan_row_group R rf g sel proj n' ps = Ok (Some ?ctx, rf, ps1)"
      unfolding plan_row_group_def Let_def rfs(1,2,5) ol pp_def [symmetric] cp_def [symmetric] n B(1) root_column_ids_ok [OF F] pids obind.simps cr
      using g nz rfs(3,4,6,7) by simp
    moreover have "planned R F proj filt n' M g bits ?ctx"
    proof -
      have m: "?miss = map nth_batch (filter (\<lambda>b. \<exists>c \<in> set (mask_columns ?P F cp). M (batch_key F g c (nth_batch b)) = None) B)"
        by (rule missing_batches_ok [OF F ps1 crg(1) mask_columns_bound B(2)]) (use Bb in blast)
      have masks: "masks_ok ?P" using runtime_okD(9) [OF R] .
      have proj: "set (mask_columns ?P F proj) \<subseteq> set (mask_columns ?P F cp)"
        using masks by (auto simp: mask_columns_def cp_def masks_ok_def split: option.split)
      have "set (predicate_column_ids p) \<subseteq> set (mask_columns ?P F cp)" if p: "p \<in> set (filter_list filt)" for p
      proof
        fix c assume c: "c \<in> set (predicate_column_ids p)"
        from p obtain preds' where f: "filt = Some preds'" "p \<in> set preds'" by (cases filt) (auto simp: filter_list_def)
        then have "preds' \<noteq> []" by auto
        with f(1) obtain u where u: "pp = Some u" using union_projections_included(3) [OF masks, of preds' None] by (auto simp: pp_def)
        have pok: "predicate_ok (arr (rt_env R)) ?P F p" using preds p by blast
        have "leaf_included ?P u c"
          using union_projections_included(1) [OF masks _ f(2) predicate_okD(3) [OF pok c]] u f(1) by (simp add: pp_def)
        with u masks predicate_okD(2) [OF pok] c show "c \<in> set (mask_columns ?P F cp)"
          by (simp add: mask_columns_def cp_def masks_ok_def)
      qed
      with proj m B(2,3) rows Bb crg(1) sel0 show ?thesis unfolding planned_def by auto
    qed
    ultimately show ?thesis using True ps1 by (simp only: if_True) blast
  qed
qed

section \<open>Everything needed is cached\<close>

lemma planned_ready:
  assumes F: "file_ok P F" and "planned R F proj filt n' M g bits ctx"
    and keys: "\<And>b c. nth_batch b \<in> set (pc_missing_batches ctx) \<Longrightarrow> b < 2 ^ 16 \<Longrightarrow> c \<in> set (pc_cache_column_ids ctx) \<Longrightarrow> M' (batch_key F g c (nth_batch b)) \<noteq> None"
    and mono: "dom M \<subseteq> dom M'"
  shows "batches_ready F M' g (mask_columns (rt_lib R) F proj) (filter_list filt) bits"
proof -
  let ?n = "sf_batch_size F" let ?ids = "pc_cache_column_ids ctx"
  note n0 = file_okD(6) [OF F]
  note pl = assms(2) [unfolded planned_def]
  obtain B where B: "set B = batches_of ?n (set (true_positions 0 bits))" "\<forall>b \<in> set B. b < 2 ^ 16 \<and> b * ?n < length bits"
    "pc_missing_batches ctx = map nth_batch (filter (\<lambda>b. \<exists>c \<in> set ?ids. M (batch_key F g c (nth_batch b)) = None) B)" using pl by blast
  have all: "batch_cached F M' g b ?ids" if b: "True \<in> set (window ?n b bits)" for b
  proof -
    obtain i where i: "i < length (window ?n b bits)" "window ?n b bits ! i" using b by (auto simp: in_set_conv_nth)
    then have "bits ! (b * ?n + i)" "b * ?n + i < length bits" "i < ?n"
      using window_nth [OF i(1)] by (auto simp: length_window_bits)
    then have "b * ?n + i \<in> set (true_positions 0 bits)" "(b * ?n + i) div ?n = b" by (simp_all add: set_true_positions)
    then have "b \<in> set B" unfolding B(1) batches_of_def by (metis imageI)
    then have "b < 2 ^ 16" and miss: "nth_batch b \<in> set (pc_missing_batches ctx)" if "M (batch_key F g c (nth_batch b)) = None" "c \<in> set ?ids" for c
      using B(2,3) that by auto
    then have "M' (batch_key F g c (nth_batch b)) \<noteq> None" if "c \<in> set ?ids" for c
      using keys [of b c] mono that by (cases "M (batch_key F g c (nth_batch b))") auto
    moreover have "\<forall>c \<in> set ?ids. c < length (cf_schema (sf_file F))" using pl mask_columns_bound by metis
    ultimately show ?thesis by (simp add: batch_cached_def)
  qed
  have sub: "batch_cached F M' g b xs" if "batch_cached F M' g b ?ids" "set xs \<subseteq> set ?ids" for b xs
    using that by (auto simp: batch_cached_def)
  show ?thesis unfolding batches_ready_def using all sub pl by blast
qed

section \<open>The specification\<close>

text \<open>The selected rows of each row group, and the rows of a column that the scan is to deliver.\<close>

fun group_bits :: "nat list \<Rightarrow> nat list \<Rightarrow> bool list option \<Rightarrow> (nat \<times> bool list) list" where
  "group_bits counts [] sel = []"
| "group_bits counts (g # gs) sel =
     (g, case sel of Some bits \<Rightarrow> take (counts ! g) bits | None \<Rightarrow> replicate (counts ! g) True)
     # group_bits counts gs (map_option (drop (counts ! g)) sel)"

definition scan_rows ::
  "('a, 'm, 'v) scan_file \<Rightarrow> 'm liquid_predicate list \<Rightarrow> nat list \<Rightarrow> bool list option \<Rightarrow> (nat \<Rightarrow> 'x list) \<Rightarrow> 'x list" where
  "scan_rows F preds gs sel rows = concat (map (\<lambda>(g, bits). pick (kept F g preds bits) (rows g))
     (group_bits (pm_row_groups (sf_meta F)) gs sel))"

text \<open>The rows from batch \<open>b\<close> of a row group on, and of the row groups after it.\<close>

definition rows_from ::
  "('a, 'm, 'v) scan_file \<Rightarrow> 'm liquid_predicate list \<Rightarrow> nat \<Rightarrow> bool list \<Rightarrow> nat \<Rightarrow> nat list \<Rightarrow> bool list option \<Rightarrow> (nat \<Rightarrow> 'x list) \<Rightarrow> 'x list" where
  "rows_from F preds g bits b gs sel rows =
     pick (drop (b * sf_batch_size F) (kept F g preds bits)) (drop (b * sf_batch_size F) (rows g)) @ scan_rows F preds gs sel rows"

definition groups_valid :: "('a, 'm, 'v) scan_file \<Rightarrow> nat list \<Rightarrow> bool list option \<Rightarrow> bool" where
  "groups_valid F gs sel \<longleftrightarrow> (\<forall>g \<in> set gs. g < length (pm_row_groups (sf_meta F)))
     \<and> (\<forall>bits. sel = Some bits \<longrightarrow> length bits = sum_list (map ((!) (pm_row_groups (sf_meta F))) gs))"

text \<open>Row numbers, to count rows with.\<close>

definition row_numbers :: "('a, 'm, 'v) scan_file \<Rightarrow> nat \<Rightarrow> nat list" where
  "row_numbers F g = [0..<pm_row_groups (sf_meta F) ! g]"

section \<open>States of the stream\<close>

definition stream_base ::
  "('a, 'l, 's, 'c, 'p, 'm, 'b) runtime \<Rightarrow> ('a, 'm, 'v) scan_file \<Rightarrow> projection_mask \<Rightarrow> nat \<Rightarrow> nat list \<Rightarrow> bool list option \<Rightarrow> 'm liquid_stream \<Rightarrow> bool" where
  "stream_base R F proj n' gs sel s \<longleftrightarrow> ls_metadata s = sf_meta F \<and> ls_projection s = proj \<and> ls_batch_size s = n'
     \<and> ls_schema s = map ((!) (cf_schema (sf_file F))) (mask_columns (rt_lib R) F proj)
     \<and> ls_row_groups s = gs \<and> map_option selection_bits (ls_selection s) = sel \<and> groups_valid F gs sel"

definition at_init ::
  "('a, 'l, 's, 'c, 'p, 'm, 'b) runtime \<Rightarrow> ('a, 'm, 'v) scan_file \<Rightarrow> projection_mask \<Rightarrow> 'm row_filter option \<Rightarrow> nat \<Rightarrow>
   nat list \<Rightarrow> bool list option \<Rightarrow> 'm liquid_stream \<Rightarrow> bool" where
  "at_init R F proj filt n' gs sel s \<longleftrightarrow> stream_base R F proj n' gs sel s \<and> ls_state s = StreamInit
     \<and> (\<exists>rf. ls_reader s = Some rf \<and> factory_ok F filt rf)"

definition at_reading ::
  "('a, 'l, 's, 'c, 'p, 'm, 'b) runtime \<Rightarrow> ('a, 'm, 'v) scan_file \<Rightarrow> projection_mask \<Rightarrow> 'm row_filter option \<Rightarrow> nat \<Rightarrow> (entry_id \<rightharpoonup> 'a) \<Rightarrow>
   nat \<Rightarrow> bool list \<Rightarrow> nat \<Rightarrow> nat list \<Rightarrow> bool list option \<Rightarrow> 'm liquid_stream \<Rightarrow> bool" where
  "at_reading R F proj filt n' M g bits b gs sel s \<longleftrightarrow> stream_base R F proj n' gs sel s
     \<and> g < length (pm_row_groups (sf_meta F)) \<and> length bits = pm_row_groups (sf_meta F) ! g \<and> size_fits (sf_batch_size F) n' bits
     \<and> batches_ready F M g (mask_columns (rt_lib R) F proj) (filter_list filt) bits
     \<and> (\<exists>rd rf. ls_state s = ReadFromCache rd \<and> reader_at R F g (mask_columns (rt_lib R) F proj) filt bits n' b rd
          \<and> ls_reader s = Some rf \<and> factory_ok F None rf)"

text \<open>Fuel that polls need: per row group for its batches, and for its start and end.\<close>

definition scan_cost :: "('a, 'm, 'v) scan_file \<Rightarrow> nat list \<Rightarrow> nat" where
  "scan_cost F gs = sum_list (map (\<lambda>g. 3 * pm_row_groups (sf_meta F) ! g + 5) gs)"

definition read_cost :: "('a, 'm, 'v) scan_file \<Rightarrow> bool list \<Rightarrow> nat \<Rightarrow> nat list \<Rightarrow> nat" where
  "read_cost F bits b gs = 3 * (length bits - b * sf_batch_size F) + 2 + scan_cost F gs"

text \<open>
  A poll delivers a batch, the next rows of every projected column, or ends when no row is left.
\<close>

definition delivers ::
  "('a, 'l, 's, 'c, liquid_queue_state, 'm, 'b) runtime \<Rightarrow> ('a, 'm, 'v) scan_file \<Rightarrow> projection_mask \<Rightarrow> 'm row_filter option \<Rightarrow> nat \<Rightarrow>
   nat \<Rightarrow> (nat \<Rightarrow> 'v list) \<Rightarrow> nat list \<Rightarrow> 'a record_batch option \<Rightarrow> 'm liquid_stream \<Rightarrow>
   ('a, 'l, 's, 'c, liquid_queue_state) liquid_cache_parquet \<Rightarrow> bool" where
  "delivers R F proj filt n' cost todo numbers item s ps \<longleftrightarrow>
     (let ids = mask_columns (rt_lib R) F proj; preds = filter_list filt in
      case item of
        None \<Rightarrow> (\<forall>c \<in> set ids. todo c = []) \<and> numbers = [] \<and> (\<exists>M. good R F ps M)
      | Some rb \<Rightarrow> \<exists>M g bits b gs sel. good R F ps M \<and> at_reading R F proj filt n' M g bits b gs sel s \<and> read_cost F bits b gs < cost
          \<and> list_all2 (\<lambda>c x. todo c = sf_vals F x @ rows_from F preds g bits b gs sel (\<lambda>g. sf_rows F g c)) ids (rb_columns rb)
          \<and> length numbers = rb_num_rows rb + length (rows_from F preds g bits b gs sel (row_numbers F)))"

lemma delivers_mono:
  assumes "delivers R F proj filt n' cost todo numbers item s ps" and "cost \<le> cost'"
  shows "delivers R F proj filt n' cost' todo numbers item s ps"
proof (cases item)
  case None
  with assms(1) show ?thesis by (simp add: delivers_def)
next
  case (Some rb)
  with assms(1) obtain M g bits b gs sel where "good R F ps M" "at_reading R F proj filt n' M g bits b gs sel s"
    "read_cost F bits b gs < cost"
    "list_all2 (\<lambda>c x. todo c = sf_vals F x @ rows_from F (filter_list filt) g bits b gs sel (\<lambda>g. sf_rows F g c))
      (mask_columns (rt_lib R) F proj) (rb_columns rb)"
    "length numbers = rb_num_rows rb + length (rows_from F (filter_list filt) g bits b gs sel (row_numbers F))"
    by (auto simp: delivers_def Let_def)
  moreover have "read_cost F bits b gs < cost'" using calculation(3) assms(2) by simp
  ultimately show ?thesis unfolding delivers_def Let_def Some option.case by blast
qed

section \<open>Polls\<close>

lemma pick_skip:
  assumes "b \<le> b'" and "True \<notin> set (take ((b' - b) * n) (drop (b * n) K))" and "length K = length xs" and "b' * n \<le> length K"
  shows "pick (drop (b * n) K) (drop (b * n) xs) = pick (drop (b' * n) K) (drop (b' * n) xs)"
proof -
  let ?m = "(b' - b) * n"
  have m: "?m + b * n = b' * n" using assms(1) by (simp add: diff_mult_distrib)
  have len: "length (take ?m (drop (b * n) K)) = ?m" using m assms(4) by simp
  have "pick (drop (b * n) K) (drop (b * n) xs) = pick (take ?m (drop (b * n) K) @ drop ?m (drop (b * n) K)) (drop (b * n) xs)"
    by (simp only: append_take_drop_id)
  also have "\<dots> = pick (take ?m (drop (b * n) K)) (take ?m (drop (b * n) xs)) @ pick (drop (b' * n) K) (drop (b' * n) xs)"
    unfolding pick_append len drop_drop m ..
  also have "pick (take ?m (drop (b * n) K)) (take ?m (drop (b * n) xs)) = []"
    by (rule pick_none) (use assms(2) in \<open>simp add: count_list_0_iff\<close>)
  finally show ?thesis by simp
qed

lemma rows_from_step:
  assumes "length bits = length (rows g)" and "b \<le> b'" and "b' * sf_batch_size F < length bits"
    and "True \<notin> set (take ((b' - b) * sf_batch_size F) (drop (b * sf_batch_size F) (kept F g preds bits)))"
  shows "rows_from F preds g bits b gs sel rows
    = pick (window (sf_batch_size F) b' (kept F g preds bits)) (window (sf_batch_size F) b' (rows g)) @ rows_from F preds g bits (Suc b') gs sel rows"
proof -
  have l: "length (kept F g preds bits) = length (rows g)" using assms(1) by simp
  have "b' * sf_batch_size F \<le> length (kept F g preds bits)" using assms(3) by simp
  note s = pick_skip [OF assms(2,4) l this]
  show ?thesis unfolding rows_from_def s pick_window_split [OF l, of b' "sf_batch_size F"] by simp
qed

lemma rows_from_end:
  "True \<notin> set (drop (b * sf_batch_size F) (kept F g preds bits)) \<Longrightarrow> rows_from F preds g bits b gs sel rows = scan_rows F preds gs sel rows"
  unfolding rows_from_def using pick_none [of "drop (b * sf_batch_size F) (kept F g preds bits)"] by (simp add: count_list_0_iff)

text \<open>The statement about polls at the start of a row group, for the list of row groups left.\<close>

definition init_polls ::
  "('a, 'l, 's, 'c, liquid_queue_state, 'm, 'b) runtime \<Rightarrow> ('a, 'm, 'v) scan_file \<Rightarrow> projection_mask \<Rightarrow> 'm row_filter option \<Rightarrow> nat \<Rightarrow> nat list \<Rightarrow> bool" where
  "init_polls R F proj filt n' gs \<longleftrightarrow> (\<forall>k s ps M sel. at_init R F proj filt n' gs sel s \<longrightarrow> good R F ps M \<longrightarrow> scan_cost F gs < k \<longrightarrow>
     (\<exists>item s' ps'. stream_poll_next R k s ps = Ok (item, s', ps')
       \<and> delivers R F proj filt n' (scan_cost F gs) (\<lambda>c. scan_rows F (filter_list filt) gs sel (\<lambda>g. sf_rows F g c))
           (scan_rows F (filter_list filt) gs sel (row_numbers F)) item s' ps'))"

lemma reading_poll:
  assumes R: "runtime_ok R (sf_vals F)" and F: "file_ok (rt_lib R) F"
    and preds: "\<forall>p \<in> set (filter_list filt). predicate_ok (arr (rt_env R)) (rt_lib R) F p"
    and init: "init_polls R F proj filt n' gs" and s: "at_reading R F proj filt n' M g bits b gs sel s" and ps: "good R F ps M"
    and k: "read_cost F bits b gs < k"
  shows "\<exists>item s' ps'. stream_poll_next R k s ps = Ok (item, s', ps')
    \<and> delivers R F proj filt n' (read_cost F bits b gs)
        (\<lambda>c. rows_from F (filter_list filt) g bits b gs sel (\<lambda>g. sf_rows F g c))
        (rows_from F (filter_list filt) g bits b gs sel (row_numbers F)) item s' ps'"
proof -
  let ?ids = "mask_columns (rt_lib R) F proj" let ?n = "sf_batch_size F" let ?K = "kept F g (filter_list filt) bits"
  obtain k1 where k1: "k = Suc k1" using k by (cases k) auto
  obtain rd rf where st: "stream_base R F proj n' gs sel s" "g < length (pm_row_groups (sf_meta F))" "length bits = pm_row_groups (sf_meta F) ! g"
    "size_fits ?n n' bits" "batches_ready F M g ?ids (filter_list filt) bits" "ls_state s = ReadFromCache rd"
    "reader_at R F g ?ids filt bits n' b rd" "ls_reader s = Some rf" "factory_ok F None rf"
    using s by (auto simp: at_reading_def)
  have "2 * (length bits - b * ?n) < k1" using k k1 by (simp add: read_cost_def)
  then obtain item rd' ps' where p: "reader_poll_next R k1 rd ps = Ok (item, rd', ps')" "good R F ps' M"
    "poll_answer R F g ?ids filt bits n' b item rd'"
    using reader_poll_ok [OF R F st(2) preds st(3-5) ps st(7)] by blast
  show ?thesis
  proof (cases item)
    case None
    let ?s = "s\<lparr>ls_reader := Some (rf\<lparr>rf_filter := rd_row_filter rd'\<rparr>), ls_state := StreamInit\<rparr>"
    have a: "rd_row_filter rd' = filt" "True \<notin> set (drop (b * ?n) ?K)" using p(3) None by (simp_all add: poll_answer_def Let_def)
    have "at_init R F proj filt n' gs sel ?s" using st(1,9) a(1) by (simp add: at_init_def stream_base_def factory_ok_def)
    moreover have "scan_cost F gs < k1" using k k1 by (simp add: read_cost_def)
    ultimately obtain item' s' ps'' where q: "stream_poll_next R k1 ?s ps' = Ok (item', s', ps'')"
      "delivers R F proj filt n' (scan_cost F gs) (\<lambda>c. scan_rows F (filter_list filt) gs sel (\<lambda>g. sf_rows F g c))
        (scan_rows F (filter_list filt) gs sel (row_numbers F)) item' s' ps''"
      using init p(2) unfolding init_polls_def by blast
    have "stream_poll_next R k s ps = Ok (item', s', ps'')" using k1 st(6,8) p(1) None q(1) by simp
    moreover have "scan_cost F gs \<le> read_cost F bits b gs" by (simp add: read_cost_def)
    ultimately show ?thesis using delivers_mono [OF q(2)] by (auto simp: rows_from_end [OF a(2)])
  next
    case (Some r)
    obtain rb b' where a: "r = Inr rb" "b \<le> b'" "reader_at R F g ?ids filt bits n' (Suc b') rd'" "b' * ?n < length bits"
      "True \<notin> set (take ((b' - b) * ?n) (drop (b * ?n) ?K))" "rows_read F g b' (window ?n b' ?K) ?ids rb"
      using p(3) Some by (cases r) (auto simp: poll_answer_def Let_def)
    let ?s = "s\<lparr>ls_state := ReadFromCache rd'\<rparr>"
    have poll: "stream_poll_next R k s ps = Ok (Some rb, ?s, ps')" using k1 st(6,8) p(1) Some a(1) by simp
    have at: "at_reading R F proj filt n' M g bits (Suc b') gs sel ?s"
      using s a(3) st by (simp add: at_reading_def stream_base_def)
    have "b * ?n \<le> b' * ?n" using a(2) by simp
    then have "length bits - Suc b' * ?n < length bits - b * ?n"
      using a(4) file_okD(6) [OF F] unfolding mult_Suc by linarith
    then have cost: "read_cost F bits (Suc b') gs < read_cost F bits b gs" unfolding read_cost_def by linarith
    have cols: "list_all2 (\<lambda>c x. rows_from F (filter_list filt) g bits b gs sel (\<lambda>g. sf_rows F g c)
        = sf_vals F x @ rows_from F (filter_list filt) g bits (Suc b') gs sel (\<lambda>g. sf_rows F g c)) ?ids (rb_columns rb)"
    proof (rule list.rel_mono_strong [of "\<lambda>c x. sf_vals F x = pick (window ?n b' ?K) (batch_rows F g b' c)"])
      show "list_all2 (\<lambda>c x. sf_vals F x = pick (window ?n b' ?K) (batch_rows F g b' c)) ?ids (rb_columns rb)"
        using a(6) by (simp add: rows_read_def)
    next
      fix c x assume c: "c \<in> set ?ids" and "x \<in> set (rb_columns rb)" and x: "sf_vals F x = pick (window ?n b' ?K) (batch_rows F g b' c)"
      have "length bits = length (sf_rows F g c)"
        using file_okD(8) [OF F st(2)] mask_columns_bound [of "rt_lib R" F proj] c st(3) by simp
      with rows_from_step [of bits "\<lambda>g. sf_rows F g c" g b b' F, OF _ a(2,4,5), where gs = gs and sel = sel] x
      show "rows_from F (filter_list filt) g bits b gs sel (\<lambda>g. sf_rows F g c)
        = sf_vals F x @ rows_from F (filter_list filt) g bits (Suc b') gs sel (\<lambda>g. sf_rows F g c)" by simp
    qed
    have "length (window ?n b' ?K) = length (window ?n b' (row_numbers F g))"
      using st(3) by (simp add: row_numbers_def length_window_bits)
    then have "length (pick (window ?n b' ?K) (window ?n b' (row_numbers F g))) = rb_num_rows rb"
      using length_pick a(6) by (simp add: rows_read_def)
    then have nums: "length (rows_from F (filter_list filt) g bits b gs sel (row_numbers F))
      = rb_num_rows rb + length (rows_from F (filter_list filt) g bits (Suc b') gs sel (row_numbers F))"
      using rows_from_step [of bits "row_numbers F" g b b' F, OF _ a(2,4,5), where gs = gs and sel = sel] st(3)
      by (simp add: row_numbers_def)
    have "delivers R F proj filt n' (read_cost F bits b gs) (\<lambda>c. rows_from F (filter_list filt) g bits b gs sel (\<lambda>g. sf_rows F g c))
        (rows_from F (filter_list filt) g bits b gs sel (row_numbers F)) (Some rb) ?s ps'"
      unfolding delivers_def Let_def option.case using p(2) at cost cols nums by blast
    with poll show ?thesis by blast
  qed
qed

end
