(* ===== verification/ScanFile.thy ===== *)
theory ScanFile
  imports ScanStream
begin

text \<open>
  Scanning a file: from the start of the stream to its end, whatever of the file is cached, the
  batches hold for every projected column the rows that are selected and pass all predicates, row
  group by row group; the scan returns, and the cache holds rows of the file afterwards as before.
\<close>

section \<open>Starting a row group\<close>

text \<open>The selection of the next row group, the selection left for those after it.\<close>

definition next_selection ::
  "('a, 'm) parquet_lib \<Rightarrow> nat \<Rightarrow> row_selector list option \<Rightarrow> row_selector list option \<times> row_selector list option" where
  "next_selection P rc sel = (case sel of
       Some s \<Rightarrow> (let (first, rest) = split_off P rc s in (Some first, Some rest))
     | None \<Rightarrow> (None, None))"

lemma next_selection_bits:
  assumes "splits_ok P" and "next_selection P rc sel = (first, rest)"
  shows "plan_bits rc first = (case map_option selection_bits sel of Some bits \<Rightarrow> take rc bits | None \<Rightarrow> replicate rc True)"
    and "map_option selection_bits rest = map_option (drop rc) (map_option selection_bits sel)"
  using assms by (auto simp: next_selection_def plan_bits_def splits_ok_def Let_def split: option.splits prod.splits) (metis fst_conv snd_conv)+

lemma start_row_group_eq:
  assumes "ls_row_groups s = g # gs" and "g < length (pm_row_groups (ls_metadata s))" and "ls_reader s = Some rf"
    and "next_selection (rt_lib R) (pm_row_groups (ls_metadata s) ! g) (ls_selection s) = (first, rest)"
    and "plan_row_group R rf g first (ls_projection s) (ls_batch_size s) ps = Ok (plan, rf1, ps1)"
  shows "start_row_group R s ps = (let s1 = s\<lparr>ls_row_groups := gs, ls_selection := rest\<rparr> in
    case plan of
      Some ctx \<Rightarrow>
        if pc_missing_batches ctx \<noteq> [] \<and> pc_cache_column_ids ctx \<noteq> []
        then Ok (Some (s1\<lparr>ls_reader := None, ls_state := FillCache rf1 ctx\<rparr>), ps1)
        else Ok (Some (start_reading rf1 ctx s1), ps1)
    | None \<Rightarrow> Ok (Some (s1\<lparr>ls_reader := Some rf1, ls_state := StreamInit\<rparr>), ps1))"
  using assms unfolding next_selection_def [symmetric] start_row_group_def by (simp add: Let_def next_selection_def [symmetric] split: option.split)

lemma groups_valid_Cons:
  assumes "groups_valid F (g # gs) sel"
  shows "g < length (pm_row_groups (sf_meta F))" "groups_valid F gs (map_option (drop (pm_row_groups (sf_meta F) ! g)) sel)"
    "length (case sel of Some bits \<Rightarrow> take (pm_row_groups (sf_meta F) ! g) bits | None \<Rightarrow> replicate (pm_row_groups (sf_meta F) ! g) True)
      = pm_row_groups (sf_meta F) ! g"
  using assms by (auto simp: groups_valid_def split: option.split)

lemma scan_rows_Cons:
  "scan_rows F preds (g # gs) sel rows = rows_from F preds g
     (case sel of Some bits \<Rightarrow> take (pm_row_groups (sf_meta F) ! g) bits | None \<Rightarrow> replicate (pm_row_groups (sf_meta F) ! g) True)
     0 gs (map_option (drop (pm_row_groups (sf_meta F) ! g)) sel) rows"
  by (simp add: scan_rows_def rows_from_def)

lemma kept_none: "True \<notin> set bits \<Longrightarrow> True \<notin> set (kept F g preds bits)"
  by (auto simp: kept_def dest: set_zip_leftD)

lemma start_reading_ok:
  assumes "stream_base R F proj n' gs sel s" and "planned R F proj filt n' M0 g bits ctx" and "factory_ok F filt rf"
    and "g < length (pm_row_groups (sf_meta F))" and "length bits = pm_row_groups (sf_meta F) ! g" and "size_fits (sf_batch_size F) n' bits"
    and "batches_ready F M g (mask_columns (rt_lib R) F proj) (filter_list filt) bits"
  shows "at_reading R F proj filt n' M g bits 0 gs sel (start_reading rf ctx s)"
  using assms mask_columns_bound [of "rt_lib R" F proj]
  by (auto simp: at_reading_def start_reading_def stream_base_def planned_def reader_at_def cache_reader_new_def reads_group_def
    factory_ok_def)

text \<open>From the plan, through the filling of the cache if anything is missing, to reading.\<close>

lemma planned_poll:
  assumes R: "runtime_ok R (sf_vals F)" and F: "file_ok (rt_lib R) F" and S: "parquet_stream_ok (rt_lib R) F"
    and preds: "\<forall>p \<in> set (filter_list filt). predicate_ok (arr (rt_env R)) (rt_lib R) F p"
    and init: "init_polls R F proj filt n' gs" and base: "stream_base R F proj n' gs sel s" and ps: "good R F ps M"
    and pl: "planned R F proj filt n' M g bits ctx" and rf: "factory_ok F filt rf" and g: "g < length (pm_row_groups (sf_meta F))"
    and bits: "length bits = pm_row_groups (sf_meta F) ! g" "size_fits (sf_batch_size F) n' bits"
    and k: "Suc (read_cost F bits 0 gs) < k"
    and s1: "s1 = (if pc_missing_batches ctx \<noteq> [] \<and> pc_cache_column_ids ctx \<noteq> []
      then s\<lparr>ls_reader := None, ls_state := FillCache rf ctx\<rparr> else start_reading rf ctx s)"
  shows "\<exists>item s' ps'. stream_poll_next R k s1 ps = Ok (item, s', ps')
    \<and> delivers R F proj filt n' (read_cost F bits 0 gs)
        (\<lambda>c. rows_from F (filter_list filt) g bits 0 gs sel (\<lambda>g. sf_rows F g c))
        (rows_from F (filter_list filt) g bits 0 gs sel (row_numbers F)) item s' ps'"
proof -
  note pd = pl [unfolded planned_def]
  obtain B where B: "sorted_wrt (<) B" "\<forall>b \<in> set B. b < 2 ^ 16 \<and> b * sf_batch_size F < length bits"
    "pc_missing_batches ctx = map nth_batch (filter (\<lambda>b. \<exists>c \<in> set (pc_cache_column_ids ctx). M (batch_key F g c (nth_batch b)) = None) B)"
    using pd by blast
  let ?B = "filter (\<lambda>b. \<exists>c \<in> set (pc_cache_column_ids ctx). M (batch_key F g c (nth_batch b)) = None) B"
  show ?thesis
  proof (cases "pc_missing_batches ctx \<noteq> [] \<and> pc_cache_column_ids ctx \<noteq> []")
    case True
    then have ne: "?B \<noteq> []" "pc_cache_column_ids ctx \<noteq> []" using B(3) by auto
    have sB: "sorted_wrt (<) ?B" using B(1) by (simp add: sorted_wrt_filter)
    have bB: "\<forall>b \<in> set ?B. b < 2 ^ 16 \<and> b * sf_batch_size F < pm_row_groups (sf_meta F) ! g" using B(2) bits(1) by simp
    have rg: "group_ok (rt_lib R) F g (pc_cached_row_group ctx)" and pc: "pc_row_group_idx ctx = g"
      "pc_cache_column_ids ctx = mask_columns (rt_lib R) F (pc_cache_projection ctx)" using pd by blast+
    have rfm: "rf_metadata rf = sf_meta F" using rf by (simp add: factory_ok_def)
    obtain ps1 M1 where f: "fill_cache_from_parquet R rf ctx ps = Ok (Inr (), ps1)" "good R F ps1 M1"
      "batch_keys F g (set ?B) (pc_cache_column_ids ctx) \<union> dom M \<subseteq> dom M1"
      using fill_cache_ok [OF R F S ps rg g rfm pc ne(2) B(3) ne(1) sB bB] by blast
    have "batches_ready F M1 g (mask_columns (rt_lib R) F proj) (filter_list filt) bits"
    proof (rule planned_ready [OF F pl])
      fix b c assume b: "nth_batch b \<in> set (pc_missing_batches ctx)" "b < 2 ^ 16" and c: "c \<in> set (pc_cache_column_ids ctx)"
      then obtain b' where "b' \<in> set ?B" "nth_batch b = nth_batch b'" unfolding B(3) by auto
      then have "batch_key F g c (nth_batch b) \<in> batch_keys F g (set ?B) (pc_cache_column_ids ctx)"
        unfolding batch_keys_def mem_Collect_eq using c by metis
      with f(3) show "M1 (batch_key F g c (nth_batch b)) \<noteq> None" by auto
    qed (use f(3) in blast)
    note at = start_reading_ok [OF base pl rf g bits this]
    obtain k1 where k1: "k = Suc k1" using k by (cases k) auto
    let ?s = "s\<lparr>ls_reader := None, ls_state := FillCache rf ctx\<rparr>"
    have same: "start_reading rf ctx ?s = start_reading rf ctx s" by (simp add: start_reading_def)
    have "read_cost F bits 0 gs < k1" using k k1 by simp
    from reading_poll [OF R F preds init at f(2) this] show ?thesis
      using s1 True k1 f(1) same by simp
  next
    case False
    have "batches_ready F M g (mask_columns (rt_lib R) F proj) (filter_list filt) bits"
      by (rule planned_ready [OF F pl]) (use False in auto)
    note at = start_reading_ok [OF base pl rf g bits this]
    have "read_cost F bits 0 gs < k" using k by simp
    from reading_poll [OF R F preds init at ps this] show ?thesis using s1 False by simp
  qed
qed

lemma init_polls_ok:
  assumes R: "runtime_ok R (sf_vals F)" and F: "file_ok (rt_lib R) F" and S: "parquet_stream_ok (rt_lib R) F"
    and preds: "\<forall>p \<in> set (filter_list filt). predicate_ok (arr (rt_env R)) (rt_lib R) F p"
    and n': "n' = min (sf_batch_size F) (file_num_rows (sf_meta F))"
  shows "init_polls R F proj filt n' gs"
proof (induction gs)
  case Nil
  show ?case unfolding init_polls_def
  proof (intro allI impI)
    fix k s ps M sel assume s: "at_init R F proj filt n' [] sel s" and ps: "good R F ps M" and k: "scan_cost F [] < k"
    obtain k1 where k1: "k = Suc k1" using k by (cases k) auto
    have "stream_poll_next R k s ps = Ok (None, s, ps)"
      using s k1 by (simp add: at_init_def stream_base_def start_row_group_def)
    moreover have "scan_rows F (filter_list filt) [] sel rows = []" for rows :: "nat \<Rightarrow> 'x list" by (simp add: scan_rows_def)
    ultimately show "\<exists>item s' ps'. stream_poll_next R k s ps = Ok (item, s', ps')
       \<and> delivers R F proj filt n' (scan_cost F []) (\<lambda>c. scan_rows F (filter_list filt) [] sel (\<lambda>g. sf_rows F g c))
           (scan_rows F (filter_list filt) [] sel (row_numbers F)) item s' ps'"
      using ps by (auto simp: delivers_def scan_rows_def)
  qed
next
  case (Cons g gs)
  show ?case unfolding init_polls_def
  proof (intro allI impI)
    fix k s ps M sel assume s: "at_init R F proj filt n' (g # gs) sel s" and ps: "good R F ps M" and k: "scan_cost F (g # gs) < k"
    let ?rc = "pm_row_groups (sf_meta F) ! g"
    let ?bits = "case sel of Some bits \<Rightarrow> take ?rc bits | None \<Rightarrow> replicate ?rc True"
    let ?sel = "map_option (drop ?rc) sel"
    obtain k1 where k1: "k = Suc k1" using k by (cases k) auto
    obtain rf where base: "stream_base R F proj n' (g # gs) sel s" "ls_state s = StreamInit" "ls_reader s = Some rf" "factory_ok F filt rf"
      using s by (auto simp: at_init_def)
    note b = base(1) [unfolded stream_base_def]
    have gv: "groups_valid F (g # gs) sel" using b by blast
    note g = groups_valid_Cons [OF gv]
    obtain first rest where ns: "next_selection (rt_lib R) ?rc (ls_selection s) = (first, rest)" by fastforce
    note nb = next_selection_bits [OF runtime_okD(10) [OF R] ns]
    have bits: "?bits = plan_bits ?rc first" using nb(1) b by simp
    let ?s1 = "s\<lparr>ls_row_groups := gs, ls_selection := rest\<rparr>"
    have base1: "stream_base R F proj n' gs ?sel ?s1" using b g(2) nb(2) by (simp add: stream_base_def)
    note pr = plan_row_group_ok [OF R F ps g(1) base(4) preds bits g(3), of proj n']
    have sc: "scan_cost F (g # gs) = 3 * ?rc + 5 + scan_cost F gs" by (simp add: scan_cost_def)
    show "\<exists>item s' ps'. stream_poll_next R k s ps = Ok (item, s', ps')
       \<and> delivers R F proj filt n' (scan_cost F (g # gs)) (\<lambda>c. scan_rows F (filter_list filt) (g # gs) sel (\<lambda>g. sf_rows F g c))
           (scan_rows F (filter_list filt) (g # gs) sel (row_numbers F)) item s' ps'"
    proof (cases "True \<in> set ?bits")
      case False
      then have plan: "plan_row_group R rf g first (ls_projection s) (ls_batch_size s) ps = Ok (None, rf, ps)" using pr b by (simp only: if_False)
      let ?s = "?s1\<lparr>ls_reader := Some rf, ls_state := StreamInit\<rparr>"
      have st: "start_row_group R s ps = Ok (Some ?s, ps)"
        using start_row_group_eq [OF _ _ base(3) _ plan, where gs = gs] b g(1) ns by (simp add: Let_def)
      have "at_init R F proj filt n' gs ?sel ?s" using base1 base(4) by (simp add: at_init_def stream_base_def)
      moreover have "scan_cost F gs < k1" using k k1 sc by simp
      ultimately obtain item s' ps' where q: "stream_poll_next R k1 ?s ps = Ok (item, s', ps')"
        "delivers R F proj filt n' (scan_cost F gs) (\<lambda>c. scan_rows F (filter_list filt) gs ?sel (\<lambda>g. sf_rows F g c))
          (scan_rows F (filter_list filt) gs ?sel (row_numbers F)) item s' ps'"
        using Cons.IH ps unfolding init_polls_def by blast
      have none: "True \<notin> set (drop (0 * sf_batch_size F) (kept F g (filter_list filt) ?bits))" using kept_none [OF False] by simp
      have "stream_poll_next R k s ps = Ok (item, s', ps')" using k1 base(2) st q(1) by simp
      moreover have "delivers R F proj filt n' (scan_cost F (g # gs)) (\<lambda>c. scan_rows F (filter_list filt) (g # gs) sel (\<lambda>g. sf_rows F g c))
           (scan_rows F (filter_list filt) (g # gs) sel (row_numbers F)) item s' ps'"
        unfolding scan_rows_Cons rows_from_end [OF none] by (rule delivers_mono [OF q(2)]) (simp add: sc)
      ultimately show ?thesis by blast
    next
      case True
      then obtain ctx ps1 where plan: "plan_row_group R rf g first (ls_projection s) (ls_batch_size s) ps = Ok (Some ctx, rf, ps1)"
        and ps1: "good R F ps1 M" and pl: "planned R F proj filt n' M g ?bits ctx"
        using pr b by (simp only: if_True) blast
      let ?s = "if pc_missing_batches ctx \<noteq> [] \<and> pc_cache_column_ids ctx \<noteq> []
        then ?s1\<lparr>ls_reader := None, ls_state := FillCache rf ctx\<rparr> else start_reading rf ctx ?s1"
      have st: "start_row_group R s ps = Ok (Some ?s, ps1)"
        using start_row_group_eq [OF _ _ base(3) _ plan, where gs = gs] b g(1) ns by (simp add: Let_def)
      have rc0: "0 < ?rc" using True g(3) by (metis length_greater_0_conv length_pos_if_in_set)
      have "?rc \<le> file_num_rows (sf_meta F)" unfolding file_num_rows_def using g(1) by (intro member_le_sum_list) simp_all
      then have fits: "size_fits (sf_batch_size F) n' ?bits"
        unfolding size_fits_def g(3) n' using rc0 file_okD(6) [OF F] by auto
      have cost: "read_cost F ?bits 0 gs = 3 * ?rc + 2 + scan_cost F gs" unfolding read_cost_def g(3) by simp
      have "Suc (read_cost F ?bits 0 gs) < k1" using k k1 sc cost by simp
      from planned_poll [OF R F S preds Cons.IH base1 ps1 pl base(4) g(1) g(3) fits this refl]
      obtain item s' ps' where q: "stream_poll_next R k1 ?s ps1 = Ok (item, s', ps')"
        "delivers R F proj filt n' (read_cost F ?bits 0 gs) (\<lambda>c. rows_from F (filter_list filt) g ?bits 0 gs ?sel (\<lambda>g. sf_rows F g c))
          (rows_from F (filter_list filt) g ?bits 0 gs ?sel (row_numbers F)) item s' ps'" by blast
      have "stream_poll_next R k s ps = Ok (item, s', ps')" using k1 base(2) st q(1) by simp
      moreover have "delivers R F proj filt n' (scan_cost F (g # gs)) (\<lambda>c. scan_rows F (filter_list filt) (g # gs) sel (\<lambda>g. sf_rows F g c))
           (scan_rows F (filter_list filt) (g # gs) sel (row_numbers F)) item s' ps'"
        unfolding scan_rows_Cons by (rule delivers_mono [OF q(2)]) (simp add: sc cost)
      ultimately show ?thesis by blast
    qed
  qed
qed

section \<open>The whole stream\<close>

definition delivered :: "('a, 'm, 'v) scan_file \<Rightarrow> nat list \<Rightarrow> (nat \<Rightarrow> 'v list) \<Rightarrow> nat list \<Rightarrow> 'a record_batch list \<Rightarrow> bool" where
  "delivered F ids todo numbers rbs \<longleftrightarrow> (\<forall>rb \<in> set rbs. length (rb_columns rb) = length ids)
     \<and> (\<forall>j < length ids. concat (map (\<lambda>rb. sf_vals F (rb_columns rb ! j)) rbs) = todo (ids ! j))
     \<and> sum_list (map rb_num_rows rbs) = length numbers"

lemma collect_after:
  assumes "stream_poll_next R k s ps = Ok (item, s', ps')"
    and "delivers R F proj filt n' cost todo numbers item s' ps'"
    and rest: "\<And>M g bits b gs sel. good R F ps' M \<Longrightarrow> at_reading R F proj filt n' M g bits b gs sel s' \<Longrightarrow> read_cost F bits b gs < cost \<Longrightarrow>
      \<exists>rbs ps'' M'. stream_collect R k s' ps' = Ok (rbs, ps'') \<and> good R F ps'' M'
        \<and> delivered F (mask_columns (rt_lib R) F proj) (\<lambda>c. rows_from F (filter_list filt) g bits b gs sel (\<lambda>g. sf_rows F g c))
            (rows_from F (filter_list filt) g bits b gs sel (row_numbers F)) rbs"
  shows "\<exists>rbs ps'' M'. stream_collect R (Suc k) s ps = Ok (rbs, ps'') \<and> good R F ps'' M'
    \<and> delivered F (mask_columns (rt_lib R) F proj) todo numbers rbs"
proof (cases item)
  case None
  with assms(1,2) show ?thesis by (auto simp: delivers_def delivered_def)
next
  case (Some rb)
  let ?ids = "mask_columns (rt_lib R) F proj"
  obtain M g bits b gs sel where d: "good R F ps' M" "at_reading R F proj filt n' M g bits b gs sel s'" "read_cost F bits b gs < cost"
    "list_all2 (\<lambda>c x. todo c = sf_vals F x @ rows_from F (filter_list filt) g bits b gs sel (\<lambda>g. sf_rows F g c)) ?ids (rb_columns rb)"
    "length numbers = rb_num_rows rb + length (rows_from F (filter_list filt) g bits b gs sel (row_numbers F))"
    using assms(2) Some by (auto simp: delivers_def Let_def)
  obtain rbs ps'' M' where r: "stream_collect R k s' ps' = Ok (rbs, ps'')" "good R F ps'' M'"
    "delivered F ?ids (\<lambda>c. rows_from F (filter_list filt) g bits b gs sel (\<lambda>g. sf_rows F g c))
      (rows_from F (filter_list filt) g bits b gs sel (row_numbers F)) rbs"
    using rest [OF d(1-3)] by blast
  have "stream_collect R (Suc k) s ps = Ok (rb # rbs, ps'')" using assms(1) Some r(1) by simp
  moreover have "delivered F ?ids todo numbers (rb # rbs)"
    using d(4,5) r(3) by (auto simp: delivered_def list_all2_conv_all_nth)
  ultimately show ?thesis using r(2) by blast
qed

lemma collect_reading:
  assumes R: "runtime_ok R (sf_vals F)" and F: "file_ok (rt_lib R) F" and S: "parquet_stream_ok (rt_lib R) F"
    and preds: "\<forall>p \<in> set (filter_list filt). predicate_ok (arr (rt_env R)) (rt_lib R) F p"
    and n': "n' = min (sf_batch_size F) (file_num_rows (sf_meta F))"
  shows "good R F ps M \<Longrightarrow> at_reading R F proj filt n' M g bits b gs sel s \<Longrightarrow> Suc (read_cost F bits b gs) < k \<Longrightarrow>
    \<exists>rbs ps' M'. stream_collect R k s ps = Ok (rbs, ps') \<and> good R F ps' M'
      \<and> delivered F (mask_columns (rt_lib R) F proj) (\<lambda>c. rows_from F (filter_list filt) g bits b gs sel (\<lambda>g. sf_rows F g c))
          (rows_from F (filter_list filt) g bits b gs sel (row_numbers F)) rbs"
proof (induction k arbitrary: ps M g bits b gs sel s)
  case (Suc k)
  have k: "read_cost F bits b gs < k" using Suc.prems(3) by simp
  obtain item s' ps' where q: "stream_poll_next R k s ps = Ok (item, s', ps')"
    "delivers R F proj filt n' (read_cost F bits b gs) (\<lambda>c. rows_from F (filter_list filt) g bits b gs sel (\<lambda>g. sf_rows F g c))
      (rows_from F (filter_list filt) g bits b gs sel (row_numbers F)) item s' ps'"
    using reading_poll [OF R F preds init_polls_ok [OF R F S preds n'] Suc.prems(2,1) k] by blast
  show ?case
  proof (rule collect_after [OF q])
    fix M' g' bits' b' gs' sel' assume at: "good R F ps' M'" "at_reading R F proj filt n' M' g' bits' b' gs' sel' s'"
      "read_cost F bits' b' gs' < read_cost F bits b gs"
    have "Suc (read_cost F bits' b' gs') < k" using at(3) k by simp
    from Suc.IH [OF at(1,2) this] show "\<exists>rbs ps'' M'. stream_collect R k s' ps' = Ok (rbs, ps'') \<and> good R F ps'' M'
      \<and> delivered F (mask_columns (rt_lib R) F proj) (\<lambda>c. rows_from F (filter_list filt) g' bits' b' gs' sel' (\<lambda>g. sf_rows F g c))
          (rows_from F (filter_list filt) g' bits' b' gs' sel' (row_numbers F)) rbs" .
  qed
qed simp

lemma collect_init:
  assumes R: "runtime_ok R (sf_vals F)" and F: "file_ok (rt_lib R) F" and S: "parquet_stream_ok (rt_lib R) F"
    and preds: "\<forall>p \<in> set (filter_list filt). predicate_ok (arr (rt_env R)) (rt_lib R) F p"
    and n': "n' = min (sf_batch_size F) (file_num_rows (sf_meta F))"
    and s: "at_init R F proj filt n' gs sel s" and ps: "good R F ps M" and k: "Suc (scan_cost F gs) < k"
  shows "\<exists>rbs ps' M'. stream_collect R k s ps = Ok (rbs, ps') \<and> good R F ps' M'
    \<and> delivered F (mask_columns (rt_lib R) F proj) (\<lambda>c. scan_rows F (filter_list filt) gs sel (\<lambda>g. sf_rows F g c))
        (scan_rows F (filter_list filt) gs sel (row_numbers F)) rbs"
proof -
  obtain k1 where k1: "k = Suc k1" using k by (cases k) auto
  have fuel: "scan_cost F gs < k1" using k k1 by simp
  obtain item s' ps' where q: "stream_poll_next R k1 s ps = Ok (item, s', ps')"
    "delivers R F proj filt n' (scan_cost F gs) (\<lambda>c. scan_rows F (filter_list filt) gs sel (\<lambda>g. sf_rows F g c))
      (scan_rows F (filter_list filt) gs sel (row_numbers F)) item s' ps'"
    using init_polls_ok [OF R F S preds n', of proj gs] s ps fuel unfolding init_polls_def by blast
  show ?thesis unfolding k1
  proof (rule collect_after [OF q])
    fix M' g' bits' b' gs' sel' assume at: "good R F ps' M'" "at_reading R F proj filt n' M' g' bits' b' gs' sel' s'"
      "read_cost F bits' b' gs' < scan_cost F gs"
    have "Suc (read_cost F bits' b' gs') < k1" using at(3) fuel by simp
    from collect_reading [OF R F S preds n' at(1,2) this] show "\<exists>rbs ps'' M'. stream_collect R k1 s' ps' = Ok (rbs, ps'') \<and> good R F ps'' M'
      \<and> delivered F (mask_columns (rt_lib R) F proj) (\<lambda>c. rows_from F (filter_list filt) g' bits' b' gs' sel' (\<lambda>g. sf_rows F g c))
          (rows_from F (filter_list filt) g' bits' b' gs' sel' (row_numbers F)) rbs" .
  qed
qed

section \<open>Building the stream\<close>

text \<open>A builder for the file: no limit, the cache's batch size, row groups of the file, a selection that covers them.\<close>

definition builder_groups :: "'m stream_builder \<Rightarrow> nat list" where
  "builder_groups sb = (case sb_row_groups sb of Some gs \<Rightarrow> gs | None \<Rightarrow> [0..<length (pm_row_groups (sb_metadata sb))])"

definition builder_for :: "('a, 'm, 'v) scan_file \<Rightarrow> 'm stream_builder \<Rightarrow> bool" where
  "builder_for F sb \<longleftrightarrow> sb_metadata sb = sf_meta F \<and> sb_batch_size sb = sf_batch_size F \<and> sb_limit sb = None \<and> sb_offset sb = None
     \<and> groups_valid F (builder_groups sb) (map_option selection_bits (sb_selection sb))"

lemma build_projection_schema_ok:
  "\<forall>c \<in> set ids. c < length schema \<Longrightarrow> build_projection_schema schema ids = map ((!) schema) ids"
  unfolding build_projection_schema_def by (induction ids) (simp_all add: List.map_filter_simps)

lemma stream_build_ok:
  assumes "file_ok P F" and "rt_lib R = P" and "builder_for F sb"
  shows "\<exists>s. stream_build P sb (sf_file F) = Ok (Inr s)
    \<and> at_init R F (sb_projection sb) (sb_filter sb) (min (sf_batch_size F) (file_num_rows (sf_meta F))) (builder_groups sb)
        (map_option selection_bits (sb_selection sb)) s"
proof -
  note b = assms(3) [unfolded builder_for_def]
  have "\<not> (case sb_row_groups sb of Some rgs \<Rightarrow> list_ex (\<lambda>x. x \<ge> length (pm_row_groups (sf_meta F))) rgs | None \<Rightarrow> False)"
    using b by (auto simp: groups_valid_def builder_groups_def list_ex_iff split: option.splits)
  moreover have "build_projection_schema (cf_schema (sf_file F)) (mask_columns P F (sb_projection sb))
      = map ((!) (cf_schema (sf_file F))) (mask_columns P F (sb_projection sb))"
    by (rule build_projection_schema_ok [OF mask_columns_bound])
  moreover have "(case sb_row_groups sb of Some rgs \<Rightarrow> rgs | None \<Rightarrow> [0..<length (pm_row_groups (sf_meta F))]) = builder_groups sb"
    using b by (simp add: builder_groups_def cong: option.case_cong)
  ultimately show ?thesis
    using b assms(2) root_column_ids_ok [OF assms(1)]
    by (simp add: stream_build_def Let_def at_init_def stream_base_def factory_ok_def)
qed

lemma scan_file_ok:
  assumes "runtime_ok R (sf_vals F)" and "file_ok (rt_lib R) F" and "parquet_stream_ok (rt_lib R) F"
    and "\<forall>p \<in> set (filter_list (sb_filter sb)). predicate_ok (arr (rt_env R)) (rt_lib R) F p"
    and "builder_for F sb" and "good R F ps M" and "Suc (scan_cost F (builder_groups sb)) < k"
  shows "\<exists>s rbs ps' M'. stream_build (rt_lib R) sb (sf_file F) = Ok (Inr s)
    \<and> stream_collect R k s ps = Ok (rbs, ps') \<and> good R F ps' M'
    \<and> delivered F (mask_columns (rt_lib R) F (sb_projection sb))
        (\<lambda>c. scan_rows F (filter_list (sb_filter sb)) (builder_groups sb) (map_option selection_bits (sb_selection sb)) (\<lambda>g. sf_rows F g c))
        (scan_rows F (filter_list (sb_filter sb)) (builder_groups sb) (map_option selection_bits (sb_selection sb)) (row_numbers F)) rbs"
proof -
  obtain s where s: "stream_build (rt_lib R) sb (sf_file F) = Ok (Inr s)"
    "at_init R F (sb_projection sb) (sb_filter sb) (min (sf_batch_size F) (file_num_rows (sf_meta F))) (builder_groups sb)
      (map_option selection_bits (sb_selection sb)) s"
    using stream_build_ok [OF assms(2) refl assms(5)] by blast
  from collect_init [OF assms(1-4) refl s(2) assms(6,7)] s(1) show ?thesis by blast
qed

end
