(* ===== verification/SampleScan.thy ===== *)
theory SampleScan
  imports ScanFile
begin

text \<open>
  A concrete file and libraries that satisfy the hypotheses of the scan: two columns of bytes in two
  row groups with batches of two rows, and a predicate that compares the first column with a byte.
\<close>

section \<open>The libraries\<close>

text \<open>The value of an expression on a row of bytes; all but a comparison of a column with a byte is null.\<close>

fun row_answer :: "expr \<Rightarrow> u8 list \<Rightarrow> bool option" where
  "row_answer (EBinary (EColumn name i) BOp_Eq (ELiteral (SV_Bytes [v]))) row = (if i < length row then Some (row ! i = v) else None)"
| "row_answer e row = None"

fun is_column :: "expr \<Rightarrow> bool" where
  "is_column (EColumn _ _) = True"
| "is_column _ = False"

abbreviation scan_arrays :: "(bytes, bytes, nat, arrow_type, unit, expr) arrays" where
  "scan_arrays \<equiv> byte_arrays (DT_Other 0) (\<lambda>e x. row_answer e [x]) is_column"

definition single_runs :: "bool list \<Rightarrow> row_selector list" where
  "single_runs bits = map (\<lambda>b. \<lparr>sel_row_count = 1, sel_skip = \<not> b\<rparr>) bits"

definition file_stream ::
  "(nat \<Rightarrow> nat \<Rightarrow> u8 list) \<Rightarrow> field list \<Rightarrow> nat \<Rightarrow> nat list \<Rightarrow> bool list \<Rightarrow> nat \<Rightarrow> bytes record_batch list" where
  "file_stream rows schema g ids bits n =
     map (\<lambda>i. \<lparr>rb_schema = map ((!) schema) ids, rb_columns = map (\<lambda>c. take n (drop (i * n) (pick bits (rows g c)))) ids,
         rb_num_rows = min n (count_list bits True - i * n)\<rparr>)
       [0..<(count_list bits True + n - 1) div n]"

definition mask_flag :: "projection_mask \<Rightarrow> nat \<Rightarrow> bool" where
  "mask_flag pm l = (case pm of None \<Rightarrow> True | Some m \<Rightarrow> l < length m \<and> m ! l)"

definition byte_lib :: "(nat \<Rightarrow> nat \<Rightarrow> u8 list) \<Rightarrow> field list \<Rightarrow> (bytes, unit) parquet_lib" where
  "byte_lib rows schema = \<lparr>
     variant_mappings_from_field = (\<lambda>_. None),
     is_variant_type = (\<lambda>_. False),
     shred_variant_array = (\<lambda>_ _ _. None),
     column_fits = (\<lambda>_ _. True),
     map_batch = (\<lambda>_ rb. Inr rb),
     expr_evaluate = (\<lambda>e rb. Inr (map (row_answer e) (rows_of id (rb_columns rb) (rb_num_rows rb)))),
     or_kleene = (\<lambda>_ _. None),
     prep_null_mask_filter = map (\<lambda>x. Some (x = Some True)),
     answer_buffer = (\<lambda>xs. pack_bits (map (\<lambda>x. x = Some True) xs)),
     leaf_included = mask_flag,
     mask_union = (\<lambda>a b. if a = None \<or> b = None then None
        else Some (map (\<lambda>l. mask_flag a l \<or> mask_flag b l) [0..<max (length (the a)) (length (the b))])),
     row_selection_from = id,
     split_off = (\<lambda>n ss. (single_runs (take n (selection_bits ss)), single_runs (drop n (selection_bits ss)))),
     parquet_stream = (\<lambda>g pm sel n. Inr (map Inr (file_stream rows schema g (filter (mask_flag pm) [0..<length schema]) (selection_bits sel) n)))\<rparr>"

lemma single_runs_bits [simp]: "selection_bits (single_runs bits) = bits"
  by (induction bits) (simp_all add: single_runs_def)

lemma byte_decodes: "decodes (byte_arrays t sat left_open) id"
proof -
  have "map fst (filter snd (zip a bs)) = pick bs a" if "length bs = length a" for a :: bytes and bs
    using that [symmetric] by (induction a bs rule: list_induct2) simp_all
  then show ?thesis by (auto simp: decodes_def byte_arrays_def sample_filter_def split: if_splits)
qed

lemma byte_lib_masks: "masks_ok (byte_lib rows schema)"
proof -
  have "mask_flag (if a = None \<or> b = None then None
        else Some (map (\<lambda>l. mask_flag a l \<or> mask_flag b l) [0..<max (length (the a)) (length (the b))])) l
      = (mask_flag a l \<or> mask_flag b l)" for a b l
    by (cases a; cases b) (auto simp: mask_flag_def)
  then show ?thesis by (simp add: masks_ok_def byte_lib_def) (simp add: mask_flag_def)
qed

definition byte_runtime ::
  "(nat \<Rightarrow> nat \<Rightarrow> u8 list) \<Rightarrow> field list \<Rightarrow> (bytes, bytes, nat, unit, liquid_queue_state, unit, bool list) runtime" where
  "byte_runtime rows schema = \<lparr>rt_env = default_env scan_arrays, rt_fuel = insert_fuel, rt_lib = byte_lib rows schema,
     rt_builder = list_builder, rt_bits = plain_bit_ops, rt_bmi2 = True, rt_left_memory = (\<lambda>_. 0), rt_right_memory = (\<lambda>_. 0)\<rparr>"

lemma byte_runtime_ok: "runtime_ok (byte_runtime rows schema) id"
proof -
  have "answers_ok (byte_lib rows schema)" by (simp add: answers_ok_def byte_lib_def)
  moreover have "splits_ok (byte_lib rows schema)" by (simp add: splits_ok_def byte_lib_def)
  moreover have "reads_fit scan_arrays (byte_lib rows schema)" by (simp add: reads_fit_def byte_lib_def)
  moreover have "bare_columns_open scan_arrays" by (simp add: bare_columns_open_def byte_arrays_def)
  moreover have "no_variants scan_arrays" by (simp add: no_variants_def byte_arrays_def)
  moreover have "normalizes (row_selection_from (byte_lib rows schema))" by (simp add: normalizes_def byte_lib_def)
  ultimately show ?thesis
    using byte_codec_ok byte_decodes byte_lib_masks plain_bit_ops_ok list_builder_ok
    by (auto simp: runtime_ok_def byte_runtime_def Let_def intro!: exI [of _ id])
qed

section \<open>The file\<close>

definition sample_schema :: "field list" where
  "sample_schema = [\<lparr>fld_name = ''a'', fld_type = DT_Other 0, fld_metadata = Map.empty\<rparr>,
     \<lparr>fld_name = ''b'', fld_type = DT_Other 0, fld_metadata = Map.empty\<rparr>]"

definition sample_file_rows :: "nat \<Rightarrow> nat \<Rightarrow> u8 list" where
  "sample_file_rows g c = (if g = 0 then (if c = 0 then [1, 2, 2] else [7, 8, 9]) else (if c = 0 then [2] else [4]))"

definition sample_meta :: parquet_metadata where
  "sample_meta = \<lparr>pm_row_groups = [3, 1], pm_num_roots = 2, pm_num_columns = 2, pm_root_of = id\<rparr>"

definition sample_file :: "(bytes, unit, u8) scan_file" where
  "sample_file = \<lparr>sf_vals = id, sf_sat = (\<lambda>p. row_answer (lp_physical_expr p)), sf_rows = sample_file_rows, sf_meta = sample_meta,
     sf_file = \<lparr>cf_file_id = 0, cf_schema = sample_schema\<rparr>, sf_batch_size = 2\<rparr>"

abbreviation sample_runtime :: "(bytes, bytes, nat, unit, liquid_queue_state, unit, bool list) runtime" where
  "sample_runtime \<equiv> byte_runtime sample_file_rows sample_schema"

definition sample_predicate :: "unit liquid_predicate" where
  "sample_predicate = (let e = EBinary (EColumn ''a'' 0) BOp_Eq (ELiteral (SV_Bytes [2])) in
     \<lparr>lp_physical_expr = e, lp_physical_expr_physical_column_index = e, lp_projection_mask = Some [True, False], lp_schema_mapper = ()\<rparr>)"

text \<open>All columns, the predicate, and a selection that leaves out the second row.\<close>

definition sample_builder :: "unit stream_builder" where
  "sample_builder = (stream_builder_new sample_meta)\<lparr>sb_batch_size := 2, sb_filter := Some [sample_predicate],
     sb_selection := Some [\<lparr>sel_row_count = 1, sel_skip = False\<rparr>, \<lparr>sel_row_count = 1, sel_skip = True\<rparr>, \<lparr>sel_row_count = 2, sel_skip = False\<rparr>]\<rparr>"

definition sample_parquet_cache :: "(bytes, bytes, nat, unit, liquid_queue_state) liquid_cache_parquet" where
  "sample_parquet_cache = (case parquet_cache_new 2 5 liquid_policy_new () of Some ps \<Rightarrow> ps | None \<Rightarrow> undefined)"

lemma sample_lib [simp]: "rt_lib sample_runtime = byte_lib sample_file_rows sample_schema" "arr (rt_env sample_runtime) = scan_arrays"
  by (simp_all add: byte_runtime_def)

lemma sample_vals [simp]: "sf_vals sample_file = id"
  by (simp add: sample_file_def)

lemma sample_file_ok: "file_ok (byte_lib sample_file_rows sample_schema) sample_file"
  by (auto simp: file_ok_def sample_file_def sample_meta_def sample_schema_def byte_lib_def sample_file_rows_def nth_Cons' less_2_cases_iff)

lemma file_stream_ok:
  assumes "sf_vals F = id"
  shows "parquet_stream_ok (byte_lib (sf_rows F) (cf_schema (sf_file F))) F"
proof -
  have ids: "mask_columns (byte_lib (sf_rows F) (cf_schema (sf_file F))) F pm
      = filter (mask_flag pm) [0..<length (cf_schema (sf_file F))]" for pm
    by (simp add: mask_columns_def byte_lib_def)
  show ?thesis unfolding parquet_stream_ok_def Let_def ids
    by (intro allI impI, rule exI [of _ "file_stream _ _ _ _ _ _"])
      (auto simp: byte_lib_def file_stream_def assms list_all2_conv_all_nth)
qed

lemma sample_predicate_simps [simp]:
  "lp_physical_expr sample_predicate = EBinary (EColumn ''a'' 0) BOp_Eq (ELiteral (SV_Bytes [2]))"
  "lp_physical_expr_physical_column_index sample_predicate = EBinary (EColumn ''a'' 0) BOp_Eq (ELiteral (SV_Bytes [2]))"
  "lp_projection_mask sample_predicate = Some [True, False]" "predicate_column_ids sample_predicate = [0]"
  by (simp_all add: sample_predicate_def Let_def predicate_column_ids_def get_predicate_column_id_def upt_rec)

lemma sample_predicate_ok: "predicate_ok scan_arrays (byte_lib sample_file_rows sample_schema) sample_file sample_predicate"
  by (simp add: predicate_ok_def sample_file_def sample_schema_def byte_lib_def mask_flag_def predicate_evaluate_def
    byte_arrays_def comp_def extract_multi_column_or_def)

lemma sample_builder_for: "builder_for sample_file sample_builder"
  by (simp add: builder_for_def sample_file_def sample_builder_def stream_builder_new_def groups_valid_def builder_groups_def sample_meta_def
    selection_bits_def)

lemma sample_cache [simp]:
  "lcp_store sample_parquet_cache = cache_new 5 liquid_policy_new ()" "lcp_batch_size sample_parquet_cache = 2"
  by (simp_all add: sample_parquet_cache_def parquet_cache_new_def is_power_of_two.simps)

lemma sample_good: "good sample_runtime sample_file sample_parquet_cache Map.empty"
proof -
  have "caches (default_env scan_arrays) tq_synced (cache_new 5 liquid_policy_new ()) Map.empty"
    by (rule caches_new) (simp_all add: tq_synced_new byte_sizes_fit)
  then show ?thesis by (simp add: good_def holds_file_def byte_runtime_def sample_file_def)
qed

lemma sample_scan_rows:
  "scan_rows sample_file [sample_predicate] [0, 1] (Some [True, False, True, True]) (\<lambda>g. sample_file_rows g 0) = [2, 2]"
  "scan_rows sample_file [sample_predicate] [0, 1] (Some [True, False, True, True]) (\<lambda>g. sample_file_rows g 1) = [9, 4]"
  by (simp_all add: scan_rows_def kept_def passes_def sample_file_def sample_meta_def sample_file_rows_def upt_rec)

section \<open>Runs\<close>

lemma sample_stream_ok: "parquet_stream_ok (byte_lib sample_file_rows sample_schema) sample_file"
  using file_stream_ok [of sample_file] by (simp add: sample_file_def)

lemma sample_builder_simps:
  "sb_projection sample_builder = None" "sb_filter sample_builder = Some [sample_predicate]" "builder_groups sample_builder = [0, 1]"
  "map_option selection_bits (sb_selection sample_builder) = Some [True, False, True, True]" "sf_rows sample_file = sample_file_rows"
  "mask_columns (byte_lib sample_file_rows sample_schema) sample_file None = [0, 1]"
  by (simp_all add: sample_builder_def stream_builder_new_def builder_groups_def sample_meta_def sample_file_def mask_columns_def byte_lib_def
    mask_flag_def sample_schema_def upt_rec numeral_eq_Suc)

lemma sample_cost: "Suc (scan_cost sample_file (builder_groups sample_builder)) < 25"
  by (simp add: sample_builder_simps scan_cost_def) (simp add: sample_file_def sample_meta_def)

lemma sample_cache_new: "parquet_cache_new 2 5 liquid_policy_new () = Some sample_parquet_cache"
  by (simp add: sample_parquet_cache_def parquet_cache_new_def is_power_of_two.simps)

lemma sample_roots:
  "root_column_ids (byte_lib sample_file_rows sample_schema) (sb_metadata sample_builder) (sb_projection sample_builder) = Ok [0, 1]"
  "build_projection_schema (cf_schema (sf_file sample_file)) [0, 1] = sample_schema"
  using root_column_ids_ok [OF sample_file_ok, of None]
  by (simp_all add: sample_builder_simps build_projection_schema_def map_filter_simps)
    (simp_all add: sample_builder_def stream_builder_new_def sample_file_def sample_schema_def)

lemma sample_scan_returns:
  "\<exists>s rbs ps'. stream_build (byte_lib sample_file_rows sample_schema) sample_builder (sf_file sample_file) = Ok (Inr s)
    \<and> stream_collect sample_runtime 25 s sample_parquet_cache = Ok (rbs, ps') \<and> rbs \<noteq> []"
proof -
  have "\<exists>s rbs ps' M'. stream_build (rt_lib sample_runtime) sample_builder (sf_file sample_file) = Ok (Inr s)
    \<and> stream_collect sample_runtime 25 s sample_parquet_cache = Ok (rbs, ps') \<and> good sample_runtime sample_file ps' M'
    \<and> delivered sample_file (mask_columns (rt_lib sample_runtime) sample_file (sb_projection sample_builder))
        (\<lambda>c. scan_rows sample_file (filter_list (sb_filter sample_builder)) (builder_groups sample_builder)
          (map_option selection_bits (sb_selection sample_builder)) (\<lambda>g. sf_rows sample_file g c))
        (scan_rows sample_file (filter_list (sb_filter sample_builder)) (builder_groups sample_builder)
          (map_option selection_bits (sb_selection sample_builder)) (row_numbers sample_file)) rbs"
    using byte_runtime_ok sample_file_ok sample_stream_ok sample_predicate_ok sample_builder_for sample_good sample_cost
    by (intro scan_file_ok) (simp_all add: sample_builder_simps filter_list_def)
  moreover have "rbs \<noteq> []" if "delivered sample_file [0, 1] (\<lambda>c. scan_rows sample_file [sample_predicate] [0, 1]
      (Some [True, False, True, True]) (\<lambda>g. sample_file_rows g c)) numbers rbs" for rbs numbers
    using that sample_scan_rows(1) by (auto simp: delivered_def)
  ultimately show ?thesis unfolding sample_lib sample_builder_simps filter_list_def option.case by blast
qed

text \<open>The factory of the sample with a limit of one row.\<close>

definition sample_limited :: "unit reader_factory" where
  "sample_limited = \<lparr>rf_metadata = sample_meta, rf_filter = Some [sample_predicate], rf_limit = Some 1, rf_offset = None, rf_cached_file = sf_file sample_file\<rparr>"

lemma sample_limited_plan:
  "\<exists>ctx rf' ps'. plan_row_group sample_runtime sample_limited 0 None None 2 sample_parquet_cache = Ok (Some ctx, rf', ps')"
proof -
  let ?P = "byte_lib sample_file_rows sample_schema"
  have roots: "root_column_ids ?P sample_meta pm = Ok (mask_columns ?P sample_file pm)" for pm
    using root_column_ids_ok [OF sample_file_ok, of pm] by (simp add: sample_file_def)
  have "row_selection_from ?P = id" by (simp add: byte_lib_def)
  then have "offset_limit ?P sample_limited [\<lparr>sel_row_count = 3, sel_skip = False\<rparr>] = [\<lparr>sel_row_count = 1, sel_skip = False\<rparr>]"
    "row_selection_from ?P [\<lparr>sel_row_count = 3, sel_skip = False\<rparr>] = [\<lparr>sel_row_count = 3, sel_skip = False\<rparr>]"
    by (simp_all add: offset_limit_def sample_limited_def limit_row_selection_def)
  then show ?thesis unfolding plan_row_group_def Let_def
    by (simp add: roots sample_limited_def selected_row_count_def case_prod_beta split: option.split) (simp add: sample_meta_def selected_row_count_def)
qed

text \<open>A file with a struct of two leaves before its second column.\<close>

definition nested_meta :: parquet_metadata where
  "nested_meta = \<lparr>pm_row_groups = [1], pm_num_roots = 2, pm_num_columns = 3, pm_root_of = (\<lambda>l. if l \<le> 1 then 0 else 1)\<rparr>"

definition nested_inner :: reader_inner where
  "nested_inner = \<lparr>ri_cached_row_group = fst (create_row_group (byte_lib sample_file_rows sample_schema) (sf_file sample_file) 0 [1] sample_parquet_cache),
     ri_current_batch_id = batch_id_from_raw 0, ri_selection = [], ri_schema = sample_schema, ri_batch_size = 2, ri_projection_columns = [1]\<rparr>"

text \<open>More files than keys tell apart.\<close>

definition many_files :: "(string \<times> field list) list" where
  "many_files = map (\<lambda>i. (decimal i, sample_schema)) [0..<65537]"

lemma many_files_distinct: "distinct (map fst many_files)"
  by (simp add: many_files_def comp_def distinct_map inj_on_def decimal_inj)

lemma many_files_length [simp]: "length many_files = 65537"
  by (simp add: many_files_def)

end
