(* ===== verification/ScanTypes.thy ===== *)
theory ScanTypes
  imports ParquetReader
begin

text \<open>
  Types of what the Parquet reader emits, for every runtime and without assumptions on the file:
  a record batch of the stream has the projected schema, a column of the field's type per field,
  and columns as long as its row count.
\<close>

section \<open>Well-typed batches and states\<close>

definition batch_typed ::
  "('a, 'l, 's, 'c, 'p, 'm, 'b) runtime \<Rightarrow> field list \<Rightarrow> 'a record_batch \<Rightarrow> bool" where
  "batch_typed R schema rb \<longleftrightarrow> rb_schema rb = schema \<and> list_all2 (column_fits (rt_lib R)) schema (rb_columns rb)
     \<and> (\<forall>c \<in> set (rb_columns rb). arrow_len (arr (rt_env R)) c = rb_num_rows rb)"

text \<open>A reader, and a stream, whose batches have the schema.\<close>

fun state_typed :: "field list \<Rightarrow> 'm reader_state \<Rightarrow> bool" where
  "state_typed schema (Ready inner) \<longleftrightarrow> ri_schema inner = schema"
| "state_typed schema (Processing inner filt selection) \<longleftrightarrow> ri_schema inner = schema"
| "state_typed schema Finished \<longleftrightarrow> True"

fun stream_typed :: "field list \<Rightarrow> 'm stream_state \<Rightarrow> bool" where
  "stream_typed schema (ReadFromCache rd) \<longleftrightarrow> state_typed schema (rd_state rd)"
| "stream_typed schema StreamInit \<longleftrightarrow> True"
| "stream_typed schema (FillCache rf ctx) \<longleftrightarrow> True"

section \<open>The reader\<close>

lemma record_batch_typed:
  "record_batch_try_new (arr (rt_env R)) (rt_lib R) schema columns = Some rb \<Longrightarrow> batch_typed R schema rb"
  by (auto simp: record_batch_try_new_def batch_typed_def list_all_iff split: list.split_asm if_split_asm)

lemma read_from_cache_typed:
  assumes "read_from_cache R inner selection ps = Ok (Inr (Some rb), ps')"
  shows "batch_typed R (ri_schema inner) rb"
proof (cases "ri_projection_columns inner = []")
  case True
  then show ?thesis using assms by (auto simp: read_from_cache_def Let_def batch_typed_def split: if_split_asm)
next
  case False
  then obtain r ps1 where q: "read_projection R (ri_cached_row_group inner) (ri_current_batch_id inner) selection (ri_projection_columns inner) ps
      = Ok (r, ps1)"
    using assms by (auto simp: read_from_cache_def Let_def obind_Ok_conv split: if_split_asm)
  then show ?thesis using assms False
    by (cases r) (auto simp: read_from_cache_def Let_def obind_Ok_conv expect_Ok_conv dest: record_batch_typed split: if_split_asm)
qed

lemma next_batch_typed:
  assumes "next_batch R inner filt selection ps = Ok ((inner', filt', result), ps')"
  shows "ri_schema inner' = ri_schema inner" "result = Emit (Inr rb) \<Longrightarrow> batch_typed R (ri_schema inner) rb"
proof -
  obtain r ps1 where r: "build_predicate_filter R inner filt selection ps = Ok (r, ps1)"
    using assms by (auto simp: next_batch_def obind_Ok_conv)
  have "ri_schema inner' = ri_schema inner \<and> (\<forall>rb. result = Emit (Inr rb) \<longrightarrow> batch_typed R (ri_schema inner) rb)"
  proof (cases r)
    case (Inr narrowed)
    then obtain q ps2 where q: "read_from_cache R inner narrowed ps1 = Ok (q, ps2)"
      using assms r by (auto simp: next_batch_def obind_Ok_conv)
    then show ?thesis using assms r Inr
      by (cases q) (auto simp: next_batch_def Let_def dest: read_from_cache_typed split: option.split_asm)
  qed (use assms r in \<open>auto simp: next_batch_def\<close>)
  then show "ri_schema inner' = ri_schema inner" "result = Emit (Inr rb) \<Longrightarrow> batch_typed R (ri_schema inner) rb" by blast+
qed

lemma reader_poll_typed:
  "reader_poll_next R n rd ps = Ok (item, rd', ps') \<Longrightarrow> state_typed schema (rd_state rd) \<Longrightarrow>
    state_typed schema (rd_state rd') \<and> (\<forall>rb. item = Some (Inr rb) \<longrightarrow> batch_typed R schema rb)"
proof (induction n arbitrary: rd ps)
  case (Suc n)
  show ?case
  proof (cases "rd_state rd")
    case (Ready inner)
    then show ?thesis using Suc by (fastforce split: prod.split_asm option.split_asm)
  next
    case (Processing inner filt selection)
    then obtain inner1 filt1 result ps1 where q: "next_batch R inner filt selection ps = Ok ((inner1, filt1, result), ps1)"
      using Suc.prems(1) by (auto simp: obind_Ok_conv)
    have t: "ri_schema inner1 = schema" using next_batch_typed(1) [OF q] Suc.prems(2) Processing by simp
    show ?thesis
    proof (cases result)
      case (Emit x)
      then show ?thesis using next_batch_typed(2) [OF q] Suc.prems Processing q t by auto
    next
      case Skip
      then show ?thesis using Suc.IH [of "\<lparr>rd_state = Ready inner1, rd_row_filter = filt1\<rparr>" ps1] Suc.prems(1) Processing q t by auto
    qed
  next
    case Finished
    then show ?thesis using Suc.prems by auto
  qed
qed simp

section \<open>The stream\<close>

lemma start_row_group_typed:
  assumes "start_row_group R s ps = Ok (Some s', ps')"
  shows "ls_schema s' = ls_schema s" "stream_typed (ls_schema s) (ls_state s')"
  using assms
  by (auto simp: start_row_group_def Let_def obind_Ok_conv expect_Ok_conv start_reading_def cache_reader_new_def
    split: list.split_asm if_split_asm option.split_asm prod.split_asm)

lemma stream_poll_typed:
  "stream_poll_next R n s ps = Ok (item, s', ps') \<Longrightarrow> stream_typed (ls_schema s) (ls_state s) \<Longrightarrow>
    ls_schema s' = ls_schema s \<and> stream_typed (ls_schema s) (ls_state s') \<and> (\<forall>rb. item = Some rb \<longrightarrow> batch_typed R (ls_schema s) rb)"
proof (induction n arbitrary: s ps)
  case (Suc n)
  show ?case
  proof (cases "ls_state s")
    case StreamInit
    then obtain t ps1 where q: "start_row_group R s ps = Ok (t, ps1)" using Suc.prems(1) by (auto simp: obind_Ok_conv)
    show ?thesis
    proof (cases t)
      case None
      then show ?thesis using Suc.prems StreamInit q by auto
    next
      case (Some s1)
      note t = start_row_group_typed [OF q [unfolded Some]]
      show ?thesis using Suc.IH [of s1 ps1] Suc.prems(1) StreamInit q Some t by simp
    qed
  next
    case (FillCache rf ctx)
    then obtain r ps1 where "fill_cache_from_parquet R rf ctx ps = Ok (r, ps1)" using Suc.prems(1) by (auto simp: obind_Ok_conv)
    with Suc.prems(1) FillCache have q: "stream_poll_next R n (start_reading rf ctx s) ps1 = Ok (item, s', ps')"
      by (cases r) simp_all
    show ?thesis using Suc.IH [OF q] by (simp add: start_reading_def cache_reader_new_def)
  next
    case (ReadFromCache rd)
    then obtain x rd1 ps1 where q: "reader_poll_next R n rd ps = Ok (x, rd1, ps1)"
      using Suc.prems(1) by (auto simp: obind_Ok_conv)
    have t: "state_typed (ls_schema s) (rd_state rd1)" "x = Some (Inr rb) \<Longrightarrow> batch_typed R (ls_schema s) rb" for rb
      using reader_poll_typed [OF q, of "ls_schema s"] Suc.prems(2) ReadFromCache by auto
    show ?thesis
    proof (cases x)
      case None
      then obtain rf where r: "stream_poll_next R n
          (s\<lparr>ls_reader := Some (rf\<lparr>rf_filter := rd_row_filter rd1\<rparr>), ls_state := StreamInit\<rparr>) ps1 = Ok (item, s', ps')"
        using Suc.prems(1) ReadFromCache q by (auto simp: obind_Ok_conv expect_Ok_conv)
      show ?thesis using Suc.IH [OF r] by simp
    next
      case (Some i)
      then show ?thesis using Suc.prems(1) ReadFromCache q t by (auto split: sum.split_asm)
    qed
  qed
qed simp

lemma stream_collect_typed:
  "stream_collect R n s ps = Ok (rbs, ps') \<Longrightarrow> stream_typed (ls_schema s) (ls_state s) \<Longrightarrow> rb \<in> set rbs \<Longrightarrow>
    batch_typed R (ls_schema s) rb"
proof (induction n arbitrary: s ps rbs)
  case (Suc n)
  obtain item s1 ps1 where q: "stream_poll_next R n s ps = Ok (item, s1, ps1)" using Suc.prems(1) by (auto simp: obind_Ok_conv)
  note t = stream_poll_typed [OF q Suc.prems(2)]
  show ?case
  proof (cases item)
    case None
    then show ?thesis using Suc.prems q by simp
  next
    case (Some b)
    then obtain bs where c: "stream_collect R n s1 ps1 = Ok (bs, ps')" "rbs = b # bs"
      using Suc.prems(1) q by (auto simp: obind_Ok_conv)
    show ?thesis using Suc.IH [OF c(1)] t Some c(2) Suc.prems(3) by auto
  qed
qed simp

lemma stream_build_typed:
  assumes "stream_build P sb cf = Ok (Inr s)"
  shows "stream_typed schema (ls_state s)"
    "\<exists>ids. root_column_ids P (sb_metadata sb) (sb_projection sb) = Ok ids \<and> ls_schema s = build_projection_schema (cf_schema cf) ids"
  using assms by (auto simp: stream_build_def Let_def obind_Ok_conv split: if_split_asm)

end
