(* ===== verification/ParquetPlans.thy ===== *)
theory ParquetPlans
  imports ScanWindows
begin

text \<open>
  Facts about the Parquet cache that need no assumptions on the file: which hint the store gets for
  a column, which keys two files share, which rows a limit leaves to a row group, and what a
  predicate on a file with nested columns does.
\<close>

section \<open>Hints\<close>

text \<open>The expression that occurs most often, and of several such the one that occurs last.\<close>

definition most_frequent :: "'x list \<Rightarrow> 'x \<Rightarrow> bool" where
  "most_frequent h x \<longleftrightarrow> x \<in> set h \<and> (\<forall>y \<in> set h. count_list h y < count_list h x
     \<or> count_list h y = count_list h x \<and> (\<exists>us vs. h = us @ x # vs \<and> y \<notin> set vs))"

definition recent :: "'x list \<Rightarrow> 'x list" where
  "recent h = drop (length h - COLUMN_EXPRESSION_HISTORY) h"

text \<open>A table of counts of the list \<open>h\<close>: every element with its count and its last position.\<close>

definition counts_of :: "'x list \<Rightarrow> ('x \<times> nat \<times> nat) list \<Rightarrow> bool" where
  "counts_of h cs \<longleftrightarrow> distinct (map fst cs) \<and> fst ` set cs = set h
     \<and> (\<forall>(x, n, i) \<in> set cs. n = count_list h x \<and> i < length h \<and> h ! i = x \<and> (\<forall>j. i < j \<longrightarrow> j < length h \<longrightarrow> h ! j \<noteq> x))"

lemma counts_of_step:
  assumes "counts_of h cs"
  shows "counts_of (h @ [e]) (case map_of cs e of
      Some (n, last_idx) \<Rightarrow> map (\<lambda>(x, v). if x = e then (x, n + 1, length h) else (x, v)) cs
    | None \<Rightarrow> (e, 1, length h) # cs)"
proof (cases "map_of cs e")
  case None
  then have "e \<notin> set h" using assms by (auto simp: counts_of_def map_of_eq_None_iff)
  moreover from this have "count_list h e = 0" by (simp add: count_list_0_iff)
  moreover have "e \<notin> fst ` set cs" using None by (simp add: map_of_eq_None_iff)
  ultimately show ?thesis using assms None by (auto simp: counts_of_def nth_append less_Suc_eq)
next
  case (Some v)
  obtain n i where v: "v = (n, i)" by fastforce
  let ?f = "\<lambda>(x, v). if x = e then (x, n + 1, length h) else (x, v)"
  have mem: "(e, n, i) \<in> set cs" using Some v by (simp add: map_of_SomeD)
  have fst: "map fst (map ?f cs) = map fst cs" by auto
  have "fst ` set (map ?f cs) = set (map fst (map ?f cs))" by (metis image_set)
  then have "fst ` set (map ?f cs) = set (h @ [e])" using assms mem unfolding fst by (force simp: counts_of_def)
  moreover have "distinct (map fst (map ?f cs))" using assms unfolding fst by (simp add: counts_of_def)
  moreover have "n = count_list h e" using assms mem by (auto simp: counts_of_def)
  moreover have "k = count_list (h @ [e]) x \<and> j < length (h @ [e]) \<and> (h @ [e]) ! j = x
      \<and> (\<forall>j'. j < j' \<longrightarrow> j' < length (h @ [e]) \<longrightarrow> (h @ [e]) ! j' \<noteq> x)" if xkj: "(x, k, j) \<in> set (map ?f cs)" for x k j
  proof (cases "x = e")
    case True
    then show ?thesis using xkj calculation(3) by (auto split: if_split_asm)
  next
    case False
    then have "(x, k, j) \<in> set cs" using xkj by auto
    then have "k = count_list h x \<and> j < length h \<and> h ! j = x \<and> (\<forall>j'. j < j' \<longrightarrow> j' < length h \<longrightarrow> h ! j' \<noteq> x)"
      using assms by (auto simp: counts_of_def)
    then show ?thesis using False by (auto simp: nth_append less_Suc_eq)
  qed
  ultimately show ?thesis unfolding counts_of_def Some v option.case prod.case by blast
qed

lemma count_expressions_counts:
  "counts_of h cs \<Longrightarrow> counts_of (h @ hs) (count_expressions (length h) hs cs)"
proof (induction hs arbitrary: h cs)
  case (Cons e hs)
  from Cons.IH [OF counts_of_step [OF Cons.prems, of e]] show ?case by simp
qed simp

lemma max_count_None: "max_count cs = None \<longleftrightarrow> cs = []"
  by (induction cs rule: max_count.induct) (auto split: option.splits)

text \<open>The greatest element of a table, by count and then by position.\<close>

lemma max_count_greatest:
  "max_count cs = Some (x, n, i) \<Longrightarrow> (x, n, i) \<in> set cs \<and> (\<forall>(y, m, j) \<in> set cs. m < n \<or> m = n \<and> j \<le> i)"
proof (induction cs arbitrary: x n i rule: max_count.induct)
  case (2 y m j cs)
  show ?case
  proof (cases "max_count cs")
    case None
    then show ?thesis using 2(2) by (auto simp: max_count_None)
  next
    case (Some r)
    obtain x' n' i' where r: "r = (x', n', i')" by (cases r) auto
    from 2(1) [OF Some [unfolded r]] have IH: "(x', n', i') \<in> set cs" "\<forall>(y, m, j) \<in> set cs. m < n' \<or> m = n' \<and> j \<le> i'" by auto
    show ?thesis using 2(2) Some r IH by (auto split: if_split_asm)
  qed
qed simp

lemma tracker_majority_most_frequent:
  "case tracker_majority h of None \<Rightarrow> h = [] | Some x \<Rightarrow> most_frequent h x"
proof -
  let ?cs = "count_expressions 0 h []"
  have c: "counts_of h ?cs" using count_expressions_counts [of "[]" "[]" h] by (simp add: counts_of_def)
  show ?thesis
  proof (cases "max_count ?cs")
    case None
    then show ?thesis using c by (auto simp: tracker_majority_def max_count_None counts_of_def)
  next
    case (Some r)
    obtain x n i where r: "r = (x, n, i)" by (cases r) auto
    note g = max_count_greatest [OF Some [unfolded r]]
    have x: "n = count_list h x" "i < length h" "h ! i = x" using g c by (auto simp: counts_of_def)
    have "count_list h y < count_list h x \<or> count_list h y = count_list h x \<and> (\<exists>us vs. h = us @ x # vs \<and> y \<notin> set vs)" if y: "y \<in> set h" for y
    proof -
      obtain m j where m: "(y, m, j) \<in> set ?cs" using y c by (force simp: counts_of_def)
      then have yj: "m = count_list h y" "\<forall>k. j < k \<longrightarrow> k < length h \<longrightarrow> h ! k \<noteq> y" using c by (auto simp: counts_of_def)
      have "m < n \<or> m = n \<and> j \<le> i" using g m by auto
      moreover have "y \<notin> set (drop (Suc i) h)" if "j \<le> i"
        using yj(2) that by (auto simp: in_set_conv_nth)
      ultimately show ?thesis using x yj(1) id_take_nth_drop [of i h] by (metis x(2,3))
    qed
    moreover have "x \<in> set h" using x by auto
    ultimately show ?thesis using Some r by (auto simp: tracker_majority_def most_frequent_def)
  qed
qed

lemma tracker_record_recent: "tracker_record e (recent h) = recent (h @ [e])"
proof (cases "length h < COLUMN_EXPRESSION_HISTORY")
  case False
  then have "tl (recent h) = drop (Suc (length h) - COLUMN_EXPRESSION_HISTORY) h"
    by (simp add: recent_def tl_drop Suc_diff_le flip: drop_Suc)
  with False show ?thesis by (simp add: tracker_record_def recent_def COLUMN_EXPRESSION_HISTORY_def)
qed (simp add: tracker_record_def recent_def)

lemma recent_nil [simp]: "recent h = [] \<longleftrightarrow> h = []"
  by (cases h) (simp_all add: recent_def COLUMN_EXPRESSION_HISTORY_def)

text \<open>What has been recorded for a column, oldest first.\<close>

definition recorded :: "(entry_id \<times> 'e) list \<Rightarrow> column_access_path \<Rightarrow> 'e list" where
  "recorded adds path = map snd (filter (\<lambda>(i, e). column_of_entry i = path) adds)"

definition add_hints ::
  "(entry_id \<times> arrow_type cache_expression) list \<Rightarrow> ('a, 'l, 's, 'c, 'p) liquid_cache_parquet \<Rightarrow> ('a, 'l, 's, 'c, 'p) liquid_cache_parquet" where
  "add_hints adds ps = fold (\<lambda>(i, e). parquet_add_squeeze_hint i e) adds ps"

lemma add_hints_histories:
  assumes "lcp_expression_hints ps = Map.empty" and "adds \<noteq> []"
  shows "lcp_expression_hints (add_hints adds ps) path = (if recorded adds path = [] then None else Some (recent (recorded adds path)))"
    and "c_hints (lcp_store (add_hints adds ps)) = parquet_squeeze_hint (lcp_expression_hints (add_hints adds ps))"
proof -
  have h: "lcp_expression_hints (add_hints as ps) path = (if recorded as path = [] then None else Some (recent (recorded as path)))" for as path
  proof (induction as arbitrary: path rule: rev_induct)
    case (snoc a as)
    obtain i e where a: "a = (i, e)" by fastforce
    have "add_hints (as @ [a]) ps = parquet_add_squeeze_hint i e (add_hints as ps)" by (simp add: add_hints_def a)
    then show ?case using snoc.IH [of "column_of_entry i"] snoc.IH [of path] tracker_record_recent [of e "[]"]
      by (auto simp: parquet_add_squeeze_hint_def Let_def recorded_def a tracker_record_recent recent_def [of "[]"])
  qed (simp add: add_hints_def recorded_def assms(1))
  show "lcp_expression_hints (add_hints adds ps) path = (if recorded adds path = [] then None else Some (recent (recorded adds path)))" by (rule h)
  show "c_hints (lcp_store (add_hints adds ps)) = parquet_squeeze_hint (lcp_expression_hints (add_hints adds ps))"
    using assms(2) by (cases adds rule: rev_cases) (auto simp: add_hints_def parquet_add_squeeze_hint_def Let_def)
qed

section \<open>Files\<close>

text \<open>Registering files one after the other, with their schemas.\<close>

fun register_all ::
  "(string \<times> field list) list \<Rightarrow> ('a, 'l, 's, 'c, 'p) liquid_cache_parquet \<Rightarrow> cached_file list \<times> ('a, 'l, 's, 'c, 'p) liquid_cache_parquet" where
  "register_all [] ps = ([], ps)"
| "register_all ((path, schema) # files) ps =
     (let (f, ps1) = register_or_get_file path schema ps; (fs, ps2) = register_all files ps1 in (f # fs, ps2))"

lemma register_all_ids:
  "distinct (map fst files) \<Longrightarrow> fst ` set files \<inter> dom (lcp_files ps) = {} \<Longrightarrow> k < length files \<Longrightarrow>
    length (fst (register_all files ps)) = length files
    \<and> cf_file_id (fst (register_all files ps) ! k) = lcp_current_file_id ps + of_nat k
    \<and> cf_schema (fst (register_all files ps) ! k) = snd (files ! k)"
proof (induction files arbitrary: ps k)
  case (Cons entry files)
  obtain path schema where f: "entry = (path, schema)" by fastforce
  define ps1 where "ps1 = snd (register_or_get_file path schema ps)"
  have new: "lcp_files ps path = None" using Cons.prems(2) f by auto
  then have ps1: "lcp_files ps1 = (lcp_files ps)(path \<mapsto> lcp_current_file_id ps)" "lcp_current_file_id ps1 = lcp_current_file_id ps + 1"
    "register_or_get_file path schema ps = (\<lparr>cf_file_id = lcp_current_file_id ps, cf_schema = schema\<rparr>, ps1)"
    by (simp_all add: ps1_def register_or_get_file_def)
  have d: "fst ` set files \<inter> dom (lcp_files ps1) = {}" using Cons.prems(1,2) f by (auto simp: ps1)
  have len: "length (fst (register_all files ps1)) = length files"
    using Cons.IH [OF _ d, of 0] Cons.prems(1) by (cases files) auto
  show ?case
  proof (cases k)
    case (Suc j)
    then show ?thesis using Cons.IH [OF _ d, of j] Cons.prems(1,3) f len ps1 by (simp add: case_prod_beta)
  qed (use len f ps1 in \<open>simp add: case_prod_beta\<close>)
qed simp

text \<open>The key of a batch of a column of a file.\<close>

definition file_key :: "cached_file \<Rightarrow> u64 \<Rightarrow> u64 \<Rightarrow> batch_id \<Rightarrow> entry_id" where
  "file_key f g c b = entry_of_parquet_id (cap_entry_id (column_access_path_new (cf_file_id f) g c) b)"

lemma file_key_eq:
  "file_key f g c b = file_key f' g c b \<longleftrightarrow> (ucast (cf_file_id f) :: u16) = ucast (cf_file_id f')"
proof -
  have "file_key f g c b = file_key f' g c b \<longleftrightarrow>
      cap_entry_id (column_access_path_new (cf_file_id f) g c) b = cap_entry_id (column_access_path_new (cf_file_id f') g c) b"
    using usize_of_parquet_id_inj by (auto simp: file_key_def entry_of_parquet_id_def dest!: injD)
  then show ?thesis
    by (simp add: cap_entry_id_def column_access_path_new_def parquet_array_id_new_def)
qed

section \<open>Limits\<close>

lemma plan_row_group_limit:
  assumes "normalizes (row_selection_from (rt_lib R))" and "rf_limit rf = Some l" and "rf_offset rf = None"
    and "plan_row_group R rf g sel proj n ps = Ok (Some ctx, rf', ps')"
  shows "selected_rows (pc_selection ctx) = take l (case sel of Some s \<Rightarrow> selected_rows s | None \<Rightarrow> [0..<pm_row_groups (rf_metadata rf) ! g])"
    and "rf_limit rf' = Some (l - length (selected_rows (pc_selection ctx)))"
proof -
  let ?sel = "case sel of Some s \<Rightarrow> s | None \<Rightarrow> row_selection_from (rt_lib R) [\<lparr>sel_row_count = pm_row_groups (rf_metadata rf) ! g, sel_skip = False\<rparr>]"
  have "pc_selection ctx = limit_row_selection (row_selection_from (rt_lib R)) ?sel l
      \<and> rf_limit rf' = Some (l - selected_row_count (pc_selection ctx))"
    using assms(2-4)
    by (auto simp: plan_row_group_def Let_def offset_limit_def obind_Ok_conv case_prod_beta split: if_split_asm)
  moreover have "selected_rows ?sel = (case sel of Some s \<Rightarrow> selected_rows s | None \<Rightarrow> [0..<pm_row_groups (rf_metadata rf) ! g])"
    using assms(1) by (auto simp: selected_rows_def normalizes_def split: option.split)
  moreover have "length (true_positions i bs) = count_list bs True" for i bs
    by (induction bs arbitrary: i) auto
  then have "selected_row_count ss = length (selected_rows ss)" for ss
    by (simp add: count_bits selected_rows_def)
  ultimately show "selected_rows (pc_selection ctx) = take l (case sel of Some s \<Rightarrow> selected_rows s | None \<Rightarrow> [0..<pm_row_groups (rf_metadata rf) ! g])"
    "rf_limit rf' = Some (l - length (selected_rows (pc_selection ctx)))"
    by (simp_all add: selected_limit [OF assms(1)])
qed

section \<open>Nested columns\<close>

lemma of_nat_u64_eq: "i < 2 ^ 64 \<Longrightarrow> j < 2 ^ 64 \<Longrightarrow> (of_nat i :: u64) = of_nat j \<longleftrightarrow> i = j"
proof -
  assume a: "i < 2 ^ 64" "j < 2 ^ 64"
  have "unat (of_nat k :: u64) = k" if "k < 2 ^ 64" for k using that by (simp add: unat_of_nat)
  then show ?thesis using a by metis
qed

lemma add_columns_dom:
  "dom (crg_by_id (fst (add_columns P f r cs acc))) = fst ` set cs \<union> dom (crg_by_id (fst acc))"
  by (induction P f r cs acc rule: add_columns.induct) (auto simp: Let_def split: prod.split)

lemma get_column_beyond:
  assumes "length (cf_schema cf) \<le> l" and "l < 2 ^ 64"
  shows "get_column (fst (create_row_group P cf g ids ps)) l = None"
proof -
  have "(of_nat l :: u64) \<noteq> of_nat i" if "i < length (cf_schema cf)" for i
    using that assms by (subst of_nat_u64_eq) auto
  then have "of_nat l \<notin> dom (crg_by_id (fst (create_row_group P cf g ids ps)))"
    unfolding create_row_group_def add_columns_dom by (fastforce dest: in_set_enumerate_eq [THEN iffD1])
  then show ?thesis by (simp add: get_column_def domIff)
qed

lemma true_positions_map: "true_positions 0 (map f [0..<n]) = filter f [0..<n]"
  by (induction n) (simp_all add: true_positions_append)

text \<open>The mask of one root column, a flag per leaf.\<close>

definition root_mask :: "parquet_metadata \<Rightarrow> nat \<Rightarrow> projection_mask" where
  "root_mask m r = Some (map (\<lambda>l. pm_root_of m l = r) [0..<pm_num_columns m])"

lemma root_mask_leaf:
  assumes "l < pm_num_columns m" and "\<forall>k < pm_num_columns m. pm_root_of m k = r \<longleftrightarrow> k = l"
  shows "get_predicate_column_id (root_mask m r) = [l]"
proof -
  have "filter (\<lambda>k. pm_root_of m k = r) [0..<pm_num_columns m] = filter (\<lambda>k. k = l) [0..<pm_num_columns m]"
    using assms(2) by (intro filter_cong) auto
  also have "filter (\<lambda>k. k = l) [0..<n] = (if l < n then [l] else [])" for n by (induction n) auto
  then have "filter (\<lambda>k. k = l) [0..<pm_num_columns m] = [l]" using assms(1) by simp
  finally show ?thesis by (simp add: get_predicate_column_id_def root_mask_def true_positions_map)
qed

lemma beyond_schema_panics:
  assumes "builder_ok (rt_builder R) contents" and "True \<in> set (selection_bits selection)"
    and "predicate_column_ids p = [l]" and "get_column (ri_cached_row_group inner) l = None"
  shows "build_predicate_filter R inner (Some (p # preds)) selection ps = Panic"
  using assms row_selector_bits [OF assms(1), of selection]
  by (simp add: build_predicate_filter_def evaluate_selection_with_predicate_def count_list_0_iff)

end
