(* ===== verification/ByteArray.thy ===== *)
theory ByteArray
  imports ByteViewCorrect
begin

text \<open>
  Dictionary arrays with bit-packed keys and FSST-compressed values:
  \<^verbatim>\<open>src/storage/src/liquid_array/byte_array.rs\<close> (strings and binaries) and
  \<^verbatim>\<open>src/storage/src/liquid_array/fix_len_byte_array.rs\<close> (decimals, as their little-endian bytes). Arrow's
  dictionary builder, its comparison kernels and DataFusion's \<open>apply_cmp\<close> are arguments. A row is an
  optional byte string; \<open>None\<close> as a result is a panic.
\<close>

section \<open>Arrays of strings\<close>

record 'c liquid_byte_array =
  lb_keys :: "u16 bit_packed_array"
  lb_values :: "'c fsst_array"
  lb_original_arrow_type :: arrow_byte_type

definition bit_width_for_key :: "dict_array \<Rightarrow> nat" where
  "bit_width_for_key d = get_bit_width (of_nat (length (da_values d)))"

definition byte_from_dict_array_inner ::
  "u16 fastlanes \<Rightarrow> 'c fsst \<Rightarrow> bool \<Rightarrow> dict_array \<Rightarrow> 'c \<Rightarrow> arrow_byte_type \<Rightarrow> 'c liquid_byte_array option" where
  "byte_from_dict_array_inner F Z chk dict compressor arrow_type =
     map_option (\<lambda>fa. \<lparr>lb_keys = from_primitive F (da_keys dict) (bit_width_for_key dict), lb_values = fa,
         lb_original_arrow_type = arrow_type\<rparr>)
       (fsst_from_byte_array Z chk (map Some (da_values dict)) compressor)"

text \<open>\<open>from_byte_array\<close>, \<open>from_string_view_array\<close> and \<open>from_binary_view_array\<close>.\<close>

definition byte_from_byte_array ::
  "(bytes option list \<Rightarrow> dict_array option) \<Rightarrow> u16 fastlanes \<Rightarrow> 'c fsst \<Rightarrow> bool \<Rightarrow> bytes option list \<Rightarrow> 'c \<Rightarrow> arrow_byte_type
    \<Rightarrow> 'c liquid_byte_array option" where
  "byte_from_byte_array build F Z chk rows compressor arrow_type =
     Option.bind (build rows) (\<lambda>dict. byte_from_dict_array_inner F Z chk dict compressor arrow_type)"

text \<open>\<open>train_from_arrow\<close> and \<open>train_from_string_view\<close>; training the compressor is an argument.\<close>

definition byte_train_from_arrow ::
  "(bytes list \<Rightarrow> 'c) \<Rightarrow> (bytes option list \<Rightarrow> dict_array option) \<Rightarrow> u16 fastlanes \<Rightarrow> 'c fsst \<Rightarrow> bool \<Rightarrow> bytes option list
    \<Rightarrow> arrow_byte_type \<Rightarrow> ('c \<times> 'c liquid_byte_array) option" where
  "byte_train_from_arrow train build F Z chk rows arrow_type =
     Option.bind (build rows) (\<lambda>dict.
       let compressor = train (da_values dict) in
       map_option (Pair compressor) (byte_from_dict_array_inner F Z chk dict compressor arrow_type))"

text \<open>\<open>from_dict_array\<close>: the dictionary is built again from its rows, so that its values are distinct.\<close>

definition byte_from_dict_array ::
  "(bytes option list \<Rightarrow> dict_array option) \<Rightarrow> u16 fastlanes \<Rightarrow> 'c fsst \<Rightarrow> bool \<Rightarrow> dict_array \<Rightarrow> 'c \<Rightarrow> arrow_byte_type
    \<Rightarrow> 'c liquid_byte_array option" where
  "byte_from_dict_array build F Z chk dict compressor arrow_type =
     byte_from_byte_array build F Z chk (dict_items dict) compressor arrow_type"

definition byte_filter_inner ::
  "u16 arrow_kernels \<Rightarrow> u16 fastlanes \<Rightarrow> 'c liquid_byte_array \<Rightarrow> bool list \<Rightarrow> 'c liquid_byte_array option" where
  "byte_filter_inner K F la selection =
     map_option (\<lambda>primitive_keys.
         let filtered_keys = ak_filter K primitive_keys selection in
         la\<lparr>lb_keys := (case bp_bit_width (lb_keys la) of
              Some bit_width \<Rightarrow> from_primitive F filtered_keys bit_width
            | None \<Rightarrow> new_null_array (length (pa_values filtered_keys)))\<rparr>)
       (to_primitive F (lb_keys la))"

text \<open>The rows of the dictionary, decompressing the values that the keys use or all of them.\<close>

definition keyed_rows ::
  "bool \<Rightarrow> (nat list \<Rightarrow> byte_values option) \<Rightarrow> u16 prim_array \<Rightarrow> nat \<Rightarrow> bytes option list option" where
  "keyed_rows chk some_of keys dict_len =
     Option.bind (build_dict_selection chk keys dict_len) (\<lambda>(selected, new_keys). map_option (dict_rows new_keys) (some_of selected))"

definition byte_to_dict_arrow ::
  "u16 fastlanes \<Rightarrow> 'c fsst \<Rightarrow> bool \<Rightarrow> 'c liquid_byte_array \<Rightarrow> bytes option list option" where
  "byte_to_dict_arrow F Z chk la =
     Option.bind (to_primitive F (lb_keys la)) (\<lambda>primitive_key.
       if bp_original_len (lb_keys la) < 2048 \<or> bp_original_len (lb_keys la) < fsst_len (lb_values la)
       then keyed_rows chk (to_uncompressed_selected Z chk (lb_values la)) primitive_key (fsst_len (lb_values la))
       else map_option (dict_rows (pa_items primitive_key)) (fsst_to_uncompressed Z chk (lb_values la)))"

definition byte_to_dict_arrow_with_selection ::
  "u16 arrow_kernels \<Rightarrow> u16 fastlanes \<Rightarrow> 'c fsst \<Rightarrow> bool \<Rightarrow> 'c liquid_byte_array \<Rightarrow> bool list \<Rightarrow> bytes option list option" where
  "byte_to_dict_arrow_with_selection K F Z chk la selection =
     Option.bind (to_primitive F (lb_keys la)) (\<lambda>primitive_key.
       map_option (dict_rows (pa_items (ak_filter K primitive_key selection))) (fsst_to_uncompressed Z chk (lb_values la)))"

section \<open>Predicates on strings\<close>

fun position_slice :: "bool \<Rightarrow> 'c fsst_array \<Rightarrow> bytes \<Rightarrow> nat list \<Rightarrow> nat option option" where
  "position_slice chk fa sought [] = Some None"
| "position_slice chk fa sought (i # is) =
     Option.bind (fsst_compressed_slice chk fa i) (\<lambda>slice.
       if slice = sought then Some (Some i) else position_slice chk fa sought is)"

text \<open>The equality kernel of Arrow with a scalar key.\<close>

type_synonym eq_kernel = "u16 prim_array \<Rightarrow> u16 \<Rightarrow> bool_array"

definition eq_kernel_ok :: "eq_kernel \<Rightarrow> bool" where
  "eq_kernel_ok E \<longleftrightarrow> (\<forall>a k. pa_wf a \<longrightarrow> ba_items (E a k) = map (map_option (\<lambda>v. v = k)) (pa_items a))"

definition byte_compare_equals ::
  "eq_kernel \<Rightarrow> u16 fastlanes \<Rightarrow> 'c fsst \<Rightarrow> bool \<Rightarrow> 'c liquid_byte_array \<Rightarrow> bytes \<Rightarrow> bool_array option" where
  "byte_compare_equals E F Z chk la needle =
     (let sought = fc_compress Z (fa_compressor (lb_values la)) needle in
      Option.bind (to_primitive F (lb_keys la)) (\<lambda>keys.
        map_option (\<lambda>idx. case idx of
            Some i \<Rightarrow> E keys (of_nat i)
          | None \<Rightarrow> \<lparr>ba_values = replicate (length (pa_values keys)) False, ba_nulls = bp_nulls (lb_keys la)\<rparr>)
          (position_slice chk (lb_values la) sought [0..<fsst_len (lb_values la)])))"

definition byte_compare_not_equals ::
  "eq_kernel \<Rightarrow> u16 fastlanes \<Rightarrow> 'c fsst \<Rightarrow> bool \<Rightarrow> 'c liquid_byte_array \<Rightarrow> bytes \<Rightarrow> bool_array option" where
  "byte_compare_not_equals E F Z chk la needle = map_option negate_mask (byte_compare_equals E F Z chk la needle)"

text \<open>DataFusion's \<open>apply_cmp\<close> on the dictionary's rows; \<open>None\<close> is an error, which the code passes over.\<close>

type_synonym apply_cmp = "bytes option list \<Rightarrow> df_operator \<Rightarrow> scalar_value \<Rightarrow> bool_array option"

definition like_operator :: "bool \<Rightarrow> bool \<Rightarrow> df_operator" where
  "like_operator negated case_insensitive =
     (if case_insensitive then (if negated then DF_NotILikeMatch else DF_ILikeMatch)
      else if negated then DF_NotLikeMatch else DF_LikeMatch)"

definition byte_try_eval_predicate_inner ::
  "apply_cmp \<Rightarrow> eq_kernel \<Rightarrow> u16 fastlanes \<Rightarrow> 'c fsst \<Rightarrow> bool \<Rightarrow> phys_expr \<Rightarrow> 'c liquid_byte_array \<Rightarrow> bool_array option option" where
  "byte_try_eval_predicate_inner C E F Z chk expr la =
     (case expr of
        PE_Binary _ op (PE_Literal literal) \<Rightarrow>
          (case (get_string_needle literal, op) of
             (Some needle, DF_Eq) \<Rightarrow> map_option Some (byte_compare_equals E F Z chk la needle)
           | (Some needle, DF_NotEq) \<Rightarrow> map_option Some (byte_compare_not_equals E F Z chk la needle)
           | _ \<Rightarrow> map_option (\<lambda>rows. if op = DF_Other then None else C rows op literal) (byte_to_dict_arrow F Z chk la))
      | PE_Like negated case_insensitive _ (PE_Literal literal) \<Rightarrow>
          map_option (\<lambda>rows. C rows (like_operator negated case_insensitive) literal) (byte_to_dict_arrow F Z chk la)
      | _ \<Rightarrow> Some None)"

definition byte_try_eval_predicate ::
  "apply_cmp \<Rightarrow> eq_kernel \<Rightarrow> u16 arrow_kernels \<Rightarrow> u16 fastlanes \<Rightarrow> 'c fsst \<Rightarrow> bool \<Rightarrow> 'c liquid_byte_array \<Rightarrow> phys_expr \<Rightarrow> bool list
    \<Rightarrow> bool_array option option" where
  "byte_try_eval_predicate C E K F Z chk la expr selection =
     Option.bind (byte_filter_inner K F la selection) (byte_try_eval_predicate_inner C E F Z chk expr)"

section \<open>The serialized form of strings\<close>

record byte_array_header =
  bh_key_size :: u32
  bh_value_size :: u32

definition byte_header_to_bytes :: "byte_array_header \<Rightarrow> bytes" where
  "byte_header_to_bytes h = le_bytes 4 (bh_key_size h) @ le_bytes 4 (bh_value_size h)"

definition byte_header_from_bytes :: "bytes \<Rightarrow> byte_array_header option" where
  "byte_header_from_bytes bs =
     (if length bs < 8 then None
      else Some \<lparr>bh_key_size = of_le_bytes (take 4 bs), bh_value_size = of_le_bytes (take 4 (drop 4 bs))\<rparr>)"

definition LIQUID_BYTE_ARRAY :: u16 where "LIQUID_BYTE_ARRAY = 0"

definition byte_to_bytes_inner :: "'c liquid_byte_array \<Rightarrow> bytes" where
  "byte_to_bytes_inner la =
     (let keys_bytes = to_bytes (lb_keys la);
          values_bytes = fsst_to_bytes (lb_values la);
          ipc_header = ipc_header_new LIQUID_BYTE_ARRAY (arrow_byte_type_id (lb_original_arrow_type la));
          header = ipc_header_to_bytes ipc_header
            @ byte_header_to_bytes \<lparr>bh_key_size = of_nat (length keys_bytes), bh_value_size = of_nat (length values_bytes)\<rparr>
      in pad8 (header @ keys_bytes) @ values_bytes)"

text \<open>The keys and the values after a header of \<open>header_size\<close> bytes.\<close>

definition read_keys_values ::
  "bool \<Rightarrow> bytes \<Rightarrow> 'c \<Rightarrow> nat \<Rightarrow> nat \<Rightarrow> nat \<Rightarrow> (u16 bit_packed_array \<times> 'c fsst_array) option" where
  "read_keys_values chk bs compressor header_size keys_size values_size =
     (let keys_end = header_size + keys_size;
          values_start = align8 keys_end;
          values_end = values_start + values_size
      in if keys_end > length bs \<or> values_end > length bs then None
         else
           Option.bind (from_bytes (take keys_size (drop header_size bs))) (\<lambda>keys.
             map_option (Pair keys) (fsst_from_bytes chk (take values_size (drop values_start bs)) compressor)))"

definition byte_from_bytes :: "bool \<Rightarrow> bytes \<Rightarrow> 'c \<Rightarrow> 'c liquid_byte_array option" where
  "byte_from_bytes chk bs compressor =
     Option.bind (ipc_header_from_bytes bs) (\<lambda>header.
       if length bs < 24 then None
       else
         Option.bind (byte_header_from_bytes (take 8 (drop 16 bs))) (\<lambda>bh.
         Option.bind (arrow_byte_type_of_id (h_physical_type_id header)) (\<lambda>arrow_type.
           map_option (\<lambda>(keys, vals). \<lparr>lb_keys = keys, lb_values = vals, lb_original_arrow_type = arrow_type\<rparr>)
             (read_keys_values chk bs compressor 24 (unat (bh_key_size bh)) (unat (bh_value_size bh))))))"

section \<open>Arrays of decimals\<close>

text \<open>Precision and scale, the scale as the bits of its \<open>i8\<close>.\<close>

datatype fixed_len_type = Decimal128 u8 u8 | Decimal256 u8 u8

fun value_width :: "fixed_len_type \<Rightarrow> nat" where
  "value_width (Decimal128 _ _) = 16"
| "value_width (Decimal256 _ _) = 32"

record 'c fixed_len_array =
  fl_arrow_type :: fixed_len_type
  fl_keys :: "u16 bit_packed_array"
  fl_values :: "'c fsst_array"

definition fixed_from_decimal_array ::
  "(bytes option list \<Rightarrow> dict_array option) \<Rightarrow> u16 fastlanes \<Rightarrow> 'c fsst \<Rightarrow> bool \<Rightarrow> bytes option list \<Rightarrow> 'c \<Rightarrow> fixed_len_type
    \<Rightarrow> 'c fixed_len_array option" where
  "fixed_from_decimal_array build F Z chk rows compressor arrow_type =
     Option.bind (build rows) (\<lambda>dict.
       map_option (\<lambda>fa. \<lparr>fl_arrow_type = arrow_type, fl_keys = from_primitive F (da_keys dict) (bit_width_for_key dict), fl_values = fa\<rparr>)
         (fsst_from_byte_array Z chk (map Some (da_values dict)) compressor))"

text \<open>The decimals in a buffer without offsets.\<close>

definition decimals_of :: "nat \<Rightarrow> nat \<Rightarrow> bytes \<Rightarrow> bytes list" where
  "decimals_of width n buffer = map (\<lambda>i. take width (drop (i * width) buffer)) [0..<n]"

definition decimal_rows :: "u16 option list \<Rightarrow> bytes list \<Rightarrow> bytes option list" where
  "decimal_rows keys vs = map (map_option (\<lambda>k. vs ! unat k)) keys"

definition fixed_to_arrow_array :: "u16 fastlanes \<Rightarrow> 'c fsst \<Rightarrow> bool \<Rightarrow> 'c fixed_len_array \<Rightarrow> bytes option list option" where
  "fixed_to_arrow_array F Z chk la =
     Option.bind (to_primitive F (fl_keys la)) (\<lambda>keys.
       let width = value_width (fl_arrow_type la); n = fsst_len (fl_values la) in
       if bp_original_len (fl_keys la) < 2048 \<or> bp_original_len (fl_keys la) < n
       then Option.bind (build_dict_selection chk keys n) (\<lambda>(selected, new_keys).
              map_option (\<lambda>(value_buffer, _). decimal_rows new_keys (decimals_of width (length selected) value_buffer))
                (to_uncompressed_selected Z chk (fl_values la) selected))
       else map_option (\<lambda>value_buffer. decimal_rows (pa_items keys) (decimals_of width n value_buffer))
              (decompress_as_fixed_size_binary Z chk (fl_values la)))"

record fixed_len_header =
  fh_key_size :: u32
  fh_value_size :: u32
  fh_arrow_type :: u8
  fh_precision :: u8
  fh_scale :: u8

definition fixed_header_to_bytes :: "fixed_len_header \<Rightarrow> bytes" where
  "fixed_header_to_bytes h = le_bytes 4 (fh_key_size h) @ le_bytes 4 (fh_value_size h)
     @ [fh_arrow_type h, fh_precision h, fh_scale h, 0]"

definition fixed_header_from_bytes :: "bytes \<Rightarrow> fixed_len_header option" where
  "fixed_header_from_bytes bs =
     (if length bs < 12 then None
      else Some \<lparr>fh_key_size = of_le_bytes (take 4 bs), fh_value_size = of_le_bytes (take 4 (drop 4 bs)),
             fh_arrow_type = bs ! 8, fh_precision = bs ! 9, fh_scale = bs ! 10\<rparr>)"

fun fixed_type_code :: "fixed_len_type \<Rightarrow> u8 \<times> u8 \<times> u8" where
  "fixed_type_code (Decimal128 p s) = (0, p, s)"
| "fixed_type_code (Decimal256 p s) = (1, p, s)"

definition fixed_type_of :: "fixed_len_header \<Rightarrow> fixed_len_type option" where
  "fixed_type_of h =
     (if fh_arrow_type h = 0 then Some (Decimal128 (fh_precision h) (fh_scale h))
      else if fh_arrow_type h = 1 then Some (Decimal256 (fh_precision h) (fh_scale h)) else None)"

definition LIQUID_FIXED_LEN :: u16 where "LIQUID_FIXED_LEN = 3"

definition fixed_to_bytes_inner :: "'c fixed_len_array \<Rightarrow> bytes" where
  "fixed_to_bytes_inner la =
     (let keys_bytes = to_bytes (fl_keys la);
          values_bytes = fsst_to_bytes (fl_values la);
          (arrow_type, precision, scale) = fixed_type_code (fl_arrow_type la);
          header = ipc_header_to_bytes (ipc_header_new LIQUID_FIXED_LEN 0)
            @ fixed_header_to_bytes \<lparr>fh_key_size = of_nat (length keys_bytes), fh_value_size = of_nat (length values_bytes),
                fh_arrow_type = arrow_type, fh_precision = precision, fh_scale = scale\<rparr>
      in pad8 (header @ keys_bytes) @ values_bytes)"

definition fixed_from_bytes :: "bool \<Rightarrow> bytes \<Rightarrow> 'c \<Rightarrow> 'c fixed_len_array option" where
  "fixed_from_bytes chk bs compressor =
     Option.bind (ipc_header_from_bytes bs) (\<lambda>header.
       if h_logical_type_id header \<noteq> LIQUID_FIXED_LEN \<or> length bs < 28 then None
       else
         Option.bind (fixed_header_from_bytes (take 12 (drop 16 bs))) (\<lambda>fh.
         Option.bind (fixed_type_of fh) (\<lambda>arrow_type.
           map_option (\<lambda>(keys, vals). \<lparr>fl_arrow_type = arrow_type, fl_keys = keys, fl_values = vals\<rparr>)
             (read_keys_values chk bs compressor 28 (unat (fh_key_size fh)) (unat (fh_value_size fh))))))"

section \<open>Keys and values together\<close>

definition dict_holds :: "u16 fastlanes \<Rightarrow> 'c fsst \<Rightarrow> bool \<Rightarrow> bytes list \<Rightarrow> u16 bit_packed_array \<Rightarrow> 'c fsst_array \<Rightarrow> bool" where
  "dict_holds F Z chk vs keys fa \<longleftrightarrow> holds_values Z chk fa vs \<and> length vs < 65536 \<and> bp_ok keys
     \<and> (\<exists>pk. to_primitive F keys = Some pk \<and> pa_wf pk \<and> length (pa_values pk) = bp_original_len keys
          \<and> (\<forall>k. Some k \<in> set (pa_items pk) \<longrightarrow> unat k < length vs))
     \<and> (\<forall>w. bp_bit_width keys = Some w \<longrightarrow> 0 < w \<and> w \<le> 16 \<and> length vs < 2 ^ w)"

definition held_rows :: "u16 fastlanes \<Rightarrow> bytes list \<Rightarrow> u16 bit_packed_array \<Rightarrow> bytes option list" where
  "held_rows F vs keys = map (map_option (\<lambda>k. vs ! unat k)) (pa_items (the (to_primitive F keys)))"

lemma fsst_len_holds: "holds_values Z chk fa vs \<Longrightarrow> fsst_len fa = length vs"
  by (simp add: holds_values_def fsst_slices_def fsst_len_def)

lemma take_bit_key: "unat k < 2 ^ w \<Longrightarrow> take_bit w (k :: u16) = k"
  by (simp add: word_unat_eq_iff unsigned_take_bit_eq take_bit_nat_eq_self)

lemma key_width:
  assumes "n < 65536"
  shows "0 < get_bit_width (of_nat n)" and "get_bit_width (of_nat n) \<le> 16" and "n < 2 ^ get_bit_width (of_nat n)"
proof -
  let ?m = "of_nat n :: u16"
  have u: "ucast ?m = (of_nat n :: u64)" using assms by (simp add: unsigned_of_nat take_bit_nat_eq_self)
  have w: "take_bit (get_bit_width (of_nat n)) ?m = ?m" "get_bit_width (of_nat n) \<le> 16"
    using width_covers_offset [of ?m ?m] unfolding u by simp_all
  show "0 < get_bit_width (of_nat n)" "get_bit_width (of_nat n) \<le> 16" using get_bit_width_bounds w(2) by simp_all
  have "unat ?m = take_bit (get_bit_width (of_nat n)) (unat ?m)" using w(1) by (metis unsigned_take_bit_eq)
  then have "unat ?m < 2 ^ get_bit_width (of_nat n)" by (metis take_bit_nat_less_exp)
  then show "n < 2 ^ get_bit_width (of_nat n)" using assms by (simp add: unat_of_nat)
qed

lemma pack_keys:
  assumes "fastlanes_ok F" and "holds_values Z chk fa vs" and "length vs < 65536" and "0 < w" and "w \<le> 16" and "length vs < 2 ^ w"
    and "pa_wf pk" and "\<And>k. Some k \<in> set (pa_items pk) \<Longrightarrow> unat k < length vs"
  shows "dict_holds F Z chk vs (from_primitive F pk w) fa"
    and "held_rows F vs (from_primitive F pk w) = map (map_option (\<lambda>k. vs ! unat k)) (pa_items pk)"
    and "bp_original_len (from_primitive F pk w) = length (pa_values pk)"
proof -
  have "take_bit w v = v" if "v \<in> valid_values pk" for v
    using assms(6,8) that by (intro take_bit_key) (force simp: valid_values_def)
  then obtain u where u: "bp_ok (from_primitive F pk w)" "bp_bit_width (from_primitive F pk w) = Some w"
      "bp_original_len (from_primitive F pk w) = length (pa_values pk)" "to_primitive F (from_primitive F pk w) = Some u" "pa_wf u"
      "length (pa_values u) = length (pa_values pk)" "pa_items u = pa_items pk"
    using repack_items [OF assms(1,4) _ _ assms(7)] assms(5) by auto
  with assms show "dict_holds F Z chk vs (from_primitive F pk w) fa" by (simp add: dict_holds_def)
  show "held_rows F vs (from_primitive F pk w) = map (map_option (\<lambda>k. vs ! unat k)) (pa_items pk)" using u by (simp add: held_rows_def)
  show "bp_original_len (from_primitive F pk w) = length (pa_values pk)" by (rule u(3))
qed

lemma null_keys:
  assumes "holds_values Z chk fa vs" and "length vs < 65536"
  shows "dict_holds F Z chk vs (new_null_array n) fa" and "held_rows F vs (new_null_array n) = replicate n None"
    and "bp_original_len (new_null_array n) = n"
proof -
  have t: "to_primitive F (new_null_array n) = Some (prim_new_null n :: u16 prim_array)" by (simp add: to_primitive_def new_null_array_def)
  have l: "bp_original_len (new_null_array n :: u16 bit_packed_array) = n" "bp_bit_width (new_null_array n :: u16 bit_packed_array) = None"
    by (simp_all add: new_null_array_def)
  have "pa_wf (prim_new_null n :: u16 prim_array)" "length (pa_values (prim_new_null n :: u16 prim_array)) = n"
    by (simp_all add: prim_new_null_def pa_wf_def nulls_fit_def)
  then show "dict_holds F Z chk vs (new_null_array n) fa"
    using assms l t new_null_items [of n, where 'w = 16] by (auto simp: dict_holds_def new_null_ok)
  show "held_rows F vs (new_null_array n) = replicate n None" using t by (simp add: held_rows_def new_null_items)
  show "bp_original_len (new_null_array n) = n" by (simp add: new_null_array_def)
qed

lemma dict_holds_new:
  assumes "fastlanes_ok F" and "dict_builder_ok build" and "build rows = Some d" and "fsst_ok Z" and "sizes_ok Z c (da_values d)"
    and "length (da_values d) < 65536" and fa: "fsst_from_byte_array Z chk (map Some (da_values d)) c = Some fa"
  shows "dict_holds F Z chk (da_values d) (from_primitive F (da_keys d) (bit_width_for_key d)) fa"
    and "held_rows F (da_values d) (from_primitive F (da_keys d) (bit_width_for_key d)) = rows" and "fa_compressor fa = c"
    and "bp_original_len (from_primitive F (da_keys d) (bit_width_for_key d)) = length rows"
proof -
  have d: "pa_wf (da_keys d)" "length (pa_values (da_keys d)) = length rows" "dict_items d = rows"
    "\<And>k. Some k \<in> set (pa_items (da_keys d)) \<Longrightarrow> unat k < length (da_values d)"
    using assms(2,3) unfolding dict_builder_ok_def by blast+
  have z: "compressed Z c (map Some (da_values d)) = map (fc_compress Z c) (da_values d)" by (simp add: compressed_def comp_def)
  note f = fsst_slices_new [OF fa, unfolded z]
  show c: "fa_compressor fa = c" using f(2) assms(5) by (simp add: sizes_ok_def)
  have h: "holds_values Z chk fa (da_values d)" using assms(4,5) f c by (simp add: holds_values_def sizes_ok_def)
  note p = pack_keys [OF assms(1) h assms(6) key_width [OF assms(6)] d(1,4), folded bit_width_for_key_def]
  show "dict_holds F Z chk (da_values d) (from_primitive F (da_keys d) (bit_width_for_key d)) fa" by (rule p(1))
  show "held_rows F (da_values d) (from_primitive F (da_keys d) (bit_width_for_key d)) = rows"
    using p(2) d(3) by (simp add: dict_items_def)
  show "bp_original_len (from_primitive F (da_keys d) (bit_width_for_key d)) = length rows" using p(3) d(2) by simp
qed

lemma dict_holds_filter:
  assumes "fastlanes_ok F" and "kernels_ok K" and "dict_holds F Z chk vs keys fa" and "length sel = bp_original_len keys"
    and "to_primitive F keys = Some pk"
  defines "fk \<equiv> ak_filter K pk sel"
  defines "keys' \<equiv> (case bp_bit_width keys of Some w \<Rightarrow> from_primitive F fk w | None \<Rightarrow> new_null_array (length (pa_values fk)))"
  shows "dict_holds F Z chk vs keys' fa" and "held_rows F vs keys' = filter_items (held_rows F vs keys) sel"
proof -
  have pk: "pa_wf pk" "length (pa_values pk) = bp_original_len keys" "\<And>k. Some k \<in> set (pa_items pk) \<Longrightarrow> unat k < length vs"
    "holds_values Z chk fa vs" "length vs < 65536" "\<And>w. bp_bit_width keys = Some w \<Longrightarrow> 0 < w \<and> w \<le> 16 \<and> length vs < 2 ^ w" "bp_ok keys"
    using assms(3,5) by (auto simp: dict_holds_def)
  have fk: "pa_wf fk" "pa_items fk = filter_items (pa_items pk) sel"
    using assms(2,4) pk(1,2) unfolding kernels_ok_def fk_def by metis+
  have r: "map (map_option (\<lambda>k. vs ! unat k)) (pa_items fk) = filter_items (held_rows F vs keys) sel"
    using assms(5) by (simp add: held_rows_def fk(2) filter_items_map)
  have b: "unat k < length vs" if "Some k \<in> set (pa_items fk)" for k
    using that pk(3) set_filter_items unfolding fk(2) by fastforce
  show "dict_holds F Z chk vs keys' fa"
    using pack_keys(1) [OF assms(1) pk(4,5) _ _ _ fk(1) b] null_keys(1) [OF pk(4,5)] pk(6) by (auto simp: keys'_def split: option.split)
  show "held_rows F vs keys' = filter_items (held_rows F vs keys) sel"
  proof (cases "bp_bit_width keys")
    case None
    then have "pk = prim_new_null (bp_original_len keys)" using assms(5) by (simp add: to_primitive_def Let_def)
    then have "pa_items pk = replicate (bp_original_len keys) None" by (simp add: new_null_items)
    then have "\<forall>x \<in> set (pa_items fk). x = None" using set_filter_items unfolding fk(2) by fastforce
    then have "pa_items fk = replicate (length (pa_items fk)) None" by (simp add: replicate_eqI)
    moreover have "length (pa_items fk) = length (pa_values fk)" by (simp add: pa_items_def)
    ultimately have "map (map_option (\<lambda>k. vs ! unat k)) (pa_items fk) = replicate (length (pa_values fk)) None"
      by (metis map_replicate option.map_disc_iff)
    then show ?thesis using null_keys(2) [OF pk(4,5), of F] None r by (simp add: keys'_def)
  next
    case (Some w)
    then show ?thesis using pack_keys(2) [OF assms(1) pk(4,5) _ _ _ fk(1) b] pk(6) r by (simp add: keys'_def)
  qed
qed

section \<open>Reading rows\<close>

lemma keyed_rows_read:
  assumes "\<And>k. Some k \<in> set (pa_items keys) \<Longrightarrow> unat k < length vs" and "reads some_of vs"
    and "length vs \<le> 65536" and "chk \<Longrightarrow> length vs < 65536"
  shows "keyed_rows chk some_of keys (length vs) = Some (map (map_option (\<lambda>k. vs ! unat k)) (pa_items keys))"
proof -
  obtain sel km where sel: "build_dict_selection chk keys (length vs) = Some (sel, map (\<lambda>x. Option.bind x (\<lambda>v. km (unat v))) (pa_items keys))"
    "distinct sel" "\<And>i. i \<in> set sel \<Longrightarrow> i < length vs"
    "\<And>k. Some k \<in> set (pa_items keys) \<Longrightarrow> \<exists>w. km (unat k) = Some w \<and> unat w < length sel \<and> sel ! unat w = unat k"
    using dict_selection [of keys "length vs" chk] assms(1,3,4) by blast
  obtain v where v: "some_of sel = Some v" "byte_array_values v = map ((!) vs) sel" using readsD [OF assms(2) sel(2,3)] by blast
  have "map_option (\<lambda>k. byte_array_values v ! unat k) (Option.bind x (\<lambda>v. km (unat v))) = map_option (\<lambda>k. vs ! unat k) x"
    if "x \<in> set (pa_items keys)" for x
    using sel(4) v(2) that by (cases x) force+
  then show ?thesis using sel(1) v(1) by (simp add: keyed_rows_def dict_rows_def)
qed

lemma dict_holdsD:
  assumes "dict_holds F Z chk vs keys fa"
  obtains pk where "to_primitive F keys = Some pk" "pa_wf pk" "length (pa_values pk) = bp_original_len keys"
    "\<And>k. Some k \<in> set (pa_items pk) \<Longrightarrow> unat k < length vs" "held_rows F vs keys = map (map_option (\<lambda>k. vs ! unat k)) (pa_items pk)"
    "holds_values Z chk fa vs" "length vs < 65536" "bp_ok keys" "fsst_len fa = length vs"
  using assms fsst_len_holds [of Z chk fa vs] by (auto simp: dict_holds_def held_rows_def)

lemma byte_rows_read:
  assumes "dict_holds F Z chk vs (lb_keys la) (lb_values la)"
  shows "byte_to_dict_arrow F Z chk la = Some (held_rows F vs (lb_keys la))"
proof -
  obtain pk where pk: "to_primitive F (lb_keys la) = Some pk" "\<And>k. Some k \<in> set (pa_items pk) \<Longrightarrow> unat k < length vs"
    "held_rows F vs (lb_keys la) = map (map_option (\<lambda>k. vs ! unat k)) (pa_items pk)" "holds_values Z chk (lb_values la) vs"
    "length vs < 65536" "fsst_len (lb_values la) = length vs"
    using dict_holdsD [OF assms] by metis
  note m = memory_reads [OF pk(4)]
  have "keyed_rows chk (to_uncompressed_selected Z chk (lb_values la)) pk (length vs) = Some (held_rows F vs (lb_keys la))"
    using keyed_rows_read [OF pk(2) m(1), of pk chk] pk(3,5) by simp
  moreover obtain v where "fsst_to_uncompressed Z chk (lb_values la) = Some v" "byte_array_values v = vs" using m(2) by blast
  ultimately show ?thesis using pk by (simp add: byte_to_dict_arrow_def dict_rows_def)
qed

lemma byte_selection_read:
  assumes "dict_holds F Z chk vs (lb_keys la) (lb_values la)" and "kernels_ok K" and "length sel = bp_original_len (lb_keys la)"
  shows "byte_to_dict_arrow_with_selection K F Z chk la sel = Some (filter_items (held_rows F vs (lb_keys la)) sel)"
proof -
  obtain pk where pk: "to_primitive F (lb_keys la) = Some pk" "pa_wf pk" "length (pa_values pk) = bp_original_len (lb_keys la)"
    "held_rows F vs (lb_keys la) = map (map_option (\<lambda>k. vs ! unat k)) (pa_items pk)" "holds_values Z chk (lb_values la) vs"
    using dict_holdsD [OF assms(1)] by metis
  have "pa_items (ak_filter K pk sel) = filter_items (pa_items pk) sel"
    using assms(2,3) pk(2,3) unfolding kernels_ok_def by metis
  moreover obtain v where "fsst_to_uncompressed Z chk (lb_values la) = Some v" "byte_array_values v = vs" using memory_reads(2) [OF pk(5)] by blast
  ultimately show ?thesis using pk by (simp add: byte_to_dict_arrow_with_selection_def dict_rows_def filter_items_map)
qed

lemma byte_filter_holds:
  assumes "dict_holds F Z chk vs (lb_keys la) (lb_values la)" and "fastlanes_ok F" and "kernels_ok K" and "length sel = bp_original_len (lb_keys la)"
  shows "\<exists>lb. byte_filter_inner K F la sel = Some lb \<and> dict_holds F Z chk vs (lb_keys lb) (lb_values lb)
    \<and> held_rows F vs (lb_keys lb) = filter_items (held_rows F vs (lb_keys la)) sel \<and> lb_values lb = lb_values la"
proof -
  obtain pk where pk: "to_primitive F (lb_keys la) = Some pk" using dict_holdsD [OF assms(1)] by metis
  show ?thesis using dict_holds_filter [OF assms(2,3,1,4) pk] pk by (simp add: byte_filter_inner_def Let_def)
qed

section \<open>Predicates are exact\<close>

lemma position_slice_eq:
  assumes "\<And>i. i \<in> set js \<Longrightarrow> fsst_compressed_slice chk fa i = Some (f i)"
  shows "position_slice chk fa z js = Some (List.find (\<lambda>i. f i = z) js)"
  using assms by (induction js) auto

lemma byte_equals_right:
  assumes "dict_holds F Z chk vs (lb_keys la) (lb_values la)" and "eq_kernel_ok E" and "distinct vs"
  shows "\<exists>m. byte_compare_equals E F Z chk la needle = Some m \<and> ba_items m = map (map_option (\<lambda>v. v = needle)) (held_rows F vs (lb_keys la))"
proof -
  let ?keys = "lb_keys la" and ?fa = "lb_values la"
  obtain pk where pk: "to_primitive F ?keys = Some pk" "pa_wf pk" "length (pa_values pk) = bp_original_len ?keys"
    "\<And>k. Some k \<in> set (pa_items pk) \<Longrightarrow> unat k < length vs" "held_rows F vs ?keys = map (map_option (\<lambda>k. vs ! unat k)) (pa_items pk)"
    "holds_values Z chk ?fa vs" "length vs < 65536" "bp_ok ?keys" "fsst_len ?fa = length vs"
    using dict_holdsD [OF assms(1)] by metis
  have z: "fsst_ok Z" using pk(6) by (simp add: holds_values_def)
  have p: "position_slice chk ?fa (fc_compress Z (fa_compressor ?fa) needle) [0..<length vs] = Some (List.find (\<lambda>i. vs ! i = needle) [0..<length vs])"
    using position_slice_eq [of "[0..<length vs]" chk ?fa] memory_reads(3) [OF pk(6)] compress_inj [OF z] by simp
  show ?thesis
  proof (cases "List.find (\<lambda>i. vs ! i = needle) [0..<length vs]")
    case None
    then have n: "vs ! j \<noteq> needle" if "j < length vs" for j using that by (auto simp: find_None_iff)
    let ?m = "\<lparr>ba_values = replicate (length (pa_values pk)) False, ba_nulls = bp_nulls ?keys\<rparr>"
    have "(if valid_at (bp_nulls ?keys) i then Some False else None)
        = (map (map_option (\<lambda>v. v = needle)) (held_rows F vs ?keys)) ! i" if i: "i < length (pa_values pk)" for i
    proof (cases "valid_at (pa_nulls pk) i")
      case True
      then have "Some (pa_values pk ! i) \<in> set (pa_items pk)" using i by (force simp: pa_items_def)
      then show ?thesis using True i n pk(4) valid_at_to_primitive [OF pk(8,1), of i] pk(3) unfolding pk(5) by (simp add: pa_items_def)
    next
      case False
      then show ?thesis using i valid_at_to_primitive [OF pk(8,1), of i] pk(3) unfolding pk(5) by (simp add: pa_items_def)
    qed
    moreover have "ba_items ?m = map (\<lambda>i. if valid_at (bp_nulls ?keys) i then Some False else None) [0..<length (pa_values pk)]"
      by (auto simp: ba_items_def pa_items_def)
    moreover have "length (held_rows F vs ?keys) = length (pa_values pk)" by (simp add: pk(5) pa_items_def)
    ultimately have "ba_items ?m = map (map_option (\<lambda>v. v = needle)) (held_rows F vs ?keys)"
      by (intro nth_equalityI) (simp_all del: map_map nth_map add: nth_map [of _ "[0..<length (pa_values pk)]"])
    then show ?thesis using None p pk(1,9) by (simp add: byte_compare_equals_def)
  next
    case (Some i)
    then have i: "i < length vs" "vs ! i = needle" by (auto simp: find_Some_iff)
    have "unat (of_nat i :: u16) = i" using i(1) pk(7) by (simp add: unat_of_nat)
    then have k: "k = of_nat i \<longleftrightarrow> vs ! unat k = needle" if "unat k < length vs" for k :: u16
      using that i assms(3) by (metis nth_eq_iff_index_eq word_unat_eq_iff)
    have "ba_items (E pk (of_nat i)) = map (map_option (\<lambda>k. k = of_nat i)) (pa_items pk)" using assms(2) pk(2) by (simp add: eq_kernel_ok_def)
    also have "\<dots> = map (map_option (\<lambda>v. v = needle)) (held_rows F vs ?keys)"
      unfolding pk(5) map_map comp_def
    proof (rule map_cong [OF refl])
      fix x assume x: "x \<in> set (pa_items pk)"
      show "map_option (\<lambda>k. k = of_nat i) x = map_option (\<lambda>v. v = needle) (map_option (\<lambda>k. vs ! unat k) x)"
      proof (cases x)
        case (Some y)
        then show ?thesis using k pk(4) x by simp
      qed simp
    qed
    finally show ?thesis using Some p pk(1,9) by (simp add: byte_compare_equals_def)
  qed
qed

text \<open>What DataFusion's comparison promises for a meaning of the operators.\<close>

definition apply_cmp_ok :: "(df_operator \<Rightarrow> bytes \<Rightarrow> bytes \<Rightarrow> bool) \<Rightarrow> apply_cmp \<Rightarrow> bool" where
  "apply_cmp_ok M C \<longleftrightarrow> (\<forall>rows op literal needle. op \<noteq> DF_Other \<longrightarrow> get_bytes_needle literal = Some needle \<longrightarrow>
     (\<exists>m. C rows op literal = Some m \<and> ba_items m = map (map_option (\<lambda>v. M op v needle)) rows))"

text \<open>The predicates that an array answers: the operator and the needle.\<close>

fun byte_question :: "phys_expr \<Rightarrow> (df_operator \<times> bytes) option" where
  "byte_question (PE_Binary _ op (PE_Literal literal)) = (if op = DF_Other then None else map_option (Pair op) (get_bytes_needle literal))"
| "byte_question (PE_Like negated ci _ (PE_Literal literal)) = map_option (Pair (like_operator negated ci)) (get_bytes_needle literal)"
| "byte_question _ = None"

lemma string_needle_bytes: "get_string_needle literal = Some needle \<Longrightarrow> get_bytes_needle literal = Some needle"
  by (induction literal rule: get_string_needle.induct) auto

lemma byte_predicate_inner_right:
  assumes h: "dict_holds F Z chk vs (lb_keys la) (lb_values la)" and E: "eq_kernel_ok E" and C: "apply_cmp_ok M C" and "distinct vs"
    and M: "M DF_Eq = (=)" "M DF_NotEq = (\<noteq>)" and q: "byte_question expr = Some (op, needle)"
  shows "\<exists>m. byte_try_eval_predicate_inner C E F Z chk expr la = Some (Some m)
    \<and> ba_items m = map (map_option (\<lambda>v. M op v needle)) (held_rows F vs (lb_keys la))"
proof -
  have like: "like_operator negated ci \<noteq> DF_Other" for negated ci by (simp add: like_operator_def)
  have cmp: "\<exists>m. C (held_rows F vs (lb_keys la)) o' literal = Some m \<and> ba_items m = map (map_option (\<lambda>v. M o' v needle)) (held_rows F vs (lb_keys la))"
    if "o' \<noteq> DF_Other" "get_bytes_needle literal = Some needle" for o' literal
    using C that unfolding apply_cmp_ok_def by blast
  note rows = byte_rows_read [OF h] and eq = byte_equals_right [OF h E assms(4), of needle]
  have ne: "\<exists>m. byte_compare_not_equals E F Z chk la needle = Some m \<and> ba_items m = map (map_option (\<lambda>v. v \<noteq> needle)) (held_rows F vs (lb_keys la))"
    using eq negate_mask_items by (fastforce simp: byte_compare_not_equals_def)
  from q show ?thesis
  proof (cases expr rule: byte_question.cases)
    case (1 e o' literal)
    then have o: "o' = op" "op \<noteq> DF_Other" "get_bytes_needle literal = Some needle" using q by (auto split: if_split_asm)
    show ?thesis
    proof (cases "get_string_needle literal")
      case None
      then show ?thesis using 1 o rows cmp [OF o(2,3)] by (auto simp: byte_try_eval_predicate_inner_def)
    next
      case (Some n)
      then have "n = needle" using string_needle_bytes o(3) by fastforce
      then show ?thesis using 1 o Some rows cmp [OF o(2,3)] eq ne M by (cases op) (auto simp: byte_try_eval_predicate_inner_def)
    qed
  next
    case (2 negated ci e literal)
    then have "op = like_operator negated ci" "get_bytes_needle literal = Some needle" using q by auto
    then show ?thesis using 2 rows cmp [OF like] by (auto simp: byte_try_eval_predicate_inner_def)
  qed auto
qed

section \<open>The serialized forms read back\<close>

text \<open>The headers have room for the sizes.\<close>

definition dict_fits :: "u16 bit_packed_array \<Rightarrow> 'c fsst_array \<Rightarrow> bool" where
  "dict_fits keys fa \<longleftrightarrow> fits_u32 keys \<and> length (to_bytes keys) < 2 ^ 32 \<and> length (fsst_to_bytes fa) < 2 ^ 32"

lemma keys_reread:
  assumes "dict_holds F Z chk vs keys fa" and "fits_u32 keys"
  shows "\<exists>keys'. from_bytes (to_bytes keys) = Some keys' \<and> dict_holds F Z chk vs keys' fa \<and> held_rows F vs keys' = held_rows F vs keys
    \<and> bp_original_len keys' = bp_original_len keys"
proof -
  obtain pk where pk: "to_primitive F keys = Some pk" "length (pa_values pk) = bp_original_len keys"
    "\<And>k. Some k \<in> set (pa_items pk) \<Longrightarrow> unat k < length vs" "bp_ok keys"
    using dict_holdsD [OF assms(1)] by metis
  obtain keys' pk' where k: "from_bytes (to_bytes keys) = Some keys'" "bp_ok keys'" "bp_original_len keys' = bp_original_len keys"
    "to_primitive F keys' = Some pk'" "length (pa_values pk') = bp_original_len keys" "pa_items pk' = pa_items pk"
    using from_bytes_items [OF pk(4) assms(2) _ pk(1,2)] by auto
  have "keys' = new_null_array (bp_original_len keys) \<or> bp_bit_width keys' = bp_bit_width keys"
    using from_bytes_value [OF pk(4) assms(2)] k(1) by (auto split: if_split_asm)
  then have "\<forall>w. bp_bit_width keys' = Some w \<longrightarrow> 0 < w \<and> w \<le> 16 \<and> length vs < 2 ^ w"
    using assms(1) by (auto simp: dict_holds_def new_null_array_def)
  moreover have "pa_wf pk'" using pa_wf_to_primitive [OF k(2,4)] k(3,5) by simp
  ultimately have "dict_holds F Z chk vs keys' fa" using assms(1) k pk(3) by (simp add: dict_holds_def)
  then show ?thesis using k pk(1) by (simp add: held_rows_def)
qed

lemma read_keys_values_at:
  assumes "dict_holds F Z chk vs keys fa" and "dict_fits keys fa" and "from_bytes (to_bytes keys) = Some keys'"
    and "bs = pad8 (header @ to_bytes keys) @ fsst_to_bytes fa"
  shows "read_keys_values chk bs (fa_compressor fa) (length header) (length (to_bytes keys)) (length (fsst_to_bytes fa)) = Some (keys', fa)"
proof -
  let ?n = "length header + length (to_bytes keys)"
  have "holds_values Z chk fa vs" using assms(1) by (simp add: dict_holds_def)
  then have f: "fsst_from_bytes chk (fsst_to_bytes fa) (fa_compressor fa) = Some fa"
    using fsst_bytes_read by (auto simp: holds_values_def)
  have "\<not> (?n > length bs \<or> align8 ?n + length (fsst_to_bytes fa) > length bs)"
    using align8_ge [of ?n] by (simp add: assms(4))
  moreover have "take (length (to_bytes keys)) (drop (length header) bs) = to_bytes keys" by (simp add: assms(4) pad8_def)
  moreover have "drop (align8 ?n) bs = fsst_to_bytes fa"
    unfolding assms(4) using length_pad8 [of "header @ to_bytes keys"] by (simp del: length_pad8 add: drop_eq_Nil)
  ultimately show ?thesis using assms(3) f by (simp add: read_keys_values_def Let_def)
qed

lemma unat_u32_size: "n < 2 ^ 32 \<Longrightarrow> unat (of_le_bytes (le_bytes 4 (of_nat n :: u32)) :: u32) = n"
  by (simp add: of_le_bytes_le_bytes unat_of_nat)

lemma byte_bytes_read:
  assumes h: "dict_holds F Z chk vs (lb_keys la) (lb_values la)" and f: "dict_fits (lb_keys la) (lb_values la)"
  shows "\<exists>lb. byte_from_bytes chk (byte_to_bytes_inner la) (fa_compressor (lb_values la)) = Some lb
    \<and> dict_holds F Z chk vs (lb_keys lb) (lb_values lb) \<and> held_rows F vs (lb_keys lb) = held_rows F vs (lb_keys la)
    \<and> lb_original_arrow_type lb = lb_original_arrow_type la"
proof -
  let ?kb = "to_bytes (lb_keys la)" and ?vb = "fsst_to_bytes (lb_values la)" and ?ty = "lb_original_arrow_type la"
  define ipc where "ipc = ipc_header_to_bytes (ipc_header_new LIQUID_BYTE_ARRAY (arrow_byte_type_id ?ty))"
  define bh where "bh = byte_header_to_bytes \<lparr>bh_key_size = of_nat (length ?kb), bh_value_size = of_nat (length ?vb)\<rparr>"
  let ?bs = "pad8 ((ipc @ bh) @ ?kb) @ ?vb"
  have bs: "byte_to_bytes_inner la = ?bs" by (simp add: byte_to_bytes_inner_def ipc_def bh_def Let_def)
  have len: "length ipc = 16" "length bh = 8" by (simp_all add: ipc_def bh_def byte_header_to_bytes_def)
  have sizes: "length ?kb < 2 ^ 32" "length ?vb < 2 ^ 32" "fits_u32 (lb_keys la)" using f by (simp_all add: dict_fits_def)
  obtain rest where r: "?bs = ipc @ bh @ rest" by (simp add: pad8_def)
  obtain keys' where k: "from_bytes ?kb = Some keys'" "dict_holds F Z chk vs keys' (lb_values la)" "held_rows F vs keys' = held_rows F vs (lb_keys la)"
    using keys_reread [OF h sizes(3)] by blast
  have "ipc_header_from_bytes ?bs = Some (ipc_header_new LIQUID_BYTE_ARRAY (arrow_byte_type_id ?ty))"
    unfolding r by (simp add: ipc_def header_roundtrip)
  moreover have "\<not> length ?bs < 24" unfolding r using len by simp
  moreover have "take 8 (drop 16 ?bs) = bh" unfolding r using len by simp
  moreover have "read_keys_values chk ?bs (fa_compressor (lb_values la)) 24 (length ?kb) (length ?vb) = Some (keys', lb_values la)"
    using read_keys_values_at [OF h f k(1), of ?bs "ipc @ bh"] len by simp
  moreover have "byte_header_from_bytes bh = Some \<lparr>bh_key_size = of_le_bytes (le_bytes 4 (of_nat (length ?kb) :: u32)),
      bh_value_size = of_le_bytes (le_bytes 4 (of_nat (length ?vb) :: u32))\<rparr>"
    by (simp add: byte_header_from_bytes_def bh_def byte_header_to_bytes_def)
  ultimately have "byte_from_bytes chk ?bs (fa_compressor (lb_values la)) = Some (la\<lparr>lb_keys := keys'\<rparr>)"
    using sizes by (simp add: byte_from_bytes_def ipc_header_new_def arrow_byte_type_read unat_u32_size)
  then show ?thesis using k unfolding bs by simp
qed

section \<open>Decimals\<close>

lemma selected_buffer:
  assumes "holds_values Z chk fa vs" and "\<And>i. i \<in> set sel \<Longrightarrow> i < length vs"
  shows "selected_loop Z chk fa sel ([], [0]) = Some (concat (map ((!) vs) sel), 0 # ends 0 (map ((!) vs) sel))"
proof -
  let ?zs = "map (\<lambda>i. fc_compress Z (fa_compressor fa) (vs ! i)) sel"
  have "fsst_ok Z" using assms(1) by (simp add: holds_values_def)
  then have e: "map (fc_decompress Z (fa_compressor fa)) ?zs = map ((!) vs) sel" by (simp add: fsst_ok_def)
  have l: "selected_loop Z chk fa sel ([], [0]) = Some ([] @ concat (map (fc_decompress Z (fa_compressor fa)) ?zs),
      [0] @ ends (length ([] :: bytes)) (map (fc_decompress Z (fa_compressor fa)) ?zs))"
    by (rule selected_loop_layout) (use memory_reads(3) [OF assms(1)] assms(2) in simp_all)
  show ?thesis using l unfolding e by simp
qed

lemma decimals_of_concat:
  assumes "\<forall>v \<in> set vs. length v = w"
  shows "decimals_of w (length vs) (concat vs) = vs"
proof -
  have "concat vs = concat (map ((!) vs) [0..<length vs])" by (simp add: map_nth)
  moreover have "take w (drop (i * w) (concat (map ((!) vs) [0..<length vs]))) = vs ! i" if "i < length vs" for i
    using chunks_concat(1) [of "length vs" "(!) vs" w i "[]"] assms that by simp
  ultimately show ?thesis by (auto simp: decimals_of_def intro!: nth_equalityI)
qed

lemma fixed_rows_read:
  assumes h: "dict_holds F Z chk vs (fl_keys la) (fl_values la)" and w: "\<forall>v \<in> set vs. length v = value_width (fl_arrow_type la)"
  shows "fixed_to_arrow_array F Z chk la = Some (held_rows F vs (fl_keys la))"
proof -
  let ?w = "value_width (fl_arrow_type la)"
  obtain pk where pk: "to_primitive F (fl_keys la) = Some pk" "\<And>k. Some k \<in> set (pa_items pk) \<Longrightarrow> unat k < length vs"
    "held_rows F vs (fl_keys la) = map (map_option (\<lambda>k. vs ! unat k)) (pa_items pk)" "holds_values Z chk (fl_values la) vs"
    "length vs < 65536" "fsst_len (fl_values la) = length vs"
    using dict_holdsD [OF h] by metis
  obtain sel km where sel: "build_dict_selection chk pk (length vs) = Some (sel, map (\<lambda>x. Option.bind x (\<lambda>v. km (unat v))) (pa_items pk))"
    "distinct sel" "\<And>i. i \<in> set sel \<Longrightarrow> i < length vs"
    "\<And>k. Some k \<in> set (pa_items pk) \<Longrightarrow> \<exists>w. km (unat k) = Some w \<and> unat w < length sel \<and> sel ! unat w = unat k"
    using dict_selection [of pk "length vs" chk] pk(2,5) by auto
  have fit: "values_fit vs" using pk(4) by (simp add: holds_values_def)
  have "values_fit (map ((!) vs) sel)" using sum_selected [OF sel(2), of vs] sel(3) fit by (meson le_less_trans)
  then have t: "to_uncompressed_selected Z chk (fl_values la) sel = Some (concat (map ((!) vs) sel), 0 # ends 0 (map ((!) vs) sel))"
    using selected_buffer [OF pk(4) sel(3)] finish_ends by (simp add: to_uncompressed_selected_def)
  have a: "decompress_as_fixed_size_binary Z chk (fl_values la) = Some (concat vs)"
    using selected_buffer [OF pk(4), of "[0..<length vs]"] pk(6) by (simp add: decompress_as_fixed_size_binary_def map_nth)
  have d: "decimals_of ?w (length sel) (concat (map ((!) vs) sel)) = map ((!) vs) sel"
    using decimals_of_concat [of "map ((!) vs) sel" ?w] w sel(3) by simp
  have "map_option (\<lambda>k. map ((!) vs) sel ! unat k) (Option.bind x (\<lambda>v. km (unat v))) = map_option (\<lambda>k. vs ! unat k) x"
    if "x \<in> set (pa_items pk)" for x
    using sel(4) that by (cases x) force+
  then have "decimal_rows (map (\<lambda>x. Option.bind x (\<lambda>v. km (unat v))) (pa_items pk)) (map ((!) vs) sel) = held_rows F vs (fl_keys la)"
    by (simp add: decimal_rows_def pk(3))
  then show ?thesis using pk sel(1) t a d decimals_of_concat [OF w] by (simp add: fixed_to_arrow_array_def Let_def decimal_rows_def)
qed

lemma fixed_type_read:
  "fixed_type_code t = (a, p, s) \<Longrightarrow> fixed_type_of \<lparr>fh_key_size = k, fh_value_size = v, fh_arrow_type = a, fh_precision = p, fh_scale = s\<rparr> = Some t"
  by (cases t) (auto simp: fixed_type_of_def)

lemma fixed_bytes_read:
  assumes h: "dict_holds F Z chk vs (fl_keys la) (fl_values la)" and f: "dict_fits (fl_keys la) (fl_values la)"
  shows "\<exists>lb. fixed_from_bytes chk (fixed_to_bytes_inner la) (fa_compressor (fl_values la)) = Some lb
    \<and> dict_holds F Z chk vs (fl_keys lb) (fl_values lb) \<and> held_rows F vs (fl_keys lb) = held_rows F vs (fl_keys la)
    \<and> fl_arrow_type lb = fl_arrow_type la"
proof -
  let ?kb = "to_bytes (fl_keys la)" and ?vb = "fsst_to_bytes (fl_values la)"
  obtain a p s where t: "fixed_type_code (fl_arrow_type la) = (a, p, s)" by (cases "fixed_type_code (fl_arrow_type la)")
  define ipc where "ipc = ipc_header_to_bytes (ipc_header_new LIQUID_FIXED_LEN 0)"
  define fh where "fh = fixed_header_to_bytes \<lparr>fh_key_size = of_nat (length ?kb), fh_value_size = of_nat (length ?vb),
    fh_arrow_type = a, fh_precision = p, fh_scale = s\<rparr>"
  let ?bs = "pad8 ((ipc @ fh) @ ?kb) @ ?vb"
  have bs: "fixed_to_bytes_inner la = ?bs" by (simp add: fixed_to_bytes_inner_def ipc_def fh_def Let_def t)
  have len: "length ipc = 16" "length fh = 12" by (simp_all add: ipc_def fh_def fixed_header_to_bytes_def)
  have sizes: "length ?kb < 2 ^ 32" "length ?vb < 2 ^ 32" "fits_u32 (fl_keys la)" using f by (simp_all add: dict_fits_def)
  obtain rest where r: "?bs = ipc @ fh @ rest" by (simp add: pad8_def)
  obtain keys' where k: "from_bytes ?kb = Some keys'" "dict_holds F Z chk vs keys' (fl_values la)" "held_rows F vs keys' = held_rows F vs (fl_keys la)"
    using keys_reread [OF h sizes(3)] by blast
  have "ipc_header_from_bytes ?bs = Some (ipc_header_new LIQUID_FIXED_LEN 0)" unfolding r by (simp add: ipc_def header_roundtrip)
  moreover have "\<not> length ?bs < 28" unfolding r using len by simp
  moreover have "take 12 (drop 16 ?bs) = fh" unfolding r using len by simp
  moreover have "read_keys_values chk ?bs (fa_compressor (fl_values la)) 28 (length ?kb) (length ?vb) = Some (keys', fl_values la)"
    using read_keys_values_at [OF h f k(1), of ?bs "ipc @ fh"] len by simp
  moreover have "fixed_header_from_bytes fh = Some \<lparr>fh_key_size = of_le_bytes (le_bytes 4 (of_nat (length ?kb) :: u32)),
      fh_value_size = of_le_bytes (le_bytes 4 (of_nat (length ?vb) :: u32)), fh_arrow_type = a, fh_precision = p, fh_scale = s\<rparr>"
    by (simp add: fixed_header_from_bytes_def fh_def fixed_header_to_bytes_def nth_append)
  ultimately have "fixed_from_bytes chk ?bs (fa_compressor (fl_values la)) = Some (la\<lparr>fl_keys := keys'\<rparr>)"
    using sizes by (simp add: fixed_from_bytes_def ipc_header_new_def unat_u32_size fixed_type_read [OF t])
  then show ?thesis using k unfolding bs by simp
qed

section \<open>Rows of new arrays\<close>

lemma byte_new_holds:
  assumes "fastlanes_ok F" and "dict_builder_ok build" and "fsst_ok Z" and "byte_from_byte_array build F Z chk rows c ty = Some la"
    and "sizes_ok Z c (view_values build rows)" and "length (view_values build rows) < 65536"
  shows "dict_holds F Z chk (view_values build rows) (lb_keys la) (lb_values la)" and "held_rows F (view_values build rows) (lb_keys la) = rows"
    and "bp_original_len (lb_keys la) = length rows" and "fa_compressor (lb_values la) = c" and "distinct (view_values build rows)"
proof -
  obtain d fa where d: "build rows = Some d" "fsst_from_byte_array Z chk (map Some (da_values d)) c = Some fa"
      "la = \<lparr>lb_keys = from_primitive F (da_keys d) (bit_width_for_key d), lb_values = fa, lb_original_arrow_type = ty\<rparr>"
    using assms(4) by (auto simp: byte_from_byte_array_def byte_from_dict_array_inner_def bind_eq_Some_conv)
  have vs: "view_values build rows = da_values d" by (simp add: view_values_def d(1))
  note n = dict_holds_new [OF assms(1,2) d(1) assms(3) assms(5,6) [unfolded vs] d(2)]
  show "dict_holds F Z chk (view_values build rows) (lb_keys la) (lb_values la)" "held_rows F (view_values build rows) (lb_keys la) = rows"
    "bp_original_len (lb_keys la) = length rows" "fa_compressor (lb_values la) = c"
    using n unfolding vs by (simp_all add: d(3))
  show "distinct (view_values build rows)" using assms(2) d(1) unfolding vs dict_builder_ok_def by blast
qed

lemma fixed_new_holds:
  assumes "fastlanes_ok F" and "dict_builder_ok build" and "fsst_ok Z" and "fixed_from_decimal_array build F Z chk rows c t = Some la"
    and "sizes_ok Z c (view_values build rows)" and "length (view_values build rows) < 65536"
  shows "dict_holds F Z chk (view_values build rows) (fl_keys la) (fl_values la)" and "held_rows F (view_values build rows) (fl_keys la) = rows"
    and "fl_arrow_type la = t" and "fa_compressor (fl_values la) = c"
proof -
  obtain d fa where d: "build rows = Some d" "fsst_from_byte_array Z chk (map Some (da_values d)) c = Some fa"
      "la = \<lparr>fl_arrow_type = t, fl_keys = from_primitive F (da_keys d) (bit_width_for_key d), fl_values = fa\<rparr>"
    using assms(4) by (auto simp: fixed_from_decimal_array_def bind_eq_Some_conv)
  have vs: "view_values build rows = da_values d" by (simp add: view_values_def d(1))
  note n = dict_holds_new [OF assms(1,2) d(1) assms(3) assms(5,6) [unfolded vs] d(2)]
  show "dict_holds F Z chk (view_values build rows) (fl_keys la) (fl_values la)" "held_rows F (view_values build rows) (fl_keys la) = rows"
    "fl_arrow_type la = t" "fa_compressor (fl_values la) = c"
    using n unfolding vs by (simp_all add: d(3))
qed

end
