(* ===== verification/FloatArray.thy ===== *)
theory FloatArray
  imports HybridArray Float64
begin

unbundle bit_operations_syntax

text \<open>
  Liquid arrays of floating-point numbers, \<^verbatim>\<open>src/storage/src/liquid_array/float_array.rs\<close>: a value is
  stored as the integer that decimal scaling gives (ALP), bit-packed after subtracting the least
  one; values that scaling does not bring back are patches. Squeezing keeps the upper half of the
  bits of the integers. A native value is its bit pattern; the arithmetic of the type is the record
  \<open>float_type\<close>, the trait \<open>LiquidFloatType\<close> of the code. A result \<open>None\<close> is a panic.
\<close>

section \<open>The types\<close>

record exponents =
  exp_e :: u8
  exp_f :: u8

record 'a float_type =
  ft_physical :: physical_type
  ft_sweet :: 'a
  ft_max_exponent :: nat
  ft_F10 :: "'a list"
  ft_IF10 :: "'a list"
  ft_add :: "'a \<Rightarrow> 'a \<Rightarrow> 'a"
  ft_sub :: "'a \<Rightarrow> 'a \<Rightarrow> 'a"
  ft_mul :: "'a \<Rightarrow> 'a \<Rightarrow> 'a"
  ft_as_signed :: "'a \<Rightarrow> 'a"
  ft_of_signed :: "'a \<Rightarrow> 'a"
  ft_eq :: "'a \<Rightarrow> 'a \<Rightarrow> bool"
  ft_lt :: "'a \<Rightarrow> 'a \<Rightarrow> bool"
  ft_le :: "'a \<Rightarrow> 'a \<Rightarrow> bool"
  ft_of_literal :: "scalar_value \<Rightarrow> 'a option"

definition fast_round :: "'a float_type \<Rightarrow> 'a \<Rightarrow> 'a" where
  "fast_round T val = ft_as_signed T (ft_sub T (ft_add T val (ft_sweet T)) (ft_sweet T))"

text \<open>Indexing a table panics past its end.\<close>

definition table_at :: "'a list \<Rightarrow> u8 \<Rightarrow> 'a option" where
  "table_at xs i = (if unat i < length xs then Some (xs ! unat i) else None)"

definition encode_single_unchecked :: "'a float_type \<Rightarrow> exponents \<Rightarrow> 'a \<Rightarrow> 'a option" where
  "encode_single_unchecked T ex val =
     (case (table_at (ft_F10 T) (exp_e ex), table_at (ft_IF10 T) (exp_f ex)) of
        (Some a, Some b) \<Rightarrow> Some (fast_round T (ft_mul T (ft_mul T val a) b))
      | _ \<Rightarrow> None)"

definition decode_single :: "'a float_type \<Rightarrow> exponents \<Rightarrow> 'a \<Rightarrow> 'a option" where
  "decode_single T ex val =
     (case (table_at (ft_F10 T) (exp_f ex), table_at (ft_IF10 T) (exp_e ex)) of
        (Some a, Some b) \<Rightarrow> Some (ft_mul T (ft_mul T (ft_of_signed T val) a) b)
      | _ \<Rightarrow> None)"

section \<open>Encoding\<close>

record 'a liquid_float_array =
  lf_exponent :: exponents
  lf_bit_packed :: "'a bit_packed_array"
  lf_patch_indices :: "u64 list"
  lf_patch_values :: "'a list"
  lf_reference_value :: 'a

text \<open>
  The loop that collects patches: each position is written at the current end of the buffers, and
  the end advances past positions that are patches. The buffers have one slot more than patches.
\<close>

fun patch_loop :: "nat \<Rightarrow> nat \<Rightarrow> bool list \<Rightarrow> 'a list \<Rightarrow> u64 list \<Rightarrow> 'a list \<Rightarrow> u64 list \<times> 'a list \<times> nat" where
  "patch_loop i patch_index (neq # neqs) (v # vs) idxs vals =
     patch_loop (Suc i) (if neq then Suc patch_index else patch_index) neqs vs
       (idxs[patch_index := of_nat i]) (vals[patch_index := v])"
| "patch_loop i patch_index _ _ idxs vals = (idxs, vals, patch_index)"

text \<open>The first value that is not patched.\<close>

fun fill_loop_value :: "nat \<Rightarrow> u64 list \<Rightarrow> 'a list \<Rightarrow> 'a option" where
  "fill_loop_value i idxs [] = None"
| "fill_loop_value i idxs (x # xs) = (if i \<ge> length idxs \<or> idxs ! i \<noteq> of_nat i then Some x else fill_loop_value (Suc i) idxs xs)"

definition replace_patched :: "u64 list \<Rightarrow> 'a option \<Rightarrow> 'a list \<Rightarrow> 'a list" where
  "replace_patched idxs fill xs = (case fill of None \<Rightarrow> xs | Some v \<Rightarrow> fold (\<lambda>i ys. ys[unat i := v]) idxs xs)"

definition signed_min :: "'w::len word \<Rightarrow> 'w word list \<Rightarrow> 'w word" where
  "signed_min x xs = fold (\<lambda>y m. if sint y < sint m then y else m) xs x"

definition signed_max :: "'w::len word \<Rightarrow> 'w word list \<Rightarrow> 'w word" where
  "signed_max x xs = fold (\<lambda>y m. if sint m < sint y then y else m) xs x"

definition arrow_null_count :: "'a prim_array \<Rightarrow> nat" where
  "arrow_null_count a = (case pa_nulls a of None \<Rightarrow> 0 | Some n \<Rightarrow> null_count n)"

definition encode_arrow_array ::
  "'w::len word fastlanes \<Rightarrow> 'w word float_type \<Rightarrow> 'w word prim_array \<Rightarrow> exponents \<Rightarrow> 'w word liquid_float_array option" where
  "encode_arrow_array F T arrow_array ex =
     (let values = pa_values arrow_array; len = length values in
      if arrow_null_count arrow_array = len
      then Some \<lparr>lf_exponent = \<lparr>exp_e = 0, exp_f = 0\<rparr>, lf_bit_packed = new_null_array len, lf_patch_indices = [],
             lf_patch_values = [], lf_reference_value = 0\<rparr>
      else
        Option.bind (those (map (encode_single_unchecked T ex) values)) (\<lambda>encoded.
        Option.bind (those (map (decode_single T ex) encoded)) (\<lambda>decoded.
          let neqs = map2 (\<lambda>d v. \<not> ft_eq T d v) decoded values;
              patch_count = count_list neqs True;
              (idxs, vals, patch_index) =
                (if patch_count > 0
                 then patch_loop 0 0 neqs values (replicate (patch_count + 1) 0) (replicate (patch_count + 1) 0)
                 else ([], [], 0));
              patch_indices = take patch_count idxs;
              patch_values = take patch_count vals;
              fill_value = (if patch_count > 0 \<and> patch_count < len then fill_loop_value 0 patch_indices encoded else None);
              encoded_values = replace_patched patch_indices fill_value encoded
          in if patch_index \<noteq> patch_count then None
             else case encoded_values of
               [] \<Rightarrow> None
             | x # xs \<Rightarrow>
                 (let min_v = signed_min x xs; max_v = signed_max x xs;
                      unsigned_values = map (\<lambda>v. v - min_v) encoded_values;
                      bit_width = get_bit_width (ucast (max_v - min_v))
                  in Some \<lparr>lf_exponent = ex,
                       lf_bit_packed = from_primitive F \<lparr>pa_values = unsigned_values, pa_nulls = pa_nulls arrow_array\<rparr> bit_width,
                       lf_patch_indices = patch_indices, lf_patch_values = patch_values, lf_reference_value = min_v\<rparr>))))"

definition NUM_SAMPLES :: nat where "NUM_SAMPLES = 1024"

text \<open>Every \<open>k\<close>-th item, without the nulls.\<close>

definition sample_of :: "'a prim_array \<Rightarrow> 'a prim_array" where
  "sample_of a = (let items = pa_items a; k = length items div NUM_SAMPLES in
     \<lparr>pa_values = List.map_filter id (map ((!) items) (filter (\<lambda>i. i mod k = 0) [0..<length items])), pa_nulls = None\<rparr>)"

definition exponent_choices :: "nat \<Rightarrow> exponents list" where
  "exponent_choices max_exponent =
     concat (map (\<lambda>e. map (\<lambda>f. \<lparr>exp_e = of_nat e, exp_f = of_nat f\<rparr>) [0..<e]) [0..<max_exponent])"

text \<open>The memory size of an array depends on the allocator, an argument.\<close>

fun best_loop ::
  "'w::len word fastlanes \<Rightarrow> 'w word float_type \<Rightarrow> ('w word liquid_float_array \<Rightarrow> nat) \<Rightarrow> 'w word prim_array \<Rightarrow> exponents list \<Rightarrow>
   exponents \<Rightarrow> nat \<Rightarrow> exponents option" where
  "best_loop F T memory_size a [] best min_size = Some best"
| "best_loop F T memory_size a (ex # exs) best min_size =
     Option.bind (encode_arrow_array F T a ex) (\<lambda>la.
       if memory_size la < min_size then best_loop F T memory_size a exs ex (memory_size la)
       else best_loop F T memory_size a exs best min_size)"

definition get_best_exponents ::
  "'w::len word fastlanes \<Rightarrow> 'w word float_type \<Rightarrow> ('w word liquid_float_array \<Rightarrow> nat) \<Rightarrow> 'w word prim_array \<Rightarrow> exponents option" where
  "get_best_exponents F T memory_size a =
     best_loop F T memory_size (if length (pa_values a) > NUM_SAMPLES then sample_of a else a)
       (exponent_choices (ft_max_exponent T)) \<lparr>exp_e = 0, exp_f = 0\<rparr> (2 ^ 64 - 1)"

definition float_from_arrow_array ::
  "'w::len word fastlanes \<Rightarrow> 'w word float_type \<Rightarrow> ('w word liquid_float_array \<Rightarrow> nat) \<Rightarrow> 'w word prim_array \<Rightarrow> 'w word liquid_float_array option" where
  "float_from_arrow_array F T memory_size a =
     Option.bind (get_best_exponents F T memory_size a) (encode_arrow_array F T a)"

section \<open>Decoding\<close>

fun apply_patches :: "u64 list \<Rightarrow> 'a list \<Rightarrow> 'a list \<Rightarrow> 'a list option" where
  "apply_patches [] vs xs = Some xs"
| "apply_patches (i # idxs) (v # vs) xs = (if unat i < length xs then apply_patches idxs vs (xs[unat i := v]) else None)"
| "apply_patches (i # idxs) [] xs = None"

definition float_to_arrow_array ::
  "'w::len word fastlanes \<Rightarrow> 'w word float_type \<Rightarrow> 'w word liquid_float_array \<Rightarrow> 'w word prim_array option" where
  "float_to_arrow_array F T la =
     Option.bind (to_primitive F (lf_bit_packed la)) (\<lambda>unsigned_array.
     Option.bind (those (map (\<lambda>v. decode_single T (lf_exponent la) (v + lf_reference_value la)) (pa_values unsigned_array))) (\<lambda>decoded.
       map_option (\<lambda>values. \<lparr>pa_values = values, pa_nulls = bp_nulls (lf_bit_packed la)\<rparr>)
         (apply_patches (lf_patch_indices la) (lf_patch_values la) decoded)))"

section \<open>The serialized form\<close>

definition LIQUID_FLOAT :: u16 where "LIQUID_FLOAT = 2"

definition exponents_loc :: "'w::len itself \<Rightarrow> nat" where
  "exponents_loc t = align8 (16 + size_of t)"

definition float_to_bytes_inner :: "'w::len word float_type \<Rightarrow> 'w word liquid_float_array \<Rightarrow> bytes" where
  "float_to_bytes_inner T la =
     (let header = ipc_header_new LIQUID_FLOAT (get_physical_type_id (ft_physical T));
          start = ipc_header_to_bytes header @ le_bytes (size_of TYPE('w)) (lf_reference_value la);
          exponent_part = [exp_e (lf_exponent la), exp_f (lf_exponent la)] @ replicate 6 0;
          patch_length = le_bytes 8 (of_nat (length (lf_patch_indices la)) :: u64);
          patches = (if lf_patch_indices la \<noteq> [] then words_bytes (lf_patch_indices la)
              @ words_bytes (take (length (lf_patch_indices la)) (lf_patch_values la)) else []);
          result = start @ replicate (exponents_loc TYPE('w) - length start) 0 @ exponent_part @ patch_length @ patches
      in result @ replicate (align8 (length result) - length result) 0 @ to_bytes (lf_bit_packed la))"

definition float_from_bytes :: "'w::len word float_type \<Rightarrow> bytes \<Rightarrow> 'w word liquid_float_array option" where
  "float_from_bytes T bs =
     Option.bind (ipc_header_from_bytes bs) (\<lambda>header.
       if h_physical_type_id header \<noteq> get_physical_type_id (ft_physical T) then None
       else if h_logical_type_id header \<noteq> LIQUID_FLOAT then None
       else
         (let loc = exponents_loc TYPE('w); patches_loc = loc + 16 in
          if length bs < patches_loc then None
          else
            (let reference_value = of_le_bytes (take (size_of TYPE('w)) (drop 16 bs));
                 count = unat (of_le_bytes (take 8 (drop (loc + 8) bs)) :: u64);
                 idx_bytes = count * 8;
                 val_bytes = count * size_of TYPE('w);
                 values_loc = patches_loc + idx_bytes;
                 next_loc = (if count > 0 then values_loc + val_bytes else patches_loc)
             in if length bs < next_loc \<or> length bs < align8 next_loc then None
                else
                  map_option (\<lambda>bp. \<lparr>lf_exponent = \<lparr>exp_e = bs ! loc, exp_f = bs ! (loc + 1)\<rparr>, lf_bit_packed = bp,
                      lf_patch_indices = bytes_words count (take idx_bytes (drop patches_loc bs)),
                      lf_patch_values = bytes_words count (take val_bytes (drop values_loc bs)),
                      lf_reference_value = reference_value\<rparr>)
                    (from_bytes (drop (align8 next_loc) bs)))))"

section \<open>Squeezing\<close>

record 'a float_quantized_array =
  fq_exponent :: exponents
  fq_quantized :: "'a bit_packed_array"
  fq_reference_value :: 'a
  fq_bucket_width :: nat
  fq_patch_indices :: "u64 list"
  fq_patch_values :: "'a list"

text \<open>The bucket of an offset: the shifted value relative to the shifted reference.\<close>

definition float_bucket :: "nat \<Rightarrow> 'w::len word \<Rightarrow> 'w word \<Rightarrow> 'w word" where
  "float_bucket shift ref v = signed_drop_bit shift (ref + v) - signed_drop_bit shift ref"

definition float_squeeze ::
  "'w::len word fastlanes \<Rightarrow> 'w word float_type \<Rightarrow> 'w word liquid_float_array \<Rightarrow> ('w word float_quantized_array \<times> bytes) option option" where
  "float_squeeze F T la =
     (case bp_bit_width (lf_bit_packed la) of
        None \<Rightarrow> Some None
      | Some orig_bw \<Rightarrow>
          if orig_bw < 8 then Some None
          else
            (let new_bw = orig_bw div 2; full_bytes = float_to_bytes_inner T la in
             Option.bind (to_primitive F (lf_bit_packed la)) (\<lambda>u.
               let shift = orig_bw - new_bw;
                   quantized_values = map (float_bucket shift (lf_reference_value la)) (pa_values u)
               in Some (Some (\<lparr>fq_exponent = lf_exponent la,
                    fq_quantized = from_primitive F \<lparr>pa_values = quantized_values, pa_nulls = pa_nulls u\<rparr> new_bw,
                    fq_reference_value = lf_reference_value la, fq_bucket_width = shift,
                    fq_patch_indices = lf_patch_indices la, fq_patch_values = lf_patch_values la\<rparr>, full_bytes)))))"

definition float_filter_inner ::
  "'w::len word arrow_kernels \<Rightarrow> 'w word fastlanes \<Rightarrow> 'w word float_quantized_array \<Rightarrow> bool list \<Rightarrow> 'w word float_quantized_array option" where
  "float_filter_inner K F q selection =
     Option.bind (to_primitive F (fq_quantized q)) (\<lambda>q_prim.
     Option.bind (bp_bit_width (fq_quantized q)) (\<lambda>bit_width.
       Some (q\<lparr>fq_quantized := from_primitive F (ak_filter K q_prim selection) bit_width\<rparr>)))"

text \<open>\<open>handle_eq\<close> to \<open>handle_gteq\<close>: the answer for all values between the bounds, if there is one.\<close>

fun handle :: "'a float_type \<Rightarrow> operator \<Rightarrow> 'a \<Rightarrow> 'a \<Rightarrow> 'a \<Rightarrow> bool option" where
  "handle T Op_Eq lo hi k = (if ft_lt T k lo \<or> ft_lt T hi k then Some False else None)"
| "handle T Op_NotEq lo hi k = (if ft_lt T k lo \<or> ft_lt T hi k then Some True else None)"
| "handle T Op_Lt lo hi k = (if ft_le T k lo then Some False else if ft_lt T hi k then Some True else None)"
| "handle T Op_LtEq lo hi k = (if ft_lt T k lo then Some False else if ft_le T hi k then Some True else None)"
| "handle T Op_Gt lo hi k = (if ft_lt T k lo then Some True else if ft_le T hi k then Some False else None)"
| "handle T Op_GtEq lo hi k = (if ft_le T k lo then Some True else if ft_lt T hi k then Some False else None)"

fun float_cmp :: "'a float_type \<Rightarrow> operator \<Rightarrow> 'a \<Rightarrow> 'a \<Rightarrow> bool" where
  "float_cmp T Op_Eq v k = ft_eq T v k"
| "float_cmp T Op_NotEq v k = (\<not> ft_eq T v k)"
| "float_cmp T Op_Lt v k = ft_lt T v k"
| "float_cmp T Op_LtEq v k = ft_le T v k"
| "float_cmp T Op_Gt v k = ft_lt T k v"
| "float_cmp T Op_GtEq v k = ft_le T k v"

text \<open>The answer on a bucket; the outer \<open>None\<close> is a panic of the table access.\<close>

definition bucket_bounds_answer ::
  "'w::len word float_type \<Rightarrow> exponents \<Rightarrow> 'w word \<Rightarrow> nat \<Rightarrow> operator \<Rightarrow> 'w word \<Rightarrow> 'w word \<Rightarrow> bool option option" where
  "bucket_bounds_answer T ex ref shift op k b =
     (let lo = push_bit shift b + ref; hi = push_bit shift (b + 1) + ref in
      case (decode_single T ex lo, decode_single T ex hi) of
        (Some val_lower, Some val_higher) \<Rightarrow> Some (handle T op val_lower val_higher k)
      | _ \<Rightarrow> None)"

text \<open>
  The loop over the buckets. A row at the next patch index counts as false for now; the index is
  not advanced at a null row.
\<close>

fun float_eval_loop ::
  "('a \<Rightarrow> bool option option) \<Rightarrow> boolean_buffer option \<Rightarrow> u64 list \<Rightarrow> nat \<Rightarrow> 'a list \<Rightarrow> bool list eval_result" where
  "float_eval_loop f nulls patches i [] = Mask []"
| "float_eval_loop f nulls patches i (b # bs) =
     (let push = (\<lambda>v r. case r of Mask out \<Rightarrow> Mask (v # out) | x \<Rightarrow> x) in
      if \<not> valid_at nulls i then push False (float_eval_loop f nulls patches (Suc i) bs)
      else if patches \<noteq> [] \<and> hd patches = of_nat i then push False (float_eval_loop f nulls (tl patches) (Suc i) bs)
      else case f b of
        None \<Rightarrow> EvalPanic
      | Some None \<Rightarrow> NeedsBacking
      | Some (Some v) \<Rightarrow> push v (float_eval_loop f nulls patches (Suc i) bs))"

definition float_try_eval ::
  "'w::len word fastlanes \<Rightarrow> 'w word float_type \<Rightarrow> 'w word float_quantized_array \<Rightarrow> operator \<Rightarrow> scalar_value \<Rightarrow> bool_array eval_result" where
  "float_try_eval F T q op literal =
     (case ft_of_literal T literal of
        None \<Rightarrow> NotSupported
      | Some k \<Rightarrow>
          (case to_primitive F (fq_quantized q) of
             None \<Rightarrow> EvalPanic
           | Some q_prim \<Rightarrow>
               (let nulls = bp_nulls (fq_quantized q) in
                case float_eval_loop (bucket_bounds_answer T (fq_exponent q) (fq_reference_value q) (fq_bucket_width q) op k) nulls
                    (fq_patch_indices q) 0 (pa_values q_prim) of
                  Mask out_vals \<Rightarrow>
                    (case apply_patches (fq_patch_indices q) (map (\<lambda>v. float_cmp T op v k) (fq_patch_values q)) out_vals of
                       None \<Rightarrow> EvalPanic
                     | Some out \<Rightarrow> Mask \<lparr>ba_values = out, ba_nulls = nulls\<rparr>)
                | NeedsBacking \<Rightarrow> NeedsBacking
                | NotSupported \<Rightarrow> NotSupported
                | EvalPanic \<Rightarrow> EvalPanic)))"

definition float_hydrate :: "'w::len word fastlanes \<Rightarrow> 'w word float_type \<Rightarrow> bytes \<Rightarrow> 'w word prim_array option" where
  "float_hydrate F T disk = Option.bind (float_from_bytes T disk) (float_to_arrow_array F T)"

text \<open>
  The predicate on the squeezed array. The left side of the comparison is not looked at. The
  comparison of DataFusion on the hydrated rows is an argument; it may fail.
\<close>

definition float_try_eval_predicate ::
  "'w::len word arrow_kernels \<Rightarrow> 'w word fastlanes \<Rightarrow> 'w word float_type \<Rightarrow>
   ('w word prim_array \<Rightarrow> operator \<Rightarrow> scalar_value \<Rightarrow> bool_array option) \<Rightarrow>
   'w word float_quantized_array \<Rightarrow> bool list \<Rightarrow> phys_expr \<Rightarrow> bytes \<Rightarrow> bool_array option option" where
  "float_try_eval_predicate K F T apply_cmp q sel expr disk =
     Option.bind (float_filter_inner K F q sel) (\<lambda>filtered.
       case expr of
         PE_Binary left df_op (PE_Literal literal) \<Rightarrow>
           (case from_datafusion df_op of
              None \<Rightarrow> Some None
            | Some op \<Rightarrow>
                (case float_try_eval F T filtered op literal of
                   EvalPanic \<Rightarrow> None
                 | Mask m \<Rightarrow> Some (Some m)
                 | NotSupported \<Rightarrow> Some None
                 | NeedsBacking \<Rightarrow> map_option (\<lambda>full. apply_cmp (ak_filter K full sel) op literal) (float_hydrate F T disk)))
       | _ \<Rightarrow> Some None)"

section \<open>Patches\<close>

text \<open>What the type promises: the tables are as long as the exponents need.\<close>

definition float_type_ok :: "'w::len word float_type \<Rightarrow> bool" where
  "float_type_ok T \<longleftrightarrow> LENGTH('w) \<le> 64 \<and> 8 dvd LENGTH('w) \<and> ft_max_exponent T \<le> 255
     \<and> ft_max_exponent T \<le> length (ft_F10 T) \<and> ft_max_exponent T \<le> length (ft_IF10 T) \<and> ft_F10 T \<noteq> [] \<and> ft_IF10 T \<noteq> []"

definition exponents_ok :: "'a float_type \<Rightarrow> exponents \<Rightarrow> bool" where
  "exponents_ok T ex \<longleftrightarrow> unat (exp_e ex) < length (ft_F10 T) \<and> unat (exp_e ex) < length (ft_IF10 T)
     \<and> unat (exp_f ex) < length (ft_F10 T) \<and> unat (exp_f ex) < length (ft_IF10 T)"

lemma single_total:
  assumes "exponents_ok T ex"
  shows "encode_single_unchecked T ex v \<noteq> None" "decode_single T ex v \<noteq> None"
  using assms by (simp_all add: encode_single_unchecked_def decode_single_def table_at_def exponents_ok_def)

lemma those_map_total: "\<forall>x \<in> set xs. f x \<noteq> None \<Longrightarrow> those (map f xs) = Some (map (the \<circ> f) xs)"
  by (induction xs) (auto simp: option.map_sel)

lemma length_true_positions_le: "length (true_positions i bs) \<le> length bs"
  by (induction bs arbitrary: i) (auto simp: le_SucI)

lemma patch_loop_positions:
  "length neqs = length vs \<Longrightarrow> patch_index + count_list neqs True < length idxs \<Longrightarrow> length vals = length idxs \<Longrightarrow>
    \<exists>idxs' vals'. patch_loop i patch_index neqs vs idxs vals = (idxs', vals', patch_index + count_list neqs True)
      \<and> take (patch_index + count_list neqs True) idxs' = take patch_index idxs @ map of_nat (true_positions i neqs)
      \<and> take (patch_index + count_list neqs True) vals' = take patch_index vals @ map (\<lambda>j. vs ! (j - i)) (true_positions i neqs)"
proof (induction neqs vs arbitrary: i patch_index idxs vals rule: list_induct2)
  case (Cons b neqs v vs)
  let ?p = "if b then Suc patch_index else patch_index"
  have c: "?p + count_list neqs True = patch_index + count_list (b # neqs) True" by simp
  have "?p + count_list neqs True < length (idxs[patch_index := of_nat i])" "length (vals[patch_index := v]) = length (idxs[patch_index := of_nat i])"
    using Cons.prems by (simp_all split: if_split_asm)
  from Cons.IH [OF this, of "Suc i"] obtain idxs' vals' where IH:
    "patch_loop (Suc i) ?p neqs vs (idxs[patch_index := of_nat i]) (vals[patch_index := v]) = (idxs', vals', ?p + count_list neqs True)"
    "take (?p + count_list neqs True) idxs' = take ?p (idxs[patch_index := of_nat i]) @ map of_nat (true_positions (Suc i) neqs)"
    "take (?p + count_list neqs True) vals' = take ?p (vals[patch_index := v]) @ map (\<lambda>j. vs ! (j - Suc i)) (true_positions (Suc i) neqs)"
    by blast
  have "map (\<lambda>j. vs ! (j - Suc i)) (true_positions (Suc i) neqs) = map (\<lambda>j. (v # vs) ! (j - i)) (true_positions (Suc i) neqs)"
    by (rule map_cong [OF refl]) (auto simp: set_true_positions nth_Cons')
  moreover have "patch_index < length idxs" "patch_index < length vals" using Cons.prems by simp_all
  ultimately show ?case using IH unfolding c [symmetric]
    by (cases b) (auto simp: take_Suc_conv_app_nth)
qed simp

lemma apply_patches_total:
  "\<forall>i \<in> set idxs. unat i < length xs \<Longrightarrow> length idxs \<le> length vs \<Longrightarrow> \<exists>ys. apply_patches idxs vs xs = Some ys \<and> length ys = length xs"
  by (induction idxs vs xs rule: apply_patches.induct) auto

lemma apply_patches_cong:
  "apply_patches idxs vs xs = Some ys \<Longrightarrow> apply_patches idxs vs xs' = Some ys' \<Longrightarrow> length xs' = length xs \<Longrightarrow> xs' ! i = xs ! i \<Longrightarrow>
    i < length xs \<Longrightarrow> ys' ! i = ys ! i"
proof (induction idxs vs xs arbitrary: xs' rule: apply_patches.induct)
  case (2 j idxs v vs xs)
  show ?case
    by (rule 2(1) [of "xs'[unat j := v]"]) (use 2(2-) in \<open>auto simp: nth_list_update split: if_split_asm\<close>)
qed auto

lemma apply_patches_values:
  assumes "\<forall>j \<in> set ps. j < length xs" and "length xs \<le> 2 ^ 64"
  shows "apply_patches (map of_nat ps) (map f ps) xs = Some (map (\<lambda>j. if j \<in> set ps then f j else xs ! j) [0..<length xs])"
  using assms
proof (induction ps arbitrary: xs)
  case Nil
  show ?case by (simp add: map_nth)
next
  case (Cons j ps)
  have j: "unat (of_nat j :: u64) = j" using Cons.prems by (simp add: unat_of_nat)
  have "apply_patches (map of_nat ps) (map f ps) (xs[j := f j])
      = Some (map (\<lambda>k. if k \<in> set ps then f k else xs[j := f j] ! k) [0..<length xs])"
    using Cons.IH [of "xs[j := f j]"] Cons.prems by simp
  also have "map (\<lambda>k. if k \<in> set ps then f k else xs[j := f j] ! k) [0..<length xs]
      = map (\<lambda>k. if k \<in> set (j # ps) then f k else xs ! k) [0..<length xs]"
    by (rule map_cong [OF refl]) (auto simp: nth_list_update)
  finally show ?case using Cons.prems j by simp
qed

lemma replace_patched_nth:
  "length (replace_patched idxs fill xs) = length xs"
  "i \<notin> unat ` set idxs \<Longrightarrow> replace_patched idxs fill xs ! i = xs ! i"
proof -
  have "length (fold (\<lambda>j ys. ys[unat j := v]) idxs xs) = length xs
      \<and> (i \<notin> unat ` set idxs \<longrightarrow> fold (\<lambda>j ys. ys[unat j := v]) idxs xs ! i = xs ! i)" for v
    by (induction idxs arbitrary: xs) (auto simp: nth_list_update)
  then show "length (replace_patched idxs fill xs) = length xs"
    "i \<notin> unat ` set idxs \<Longrightarrow> replace_patched idxs fill xs ! i = xs ! i"
    by (auto simp: replace_patched_def split: option.split)
qed

section \<open>The range of the integers\<close>

lemma signed_min_le: "y \<in> set (x # xs) \<Longrightarrow> sint (signed_min x xs) \<le> sint (y :: 'w::len word)"
proof -
  have "sint (signed_min x xs) \<le> sint x \<and> (\<forall>y \<in> set xs. sint (signed_min x xs) \<le> sint y)"
    unfolding signed_min_def
  proof (induction xs arbitrary: x)
    case (Cons a xs)
    from Cons.IH [of "if sint a < sint x then a else x"] show ?case by (auto split: if_split_asm)
  qed simp
  then show "y \<in> set (x # xs) \<Longrightarrow> sint (signed_min x xs) \<le> sint y" by auto
qed

lemma signed_max_ge: "y \<in> set (x # xs) \<Longrightarrow> sint (y :: 'w::len word) \<le> sint (signed_max x xs)"
proof -
  have "sint x \<le> sint (signed_max x xs) \<and> (\<forall>y \<in> set xs. sint y \<le> sint (signed_max x xs))"
    unfolding signed_max_def
  proof (induction xs arbitrary: x)
    case (Cons a xs)
    from Cons.IH [of "if sint x < sint a then a else x"] show ?case by (auto split: if_split_asm)
  qed simp
  then show "y \<in> set (x # xs) \<Longrightarrow> sint y \<le> sint (signed_max x xs)" by auto
qed

lemma sint_offset_le:
  "sint m \<le> sint v \<Longrightarrow> sint v \<le> sint M \<Longrightarrow> v - m \<le> M - (m :: 'w::len word)"
  using native_diff_le [of P_Int64 m v M] by (simp add: native_val_def is_unsigned_def)

section \<open>Encoding and decoding\<close>

text \<open>A decoded row is the row itself or compares equal to it, as a zero of the other sign does.\<close>

abbreviation same_row :: "'a float_type \<Rightarrow> 'a option \<Rightarrow> 'a option \<Rightarrow> bool" where
  "same_row T \<equiv> rel_option (\<lambda>d v. d = v \<or> ft_eq T d v)"

definition float_encodes ::
  "'w::len word fastlanes \<Rightarrow> 'w word float_type \<Rightarrow> 'w word liquid_float_array \<Rightarrow> 'w word prim_array \<Rightarrow> bool" where
  "float_encodes F T la a \<longleftrightarrow> bp_ok (lf_bit_packed la) \<and> bp_original_len (lf_bit_packed la) = length (pa_values a)
     \<and> exponents_ok T (lf_exponent la) \<and> length (lf_patch_indices la) = length (lf_patch_values la)
     \<and> (\<forall>i \<in> set (lf_patch_indices la). unat i < length (pa_values a))
     \<and> length (lf_patch_indices la) \<le> length (pa_values a)
     \<and> (\<exists>u. to_primitive F (lf_bit_packed la) = Some u \<and> length (pa_values u) = length (pa_values a))
     \<and> (\<exists>b. float_to_arrow_array F T la = Some b \<and> length (pa_values b) = length (pa_values a)
          \<and> list_all2 (same_row T) (pa_items b) (pa_items a))"

lemma float_to_arrow_eq:
  assumes "exponents_ok T (lf_exponent la)" and "to_primitive F (lf_bit_packed la) = Some u"
  shows "float_to_arrow_array F T la = map_option (\<lambda>values. \<lparr>pa_values = values, pa_nulls = bp_nulls (lf_bit_packed la)\<rparr>)
    (apply_patches (lf_patch_indices la) (lf_patch_values la)
      (map (\<lambda>v. the (decode_single T (lf_exponent la) (v + lf_reference_value la))) (pa_values u)))"
  using those_map_total [of "pa_values u" "\<lambda>v. decode_single T (lf_exponent la) (v + lf_reference_value la)"] single_total(2) [OF assms(1)] assms(2)
  by (simp add: float_to_arrow_array_def o_def)

lemma all_null_items:
  assumes "pa_wf a" and "arrow_null_count a = length (pa_values a)"
  shows "pa_items a = replicate (length (pa_values a)) None"
proof (cases "pa_nulls a")
  case None
  then show ?thesis using assms(2) by (simp add: arrow_null_count_def pa_items_def)
next
  case (Some n)
  then have "bb_bits n = replicate (length (pa_values a)) False"
    using assms null_count_all [of n] by (simp add: arrow_null_count_def pa_wf_def nulls_fit_def)
  with Some show ?thesis by (auto simp: pa_items_def valid_at_def intro!: nth_equalityI)
qed

lemma null_float_encodes:
  assumes "float_type_ok T" and "pa_wf a" and "arrow_null_count a = length (pa_values a)"
  shows "float_encodes F T \<lparr>lf_exponent = \<lparr>exp_e = 0, exp_f = 0\<rparr>, lf_bit_packed = new_null_array (length (pa_values a)),
    lf_patch_indices = [], lf_patch_values = [], lf_reference_value = 0\<rparr> a"
proof -
  let ?n = "length (pa_values a)" and ?ex = "\<lparr>exp_e = 0, exp_f = 0\<rparr> :: exponents"
  have ex: "exponents_ok T ?ex" using assms(1) by (simp add: exponents_ok_def float_type_ok_def)
  let ?la = "\<lparr>lf_exponent = ?ex, lf_bit_packed = new_null_array ?n, lf_patch_indices = [], lf_patch_values = [],
    lf_reference_value = 0\<rparr> :: 'a word liquid_float_array"
  let ?b = "\<lparr>pa_values = map (\<lambda>v. the (decode_single T ?ex (v + 0))) (replicate ?n 0), pa_nulls = Some (null_buffer ?n)\<rparr>"
  have "pa_items ?b = replicate ?n None" by (auto simp: pa_items_def valid_at_def intro!: nth_equalityI)
  moreover have "bp_original_len (new_null_array ?n :: 'a word bit_packed_array) = ?n" "bp_nulls (new_null_array ?n :: 'a word bit_packed_array) = Some (null_buffer ?n)"
    by (simp_all add: new_null_array_def)
  moreover from this have "float_to_arrow_array F T ?la = Some ?b"
    using float_to_arrow_eq [of T ?la F "prim_new_null ?n"] ex by (simp add: prim_new_null_def)
  ultimately show ?thesis using ex all_null_items [OF assms(2,3)]
    by (simp add: float_encodes_def new_null_ok) (simp add: prim_new_null_def list_all2_conv_all_nth)
qed

lemma encode_arrow_array_ok:
  fixes F :: "'w::len word fastlanes"
  assumes F: "fastlanes_ok F" and T: "float_type_ok T" and ex: "exponents_ok T ex" and a: "pa_wf a" and len: "length (pa_values a) \<le> 2 ^ 64"
  shows "\<exists>la. encode_arrow_array F T a ex = Some la \<and> float_encodes F T la a"
proof (cases "arrow_null_count a = length (pa_values a)")
  case True
  then show ?thesis using null_float_encodes [OF T a True] by (simp add: encode_arrow_array_def Let_def)
next
  case False
  let ?vs = "pa_values a" and ?n = "length (pa_values a)"
  define encoded where "encoded = map (\<lambda>v. the (encode_single_unchecked T ex v)) ?vs"
  define decoded where "decoded = map (\<lambda>v. the (decode_single T ex v)) encoded"
  define neqs where "neqs = map2 (\<lambda>d v. \<not> ft_eq T d v) decoded ?vs"
  define ps where "ps = true_positions 0 neqs"
  have e: "those (map (encode_single_unchecked T ex) ?vs) = Some encoded"
    using those_map_total [of ?vs "encode_single_unchecked T ex"] single_total(1) [OF ex] by (simp add: encoded_def o_def)
  have d: "those (map (decode_single T ex) encoded) = Some decoded"
    using those_map_total [of encoded "decode_single T ex"] single_total(2) [OF ex] by (simp add: decoded_def o_def)
  have l: "length encoded = ?n" "length decoded = ?n" "length neqs = ?n" by (simp_all add: encoded_def decoded_def neqs_def)
  have ps: "\<forall>j \<in> set ps. j < ?n" "\<And>j. j < ?n \<Longrightarrow> j \<in> set ps \<longleftrightarrow> \<not> ft_eq T (decoded ! j) (?vs ! j)"
    using l by (auto simp: ps_def set_true_positions neqs_def)
  have pn: "length ps \<le> ?n" unfolding ps_def using length_true_positions_le [of 0 neqs] l(3) by simp
  let ?c = "count_list neqs True"
  have pl: "\<exists>idxs vals. (if ?c > 0 then patch_loop 0 0 neqs ?vs (replicate (?c + 1) 0) (replicate (?c + 1) 0) else ([], [], 0)) = (idxs, vals, ?c)
      \<and> take ?c idxs = map of_nat ps \<and> take ?c vals = map ((!) ?vs) ps"
  proof (cases "?c > 0")
    case True
    then show ?thesis using patch_loop_positions [of neqs ?vs 0 "replicate (?c + 1) 0" "replicate (?c + 1) 0" 0] l(3) by (auto simp: ps_def)
  next
    case False
    then have "True \<notin> set neqs" by (simp add: count_list_0_iff)
    then have "j \<notin> set ps" for j using nth_mem by (fastforce simp: ps_def set_true_positions)
    then have "ps = []" by (cases ps) auto
    then show ?thesis using False by simp
  qed
  then obtain idxs vals where pl: "(if ?c > 0 then patch_loop 0 0 neqs ?vs (replicate (?c + 1) 0) (replicate (?c + 1) 0) else ([], [], 0)) = (idxs, vals, ?c)"
    "take ?c idxs = map of_nat ps" "take ?c vals = map ((!) ?vs) ps" by blast
  define fill where "fill = (if ?c > 0 \<and> ?c < ?n then fill_loop_value 0 (map of_nat ps) encoded else None)"
  define enc where "enc = replace_patched (map of_nat ps) fill encoded"
  have un: "unat (of_nat j :: u64) = j" if "j < ?n" for j using that len by (simp add: unat_of_nat)
  have "unat ` set (map of_nat ps :: u64 list) = set ps" using ps(1) un by (force simp: image_image)
  then have enc: "length enc = ?n" "\<And>j. j \<notin> set ps \<Longrightarrow> enc ! j = encoded ! j"
    using l(1) by (simp_all add: enc_def replace_patched_nth)
  have ne: "?vs \<noteq> []" using False a by (auto simp: arrow_null_count_def null_count_def pa_wf_def nulls_fit_def bb_bits_def split: option.splits)
  then obtain x xs where x: "enc = x # xs" using enc(1) by (cases enc) auto
  define m where "m = signed_min x xs"
  let ?w = "get_bit_width (ucast (signed_max x xs - m))"
  let ?u = "\<lparr>pa_values = map (\<lambda>v. v - m) enc, pa_nulls = pa_nulls a\<rparr>"
  let ?la = "\<lparr>lf_exponent = ex, lf_bit_packed = from_primitive F ?u ?w, lf_patch_indices = map of_nat ps,
    lf_patch_values = map ((!) ?vs) ps, lf_reference_value = m\<rparr>"
  have bits: "LENGTH('w) \<le> 64" using T by (simp add: float_type_ok_def)
  have w: "0 < ?w" "?w \<le> LENGTH('w)" using get_bit_width_bounds width_covers_offset(2) [OF bits order_refl] by auto
  have "encode_arrow_array F T a ex = Some ?la"
    unfolding encode_arrow_array_def Let_def e d Option.bind.bind_lunit neqs_def [symmetric] pl(1) prod.case pl(2,3)
      fill_def [symmetric] enc_def [symmetric] using False x by (simp add: m_def)
  moreover have "take_bit ?w (v - m) = v - m" if "v \<in> set enc" for v
    by (rule width_covers_offset(1) [OF bits], rule sint_offset_le)
      (use that signed_min_le signed_max_ge x m_def in metis)+
  then have tp: "to_primitive F (from_primitive F ?u ?w) = Some ?u"
    using to_primitive_from_primitive [OF F w, of ?u] by (simp cong: map_cong)
  have un': "bp_nulls (from_primitive F ?u ?w) = pa_nulls a" "bp_original_len (from_primitive F ?u ?w) = ?n"
    using enc(1) by (simp_all add: from_primitive_def Let_def)
  let ?d = "map (\<lambda>v. the (decode_single T ex v)) enc"
  let ?b = "\<lparr>pa_values = map (\<lambda>j. if j \<in> set ps then ?vs ! j else ?d ! j) [0..<?n], pa_nulls = pa_nulls a\<rparr>"
  have "float_to_arrow_array F T ?la = Some ?b"
    using float_to_arrow_eq [of T ?la F ?u] ex tp apply_patches_values [of ps ?d "(!) ?vs"] ps(1) len enc(1) un'(1) by (simp add: o_def)
  moreover have "list_all2 (same_row T) (pa_items ?b) (pa_items a)"
  proof (rule list_all2_all_nthI)
    fix i assume "i < length (pa_items ?b)"
    then have i: "i < ?n" by (simp add: pa_items_def)
    then have "?d ! i = decoded ! i" if "i \<notin> set ps" using enc that l(1) by (simp add: decoded_def)
    then show "same_row T (pa_items ?b ! i) (pa_items a ! i)" using i ps(2) [OF i] by (auto simp: pa_items_def)
  qed (simp add: pa_items_def)
  moreover have "bp_ok (from_primitive F ?u ?w)"
    using from_primitive_ok [OF _ F w bits, of ?u] a enc(1) by (simp add: pa_wf_def)
  ultimately show ?thesis using ex ps(1) pn un un' tp enc(1) by (auto simp: float_encodes_def)
qed

lemma exponent_choices_ok:
  assumes "float_type_ok T" and "ex \<in> set (exponent_choices (ft_max_exponent T))"
  shows "exponents_ok T ex"
proof -
  obtain e f where "e < ft_max_exponent T" "f < e" "ex = \<lparr>exp_e = of_nat e, exp_f = of_nat f\<rparr>"
    using assms(2) by (auto simp: exponent_choices_def)
  with assms(1) show ?thesis by (simp add: exponents_ok_def float_type_ok_def unat_of_nat)
qed

lemma best_loop_ok:
  assumes "fastlanes_ok F" and "float_type_ok T" and "pa_wf a" and "length (pa_values a) \<le> 2 ^ 64"
  shows "\<forall>ex \<in> set exs. exponents_ok T ex \<Longrightarrow> exponents_ok T best \<Longrightarrow>
    \<exists>ex. best_loop F T memory_size a exs best min_size = Some ex \<and> exponents_ok T ex"
proof (induction exs arbitrary: best min_size)
  case (Cons ex exs)
  then show ?case using encode_arrow_array_ok [OF assms(1,2) _ assms(3,4), of ex] by auto
qed simp

lemma sample_of_ok: "length (pa_values (sample_of a)) \<le> length (pa_values a)" "pa_wf (sample_of a)"
proof -
  have "length (List.map_filter id xs) \<le> length xs" for xs :: "'a option list"
    by (simp add: List.map_filter_def)
  from this [of "map ((!) (pa_items a)) (filter (\<lambda>i. i mod (length (pa_items a) div NUM_SAMPLES) = 0) [0..<length (pa_items a)])"]
  have "length (pa_values (sample_of a)) \<le> length (filter (\<lambda>i. i mod (length (pa_items a) div NUM_SAMPLES) = 0) [0..<length (pa_items a)])"
    by (simp add: sample_of_def Let_def)
  also have "\<dots> \<le> length (pa_items a)" by (rule order_trans [OF length_filter_le]) simp
  finally show "length (pa_values (sample_of a)) \<le> length (pa_values a)" by (simp add: pa_items_def)
  show "pa_wf (sample_of a)" by (simp add: sample_of_def pa_wf_def nulls_fit_def Let_def)
qed

lemma float_from_arrow_ok:
  assumes "fastlanes_ok F" and "float_type_ok T" and "pa_wf a" and "length (pa_values a) \<le> 2 ^ 64"
  shows "\<exists>la. float_from_arrow_array F T memory_size a = Some la \<and> float_encodes F T la a"
proof -
  let ?s = "if length (pa_values a) > NUM_SAMPLES then sample_of a else a"
  have s: "pa_wf ?s" "length (pa_values ?s) \<le> 2 ^ 64" using assms(3,4) sample_of_ok [of a] by auto
  have "exponents_ok T \<lparr>exp_e = 0, exp_f = 0\<rparr>" using assms(2) by (simp add: exponents_ok_def float_type_ok_def)
  then obtain ex where "get_best_exponents F T memory_size a = Some ex" "exponents_ok T ex"
    using best_loop_ok [OF assms(1,2) s, of "exponent_choices (ft_max_exponent T)"] exponent_choices_ok [OF assms(2)]
    unfolding get_best_exponents_def by blast
  then show ?thesis using encode_arrow_array_ok [OF assms(1,2) _ assms(3,4)] by (simp add: float_from_arrow_array_def)
qed

section \<open>The serialized form reads back\<close>

lemma align8_mod: "align8 n mod 8 = 0"
  by (simp add: align8_def)

lemma float_bytes_roundtrip:
  fixes la :: "'w::len word liquid_float_array"
  assumes "float_encodes F T la a" and "float_type_ok T" and "fits_u32 (lf_bit_packed la)"
  shows "\<exists>bp. from_bytes (to_bytes (lf_bit_packed la)) = Some bp
    \<and> float_from_bytes T (float_to_bytes_inner T la) = Some (la\<lparr>lf_bit_packed := bp\<rparr>)"
proof -
  let ?bp = "lf_bit_packed la" and ?ref = "lf_reference_value la" and ?k = "size_of TYPE('w)"
  let ?idxs = "lf_patch_indices la" and ?vals = "lf_patch_values la"
  have bits: "8 dvd LENGTH('w)" using assms(2) by (simp add: float_type_ok_def)
  then have k: "LENGTH('w) = 8 * ?k" by (simp add: size_of_def)
  have ok: "bp_ok ?bp" "length ?idxs = length ?vals" and il: "length ?idxs < 2 ^ 64"
    using assms(1,3) by (simp_all add: float_encodes_def fits_u32_def)
  obtain bp :: "'w word bit_packed_array" where bp: "from_bytes (to_bytes ?bp) = Some bp" using from_bytes_value [OF ok(1) assms(3) bits] by blast
  define h where "h = ipc_header_to_bytes (ipc_header_new LIQUID_FLOAT (get_physical_type_id (ft_physical T)))"
  define loc where "loc = exponents_loc TYPE('w)"
  define pad where "pad = replicate (loc - (16 + ?k)) (0 :: u8)"
  define es where "es = [exp_e (lf_exponent la), exp_f (lf_exponent la)] @ replicate 6 (0 :: u8)"
  define pl where "pl = le_bytes 8 (of_nat (length ?idxs) :: u64)"
  define pt where "pt = words_bytes ?idxs @ words_bytes ?vals"
  define front where "front = h @ le_bytes ?k ?ref @ pad @ es @ pl @ pt"
  define pad2 where "pad2 = replicate (align8 (length front) - length front) (0 :: u8)"
  have h: "length h = 16" by (simp add: h_def)
  have st: "16 + ?k \<le> loc" by (simp add: loc_def exponents_loc_def align8_ge)
  have pt': "(if ?idxs \<noteq> [] then words_bytes ?idxs @ words_bytes (take (length ?idxs) ?vals) else []) = pt"
    using ok(2) by (cases "lf_patch_indices la") (auto simp: pt_def words_bytes_def)
  have bs: "float_to_bytes_inner T la = front @ pad2 @ to_bytes ?bp"
    unfolding float_to_bytes_inner_def Let_def pt' by (simp add: front_def pad2_def h_def pad_def loc_def es_def pl_def)
  have lens: "length es = 8" "length pl = 8" "length pt = length ?idxs * 8 + length ?idxs * ?k"
    using ok(2) by (simp_all add: es_def pl_def pt_def size_of_def)
  have lf: "length front = loc + 16 + length ?idxs * 8 + length ?idxs * ?k" using h st lens by (simp add: front_def pad_def)
  let ?bs = "front @ pad2 @ to_bytes ?bp"
  have "ipc_header_from_bytes ?bs = Some (ipc_header_new LIQUID_FLOAT (get_physical_type_id (ft_physical T)))"
    using header_roundtrip [of LIQUID_FLOAT "get_physical_type_id (ft_physical T)"] by (simp add: front_def h_def)
  moreover have "take ?k (drop 16 ?bs) = le_bytes ?k ?ref" using h by (simp add: front_def)
  moreover have d: "drop loc ?bs = es @ pl @ pt @ pad2 @ to_bytes ?bp" using h st by (simp add: front_def pad_def)
  have drop_loc: "drop (loc + j) ?bs = drop j (drop loc ?bs)" "drop (loc + j + i) ?bs = drop i (drop j (drop loc ?bs))" for j i
    unfolding drop_drop by (simp_all only: ac_simps)
  have d8: "drop (loc + 8) ?bs = pl @ pt @ pad2 @ to_bytes ?bp" and d16: "drop (loc + 16) ?bs = pt @ pad2 @ to_bytes ?bp"
    and dv: "drop (loc + 16 + length ?idxs * 8) ?bs = words_bytes ?vals @ pad2 @ to_bytes ?bp"
    unfolding drop_loc d using lens(1,2) by (simp_all add: pt_def size_of_def)
  have cnt: "unat (of_le_bytes (take 8 (drop (loc + 8) ?bs)) :: u64) = length ?idxs"
    unfolding d8 using il lens(2) by (simp add: pl_def of_le_bytes_le_bytes unat_of_nat)
  have e: "?bs ! loc = exp_e (lf_exponent la)" "?bs ! (loc + 1) = exp_f (lf_exponent la)"
    using d lens(1) nth_drop [of loc ?bs 0] nth_drop [of loc ?bs 1] lf by (simp_all add: es_def)
  have nl: "(if length ?idxs > 0 then loc + 16 + length ?idxs * 8 + length ?idxs * ?k else loc + 16) = length front" using lf by simp
  have dl: "drop (align8 (length front)) ?bs = to_bytes ?bp" using align8_ge [of "length front"] by (simp add: pad2_def)
  have ix: "bytes_words (length ?idxs) (take (length ?idxs * 8) (drop (loc + 16) ?bs)) = ?idxs"
    unfolding d16 using bytes_words_of_words [of ?idxs] by (simp add: pt_def size_of_def)
  have vl: "bytes_words (length ?idxs) (take (length ?idxs * ?k) (drop (loc + 16 + length ?idxs * 8) ?bs)) = ?vals"
    unfolding dv using bytes_words_of_words [OF bits, of ?vals] ok(2) by simp
  have len: "\<not> length ?bs < loc + 16" "\<not> (length ?bs < length front \<or> length ?bs < align8 (length front))"
    using lf align8_ge [of "length front"] by (simp_all add: pad2_def)
  ultimately have "float_from_bytes T ?bs = Some (la\<lparr>lf_bit_packed := bp\<rparr>)"
    unfolding float_from_bytes_def Let_def loc_def [symmetric] cnt nl ix vl dl e bp
    using len by (simp add: ipc_header_new_def of_le_bytes_le_bytes [OF k])
  then show ?thesis using bp bs by simp
qed

lemma float_items_reread:
  fixes la :: "'w::len word liquid_float_array"
  assumes la: "float_encodes F T la a" and T: "float_type_ok T" and fit: "fits_u32 (lf_bit_packed la)"
    and bp: "from_bytes (to_bytes (lf_bit_packed la)) = Some bp" and b: "float_to_arrow_array F T la = Some b"
  shows "\<exists>b'. float_to_arrow_array F T (la\<lparr>lf_bit_packed := bp\<rparr>) = Some b' \<and> pa_items b' = pa_items b"
proof -
  let ?la = "la\<lparr>lf_bit_packed := bp\<rparr>" and ?n = "length (pa_values a)"
  let ?g = "\<lambda>v. the (decode_single T (lf_exponent la) (v + lf_reference_value la))"
  have ok: "bp_ok (lf_bit_packed la)" "bp_original_len (lf_bit_packed la) = ?n" "exponents_ok T (lf_exponent la)"
    "\<forall>i \<in> set (lf_patch_indices la). unat i < ?n" "length (lf_patch_indices la) = length (lf_patch_values la)"
    using la by (simp_all add: float_encodes_def)
  obtain u where u: "to_primitive F (lf_bit_packed la) = Some u" "length (pa_values u) = ?n" using la by (auto simp: float_encodes_def)
  obtain u' where u': "bp_ok bp" "bp_original_len bp = ?n" "to_primitive F bp = Some u'" "length (pa_values u') = ?n" "pa_items u' = pa_items u"
    using from_bytes_items [OF ok(1) fit _ u(1)] u(2) ok(2) T bp by (auto simp: float_type_ok_def)
  obtain ys where ys: "apply_patches (lf_patch_indices la) (lf_patch_values la) (map ?g (pa_values u)) = Some ys" "length ys = ?n"
    using apply_patches_total [of "lf_patch_indices la" "map ?g (pa_values u)"] ok(4,5) u(2) by auto
  obtain zs where zs: "apply_patches (lf_patch_indices la) (lf_patch_values la) (map ?g (pa_values u')) = Some zs" "length zs = ?n"
    using apply_patches_total [of "lf_patch_indices la" "map ?g (pa_values u')"] ok(4,5) u'(4) by auto
  have b1: "b = \<lparr>pa_values = ys, pa_nulls = bp_nulls (lf_bit_packed la)\<rparr>"
    using float_to_arrow_eq [OF ok(3) u(1)] ys(1) b by simp
  have b2: "float_to_arrow_array F T ?la = Some \<lparr>pa_values = zs, pa_nulls = bp_nulls bp\<rparr>"
    using float_to_arrow_eq [of T ?la F u'] ok(3) u'(3) zs(1) by simp
  have v: "valid_at (bp_nulls bp) i = valid_at (bp_nulls (lf_bit_packed la)) i"
    and w: "valid_at (bp_nulls bp) i \<Longrightarrow> pa_values u' ! i = pa_values u ! i" if "i < ?n" for i
  proof -
    have "pa_items u' ! i = pa_items u ! i" using u'(5) by simp
    then have "valid_at (pa_nulls u') i = valid_at (pa_nulls u) i \<and> (valid_at (pa_nulls u) i \<longrightarrow> pa_values u' ! i = pa_values u ! i)"
      using that u(2) u'(4) by (simp add: pa_items_def split: if_split_asm)
    then show "valid_at (bp_nulls bp) i = valid_at (bp_nulls (lf_bit_packed la)) i"
      "valid_at (bp_nulls bp) i \<Longrightarrow> pa_values u' ! i = pa_values u ! i"
      using valid_at_to_primitive [OF u'(1,3), of i] valid_at_to_primitive [OF ok(1) u(1), of i] that u'(2) ok(2) by auto
  qed
  have "zs ! i = ys ! i" if "i < ?n" "valid_at (bp_nulls bp) i" for i
    by (rule apply_patches_cong [OF ys(1) zs(1)]) (use that u(2) u'(4) w in simp_all)
  then show ?thesis using b1 b2 v ys(2) zs(2) by (auto simp: pa_items_def)
qed

section \<open>Double precision\<close>

text \<open>The binary form of a double; a zero result is written with a positive sign.\<close>

definition f64_of_bits :: "u64 \<Rightarrow> f64" where
  "f64_of_bits w =
     (let biased = unat (take_bit 11 (drop_bit 52 w)); frac = uint (take_bit 52 w);
          m = (if biased = 0 then frac else frac + 2 ^ 52);
          e = (if biased = 0 then - 1074 else int biased - 1075);
          v = of_int m * 2 powi e
      in if biased = 2047 then (if frac \<noteq> 0 then NaN else if bit w 63 then NegInf else PosInf)
         else Fin (if bit w 63 then - v else v))"

fun f64_to_bits :: "f64 \<Rightarrow> u64" where
  "f64_to_bits NaN = 0x7FF8000000000000"
| "f64_to_bits PosInf = 0x7FF0000000000000"
| "f64_to_bits NegInf = 0xFFF0000000000000"
| "f64_to_bits (Fin x) =
     (if x = 0 then 0
      else
        (let e = last_place \<bar>x\<bar>; m = \<lfloor>\<bar>x\<bar> / 2 powi e\<rfloor>;
             mag = (if m < 2 ^ 52 then m else (e + 1075) * 2 ^ 52 + (m - 2 ^ 52))
         in word_of_int (if x < 0 then mag + 2 ^ 63 else mag)))"

fun f64_lt :: "f64 \<Rightarrow> f64 \<Rightarrow> bool" where
  "f64_lt NaN _ = False"
| "f64_lt _ NaN = False"
| "f64_lt PosInf _ = False"
| "f64_lt _ NegInf = False"
| "f64_lt NegInf _ = True"
| "f64_lt _ PosInf = True"
| "f64_lt (Fin x) (Fin y) = (x < y)"

definition f64_eq :: "f64 \<Rightarrow> f64 \<Rightarrow> bool" where
  "f64_eq x y \<longleftrightarrow> x = y \<and> x \<noteq> NaN"

definition float64_type :: "u64 float_type" where
  "float64_type = \<lparr>ft_physical = P_Float64, ft_sweet = f64_to_bits (fl64 (2 ^ 52 + 2 ^ 51)), ft_max_exponent = 18,
     ft_F10 = map (\<lambda>i. f64_to_bits (fl64 (10 ^ i))) [0..<24], ft_IF10 = map (\<lambda>i. f64_to_bits (fl64 (1 / 10 ^ i))) [0..<24],
     ft_add = (\<lambda>x y. f64_to_bits (f64_add (f64_of_bits x) (f64_of_bits y))),
     ft_sub = (\<lambda>x y. f64_to_bits (f64_sub (f64_of_bits x) (f64_of_bits y))),
     ft_mul = (\<lambda>x y. f64_to_bits (f64_mul (f64_of_bits x) (f64_of_bits y))),
     ft_as_signed = (\<lambda>x. word_of_int (f64_as_int (- (2 ^ 63)) (2 ^ 63 - 1) (f64_of_bits x))),
     ft_of_signed = (\<lambda>x. f64_to_bits (fl64 (of_int (sint x)))),
     ft_eq = (\<lambda>x y. f64_eq (f64_of_bits x) (f64_of_bits y)),
     ft_lt = (\<lambda>x y. f64_lt (f64_of_bits x) (f64_of_bits y)),
     ft_le = (\<lambda>x y. f64_lt (f64_of_bits x) (f64_of_bits y) \<or> f64_eq (f64_of_bits x) (f64_of_bits y)),
     ft_of_literal = (\<lambda>v. case v of SV_Integer k \<Rightarrow> Some (f64_to_bits (fl64 (of_int k))) | _ \<Rightarrow> None)\<rparr>"

lemma float64_type_ok: "float_type_ok float64_type"
  by (simp add: float_type_ok_def float64_type_def)

lemma float64_tables [simp]:
  "length (ft_F10 float64_type) = 24" "length (ft_IF10 float64_type) = 24"
  by (simp_all add: float64_type_def)

text \<open>
  One decimal digit. Each step of the arithmetic is evaluated on its own: \<open>scaled\<close> is the product
  before rounding, \<open>nearest\<close> is \<open>fast_round\<close> and \<open>tenth\<close> is \<open>decode_single\<close>.
\<close>

definition tenths :: exponents where "tenths = \<lparr>exp_e = 1, exp_f = 0\<rparr>"

definition scaled :: "u64 \<Rightarrow> u64" where
  "scaled v = ft_mul float64_type (ft_mul float64_type v (f64_to_bits (fl64 10))) (f64_to_bits (fl64 1))"

definition nearest :: "u64 \<Rightarrow> int" where
  "nearest v = (let sweet = f64_to_bits (fl64 (2 ^ 52 + 2 ^ 51)) in
     f64_as_int (- (2 ^ 63)) (2 ^ 63 - 1) (f64_of_bits (f64_to_bits (f64_sub (f64_of_bits (f64_to_bits
       (f64_add (f64_of_bits v) (f64_of_bits sweet)))) (f64_of_bits sweet)))))"

definition tenth :: "int \<Rightarrow> u64" where
  "tenth k = f64_to_bits (f64_mul (f64_of_bits (f64_to_bits (f64_mul (f64_of_bits (f64_to_bits (fl64 (of_int k))))
     (f64_of_bits (f64_to_bits (fl64 1)))))) (f64_of_bits (f64_to_bits (fl64 (1 / 10)))))"

lemma scaled_eq [code]: "scaled v = f64_to_bits (f64_mul (f64_of_bits (f64_to_bits (f64_mul (f64_of_bits v)
    (f64_of_bits (f64_to_bits (fl64 10)))))) (f64_of_bits (f64_to_bits (fl64 1))))"
  by (simp add: scaled_def float64_type_def)

lemma single_tenths:
  "decode_single float64_type tenths v = Some (tenth (sint v))"
  "encode_single_unchecked float64_type tenths x = Some (word_of_int (nearest (scaled x)))"
  by (simp_all add: decode_single_def encode_single_unchecked_def fast_round_def tenths_def table_at_def float64_type_def
      tenth_def scaled_eq nearest_def Let_def)

text \<open>The column 2.5, 20.0; its integers are 25 and 200.\<close>

definition sample_floats :: "u64 prim_array" where
  "sample_floats = \<lparr>pa_values = [0x4004000000000000, 0x4034000000000000], pa_nulls = None\<rparr>"

lemma sample_scaled: "scaled 0x4004000000000000 = 0x4039000000000000" "scaled 0x4034000000000000 = 0x4069000000000000"
  by code_simp+

lemma sample_nearest: "nearest 0x4039000000000000 = 25" "nearest 0x4069000000000000 = 200"
  by code_simp+

lemma sample_tenth: "tenth 25 = 0x4004000000000000" "tenth 200 = 0x4034000000000000"
  by code_simp+

lemma sample_outside:
  "f64_lt (f64_of_bits (tenth 41)) (f64_of_bits (f64_to_bits (fl64 20)))"
  "f64_lt (f64_of_bits (f64_to_bits (fl64 20))) (f64_of_bits (tenth 201))"
  by code_simp+

definition sample_liquid_floats :: "u64 fastlanes \<Rightarrow> u64 liquid_float_array" where
  "sample_liquid_floats F = \<lparr>lf_exponent = tenths, lf_bit_packed = from_primitive F \<lparr>pa_values = [0, 175], pa_nulls = None\<rparr> 8,
     lf_patch_indices = [], lf_patch_values = [], lf_reference_value = 25\<rparr>"

lemma sample_bit_width: "get_bit_width 175 = 8"
  by code_simp

lemma float64_eq: "ft_eq float64_type x y = f64_eq (f64_of_bits x) (f64_of_bits y)"
  by (simp add: float64_type_def)

lemma sample_floats_encoded: "encode_arrow_array F float64_type sample_floats tenths = Some (sample_liquid_floats F)"
proof -
  have "f64_of_bits 0x4004000000000000 \<noteq> NaN" "f64_of_bits 0x4034000000000000 \<noteq> NaN" by code_simp+
  then show ?thesis
    by (simp add: encode_arrow_array_def sample_floats_def sample_liquid_floats_def arrow_null_count_def single_tenths sample_scaled
        sample_nearest sample_tenth float64_eq f64_eq_def replace_patched_def signed_min_def signed_max_def sample_bit_width)
qed

text \<open>The buckets start at 16 and 192, not at 25 and 201 where the bounds are taken.\<close>

definition sample_squeezed_floats :: "u64 fastlanes \<Rightarrow> u64 float_quantized_array" where
  "sample_squeezed_floats F = \<lparr>fq_exponent = tenths, fq_quantized = from_primitive F \<lparr>pa_values = [0, 11], pa_nulls = None\<rparr> 4,
     fq_reference_value = 25, fq_bucket_width = 4, fq_patch_indices = [], fq_patch_values = []\<rparr>"

lemma sample_take_bit: "take_bit 8 (175 :: u64) = 175" "take_bit 4 (11 :: u64) = 11"
  by code_simp+

lemma sample_buckets: "float_bucket 4 25 (0 :: u64) = 0" "float_bucket 4 25 (175 :: u64) = 11"
  by (simp add: float_bucket_def) code_simp

lemma sample_floats_squeezed:
  assumes "fastlanes_ok F"
  shows "float_squeeze F float64_type (sample_liquid_floats F)
    = Some (Some (sample_squeezed_floats F, float_to_bytes_inner float64_type (sample_liquid_floats F)))"
proof -
  have "bp_bit_width (lf_bit_packed (sample_liquid_floats F)) = Some 8" by (simp add: sample_liquid_floats_def from_primitive_def Let_def)
  moreover have "to_primitive F (lf_bit_packed (sample_liquid_floats F)) = Some \<lparr>pa_values = [0, 175], pa_nulls = None\<rparr>"
    using to_primitive_from_primitive [OF assms, of 8] by (simp add: sample_liquid_floats_def sample_take_bit)
  ultimately show ?thesis
    by (simp add: float_squeeze_def Let_def) (simp add: sample_squeezed_floats_def sample_liquid_floats_def sample_buckets)
qed

lemma sample_bucket_answers:
  "bucket_bounds_answer float64_type tenths 25 4 Op_Eq (f64_to_bits (fl64 20)) 0 = Some (Some False)"
  "bucket_bounds_answer float64_type tenths 25 4 Op_Eq (f64_to_bits (fl64 20)) 11 = Some (Some False)"
proof -
  have "ft_lt float64_type x y = f64_lt (f64_of_bits x) (f64_of_bits y)" for x y by (simp add: float64_type_def)
  then show "bucket_bounds_answer float64_type tenths 25 4 Op_Eq (f64_to_bits (fl64 20)) 0 = Some (Some False)"
    "bucket_bounds_answer float64_type tenths 25 4 Op_Eq (f64_to_bits (fl64 20)) 11 = Some (Some False)"
    using sample_outside by (simp_all add: bucket_bounds_answer_def single_tenths push_bit_eq_mult)
qed

lemma sample_floats_answer:
  fixes F :: "u64 fastlanes"
  assumes F: "fastlanes_ok F" and K: "kernels_ok K"
  shows "\<exists>m. float_try_eval_predicate K F float64_type C (sample_squeezed_floats F) [True, True]
      (PE_Binary column DF_Eq (PE_Literal (SV_Integer 20))) disk = Some (Some m) \<and> ba_items m = [Some False, Some False]"
proof -
  let ?a = "\<lparr>pa_values = [0, 11], pa_nulls = None\<rparr> :: u64 prim_array"
  define b where "b = ak_filter K ?a [True, True]"
  have "pa_wf ?a" by (simp add: pa_wf_def nulls_fit_def)
  then have "pa_items b = filter_items (pa_items ?a) [True, True]" using K unfolding kernels_ok_def b_def by simp
  then have items: "pa_items b = [Some 0, Some 11]" by (simp add: pa_items_def valid_at_def filter_items_def)
  then have "length (pa_values b) = 2" by (metis length_map length_upt minus_nat.diff_0 pa_items_def length_Cons list.size(3) Suc_1 One_nat_def)
  with items have b: "pa_values b = [0, 11]" "valid_at (pa_nulls b) 0" "valid_at (pa_nulls b) (Suc 0)"
    by (auto simp: pa_items_def numeral_2_eq_2 length_Suc_conv split: if_split_asm)
  have t: "to_primitive F (from_primitive F ?a 4) = Some ?a" "to_primitive F (from_primitive F b 4) = Some b"
    using to_primitive_from_primitive [OF F, of 4] b(1) by (simp_all add: sample_take_bit)
  have n: "bp_nulls (from_primitive F b 4) = pa_nulls b" "bp_bit_width (from_primitive F ?a 4) = Some 4"
    by (simp_all add: from_primitive_def Let_def)
  have f: "float_filter_inner K F (sample_squeezed_floats F) [True, True]
      = Some ((sample_squeezed_floats F)\<lparr>fq_quantized := from_primitive F b 4\<rparr>)"
    using t(1) n(2) by (simp add: float_filter_inner_def sample_squeezed_floats_def b_def)
  have l: "ft_of_literal float64_type (SV_Integer 20) = Some (f64_to_bits (fl64 20))" by (simp add: float64_type_def)
  have "float_try_eval F float64_type ((sample_squeezed_floats F)\<lparr>fq_quantized := from_primitive F b 4\<rparr>) Op_Eq (SV_Integer 20)
      = Mask \<lparr>ba_values = [False, False], ba_nulls = pa_nulls b\<rparr>"
    by (simp add: float_try_eval_def l t n b sample_squeezed_floats_def sample_bucket_answers)
  then show ?thesis using f b by (simp add: float_try_eval_predicate_def ba_items_def pa_items_def)
qed

lemma sample_floats_decoded:
  assumes "fastlanes_ok F"
  shows "\<exists>b. float_to_arrow_array F float64_type (sample_liquid_floats F) = Some b
    \<and> pa_items b = [Some 0x4004000000000000, Some 0x4034000000000000]"
proof -
  have "to_primitive F (lf_bit_packed (sample_liquid_floats F)) = Some \<lparr>pa_values = [0, 175], pa_nulls = None\<rparr>"
    using to_primitive_from_primitive [OF assms, of 8] by (simp add: sample_liquid_floats_def sample_take_bit)
  moreover have "bp_nulls (lf_bit_packed (sample_liquid_floats F)) = None" by (simp add: sample_liquid_floats_def from_primitive_def Let_def)
  ultimately show ?thesis
    by (simp add: float_to_arrow_array_def pa_items_def valid_at_def) (simp add: sample_liquid_floats_def single_tenths sample_tenth)
qed

lemma sample_literal: "ft_of_literal float64_type (SV_Integer 20) = Some 0x4034000000000000"
proof -
  have "f64_to_bits (fl64 20) = 0x4034000000000000" by code_simp
  then show ?thesis by (simp add: float64_type_def)
qed

lemma float_squeeze_bytes: "float_squeeze F T la = Some (Some (q, bs)) \<Longrightarrow> bs = float_to_bytes_inner T la"
  by (auto simp: float_squeeze_def Let_def bind_eq_Some_conv split: option.splits if_split_asm)

end
