(* ===== verification/FloatBits.thy ===== *)
theory FloatBits
  imports FloatArray
begin

text \<open>
  The binary form of a double-precision number reads back: every result of rounding, and so of the
  arithmetic, is a number with 53 significant bits, and \<open>f64_of_bits\<close> inverts \<open>f64_to_bits\<close> on those.
\<close>

section \<open>The last place\<close>

lemma powi_mono_rat: "i \<le> j \<Longrightarrow> (2 :: rat) powi i \<le> 2 powi j"
  by (simp add: power_int_increasing)

lemma bitlen_rat:
  assumes "(x :: rat) > 0" and "quotient_of x = (a, b)"
  shows "2 powi (bitlen a - bitlen b - 1) < x" and "x < 2 powi (bitlen a - bitlen b + 1)"
proof -
  have ab: "x = of_int a / of_int b" "b > 0" using assms(2) quotient_of_div quotient_of_denom_pos by blast+
  then have a: "a > 0" using assms(1) by (simp add: zero_less_divide_iff)
  let ?p = "\<lambda>k. (2 :: rat) powi k"
  have bounds: "?p (bitlen k - 1) \<le> of_int k" "of_int k < ?p (bitlen k)" if "k > 0" for k :: int
  proof -
    have "1 \<le> bitlen k" using that by (simp add: bitlen_alt_def)
    then have "?p (bitlen k - 1) = of_int (2 ^ nat (bitlen k - 1))" "?p (bitlen k) = of_int (2 ^ nat (bitlen k))"
      by (simp_all add: power_int_def)
    then show "?p (bitlen k - 1) \<le> of_int k" "of_int k < ?p (bitlen k)"
      using bitlen_bounds [OF that] by (simp_all only: of_int_le_iff of_int_less_iff)
  qed
  have split: "?p (bitlen a - bitlen b - 1) = ?p (bitlen a - 1) / ?p (bitlen b)" "?p (bitlen a - bitlen b + 1) = ?p (bitlen a) / ?p (bitlen b - 1)"
    by (simp_all flip: power_int_diff add: algebra_simps)
  have pos: "0 < (of_int b :: rat)" "0 < (of_int a :: rat)" using a ab(2) by simp_all
  have "?p (bitlen a - 1) * of_int b < of_int a * ?p (bitlen b)"
    using mult_le_less_imp_less [OF bounds(1) [OF a] bounds(2) [OF ab(2)]] pos by simp
  then show "?p (bitlen a - bitlen b - 1) < x" unfolding split ab(1) using pos by (simp add: frac_less_eq divide_less_eq less_divide_eq mult.commute)
  have "of_int a * ?p (bitlen b - 1) < ?p (bitlen a) * of_int b"
    using mult_less_le_imp_less [OF bounds(2) [OF a] bounds(1) [OF ab(2)]] pos by simp
  then show "x < ?p (bitlen a - bitlen b + 1)" unfolding split ab(1) using pos by (simp add: divide_less_eq less_divide_eq mult.commute)
qed

lemma last_place_bounds:
  assumes "x > 0"
  shows "x < 2 ^ 53 * 2 powi last_place x" and "last_place x \<ge> - 1074" and "last_place x = - 1074 \<or> 2 ^ 52 * 2 powi last_place x \<le> x"
proof -
  obtain a b where q: "quotient_of x = (a, b)" by fastforce
  define s where "s = bitlen a - bitlen b"
  define e where "e = (if x < 2 powi s then s - 53 else s - 52)"
  have e: "last_place x = max e (- 1074)" by (simp add: last_place_def q s_def e_def)
  note xs = bitlen_rat [OF assms q, folded s_def]
  have p: "2 ^ k * 2 powi j = (2 :: rat) powi (int k + j)" for k :: nat and j by (simp add: power_int_add)
  have lo: "2 powi (52 + e) \<le> x" and hi: "x < 2 powi (53 + e)"
    using xs by (auto simp: e_def add.commute not_less)
  show "last_place x \<ge> - 1074" by (simp add: e)
  have "(2 :: rat) powi (53 + e) \<le> 2 powi (53 + last_place x)" by (simp add: e powi_mono_rat)
  with hi show "x < 2 ^ 53 * 2 powi last_place x" unfolding p by simp
  show "last_place x = - 1074 \<or> 2 ^ 52 * 2 powi last_place x \<le> x"
    using lo unfolding p by (auto simp: e max_def)
qed

lemma last_place_unique:
  assumes "x > 0" and "x < 2 ^ 53 * 2 powi e" and "e \<ge> - 1074" and "e = - 1074 \<or> 2 ^ 52 * 2 powi e \<le> x"
  shows "last_place x = e"
proof -
  note b = last_place_bounds [OF assms(1)]
  have p: "2 ^ k * 2 powi j = (2 :: rat) powi (int k + j)" for k :: nat and j by (simp add: power_int_add)
  have "i \<le> j" if "i = - 1074 \<or> 2 ^ 52 * 2 powi i \<le> x" "x < 2 ^ 53 * 2 powi j" "j \<ge> - 1074" for i j
  proof (rule ccontr)
    assume "\<not> i \<le> j"
    then have "2 powi (52 + i) \<le> x" "53 + j \<le> 52 + i" using that unfolding p by auto
    then have "(2 :: rat) powi (53 + j) \<le> x" using powi_mono_rat order_trans by blast
    then show False using that(2) unfolding p by simp
  qed
  from this [OF b(3) assms(2,3)] this [OF assms(4) b(1,2)] show ?thesis by simp
qed

section \<open>Rounded numbers\<close>

text \<open>The numbers with 53 significant bits within the range of the exponents.\<close>

definition scaled_int :: "rat \<Rightarrow> int \<Rightarrow> int \<Rightarrow> bool" where
  "scaled_int x m e \<longleftrightarrow> x = of_int m * 2 powi e \<and> 0 < m \<and> m < 2 ^ 53 \<and> - 1074 \<le> e \<and> e \<le> 971 \<and> (e = - 1074 \<or> 2 ^ 52 \<le> m)"

definition f64_ok :: "f64 \<Rightarrow> bool" where
  "f64_ok x \<longleftrightarrow> (case x of Fin r \<Rightarrow> r = 0 \<or> (\<exists>m e. scaled_int \<bar>r\<bar> m e) | _ \<Rightarrow> True)"

lemma round_half_even_bounds:
  assumes "of_int a \<le> x" and "x < of_int b"
  shows "a \<le> round_half_even x" and "round_half_even x \<le> b"
proof -
  have "a \<le> \<lfloor>x\<rfloor>" using assms(1) by (simp add: le_floor_iff)
  moreover have "\<lfloor>x\<rfloor> < b" using assms(2) by (simp add: floor_less_iff)
  ultimately show "a \<le> round_half_even x" "round_half_even x \<le> b" by (auto simp: round_half_even_def Let_def)
qed

lemma fl64_ok: "f64_ok (fl64 x)"
proof (cases "x = 0")
  case False
  define e where "e = last_place \<bar>x\<bar>"
  define m where "m = round_half_even (\<bar>x\<bar> / 2 powi e)"
  have pos: "\<bar>x\<bar> > 0" using False by simp
  note b = last_place_bounds [OF pos, folded e_def]
  have "\<bar>x\<bar> / 2 powi e < of_int (2 ^ 53)" using b(1) by (simp add: divide_less_eq)
  moreover have "of_int 0 \<le> \<bar>x\<bar> / 2 powi e" by simp
  ultimately have m: "0 \<le> m" "m \<le> 2 ^ 53" using round_half_even_bounds unfolding m_def by blast+
  have m52: "2 ^ 52 \<le> m" if "e \<noteq> - 1074"
  proof -
    have "of_int (2 ^ 52) \<le> \<bar>x\<bar> / 2 powi e" using b(3) that by (simp add: le_divide_eq)
    then show ?thesis using \<open>\<bar>x\<bar> / 2 powi e < of_int (2 ^ 53)\<close> round_half_even_bounds(1) unfolding m_def by blast
  qed
  show ?thesis
  proof (cases "e > 971 \<or> (e = 971 \<and> m = 9007199254740992)")
    case True
    then show ?thesis unfolding fl64_def Let_def e_def [symmetric] m_def [symmetric] using False by (simp add: f64_ok_def)
  next
    case fin: False
    have r: "fl64 x = Fin (if x > 0 then of_int m * 2 powi e else - (of_int m * 2 powi e))"
      unfolding fl64_def Let_def e_def [symmetric] m_def [symmetric] using False fin by simp
    consider "m = 0" | "m = 2 ^ 53" | "0 < m" "m < 2 ^ 53" using m by linarith
    then have "m = 0 \<or> (\<exists>m' e'. scaled_int (of_int m * 2 powi e) m' e')"
    proof cases
      case 2
      then have "scaled_int (of_int m * 2 powi e) (2 ^ 52) (e + 1)"
        using fin b(2) by (simp add: scaled_int_def power_int_add)
      then show ?thesis by blast
    next
      case 3
      then have "scaled_int (of_int m * 2 powi e) m e" using fin b(2) m52 by (auto simp: scaled_int_def)
      then show ?thesis by blast
    qed simp
    then show ?thesis using m(1) by (auto simp: r f64_ok_def abs_mult)
  qed
qed (simp add: fl64_def f64_ok_def)

lemma f64_inf_ok: "f64_ok (f64_inf s)"
  by (simp add: f64_inf_def f64_ok_def)

lemma f64_mul_ok: "f64_ok (f64_mul x y)"
  by (cases x; cases y) (simp_all add: fl64_ok f64_inf_ok, simp_all add: f64_ok_def)

section \<open>Reading the bits back\<close>

lemma scaled_int_last_place:
  assumes "scaled_int x m e"
  shows "last_place x = e" and "\<lfloor>x / 2 powi e\<rfloor> = m"
proof -
  have "0 < x" "x < 2 ^ 53 * 2 powi e" "e = - 1074 \<or> 2 ^ 52 * 2 powi e \<le> x"
    using assms by (auto simp: scaled_int_def)
  then show "last_place x = e" using assms by (intro last_place_unique) (auto simp: scaled_int_def)
  show "\<lfloor>x / 2 powi e\<rfloor> = m" using assms by (simp add: scaled_int_def)
qed

lemma f64_bits_fields:
  fixes b k :: int and neg :: bool
  assumes "0 \<le> b" and "b < 2 ^ 11" and "0 \<le> k" and "k < 2 ^ 52"
  defines "w \<equiv> word_of_int (if neg then b * 2 ^ 52 + k + 2 ^ 63 else b * 2 ^ 52 + k) :: u64"
  shows "unat (take_bit 11 (drop_bit 52 w)) = nat b" and "uint (take_bit 52 w) = k" and "bit w 63 = neg"
proof -
  define v where "v = (if neg then b * 2 ^ 52 + k + 2 ^ 63 else b * 2 ^ 52 + k)"
  have "b * 2 ^ 52 + k < 2 ^ 63" using assms(2,4) by simp
  then have "0 \<le> v" "v < 2 ^ 64" using assms(1,3) by (auto simp: v_def)
  then have u: "uint w = v" by (simp add: w_def v_def [symmetric] uint_word_of_int take_bit_int_eq_self)
  define c where "c = b + (if neg then 2 ^ 11 else 0)"
  have vb: "v = k + c * 2 ^ 52" by (simp add: v_def c_def)
  have d: "v div 2 ^ 52 = c" and r: "v mod 2 ^ 52 = k"
    using assms(3,4) unfolding vb by simp_all
  have "uint (take_bit 11 (drop_bit 52 w)) = (v div 2 ^ 52) mod 2 ^ 11"
    unfolding unsigned_take_bit_eq unsigned_drop_bit_eq u using \<open>0 \<le> v\<close> \<open>v < 2 ^ 64\<close>
    by (simp add: drop_bit_eq_div take_bit_eq_mod)
  also have "\<dots> = b" unfolding d c_def using assms(1,2) by auto
  finally show "unat (take_bit 11 (drop_bit 52 w)) = nat b" by (metis nat_uint_eq)
  show "uint (take_bit 52 w) = k" unfolding unsigned_take_bit_eq u using r by (simp add: take_bit_eq_mod)
  have "bit w 63 = bit (uint w) 63" by (simp add: bit_uint_iff)
  also have "\<dots> = odd (v div 2 ^ 63)" unfolding u by (simp add: bit_iff_odd)
  also have "\<dots> = neg" using \<open>b * 2 ^ 52 + k < 2 ^ 63\<close> assms(1,3) by (auto simp: v_def)
  finally show "bit w 63 = neg" .
qed

lemma f64_special_bits:
  "f64_of_bits 0x7FF8000000000000 = NaN" "f64_of_bits 0x7FF0000000000000 = PosInf" "f64_of_bits 0xFFF0000000000000 = NegInf"
  by code_simp+

lemma f64_of_bits_to_bits: "f64_ok x \<Longrightarrow> f64_of_bits (f64_to_bits x) = x"
proof (cases x)
  case (Fin r)
  assume ok: "f64_ok x"
  show ?thesis
  proof (cases "r = 0")
    case True
    then show ?thesis using Fin by (simp add: f64_of_bits_def)
  next
    case False
    then obtain m e where me: "scaled_int \<bar>r\<bar> m e" using ok Fin by (auto simp: f64_ok_def)
    note lp = scaled_int_last_place [OF me]
    define b where "b = (if m < 2 ^ 52 then 0 else e + 1075)"
    define k where "k = (if m < 2 ^ 52 then m else m - 2 ^ 52)"
    have bk: "0 \<le> b" "b < 2047" "0 \<le> k" "k < 2 ^ 52" "b = 0 \<longleftrightarrow> m < 2 ^ 52" using me by (auto simp: b_def k_def scaled_int_def)
    have w: "f64_to_bits x = word_of_int (if r < 0 then b * 2 ^ 52 + k + 2 ^ 63 else b * 2 ^ 52 + k)"
      unfolding Fin f64_to_bits.simps Let_def lp using False by (simp add: b_def k_def)
    note fields = f64_bits_fields [of b k "r < 0", folded w]
    have f: "unat (take_bit 11 (drop_bit 52 (f64_to_bits x))) = nat b" "uint (take_bit 52 (f64_to_bits x)) = k" "bit (f64_to_bits x) 63 = (r < 0)"
      using fields bk by simp_all
    have v: "of_int (if b = 0 then k else k + 2 ^ 52) * 2 powi (if b = 0 then - 1074 else b - 1075) = \<bar>r\<bar>"
      using me bk(5) by (auto simp: scaled_int_def b_def k_def)
    have n: "nat b \<noteq> 2047" "nat b = 0 \<longleftrightarrow> b = 0" "int (nat b) = b" using bk by auto
    show ?thesis unfolding f64_of_bits_def Let_def f n(2,3) v using n(1) Fin by auto
  qed
qed (simp_all add: f64_special_bits)

end
