(* ===== verification/LinearArray.thy ===== *)
theory LinearArray
  imports FloatBits
begin

text \<open>
  Integer columns as a linear model with residuals,
  \<^verbatim>\<open>src/storage/src/liquid_array/linear_integer_array.rs\<close>: a row is the rounded prediction of a line
  plus a residual; the line is fitted by bisection in double precision, and the residuals are a
  Liquid integer array. Additions of the code that wrap around are written with their width; a
  result \<open>None\<close> is a panic.
\<close>

section \<open>Predictions\<close>

definition MAX_U64 :: "physical_type \<Rightarrow> int" where
  "MAX_U64 p = (if is_unsigned p then 2 ^ native_bits p - 1 else 0)"

definition MIN_I64 :: "physical_type \<Rightarrow> int" where
  "MIN_I64 p = (if is_unsigned p then 0 else - (2 ^ (native_bits p - 1)))"

definition MAX_I64 :: "physical_type \<Rightarrow> int" where
  "MAX_I64 p = (if is_unsigned p then 0 else 2 ^ (native_bits p - 1) - 1)"

definition f64_is_finite :: "f64 \<Rightarrow> bool" where
  "f64_is_finite x \<longleftrightarrow> x \<notin> {NaN, PosInf, NegInf}"

definition f64_le :: "f64 \<Rightarrow> f64 \<Rightarrow> bool" where
  "f64_le x y \<longleftrightarrow> f64_lt x y \<or> f64_eq x y"

definition predict_u64_saturated :: "f64 \<Rightarrow> int \<Rightarrow> int" where
  "predict_u64_saturated pred max_u64 =
     (if \<not> f64_is_finite pred \<or> f64_le pred (Fin 0) then 0
      else if f64_le (fl64 (of_int max_u64)) pred then max_u64
      else f64_as_int 0 (2 ^ 64 - 1) (f64_round pred))"

definition predict_i64_saturated :: "f64 \<Rightarrow> int \<Rightarrow> int \<Rightarrow> int" where
  "predict_i64_saturated pred min_i64 max_i64 =
     (if \<not> f64_is_finite pred then 0
      else if f64_le pred (fl64 (of_int min_i64)) then min_i64
      else if f64_le (fl64 (of_int max_i64)) pred then max_i64
      else f64_as_int (- (2 ^ 63)) (2 ^ 63 - 1) (f64_round pred))"

definition predict :: "physical_type \<Rightarrow> f64 \<Rightarrow> f64 \<Rightarrow> nat \<Rightarrow> int" where
  "predict p slope intercept i =
     (let pr = f64_add (f64_mul slope (f64_of_nat i)) intercept in
      if is_unsigned p then predict_u64_saturated pr (MAX_U64 p)
      else predict_i64_saturated pr (MIN_I64 p) (MAX_I64 p))"

section \<open>The fit\<close>

definition f64_abs :: "f64 \<Rightarrow> f64" where
  "f64_abs x = (if f64_lt x (Fin 0) then f64_neg x else x)"

definition f64_min :: "f64 \<Rightarrow> f64 \<Rightarrow> f64" where
  "f64_min x y = (if x = NaN then y else if y = NaN then x else if f64_lt y x then y else x)"

definition f64_max :: "f64 \<Rightarrow> f64 \<Rightarrow> f64" where
  "f64_max x y = (if x = NaN then y else if y = NaN then x else if f64_lt x y then y else x)"

text \<open>The points are the pairs of a value and its row number.\<close>

fun slope_range :: "(f64 \<times> u32) list \<Rightarrow> f64 \<times> f64 \<Rightarrow> f64 \<times> f64" where
  "slope_range (x # y # zs) (slope_min, slope_max) =
     (let di = f64_of_nat (unat (snd y - snd x)) in
      slope_range (y # zs)
        (if f64_lt (Fin 0) di
         then (let s = f64_div (f64_sub (fst y) (fst x)) di in
               (if f64_lt s slope_min then s else slope_min, if f64_lt slope_max s then s else slope_max))
         else (slope_min, slope_max)))"
| "slope_range _ r = r"

fun range_stats :: "(f64 \<times> u32) list \<Rightarrow> f64 \<Rightarrow> f64 \<times> u32 \<times> f64 \<times> u32 \<Rightarrow> f64 \<times> u32 \<times> f64 \<times> u32" where
  "range_stats [] m st = st"
| "range_stats ((v, i) # pts) m (min_s, i_min, max_s, i_max) =
     (let s = f64_sub v (f64_mul m (f64_of_nat (unat i)));
          (min_s', i_min') = (if f64_lt s min_s then (s, i) else (min_s, i_min));
          (max_s', i_max') = (if f64_lt max_s s then (s, i) else (max_s, i_max))
      in range_stats pts m (min_s', i_min', max_s', i_max'))"

definition range_stats_start :: "f64 \<times> u32 \<times> f64 \<times> u32" where
  "range_stats_start = (PosInf, 0, NegInf, 0)"

definition MAX_ITERS :: nat where "MAX_ITERS = 8"

definition f64_half :: f64 where "f64_half = Fin (1 / 2)"

definition f64_tiny :: f64 where "f64_tiny = fl64 (1 / 10 ^ 12)"

fun bisect :: "nat \<Rightarrow> (f64 \<times> u32) list \<Rightarrow> f64 \<Rightarrow> f64 \<Rightarrow> f64 \<times> f64" where
  "bisect 0 pts lo hi = (lo, hi)"
| "bisect (Suc n) pts lo hi =
     (let m = f64_mul f64_half (f64_add lo hi);
          (_, i_min, _, i_max) = range_stats pts m range_stats_start;
          g = int (unat i_min) - int (unat i_max)
      in if g = 0 then (m, m)
         else
           (let lo' = (if g > 0 then lo else m); hi' = (if g > 0 then m else hi) in
            if f64_lt (f64_abs (f64_sub hi' lo')) f64_tiny then (lo', hi') else bisect n pts lo' hi'))"

definition fit_linf :: "f64 list \<Rightarrow> u32 list \<Rightarrow> (f64 \<times> f64) option" where
  "fit_linf vals idxs =
     (if length vals \<noteq> length idxs then None
      else if vals = [] then Some (Fin 0, Fin 0)
      else if length vals = 1 then Some (vals ! 0, Fin 0)
      else
        (let pts = zip vals idxs;
             (smin, smax) = slope_range pts (PosInf, NegInf);
             (slope_min, slope_max) = (if \<not> f64_is_finite smin \<or> \<not> f64_is_finite smax then (Fin 0, Fin 0) else (smin, smax));
             lo = f64_min slope_min slope_max;
             hi = f64_max slope_min slope_max;
             pad = (if f64_lt (f64_abs hi) (Fin 1) then Fin 1 else f64_mul (f64_abs hi) (fl64 (1 / 10 ^ 6)));
             (lo, hi) = (if f64_lt (f64_abs (f64_sub hi lo)) f64_tiny then (f64_sub lo pad, f64_add hi pad) else (lo, hi));
             (lo, hi) = bisect MAX_ITERS pts lo hi;
             m = f64_mul f64_half (f64_add lo hi);
             (min_s, _, max_s, _) = range_stats pts m range_stats_start
         in Some (f64_mul f64_half (f64_add max_s min_s), m)))"

definition collect_non_null_f64_and_indices :: "physical_type \<Rightarrow> 'w::len word prim_array \<Rightarrow> f64 list \<times> u32 list" where
  "collect_non_null_f64_and_indices p a =
     (let n = length (pa_values a);
          kept = (if arrow_null_count a = 0 then [0..<n] else filter (valid_at (pa_nulls a)) [0..<n])
      in (map (\<lambda>i. fl64 (of_int (native_val p (pa_values a ! i)))) kept, map of_nat kept))"

section \<open>Encoding\<close>

record linear_array =
  ll_residuals :: "u64 liquid_primitive_array"
  ll_intercept :: f64
  ll_slope :: f64

text \<open>The residual of a value: a masked magnitude with its sign, or a difference of \<open>i64\<close> (which wraps around
  in a release build).\<close>

definition residual :: "physical_type \<Rightarrow> int \<Rightarrow> int \<Rightarrow> int" where
  "residual p v q =
     (if is_unsigned p then (if v \<ge> q then take_bit 63 (v - q) else - take_bit 63 (q - v))
      else sint (word_of_int (v - q) :: u64))"

text \<open>The loop over the rows, with the range of the values and that of the residuals.\<close>

fun residual_loop ::
  "(int \<Rightarrow> nat \<Rightarrow> int) \<Rightarrow> (nat \<Rightarrow> bool) \<Rightarrow> nat \<Rightarrow> int list \<Rightarrow> int \<times> int \<times> int \<times> int \<Rightarrow> int list \<times> int \<times> int \<times> int \<times> int" where
  "residual_loop f valid i [] st = ([], st)"
| "residual_loop f valid i (v # vs) (orig_min, orig_max, res_min, res_max) =
     (let r = f v i;
          st = (if v < orig_min then v else orig_min, if v > orig_max then v else orig_max,
                if r < res_min then r else res_min, if r > res_max then r else res_max)
      in if valid i
         then (case residual_loop f valid (Suc i) vs st of (rs, st') \<Rightarrow> (r # rs, st'))
         else (case residual_loop f valid (Suc i) vs (orig_min, orig_max, res_min, res_max) of (rs, st') \<Rightarrow> (0 # rs, st')))"

definition range_start :: "physical_type \<Rightarrow> int \<times> int \<times> int \<times> int" where
  "range_start p = (if is_unsigned p then (2 ^ 64 - 1, 0, 2 ^ 63 - 1, - (2 ^ 63)) else (2 ^ 63 - 1, - (2 ^ 63), 2 ^ 63 - 1, - (2 ^ 63)))"

definition zero_model_residual :: "physical_type \<Rightarrow> int \<Rightarrow> int" where
  "zero_model_residual p v = (if is_unsigned p then take_bit 63 v else v)"

definition zero_model :: "physical_type \<Rightarrow> (nat \<Rightarrow> bool) \<Rightarrow> int list \<Rightarrow> int list" where
  "zero_model p valid vs = map (\<lambda>(i, v). if valid i then zero_model_residual p v else 0) (List.enumerate 0 vs)"

definition linear_from_arrow_array ::
  "u64 arrow_kernels \<Rightarrow> u64 fastlanes \<Rightarrow> physical_type \<Rightarrow> 'w::len word prim_array \<Rightarrow> linear_array option" where
  "linear_from_arrow_array K F p arrow_array =
     (let len = length (pa_values arrow_array);
          build = (\<lambda>res intercept slope. map_option (\<lambda>r. \<lparr>ll_residuals = r, ll_intercept = intercept, ll_slope = slope\<rparr>)
              (from_arrow_array K F P_Int64 res))
      in if arrow_null_count arrow_array = len then build (prim_new_null len) (Fin 0) (Fin 0)
         else
           (let (nn_values, nn_indices) = collect_non_null_f64_and_indices p arrow_array in
            Option.bind (fit_linf nn_values nn_indices) (\<lambda>(intercept, slope).
              let vals = map (native_val p) (pa_values arrow_array);
                  valid = valid_at (pa_nulls arrow_array);
                  (residuals, orig_min, orig_max, res_min, res_max) =
                    residual_loop (\<lambda>v i. residual p v (predict p slope intercept i)) valid 0 vals (range_start p);
                  fallback = (res_max - res_min \<ge> orig_max - orig_min);
                  rs = (if fallback then zero_model p valid vals else residuals)
              in build \<lparr>pa_values = map word_of_int rs, pa_nulls = pa_nulls arrow_array\<rparr>
                   (if fallback then Fin 0 else intercept) (if fallback then Fin 0 else slope))))"

section \<open>Decoding\<close>

text \<open>\<open>T::Native::from_u64\<close> and \<open>from_i64\<close>: \<open>None\<close> where the value does not fit.\<close>

definition native_of_int :: "physical_type \<Rightarrow> int \<Rightarrow> 'w::len word option" where
  "native_of_int p k = (let v = word_of_int k in if native_val p v = k then Some v else None)"

definition reconstruct :: "physical_type \<Rightarrow> f64 \<Rightarrow> f64 \<Rightarrow> nat \<Rightarrow> u64 \<Rightarrow> 'w::len word option" where
  "reconstruct p slope intercept i e =
     (let q = predict p slope intercept i; r = sint e in
      native_of_int p
        (if is_unsigned p then (if r \<ge> 0 then min (2 ^ 64 - 1) (q + r) else max 0 (q + r))
         else max (- (2 ^ 63)) (min (2 ^ 63 - 1) (q + r))))"

definition linear_to_arrow_array :: "u64 fastlanes \<Rightarrow> physical_type \<Rightarrow> linear_array \<Rightarrow> 'w::len word prim_array option" where
  "linear_to_arrow_array F p la =
     Option.bind (to_arrow_array F (ll_residuals la)) (\<lambda>residuals.
       map_option (\<lambda>vs. \<lparr>pa_values = vs, pa_nulls = pa_nulls residuals\<rparr>)
         (those (map (\<lambda>(i, e). reconstruct p (ll_slope la) (ll_intercept la) i e) (List.enumerate 0 (pa_values residuals)))))"

definition linear_filter ::
  "'w::len word arrow_kernels \<Rightarrow> u64 fastlanes \<Rightarrow> physical_type \<Rightarrow> linear_array \<Rightarrow> bool list \<Rightarrow> 'w word prim_array option" where
  "linear_filter K F p la selection = map_option (\<lambda>a. ak_filter K a selection) (linear_to_arrow_array F p la)"

section \<open>The serialized form\<close>

definition LIQUID_LINEAR_INTEGER :: u16 where "LIQUID_LINEAR_INTEGER = 5"

definition residual_starting_loc :: nat where
  "residual_starting_loc = align8 (16 + 8 + 8)"

definition linear_to_bytes_inner :: "physical_type \<Rightarrow> linear_array \<Rightarrow> bytes" where
  "linear_to_bytes_inner p la =
     (let out = ipc_header_to_bytes (ipc_header_new LIQUID_LINEAR_INTEGER (get_physical_type_id p))
            @ le_bytes 8 (f64_to_bits (ll_intercept la)) @ le_bytes 8 (f64_to_bits (ll_slope la))
      in out @ replicate (residual_starting_loc - length out) 0 @ to_bytes_inner P_Int64 (ll_residuals la))"

definition linear_from_bytes :: "bytes \<Rightarrow> linear_array option" where
  "linear_from_bytes bs =
     Option.bind (ipc_header_from_bytes bs) (\<lambda>_.
       if length bs < residual_starting_loc then None
       else map_option (\<lambda>residuals. \<lparr>ll_residuals = residuals, ll_intercept = f64_of_bits (of_le_bytes (take 8 (drop 16 bs))),
                ll_slope = f64_of_bits (of_le_bytes (take 8 (drop 24 bs)))\<rparr>)
              (primitive_from_bytes P_Int64 (drop residual_starting_loc bs)))"

section \<open>Predictions are in the range of the type\<close>

lemma f64_lt_Fin: "f64_lt (Fin x) (Fin y) = (x < y)" and f64_le_Fin: "f64_le (Fin x) (Fin y) = (x \<le> y)"
  by (auto simp: f64_le_def f64_eq_def)

lemma f64_finite_Fin: "f64_is_finite x \<Longrightarrow> \<exists>r. x = Fin r"
  by (cases x) (auto simp: f64_is_finite_def)

lemma predict_u64_range:
  assumes "fl64 (of_int M) = Fin (of_int M)" and "0 \<le> M"
  shows "0 \<le> predict_u64_saturated x M" and "predict_u64_saturated x M \<le> M"
proof -
  have "0 \<le> predict_u64_saturated x M \<and> predict_u64_saturated x M \<le> M"
  proof (cases "\<not> f64_is_finite x \<or> f64_le x (Fin 0) \<or> f64_le (fl64 (of_int M)) x")
    case True
    then show ?thesis using assms(2) by (auto simp: predict_u64_saturated_def)
  next
    case False
    then obtain r where r: "x = Fin r" "0 < r" "r < of_int M" using f64_finite_Fin [of x] by (auto simp: assms(1) f64_le_Fin)
    then have "\<lfloor>r + 1 / 2\<rfloor> \<le> M" "0 \<le> \<lfloor>r + 1 / 2\<rfloor>" by linarith+
    with r False show ?thesis by (auto simp: predict_u64_saturated_def)
  qed
  then show "0 \<le> predict_u64_saturated x M" and "predict_u64_saturated x M \<le> M" by simp_all
qed

lemma predict_i64_range:
  assumes "fl64 (of_int m) = Fin (of_int m)" and "fl64 (of_int M) = Fin (of_int M)" and "m \<le> 0" and "0 \<le> M"
  shows "m \<le> predict_i64_saturated x m M" and "predict_i64_saturated x m M \<le> M"
proof -
  have "m \<le> predict_i64_saturated x m M \<and> predict_i64_saturated x m M \<le> M"
  proof (cases "\<not> f64_is_finite x \<or> f64_le x (fl64 (of_int m)) \<or> f64_le (fl64 (of_int M)) x")
    case True
    then show ?thesis using assms(3,4) by (auto simp: predict_i64_saturated_def)
  next
    case False
    then obtain r where r: "x = Fin r" "of_int m < r" "r < of_int M" using f64_finite_Fin [of x] by (auto simp: assms(1,2) f64_le_Fin)
    define k where "k = (if r \<ge> 0 then \<lfloor>r + 1 / 2\<rfloor> else - \<lfloor>1 / 2 - r\<rfloor>)"
    have k: "m \<le> k" "k \<le> M" using r assms(3,4) unfolding k_def by (auto; linarith)+
    have "f64_as_int (- (2 ^ 63)) (2 ^ 63 - 1) (f64_round x) = max (- (2 ^ 63)) (min (2 ^ 63 - 1) k)"
      using r(1) by (simp add: k_def)
    then have "predict_i64_saturated x m M = max (- (2 ^ 63)) (min (2 ^ 63 - 1) k)" using False by (simp add: predict_i64_saturated_def)
    with k assms(3,4) show ?thesis by auto
  qed
  then show "m \<le> predict_i64_saturated x m M" and "predict_i64_saturated x m M \<le> M" by simp_all
qed

lemma fl64_bounds_exact:
  "fl64 255 = Fin 255" "fl64 65535 = Fin 65535" "fl64 4294967295 = Fin 4294967295"
  "fl64 127 = Fin 127" "fl64 32767 = Fin 32767" "fl64 2147483647 = Fin 2147483647"
  "fl64 (- 128) = Fin (- 128)" "fl64 (- 32768) = Fin (- 32768)" "fl64 (- 2147483648) = Fin (- 2147483648)"
  by code_simp+

lemma small_native_bits: "native_type p TYPE('w::len) \<Longrightarrow> LENGTH('w) \<le> 32 \<Longrightarrow> native_bits p \<in> {8, 16, 32} \<and> LENGTH('w) = native_bits p"
  by (auto simp: native_type_def native_bits_def split: if_split_asm)

lemma native_val_within:
  fixes v :: "'w::len word"
  assumes "LENGTH('w) = native_bits p"
  shows "if is_unsigned p then 0 \<le> native_val p v \<and> native_val p v \<le> MAX_U64 p else MIN_I64 p \<le> native_val p v \<and> native_val p v \<le> MAX_I64 p"
  using assms uint_bounded [of v] sint_ge [of v] sint_lt [of v] by (simp add: native_val_def MAX_U64_def MIN_I64_def MAX_I64_def)

lemma predict_range:
  assumes "native_bits p \<in> {8, 16, 32}"
  shows "if is_unsigned p then 0 \<le> predict p s b i \<and> predict p s b i \<le> MAX_U64 p else MIN_I64 p \<le> predict p s b i \<and> predict p s b i \<le> MAX_I64 p"
proof -
  have "is_unsigned p \<longrightarrow> fl64 (of_int (MAX_U64 p)) = Fin (of_int (MAX_U64 p)) \<and> 0 \<le> MAX_U64 p"
    "\<not> is_unsigned p \<longrightarrow> fl64 (of_int (MIN_I64 p)) = Fin (of_int (MIN_I64 p)) \<and> fl64 (of_int (MAX_I64 p)) = Fin (of_int (MAX_I64 p))
      \<and> MIN_I64 p \<le> 0 \<and> 0 \<le> MAX_I64 p"
    using assms by (auto simp: MAX_U64_def MIN_I64_def MAX_I64_def fl64_bounds_exact)
  then show ?thesis using predict_u64_range predict_i64_range by (simp add: predict_def Let_def)
qed

section \<open>Residuals give the values back\<close>

lemma sint_of_small: "\<bar>k\<bar> < 2 ^ 33 \<Longrightarrow> sint (word_of_int k :: u64) = k"
  by (simp add: sint_sbintrunc' signed_take_bit_int_eq_self)

lemma native_of_int_val: "native_of_int p (native_val p v) = Some v"
  by (simp add: native_of_int_def native_val_def)

lemma residual_exact:
  fixes v :: "'w::len word"
  assumes "native_type p TYPE('w)" and "LENGTH('w) \<le> 32"
  shows "residual p (native_val p v) (predict p s b i) = native_val p v - predict p s b i"
    and "\<bar>native_val p v - predict p s b i\<bar> < 2 ^ 33"
proof -
  have n: "native_bits p \<in> {8, 16, 32}" "LENGTH('w) = native_bits p" using small_native_bits [OF assms] by simp_all
  have m: "MAX_U64 p \<le> 2 ^ 32 - 1" "- (2 ^ 31) \<le> MIN_I64 p" "MAX_I64 p \<le> 2 ^ 31 - 1"
    using n(1) by (auto simp: MAX_U64_def MIN_I64_def MAX_I64_def)
  let ?v = "native_val p v" and ?q = "predict p s b i"
  show d: "\<bar>?v - ?q\<bar> < 2 ^ 33" using native_val_within [OF n(2), of v] predict_range [OF n(1), of s b i] m by (auto split: if_split_asm)
  have "sint (word_of_int (?v - ?q) :: u64) = ?v - ?q" by (rule sint_of_small [OF d])
  moreover have "take_bit 63 x = x" if "0 \<le> x" "x < 2 ^ 33" for x :: int using that by (simp add: take_bit_int_eq_self)
  ultimately show "residual p ?v ?q = ?v - ?q" using d by (auto simp: residual_def)
qed

lemma reconstruct_residual:
  fixes v :: "'w::len word"
  assumes "native_type p TYPE('w)" and "LENGTH('w) \<le> 32"
  shows "reconstruct p s b i (word_of_int (residual p (native_val p v) (predict p s b i))) = Some v"
proof -
  have n: "native_bits p \<in> {8, 16, 32}" "LENGTH('w) = native_bits p" using small_native_bits [OF assms] by simp_all
  let ?v = "native_val p v" and ?q = "predict p s b i"
  note r = residual_exact [OF assms, of v s b i]
  have s: "sint (word_of_int (residual p ?v ?q) :: u64) = ?v - ?q" unfolding r(1) by (rule sint_of_small [OF r(2)])
  have "(if is_unsigned p then (if ?v - ?q \<ge> 0 then min (2 ^ 64 - 1) ?v else max 0 ?v) else max (- (2 ^ 63)) (min (2 ^ 63 - 1) ?v)) = ?v"
    using native_val_within [OF n(2), of v] n(1) by (auto simp: MAX_U64_def MIN_I64_def MAX_I64_def split: if_split_asm)
  then show ?thesis unfolding reconstruct_def Let_def s by (simp add: native_of_int_val cong: if_cong)
qed

lemma predict_zero: "native_bits p \<in> {8, 16, 32} \<Longrightarrow> predict p (Fin 0) (Fin 0) i = 0"
proof -
  assume n: "native_bits p \<in> {8, 16, 32}"
  have z: "f64_add (f64_mul (Fin 0) x) (Fin 0) \<in> {Fin 0, NaN}" for x
    by (cases x) (simp_all add: fl64_def f64_inf_def)
  have "MIN_I64 p < 0 \<and> 0 < MAX_I64 p" if "\<not> is_unsigned p" using n that by (auto simp: MIN_I64_def MAX_I64_def)
  moreover have "\<not> is_unsigned p \<Longrightarrow> fl64 (of_int (MIN_I64 p)) = Fin (of_int (MIN_I64 p)) \<and> fl64 (of_int (MAX_I64 p)) = Fin (of_int (MAX_I64 p))"
    using n by (auto simp: MIN_I64_def MAX_I64_def fl64_bounds_exact)
  moreover have "\<lfloor>1 / 2 :: rat\<rfloor> = 0" by (simp add: floor_eq_iff)
  ultimately show ?thesis using z [of "f64_of_nat i"]
    by (auto simp: predict_def Let_def predict_u64_saturated_def predict_i64_saturated_def f64_is_finite_def f64_le_Fin)
qed

lemma residual_loop_fst:
  "fst (residual_loop f valid i vs st) = map (\<lambda>(j, v). if valid j then f v j else 0) (List.enumerate i vs)"
proof (induction vs arbitrary: i st)
  case (Cons v vs)
  obtain a b c d where st: "st = (a, b, c, d)" by (cases st)
  show ?case unfolding st residual_loop.simps Let_def using Cons.IH [of "Suc i"] by (simp add: case_prod_beta)
qed simp

lemma zero_model_eq:
  fixes xs :: "'w::len word list"
  assumes "native_type p TYPE('w)" and "LENGTH('w) \<le> 32"
  shows "zero_model p valid (map (native_val p) xs)
    = map (\<lambda>(j, v). if valid j then residual p v (predict p (Fin 0) (Fin 0) j) else 0) (List.enumerate 0 (map (native_val p) xs))"
proof -
  have n: "native_bits p \<in> {8, 16, 32}" "LENGTH('w) = native_bits p" using small_native_bits [OF assms] by simp_all
  have "zero_model_residual p (native_val p x) = residual p (native_val p x) 0" for x :: "'w word"
  proof -
    have r: "residual p (native_val p x) 0 = native_val p x" using residual_exact(1) [OF assms, of x "Fin 0" "Fin 0" 0] by (simp add: predict_zero [OF n(1)])
    show ?thesis
    proof (cases "is_unsigned p")
      case True
      then have "0 \<le> native_val p x" by (simp add: native_val_def)
      with True show ?thesis by (simp add: zero_model_residual_def residual_def)
    qed (simp add: zero_model_residual_def r)
  qed
  then show ?thesis by (auto simp: zero_model_def predict_zero [OF n(1)] in_set_enumerate_eq intro!: map_cong)
qed

section \<open>Encoding and decoding\<close>

lemma fit_linf_total:
  assumes "length vals = length idxs" and "\<forall>v \<in> set vals. f64_ok v"
  shows "\<exists>b s. fit_linf vals idxs = Some (b, s) \<and> f64_ok b \<and> f64_ok s"
proof -
  have z: "f64_ok (Fin 0)" by (simp add: f64_ok_def)
  consider "vals = []" | "length vals = 1" | "vals \<noteq> []" "length vals \<noteq> 1" by blast
  then show ?thesis
  proof cases
    case 2
    then show ?thesis using assms z by (auto simp: fit_linf_def length_Suc_conv)
  next
    case 3
    then show ?thesis using assms(1) f64_mul_ok unfolding fit_linf_def by (simp add: Let_def case_prod_beta)
  qed (use assms(1) z in \<open>simp add: fit_linf_def\<close>)
qed

text \<open>The residuals of a column under a line.\<close>

definition linear_residuals :: "physical_type \<Rightarrow> f64 \<Rightarrow> f64 \<Rightarrow> 'w::len word prim_array \<Rightarrow> u64 prim_array" where
  "linear_residuals p s b a = \<lparr>pa_values = map (\<lambda>(j, v). if valid_at (pa_nulls a) j
       then word_of_int (residual p (native_val p v) (predict p s b j)) else 0) (List.enumerate 0 (pa_values a)), pa_nulls = pa_nulls a\<rparr>"

definition linear_encodes :: "u64 fastlanes \<Rightarrow> physical_type \<Rightarrow> linear_array \<Rightarrow> 'w::len word prim_array \<Rightarrow> bool" where
  "linear_encodes F p la a \<longleftrightarrow> (\<exists>r. encodes F (ll_residuals la) r \<and> length (pa_values r) = length (pa_values a)
     \<and> pa_items r = pa_items (linear_residuals p (ll_slope la) (ll_intercept la) a)) \<and> f64_ok (ll_slope la) \<and> f64_ok (ll_intercept la)"

lemma map_word_residuals:
  "map word_of_int (map (\<lambda>(j, v). if valid j then f v j else 0) (List.enumerate 0 (map g xs)))
    = map (\<lambda>(j, v). if valid j then word_of_int (f (g v) j) else 0) (List.enumerate 0 xs)"
  by (rule nth_equalityI) (simp_all add: nth_enumerate_eq)

lemma linear_from_arrow_ok:
  fixes a :: "'w::len word prim_array"
  assumes F: "fastlanes_ok F" and K: "kernels_ok K" and p: "native_type p TYPE('w)" "LENGTH('w) \<le> 32" and a: "pa_wf a"
  shows "\<exists>la. linear_from_arrow_array K F p a = Some la \<and> linear_encodes F p la a"
proof -
  have i64: "native_type P_Int64 TYPE(64)" by (simp add: native_type_def native_bits_def)
  have build: "\<exists>r. from_arrow_array K F P_Int64 x = Some r \<and> encodes F r x" if "pa_wf x" for x
    using from_arrow_offsets [OF F K i64 that] offsets_encodes by blast
  show ?thesis
  proof (cases "arrow_null_count a = length (pa_values a)")
    case True
    let ?n = "length (pa_values a)"
    obtain r where r: "from_arrow_array K F P_Int64 (prim_new_null ?n) = Some r" "encodes F r (prim_new_null ?n)"
      using build [of "prim_new_null ?n"] by (auto simp: pa_wf_def prim_new_null_def nulls_fit_def)
    have "\<not> valid_at (pa_nulls a) j" if "j < ?n" for j
      using arg_cong [OF all_null_items [OF a True], of "\<lambda>xs. xs ! j"] that by (simp add: pa_items_def split: if_split_asm)
    then have "pa_items (prim_new_null ?n) = pa_items (linear_residuals p (Fin 0) (Fin 0) a)"
      by (auto simp: pa_items_def prim_new_null_def linear_residuals_def valid_at_def)
    then show ?thesis using True r by (auto simp: linear_from_arrow_array_def linear_encodes_def prim_new_null_def f64_ok_def Let_def)
  next
    case False
    obtain vals idxs where c: "collect_non_null_f64_and_indices p a = (vals, idxs)" by fastforce
    have "length vals = length idxs" "\<forall>v \<in> set vals. f64_ok v" using c by (auto simp: collect_non_null_f64_and_indices_def Let_def fl64_ok)
    then obtain b s where fit: "fit_linf vals idxs = Some (b, s)" "f64_ok b" "f64_ok s" using fit_linf_total by blast
    let ?valid = "valid_at (pa_nulls a)" and ?vals = "map (native_val p) (pa_values a)"
    have loop: "\<exists>st. residual_loop f ?valid 0 ?vals st0 = (map (\<lambda>(j, v). if ?valid j then f v j else 0) (List.enumerate 0 ?vals), st)" for f st0
      using residual_loop_fst [of f ?valid 0 ?vals st0] by (cases "residual_loop f ?valid 0 ?vals st0") auto
    have wf: "pa_wf (linear_residuals p s' b' a)" for s' b' using a by (simp add: pa_wf_def linear_residuals_def)
    have res: "\<lparr>pa_values = map word_of_int (map (\<lambda>(j, v). if ?valid j then residual p v (predict p s' b' j) else 0) (List.enumerate 0 ?vals)),
        pa_nulls = pa_nulls a\<rparr> = linear_residuals p s' b' a" for s' b'
      unfolding map_word_residuals by (simp add: linear_residuals_def)
    have "\<exists>s' b'. f64_ok s' \<and> f64_ok b' \<and> linear_from_arrow_array K F p a
        = map_option (\<lambda>r. \<lparr>ll_residuals = r, ll_intercept = b', ll_slope = s'\<rparr>) (from_arrow_array K F P_Int64 (linear_residuals p s' b' a))"
    proof -
      obtain st where "residual_loop (\<lambda>v i. residual p v (predict p s b i)) ?valid 0 ?vals (range_start p)
          = (map (\<lambda>(j, v). if ?valid j then residual p v (predict p s b j) else 0) (List.enumerate 0 ?vals), st)"
        using loop by blast
      moreover obtain omin omax rmin rmax where "st = (omin, omax, rmin, rmax)" by (cases st)
      ultimately have st: "residual_loop (\<lambda>v i. residual p v (predict p s b i)) ?valid 0 ?vals (range_start p)
          = (map (\<lambda>(j, v). if ?valid j then residual p v (predict p s b j) else 0) (List.enumerate 0 ?vals), omin, omax, rmin, rmax)" by simp
      have "linear_from_arrow_array K F p a
          = (let fallback = (rmax - rmin \<ge> omax - omin); s' = (if fallback then Fin 0 else s); b' = (if fallback then Fin 0 else b)
             in map_option (\<lambda>r. \<lparr>ll_residuals = r, ll_intercept = b', ll_slope = s'\<rparr>) (from_arrow_array K F P_Int64 (linear_residuals p s' b' a)))"
        unfolding linear_from_arrow_array_def Let_def c prod.case fit(1) Option.bind.bind_lunit zero_model_eq [OF p] st
        using False by (cases "rmax - rmin \<ge> omax - omin") (simp_all only: if_False if_True res)
      moreover have "f64_ok (Fin 0)" by (simp add: f64_ok_def)
      ultimately show ?thesis using fit(2,3) unfolding Let_def
        by (intro exI [of _ "if rmax - rmin \<ge> omax - omin then Fin 0 else s"] exI [of _ "if rmax - rmin \<ge> omax - omin then Fin 0 else b"] conjI)
          (simp_all only: if_split simp_thms)
    qed
    then obtain s' b' where sb: "f64_ok s'" "f64_ok b'" "linear_from_arrow_array K F p a
        = map_option (\<lambda>r. \<lparr>ll_residuals = r, ll_intercept = b', ll_slope = s'\<rparr>) (from_arrow_array K F P_Int64 (linear_residuals p s' b' a))" by blast
    obtain r where "from_arrow_array K F P_Int64 (linear_residuals p s' b' a) = Some r" "encodes F r (linear_residuals p s' b' a)"
      using build [OF wf] by blast
    moreover have "length (pa_values (linear_residuals p s' b' a)) = length (pa_values a)" by (simp add: linear_residuals_def)
    ultimately show ?thesis using sb by (auto simp: linear_encodes_def)
  qed
qed

lemma those_nth: "those xs = Some ys \<Longrightarrow> length ys = length xs \<and> (\<forall>i < length xs. xs ! i = Some (ys ! i))"
proof (induction xs arbitrary: ys)
  case (Cons x xs)
  then obtain y zs where "x = Some y" "those xs = Some zs" "ys = y # zs" by (auto split: option.splits)
  with Cons.IH show ?case by (auto simp: nth_Cons split: nat.split)
qed simp

lemma linear_to_arrow_items:
  fixes a :: "'w::len word prim_array"
  assumes p: "native_type p TYPE('w)" "LENGTH('w) \<le> 32" and la: "linear_encodes F p la a"
  shows "\<exists>rs. to_arrow_array F (ll_residuals la) = Some rs \<and> length (pa_values rs) = length (pa_values a)
    \<and> (\<forall>i < length (pa_values a). valid_at (pa_nulls rs) i = valid_at (pa_nulls a) i
        \<and> (valid_at (pa_nulls a) i \<longrightarrow> reconstruct p (ll_slope la) (ll_intercept la) i (pa_values rs ! i) = Some (pa_values a ! i)))"
proof -
  let ?n = "length (pa_values a)" and ?l = "linear_residuals p (ll_slope la) (ll_intercept la) a"
  obtain rs where rs: "to_arrow_array F (ll_residuals la) = Some rs" "length (pa_values rs) = ?n" "pa_items rs = pa_items ?l"
    using la by (auto simp: linear_encodes_def encodes_def)
  have "valid_at (pa_nulls rs) i = valid_at (pa_nulls a) i
        \<and> (valid_at (pa_nulls a) i \<longrightarrow> reconstruct p (ll_slope la) (ll_intercept la) i (pa_values rs ! i) = Some (pa_values a ! i))"
    if i: "i < ?n" for i
  proof -
    have "pa_items rs ! i = pa_items ?l ! i" by (simp add: rs(3))
    then have "valid_at (pa_nulls rs) i = valid_at (pa_nulls a) i \<and> (valid_at (pa_nulls a) i \<longrightarrow> pa_values rs ! i
        = word_of_int (residual p (native_val p (pa_values a ! i)) (predict p (ll_slope la) (ll_intercept la) i)))"
      using i rs(2) by (auto simp: pa_items_def linear_residuals_def nth_enumerate_eq split: if_split_asm)
    then show ?thesis using reconstruct_residual [OF p] by metis
  qed
  with rs(1,2) show ?thesis by blast
qed

lemma linear_decode:
  fixes a :: "'w::len word prim_array"
  assumes p: "native_type p TYPE('w)" "LENGTH('w) \<le> 32" and la: "linear_encodes F p la a"
  shows "linear_to_arrow_array F p la = Some (b :: 'w word prim_array) \<Longrightarrow> pa_items b = pa_items a"
    and "\<forall>i < length (pa_values a). valid_at (pa_nulls a) i \<Longrightarrow> \<exists>b. linear_to_arrow_array F p la = Some (b :: 'w word prim_array)"
proof -
  obtain rs where rs: "to_arrow_array F (ll_residuals la) = Some rs" "length (pa_values rs) = length (pa_values a)"
    "\<And>i. i < length (pa_values a) \<Longrightarrow> valid_at (pa_nulls rs) i = valid_at (pa_nulls a) i"
    "\<And>i. i < length (pa_values a) \<Longrightarrow> valid_at (pa_nulls a) i \<Longrightarrow> reconstruct p (ll_slope la) (ll_intercept la) i (pa_values rs ! i) = Some (pa_values a ! i)"
    using linear_to_arrow_items [OF p la] by blast
  let ?f = "\<lambda>(i, e). reconstruct p (ll_slope la) (ll_intercept la) i e :: 'w word option"
  have eq: "(linear_to_arrow_array F p la :: 'w word prim_array option) = map_option (\<lambda>vs. \<lparr>pa_values = vs, pa_nulls = pa_nulls rs\<rparr>) (those (map ?f (List.enumerate 0 (pa_values rs))))"
    by (simp add: linear_to_arrow_array_def rs(1))
  show "pa_items b = pa_items a" if t: "linear_to_arrow_array F p la = Some b"
  proof -
    obtain vs where vs: "those (map ?f (List.enumerate 0 (pa_values rs))) = Some vs" "b = \<lparr>pa_values = vs, pa_nulls = pa_nulls rs\<rparr>"
      using t unfolding eq by auto
    note n = those_nth [OF vs(1)]
    have "vs ! i = pa_values a ! i" if "i < length (pa_values a)" "valid_at (pa_nulls a) i" for i
      using n rs(2) rs(4) [OF that] that by (auto simp: nth_enumerate_eq)
    then show ?thesis using vs(2) n rs(2,3) by (auto simp: pa_items_def)
  qed
  assume valid: "\<forall>i < length (pa_values a). valid_at (pa_nulls a) i"
  have "\<forall>x \<in> set (List.enumerate 0 (pa_values rs)). ?f x \<noteq> None"
    using rs(2,4) valid by (auto simp: in_set_enumerate_eq)
  then show "\<exists>b. linear_to_arrow_array F p la = Some (b :: 'w word prim_array)" unfolding eq using those_map_total by blast
qed

lemma linear_bytes_roundtrip:
  fixes a :: "'w::len word prim_array"
  assumes "linear_encodes F p la a" and "fits_u32 (lp_bit_packed (ll_residuals la))"
  shows "\<exists>la'. linear_from_bytes (linear_to_bytes_inner p la) = Some la' \<and> linear_encodes F p la' a"
proof -
  have i64: "native_type P_Int64 TYPE(64)" by (simp add: native_type_def native_bits_def)
  obtain r where r: "encodes F (ll_residuals la) r" "length (pa_values r) = length (pa_values a)"
      "pa_items r = pa_items (linear_residuals p (ll_slope la) (ll_intercept la) a)" and ok: "f64_ok (ll_slope la)" "f64_ok (ll_intercept la)"
    using assms(1) by (auto simp: linear_encodes_def)
  obtain lr where lr: "primitive_from_bytes P_Int64 (to_bytes_inner P_Int64 (ll_residuals la)) = Some lr" "encodes F lr r"
    using primitive_bytes_roundtrip [OF r(1) i64 assms(2)] by blast
  define h where "h = ipc_header_to_bytes (ipc_header_new LIQUID_LINEAR_INTEGER (get_physical_type_id p))"
  let ?i = "le_bytes 8 (f64_to_bits (ll_intercept la))" and ?s = "le_bytes 8 (f64_to_bits (ll_slope la))"
  let ?t = "to_bytes_inner P_Int64 (ll_residuals la)"
  have h: "length h = 16" by (simp add: h_def)
  have loc: "residual_starting_loc = 32" by (simp add: residual_starting_loc_def align8_def)
  have bs: "linear_to_bytes_inner p la = h @ ?i @ ?s @ ?t"
    using h by (simp add: linear_to_bytes_inner_def loc h_def Let_def)
  have "ipc_header_from_bytes (h @ ?i @ ?s @ ?t) = Some (ipc_header_new LIQUID_LINEAR_INTEGER (get_physical_type_id p))"
    using header_roundtrip [of LIQUID_LINEAR_INTEGER "get_physical_type_id p"] by (simp add: h_def)
  moreover have "of_le_bytes ?i = f64_to_bits (ll_intercept la)" "of_le_bytes ?s = f64_to_bits (ll_slope la)"
    by (simp_all add: of_le_bytes_le_bytes)
  ultimately have "linear_from_bytes (linear_to_bytes_inner p la) = Some (la\<lparr>ll_residuals := lr\<rparr>)"
    unfolding bs linear_from_bytes_def loc using h lr(1) ok by (simp add: f64_of_bits_to_bits)
  then show ?thesis using lr(2) r ok by (auto simp: linear_encodes_def)
qed

section \<open>A null next to the greatest value\<close>

text \<open>The column 127, null of type \<open>i8\<close>: the null row decodes to 128, which is not an \<open>i8\<close>.\<close>

definition sample_linear :: "8 word prim_array" where
  "sample_linear = \<lparr>pa_values = [127, 0], pa_nulls = Some \<lparr>bb_values = [1], bb_offset = 0, bb_len = 2\<rparr>\<rparr>"

definition sample_linear_encoded :: "u64 fastlanes \<Rightarrow> linear_array" where
  "sample_linear_encoded F = \<lparr>ll_residuals = \<lparr>lp_bit_packed = from_primitive F \<lparr>pa_values = [0, - 127], pa_nulls = pa_nulls sample_linear\<rparr> 1,
     lp_reference_value = 127, lp_squeeze_policy = Quantize\<rparr>, ll_intercept = Fin 0, ll_slope = Fin 0\<rparr>"

lemma sample_linear_valid: "valid_at (pa_nulls sample_linear) 0" "\<not> valid_at (pa_nulls sample_linear) (Suc 0)" "arrow_null_count sample_linear = 1"
  by (simp_all add: sample_linear_def) code_simp+

lemma sample_linear_wf: "pa_wf sample_linear"
  by (simp add: sample_linear_def pa_wf_def nulls_fit_def bb_wf_def)

lemma sample_linear_from:
  assumes "kernels_ok K"
  shows "linear_from_arrow_array K F P_Int8 sample_linear = Some (sample_linear_encoded F)"
proof -
  let ?a = "\<lparr>pa_values = [127, 0], pa_nulls = pa_nulls sample_linear\<rparr> :: u64 prim_array"
  have "native_val P_Int8 (127 :: 8 word) = 127" by code_simp
  then have c: "collect_non_null_f64_and_indices P_Int8 sample_linear = ([Fin 127], [0])"
    using sample_linear_valid by (simp add: collect_non_null_f64_and_indices_def sample_linear_def fl64_bounds_exact)
  have f: "fit_linf [Fin 127] [0] = Some (Fin 127, Fin 0)" by (simp add: fit_linf_def)
  have p: "predict P_Int8 (Fin 0) (Fin 127) 0 = 127" by code_simp
  have "valid_values ?a = {127}" using sample_linear_valid(1,2) by (auto simp: valid_values_def pa_items_def)
  moreover have "pa_wf ?a" using sample_linear_wf by (simp add: pa_wf_def sample_linear_def)
  ultimately have k: "ak_min K P_Int64 ?a = Some 127" "ak_max K P_Int64 ?a = Some 127"
    using assms unfolding kernels_ok_def by (metis empty_not_insert option.exhaust singletonD)+
  have v: "native_val P_Int8 (127 :: 8 word) = 127" "\<not> is_unsigned P_Int8" by code_simp+
  have w: "sint (word_of_int 0 :: u64) = 0" "get_bit_width 0 = 1" by (simp_all add: get_bit_width_def)
  have "from_arrow_array K F P_Int64 ?a = Some \<lparr>lp_bit_packed = from_primitive F \<lparr>pa_values = [0, - 127], pa_nulls = pa_nulls sample_linear\<rparr> 1,
      lp_reference_value = 127, lp_squeeze_policy = Quantize\<rparr>"
    using k w(2) by (simp add: from_arrow_array_def)
  moreover have "linear_from_arrow_array K F P_Int8 sample_linear
      = map_option (\<lambda>r. \<lparr>ll_residuals = r, ll_intercept = Fin 0, ll_slope = Fin 0\<rparr>) (from_arrow_array K F P_Int64 ?a)"
    unfolding linear_from_arrow_array_def c Let_def prod.case f Option.bind.bind_lunit
    using sample_linear_valid v by (simp add: sample_linear_def [THEN arg_cong [where f = pa_values]] p residual_def range_start_def
        zero_model_def zero_model_residual_def enumerate_simps)
  ultimately show ?thesis by (simp add: sample_linear_encoded_def)
qed

lemma sample_linear_to:
  assumes "fastlanes_ok F"
  shows "linear_to_arrow_array F P_Int8 (sample_linear_encoded F) = (None :: 8 word prim_array option)"
proof -
  have t: "take_bit 1 (- 127 :: u64) = 1" by code_simp
  have "to_arrow_array F (ll_residuals (sample_linear_encoded F)) = Some \<lparr>pa_values = [127, 128], pa_nulls = pa_nulls sample_linear\<rparr>"
    using to_primitive_from_primitive [OF assms, of 1 "\<lparr>pa_values = [0, - 127], pa_nulls = pa_nulls sample_linear\<rparr>"] t
    by (simp add: to_arrow_array_def sample_linear_encoded_def) (simp add: from_primitive_def Let_def)
  moreover have "reconstruct P_Int8 (Fin 0) (Fin 0) 1 128 = (None :: 8 word option)"
    unfolding reconstruct_def by (simp add: predict_zero native_bits_def is_unsigned_def native_of_int_def native_val_def)
  ultimately show ?thesis
    by (simp add: linear_to_arrow_array_def enumerate_simps) (simp add: sample_linear_encoded_def split: option.split)
qed

end
