(* ===== verification/LiquidIpc.thy ===== *)
theory LiquidIpc
  imports ByteArray LinearArray
begin

text \<open>
  Reading any serialized Liquid array, \<open>read_from_bytes\<close> of \<^verbatim>\<open>src/storage/src/liquid_array/ipc.rs\<close>: the
  header names the kind of the array and the physical type, and the reader of that kind is called.
\<close>

section \<open>Kinds of arrays\<close>

datatype 'c liquid_array_ref =
    LA_Integer8 physical_type "8 word liquid_primitive_array"
  | LA_Integer16 physical_type "u16 liquid_primitive_array"
  | LA_Integer32 physical_type "u32 liquid_primitive_array"
  | LA_Integer64 physical_type "u64 liquid_primitive_array"
  | LA_Float32 "u32 liquid_float_array"
  | LA_Float64 "u64 liquid_float_array"
  | LA_LinearInteger physical_type linear_array
  | LA_ByteArray "'c liquid_byte_array"
  | LA_ByteViewArray "'c memory_view"
  | LA_FixedLenByteArray "'c fixed_len_array"

datatype liquid_data_type = ByteArray | ByteViewArray | Integer | Float | FixedLenByteArray | LinearInteger

definition liquid_data_type_of :: "u16 \<Rightarrow> liquid_data_type option" where
  "liquid_data_type_of v =
     (if v = 0 then Some ByteArray else if v = 4 then Some ByteViewArray else if v = 1 then Some Integer
      else if v = 2 then Some Float else if v = 3 then Some FixedLenByteArray else if v = 5 then Some LinearInteger else None)"

definition physical_types :: "physical_type list" where
  "physical_types = [P_Int8, P_Int16, P_Int32, P_Int64, P_UInt8, P_UInt16, P_UInt32, P_UInt64, P_Float32, P_Float64, P_Date32, P_Date64,
     P_TimestampSecond, P_TimestampMillisecond, P_TimestampMicrosecond, P_TimestampNanosecond]"

definition expect_physical_type :: "u16 \<Rightarrow> physical_type option" where
  "expect_physical_type v = List.find (\<lambda>p. get_physical_type_id p = v) physical_types"

definition is_float :: "physical_type \<Rightarrow> bool" where
  "is_float p \<longleftrightarrow> p \<in> {P_Float32, P_Float64}"

definition deserialize_integer :: "physical_type \<Rightarrow> bytes \<Rightarrow> 'c liquid_array_ref option" where
  "deserialize_integer p bs =
     (if is_float p then None
      else if native_bits p = 8 then map_option (LA_Integer8 p) (primitive_from_bytes p bs)
      else if native_bits p = 16 then map_option (LA_Integer16 p) (primitive_from_bytes p bs)
      else if native_bits p = 32 then map_option (LA_Integer32 p) (primitive_from_bytes p bs)
      else map_option (LA_Integer64 p) (primitive_from_bytes p bs))"

definition deserialize_linear_integer :: "physical_type \<Rightarrow> bytes \<Rightarrow> 'c liquid_array_ref option" where
  "deserialize_linear_integer p bs = (if is_float p then None else map_option (LA_LinearInteger p) (linear_from_bytes bs))"

definition deserialize_float ::
  "u32 float_type \<Rightarrow> u64 float_type \<Rightarrow> physical_type \<Rightarrow> bytes \<Rightarrow> 'c liquid_array_ref option" where
  "deserialize_float T32 T64 p bs =
     (if p = P_Float32 then map_option LA_Float32 (float_from_bytes T32 bs)
      else if p = P_Float64 then map_option LA_Float64 (float_from_bytes T64 bs) else None)"

definition read_from_bytes ::
  "u16 fastlanes \<Rightarrow> u32 float_type \<Rightarrow> u64 float_type \<Rightarrow> bool \<Rightarrow> bytes \<Rightarrow> 'c option \<Rightarrow> 'c liquid_array_ref option" where
  "read_from_bytes F T32 T64 chk bs context_compressor =
     Option.bind (ipc_header_from_bytes bs) (\<lambda>header.
     Option.bind (liquid_data_type_of (h_logical_type_id header)) (\<lambda>logical_type.
       case logical_type of
         Integer \<Rightarrow> Option.bind (expect_physical_type (h_physical_type_id header)) (\<lambda>p. deserialize_integer p bs)
       | ByteArray \<Rightarrow> Option.bind context_compressor (\<lambda>c. map_option LA_ByteArray (byte_from_bytes chk bs c))
       | ByteViewArray \<Rightarrow> Option.bind context_compressor (\<lambda>c. map_option LA_ByteViewArray (view_from_bytes F bs c))
       | Float \<Rightarrow> Option.bind (expect_physical_type (h_physical_type_id header)) (\<lambda>p. deserialize_float T32 T64 p bs)
       | FixedLenByteArray \<Rightarrow> Option.bind context_compressor (\<lambda>c. map_option LA_FixedLenByteArray (fixed_from_bytes chk bs c))
       | LinearInteger \<Rightarrow> Option.bind (expect_physical_type (h_physical_type_id header)) (\<lambda>p. deserialize_linear_integer p bs)))"

section \<open>The reader finds the kind of the writer\<close>

lemma expect_physical_type_id: "expect_physical_type (get_physical_type_id p) = Some p"
  by (cases p) (simp_all add: expect_physical_type_def physical_types_def)

text \<open>What a writer puts first.\<close>

definition headed :: "u16 \<Rightarrow> u16 \<Rightarrow> bytes \<Rightarrow> bool" where
  "headed l q bs \<longleftrightarrow> (\<exists>rest. bs = ipc_header_to_bytes (ipc_header_new l q) @ rest)"

lemma headed_read: "headed l q bs \<Longrightarrow> ipc_header_from_bytes bs = Some (ipc_header_new l q)"
  by (auto simp: headed_def header_roundtrip)

lemma headed_append: "headed l q bs \<Longrightarrow> headed l q (bs @ cs)"
  by (auto simp: headed_def)

lemma headed_pad8: "headed l q bs \<Longrightarrow> headed l q (pad8 bs)"
  by (simp add: pad8_def headed_append)

lemma headed_header: "headed l q (ipc_header_to_bytes (ipc_header_new l q))"
  by (auto simp: headed_def)

lemmas headed_intros = headed_append headed_pad8 headed_header

lemma writers_headed:
  "headed LIQUID_INTEGER (get_physical_type_id p) (to_bytes_inner p la)"
  "headed LIQUID_INTEGER (get_physical_type_id p) (delta_to_bytes_inner p ld)"
  "headed LIQUID_FLOAT (get_physical_type_id (ft_physical T)) (float_to_bytes_inner T lf)"
  "headed LIQUID_LINEAR_INTEGER (get_physical_type_id p) (linear_to_bytes_inner p ll)"
  "headed LIQUID_BYTE_ARRAY (arrow_byte_type_id (lb_original_arrow_type lb)) (byte_to_bytes_inner lb)"
  "headed LIQUID_BYTE_VIEW (arrow_byte_type_id (bv_original_arrow_type bv)) (view_to_bytes_inner F bv)"
  "headed LIQUID_FIXED_LEN 0 (fixed_to_bytes_inner lx)"
  unfolding to_bytes_inner_def delta_to_bytes_inner_def float_to_bytes_inner_def linear_to_bytes_inner_def byte_to_bytes_inner_def
    view_to_bytes_inner_def fixed_to_bytes_inner_def Let_def case_prod_beta LIQUID_INTEGER_def
  by (intro headed_intros)+

lemma read_headed:
  assumes "headed l q bs"
  shows "read_from_bytes F T32 T64 chk bs c = Option.bind (liquid_data_type_of l) (\<lambda>t. case t of
      Integer \<Rightarrow> Option.bind (expect_physical_type q) (\<lambda>p. deserialize_integer p bs)
    | ByteArray \<Rightarrow> Option.bind c (\<lambda>c. map_option LA_ByteArray (byte_from_bytes chk bs c))
    | ByteViewArray \<Rightarrow> Option.bind c (\<lambda>c. map_option LA_ByteViewArray (view_from_bytes F bs c))
    | Float \<Rightarrow> Option.bind (expect_physical_type q) (\<lambda>p. deserialize_float T32 T64 p bs)
    | FixedLenByteArray \<Rightarrow> Option.bind c (\<lambda>c. map_option LA_FixedLenByteArray (fixed_from_bytes chk bs c))
    | LinearInteger \<Rightarrow> Option.bind (expect_physical_type q) (\<lambda>p. deserialize_linear_integer p bs))"
  using assms by (simp add: read_from_bytes_def headed_read ipc_header_new_def)

lemma read_kinds:
  "read_from_bytes F T32 T64 chk (to_bytes_inner p la) c = deserialize_integer p (to_bytes_inner p la)"
  "read_from_bytes F T32 T64 chk (delta_to_bytes_inner p ld) c = deserialize_integer p (delta_to_bytes_inner p ld)"
  "read_from_bytes F T32 T64 chk (float_to_bytes_inner T lf) c = deserialize_float T32 T64 (ft_physical T) (float_to_bytes_inner T lf)"
  "read_from_bytes F T32 T64 chk (linear_to_bytes_inner p ll) c = deserialize_linear_integer p (linear_to_bytes_inner p ll)"
  "read_from_bytes F T32 T64 chk (byte_to_bytes_inner lb) (Some z) = map_option LA_ByteArray (byte_from_bytes chk (byte_to_bytes_inner lb) z)"
  "read_from_bytes F T32 T64 chk (view_to_bytes_inner F' bv) (Some z) = map_option LA_ByteViewArray (view_from_bytes F (view_to_bytes_inner F' bv) z)"
  "read_from_bytes F T32 T64 chk (fixed_to_bytes_inner lx) (Some z) = map_option LA_FixedLenByteArray (fixed_from_bytes chk (fixed_to_bytes_inner lx) z)"
  by (simp_all add: writers_headed [THEN read_headed] liquid_data_type_of_def expect_physical_type_id LIQUID_INTEGER_def LIQUID_FLOAT_def LIQUID_LINEAR_INTEGER_def
      LIQUID_BYTE_ARRAY_def LIQUID_BYTE_VIEW_def LIQUID_FIXED_LEN_def)

section \<open>A delta array read as a plain one\<close>

text \<open>The column 10, 20 of type \<open>i32\<close>; the difference 10 is written as 20.\<close>

definition sample_delta :: "u32 prim_array" where
  "sample_delta = \<lparr>pa_values = [10, 20], pa_nulls = None\<rparr>"

definition sample_delta_packed :: "u32 fastlanes \<Rightarrow> u32 bit_packed_array" where
  "sample_delta_packed F = from_primitive F \<lparr>pa_values = [0, 20], pa_nulls = None\<rparr> 5"

lemma sample_delta_encoded: "delta_from_arrow_array F P_Int32 sample_delta = Some \<lparr>ld_bit_packed = sample_delta_packed F, ld_reference_value = 10\<rparr>"
proof -
  have d: "delta_code P_Int32 (10 :: u32) 20 = 20" by code_simp
  have w: "get_bit_width 20 = 5" by code_simp
  show ?thesis by (simp add: delta_from_arrow_array_def sample_delta_def d w sample_delta_packed_def)
qed

lemma delta_bytes_plain:
  "delta_to_bytes_inner p ld = to_bytes_inner p \<lparr>lp_bit_packed = ld_bit_packed ld, lp_reference_value = ld_reference_value ld, lp_squeeze_policy = Quantize\<rparr>"
  by (simp add: delta_to_bytes_inner_def to_bytes_inner_def LIQUID_INTEGER_def)

lemma sample_delta_fits:
  assumes "fastlanes_ok F"
  shows "fits_u32 (sample_delta_packed F)"
proof -
  have "length (fl_pack F 5 ([0, 20] @ replicate 1022 0 :: u32 list)) = packed_words TYPE(32) 5"
    using assms unfolding fastlanes_ok_def by simp
  then show ?thesis
    by (simp add: fits_u32_def sample_delta_packed_def from_primitive_def Let_def null_bytes_def size_of_def packed_words_def)
qed

lemma sample_delta_plain:
  assumes "fastlanes_ok F"
  shows "encodes F \<lparr>lp_bit_packed = sample_delta_packed F, lp_reference_value = 10, lp_squeeze_policy = Quantize\<rparr>
    \<lparr>pa_values = [10, 30], pa_nulls = None\<rparr>"
proof -
  have "bp_ok (sample_delta_packed F)"
    unfolding sample_delta_packed_def by (rule from_primitive_ok [OF _ assms]) (simp_all add: pa_wf_def nulls_fit_def)
  moreover have "bp_nulls (sample_delta_packed F) = None" "bp_original_len (sample_delta_packed F) = 2"
    by (simp_all add: sample_delta_packed_def from_primitive_def Let_def)
  moreover have "take_bit 5 (20 :: u32) = 20" by code_simp
  then have "to_primitive F (sample_delta_packed F) = Some \<lparr>pa_values = [0, 20], pa_nulls = None\<rparr>"
    using to_primitive_from_primitive [OF assms, of 5] by (simp add: sample_delta_packed_def)
  ultimately show ?thesis by (simp add: encodes_def to_arrow_array_def Let_def pa_wf_def nulls_fit_def)
qed

end
