(* ===== verification/SampleStrings.thy ===== *)
theory SampleStrings
  imports SampleViews LiquidIpc
begin

text \<open>
  Instances of the kernels that string arrays rely on, and concrete columns of strings and decimals.
\<close>

section \<open>Kernels\<close>

definition plain_eq :: eq_kernel where
  "plain_eq a k = \<lparr>ba_values = map (\<lambda>v. v = k) (pa_values a), ba_nulls = pa_nulls a\<rparr>"

lemma plain_eq_ok: "eq_kernel_ok plain_eq"
  using pa_items_map by (auto simp: eq_kernel_ok_def plain_eq_def ba_items_def)

text \<open>The order of bytes; a pattern stands for itself.\<close>

fun string_op :: "df_operator \<Rightarrow> bytes \<Rightarrow> bytes \<Rightarrow> bool" where
  "string_op DF_Lt v n \<longleftrightarrow> bytes_cmp v n = Less"
| "string_op DF_LtEq v n \<longleftrightarrow> bytes_cmp v n \<noteq> Greater"
| "string_op DF_Gt v n \<longleftrightarrow> bytes_cmp v n = Greater"
| "string_op DF_GtEq v n \<longleftrightarrow> bytes_cmp v n \<noteq> Less"
| "string_op DF_NotEq v n \<longleftrightarrow> v \<noteq> n"
| "string_op DF_NotLikeMatch v n \<longleftrightarrow> v \<noteq> n"
| "string_op DF_NotILikeMatch v n \<longleftrightarrow> v \<noteq> n"
| "string_op _ v n \<longleftrightarrow> v = n"

lemma string_op_eq: "string_op DF_Eq = (=)" "string_op DF_NotEq = (\<noteq>)"
  by (simp_all add: fun_eq_iff)

definition string_cmp :: apply_cmp where
  "string_cmp rows op literal = map_option (\<lambda>n. \<lparr>ba_values = map (\<lambda>r. case r of Some v \<Rightarrow> string_op op v n | None \<Rightarrow> False) rows,
     ba_nulls = Some (pack_bits (map (\<lambda>r. r \<noteq> None) rows))\<rparr>) (get_bytes_needle literal)"

lemma string_cmp_ok: "apply_cmp_ok string_op string_cmp"
proof -
  have "pa_items \<lparr>pa_values = map (\<lambda>r. case r of Some v \<Rightarrow> P v | None \<Rightarrow> False) rows, pa_nulls = Some (pack_bits (map (\<lambda>r. r \<noteq> None) rows))\<rparr>
      = map (map_option P) rows" for P and rows :: "bytes option list"
    by (rule nth_equalityI) (auto simp: pa_items_def valid_at_def split: option.split)
  then show ?thesis by (simp add: apply_cmp_ok_def string_cmp_def ba_items_def)
qed

section \<open>Columns\<close>

lemma sample_string_values: "view_values list_dict_builder sample_rows = da_values sample_dict"
  by (simp add: view_values_def sample_dict_built)

lemma sample_strings:
  obtains la where "byte_from_byte_array list_dict_builder serial_lanes stored False sample_rows () AB_Utf8 = Some la"
  using fsst_new_total [of stored "map Some (da_values sample_dict)" "()"]
  by (auto simp: byte_from_byte_array_def sample_dict_built byte_from_dict_array_inner_def)

text \<open>The decimals 1, null, 2 and 1 again, of precision 10 and scale 2.\<close>

definition sample_decimals :: "bytes option list" where
  "sample_decimals = [Some (1 # replicate 15 0), None, Some (2 # replicate 15 0), Some (1 # replicate 15 0)]"

lemma sample_decimal_values: "view_values list_dict_builder sample_decimals = [2 # replicate 15 0, 1 # replicate 15 0]"
  by (simp add: view_values_def list_dict_builder_def sample_decimals_def map_filter_def Let_def)

lemma sample_decimal_array:
  obtains la where "fixed_from_decimal_array list_dict_builder serial_lanes stored False sample_decimals () (Decimal128 10 2) = Some la"
proof -
  obtain d where d: "list_dict_builder sample_decimals = Some d" using sample_decimal_values by (cases "list_dict_builder sample_decimals") (simp_all add: view_values_def)
  then show thesis using fsst_new_total [of stored "map Some (da_values d)" "()"] that by (auto simp: fixed_from_decimal_array_def)
qed

end
