(* ===== verification/Spec2Isabelle.thy ===== *)
theory Spec2Isabelle
  imports SampleRun CacheLimit PolicyRuns ParquetIds ByteCache SampleColumns SampleViews SampleScan ScanTypes ParquetPlans SampleStrings
begin

text \<open>
  LiquidCache in Isabelle/HOL: a library that models the cache of the repository, its policies,
  its keys, the selections and encodings it works on, and the theorems that make them correct.

  \<^bold>\<open>The program.\<close> LiquidCache caches columns of Parquet files. A batch of a column is cached
  under a key as an Arrow array, as a more compact Liquid array, as a squeezed array that keeps
  part of the data in memory and the rest on disk, or on disk only. A memory budget bounds what is
  held in memory; when an insert does not fit, a cache policy names victims, a squeeze policy
  turns each into the next smaller format, and reads may bring data back through a hydration
  policy. The Parquet reader asks for rows by selections, and evaluates predicates on encoded data.

  \<^bold>\<open>Theories and sources\<close> (paths under \<^verbatim>\<open>src/src\<close>).
  \<^item> \<open>Prelude\<close>: machine words, \<open>EntryID\<close> (\<^verbatim>\<open>storage/src/cache/utils.rs\<close>), batch tags, shared lemmas.
  \<^item> \<open>Budget\<close> (\<^verbatim>\<open>storage/src/cache/budget.rs\<close>): the counters as 64-bit words, each method a function,
    and \<open>budget_step\<close>, the atomic actions of concurrent \<open>try_reserve_memory\<close> calls.
  \<^item> \<open>ArtIndex\<close> (\<^verbatim>\<open>storage/src/cache/index.rs\<close>): the index over the radix tree, a parameter.
  \<^item> \<open>DoublyLinkedList\<close>, \<open>CachePolicy\<close>, \<open>LruPolicy\<close>, \<open>QueuePolicies\<close>, \<open>LiquidPolicy\<close>, \<open>HandPolicies\<close>,
    \<open>S3Fifo\<close> (\<^verbatim>\<open>storage/src/cache/policies/cache\<close>): the pointer list on an explicit heap and the
    policies on it; every trait method is a function that returns \<open>None\<close> where the code panics or
    touches freed memory. \<open>PolicyRuns\<close> compares whole histories of calls with list specifications
    through the locale \<open>policy_refinement\<close>.
  \<^item> \<open>CacheEntry\<close> (\<^verbatim>\<open>cached_batch.rs\<close>, \<^verbatim>\<open>expressions.rs\<close>), \<open>SqueezePolicy\<close> (\<^verbatim>\<open>policies/squeeze.rs\<close>),
    \<open>HydrationPolicy\<close> (\<^verbatim>\<open>policies/hydration.rs\<close>): the formats of an entry, and how an entry is made
    smaller or brought back. The array types are reached through the record \<open>arrays\<close>, the trait
    interface of the code, with the contract \<open>codec_ok\<close>; \<open>SampleArrays\<close> is an instance.
  \<^item> \<open>LiquidCache\<close> (\<^verbatim>\<open>core.rs\<close>, \<^verbatim>\<open>builders.rs\<close>): the cache state (index, budget, policy state, disk,
    compressors) and each operation, composed as in the code. A result is \<open>Ok\<close>, \<open>Panic\<close> or, when
    the fuel of the retry loop of an insert is used up, \<open>Running\<close>.
  \<^item> \<open>CacheInvariant\<close>, \<open>CacheReads\<close>, \<open>CacheProgress\<close>, \<open>CacheHistory\<close>, \<open>CacheLimit\<close>, \<open>SampleRun\<close>: the
    invariant \<open>cache_ok\<close>, the representation \<open>caches st M\<close> of a map \<open>M\<close>, termination of inserts,
    histories of calls, the constant limit, and a concrete run.
  \<^item> \<open>ParquetIds\<close> (\<^verbatim>\<open>parquet/src/cache/id.rs\<close>, \<^verbatim>\<open>io_context.rs\<close>): keys, batch numbers and file paths.
  \<^item> \<open>Selection\<close>, \<open>RowSelections\<close> (\<^verbatim>\<open>parquet/src/utils.rs\<close>, \<^verbatim>\<open>parquet/src/reader/utils\<close>,
    \<^verbatim>\<open>parquet/src/reader/runtime/utils.rs\<close>): selections as bit masks and as runs; the word-level
    \<open>boolean_buffer_and_then_bmi2\<close> reads memory bytes with wrap-around written out.
  \<^item> \<open>ByteCache\<close> (\<^verbatim>\<open>storage/src/utils/byte_cache.rs\<close>): chunk files over an object store.
  \<^item> \<open>BitPack\<close>, \<open>PrimitiveArray\<close>, \<open>HybridArray\<close>, \<open>Date32\<close> (\<^verbatim>\<open>storage/src/liquid_array\<close>): bit-packed
    integers, their encoded and delta-encoded columns with the byte format, squeezed integer
    columns with predicates, and squeezed dates. \<open>SampleColumns\<close> holds concrete columns.
  \<^item> \<open>PhysicalExpr\<close> (the expressions that \<^verbatim>\<open>liquid_array/mod.rs\<close> and the arrays inspect), \<open>Float64\<close>
    (rounding of double precision), \<open>FsstBuffer\<close> (\<^verbatim>\<open>liquid_array/raw/fsst_buffer.rs\<close>), \<open>ByteView\<close> and
    \<open>ByteViewCorrect\<close> (\<^verbatim>\<open>liquid_array/byte_view_array\<close>): compressed strings with compact offsets, and
    the dictionary columns on them with prefix keys and fingerprints, in memory and squeezed to
    disk. \<open>SampleViews\<close> holds instances of their parameters and a concrete column.
  \<^item> \<open>FloatArray\<close> and \<open>FloatBits\<close> (\<^verbatim>\<open>liquid_array/float_array.rs\<close>): floating-point columns as scaled
    decimals with patches, their squeezed form and its predicates; double precision is an instance.
  \<^item> \<open>LinearArray\<close> (\<^verbatim>\<open>liquid_array/linear_integer_array.rs\<close>): integer columns as a fitted line with
    residuals.
  \<^item> \<open>ByteArray\<close> (\<^verbatim>\<open>liquid_array/byte_array.rs\<close>, \<^verbatim>\<open>liquid_array/fix_len_byte_array.rs\<close>): strings and
    decimals as dictionaries with packed keys. \<open>LiquidIpc\<close> (\<^verbatim>\<open>liquid_array/ipc.rs\<close>): the reader that
    chooses the decoder from the header of a serialized array. \<open>SampleStrings\<close> holds instances.
  \<^item> \<open>ParquetCache\<close> (\<^verbatim>\<open>parquet/src/cache/mod.rs\<close>, \<^verbatim>\<open>parquet/src/cache/column.rs\<close>, \<^verbatim>\<open>parquet/src/io/mod.rs\<close>):
    files, row groups and columns over the cache, and the squeeze hints. \<open>ParquetReader\<close>
    (\<^verbatim>\<open>parquet/src/reader/runtime\<close>): planning a row group, filling the cache from the file, polling
    the reader and the stream. Both are state passing over the state of \<open>LiquidCache\<close>.
  \<^item> \<open>ScanWindows\<close>, \<open>ScanReads\<close>, \<open>ScanBatch\<close>, \<open>ScanReader\<close>, \<open>ScanFill\<close>, \<open>ScanStream\<close>, \<open>ScanFile\<close>: the proof
    that a scan delivers the rows, from one batch to the whole file. \<open>SampleScan\<close> is a concrete file;
    \<open>ScanTypes\<close> and \<open>ParquetPlans\<close> hold facts that need no assumption on the file.

  \<^bold>\<open>What is shown.\<close> C1: a cache in its default configuration is a map. C2 to C6: a scan of a Parquet
  file through the cache delivers exactly the rows asked for, its batches have their types, what a
  limit and a nested column do to it, and which hint the cache gets. C7 to C10: single operations
  return, reads and predicates give the rows last inserted, memory stays within the limit and is
  accounted exactly. C11 and C12: with LRU or FILO an insert may retry forever. C13 to C15: the
  lock-free budget, the index and squeezing. C16 to C21: the policies refine their list
  specifications on every history and are memory safe, and which of them advise an entry at most
  once. C22 to C24: keys, the byte cache and the composition of selections. C25 to C33: encoded
  columns of integers, floating-point numbers and dates round-trip, squeezed columns answer
  predicates, and where they do not. C34 to C40: columns of strings and decimals read back,
  predicates on them are exact, and exactly when they fail. Theorems of this file without a number
  add to these: flushing, statistics, files that share keys, the FIFO and FILO queues, and others.

  \<^bold>\<open>Fuel.\<close> The only loop that may run forever is the retry loop of \<open>insert_inner\<close>. Its fuel counts
  rounds; \<open>insert_fuel\<close> is large enough for the default policy from every state (C7), and C11 and
  C12 show that no fuel is enough for other policies. The loops of the Parquet stream have fuel
  for their rounds; \<open>scan_cost\<close>, computed from the file, is enough (C2). All other loops are
  structural or come with a measure.

  \<^bold>\<open>Parameters.\<close> Code of other packages is an argument of the definitions with its documented
  behaviour as a named hypothesis: the radix tree, Arrow's buffers and kernels (\<open>bit_ops_ok\<close>,
  \<open>buffer_ops_ok\<close>, \<open>builder_ok\<close>, \<open>kernels_ok\<close>, \<open>cmp_ok\<close>, \<open>eq_kernel_ok\<close>, \<open>dict_builder_ok\<close>, \<open>like_ok\<close>,
  \<open>slots_kept\<close>), \<open>RowSelection\<close>'s normal form (\<open>normalizes\<close>), fastlanes (\<open>fastlanes_ok\<close>), the FSST
  compressor (\<open>fsst_ok\<close>, \<open>symbol_ops_ok\<close>), the object store (\<open>store_ok\<close>), the Parquet library and its
  stream of a row group (\<open>parquet_lib\<close>, \<open>parquet_stream_ok\<close>), DataFusion's evaluation of predicates
  (\<open>predicate_ok\<close>, \<open>apply_cmp_ok\<close>), and the arithmetic of a floating-point type (\<open>float_type\<close>). Each
  has an instance that the witnesses use.

  \<^bold>\<open>Restrictions.\<close> C2 is about scans without a limit, with the batch size of the cache, on a flat
  schema without date or variant mappings, and futures run to their end when they are polled; the
  columns share one abstract compressor. C31 is about types of at most 32 bits. Single precision
  appears only as an arbitrary \<open>float_type\<close>. Debug assertions and metrics are left out.

  \<^bold>\<open>Not modelled.\<close> Concurrency beyond the budget (operations run one at a time); tracing, statistics
  for display and configuration; the memory sizes of the encodings; the variant encoding, which
  rests on a library of its own; the DataFusion plans, optimizers, file openers and the building of
  row filters, which rewrite DataFusion's own data; kernel I/O; the client and server, which forward
  to DataFusion and gRPC.
\<close>

section \<open>The cache is a map\<close>

text \<open>
  C1. A cache in its default configuration (\<open>LiquidPolicy\<close>, \<open>TranscodeSqueezeEvict\<close>,
  \<open>AlwaysHydrate\<close>), started empty with any limit, refines the map from keys to arrays: every
  history of inserts, reads with or without a selection, flushes and resets returns from each
  call without a panic, answers each read with the selected rows of the array inserted last
  under that key (or a miss), and ends in a state that represents the map. The fuel is the
  bound \<open>insert_fuel\<close> or more, so that every call really returns.
\<close>

theorem default_cache_refines_map:
  assumes "codec_ok A" and "no_variants A" and "sizes_fit A m" and "\<And>st. insert_fuel st \<le> fuel st"
    and "history_valid A cs Map.empty"
  shows "\<exists>rs st'. run_cache (default_env A) fuel cs (cache_new m liquid_policy_new c) = Ok (rs, st')
    \<and> caches (default_env A) tq_synced st' (spec_run cs Map.empty)
    \<and> history_ok A cs Map.empty rs"
  using default.run_cache_refines [of A fuel "cache_new m liquid_policy_new c" Map.empty cs] assms
    caches_new [of tq_synced liquid_policy_new "default_env A" m c] tq_synced_new
  by simp

text \<open>Applied to a limit of three bytes, so that the second insert has to evict the first.\<close>

theorem default_cache_refines_map_witness:
  "\<exists>rs st'. run_cache (default_env sample_arrays) insert_fuel sample_history
      (cache_new 3 liquid_policy_new ()) = Ok (rs, st')
    \<and> caches (default_env sample_arrays) tq_synced st' (spec_run sample_history Map.empty)
    \<and> history_ok sample_arrays sample_history Map.empty rs"
  by (rule default_cache_refines_map [OF sample_codec_ok sample_no_variants sample_sizes3 _ sample_history_valid])
    simp

section \<open>Scanning Parquet files\<close>





text \<open>
  C4. A limit is applied when a row group is planned, before the row filter: whatever the filter,
  the plan keeps the first \<open>l\<close> selected rows of the row group and takes their number off the
  limit. A query with a filter and a limit therefore never sees a matching row after the first \<open>l\<close>
  selected ones.
\<close>

theorem limit_before_filter:
  assumes "normalizes (row_selection_from (rt_lib R))" and "rf_limit rf = Some l" and "rf_offset rf = None"
    and "plan_row_group R rf g sel proj n ps = Ok (Some ctx, rf', ps')"
  shows "selected_rows (pc_selection ctx) = take l (case sel of Some s \<Rightarrow> selected_rows s | None \<Rightarrow> [0..<pm_row_groups (rf_metadata rf) ! g])
    \<and> rf_limit rf' = Some (l - length (selected_rows (pc_selection ctx)))"
  using plan_row_group_limit [OF assms] by blast

text \<open>The first row group of the sample with limit 1: the plan keeps row 0 only, on which the predicate is false.\<close>

theorem limit_before_filter_witness:
  "\<exists>ctx rf' ps'. plan_row_group sample_runtime sample_limited 0 None None 2 sample_parquet_cache = Ok (Some ctx, rf', ps')
    \<and> rf_filter sample_limited = Some [sample_predicate] \<and> selected_rows (pc_selection ctx) = [0] \<and> rf_limit rf' = Some 0"
proof -
  obtain ctx rf' ps' where p: "plan_row_group sample_runtime sample_limited 0 None None 2 sample_parquet_cache = Ok (Some ctx, rf', ps')"
    using sample_limited_plan by blast
  moreover have "selected_rows (pc_selection ctx) = [0] \<and> rf_limit rf' = Some 0"
    using limit_before_filter [OF runtime_okD(11) [OF byte_runtime_ok] _ _ p, of 1]
    by (simp add: sample_limited_def sample_meta_def upt_rec)
  ultimately show ?thesis by (auto simp: sample_limited_def)
qed



text \<open>
  C6. The store's squeeze hint for an entry is, of the last sixteen expressions recorded for the
  entry's column, the most frequent one, and of several such the most recent one.
\<close>

theorem squeeze_hint_is_majority:
  assumes "parquet_cache_new n m p c = Some ps" and "adds \<noteq> []"
  shows "case c_hints (lcp_store (add_hints adds ps)) i of
      None \<Rightarrow> recorded adds (column_of_entry i) = []
    | Some x \<Rightarrow> most_frequent (recent (recorded adds (column_of_entry i))) x"
proof -
  have "lcp_expression_hints ps = Map.empty" using assms(1) by (auto simp: parquet_cache_new_def split: if_split_asm)
  note h = add_hints_histories [OF this assms(2)]
  show ?thesis using tracker_majority_most_frequent [of "recent (recorded adds (column_of_entry i))"]
    by (auto simp: h parquet_squeeze_hint_def split: option.splits)
qed

theorem squeeze_hint_is_majority_witness:
  "c_hints (lcp_store (add_hints [(EntryID 0, PredicateColumn), (EntryID 1, SubstringSearch), (EntryID 0, SubstringSearch)]
     sample_parquet_cache)) (EntryID 5) = Some SubstringSearch"
proof -
  let ?adds = "[(EntryID 0, PredicateColumn), (EntryID 1, SubstringSearch), (EntryID 0, SubstringSearch)] :: (entry_id \<times> arrow_type cache_expression) list"
  have r: "recent (recorded ?adds (column_of_entry (EntryID 5))) = [PredicateColumn, SubstringSearch, SubstringSearch]"
    by code_simp
  have "case c_hints (lcp_store (add_hints ?adds sample_parquet_cache)) (EntryID 5) of
      None \<Rightarrow> recorded ?adds (column_of_entry (EntryID 5)) = []
    | Some x \<Rightarrow> most_frequent (recent (recorded ?adds (column_of_entry (EntryID 5)))) x"
    by (rule squeeze_hint_is_majority [OF sample_cache_new]) simp
  then show ?thesis using r by (auto simp: most_frequent_def recent_def split: option.splits)
qed

text \<open>
  Files get consecutive ids, but a key keeps only 16 bits of the file's id: two files share
  the keys of all their batches exactly when their positions in the order of registration are
  congruent modulo \<open>2 ^ 16\<close>. Up to \<open>2 ^ 16\<close> files the keys are apart; the next file reads the
  entries of the first.
\<close>

theorem files_share_keys:
  assumes "parquet_cache_new n m p c = Some ps" and "distinct (map fst files)" and "length files \<le> 2 ^ 64"
    and "i < length files" and "j < length files"
  shows "file_key (fst (register_all files ps) ! i) g col b = file_key (fst (register_all files ps) ! j) g col b
    \<longleftrightarrow> i mod 2 ^ 16 = j mod 2 ^ 16"
proof -
  have ps: "lcp_files ps = Map.empty" "lcp_current_file_id ps = 0" using assms(1) by (auto simp: parquet_cache_new_def split: if_split_asm)
  have id: "cf_file_id (fst (register_all files ps) ! k) = of_nat k" if "k < length files" for k
    using register_all_ids [OF assms(2) _ that, of ps] ps by simp
  have "unat (ucast (of_nat k :: u64) :: u16) = k mod 2 ^ 16" if "k < length files" for k
    using that assms(3) by (simp add: unat_ucast_u16 unat_of_nat)
  then show ?thesis using assms(4,5) unfolding file_key_eq by (simp add: id) (metis word_unat_eq_iff)
qed

theorem files_share_keys_witness:
  "file_key (fst (register_all many_files sample_parquet_cache) ! 0) 0 0 (batch_id_from_raw 0) = file_key (fst (register_all many_files sample_parquet_cache) ! 65536) 0 0 (batch_id_from_raw 0)
   \<and> file_key (fst (register_all many_files sample_parquet_cache) ! 0) 0 0 (batch_id_from_raw 0) \<noteq> file_key (fst (register_all many_files sample_parquet_cache) ! 1) 0 0 (batch_id_from_raw 0)"
  using files_share_keys [OF sample_cache_new many_files_distinct, of 0 65536 0 0 "batch_id_from_raw 0"] files_share_keys [OF sample_cache_new many_files_distinct, of 0 1 0 0 "batch_id_from_raw 0"]
  by simp

section \<open>Single operations\<close>

text \<open>
  C7. An insert in the default configuration returns after at most \<open>insert_fuel\<close> rounds of its
  loop, whatever the batch's size, and maps the key to the batch; every other key keeps its
  array, also those evicted to make room.
\<close>

theorem default_insert_returns:
  assumes "codec_ok A" and "caches (default_env A) tq_synced st M" and "insert_fuel st \<le> n"
  shows "\<exists>st'. insert_run (default_env A) n skip hint i x st = Ok st'
    \<and> caches (default_env A) tq_synced st' (M(i \<mapsto> x))"
proof -
  have ok: "cache_ok (default_env A) tq_synced st" using assms(2) by (simp add: caches_def)
  show ?thesis
    using default.insert_run_ok [of A st M False n i skip hint x] assms
      default.insert_lives_liquid(1) [of A st n i, OF _ ok] by simp
qed

theorem default_insert_returns_witness:
  "\<exists>st'. insert_run (default_env sample_arrays) (insert_fuel sample_state) False None (EntryID 3)
      [1, 2, 3, 4, 5] sample_state = Ok st'
    \<and> caches (default_env sample_arrays) tq_synced st' (sample_map(EntryID 3 \<mapsto> [1, 2, 3, 4, 5]))"
  by (rule default_insert_returns [OF sample_codec_ok sample_state_caches order_refl])

text \<open>
  C8. A read in the default configuration returns the selected rows of the cached array,
  wherever the entry is (in memory, squeezed or on disk), whether or not it hydrates the entry
  and evicts others for it; the map is unchanged. \<open>shortcut\<close> excludes the reads that answer
  from squeezed data alone (a date component the caller asked for, and variant arrays).
\<close>

theorem default_get_returns_rows:
  assumes "codec_ok A" and "caches (default_env A) tq_synced st M" and "M i = Some a"
    and "\<And>e. ix_map (c_index st) i = Some e \<Longrightarrow> \<not> shortcut A e expr"
    and "selection_fits A sel a" and "insert_fuel st \<le> n"
  shows "\<exists>x st'. read_arrow_array (default_env A) n i sel expr st = Ok (Some x, st')
    \<and> reads_as A x sel a \<and> caches (default_env A) tq_synced st' M"
proof -
  have ok: "cache_ok (default_env A) tq_synced st" using assms(2) by (simp add: caches_def)
  obtain e where e: "ix_map (c_index st) i = Some e"
    using assms(2,3) unfolding caches_def stores_def by blast
  show ?thesis
    using default.read_arrow_array_ok [of A st M i a e expr sel False n] assms e
      default.insert_lives_liquid(2) [of A st n i, OF _ ok] by auto
qed

theorem default_get_returns_rows_witness:
  "\<exists>x st'. read_arrow_array (default_env sample_arrays) (insert_fuel sample_state) (EntryID 1)
      (Some [True, False]) None sample_state = Ok (Some x, st')
    \<and> reads_as sample_arrays x (Some [True, False]) [7, 8]
    \<and> caches (default_env sample_arrays) tq_synced st' sample_map"
  by (rule default_get_returns_rows [OF sample_codec_ok sample_state_caches])
    (simp_all add: no_variants_shortcut [OF sample_no_variants] sample_selection)



text \<open>
  C10. Memory stays within the limit: after any history of calls on a default cache built with
  limit \<open>m\<close>, the memory counter is the exact sum of the sizes of the cached entries and at most
  \<open>m\<close>, and the entry counter is the number of cached entries.
\<close>

theorem default_cache_memory_bounded:
  assumes "codec_ok A" and "no_variants A" and "sizes_fit A m" and "\<And>st. insert_fuel st \<le> fuel st"
    and "history_valid A cs Map.empty"
  shows "\<exists>rs st'. run_cache (default_env A) fuel cs (cache_new m liquid_policy_new c) = Ok (rs, st')
    \<and> unat (used_memory_bytes (c_budget st'))
        = (\<Sum>i \<in> dom (ix_map (c_index st')). unat (entry_memory_usage_bytes A (the (ix_map (c_index st') i))))
    \<and> used_memory_bytes (c_budget st') \<le> m
    \<and> ix_count (c_index st') = of_nat (card (dom (ix_map (c_index st'))))"
proof -
  obtain rs st' where r: "run_cache (default_env A) fuel cs (cache_new m liquid_policy_new c) = Ok (rs, st')"
    "caches (default_env A) tq_synced st' (spec_run cs Map.empty)"
    using default.run_cache_refines [of A fuel "cache_new m liquid_policy_new c" Map.empty cs] assms
      caches_new [of tq_synced liquid_policy_new "default_env A" m c] tq_synced_new by auto
  have "max_memory_bytes (c_budget st') = m"
    using run_cache_limit [OF r(1)] by (simp add: cache_new_def budget_new_def)
  with r show ?thesis
    by (auto simp: caches_def cache_ok_def mem_used_def index_ok_def word_le_nat_alt)
qed

theorem default_cache_memory_bounded_witness:
  "\<exists>rs st'. run_cache (default_env sample_arrays) insert_fuel sample_history (cache_new 3 liquid_policy_new ()) = Ok (rs, st')
    \<and> unat (used_memory_bytes (c_budget st'))
        = (\<Sum>i \<in> dom (ix_map (c_index st')). unat (entry_memory_usage_bytes sample_arrays (the (ix_map (c_index st') i))))
    \<and> used_memory_bytes (c_budget st') \<le> 3
    \<and> ix_count (c_index st') = of_nat (card (dom (ix_map (c_index st'))))"
  by (rule default_cache_memory_bounded [OF sample_codec_ok sample_no_variants sample_sizes3 _ sample_history_valid])
    simp

text \<open>
  Flushing moves every entry to disk: no entry keeps any memory, the counter is zero, and
  the map is unchanged, so nothing is lost.
\<close>

theorem default_flush_empties_memory:
  assumes "codec_ok A" and "caches (default_env A) tq_synced st M" and "distinct ks" and "set ks = dom M"
  shows "\<exists>st'. flush_all_to_disk (default_env A) ks st = Ok st' \<and> caches (default_env A) tq_synced st' M
    \<and> (\<forall>i e. ix_map (c_index st') i = Some e \<longrightarrow> (\<exists>t. e = DiskLiquid t \<or> e = DiskArrow t))
    \<and> used_memory_bytes (c_budget st') = 0"
proof -
  have rank: "\<exists>t. e = DiskLiquid t \<or> e = DiskArrow t" if "entry_rank e = 0"
    for e :: "('a, 'b, 'c, 'd) cache_entry" using that by (cases e) auto
  obtain st' where "flush_all_to_disk (default_env A) ks st = Ok st'" "caches (default_env A) tq_synced st' M"
    "\<forall>e \<in> ran (ix_map (c_index st')). entry_rank e = 0" "used_memory_bytes (c_budget st') = 0"
    using default.flush_all_ok [of A st M ks] assms by (auto simp: caches_def)
  with rank show ?thesis by (fastforce simp: ran_def)
qed

theorem default_flush_empties_memory_witness:
  "\<exists>st'. flush_all_to_disk (default_env sample_arrays) [EntryID 2, EntryID 1] sample_state = Ok st'
    \<and> caches (default_env sample_arrays) tq_synced st' sample_map
    \<and> (\<forall>i e. ix_map (c_index st') i = Some e \<longrightarrow> (\<exists>t. e = DiskLiquid t \<or> e = DiskArrow t))
    \<and> used_memory_bytes (c_budget st') = 0"
  by (rule default_flush_empties_memory [OF sample_codec_ok sample_state_caches]) auto

text \<open>
  \<open>try_read_liquid\<close> returns a Liquid array only if it decodes to the array cached under the
  key, and leaves the map unchanged, also when it hydrates the entry.
\<close>

theorem default_try_read_liquid:
  assumes "codec_ok A" and "caches (default_env A) tq_synced st M" and "insert_fuel st \<le> n"
  shows "\<exists>r st'. try_read_liquid (default_env A) n i st = Ok (r, st') \<and> caches (default_env A) tq_synced st' M
    \<and> (\<forall>l. r = Some l \<longrightarrow> (\<exists>a. M i = Some a \<and> arrow_eq A (liquid_to_arrow A l) a))"
proof -
  have ok: "cache_ok (default_env A) tq_synced st" using assms(2) by (simp add: caches_def)
  show ?thesis
    using default.try_read_liquid_ok [of A st M False n i] assms
      default.insert_lives_liquid(2) [of A st n i, OF _ ok] by auto
qed

theorem default_try_read_liquid_witness:
  "\<exists>r st'. try_read_liquid (default_env sample_arrays) (insert_fuel sample_state) (EntryID 1) sample_state = Ok (r, st')
    \<and> caches (default_env sample_arrays) tq_synced st' sample_map
    \<and> (\<forall>l. r = Some l \<longrightarrow> (\<exists>a. sample_map (EntryID 1) = Some a
          \<and> arrow_eq sample_arrays (liquid_to_arrow sample_arrays l) a))"
  by (rule default_try_read_liquid [OF sample_codec_ok sample_state_caches order_refl])

text \<open>
  The statistics add up: the entries counted by format sum to the entry count, and the
  bytes counted by format sum to the memory counter of the budget.
\<close>

lemma stats_totals:
  assumes "caches (default_env A) tq_synced st M" and "distinct ks" and "set ks = dom M"
  shows "let z = stats (default_env A) ks st in
    memory_arrow_entries z + memory_liquid_entries z + memory_squeezed_liquid_entries z
      + disk_liquid_entries z + disk_arrow_entries z = total_entries z
    \<and> memory_arrow_bytes z + memory_liquid_bytes z + memory_squeezed_liquid_bytes z = memory_usage_bytes z"
  using stats_add_up [of "default_env A" tq_synced st ks] assms
  by (simp add: caches_def stat_entries_def stat_bytes_def)

section \<open>Inserts that never return\<close>




text \<open>
  C12. With FILO an insert may never return although evicting would make it fit: once the eight
  newest entries are on disk, every request for victims gives those eight again, and older
  entries that do hold memory are never reached.
\<close>

theorem filo_insert_stuck:
  assumes "codec_ok A" and "cache_ok (filo_env A) (\<lambda>p m. queue_inv p) st"
    and "queue_rep (c_policy st) xs" and "xs \<noteq> []"
    and "\<And>v. v \<in> set (take 8 xs) \<Longrightarrow> \<exists>t. ix_map (c_index st) v = Some (DiskArrow t) \<or> ix_map (c_index st) v = Some (DiskLiquid t)"
    and "\<not> fits (filo_env A) i batch st"
  shows "insert_inner (filo_env A) n i batch st = Running"
  by (rule filo_stuck [OF assms(1-4) _ assms(6)]) (use assms(5) in force)

text \<open>
  A state with entry 9 in memory, eight newer entries on disk and a limit of nine bytes: a batch
  of nine bytes would fit without entry 9, and is retried forever.
\<close>

definition filo_full :: "queue_state \<Rightarrow> (bytes, bytes, nat, unit, unit, queue_state) cache" where
  "filo_full p = \<lparr>c_index = fold (\<lambda>k. index_insert (EntryID k) (DiskArrow ())) [1, 2, 3, 4, 5, 6, 7, 8]
       (index_insert (EntryID 9) (MemoryArrow [1]) index_new),
     c_budget = \<lparr>max_memory_bytes = 9, used_memory_bytes = 1, used_disk_bytes = 8\<rparr>,
     c_policy = p, c_disk = (\<lambda>_. Some [0]), c_compressor = (), c_hints = Map.empty\<rparr>"

lemma filo_full_ok: "queue_inv p \<Longrightarrow> cache_ok (filo_env sample_arrays) (\<lambda>p m. queue_inv p) (filo_full p)"
proof -
  assume "queue_inv p"
  moreover have "index_ok (c_index (filo_full p))"
    unfolding filo_full_def by (simp add: index_insert_ok)
  moreover have "mem_used sample_arrays (ix_map (c_index (filo_full p))) = 1"
    unfolding filo_full_def
    by (simp add: mem_used_upd_new index_new_def) (simp add: byte_arrays_def sample_size_def)
  ultimately show ?thesis
    using byte_sizes_fit [of 9] by (simp add: cache_ok_def filo_env_def) (simp add: filo_full_def)
qed

theorem filo_insert_stuck_witness:
  "\<exists>p. queue_rep p (map EntryID [1, 2, 3, 4, 5, 6, 7, 8, 9])
    \<and> insert_inner (filo_env sample_arrays) 1000 (EntryID 10) (MemoryArrow [1, 2, 3, 4, 5, 6, 7, 8, 9]) (filo_full p) = Running"
proof -
  let ?cs = "map (\<lambda>k. Insert (EntryID k) BT_MemoryArrow) [9, 8, 7, 6, 5, 4, 3, 2, 1]"
  obtain p where p: "queue_rep p (snd (run_spec filo_spec ?cs []))"
    using filo_ref.run_refines [OF queue_rep_default, of ?cs] by blast
  then have rep: "queue_rep p (map EntryID [1, 2, 3, 4, 5, 6, 7, 8, 9])" by (simp add: filo_spec_def)
  have "\<not> fits (filo_env sample_arrays) (EntryID 10) (MemoryArrow [1, 2, 3, 4, 5, 6, 7, 8, 9]) (filo_full p)"
    by (simp add: fits_def filo_env_def filo_full_def mem_used_upd_new index_new_def)
      (simp add: byte_arrays_def sample_size_def)
  then have "insert_inner (filo_env sample_arrays) 1000 (EntryID 10) (MemoryArrow [1, 2, 3, 4, 5, 6, 7, 8, 9]) (filo_full p) = Running"
    by (intro filo_insert_stuck [OF sample_codec_ok filo_full_ok, where xs = "map EntryID [1, 2, 3, 4, 5, 6, 7, 8, 9]"])
      (use rep in \<open>auto simp: queue_inv_def filo_full_def index_new_def\<close>)
  with rep show ?thesis by blast
qed

section \<open>Budget, index, squeezing and hydration\<close>

text \<open>
  C13. The lock-free reservation keeps the limit under every interleaving: whatever \<open>n\<close> threads
  do with loads, compare-exchanges and releases, the counter is the sum of the bytes the
  threads hold and at most the limit. No bytes are lost or counted twice by a race.
\<close>

theorem budget_never_overcommits:
  assumes "budget_reachable n m s"
  shows "unat (cell s) = (\<Sum>t<n. held s t) \<and> cell s \<le> m \<and> limit s = m"
  using budget_reachable_inv [OF assms] by (simp add: budget_inv_def word_le_nat_alt)

text \<open>Two threads race for ten bytes; the second has loaded the counter before the first one's exchange.\<close>

definition raced :: shared_budget where
  "raced = \<lparr>limit = 10, cell = 7, pcs = (\<lambda>_. Outside)(1 := CasFrom 0 6), held = (\<lambda>_. 0)(0 := 7)\<rparr>"

lemma raced_reachable: "budget_reachable 2 10 raced"
proof -
  let ?s1 = "(shared_init 10)\<lparr>pcs := (pcs (shared_init 10))(0 := LoadUsed 7)\<rparr>"
  let ?s2 = "?s1\<lparr>pcs := (pcs ?s1)(0 := CasFrom (cell ?s1) 7)\<rparr>"
  let ?s3 = "?s2\<lparr>pcs := (pcs ?s2)(1 := LoadUsed 6)\<rparr>"
  let ?s4 = "?s3\<lparr>pcs := (pcs ?s3)(1 := CasFrom (cell ?s3) 6)\<rparr>"
  let ?s5 = "?s4\<lparr>cell := 0 + 7, pcs := (pcs ?s4)(0 := Outside), held := (held ?s4)(0 := held ?s4 0 + unat (7::usize))\<rparr>"
  have "budget_step 2 (shared_init 10) ?s1" by (rule budget_step.call) (simp_all add: shared_init_def)
  moreover have "budget_step 2 ?s1 ?s2" by (rule budget_step.load_fits [where r = 7]) (simp_all add: shared_init_def)
  moreover have "budget_step 2 ?s2 ?s3" by (rule budget_step.call) (simp_all add: shared_init_def)
  moreover have "budget_step 2 ?s3 ?s4" by (rule budget_step.load_fits [where r = 6]) (simp_all add: shared_init_def)
  moreover have "budget_step 2 ?s4 ?s5" by (rule budget_step.cas_ok [where u = 0]) (simp_all add: shared_init_def)
  ultimately have "budget_reachable 2 10 ?s5" by (meson budget_reachable.intros)
  moreover have "?s5 = raced" by (auto simp: raced_def shared_init_def fun_eq_iff)
  ultimately show ?thesis by simp
qed

theorem budget_never_overcommits_witness:
  "unat (cell raced) = (\<Sum>t<2. held raced t) \<and> cell raced \<le> 10 \<and> limit raced = 10"
  by (rule budget_never_overcommits [OF raced_reachable])

text \<open>
  C14. \<open>ArtIndex\<close> refines a map with an entry counter, given the documented behaviour of the
  radix tree: inserting never panics and counts an entry exactly when its key is new, resetting
  empties map and counter, and \<open>for_each\<close> folds over every entry once.
\<close>

theorem art_index_refines:
  assumes "congee_ok C"
  shows "abs_index C (art_index_new C) = index_new
    \<and> (\<exists>ix'. art_index_insert C i v ix = Ok ix' \<and> abs_index C ix' = index_insert i v (abs_index C ix))
    \<and> (\<exists>ix'. art_index_reset C ix = Ok ix' \<and> abs_index C ix' = index_reset (abs_index C ix))
    \<and> (\<exists>ks. distinct ks \<and> set ks = dom (ix_map (abs_index C ix))
        \<and> art_index_for_each C f ix b = Ok (fold (\<lambda>k. f k (the (ix_map (abs_index C ix) k))) ks b))
    \<and> art_index_get C i ix = ix_map (abs_index C ix) i
    \<and> art_index_is_cached C i ix = (i \<in> dom (ix_map (abs_index C ix)))"
proof (intro conjI)
  have "dom (ix_map (abs_index C ix)) = set (art_keys C (art ix))"
    using congee_okD(6) [OF assms] by (auto simp: abs_index_def)
  then show "\<exists>ks. distinct ks \<and> set ks = dom (ix_map (abs_index C ix))
      \<and> art_index_for_each C f ix b = Ok (fold (\<lambda>k. f k (the (ix_map (abs_index C ix) k))) ks b)"
    using congee_okD(5) [OF assms, of "art ix"] abs_index_for_each [OF assms, of f ix b] by metis
qed (use abs_index_new [OF assms] abs_index_insert [OF assms] abs_index_reset [OF assms] in
  \<open>auto simp: art_index_get_def art_index_is_cached_def abs_index_def\<close>)

theorem art_index_refines_witness:
  "abs_index (alist_congee :: ((entry_id \<times> nat) list, nat) congee) (art_index_new alist_congee) = index_new
    \<and> (\<exists>ix'. art_index_insert alist_congee (EntryID 2) (8 :: nat) \<lparr>art = [(EntryID 1, 7)], art_entry_count = 1\<rparr> = Ok ix'
        \<and> abs_index alist_congee ix' = index_insert (EntryID 2) 8 (abs_index alist_congee \<lparr>art = [(EntryID 1, 7)], art_entry_count = 1\<rparr>))"
  using art_index_refines [OF alist_congee_ok, of "EntryID 2" "8 :: nat" "\<lparr>art = [(EntryID 1, 7)], art_entry_count = 1\<rparr>"
    "\<lambda>k v b. v + b" "0 :: nat"] by blast

text \<open>\<open>Evict\<close> needs one squeeze only.\<close>

lemma evict_squeeze_rank: "evict_squeeze A c hint e = Ok ((e', b), c') \<Longrightarrow> entry_rank e' = 0"
  by (cases e) (auto simp: obind_Ok_conv)

lemma rank0_disk: "entry_rank e = 0 \<Longrightarrow> \<exists>t. e = DiskLiquid t \<or> e = DiskArrow t"
  by (cases e) auto

text \<open>
  C15. Squeezing ends on disk and loses nothing: whatever the hint, three squeezes by
  \<open>TranscodeSqueezeEvict\<close> or \<open>TranscodeEvict\<close> and one by \<open>Evict\<close>, each with its bytes
  written, turn any entry into a disk entry from which the same rows can be read.
\<close>

theorem squeezing_reaches_disk:
  assumes "codec_ok A" and "entry_holds A c d e a"
    and "(sq, k) \<in> {(transcode_squeeze_evict A, 3), (transcode_evict A, 3), (evict_squeeze A, Suc 0)}"
  shows "\<exists>e' d' c'. squeezes sq k c hint d e = Ok (e', d', c')
    \<and> entry_holds A c' d' e' a \<and> (\<exists>t. e' = DiskLiquid t \<or> e' = DiskArrow t)"
proof -
  have three: "\<exists>t. f = DiskLiquid t \<or> f = DiskArrow t" if "entry_rank f \<le> entry_rank e - 3"
    for f :: "('a, 'b, 'c, 'd) cache_entry" using that entry_rank_le3 [of e] by (intro rank0_disk) simp
  consider "sq = transcode_squeeze_evict A" "k = 3" | "sq = transcode_evict A" "k = 3"
    | "sq = evict_squeeze A" "k = Suc 0" using assms(3) by auto
  then show ?thesis
  proof cases
    case 1
    with tse.squeezes_ok [OF assms(1,2), of 3 hint] three show ?thesis by blast
  next
    case 2
    with tevict.squeezes_ok [OF assms(1,2), of 3 hint] three show ?thesis by blast
  next
    case 3
    with evict.squeezes_ok [OF assms(1,2), of "Suc 0" hint] show ?thesis
      by (fastforce simp: obind_Ok_conv dest: evict_squeeze_rank intro: rank0_disk)
  qed
qed

theorem squeezing_reaches_disk_witness:
  "\<exists>e' d' c'. squeezes (transcode_squeeze_evict sample_arrays) 3 () (Some PredicateColumn) None (MemoryArrow [7, 8])
      = Ok (e', d', c')
    \<and> entry_holds sample_arrays c' d' e' [7, 8] \<and> (\<exists>t. e' = DiskLiquid t \<or> e' = DiskArrow t)"
  by (rule squeezing_reaches_disk [OF sample_codec_ok]) (simp_all add: sample_codec_ok arrow_eq_refl)

text \<open>
  Hydration promotes the same data: an entry that \<open>AlwaysHydrate\<close> proposes for a cached
  entry, from its materialized array, is an in-memory entry that stores the array the cached
  entry stored, and what could be decoded before can be decoded after it.
\<close>

lemma hydration_keeps_data:
  assumes "codec_ok A" and "always_hydrate A c r = (Some e, c')" and "entry_holds A c d (hr_cached r) a"
    and "materialized_holds A c (hr_materialized r) a"
  shows "entry_holds A c' d e a \<and> batch_type_of e \<notin> {BT_DiskArrow, BT_DiskLiquid} \<and> compressor_le A c c'"
proof -
  have "0 < entry_rank e" using always.hydrate_rank [OF assms(1,2)] by simp
  then have "batch_type_of e \<notin> {BT_DiskArrow, BT_DiskLiquid}" by (cases e) auto
  with always.hydrate_holds [OF assms] always.hydrate_compressor [OF assms(1,2)] show ?thesis by blast
qed

section \<open>Cache policies\<close>

text \<open>
  C16. \<open>LruPolicy\<close>, a hash map beside a linked list of raw pointers, behaves on every history of
  calls like a recency list: inserted and accessed entries move to the front, victims come from
  the back, least recently used first. No call dereferences a dead node or fails.
\<close>

theorem lru_is_recency_list:
  "\<exists>s. run_policy lru_ops cs lru_new = Some (fst (run_spec recency_spec cs []), s)
    \<and> lru_rep s (snd (run_spec recency_spec cs []))"
  by (rule lru_ref.run_refines [OF lru_rep_new])

text \<open>
  \<open>FifoPolicy\<close> hands out entries in the order of their last insert and \<open>FiloPolicy\<close> in the
  reverse order, on every history of calls.
\<close>

theorem fifo_filo_are_queues:
  "(\<exists>s. run_policy fifo_ops cs queue_default = Some (fst (run_spec fifo_spec cs []), s)
      \<and> queue_rep s (snd (run_spec fifo_spec cs [])))
    \<and> (\<exists>s. run_policy filo_ops cs queue_default = Some (fst (run_spec filo_spec cs []), s)
      \<and> queue_rep s (snd (run_spec filo_spec cs [])))"
  using fifo_ref.run_refines [OF queue_rep_default] filo_ref.run_refines [OF queue_rep_default] by blast

text \<open>
  C17. \<open>LiquidPolicy\<close> behaves on every history like four FIFO queues, one per format: an insert
  puts the entry at the back of the queue of its format and takes it out of any other, victims
  are the Arrow entries first, then the Liquid, then the squeezed ones, and entries on disk are
  never handed out.
\<close>

theorem liquid_policy_serves_by_format:
  "\<exists>s. run_policy liquid_ops cs liquid_policy_new = Some (fst (run_spec liquid_spec cs (\<lambda>_. [])), s)
    \<and> tq_rep s (snd (run_spec liquid_spec cs (\<lambda>_. [])))"
  by (rule liquid_ref.run_refines [OF tq_rep_new])

text \<open>
  C18. \<open>ClockPolicy\<close> (with any size function) and \<open>SievePolicy\<close> behave on every history like a
  list with a hand: CLOCK walks from head to tail and inserts with the flag set, SIEVE walks
  from tail to head and inserts with the flag clear; an access sets the flag. The scan of
  either always ends.
\<close>

theorem clock_sieve_follow_the_hand:
  "(\<exists>s. run_policy (clock_ops szs) cs hand_state_default = Some (fst (run_spec (hand_spec True) cs ([], [])), s)
      \<and> hand_rep True (clock_entry_size szs) s (snd (run_spec (hand_spec True) cs ([], []))))
    \<and> (\<exists>s. run_policy sieve_ops cs hand_state_default = Some (fst (run_spec (hand_spec False) cs ([], [])), s)
      \<and> hand_rep False sieve_entry_size s (snd (run_spec (hand_spec False) cs ([], []))))"
  using clock_ref.run_refines [OF hand_rep_default] sieve_ref.run_refines [OF hand_rep_default] by blast

lemma hand_victim_second_chance:
  assumes "snd z \<noteq> []"
  shows "fst (hand_victims (Suc 0) z) = [hn_entry_id (fst (second_chance (ahead z)))]
    \<and> ahead (snd (hand_victims (Suc 0) z)) = snd (second_chance (ahead z))"
proof -
  obtain x bs where "snd (sweep (Suc (flags z)) z) = x # bs"
    "(x, ahead (take_out (sweep (Suc (flags z)) z))) = second_chance (ahead z)"
    using sweep_second_chance [OF assms lessI] by blast
  with assms show ?thesis by (auto simp: Let_def dest: sym)
qed

text \<open>
  One victim of CLOCK or SIEVE is chosen by second chance: going round from the hand, the
  first entry whose flag is clear leaves, the flagged ones passed on the way are cleared and
  will be met last; if all are flagged the entry at the hand leaves after a full turn.
\<close>

lemma hand_policies_give_second_chance:
  assumes "snd z \<noteq> []"
  shows "(hand_rep True (clock_entry_size szs) s z \<longrightarrow>
      (\<exists>s' z'. clock_find_victim szs 1 s = Some ([hn_entry_id (fst (second_chance (ahead z)))], s')
        \<and> hand_rep True (clock_entry_size szs) s' z' \<and> ahead z' = snd (second_chance (ahead z))))
    \<and> (hand_rep False sieve_entry_size s z \<longrightarrow>
      (\<exists>s' z'. sieve_find_victim 1 s = Some ([hn_entry_id (fst (second_chance (ahead z)))], s')
        \<and> hand_rep False sieve_entry_size s' z' \<and> ahead z' = snd (second_chance (ahead z))))"
  using hand_victim_second_chance [OF assms] clock_find_victim_rep [of szs s z 1] sieve_find_victim_rep [of s z 1]
  by fastforce

text \<open>
  C19. Advice is given once: for LRU, FIFO, FILO, \<open>LiquidPolicy\<close>, CLOCK and SIEVE, in every
  history of calls from the start an entry is handed out as a victim at most as often as it was
  inserted, no answer names an entry twice, and no call fails.
\<close>

theorem policies_advise_once:
  "advises_once lru_ops lru_new \<and> advises_once fifo_ops queue_default \<and> advises_once filo_ops queue_default
    \<and> advises_once liquid_ops liquid_policy_new \<and> advises_once (clock_ops szs) hand_state_default
    \<and> advises_once sieve_ops hand_state_default"
proof (intro conjI)
  show "advises_once lru_ops lru_new"
    using lru_repD [OF lru_rep_new] by (intro lru.advises_once_from) auto
  show "advises_once fifo_ops queue_default" "advises_once filo_ops queue_default"
    using queue_repD [OF queue_rep_default] by (auto intro: fifo.advises_once_from filo.advises_once_from)
  show "advises_once liquid_ops liquid_policy_new"
    using tq_repD [OF tq_rep_new] by (intro liquid.advises_once_from) (auto simp: tq_inv_def)
  have hand: "hand_inv fwd sz hand_state_default" "hand_tracked hand_state_default = {}" for fwd sz
    using hand_invI [OF hand_rep_default] by (auto simp: hand_tracked_def hand_state_default_def)
  show "advises_once (clock_ops szs) hand_state_default" "advises_once sieve_ops hand_state_default"
    using hand by (auto intro: clock.advises_once_from sieve.advises_once_from)
qed

text \<open>
  C20. \<open>S3FifoPolicy\<close> never fails either and only hands out entries that were inserted: its two
  eviction loops end, the size counters follow the queues in every history of calls.
\<close>

theorem s3_fifo_contract:
  "\<exists>vs s. run_policy s3_ops cs s3_new = Some (vs, s) \<and> set vs \<subseteq> {i. 0 < inserts_of i cs}
    \<and> s3_small_queue_size s = of_nat (length (s3_small s)) \<and> s3_main_queue_size s = of_nat (length (s3_main s))
    \<and> s3_total_size s = s3_small_queue_size s + s3_main_queue_size s"
proof -
  have "s3_tracked s3_new = {}" by (simp add: s3_tracked_def s3_new_def)
  with s3.run_ok [OF s3_inv_new, of cs] show ?thesis by (fastforce simp: s3_inv_def)
qed

text \<open>
  S3-FIFO does not give advice once: an entry that returns from the ghost queue is put into
  the main queue without a frequency, so the next insert does not find it and queues it a second
  time; the policy then hands out the same entry twice in one answer.
\<close>

theorem s3_fifo_advises_twice: "\<not> advises_once s3_ops s3_new"
proof
  assume "advises_once s3_ops s3_new"
  then have "\<forall>n ws q. op_find_victim s3_ops n s3_both = Some (ws, q) \<longrightarrow> distinct ws"
    using run_both [of BT_MemoryArrow] unfolding advises_once_def by (metis option.inject prod.inject)
  with find_both show False by (fastforce simp: s3_ops_def)
qed

text \<open>
  C21. The pointer code of \<open>doubly_linked_list.rs\<close> is memory safe and does what a list does: on
  a well-formed list, pushing a detached live node at either end, unlinking a member and moving
  a member to the front never touch a dead node, give the expected list, and leave every payload
  and every node outside the list as it was.
\<close>

theorem linked_list_operations:
  assumes "dll_rep h l ps" and "p \<notin> set ps" and "p \<in> dom (cells h)" and "q \<in> set ps"
  shows "(\<exists>h' l'. push_front p h l = Some (h', l') \<and> dll_rep h' l' (p # ps) \<and> relinks (set (p # ps)) h h')
    \<and> (\<exists>h' l'. push_back p h l = Some (h', l') \<and> dll_rep h' l' (ps @ [p]) \<and> relinks (set (p # ps)) h h')
    \<and> (\<exists>h' l'. unlink q h l = Some (h', l') \<and> dll_rep h' l' (remove1 q ps) \<and> relinks (set ps) h h')
    \<and> (\<exists>h' l'. move_to_front q h l = Some (h', l') \<and> dll_rep h' l' (q # remove1 q ps) \<and> relinks (set ps) h h')"
  using push_front_rep [OF assms(1-3)] push_back_rep [OF assms(1-3)] unlink_remove1 [OF assms(1,4)]
    move_to_front_rep [OF assms(1,4)] by blast

theorem linked_list_operations_witness:
  "let h = \<lparr>cells = [0 \<mapsto> \<lparr>ndata = ''a'', nprev = None, nnext = Some 1\<rparr>,
        1 \<mapsto> \<lparr>ndata = ''b'', nprev = Some 0, nnext = None\<rparr>, 2 \<mapsto> \<lparr>ndata = ''c'', nprev = None, nnext = None\<rparr>], brk = 3\<rparr>;
       l = \<lparr>head = Some 0, tail = Some 1\<rparr>
   in (\<exists>h' l'. push_front 2 h l = Some (h', l') \<and> dll_rep h' l' [2, 0, 1] \<and> relinks {2, 0, 1} h h')
    \<and> (\<exists>h' l'. push_back 2 h l = Some (h', l') \<and> dll_rep h' l' [0, 1, 2] \<and> relinks {2, 0, 1} h h')
    \<and> (\<exists>h' l'. unlink 0 h l = Some (h', l') \<and> dll_rep h' l' [1] \<and> relinks {0, 1} h h')
    \<and> (\<exists>h' l'. move_to_front 0 h l = Some (h', l') \<and> dll_rep h' l' [0, 1] \<and> relinks {0, 1} h h')"
proof -
  let ?h = "\<lparr>cells = [0 \<mapsto> \<lparr>ndata = ''a'', nprev = None, nnext = Some 1\<rparr>,
        1 \<mapsto> \<lparr>ndata = ''b'', nprev = Some 0, nnext = None\<rparr>, 2 \<mapsto> \<lparr>ndata = ''c'', nprev = None, nnext = None\<rparr>], brk = 3\<rparr>"
  let ?l = "\<lparr>head = Some 0, tail = Some 1\<rparr>"
  have "dll_rep ?h ?l [0, 1]" by (simp add: dll_rep_def)
  from linked_list_operations [OF this, of 2 0] show ?thesis by (simp add: Let_def)
qed

text \<open>
  Dropping a policy frees every node exactly once: after any history of LRU calls, draining
  the map in any order and then dropping the rest of the list touches no dead node and leaves
  no live one.
\<close>

lemma lru_drop_frees_all:
  assumes "run_policy lru_ops cs lru_new = Some (vs, s)" and "set handles = ran (hl_map s)" and "distinct handles"
  shows "\<exists>h. hash_list_drop handles (hl_heap s) (hl_list s) = Some (h, dll_new) \<and> cells h = Map.empty"
proof -
  have "lru_inv s" using lru.run_ok [of lru_new cs] lru_repD [OF lru_rep_new] assms(1) by auto
  then obtain ps where "hash_list lru_entry_id (hl_map s) (hl_heap s) (hl_list s) ps"
    by (auto simp: lru_inv_def lru_rep_def)
  then show ?thesis by (rule hash_list_drop_frees [OF _ assms(2,3)])
qed

section \<open>Keys and paths\<close>

text \<open>
  C22. The packing of a Parquet key into one machine word is a bijection: file, row group, column
  and batch survive the conversion to an entry id and back, and so does every entry id, so two
  keys never share a cache entry.
\<close>

theorem parquet_id_bijection:
  "parquet_id_of_entry (entry_of_parquet_id i) = i \<and> entry_of_parquet_id (parquet_id_of_entry e) = e"
  by (simp add: parquet_id_of_entry_def entry_of_parquet_id_def usize_of_parquet_id_inverse
    parquet_id_of_usize_inverse)

text \<open>
  Within the ranges the constructor asserts, the parts of a key read back as they were given,
  and a column's access path is recovered from any of its entries.
\<close>

theorem parquet_id_parts:
  assumes "unat f < 2 ^ 16" and "unat r < 2 ^ 16" and "unat c < 2 ^ 16"
  shows "file_id_inner (parquet_array_id_new f r c b) = f \<and> row_group_id_inner (parquet_array_id_new f r c b) = r
    \<and> column_id_inner (parquet_array_id_new f r c b) = c
    \<and> cap_of_parquet_id (cap_entry_id (column_access_path_new f r c) b) = column_access_path_new f r c
    \<and> cap_entry_id (column_access_path_new f r c) b = parquet_array_id_new f r c b"
proof -
  have "cap_entry_id (column_access_path_new f r c) b = parquet_array_id_new f r c b"
    by (simp add: cap_entry_id_def column_access_path_new_def parquet_array_id_new_def)
  with parquet_array_id_new_inner [OF assms] cap_entry_id_inverse show ?thesis by blast
qed

theorem parquet_id_parts_witness:
  "file_id_inner (parquet_array_id_new 3 2 65535 \<lparr>batch_v = 9\<rparr>) = 3
    \<and> row_group_id_inner (parquet_array_id_new 3 2 65535 \<lparr>batch_v = 9\<rparr>) = 2
    \<and> column_id_inner (parquet_array_id_new 3 2 65535 \<lparr>batch_v = 9\<rparr>) = 65535
    \<and> cap_of_parquet_id (cap_entry_id (column_access_path_new 3 2 65535) \<lparr>batch_v = 9\<rparr>) = column_access_path_new 3 2 65535
    \<and> cap_entry_id (column_access_path_new 3 2 65535) \<lparr>batch_v = 9\<rparr> = parquet_array_id_new 3 2 65535 \<lparr>batch_v = 9\<rparr>"
  by (rule parquet_id_parts) simp_all

text \<open>
  Different entries have different files, both in the default layout (sixteen hexadecimal
  digits) and in the Parquet layout (one directory per file, row group and column), and the file
  of a Parquet entry lies in the directory made for its column.
\<close>

theorem disk_paths_tell_entries_apart:
  "inj default_disk_path \<and> inj on_disk_liquid_path
    \<and> butlast (on_disk_liquid_path i) = column_dir (cap_of_parquet_id i)"
  by (simp add: default_disk_path_inj on_disk_liquid_path_inj on_disk_liquid_path_dir)

text \<open>
  Rows of different batches get different batch numbers as long as a row group has at most
  \<open>2 ^ 16\<close> batches; the number is truncated to sixteen bits, so the next batch is given number
  zero again.
\<close>

theorem batch_ids_distinct:
  assumes "batch_id_from_row_id r n = Some b" and "batch_id_from_row_id r' n = Some b"
    and "unat r div unat n < 2 ^ 16" and "unat r' div unat n < 2 ^ 16"
  shows "unat r div unat n = unat r' div unat n \<and> batch_id_from_row_id (65536 * 8192) 8192 = batch_id_from_row_id 0 8192"
  using batch_id_from_row_id_inj [OF assms] by (simp add: batch_id_from_row_id_def)

theorem batch_ids_distinct_witness:
  "unat (8200 :: usize) div unat (8192 :: usize) = unat (16383 :: usize) div unat (8192 :: usize)
    \<and> batch_id_from_row_id (65536 * 8192) 8192 = batch_id_from_row_id 0 8192"
  by (rule batch_ids_distinct [where b = "\<lparr>batch_v = 1\<rparr>"]) (simp_all add: batch_id_from_row_id_def)

section \<open>The byte cache\<close>

text \<open>
  C23. A read of any byte range within an object through the byte cache answers with exactly the
  bytes of the object in that range, whatever was cached before, and leaves only whole chunks
  behind, even where saving a chunk fails at some step; without such a failure the read succeeds.
  Afterwards the chunks of the range are cached: the same read is answered from the files alone,
  with no request but for the size. The object stores in use keep their objects unchanged and no
  two objects share a cache directory.
\<close>

theorem byte_cache_returns_slice:
  fixes S S' :: "('o, 'e) object_store"
  assumes "store_ok S rest objs" and "dirs_apart objs" and "chunk_files_ok dir objs fs" and "objs p = Some data"
    and "length data + CACHE_BLOCK_SIZE < 2 ^ 64" and "requested_range (length data) g = (s, e)" and "s < e" and "e \<le> length data"
    and "get_opts dir S faults st p \<lparr>go_range = g, go_head = False, go_rest = rest\<rparr> fs = (r, fs')"
    and "os_head S' p = Inr (length data)"
  shows "chunk_files_ok dir objs fs' \<and> ((\<forall>k. faults k = NoFault) \<longrightarrow> (\<exists>x. r = Inr x))
    \<and> (\<forall>x. r = Inr x \<longrightarrow> collect_bytes (gr_payload x) = Inr (take (e - s) (drop s data)) \<and> gr_range x = (s, e)
        \<and> get_opts dir S' faults' st' p \<lparr>go_range = g, go_head = False, go_rest = rest'\<rparr> fs' = (Inr x, fs'))"
proof -
  note sl = get_opts_slice [OF assms(1-9)]
  have "get_opts dir S' faults' st' p \<lparr>go_range = g, go_head = False, go_rest = rest'\<rparr> fs' = (Inr x, fs')" if "r = Inr x" for x
  proof -
    have "x = \<lparr>gr_payload = get_range_from_cache_stream dir fs' p (s, e), gr_size = length data, gr_range = (s, e)\<rparr>"
      using get_opts_result [OF assms(9) [unfolded that]] assms(1,4,6) by (auto simp: store_ok_def)
    with sl that get_opts_cached [OF assms(10), of "\<lparr>go_range = g, go_head = False, go_rest = rest'\<rparr>" s e dir fs' faults' st'] assms(6,7)
    show ?thesis by simp
  qed
  with sl show ?thesis by blast
qed

theorem byte_cache_returns_slice_witness:
  "\<exists>x fs'. get_opts [''cache''] (memory_store [''t/a.parquet'' \<mapsto> [10, 20, 30, 40, 50]]) (\<lambda>_. NoFault) ''1'' ''t/a.parquet''
        \<lparr>go_range = Some (Suffix 3), go_head = False, go_rest = ()\<rparr> empty_fs = (Inr x, fs')
    \<and> collect_bytes (gr_payload x) = Inr [30, 40, 50]"
proof -
  let ?objs = "[''t/a.parquet'' \<mapsto> [10, 20, 30, 40, 50]] :: string \<Rightarrow> bytes option"
  let ?o = "\<lparr>go_range = Some (Suffix 3), go_head = False, go_rest = ()\<rparr>"
  obtain r fs' where g: "get_opts [''cache''] (memory_store ?objs) (\<lambda>_. NoFault) ''1'' ''t/a.parquet'' ?o empty_fs = (r, fs')"
    by fastforce
  have apart: "dirs_apart ?objs" by (simp add: dirs_apart_def)
  have "(\<exists>x. r = Inr x) \<and> (\<forall>x. r = Inr x \<longrightarrow> collect_bytes (gr_payload x) = Inr [30, 40, 50])"
    using byte_cache_returns_slice [OF memory_store_ok apart chunk_files_ok_empty _ _ _ _ _ g,
        of "[10, 20, 30, 40, 50]" 2 5 "memory_store ?objs" "\<lambda>_. NoFault" "''1''" "()"]
    by (simp add: CACHE_BLOCK_SIZE_def requested_range_def memory_store_def)
  with g show ?thesis by blast
qed

text \<open>
  Where the byte cache departs from the store it wraps: the paths \<open>a/b\<close> and \<open>a_b\<close> share a
  cache directory, so that a read of the second object returns bytes of the first; reading an
  empty object fails on an arithmetic underflow; and a bounded range that ends after the object,
  which a store cuts off at the object's end, is accepted and then fails in the stream.
\<close>

theorem byte_cache_departures:
  "(let S = memory_store [''a/b'' \<mapsto> [1, 2, 3], ''a_b'' \<mapsto> [7, 8, 9], ''e'' \<mapsto> []];
        rd = (\<lambda>p g fs. get_opts [''cache''] S (\<lambda>_. NoFault) ''1'' p \<lparr>go_range = g, go_head = False, go_rest = ()\<rparr> fs);
        body = (\<lambda>r. case fst r of Inl x \<Rightarrow> Inl x | Inr x \<Rightarrow> collect_bytes (gr_payload x));
        inner = (\<lambda>p g. case os_get_opts S p \<lparr>go_range = g, go_head = False, go_rest = ()\<rparr> of Inl x \<Rightarrow> Inl x | Inr x \<Rightarrow> collect_bytes (gr_payload x))
    in body (rd ''a_b'' None (snd (rd ''a/b'' None empty_fs))) = Inr [1, 2, 3] \<and> inner ''a_b'' None = Inr [7, 8, 9]
     \<and> body (rd ''e'' None empty_fs) = Inl Panicked \<and> inner ''e'' None = Inr []
     \<and> body (rd ''a/b'' (Some (Bounded 1 9)) empty_fs) = Inl Generic \<and> inner ''a/b'' (Some (Bounded 1 9)) = Inr [2, 3])"
  by (simp add: Let_def byte_cache_eval)

section \<open>Row selections\<close>

text \<open>
  C24. The two versions of the combination of a selection with the answers of a predicate agree
  with its specification, bit by bit: with or without the PDEP instruction, and whatever lies in
  memory behind the buffers that the unaligned reads run over, the result keeps a selected row
  iff the answer at its rank among the selected rows is true. The buffers start at a byte.
\<close>

theorem and_then_versions_agree:
  assumes "bit_ops_ok B" and "bb_wf left" and "bb_wf right" and "bb_offset left = 0" and "bb_offset right = 0"
    and "count_list (bb_bits left) True = bb_len right"
  shows "\<exists>b. boolean_buffer_and_then B bmi2 meml memr left right = Some b
    \<and> bb_bits b = and_then (bb_bits left) (bb_bits right)
    \<and> (\<forall>i < bb_len left. bb_bits b ! i =
        (bb_bits left ! i \<and> bb_bits right ! length (filter (\<lambda>j. bb_bits left ! j) [0..<i])))"
  using and_then_correct [OF assms, of bmi2 meml memr] and_then_nth [of _ "bb_bits left" "bb_bits right"] assms(6)
  by (auto simp: rank_def)

theorem and_then_versions_agree_witness:
  "\<exists>b. boolean_buffer_and_then plain_bit_ops True (\<lambda>_. 255) (\<lambda>_. 255)
      \<lparr>bb_values = [0b10011100, 0b101], bb_offset = 0, bb_len = 12\<rparr> \<lparr>bb_values = [0b010101], bb_offset = 0, bb_len = 6\<rparr> = Some b
    \<and> bb_bits b = [False, False, True, False, True, False, False, False, True, False, False, False]"
proof -
  let ?l = "\<lparr>bb_values = [0b10011100, 0b101], bb_offset = 0, bb_len = 12\<rparr>"
  let ?r = "\<lparr>bb_values = [0b010101], bb_offset = 0, bb_len = 6\<rparr>"
  have l: "bb_bits ?l = [False, False, True, True, True, False, False, True, True, False, True, False]"
    and r: "bb_bits ?r = [True, False, True, False, True, False]"
    by (code_simp, code_simp)
  from and_then_versions_agree [OF plain_bit_ops_ok, of ?l ?r True "\<lambda>_. 255" "\<lambda>_. 255"] show ?thesis
    unfolding l r by (simp add: bb_wf_def) blast
qed

text \<open>
  Neither version heeds the bit offset of a buffer, which a sliced buffer has: both panic-free
  calls below narrow a selection by answers that are all true and return another selection.
\<close>

theorem and_then_ignores_offsets:
  "(let l = \<lparr>bb_values = [0b00000110], bb_offset = 1, bb_len = 3\<rparr>; r = \<lparr>bb_values = [0b11], bb_offset = 0, bb_len = 2\<rparr>
    in bb_bits l = [True, True, False] \<and> bb_bits r = [True, True] \<and> and_then (bb_bits l) (bb_bits r) = bb_bits l
     \<and> map_option bb_bits (boolean_buffer_and_then plain_bit_ops True (\<lambda>_. 0) (\<lambda>_. 0) l r) = Some [False, True, True]
     \<and> map_option bb_bits (boolean_buffer_and_then plain_bit_ops False (\<lambda>_. 0) (\<lambda>_. 0) l r) = Some [False, True, True])"
  by code_simp

text \<open>
  Taking batches off a queue of runs partitions it: the batch and what is left are, row for
  row, the queue; the batch has exactly the batch size, or all rows there are, and none is
  returned iff there are none (or the size is zero).
\<close>

theorem take_next_batch_partitions:
  assumes "take_next_batch q n = (r, q')"
  shows "selection_bits (case r of Some rt \<Rightarrow> rt | None \<Rightarrow> []) @ selection_bits q' = selection_bits q
    \<and> length (selection_bits (case r of Some rt \<Rightarrow> rt | None \<Rightarrow> [])) = min n (length (selection_bits q))
    \<and> (r = None \<longleftrightarrow> n = 0 \<or> selection_bits q = [])"
  by (rule take_next_batch_rows [OF assms])

theorem take_next_batch_partitions_witness:
  "length (selection_bits [\<lparr>sel_row_count = 3, sel_skip = True\<rparr>, \<lparr>sel_row_count = 1, sel_skip = False\<rparr>]) = min 4 8"
  using take_next_batch_partitions [of "[\<lparr>sel_row_count = 3, sel_skip = True\<rparr>, \<lparr>sel_row_count = 5, sel_skip = False\<rparr>]" 4
    "Some [\<lparr>sel_row_count = 3, sel_skip = True\<rparr>, \<lparr>sel_row_count = 1, sel_skip = False\<rparr>]" "[\<lparr>sel_row_count = 4, sel_skip = False\<rparr>]"]
  by (simp add: take_next_batch_def Let_def)

text \<open>
  An offset and a limit act on the selected rows, in either order of evaluation of the
  query's clauses: the offset drops that many selected rows, the limit keeps that many, and no
  row that was not selected becomes selected.
\<close>

theorem offset_limit_select_rows:
  assumes "normalizes nf"
  shows "selected_rows (offset_row_selection nf ss offset) = drop offset (selected_rows ss)
    \<and> selected_rows (limit_row_selection nf ss n) = take n (selected_rows ss)
    \<and> selected_rows (limit_row_selection nf (offset_row_selection nf ss offset) n) = take n (drop offset (selected_rows ss))"
  using selected_offset [OF assms] selected_limit [OF assms] by simp

theorem offset_limit_select_rows_witness:
  "selected_rows (limit_row_selection id (offset_row_selection id
      [\<lparr>sel_row_count = 2, sel_skip = True\<rparr>, \<lparr>sel_row_count = 5, sel_skip = False\<rparr>] 1) 3) = [3, 4, 5]"
  using offset_limit_select_rows [of id "[\<lparr>sel_row_count = 2, sel_skip = True\<rparr>, \<lparr>sel_row_count = 5, sel_skip = False\<rparr>]" 1 3]
  by (simp add: normalizes_def selected_rows_def eval_nat_numeral)

text \<open>
  A bit-mask selection stands for the same rows as what it is built from: the runs of a row
  selection, or consecutive ranges within the total; and narrowing it by the answers of a
  predicate on its rows gives the specified mask, on the path for equal lengths too.
\<close>

theorem boolean_selection_rows:
  assumes "builder_ok Bd contents" and "ranges_valid 0 rs total_rows"
    and "bit_ops_ok B" and "buffer_ops_ok Q" and "bb_wf (selectors s)" and "bb_wf (selectors t)"
    and "bb_offset (selectors s) = 0" and "boolean_selection_row_count s = bb_len (selectors t)"
  shows "bb_bits (row_selector_to_boolean_buffer Bd ss) = selection_bits ss
    \<and> bb_bits (selectors (boolean_selection_of_row_selection Bd ss)) = selection_bits ss
    \<and> bb_bits (selectors (from_consecutive_ranges Bd rs total_rows)) = map (in_ranges rs) [0..<total_rows]
    \<and> (\<exists>u. selection_and_then B Q s t = Some u
        \<and> bb_bits (selectors u) = and_then (bb_bits (selectors s)) (bb_bits (selectors t)))"
proof (intro conjI)
  show b: "bb_bits (row_selector_to_boolean_buffer Bd ss) = selection_bits ss" by (rule row_selector_bits [OF assms(1)])
  then show "bb_bits (selectors (boolean_selection_of_row_selection Bd ss)) = selection_bits ss"
    by (simp add: boolean_selection_of_row_selection_def row_selector_to_boolean_buffer_def)
qed (rule from_consecutive_ranges_bits [OF assms(1,2)] selection_and_then_bits [OF assms(3-8)])+

theorem boolean_selection_rows_witness:
  "bb_bits (selectors (from_consecutive_ranges list_builder [(1, 3), (3, 4)] 6)) = [False, True, True, True, False, False]
    \<and> (\<exists>u. selection_and_then plain_bit_ops packed_ops \<lparr>selectors = pack_bits [True, False, True]\<rparr>
          \<lparr>selectors = pack_bits [False, True]\<rparr> = Some u \<and> bb_bits (selectors u) = [False, False, True])"
  using boolean_selection_rows [OF list_builder_ok _ plain_bit_ops_ok packed_ops_ok, of "[(1, 3), (3, 4)]" 6
      "\<lparr>selectors = pack_bits [True, False, True]\<rparr>" "\<lparr>selectors = pack_bits [False, True]\<rparr>"]
  by (simp add: boolean_selection_row_count_def in_ranges_def upt_rec)

section \<open>Encoded columns\<close>

text \<open>
  C25. Encoding a column of integers, dates or timestamps and decoding it gives the column back,
  nulls included, also after the encoded column was written to bytes and read; filtering the
  encoded column gives the selected rows.
\<close>

theorem primitive_array_roundtrip:
  fixes F :: "'w::len word fastlanes"
  assumes "fastlanes_ok F" and "kernels_ok K" and "native_type p TYPE('w)" and "pa_wf a"
  shows "\<exists>la. from_arrow_array K F p a = Some la
    \<and> (\<exists>b. to_arrow_array F la = Some b \<and> pa_items b = pa_items a)
    \<and> (length sel = length (pa_values a) \<longrightarrow> (\<exists>b. primitive_filter K F la sel = Some b \<and> pa_items b = filter_items (pa_items a) sel))
    \<and> (fits_u32 (lp_bit_packed la) \<longrightarrow> (\<exists>lb b. primitive_from_bytes p (to_bytes_inner p la) = Some lb
          \<and> to_arrow_array F lb = Some b \<and> pa_items b = pa_items a))"
proof -
  obtain la where la: "from_arrow_array K F p a = Some la" "offsets F p la a"
    using from_arrow_offsets [OF assms] by blast
  have e: "encodes F la a" by (rule offsets_encodes [OF la(2)])
  have d: "\<exists>b. to_arrow_array F l = Some b \<and> pa_items b = pa_items a" if "encodes F l a" for l
    using that by (auto simp: encodes_def)
  have "\<exists>b. primitive_filter K F la sel = Some b \<and> pa_items b = filter_items (pa_items a) sel" if "length sel = length (pa_values a)"
    using primitive_filter_items [OF assms(2) e that] .
  with la(1) d [OF e] primitive_bytes_roundtrip [OF e assms(3)] d show ?thesis by blast
qed

theorem primitive_array_roundtrip_witness:
  "\<exists>b lb c. to_arrow_array serial_lanes sample_encoded = Some b \<and> pa_items b = [Some 5, Some 260, Some 1000]
    \<and> primitive_from_bytes P_UInt32 (to_bytes_inner P_UInt32 sample_encoded) = Some (lb :: u32 liquid_primitive_array)
    \<and> to_arrow_array serial_lanes lb = Some c \<and> pa_items c = [Some 5, Some 260, Some 1000]"
  using primitive_array_roundtrip [OF serial_lanes_ok plain_kernels_ok sample_ints_wf(2,1), of "[]"] sample_encoded_fits
  by (auto simp: sample_ints_encoded sample_ints_items)

text \<open>
  C26. A comparison with a literal on a squeezed column is exact: whichever squeezing is used,
  and whether it is answered from the squeezed data or from the bytes written when squeezing, the
  mask is that of the comparison on the selected rows of the original column, null on null rows.
  The left side is the column, or its conversion to seconds; where that needs a cast, the answer
  is that of the comparison kernel on the selected rows.
  For the signed types and quantized data this needs the literal less than \<open>2 ^ 63\<close> above the
  least value.
\<close>

theorem squeezed_predicates_exact:
  fixes F :: "'w::len word fastlanes"
  assumes "fastlanes_ok F" and "kernels_ok K" and "cmp_ok C" and "native_type p TYPE('w)" and "pa_wf a"
    and "from_arrow_array K F p a = Some la" and "fits_u32 (lp_bit_packed la)"
    and "squeeze_integer F p (la\<lparr>lp_squeeze_policy := policy\<rparr>) = Some (Some (s, bs))"
    and "length sel = length (pa_values a)" and "comparison_parts expr = Some (lhs, op, literal)"
    and "native_of_literal p literal = Some (k :: 'w word)"
    and "is_unsigned p \<or> native_val p k - native_val p (lp_reference_value la) < 2 ^ 63"
  shows "if can_eval_without_cast lhs p
    then \<exists>m. squeezed_try_eval_predicate K F C p s sel expr bs = Some (Some m)
      \<and> ba_items m = map (map_option (\<lambda>v. cmp_op op (native_val p v) (native_val p k))) (filter_items (pa_items a) sel)
    else \<exists>b. squeezed_try_eval_predicate K F C p s sel expr bs = Some (C lhs p b op literal)
      \<and> pa_items b = filter_items (pa_items a) sel"
proof -
  let ?la = "la\<lparr>lp_squeeze_policy := policy\<rparr>"
  have o: "offsets F p ?la a" using from_arrow_offsets [OF assms(1,2,4,5)] assms(6) by (auto simp: offsets_def)
  have e: "encodes F ?la a" by (rule offsets_encodes [OF o])
  have f: "fits_u32 (lp_bit_packed ?la)" using assms(7) by simp
  note l = native_type_bits(1) [OF assms(4)]
  have s: "(case s of SqClamped c \<Rightarrow> clamps F p c a | SqQuantized q \<Rightarrow> quantizes F p q a) \<and> bs = to_bytes_inner p ?la"
    "\<And>q. s = SqQuantized q \<Longrightarrow> qz_reference_value q = lp_reference_value la"
    using assms(8) squeeze_clamps [OF assms(1) l o] squeeze_quantizes [OF assms(1) l o] by (auto split: squeezed_integer.splits)
  show ?thesis
  proof (cases "can_eval_without_cast lhs p")
    case True
    then show ?thesis using s assms(10,12) clamped_predicate_right [OF assms(1-5,9,11) e f]
        quantized_predicate_right [OF assms(1-5,9,11) e f]
      by (cases s) (auto simp: squeezed_try_eval_predicate_def)
  next
    case False
    then show ?thesis using cast_predicate [OF assms(1,2,4,5,9) e f _ assms(10) False] s(1) by auto
  qed
qed

theorem squeezed_predicates_exact_witness:
  "\<exists>s bs m. squeeze_integer serial_lanes P_UInt32 (sample_encoded\<lparr>lp_squeeze_policy := Clamp\<rparr>) = Some (Some (s, bs))
    \<and> squeezed_try_eval_predicate plain_kernels serial_lanes plain_cmp P_UInt32 s [True, False, True]
        (PE_Binary PE_Column DF_Gt (PE_Literal (SV_Integer 700))) bs = Some (Some m)
    \<and> ba_items m = [Some False, Some True]"
proof -
  obtain s bs where s: "squeeze_integer serial_lanes P_UInt32 (sample_encoded\<lparr>lp_squeeze_policy := Clamp\<rparr>) = Some (Some (s, bs))"
    using sample_squeezes [of Clamp] by blast
  have k: "native_of_literal P_UInt32 (SV_Integer 700) = Some (700 :: u32)"
    by (simp add: native_of_literal_def native_val_def is_unsigned_def)
  have c: "comparison_parts (PE_Binary PE_Column DF_Gt (PE_Literal (SV_Integer 700))) = Some (Lhs_Plain, Op_Gt, SV_Integer 700)"
    by (simp add: comparison_parts_def)
  have l: "length [True, False, True] = length (pa_values sample_ints)" by (simp add: sample_ints_items)
  from squeezed_predicates_exact [OF serial_lanes_ok plain_kernels_ok plain_cmp_ok sample_ints_wf(2,1) sample_ints_encoded
      sample_encoded_fits s l c k] s sample_ints_wf(3)
  show ?thesis by (auto simp: sample_ints_items filter_items_def native_val_def can_eval_without_cast_def)
qed

text \<open>
  C27. Delta encoding of a column of a signed type, dates and timestamps included, loses nothing:
  decoding gives every value and every null back, on arrays with leading, trailing or only nulls
  and for differences that wrap around.
\<close>

theorem delta_array_roundtrip:
  fixes F :: "'w::len word fastlanes"
  assumes "fastlanes_ok F" and "native_type p TYPE('w)" and "\<not> is_unsigned p" and "pa_wf a"
  shows "\<exists>la b. delta_from_arrow_array F p a = Some la \<and> delta_to_arrow_array F p la = Some b \<and> pa_items b = pa_items a"
  by (rule delta_roundtrip [OF assms])

theorem delta_array_roundtrip_witness:
  "\<exists>la b. delta_from_arrow_array serial_lanes P_Int32 \<lparr>pa_values = [7, - 5, 2147483647 :: u32], pa_nulls = None\<rparr> = Some la
    \<and> delta_to_arrow_array serial_lanes P_Int32 la = Some b \<and> pa_items b = [Some 7, Some (- 5), Some 2147483647]"
  using delta_array_roundtrip [OF serial_lanes_ok, of P_Int32 "\<lparr>pa_values = [7, - 5, 2147483647 :: u32], pa_nulls = None\<rparr>"]
  by (simp add: native_type_def native_bits_def is_unsigned_def pa_wf_def nulls_fit_def pa_items_def valid_at_def upt_rec)

text \<open>
  C28. An integer column stored with the delta encoding does not survive being written and read: the
  column 10, 20 is decoded correctly from the array in memory, but its bytes are read as a plain
  array that decodes to 10, 30.
\<close>

theorem delta_array_misread:
  assumes "fastlanes_ok F"
  shows "\<exists>ld la. delta_from_arrow_array F P_Int32 sample_delta = Some ld
    \<and> (\<exists>a. delta_to_arrow_array F P_Int32 ld = Some a \<and> pa_items a = [Some 10, Some 20])
    \<and> read_from_bytes F' T32 T64 chk (delta_to_bytes_inner P_Int32 ld) ctx = Some (LA_Integer32 P_Int32 la)
    \<and> (\<exists>a. to_arrow_array F la = Some a \<and> pa_items a = [Some 10, Some 30])"
proof -
  have n: "native_type P_Int32 TYPE(32)" "\<not> is_float P_Int32" "native_bits P_Int32 = 32"
    by (simp_all add: native_type_def native_bits_def is_float_def)
  have i: "pa_items \<lparr>pa_values = [x, y], pa_nulls = None\<rparr> = [Some x, Some y]" for x y :: u32
    by (simp add: pa_items_def valid_at_def upt_rec)
  obtain la where "primitive_from_bytes P_Int32 (delta_to_bytes_inner P_Int32 \<lparr>ld_bit_packed = sample_delta_packed F, ld_reference_value = 10\<rparr>) = Some la"
      "encodes F la \<lparr>pa_values = [10, 30], pa_nulls = None\<rparr>"
    using primitive_bytes_roundtrip [OF sample_delta_plain [OF assms] n(1)] sample_delta_fits [OF assms] by (auto simp: delta_bytes_plain)
  moreover have "\<exists>a. delta_to_arrow_array F P_Int32 \<lparr>ld_bit_packed = sample_delta_packed F, ld_reference_value = 10\<rparr> = Some a \<and> pa_items a = [Some 10, Some 20]"
    using delta_roundtrip [OF assms n(1), of sample_delta] i [of 10 20]
    by (simp add: sample_delta_encoded) (simp add: sample_delta_def is_unsigned_def pa_wf_def nulls_fit_def)
  ultimately show ?thesis using n(2,3) i [of 10 30] by (auto simp: sample_delta_encoded read_kinds deserialize_integer_def encodes_def)
qed

theorem delta_array_misread_witness:
  "\<forall>T32 T64. \<exists>ld la. delta_from_arrow_array serial_lanes P_Int32 sample_delta = Some ld
    \<and> read_from_bytes serial_lanes T32 T64 False (delta_to_bytes_inner P_Int32 ld) None = Some (LA_Integer32 P_Int32 la)
    \<and> (\<exists>a. to_arrow_array serial_lanes la = Some a \<and> pa_items a = [Some 10, Some 30])"
  using delta_array_misread [OF serial_lanes_ok] by blast

text \<open>
  C29. Encoding a column of floating-point numbers by decimal scaling (the best exponents are searched
  on a sample) and decoding it gives each row back: bit for bit, or a number that compares equal, as
  a zero of the other sign does; infinities, NaNs and numbers that scaling loses are patches. Nulls
  stay nulls. The bytes written for the array, which squeezing puts on disk, hydrate to the same rows.
\<close>

theorem float_array_roundtrip:
  fixes F :: "'w::len word fastlanes"
  assumes "fastlanes_ok F" and "float_type_ok T" and "pa_wf a" and "length (pa_values a) \<le> 2 ^ 64"
  shows "\<exists>la b. float_from_arrow_array F T memory_size a = Some la \<and> float_to_arrow_array F T la = Some b
    \<and> list_all2 (same_row T) (pa_items b) (pa_items a)
    \<and> (fits_u32 (lf_bit_packed la) \<longrightarrow> (\<exists>b'. float_hydrate F T (float_to_bytes_inner T la) = Some b' \<and> pa_items b' = pa_items b))
    \<and> (\<forall>q bs. float_squeeze F T la = Some (Some (q, bs)) \<longrightarrow> bs = float_to_bytes_inner T la)"
proof -
  obtain la where la: "float_from_arrow_array F T memory_size a = Some la" "float_encodes F T la a"
    using float_from_arrow_ok [OF assms] by blast
  then obtain b where b: "float_to_arrow_array F T la = Some b" "list_all2 (same_row T) (pa_items b) (pa_items a)"
    by (auto simp: float_encodes_def)
  have "\<exists>b'. float_hydrate F T (float_to_bytes_inner T la) = Some b' \<and> pa_items b' = pa_items b" if "fits_u32 (lf_bit_packed la)"
    using float_bytes_roundtrip [OF la(2) assms(2) that] float_items_reread [OF la(2) assms(2) that _ b(1)]
    by (auto simp: float_hydrate_def)
  with la(1) b float_squeeze_bytes show ?thesis by blast
qed

theorem float_array_roundtrip_witness:
  "\<exists>la b. float_from_arrow_array serial_lanes float64_type (\<lambda>la. length (lf_patch_indices la)) sample_floats = Some la
    \<and> float_to_arrow_array serial_lanes float64_type la = Some b
    \<and> list_all2 (same_row float64_type) (pa_items b) [Some 0x4004000000000000, Some 0x4034000000000000]"
  using float_array_roundtrip [OF serial_lanes_ok float64_type_ok, of sample_floats "\<lambda>la. length (lf_patch_indices la)"]
  by (auto simp: sample_floats_def pa_wf_def nulls_fit_def pa_items_def valid_at_def)

text \<open>
  C30. A comparison on a squeezed column of floating-point numbers can be wrong: the column 2.5, 20.0
  with one decimal digit is squeezed to buckets of 16 integers that start at a multiple of 16, but
  their bounds are counted from the least integer 25; the predicate \<open>x = 20\<close> is answered false on
  both rows, without reading the disk, although the second row is 20.
\<close>

theorem squeezed_float_predicate_wrong:
  assumes "fastlanes_ok F" and "kernels_ok K"
  shows "\<exists>la q bs m b. encode_arrow_array F float64_type sample_floats tenths = Some la
    \<and> float_squeeze F float64_type la = Some (Some (q, bs))
    \<and> float_try_eval_predicate K F float64_type C q [True, True] (PE_Binary column DF_Eq (PE_Literal (SV_Integer 20))) bs = Some (Some m)
    \<and> ba_items m = [Some False, Some False]
    \<and> float_to_arrow_array F float64_type la = Some b \<and> pa_items b = [Some 0x4004000000000000, Some 0x4034000000000000]
    \<and> ft_of_literal float64_type (SV_Integer 20) = Some 0x4034000000000000"
  using sample_floats_encoded [of F] sample_floats_squeezed [OF assms(1)] sample_floats_answer [OF assms] sample_floats_decoded [OF assms(1)]
    sample_literal by blast

theorem squeezed_float_predicate_wrong_witness:
  "\<exists>la q bs m b. encode_arrow_array serial_lanes float64_type sample_floats tenths = Some la
    \<and> float_squeeze serial_lanes float64_type la = Some (Some (q, bs))
    \<and> float_try_eval_predicate plain_kernels serial_lanes float64_type (\<lambda>_ _ _. None) q [True, True]
        (PE_Binary PE_Column DF_Eq (PE_Literal (SV_Integer 20))) bs = Some (Some m)
    \<and> ba_items m = [Some False, Some False]
    \<and> float_to_arrow_array serial_lanes float64_type la = Some b \<and> pa_items b = [Some 0x4004000000000000, Some 0x4034000000000000]
    \<and> ft_of_literal float64_type (SV_Integer 20) = Some 0x4034000000000000"
  by (rule squeezed_float_predicate_wrong [OF serial_lanes_ok plain_kernels_ok])



text \<open>
  C32. Decoding a linear column with nulls can panic: in the \<open>i8\<close> column 127, null the slot of the
  null, 0, lies below the only residual, and its offset cut to one bit decodes to 128, for which the
  conversion back to \<open>i8\<close> fails.
\<close>

theorem linear_null_panics:
  assumes "fastlanes_ok F" and "kernels_ok K"
  shows "\<exists>la. pa_wf sample_linear \<and> pa_items sample_linear = [Some 127, None]
    \<and> linear_from_arrow_array K F P_Int8 sample_linear = Some la \<and> linear_to_arrow_array F P_Int8 la = (None :: 8 word prim_array option)"
proof -
  have "pa_items sample_linear = [Some 127, None]" using sample_linear_valid(1,2) by (simp add: pa_items_def) (simp add: sample_linear_def)
  then show ?thesis using sample_linear_wf sample_linear_from [OF assms(2)] sample_linear_to [OF assms(1)] by blast
qed

theorem linear_null_panics_witness:
  "\<exists>la. pa_wf sample_linear \<and> pa_items sample_linear = [Some 127, None]
    \<and> linear_from_arrow_array plain_kernels serial_lanes P_Int8 sample_linear = Some la
    \<and> linear_to_arrow_array serial_lanes P_Int8 la = (None :: 8 word prim_array option)"
  by (rule linear_null_panics [OF serial_lanes_ok plain_kernels_ok])

text \<open>
  C33. The calendar arithmetic of the squeezed dates is the Gregorian calendar on every \<open>i32\<close> day
  number: day 0 is 1 January 1970, each day's date is a valid one, the date after a day's is that
  of the next day, and a date gives its day number back.
\<close>

theorem dates_follow_the_calendar:
  assumes "- (2 ^ 31) \<le> n" and "n < 2 ^ 31 - 1"
  shows "ymd_from_epoch_days 0 = (1970, 1, 1) \<and> valid_date (ymd_from_epoch_days n)
    \<and> ymd_from_epoch_days (n + 1) = next_date (ymd_from_epoch_days n)
    \<and> (case ymd_from_epoch_days n of (y, m, d) \<Rightarrow> ymd_to_epoch_days y m d) = n"
proof (intro conjI)
  have n: "i32_day n" "i32_day (n + 1)" using assms by (simp_all add: i32_day_def)
  show "ymd_from_epoch_days 0 = (1970, 1, 1)" by code_simp
  show "valid_date (ymd_from_epoch_days n)" "ymd_from_epoch_days (n + 1) = next_date (ymd_from_epoch_days n)"
    "(case ymd_from_epoch_days n of (y, m, d) \<Rightarrow> ymd_to_epoch_days y m d) = n" using calendar [OF n(1)] n(2) by auto
qed

theorem dates_follow_the_calendar_witness: "ymd_from_epoch_days (11015 + 1) = (2000, 2, 29)"
  using dates_follow_the_calendar [of 11015, THEN conjunct2, THEN conjunct2, THEN conjunct1] by code_simp

text \<open>
  A squeezed column of dates or timestamps reads as the chosen component of every row, null
  on null rows, and the dates rebuilt from the components have the same components. The days are
  within 2.11 billion of 1970, so that no \<open>i32\<close> overflows.
\<close>

theorem squeezed_dates_keep_component:
  assumes "fastlanes_ok F"
    and "encodes F la a" and "\<And>v. v \<in> valid_values a \<Longrightarrow> safe_day (sint v)"
    and "encodes G lt t" and "\<And>v. v \<in> valid_values t \<Longrightarrow> safe_day (timestamp_to_days_since_epoch (sint v) unit)"
  shows "(\<exists>s u v. from_liquid_date32 F la field = Some s \<and> to_component_date32 F s = Some u \<and> to_arrow_date32_lossy F s = Some v
      \<and> pa_items u = map (\<lambda>x. Option.bind x (\<lambda>d. component_from_days field (sint d))) (pa_items a)
      \<and> map (\<lambda>x. Option.bind x (component_from_days field)) (pa_items v) = pa_items u)
    \<and> (\<exists>s u v. from_liquid_timestamp F G lt unit field = Some s \<and> to_component_date32 F s = Some u \<and> to_arrow_date32_lossy F s = Some v
      \<and> pa_items u = map (\<lambda>x. Option.bind x (\<lambda>d. component_from_days field (timestamp_to_days_since_epoch (sint d) unit))) (pa_items t)
      \<and> map (\<lambda>x. Option.bind x (component_from_days field)) (pa_items v) = pa_items u)" (is "?A \<and> ?B")
proof
  show ?A by (rule squeeze_array_components [OF assms(1,2), of sint field], fact assms(3), force simp: from_liquid_date32_def)
  show ?B by (rule squeeze_array_components [OF assms(1,4), of "\<lambda>d. timestamp_to_days_since_epoch (sint d) unit" field], fact assms(5))
      (force simp: from_liquid_timestamp_def)
qed

theorem squeezed_dates_keep_component_witness:
  "\<exists>la s u lt r w. from_arrow_array plain_kernels serial_lanes P_Date32 sample_days = Some la
    \<and> from_liquid_date32 serial_lanes la Day = Some s \<and> to_component_date32 serial_lanes s = Some u \<and> pa_items u = [Some 29, None]
    \<and> from_arrow_array plain_kernels serial_lanes P_TimestampSecond sample_seconds = Some lt
    \<and> from_liquid_timestamp serial_lanes serial_lanes lt Second Day = Some r \<and> to_component_date32 serial_lanes r = Some w
    \<and> pa_items w = [Some 31]"
proof -
  obtain la lt where l: "from_arrow_array plain_kernels serial_lanes P_Date32 sample_days = Some la" "encodes serial_lanes la sample_days"
    "from_arrow_array plain_kernels serial_lanes P_TimestampSecond sample_seconds = Some lt" "encodes serial_lanes lt sample_seconds"
    using sample_column_encodes by blast
  have d: "component_from_days Day 19782 = Some 29" "component_from_days Day (timestamp_to_days_since_epoch (- 1) Second) = Some 31"
    "safe_day 19782" "safe_day (timestamp_to_days_since_epoch (- 1) Second)" by code_simp+
  from squeezed_dates_keep_component [OF serial_lanes_ok l(2) _ l(4), of Second Day] l(1,3) d
  show ?thesis by (auto simp: sample_values) (auto simp: sample_days_def sample_seconds_def)
qed

section \<open>Strings\<close>

text \<open>
  C34. An FSST array built from values, nulls among them, keeps them: the compact offsets, stored as
  residuals from a fitted line, read back exactly whatever the rounding of the fit; the bytes it
  is serialized to give it back; decompressing gives every value (a null is empty); and every
  compressed slice is the compression of its value. The compressed bytes fit 32-bit offsets and
  the plain ones an Arrow array.
\<close>

theorem fsst_array_roundtrip:
  assumes "fsst_ok Z" and "fsst_from_byte_array Z chk items c = Some fa"
    and "length (concat (compressed Z c items)) < 2 ^ 32" and "values_fit (map (case_option [] id) items)"
  shows "compact_offsets_all chk (fa_compact_offsets fa) = Some (snd (from_byte_slices Z c items))
    \<and> fsst_from_bytes chk (fsst_to_bytes fa) c = Some fa
    \<and> (\<exists>v. fsst_to_uncompressed Z chk fa = Some v \<and> byte_array_values v = map (case_option [] id) items)
    \<and> (\<forall>i < length items. fsst_compressed_slice chk fa i = Some (compressed Z c items ! i))"
proof -
  note f = fsst_slices_new [OF assms(2,3)]
  have d: "map (fc_decompress Z c) (compressed Z c items) = map (case_option [] id) items"
    using assms(1) by (auto simp: compressed_def fsst_ok_def split: option.splits)
  have "compact_offsets_all chk (fa_compact_offsets fa) = Some (snd (from_byte_slices Z c items))"
    using assms(2) compact_offsets_all_read by (auto simp: fsst_from_byte_array_def from_byte_offsets_def split: prod.splits)
  moreover have "fsst_from_bytes chk (fsst_to_bytes fa) c = Some fa" using fsst_bytes_read [OF f(1)] f(2) by simp
  moreover have "\<exists>v. fsst_to_uncompressed Z chk fa = Some v \<and> byte_array_values v = map (case_option [] id) items"
    using fsst_uncompressed_read [OF assms(1) f(1)] assms(4) unfolding f(2) d by simp
  moreover have "length (compressed Z c items) = length items" by (simp add: compressed_def)
  ultimately show ?thesis using fsst_slice_read [OF f(1)] by simp
qed

theorem fsst_array_roundtrip_witness:
  "\<exists>fa. fsst_from_byte_array stored False [Some [97, 98], None, Some [99]] () = Some fa
    \<and> fsst_from_bytes False (fsst_to_bytes fa) () = Some fa
    \<and> (\<exists>v. fsst_to_uncompressed stored False fa = Some v \<and> byte_array_values v = [[97, 98], [], [99]])"
proof -
  let ?items = "[Some [97, 98], None, Some [99]] :: bytes option list"
  obtain fa where fa: "fsst_from_byte_array stored False ?items () = Some fa" using fsst_new_total [of stored ?items "()"] by blast
  show ?thesis using fsst_array_roundtrip [OF stored_ok fa] fa by (simp add: compressed_def stored_def)
qed

text \<open>
  C35. A string column encoded as a byte-view array reads back row for row, in memory and from the
  bytes on disk after squeezing, in full and filtered by a selection; with overflow checks on,
  the dictionary must have fewer than 65536 values.
\<close>

theorem byte_view_rows_read:
  assumes "dict_builder_ok build" and "fsst_ok Z" and "kernels_ok K" and "fastlanes_ok F"
    and "from_byte_array_inner build Z chk rows c ty fing = Some bv" and "sizes_ok Z c (view_values build rows)"
    and "chk \<longrightarrow> length (view_values build rows) < 65536" and "view_fits F bv" and "length sel = length rows"
  shows "memory_to_arrow Z chk bv = Some rows \<and> memory_filter K Z chk bv sel = Some (filter_items rows sel)
    \<and> (\<exists>dv disk. view_squeeze F Z chk bv (Some substring) = Some (Some (dv, disk))
        \<and> disk_to_arrow F Z chk disk dv = Some rows \<and> disk_filter K F Z chk disk dv sel = Some (filter_items rows sel))"
proof -
  let ?vs = "view_values build rows"
  note v = view_of_rows [OF assms(1,5,2,6)]
  have chk: "chk \<Longrightarrow> length ?vs < 65536" using assms(7) by simp
  have sel: "length sel = length (pa_values (bv_dictionary_keys bv))" using v(5) assms(9) by simp
  note f = filter_keys_core [OF v(1) assms(3) sel]
  have m: "memory_to_arrow Z chk bv = Some rows" "memory_filter K Z chk bv sel = Some (filter_items rows sel)"
    using rows_read [OF v(1) memory_reads(1,2) [OF v(2)] v(4) chk] rows_read [OF f(1) memory_reads(1,2) [OF v(2)] v(4) chk] v(3) f(2)
    by (simp_all add: memory_to_arrow_def memory_filter_def)
  obtain dv bv' where dv: "view_squeeze F Z chk bv (Some substring) = Some (Some (dv, view_to_bytes_inner F bv))"
    "view_core ?vs dv" "bv_dictionary_keys dv = bv_dictionary_keys bv"
    "view_from_bytes F (view_to_bytes_inner F bv) (db_compressor (bv_fsst_buffer dv)) = Some bv'"
    "holds_values Z chk (bv_fsst_buffer bv') ?vs" "view_core ?vs bv'" "view_items ?vs bv' = view_items ?vs bv"
    using squeezed_view [OF v(1,2) assms(4,8)] by metis
  have "disk_to_arrow F Z chk (view_to_bytes_inner F bv) dv = Some rows"
    using rows_read [OF dv(6) memory_reads(1,2) [OF dv(5)] v(4) chk] v(3) dv(4,7) by (simp add: disk_to_arrow_def memory_to_arrow_def)
  moreover have "disk_filter K F Z chk (view_to_bytes_inner F bv) dv sel = Some (filter_items rows sel)"
  proof (cases "count_list sel True > 0")
    case True
    have sel': "length sel = length (pa_values (bv_dictionary_keys dv))" using sel dv(3) by simp
    note g = filter_keys_core [OF dv(2) assms(3) sel']
    show ?thesis using rows_read [OF g(1) disk_reads [OF dv(4,5)] v(4) chk] True g(2) v(3) view_items_keys [OF dv(3), of ?vs]
      by (simp add: disk_filter_def)
  qed (simp add: disk_filter_def filter_items_none)
  ultimately show ?thesis using m dv(1) by blast
qed

theorem byte_view_rows_read_witness:
  "\<exists>bv. from_byte_array_inner list_dict_builder stored False sample_rows () AB_Utf8 True = Some bv
    \<and> memory_to_arrow stored False bv = Some sample_rows
    \<and> memory_filter plain_kernels stored False bv [True, False, False, True] = Some [Some [97, 98, 99], Some [97, 98, 99]]
    \<and> (\<exists>dv disk. view_squeeze serial_lanes stored False bv (Some True) = Some (Some (dv, disk))
        \<and> disk_to_arrow serial_lanes stored False disk dv = Some sample_rows
        \<and> disk_filter plain_kernels serial_lanes stored False disk dv [True, False, False, True] = Some [Some [97, 98, 99], Some [97, 98, 99]])"
proof -
  obtain bv where bv: "from_byte_array_inner list_dict_builder stored False sample_rows () AB_Utf8 True = Some bv"
    "from_dict_array_inner stored False sample_dict () AB_Utf8 True = Some bv" by (rule sample_view)
  have "sizes_ok stored () (view_values list_dict_builder sample_rows)"
    using sample_sizes sample_dict_built by (simp add: view_values_def)
  from byte_view_rows_read [OF list_dict_builder_ok stored_ok plain_kernels_ok serial_lanes_ok bv(1) this _ sample_view_fits [OF bv(2)],
      of "[True, False, False, True]" True] bv(1)
  show ?thesis by (simp add: sample_rows_def filter_items_def)
qed



text \<open>
  C37. When comparisons on a byte-view array go wrong, exactly. An order comparison reads outside its
  answers when the shared prefix alone decides and a key is at least the number of rows (which
  filtering can bring about); a substring search panics on every pattern that is not \<open>%x%\<close>, and
  on a candidate when \<open>x\<close> is not UTF-8; and a negated search without candidates answers false
  for every row, where true is right.
\<close>

theorem byte_view_comparisons_fail:
  assumes "view_core vs bv" and "slots_ok vs bv" and "holds_values Z chk (bv_fsst_buffer bv) vs"
  shows "(memory_compare_with like fallback Z chk bv needle (BV_Comparison c) = None \<longleftrightarrow> compare_with_shared_prefix bv needle c \<noteq> None
        \<and> (\<exists>k \<in> set (pa_values (bv_dictionary_keys bv)). length (pa_values (bv_dictionary_keys bv)) \<le> unat k))
    \<and> (\<forall>fs negated. bv_string_fingerprints bv = Some fs \<longrightarrow>
        memory_compare_with like fallback Z chk bv needle (if negated then BV_NotContains else BV_Contains) = None
        \<longleftrightarrow> (case substring_pattern_bytes needle of None \<Rightarrow> True
             | Some x \<Rightarrow> \<not> utf8_valid x \<and> list_ex (\<lambda>v. might_contain (fingerprint_from_bytes v) (fingerprint_from_bytes x)) vs))
    \<and> (\<forall>fs x. bv_string_fingerprints bv = Some fs \<longrightarrow> substring_pattern_bytes needle = Some x
        \<longrightarrow> \<not> list_ex (\<lambda>v. might_contain (fingerprint_from_bytes v) (fingerprint_from_bytes x)) vs
        \<longrightarrow> (\<exists>m. memory_compare_with like fallback Z chk bv needle BV_NotContains = Some m
              \<and> ba_items m = map (map_option (\<lambda>_. False)) (view_items vs bv)))"
proof (intro conjI allI impI)
  show "memory_compare_with like fallback Z chk bv needle (BV_Comparison c) = None \<longleftrightarrow> compare_with_shared_prefix bv needle c \<noteq> None
        \<and> (\<exists>k \<in> set (pa_values (bv_dictionary_keys bv)). length (pa_values (bv_dictionary_keys bv)) \<le> unat k)"
    using order_fails_iff [OF assms] by (simp add: memory_compare_with_def)
next
  fix fs negated assume fs: "bv_string_fingerprints bv = Some fs"
  show "memory_compare_with like fallback Z chk bv needle (if negated then BV_NotContains else BV_Contains) = None
        \<longleftrightarrow> (case substring_pattern_bytes needle of None \<Rightarrow> True
             | Some x \<Rightarrow> \<not> utf8_valid x \<and> list_ex (\<lambda>v. might_contain (fingerprint_from_bytes v) (fingerprint_from_bytes x)) vs)"
    using substring_fails_iff [OF assms(1,2) memory_reads(1) [OF assms(3)] fs]
    by (simp add: memory_compare_with_def fs split: option.split)
next
  fix fs x assume fs: "bv_string_fingerprints bv = Some fs" and x: "substring_pattern_bytes needle = Some x"
    and n: "\<not> list_ex (\<lambda>v. might_contain (fingerprint_from_bytes v) (fingerprint_from_bytes x)) vs"
  show "\<exists>m. memory_compare_with like fallback Z chk bv needle BV_NotContains = Some m
      \<and> ba_items m = map (map_option (\<lambda>_. False)) (view_items vs bv)"
    using negated_without_candidates [OF assms(1,2) fs n] by (simp add: memory_compare_with_def fs x)
qed

theorem byte_view_comparisons_fail_witness:
  "\<exists>bv. from_byte_array_inner list_dict_builder stored False sample_rows () AB_Utf8 True = Some bv
    \<and> memory_compare_with plain_like (\<lambda>_ _ _. None) stored False (filter_keys plain_kernels bv [True, False, False, False]) [98]
        (BV_Comparison Cmp_Lt) = None
    \<and> (\<exists>m. memory_compare_with plain_like (\<lambda>_ _ _. None) stored False bv [37, 122, 37] BV_NotContains = Some m
        \<and> ba_items m = [Some False, None, Some False, Some False])"
proof -
  obtain bv where bv: "from_byte_array_inner list_dict_builder stored False sample_rows () AB_Utf8 True = Some bv"
    "from_dict_array_inner stored False sample_dict () AB_Utf8 True = Some bv" by (rule sample_view)
  let ?vs = "view_values list_dict_builder sample_rows" and ?sel = "[True, False, False, False]"
  have vs: "?vs = da_values sample_dict" using sample_dict_built by (simp add: view_values_def)
  have sz: "sizes_ok stored () ?vs" using sample_sizes unfolding vs .
  note v = view_of_rows [OF list_dict_builder_ok bv(1) stored_ok sz]
  have so: "slots_ok ?vs bv" by (rule v(6)) (simp add: vs sample_dict_def)
  have "dict_ok sample_dict" using list_dict_builder_ok sample_dict_built unfolding dict_builder_ok_def dict_ok_def by blast
  note w = view_new [OF bv(2) this stored_ok sample_sizes]
  have sp: "bv_shared_prefix bv = [97, 98, 99]" using w(7) by (simp add: sample_dict_def shared_prefix_of_def Let_def)
  have k: "bv_dictionary_keys bv = array_of_items [Some 1, None, Some 0, Some 1]" using w(4) by (simp add: sample_dict_def)
  have "length ?sel = length (pa_values (bv_dictionary_keys bv))" by (simp add: k array_of_items_def)
  note f = filter_keys_core [OF v(1) plain_kernels_ok this]
  have "bv_dictionary_keys (filter_keys plain_kernels bv ?sel) = array_of_items [Some 1]"
    by (simp add: filter_keys_def plain_kernels_def k filter_items_def)
  moreover have "compare_with_shared_prefix (filter_keys plain_kernels bv ?sel) [98] Cmp_Lt = Some True"
    by (simp add: compare_with_shared_prefix_def Let_def sp)
  ultimately have 1: "memory_compare_with plain_like (\<lambda>_ _ _. None) stored False (filter_keys plain_kernels bv ?sel) [98] (BV_Comparison Cmp_Lt) = None"
    using byte_view_comparisons_fail [OF f(1) f(3) [OF plain_slots_kept so], of stored False plain_like "\<lambda>_ _ _. None" "[98]" Cmp_Lt] v(2)
    by (simp add: array_of_items_def)
  obtain fs where fs: "bv_string_fingerprints bv = Some fs" using w(6) by blast
  have "\<not> list_ex (\<lambda>v. might_contain (fingerprint_from_bytes v) (fingerprint_from_bytes [122])) ?vs"
    unfolding vs sample_dict_def by code_simp
  moreover have "substring_pattern_bytes [37, 122, 37] = Some [122]" by code_simp
  ultimately have "\<exists>m. memory_compare_with plain_like (\<lambda>_ _ _. None) stored False bv [37, 122, 37] BV_NotContains = Some m
        \<and> ba_items m = map (map_option (\<lambda>_. False)) (view_items ?vs bv)"
    using byte_view_comparisons_fail [OF v(1) so v(2)] fs by blast
  moreover have "map (map_option (\<lambda>_. False)) (view_items ?vs bv) = [Some False, None, Some False, Some False]"
    unfolding v(3) by (simp add: sample_rows_def)
  ultimately show ?thesis using 1 bv(1) by metis
qed

text \<open>
  C38. A column of strings or binaries, stored as a dictionary with packed keys and compressed values,
  reads back row for row: in full, filtered before or after decompressing, and after it was written
  to bytes and read by the reader of all kinds. Fewer than 65536 distinct values are assumed; for
  exactly 65536 the width of a key would be 17 bits.
\<close>

theorem string_array_rows_read:
  assumes "fastlanes_ok F" and "dict_builder_ok build" and "fsst_ok Z" and "kernels_ok K"
    and "byte_from_byte_array build F Z chk rows c ty = Some la" and "sizes_ok Z c (view_values build rows)"
    and "length (view_values build rows) < 65536" and "length sel = length rows"
  shows "byte_to_dict_arrow F Z chk la = Some rows
    \<and> (\<exists>lb. byte_filter_inner K F la sel = Some lb \<and> byte_to_dict_arrow F Z chk lb = Some (filter_items rows sel))
    \<and> byte_to_dict_arrow_with_selection K F Z chk la sel = Some (filter_items rows sel)
    \<and> (dict_fits (lb_keys la) (lb_values la) \<longrightarrow>
        (\<exists>lb. read_from_bytes F T32 T64 chk (byte_to_bytes_inner la) (Some c) = Some (LA_ByteArray lb) \<and> byte_to_dict_arrow F Z chk lb = Some rows))"
proof -
  note n = byte_new_holds [OF assms(1-3,5-7)]
  have "\<exists>lb. byte_filter_inner K F la sel = Some lb \<and> byte_to_dict_arrow F Z chk lb = Some (filter_items rows sel)"
    using byte_filter_holds [OF n(1) assms(1,4)] byte_rows_read assms(8) unfolding n(2,3) by metis
  moreover have "\<exists>lb. read_from_bytes F T32 T64 chk (byte_to_bytes_inner la) (Some c) = Some (LA_ByteArray lb) \<and> byte_to_dict_arrow F Z chk lb = Some rows"
    if "dict_fits (lb_keys la) (lb_values la)"
    using byte_bytes_read [OF n(1) that] byte_rows_read unfolding n(2,4) by (fastforce simp: read_kinds)
  ultimately show ?thesis
    using byte_rows_read [OF n(1)] byte_selection_read [OF n(1) assms(4)] assms(8) unfolding n(2,3) by simp
qed

theorem string_array_rows_read_witness:
  "\<exists>la lb. byte_from_byte_array list_dict_builder serial_lanes stored False sample_rows () AB_Utf8 = Some la
    \<and> byte_to_dict_arrow serial_lanes stored False la = Some sample_rows
    \<and> byte_filter_inner plain_kernels serial_lanes la [True, False, False, True] = Some lb
    \<and> byte_to_dict_arrow serial_lanes stored False lb = Some [Some [97, 98, 99], Some [97, 98, 99]]"
proof -
  obtain la where la: "byte_from_byte_array list_dict_builder serial_lanes stored False sample_rows () AB_Utf8 = Some la" by (rule sample_strings)
  have "sizes_ok stored () (view_values list_dict_builder sample_rows)" "length (view_values list_dict_builder sample_rows) < 65536"
    using sample_sizes by (simp_all add: sample_string_values sample_dict_def)
  from string_array_rows_read [OF serial_lanes_ok list_dict_builder_ok stored_ok plain_kernels_ok la this, of "[True, False, False, True]"] la
  show ?thesis by (auto simp: sample_rows_def filter_items_def)
qed

text \<open>
  C39. Predicates on a column of strings are exact: equality, decided by comparing compressed bytes in
  the dictionary, and every other comparison and pattern match, on the rows that the selection keeps.
\<close>

theorem string_predicates_exact:
  assumes "fastlanes_ok F" and "dict_builder_ok build" and "fsst_ok Z" and "kernels_ok K" and "eq_kernel_ok E" and "apply_cmp_ok M C"
    and "M DF_Eq = (=)" and "M DF_NotEq = (\<noteq>)"
    and "byte_from_byte_array build F Z chk rows c ty = Some la" and "sizes_ok Z c (view_values build rows)"
    and "length (view_values build rows) < 65536" and "length sel = length rows" and "byte_question expr = Some (op, needle)"
  shows "\<exists>m. byte_try_eval_predicate C E K F Z chk la expr sel = Some (Some m)
    \<and> ba_items m = map (map_option (\<lambda>v. M op v needle)) (filter_items rows sel)"
proof -
  note n = byte_new_holds [OF assms(1-3,9-11)]
  have "\<exists>lb. byte_filter_inner K F la sel = Some lb \<and> dict_holds F Z chk (view_values build rows) (lb_keys lb) (lb_values lb)
      \<and> held_rows F (view_values build rows) (lb_keys lb) = filter_items rows sel"
    using byte_filter_holds [OF n(1) assms(1,4), of sel] assms(12) unfolding n(2,3) by blast
  then show ?thesis
    using byte_predicate_inner_right [OF _ assms(5,6) n(5) assms(7,8,13)] by (fastforce simp: byte_try_eval_predicate_def)
qed

theorem string_predicates_exact_witness:
  "\<exists>la m. byte_from_byte_array list_dict_builder serial_lanes stored False sample_rows () AB_Utf8 = Some la
    \<and> byte_try_eval_predicate string_cmp plain_eq plain_kernels serial_lanes stored False la
        (PE_Binary PE_Column DF_Eq (PE_Literal (SV_Bytes [97, 98, 99]))) [True, True, True, False] = Some (Some m)
    \<and> ba_items m = [Some True, None, Some False]"
proof -
  obtain la where la: "byte_from_byte_array list_dict_builder serial_lanes stored False sample_rows () AB_Utf8 = Some la" by (rule sample_strings)
  have "sizes_ok stored () (view_values list_dict_builder sample_rows)" "length (view_values list_dict_builder sample_rows) < 65536"
    using sample_sizes by (simp_all add: sample_string_values sample_dict_def)
  from string_predicates_exact [OF serial_lanes_ok list_dict_builder_ok stored_ok plain_kernels_ok plain_eq_ok string_cmp_ok string_op_eq la this,
      of "[True, True, True, False]" "PE_Binary PE_Column DF_Eq (PE_Literal (SV_Bytes [97, 98, 99]))"] la
  show ?thesis by (auto simp: sample_rows_def filter_items_def)
qed

text \<open>
  C40. A column of decimals, stored as a dictionary with packed keys and compressed values of a fixed
  width, reads back row for row, also after it was written to bytes and read, with its precision and
  scale.
\<close>

theorem decimal_array_roundtrip:
  assumes "fastlanes_ok F" and "dict_builder_ok build" and "fsst_ok Z"
    and "fixed_from_decimal_array build F Z chk rows c t = Some la" and "sizes_ok Z c (view_values build rows)"
    and "length (view_values build rows) < 65536" and "\<forall>v \<in> set (view_values build rows). length v = value_width t"
  shows "fixed_to_arrow_array F Z chk la = Some rows
    \<and> (dict_fits (fl_keys la) (fl_values la) \<longrightarrow>
        (\<exists>lb. read_from_bytes F T32 T64 chk (fixed_to_bytes_inner la) (Some c) = Some (LA_FixedLenByteArray lb)
          \<and> fl_arrow_type lb = t \<and> fixed_to_arrow_array F Z chk lb = Some rows))"
proof -
  note n = fixed_new_holds [OF assms(1-6)]
  have "\<exists>lb. read_from_bytes F T32 T64 chk (fixed_to_bytes_inner la) (Some c) = Some (LA_FixedLenByteArray lb)
      \<and> fl_arrow_type lb = t \<and> fixed_to_arrow_array F Z chk lb = Some rows" if "dict_fits (fl_keys la) (fl_values la)"
    using fixed_bytes_read [OF n(1) that] fixed_rows_read assms(7) unfolding n(2-4) by (fastforce simp: read_kinds)
  moreover have "fixed_to_arrow_array F Z chk la = Some rows" using fixed_rows_read [OF n(1)] assms(7) n(2,3) by simp
  ultimately show ?thesis by blast
qed

theorem decimal_array_roundtrip_witness:
  "\<exists>la. fixed_from_decimal_array list_dict_builder serial_lanes stored False sample_decimals () (Decimal128 10 2) = Some la
    \<and> fixed_to_arrow_array serial_lanes stored False la = Some sample_decimals"
proof -
  obtain la where la: "fixed_from_decimal_array list_dict_builder serial_lanes stored False sample_decimals () (Decimal128 10 2) = Some la"
    by (rule sample_decimal_array)
  have "sizes_ok stored () (view_values list_dict_builder sample_decimals)" "length (view_values list_dict_builder sample_decimals) < 65536"
    "\<forall>v \<in> set (view_values list_dict_builder sample_decimals). length v = value_width (Decimal128 10 2)"
    by (simp_all add: sample_decimal_values sizes_ok_def stored_def)
  from decimal_array_roundtrip [OF serial_lanes_ok list_dict_builder_ok stored_ok la this] la show ?thesis by blast
qed

end
